(* ===== verification/Prelude.thy ===== *)
theory Prelude
  imports Main "HOL-Library.Word" "HOL-Library.Multiset"
begin

text \<open>
  Shared vocabulary of the development: the names of the machine types, the checked and saturating
  operations of Rust's integers, slice access, errors as sums, and the generic facts on lists,
  words and sums the component theories rely on.

  Conventions. A Rust \<open>Result<A, E>\<close> is \<open>E + A\<close> with the error on the left. An operation that can
  panic returns an option whose \<open>None\<close> is the panic. The length of a slice is a natural number
  (Rust bounds it by \<open>isize::MAX\<close>); an integer that arrives from the caller keeps its width.
\<close>

unbundle bit_operations_syntax

section \<open>Machine types\<close>

type_synonym byte = "8 word"
type_synonym bytes = "byte list"
type_synonym u16 = "16 word"
type_synonym u32 = "32 word"
type_synonym u64 = "64 word"
type_synonym u128 = "128 word"
type_synonym usize = "64 word"

named_theorems slice_simps "reading and writing slices"
named_theorems result_simps "the error monad"

section \<open>Results\<close>

text \<open>The question-mark operator: the error leaves the function, the value goes on.\<close>

fun rbind :: "'e + 'a \<Rightarrow> ('a \<Rightarrow> 'e + 'b) \<Rightarrow> 'e + 'b" where
  "rbind (Inl e) f = Inl e"
| "rbind (Inr x) f = f x"

text \<open>An early return of an error unless a condition holds.\<close>

definition ensure :: "bool \<Rightarrow> 'e \<Rightarrow> 'e + unit" where
  "ensure b e = (if b then Inr () else Inl e)"

definition is_ok :: "'e + 'a \<Rightarrow> bool" where
  "is_ok r = (case r of Inl _ \<Rightarrow> False | Inr _ \<Rightarrow> True)"

text \<open>Collecting a list of fallible results, the first error winning.\<close>

fun rmap :: "('a \<Rightarrow> 'e + 'b) \<Rightarrow> 'a list \<Rightarrow> 'e + 'b list" where
  "rmap f [] = Inr []"
| "rmap f (x # xs) = rbind (f x) (\<lambda>y. rbind (rmap f xs) (\<lambda>ys. Inr (y # ys)))"

text \<open>The same for code that may also panic or leave the bounds of a buffer, which is \<open>None\<close>.\<close>

fun obind :: "('e + 'a) option \<Rightarrow> ('a \<Rightarrow> ('e + 'b) option) \<Rightarrow> ('e + 'b) option" where
  "obind None f = None"
| "obind (Some (Inl e)) f = Some (Inl e)"
| "obind (Some (Inr x)) f = f x"

fun omap :: "('a \<Rightarrow> ('e + 'b) option) \<Rightarrow> 'a list \<Rightarrow> ('e + 'b list) option" where
  "omap f [] = Some (Inr [])"
| "omap f (x # xs) = obind (f x) (\<lambda>y. obind (omap f xs) (\<lambda>ys. Some (Inr (y # ys))))"

lemma obind_Inr_iff [result_simps]: "obind r f = Some (Inr y) \<longleftrightarrow> (\<exists>x. r = Some (Inr x) \<and> f x = Some (Inr y))"
  by (cases "(r, f)" rule: obind.cases) auto

lemma omap_Inr_iff: "omap f xs = Some (Inr ys) \<longleftrightarrow> length ys = length xs \<and> (\<forall>i < length xs. f (xs ! i) = Some (Inr (ys ! i)))"
proof (induction xs arbitrary: ys)
  case (Cons x xs)
  show ?case
  proof (cases ys)
    case (Cons y ys')
    then show ?thesis using Cons.IH[of ys'] by (auto simp: result_simps All_less_Suc2)
  qed (auto simp: result_simps)
qed auto

lemma rbind_Inr_iff [result_simps]: "rbind r f = Inr y \<longleftrightarrow> (\<exists>x. r = Inr x \<and> f x = Inr y)"
  by (cases r) auto

lemma rbind_Inl_iff [result_simps]:
  "rbind r f = Inl e \<longleftrightarrow> r = Inl e \<or> (\<exists>x. r = Inr x \<and> f x = Inl e)"
  by (cases r) auto

lemma ensure_Inr_iff [result_simps]: "ensure b e = Inr u \<longleftrightarrow> b"
  by (simp add: ensure_def)

lemma ensure_Inl_iff [result_simps]: "ensure b e = Inl e' \<longleftrightarrow> \<not> b \<and> e' = e"
  by (auto simp: ensure_def)

lemma ensure_True [simp]: "ensure True e = Inr ()"
  by (simp add: ensure_def)

lemma ensure_False [simp]: "ensure False e = Inl e"
  by (simp add: ensure_def)

lemma is_ok_simps [simp]: "is_ok (Inr x)" "\<not> is_ok (Inl e)"
  by (simp_all add: is_ok_def)

lemma is_ok_iff: "is_ok r \<longleftrightarrow> (\<exists>x. r = Inr x)"
  by (cases r) auto

lemma rmap_Inr_iff:
  "rmap f xs = Inr ys \<longleftrightarrow> length ys = length xs \<and> (\<forall>i < length xs. f (xs ! i) = Inr (ys ! i))"
proof (induction xs arbitrary: ys)
  case (Cons x xs)
  show ?case
    by (cases ys) (auto simp: result_simps Cons All_less_Suc2)
qed auto

lemma rmap_total: "(\<And>x. x \<in> set xs \<Longrightarrow> f x = Inr (g x)) \<Longrightarrow> rmap f xs = Inr (map g xs)"
  by (induction xs) auto

lemma those_map_Some: "(\<And>x. x \<in> set xs \<Longrightarrow> f x = Some (g x)) \<Longrightarrow> those (map f xs) = Some (map g xs)"
  by (induction xs) auto

section \<open>Slices\<close>

definition slice_get :: "'a list \<Rightarrow> nat \<Rightarrow> 'a option" where
  "slice_get xs i = (if i < length xs then Some (xs ! i) else None)"

definition slice_set :: "'a list \<Rightarrow> nat \<Rightarrow> 'a \<Rightarrow> 'a list option" where
  "slice_set xs i x = (if i < length xs then Some (xs[i := x]) else None)"

lemma slice_get_Some [slice_simps]: "slice_get xs i = Some x \<longleftrightarrow> i < length xs \<and> xs ! i = x"
  by (simp add: slice_get_def)

lemma slice_get_in [slice_simps]: "i < length xs \<Longrightarrow> slice_get xs i = Some (xs ! i)"
  by (simp add: slice_get_def)

lemma slice_get_out [slice_simps]: "length xs \<le> i \<Longrightarrow> slice_get xs i = None"
  by (simp add: slice_get_def)

lemma slice_set_Some [slice_simps]: "slice_set xs i x = Some ys \<longleftrightarrow> i < length xs \<and> ys = xs[i := x]"
  by (auto simp: slice_set_def)

lemma slice_set_in [slice_simps]: "i < length xs \<Longrightarrow> slice_set xs i x = Some (xs[i := x])"
  by (simp add: slice_set_def)

section \<open>Integers\<close>

definition div_ceil :: "nat \<Rightarrow> nat \<Rightarrow> nat" where
  "div_ceil n d = (n + (d - 1)) div d"

text \<open>Rounding up to a multiple of four, written \<open>(n + 3) & !3\<close> in the source.\<close>

definition align4 :: "nat \<Rightarrow> nat" where
  "align4 n = (n + 3) div 4 * 4"

definition usize_max :: nat where
  "usize_max = 2 ^ 64 - 1"

definition u32_max :: nat where
  "u32_max = 2 ^ 32 - 1"

definition checked_add_usize :: "nat \<Rightarrow> nat \<Rightarrow> nat option" where
  "checked_add_usize a b = (if a + b \<le> usize_max then Some (a + b) else None)"

definition saturating_add_u8 :: "byte \<Rightarrow> byte \<Rightarrow> byte" where
  "saturating_add_u8 a b = (if unat a + unat b \<le> 255 then a + b else 255)"

definition is_power_of_two :: "nat \<Rightarrow> bool" where
  "is_power_of_two n \<longleftrightarrow> n > 0 \<and> n AND (n - 1) = 0"

text \<open>The number of set bits of a machine word (\<open>count_ones\<close>).\<close>

definition count_ones :: "'a::len word \<Rightarrow> nat" where
  "count_ones w = length (filter (bit w) [0..<LENGTH('a)])"

lemma align4_ge: "n \<le> align4 n"
  unfolding align4_def by presburger

lemma align4_dvd [simp]: "4 dvd align4 n"
  by (simp add: align4_def)

lemma align4_less: "align4 n < n + 4"
  unfolding align4_def by presburger

lemma div_ceil_8: "div_ceil n 8 = (n + 7) div 8"
  by (simp add: div_ceil_def)

lemma div_ceil_8_bounds: "n \<le> 8 * div_ceil n 8" "8 * div_ceil n 8 < n + 8"
  unfolding div_ceil_8 by linarith+

lemma less_div_ceil_8: "i < n \<Longrightarrow> i div 8 < div_ceil n 8"
  using div_ceil_8_bounds(1)[of n] by (simp add: less_mult_imp_div_less)

lemma unat_uminus: "(w::'a::len word) \<noteq> 0 \<Longrightarrow> unat (- w) = 2 ^ LENGTH('a) - unat w"
proof -
  assume "w \<noteq> 0"
  then have "0 < uint w" "uint w < 2 ^ LENGTH('a)"
    by (simp_all add: word_neq_0_conv word_less_def uint_lt2p)
  then have "uint (- w) = 2 ^ LENGTH('a) - uint w"
    by (subst uint_word_ariths, subst zmod_zminus1_eq_if) simp
  then have "int (unat (- w)) = int (2 ^ LENGTH('a) - unat w)"
    by (simp add: of_nat_diff order_less_imp_le flip: uint_nat)
  then show ?thesis by (simp only: of_nat_eq_iff)
qed

lemma unat_u32_max: "unat (- 1 :: u32) = 2 ^ 32 - 1"
  by (subst unat_uminus) simp_all

lemma ucast_back: "LENGTH('a) \<le> LENGTH('b) \<Longrightarrow> ucast (ucast (w::'a::len word) :: 'b::len word) = w"
  by (rule bit_eqI) (auto simp: bit_ucast_iff dest: bit_imp_le_length)

lemma unat_ucast_up: "LENGTH('a) \<le> LENGTH('b) \<Longrightarrow> unat (ucast (w::'a::len word) :: 'b::len word) = unat w"
proof -
  assume "LENGTH('a) \<le> LENGTH('b)"
  then have "(2::nat) ^ LENGTH('a) \<le> 2 ^ LENGTH('b)" by (simp add: power_increasing)
  then have "unat w < 2 ^ LENGTH('b)" using unsigned_less[of w, where ?'a = nat] by linarith
  then show ?thesis by (simp add: unsigned_ucast_eq take_bit_nat_eq_self)
qed

lemma unat_ucast_le: "unat (ucast (w::'a::len word) :: 'b::len word) \<le> unat w"
  by (simp add: unsigned_ucast_eq take_bit_nat_less_eq_self)

section \<open>Powers of two\<close>

function npow2_from :: "nat \<Rightarrow> nat \<Rightarrow> nat" where
  "npow2_from k n = (if n \<le> 2 ^ k then 2 ^ k else npow2_from (Suc k) n)"
  by pat_completeness auto

termination
proof (relation "measure (\<lambda>(k, n). n - k)")
  fix k n :: nat
  assume "\<not> n \<le> 2 ^ k"
  then have "k < n" using less_exp[of k] by linarith
  then show "((Suc k, n), k, n) \<in> measure (\<lambda>(k, n). n - k)" by simp
qed simp

declare npow2_from.simps [simp del]

definition next_power_of_two :: "nat \<Rightarrow> nat" where
  "next_power_of_two n = npow2_from 0 n"

lemma npow2_from_exp: "\<exists>j \<ge> k. npow2_from k n = 2 ^ j \<and> n \<le> 2 ^ j \<and> (j = k \<or> 2 ^ (j - 1) < n)"
proof (induction k n rule: npow2_from.induct)
  case (1 k n)
  show ?case
  proof (cases "n \<le> 2 ^ k")
    case True
    then show ?thesis by (auto simp: npow2_from.simps[of k n])
  next
    case False
    then obtain j where j: "Suc k \<le> j" "npow2_from (Suc k) n = 2 ^ j" "n \<le> 2 ^ j" "j = Suc k \<or> 2 ^ (j - 1) < n"
      using 1 by blast
    with False have "2 ^ (j - 1) < n" by auto
    with j False show ?thesis
      by (intro exI[of _ j]) (simp add: npow2_from.simps[of k n])
  qed
qed

lemma next_power_of_two_exp: "\<exists>j. next_power_of_two n = 2 ^ j \<and> n \<le> 2 ^ j \<and> (j = 0 \<or> 2 ^ (j - 1) < n)"
  using npow2_from_exp[of 0 n] by (auto simp: next_power_of_two_def)

lemma and_pow2_minus_1: "(n::nat) AND (2 ^ k - 1) = n mod 2 ^ k"
  by (metis take_bit_eq_mask take_bit_eq_mod mask_eq_exp_minus_1)

lemma and_pow2_minus_Suc: "(n::nat) AND (2 ^ k - Suc 0) = n mod 2 ^ k"
  using and_pow2_minus_1[of n k] by simp

section \<open>Little-endian bytes\<close>

definition le_bytes :: "'a::len word \<Rightarrow> bytes" where
  "le_bytes w = map (\<lambda>i. ucast (drop_bit (8 * i) w)) [0..<LENGTH('a) div 8]"

definition of_le_bytes :: "bytes \<Rightarrow> 'a::len word" where
  "of_le_bytes bs = foldr (\<lambda>b acc. push_bit 8 acc OR ucast b) bs 0"

lemma bit_of_le_bytes:
  "bit (of_le_bytes bs :: 'a::len word) i \<longleftrightarrow>
     i < LENGTH('a) \<and> i div 8 < length bs \<and> bit (bs ! (i div 8)) (i mod 8)"
proof (induction bs arbitrary: i)
  case (Cons b bs)
  have "bit (of_le_bytes (b # bs) :: 'a word) i \<longleftrightarrow>
      i < LENGTH('a) \<and> (8 \<le> i \<and> bit (of_le_bytes bs :: 'a word) (i - 8) \<or> bit b i)"
    by (auto simp: of_le_bytes_def bit_or_iff bit_push_bit_iff bit_ucast_iff)
  moreover have "bit b i \<Longrightarrow> i < 8" using bit_imp_le_length[of b i] by simp
  ultimately show ?case
    by (cases "i < 8") (auto simp: Cons le_div_geq le_mod_geq)
qed (simp add: of_le_bytes_def)

lemma le_bytes_length [simp]: "length (le_bytes (w::'a::len word)) = LENGTH('a) div 8"
  by (simp add: le_bytes_def)

lemma of_le_bytes_le_bytes: "8 dvd LENGTH('a) \<Longrightarrow> of_le_bytes (le_bytes (w::'a::len word)) = w"
  by (rule bit_eqI)
    (auto simp: bit_of_le_bytes le_bytes_def bit_ucast_iff bit_drop_bit_eq less_mult_imp_div_less)

section \<open>Lists\<close>

lemma filter_upt_split: "a \<le> b \<Longrightarrow> filter P [0..<b] = filter P [0..<a] @ filter P [a..<b]"
  by (metis filter_append le_add_diff_inverse upt_add_eq_append zero_le)

lemma length_filter_upt_shift:
  "length (filter P [k..<k + n]) = length (filter (\<lambda>i. P (k + i)) [0..<n])"
proof -
  have "[k..<k + n] = map (\<lambda>i. k + i) [0..<n]"
    by (simp add: map_add_upt add.commute[of k])
  then show ?thesis
    by (simp add: filter_map comp_def)
qed

lemma list_eq_by_nth: "length xs = length ys \<Longrightarrow> (\<And>i. i < length ys \<Longrightarrow> xs ! i = ys ! i) \<Longrightarrow> xs = ys"
  by (simp add: list_eq_iff_nth_eq)

lemma nth_list_update_if: "i < length xs \<Longrightarrow> xs[k := x] ! i = (if i = k then x else xs ! i)"
  by (simp add: nth_list_update)

section \<open>Decimal numerals\<close>

definition digit_char :: "nat \<Rightarrow> char" where
  "digit_char d = char_of (48 + d)"

fun show_nat :: "nat \<Rightarrow> string" where
  "show_nat n = (if n < 10 then [digit_char n] else show_nat (n div 10) @ [digit_char (n mod 10)])"

declare show_nat.simps [simp del]

lemma digit_char_inj: "d < 10 \<Longrightarrow> e < 10 \<Longrightarrow> digit_char d = digit_char e \<longleftrightarrow> d = e"
  by (simp add: digit_char_def char_of_eq_iff take_bit_nat_eq_self)

lemma show_nat_not_Nil [simp]: "show_nat n \<noteq> []"
  by (subst show_nat.simps) simp

lemma Nil_not_show_nat [simp]: "[] \<noteq> show_nat n"
  using show_nat_not_Nil[of n] by metis

lemma show_nat_inj: "show_nat m = show_nat n \<Longrightarrow> m = n"
proof (induction m arbitrary: n rule: less_induct)
  case (less m)
  show ?case
  proof (cases "m < 10")
    case True
    then have m: "show_nat m = [digit_char m]" by (simp add: show_nat.simps[of m])
    have n: "n < 10" using less.prems unfolding m by (simp add: show_nat.simps[of n] split: if_splits)
    then show ?thesis using less.prems True by (simp add: m show_nat.simps[of n] digit_char_inj)
  next
    case False
    then have m: "show_nat m = show_nat (m div 10) @ [digit_char (m mod 10)]"
      by (simp add: show_nat.simps[of m])
    have n: "\<not> n < 10" using less.prems unfolding m by (auto simp: show_nat.simps[of n])
    with less.prems m have eq: "show_nat (m div 10) = show_nat (n div 10)"
      "digit_char (m mod 10) = digit_char (n mod 10)"
      by (simp_all add: show_nat.simps[of n])
    have "m div 10 = n div 10" using less.IH[of "m div 10"] eq(1) False by simp
    moreover have "m mod 10 = n mod 10" using eq(2) by (simp add: digit_char_inj)
    ultimately show ?thesis by (metis div_mult_mod_eq)
  qed
qed

section \<open>Schedules of GPU threads\<close>

text \<open>The threads of a launch run in an unspecified order: a schedule is any permutation of them. The
  atomic operations of the kernels make each thread's effect a single step.\<close>

definition schedule_ok :: "nat \<Rightarrow> nat list \<Rightarrow> bool" where
  "schedule_ok n sched \<longleftrightarrow> mset sched = mset [0..<n]"

lemma schedule_set: "schedule_ok n sched \<Longrightarrow> set sched = {..<n}"
  unfolding schedule_ok_def by (metis atLeast0LessThan mset_eq_setD set_upt)

lemma schedule_filter_mset: "schedule_ok n sched \<Longrightarrow> mset (filter P sched) = mset (filter P [0..<n])"
  by (simp add: schedule_ok_def mset_filter)

lemma schedule_id: "schedule_ok n [0..<n]"
  by (simp add: schedule_ok_def)

lemma foldl_mset:
  assumes "\<And>a x y. f (f a x) y = f (f a y) x" and "mset xs = mset ys"
  shows "foldl f a xs = foldl f a ys"
proof -
  have "fold (\<lambda>x a. f a x) xs = fold (\<lambda>x a. f a x) ys"
    by (rule fold_multiset_equiv[OF _ assms(2)]) (simp add: fun_eq_iff assms(1))
  then show ?thesis by (simp add: foldl_conv_fold)
qed

end
