(* ===== verification/Bitmap.thy ===== *)
theory Bitmap
  imports Prelude
begin

text \<open>
  Arrow validity bitmaps: \<open>polars-metal-buffer/src/null_bitmap.rs\<close>, and the buffer checks and the
  bitmap packer of \<open>polars-metal-core/src/udf/common.rs\<close>. Bit \<open>i\<close> of the bitmap is bit \<open>i mod 8\<close> of
  byte \<open>i div 8\<close>. The abstract view of a bitmap is the predicate \<open>get_valid bm\<close> on rows; every
  operation is specified by what it does to that predicate.
\<close>

section \<open>null\_bitmap.rs\<close>

definition validity_bytes :: "nat \<Rightarrow> nat" where
  "validity_bytes row_count = div_ceil row_count 8"

definition get_valid :: "bytes \<Rightarrow> nat \<Rightarrow> bool" where
  "get_valid bm row =
     (case slice_get bm (row div 8) of
        None \<Rightarrow> False
      | Some b \<Rightarrow> drop_bit (row mod 8) b AND 1 = 1)"

text \<open>\<open>None\<close> is the panic of the slice index.\<close>

definition set_valid :: "bytes \<Rightarrow> nat \<Rightarrow> bool \<Rightarrow> bytes option" where
  "set_valid bm row valid =
     (let byte_idx = row div 8;
          mask = (push_bit (row mod 8) 1 :: byte)
      in case slice_get bm byte_idx of
           None \<Rightarrow> None
         | Some b \<Rightarrow> slice_set bm byte_idx (if valid then b OR mask else b AND NOT mask))"

definition count_valid :: "bytes \<Rightarrow> nat \<Rightarrow> nat" where
  "count_valid bm row_count =
     (let full_bytes = row_count div 8;
          trailing_bits = row_count mod 8;
          end = min full_bytes (length bm);
          total = sum_list (map count_ones (take end bm))
      in if trailing_bits > 0
         then let mask = (push_bit trailing_bits 1 - 1 :: byte);
                  trailing = (case slice_get bm full_bytes of None \<Rightarrow> 0 | Some b \<Rightarrow> b)
              in total + count_ones (trailing AND mask)
         else total)"

definition load_chunk_8 :: "bytes \<Rightarrow> nat \<Rightarrow> byte" where
  "load_chunk_8 bm row_start = (case slice_get bm (row_start div 8) of None \<Rightarrow> 0 | Some b \<Rightarrow> b)"

section \<open>udf/common.rs\<close>

definition cmp_out_min_bytes :: "nat \<Rightarrow> nat" where
  "cmp_out_min_bytes n_rows = (let raw = (n_rows + 7) div 8; padded = align4 raw in max padded 4)"

datatype buffer_error =
    DataBufferTooSmall nat usize usize
  | ValidityBufferTooSmall nat usize usize
  | BitpackedTooSmall string nat usize

text \<open>
  The row count comes from the caller, so the products and sums wrap at 64 bits as in a release
  build.
\<close>

definition check_numeric_buffers ::
  "bytes \<Rightarrow> bytes \<Rightarrow> usize \<Rightarrow> usize \<Rightarrow> buffer_error + unit" where
  "check_numeric_buffers data valid n_rows data_bytes_per_row =
     (let expected_data = n_rows * data_bytes_per_row in
      if of_nat (length data) < expected_data
      then Inl (DataBufferTooSmall (length data) expected_data n_rows)
      else let min_valid = (n_rows + 7) div 8 in
        if of_nat (length valid) < min_valid
        then Inl (ValidityBufferTooSmall (length valid) min_valid n_rows)
        else Inr ())"

definition check_bitpacked_buffer :: "bytes \<Rightarrow> usize \<Rightarrow> string \<Rightarrow> buffer_error + unit" where
  "check_bitpacked_buffer buf n_rows label =
     (let min_bytes = (n_rows + 7) div 8 in
      if of_nat (length buf) < min_bytes
      then Inl (BitpackedTooSmall label (length buf) n_rows)
      else Inr ())"

text \<open>The loop of \<open>pack_valid_bitmap\<close> from row \<open>i\<close> on; \<open>pack_index_in_range\<close> shows that its index is in range.\<close>

fun pack_bits_from :: "nat \<Rightarrow> bool list \<Rightarrow> bytes \<Rightarrow> bytes" where
  "pack_bits_from i [] out = out"
| "pack_bits_from i (b # bs) out =
     pack_bits_from (Suc i) bs
       (if b then out[drop_bit 3 i := out ! drop_bit 3 i OR push_bit (i AND 7) 1] else out)"

definition pack_valid_bitmap :: "bool list \<Rightarrow> bytes" where
  "pack_valid_bitmap bits =
     (let n_bytes = max (align4 ((length bits + 7) div 8)) 4
      in pack_bits_from 0 bits (replicate n_bytes 0))"

section \<open>Facts\<close>

lemma and_one_bit: "(w AND 1 = (1::'a::len word)) = bit w 0"
  by (metis and_one_eq bit_0 odd_iff_mod_2_eq_one one_neq_zero)

lemma get_valid_bit: "get_valid bm row \<longleftrightarrow> row div 8 < length bm \<and> bit (bm ! (row div 8)) (row mod 8)"
  by (simp add: get_valid_def slice_get_def and_one_bit bit_drop_bit_eq)

lemma get_valid_out: "8 * length bm \<le> row \<Longrightarrow> \<not> get_valid bm row"
  by (auto simp: get_valid_bit)

lemma get_valid_Nil [simp]: "\<not> get_valid [] row"
  by (simp add: get_valid_bit)

lemma get_valid_Cons: "get_valid (b # bm) row = (if row < 8 then bit b row else get_valid bm (row - 8))"
proof (cases "row < 8")
  case False
  then have "row div 8 = Suc ((row - 8) div 8)" "row mod 8 = (row - 8) mod 8"
    by (simp_all add: le_div_geq le_mod_geq)
  with False show ?thesis by (simp add: get_valid_bit)
qed (simp add: get_valid_bit)

lemma get_valid_replicate_0 [simp]: "\<not> get_valid (replicate n 0) row"
  by (auto simp: get_valid_bit)

lemma set_valid_Some:
  "set_valid bm row v = Some bm' \<longleftrightarrow>
     row div 8 < length bm \<and>
     bm' = bm[row div 8 := (if v then bm ! (row div 8) OR push_bit (row mod 8) 1
                            else bm ! (row div 8) AND NOT (push_bit (row mod 8) 1))]"
  by (auto simp: set_valid_def Let_def slice_get_def slice_set_def split: if_splits)

lemma set_valid_length: "set_valid bm row v = Some bm' \<Longrightarrow> length bm' = length bm"
  by (simp add: set_valid_Some)

lemma row_eq_iff: "(r = row) = (r div 8 = row div 8 \<and> r mod 8 = row mod (8::nat))"
  by (metis div_mult_mod_eq)

lemma bit_byte_mask: "n < 8 \<Longrightarrow> bit (2 ^ n :: byte) i \<longleftrightarrow> i = n"
  by (auto simp: bit_exp_iff)

lemma set_valid_get:
  assumes "set_valid bm row v = Some bm'"
  shows "get_valid bm' r = (if r = row then v else get_valid bm r)"
proof -
  from assms have len: "row div 8 < length bm" by (simp add: set_valid_Some)
  have m: "row mod 8 < 8" "r mod 8 < 8" by simp_all
  show ?thesis
  proof (cases "r div 8 = row div 8")
    case True
    with assms len show ?thesis
      by (cases "r mod 8 = row mod 8")
        (auto simp: get_valid_bit set_valid_Some bit_or_iff bit_and_iff bit_not_iff bit_byte_mask
          row_eq_iff[of r row])
  next
    case False
    with assms show ?thesis by (auto simp: get_valid_bit set_valid_Some)
  qed
qed

lemma load_chunk_8_bit: "8 dvd s \<Longrightarrow> i < 8 \<Longrightarrow> bit (load_chunk_8 bm s) i = get_valid bm (s + i)"
  by (auto simp: load_chunk_8_def get_valid_bit slice_get_def elim!: dvdE)

lemma count_ones_get_valid: "count_ones (b::byte) = length (filter (get_valid (b # bm)) [0..<8])"
  unfolding count_ones_def by (rule arg_cong[of _ _ length], rule filter_cong) (auto simp: get_valid_Cons)

lemma count_full_bytes:
  "sum_list (map count_ones (take k bm)) = length (filter (get_valid bm) [0..<8 * k])"
proof (induction bm arbitrary: k)
  case (Cons b bm)
  show ?case
  proof (cases k)
    case (Suc k')
    have eq: "[8..<8 * Suc k'] = [8..<8 + 8 * k']" by simp
    have "length (filter (get_valid (b # bm)) [0..<8 * Suc k'])
        = length (filter (get_valid (b # bm)) [0..<8]) + length (filter (get_valid (b # bm)) [8..<8 * Suc k'])"
      by (subst filter_upt_split[of 8]) simp_all
    also have "length (filter (get_valid (b # bm)) [8..<8 * Suc k']) = length (filter (get_valid bm) [0..<8 * k'])"
      unfolding eq by (subst length_filter_upt_shift) (simp add: get_valid_Cons)
    finally show ?thesis
      using Suc by (simp only: take_Suc_Cons list.map sum_list.Cons Cons count_ones_get_valid[of b bm])
  qed simp
qed simp

lemma count_trailing:
  assumes "t < 8"
  shows "count_ones (load_chunk_8 bm (8 * q) AND (push_bit t 1 - 1)) = length (filter (get_valid bm) [8 * q..<8 * q + t])"
proof -
  have mask: "push_bit t 1 - 1 = (mask t :: byte)"
    by (simp add: mask_eq_exp_minus_1 push_bit_eq_mult)
  have "count_ones (load_chunk_8 bm (8 * q) AND mask t)
      = length (filter (\<lambda>i. get_valid bm (8 * q + i) \<and> i < t) [0..<8])"
    unfolding count_ones_def
    by (rule arg_cong[of _ _ length], rule filter_cong)
       (auto simp: bit_and_iff bit_mask_iff load_chunk_8_bit)
  also have "\<dots> = length (filter (\<lambda>i. get_valid bm (8 * q + i)) [0..<t])"
  proof -
    have "filter (\<lambda>i. get_valid bm (8 * q + i) \<and> i < t) [0..<8]
        = filter (\<lambda>i. get_valid bm (8 * q + i) \<and> i < t) [0..<t]"
      using assms by (subst filter_upt_split[of t]) auto
    also have "\<dots> = filter (\<lambda>i. get_valid bm (8 * q + i)) [0..<t]"
      by (rule filter_cong) auto
    finally show ?thesis by simp
  qed
  finally show ?thesis by (simp only: mask length_filter_upt_shift)
qed

lemma count_valid_eq: "count_valid bm n = length (filter (get_valid bm) [0..<n])"
proof -
  have full: "sum_list (map count_ones (take (min (n div 8) (length bm)) bm))
      = length (filter (get_valid bm) [0..<8 * (n div 8)])"
    using count_full_bytes[of "n div 8" bm] by (cases "n div 8 \<le> length bm") simp_all
  have ld: "(case slice_get bm (n div 8) of None \<Rightarrow> 0 | Some b \<Rightarrow> b) = load_chunk_8 bm (8 * (n div 8))"
    by (simp add: load_chunk_8_def)
  have split: "length (filter (get_valid bm) [0..<n]) =
      length (filter (get_valid bm) [0..<8 * (n div 8)]) + length (filter (get_valid bm) [8 * (n div 8)..<n])"
    by (subst filter_upt_split[of "8 * (n div 8)"]) simp_all
  have n: "n = 8 * (n div 8) + n mod 8" by simp
  show ?thesis
    unfolding count_valid_def Let_def full ld split
    using count_trailing[of "n mod 8" bm "n div 8"] by (cases "n mod 8 = 0") auto
qed

text \<open>The packer.\<close>

lemma drop_bit_3: "drop_bit 3 (i::nat) = i div 8"
  by (simp add: drop_bit_eq_div)

lemma and_7: "(i::nat) AND 7 = i mod 8"
  using take_bit_eq_mask[of 3 i] by (simp add: take_bit_eq_mod mask_eq_exp_minus_1)

lemma pack_bits_from_length: "length (pack_bits_from i bs out) = length out"
  by (induction i bs out rule: pack_bits_from.induct) auto

lemma pack_step_get:
  "i div 8 < length out \<Longrightarrow>
     get_valid (out[drop_bit 3 i := out ! drop_bit 3 i OR push_bit (i AND 7) 1]) r = (r = i \<or> get_valid out r)"
  using set_valid_get[of out i True "out[drop_bit 3 i := out ! drop_bit 3 i OR push_bit (i AND 7) 1]" r]
  by (auto simp: set_valid_Some drop_bit_3 and_7)

lemma pack_bits_from_get:
  "i + length bs \<le> 8 * length out \<Longrightarrow>
     get_valid (pack_bits_from i bs out) r =
       (get_valid out r \<or> (i \<le> r \<and> r < i + length bs \<and> bs ! (r - i)))"
proof (induction i bs out rule: pack_bits_from.induct)
  case (2 i b bs out)
  then have i: "i div 8 < length out" by (simp add: less_mult_imp_div_less)
  let ?out = "if b then out[drop_bit 3 i := out ! drop_bit 3 i OR push_bit (i AND 7) 1] else out"
  have out: "get_valid ?out r = (r = i \<and> b \<or> get_valid out r)"
    using pack_step_get[OF i] by simp
  have nth: "r \<noteq> i \<Longrightarrow> i \<le> r \<Longrightarrow> (b # bs) ! (r - i) = bs ! (r - Suc i)"
    by (simp add: nth_Cons')
  have "get_valid (pack_bits_from i (b # bs) out) r =
      (get_valid ?out r \<or> (Suc i \<le> r \<and> r < Suc i + length bs \<and> bs ! (r - Suc i)))"
    using 2 by simp
  then show ?case
    unfolding out using nth by (cases "r = i") auto
qed auto

lemma pack_length:
  "length (pack_valid_bitmap bits) = max (align4 (div_ceil (length bits) 8)) 4"
  by (simp add: pack_valid_bitmap_def Let_def pack_bits_from_length div_ceil_8)

lemma pack_index_in_range: "i < length bits \<Longrightarrow> i div 8 < length (pack_valid_bitmap bits)"
  using less_div_ceil_8[of i "length bits"] align4_ge[of "div_ceil (length bits) 8"]
  unfolding pack_length by linarith

lemma pack_get: "get_valid (pack_valid_bitmap bits) r = (r < length bits \<and> bits ! r)"
proof -
  have "length bits \<le> 8 * max (align4 ((length bits + 7) div 8)) 4"
    using div_ceil_8_bounds(1)[of "length bits"] align4_ge[of "div_ceil (length bits) 8"]
    unfolding div_ceil_8 by linarith
  then show ?thesis
    by (simp add: pack_valid_bitmap_def Let_def pack_bits_from_get)
qed

text \<open>The abstract view of the first \<open>n\<close> rows, and the packer as its inverse.\<close>

definition unpack_bits :: "bytes \<Rightarrow> nat \<Rightarrow> bool list" where
  "unpack_bits bm n = map (get_valid bm) [0..<n]"

lemma unpack_length [simp]: "length (unpack_bits bm n) = n"
  by (simp add: unpack_bits_def)

lemma unpack_nth [simp]: "i < n \<Longrightarrow> unpack_bits bm n ! i = get_valid bm i"
  by (simp add: unpack_bits_def)

lemma unpack_pack: "unpack_bits (pack_valid_bitmap bits) (length bits) = bits"
  by (rule list_eq_by_nth) (simp_all add: pack_get)

text \<open>
  The checks on the caller's buffers are sound although their arithmetic wraps: no row count,
  however large, gets past them unless every row is covered by both buffers.
\<close>

lemma no_wrap_rows:
  fixes n :: usize
  assumes "of_nat len \<ge> (n + 7) div 8" and "len < 2 ^ 56" and "unat n \<le> 2 ^ 64 - 8"
  shows "unat n \<le> 8 * len"
proof -
  have "unat (n + 7) = unat n + 7"
    using assms(3) by (subst unat_add_lem[THEN iffD1]) auto
  moreover have "unat ((n + 7) div 8) \<le> len"
    using assms(1,2) by (simp add: word_le_nat_alt unat_of_nat)
  ultimately have "(unat n + 7) div 8 \<le> len"
    by (simp add: unat_div)
  then show ?thesis by linarith
qed

lemma wrapped_rows_large:
  fixes n w :: usize
  assumes "2 ^ 64 - 8 < unat n" and "1 \<le> unat w" and "unat w \<le> 8"
  shows "2 ^ 63 \<le> unat (n * w)"
proof -
  define k where "k = - n"
  have n0: "n \<noteq> 0" using assms(1) by auto
  have "unat k = 2 ^ 64 - unat n"
    using n0 by (simp add: k_def unat_uminus)
  then have k: "unat k < 8" "1 \<le> unat k"
    using assms(1) unsigned_less[of n, where ?'a = nat] by simp_all
  have kw: "unat k * unat w \<le> 56" "1 \<le> unat k * unat w"
    using mult_le_mono[of "unat k" 7 "unat w" 8] mult_le_mono[of 1 "unat k" 1 "unat w"] k assms(2,3)
    by simp_all
  then have ukw: "unat (k * w) = unat k * unat w"
    by (subst unat_mult_lem[THEN iffD1]) simp_all
  have "n * w = - (k * w)" by (simp add: k_def)
  moreover have "k * w \<noteq> 0" using ukw kw by auto
  ultimately have "unat (n * w) = 2 ^ 64 - unat k * unat w"
    by (simp add: unat_uminus ukw)
  then show ?thesis using kw by simp
qed

lemma no_wrap_data:
  fixes n w :: usize
  assumes "of_nat len \<ge> n * w" and "len < 2 ^ 56" and "unat n < 2 ^ 60" and "unat w \<le> 8"
  shows "unat n * unat w \<le> len"
proof -
  have "unat n * unat w \<le> 2 ^ 60 * 8"
    using assms(3,4) by (intro mult_le_mono) simp_all
  then have "unat (n * w) = unat n * unat w"
    by (subst unat_mult_lem[THEN iffD1]) simp_all
  with assms(1,2) show ?thesis
    by (simp add: word_le_nat_alt unat_of_nat)
qed

lemma numeric_buffers_cover:
  fixes n w :: usize
  assumes ok: "check_numeric_buffers data valid n w = Inr ()"
    and len: "length data < 2 ^ 56" "length valid < 2 ^ 56" and w: "1 \<le> unat w" "unat w \<le> 8"
  shows "unat n * unat w \<le> length data \<and> unat n \<le> 8 * length valid"
proof -
  from ok have d: "n * w \<le> of_nat (length data)" and v: "(n + 7) div 8 \<le> of_nat (length valid)"
    by (auto simp: check_numeric_buffers_def Let_def split: if_splits)
  have small: "unat n \<le> 2 ^ 64 - 8"
  proof (rule ccontr)
    assume "\<not> ?thesis"
    then have "2 ^ 63 \<le> unat (n * w)" using wrapped_rows_large w by simp
    with d len(1) show False by (simp add: word_le_nat_alt unat_of_nat)
  qed
  then have n: "unat n \<le> 8 * length valid" using no_wrap_rows v len(2) by blast
  with len(2) have "unat n < 2 ^ 60" by simp
  with no_wrap_data[OF d len(1) _ w(2)] n show ?thesis by blast
qed

section \<open>Properties\<close>

text \<open>C37. Writing one validity bit panics exactly when the row is outside the bitmap; otherwise it
  changes that row's bit and no other row, and keeps the length.\<close>

theorem set_valid_one_row:
  "(set_valid bm row v = None \<longleftrightarrow> length bm \<le> row div 8) \<and>
   (\<forall>bm'. set_valid bm row v = Some bm' \<longrightarrow>
      length bm' = length bm \<and> (\<forall>r. get_valid bm' r = (if r = row then v else get_valid bm r)))"
proof (intro conjI allI impI)
  show "(set_valid bm row v = None) = (length bm \<le> row div 8)"
    by (auto simp: set_valid_def Let_def slice_get_def slice_set_def split: option.splits)
qed (auto simp: set_valid_length set_valid_get)

lemma set_valid_one_row_witness:
  "length [0::byte, 2] = length [0::byte, 0] \<and>
   (\<forall>r. get_valid [0, 2] r = (if r = 9 then True else get_valid [0, 0] r))"
proof -
  have "set_valid [0, 0] 9 True = Some [0, 2]" by code_simp
  then show ?thesis using set_valid_one_row[of "[0, 0]" 9 True] by blast
qed

text \<open>C38. The byte-wise population count with its trailing mask counts the valid rows below the row
  count, for bitmaps that are too short as well; and a chunk load reads eight rows at once.\<close>

theorem count_valid_counts_rows:
  "count_valid bm n = card {r. r < n \<and> get_valid bm r} \<and>
   (\<forall>i < 8. bit (load_chunk_8 bm (8 * q)) i = get_valid bm (8 * q + i))"
proof
  have "{r. r < n \<and> get_valid bm r} = set (filter (get_valid bm) [0..<n])" by auto
  then show "count_valid bm n = card {r. r < n \<and> get_valid bm r}"
    by (simp only: count_valid_eq distinct_card distinct_filter distinct_upt)
  show "\<forall>i < 8. bit (load_chunk_8 bm (8 * q)) i = get_valid bm (8 * q + i)"
    by (simp add: load_chunk_8_bit)
qed

lemma count_valid_counts_rows_witness:
  "count_valid [0xFF, 0x01] 9 = card {r. r < 9 \<and> get_valid [0xFF, 0x01] r} \<and>
   bit (load_chunk_8 [0xFF, 0x01] (8 * 1)) 3 = get_valid [0xFF, 0x01] (8 * 1 + 3)"
proof -
  have "(3::nat) < 8" by simp
  with count_valid_counts_rows[of "[0xFF, 0x01]" 9 1] show ?thesis by blast
qed

text \<open>C33. Packing a boolean vector and reading it back gives the vector, with every padding bit
  invalid, and the buffer is a non-empty multiple of four bytes, as the atomic kernels require.\<close>

theorem pack_valid_bitmap_roundtrip:
  "unpack_bits (pack_valid_bitmap bits) (length bits) = bits \<and>
   (\<forall>r \<ge> length bits. \<not> get_valid (pack_valid_bitmap bits) r) \<and>
   length (pack_valid_bitmap bits) = cmp_out_min_bytes (length bits) \<and>
   4 dvd length (pack_valid_bitmap bits) \<and>
   count_valid (pack_valid_bitmap bits) (length bits) = length (filter id bits)"
proof -
  have "map (get_valid (pack_valid_bitmap bits)) [0..<length bits] = bits"
    using unpack_pack[of bits] by (simp add: unpack_bits_def)
  then have "length (filter id (map (get_valid (pack_valid_bitmap bits)) [0..<length bits])) = length (filter id bits)"
    by (simp only:)
  then have "count_valid (pack_valid_bitmap bits) (length bits) = length (filter id bits)"
    by (simp add: count_valid_eq filter_map comp_def)
  then show ?thesis
    by (simp add: unpack_pack pack_get pack_length cmp_out_min_bytes_def Let_def div_ceil_8 max_def)
qed

lemma pack_valid_bitmap_roundtrip_witness:
  "unpack_bits (pack_valid_bitmap [True, False]) (length [True, False]) = [True, False] \<and>
   \<not> get_valid (pack_valid_bitmap [True, False]) 5"
  using pack_valid_bitmap_roundtrip[of "[True, False]"] by simp

text \<open>C39. The checks on the buffers of a numeric column are sound even though their arithmetic wraps at
  64 bits: for elements of 1 to 8 bytes and buffers shorter than 2^56 bytes, any row count that they accept is
  covered by both buffers. (A width beyond 8 can wrap to 0, and an empty buffer is then accepted.)\<close>

theorem check_numeric_buffers_sound:
  fixes n w :: usize
  assumes "check_numeric_buffers data valid n w = Inr ()"
    and "length data < 2 ^ 56" and "length valid < 2 ^ 56" and "1 \<le> unat w" and "unat w \<le> 8"
  shows "unat n * unat w \<le> length data \<and> unat n \<le> 8 * length valid"
  by (rule numeric_buffers_cover[OF assms])

lemma check_numeric_buffers_sound_witness:
  "unat (2::usize) * unat (8::usize) \<le> length (replicate 16 (0::byte)) \<and> unat (2::usize) \<le> 8 * length [3::byte]"
proof (rule check_numeric_buffers_sound)
  show "check_numeric_buffers (replicate 16 0) [3] 2 8 = Inr ()" by code_simp
qed simp_all

end
