(* ===== verification/Buffers.thy ===== *)
theory Buffers
  imports Prelude
begin

text \<open>
  Device memory: \<open>alignment.rs\<close>, \<open>device.rs\<close>, \<open>bridge.rs\<close> and \<open>staging.rs\<close> of
  \<open>polars-metal-buffer\<close>. A \<open>MetalBuffer\<close> is a handle on a region of unified memory, so memory is an
  explicit store from addresses to bytes and aliasing is sharing of addresses. What Metal and the
  operating system decide (the page size, where a new allocation goes, whether one is refused, what
  a fresh buffer contains) is a parameter, the record \<open>driver\<close>; \<open>driver_ok\<close> states what Apple
  documents of it: a new allocation does not overlap a live one and starts at a page boundary.
\<close>

section \<open>Memory and driver\<close>

record mem =
  heap :: "nat \<Rightarrow> byte"
  live :: "(nat \<times> nat) list"

record driver =
  drv_page_size :: nat
  drv_alloc :: "mem \<Rightarrow> nat \<Rightarrow> nat option"
  drv_wrap :: "mem \<Rightarrow> nat \<Rightarrow> nat \<Rightarrow> bool"
  drv_junk :: "nat \<Rightarrow> byte"

definition disjoint_regions :: "nat \<times> nat \<Rightarrow> nat \<times> nat \<Rightarrow> bool" where
  "disjoint_regions r s \<longleftrightarrow> fst r + snd r \<le> fst s \<or> fst s + snd s \<le> fst r"

definition driver_ok :: "driver \<Rightarrow> bool" where
  "driver_ok drv \<longleftrightarrow> drv_page_size drv > 0 \<and>
     (\<forall>m n a. drv_alloc drv m n = Some a \<longrightarrow>
        0 < a \<and> drv_page_size drv dvd a \<and> (\<forall>r \<in> set (live m). disjoint_regions (a, n) r))"

definition read_mem :: "mem \<Rightarrow> nat \<Rightarrow> nat \<Rightarrow> bytes" where
  "read_mem m a n = map (heap m) [a..<a + n]"

definition write_mem :: "mem \<Rightarrow> nat \<Rightarrow> bytes \<Rightarrow> mem" where
  "write_mem m a bs = m\<lparr>heap := (\<lambda>x. if a \<le> x \<and> x < a + length bs then bs ! (x - a) else heap m x)\<rparr>"

section \<open>alignment.rs\<close>

definition is_aligned :: "nat \<Rightarrow> nat \<Rightarrow> bool" where
  "is_aligned ptr align \<longleftrightarrow> ptr AND (align - 1) = 0"

definition is_ptr_page_aligned :: "driver \<Rightarrow> nat \<Rightarrow> bool" where
  "is_ptr_page_aligned drv ptr = is_aligned ptr (drv_page_size drv)"

definition is_page_aligned :: "driver \<Rightarrow> nat \<Rightarrow> nat \<Rightarrow> bool" where
  "is_page_aligned drv ptr len =
     (let page = drv_page_size drv in is_aligned ptr page \<and> is_aligned len page)"

section \<open>The handle\<close>

datatype buffer_err =
    Alignment nat nat nat
  | ValidityShape nat nat
  | AllocationFailed nat

text \<open>An Arrow buffer: a pointer and a length. The \<open>Arc\<close> that keeps it alive is the value itself.\<close>

record arrow_buffer =
  arrow_ptr :: nat
  arrow_len :: nat

datatype metal_buffer =
  MetalBuffer (buf_base: nat) (buf_len: nat) (buf_owner: "arrow_buffer option")
    (buf_view_parent: "metal_buffer option")

definition from_metal_owned :: "nat \<Rightarrow> nat \<Rightarrow> metal_buffer" where
  "from_metal_owned base len = MetalBuffer base len None None"

definition shallow_clone :: "metal_buffer \<Rightarrow> metal_buffer" where
  "shallow_clone b = MetalBuffer (buf_base b) (buf_len b) (buf_owner b) (buf_view_parent b)"

definition buf_is_empty :: "metal_buffer \<Rightarrow> bool" where
  "buf_is_empty b \<longleftrightarrow> buf_len b = 0"

definition as_slice :: "mem \<Rightarrow> metal_buffer \<Rightarrow> bytes" where
  "as_slice m b = read_mem m (buf_base b) (buf_len b)"

text \<open>Copying \<open>src\<close> over the prefix of the buffer's slice; \<open>None\<close> is the panic of the range index.\<close>

definition copy_to_prefix :: "mem \<Rightarrow> metal_buffer \<Rightarrow> bytes \<Rightarrow> mem option" where
  "copy_to_prefix m b src =
     (if length src \<le> buf_len b then Some (write_mem m (buf_base b) src) else None)"

section \<open>device.rs: allocation\<close>

definition new_buffer_filled :: "driver \<Rightarrow> mem \<Rightarrow> bytes \<Rightarrow> mem \<times> (buffer_err + metal_buffer)" where
  "new_buffer_filled drv m bs =
     (case drv_alloc drv m (length bs) of
        None \<Rightarrow> (m, Inl (AllocationFailed (length bs)))
      | Some a \<Rightarrow> ((write_mem m a bs)\<lparr>live := (a, length bs) # live m\<rparr>,
                   Inr (from_metal_owned a (length bs))))"

definition new_buffer_zeroed :: "driver \<Rightarrow> mem \<Rightarrow> nat \<Rightarrow> mem \<times> (buffer_err + metal_buffer)" where
  "new_buffer_zeroed drv m n =
     (if n = 0 then (m, Inl (AllocationFailed 0)) else new_buffer_filled drv m (replicate n 0))"

definition new_buffer_from_bytes :: "driver \<Rightarrow> mem \<Rightarrow> bytes \<Rightarrow> mem \<times> (buffer_err + metal_buffer)" where
  "new_buffer_from_bytes drv m bs =
     (if length bs = 0 then (m, Inl (AllocationFailed 0)) else new_buffer_filled drv m bs)"

definition new_buffer_uninit :: "driver \<Rightarrow> mem \<Rightarrow> nat \<Rightarrow> mem \<times> (buffer_err + metal_buffer)" where
  "new_buffer_uninit drv m n =
     (if n = 0 then (m, Inl (AllocationFailed 0))
      else new_buffer_filled drv m (map (drv_junk drv) [0..<n]))"

section \<open>bridge.rs\<close>

definition zero_copy :: "driver \<Rightarrow> mem \<Rightarrow> arrow_buffer \<Rightarrow> mem \<times> (buffer_err + metal_buffer)" where
  "zero_copy drv m arrow =
     (let len = arrow_len arrow; ptr = arrow_ptr arrow in
      if ptr = 0 then (m, Inl (AllocationFailed len))
      else if drv_wrap drv m ptr len then (m, Inr (MetalBuffer ptr len (Some arrow) None))
      else (m, Inl (AllocationFailed len)))"

definition copy_arrow :: "driver \<Rightarrow> mem \<Rightarrow> arrow_buffer \<Rightarrow> mem \<times> (buffer_err + metal_buffer)" where
  "copy_arrow drv m arrow =
     (let len = arrow_len arrow; ptr = arrow_ptr arrow in
      if len = 0 then (m, Inl (AllocationFailed 0))
      else if ptr = 0 then (m, Inl (AllocationFailed len))
      else new_buffer_filled drv m (read_mem m ptr len))"

definition from_arrow :: "driver \<Rightarrow> mem \<Rightarrow> arrow_buffer \<Rightarrow> mem \<times> (buffer_err + metal_buffer)" where
  "from_arrow drv m arrow =
     (if arrow_len arrow > 0 \<and> is_page_aligned drv (arrow_ptr arrow) (arrow_len arrow)
      then zero_copy drv m arrow else copy_arrow drv m arrow)"

definition from_borrowed_bytes ::
  "driver \<Rightarrow> mem \<Rightarrow> nat \<Rightarrow> nat \<Rightarrow> mem \<times> (buffer_err + metal_buffer)" where
  "from_borrowed_bytes drv m ptr len =
     (if len = 0 then (m, Inl (AllocationFailed 0))
      else if ptr = 0 then (m, Inl (AllocationFailed len))
      else if is_ptr_page_aligned drv ptr
      then (if drv_wrap drv m ptr len then (m, Inr (MetalBuffer ptr len None None))
            else (m, Inl (AllocationFailed len)))
      else new_buffer_filled drv m (read_mem m ptr len))"

text \<open>The typed constructors multiply the element count by the element size first.\<close>

definition from_borrowed ::
  "driver \<Rightarrow> mem \<Rightarrow> nat \<Rightarrow> nat \<Rightarrow> nat \<Rightarrow> mem \<times> (buffer_err + metal_buffer)" where
  "from_borrowed drv m ptr n_elements elem_size = from_borrowed_bytes drv m ptr (n_elements * elem_size)"

definition from_typed_slice ::
  "driver \<Rightarrow> mem \<Rightarrow> 'a::len word list \<Rightarrow> mem \<times> (buffer_err + metal_buffer)" where
  "from_typed_slice drv m data = new_buffer_from_bytes drv m (concat (map le_bytes data))"

definition to_typed_vec :: "mem \<Rightarrow> metal_buffer \<Rightarrow> 'a::len word list" where
  "to_typed_vec m b =
     (let bs = as_slice m b; k = LENGTH('a) div 8; n = length bs div k
      in map (\<lambda>i. of_le_bytes (take k (drop (i * k) bs))) [0..<n])"

definition view_into ::
  "driver \<Rightarrow> mem \<Rightarrow> metal_buffer \<Rightarrow> nat \<Rightarrow> nat \<Rightarrow> buffer_err + metal_buffer" where
  "view_into drv m parent offset len =
     (if len = 0 then Inl (AllocationFailed 0)
      else case checked_add_usize offset len of
        None \<Rightarrow> Inl (AllocationFailed len)
      | Some end \<Rightarrow>
          if end > buf_len parent then Inl (AllocationFailed len)
          else let view_ptr = buf_base parent + offset in
            if view_ptr = 0 then Inl (AllocationFailed len)
            else if drv_wrap drv m view_ptr len
            then Inr (MetalBuffer view_ptr len None (Some parent))
            else Inl (AllocationFailed len))"

section \<open>staging.rs\<close>

record staging_pool =
  pool_buf :: "metal_buffer option"

definition staging_new :: staging_pool where
  "staging_new = \<lparr>pool_buf = None\<rparr>"

text \<open>\<open>None\<close> is the panic of the range index, which \<open>stage_total\<close> rules out.\<close>

definition stage ::
  "driver \<Rightarrow> mem \<Rightarrow> staging_pool \<Rightarrow> bytes \<Rightarrow> (mem \<times> staging_pool \<times> (buffer_err + metal_buffer)) option" where
  "stage drv m pool src =
     (let need = length src in
      if need = 0 then Some (m, pool, Inl (AllocationFailed 0))
      else let grow = (case pool_buf pool of None \<Rightarrow> True | Some b \<Rightarrow> buf_len b < need);
               (m1, r) = (if grow
                  then (case new_buffer_uninit drv m need of
                          (m', Inl e) \<Rightarrow> (m', Inl e)
                        | (m', Inr b) \<Rightarrow> (m', Inr (pool\<lparr>pool_buf := Some b\<rparr>)))
                  else (m, Inr pool))
        in case r of
             Inl e \<Rightarrow> Some (m1, pool, Inl e)
           | Inr pool1 \<Rightarrow>
               (case pool_buf pool1 of
                  None \<Rightarrow> Some (m1, pool1, Inl (AllocationFailed need))
                | Some b \<Rightarrow> (case copy_to_prefix m1 b src of
                              None \<Rightarrow> None
                            | Some m2 \<Rightarrow> Some (m2, pool1, Inr b))))"

section \<open>Facts\<close>

named_theorems buffer_defs "the constructors of buffers"

lemma is_aligned_dvd: "is_aligned ptr (2 ^ k) \<longleftrightarrow> 2 ^ k dvd ptr"
proof -
  have "ptr AND (2 ^ k - 1) = ptr mod 2 ^ k"
    by (metis take_bit_eq_mask take_bit_eq_mod mask_eq_exp_minus_1)
  then show ?thesis by (simp only: is_aligned_def mod_eq_0_iff_dvd)
qed

lemma read_mem_length [simp]: "length (read_mem m a n) = n"
  by (simp add: read_mem_def)

lemma read_mem_nth [simp]: "i < n \<Longrightarrow> read_mem m a n ! i = heap m (a + i)"
  by (simp add: read_mem_def)

lemma as_slice_length [simp]: "length (as_slice m b) = buf_len b"
  by (simp add: as_slice_def)

lemma write_mem_live [simp]: "live (write_mem m a bs) = live m"
  by (simp add: write_mem_def)

lemma read_mem_live [simp]: "read_mem (m\<lparr>live := l\<rparr>) a n = read_mem m a n"
  by (simp add: read_mem_def)

lemma read_write_same: "read_mem (write_mem m a bs) a (length bs) = bs"
  by (rule list_eq_by_nth) (simp_all add: write_mem_def)

lemma read_write_disjoint:
  "disjoint_regions (a, n) (c, length bs) \<Longrightarrow> read_mem (write_mem m c bs) a n = read_mem m a n"
  by (rule list_eq_by_nth) (auto simp: write_mem_def disjoint_regions_def)

lemma read_write_inside:
  assumes "off + length bs \<le> n"
  shows "read_mem (write_mem m (a + off) bs) a n =
    take off (read_mem m a n) @ bs @ drop (off + length bs) (read_mem m a n)"
  using assms by (intro list_eq_by_nth) (auto simp: write_mem_def nth_append)

lemma disjoint_regions_sym: "disjoint_regions r s = disjoint_regions s r"
  by (auto simp: disjoint_regions_def)

lemma new_buffer_filled_Inr:
  assumes "new_buffer_filled drv m bs = (m', Inr b)"
  shows "as_slice m' b = bs" "buf_len b = length bs"
    "live m' = (buf_base b, length bs) # live m" "drv_alloc drv m (length bs) = Some (buf_base b)"
    "b = from_metal_owned (buf_base b) (length bs)" "heap m' = heap (write_mem m (buf_base b) bs)"
  using assms
  by (auto simp: new_buffer_filled_def as_slice_def from_metal_owned_def read_write_same
      split: option.splits)

lemma new_buffer_filled_Inl: "new_buffer_filled drv m bs = (m', Inl e) \<Longrightarrow> m' = m \<and> e = AllocationFailed (length bs)"
  by (auto simp: new_buffer_filled_def split: option.splits)

lemma new_buffer_filled_frame:
  assumes "driver_ok drv" "new_buffer_filled drv m bs = (m', Inr b)" "(a, n) \<in> set (live m)"
  shows "read_mem m' a n = read_mem m a n \<and> disjoint_regions (buf_base b, buf_len b) (a, n)"
proof -
  have al: "drv_alloc drv m (length bs) = Some (buf_base b)" and len: "buf_len b = length bs"
    and hp: "heap m' = heap (write_mem m (buf_base b) bs)"
    using new_buffer_filled_Inr[OF assms(2)] by blast+
  have dis: "disjoint_regions (buf_base b, length bs) (a, n)"
    using assms(1,3) al unfolding driver_ok_def by blast
  have "read_mem m' a n = read_mem (write_mem m (buf_base b) bs) a n"
    by (simp only: read_mem_def hp)
  with read_write_disjoint[of a n "buf_base b" bs m] dis len show ?thesis
    by (simp add: disjoint_regions_sym)
qed

lemma from_arrow_slice:
  "from_arrow drv m arrow = (m', Inr b) \<Longrightarrow>
     as_slice m' b = read_mem m (arrow_ptr arrow) (arrow_len arrow) \<and> buf_len b = arrow_len arrow"
  by (auto simp: from_arrow_def zero_copy_def copy_arrow_def Let_def as_slice_def
      dest: new_buffer_filled_Inr split: if_splits)

lemma from_arrow_zero_copy:
  "from_arrow drv m arrow = (m', Inr b) \<Longrightarrow> is_page_aligned drv (arrow_ptr arrow) (arrow_len arrow) \<Longrightarrow>
     m' = m \<and> buf_base b = arrow_ptr arrow"
  by (auto simp: from_arrow_def zero_copy_def copy_arrow_def Let_def split: if_splits)

lemma from_arrow_copy:
  "driver_ok drv \<Longrightarrow> from_arrow drv m arrow = (m', Inr b) \<Longrightarrow>
     \<not> is_page_aligned drv (arrow_ptr arrow) (arrow_len arrow) \<Longrightarrow> (a, n) \<in> set (live m) \<Longrightarrow>
     read_mem m' a n = read_mem m a n \<and> disjoint_regions (buf_base b, buf_len b) (a, n)"
  by (rule new_buffer_filled_frame)
    (auto simp: from_arrow_def zero_copy_def copy_arrow_def Let_def split: if_splits)

text \<open>A view is a window on its parent: a write through it is the same write in the parent.\<close>

lemma view_into_Inr:
  "view_into drv m p off n = Inr v \<longleftrightarrow>
     0 < n \<and> off + n \<le> usize_max \<and> off + n \<le> buf_len p \<and> 0 < buf_base p + off \<and>
     drv_wrap drv m (buf_base p + off) n \<and> v = MetalBuffer (buf_base p + off) n None (Some p)"
  by (auto simp: view_into_def checked_add_usize_def Let_def split: if_splits)

lemma view_write:
  assumes "view_into drv m p off n = Inr v" "copy_to_prefix m' v bs = Some m2"
  shows "as_slice m2 p = take off (as_slice m' p) @ bs @ drop (off + length bs) (as_slice m' p)"
  using assms by (auto simp: view_into_Inr copy_to_prefix_def as_slice_def read_write_inside split: if_splits)

text \<open>Typed contents.\<close>

lemma concat_chunk:
  "(\<And>x. x \<in> set xs \<Longrightarrow> length (f x) = k) \<Longrightarrow> i < length xs \<Longrightarrow>
     take k (drop (i * k) (concat (map f xs))) = f (xs ! i)"
proof (induction xs arbitrary: i)
  case (Cons x xs)
  then have "length (f x) = k" by simp
  with Cons show ?case by (cases i) auto
qed simp

lemma concat_const_length:
  "(\<And>x. x \<in> set xs \<Longrightarrow> length (f x) = k) \<Longrightarrow> length (concat (map f xs)) = length xs * k"
  by (induction xs) auto

lemma typed_slice_vec:
  fixes data :: "'a::len word list"
  assumes "from_typed_slice drv m data = (m', Inr b)" "8 dvd LENGTH('a)"
  shows "to_typed_vec m' b = data"
proof -
  let ?k = "LENGTH('a) div 8"
  have k: "0 < ?k" using assms(2) by (simp add: dvd_imp_le div_greater_zero_iff)
  have sl: "as_slice m' b = concat (map le_bytes data)"
    using assms(1) new_buffer_filled_Inr(1)[of drv m "concat (map le_bytes data)"]
    by (auto simp: from_typed_slice_def new_buffer_from_bytes_def split: if_splits)
  have len: "length (concat (map le_bytes data)) div ?k = length data"
    using k concat_const_length[of data le_bytes ?k] by simp
  show ?thesis
    unfolding to_typed_vec_def Let_def sl len
    by (rule list_eq_by_nth)
      (simp_all add: concat_chunk[of data le_bytes] of_le_bytes_le_bytes assms(2))
qed

text \<open>The staging pool.\<close>

lemma new_buffer_uninit_cases:
  assumes "new_buffer_uninit drv m n = (m', r)" "0 < n"
  shows "(\<exists>b. r = Inr b \<and> buf_len b = n \<and> drv_alloc drv m n = Some (buf_base b)) \<or>
    (r = Inl (AllocationFailed n) \<and> m' = m)"
proof -
  have f: "new_buffer_filled drv m (map (drv_junk drv) [0..<n]) = (m', r)"
    using assms by (simp add: new_buffer_uninit_def)
  show ?thesis
  proof (cases r)
    case (Inl e)
    with new_buffer_filled_Inl[of drv m _ m' e] f show ?thesis by force
  next
    case (Inr b)
    with new_buffer_filled_Inr(2,4)[of drv m _ m' b] f show ?thesis by force
  qed
qed

definition pool_capacity :: "staging_pool \<Rightarrow> nat" where
  "pool_capacity pool = (case pool_buf pool of None \<Rightarrow> 0 | Some b \<Rightarrow> buf_len b)"

lemma stage_reuse:
  assumes "src \<noteq> []" "length src \<le> pool_capacity pool"
  shows "\<exists>b. pool_buf pool = Some b \<and>
    stage drv m pool src = Some (write_mem m (buf_base b) src, pool, Inr b)"
  using assms by (cases "pool_buf pool") (auto simp: pool_capacity_def stage_def Let_def copy_to_prefix_def)

lemma stage_grow:
  assumes "pool_capacity pool < length src"
  shows "(\<exists>m1 b. new_buffer_uninit drv m (length src) = (m1, Inr b) \<and> buf_len b = length src \<and>
       stage drv m pool src = Some (write_mem m1 (buf_base b) src, pool\<lparr>pool_buf := Some b\<rparr>, Inr b)) \<or>
    stage drv m pool src = Some (m, pool, Inl (AllocationFailed (length src)))"
proof -
  obtain m1 r where u: "new_buffer_uninit drv m (length src) = (m1, r)" by force
  have n: "0 < length src" using assms by linarith
  have g: "(case pool_buf pool of None \<Rightarrow> True | Some b \<Rightarrow> buf_len b < length src)"
    using assms by (auto simp: pool_capacity_def split: option.splits)
  from new_buffer_uninit_cases[OF u n] show ?thesis
    using u g n by (auto simp: stage_def Let_def copy_to_prefix_def)
qed

section \<open>Properties\<close>

text \<open>C30. A Metal buffer made from an Arrow buffer reads the Arrow buffer's bytes. When pointer and
  length are page-aligned it is the same memory and nothing is allocated; otherwise it is a fresh
  region, disjoint from every live one, none of which changes.\<close>

theorem from_arrow_contents:
  assumes "driver_ok drv" and "from_arrow drv m arrow = (m', Inr b)"
  shows "as_slice m' b = read_mem m (arrow_ptr arrow) (arrow_len arrow) \<and>
    (if is_page_aligned drv (arrow_ptr arrow) (arrow_len arrow)
     then m' = m \<and> buf_base b = arrow_ptr arrow \<and> buf_owner b = Some arrow
     else \<forall>(a, n) \<in> set (live m). read_mem m' a n = read_mem m a n \<and>
            disjoint_regions (buf_base b, buf_len b) (a, n))"
proof
  show "as_slice m' b = read_mem m (arrow_ptr arrow) (arrow_len arrow)"
    using from_arrow_slice[OF assms(2)] by blast
  show "if is_page_aligned drv (arrow_ptr arrow) (arrow_len arrow)
        then m' = m \<and> buf_base b = arrow_ptr arrow \<and> buf_owner b = Some arrow
        else \<forall>(a, n) \<in> set (live m). read_mem m' a n = read_mem m a n \<and>
               disjoint_regions (buf_base b, buf_len b) (a, n)"
  proof (cases "is_page_aligned drv (arrow_ptr arrow) (arrow_len arrow)")
    case True
    with assms(2) have "buf_owner b = Some arrow"
      by (auto simp: from_arrow_def zero_copy_def copy_arrow_def Let_def split: if_splits)
    with from_arrow_zero_copy[OF assms(2) True] True show ?thesis by simp
  next
    case False
    with from_arrow_copy[OF assms False] show ?thesis by auto
  qed
qed

text \<open>A driver that allocates above every live region, at the next page.\<close>

definition bump_driver :: driver where
  "bump_driver = \<lparr>drv_page_size = 4,
     drv_alloc = (\<lambda>m n. Some (4 * Suc (foldl max 0 (map (\<lambda>r. fst r + snd r) (live m))))),
     drv_wrap = (\<lambda>m a n. True), drv_junk = (\<lambda>_. 7)\<rparr>"

lemma foldl_max_ge: "a \<le> foldl max a (xs::nat list) \<and> (\<forall>x \<in> set xs. x \<le> foldl max a xs)"
proof (induction xs arbitrary: a)
  case (Cons x xs)
  from Cons[of "max a x"] show ?case by simp
qed simp

lemma bump_driver_ok: "driver_ok bump_driver"
  unfolding driver_ok_def
proof (intro conjI allI impI)
  fix m n a
  assume "drv_alloc bump_driver m n = Some a"
  then have a: "a = 4 * Suc (foldl max 0 (map (\<lambda>r. fst r + snd r) (live m)))" by (simp add: bump_driver_def)
  then show "0 < a" "drv_page_size bump_driver dvd a" by (simp_all add: bump_driver_def)
  show "\<forall>r \<in> set (live m). disjoint_regions (a, n) r"
  proof
    fix r assume "r \<in> set (live m)"
    then have "fst r + snd r \<le> foldl max 0 (map (\<lambda>r. fst r + snd r) (live m))"
      using foldl_max_ge[of 0 "map (\<lambda>r. fst r + snd r) (live m)"] by auto
    then show "disjoint_regions (a, n) r" by (simp add: disjoint_regions_def a)
  qed
qed (simp add: bump_driver_def)

definition demo_mem :: mem where
  "demo_mem = \<lparr>heap = (\<lambda>x. of_nat x), live = [(9, 2)]\<rparr>"

lemma from_arrow_contents_witness:
  "as_slice (fst (from_arrow bump_driver demo_mem \<lparr>arrow_ptr = 9, arrow_len = 2\<rparr>))
     (MetalBuffer 48 2 None None) = [9, 10]"
proof -
  have r: "from_arrow bump_driver demo_mem \<lparr>arrow_ptr = 9, arrow_len = 2\<rparr> =
      (fst (from_arrow bump_driver demo_mem \<lparr>arrow_ptr = 9, arrow_len = 2\<rparr>), Inr (MetalBuffer 48 2 None None))"
    by (simp add: from_arrow_def copy_arrow_def new_buffer_filled_def bump_driver_def demo_mem_def
        is_page_aligned_def is_aligned_def from_metal_owned_def)
  from from_arrow_contents[OF bump_driver_ok r, THEN conjunct1] show ?thesis
    by (simp add: read_mem_def demo_mem_def numeral_2_eq_2)
qed

text \<open>C31. Typed contents round-trip: a buffer made from a slice of integers (or float bit patterns) of
  any width reads back as that slice.\<close>

theorem typed_slice_roundtrip:
  fixes data :: "'a::len word list"
  assumes "from_typed_slice drv m data = (m', Inr b)" and "8 dvd LENGTH('a)"
  shows "to_typed_vec m' b = data"
  by (rule typed_slice_vec[OF assms])

lemma typed_slice_roundtrip_witness:
  "to_typed_vec (fst (from_typed_slice bump_driver demo_mem [258 :: 16 word, 3])) (MetalBuffer 48 4 None None)
     = [258 :: 16 word, 3]"
proof (rule typed_slice_roundtrip)
  show "from_typed_slice bump_driver demo_mem [258 :: 16 word, 3] =
      (fst (from_typed_slice bump_driver demo_mem [258 :: 16 word, 3]), Inr (MetalBuffer 48 4 None None))"
    by (simp add: from_typed_slice_def new_buffer_from_bytes_def new_buffer_filled_def bump_driver_def
        demo_mem_def from_metal_owned_def le_bytes_def)
qed simp

text \<open>C32. Staging never panics. A successful call leaves the source bytes at the front of the returned
  buffer, which is the pool's; the capacity never shrinks, and a request that fits reallocates
  nothing.\<close>

theorem staging_pool_correct:
  assumes "src \<noteq> []"
  shows "\<exists>m' pool' r. stage drv m pool src = Some (m', pool', r) \<and>
    pool_capacity pool \<le> pool_capacity pool' \<and>
    (length src \<le> pool_capacity pool \<longrightarrow> pool' = pool \<and> live m' = live m) \<and>
    (case r of
       Inl e \<Rightarrow> pool' = pool \<and> m' = m \<and> e = AllocationFailed (length src)
     | Inr b \<Rightarrow> pool_buf pool' = Some b \<and> take (length src) (as_slice m' b) = src)"
proof (cases "length src \<le> pool_capacity pool")
  case True
  then obtain b where b: "pool_buf pool = Some b"
    "stage drv m pool src = Some (write_mem m (buf_base b) src, pool, Inr b)"
    using stage_reuse[OF assms] by blast
  have "length src \<le> buf_len b" using True b(1) by (simp add: pool_capacity_def)
  then have "take (length src) (as_slice (write_mem m (buf_base b) src) b) = src"
    using read_write_inside[of 0 src "buf_len b" m "buf_base b"] by (simp add: as_slice_def)
  with b show ?thesis by simp
next
  case False
  then have f: "pool_capacity pool < length src" by simp
  show ?thesis
  proof (cases "stage drv m pool src = Some (m, pool, Inl (AllocationFailed (length src)))")
    case True
    with f show ?thesis by simp
  next
    case ne: False
    with stage_grow[OF f, of drv m] obtain m1 b where b: "buf_len b = length src"
      "stage drv m pool src = Some (write_mem m1 (buf_base b) src, pool\<lparr>pool_buf := Some b\<rparr>, Inr b)"
      by blast
    have "take (length src) (as_slice (write_mem m1 (buf_base b) src) b) = src"
      by (simp add: as_slice_def b(1) read_write_same)
    with b f show ?thesis by (simp add: pool_capacity_def)
  qed
qed

lemma staging_pool_correct_witness:
  "\<exists>m' pool' r. stage bump_driver demo_mem staging_new [1, 2] = Some (m', pool', r) \<and>
     pool_capacity staging_new \<le> pool_capacity pool'"
proof -
  have "[1, 2] \<noteq> ([] :: bytes)" by simp
  from staging_pool_correct[OF this, of bump_driver demo_mem staging_new] show ?thesis by blast
qed

end
