(* ===== verification/Arena.thy ===== *)
theory Arena
  imports Buffers
begin

text \<open>
  \<open>polars-metal-core/src/arena.rs\<close>: the per-query bump allocator, and the interface \<open>allocator\<close> its
  callers rely on: regions handed out one after the other never overlap.
\<close>

section \<open>The interface\<close>

fun run_allocs :: "('s \<Rightarrow> nat \<Rightarrow> 's \<times> ('e + 'v)) \<Rightarrow> 's \<Rightarrow> nat list \<Rightarrow> 's \<times> ('e + 'v) list" where
  "run_allocs f s [] = (s, [])"
| "run_allocs f s (n # ns) =
     (let (s1, r) = f s n; (s2, rs) = run_allocs f s1 ns in (s2, r # rs))"

fun oks :: "('e + 'v) list \<Rightarrow> 'v list" where
  "oks [] = []"
| "oks (Inl e # rs) = oks rs"
| "oks (Inr v # rs) = v # oks rs"

locale allocator =
  fixes alloc :: "'s \<Rightarrow> nat \<Rightarrow> 's \<times> ('e + 'v)"
    and region :: "'v \<Rightarrow> nat \<times> nat"
    and inv :: "'s \<Rightarrow> bool"
    and low :: "'s \<Rightarrow> nat"
    and high :: "'s \<Rightarrow> nat"
  assumes alloc_inv: "inv s \<Longrightarrow> inv (fst (alloc s n))"
    and alloc_low: "inv s \<Longrightarrow> low s \<le> low (fst (alloc s n))"
    and alloc_high: "inv s \<Longrightarrow> high (fst (alloc s n)) = high s"
    and alloc_region: "inv s \<Longrightarrow> alloc s n = (s', Inr v) \<Longrightarrow>
      low s \<le> fst (region v) \<and> snd (region v) = n \<and> fst (region v) + n \<le> low s'"
    and low_high: "inv s \<Longrightarrow> low s \<le> high s"
begin

lemma run_allocs_spec:
  "inv s \<Longrightarrow> run_allocs alloc s ns = (s', rs) \<Longrightarrow>
     inv s' \<and> low s \<le> low s' \<and> high s' = high s \<and>
     (\<forall>v \<in> set (oks rs). low s \<le> fst (region v) \<and> fst (region v) + snd (region v) \<le> low s') \<and>
     sorted_wrt (\<lambda>v w. fst (region v) + snd (region v) \<le> fst (region w)) (oks rs)"
proof (induction ns arbitrary: s rs)
  case (Cons n ns)
  obtain s1 r where a: "alloc s n = (s1, r)" by force
  obtain rs1 where run: "run_allocs alloc s1 ns = (s', rs1)" and rs: "rs = r # rs1"
    using Cons.prems(2) a by (auto split: prod.splits)
  have i: "inv s1" and l: "low s \<le> low s1" and h: "high s1 = high s"
    using alloc_inv[OF Cons.prems(1), of n] alloc_low[OF Cons.prems(1), of n]
      alloc_high[OF Cons.prems(1), of n] a by simp_all
  note IH = Cons.IH[OF i run]
  show ?case
  proof (cases r)
    case (Inl e)
    then have "oks rs = oks rs1" by (simp add: rs)
    with IH l h show ?thesis by fastforce
  next
    case (Inr v)
    then have o: "oks rs = v # oks rs1" by (simp add: rs)
    have v: "low s \<le> fst (region v)" "fst (region v) + snd (region v) \<le> low s1"
      using alloc_region[OF Cons.prems(1), of n s1 v] a Inr by simp_all
    show ?thesis
      unfolding o using IH l h v by fastforce
  qed
qed simp

lemma run_allocs_disjoint:
  assumes "inv s" "run_allocs alloc s ns = (s', rs)" "i < j" "j < length (oks rs)"
  shows "disjoint_regions (region (oks rs ! i)) (region (oks rs ! j))"
  using run_allocs_spec[OF assms(1,2)] assms(3,4)
  by (auto simp: disjoint_regions_def sorted_wrt_iff_nth_less)

lemma run_allocs_bounds:
  assumes "inv s" "run_allocs alloc s ns = (s', rs)" "v \<in> set (oks rs)"
  shows "low s \<le> fst (region v)" "fst (region v) + snd (region v) \<le> high s"
  using run_allocs_spec[OF assms(1,2)] assms(3) low_high[of s'] by fastforce+

end

section \<open>BumpArena\<close>

definition arena_align :: nat where
  "arena_align = 16"

record bump_arena =
  backing :: metal_buffer
  cursor :: nat

definition with_capacity :: "driver \<Rightarrow> mem \<Rightarrow> nat \<Rightarrow> mem \<times> (buffer_err + bump_arena)" where
  "with_capacity drv m n =
     (case new_buffer_zeroed drv m n of
        (m', Inl e) \<Rightarrow> (m', Inl e)
      | (m', Inr b) \<Rightarrow> (m', Inr \<lparr>backing = b, cursor = 0\<rparr>))"

text \<open>The mask \<open>& !(ARENA_ALIGN - 1)\<close> on a 64-bit integer.\<close>

definition mask_align :: "nat \<Rightarrow> nat" where
  "mask_align n = unat ((of_nat n :: usize) AND NOT (of_nat (arena_align - 1)))"

definition arena_alloc ::
  "driver \<Rightarrow> mem \<Rightarrow> bump_arena \<Rightarrow> nat \<Rightarrow> bump_arena \<times> (buffer_err + metal_buffer)" where
  "arena_alloc drv m ar n =
     (if n = 0 then (ar, Inl (AllocationFailed 0))
      else case checked_add_usize (cursor ar) (arena_align - 1) of
        None \<Rightarrow> (ar, Inl (AllocationFailed n))
      | Some c \<Rightarrow>
          let aligned_start = mask_align c in
          case checked_add_usize aligned_start n of
            None \<Rightarrow> (ar, Inl (AllocationFailed n))
          | Some aligned_end \<Rightarrow>
              if aligned_end > buf_len (backing ar) then (ar, Inl (AllocationFailed n))
              else case view_into drv m (backing ar) aligned_start n of
                Inl e \<Rightarrow> (ar, Inl e)
              | Inr view \<Rightarrow> (ar\<lparr>cursor := aligned_end\<rparr>, Inr view))"

definition arena_capacity :: "bump_arena \<Rightarrow> nat" where
  "arena_capacity ar = buf_len (backing ar)"

definition arena_used :: "bump_arena \<Rightarrow> nat" where
  "arena_used ar = cursor ar"

definition arena_shared :: "bump_arena \<Rightarrow> metal_buffer" where
  "arena_shared ar = backing ar"

definition arena_inv :: "bump_arena \<Rightarrow> bool" where
  "arena_inv ar \<longleftrightarrow> cursor ar \<le> buf_len (backing ar)"

definition arena_region :: "metal_buffer \<Rightarrow> nat \<times> nat" where
  "arena_region v = (buf_base v, buf_len v)"

lemma mask_align_eq: "n \<le> usize_max \<Longrightarrow> mask_align n = n div 16 * 16"
proof -
  assume n: "n \<le> usize_max"
  have m: "(15::usize) = mask 4" by (simp add: mask_eq_exp_minus_1)
  have "(of_nat n :: usize) AND NOT 15 = push_bit 4 (drop_bit 4 (of_nat n))"
    unfolding m
    by (rule bit_eqI) (auto simp: bit_and_iff bit_not_iff bit_push_bit_iff bit_drop_bit_eq bit_mask_iff)
  moreover have "unat (push_bit 4 (drop_bit 4 (of_nat n :: usize))) = n div 16 * 16"
  proof -
    have d: "unat ((of_nat n :: usize) div 16) = n div 16"
      using n by (simp add: unat_div unat_of_nat usize_max_def)
    have "n div 16 * 16 < 2 ^ 64"
      using n div_times_less_eq_dividend[of n 16] unfolding usize_max_def by simp
    then have "unat ((of_nat n :: usize) div 16 * 16) = n div 16 * 16"
      using d by (subst unat_mult_lem[THEN iffD1]) simp_all
    then show ?thesis by (simp add: push_bit_eq_mult drop_bit_eq_div)
  qed
  ultimately show ?thesis by (simp add: mask_align_def arena_align_def)
qed

lemma arena_alloc_Inr:
  assumes "arena_alloc drv m ar n = (ar', Inr v)"
  obtains start where "16 dvd start" "cursor ar \<le> start" "start < cursor ar + 16"
    "start + n \<le> buf_len (backing ar)" "0 < n"
    "v = MetalBuffer (buf_base (backing ar) + start) n None (Some (backing ar))"
    "ar' = ar\<lparr>cursor := start + n\<rparr>"
proof -
  let ?s = "mask_align (cursor ar + 15)"
  from assms have c: "cursor ar + 15 \<le> usize_max" and view: "view_into drv m (backing ar) ?s n = Inr v"
    and ar': "ar' = ar\<lparr>cursor := ?s + n\<rparr>" and bound: "?s + n \<le> buf_len (backing ar)" "0 < n"
    by (auto simp: arena_alloc_def checked_add_usize_def arena_align_def Let_def
        split: if_splits sum.splits)
  have s: "?s = (cursor ar + 15) div 16 * 16" using c by (rule mask_align_eq)
  show ?thesis
  proof (rule that[of ?s])
    show "16 dvd ?s" "cursor ar \<le> ?s" "?s < cursor ar + 16" unfolding s by (simp, linarith+)
  qed (use view bound ar' in \<open>auto simp: view_into_Inr\<close>)
qed

lemma arena_alloc_Inl: "arena_alloc drv m ar n = (ar', Inl e) \<Longrightarrow> ar' = ar"
  by (auto simp: arena_alloc_def Let_def split: if_splits option.splits sum.splits)

lemma arena_alloc_backing: "backing (fst (arena_alloc drv m ar n)) = backing ar"
  by (simp add: arena_alloc_def Let_def split: option.splits sum.splits)

interpretation arn: allocator "arena_alloc drv m" arena_region arena_inv
  "\<lambda>ar. buf_base (backing ar) + cursor ar" "\<lambda>ar. buf_base (backing ar) + buf_len (backing ar)" for drv m
proof (standard, goal_cases)
  case (1 s n)
  then show ?case
    by (cases "arena_alloc drv m s n"; cases "snd (arena_alloc drv m s n)")
      (auto simp: arena_inv_def dest: arena_alloc_Inl elim!: arena_alloc_Inr)
next
  case (2 s n)
  then show ?case
    by (cases "arena_alloc drv m s n"; cases "snd (arena_alloc drv m s n)")
      (auto dest: arena_alloc_Inl elim!: arena_alloc_Inr)
next
  case (4 s n s' v)
  from 4(2) show ?case by (auto simp: arena_region_def elim!: arena_alloc_Inr)
qed (simp_all add: arena_alloc_backing arena_inv_def)

text \<open>Offsets into the arena stay multiples of sixteen over any sequence of requests.\<close>

lemma run_allocs_aligned:
  "run_allocs (arena_alloc drv m) ar ns = (ar', rs) \<Longrightarrow> v \<in> set (oks rs) \<Longrightarrow>
     16 dvd (buf_base v - buf_base (backing ar)) \<and> buf_view_parent v = Some (backing ar)"
proof (induction ns arbitrary: ar rs)
  case (Cons n ns)
  obtain ar1 r where a: "arena_alloc drv m ar n = (ar1, r)" by force
  obtain rs1 where run: "run_allocs (arena_alloc drv m) ar1 ns = (ar', rs1)" and rs: "rs = r # rs1"
    using Cons.prems(1) a by (auto split: prod.splits)
  have b: "backing ar1 = backing ar" using arena_alloc_backing[of drv m ar n] a by simp
  show ?case
  proof (cases "v \<in> set (oks rs1)")
    case True
    then show ?thesis using Cons.IH[OF run] b by simp
  next
    case False
    with Cons.prems(2) rs obtain "r = Inr v" by (cases r) auto
    with a show ?thesis by (auto elim!: arena_alloc_Inr)
  qed
qed simp

section \<open>Properties\<close>

text \<open>C19. Any sequence of requests against a fresh arena, failures included, hands out views that lie in
  the backing buffer, start at a multiple of sixteen bytes from its base, keep it alive, and do not
  overlap pairwise; a write through one of them leaves the bytes of the others unchanged.\<close>

theorem arena_views_disjoint:
  assumes "with_capacity drv m0 sz = (m, Inr ar)"
    and "run_allocs (arena_alloc drv m) ar ns = (ar', rs)"
    and "i < length (oks rs)" and "j < length (oks rs)" and "i \<noteq> j"
  shows "16 dvd (buf_base (oks rs ! i) - buf_base (backing ar)) \<and>
    buf_base (backing ar) \<le> buf_base (oks rs ! i) \<and>
    buf_base (oks rs ! i) + buf_len (oks rs ! i) \<le> buf_base (backing ar) + sz \<and>
    buf_view_parent (oks rs ! i) = Some (backing ar) \<and>
    disjoint_regions (arena_region (oks rs ! i)) (arena_region (oks rs ! j)) \<and>
    (copy_to_prefix m1 (oks rs ! j) bs = Some m2 \<longrightarrow> as_slice m2 (oks rs ! i) = as_slice m1 (oks rs ! i))"
proof -
  have size: "buf_len (backing ar) = sz" and cur: "cursor ar = 0"
    using assms(1) new_buffer_filled_Inr(2)
    by (fastforce simp: with_capacity_def new_buffer_zeroed_def split: prod.splits sum.splits if_splits)+
  have inv: "arena_inv ar" by (simp add: arena_inv_def cur)
  have mem: "oks rs ! i \<in> set (oks rs)" using assms(3) by simp
  note al = run_allocs_aligned[OF assms(2) mem]
  note bounds = arn.run_allocs_bounds[OF inv assms(2) mem]
  have dis: "disjoint_regions (arena_region (oks rs ! i)) (arena_region (oks rs ! j))"
  proof (cases "i < j")
    case True
    then show ?thesis by (rule arn.run_allocs_disjoint[OF inv assms(2) _ assms(4)])
  next
    case False
    then have "j < i" using assms(5) by simp
    from arn.run_allocs_disjoint[OF inv assms(2) this assms(3)] show ?thesis
      by (simp add: disjoint_regions_sym)
  qed
  have "as_slice m2 (oks rs ! i) = as_slice m1 (oks rs ! i)" if c: "copy_to_prefix m1 (oks rs ! j) bs = Some m2"
  proof -
    have "m2 = write_mem m1 (buf_base (oks rs ! j)) bs" "length bs \<le> buf_len (oks rs ! j)"
      using c by (auto simp: copy_to_prefix_def split: if_splits)
    moreover have "disjoint_regions (buf_base (oks rs ! i), buf_len (oks rs ! i)) (buf_base (oks rs ! j), length bs)"
      using dis calculation(2) by (auto simp: disjoint_regions_def arena_region_def)
    ultimately show ?thesis by (simp add: as_slice_def read_write_disjoint)
  qed
  with al bounds dis show ?thesis by (simp add: arena_region_def size)
qed

lemma arena_views_disjoint_witness:
  "disjoint_regions (arena_region (MetalBuffer 48 3 None (Some (MetalBuffer 48 64 None None))))
     (arena_region (MetalBuffer 64 8 None (Some (MetalBuffer 48 64 None None))))"
proof -
  let ?b = "MetalBuffer 48 64 None None"
  let ?ar = "\<lparr>backing = ?b, cursor = 0\<rparr>"
  let ?m = "fst (with_capacity bump_driver demo_mem 64)"
  have w: "with_capacity bump_driver demo_mem 64 = (?m, Inr ?ar)"
    by (simp add: with_capacity_def new_buffer_zeroed_def new_buffer_filled_def bump_driver_def demo_mem_def from_metal_owned_def)
  have r: "run_allocs (arena_alloc bump_driver ?m) ?ar [3, 0, 8] =
      (\<lparr>backing = ?b, cursor = 24\<rparr>, [Inr (MetalBuffer 48 3 None (Some ?b)), Inl (AllocationFailed 0),
        Inr (MetalBuffer 64 8 None (Some ?b))])"
    by (simp add: arena_alloc_def checked_add_usize_def usize_max_def arena_align_def mask_align_eq
        view_into_def bump_driver_def Let_def)
  from arena_views_disjoint[OF w r, of 0 1] show ?thesis by simp
qed

end
