(* ===== verification/Interner.thy ===== *)
theory Interner
  imports Prelude
begin

text \<open>
  First-seen numbering of keys, the interface behind the dictionary encoder of
  \<open>polars-metal-buffer/src/dict.rs\<close>, the column slots of an aggregation signature
  (\<open>aggregate_fused/signature.rs\<close>) and the hash build of the group-by. The locale states what one
  interning step promises; its clients number whole sequences.
\<close>

definition push_new :: "'k list \<Rightarrow> 'k \<Rightarrow> 'k list" where
  "push_new order k = (if k \<in> set order then order else order @ [k])"

definition first_seen_from :: "'k list \<Rightarrow> 'k list \<Rightarrow> 'k list" where
  "first_seen_from order ks = foldl push_new order ks"

definition first_seen :: "'k list \<Rightarrow> 'k list" where
  "first_seen ks = first_seen_from [] ks"

fun intern_all :: "('s \<Rightarrow> 'k \<Rightarrow> 's \<times> nat) \<Rightarrow> 's \<Rightarrow> 'k list \<Rightarrow> 's \<times> nat list" where
  "intern_all f s [] = (s, [])"
| "intern_all f s (k # ks) =
     (let (s1, c) = f s k; (s2, cs) = intern_all f s1 ks in (s2, c # cs))"

lemma set_push_new [simp]: "set (push_new order k) = insert k (set order)"
  by (auto simp: push_new_def)

lemma distinct_push_new: "distinct order \<Longrightarrow> distinct (push_new order k)"
  by (simp add: push_new_def)

lemma length_push_new: "length (push_new order k) \<le> Suc (length order)"
  by (simp add: push_new_def)

lemma push_new_prefix: "i < length order \<Longrightarrow> push_new order k ! i = order ! i"
  by (simp add: push_new_def nth_append)

lemma length_push_new_mono: "length order \<le> length (push_new order k)"
  by (simp add: push_new_def)

lemma first_seen_from_simps [simp]:
  "first_seen_from order [] = order"
  "first_seen_from order (k # ks) = first_seen_from (push_new order k) ks"
  by (simp_all add: first_seen_from_def)

lemma first_seen_from_append:
  "first_seen_from order (ks @ ls) = first_seen_from (first_seen_from order ks) ls"
  by (simp add: first_seen_from_def)

lemma set_first_seen_from: "set (first_seen_from order ks) = set order \<union> set ks"
  by (induction ks arbitrary: order) auto

lemma distinct_first_seen_from: "distinct order \<Longrightarrow> distinct (first_seen_from order ks)"
  by (induction ks arbitrary: order) (simp_all add: distinct_push_new)

lemma length_first_seen_from: "length (first_seen_from order ks) \<le> length order + length ks"
proof (induction ks arbitrary: order)
  case (Cons k ks)
  show ?case using Cons[of "push_new order k"] length_push_new[of order k] by simp
qed simp

lemma first_seen_from_mono: "length order \<le> length (first_seen_from order ks)"
proof (induction ks arbitrary: order)
  case (Cons k ks)
  show ?case using Cons[of "push_new order k"] length_push_new_mono[of order k] by simp
qed simp

lemma first_seen_from_prefix: "i < length order \<Longrightarrow> first_seen_from order ks ! i = order ! i"
proof (induction ks arbitrary: order)
  case (Cons k ks)
  then show ?case using length_push_new_mono[of order k] by (simp add: push_new_prefix)
qed simp

lemma set_first_seen [simp]: "set (first_seen ks) = set ks"
  by (simp add: first_seen_def set_first_seen_from)

lemma distinct_first_seen [simp]: "distinct (first_seen ks)"
  by (simp add: first_seen_def distinct_first_seen_from)

lemma length_first_seen: "length (first_seen ks) \<le> length ks"
  using length_first_seen_from[of "[]" ks] by (simp add: first_seen_def)

lemma length_first_seen_card: "length (first_seen ks) = card (set ks)"
  using distinct_card[OF distinct_first_seen[of ks]] by simp

section \<open>The interface\<close>

locale interner =
  fixes intern :: "'s \<Rightarrow> 'k \<Rightarrow> 's \<times> nat"
    and order :: "'s \<Rightarrow> 'k list"
    and inv :: "'s \<Rightarrow> bool"
    and cap :: nat
  assumes intern_inv: "inv s \<Longrightarrow> length (order s) < cap \<Longrightarrow> inv (fst (intern s k))"
    and intern_order: "inv s \<Longrightarrow> length (order s) < cap \<Longrightarrow> order (fst (intern s k)) = push_new (order s) k"
    and intern_code: "inv s \<Longrightarrow> length (order s) < cap \<Longrightarrow> snd (intern s k) < length (order (fst (intern s k)))"
    and intern_decode: "inv s \<Longrightarrow> length (order s) < cap \<Longrightarrow>
      order (fst (intern s k)) ! snd (intern s k) = k"
begin

lemma intern_all_spec:
  "inv s \<Longrightarrow> length (order s) + length ks \<le> cap \<Longrightarrow> intern_all intern s ks = (s', cs) \<Longrightarrow>
     inv s' \<and> order s' = first_seen_from (order s) ks \<and> length cs = length ks \<and>
     (\<forall>i < length ks. cs ! i < length (order s') \<and> order s' ! (cs ! i) = ks ! i)"
proof (induction ks arbitrary: s s' cs)
  case (Cons k ks)
  obtain s1 c where sc: "intern s k = (s1, c)" by force
  obtain s2 ds where all: "intern_all intern s1 ks = (s2, ds)" by force
  have room: "length (order s) < cap" using Cons.prems(2) by simp
  have o1: "order s1 = push_new (order s) k" and i1: "inv s1"
    and c1: "c < length (order s1)" "order s1 ! c = k"
    using intern_order[OF Cons.prems(1) room, of k] intern_inv[OF Cons.prems(1) room, of k]
      intern_code[OF Cons.prems(1) room, of k] intern_decode[OF Cons.prems(1) room, of k] sc
    by simp_all
  have "length (order s1) + length ks \<le> cap"
    using Cons.prems(2) length_push_new[of "order s" k] o1 by simp
  note IH = Cons.IH[OF i1 this all]
  have s': "s' = s2" "cs = c # ds" using Cons.prems(3) sc all by simp_all
  have o2: "order s2 = first_seen_from (order s1) ks" using IH by blast
  have c2: "c < length (order s2)" "order s2 ! c = k"
    using c1 first_seen_from_mono[of "order s1" ks] first_seen_from_prefix[of c "order s1" ks] o2
    by simp_all
  show ?case
    unfolding s' using IH o1 c2 by (auto simp: nth_Cons' less_Suc_eq_0_disj)
qed simp

lemma intern_all_same:
  assumes "inv s" "length (order s) + length ks \<le> cap" "intern_all intern s ks = (s', cs)"
    and "distinct (order s)" "i < length ks" "j < length ks"
  shows "cs ! i = cs ! j \<longleftrightarrow> ks ! i = ks ! j"
proof -
  note spec = intern_all_spec[OF assms(1,2,3)]
  have d: "distinct (order s')" using spec assms(4) distinct_first_seen_from by metis
  have ci: "cs ! i < length (order s')" "order s' ! (cs ! i) = ks ! i"
    and cj: "cs ! j < length (order s')" "order s' ! (cs ! j) = ks ! j"
    using spec assms(5,6) by blast+
  show ?thesis using nth_eq_iff_index_eq[OF d ci(1) cj(1)] ci(2) cj(2) by auto
qed

end

end
