(* ===== verification/Dict.thy ===== *)
theory Dict
  imports Interner
begin

text \<open>
  \<open>polars-metal-buffer/src/dict.rs\<close>: the dictionary encoder of string columns. The state of its
  loop is the dictionary vector and the hash map from strings to codes; a code is the length of the
  dictionary truncated to 32 bits.
\<close>

record dict_state =
  dict_vec :: "string list"
  dict_seen :: "string \<Rightarrow> u32 option"

definition dict_empty :: dict_state where
  "dict_empty = \<lparr>dict_vec = [], dict_seen = Map.empty\<rparr>"

text \<open>The body of both loops for a string: look it up, else append it and record its index.\<close>

definition dict_code :: "dict_state \<Rightarrow> string \<Rightarrow> dict_state \<times> u32" where
  "dict_code st s =
     (case dict_seen st s of
        Some c \<Rightarrow> (st, c)
      | None \<Rightarrow> let idx = of_nat (length (dict_vec st)) :: u32
                in (\<lparr>dict_vec = dict_vec st @ [s], dict_seen = (dict_seen st)(s \<mapsto> idx)\<rparr>, idx))"

fun build_dict_loop :: "dict_state \<Rightarrow> string list \<Rightarrow> dict_state \<times> u32 list" where
  "build_dict_loop st [] = (st, [])"
| "build_dict_loop st (s # ss) =
     (let (st1, code) = dict_code st s; (st2, codes) = build_dict_loop st1 ss in (st2, code # codes))"

definition build_dict :: "string list \<Rightarrow> string list \<times> u32 list" where
  "build_dict strings = (let (st, codes) = build_dict_loop dict_empty strings in (dict_vec st, codes))"

fun build_dict_nullable_loop ::
  "dict_state \<Rightarrow> string option list \<Rightarrow> dict_state \<times> u32 list \<times> bool list" where
  "build_dict_nullable_loop st [] = (st, [], [])"
| "build_dict_nullable_loop st (Some s # ss) =
     (let (st1, code) = dict_code st s; (st2, codes, valid) = build_dict_nullable_loop st1 ss
      in (st2, code # codes, True # valid))"
| "build_dict_nullable_loop st (None # ss) =
     (let (st2, codes, valid) = build_dict_nullable_loop st ss in (st2, 0 # codes, False # valid))"

definition build_dict_nullable :: "string option list \<Rightarrow> string list \<times> u32 list \<times> bool list" where
  "build_dict_nullable strings =
     (let (st, codes, valid) = build_dict_nullable_loop dict_empty strings in (dict_vec st, codes, valid))"

text \<open>\<open>None\<close> is the panic on a code out of range.\<close>

fun decode_dict :: "string list \<Rightarrow> u32 list \<Rightarrow> string list option" where
  "decode_dict dict [] = Some []"
| "decode_dict dict (c # cs) =
     (case slice_get dict (unat c) of
        None \<Rightarrow> None
      | Some s \<Rightarrow> (case decode_dict dict cs of None \<Rightarrow> None | Some ss \<Rightarrow> Some (s # ss)))"

section \<open>The encoder numbers first-seen strings\<close>

definition dict_inv :: "dict_state \<Rightarrow> bool" where
  "dict_inv st \<longleftrightarrow> distinct (dict_vec st) \<and>
     (\<forall>s c. dict_seen st s = Some c \<longrightarrow> unat c < length (dict_vec st) \<and> dict_vec st ! unat c = s) \<and>
     (\<forall>s \<in> set (dict_vec st). dict_seen st s \<noteq> None)"

definition dict_intern :: "dict_state \<Rightarrow> string \<Rightarrow> dict_state \<times> nat" where
  "dict_intern st s = (let (st', c) = dict_code st s in (st', unat c))"

lemma dict_empty_inv: "dict_inv dict_empty"
  by (simp add: dict_inv_def dict_empty_def)

lemma dict_code_old: "dict_inv st \<Longrightarrow> dict_seen st s = Some c \<Longrightarrow> s \<in> set (dict_vec st)"
  unfolding dict_inv_def using nth_mem by fastforce

lemma dict_code_new: "dict_inv st \<Longrightarrow> dict_seen st s = None \<Longrightarrow> s \<notin> set (dict_vec st)"
  unfolding dict_inv_def by blast

lemma unat_index: "n < 2 ^ 32 \<Longrightarrow> unat (of_nat n :: u32) = n"
  by (simp add: unat_of_nat)

interpretation dic: interner dict_intern dict_vec dict_inv "2 ^ 32"
proof (standard, goal_cases)
  case (1 st s)
  then show ?case
  proof (cases "dict_seen st s")
    case None
    with 1 dict_code_new[OF 1(1) None] unat_index[OF 1(2)] show ?thesis
      by (auto simp: Let_def dict_intern_def dict_code_def dict_inv_def nth_append less_Suc_eq)
  qed (simp add: Let_def dict_intern_def dict_code_def)
next
  case (2 st s)
  then show ?case
    using dict_code_old[OF 2(1)] dict_code_new[OF 2(1)]
    by (cases "dict_seen st s") (auto simp: Let_def dict_intern_def dict_code_def push_new_def)
next
  case (3 st s)
  then show ?case
    by (cases "dict_seen st s")
      (auto simp: Let_def dict_intern_def dict_code_def dict_inv_def unat_index)
next
  case (4 st s)
  then show ?case
    by (cases "dict_seen st s")
      (auto simp: Let_def dict_intern_def dict_code_def dict_inv_def unat_index)
qed

lemma build_dict_loop_intern:
  "build_dict_loop st ss = (st', cs) \<Longrightarrow> intern_all dict_intern st ss = (st', map unat cs)"
  by (induction ss arbitrary: st st' cs)
    (auto simp: dict_intern_def Let_def split: prod.splits)

lemma nullable_loop_keys:
  "build_dict_nullable_loop st ss = (st', cs, vs) \<Longrightarrow>
     build_dict_loop st (map the (filter (\<lambda>s. s \<noteq> None) ss)) = (st', map fst (filter snd (zip cs vs))) \<and>
     vs = map (\<lambda>s. s \<noteq> None) ss \<and> length cs = length ss \<and>
     (\<forall>i < length ss. ss ! i = None \<longrightarrow> cs ! i = 0)"
  by (induction st ss arbitrary: st' cs vs rule: build_dict_nullable_loop.induct)
    (auto simp: Let_def All_less_Suc2 split: prod.splits)

lemma decode_dict_Some:
  "length ss = length cs \<Longrightarrow> (\<forall>i < length cs. unat (cs ! i) < length dict \<and> dict ! unat (cs ! i) = ss ! i) \<Longrightarrow>
     decode_dict dict cs = Some ss"
proof (induction dict cs arbitrary: ss rule: decode_dict.induct)
  case (2 dict c cs)
  then obtain s ss' where ss: "ss = s # ss'" by (cases ss) auto
  with 2 have "unat c < length dict" "dict ! unat c = s"
    and "\<forall>i < length cs. unat (cs ! i) < length dict \<and> dict ! unat (cs ! i) = ss' ! i"
    by (auto simp: All_less_Suc2)
  with 2 ss show ?case by (simp add: slice_simps)
qed simp

lemma build_dict_facts:
  assumes "build_dict ss = (dict, cs)" and "length ss \<le> 2 ^ 32"
  shows "decode_dict dict cs = Some ss" "dict = first_seen ss" "length cs = length ss"
    "\<forall>i < length cs. unat (cs ! i) < length dict \<and> dict ! unat (cs ! i) = ss ! i"
proof -
  obtain st where st: "build_dict_loop dict_empty ss = (st, cs)" and d: "dict = dict_vec st"
    using assms(1) by (auto simp: build_dict_def Let_def split: prod.splits)
  have e: "dict_vec dict_empty = []" by (simp add: dict_empty_def)
  note spec = dic.intern_all_spec[OF dict_empty_inv _ build_dict_loop_intern[OF st], unfolded e]
  show d': "dict = first_seen ss" and "length cs = length ss"
    using spec assms(2) d by (simp_all add: first_seen_def)
  show nth: "\<forall>i < length cs. unat (cs ! i) < length dict \<and> dict ! unat (cs ! i) = ss ! i"
    using spec assms(2) d by auto
  show "decode_dict dict cs = Some ss"
    by (rule decode_dict_Some) (use nth \<open>length cs = length ss\<close> in auto)
qed

section \<open>Properties\<close>

text \<open>C34. Dictionary encoding of a nullable string column loses nothing: the dictionary lists the
  distinct strings in first-seen order, a null row is marked invalid with code zero, and every other
  row's code is in range and denotes its string. (Codes are 32 bits, so up to \<open>2 ^ 32\<close> rows.)\<close>

theorem build_dict_nullable_roundtrip:
  assumes "build_dict_nullable strings = (dict, codes, valid)" and "length strings \<le> 2 ^ 32"
  shows "dict = first_seen (map the (filter (\<lambda>s. s \<noteq> None) strings)) \<and> distinct dict \<and>
    length codes = length strings \<and> valid = map (\<lambda>s. s \<noteq> None) strings \<and>
    (\<forall>i < length strings. case strings ! i of
        None \<Rightarrow> codes ! i = 0
      | Some s \<Rightarrow> unat (codes ! i) < length dict \<and> dict ! unat (codes ! i) = s)"
proof -
  obtain st where loop: "build_dict_nullable_loop dict_empty strings = (st, codes, valid)" and dict: "dict = dict_vec st"
    using assms(1) by (auto simp: build_dict_nullable_def Let_def split: prod.splits)
  note keys = nullable_loop_keys[OF loop]
  let ?ss = "map the (filter (\<lambda>s. s \<noteq> None) strings)" and ?cs = "map fst (filter snd (zip codes valid))"
  have bd: "build_dict ?ss = (dict, ?cs)" using keys dict by (simp add: build_dict_def)
  have "length ?ss \<le> 2 ^ 32"
    using le_trans[OF length_filter_le[of "\<lambda>s. s \<noteq> None" strings] assms(2)] by (simp only: length_map)
  note facts = build_dict_facts[OF bd this]
  have "unat (codes ! i) < length dict \<and> dict ! unat (codes ! i) = s"
    if i: "i < length strings" "strings ! i = Some s" for i s
  proof -
    have pairs: "zip ?cs ?ss = map (\<lambda>(c, s). (c, the s)) (filter (\<lambda>(c, s). s \<noteq> None) (zip codes strings))"
    proof -
      have "map fst (filter snd (zip cs (map (\<lambda>s. s \<noteq> None) ss))) = map fst (filter (\<lambda>(c, s). s \<noteq> None) (zip cs ss)) \<and>
          map the (filter (\<lambda>s. s \<noteq> None) ss) = map (\<lambda>(c, s). the s) (filter (\<lambda>(c, s). s \<noteq> None) (zip cs ss))"
        if "length cs = length ss" for cs :: "u32 list" and ss :: "string option list"
        using that by (induction cs ss rule: list_induct2) auto
      from this[of codes strings] keys show ?thesis by (simp add: zip_map_map map_fst_zip_take split_def zip_same_conv_map)
    qed
    have "(codes ! i, Some s) \<in> set (zip codes strings)"
      using i keys by (force simp: set_zip)
    then have "(codes ! i, s) \<in> set (zip ?cs ?ss)" unfolding pairs by force
    then obtain k where "k < length ?cs" "?cs ! k = codes ! i" "?ss ! k = s"
      unfolding set_zip by auto
    then show ?thesis using facts(4) by metis
  qed
  then show ?thesis
    using facts(2) keys by (auto split: option.splits)
qed

lemma build_dict_nullable_roundtrip_witness:
  "distinct [''b'', ''a''] \<and> unat (0::u32) < length [''b'', ''a''] \<and> [''b'', ''a''] ! unat (0::u32) = ''b''"
proof -
  have b: "build_dict_nullable [Some ''b'', None, Some ''a'', Some ''b''] =
      ([''b'', ''a''], [0, 0, 1, 0], [True, False, True, True])"
    by code_simp
  have "length [Some ''b'', None, Some ''a'', Some ''b''] \<le> 2 ^ 32" by simp
  note r = build_dict_nullable_roundtrip[OF b this]
  have d: "distinct [''b'', ''a'']" using r by blast
  have "\<forall>i < length [Some ''b'', None, Some ''a'', Some ''b'']. case [Some ''b'', None, Some ''a'', Some ''b''] ! i of
        None \<Rightarrow> [0, 0, 1, 0 :: u32] ! i = 0
      | Some s \<Rightarrow> unat ([0, 0, 1, 0 :: u32] ! i) < length [''b'', ''a''] \<and> [''b'', ''a''] ! unat ([0, 0, 1, 0 :: u32] ! i) = s"
    using r by blast
  from this[rule_format, of 0] d show ?thesis by simp
qed

text \<open>C40. For a column without nulls the codes decode back to the strings.\<close>

theorem build_dict_decode:
  assumes "build_dict strings = (dict, codes)" and "length strings \<le> 2 ^ 32"
  shows "decode_dict dict codes = Some strings"
  by (rule build_dict_facts(1)[OF assms])

lemma build_dict_decode_witness: "decode_dict [''b'', ''a''] [0, 1, 0] = Some [''b'', ''a'', ''b'']"
proof (rule build_dict_decode)
  show "build_dict [''b'', ''a'', ''b''] = ([''b'', ''a''], [0, 1, 0])" by code_simp
qed simp

end
