(* ===== verification/Plan.thy ===== *)
theory Plan
  imports Interner
begin

text \<open>
  \<open>polars-metal-core/src/plan/mod.rs\<close>: the intermediate representation between the Polars walker and
  the kernels. A 64-bit float literal is kept as its bit pattern.
\<close>

section \<open>The representation\<close>

datatype metal_dtype = I64 | F64 | Bool | I32 | F32 | I8 | I16 | U8 | U16 | U32 | U64 | Utf8

datatype compare_op = CEq | CNe | CLt | CLe | CGt | CGe

datatype predicate_ast =
    PColumn string metal_dtype
  | PLiteralI64 u64
  | PLiteralF64 u64
  | PLiteralBool bool
  | PCompare compare_op predicate_ast predicate_ast
  | PAnd predicate_ast predicate_ast
  | POr predicate_ast predicate_ast

datatype agg_op = Sum | Mean | Count | Min | Max | Len

datatype binary_op = Add | Sub | Mul | Div

datatype agg_expr =
    Column string
  | LiteralF64 u64
  | LiteralI64 u64
  | Binary binary_op agg_expr agg_expr

datatype agg_spec =
    Simple string agg_op string
  | Expression agg_expr agg_op string
  | Length string

datatype metal_plan_node =
    Scan nat "(string \<times> metal_dtype) list"
  | Project metal_plan_node "string list"
  | Filter metal_plan_node predicate_ast
  | GroupBy metal_plan_node "(string \<times> metal_dtype) list" "agg_spec list"

instantiation metal_dtype :: linorder
begin

fun dtype_rank :: "metal_dtype \<Rightarrow> nat" where
  "dtype_rank I64 = 0" | "dtype_rank F64 = 1" | "dtype_rank Bool = 2" | "dtype_rank I32 = 3"
| "dtype_rank F32 = 4" | "dtype_rank I8 = 5" | "dtype_rank I16 = 6" | "dtype_rank U8 = 7"
| "dtype_rank U16 = 8" | "dtype_rank U32 = 9" | "dtype_rank U64 = 10" | "dtype_rank Utf8 = 11"

definition less_eq_metal_dtype :: "metal_dtype \<Rightarrow> metal_dtype \<Rightarrow> bool" where
  "less_eq_metal_dtype a b \<longleftrightarrow> dtype_rank a \<le> dtype_rank b"

definition less_metal_dtype :: "metal_dtype \<Rightarrow> metal_dtype \<Rightarrow> bool" where
  "less_metal_dtype a b \<longleftrightarrow> dtype_rank a < dtype_rank b"

lemma dtype_rank_inj: "dtype_rank a = dtype_rank b \<Longrightarrow> a = b"
  by (cases a; cases b) simp_all

instance
  by standard (auto simp: less_eq_metal_dtype_def less_metal_dtype_def intro: dtype_rank_inj)

end

section \<open>Wire strings\<close>

definition dtype_wire_table :: "(string \<times> metal_dtype) list" where
  "dtype_wire_table =
     [(''I64'', I64), (''F64'', F64), (''Bool'', Bool), (''I32'', I32), (''F32'', F32),
      (''I8'', I8), (''I16'', I16), (''U8'', U8), (''U16'', U16), (''U32'', U32), (''U64'', U64),
      (''Utf8'', Utf8), (''String'', Utf8), (''Date'', I32)]"

definition dtype_from_wire :: "string \<Rightarrow> metal_dtype option" where
  "dtype_from_wire s = map_of dtype_wire_table s"

definition agg_op_wire_table :: "(string \<times> agg_op) list" where
  "agg_op_wire_table =
     [(''Sum'', Sum), (''Mean'', Mean), (''Count'', Count), (''Min'', Min), (''Max'', Max), (''Len'', Len)]"

definition agg_op_from_wire :: "string \<Rightarrow> agg_op option" where
  "agg_op_from_wire s = map_of agg_op_wire_table s"

section \<open>Expressions\<close>

text \<open>The nodes in the order \<open>walk\<close> visits them: parent, left, right.\<close>

fun walk_nodes :: "agg_expr \<Rightarrow> agg_expr list" where
  "walk_nodes (Binary op l r) = Binary op l r # walk_nodes l @ walk_nodes r"
| "walk_nodes e = [e]"

text \<open>The closure of \<open>referenced_columns\<close>, run on each visited node.\<close>

definition visit_column :: "string list \<Rightarrow> agg_expr \<Rightarrow> string list" where
  "visit_column out e =
     (case e of Column name \<Rightarrow> if \<not> list_ex (\<lambda>n. n = name) out then out @ [name] else out | _ \<Rightarrow> out)"

definition referenced_columns :: "agg_expr \<Rightarrow> string list" where
  "referenced_columns e = foldl visit_column [] (walk_nodes e)"

fun depth :: "agg_expr \<Rightarrow> nat" where
  "depth (Column _) = 0"
| "depth (LiteralF64 _) = 0"
| "depth (LiteralI64 _) = 0"
| "depth (Binary op l r) = 1 + max (depth l) (depth r)"

definition validate :: "agg_expr \<Rightarrow> string + unit" where
  "validate e =
     (if depth e > 4
      then Inl (''expression depth '' @ show_nat (depth e) @ '' exceeds M3 cap of 4'')
      else Inr ())"

section \<open>Facts\<close>

text \<open>The column leaves, left to right.\<close>

fun column_leaves :: "agg_expr \<Rightarrow> string list" where
  "column_leaves (Column n) = [n]"
| "column_leaves (Binary op l r) = column_leaves l @ column_leaves r"
| "column_leaves e = []"

fun rename_expr :: "(string \<Rightarrow> string) \<Rightarrow> agg_expr \<Rightarrow> agg_expr" where
  "rename_expr f (Column n) = Column (f n)"
| "rename_expr f (Binary op l r) = Binary op (rename_expr f l) (rename_expr f r)"
| "rename_expr f e = e"

lemma visit_column_simps [simp]:
  "visit_column out (Column n) = push_new out n"
  "visit_column out (LiteralF64 v) = out"
  "visit_column out (LiteralI64 w) = out"
  "visit_column out (Binary op l r) = out"
  by (auto simp: visit_column_def push_new_def list_ex_iff)

lemma visit_walk: "foldl visit_column out (walk_nodes e) = first_seen_from out (column_leaves e)"
  by (induction e arbitrary: out) (simp_all add: first_seen_from_append)

lemma referenced_columns_eq: "referenced_columns e = first_seen (column_leaves e)"
  by (simp add: referenced_columns_def visit_walk first_seen_def)

lemma column_leaves_depth: "length (column_leaves e) \<le> 2 ^ depth e"
proof (induction e)
  case (Binary op l r)
  have "2 ^ depth l + 2 ^ depth r \<le> (2::nat) ^ (max (depth l) (depth r)) + 2 ^ max (depth l) (depth r)"
    by (intro add_mono power_increasing) simp_all
  with Binary show ?case by simp
qed simp_all

lemma validate_ok: "validate e = Inr u \<longleftrightarrow> depth e \<le> 4"
  by (auto simp: validate_def)

section \<open>Properties\<close>

text \<open>C36. The columns an expression binds are its column leaves, each once, in left-to-right order; an
  expression that passes the depth check binds at most sixteen.\<close>

theorem referenced_columns_correct:
  "referenced_columns e = first_seen (column_leaves e) \<and> distinct (referenced_columns e) \<and>
   set (referenced_columns e) = set (column_leaves e) \<and>
   (validate e = Inr () \<longrightarrow> length (referenced_columns e) \<le> 16)"
proof -
  have "length (referenced_columns e) \<le> 16" if "validate e = Inr ()"
  proof -
    have "depth e \<le> 4" using that by (simp add: validate_ok)
    then have "(2::nat) ^ depth e \<le> 2 ^ 4" by (rule power_increasing) simp
    with column_leaves_depth[of e] length_first_seen[of "column_leaves e"] show ?thesis
      by (simp add: referenced_columns_eq)
  qed
  then show ?thesis by (simp add: referenced_columns_eq)
qed

lemma referenced_columns_correct_witness:
  "referenced_columns (Binary Mul (Column ''p'') (Binary Sub (LiteralI64 1) (Column ''p''))) = [''p''] \<and>
   length (referenced_columns (Binary Mul (Column ''p'') (Binary Sub (LiteralI64 1) (Column ''p'')))) \<le> 16"
proof -
  let ?e = "Binary Mul (Column ''p'') (Binary Sub (LiteralI64 1) (Column ''p''))"
  have "validate ?e = Inr ()" by (simp add: validate_ok)
  moreover have "first_seen (column_leaves ?e) = [''p'']" by code_simp
  ultimately show ?thesis using referenced_columns_correct[of ?e] by simp
qed

end
