(* ===== verification/Router.thy ===== *)
theory Router
  imports Plan "HOL-Library.AList"
begin

text \<open>
  \<open>polars-metal-core/src/router\<close>: the per-node decision between the GPU kernels and the Polars
  executor. The walk numbers the plan nodes in post-order and records one decision per node; the
  smoothing pass flips isolated nodes. The hash map of a lifting plan is an association list with
  distinct keys; the order in which a hash container is iterated is a parameter.
\<close>

section \<open>mod.rs: identifiers, decisions, plans\<close>

record node_id =
  kind :: string
  seq :: u32

definition node_id_new :: "string \<Rightarrow> u32 \<Rightarrow> node_id" where
  "node_id_new k s = \<lparr>kind = k, seq = s\<rparr>"

definition to_wire :: "node_id \<Rightarrow> string" where
  "to_wire i = kind i @ ''#'' @ show_nat (unat (seq i))"

datatype node_decision = GpuLift | CpuLeave | Fallback string

type_synonym lifting_plan = "(node_id \<times> node_decision) list"

definition lp_set :: "lifting_plan \<Rightarrow> node_id \<Rightarrow> node_decision \<Rightarrow> lifting_plan" where
  "lp_set plan i d = AList.update i d plan"

definition lp_get :: "lifting_plan \<Rightarrow> node_id \<Rightarrow> node_decision option" where
  "lp_get plan i = map_of plan i"

definition is_fallback :: "node_decision \<Rightarrow> bool" where
  "is_fallback d = (case d of Fallback _ \<Rightarrow> True | _ \<Rightarrow> False)"

definition has_fallback :: "lifting_plan \<Rightarrow> bool" where
  "has_fallback plan = list_ex (\<lambda>(i, d). is_fallback d) plan"

section \<open>cost.rs\<close>

definition groupby_gpu_min_rows :: nat where
  "groupby_gpu_min_rows = 100000"

definition decide_filter :: "nat \<Rightarrow> node_decision" where
  "decide_filter n_rows = CpuLeave"

definition decide_groupby :: "nat \<Rightarrow> node_decision" where
  "decide_groupby n_rows = (if n_rows > groupby_gpu_min_rows then GpuLift else CpuLeave)"

fun decide_project :: "node_decision \<Rightarrow> node_decision" where
  "decide_project (Fallback r) = Fallback r"
| "decide_project GpuLift = GpuLift"
| "decide_project CpuLeave = CpuLeave"

definition decide_scan_initial :: node_decision where
  "decide_scan_initial = CpuLeave"

fun key_width_bits :: "metal_dtype \<Rightarrow> nat" where
  "key_width_bits Bool = 1 + 1"
| "key_width_bits I64 = 1 + 64"
| "key_width_bits F64 = 1 + 64"
| "key_width_bits U64 = 1 + 64"
| "key_width_bits I32 = 1 + 32"
| "key_width_bits F32 = 1 + 32"
| "key_width_bits U32 = 1 + 32"
| "key_width_bits I16 = 1 + 16"
| "key_width_bits U16 = 1 + 16"
| "key_width_bits I8 = 1 + 8"
| "key_width_bits U8 = 1 + 8"
| "key_width_bits Utf8 = 1 + 32"

text \<open>The message holds the sign ``less or equal'', three bytes in UTF-8.\<close>

definition too_wide_reason :: "nat \<Rightarrow> string" where
  "too_wide_reason bits =
     ''composite key total '' @ show_nat bits @ '' bits; M2 supports '' @ [CHR 0xE2, CHR 0x89, CHR 0xA4] @ '' 128''"

definition decide_groupby_with_keys ::
  "nat \<Rightarrow> (string \<times> metal_dtype) list \<Rightarrow> agg_spec list \<Rightarrow> node_decision" where
  "decide_groupby_with_keys n_rows keys aggs =
     (let total_bits = sum_list (map (\<lambda>(_, d). key_width_bits d) keys) in
      if total_bits > 128 then Fallback (too_wide_reason total_bits) else decide_groupby n_rows)"

section \<open>mod.rs: the walk\<close>

fun input_row_count :: "metal_plan_node \<Rightarrow> nat" where
  "input_row_count (Scan n_rows _) = n_rows"
| "input_row_count (Project input _) = input_row_count input"
| "input_row_count (Filter input _) = input_row_count input"
| "input_row_count (GroupBy _ _ _) = 0"

text \<open>Collecting pairs into a hash map keeps the last pair of a name.\<close>

fun input_schema_lookup :: "metal_plan_node \<Rightarrow> string \<Rightarrow> metal_dtype option" where
  "input_schema_lookup (Scan _ columns) = map_of (rev columns)"
| "input_schema_lookup (Project input _) = input_schema_lookup input"
| "input_schema_lookup (Filter input _) = input_schema_lookup input"
| "input_schema_lookup (GroupBy _ _ _) = Map.empty"

definition wide_expression_reason :: string where
  "wide_expression_reason =
     ''Expression agg references 64-bit-wide column; fused kernel requires '' @
     ''32-bit-or-narrower inputs (Apple Silicon Metal lacks 64-bit atomics)''"

definition expression_falls_back :: "(string \<Rightarrow> metal_dtype option) \<Rightarrow> agg_spec list \<Rightarrow> bool" where
  "expression_falls_back schema aggs =
     list_ex (\<lambda>a. case a of
         Expression expr _ _ \<Rightarrow>
           list_ex (\<lambda>c. schema c = Some F64 \<or> schema c = Some I64) (referenced_columns expr)
       | _ \<Rightarrow> False) aggs"

fun walk :: "metal_plan_node \<Rightarrow> lifting_plan \<Rightarrow> u32 \<Rightarrow> node_id \<times> lifting_plan \<times> u32" where
  "walk (Scan n_rows columns) plan next_seq =
     (let i = node_id_new ''Scan'' next_seq in (i, lp_set plan i decide_scan_initial, next_seq + 1))"
| "walk (Project input columns) plan next_seq =
     (let (child_id, plan, next_seq) = walk input plan next_seq;
          i = node_id_new ''Project'' next_seq;
          child_decision = (case lp_get plan child_id of
             None \<Rightarrow> Fallback ''missing child decision'' | Some d \<Rightarrow> d)
      in (i, lp_set plan i (decide_project child_decision), next_seq + 1))"
| "walk (Filter input predicate) plan next_seq =
     (let (_, plan, next_seq) = walk input plan next_seq;
          i = node_id_new ''Filter'' next_seq
      in (i, lp_set plan i (decide_filter 0), next_seq + 1))"
| "walk (GroupBy input keys aggs) plan next_seq =
     (let n_rows = input_row_count input;
          input_schema = input_schema_lookup input;
          (_, plan, next_seq) = walk input plan next_seq;
          i = node_id_new ''GroupBy'' next_seq;
          decision = (if expression_falls_back input_schema aggs
                      then Fallback wide_expression_reason
                      else decide_groupby_with_keys n_rows keys aggs)
      in (i, lp_set plan i decision, next_seq + 1))"

definition compute_lifting_plan :: "metal_plan_node \<Rightarrow> lifting_plan" where
  "compute_lifting_plan root = (let (_, plan, _) = walk root [] 0 in plan)"

section \<open>affinity.rs\<close>

record smoothing_config =
  window_pct :: nat
  close_cost_node_ids :: "node_id list"

definition default_smoothing :: smoothing_config where
  "default_smoothing = \<lparr>window_pct = 20, close_cost_node_ids = []\<rparr>"

definition neighbor_decision :: "(lifting_plan \<Rightarrow> lifting_plan) \<Rightarrow> lifting_plan \<Rightarrow> node_id \<Rightarrow> int \<Rightarrow> node_decision option" where
  "neighbor_decision it plan i delta =
     (let target_seq = int (unat (seq i)) + delta in
      if target_seq < 0 then None
      else map_option snd (find (\<lambda>(other, _). int (unat (seq other)) = target_seq) (it plan)))"

text \<open>The body of the loop for one candidate; it reads the old plan and writes the new one.\<close>

definition smooth_step ::
  "(lifting_plan \<Rightarrow> lifting_plan) \<Rightarrow> lifting_plan \<Rightarrow> lifting_plan \<Rightarrow> node_id \<Rightarrow> lifting_plan" where
  "smooth_step it plan next i =
     (case lp_get plan i of
        None \<Rightarrow> next
      | Some current \<Rightarrow>
          if is_fallback current then next
          else case (neighbor_decision it plan i (- 1), neighbor_decision it plan i 1) of
              (Some p, Some s) \<Rightarrow>
                if p = s \<and> p \<noteq> current \<and> \<not> is_fallback p then lp_set next i p else next
            | (Some p, None) \<Rightarrow>
                if p \<noteq> current \<and> \<not> is_fallback p then lp_set next i p else next
            | _ \<Rightarrow> next)"

text \<open>\<open>candidates\<close> enumerates the hash set of the close-cost identifiers.\<close>

definition smooth :: "(lifting_plan \<Rightarrow> lifting_plan) \<Rightarrow> node_id list \<Rightarrow> lifting_plan \<Rightarrow> lifting_plan" where
  "smooth it candidates plan = foldl (smooth_step it plan) plan candidates"

section \<open>The plan of a walk\<close>

text \<open>The nodes in post-order and the decision each of them gets, as a specification.\<close>

fun post_order :: "metal_plan_node \<Rightarrow> metal_plan_node list" where
  "post_order (Scan n c) = [Scan n c]"
| "post_order (Project i c) = post_order i @ [Project i c]"
| "post_order (Filter i p) = post_order i @ [Filter i p]"
| "post_order (GroupBy i k a) = post_order i @ [GroupBy i k a]"

fun node_kind :: "metal_plan_node \<Rightarrow> string" where
  "node_kind (Scan _ _) = ''Scan''"
| "node_kind (Project _ _) = ''Project''"
| "node_kind (Filter _ _) = ''Filter''"
| "node_kind (GroupBy _ _ _) = ''GroupBy''"

text \<open>The rule for a group-by, stated over the scan it reads from and independently of the code's tests: the
  number of rows of that scan, the type of the last of its columns of a name, whether an expression
  reads a column of type F64 or I64, and the width of the keys with one null bit each.\<close>

fun scan_below :: "metal_plan_node \<Rightarrow> (nat \<times> (string \<times> metal_dtype) list) option" where
  "scan_below (Scan n_rows columns) = Some (n_rows, columns)"
| "scan_below (Project i _) = scan_below i"
| "scan_below (Filter i _) = scan_below i"
| "scan_below (GroupBy _ _ _) = None"

definition rows_below :: "metal_plan_node \<Rightarrow> nat" where
  "rows_below i = (case scan_below i of None \<Rightarrow> 0 | Some (n_rows, _) \<Rightarrow> n_rows)"

definition type_below :: "metal_plan_node \<Rightarrow> string \<Rightarrow> metal_dtype option" where
  "type_below i c = (case scan_below i of None \<Rightarrow> None | Some (_, columns) \<Rightarrow> map_of (rev columns) c)"

definition reads_wide :: "metal_plan_node \<Rightarrow> agg_spec list \<Rightarrow> bool" where
  "reads_wide i aggs \<longleftrightarrow> (\<exists>a \<in> set aggs. case a of
     Expression e _ _ \<Rightarrow> \<exists>c \<in> set (column_leaves e). type_below i c \<in> {Some F64, Some I64} | _ \<Rightarrow> False)"

definition value_bits :: "metal_dtype \<Rightarrow> nat" where
  "value_bits d = (if d = Bool then 1 else if d \<in> {I8, U8} then 8 else if d \<in> {I16, U16} then 16
     else if d \<in> {I32, U32, F32, Utf8} then 32 else 64)"

definition key_bits :: "(string \<times> metal_dtype) list \<Rightarrow> nat" where
  "key_bits keys = sum_list (map (\<lambda>(_, d). 1 + value_bits d) keys)"

definition groupby_rule :: "metal_plan_node \<Rightarrow> (string \<times> metal_dtype) list \<Rightarrow> agg_spec list \<Rightarrow> node_decision" where
  "groupby_rule i keys aggs =
     (if reads_wide i aggs then Fallback wide_expression_reason
      else if 128 < key_bits keys then Fallback (too_wide_reason (key_bits keys))
      else if 100000 < rows_below i then GpuLift else CpuLeave)"

lemma below_eq: "rows_below i = input_row_count i" "type_below i = input_schema_lookup i"
  by (induction i) (simp_all add: rows_below_def type_below_def fun_eq_iff)

lemma reads_wide_eq: "reads_wide i aggs \<longleftrightarrow> expression_falls_back (input_schema_lookup i) aggs"
proof -
  have "set (referenced_columns e) = set (column_leaves e)" for e by (simp add: referenced_columns_eq)
  then show ?thesis
    unfolding reads_wide_def expression_falls_back_def below_eq list_ex_iff
    by (intro bex_cong refl) (auto split: agg_spec.split)
qed

lemma key_bits_eq: "key_bits keys = sum_list (map (\<lambda>(_, d). key_width_bits d) keys)"
proof -
  have "1 + value_bits d = key_width_bits d" for d by (cases d) (simp_all add: value_bits_def)
  then show ?thesis by (simp add: key_bits_def)
qed

lemma groupby_rule_eq [simp]:
  "groupby_rule i keys aggs =
     (if expression_falls_back (input_schema_lookup i) aggs then Fallback wide_expression_reason
      else decide_groupby_with_keys (input_row_count i) keys aggs)"
  by (simp add: groupby_rule_def reads_wide_eq key_bits_eq below_eq decide_groupby_with_keys_def Let_def decide_groupby_def groupby_gpu_min_rows_def)

fun node_decides :: "metal_plan_node \<Rightarrow> node_decision" where
  "node_decides (Scan _ _) = CpuLeave"
| "node_decides (Project i _) = node_decides i"
| "node_decides (Filter _ _) = CpuLeave"
| "node_decides (GroupBy i k a) = groupby_rule i k a"

text \<open>Numbering the nodes of a walk from \<open>k\<close>: every node gets its kind, its number and its decision.\<close>

definition numbered :: "('n \<Rightarrow> string) \<Rightarrow> ('n \<Rightarrow> node_decision) \<Rightarrow> nat \<Rightarrow> 'n list \<Rightarrow> lifting_plan" where
  "numbered kind_of decides k ns =
     map (\<lambda>(j, n). (node_id_new (kind_of n) (of_nat j), decides n)) (zip [k..<k + length ns] ns)"

abbreviation planned :: "nat \<Rightarrow> metal_plan_node list \<Rightarrow> lifting_plan" where
  "planned \<equiv> numbered node_kind node_decides"

lemma decide_project_id [simp]: "decide_project d = d"
  by (cases d) simp_all

lemma numbered_append:
  "numbered kd dc k (ns @ [n]) = numbered kd dc k ns @ [(node_id_new (kd n) (of_nat (k + length ns)), dc n)]"
  by (simp add: numbered_def)

lemma numbered_length [simp]: "length (numbered kd dc k ns) = length ns"
  by (simp add: numbered_def)

lemma numbered_nth: "j < length ns \<Longrightarrow> numbered kd dc k ns ! j = (node_id_new (kd (ns ! j)) (of_nat (k + j)), dc (ns ! j))"
  by (simp add: numbered_def)

lemma post_order_last: "post_order n \<noteq> [] \<and> last (post_order n) = n"
  by (cases n) simp_all

lemma seq_fresh:
  assumes "k + length ns < 2 ^ 32" "i \<in> fst ` set plan \<Longrightarrow> unat (seq i) < k"
    and "i = node_id_new s (of_nat (k + length ns))"
  shows "i \<notin> fst ` set (plan @ numbered kd dc k ns)"
proof
  have u: "unat (seq i) = k + length ns"
    using assms(1,3) by (simp add: node_id_new_def unat_of_nat del: of_nat_add)
  assume "i \<in> fst ` set (plan @ numbered kd dc k ns)"
  then consider "i \<in> fst ` set plan" | "i \<in> fst ` set (numbered kd dc k ns)" by auto
  then show False
  proof cases
    case 1
    then show False using assms(2) u by simp
  next
    case 2
    then obtain j where "j < length ns" "i = fst (numbered kd dc k ns ! j)"
      by (metis (no_types, lifting) imageE in_set_conv_nth numbered_length)
    then have "unat (seq i) = k + j"
      using assms(1) by (simp add: numbered_nth node_id_new_def unat_of_nat del: of_nat_add)
    with u \<open>j < length ns\<close> show False by simp
  qed
qed

lemma update_fresh: "i \<notin> fst ` set plan \<Longrightarrow> lp_set plan i d = plan @ [(i, d)]"
  unfolding lp_set_def by (induction plan) auto

lemma map_of_append_new: "i \<notin> fst ` set plan \<Longrightarrow> map_of (plan @ [(i, d)]) i = Some d"
  by (simp add: map_add_Some_iff map_of_eq_None_iff[THEN iffD2])

text \<open>The decision of the node numbered last is found under its number.\<close>

lemma numbered_get_last:
  assumes "\<forall>i \<in> fst ` set plan. unat (seq i) < k" "k + length ns < 2 ^ 32" "ns \<noteq> []"
  shows "lp_get (plan @ numbered kd dc k ns) (node_id_new (kd (last ns)) (of_nat (k + length ns - 1))) = Some (dc (last ns))"
proof -
  obtain ps n where ns: "ns = ps @ [n]" using assms(3) by (metis append_butlast_last_id)
  have "node_id_new (kd n) (of_nat (k + length ps)) \<notin> fst ` set (plan @ numbered kd dc k ps)"
    by (rule seq_fresh) (use assms(1,2) ns in auto)
  from map_of_append_new [OF this, of "dc n"] show ?thesis by (simp add: ns lp_get_def numbered_append)
qed

lemma numbered_set_next:
  assumes "\<forall>i \<in> fst ` set plan. unat (seq i) < k" "k + length ns < 2 ^ 32"
  shows "lp_set (plan @ numbered kd dc k ns) (node_id_new (kd n) (of_nat (k + length ns))) (dc n) = plan @ numbered kd dc k (ns @ [n])"
proof -
  have "node_id_new (kd n) (of_nat (k + length ns)) \<notin> fst ` set (plan @ numbered kd dc k ns)"
    by (rule seq_fresh) (use assms in auto)
  from update_fresh [OF this] show ?thesis by (simp add: numbered_append)
qed

lemma walk_spec:
  assumes "\<forall>i \<in> fst ` set plan. unat (seq i) < k" "k + length (post_order n) < 2 ^ 32"
  shows "walk n plan (of_nat k) =
    (node_id_new (node_kind n) (of_nat (k + length (post_order n) - 1)), plan @ planned k (post_order n),
     of_nat (k + length (post_order n)))"
  using assms
proof (induction n arbitrary: plan k)
  case (Scan m c)
  have "node_id_new ''Scan'' (of_nat k) \<notin> fst ` set plan"
    using seq_fresh[of k "[]" _ plan] Scan by (simp add: numbered_def)
  then show ?case by (simp add: Let_def update_fresh numbered_def decide_scan_initial_def add.commute)
next
  case (Project i c)
  let ?l = "length (post_order i)"
  have IH: "walk i plan (of_nat k) = (node_id_new (node_kind i) (of_nat (k + ?l - 1)),
      plan @ planned k (post_order i), of_nat (k + ?l))"
    using Project by simp
  have get: "lp_get (plan @ planned k (post_order i)) (node_id_new (node_kind i) (of_nat (k + ?l - 1))) = Some (node_decides i)"
    using numbered_get_last [of plan k "post_order i" node_kind node_decides] Project.prems post_order_last [of i] by simp
  have "node_id_new ''Project'' (of_nat (k + ?l)) \<notin> fst ` set (plan @ planned k (post_order i))"
    by (rule seq_fresh) (use Project.prems in auto)
  from update_fresh[OF this] show ?case
    by (simp add: IH get[unfolded One_nat_def] Let_def numbered_append del: of_nat_add)
next
  case (Filter i p)
  let ?l = "length (post_order i)"
  have IH: "walk i plan (of_nat k) = (node_id_new (node_kind i) (of_nat (k + ?l - 1)),
      plan @ planned k (post_order i), of_nat (k + ?l))"
    using Filter by simp
  have "node_id_new ''Filter'' (of_nat (k + ?l)) \<notin> fst ` set (plan @ planned k (post_order i))"
    by (rule seq_fresh) (use Filter.prems in auto)
  from update_fresh[OF this] show ?case
    by (simp add: IH Let_def numbered_append decide_filter_def del: of_nat_add)
next
  case (GroupBy i ks as)
  let ?l = "length (post_order i)"
  have IH: "walk i plan (of_nat k) = (node_id_new (node_kind i) (of_nat (k + ?l - 1)),
      plan @ planned k (post_order i), of_nat (k + ?l))"
    using GroupBy by simp
  have "node_id_new ''GroupBy'' (of_nat (k + ?l)) \<notin> fst ` set (plan @ planned k (post_order i))"
    by (rule seq_fresh) (use GroupBy.prems in auto)
  from update_fresh[OF this] show ?case
    by (simp add: IH Let_def numbered_append del: of_nat_add)
qed

lemma compute_lifting_plan_eq:
  assumes "length (post_order root) < 2 ^ 32"
  shows "compute_lifting_plan root = planned 0 (post_order root)"
proof -
  have "walk root [] (of_nat 0) = (node_id_new (node_kind root) (of_nat (0 + length (post_order root) - 1)),
      [] @ planned 0 (post_order root), of_nat (0 + length (post_order root)))"
    by (rule walk_spec) (use assms in simp_all)
  then show ?thesis by (simp add: compute_lifting_plan_def)
qed

section \<open>Smoothing does not depend on the iteration orders\<close>

definition unique_seqs :: "lifting_plan \<Rightarrow> bool" where
  "unique_seqs plan \<longleftrightarrow> distinct (map (\<lambda>e. seq (fst e)) plan)"

definition flip :: "(lifting_plan \<Rightarrow> lifting_plan) \<Rightarrow> lifting_plan \<Rightarrow> node_id \<Rightarrow> node_decision \<Rightarrow> node_decision" where
  "flip it plan i d =
     (if is_fallback d then d
      else case (neighbor_decision it plan i (- 1), neighbor_decision it plan i 1) of
          (Some p, Some s) \<Rightarrow> if p = s \<and> p \<noteq> d \<and> \<not> is_fallback p then p else d
        | (Some p, None) \<Rightarrow> if p \<noteq> d \<and> \<not> is_fallback p then p else d
        | _ \<Rightarrow> d)"

lemma unique_seqs_keys: "unique_seqs plan \<Longrightarrow> distinct (map fst plan)"
  unfolding unique_seqs_def by (metis (no_types, lifting) distinct_map list.map_comp map_eq_conv comp_def)

lemma update_as_map:
  "distinct (map fst al) \<Longrightarrow> i \<in> fst ` set al \<Longrightarrow>
     AList.update i v al = map (\<lambda>(j, d). (j, if j = i then v else d)) al"
proof (induction al)
  case (Cons e al)
  obtain j d where e: "e = (j, d)" by force
  show ?case
  proof (cases "j = i")
    case True
    with Cons.prems e have "i \<notin> fst ` set al" by auto
    then have "map (\<lambda>(j, d). (j, if j = i then v else d)) al = al"
      by (intro map_idI) (auto simp: image_iff)
    with True e show ?thesis by simp
  qed (use Cons e in auto)
qed simp

lemma smooth_step_map:
  assumes "distinct (map fst plan)"
  shows "smooth_step it plan (map (\<lambda>(i, d). (i, if i \<in> S then flip it plan i d else d)) plan) c =
    map (\<lambda>(i, d). (i, if i \<in> insert c S then flip it plan i d else d)) plan"
    (is "smooth_step it plan (map (?f S) plan) c = _")
proof -
  have keys: "map fst (map (?f S) plan) = map fst plan" by (auto simp: comp_def split_def)
  have val: "(i, d) \<in> set plan \<Longrightarrow> map_of plan i = Some d" for i d
    using assms by simp
  show ?thesis
  proof (cases "map_of plan c")
    case None
    then have "c \<notin> fst ` set plan" by (simp add: map_of_eq_None_iff)
    then have "map (?f S) plan = map (?f (insert c S)) plan" by (auto simp: image_iff)
    with None show ?thesis by (simp add: smooth_step_def lp_get_def)
  next
    case (Some d)
    then have c: "c \<in> fst ` set plan" using map_of_SomeD by force
    have upd: "AList.update c v (map (?f S) plan) = map (\<lambda>(j, d). (j, if j = c then v else if j \<in> S then flip it plan j d else d)) plan" for v
      using update_as_map[of "map (?f S) plan" c v] assms keys c
      by (simp add: split_def image_image comp_def)
    have st: "smooth_step it plan (map (?f S) plan) c =
        (if flip it plan c d = d then map (?f S) plan else AList.update c (flip it plan c d) (map (?f S) plan))"
      using Some by (auto simp: smooth_step_def flip_def lp_get_def lp_set_def split: option.splits)
    show ?thesis
    proof (cases "flip it plan c d = d")
      case True
      then have eq: "map (?f S) plan = map (?f (insert c S)) plan"
        using Some val by (intro map_cong refl) (auto split: prod.splits)
      show ?thesis by (rule trans[OF st]) (simp only: True eq if_True simp_thms)
    next
      case False
      show ?thesis unfolding st using False Some val
        by (simp only: upd if_False) (auto intro!: map_cong split: prod.splits)
    qed
  qed
qed

lemma smooth_map:
  assumes "distinct (map fst plan)"
  shows "smooth it cs plan = map (\<lambda>(i, d). (i, if i \<in> set cs then flip it plan i d else d)) plan"
proof -
  have star: "foldl (smooth_step it plan) (map (\<lambda>(i, d). (i, if i \<in> S then flip it plan i d else d)) plan) cs
      = map (\<lambda>(i, d). (i, if i \<in> S \<union> set cs then flip it plan i d else d)) plan" for S
  proof (induction cs arbitrary: S)
    case (Cons c cs)
    have eq: "insert c S \<union> set cs = S \<union> set (c # cs)" by auto
    show ?case unfolding foldl.simps smooth_step_map[OF assms] Cons.IH by (simp only: eq)
  qed simp
  have none: "map (\<lambda>(i, d). (i, if i \<in> {} then flip it plan i d else d)) plan = plan"
    by (simp add: split_def)
  from star[of "{}"] show ?thesis unfolding smooth_def none Un_empty_left .
qed

lemma find_unique:
  "x \<in> set xs \<Longrightarrow> P x \<Longrightarrow> (\<And>y. y \<in> set xs \<Longrightarrow> P y \<Longrightarrow> y = x) \<Longrightarrow> find P xs = Some x"
proof (induction xs)
  case (Cons a xs)
  show ?case
  proof (cases "P a")
    case True
    then have "a = x" by (intro Cons.prems(3)) simp_all
    with True show ?thesis by simp
  next
    case False
    then have "x \<in> set xs" using Cons.prems(1,2) by auto
    then have "find P xs = Some x"
      by (rule Cons.IH[OF _ Cons.prems(2)]) (rule Cons.prems(3), simp_all)
    with False show ?thesis by simp
  qed
qed simp

lemma neighbor_order_free:
  assumes "unique_seqs plan" "set (it plan) = set plan"
  shows "neighbor_decision it plan i d = neighbor_decision (\<lambda>p. p) plan i d"
proof -
  let ?P = "\<lambda>(other, _::node_decision). int (unat (seq other)) = int (unat (seq i)) + d"
  have u: "x = y" if "x \<in> set plan" "y \<in> set plan" "?P x" "?P y" for x y
  proof -
    have "seq (fst x) = seq (fst y)"
      using that by (simp add: split_def word_uint_eq_iff)
    with that(1,2) assms(1) show "x = y"
      unfolding unique_seqs_def distinct_map inj_on_def by blast
  qed
  have "find ?P (it plan) = find ?P plan"
  proof (cases "\<exists>x \<in> set plan. ?P x")
    case True
    then obtain x where x: "x \<in> set plan" "?P x" by blast
    have "find ?P (it plan) = Some x" "find ?P plan = Some x"
      by (rule find_unique; use x u assms(2) in blast)+
    then show ?thesis by simp
  next
    case False
    then show ?thesis using assms(2) by (metis (no_types, lifting) find_None_iff)
  qed
  then show ?thesis by (simp only: neighbor_decision_def Let_def)
qed

lemma flip_order_free:
  "unique_seqs plan \<Longrightarrow> set (it plan) = set plan \<Longrightarrow> flip it plan = flip (\<lambda>p. p) plan"
  unfolding flip_def by (intro ext) (simp only: neighbor_order_free[of plan it])

lemma planned_unique: "k + length ns \<le> 2 ^ 32 \<Longrightarrow> unique_seqs (planned k ns)"
proof -
  assume a: "k + length ns \<le> 2 ^ 32"
  have "map (\<lambda>e. seq (fst e)) (planned k ns) = map of_nat [k..<k + length ns]"
    by (rule list_eq_by_nth) (simp_all add: numbered_nth node_id_new_def)
  moreover have "inj_on (of_nat :: nat \<Rightarrow> u32) {k..<k + length ns}"
  proof (rule inj_onI)
    fix x y assume "x \<in> {k..<k + length ns}" "y \<in> {k..<k + length ns}" "(of_nat x :: u32) = of_nat y"
    then have "unat (of_nat x :: u32) = unat (of_nat y :: u32)" "x < 2 ^ 32" "y < 2 ^ 32"
      using a by simp_all
    then show "x = y" by (simp add: unat_of_nat)
  qed
  ultimately show ?thesis by (simp add: unique_seqs_def distinct_map)
qed

lemma flip_fallback: "is_fallback (flip it plan i d) = is_fallback d"
  by (auto simp: flip_def split: option.splits)

lemma flip_of_fallback: "is_fallback d \<Longrightarrow> flip it plan i d = d"
  by (simp add: flip_def)

section \<open>Properties\<close>

text \<open>Numbers are printed without the separator, so that identifiers are distinct.\<close>

lemma planned_wires_inj:
  assumes "length (post_order root) < 2 ^ 32"
  shows "inj_on (\<lambda>e. to_wire (fst e)) (set (planned 0 (post_order root)))"
proof (rule inj_onI)
  fix x y assume xy: "x \<in> set (planned 0 (post_order root))" "y \<in> set (planned 0 (post_order root))"
    and w: "to_wire (fst x) = to_wire (fst y)"
  obtain a where a: "a < length (post_order root)" "x = planned 0 (post_order root) ! a"
    using xy(1) by (metis in_set_conv_nth numbered_length)
  obtain b where b: "b < length (post_order root)" "y = planned 0 (post_order root) ! b"
    using xy(2) by (metis in_set_conv_nth numbered_length)
  have hash: "CHR ''#'' \<notin> set (node_kind n)" for n by (cases n) simp_all
  have split: "s @ ''#'' @ u = t @ ''#'' @ v \<Longrightarrow> CHR ''#'' \<notin> set s \<Longrightarrow> CHR ''#'' \<notin> set t \<Longrightarrow> u = v" for s t u v :: string
  proof (induction s arbitrary: t)
    case Nil
    then show ?case by (cases t) auto
  next
    case (Cons c s)
    then show ?case by (cases t) auto
  qed
  have "show_nat (unat (seq (fst x))) = show_nat (unat (seq (fst y)))"
  proof (rule split)
    show "kind (fst x) @ ''#'' @ show_nat (unat (seq (fst x))) = kind (fst y) @ ''#'' @ show_nat (unat (seq (fst y)))"
      using w by (simp only: to_wire_def)
    show "CHR ''#'' \<notin> set (kind (fst x))" "CHR ''#'' \<notin> set (kind (fst y))"
      using a b hash by (simp_all add: numbered_nth node_id_new_def)
  qed
  then have "unat (seq (fst x)) = unat (seq (fst y))" by (rule show_nat_inj)
  moreover have "unat (seq (fst x)) = a" "unat (seq (fst y)) = b"
    using a b assms by (simp_all add: numbered_nth node_id_new_def unat_of_nat)
  ultimately have "a = b" by simp
  with a b show "x = y" by simp
qed

lemma planned_wires_distinct:
  assumes "length (post_order root) < 2 ^ 32"
  shows "distinct (map (\<lambda>e. to_wire (fst e)) (planned 0 (post_order root)))"
  using planned_wires_inj[OF assms] unique_seqs_keys[OF planned_unique[of 0 "post_order root"]] assms by (simp add: distinct_map)

lemma reads_wide_iff:
  "reads_wide i a \<longleftrightarrow>
      (\<exists>e op al c. Expression e op al \<in> set a \<and> c \<in> set (column_leaves e) \<and> type_below i c \<in> {Some F64, Some I64})"
proof -
  have case_ex: "(case x of Expression e _ _ \<Rightarrow> P e | _ \<Rightarrow> False) \<longleftrightarrow> (\<exists>e op al. x = Expression e op al \<and> P e)" for x P
    by (cases x) simp_all
  show ?thesis unfolding reads_wide_def case_ex Bex_def by blast
qed

text \<open>C13. The lifting plan of a query holds one decision per node, under the identifiers \<open>Kind#0\<close>,
  \<open>Kind#1\<close>, ... in post-order, and each decision is the one the cost rules give that node: a scan or
  filter stays on the CPU, a projection follows its input, a group-by is lifted exactly when no
  expression reads a column of type F64 or I64 (a U64 column does not matter), its keys with their null bits fit
  128 bits and the scan below has more than 100000 rows.\<close>

theorem lifting_plan_correct:
  assumes "length (post_order root) < 2 ^ 32"
  shows "compute_lifting_plan root =
      map (\<lambda>(j, n). (node_id_new (node_kind n) (of_nat j), node_decides n)) (zip [0..<length (post_order root)] (post_order root)) \<and>
    distinct (map (\<lambda>e. to_wire (fst e)) (compute_lifting_plan root)) \<and>
    (\<forall>i k a. GroupBy i k a \<in> set (post_order root) \<longrightarrow>
       node_decides (GroupBy i k a) =
         (if \<exists>e op al c. Expression e op al \<in> set a \<and> c \<in> set (column_leaves e) \<and> type_below i c \<in> {Some F64, Some I64}
          then Fallback wide_expression_reason
          else if 128 < key_bits k then Fallback (too_wide_reason (key_bits k))
          else if 100000 < rows_below i then GpuLift else CpuLeave))"
  unfolding compute_lifting_plan_eq[OF assms]
  using planned_wires_distinct[OF assms]
  by (simp only: numbered_def node_decides.simps groupby_rule_def reads_wide_iff) simp

lemma lifting_plan_correct_witness:
  "compute_lifting_plan (GroupBy (Scan 200000 [(''k'', I64)]) [(''k'', I64)] [Length ''n'']) =
     [(\<lparr>kind = ''Scan'', seq = 0\<rparr>, CpuLeave), (\<lparr>kind = ''GroupBy'', seq = 1\<rparr>, GpuLift)]"
proof -
  let ?r = "GroupBy (Scan 200000 [(''k'', I64)]) [(''k'', I64)] [Length ''n'']"
  have "length (post_order ?r) < 2 ^ 32" by simp
  from lifting_plan_correct[OF this, THEN conjunct1] show ?thesis
    by (simp add: node_id_new_def expression_falls_back_def decide_groupby_with_keys_def decide_groupby_def
        groupby_gpu_min_rows_def upt_rec)
qed

text \<open>C35. Smoothing a lifting plan is deterministic: its result depends neither on the iteration order
  of the plan's hash map nor on that of the candidate set. It keeps the identifiers, touches only
  candidates, never creates or removes a fallback, and is the identity under the default
  configuration.\<close>

theorem smoothing_deterministic:
  assumes "length (post_order root) < 2 ^ 32" and "plan = compute_lifting_plan root"
    and "set (it1 plan) = set plan" and "set (it2 plan) = set plan" and "set cs1 = set cs2"
  shows "smooth it1 cs1 plan = smooth it2 cs2 plan \<and>
    map fst (smooth it1 cs1 plan) = map fst plan \<and>
    (\<forall>i. i \<notin> set cs1 \<longrightarrow> lp_get (smooth it1 cs1 plan) i = lp_get plan i) \<and>
    map (\<lambda>e. is_fallback (snd e)) (smooth it1 cs1 plan) = map (\<lambda>e. is_fallback (snd e)) plan \<and>
    has_fallback (smooth it1 cs1 plan) = has_fallback plan \<and>
    smooth it1 (close_cost_node_ids default_smoothing) plan = plan"
proof -
  have u: "unique_seqs plan"
    unfolding assms(2) compute_lifting_plan_eq[OF assms(1)] by (rule planned_unique) (use assms(1) in simp)
  have m1: "smooth it1 cs1 plan = map (\<lambda>(i, d). (i, if i \<in> set cs1 then flip it1 plan i d else d)) plan"
    by (rule smooth_map[OF unique_seqs_keys[OF u]])
  have m2: "smooth it2 cs2 plan = map (\<lambda>(i, d). (i, if i \<in> set cs2 then flip it2 plan i d else d)) plan"
    by (rule smooth_map[OF unique_seqs_keys[OF u]])
  have same: "smooth it1 cs1 plan = smooth it2 cs2 plan"
    unfolding m1 m2 flip_order_free[of plan it1, OF u assms(3)] flip_order_free[of plan it2, OF u assms(4)] assms(5) ..
  have keys: "map fst (smooth it1 cs1 plan) = map fst plan"
    unfolding m1 by (simp add: split_def comp_def)
  have get: "lp_get (smooth it1 cs1 plan) i = lp_get plan i" if "i \<notin> set cs1" for i
  proof -
    have "map_of (map (\<lambda>(j, d). (j, g j d)) al) i = map_option (g i) (map_of al i)" for g and al :: lifting_plan
      by (induction al) auto
    from this[of "\<lambda>j d. if j \<in> set cs1 then flip it1 plan j d else d" plan] that show ?thesis
      unfolding m1 lp_get_def by (cases "map_of plan i") simp_all
  qed
  have fb: "map (\<lambda>e. is_fallback (snd e)) (smooth it1 cs1 plan) = map (\<lambda>e. is_fallback (snd e)) plan"
    unfolding m1 map_map by (intro map_cong refl) (simp add: flip_fallback split_def)
  have "has_fallback p = list_ex id (map (\<lambda>e. is_fallback (snd e)) p)" for p
    by (simp add: has_fallback_def list_ex_iff split_def)
  with fb have "has_fallback (smooth it1 cs1 plan) = has_fallback plan" by simp
  then show ?thesis
    using same keys get fb by (simp add: smooth_def default_smoothing_def)
qed

lemma smoothing_deterministic_witness:
  "smooth rev [\<lparr>kind = ''Project'', seq = 1\<rparr>] (compute_lifting_plan (Project (Scan 5 []) [])) =
   smooth (\<lambda>p. p) [\<lparr>kind = ''Project'', seq = 1\<rparr>, \<lparr>kind = ''Project'', seq = 1\<rparr>] (compute_lifting_plan (Project (Scan 5 []) []))"
proof -
  have "length (post_order (Project (Scan 5 []) [])) < 2 ^ 32" by simp
  from smoothing_deterministic[OF this refl, of rev "\<lambda>p. p" "[\<lparr>kind = ''Project'', seq = 1\<rparr>]"
      "[\<lparr>kind = ''Project'', seq = 1\<rparr>, \<lparr>kind = ''Project'', seq = 1\<rparr>]"]
  show ?thesis by simp
qed

end
