(* ===== verification/Keys.thy ===== *)
theory Keys
  imports Bitmap
begin

text \<open>
  Composite keys: \<open>encode_keys\<close> and \<open>decode_keys\<close> of \<open>polars-metal-kernels/src/groupby.rs\<close>. Each row of
  the key columns becomes one 128-bit lane; a field takes one null bit and its data bits. Floats are
  their bit patterns. The row loop of the encoder runs in parallel over independent rows, which is
  a map.
\<close>

section \<open>Data\<close>

datatype key_dtype = KI64 | KF64 | KBool | KI32 | KF32 | KI8 | KI16 | KU8 | KU16 | KU32 | KUtf8

fun data_bits :: "key_dtype \<Rightarrow> nat" where
  "data_bits KI64 = 64" | "data_bits KF64 = 64"
| "data_bits KBool = 1"
| "data_bits KI32 = 32" | "data_bits KF32 = 32" | "data_bits KU32 = 32" | "data_bits KUtf8 = 32"
| "data_bits KI16 = 16" | "data_bits KU16 = 16"
| "data_bits KI8 = 8" | "data_bits KU8 = 8"

record key_column =
  kc_name :: string
  kc_dtype :: key_dtype
  kc_data :: bytes
  kc_valid :: bytes
  kc_n_rows :: nat
  kc_dict :: "string list option"

record key_field =
  kf_name :: string
  kf_dtype :: key_dtype
  null_bit_offset :: nat
  data_bit_offset :: nat
  kf_dict :: "string list option"

record key_schema =
  ks_fields :: "key_field list"
  ks_total_bits :: nat
  ks_n_rows :: nat

datatype key_encode_error =
    NoKeys
  | TooWide nat
  | RowCountMismatch nat nat
  | DataTooShort string nat nat
  | ValidityTooShort string nat nat
  | Utf8MissingDict string

section \<open>The encoder\<close>

fun need_data :: "key_dtype \<Rightarrow> nat \<Rightarrow> nat" where
  "need_data KI64 n_rows = n_rows * 8" | "need_data KF64 n_rows = n_rows * 8"
| "need_data KI32 n_rows = n_rows * 4" | "need_data KF32 n_rows = n_rows * 4"
| "need_data KU32 n_rows = n_rows * 4" | "need_data KUtf8 n_rows = n_rows * 4"
| "need_data KI16 n_rows = n_rows * 2" | "need_data KU16 n_rows = n_rows * 2"
| "need_data KI8 n_rows = n_rows" | "need_data KU8 n_rows = n_rows"
| "need_data KBool n_rows = (n_rows + 7) div 8"

fun check_row_counts :: "nat \<Rightarrow> key_column list \<Rightarrow> key_encode_error + unit" where
  "check_row_counts n_rows [] = Inr ()"
| "check_row_counts n_rows (c # cs) =
     (if kc_n_rows c \<noteq> n_rows then Inl (RowCountMismatch n_rows (kc_n_rows c))
      else check_row_counts n_rows cs)"

text \<open>The loop that lays out the fields; the second component of the result is the final offset.\<close>

fun layout_fields :: "nat \<Rightarrow> nat \<Rightarrow> key_column list \<Rightarrow> key_encode_error + key_field list \<times> nat" where
  "layout_fields n_rows offset [] = Inr ([], offset)"
| "layout_fields n_rows offset (c # cs) =
     (let min_valid_bytes = (n_rows + 7) div 8; need = need_data (kc_dtype c) n_rows in
      if kc_dtype c = KUtf8 \<and> kc_dict c = None then Inl (Utf8MissingDict (kc_name c))
      else if length (kc_data c) < need then Inl (DataTooShort (kc_name c) (length (kc_data c)) need)
      else if length (kc_valid c) < min_valid_bytes
        then Inl (ValidityTooShort (kc_name c) (length (kc_valid c)) min_valid_bytes)
      else let field_bits = 1 + data_bits (kc_dtype c) in
        if offset + field_bits > 128 then Inl (TooWide (offset + field_bits))
        else rbind (layout_fields n_rows (offset + field_bits) cs) (\<lambda>(fs, tot).
          Inr (\<lparr>kf_name = kc_name c, kf_dtype = kc_dtype c, null_bit_offset = offset,
                data_bit_offset = offset + 1, kf_dict = kc_dict c\<rparr> # fs, tot)))"

text \<open>The bytes of row \<open>row\<close> in a column of \<open>k\<close>-byte values.\<close>

definition row_bytes :: "nat \<Rightarrow> bytes \<Rightarrow> nat \<Rightarrow> bytes" where
  "row_bytes k data row = take k (drop (row * k) data)"

definition bit_at :: "bytes \<Rightarrow> nat \<Rightarrow> byte" where
  "bit_at data row = drop_bit (row AND 7) (data ! drop_bit 3 row) AND 1"

fun data_value :: "key_dtype \<Rightarrow> bytes \<Rightarrow> nat \<Rightarrow> u128" where
  "data_value KI64 data row = ucast (of_le_bytes (row_bytes 8 data row) :: 64 word)"
| "data_value KF64 data row = ucast (of_le_bytes (row_bytes 8 data row) :: 64 word)"
| "data_value KI32 data row = ucast (of_le_bytes (row_bytes 4 data row) :: 32 word)"
| "data_value KF32 data row = ucast (of_le_bytes (row_bytes 4 data row) :: 32 word)"
| "data_value KU32 data row = ucast (of_le_bytes (row_bytes 4 data row) :: 32 word)"
| "data_value KUtf8 data row = ucast (of_le_bytes (row_bytes 4 data row) :: 32 word)"
| "data_value KI16 data row = ucast (of_le_bytes (row_bytes 2 data row) :: 16 word)"
| "data_value KU16 data row = ucast (of_le_bytes (row_bytes 2 data row) :: 16 word)"
| "data_value KI8 data row = ucast (data ! row)"
| "data_value KU8 data row = ucast (data ! row)"
| "data_value KBool data row = ucast (bit_at data row)"

definition encode_field :: "nat \<Rightarrow> u128 \<Rightarrow> key_field \<times> key_column \<Rightarrow> u128" where
  "encode_field row lane = (\<lambda>(field, c).
     if bit_at (kc_valid c) row = 0 then lane OR push_bit (null_bit_offset field) 1
     else lane OR push_bit (data_bit_offset field) (data_value (kc_dtype c) (kc_data c) row))"

definition encode_row :: "key_field list \<Rightarrow> key_column list \<Rightarrow> nat \<Rightarrow> u128" where
  "encode_row flds cols row = foldl (encode_field row) 0 (zip flds cols)"

definition encode_keys :: "key_column list \<Rightarrow> key_encode_error + (u128 list \<times> key_schema)" where
  "encode_keys cols =
     (case cols of
        [] \<Rightarrow> Inl NoKeys
      | c # rest \<Rightarrow>
          let n_rows = kc_n_rows c in
          rbind (check_row_counts n_rows rest) (\<lambda>_.
          rbind (layout_fields n_rows 0 cols) (\<lambda>(flds, total_bits).
            Inr (map (encode_row flds cols) [0..<n_rows],
                 \<lparr>ks_fields = flds, ks_total_bits = total_bits, ks_n_rows = n_rows\<rparr>))))"

section \<open>The decoder\<close>

datatype decoded_column =
    DI64 "64 word list" "bool list"
  | DF64 "64 word list" "bool list"
  | DBool "bool list" "bool list"
  | DI32 "32 word list" "bool list"
  | DF32 "32 word list" "bool list"
  | DI8 "8 word list" "bool list"
  | DI16 "16 word list" "bool list"
  | DU8 "8 word list" "bool list"
  | DU16 "16 word list" "bool list"
  | DU32 "32 word list" "bool list"
  | DUtf8 "string list" "bool list"

fun empty_decoded :: "key_dtype \<Rightarrow> decoded_column" where
  "empty_decoded KI64 = DI64 [] []" | "empty_decoded KF64 = DF64 [] []"
| "empty_decoded KBool = DBool [] []" | "empty_decoded KI32 = DI32 [] []"
| "empty_decoded KF32 = DF32 [] []" | "empty_decoded KI8 = DI8 [] []"
| "empty_decoded KI16 = DI16 [] []" | "empty_decoded KU8 = DU8 [] []"
| "empty_decoded KU16 = DU16 [] []" | "empty_decoded KU32 = DU32 [] []"
| "empty_decoded KUtf8 = DUtf8 [] []"

definition lane_valid :: "u128 \<Rightarrow> key_field \<Rightarrow> bool" where
  "lane_valid lane field \<longleftrightarrow> drop_bit (null_bit_offset field) lane AND 1 = 0"

definition lane_raw :: "nat \<Rightarrow> u128 \<Rightarrow> key_field \<Rightarrow> u128" where
  "lane_raw k lane field = drop_bit (data_bit_offset field) lane AND (push_bit k 1 - 1)"

definition dict_string :: "string list option \<Rightarrow> u32 \<Rightarrow> string" where
  "dict_string dict code =
     (case dict of None \<Rightarrow> [] | Some d \<Rightarrow> (case slice_get d (unat code) of None \<Rightarrow> [] | Some s \<Rightarrow> s))"

text \<open>One step of the decoder; \<open>None\<close> is the \<open>unreachable!\<close> arm.\<close>

definition decode_push :: "u128 \<Rightarrow> key_field \<Rightarrow> key_dtype \<Rightarrow> decoded_column \<Rightarrow> decoded_column option" where
  "decode_push lane f d col = (case d of
     KI64 \<Rightarrow> (case col of DI64 vs ok \<Rightarrow>
         Some (DI64 (vs @ [if lane_valid lane f then ucast (lane_raw 64 lane f) else 0]) (ok @ [lane_valid lane f])) | _ \<Rightarrow> None)
   | KF64 \<Rightarrow> (case col of DF64 vs ok \<Rightarrow>
         Some (DF64 (vs @ [if lane_valid lane f then ucast (lane_raw 64 lane f) else 0]) (ok @ [lane_valid lane f])) | _ \<Rightarrow> None)
   | KBool \<Rightarrow> (case col of DBool vs ok \<Rightarrow>
         Some (DBool (vs @ [if lane_valid lane f then lane_raw 1 lane f = 1 else False]) (ok @ [lane_valid lane f])) | _ \<Rightarrow> None)
   | KI32 \<Rightarrow> (case col of DI32 vs ok \<Rightarrow>
         Some (DI32 (vs @ [if lane_valid lane f then ucast (lane_raw 32 lane f) else 0]) (ok @ [lane_valid lane f])) | _ \<Rightarrow> None)
   | KF32 \<Rightarrow> (case col of DF32 vs ok \<Rightarrow>
         Some (DF32 (vs @ [if lane_valid lane f then ucast (lane_raw 32 lane f) else 0]) (ok @ [lane_valid lane f])) | _ \<Rightarrow> None)
   | KU32 \<Rightarrow> (case col of DU32 vs ok \<Rightarrow>
         Some (DU32 (vs @ [if lane_valid lane f then ucast (lane_raw 32 lane f) else 0]) (ok @ [lane_valid lane f])) | _ \<Rightarrow> None)
   | KI16 \<Rightarrow> (case col of DI16 vs ok \<Rightarrow>
         Some (DI16 (vs @ [if lane_valid lane f then ucast (lane_raw 16 lane f) else 0]) (ok @ [lane_valid lane f])) | _ \<Rightarrow> None)
   | KU16 \<Rightarrow> (case col of DU16 vs ok \<Rightarrow>
         Some (DU16 (vs @ [if lane_valid lane f then ucast (lane_raw 16 lane f) else 0]) (ok @ [lane_valid lane f])) | _ \<Rightarrow> None)
   | KI8 \<Rightarrow> (case col of DI8 vs ok \<Rightarrow>
         Some (DI8 (vs @ [if lane_valid lane f then ucast (lane_raw 8 lane f) else 0]) (ok @ [lane_valid lane f])) | _ \<Rightarrow> None)
   | KU8 \<Rightarrow> (case col of DU8 vs ok \<Rightarrow>
         Some (DU8 (vs @ [if lane_valid lane f then ucast (lane_raw 8 lane f) else 0]) (ok @ [lane_valid lane f])) | _ \<Rightarrow> None)
   | KUtf8 \<Rightarrow> (case col of DUtf8 vs ok \<Rightarrow>
         Some (DUtf8 (vs @ [if lane_valid lane f then dict_string (kf_dict f) (ucast (lane_raw 32 lane f)) else []])
           (ok @ [lane_valid lane f])) | _ \<Rightarrow> None))"

fun decode_lane :: "u128 \<Rightarrow> key_field list \<Rightarrow> decoded_column list \<Rightarrow> decoded_column list option" where
  "decode_lane lane [] out = Some []"
| "decode_lane lane (f # fs) [] = None"
| "decode_lane lane (f # fs) (c # out) =
     (case decode_push lane f (kf_dtype f) c of
        None \<Rightarrow> None
      | Some c' \<Rightarrow> (case decode_lane lane fs out of None \<Rightarrow> None | Some out' \<Rightarrow> Some (c' # out')))"

fun decode_lanes :: "u128 list \<Rightarrow> key_field list \<Rightarrow> decoded_column list \<Rightarrow> decoded_column list option" where
  "decode_lanes [] fs out = Some out"
| "decode_lanes (lane # lanes) fs out =
     (case decode_lane lane fs out of None \<Rightarrow> None | Some out' \<Rightarrow> decode_lanes lanes fs out')"

definition decode_keys :: "u128 list \<Rightarrow> key_schema \<Rightarrow> decoded_column list option" where
  "decode_keys encoded schema =
     decode_lanes encoded (ks_fields schema) (map (\<lambda>f. empty_decoded (kf_dtype f)) (ks_fields schema))"

section \<open>Lanes\<close>

text \<open>The abstract content of a field in a row: absent when null, else the data bits.\<close>

definition row_view :: "key_column \<Rightarrow> nat \<Rightarrow> u128 option" where
  "row_view c row =
     (if get_valid (kc_valid c) row then Some (data_value (kc_dtype c) (kc_data c) row) else None)"

definition code_of :: "u128 option \<Rightarrow> u128" where
  "code_of v = (case v of None \<Rightarrow> 1 | Some x \<Rightarrow> push_bit 1 x)"

lemma drop_and_one: "drop_bit n (w::'a::len word) AND 1 = (if bit w n then 1 else 0)"
  by (simp add: and_one_eq mod_2_eq_odd bit_iff_odd_drop_bit)

lemma bit_at_1: "row div 8 < length data \<Longrightarrow> bit_at data row = (if get_valid data row then 1 else 0)"
  by (simp add: bit_at_def get_valid_bit and_7 drop_bit_3 drop_and_one)

lemma bit_data_value: "row div 8 < length data \<or> d \<noteq> KBool \<Longrightarrow> bit (data_value d data row) i \<Longrightarrow> i < data_bits d"
  by (cases d) (auto simp: bit_ucast_iff bit_at_1 bit_1_iff dest: bit_imp_le_length split: if_splits)

text \<open>A field's code fits in its bits, and the layout gives disjoint bit ranges within the lane.\<close>

definition fields_disjoint :: "nat \<Rightarrow> key_field list \<Rightarrow> nat \<Rightarrow> bool" where
  "fields_disjoint lo fs hi \<longleftrightarrow>
     sorted_wrt (\<lambda>f g. null_bit_offset f + 1 + data_bits (kf_dtype f) \<le> null_bit_offset g) fs \<and>
     (\<forall>f \<in> set fs. lo \<le> null_bit_offset f \<and> null_bit_offset f + 1 + data_bits (kf_dtype f) \<le> hi \<and>
        data_bit_offset f = null_bit_offset f + 1)"

definition column_ok :: "nat \<Rightarrow> key_field \<Rightarrow> key_column \<Rightarrow> bool" where
  "column_ok n f c \<longleftrightarrow> kf_name f = kc_name c \<and> kf_dtype f = kc_dtype c \<and> kf_dict f = kc_dict c \<and>
     need_data (kc_dtype c) n \<le> length (kc_data c) \<and> (n + 7) div 8 \<le> length (kc_valid c) \<and>
     (kc_dtype c = KUtf8 \<longrightarrow> kc_dict c \<noteq> None)"

lemma layout_spec:
  "layout_fields n off cs = Inr (fs, tot) \<Longrightarrow>
     fields_disjoint off fs tot \<and> off \<le> tot \<and> tot = off + sum_list (map (\<lambda>c. 1 + data_bits (kc_dtype c)) cs) \<and>
     (cs \<noteq> [] \<longrightarrow> tot \<le> 128) \<and> list_all2 (column_ok n) fs cs"
proof (induction n off cs arbitrary: fs tot rule: layout_fields.induct)
  case (2 n off c cs)
  let ?b = "1 + data_bits (kc_dtype c)"
  from 2(2) obtain gs where gs: "layout_fields n (off + ?b) cs = Inr (gs, tot)"
    and fs: "fs = \<lparr>kf_name = kc_name c, kf_dtype = kc_dtype c, null_bit_offset = off,
                data_bit_offset = off + 1, kf_dict = kc_dict c\<rparr> # gs"
    and ok: "need_data (kc_dtype c) n \<le> length (kc_data c)" "(n + 7) div 8 \<le> length (kc_valid c)"
      "kc_dtype c = KUtf8 \<longrightarrow> kc_dict c \<noteq> None" "off + ?b \<le> 128"
    by (auto simp: Let_def result_simps split: if_splits)
  have IH: "fields_disjoint (off + ?b) gs tot \<and> off + ?b \<le> tot \<and>
      tot = off + ?b + sum_list (map (\<lambda>c. 1 + data_bits (kc_dtype c)) cs) \<and> (cs \<noteq> [] \<longrightarrow> tot \<le> 128) \<and>
      list_all2 (column_ok n) gs cs"
    by (rule "2.IH"[OF refl refl _ _ _ refl _ gs]) (use ok in auto)
  have "column_ok n \<lparr>kf_name = kc_name c, kf_dtype = kc_dtype c, null_bit_offset = off,
      data_bit_offset = off + 1, kf_dict = kc_dict c\<rparr> c"
    using ok by (simp add: column_ok_def)
  then show ?case
    using IH ok(4) unfolding fs by (cases "cs = []") (auto simp: fields_disjoint_def)
qed (simp add: fields_disjoint_def)

lemma layout_nth:
  assumes "layout_fields n 0 cs = Inr (fs, tot)" "k < length cs"
  shows "length fs = length cs" "kf_dtype (fs ! k) = kc_dtype (cs ! k)" "kf_dict (fs ! k) = kc_dict (cs ! k)"
    "need_data (kc_dtype (cs ! k)) n \<le> length (kc_data (cs ! k))"
    "(n + 7) div 8 \<le> length (kc_valid (cs ! k))"
    "data_bit_offset (fs ! k) = null_bit_offset (fs ! k) + 1"
    "null_bit_offset (fs ! k) + 1 + data_bits (kc_dtype (cs ! k)) \<le> 128"
    "kc_dtype (cs ! k) = KUtf8 \<Longrightarrow> kc_dict (cs ! k) \<noteq> None"
proof -
  note spec = layout_spec[OF assms(1)]
  show len: "length fs = length cs" using spec by (auto dest: list_all2_lengthD)
  have all: "kf_dtype (fs ! k) = kc_dtype (cs ! k) \<and> kf_dict (fs ! k) = kc_dict (cs ! k) \<and>
    need_data (kc_dtype (cs ! k)) n \<le> length (kc_data (cs ! k)) \<and> (n + 7) div 8 \<le> length (kc_valid (cs ! k)) \<and>
    (kc_dtype (cs ! k) = KUtf8 \<longrightarrow> kc_dict (cs ! k) \<noteq> None)"
    using spec assms(2) len list_all2_nthD[of "column_ok n" fs cs k] by (auto simp: column_ok_def)
  then show dt: "kf_dtype (fs ! k) = kc_dtype (cs ! k)" "kf_dict (fs ! k) = kc_dict (cs ! k)"
    "need_data (kc_dtype (cs ! k)) n \<le> length (kc_data (cs ! k))"
    "(n + 7) div 8 \<le> length (kc_valid (cs ! k))"
    "kc_dtype (cs ! k) = KUtf8 \<Longrightarrow> kc_dict (cs ! k) \<noteq> None"
    by auto
  have "fs ! k \<in> set fs" and tot: "tot \<le> 128" using assms(2) len spec by auto
  then have f: "null_bit_offset (fs ! k) + 1 + data_bits (kf_dtype (fs ! k)) \<le> tot"
    "data_bit_offset (fs ! k) = null_bit_offset (fs ! k) + 1"
    using spec unfolding fields_disjoint_def by blast+
  show "data_bit_offset (fs ! k) = null_bit_offset (fs ! k) + 1" by (rule f(2))
  show "null_bit_offset (fs ! k) + 1 + data_bits (kc_dtype (cs ! k)) \<le> 128" using f(1) tot dt(1) by simp
qed

lemma layout_ranges:
  assumes "layout_fields n 0 cs = Inr (fs, tot)" "j < k" "k < length cs"
  shows "null_bit_offset (fs ! j) + 1 + data_bits (kc_dtype (cs ! j)) \<le> null_bit_offset (fs ! k)"
proof -
  have "length fs = length cs" "kf_dtype (fs ! j) = kc_dtype (cs ! j)"
    using layout_nth(1,2)[OF assms(1), of j] assms(2,3) by auto
  moreover have "sorted_wrt (\<lambda>f g. null_bit_offset f + 1 + data_bits (kf_dtype f) \<le> null_bit_offset g) fs"
    using layout_spec[OF assms(1)] unfolding fields_disjoint_def by blast
  ultimately show ?thesis
    using assms(2,3) unfolding sorted_wrt_iff_nth_less by metis
qed

text \<open>A step of the encoder ors the code of the row's content into the field's place.\<close>

lemma encode_field_code:
  assumes "row div 8 < length (kc_valid c)" "data_bit_offset f = null_bit_offset f + 1"
  shows "encode_field row lane (f, c) = lane OR push_bit (null_bit_offset f) (code_of (row_view c row))"
  using assms by (simp add: encode_field_def bit_at_1 code_of_def row_view_def add.commute)

lemma bit_foldl_or:
  "bit (foldl (\<lambda>lane (o', v). lane OR push_bit o' v) acc ps) i \<longleftrightarrow>
     bit acc i \<or> (\<exists>(o', v) \<in> set ps. bit (push_bit o' (v::u128)) i)"
  by (induction ps arbitrary: acc) (auto simp: bit_or_iff)

lemma bit_code_of:
  "bit (code_of v) i \<longleftrightarrow> (case v of None \<Rightarrow> i = 0 | Some x \<Rightarrow> 0 < i \<and> i < 128 \<and> bit x (i - 1))"
  by (cases v) (simp_all only: code_of_def option.case bit_push_bit_iff bit_1_iff, auto)

lemma row_view_width:
  assumes "need_data (kc_dtype c) n \<le> length (kc_data c)" "row < n" "bit (code_of (row_view c row)) i"
  shows "i < 1 + data_bits (kc_dtype c)"
proof -
  have "kc_dtype c = KBool \<Longrightarrow> row div 8 < length (kc_data c)"
    using assms(1,2) less_div_ceil_8[of row n] by (simp add: div_ceil_8)
  with assms(3) bit_data_value[of row "kc_data c" "kc_dtype c" "i - 1"] show ?thesis
    by (cases "kc_dtype c = KBool") (auto simp: bit_code_of row_view_def split: if_splits)
qed

lemma encode_row_codes:
  assumes lay: "layout_fields n 0 cs = Inr (fs, tot)" and row: "row < n"
  shows "encode_row fs cs row =
    foldl (\<lambda>lane (o', v). lane OR push_bit o' v) 0
      (map (\<lambda>(f, c). (null_bit_offset f, code_of (row_view c row))) (zip fs cs))"
proof -
  have "encode_field row lane fc = lane OR push_bit (null_bit_offset (fst fc)) (code_of (row_view (snd fc) row))"
    if fc: "fc \<in> set (zip fs cs)" for lane fc
  proof -
    obtain k where k: "k < length cs" "fc = (fs ! k, cs ! k)"
      using fc by (auto simp: in_set_zip)
    have "row div 8 < length (kc_valid (cs ! k))"
      using layout_nth(5)[OF lay k(1)] less_div_ceil_8[OF row] by (simp add: div_ceil_8)
    with encode_field_code[of row "cs ! k" "fs ! k" lane] layout_nth(6)[OF lay k(1)] k(2)
    show ?thesis by simp
  qed
  then show ?thesis
    unfolding encode_row_def foldl_map by (intro foldl_cong refl) (auto simp: split_def)
qed

lemma encode_row_bit:
  assumes lay: "layout_fields n 0 cs = Inr (fs, tot)" and row: "row < n"
    and k: "k < length cs" and i: "i < 1 + data_bits (kc_dtype (cs ! k))"
  shows "bit (encode_row fs cs row) (null_bit_offset (fs ! k) + i) = bit (code_of (row_view (cs ! k) row)) i"
proof -
  let ?o = "\<lambda>j. null_bit_offset (fs ! j)" and ?v = "\<lambda>j. code_of (row_view (cs ! j) row)"
  have len: "length fs = length cs" by (rule layout_nth(1)[OF lay k])
  have sum: "?o k + i < 128" using layout_nth(7)[OF lay k] i by simp
  have "bit (encode_row fs cs row) (?o k + i) \<longleftrightarrow> (\<exists>j < length cs. bit (push_bit (?o j) (?v j)) (?o k + i))"
    unfolding encode_row_codes[OF lay row] bit_foldl_or
    by (auto simp: set_zip len)
  also have "\<dots> \<longleftrightarrow> bit (push_bit (?o k) (?v k)) (?o k + i)"
  proof -
    have "j = k" if j: "j < length cs" "bit (push_bit (?o j) (?v j)) (?o k + i)" for j
    proof -
      have lo: "?o j \<le> ?o k + i" "bit (?v j) (?o k + i - ?o j)"
        using j(2) by (simp_all add: bit_push_bit_iff)
      have "?o k + i - ?o j < 1 + data_bits (kc_dtype (cs ! j))"
        by (rule row_view_width[OF layout_nth(4)[OF lay j(1)] row lo(2)])
      with layout_ranges[OF lay, of j k] layout_ranges[OF lay, of k j] lo(1) i j(1) k
      show "j = k" by (cases j k rule: linorder_cases) auto
    qed
    with k show ?thesis by blast
  qed
  also have "\<dots> \<longleftrightarrow> bit (?v k) i" using sum by (simp add: bit_push_bit_iff)
  finally show ?thesis .
qed

section \<open>Equal lanes are equal rows\<close>

lemma code_of_eq:
  assumes "\<And>x i. v = Some x \<Longrightarrow> bit x i \<Longrightarrow> i < w" "\<And>x i. u = Some x \<Longrightarrow> bit x i \<Longrightarrow> i < w" "w < 128"
  shows "v = u \<longleftrightarrow> (\<forall>i < 1 + w. bit (code_of v) i = bit (code_of u) i)"
proof
  assume all: "\<forall>i < 1 + w. bit (code_of v) i = bit (code_of u) i"
  show "v = u"
  proof (cases v)
    case None
    then show ?thesis using all[rule_format, of 0] by (cases u) (auto simp: bit_code_of)
  next
    case (Some x)
    then obtain y where u: "u = Some y" using all[rule_format, of 0] by (cases u) (auto simp: bit_code_of)
    have "bit x i = bit y i" for i
      using all[rule_format, of "Suc i"] Some u assms by (cases "i < w") (auto simp: bit_code_of)
    then show ?thesis by (simp add: Some u bit_eqI)
  qed
qed simp

lemma row_view_Some_width:
  assumes "layout_fields n 0 cs = Inr (fs, tot)" "k < length cs" "row < n" "row_view (cs ! k) row = Some x" "bit x i"
  shows "i < data_bits (kc_dtype (cs ! k))"
proof -
  have "row div 8 < length (kc_data (cs ! k)) \<or> kc_dtype (cs ! k) \<noteq> KBool"
    using layout_nth(4)[OF assms(1,2)] less_div_ceil_8[OF assms(3)]
    by (cases "kc_dtype (cs ! k) = KBool") (simp_all add: div_ceil_8)
  from bit_data_value[OF this] assms(4,5) show ?thesis by (auto simp: row_view_def split: if_splits)
qed

lemma encode_row_eq_iff:
  assumes lay: "layout_fields n 0 cs = Inr (fs, tot)" and row: "row < n" "row' < n"
  shows "encode_row fs cs row = encode_row fs cs row' \<longleftrightarrow> (\<forall>c \<in> set cs. row_view c row = row_view c row')"
proof
  assume eq: "encode_row fs cs row = encode_row fs cs row'"
  show "\<forall>c \<in> set cs. row_view c row = row_view c row'"
  proof
    fix c assume "c \<in> set cs"
    then obtain k where k: "k < length cs" "cs ! k = c" by (metis in_set_conv_nth)
    let ?w = "data_bits (kc_dtype (cs ! k))"
    have w: "?w < 128" using layout_nth(7)[OF lay k(1)] by simp
    have "\<forall>i < 1 + ?w. bit (code_of (row_view (cs ! k) row)) i = bit (code_of (row_view (cs ! k) row')) i"
      using encode_row_bit[OF lay row(1) k(1)] encode_row_bit[OF lay row(2) k(1)] eq by simp
    then have "row_view (cs ! k) row = row_view (cs ! k) row'"
      using code_of_eq[of "row_view (cs ! k) row" ?w "row_view (cs ! k) row'"] w
        row_view_Some_width[OF lay k(1) row(1)] row_view_Some_width[OF lay k(1) row(2)] by blast
    with k show "row_view c row = row_view c row'" by simp
  qed
next
  assume "\<forall>c \<in> set cs. row_view c row = row_view c row'"
  then show "encode_row fs cs row = encode_row fs cs row'"
    unfolding encode_row_codes[OF lay row(1)] encode_row_codes[OF lay row(2)]
    by (intro arg_cong[of _ _ "foldl _ _"] map_cong refl) (auto dest: set_zip_rightD)
qed

lemma check_row_counts_ok: "check_row_counts n cs = Inr u \<longleftrightarrow> (\<forall>c \<in> set cs. kc_n_rows c = n)"
  by (induction cs) auto

lemma encode_keys_Inr:
  assumes "encode_keys cols = Inr (encoded, schema)"
  obtains n tot where "cols \<noteq> []" "\<forall>c \<in> set cols. kc_n_rows c = n"
    "layout_fields n 0 cols = Inr (ks_fields schema, tot)" "ks_n_rows schema = n" "ks_total_bits schema = tot"
    "encoded = map (encode_row (ks_fields schema) cols) [0..<n]"
proof (cases cols)
  case (Cons c rest)
  with assms obtain flds tot where "check_row_counts (kc_n_rows c) rest = Inr ()"
    "layout_fields (kc_n_rows c) 0 cols = Inr (flds, tot)"
    "encoded = map (encode_row flds cols) [0..<kc_n_rows c]"
    "schema = \<lparr>ks_fields = flds, ks_total_bits = tot, ks_n_rows = kc_n_rows c\<rparr>"
    by (auto simp: encode_keys_def Let_def result_simps)
  then show ?thesis using Cons by (intro that) (simp_all add: check_row_counts_ok)
qed (use assms in \<open>simp add: encode_keys_def\<close>)

section \<open>Decoding\<close>

text \<open>The columns a list of lanes decodes to, field by field.\<close>

definition fixed_values :: "nat \<Rightarrow> key_field \<Rightarrow> u128 list \<Rightarrow> 'a::len word list" where
  "fixed_values k f lanes = map (\<lambda>l. if lane_valid l f then ucast (lane_raw k l f) else 0) lanes"

definition decoded_of :: "key_field \<Rightarrow> u128 list \<Rightarrow> decoded_column" where
  "decoded_of f lanes =
     (let ok = map (\<lambda>l. lane_valid l f) lanes in
      case kf_dtype f of
        KI64 \<Rightarrow> DI64 (fixed_values 64 f lanes) ok
      | KF64 \<Rightarrow> DF64 (fixed_values 64 f lanes) ok
      | KBool \<Rightarrow> DBool (map (\<lambda>l. lane_valid l f \<and> lane_raw 1 l f = 1) lanes) ok
      | KI32 \<Rightarrow> DI32 (fixed_values 32 f lanes) ok
      | KF32 \<Rightarrow> DF32 (fixed_values 32 f lanes) ok
      | KU32 \<Rightarrow> DU32 (fixed_values 32 f lanes) ok
      | KI16 \<Rightarrow> DI16 (fixed_values 16 f lanes) ok
      | KU16 \<Rightarrow> DU16 (fixed_values 16 f lanes) ok
      | KI8 \<Rightarrow> DI8 (fixed_values 8 f lanes) ok
      | KU8 \<Rightarrow> DU8 (fixed_values 8 f lanes) ok
      | KUtf8 \<Rightarrow> DUtf8 (map (\<lambda>l. if lane_valid l f then dict_string (kf_dict f) (ucast (lane_raw 32 l f)) else []) lanes) ok)"

lemma decoded_of_Nil: "empty_decoded (kf_dtype f) = decoded_of f []"
  by (cases "kf_dtype f") (simp_all add: decoded_of_def fixed_values_def)

lemma decode_push_snoc: "decode_push lane f (kf_dtype f) (decoded_of f ls) = Some (decoded_of f (ls @ [lane]))"
  by (cases "kf_dtype f") (auto simp: decode_push_def decoded_of_def fixed_values_def)

lemma decode_lane_snoc:
  "decode_lane lane fs (map (\<lambda>f. decoded_of f ls) fs) = Some (map (\<lambda>f. decoded_of f (ls @ [lane])) fs)"
  by (induction fs) (simp_all add: decode_push_snoc)

lemma decode_lanes_append:
  "decode_lanes lanes fs (map (\<lambda>f. decoded_of f ls) fs) = Some (map (\<lambda>f. decoded_of f (ls @ lanes)) fs)"
  by (induction lanes arbitrary: ls) (simp_all add: decode_lane_snoc)

lemma decode_keys_eq: "decode_keys lanes schema = Some (map (\<lambda>f. decoded_of f lanes) (ks_fields schema))"
  using decode_lanes_append[of lanes "ks_fields schema" "[]"] by (simp add: decode_keys_def decoded_of_Nil)

text \<open>The values an Arrow column holds, read from its buffers; a null row reads as zero or empty.\<close>

definition arrow_values :: "key_column \<Rightarrow> nat list \<Rightarrow> (nat \<Rightarrow> 'v) \<Rightarrow> 'v \<Rightarrow> 'v list" where
  "arrow_values c rows g z = map (\<lambda>r. if get_valid (kc_valid c) r then g r else z) rows"

definition column_view :: "key_column \<Rightarrow> nat list \<Rightarrow> decoded_column" where
  "column_view c rows =
     (let ok = map (get_valid (kc_valid c)) rows; data = kc_data c in
      case kc_dtype c of
        KI64 \<Rightarrow> DI64 (arrow_values c rows (\<lambda>r. of_le_bytes (row_bytes 8 data r)) 0) ok
      | KF64 \<Rightarrow> DF64 (arrow_values c rows (\<lambda>r. of_le_bytes (row_bytes 8 data r)) 0) ok
      | KBool \<Rightarrow> DBool (arrow_values c rows (get_valid data) False) ok
      | KI32 \<Rightarrow> DI32 (arrow_values c rows (\<lambda>r. of_le_bytes (row_bytes 4 data r)) 0) ok
      | KF32 \<Rightarrow> DF32 (arrow_values c rows (\<lambda>r. of_le_bytes (row_bytes 4 data r)) 0) ok
      | KU32 \<Rightarrow> DU32 (arrow_values c rows (\<lambda>r. of_le_bytes (row_bytes 4 data r)) 0) ok
      | KI16 \<Rightarrow> DI16 (arrow_values c rows (\<lambda>r. of_le_bytes (row_bytes 2 data r)) 0) ok
      | KU16 \<Rightarrow> DU16 (arrow_values c rows (\<lambda>r. of_le_bytes (row_bytes 2 data r)) 0) ok
      | KI8 \<Rightarrow> DI8 (arrow_values c rows ((!) data) 0) ok
      | KU8 \<Rightarrow> DU8 (arrow_values c rows ((!) data) 0) ok
      | KUtf8 \<Rightarrow> DUtf8 (arrow_values c rows
          (\<lambda>r. dict_string (kc_dict c) (of_le_bytes (row_bytes 4 data r))) []) ok)"

lemma push_bit_minus_mask: "push_bit k 1 - 1 = (mask k :: u128)"
  by (simp only: mask_eq_exp_minus_1 push_bit_eq_mult mult_1)

lemma lane_valid_eq:
  assumes "layout_fields n 0 cs = Inr (fs, tot)" "k < length cs" "row < n"
  shows "lane_valid (encode_row fs cs row) (fs ! k) = get_valid (kc_valid (cs ! k)) row"
  using encode_row_bit[OF assms(1,3,2), of 0]
  by (auto simp: lane_valid_def drop_and_one bit_code_of row_view_def)

lemma lane_raw_eq:
  assumes lay: "layout_fields n 0 cs = Inr (fs, tot)" and k: "k < length cs" and row: "row < n"
    and valid: "get_valid (kc_valid (cs ! k)) row" and w: "w = data_bits (kc_dtype (cs ! k))"
  shows "lane_raw w (encode_row fs cs row) (fs ! k) = data_value (kc_dtype (cs ! k)) (kc_data (cs ! k)) row"
proof (rule bit_eqI)
  fix i
  let ?c = "cs ! k"
  have v: "row_view ?c row = Some (data_value (kc_dtype ?c) (kc_data ?c) row)"
    using valid by (simp add: row_view_def)
  have r: "bit (lane_raw w (encode_row fs cs row) (fs ! k)) i \<longleftrightarrow>
      i < w \<and> bit (encode_row fs cs row) (null_bit_offset (fs ! k) + Suc i)"
    unfolding lane_raw_def push_bit_minus_mask
    by (auto simp: bit_and_iff bit_mask_iff bit_drop_bit_eq layout_nth(6)[OF lay k] dest: bit_imp_le_length)
  have "w < 128" using layout_nth(7)[OF lay k] w by simp
  then show "bit (lane_raw w (encode_row fs cs row) (fs ! k)) i = bit (data_value (kc_dtype ?c) (kc_data ?c) row) i"
    using encode_row_bit[OF lay row k, of "Suc i"] row_view_Some_width[OF lay k row v, of i] w
    unfolding r by (auto simp: bit_code_of v)
qed

lemma decoded_of_encoded:
  assumes lay: "layout_fields n 0 cs = Inr (fs, tot)" and k: "k < length cs" and rows: "set rows \<subseteq> {..<n}"
  shows "decoded_of (fs ! k) (map (encode_row fs cs) rows) = column_view (cs ! k) rows"
proof -
  have ok: "map (\<lambda>l. lane_valid l (fs ! k)) (map (encode_row fs cs) rows) = map (get_valid (kc_valid (cs ! k))) rows"
    using rows by (auto simp: lane_valid_eq[OF lay k])
  have vals: "map (\<lambda>l. if lane_valid l (fs ! k) then g l else z) (map (encode_row fs cs) rows) = arrow_values (cs ! k) rows h z"
    if "\<And>r. r < n \<Longrightarrow> get_valid (kc_valid (cs ! k)) r \<Longrightarrow> g (encode_row fs cs r) = h r" for g h and z :: 'v
    unfolding arrow_values_def using rows that by (auto simp: lane_valid_eq[OF lay k])
  have raw: "lane_raw w (encode_row fs cs r) (fs ! k) = data_value (kc_dtype (cs ! k)) (kc_data (cs ! k)) r"
    if "r < n" "get_valid (kc_valid (cs ! k)) r" "data_bits (kc_dtype (cs ! k)) = w" for r w
    using lane_raw_eq[OF lay k that(1,2) that(3)[symmetric]] .
  have bool: "map (\<lambda>l. lane_valid l (fs ! k) \<and> lane_raw 1 l (fs ! k) = 1) (map (encode_row fs cs) rows) =
      arrow_values (cs ! k) rows (get_valid (kc_data (cs ! k))) False" if "kc_dtype (cs ! k) = KBool"
  proof -
    have "r < n \<Longrightarrow> r div 8 < length (kc_data (cs ! k))" for r
      using layout_nth(4)[OF lay k] less_div_ceil_8[of r n] that by (simp add: div_ceil_8)
    moreover have "r < n" if "r \<in> set rows" for r using rows that by blast
    moreover have "lane_raw 1 (encode_row fs cs r) (fs ! k) = ucast (bit_at (kc_data (cs ! k)) r)"
      if "r < n" "get_valid (kc_valid (cs ! k)) r" for r
      using raw[OF that, of 1] \<open>kc_dtype (cs ! k) = KBool\<close> by simp
    ultimately show ?thesis
      unfolding arrow_values_def map_map
      by (intro map_cong refl) (simp add: lane_valid_eq[OF lay k] bit_at_1)
  qed
  show ?thesis
    unfolding decoded_of_def column_view_def Let_def fixed_values_def ok layout_nth(2,3)[OF lay k]
    by (cases "kc_dtype (cs ! k)") (simp_all add: bool[unfolded map_map One_nat_def] vals[unfolded map_map] raw ucast_back)
qed

lemma decode_selected_rows:
  assumes "encode_keys cols = Inr (encoded, schema)" and "\<forall>r \<in> set rows. r < length encoded"
  shows "decode_keys (map ((!) encoded) rows) schema = Some (map (\<lambda>c. column_view c rows) cols) \<and>
    decode_keys encoded schema = Some (map (\<lambda>c. column_view c [0..<length encoded]) cols)"
proof -
  obtain n tot where lay: "layout_fields n 0 cols = Inr (ks_fields schema, tot)"
    and enc: "encoded = map (encode_row (ks_fields schema) cols) [0..<n]" and ne: "cols \<noteq> []"
    using encode_keys_Inr[OF assms(1)] by blast
  have len: "length (ks_fields schema) = length cols"
    using layout_nth(1)[OF lay, of 0] ne by simp
  have main: "decode_keys (map (encode_row (ks_fields schema) cols) rs) schema = Some (map (\<lambda>c. column_view c rs) cols)"
    if "set rs \<subseteq> {..<n}" for rs
  proof -
    have "map (\<lambda>f. decoded_of f (map (encode_row (ks_fields schema) cols) rs)) (ks_fields schema) = map (\<lambda>c. column_view c rs) cols"
      by (rule list_eq_by_nth) (simp_all add: len decoded_of_encoded[OF lay _ that])
    then show ?thesis by (simp add: decode_keys_eq)
  qed
  have eq: "map ((!) encoded) rows = map (encode_row (ks_fields schema) cols) rows"
    using assms(2) by (simp add: enc)
  have "set rows \<subseteq> {..<n}" using assms(2) enc by auto
  from main[OF this] have "decode_keys (map ((!) encoded) rows) schema = Some (map (\<lambda>c. column_view c rows) cols)"
    unfolding eq .
  moreover have "decode_keys encoded schema = Some (map (\<lambda>c. column_view c [0..<length encoded]) cols)"
    using main[of "[0..<n]"] enc by (simp add: atLeast0LessThan)
  ultimately show ?thesis by blast
qed

section \<open>Properties\<close>

text \<open>C8. Decoding inverts encoding: for every key table the encoder accepts, the decoder gives back
  each column's values and validity as they are read from its Arrow buffers (strings through the
  dictionary), and it never reaches its unreachable arm. The same holds for any selection of rows,
  which is how the representative keys of the groups are decoded.\<close>

theorem encode_decode_roundtrip:
  assumes "encode_keys cols = Inr (encoded, schema)" and "\<forall>r \<in> set rows. r < length encoded"
  shows "decode_keys (map ((!) encoded) rows) schema = Some (map (\<lambda>c. column_view c rows) cols) \<and>
    decode_keys encoded schema = Some (map (\<lambda>c. column_view c [0..<length encoded]) cols)"
  by (rule decode_selected_rows[OF assms])

definition demo_column :: key_column where
  "demo_column = \<lparr>kc_name = ''k'', kc_dtype = KU8, kc_data = [7, 9], kc_valid = [1], kc_n_rows = 2, kc_dict = None\<rparr>"

definition demo_schema :: key_schema where
  "demo_schema = \<lparr>ks_fields = [\<lparr>kf_name = ''k'', kf_dtype = KU8, null_bit_offset = 0, data_bit_offset = 1, kf_dict = None\<rparr>],
     ks_total_bits = 9, ks_n_rows = 2\<rparr>"

lemma demo_encode: "encode_keys [demo_column] = Inr ([14, 1], demo_schema)"
  by code_simp

lemma encode_decode_roundtrip_witness:
  "decode_keys [14, 1] demo_schema = Some [DU8 [7, 0] [True, False]]"
proof -
  have "\<forall>r \<in> set [0::nat]. r < length [14, 1 :: u128]" by simp
  note encode_decode_roundtrip[OF demo_encode this, THEN conjunct2]
  moreover have "column_view demo_column [0..<length [14, 1 :: u128]] = DU8 [7, 0] [True, False]" by code_simp
  ultimately show ?thesis by simp
qed

lemma encode_keys_eq_iff:
  assumes "encode_keys cols = Inr (encoded, schema)" and "i < length encoded" and "j < length encoded"
  shows "encoded ! i = encoded ! j \<longleftrightarrow> (\<forall>c \<in> set cols. row_view c i = row_view c j)"
proof -
  obtain n tot where lay: "layout_fields n 0 cols = Inr (ks_fields schema, tot)"
    and enc: "encoded = map (encode_row (ks_fields schema) cols) [0..<n]"
    using encode_keys_Inr[OF assms(1)] by blast
  then show ?thesis using encode_row_eq_iff[OF lay, of i j] assms(2,3) by simp
qed

text \<open>C20. Two rows get the same lane exactly when they agree on every key column, a null agreeing only
  with a null: grouping by lanes is grouping by keys, and the bytes under a null do not matter.\<close>

theorem encode_injective:
  assumes "encode_keys cols = Inr (encoded, schema)" and "i < length encoded" and "j < length encoded"
  shows "encoded ! i = encoded ! j \<longleftrightarrow> (\<forall>c \<in> set cols. row_view c i = row_view c j)"
  by (rule encode_keys_eq_iff[OF assms])

lemma encode_injective_witness: "row_view demo_column 0 \<noteq> row_view demo_column 1"
  using encode_injective[OF demo_encode, of 0 1] by simp

end
