(* ===== verification/Build.thy ===== *)
theory Build
  imports Interner
begin

text \<open>
  The build phase of the group-by: from encoded keys to group ids. The contract \<open>grouping\<close> is what
  the aggregation phase relies on; it is stated as the locale \<open>group_builder\<close> and established for the
  hash-map build (\<open>cpu_hashmap_build\<close> in \<open>groupby.rs\<close>), for the partitioned build
  (\<open>groupby_build_partitioned\<close>, theory Partitioned) and for the sort build
  (\<open>groupby_build_sort/reference.rs\<close>).
\<close>

record build_output =
  row_to_group :: "u32 list"
  first_row_per_group :: "u32 list"
  n_groups :: u32

definition empty_build :: build_output where
  "empty_build = \<lparr>row_to_group = [], first_row_per_group = [], n_groups = 0\<rparr>"

section \<open>The contract\<close>

definition grouping :: "'k list \<Rightarrow> build_output \<Rightarrow> bool" where
  "grouping keys b \<longleftrightarrow>
     length (row_to_group b) = length keys \<and>
     length (first_row_per_group b) = unat (n_groups b) \<and>
     (\<forall>i < length keys. unat (row_to_group b ! i) < unat (n_groups b)) \<and>
     (\<forall>i < length keys. \<forall>j < length keys. row_to_group b ! i = row_to_group b ! j \<longleftrightarrow> keys ! i = keys ! j) \<and>
     (\<forall>g < unat (n_groups b). unat (first_row_per_group b ! g) < length keys \<and>
        unat (row_to_group b ! unat (first_row_per_group b ! g)) = g)"

definition first_rows_minimal :: "build_output \<Rightarrow> bool" where
  "first_rows_minimal b \<longleftrightarrow>
     (\<forall>i < length (row_to_group b). unat (first_row_per_group b ! unat (row_to_group b ! i)) \<le> i)"

definition representative_keys :: "'k list \<Rightarrow> build_output \<Rightarrow> 'k list" where
  "representative_keys keys b = map (\<lambda>row. keys ! unat row) (first_row_per_group b)"

definition group_rows :: "build_output \<Rightarrow> nat \<Rightarrow> nat list" where
  "group_rows b g = filter (\<lambda>i. unat (row_to_group b ! i) = g) [0..<length (row_to_group b)]"

lemma grouping_rep:
  assumes "grouping keys b" "i < length keys"
  shows "representative_keys keys b ! unat (row_to_group b ! i) = keys ! i"
proof -
  let ?g = "unat (row_to_group b ! i)"
  have g: "?g < unat (n_groups b)" using assms by (simp add: grouping_def)
  let ?r = "unat (first_row_per_group b ! ?g)"
  have r: "?r < length keys" "unat (row_to_group b ! ?r) = ?g"
    using assms(1) g by (simp_all add: grouping_def)
  then have "row_to_group b ! ?r = row_to_group b ! i" by (simp only: word_unat_eq_iff)
  with assms r have "keys ! ?r = keys ! i" unfolding grouping_def by blast
  with g assms(1) show ?thesis by (simp add: representative_keys_def grouping_def)
qed

lemma grouping_distinct: "grouping keys b \<Longrightarrow> distinct (representative_keys keys b)"
proof -
  assume g: "grouping keys b"
  have "representative_keys keys b ! h \<noteq> representative_keys keys b ! h'"
    if "h < unat (n_groups b)" "h' < unat (n_groups b)" "h \<noteq> h'" for h h'
  proof
    assume eq: "representative_keys keys b ! h = representative_keys keys b ! h'"
    let ?r = "unat (first_row_per_group b ! h)" and ?s = "unat (first_row_per_group b ! h')"
    have rs: "?r < length keys" "?s < length keys" "unat (row_to_group b ! ?r) = h" "unat (row_to_group b ! ?s) = h'"
      using g that by (simp_all add: grouping_def)
    have "keys ! ?r = keys ! ?s" using eq g that by (simp add: representative_keys_def grouping_def)
    then have "row_to_group b ! ?r = row_to_group b ! ?s" using g rs unfolding grouping_def by blast
    with rs that(3) show False by simp
  qed
  then show ?thesis
    using g by (simp add: distinct_conv_nth representative_keys_def grouping_def)
qed

lemma grouping_set: "grouping keys b \<Longrightarrow> set (representative_keys keys b) = set keys"
proof (intro equalityI subsetI)
  fix k assume g: "grouping keys b" and "k \<in> set (representative_keys keys b)"
  then obtain h where "h < unat (n_groups b)" "k = keys ! unat (first_row_per_group b ! h)"
    by (auto simp: representative_keys_def grouping_def in_set_conv_nth)
  with g show "k \<in> set keys" by (simp add: grouping_def)
next
  fix k assume g: "grouping keys b" and "k \<in> set keys"
  then obtain i where i: "i < length keys" "k = keys ! i" by (auto simp: in_set_conv_nth)
  have "unat (row_to_group b ! i) < length (representative_keys keys b)"
    using g i by (simp add: grouping_def representative_keys_def)
  with grouping_rep[OF g i(1)] i(2) show "k \<in> set (representative_keys keys b)" by (metis nth_mem)
qed

lemma grouping_count: "grouping keys b \<Longrightarrow> unat (n_groups b) = card (set keys)"
  using distinct_card[OF grouping_distinct[of keys b]] grouping_set[of keys b]
  by (simp add: representative_keys_def grouping_def)

lemma group_rows_key:
  assumes "grouping keys b" "g < unat (n_groups b)"
  shows "group_rows b g = filter (\<lambda>i. keys ! i = representative_keys keys b ! g) [0..<length keys]"
proof -
  have len: "length (row_to_group b) = length keys" using assms(1) by (simp add: grouping_def)
  have d: "distinct (representative_keys keys b)" "g < length (representative_keys keys b)"
    using grouping_distinct[OF assms(1)] assms by (simp_all add: representative_keys_def grouping_def)
  show ?thesis
    unfolding group_rows_def len
  proof (rule filter_cong[OF refl])
    fix i assume "i \<in> set [0..<length keys]"
    then have i: "i < length keys" by simp
    have h: "unat (row_to_group b ! i) < length (representative_keys keys b)"
      using assms(1) i by (simp add: representative_keys_def grouping_def)
    show "unat (row_to_group b ! i) = g \<longleftrightarrow> keys ! i = representative_keys keys b ! g"
      using grouping_rep[OF assms(1) i] nth_eq_iff_index_eq[OF d(1) h d(2)] by simp
  qed
qed

locale group_builder =
  fixes build :: "'k list \<Rightarrow> build_output" and accepts :: "'k list \<Rightarrow> bool"
  assumes builds: "accepts keys \<Longrightarrow> grouping keys (build keys)"
begin

text \<open>What the aggregation and decoding phases need: one group per distinct key, holding its rows.\<close>

lemma groups_are_keys:
  assumes "accepts keys"
  shows "distinct (representative_keys keys (build keys))"
    "set (representative_keys keys (build keys)) = set keys"
    "unat (n_groups (build keys)) = card (set keys)"
  using grouping_distinct grouping_set grouping_count builds[OF assms] by blast+

lemma rows_of_group:
  assumes "accepts keys" "g < unat (n_groups (build keys))"
  shows "group_rows (build keys) g =
    filter (\<lambda>i. keys ! i = representative_keys keys (build keys) ! g) [0..<length keys]"
  using group_rows_key[OF builds[OF assms(1)] assms(2)] .

text \<open>Any other build of the same keys has the same groups under a renumbering.\<close>

lemma same_groups:
  assumes "accepts keys" "grouping keys b" "i < length keys" "j < length keys"
  shows "row_to_group (build keys) ! i = row_to_group (build keys) ! j \<longleftrightarrow> row_to_group b ! i = row_to_group b ! j"
  using builds[OF assms(1)] assms(2-4) unfolding grouping_def by blast

end

locale first_row_builder = group_builder +
  assumes builds_first: "accepts keys \<Longrightarrow> first_rows_minimal (build keys)"
begin

lemma first_row_is_least:
  assumes "accepts keys" "i < length keys"
  shows "unat (first_row_per_group (build keys) ! unat (row_to_group (build keys) ! i)) \<le> i"
  using builds_first[OF assms(1)] builds[OF assms(1)] assms(2)
  by (simp add: first_rows_minimal_def grouping_def)

end

section \<open>First rows of a numbering\<close>

text \<open>What a table of first rows holds after \<open>k\<close> rows: the least row of each group seen, else the mark.\<close>

definition first_table :: "nat list \<Rightarrow> nat \<Rightarrow> u32 list \<Rightarrow> bool" where
  "first_table gs k first \<longleftrightarrow>
     (\<forall>g < length first.
        (\<exists>i < k. gs ! i = g \<and> first ! g = of_nat i \<and> (\<forall>j < i. gs ! j \<noteq> g)) \<or>
        (first ! g = - 1 \<and> (\<forall>i < k. gs ! i \<noteq> g)))"

lemma grouping_of_reps:
  assumes len: "length gs = length keys" "length keys < 2 ^ 32" "G < 2 ^ 32" "length first = G"
    and bound: "\<forall>i < length keys. gs ! i < G"
    and same: "\<forall>i < length keys. \<forall>j < length keys. gs ! i = gs ! j \<longleftrightarrow> keys ! i = keys ! j"
    and reps: "\<forall>g < G. \<exists>i < length keys. gs ! i = g \<and> first ! g = of_nat i"
  shows "grouping keys \<lparr>row_to_group = map of_nat gs, first_row_per_group = first, n_groups = of_nat G\<rparr>"
proof -
  let ?b = "\<lparr>row_to_group = map of_nat gs, first_row_per_group = first, n_groups = of_nat G\<rparr>"
  have un: "unat (of_nat n :: u32) = n" if "n < 2 ^ 32" for n
    using that by (simp add: unat_of_nat)
  have ids: "unat (of_nat (gs ! i) :: u32) = gs ! i" if "i < length keys" for i
    using bound that len(3) by (intro un) (meson order_less_trans)
  have same': "of_nat (gs ! i) = (of_nat (gs ! j) :: u32) \<longleftrightarrow> keys ! i = keys ! j"
    if "i < length keys" "j < length keys" for i j
    using same that ids by (metis word_unat_eq_iff)
  have fr: "unat (first ! g) < length keys \<and> gs ! unat (first ! g) = g" if g: "g < G" for g
  proof -
    obtain i where i: "i < length keys" "gs ! i = g" "first ! g = of_nat i" using reps g by blast
    have u: "unat (first ! g) = i" using un[of i] i(1,3) len(2) by simp
    show ?thesis unfolding u using i by blast
  qed
  have r: "row_to_group ?b ! i = of_nat (gs ! i)" if "i < length keys" for i
    using that len(1) by simp
  have n: "unat (n_groups ?b) = G" using un[OF len(3)] by simp
  have small: "unat (of_nat g :: u32) = g" if "g < G" for g
    using un[of g] that len(3) by simp
  have "length (row_to_group ?b) = length keys" "length (first_row_per_group ?b) = unat (n_groups ?b)"
    using len n by simp_all
  moreover have "\<forall>i < length keys. unat (row_to_group ?b ! i) < unat (n_groups ?b)"
    unfolding n using r ids bound by simp
  moreover have "\<forall>i < length keys. \<forall>j < length keys. row_to_group ?b ! i = row_to_group ?b ! j \<longleftrightarrow> keys ! i = keys ! j"
    using r same' by simp
  moreover have "\<forall>g < unat (n_groups ?b). unat (first_row_per_group ?b ! g) < length keys \<and>
      unat (row_to_group ?b ! unat (first_row_per_group ?b ! g)) = g"
    unfolding n using r fr small by simp
  ultimately show ?thesis unfolding grouping_def by blast
qed

lemma grouping_of_ids:
  assumes len: "length gs = length keys" "length keys < 2 ^ 32" "G < 2 ^ 32" "length first = G"
    and bound: "\<forall>i < length keys. gs ! i < G"
    and same: "\<forall>i < length keys. \<forall>j < length keys. gs ! i = gs ! j \<longleftrightarrow> keys ! i = keys ! j"
    and onto: "\<forall>g < G. \<exists>i < length keys. gs ! i = g"
    and first: "first_table gs (length keys) first"
  shows "grouping keys \<lparr>row_to_group = map of_nat gs, first_row_per_group = first, n_groups = of_nat G\<rparr> \<and>
    first_rows_minimal \<lparr>row_to_group = map of_nat gs, first_row_per_group = first, n_groups = of_nat G\<rparr>"
proof
  have least: "\<exists>i < length keys. gs ! i = g \<and> first ! g = of_nat i \<and> (\<forall>j < i. gs ! j \<noteq> g)" if "g < G" for g
    using first onto that len(4) unfolding first_table_def by blast
  show "grouping keys \<lparr>row_to_group = map of_nat gs, first_row_per_group = first, n_groups = of_nat G\<rparr>"
    by (rule grouping_of_reps[OF len bound same]) (use least in blast)
  have un: "unat (of_nat n :: u32) = n" if "n < 2 ^ 32" for n
    using that by (simp add: unat_of_nat)
  have min: "unat (first ! (gs ! i)) \<le> i" if i: "i < length keys" for i
  proof -
    have g: "gs ! i < G" using bound i by blast
    obtain k where k: "k < length keys" "first ! (gs ! i) = of_nat k" "\<forall>j < k. gs ! j \<noteq> gs ! i"
      using least[OF g] by blast
    then have "unat (first ! (gs ! i)) = k" using un[of k] len(2) by simp
    with k(3) show ?thesis by (metis not_le_imp_less)
  qed
  have "unat (of_nat (gs ! i) :: u32) = gs ! i" if "i < length keys" for i
    using bound that len(3) by (intro un) (meson order_less_trans)
  then show "first_rows_minimal \<lparr>row_to_group = map of_nat gs, first_row_per_group = first, n_groups = of_nat G\<rparr>"
    unfolding first_rows_minimal_def using len(1) min by simp
qed

section \<open>groupby.rs: the hash-map build\<close>

record hashmap_state =
  group_for_key :: "u128 \<Rightarrow> u32 option"
  next_gid :: u32
  hm_rows :: "u32 list"
  hm_first :: "u32 list"

definition checked_succ :: "u32 \<Rightarrow> u32" where
  "checked_succ g = (if g = - 1 then - 1 else g + 1)"

definition hashmap_step :: "hashmap_state \<Rightarrow> u128 \<Rightarrow> hashmap_state" where
  "hashmap_step st key =
     (let row = length (hm_rows st) in
      case group_for_key st key of
        Some gid \<Rightarrow> st\<lparr>hm_rows := hm_rows st @ [gid]\<rparr>
      | None \<Rightarrow> let g = next_gid st in
          st\<lparr>group_for_key := (group_for_key st)(key \<mapsto> g), next_gid := checked_succ g,
             hm_rows := hm_rows st @ [g], hm_first := hm_first st @ [of_nat row]\<rparr>)"

definition cpu_hashmap_build :: "u128 list \<Rightarrow> build_output" where
  "cpu_hashmap_build encoded =
     (let st = foldl hashmap_step
            \<lparr>group_for_key = Map.empty, next_gid = 0, hm_rows = [], hm_first = []\<rparr> encoded
      in \<lparr>row_to_group = hm_rows st, first_row_per_group = hm_first st, n_groups = next_gid st\<rparr>)"

text \<open>After a prefix of the keys, the state numbers its distinct keys in first-seen order.\<close>

definition position :: "'k list \<Rightarrow> 'k \<Rightarrow> nat" where
  "position ks k = length (takeWhile (\<lambda>x. x \<noteq> k) ks)"

lemma position_nth: "k \<in> set ks \<Longrightarrow> position ks k < length ks \<and> ks ! position ks k = k"
  by (induction ks) (auto simp: position_def)

lemma position_append: "k \<in> set ks \<Longrightarrow> position (ks @ ls) k = position ks k"
  by (induction ks) (auto simp: position_def)

lemma position_new: "k \<notin> set ks \<Longrightarrow> position (ks @ [k]) k = length ks"
  by (induction ks) (auto simp: position_def)

lemma position_inj: "k \<in> set ks \<Longrightarrow> l \<in> set ks \<Longrightarrow> position ks k = position ks l \<longleftrightarrow> k = l"
  using position_nth by metis

definition seen_ids :: "'k list \<Rightarrow> nat list" where
  "seen_ids ks = map (position (first_seen ks)) ks"

lemma first_seen_snoc: "first_seen (ks @ [k]) = push_new (first_seen ks) k"
  by (simp add: first_seen_def first_seen_from_append)

lemma seen_ids_snoc: "seen_ids (ks @ [k]) = seen_ids ks @ [position (first_seen (ks @ [k])) k]"
  by (auto simp: seen_ids_def first_seen_snoc push_new_def position_append)

lemma seen_ids_length [simp]: "length (seen_ids ks) = length ks"
  by (simp add: seen_ids_def)

lemma seen_ids_bound: "i < length ks \<Longrightarrow> seen_ids ks ! i < length (first_seen ks)"
  using position_nth[of "ks ! i" "first_seen ks"] by (simp add: seen_ids_def)

lemma seen_ids_same: "i < length ks \<Longrightarrow> j < length ks \<Longrightarrow> seen_ids ks ! i = seen_ids ks ! j \<longleftrightarrow> ks ! i = ks ! j"
  using position_inj[of "ks ! i" "first_seen ks" "ks ! j"] by (simp add: seen_ids_def)

lemma seen_ids_onto:
  assumes "g < length (first_seen ks)"
  shows "\<exists>i < length ks. seen_ids ks ! i = g"
proof -
  have "first_seen ks ! g \<in> set ks" using assms nth_mem set_first_seen by metis
  then obtain i where i: "i < length ks" "ks ! i = first_seen ks ! g" by (auto simp: in_set_conv_nth)
  have "position (first_seen ks) (first_seen ks ! g) = g"
    using position_nth[of "first_seen ks ! g" "first_seen ks"] assms distinct_first_seen[of ks]
    by (metis distinct_conv_nth nth_mem)
  with i show ?thesis by (auto simp: seen_ids_def)
qed

definition hashmap_inv :: "u128 list \<Rightarrow> hashmap_state \<Rightarrow> bool" where
  "hashmap_inv ks st \<longleftrightarrow>
     group_for_key st = (\<lambda>k. if k \<in> set ks then Some (of_nat (position (first_seen ks) k)) else None) \<and>
     next_gid st = of_nat (length (first_seen ks)) \<and>
     hm_rows st = map of_nat (seen_ids ks) \<and>
     length (hm_first st) = length (first_seen ks) \<and>
     first_table (seen_ids ks) (length ks) (hm_first st)"

lemma first_table_old:
  assumes "first_table gs k first" "length gs = k" "g < length first" "first ! g \<noteq> - 1"
  shows "first_table (gs @ [g]) (Suc k) first"
  unfolding first_table_def
proof (intro allI impI)
  fix h assume h: "h < length first"
  from assms(1) h consider i where "i < k" "gs ! i = h" "first ! h = of_nat i" "\<forall>j < i. gs ! j \<noteq> h"
    | "first ! h = - 1" "\<forall>i < k. gs ! i \<noteq> h"
    unfolding first_table_def by blast
  then show "(\<exists>i < Suc k. (gs @ [g]) ! i = h \<and> first ! h = of_nat i \<and> (\<forall>j < i. (gs @ [g]) ! j \<noteq> h)) \<or>
      (first ! h = - 1 \<and> (\<forall>i < Suc k. (gs @ [g]) ! i \<noteq> h))"
  proof cases
    case (1 i)
    then have "i < Suc k \<and> (gs @ [g]) ! i = h \<and> first ! h = of_nat i \<and> (\<forall>j < i. (gs @ [g]) ! j \<noteq> h)"
      using assms(2) by (simp add: nth_append)
    then show ?thesis by blast
  next
    case 2
    then have "h \<noteq> g" using assms(4) by auto
    with 2 assms(2) show ?thesis by (auto simp: nth_append less_Suc_eq)
  qed
qed

lemma first_table_append:
  assumes "first_table gs k first" "length gs = k" "\<forall>i < k. gs ! i < length first"
  shows "first_table (gs @ [length first]) (Suc k) (first @ [of_nat k])"
  unfolding first_table_def
proof (intro allI impI)
  fix h assume "h < length (first @ [of_nat k])"
  then consider "h = length first" | "h < length first" by fastforce
  then show "(\<exists>i < Suc k. (gs @ [length first]) ! i = h \<and> (first @ [of_nat k]) ! h = of_nat i \<and>
        (\<forall>j < i. (gs @ [length first]) ! j \<noteq> h)) \<or>
      ((first @ [of_nat k]) ! h = - 1 \<and> (\<forall>i < Suc k. (gs @ [length first]) ! i \<noteq> h))"
  proof cases
    case 1
    then have "k < Suc k \<and> (gs @ [length first]) ! k = h \<and> (first @ [of_nat k]) ! h = of_nat k \<and>
        (\<forall>j < k. (gs @ [length first]) ! j \<noteq> h)"
      using assms by (auto simp: nth_append)
    then show ?thesis by blast
  next
    case 2
    from assms(1) 2 consider i where "i < k" "gs ! i = h" "first ! h = of_nat i" "\<forall>j < i. gs ! j \<noteq> h"
      | "first ! h = - 1" "\<forall>i < k. gs ! i \<noteq> h"
      unfolding first_table_def by blast
    then show ?thesis
    proof cases
      case (1 i)
      then have "i < Suc k \<and> (gs @ [length first]) ! i = h \<and> (first @ [of_nat k]) ! h = of_nat i \<and>
          (\<forall>j < i. (gs @ [length first]) ! j \<noteq> h)"
        using assms(2) 2 by (simp add: nth_append)
      then show ?thesis by blast
    qed (use 2 assms(2) in \<open>auto simp: nth_append less_Suc_eq\<close>)
  qed
qed

lemma first_table_mono_mark:
  assumes "first_table gs k first" "k < 2 ^ 32" "g < length first" "\<exists>i < k. gs ! i = g"
  shows "first ! g \<noteq> - 1"
proof
  assume m: "first ! g = - 1"
  obtain i where i: "i < k" "first ! g = of_nat i"
    using assms unfolding first_table_def by blast
  have "i < 2 ^ 32 - 1 \<or> i = 2 ^ 32 - 1" using i(1) assms(2) by auto
  with i m assms(2) have "unat (of_nat i :: u32) = i" by (simp add: unat_of_nat)
  then have "i = 2 ^ 32 - 1" using i(2) m unat_u32_max by simp
  with i(1) assms(2) show False by simp
qed

lemma hashmap_step_inv:
  assumes inv: "hashmap_inv ks st" and len: "length ks < 2 ^ 32 - 1"
  shows "hashmap_inv (ks @ [k]) (hashmap_step st k)"
proof (cases "k \<in> set ks")
  case True
  let ?g = "position (first_seen ks) k"
  have fs: "first_seen (ks @ [k]) = first_seen ks" using True by (simp add: first_seen_snoc push_new_def)
  have g: "?g < length (first_seen ks)" using position_nth[of k "first_seen ks"] True by simp
  obtain i where i: "i < length ks" "seen_ids ks ! i = ?g" using seen_ids_onto[OF g] by blast
  have tab: "first_table (seen_ids ks) (length ks) (hm_first st)" and lf: "length (hm_first st) = length (first_seen ks)"
    using inv by (simp_all add: hashmap_inv_def)
  have "first_table (seen_ids ks @ [?g]) (Suc (length ks)) (hm_first st)"
    by (rule first_table_old[OF tab]) (use g lf i len first_table_mono_mark[OF tab] in auto)
  with inv True fs show ?thesis
    by (auto simp: hashmap_inv_def hashmap_step_def Let_def seen_ids_snoc)
next
  case False
  let ?n = "length (first_seen ks)"
  have fs: "first_seen (ks @ [k]) = first_seen ks @ [k]" using False by (simp add: first_seen_snoc push_new_def)
  have pos: "position (first_seen ks @ [k]) k = ?n" using False by (simp add: position_new)
  have n: "?n < 2 ^ 32 - 1" using length_first_seen[of ks] len by simp
  have succ: "checked_succ (of_nat ?n) = of_nat (Suc ?n)"
  proof -
    have "unat (of_nat ?n :: u32) = ?n" using n by (simp add: unat_of_nat)
    then have "of_nat ?n \<noteq> (- 1 :: u32)" using n unat_u32_max by (metis less_irrefl)
    then show ?thesis by (simp add: checked_succ_def)
  qed
  have tab: "first_table (seen_ids ks) (length ks) (hm_first st)" and lf: "length (hm_first st) = ?n"
    using inv by (simp_all add: hashmap_inv_def)
  have "first_table (seen_ids ks @ [?n]) (Suc (length ks)) (hm_first st @ [of_nat (length ks)])"
    using first_table_append[OF tab seen_ids_length] seen_ids_bound[of _ ks] lf by metis
  moreover have "group_for_key (hashmap_step st k) =
      (\<lambda>l. if l \<in> set (ks @ [k]) then Some (of_nat (position (first_seen (ks @ [k])) l)) else None)"
    using inv False by (auto simp: hashmap_inv_def hashmap_step_def Let_def fs pos position_append)
  ultimately show ?thesis
    using inv False succ
    by (simp add: hashmap_inv_def hashmap_step_def Let_def seen_ids_snoc fs pos)
qed

lemma hashmap_loop_inv:
  assumes "length ks < 2 ^ 32"
  shows "hashmap_inv ks (foldl hashmap_step
    \<lparr>group_for_key = Map.empty, next_gid = 0, hm_rows = [], hm_first = []\<rparr> ks)"
  using assms
proof (induction ks rule: rev_induct)
  case Nil
  show ?case by (simp add: hashmap_inv_def first_seen_def seen_ids_def first_table_def)
next
  case (snoc k ks)
  then show ?case using hashmap_step_inv[of ks _ k] by simp
qed

text \<open>The representatives' keys are the keys in the order in which they first occur.\<close>

lemma inv_representatives:
  assumes "hashmap_inv keys st" and "length keys < 2 ^ 32"
  shows "map (\<lambda>row. keys ! unat row) (hm_first st) = first_seen keys"
proof (rule list_eq_by_nth)
  have len: "length (hm_first st) = length (first_seen keys)" and tab: "first_table (seen_ids keys) (length keys) (hm_first st)"
    using assms(1) by (simp_all add: hashmap_inv_def)
  then show "length (map (\<lambda>row. keys ! unat row) (hm_first st)) = length (first_seen keys)" by simp
  fix g assume g: "g < length (first_seen keys)"
  then obtain j where j: "j < length keys" "seen_ids keys ! j = g" "hm_first st ! g = of_nat j"
    using tab len seen_ids_onto[OF g] unfolding first_table_def by metis
  then have "unat (hm_first st ! g) = j" using assms(2) by (simp add: unat_of_nat)
  moreover have "first_seen keys ! g = keys ! j" using position_nth[of "keys ! j" "first_seen keys"] j(1,2) by (simp add: seen_ids_def)
  ultimately show "map (\<lambda>row. keys ! unat row) (hm_first st) ! g = first_seen keys ! g" using g len by simp
qed

lemma representatives_first_seen:
  assumes "length keys < 2 ^ 32"
  shows "representative_keys keys (cpu_hashmap_build keys) = first_seen keys"
  using inv_representatives[OF hashmap_loop_inv[OF assms] assms]
  by (simp only: representative_keys_def cpu_hashmap_build_def Let_def build_output.simps)

interpretation hmb: first_row_builder cpu_hashmap_build "\<lambda>keys. length keys < 2 ^ 32"
proof -
  have main: "grouping keys (cpu_hashmap_build keys) \<and> first_rows_minimal (cpu_hashmap_build keys)"
    if len: "length keys < 2 ^ 32" for keys
  proof -
    have inv: "hashmap_inv keys (foldl hashmap_step
        \<lparr>group_for_key = Map.empty, next_gid = 0, hm_rows = [], hm_first = []\<rparr> keys)" (is "hashmap_inv keys ?st")
      by (rule hashmap_loop_inv[OF len])
    have "cpu_hashmap_build keys = \<lparr>row_to_group = map of_nat (seen_ids keys),
        first_row_per_group = hm_first ?st, n_groups = of_nat (length (first_seen keys))\<rparr>"
      using inv by (simp add: cpu_hashmap_build_def hashmap_inv_def)
    moreover have "length (first_seen keys) < 2 ^ 32" using length_first_seen[of keys] len by simp
    ultimately show ?thesis
      using grouping_of_ids[of "seen_ids keys" keys "length (first_seen keys)" "hm_first ?st"] inv len
      by (simp add: seen_ids_bound seen_ids_same seen_ids_onto hashmap_inv_def)
  qed
  show "first_row_builder cpu_hashmap_build (\<lambda>keys. length keys < 2 ^ 32)"
    by (unfold_locales) (use main in blast)+
qed

section \<open>Properties\<close>

text \<open>C17. The hash-map build numbers the distinct keys in first-seen order: the keys of the representative
  rows, in the order of the group ids, are the keys in the order in which they first occur; group ids are
  dense, two rows share one exactly when their keys are equal, every group's representative row is its
  first, and the rows of a group are those with its key.\<close>

theorem hashmap_build_correct:
  assumes "length keys < 2 ^ 32"
  shows "grouping keys (cpu_hashmap_build keys) \<and> first_rows_minimal (cpu_hashmap_build keys) \<and>
    unat (n_groups (cpu_hashmap_build keys)) = card (set keys) \<and>
    representative_keys keys (cpu_hashmap_build keys) = first_seen keys \<and>
    distinct (representative_keys keys (cpu_hashmap_build keys)) \<and>
    set (representative_keys keys (cpu_hashmap_build keys)) = set keys \<and>
    (\<forall>g < unat (n_groups (cpu_hashmap_build keys)).
       group_rows (cpu_hashmap_build keys) g =
         filter (\<lambda>i. keys ! i = representative_keys keys (cpu_hashmap_build keys) ! g) [0..<length keys])"
  using hmb.builds[OF assms] hmb.builds_first[OF assms] hmb.groups_are_keys[OF assms] hmb.rows_of_group[OF assms]
    representatives_first_seen[OF assms]
  by blast

lemma hashmap_build_correct_witness:
  "grouping [9, 4, 9 :: u128] \<lparr>row_to_group = [0, 1, 0], first_row_per_group = [0, 1], n_groups = 2\<rparr>"
proof -
  have "length [9, 4, 9 :: u128] < 2 ^ 32" by simp
  from hashmap_build_correct[OF this]
  have "grouping [9, 4, 9 :: u128] (cpu_hashmap_build [9, 4, 9])" by blast
  moreover have "cpu_hashmap_build [9, 4, 9] = \<lparr>row_to_group = [0, 1, 0], first_row_per_group = [0, 1], n_groups = 2\<rparr>"
    by (simp add: cpu_hashmap_build_def hashmap_step_def checked_succ_def)
  ultimately show ?thesis by simp
qed

end
