(* ===== verification/Partitioned.thy ===== *)
theory Partitioned
  imports Build
begin

text \<open>
  The partitioned hash build: \<open>groupby_build_partitioned/reference.rs\<close> (the CPU reference), and the
  host side of \<open>groupby_build_partitioned/gpu.rs\<close>. Rows are bucketed by a hash of their key; a
  partition numbers its keys with an open-addressed table; the host then adds the partition's offset
  to the local numbers and derives the first row of each group.
\<close>

section \<open>Hashing\<close>

definition hash_u128 :: "u128 \<Rightarrow> u64" where
  "hash_u128 key =
     (let h0 = 0x9E3779B97F4A7C15 :: u64;
          h1 = h0 XOR (ucast key * 0xBF58476D1CE4E5B9);
          h2 = h1 XOR (ucast (drop_bit 64 key) * 0x94D049BB133111EB);
          h3 = h2 XOR drop_bit 31 h2
      in h3 * 0x9E3779B97F4A7C15)"

text \<open>\<open>TGSM_SLOTS_PER_PARTITION\<close> is 1024, with ten trailing zeros.\<close>

definition partition_id :: "u128 \<Rightarrow> u32 \<Rightarrow> u32" where
  "partition_id key n_partitions =
     ucast (drop_bit 10 (hash_u128 key) AND (ucast n_partitions - 1 :: u64))"

section \<open>The table of a partition\<close>

record table_state =
  slots :: "(u128 \<times> u32) option list"
  table :: "(u128 \<times> u32) list"
  local_next :: u32

text \<open>The probe loop; it returns the first slot that is free or holds the key.\<close>

partial_function (option) probe :: "nat \<Rightarrow> (u128 \<times> u32) option list \<Rightarrow> u128 \<Rightarrow> nat \<Rightarrow> nat option" where
  "probe cap sl k idx =
     (case sl ! idx of
        None \<Rightarrow> Some idx
      | Some (existing_k, gid) \<Rightarrow>
          if existing_k = k then Some idx else probe cap sl k ((idx + 1) AND (cap - 1)))"

definition table_step :: "nat \<Rightarrow> table_state \<Rightarrow> u128 \<Rightarrow> (table_state \<times> u32) option" where
  "table_step cap st k =
     (let h = unat (hash_u128 k) in
      case probe cap (slots st) k (h AND (cap - 1)) of
        None \<Rightarrow> None
      | Some idx \<Rightarrow>
          (case slots st ! idx of
             None \<Rightarrow> Some (st\<lparr>slots := (slots st)[idx := Some (k, local_next st)],
                            table := table st @ [(k, local_next st)],
                            local_next := local_next st + 1\<rparr>, local_next st)
           | Some (_, gid) \<Rightarrow> Some (st, gid)))"

definition table_capacity :: "nat \<Rightarrow> nat" where
  "table_capacity n_rows = max (next_power_of_two (n_rows * 2)) 8"

definition table_empty :: "nat \<Rightarrow> table_state" where
  "table_empty cap = \<lparr>slots = replicate cap None, table = [], local_next = 0\<rparr>"

fun partition_rows_loop ::
  "u128 list \<Rightarrow> nat \<Rightarrow> table_state \<Rightarrow> u32 list \<Rightarrow> u32 list \<Rightarrow> (table_state \<times> u32 list) option" where
  "partition_rows_loop keys cap st [] row_local = Some (st, row_local)"
| "partition_rows_loop keys cap st (r # rows) row_local =
     (case table_step cap st (keys ! unat r) of
        None \<Rightarrow> None
      | Some (st', gid) \<Rightarrow> partition_rows_loop keys cap st' rows (row_local[unat r := gid]))"

fun build_partitions ::
  "u128 list \<Rightarrow> u32 list list \<Rightarrow> u32 list \<Rightarrow> ((u128 \<times> u32) list list \<times> u32 list) option" where
  "build_partitions keys [] row_local = Some ([], row_local)"
| "build_partitions keys (rows # parts) row_local =
     (let cap = table_capacity (length rows) in
      case partition_rows_loop keys cap (table_empty cap) rows row_local of
        None \<Rightarrow> None
      | Some (st, row_local') \<Rightarrow>
          (case build_partitions keys parts row_local' of
             None \<Rightarrow> None
           | Some (tables, row_local'') \<Rightarrow> Some (table st # tables, row_local'')))"

section \<open>The host side\<close>

text \<open>The exclusive scan, with the total as its last element.\<close>

fun scan_from :: "u32 \<Rightarrow> u32 list \<Rightarrow> u32 list" where
  "scan_from acc [] = [acc]"
| "scan_from acc (c # cs) = acc # scan_from (acc + c) cs"

text \<open>The final loop over the rows; \<open>None\<close> is an index out of range.\<close>

fun finalize_rows :: "u32 list \<Rightarrow> nat \<Rightarrow> (u32 \<times> u32) list \<Rightarrow> u32 list \<Rightarrow> u32 list \<Rightarrow> (u32 list \<times> u32 list) option" where
  "finalize_rows offs r [] r2g first = Some (r2g, first)"
| "finalize_rows offs r ((p, loc) # rest) r2g first =
     (case slice_get offs (unat p) of
        None \<Rightarrow> None
      | Some off \<Rightarrow>
          let global = off + loc in
          (case slice_get first (unat global) of
             None \<Rightarrow> None
           | Some f \<Rightarrow>
               (case slice_set r2g r global of
                  None \<Rightarrow> None
                | Some r2g' \<Rightarrow> finalize_rows offs (Suc r) rest r2g'
                    (if f = - 1 then first[unat global := of_nat r] else first))))"

definition finalize_build :: "u32 list \<Rightarrow> (u32 \<times> u32) list \<Rightarrow> build_output option" where
  "finalize_build groups_per_part pls =
     (let offs = scan_from 0 groups_per_part;
          n = offs ! length groups_per_part
      in case finalize_rows offs 0 pls (replicate (length pls) 0) (replicate (unat n) (- 1)) of
           None \<Rightarrow> None
         | Some (r2g, first) \<Rightarrow>
             Some \<lparr>row_to_group = r2g, first_row_per_group = first, n_groups = n\<rparr>)"

section \<open>reference.rs: the CPU reference\<close>

fun push_rows :: "u32 \<Rightarrow> nat \<Rightarrow> u128 list \<Rightarrow> u32 list list \<Rightarrow> u32 list list" where
  "push_rows np r [] parts = parts"
| "push_rows np r (k # ks) parts =
     (let p = unat (partition_id k np) in push_rows np (Suc r) ks (parts[p := parts ! p @ [of_nat r]]))"

text \<open>\<open>None\<close> is a panic: the assertion on the partition count, an index, or a probe that does not end.\<close>

definition cpu_partitioned_hash :: "u128 list \<Rightarrow> u32 \<Rightarrow> build_output option" where
  "cpu_partitioned_hash keys n_partitions =
     (if keys = [] then Some empty_build
      else if \<not> is_power_of_two (unat n_partitions) then None
      else let rows_by_partition = push_rows n_partitions 0 keys (replicate (unat n_partitions) []) in
        case build_partitions keys rows_by_partition (replicate (length keys) 0) of
          None \<Rightarrow> None
        | Some (tables, row_local) \<Rightarrow>
            finalize_build (map (\<lambda>t. of_nat (length t)) tables)
              (zip (map (\<lambda>k. partition_id k n_partitions) keys) row_local))"

section \<open>The final loop numbers the groups\<close>

lemma scan_from_length [simp]: "length (scan_from acc cs) = Suc (length cs)"
  by (induction cs arbitrary: acc) simp_all

lemma scan_from_nth: "p \<le> length cs \<Longrightarrow> scan_from acc cs ! p = acc + sum_list (take p cs)"
proof (induction cs arbitrary: acc p)
  case (Cons c cs)
  then show ?case by (cases p) (simp_all add: add.assoc)
qed simp

lemma unat_sum_list_small:
  "sum_list (map unat cs) < 2 ^ 32 \<Longrightarrow> unat (sum_list cs :: u32) = sum_list (map unat cs)"
proof (induction cs)
  case (Cons c cs)
  then have "unat (sum_list cs) = sum_list (map unat cs)" by simp
  with Cons.prems show ?case by (simp add: unat_add_lem[THEN iffD1])
qed simp

lemma first_table_step:
  assumes tab: "first_table gs k first" and k: "k < 2 ^ 32 - 1" and g: "gs ! k < length first"
  shows "first_table gs (Suc k) (if first ! (gs ! k) = - 1 then first[gs ! k := of_nat k] else first)"
proof (cases "first ! (gs ! k) = - 1")
  case True
  have none: "\<forall>i < k. gs ! i \<noteq> gs ! k"
    using first_table_mono_mark[OF tab _ g] True k by auto
  show ?thesis
    unfolding first_table_def
  proof (intro allI impI)
    fix h assume "h < length (if first ! (gs ! k) = - 1 then first[gs ! k := of_nat k] else first)"
    then have h: "h < length first" using True by simp
    show "(\<exists>i < Suc k. gs ! i = h \<and> (if first ! (gs ! k) = - 1 then first[gs ! k := of_nat k] else first) ! h = of_nat i \<and>
          (\<forall>j < i. gs ! j \<noteq> h)) \<or>
        ((if first ! (gs ! k) = - 1 then first[gs ! k := of_nat k] else first) ! h = - 1 \<and> (\<forall>i < Suc k. gs ! i \<noteq> h))"
    proof (cases "h = gs ! k")
      case True
      with \<open>first ! (gs ! k) = - 1\<close> none g show ?thesis by auto
    next
      case False
      with h tab \<open>first ! (gs ! k) = - 1\<close> show ?thesis
        unfolding first_table_def by (auto simp: less_Suc_eq)
    qed
  qed
next
  case False
  with g tab obtain i where "i < k" "gs ! i = gs ! k" unfolding first_table_def by metis
  show ?thesis
    unfolding first_table_def
  proof (intro allI impI)
    fix h assume "h < length (if first ! (gs ! k) = - 1 then first[gs ! k := of_nat k] else first)"
    then have "h < length first" using False by simp
    with tab have "(\<exists>i < k. gs ! i = h \<and> first ! h = of_nat i \<and> (\<forall>j < i. gs ! j \<noteq> h)) \<or>
        (first ! h = - 1 \<and> (\<forall>i < k. gs ! i \<noteq> h))"
      unfolding first_table_def by blast
    then show "(\<exists>i < Suc k. gs ! i = h \<and> (if first ! (gs ! k) = - 1 then first[gs ! k := of_nat k] else first) ! h = of_nat i \<and>
          (\<forall>j < i. gs ! j \<noteq> h)) \<or>
        ((if first ! (gs ! k) = - 1 then first[gs ! k := of_nat k] else first) ! h = - 1 \<and> (\<forall>i < Suc k. gs ! i \<noteq> h))"
      using False by (auto simp: less_Suc_eq)
  qed
qed

lemma finalize_rows_spec:
  assumes "\<forall>i < length gs. unat (fst (pls ! i)) < length offs \<and>
      offs ! unat (fst (pls ! i)) + snd (pls ! i) = of_nat (gs ! i) \<and> gs ! i < length first"
    and "length pls = length gs" "length r2g = length gs" "length first < 2 ^ 32" "length gs < 2 ^ 32"
    and "k \<le> length gs" "first_table gs k first" "take k r2g = map of_nat (take k gs)"
  shows "\<exists>first'. finalize_rows offs k (drop k pls) r2g first = Some (map of_nat gs, first') \<and>
    length first' = length first \<and> first_table gs (length gs) first'"
  using assms(1,3,4,6-8)
proof (induction "length gs - k" arbitrary: k r2g first)
  case 0
  then have "k = length gs" by simp
  with 0 assms(2) show ?case by simp
next
  case (Suc m)
  then have k: "k < length gs" by simp
  obtain p loc where pl: "pls ! k = (p, loc)" by force
  have dr: "drop k pls = (p, loc) # drop (Suc k) pls"
    using k assms(2) pl Cons_nth_drop_Suc[of k pls] by simp
  have p: "unat p < length offs" and gl: "offs ! unat p + loc = of_nat (gs ! k)" and gk: "gs ! k < length first"
    using Suc.prems(1) k pl by force+
  have u: "unat (offs ! unat p + loc) = gs ! k"
    unfolding gl using gk Suc.prems(3) by (simp add: unat_of_nat)
  let ?first = "if first ! (gs ! k) = - 1 then first[gs ! k := of_nat k] else first"
  have step: "finalize_rows offs k (drop k pls) r2g first =
      finalize_rows offs (Suc k) (drop (Suc k) pls) (r2g[k := of_nat (gs ! k)]) ?first"
    using p gl u gk k Suc.prems(2) by (simp add: dr slice_simps Let_def)
  have tab: "first_table gs (Suc k) ?first"
    by (rule first_table_step[OF Suc.prems(5) _ gk]) (use k assms(5) in simp)
  have len: "length ?first = length first" by simp
  have "\<exists>first'. finalize_rows offs (Suc k) (drop (Suc k) pls) (r2g[k := of_nat (gs ! k)]) ?first =
      Some (map of_nat gs, first') \<and> length first' = length ?first \<and> first_table gs (length gs) first'"
  proof (rule Suc.hyps(1))
    show "take (Suc k) (r2g[k := of_nat (gs ! k)]) = map of_nat (take (Suc k) gs)"
      using Suc.prems(2,6) k by (simp add: take_Suc_conv_app_nth)
  qed (use Suc tab len k in auto)
  then show ?case unfolding step len .
qed

text \<open>The law of the host side: numbers that are unique per key in each partition give a grouping.\<close>

lemma finalize_build_grouping:
  fixes keys :: "'k list"
  assumes len: "length pls = length keys" "length keys < 2 ^ 32"
    and part: "\<forall>i < length keys. unat (fst (pls ! i)) < length ng \<and>
      unat (snd (pls ! i)) < unat (ng ! unat (fst (pls ! i)))"
    and same: "\<forall>i < length keys. \<forall>j < length keys. pls ! i = pls ! j \<longleftrightarrow> keys ! i = keys ! j"
    and onto: "\<forall>p < length ng. \<forall>l < unat (ng ! p). \<exists>i < length keys. unat (fst (pls ! i)) = p \<and> unat (snd (pls ! i)) = l"
    and total: "sum_list (map unat ng) < 2 ^ 32"
  shows "\<exists>b. finalize_build ng pls = Some b \<and> grouping keys b \<and> first_rows_minimal b"
proof -
  define off where "off p = sum_list (map unat (take p ng))" for p
  define gs where "gs = map (\<lambda>pl. off (unat (fst pl)) + unat (snd pl)) pls"
  define G where "G = sum_list (map unat ng)"
  have off_small: "off p \<le> G" for p
    unfolding off_def G_def by (metis append_take_drop_id le_add1 map_append sum_list_append)
  have off_Suc: "off (Suc p) = off p + unat (ng ! p)" if "p < length ng" for p
    using that by (simp add: off_def take_Suc_conv_app_nth)
  have off_mono: "off p + unat (ng ! p) \<le> off q" if "p < q" "q \<le> length ng" for p q
    using that
  proof (induction q)
    case (Suc q)
    then show ?case using off_Suc[of q] by (cases "p = q") auto
  qed simp
  have off_all: "off (length ng) = G" by (simp add: off_def G_def)
  have scan: "scan_from 0 ng ! p = of_nat (off p)" if "p \<le> length ng" for p
  proof -
    have "sum_list (map unat (take p ng)) < 2 ^ 32" using off_small[of p] total by (simp add: off_def G_def)
    from unat_sum_list_small[OF this] show ?thesis
      using that by (simp add: scan_from_nth off_def) (metis of_nat_unat ucast_id)
  qed
  have gi: "gs ! i = off (unat (fst (pls ! i))) + unat (snd (pls ! i))" if "i < length keys" for i
    using that len by (simp add: gs_def)
  have gb: "gs ! i < off (Suc (unat (fst (pls ! i))))" "off (unat (fst (pls ! i))) \<le> gs ! i" if "i < length keys" for i
    using part that off_Suc gi by simp_all
  have bound: "gs ! i < G" if "i < length keys" for i
    using gb(1)[OF that] off_small order_less_le_trans by blast
  have inj: "pls ! i = pls ! j" if ij: "i < length keys" "j < length keys" "gs ! i = gs ! j" for i j
  proof -
    have "unat (fst (pls ! i)) = unat (fst (pls ! j))"
    proof (rule ccontr)
      assume "unat (fst (pls ! i)) \<noteq> unat (fst (pls ! j))"
      then consider "unat (fst (pls ! i)) < unat (fst (pls ! j))" | "unat (fst (pls ! j)) < unat (fst (pls ! i))" by linarith
      then show False
      proof cases
        case 1
        with off_mono[OF 1] part ij gb[OF ij(1)] gb[OF ij(2)] off_Suc show False by fastforce
      next
        case 2
        with off_mono[OF 2] part ij gb[OF ij(1)] gb[OF ij(2)] off_Suc show False by fastforce
      qed
    qed
    with ij gi show ?thesis by (simp add: prod_eq_iff word_unat_eq_iff)
  qed
  have ids_same: "gs ! i = gs ! j \<longleftrightarrow> keys ! i = keys ! j" if "i < length keys" "j < length keys" for i j
    using inj[OF that] same that gi by metis
  have ids_onto: "\<exists>i < length keys. gs ! i = g" if g: "g < G" for g
  proof -
    define p where "p = (LEAST q. g < off (Suc q))"
    have ex: "g < off (Suc (length ng))" using g off_all by (simp add: off_def)
    have p: "g < off (Suc p)" unfolding p_def by (rule LeastI[of _ "length ng"]) (rule ex)
    have lo: "off p \<le> g"
    proof (cases p)
      case (Suc q)
      then have "\<not> g < off (Suc q)" using not_less_Least[of q "\<lambda>q. g < off (Suc q)"] p_def by simp
      with Suc show ?thesis by simp
    qed (simp add: off_def)
    have pl: "p < length ng"
    proof (rule ccontr)
      assume "\<not> p < length ng"
      then have "off p = G" by (simp add: off_def G_def)
      with lo g show False by simp
    qed
    have "g - off p < unat (ng ! p)" using p lo off_Suc[OF pl] by linarith
    then obtain i where "i < length keys" "unat (fst (pls ! i)) = p" "unat (snd (pls ! i)) = g - off p"
      using onto pl by blast
    with gi lo show ?thesis by auto
  qed
  have n: "unat (scan_from 0 ng ! length ng) = G"
    using scan[of "length ng"] total off_all by (simp add: unat_of_nat G_def)
  have "\<exists>first'. finalize_rows (scan_from 0 ng) 0 (drop 0 pls) (replicate (length pls) 0) (replicate G (- 1)) =
      Some (map of_nat gs, first') \<and> length first' = length (replicate G (- 1 :: u32)) \<and> first_table gs (length gs) first'"
  proof (rule finalize_rows_spec)
    show "\<forall>i < length gs. unat (fst (pls ! i)) < length (scan_from 0 ng) \<and>
        scan_from 0 ng ! unat (fst (pls ! i)) + snd (pls ! i) = of_nat (gs ! i) \<and> gs ! i < length (replicate G (- 1 :: u32))"
      using part gi bound len by (auto simp: gs_def scan less_imp_le)
  qed (use len total in \<open>simp_all add: gs_def G_def first_table_def\<close>)
  then obtain first' where fin: "finalize_rows (scan_from 0 ng) 0 pls (replicate (length pls) 0) (replicate G (- 1)) =
      Some (map of_nat gs, first')" "length first' = G" "first_table gs (length keys) first'"
    using len by (auto simp: gs_def)
  have "grouping keys \<lparr>row_to_group = map of_nat gs, first_row_per_group = first', n_groups = of_nat G\<rparr> \<and>
      first_rows_minimal \<lparr>row_to_group = map of_nat gs, first_row_per_group = first', n_groups = of_nat G\<rparr>"
    by (rule grouping_of_ids) (use fin len total bound ids_same ids_onto in \<open>auto simp: G_def gs_def\<close>)
  moreover have "of_nat G = scan_from 0 ng ! length ng" using n by (metis of_nat_unat ucast_id)
  ultimately show ?thesis
    using fin(1) n by (auto simp: finalize_build_def Let_def)
qed

section \<open>The probe loop ends\<close>

definition hit :: "(u128 \<times> u32) option list \<Rightarrow> u128 \<Rightarrow> nat \<Rightarrow> bool" where
  "hit sl k i \<longleftrightarrow> (case sl ! i of None \<Rightarrow> True | Some (k', _) \<Rightarrow> k' = k)"

definition pos :: "nat \<Rightarrow> nat \<Rightarrow> nat \<Rightarrow> nat" where
  "pos c i j = (i + j) mod 2 ^ c"

lemma probe_first_hit:
  "i < 2 ^ c \<Longrightarrow> hit sl k (pos c i j) \<Longrightarrow> \<forall>j' < j. \<not> hit sl k (pos c i j') \<Longrightarrow>
     probe (2 ^ c) sl k i = Some (pos c i j)"
proof (induction j arbitrary: i)
  case 0
  then show ?case
    by (subst probe.simps) (auto simp: hit_def pos_def split: option.splits)
next
  case (Suc j)
  let ?i = "(i + 1) mod 2 ^ c"
  have i0: "pos c i 0 = i" using Suc.prems(1) by (simp add: pos_def)
  have shift: "pos c i (Suc n) = pos c ?i n" for n
    by (simp add: pos_def mod_add_left_eq)
  have "\<not> hit sl k i" using Suc.prems(3) i0 by (metis zero_less_Suc)
  then obtain k' g where e: "sl ! i = Some (k', g)" "k' \<noteq> k" by (auto simp: hit_def split: option.splits)
  have "probe (2 ^ c) sl k ?i = Some (pos c ?i j)"
  proof (rule Suc.IH)
    show "\<forall>j' < j. \<not> hit sl k (pos c ?i j')" using Suc.prems(3) shift by (metis Suc_less_eq)
  qed (use Suc.prems(2) shift in simp_all)
  then show ?case
    by (subst probe.simps) (simp add: e shift and_pow2_minus_Suc)
qed

lemma probe_reach:
  assumes "i < 2 ^ c" "hit sl k (pos c i m)"
  shows "\<exists>j \<le> m. probe (2 ^ c) sl k i = Some (pos c i j) \<and> hit sl k (pos c i j)"
proof -
  let ?j = "LEAST j. hit sl k (pos c i j)"
  have "hit sl k (pos c i ?j)" using assms(2) by (rule LeastI)
  moreover have "\<forall>j' < ?j. \<not> hit sl k (pos c i j')" using not_less_Least by blast
  ultimately show ?thesis
    using probe_first_hit[OF assms(1)] Least_le[of "\<lambda>j. hit sl k (pos c i j)", OF assms(2)] by blast
qed

text \<open>Every slot is reached from every start.\<close>

lemma pos_reaches: "i < 2 ^ c \<Longrightarrow> s < 2 ^ c \<Longrightarrow> \<exists>m < 2 ^ c. pos c i m = s"
proof (cases "i \<le> s")
  case True
  then show "s < 2 ^ c \<Longrightarrow> ?thesis" by (intro exI[of _ "s - i"]) (auto simp: pos_def)
next
  case False
  then show "i < 2 ^ c \<Longrightarrow> s < 2 ^ c \<Longrightarrow> ?thesis"
    by (intro exI[of _ "s + 2 ^ c - i"]) (auto simp: pos_def)
qed

section \<open>A partition's table interns its keys\<close>

definition home :: "nat \<Rightarrow> u128 \<Rightarrow> nat" where
  "home c k = unat (hash_u128 k) mod 2 ^ c"

definition table_inv :: "nat \<Rightarrow> table_state \<Rightarrow> bool" where
  "table_inv c st \<longleftrightarrow>
     length (slots st) = 2 ^ c \<and> distinct (map fst (table st)) \<and>
     local_next st = of_nat (length (table st)) \<and>
     (\<forall>g < length (table st). snd (table st ! g) = of_nat g) \<and>
     card {i. i < 2 ^ c \<and> slots st ! i \<noteq> None} = length (table st) \<and>
     (\<forall>i < 2 ^ c. \<forall>k g. slots st ! i = Some (k, g) \<longrightarrow> (k, g) \<in> set (table st)) \<and>
     (\<forall>(k, g) \<in> set (table st). \<exists>m. slots st ! pos c (home c k) m = Some (k, g) \<and>
        (\<forall>m' < m. slots st ! pos c (home c k) m' \<noteq> None))"

lemma pos_less [simp]: "pos c i j < 2 ^ c"
  by (simp add: pos_def)

lemma home_less [simp]: "home c k < 2 ^ c"
  by (simp add: home_def)

lemma table_step_home: "table_step (2 ^ c) st k =
    (case probe (2 ^ c) (slots st) k (home c k) of
        None \<Rightarrow> None
      | Some idx \<Rightarrow>
          (case slots st ! idx of
             None \<Rightarrow> Some (st\<lparr>slots := (slots st)[idx := Some (k, local_next st)],
                            table := table st @ [(k, local_next st)],
                            local_next := local_next st + 1\<rparr>, local_next st)
           | Some (_, gid) \<Rightarrow> Some (st, gid)))"
  by (simp only: table_step_def Let_def and_pow2_minus_1 home_def)

lemma table_inv_slot: "table_inv c st \<Longrightarrow> i < 2 ^ c \<Longrightarrow> slots st ! i = Some (k, g) \<Longrightarrow> (k, g) \<in> set (table st)"
  unfolding table_inv_def by blast

lemma table_inv_number: "table_inv c st \<Longrightarrow> g < length (table st) \<Longrightarrow> snd (table st ! g) = of_nat g"
  unfolding table_inv_def by blast

lemma table_inv_distinct: "table_inv c st \<Longrightarrow> distinct (map fst (table st))"
  unfolding table_inv_def by blast

lemma table_free_slot:
  assumes "table_inv c st" "length (table st) < 2 ^ c"
  shows "\<exists>m. slots st ! pos c (home c k) m = None"
proof -
  have "card {i. i < 2 ^ c \<and> slots st ! i \<noteq> None} < card {i::nat. i < 2 ^ c}"
    using assms by (simp add: table_inv_def)
  then have ne: "{i. i < 2 ^ c \<and> slots st ! i \<noteq> None} \<noteq> {i. i < 2 ^ c}"
    by (rule contrapos_pn) (simp only: less_irrefl not_False_eq_True)
  have "\<exists>s < 2 ^ c. slots st ! s = None"
  proof (rule ccontr)
    assume "\<not> ?thesis"
    then have "{i. i < 2 ^ c \<and> slots st ! i \<noteq> None} = {i. i < 2 ^ c}" by (intro Collect_cong) auto
    with ne show False by contradiction
  qed
  then show ?thesis using pos_reaches[OF home_less] by metis
qed

lemma table_step_old:
  assumes inv: "table_inv c st" and k: "(k, g) \<in> set (table st)"
  shows "table_step (2 ^ c) st k = Some (st, g)"
proof -
  obtain m where m: "slots st ! pos c (home c k) m = Some (k, g)"
    "\<forall>m' < m. slots st ! pos c (home c k) m' \<noteq> None"
    using inv k unfolding table_inv_def by fastforce
  have "hit (slots st) k (pos c (home c k) m)" using m(1) by (simp add: hit_def)
  then obtain j where j: "j \<le> m" "probe (2 ^ c) (slots st) k (home c k) = Some (pos c (home c k) j)"
    "hit (slots st) k (pos c (home c k) j)"
    using probe_reach[OF home_less] by blast
  have "slots st ! pos c (home c k) j \<noteq> None" using m j(1) by (cases "j = m") auto
  then obtain g' where g': "slots st ! pos c (home c k) j = Some (k, g')"
    using j(3) by (auto simp: hit_def split: option.splits)
  then have "(k, g') \<in> set (table st)" by (rule table_inv_slot[OF inv pos_less])
  with k table_inv_distinct[OF inv] have "g' = g" by (meson eq_key_imp_eq_value)
  then show ?thesis using j(2) g' by (simp add: table_step_home)
qed

lemma table_step_new:
  assumes inv: "table_inv c st" and k: "k \<notin> fst ` set (table st)" and room: "length (table st) < 2 ^ c"
  obtains j where "slots st ! pos c (home c k) j = None" "\<forall>j' < j. slots st ! pos c (home c k) j' \<noteq> None"
    "table_step (2 ^ c) st k = Some (st\<lparr>slots := (slots st)[pos c (home c k) j := Some (k, local_next st)],
       table := table st @ [(k, local_next st)], local_next := local_next st + 1\<rparr>, local_next st)"
proof -
  have hit_none: "hit (slots st) k i \<longleftrightarrow> slots st ! i = None" if "i < 2 ^ c" for i
  proof -
    have "slots st ! i \<noteq> Some (k, g)" for g
      using table_inv_slot[OF inv that, of k g] k by force
    then show ?thesis by (auto simp: hit_def split: option.splits)
  qed
  let ?P = "\<lambda>j. slots st ! pos c (home c k) j = None"
  obtain m where m: "?P m" using table_free_slot[OF inv room] by blast
  obtain j where j: "?P j" "\<forall>j' < j. \<not> ?P j'"
    using LeastI[of ?P, OF m] not_less_Least[of _ ?P] by blast
  have "probe (2 ^ c) (slots st) k (home c k) = Some (pos c (home c k) j)"
  proof (rule probe_first_hit[OF home_less])
    show "hit (slots st) k (pos c (home c k) j)" using j(1) by (simp add: hit_none)
    show "\<forall>j' < j. \<not> hit (slots st) k (pos c (home c k) j')" using j(2) by (simp add: hit_none)
  qed
  then show ?thesis
    using j by (intro that[of j]) (simp_all add: table_step_home)
qed

lemma table_new_inv:
  assumes inv: "table_inv c st" and k: "k \<notin> fst ` set (table st)"
    and j: "slots st ! pos c (home c k) j = None" "\<forall>j' < j. slots st ! pos c (home c k) j' \<noteq> None"
  shows "table_inv c (st\<lparr>slots := (slots st)[pos c (home c k) j := Some (k, local_next st)],
       table := table st @ [(k, local_next st)], local_next := local_next st + 1\<rparr>)"
    (is "table_inv c ?st")
proof -
  let ?i = "pos c (home c k) j"
  have len: "length (slots st) = 2 ^ c" using inv by (simp add: table_inv_def)
  have sl: "slots ?st ! i = (if i = ?i then Some (k, local_next st) else slots st ! i)" if "i < 2 ^ c" for i
    using that len by (simp add: nth_list_update_if)
  have "{i. i < 2 ^ c \<and> slots ?st ! i \<noteq> None} = insert ?i {i. i < 2 ^ c \<and> slots st ! i \<noteq> None}"
    using sl by auto
  moreover have "?i \<notin> {i. i < 2 ^ c \<and> slots st ! i \<noteq> None}" using j(1) by simp
  ultimately have "card {i. i < 2 ^ c \<and> slots ?st ! i \<noteq> None} = length (table ?st)"
    using inv by (simp add: table_inv_def)
  moreover have "\<forall>i < 2 ^ c. \<forall>k' g. slots ?st ! i = Some (k', g) \<longrightarrow> (k', g) \<in> set (table ?st)"
    using inv sl unfolding table_inv_def by simp
  moreover have "\<exists>m. slots ?st ! pos c (home c k') m = Some (k', g) \<and> (\<forall>m' < m. slots ?st ! pos c (home c k') m' \<noteq> None)"
    if "(k', g) \<in> set (table ?st)" for k' g
  proof (cases "(k', g) \<in> set (table st)")
    case True
    then obtain m where "slots st ! pos c (home c k') m = Some (k', g)"
      "\<forall>m' < m. slots st ! pos c (home c k') m' \<noteq> None"
      using inv unfolding table_inv_def by fastforce
    then show ?thesis using sl[OF pos_less] j(1) by (intro exI[of _ m]) auto
  next
    case False
    with that have "k' = k" "g = local_next st" by auto
    then show ?thesis using sl[OF pos_less] j by (intro exI[of _ j]) auto
  qed
  ultimately show ?thesis
    using inv k unfolding table_inv_def by (auto simp: nth_append less_Suc_eq)
qed

definition table_intern :: "nat \<Rightarrow> table_state \<Rightarrow> u128 \<Rightarrow> table_state \<times> nat" where
  "table_intern c st k = (case table_step (2 ^ c) st k of None \<Rightarrow> (st, 0) | Some (st', g) \<Rightarrow> (st', unat g))"

lemma table_entry:
  assumes "table_inv c st" "k \<in> fst ` set (table st)" "length (table st) \<le> 2 ^ 32"
  obtains g where "(k, g) \<in> set (table st)" "unat g < length (table st)" "map fst (table st) ! unat g = k"
proof -
  obtain i where i: "i < length (table st)" "fst (table st ! i) = k"
    using assms(2) by (auto simp: in_set_conv_nth)
  then have "(k, of_nat i) \<in> set (table st)"
    using table_inv_number[OF assms(1) i(1)] nth_mem[OF i(1)] by (metis prod.collapse)
  moreover have "unat (of_nat i :: u32) = i" using i assms(3) by (simp add: unat_of_nat)
  ultimately show ?thesis using i by (intro that[of "of_nat i"]) simp_all
qed

lemma table_step_ok:
  assumes inv: "table_inv c st" and room: "length (table st) < 2 ^ c" "length (table st) < 2 ^ 32"
  shows "\<exists>st' g. table_step (2 ^ c) st k = Some (st', g) \<and> table_inv c st' \<and>
    map fst (table st') = push_new (map fst (table st)) k \<and> unat g < length (table st') \<and>
    map fst (table st') ! unat g = k"
proof (cases "k \<in> fst ` set (table st)")
  case True
  obtain g where g: "(k, g) \<in> set (table st)" "unat g < length (table st)" "map fst (table st) ! unat g = k"
    by (rule table_entry[OF inv True]) (use room in simp_all)
  then show ?thesis
    using table_step_old[OF inv g(1)] inv True by (auto simp: push_new_def)
next
  case False
  obtain j where j: "slots st ! pos c (home c k) j = None" "\<forall>j' < j. slots st ! pos c (home c k) j' \<noteq> None"
    "table_step (2 ^ c) st k = Some (st\<lparr>slots := (slots st)[pos c (home c k) j := Some (k, local_next st)],
       table := table st @ [(k, local_next st)], local_next := local_next st + 1\<rparr>, local_next st)"
    by (rule table_step_new[OF inv False room(1)])
  have "unat (local_next st) = length (table st)"
    using inv room(2) by (simp add: table_inv_def unat_of_nat)
  then show ?thesis
    using j(3) table_new_inv[OF inv False j(1,2)] False by (auto simp: push_new_def nth_append)
qed

lemma table_intern_ok:
  assumes inv: "table_inv c st" and room: "length (map fst (table st)) < min (2 ^ c) (2 ^ 32)"
  shows "table_inv c (fst (table_intern c st k)) \<and>
    map fst (table (fst (table_intern c st k))) = push_new (map fst (table st)) k \<and>
    snd (table_intern c st k) < length (map fst (table (fst (table_intern c st k)))) \<and>
    map fst (table (fst (table_intern c st k))) ! snd (table_intern c st k) = k"
proof -
  obtain st' g where "table_step (2 ^ c) st k = Some (st', g)" and f: "table_inv c st'"
    "map fst (table st') = push_new (map fst (table st)) k" "unat g < length (table st')"
    "map fst (table st') ! unat g = k"
  proof -
    have "length (table st) < 2 ^ c" "length (table st) < 2 ^ 32" using room by simp_all
    from table_step_ok[OF inv this, of k] show ?thesis using that by blast
  qed
  then have "table_intern c st k = (st', unat g)" by (simp add: table_intern_def)
  with f show ?thesis by (metis fst_conv length_map snd_conv)
qed

interpretation tab: interner "table_intern c" "\<lambda>st. map fst (table st)" "table_inv c" "min (2 ^ c) (2 ^ 32)" for c
  by (standard; use table_intern_ok in blast)

section \<open>The CPU reference is a grouping\<close>

lemma partition_id_less:
  assumes "is_power_of_two (unat np)"
  shows "unat (partition_id k np) < unat np"
proof -
  have np: "np \<noteq> 0" using assms by (auto simp: is_power_of_two_def)
  then have ge: "1 \<le> unat np" by (simp add: Suc_leI unat_gt_0)
  have u: "unat (ucast np :: u64) = unat np" by (simp add: unat_ucast_up)
  have m: "unat (ucast np - 1 :: u64) = unat np - 1"
    using ge u by (subst unat_sub) (simp_all add: word_le_nat_alt)
  let ?w = "drop_bit 10 (hash_u128 k) AND (ucast np - 1 :: u64)"
  have "?w \<le> ucast np - 1" by (rule word_and_le1)
  then have w: "unat ?w \<le> unat np - 1" using m by (simp add: word_le_nat_alt)
  have "unat (ucast ?w :: u32) \<le> unat ?w" by (rule unat_ucast_le)
  with w ge show ?thesis by (simp add: partition_id_def)
qed

definition rows_of :: "u128 list \<Rightarrow> u32 \<Rightarrow> nat \<Rightarrow> nat list" where
  "rows_of keys np p = filter (\<lambda>i. unat (partition_id (keys ! i) np) = p) [0..<length keys]"

lemma push_rows_snoc:
  "push_rows np r (ks @ [k]) parts =
     (let parts' = push_rows np r ks parts; p = unat (partition_id k np)
      in parts'[p := parts' ! p @ [of_nat (r + length ks)]])"
  by (induction np r ks parts rule: push_rows.induct) (simp_all add: Let_def)

lemma push_rows_spec:
  assumes "is_power_of_two (unat np)"
  shows "push_rows np 0 keys (replicate (unat np) []) = map (\<lambda>p. map of_nat (rows_of keys np p)) [0..<unat np]"
proof (induction keys rule: rev_induct)
  case Nil
  show ?case by (rule list_eq_by_nth) (simp_all add: rows_of_def)
next
  case (snoc k keys)
  let ?p = "unat (partition_id k np)"
  have p: "?p < unat np" by (rule partition_id_less[OF assms])
  have rows: "rows_of (keys @ [k]) np q = (if q = ?p then rows_of keys np q @ [length keys] else rows_of keys np q)" for q
  proof -
    have "filter (\<lambda>i. unat (partition_id ((keys @ [k]) ! i) np) = q) [0..<length keys] =
        filter (\<lambda>i. unat (partition_id (keys ! i) np) = q) [0..<length keys]"
      by (rule filter_cong) (simp_all add: nth_append)
    then show ?thesis by (simp add: rows_of_def)
  qed
  show ?case
    unfolding push_rows_snoc Let_def snoc
    by (rule list_eq_by_nth) (use p in \<open>simp_all add: nth_list_update_if rows\<close>)
qed

lemma partition_rows_loop_spec:
  "table_inv c st \<Longrightarrow> length (table st) + length rows \<le> 2 ^ c \<Longrightarrow> length (table st) + length rows \<le> 2 ^ 32 \<Longrightarrow>
     \<exists>st' cs. partition_rows_loop keys (2 ^ c) st rows lg = Some (st', foldl (\<lambda>l (r, g). l[unat r := g]) lg (zip rows cs)) \<and>
       intern_all (table_intern c) st (map (\<lambda>r. keys ! unat r) rows) = (st', map unat cs) \<and> length cs = length rows"
proof (induction rows arbitrary: st lg)
  case (Cons r rows)
  obtain st1 g where step: "table_step (2 ^ c) st (keys ! unat r) = Some (st1, g)" and inv1: "table_inv c st1"
    and ord: "map fst (table st1) = push_new (map fst (table st)) (keys ! unat r)"
    using table_step_ok[OF Cons.prems(1), of "keys ! unat r"] Cons.prems(2,3) by auto
  have "length (table st1) \<le> Suc (length (table st))"
    using ord length_push_new[of "map fst (table st)" "keys ! unat r"] by (metis length_map)
  then have room: "length (table st1) + length rows \<le> 2 ^ c" "length (table st1) + length rows \<le> 2 ^ 32"
    using Cons.prems(2,3) by simp_all
  obtain st' cs where IH: "partition_rows_loop keys (2 ^ c) st1 rows (lg[unat r := g]) =
      Some (st', foldl (\<lambda>l (r, g). l[unat r := g]) (lg[unat r := g]) (zip rows cs))"
    "intern_all (table_intern c) st1 (map (\<lambda>r. keys ! unat r) rows) = (st', map unat cs)" "length cs = length rows"
    using Cons.IH[OF inv1 room] by blast
  have "table_intern c st (keys ! unat r) = (st1, unat g)" using step by (simp add: table_intern_def)
  then show ?case
    using step IH by (intro exI[of _ st'] exI[of _ "g # cs"]) simp
qed simp

lemma scatter_other: "j \<notin> unat ` set rows \<Longrightarrow> foldl (\<lambda>l (r, g). l[unat r := g]) lg (zip rows cs) ! j = lg ! j"
proof (induction rows arbitrary: cs lg)
  case (Cons r rows)
  then show ?case by (cases cs) auto
qed simp

lemma scatter_length [simp]: "length (foldl (\<lambda>l (r, g). l[unat r := g]) lg (zip rows cs)) = length lg"
proof (induction rows arbitrary: cs lg)
  case (Cons r rows)
  then show ?case by (cases cs) auto
qed simp

lemma scatter_at:
  "distinct (map unat rows) \<Longrightarrow> length cs = length rows \<Longrightarrow> q < length rows \<Longrightarrow> unat (rows ! q) < length lg \<Longrightarrow>
     foldl (\<lambda>l (r, g). l[unat r := g]) lg (zip rows cs) ! unat (rows ! q) = cs ! q"
proof (induction rows arbitrary: cs lg q)
  case (Cons r rows)
  then obtain d ds where cs: "cs = d # ds" by (cases cs) auto
  show ?case
  proof (cases q)
    case 0
    with Cons.prems cs show ?thesis using scatter_other[of "unat r" rows "lg[unat r := d]" ds] by auto
  next
    case (Suc q')
    with Cons.prems cs Cons.IH[of ds q' "lg[unat r := d]"] show ?thesis by simp
  qed
qed simp

lemma table_empty_inv: "table_inv c (table_empty (2 ^ c))"
  by (simp add: table_inv_def table_empty_def)

lemma table_capacity_exp: "\<exists>c. table_capacity n = 2 ^ c \<and> n \<le> 2 ^ c"
proof -
  obtain j where j: "next_power_of_two (n * 2) = 2 ^ j" "n * 2 \<le> 2 ^ j"
    using next_power_of_two_exp[of "n * 2"] by blast
  show ?thesis
  proof (cases "2 ^ j \<le> (8::nat)")
    case True
    then have "table_capacity n = 2 ^ 3" using j by (simp add: table_capacity_def)
    with True j show ?thesis by (intro exI[of _ 3]) simp
  next
    case False
    then show ?thesis using j by (intro exI[of _ j]) (simp add: table_capacity_def)
  qed
qed

lemma partition_spec:
  assumes "length rows \<le> 2 ^ 32" "distinct (map unat rows)" "\<forall>r \<in> set rows. unat r < length lg"
  shows "\<exists>st lg'. partition_rows_loop keys (table_capacity (length rows)) (table_empty (table_capacity (length rows))) rows lg = Some (st, lg') \<and>
    map fst (table st) = first_seen (map (\<lambda>r. keys ! unat r) rows) \<and> length lg' = length lg \<and>
    (\<forall>j. j \<notin> unat ` set rows \<longrightarrow> lg' ! j = lg ! j) \<and>
    (\<forall>r \<in> set rows. unat (lg' ! unat r) < length (table st) \<and> map fst (table st) ! unat (lg' ! unat r) = keys ! unat r)"
proof -
  obtain c where c: "table_capacity (length rows) = 2 ^ c" "length rows \<le> 2 ^ c"
    using table_capacity_exp by blast
  have e: "table (table_empty (2 ^ c)) = []" by (simp add: table_empty_def)
  obtain st cs where loop: "partition_rows_loop keys (2 ^ c) (table_empty (2 ^ c)) rows lg =
      Some (st, foldl (\<lambda>l (r, g). l[unat r := g]) lg (zip rows cs))"
    and all: "intern_all (table_intern c) (table_empty (2 ^ c)) (map (\<lambda>r. keys ! unat r) rows) = (st, map unat cs)"
    and len: "length cs = length rows"
    using partition_rows_loop_spec[OF table_empty_inv, of c rows keys lg] c(2) assms(1) e by auto
  have room: "length (map fst (table (table_empty (2 ^ c)))) + length (map (\<lambda>r. keys ! unat r) rows) \<le> min (2 ^ c) (2 ^ 32)"
    using c(2) assms(1) e by simp
  note spec = tab.intern_all_spec[OF table_empty_inv room all]
  have nth: "unat (cs ! q) < length (table st) \<and> map fst (table st) ! unat (cs ! q) = keys ! unat (rows ! q)"
    if "q < length rows" for q
  proof -
    have "\<forall>i < length (map (\<lambda>r. keys ! unat r) rows). map unat cs ! i < length (map fst (table st)) \<and>
        map fst (table st) ! (map unat cs ! i) = map (\<lambda>r. keys ! unat r) rows ! i"
      using spec by blast
    from this[rule_format, of q] that len show ?thesis by simp
  qed
  have "unat (foldl (\<lambda>l (r, g). l[unat r := g]) lg (zip rows cs) ! unat r) < length (table st) \<and>
      map fst (table st) ! unat (foldl (\<lambda>l (r, g). l[unat r := g]) lg (zip rows cs) ! unat r) = keys ! unat r"
    if r: "r \<in> set rows" for r
  proof -
    obtain q where q: "q < length rows" "rows ! q = r" using r by (auto simp: in_set_conv_nth)
    with scatter_at[OF assms(2) len q(1), of lg] assms(3) r nth[OF q(1)] show ?thesis by simp
  qed
  then show ?thesis
    unfolding c(1) using loop spec scatter_other[of _ rows lg cs] by (auto simp: e first_seen_def)
qed

lemma build_partitions_spec:
  "\<forall>rows \<in> set parts. length rows \<le> 2 ^ 32 \<and> distinct (map unat rows) \<and> (\<forall>r \<in> set rows. unat r < length lg) \<Longrightarrow>
     (\<forall>p < length parts. \<forall>q < length parts. p \<noteq> q \<longrightarrow> unat ` set (parts ! p) \<inter> unat ` set (parts ! q) = {}) \<Longrightarrow>
     \<exists>tables lg'. build_partitions keys parts lg = Some (tables, lg') \<and> length tables = length parts \<and> length lg' = length lg \<and>
       (\<forall>j. (\<forall>rows \<in> set parts. j \<notin> unat ` set rows) \<longrightarrow> lg' ! j = lg ! j) \<and>
       (\<forall>p < length parts. map fst (tables ! p) = first_seen (map (\<lambda>r. keys ! unat r) (parts ! p)) \<and>
         (\<forall>r \<in> set (parts ! p). unat (lg' ! unat r) < length (tables ! p) \<and>
            map fst (tables ! p) ! unat (lg' ! unat r) = keys ! unat r))"
proof (induction parts arbitrary: lg)
  case (Cons rows parts)
  obtain st lg1 where one: "partition_rows_loop keys (table_capacity (length rows)) (table_empty (table_capacity (length rows))) rows lg = Some (st, lg1)"
    "map fst (table st) = first_seen (map (\<lambda>r. keys ! unat r) rows)" "length lg1 = length lg"
    "\<forall>j. j \<notin> unat ` set rows \<longrightarrow> lg1 ! j = lg ! j"
    "\<forall>r \<in> set rows. unat (lg1 ! unat r) < length (table st) \<and> map fst (table st) ! unat (lg1 ! unat r) = keys ! unat r"
    using partition_spec[of rows lg keys] Cons.prems(1) by auto
  have pre1: "\<forall>rows \<in> set parts. length rows \<le> 2 ^ 32 \<and> distinct (map unat rows) \<and> (\<forall>r \<in> set rows. unat r < length lg1)"
    using Cons.prems(1) one(3) by simp
  have pre2: "\<forall>p < length parts. \<forall>q < length parts. p \<noteq> q \<longrightarrow> unat ` set (parts ! p) \<inter> unat ` set (parts ! q) = {}"
    using Cons.prems(2) by (metis Suc_less_eq Suc_inject length_Cons nth_Cons_Suc)
  obtain tables lg' where rest: "build_partitions keys parts lg1 = Some (tables, lg')" "length tables = length parts"
    "length lg' = length lg1" "\<forall>j. (\<forall>rows \<in> set parts. j \<notin> unat ` set rows) \<longrightarrow> lg' ! j = lg1 ! j"
    "\<forall>p < length parts. map fst (tables ! p) = first_seen (map (\<lambda>r. keys ! unat r) (parts ! p)) \<and>
         (\<forall>r \<in> set (parts ! p). unat (lg' ! unat r) < length (tables ! p) \<and>
            map fst (tables ! p) ! unat (lg' ! unat r) = keys ! unat r)"
    using Cons.IH[OF pre1 pre2] by blast
  have apart: "unat r \<notin> unat ` set rows'" if mem: "r \<in> set rows" "rows' \<in> set parts" for r rows'
  proof -
    obtain q where "q < length parts" "rows' = parts ! q" using mem(2) by (metis in_set_conv_nth)
    then have "unat ` set rows \<inter> unat ` set rows' = {}"
      using Cons.prems(2)[rule_format, of 0 "Suc q"] by simp
    with mem(1) show ?thesis by blast
  qed
  have head: "\<forall>r \<in> set rows. lg' ! unat r = lg1 ! unat r" using rest(4) apart by blast
  have bp: "build_partitions keys (rows # parts) lg = Some (table st # tables, lg')"
    using one(1) rest(1) by (simp add: Let_def)
  have nth: "map fst ((table st # tables) ! p) = first_seen (map (\<lambda>r. keys ! unat r) ((rows # parts) ! p)) \<and>
         (\<forall>r \<in> set ((rows # parts) ! p). unat (lg' ! unat r) < length ((table st # tables) ! p) \<and>
            map fst ((table st # tables) ! p) ! unat (lg' ! unat r) = keys ! unat r)" if "p < length (rows # parts)" for p
  proof (cases p)
    case 0
    then show ?thesis using one(2,5) head by simp
  next
    case (Suc p')
    then have "p' < length parts" using that by simp
    then show ?thesis using rest(5) unfolding Suc nth_Cons_Suc by blast
  qed
  have len: "length (table st # tables) = length (rows # parts)" "length lg' = length lg"
    using rest(2,3) one(3) by simp_all
  have other: "\<forall>j. (\<forall>rows' \<in> set (rows # parts). j \<notin> unat ` set rows') \<longrightarrow> lg' ! j = lg ! j"
    using rest(4) one(4) by simp
  show ?case
    using bp nth len other by (intro exI[of _ "table st # tables"] exI[of _ lg'] conjI allI impI) blast+
qed simp

lemma rows_of_mem: "r \<in> set (rows_of keys np p) \<longleftrightarrow> r < length keys \<and> unat (partition_id (keys ! r) np) = p"
  by (auto simp: rows_of_def)

lemma sum_rows_of:
  "\<forall>k. unat (partition_id k np) < P \<Longrightarrow> sum_list (map (\<lambda>p. length (rows_of keys np p)) [0..<P]) = length keys"
proof -
  assume b: "\<forall>k. unat (partition_id k np) < P"
  have "(\<Sum>p \<in> {..<P}. length (filter (\<lambda>i. f i = p) [0..<n])) = n" if "\<forall>i. f i < P" for f :: "nat \<Rightarrow> nat" and n
  proof (induction n)
    case (Suc n)
    have "(\<Sum>p \<in> {..<P}. length (filter (\<lambda>i. f i = p) [0..<Suc n]))
        = (\<Sum>p \<in> {..<P}. length (filter (\<lambda>i. f i = p) [0..<n]) + (if f n = p then 1 else 0))"
      by (intro sum.cong) simp_all
    also have "\<dots> = n + 1" using Suc that by (simp add: sum.distrib sum.delta)
    finally show ?case by simp
  qed simp
  from this[of "\<lambda>i. unat (partition_id (keys ! i) np)" "length keys"] b show ?thesis
    by (simp add: rows_of_def interv_sum_list_conv_sum_set_nat atLeast0LessThan)
qed

lemma cpu_partitioned_hash_grouping:
  assumes np: "is_power_of_two (unat np)" and len: "length keys < 2 ^ 32"
  shows "\<exists>b. cpu_partitioned_hash keys np = Some b \<and> grouping keys b \<and> first_rows_minimal b"
proof (cases "keys = []")
  case True
  then show ?thesis
    by (simp add: cpu_partitioned_hash_def empty_build_def grouping_def first_rows_minimal_def)
next
  case False
  let ?P = "unat np" and ?pid = "\<lambda>i. unat (partition_id (keys ! i) np)"
  let ?parts = "map (\<lambda>p. map of_nat (rows_of keys np p)) [0..<?P] :: u32 list list"
  have un: "unat (of_nat r :: u32) = r" if "r < length keys" for r
    using that len by (simp add: unat_of_nat)
  have unmap: "map unat (map of_nat (rows_of keys np p) :: u32 list) = rows_of keys np p" for p
    unfolding map_map by (rule map_idI) (simp add: rows_of_mem un)
  have unset: "unat ` set (map of_nat (rows_of keys np p) :: u32 list) = set (rows_of keys np p)" for p
    using unmap[of p] by (metis set_map)
  have pre1: "\<forall>rows \<in> set ?parts. length rows \<le> 2 ^ 32 \<and> distinct (map unat rows) \<and>
      (\<forall>r \<in> set rows. unat r < length (replicate (length keys) (0::u32)))"
  proof
    fix rows assume "rows \<in> set ?parts"
    then obtain p where p: "rows = map of_nat (rows_of keys np p)" by auto
    have "length (rows_of keys np p) \<le> length keys"
      unfolding rows_of_def by (metis diff_zero length_filter_le length_upt)
    moreover have "distinct (rows_of keys np p)" by (simp add: rows_of_def)
    ultimately show "length rows \<le> 2 ^ 32 \<and> distinct (map unat rows) \<and>
        (\<forall>r \<in> set rows. unat r < length (replicate (length keys) (0::u32)))"
      using len unmap[of p] unset[of p] rows_of_mem[of _ keys np p] unfolding p by auto
  qed
  have pre2: "\<forall>p < length ?parts. \<forall>q < length ?parts. p \<noteq> q \<longrightarrow> unat ` set (?parts ! p) \<inter> unat ` set (?parts ! q) = {}"
    using unset rows_of_mem by (auto simp: disjoint_iff)
  obtain tables lg where bp: "build_partitions keys ?parts (replicate (length keys) 0) = Some (tables, lg)"
    and lt0: "length tables = length ?parts" and ll0: "length lg = length (replicate (length keys) (0::u32))"
    and all: "\<forall>p < length ?parts. map fst (tables ! p) = first_seen (map (\<lambda>r. keys ! unat r) (?parts ! p)) \<and>
         (\<forall>r \<in> set (?parts ! p). unat (lg ! unat r) < length (tables ! p) \<and>
            map fst (tables ! p) ! unat (lg ! unat r) = keys ! unat r)"
    using build_partitions_spec[OF pre1 pre2, of keys] by blast
  have lt: "length tables = ?P" and ll: "length lg = length keys" using lt0 ll0 by simp_all
  have np': "length ?parts = ?P" by simp
  have tabs: "map fst (tables ! p) = first_seen (map (\<lambda>r. keys ! unat r) (?parts ! p))" if "p < ?P" for p
    using all that unfolding np' by blast
  have locs: "unat (lg ! unat r) < length (tables ! p) \<and> map fst (tables ! p) ! unat (lg ! unat r) = keys ! unat r"
    if "p < ?P" "r \<in> set (?parts ! p)" for p r
    using all that unfolding np' by blast
  have pk: "map (\<lambda>r. keys ! unat r) (?parts ! p) = map ((!) keys) (rows_of keys np p)" if "p < ?P" for p
    using that by (simp add: rows_of_mem un)
  have dist: "distinct (map fst (tables ! p))" if "p < ?P" for p
    using tabs[OF that] by simp
  have lenT: "length (tables ! p) \<le> length (rows_of keys np p)" if "p < ?P" for p
    using tabs[OF that] length_first_seen[of "map ((!) keys) (rows_of keys np p)"] pk[OF that] by (metis length_map)
  have pid: "?pid i < ?P" for i by (rule partition_id_less[OF np])
  have loc: "unat (lg ! i) < length (tables ! ?pid i) \<and> map fst (tables ! ?pid i) ! unat (lg ! i) = keys ! i" if i: "i < length keys" for i
  proof -
    have "of_nat i \<in> set (?parts ! ?pid i)" using i pid[of i] by (simp add: rows_of_mem)
    from locs[OF pid this] un[OF i] show ?thesis by simp
  qed
  let ?ng = "map (\<lambda>t. of_nat (length t)) tables :: u32 list"
  let ?pls = "zip (map (\<lambda>k. partition_id k np) keys) lg"
  have tot: "sum_list (map (\<lambda>p. length (tables ! p)) [0..<?P]) \<le> length keys"
    using sum_list_mono[of "[0..<?P]" "\<lambda>p. length (tables ! p)" "\<lambda>p. length (rows_of keys np p)"] lenT
      sum_rows_of[of np ?P keys] partition_id_less[OF np] by simp
  have ngp: "unat (?ng ! p) = length (tables ! p)" if "p < ?P" for p
  proof -
    have "length (rows_of keys np p) \<le> length keys"
      unfolding rows_of_def by (metis diff_zero length_filter_le length_upt)
    then show ?thesis using lenT[OF that] len that lt by (simp add: unat_of_nat)
  qed
  have sum: "sum_list (map unat ?ng) < 2 ^ 32"
  proof -
    have "map unat ?ng = map (\<lambda>p. length (tables ! p)) [0..<?P]"
      by (rule list_eq_by_nth) (use ngp lt in auto)
    then show ?thesis using tot len by simp
  qed
  have "\<exists>b. finalize_build ?ng ?pls = Some b \<and> grouping keys b \<and> first_rows_minimal b"
  proof (rule finalize_build_grouping)
    show "length ?pls = length keys" "length keys < 2 ^ 32" using ll len by simp_all
    show "\<forall>i < length keys. unat (fst (?pls ! i)) < length ?ng \<and> unat (snd (?pls ! i)) < unat (?ng ! unat (fst (?pls ! i)))"
      using loc pid ngp ll lt by simp
    show "\<forall>i < length keys. \<forall>j < length keys. ?pls ! i = ?pls ! j \<longleftrightarrow> keys ! i = keys ! j"
    proof (intro allI impI)
      fix i j assume ij: "i < length keys" "j < length keys"
      have n: "?pls ! i = (partition_id (keys ! i) np, lg ! i)" "?pls ! j = (partition_id (keys ! j) np, lg ! j)"
        using ij ll by simp_all
      show "?pls ! i = ?pls ! j \<longleftrightarrow> keys ! i = keys ! j"
      proof
        assume "?pls ! i = ?pls ! j"
        then show "keys ! i = keys ! j" using loc[OF ij(1)] loc[OF ij(2)] n by (metis Pair_inject)
      next
        assume k: "keys ! i = keys ! j"
        have "unat (lg ! i) = unat (lg ! j)"
          using loc[OF ij(1)] loc[OF ij(2)] k dist[OF pid[of i]]
          by (metis distinct_conv_nth length_map)
        with n k show "?pls ! i = ?pls ! j" by (simp add: word_unat_eq_iff)
      qed
    qed
    show "\<forall>p < length ?ng. \<forall>l < unat (?ng ! p). \<exists>i < length keys. unat (fst (?pls ! i)) = p \<and> unat (snd (?pls ! i)) = l"
    proof (intro allI impI)
      fix p l assume p: "p < length ?ng" and l: "l < unat (?ng ! p)"
      then have p': "p < ?P" and l': "l < length (map fst (tables ! p))" using lt ngp by simp_all
      have "map fst (tables ! p) ! l \<in> set (map fst (tables ! p))" using l' by (rule nth_mem)
      then have "map fst (tables ! p) ! l \<in> set (map ((!) keys) (rows_of keys np p))"
        unfolding tabs[OF p'] pk[OF p'] set_first_seen .
      then obtain i where i: "i \<in> set (rows_of keys np p)" "map fst (tables ! p) ! l = keys ! i" by auto
      then have i': "i < length keys" "?pid i = p" by (simp_all add: rows_of_mem)
      have "unat (lg ! i) = l"
        using loc[OF i'(1)] i' i(2) l' dist[OF p'] by (metis distinct_conv_nth length_map)
      with i' ll show "\<exists>i < length keys. unat (fst (?pls ! i)) = p \<and> unat (snd (?pls ! i)) = l"
        by (intro exI[of _ i]) simp
    qed
  qed (rule sum)
  then show ?thesis
    using False np bp by (simp add: cpu_partitioned_hash_def Let_def push_rows_spec[OF np])
qed

definition partitioned_build :: "u32 \<Rightarrow> u128 list \<Rightarrow> build_output" where
  "partitioned_build np keys = (case cpu_partitioned_hash keys np of None \<Rightarrow> empty_build | Some b \<Rightarrow> b)"

interpretation phb: first_row_builder "partitioned_build np"
  "\<lambda>keys. length keys < 2 ^ 32 \<and> is_power_of_two (unat np)" for np
proof (standard, goal_cases)
  case (1 keys)
  then show ?case using cpu_partitioned_hash_grouping[of np keys] by (auto simp: partitioned_build_def)
next
  case (2 keys)
  then show ?case using cpu_partitioned_hash_grouping[of np keys] by (auto simp: partitioned_build_def)
qed

section \<open>Properties\<close>

text \<open>C22. The open-addressed table of a partition never probes forever: as long as it holds fewer keys
  than slots, the probe loop returns for every key, at a free slot or at the slot of that key.\<close>

theorem probe_terminates:
  assumes "table_inv c st" and "length (table st) < 2 ^ c" and "i < 2 ^ c"
  shows "\<exists>idx. probe (2 ^ c) (slots st) k i = Some idx \<and> idx < 2 ^ c \<and>
    (case slots st ! idx of None \<Rightarrow> True | Some (k', g) \<Rightarrow> k' = k)"
proof -
  obtain s where s: "slots st ! s = None" "s < 2 ^ c"
    using table_free_slot[OF assms(1,2)] pos_less by blast
  obtain m where "pos c i m = s" using pos_reaches[OF assms(3) s(2)] by blast
  then have "hit (slots st) k (pos c i m)" using s(1) by (simp add: hit_def)
  then obtain j where "probe (2 ^ c) (slots st) k i = Some (pos c i j)" "hit (slots st) k (pos c i j)"
    using probe_reach[OF assms(3)] by blast
  then show ?thesis using pos_less[of c i j] unfolding hit_def by blast
qed

lemma probe_terminates_witness: "\<exists>idx. probe (2 ^ 3) (slots (table_empty 8)) 5 7 = Some idx \<and> idx < 2 ^ 3"
proof -
  have "table_inv 3 (table_empty 8)" using table_empty_inv[of 3] by simp
  moreover have "length (table (table_empty 8)) < 2 ^ 3" "7 < (2::nat) ^ 3" by (simp_all add: table_empty_def)
  ultimately show ?thesis using probe_terminates[of 3 "table_empty 8" 7 5] by blast
qed

text \<open>C21. The host side of the partitioned build is correct for any local numbering: if rows of equal keys share
  their partition, within each partition the local ids are dense and distinguish the keys, and the groups are
  fewer than 2^32, then the offset sums are the ids of
  the build contract, first rows are minimal, and no index is out of range.\<close>

theorem finalize_build_correct:
  fixes keys :: "'k list"
  assumes "length pls = length keys" and "length keys < 2 ^ 32"
    and "\<forall>i < length keys. unat (fst (pls ! i)) < length ng \<and> unat (snd (pls ! i)) < unat (ng ! unat (fst (pls ! i)))"
    and "\<forall>i < length keys. \<forall>j < length keys. pls ! i = pls ! j \<longleftrightarrow> keys ! i = keys ! j"
    and "\<forall>p < length ng. \<forall>l < unat (ng ! p). \<exists>i < length keys. unat (fst (pls ! i)) = p \<and> unat (snd (pls ! i)) = l"
    and "sum_list (map unat ng) < 2 ^ 32"
  shows "\<exists>b. finalize_build ng pls = Some b \<and> grouping keys b \<and> first_rows_minimal b"
  by (rule finalize_build_grouping[OF assms])

lemma finalize_build_correct_witness:
  "\<exists>b. finalize_build [1, 1] [(1, 0), (0, 0), (1, 0)] = Some b \<and> grouping ''aba'' b \<and> first_rows_minimal b"
proof (rule finalize_build_correct)
  have three: "(\<forall>i < length ''aba''. P i) \<longleftrightarrow> P 0 \<and> P 1 \<and> P 2" "(\<exists>i < length ''aba''. P i) \<longleftrightarrow> P 0 \<or> P 1 \<or> P 2" for P
    by (auto simp: less_Suc_eq numeral_2_eq_2)
  let ?pls = "[(1, 0), (0, 0), (1, 0)] :: (u32 \<times> u32) list"
  show "\<forall>i < length ''aba''. unat (fst (?pls ! i)) < length [1, 1::u32] \<and> unat (snd (?pls ! i)) < unat ([1, 1::u32] ! unat (fst (?pls ! i)))"
    unfolding three by simp
  show "\<forall>i < length ''aba''. \<forall>j < length ''aba''. ?pls ! i = ?pls ! j \<longleftrightarrow> ''aba'' ! i = ''aba'' ! j"
    unfolding three by simp
  show "\<forall>p < length [1, 1::u32]. \<forall>l < unat ([1, 1::u32] ! p). \<exists>i < length ''aba''. unat (fst (?pls ! i)) = p \<and> unat (snd (?pls ! i)) = l"
    unfolding three by (simp add: less_Suc_eq)
qed simp_all

text \<open>C18. The partitioned build never panics on a power-of-two partition count and computes the same
  groups as the hash-map build, up to their numbering, with first rows as representatives.\<close>

theorem partitioned_equals_hashmap:
  assumes "is_power_of_two (unat np)" and "length keys < 2 ^ 32"
  shows "\<exists>b. cpu_partitioned_hash keys np = Some b \<and> grouping keys b \<and> first_rows_minimal b \<and>
    n_groups b = n_groups (cpu_hashmap_build keys) \<and>
    (\<forall>i < length keys. \<forall>j < length keys. row_to_group b ! i = row_to_group b ! j \<longleftrightarrow>
       row_to_group (cpu_hashmap_build keys) ! i = row_to_group (cpu_hashmap_build keys) ! j)"
proof -
  obtain b where b: "cpu_partitioned_hash keys np = Some b" "grouping keys b" "first_rows_minimal b"
    using cpu_partitioned_hash_grouping[OF assms] by blast
  have "n_groups b = n_groups (cpu_hashmap_build keys)"
    using grouping_count[OF b(2)] hmb.groups_are_keys(3)[OF assms(2)] by (simp add: word_unat_eq_iff)
  with b hmb.same_groups[OF assms(2) b(2)] show ?thesis by blast
qed

lemma partitioned_equals_hashmap_witness:
  "\<exists>b. cpu_partitioned_hash [9, 4, 9] 4 = Some b \<and> grouping [9, 4, 9 :: u128] b"
proof -
  have "is_power_of_two (unat (4::u32))" by (simp add: is_power_of_two_def)
  moreover have "length [9, 4, 9 :: u128] < 2 ^ 32" by simp
  ultimately show ?thesis using partitioned_equals_hashmap[of 4 "[9, 4, 9]"] by blast
qed

end
