(* ===== verification/Radix.thy ===== *)
theory Radix
  imports Build
begin

text \<open>
  The sort build: the radix sort and segmentation of \<open>groupby_build_sort/gpu.rs\<close>, with the kernels
  of \<open>shaders/groupby_sort_u128_lane.metal\<close> and \<open>shaders/groupby_segments.metal\<close> they dispatch, and
  the CPU reference \<open>groupby_build_sort/reference.rs\<close>. A pass moves each row to the sum of three
  counts (smaller digits, same digit in earlier tiles, same digit earlier in the tile); it is shown
  to be a stable sort by the digit, and sixteen passes to be a stable sort by the key.
\<close>

section \<open>The lane kernels\<close>

definition tile_size :: nat where
  "tile_size = 256"

definition simd_width :: nat where
  "simd_width = 32"

definition extract_digit :: "u64 \<Rightarrow> u64 \<Rightarrow> nat \<Rightarrow> nat" where
  "extract_digit key_lo key_hi lane_idx =
     (if lane_idx < 8 then unat (drop_bit (lane_idx * 8) key_lo AND 0xFF)
      else unat (drop_bit ((lane_idx - 8) * 8) key_hi AND 0xFF))"

text \<open>The digit of a row: the host splits the key into halves, the kernel picks the byte.\<close>

definition lane_digit :: "nat \<Rightarrow> u128 \<times> u32 \<Rightarrow> nat" where
  "lane_digit lane row = extract_digit (ucast (fst row)) (ucast (drop_bit 64 (fst row))) lane"

text \<open>\<open>lane_tile_hist\<close>: the threads of a tile add one for their digit; additions commute.\<close>

definition tile_hist :: "nat list \<Rightarrow> nat \<Rightarrow> nat \<Rightarrow> nat" where
  "tile_hist ds t d = length (filter (\<lambda>gid. gid < length ds \<and> ds ! gid = d) [t * tile_size..<(t + 1) * tile_size])"

text \<open>The rank of a thread among the earlier lanes of its simdgroup with its digit.\<close>

definition simd_rank :: "nat list \<Rightarrow> nat \<Rightarrow> nat" where
  "simd_rank ds gid =
     (let base = gid div simd_width * simd_width in
      length (filter (\<lambda>k. base + k < length ds \<and> ds ! (base + k) = ds ! gid \<and> k < gid mod simd_width) [0..<simd_width]))"

text \<open>The count a simdgroup publishes for a digit: that of its first active thread with the digit.\<close>

definition simd_digit_count :: "nat list \<Rightarrow> nat \<Rightarrow> nat \<Rightarrow> nat" where
  "simd_digit_count ds base d =
     length (filter (\<lambda>k. base + k < length ds \<and> ds ! (base + k) = d) [0..<simd_width])"

definition cross_rank :: "nat list \<Rightarrow> nat \<Rightarrow> nat" where
  "cross_rank ds gid =
     (let tile_base = gid div tile_size * tile_size; simd_id = gid mod tile_size div simd_width in
      sum_list (map (\<lambda>s. simd_digit_count ds (tile_base + s * simd_width) (ds ! gid)) [0..<simd_id]))"

section \<open>gpu.rs: the pass\<close>

text \<open>The host's scans of the tile histograms.\<close>

definition tile_prefix :: "nat list \<Rightarrow> nat \<Rightarrow> nat \<Rightarrow> nat" where
  "tile_prefix ds t d = sum_list (map (\<lambda>u. tile_hist ds u d) [0..<t])"

definition bucket_total :: "nat list \<Rightarrow> nat \<Rightarrow> nat" where
  "bucket_total ds d = sum_list (map (\<lambda>t. tile_hist ds t d) [0..<div_ceil (length ds) tile_size])"

fun global_offset :: "nat list \<Rightarrow> nat \<Rightarrow> nat" where
  "global_offset ds 0 = 0"
| "global_offset ds (Suc d) = global_offset ds d + bucket_total ds d"

definition lane_pos :: "nat list \<Rightarrow> nat \<Rightarrow> nat" where
  "lane_pos ds gid =
     global_offset ds (ds ! gid) + tile_prefix ds (gid div tile_size) (ds ! gid) + (cross_rank ds gid + simd_rank ds gid)"

text \<open>The scatter into the zeroed output buffers, thread after thread.\<close>

definition lane_scatter :: "nat \<Rightarrow> (u128 \<times> u32) list \<Rightarrow> nat list \<Rightarrow> (u128 \<times> u32) list" where
  "lane_scatter lane rows sched =
     foldl (\<lambda>out gid. out[lane_pos (map (lane_digit lane) rows) gid := rows ! gid]) (replicate (length rows) (0, 0)) sched"

text \<open>\<open>sched lane\<close> is the order in which the scatter's threads happen to write.\<close>

definition run_radix_lane :: "(nat \<Rightarrow> nat list) \<Rightarrow> nat \<Rightarrow> (u128 \<times> u32) list \<Rightarrow> (u128 \<times> u32) list" where
  "run_radix_lane sched lane rows = (if rows = [] then [] else lane_scatter lane rows (sched lane))"

definition radix_passes :: "(nat \<Rightarrow> nat list) \<Rightarrow> u128 list \<Rightarrow> (u128 \<times> u32) list" where
  "radix_passes sched keys =
     (if keys = [] then []
      else foldl (\<lambda>rows lane. run_radix_lane sched lane rows) (zip keys (map of_nat [0..<length keys])) [0..<16])"

text \<open>\<open>sort_u128\<close>: the row count must fit the kernel's 32-bit argument, so the counters of a pass, which
  never exceed it, do not wrap. Failures of the device itself are not modelled.\<close>

datatype sort_error = RowOverflow

definition sort_u128 :: "(nat \<Rightarrow> nat list) \<Rightarrow> u128 list \<Rightarrow> sort_error + (u128 \<times> u32) list" where
  "sort_u128 sched keys =
     (if keys = [] then Inr []
      else if length keys > u32_max then Inl RowOverflow
      else Inr (radix_passes sched keys))"

section \<open>The kernel and host of the segmentation\<close>

text \<open>The buffer of start bits: one bit per row, padded to whole 32-bit words. In \<open>segment_starts\<close> each thread whose
  row starts a segment ors its bit into its word; the host reads the buffer as bytes, in the little-endian
  order of the machine.\<close>

definition is_start :: "u128 list \<Rightarrow> nat \<Rightarrow> bool" where
  "is_start sorted_keys gid \<longleftrightarrow> gid = 0 \<or> sorted_keys ! gid \<noteq> sorted_keys ! (gid - 1)"

definition starts_size_bytes :: "nat \<Rightarrow> nat" where
  "starts_size_bytes n_rows = max 4 (4 * div_ceil ((n_rows + 7) div 8) 4)"

definition segment_starts :: "u128 list \<Rightarrow> nat list \<Rightarrow> u32 list" where
  "segment_starts sorted_keys sched =
     foldl (\<lambda>starts gid. if is_start sorted_keys gid
         then starts[gid div 32 := starts ! (gid div 32) OR push_bit (gid mod 32) 1] else starts)
       (replicate (starts_size_bytes (length sorted_keys) div 4) 0) sched"

definition word_bytes :: "u32 \<Rightarrow> 8 word list" where
  "word_bytes w = map (\<lambda>j. ucast (drop_bit (8 * j) w)) [0..<4]"

definition slice_of_words :: "u32 list \<Rightarrow> 8 word list" where
  "slice_of_words ws = concat (map word_bytes ws)"

text \<open>The loop of the host; \<open>None\<close> is a panic.\<close>

fun segment_scan :: "8 word list \<Rightarrow> nat \<Rightarrow> u32 list \<Rightarrow> u32 \<Rightarrow> u32 list \<Rightarrow> u32 list \<Rightarrow> (u32 list \<times> u32 list \<times> u32) option" where
  "segment_scan starts i [] cur r2g first = Some (r2g, first, cur)"
| "segment_scan starts i (idx # rest) cur r2g first =
     (if i div 8 < length starts \<and> unat idx < length r2g then
        (let starts_here = drop_bit (i mod 8) (starts ! (i div 8)) AND 1 = 1;
             cur' = (if i > 0 \<and> starts_here then cur + 1 else cur);
             first' = (if i = 0 \<or> starts_here then first @ [idx] else first)
         in segment_scan starts (Suc i) rest cur' (r2g[unat idx := cur']) first')
      else None)"

text \<open>The sixteen passes and the segmentation kernel are launches 0 to 16.\<close>

definition segment_build :: "(nat \<Rightarrow> nat list) \<Rightarrow> u128 list \<Rightarrow> build_output option" where
  "segment_build sched keys =
     (if keys = [] then Some empty_build
      else let rows = radix_passes sched keys;
               starts = slice_of_words (segment_starts (map fst rows) (sched 16))
           in map_option (\<lambda>(r2g, first, cur). \<lparr>row_to_group = r2g, first_row_per_group = first, n_groups = cur + 1\<rparr>)
                (segment_scan starts 0 (map snd rows) 0 (replicate (length keys) 0) []))"

definition sort_and_segment :: "(nat \<Rightarrow> nat list) \<Rightarrow> u128 list \<Rightarrow> (sort_error + build_output) option" where
  "sort_and_segment sched keys =
     (if keys = [] then Some (Inr empty_build)
      else if length keys > u32_max then Some (Inl RowOverflow)
      else map_option Inr (segment_build sched keys))"

section \<open>reference.rs\<close>

text \<open>\<open>srt\<close> is the standard library's unstable sort by key: any sorted permutation.\<close>

fun segment_loop :: "u128 \<Rightarrow> (u128 \<times> u32) list \<Rightarrow> u32 \<Rightarrow> u32 list \<Rightarrow> u32 list \<Rightarrow> u32 list \<times> u32 list \<times> u32" where
  "segment_loop prev [] cur r2g first = (r2g, first, cur)"
| "segment_loop prev ((k, r) # rest) cur r2g first =
     (let cur' = (if k \<noteq> prev then cur + 1 else cur);
          first' = (if k \<noteq> prev then first @ [r] else first)
      in segment_loop k rest cur' (r2g[unat r := cur']) first')"

definition cpu_sort_segment :: "((u128 \<times> u32) list \<Rightarrow> (u128 \<times> u32) list) \<Rightarrow> u128 list \<Rightarrow> build_output" where
  "cpu_sort_segment srt keys =
     (if keys = [] then empty_build
      else case srt (zip keys (map of_nat [0..<length keys])) of
          [] \<Rightarrow> empty_build
        | (k, r) # rest \<Rightarrow>
            let (r2g, first, cur) = segment_loop k rest 0 ((replicate (length keys) 0)[unat r := 0]) [r]
            in \<lparr>row_to_group = r2g, first_row_per_group = first, n_groups = cur + 1\<rparr>)"

section \<open>A pass is a stable counting sort\<close>

definition count_below :: "nat list \<Rightarrow> nat \<Rightarrow> nat \<Rightarrow> nat" where
  "count_below ds n d = length (filter (\<lambda>j. ds ! j = d) [0..<n])"

lemma length_filter_shift:
  "length (filter (\<lambda>k. P (b + k)) [0..<n]) = length (filter P [b..<b + n])"
  by (simp add: length_filter_upt_shift)

lemma length_filter_split:
  "a \<le> b \<Longrightarrow> b \<le> c \<Longrightarrow> length (filter P [a..<c]) = length (filter P [a..<b]) + length (filter P [b..<c])"
  by (metis filter_append le_Suc_ex length_append upt_add_eq_append)

lemma length_filter_bound:
  "length (filter (\<lambda>j. j < n \<and> P j) [a..<b]) = length (filter P [a..<min b (max a n)])"
proof (cases "a \<le> min b (max a n)")
  case True
  have "length (filter (\<lambda>j. j < n \<and> P j) [a..<b]) =
      length (filter (\<lambda>j. j < n \<and> P j) [a..<min b (max a n)]) + length (filter (\<lambda>j. j < n \<and> P j) [min b (max a n)..<b])"
    by (rule length_filter_split[OF True]) simp
  moreover have "filter (\<lambda>j. j < n \<and> P j) [min b (max a n)..<b] = []"
    by (auto simp: filter_empty_conv)
  moreover have "filter (\<lambda>j. j < n \<and> P j) [a..<min b (max a n)] = filter P [a..<min b (max a n)]"
    by (rule filter_cong) auto
  ultimately show ?thesis by simp
next
  case False
  then have "b < a" by auto
  then show ?thesis by simp
qed

lemma sum_list_blocks:
  "sum_list (map (\<lambda>u. length (filter P [b + u * w..<b + (u + 1) * w])) [0..<t]) = length (filter P [b..<b + t * w])"
proof (induction t)
  case (Suc t)
  have "length (filter P [b..<b + Suc t * w]) = length (filter P [b..<b + t * w]) + length (filter P [b + t * w..<b + Suc t * w])"
    by (rule length_filter_split) simp_all
  moreover have "Suc t * w = (t + 1) * w" by simp
  ultimately show ?case using Suc by (simp only: upt_Suc_append[OF zero_le] map_append sum_list_append list.map sum_list.Cons sum_list.Nil add_0_right)
qed simp

text \<open>Counting over an index range, with the indices past the end of the list ignored.\<close>

definition digit_count :: "nat list \<Rightarrow> nat \<Rightarrow> nat \<Rightarrow> nat \<Rightarrow> nat" where
  "digit_count ds d a b = length (filter (\<lambda>j. j < length ds \<and> ds ! j = d) [a..<b])"

lemma digit_count_split: "a \<le> b \<Longrightarrow> b \<le> c \<Longrightarrow> digit_count ds d a c = digit_count ds d a b + digit_count ds d b c"
  unfolding digit_count_def by (rule length_filter_split)

lemma digit_count_blocks: "sum_list (map (\<lambda>u. digit_count ds d (b + u * w) (b + (u + 1) * w)) [0..<t]) = digit_count ds d b (b + t * w)"
  unfolding digit_count_def by (rule sum_list_blocks)

lemma digit_count_all: "length ds \<le> b \<Longrightarrow> digit_count ds d 0 b = digit_count ds d 0 (length ds)"
  by (simp add: digit_count_def length_filter_bound[where P = "\<lambda>j. ds ! j = d"] min_def)

lemma tile_hist_count: "tile_hist ds t d = digit_count ds d (t * tile_size) ((t + 1) * tile_size)"
  by (simp add: tile_hist_def digit_count_def)

lemma tile_prefix_count: "tile_prefix ds t d = digit_count ds d 0 (t * tile_size)"
  using digit_count_blocks[of ds d 0 tile_size t] by (simp add: tile_prefix_def tile_hist_count)

lemma bucket_total_count: "bucket_total ds d = digit_count ds d 0 (length ds)"
proof -
  have "bucket_total ds d = digit_count ds d 0 (div_ceil (length ds) tile_size * tile_size)"
    using digit_count_blocks[of ds d 0 tile_size] by (simp add: bucket_total_def tile_hist_count)
  moreover have "length ds \<le> div_ceil (length ds) tile_size * tile_size"
    unfolding div_ceil_def tile_size_def by linarith
  ultimately show ?thesis using digit_count_all by metis
qed

lemma simd_rank_count:
  assumes "gid < length ds"
  shows "simd_rank ds gid = digit_count ds (ds ! gid) (gid div simd_width * simd_width) gid"
proof -
  let ?b = "gid div simd_width * simd_width" and ?m = "gid mod simd_width"
  have g: "gid = ?b + ?m" by simp
  have m: "?m \<le> simd_width" by (simp add: simd_width_def)
  have "simd_rank ds gid = length (filter (\<lambda>k. k < ?m \<and> (?b + k < length ds \<and> ds ! (?b + k) = ds ! gid)) [0..<simd_width])"
    unfolding simd_rank_def Let_def by (intro arg_cong[of _ _ length] filter_cong) auto
  also have "\<dots> = length (filter (\<lambda>k. ?b + k < length ds \<and> ds ! (?b + k) = ds ! gid) [0..<?m])"
    using m by (simp only: length_filter_bound) (simp add: min_def)
  also have "\<dots> = length (filter (\<lambda>j. j < length ds \<and> ds ! j = ds ! gid) [?b..<?b + ?m])"
    by (rule length_filter_shift)
  finally show ?thesis by (simp add: digit_count_def)
qed

lemma simd_digit_count_range: "simd_digit_count ds base d = digit_count ds d base (base + simd_width)"
  unfolding simd_digit_count_def digit_count_def by (rule length_filter_shift)

lemma local_rank_count:
  assumes "gid < length ds"
  shows "cross_rank ds gid + simd_rank ds gid = digit_count ds (ds ! gid) (gid div tile_size * tile_size) gid"
proof -
  let ?t = "gid div tile_size * tile_size" and ?s = "gid mod tile_size div simd_width"
  have base: "gid div simd_width * simd_width = ?t + ?s * simd_width"
  proof -
    have "gid = 8 * (gid div 256) * 32 + gid mod 256" by simp
    then have "gid div 32 = 8 * (gid div 256) + gid mod 256 div 32"
      by (metis div_mult_self3 zero_neq_numeral)
    then show ?thesis by (simp add: tile_size_def simd_width_def add_mult_distrib)
  qed
  have "cross_rank ds gid = digit_count ds (ds ! gid) ?t (?t + ?s * simd_width)"
    using digit_count_blocks[of ds "ds ! gid" ?t simd_width ?s]
    by (simp add: cross_rank_def Let_def simd_digit_count_range add.assoc add.commute)
  moreover have "?t + ?s * simd_width \<le> gid" using base by (metis div_times_less_eq_dividend)
  ultimately show ?thesis
    using digit_count_split[of ?t "?t + ?s * simd_width" gid ds "ds ! gid"] simd_rank_count[OF assms] base by simp
qed

lemma global_offset_count: "global_offset ds d = length (filter (\<lambda>j. ds ! j < d) [0..<length ds])"
proof (induction d)
  case (Suc d)
  have "length (filter (\<lambda>j. ds ! j < Suc d) xs) = length (filter (\<lambda>j. ds ! j < d) xs) + length (filter (\<lambda>j. ds ! j = d) xs)" for xs
    by (induction xs) auto
  moreover have "digit_count ds d 0 (length ds) = length (filter (\<lambda>j. ds ! j = d) [0..<length ds])"
    unfolding digit_count_def by (intro arg_cong[of _ _ length] filter_cong) auto
  ultimately show ?case using Suc by (simp add: bucket_total_count)
qed simp

lemma lane_pos_count:
  assumes "gid < length ds"
  shows "lane_pos ds gid = length (filter (\<lambda>j. ds ! j < ds ! gid) [0..<length ds]) + count_below ds gid (ds ! gid)"
proof -
  let ?t = "gid div tile_size * tile_size"
  have "?t \<le> gid" by simp
  then have "digit_count ds (ds ! gid) 0 gid = digit_count ds (ds ! gid) 0 ?t + digit_count ds (ds ! gid) ?t gid"
    by (rule digit_count_split[OF zero_le])
  moreover have "digit_count ds (ds ! gid) 0 gid = count_below ds gid (ds ! gid)"
    unfolding digit_count_def count_below_def using assms by (intro arg_cong[of _ _ length] filter_cong) auto
  ultimately show ?thesis
    by (simp add: lane_pos_def global_offset_count tile_prefix_count local_rank_count[OF assms])
qed

text \<open>Concatenating the buckets in digit order is the stable sort, and a row's position is its place in it.\<close>

definition buckets :: "('a \<Rightarrow> nat) \<Rightarrow> 'a list \<Rightarrow> nat \<Rightarrow> 'a list" where
  "buckets f xs B = concat (map (\<lambda>d. filter (\<lambda>x. f x = d) xs) [0..<B])"

lemma buckets_Suc: "buckets f xs (Suc B) = buckets f xs B @ filter (\<lambda>x. f x = B) xs"
  by (simp add: buckets_def)

lemma set_buckets: "set (buckets f xs B) = {x \<in> set xs. f x < B}"
  by (induction B) (auto simp: buckets_Suc less_Suc_eq buckets_def)

lemma sorted_buckets: "sorted (map f (buckets f xs B))"
proof (induction B)
  case (Suc B)
  have "sorted (map f (filter (\<lambda>x. f x = B) xs))" by (induction xs) auto
  with Suc show ?case by (auto simp: buckets_Suc sorted_append set_buckets)
qed (simp add: buckets_def)

lemma filter_buckets: "filter (\<lambda>x. f x = d) (buckets f xs B) = (if d < B then filter (\<lambda>x. f x = d) xs else [])"
proof (induction B)
  case (Suc B)
  have "filter (\<lambda>x. f x = d) (filter (\<lambda>x. f x = B) xs) = (if d = B then filter (\<lambda>x. f x = B) xs else [])"
    by (auto simp: filter_empty_conv)
  with Suc show ?case by (auto simp: buckets_Suc less_Suc_eq)
qed (simp add: buckets_def)

lemma mset_buckets: "mset (buckets f xs B) = filter_mset (\<lambda>x. f x < B) (mset xs)"
proof (induction B)
  case (Suc B)
  have "filter_mset (\<lambda>x. f x < Suc B) M = filter_mset (\<lambda>x. f x < B) M + filter_mset (\<lambda>x. f x = B) M" for M
    by (induction M) auto
  with Suc show ?case by (simp add: buckets_Suc mset_filter)
qed (simp add: buckets_def)

lemma buckets_sort:
  assumes "\<forall>x \<in> set xs. f x < B"
  shows "buckets f xs B = sort_key f xs"
proof (rule properties_for_sort_key[symmetric])
  show "mset (buckets f xs B) = mset xs"
    unfolding mset_buckets using assms by (metis filter_mset_cong0 filter_mset_True set_mset_mset)
  show "filter (\<lambda>x. f k = f x) (buckets f xs B) = filter (\<lambda>x. f k = f x) xs" if "k \<in> set (buckets f xs B)" for k
    using filter_buckets[of f "f k" xs B] that set_buckets[of f xs B] by (simp add: eq_commute[of "f k"])
qed (rule sorted_buckets)

lemma length_buckets: "length (buckets f xs B) = length (filter (\<lambda>x. f x < B) xs)"
  by (metis mset_buckets mset_filter size_mset)

lemma nth_filter_pos:
  assumes "i < length xs" "P (xs ! i)"
  shows "filter P xs ! length (filter P (take i xs)) = xs ! i"
proof -
  have "xs = take i xs @ xs ! i # drop (Suc i) xs" using assms(1) by (simp add: id_take_nth_drop)
  then have "filter P xs = filter P (take i xs) @ xs ! i # filter P (drop (Suc i) xs)"
    using assms(2) by (metis filter.simps(2) filter_append)
  then show ?thesis by simp
qed

lemma nth_filter_len:
  assumes "i < length xs" "P (xs ! i)"
  shows "length (filter P (take i xs)) < length (filter P xs)"
proof -
  have "xs = take i xs @ xs ! i # drop (Suc i) xs" using assms(1) by (simp add: id_take_nth_drop)
  then have "filter P xs = filter P (take i xs) @ xs ! i # filter P (drop (Suc i) xs)"
    using assms(2) by (metis filter.simps(2) filter_append)
  then show ?thesis by simp
qed

lemma buckets_nth:
  assumes i: "i < length xs" and B: "f (xs ! i) < B"
  shows "buckets f xs B ! (length (filter (\<lambda>x. f x < f (xs ! i)) xs) + length (filter (\<lambda>x. f x = f (xs ! i)) (take i xs))) = xs ! i"
proof -
  let ?d = "f (xs ! i)"
  have split: "\<exists>ys. buckets f xs B' = buckets f xs (Suc d) @ ys" if "Suc d \<le> B'" for d B'
    using that
  proof (induction B')
    case (Suc B')
    show ?case
    proof (cases "Suc d = Suc B'")
      case False
      then obtain ys where "buckets f xs B' = buckets f xs (Suc d) @ ys" using Suc by auto
      then show ?thesis by (simp add: buckets_Suc[of f xs B'])
    qed simp
  qed simp
  obtain ys where ys: "buckets f xs B = buckets f xs (Suc ?d) @ ys" using split[of ?d B] B by auto
  let ?P = "\<lambda>x. f x = ?d"
  have lt: "length (filter ?P (take i xs)) < length (filter ?P xs)" by (rule nth_filter_len[OF i]) simp
  have "filter ?P xs ! length (filter ?P (take i xs)) = xs ! i" by (rule nth_filter_pos[OF i]) simp
  with lt show ?thesis
    unfolding ys buckets_Suc by (simp add: nth_append length_buckets)
qed

lemma filter_nth_upt: "n \<le> length xs \<Longrightarrow> length (filter (\<lambda>j. P (xs ! j)) [0..<n]) = length (filter P (take n xs))"
proof (induction n)
  case (Suc n)
  then show ?case by (simp add: take_Suc_conv_app_nth)
qed simp

lemma lane_digit_less: "lane_digit lane row < 256"
proof -
  have "unat (w AND 0xFF :: u64) < 256" for w
  proof -
    have "w AND 0xFF \<le> 0xFF" by (rule word_and_le1)
    then show ?thesis by (simp add: word_le_nat_alt)
  qed
  then show ?thesis by (simp add: lane_digit_def extract_digit_def)
qed

lemma lane_pos_sort:
  assumes "i < length rows"
  shows "sort_key (lane_digit lane) rows ! lane_pos (map (lane_digit lane) rows) i = rows ! i"
    "lane_pos (map (lane_digit lane) rows) i < length rows"
proof -
  let ?f = "lane_digit lane" and ?ds = "map (lane_digit lane) rows"
  have sort: "buckets ?f rows 256 = sort_key ?f rows" by (rule buckets_sort) (simp add: lane_digit_less)
  have lt: "length (filter (\<lambda>j. ?ds ! j < ?ds ! i) [0..<length ?ds]) = length (filter (\<lambda>x. ?f x < ?f (rows ! i)) rows)"
  proof -
    have "length (filter (\<lambda>j. ?ds ! j < ?ds ! i) [0..<length ?ds]) = length (filter (\<lambda>j. ?f (rows ! j) < ?f (rows ! i)) [0..<length rows])"
      using assms by (intro arg_cong[of _ _ length] filter_cong) auto
    then show ?thesis using filter_nth_upt[of "length rows" rows "\<lambda>x. ?f x < ?f (rows ! i)"] by simp
  qed
  have eq: "count_below ?ds i (?ds ! i) = length (filter (\<lambda>x. ?f x = ?f (rows ! i)) (take i rows))"
  proof -
    have "count_below ?ds i (?ds ! i) = length (filter (\<lambda>j. ?f (rows ! j) = ?f (rows ! i)) [0..<i])"
      unfolding count_below_def using assms by (intro arg_cong[of _ _ length] filter_cong) auto
    then show ?thesis using filter_nth_upt[of i rows "\<lambda>x. ?f x = ?f (rows ! i)"] assms by simp
  qed
  have pos: "lane_pos ?ds i = length (filter (\<lambda>x. ?f x < ?f (rows ! i)) rows) + length (filter (\<lambda>x. ?f x = ?f (rows ! i)) (take i rows))"
    using lane_pos_count[of i ?ds] assms lt eq by simp
  show "sort_key ?f rows ! lane_pos ?ds i = rows ! i"
    unfolding pos sort[symmetric] by (rule buckets_nth[OF assms]) (rule lane_digit_less)
  have "length (filter (\<lambda>x. g x < c) xs) + length (filter (\<lambda>x. g x = c) xs) \<le> length xs" for g :: "u128 \<times> u32 \<Rightarrow> nat" and c xs
    by (induction xs) auto
  note this[of ?f "?f (rows ! i)" rows]
  moreover have "length (filter (\<lambda>x. ?f x = ?f (rows ! i)) (take i rows)) < length (filter (\<lambda>x. ?f x = ?f (rows ! i)) rows)"
    by (rule nth_filter_len[OF assms]) simp
  ultimately show "lane_pos ?ds i < length rows" unfolding pos by linarith
qed

lemma lane_pos_inj:
  assumes "i < length rows" "j < length rows" "lane_pos (map (lane_digit lane) rows) i = lane_pos (map (lane_digit lane) rows) j"
  shows "i = j"
proof -
  let ?ds = "map (lane_digit lane) rows"
  have row: "rows ! i = rows ! j"
    using lane_pos_sort(1)[OF assms(1), of lane] lane_pos_sort(1)[OF assms(2), of lane] assms(3) by metis
  then have d: "?ds ! i = ?ds ! j" using assms(1,2) by simp
  have c: "count_below ?ds i (?ds ! i) = count_below ?ds j (?ds ! i)"
    using lane_pos_count[of i ?ds] lane_pos_count[of j ?ds] assms d by simp
  have less: "count_below ds k (ds ! k) < count_below ds l (ds ! k)" if "k < l" for k l and ds :: "nat list"
  proof -
    have "count_below ds l (ds ! k) = length (filter (\<lambda>j. ds ! j = ds ! k) [0..<k]) + length (filter (\<lambda>j. ds ! j = ds ! k) [k..<l])"
      unfolding count_below_def by (rule length_filter_split) (use that in simp_all)
    moreover have "[k..<l] = k # [Suc k..<l]" using that by (simp add: upt_conv_Cons)
    ultimately show ?thesis by (simp add: count_below_def)
  qed
  show ?thesis
  proof (rule ccontr)
    assume "i \<noteq> j"
    then consider "i < j" | "j < i" by linarith
    then show False using less[of i j ?ds] less[of j i ?ds] c d by cases simp_all
  qed
qed

lemma scatter_fold_length [simp]: "length (foldl (\<lambda>out g. out[p g := v g]) init sched) = length init"
  by (induction sched arbitrary: init) auto

lemma scatter_fold_other:
  "q \<notin> p ` set sched \<Longrightarrow> foldl (\<lambda>out g. out[p g := v g]) init sched ! q = init ! q"
  by (induction sched arbitrary: init) auto

lemma scatter_fold:
  "inj_on p (set sched) \<Longrightarrow> i \<in> set sched \<Longrightarrow> p i < length init \<Longrightarrow>
     foldl (\<lambda>out g. out[p g := v g]) init sched ! p i = v i"
proof (induction sched arbitrary: init)
  case (Cons g sched)
  show ?case
  proof (cases "i \<in> set sched")
    case True
    with Cons show ?thesis by (simp add: inj_on_insert)
  next
    case False
    then have "i = g" using Cons.prems(2) by simp
    moreover have "p i \<notin> p ` set sched"
      using Cons.prems(1) False calculation by (auto dest: inj_onD)
    ultimately show ?thesis using Cons.prems(3) by (simp add: scatter_fold_other)
  qed
qed simp

lemma run_radix_lane_sorts:
  assumes "schedule_ok (length rows) (sched lane)"
  shows "run_radix_lane sched lane rows = sort_key (lane_digit lane) rows"
proof (cases "rows = []")
  case False
  let ?p = "lane_pos (map (lane_digit lane) rows)" and ?n = "length rows"
  have set: "set (sched lane) = {..<?n}" by (rule schedule_set[OF assms])
  have inj: "inj_on ?p {..<?n}" by (rule inj_onI) (simp add: lane_pos_inj)
  have "?p ` {..<?n} \<subseteq> {..<?n}" using lane_pos_sort(2) by auto
  then have onto: "?p ` {..<?n} = {..<?n}"
    by (rule endo_inj_surj[OF finite_lessThan _ inj])
  have "lane_scatter lane rows (sched lane) = sort_key (lane_digit lane) rows"
  proof (rule list_eq_by_nth)
    fix q assume "q < length (sort_key (lane_digit lane) rows)"
    then obtain i where i: "i < ?n" "q = ?p i" using onto by (metis imageE length_sort lessThan_iff)
    have "lane_scatter lane rows (sched lane) ! ?p i = rows ! i"
      unfolding lane_scatter_def
      by (rule scatter_fold) (use set inj i lane_pos_sort(2)[OF i(1)] in auto)
    then show "lane_scatter lane rows (sched lane) ! q = sort_key (lane_digit lane) rows ! q"
      using lane_pos_sort(1)[OF i(1)] i(2) by simp
  qed (simp add: lane_scatter_def)
  with False show ?thesis by (simp add: run_radix_lane_def)
qed (simp add: run_radix_lane_def)

section \<open>Sixteen passes sort by the key\<close>

lemma sorted_lex:
  "sorted (map f ys) \<Longrightarrow> (\<And>c. sorted (map g (filter (\<lambda>x. f x = c) ys))) \<Longrightarrow> (\<And>x. x \<in> set ys \<Longrightarrow> g x < B) \<Longrightarrow>
     sorted (map (\<lambda>x. f x * B + g x) ys)" for f g :: "'a \<Rightarrow> nat" and B :: nat
proof (induction ys)
  case (Cons y ys)
  have IH: "sorted (map (\<lambda>x. f x * B + g x) ys)"
  proof (rule Cons.IH)
    show "sorted (map f ys)" using Cons.prems(1) by simp
    show "sorted (map g (filter (\<lambda>x. f x = c) ys))" for c
      using Cons.prems(2)[of c] by (cases "f y = c") simp_all
  qed (use Cons.prems(3) in simp)
  have "f y * B + g y \<le> f x * B + g x" if x: "x \<in> set ys" for x
  proof (cases "f y = f x")
    case True
    then show ?thesis using Cons.prems(2)[of "f y"] x by auto
  next
    case False
    then have "Suc (f y) \<le> f x" using Cons.prems(1) x by fastforce
    then have "Suc (f y) * B \<le> f x * B" by (rule mult_le_mono1)
    moreover have "g y < B" using Cons.prems(3) by simp
    ultimately show ?thesis by simp
  qed
  with IH show ?case by simp
qed simp

lemma sort_key_lex:
  fixes f g :: "'a \<Rightarrow> nat"
  assumes B: "\<And>x. x \<in> set xs \<Longrightarrow> g x < B"
  shows "sort_key f (sort_key g xs) = sort_key (\<lambda>x. f x * B + g x) xs"
proof (rule properties_for_sort_key[symmetric])
  show "mset (sort_key f (sort_key g xs)) = mset xs" by simp
  show "filter (\<lambda>x. f k * B + g k = f x * B + g x) (sort_key f (sort_key g xs)) =
      filter (\<lambda>x. f k * B + g k = f x * B + g x) xs" if k: "k \<in> set (sort_key f (sort_key g xs))" for k
  proof -
    have eq: "f k * B + g k = f x * B + g x \<longleftrightarrow> f x = f k \<and> g x = g k" if "x \<in> set xs" for x
    proof
      assume h: "f k * B + g k = f x * B + g x"
      have b: "g k < B" "g x < B" using k that B by simp_all
      have "(f k * B + g k) div B = f k" "(f x * B + g x) div B = f x" using b by simp_all
      with h have "f k = f x" by simp
      with h show "f x = f k \<and> g x = g k" by simp
    qed simp
    have "filter (\<lambda>x. f k * B + g k = f x * B + g x) (sort_key f (sort_key g xs)) =
        filter (\<lambda>x. g x = g k) (filter (\<lambda>x. f x = f k) (sort_key f (sort_key g xs)))"
      unfolding filter_filter by (rule filter_cong[OF refl]) (auto simp: eq)
    also have "\<dots> = filter (\<lambda>x. g x = g k) (filter (\<lambda>x. f x = f k) (sort_key g xs))"
      by (simp only: sort_key_stable)
    also have "\<dots> = filter (\<lambda>x. f x = f k) (filter (\<lambda>x. g x = g k) (sort_key g xs))"
      by (simp add: conj_commute)
    also have "\<dots> = filter (\<lambda>x. f x = f k) (filter (\<lambda>x. g x = g k) xs)" by (simp only: sort_key_stable)
    also have "\<dots> = filter (\<lambda>x. f k * B + g k = f x * B + g x) xs"
      unfolding filter_filter by (rule filter_cong[OF refl]) (auto simp: eq)
    finally show ?thesis .
  qed
  show "sorted (map (\<lambda>x. f x * B + g x) (sort_key f (sort_key g xs)))"
  proof (rule sorted_lex)
    show "sorted (map g (filter (\<lambda>x. f x = c) (sort_key f (sort_key g xs))))" for c
      unfolding sort_key_stable by (metis filter_sort sorted_sort_key)
  qed (use B in simp_all)
qed

lemma extract_digit_bits:
  "lane < 16 \<Longrightarrow> lane_digit lane (k, r) = unat (take_bit 8 (drop_bit (8 * lane) k))"
proof -
  assume l: "lane < 16"
  have ff: "(0xFF::u64) = mask 8" by (simp add: mask_eq_exp_minus_1)
  show ?thesis
  proof (cases "lane < 8")
    case True
    have "ucast (drop_bit (lane * 8) (ucast k :: u64) AND 0xFF) = take_bit 8 (drop_bit (8 * lane) k)"
      using True by (intro bit_eqI) (auto simp: ff bit_ucast_iff bit_and_iff bit_mask_iff bit_drop_bit_eq bit_take_bit_iff mult.commute)
    moreover have "unat (ucast w :: u128) = unat w" for w :: u64 by (rule unat_ucast_up) simp
    ultimately show ?thesis using True by (simp add: lane_digit_def extract_digit_def) metis
  next
    case False
    have "ucast (drop_bit ((lane - 8) * 8) (ucast (drop_bit 64 k) :: u64) AND 0xFF) = take_bit 8 (drop_bit (8 * lane) k)"
      using False l by (intro bit_eqI) (auto simp: ff bit_ucast_iff bit_and_iff bit_mask_iff bit_drop_bit_eq bit_take_bit_iff algebra_simps)
    moreover have "unat (ucast w :: u128) = unat w" for w :: u64 by (rule unat_ucast_up) simp
    ultimately show ?thesis using False by (simp add: lane_digit_def extract_digit_def) metis
  qed
qed

lemma digit_step:
  "unat (take_bit 8 (drop_bit n (k::u128))) * 2 ^ n + unat (take_bit n k) = unat (take_bit (n + 8) k)"
proof -
  have "take_bit (n + 8) (unat k) = push_bit n (take_bit 8 (drop_bit n (unat k))) + take_bit n (unat k)"
    by (simp add: take_bit_eq_mod push_bit_eq_mult drop_bit_eq_div power_add mod_mult2_eq add.commute mult.commute)
  moreover have "take_bit 128 (unat k) = unat k"
    using unsigned_less[of k, where ?'a = nat] by (intro take_bit_nat_eq_self) simp
  ultimately show ?thesis
    by (simp add: unsigned_take_bit_eq unsigned_drop_bit_eq push_bit_eq_mult)
qed

lemma lanes_sort:
  assumes "\<forall>lane < 16. schedule_ok (length rows) (sched lane)" "L \<le> 16"
  shows "foldl (\<lambda>rs lane. run_radix_lane sched lane rs) rows [0..<L] = sort_key (\<lambda>r. unat (take_bit (8 * L) (fst r))) rows"
  using assms(2)
proof (induction L)
  case 0
  show ?case by (simp add: sort_key_const)
next
  case (Suc L)
  let ?g = "\<lambda>r::u128 \<times> u32. unat (take_bit (8 * L) (fst r))"
  have B: "?g x < 2 ^ (8 * L)" for x
    by (simp add: unsigned_take_bit_eq)
  have "foldl (\<lambda>rs lane. run_radix_lane sched lane rs) rows [0..<Suc L] = run_radix_lane sched L (sort_key ?g rows)"
    using Suc by simp
  also have "\<dots> = sort_key (lane_digit L) (sort_key ?g rows)"
    by (rule run_radix_lane_sorts) (use assms Suc in simp)
  also have "\<dots> = sort_key (\<lambda>x. lane_digit L x * 2 ^ (8 * L) + ?g x) rows"
    by (rule sort_key_lex) (rule B)
  also have "(\<lambda>x. lane_digit L x * 2 ^ (8 * L) + ?g x) = (\<lambda>r. unat (take_bit (8 * Suc L) (fst r)))"
  proof
    fix x :: "u128 \<times> u32"
    obtain k r where x: "x = (k, r)" by force
    show "lane_digit L x * 2 ^ (8 * L) + ?g x = unat (take_bit (8 * Suc L) (fst x))"
      using digit_step[of "8 * L" k] extract_digit_bits[of L k r] Suc.prems by (simp add: x add.commute)
  qed
  finally show ?case .
qed

lemma radix_passes_sorts:
  assumes "\<forall>lane < 16. schedule_ok (length keys) (sched lane)"
  shows "radix_passes sched keys = sort_key fst (zip keys (map of_nat [0..<length keys]))"
proof (cases "keys = []")
  case False
  have key: "sort_key (\<lambda>r. unat (take_bit (8 * 16) (fst r))) rows = sort_key fst rows" for rows :: "(u128 \<times> u32) list"
  proof (rule properties_for_sort_key)
    have e: "unat (take_bit 128 (k::u128)) = unat k" for k
      using unsigned_less[of k, where ?'a = nat] by (simp add: unsigned_take_bit_eq take_bit_nat_eq_self)
    show "filter (\<lambda>x. unat (take_bit (8 * 16) (fst k)) = unat (take_bit (8 * 16) (fst x))) (sort_key fst rows) =
        filter (\<lambda>x. unat (take_bit (8 * 16) (fst k)) = unat (take_bit (8 * 16) (fst x))) rows" for k :: "u128 \<times> u32"
    proof -
      have "(\<lambda>x. unat (take_bit (8 * 16) (fst k)) = unat (take_bit (8 * 16) (fst x))) = (\<lambda>x::u128 \<times> u32. fst x = fst k)"
        by (rule ext) (auto simp: e word_unat_eq_iff)
      then show ?thesis using sort_key_stable[of fst "fst k" rows] by simp
    qed
    have "sorted_wrt (\<lambda>x y. fst x \<le> fst y) (sort_key fst rows)"
      using sorted_sort_key[of fst rows] by (simp add: sorted_wrt_map)
    then have "sorted_wrt (\<lambda>x y. unat (fst x) \<le> unat (fst y)) (sort_key fst rows)"
      by (simp only: word_le_nat_alt)
    then show "sorted (map (\<lambda>r. unat (take_bit (8 * 16) (fst r))) (sort_key fst rows))"
      by (simp add: e sorted_wrt_map)
  qed simp
  have "length (zip keys (map of_nat [0..<length keys] :: u32 list)) = length keys" by simp
  with assms lanes_sort[of "zip keys (map of_nat [0..<length keys])" sched 16] False key show ?thesis
    by (simp add: radix_passes_def)
qed (simp add: radix_passes_def)

section \<open>Segmentation\<close>

definition seg_id :: "(nat \<Rightarrow> bool) \<Rightarrow> nat \<Rightarrow> nat" where
  "seg_id b p = length (filter b [1..<Suc p])"

lemma seg_id_0 [simp]: "seg_id b 0 = 0"
  by (simp add: seg_id_def)

lemma seg_id_Suc: "seg_id b (Suc p) = seg_id b p + (if b (Suc p) then 1 else 0)"
  by (simp add: seg_id_def)

lemma seg_id_mono: "p \<le> q \<Longrightarrow> seg_id b p \<le> seg_id b q"
  by (induction q rule: dec_induct) (simp_all add: seg_id_Suc)

lemma seg_id_le: "seg_id b p \<le> p"
  by (induction p) (simp_all add: seg_id_Suc)

text \<open>The scan over a predicate in place of the packed bits.\<close>

fun scan_bits :: "(nat \<Rightarrow> bool) \<Rightarrow> nat \<Rightarrow> u32 list \<Rightarrow> u32 \<Rightarrow> u32 list \<Rightarrow> u32 list \<Rightarrow> u32 list \<times> u32 list \<times> u32" where
  "scan_bits bit_of i [] cur r2g first = (r2g, first, cur)"
| "scan_bits bit_of i (idx # rest) cur r2g first =
     (let cur' = (if i > 0 \<and> bit_of i then cur + 1 else cur);
          first' = (if i = 0 \<or> bit_of i then first @ [idx] else first)
      in scan_bits bit_of (Suc i) rest cur' (r2g[unat idx := cur']) first')"

lemma segment_scan_bits:
  assumes "\<And>j. i \<le> j \<Longrightarrow> j < i + length idxs \<Longrightarrow> j div 8 < length starts \<and> bit (starts ! (j div 8)) (j mod 8) = b j"
    and "\<forall>idx \<in> set idxs. unat idx < length r2g"
  shows "segment_scan starts i idxs cur r2g first = Some (scan_bits b i idxs cur r2g first)"
  using assms
proof (induction idxs arbitrary: i cur r2g first)
  case (Cons idx idxs)
  have here: "i div 8 < length starts" "(drop_bit (i mod 8) (starts ! (i div 8)) AND 1 = 1) = b i"
    using Cons.prems(1)[of i] by (simp_all add: and_one_eq bit_drop_bit_eq odd_iff_mod_2_eq_one bit_iff_odd_drop_bit)
  have IH: "segment_scan starts (Suc i) idxs cur' (r2g[unat idx := x]) first' = Some (scan_bits b (Suc i) idxs cur' (r2g[unat idx := x]) first')"
    for cur' first' x
    by (rule Cons.IH) (use Cons.prems in simp_all)
  show ?case using here Cons.prems(2) IH by (simp add: Let_def)
qed simp

text \<open>The kernel's writes stay inside the buffer, whose bits are the starts whatever the order of the threads.\<close>

lemma starts_in_bounds: "gid < n \<Longrightarrow> gid div 32 < starts_size_bytes n div 4"
  by (simp add: starts_size_bytes_def div_ceil_def max_def) linarith

lemma length_word_bytes [simp]: "length (word_bytes w) = 4"
  by (simp add: word_bytes_def)

lemma slice_of_words_Cons: "slice_of_words (w # ws) = word_bytes w @ slice_of_words ws"
  by (simp add: slice_of_words_def)

lemma length_slice_of_words [simp]: "length (slice_of_words ws) = 4 * length ws"
  by (induction ws) (simp_all add: slice_of_words_Cons, simp add: slice_of_words_def)

lemma slice_of_words_bit:
  "i div 32 < length ws \<Longrightarrow> bit (slice_of_words ws ! (i div 8)) (i mod 8) = bit (ws ! (i div 32)) (i mod 32)"
proof (induction ws arbitrary: i)
  case (Cons w ws)
  show ?case
  proof (cases "i < 32")
    case True
    then have d: "i div 8 < 4" "i mod 32 = i" "8 * (i div 8) + i mod 8 = i" by simp_all
    have "bit (word_bytes w ! (i div 8)) (i mod 8) = bit w (8 * (i div 8) + i mod 8)"
      using d(1) True by (simp add: word_bytes_def bit_ucast_iff bit_drop_bit_eq)
    with True d(2,3) show ?thesis by (simp add: slice_of_words_Cons nth_append d(1)[simplified])
  next
    case False
    then obtain k where k: "i = k + 32" by (metis add.commute le_Suc_ex not_less)
    have "(k + 32) div 8 = k div 8 + 4" "(k + 32) div 32 = Suc (k div 32)" "(k + 32) mod 8 = k mod 8" "(k + 32) mod 32 = k mod 32"
      using mod_mult_self1[of k 4 8] by simp_all
    with Cons.IH[of k] Cons.prems show ?thesis unfolding k by (simp add: slice_of_words_Cons nth_append)
  qed
qed simp

lemma segment_starts_bit:
  assumes "schedule_ok (length ks) sched" and "i < length ks"
  shows "i div 8 < length (slice_of_words (segment_starts ks sched)) \<and>
    bit (slice_of_words (segment_starts ks sched) ! (i div 8)) (i mod 8) = is_start ks i"
proof -
  let ?step = "\<lambda>starts gid. if is_start ks gid then starts[gid div 32 := starts ! (gid div 32) OR push_bit (gid mod 32) (1 :: u32)] else starts"
  have len: "length (foldl ?step ws gs) = length ws" for ws gs by (induction gs arbitrary: ws) simp_all
  have step: "bit (?step ws g ! w) b \<longleftrightarrow> bit (ws ! w) b \<or> is_start ks g \<and> g div 32 = w \<and> g mod 32 = b"
    if "w < length ws" "b < 32" for ws g w b
  proof (cases "g div 32 = w")
    case True
    have "bit (push_bit (g mod 32) (1 :: u32)) b \<longleftrightarrow> g mod 32 = b"
      using that(2) by (auto simp: bit_exp_iff)
    with True that(1) show ?thesis by (auto simp: bit_or_iff)
  qed (use that in simp)
  have bits: "bit (foldl ?step ws gs ! w) b \<longleftrightarrow> bit (ws ! w) b \<or> (\<exists>g \<in> set gs. is_start ks g \<and> g div 32 = w \<and> g mod 32 = b)"
    if "w < length ws" "b < 32" for ws gs w b
    using that
  proof (induction gs arbitrary: ws)
    case (Cons g gs)
    have "length (?step ws g) = length ws" by simp
    with Cons step[of w ws b g] show ?case by (simp only: foldl_Cons list.set ball_simps bex_simps) blast
  qed simp
  let ?n = "starts_size_bytes (length ks) div 4"
  have n: "i div 32 < ?n" by (rule starts_in_bounds[OF assms(2)])
  have "g = i" if "g div 32 = i div 32" "g mod 32 = i mod 32" for g using that by (metis div_mult_mod_eq)
  moreover have "i \<in> set sched" using assms schedule_set by auto
  ultimately have "bit (segment_starts ks sched ! (i div 32)) (i mod 32) = is_start ks i"
    unfolding segment_starts_def using bits[of "i div 32" "replicate ?n 0" "i mod 32" sched] n by auto
  moreover have "length (segment_starts ks sched) = ?n" by (simp add: segment_starts_def len)
  moreover have "i div 8 < 4 * ?n" using n by linarith
  ultimately show ?thesis using slice_of_words_bit[of i "segment_starts ks sched"] n by simp
qed

lemma scan_bits_spec:
  "i \<le> length idxs \<Longrightarrow>
     scan_bits b i (drop i idxs) (of_nat (seg_id b (i - 1))) r2g (map ((!) idxs) (filter (\<lambda>p. p = 0 \<or> b p) [0..<i])) =
       (foldl (\<lambda>l p. l[unat (idxs ! p) := of_nat (seg_id b p)]) r2g [i..<length idxs],
        map ((!) idxs) (filter (\<lambda>p. p = 0 \<or> b p) [0..<length idxs]), of_nat (seg_id b (length idxs - 1)))"
proof (induction "length idxs - i" arbitrary: i r2g)
  case (Suc m)
  then have i: "i < length idxs" by simp
  have dr: "drop i idxs = idxs ! i # drop (Suc i) idxs" using i by (simp add: Cons_nth_drop_Suc)
  have cur: "(if i > 0 \<and> b i then of_nat (seg_id b (i - 1)) + 1 else of_nat (seg_id b (i - 1))) = (of_nat (seg_id b (Suc i - 1)) :: u32)"
    by (cases i) (simp_all add: seg_id_Suc)
  have first: "(if i = 0 \<or> b i then map ((!) idxs) (filter (\<lambda>p. p = 0 \<or> b p) [0..<i]) @ [idxs ! i]
      else map ((!) idxs) (filter (\<lambda>p. p = 0 \<or> b p) [0..<i])) = map ((!) idxs) (filter (\<lambda>p. p = 0 \<or> b p) [0..<Suc i])"
    by simp
  have "scan_bits b i (drop i idxs) (of_nat (seg_id b (i - 1))) r2g (map ((!) idxs) (filter (\<lambda>p. p = 0 \<or> b p) [0..<i])) =
      scan_bits b (Suc i) (drop (Suc i) idxs) (of_nat (seg_id b (Suc i - 1))) (r2g[unat (idxs ! i) := of_nat (seg_id b (Suc i - 1))])
        (map ((!) idxs) (filter (\<lambda>p. p = 0 \<or> b p) [0..<Suc i]))"
    unfolding dr scan_bits.simps Let_def cur first ..
  also have "\<dots> = (foldl (\<lambda>l p. l[unat (idxs ! p) := of_nat (seg_id b p)]) (r2g[unat (idxs ! i) := of_nat (seg_id b (Suc i - 1))]) [Suc i..<length idxs],
        map ((!) idxs) (filter (\<lambda>p. p = 0 \<or> b p) [0..<length idxs]), of_nat (seg_id b (length idxs - 1)))"
    by (rule Suc.hyps(1)) (use Suc.hyps(2) i in simp_all)
  finally show ?case using i by (simp add: upt_conv_Cons)
qed simp

lemma length_filter_starts:
  "length (filter (\<lambda>p. p = 0 \<or> b p) [0..<n]) = (if n = 0 then 0 else Suc (seg_id b (n - 1)))"
proof (induction n)
  case (Suc n)
  have e: "filter (\<lambda>p. p = 0 \<or> b p) [0..<Suc n] = filter (\<lambda>p. p = 0 \<or> b p) [0..<n] @ (if n = 0 \<or> b n then [n] else [])"
    by simp
  show ?case
  proof (cases n)
    case (Suc m)
    then show ?thesis unfolding e length_append Suc.IH by (simp add: seg_id_Suc)
  qed (simp only: e, simp)
qed simp

lemma filter_starts_nth:
  "g < length (filter (\<lambda>p. p = 0 \<or> b p) [0..<n]) \<Longrightarrow>
     filter (\<lambda>p. p = 0 \<or> b p) [0..<n] ! g < n \<and> seg_id b (filter (\<lambda>p. p = 0 \<or> b p) [0..<n] ! g) = g"
proof (induction n)
  case (Suc n)
  let ?F = "filter (\<lambda>p. p = 0 \<or> b p) [0..<n]"
  have e: "filter (\<lambda>p. p = 0 \<or> b p) [0..<Suc n] = ?F @ (if n = 0 \<or> b n then [n] else [])"
    by simp
  have new: "seg_id b n = length ?F" if "n = 0 \<or> b n"
    using that length_filter_starts[of b n] by (cases n) (simp_all add: seg_id_Suc)
  show ?case
  proof (cases "g < length ?F")
    case True
    with Suc.IH show ?thesis unfolding e nth_append by simp
  next
    case False
    with Suc.prems have n: "n = 0 \<or> b n" and g: "g = length ?F" unfolding e by (auto split: if_splits)
    have "(?F @ [n]) ! g = n" by (simp add: g)
    then show ?thesis unfolding e using n new[OF n] g by simp
  qed
qed simp

lemma is_start_Suc: "is_start ks (Suc p) \<longleftrightarrow> ks ! Suc p \<noteq> ks ! p"
  by (simp add: is_start_def)

lemma seg_id_same:
  assumes "sorted ks" "p < length ks" "q < length ks"
  shows "seg_id (is_start ks) p = seg_id (is_start ks) q \<longleftrightarrow> ks ! p = ks ! q"
proof -
  have main: "seg_id (is_start ks) p = seg_id (is_start ks) q \<longleftrightarrow> ks ! p = ks ! q"
    if "p \<le> q" "q < length ks" for p q
    using that
  proof (induction q rule: dec_induct)
    case (step q)
    then have IH: "seg_id (is_start ks) p = seg_id (is_start ks) q \<longleftrightarrow> ks ! p = ks ! q" by simp
    have le: "ks ! p \<le> ks ! q" "ks ! q \<le> ks ! Suc q" using assms(1) step by (simp_all add: sorted_nth_mono)
    have mono: "seg_id (is_start ks) p \<le> seg_id (is_start ks) q" using step by (simp add: seg_id_mono)
    show ?case
    proof (cases "ks ! Suc q = ks ! q")
      case True
      then show ?thesis using IH by (simp add: seg_id_Suc is_start_Suc)
    next
      case False
      then have "ks ! p \<noteq> ks ! Suc q" using le by auto
      moreover have "seg_id (is_start ks) p \<noteq> seg_id (is_start ks) (Suc q)"
        using False mono by (simp add: seg_id_Suc is_start_Suc)
      ultimately show ?thesis by simp
    qed
  qed simp
  show ?thesis using main[of p q] main[of q p] assms(2,3) by (cases "p \<le> q") auto
qed

text \<open>Segmenting any sorted arrangement of the rows gives a grouping; a stable one gives first rows.\<close>

definition arrangement :: "u128 list \<Rightarrow> (u128 \<times> u32) list \<Rightarrow> bool" where
  "arrangement keys rows \<longleftrightarrow> mset rows = mset (zip keys (map of_nat [0..<length keys])) \<and> sorted (map fst rows)"

lemma arrangement_rows:
  assumes "arrangement keys rows" "length keys < 2 ^ 32"
  shows "length rows = length keys" "distinct (map (\<lambda>r. unat (snd r)) rows)"
    "\<And>p. p < length rows \<Longrightarrow> unat (snd (rows ! p)) < length keys \<and> fst (rows ! p) = keys ! unat (snd (rows ! p))"
    "\<And>i. i < length keys \<Longrightarrow> \<exists>p < length rows. unat (snd (rows ! p)) = i"
proof -
  let ?z = "zip keys (map of_nat [0..<length keys] :: u32 list)"
  have m: "mset rows = mset ?z" using assms(1) by (simp add: arrangement_def)
  have un: "unat (of_nat i :: u32) = i" if "i < length keys" for i
    using that assms(2) by (simp add: unat_of_nat)
  have len_z: "length ?z = length keys" by simp
  show len: "length rows = length keys" using mset_eq_length[OF m] by simp
  have "map (\<lambda>r. unat (snd r)) ?z = [0..<length keys]"
    by (rule list_eq_by_nth) (simp_all add: un)
  then have "mset (map (\<lambda>r. unat (snd r)) rows) = mset [0..<length keys]"
    using m by (metis mset_map)
  then show "distinct (map (\<lambda>r. unat (snd r)) rows)"
    by (metis distinct_upt mset_eq_imp_distinct_iff)
  have mem: "rows ! p \<in> set ?z" if "p < length rows" for p
    using that m by (metis mset_eq_setD nth_mem)
  show "unat (snd (rows ! p)) < length keys \<and> fst (rows ! p) = keys ! unat (snd (rows ! p))" if p: "p < length rows" for p
  proof -
    obtain i where i: "i < length ?z" "rows ! p = ?z ! i" using mem[OF p] by (metis in_set_conv_nth)
    then show ?thesis using un[of i] by simp
  qed
  show "\<exists>p < length rows. unat (snd (rows ! p)) = i" if "i < length keys" for i
  proof -
    have "?z ! i \<in> set rows" using that m by (metis len_z mset_eq_setD nth_mem)
    then obtain p where "p < length rows" "rows ! p = ?z ! i" by (metis in_set_conv_nth)
    with that un show ?thesis by (intro exI[of _ p]) simp
  qed
qed

lemma nth_in_take: "p < q \<Longrightarrow> q \<le> length xs \<Longrightarrow> xs ! p \<in> set (take q xs)"
  by (auto simp: in_set_conv_nth intro!: exI[of _ p])

lemma sort_key_keeps_order:
  assumes "sorted_wrt R xs" "p < q" "q < length xs" "f (sort_key f xs ! p) = f (sort_key f xs ! q)"
  shows "R (sort_key f xs ! p) (sort_key f xs ! q)"
proof -
  define ys where "ys = sort_key f xs"
  define P where "P = (\<lambda>x. f x = f (ys ! q))"
  have len: "q < length ys" using assms(3) by (simp add: ys_def)
  have "filter P ys = filter P xs" unfolding P_def ys_def by (rule sort_key_stable)
  then have sw: "sorted_wrt R (filter P ys)" using assms(1) by (simp add: sorted_wrt_filter)
  have "ys = take q ys @ ys ! q # drop (Suc q) ys" using len by (simp add: id_take_nth_drop)
  then have "filter P ys = filter P (take q ys @ ys ! q # drop (Suc q) ys)" by simp
  also have "\<dots> = filter P (take q ys) @ ys ! q # filter P (drop (Suc q) ys)" by (simp add: P_def)
  finally have split: "filter P ys = filter P (take q ys) @ ys ! q # filter P (drop (Suc q) ys)" .
  have "ys ! p \<in> set (filter P (take q ys))"
    using nth_in_take[OF assms(2), of ys] len assms(4) by (simp add: P_def ys_def)
  with sw show ?thesis unfolding split sorted_wrt_append ys_def[symmetric] by simp
qed

lemma segment_grouping:
  assumes arr: "arrangement keys rows" and len: "length keys < 2 ^ 32 - 1" and ne: "keys \<noteq> []"
    and scan: "scan_bits (is_start (map fst rows)) 0 (map snd rows) 0 (replicate (length keys) 0) [] = (r2g, first, cur)"
  shows "grouping keys \<lparr>row_to_group = r2g, first_row_per_group = first, n_groups = cur + 1\<rparr> \<and>
    (rows = sort_key fst (zip keys (map of_nat [0..<length keys])) \<longrightarrow>
      first_rows_minimal \<lparr>row_to_group = r2g, first_row_per_group = first, n_groups = cur + 1\<rparr>)"
proof -
  let ?b = "is_start (map fst rows)" and ?n = "length keys" and ?row = "\<lambda>p. unat (snd (rows ! p))"
  have l32: "length keys < 2 ^ 32" using len by simp
  note ar = arrangement_rows[OF arr l32]
  let ?r2g = "foldl (\<lambda>l p. l[unat (map snd rows ! p) := of_nat (seg_id ?b p)]) (replicate ?n 0) [0..<?n]"
  let ?firsts = "filter (\<lambda>p. p = 0 \<or> ?b p) [0..<?n]"
  have res: "r2g = ?r2g" "first = map ((!) (map snd rows)) ?firsts" "cur = of_nat (seg_id ?b (?n - 1))"
    using scan scan_bits_spec[of 0 "map snd rows" ?b "replicate ?n 0"] ar(1) by simp_all
  define G where "G = Suc (seg_id ?b (?n - 1))"
  have G: "G < 2 ^ 32" using seg_id_le[of ?b "?n - 1"] len ne by (simp add: G_def) 
  have cur: "cur + 1 = of_nat G" by (simp add: res(3) G_def add.commute)
  have inj: "inj_on ?row {..<?n}"
    using ar(1,2) by (auto simp: distinct_conv_nth inj_on_def)
  have at: "r2g ! ?row p = of_nat (seg_id ?b p)" if "p < ?n" for p
  proof -
    have "foldl (\<lambda>l p. l[?row p := of_nat (seg_id ?b p)]) (replicate ?n (0::u32)) [0..<?n] ! ?row p = of_nat (seg_id ?b p)"
      by (rule scatter_fold) (use inj that ar in \<open>auto simp: atLeast0LessThan\<close>)
    moreover have "?r2g = foldl (\<lambda>l p. l[?row p := of_nat (seg_id ?b p)]) (replicate ?n (0::u32)) [0..<?n]"
      by (rule foldl_cong) (use ar(1) in auto)
    ultimately show ?thesis using res(1) by simp
  qed
  define where_is where "where_is i = (THE p. p < ?n \<and> ?row p = i)" for i
  have wh: "where_is i < ?n \<and> ?row (where_is i) = i" if "i < ?n" for i
  proof -
    have "\<exists>!p. p < ?n \<and> ?row p = i" using ar(1) ar(4)[of i] that inj by (auto simp: inj_on_def)
    then show ?thesis unfolding where_is_def by (rule theI')
  qed
  have wr: "where_is (?row p) = p" if "p < ?n" for p
  proof -
    have "?row p < ?n" using ar(1,3) that by simp
    from wh[OF this] inj that show ?thesis by (auto simp: inj_on_def)
  qed
  define gs where "gs = map (\<lambda>i. seg_id ?b (where_is i)) [0..<?n]"
  have r2g: "r2g = map of_nat gs"
  proof (rule list_eq_by_nth)
    show "length r2g = length (map of_nat gs)" by (simp add: res(1) gs_def)
    fix i assume "i < length (map of_nat gs :: u32 list)"
    then have i: "i < ?n" by (simp add: gs_def)
    with at[of "where_is i"] wh[OF i] show "r2g ! i = map of_nat gs ! i" by (simp add: gs_def)
  qed
  have key: "map fst rows ! p = keys ! ?row p" if "p < ?n" for p
    using ar(1,3) that by simp
  have sorted: "sorted (map fst rows)" using arr by (simp add: arrangement_def)
  have same: "gs ! i = gs ! j \<longleftrightarrow> keys ! i = keys ! j" if "i < ?n" "j < ?n" for i j
    using seg_id_same[OF sorted, of "where_is i" "where_is j"] wh that key ar(1) by (simp add: gs_def)
  have lenf: "length ?firsts = G" unfolding G_def length_filter_starts using ne by simp
  have bound: "gs ! i < G" if "i < ?n" for i
  proof -
    have "where_is i \<le> ?n - 1" using wh[OF that] by linarith
    from seg_id_mono[OF this, of ?b] show ?thesis using that by (simp add: gs_def G_def)
  qed
  have fpos: "?firsts ! g < ?n" "seg_id ?b (?firsts ! g) = g" if "g < G" for g
    using filter_starts_nth[of g ?b ?n] that lenf by simp_all
  have first: "first ! g = snd (rows ! (?firsts ! g))" if "g < G" for g
    using res(2) that lenf fpos(1)[OF that] ar(1) by simp
  have reps: "gs ! ?row (?firsts ! g) = g \<and> ?row (?firsts ! g) < ?n \<and> first ! g = of_nat (?row (?firsts ! g))" if "g < G" for g
  proof -
    have "?row (?firsts ! g) < ?n" using ar(1,3) fpos(1)[OF that] by simp
    then show ?thesis using wr[OF fpos(1)[OF that]] fpos(2)[OF that] first[OF that] by (simp add: gs_def)
  qed
  have grp: "grouping keys \<lparr>row_to_group = map of_nat gs, first_row_per_group = first, n_groups = of_nat G\<rparr>"
  proof (rule grouping_of_reps)
    show "length first = G" using res(2) lenf by simp
    show "\<forall>g < G. \<exists>i < length keys. gs ! i = g \<and> first ! g = of_nat i" using reps by blast
  qed (use l32 G bound same in \<open>simp_all add: gs_def\<close>)
  have "first_rows_minimal \<lparr>row_to_group = map of_nat gs, first_row_per_group = first, n_groups = of_nat G\<rparr>"
    if st: "rows = sort_key fst (zip keys (map of_nat [0..<length keys]))"
  proof -
    have "unat (first ! (gs ! i)) \<le> i" if i: "i < ?n" for i
    proof -
      let ?p = "?firsts ! (gs ! i)" and ?q = "where_is i"
      have p: "?p < ?n" "seg_id ?b ?p = gs ! i" using fpos[OF bound[OF i]] by simp_all
      have ids: "seg_id ?b ?p = seg_id ?b ?q" using p(2) i by (simp add: gs_def)
      have keq: "map fst rows ! ?p = map fst rows ! ?q"
        using seg_id_same[OF sorted, of ?p ?q] ids p(1) wh[OF i] ar(1) by simp
      have pq: "?p \<le> ?q"
      proof (rule ccontr)
        assume "\<not> ?p \<le> ?q"
        then have "?q \<le> ?p - 1" "0 < ?p" by simp_all
        then have "seg_id ?b ?q \<le> seg_id ?b (?p - 1)" by (simp add: seg_id_mono)
        moreover have "?b ?p"
          using lenf bound[OF i] nth_mem[of "gs ! i" ?firsts] \<open>0 < ?p\<close> by auto
        ultimately show False using ids \<open>0 < ?p\<close> seg_id_Suc[of ?b "?p - 1"] by simp
      qed
      have "?row ?p \<le> ?row ?q"
      proof -
        let ?z = "zip keys (map of_nat [0..<length keys] :: u32 list)"
        have z: "sorted_wrt (\<lambda>x y. unat (snd x) \<le> unat (snd y)) ?z"
          unfolding sorted_wrt_iff_nth_less using l32 by (simp add: unat_of_nat)
        have "fst (rows ! ?p) = fst (rows ! ?q)" using keq p(1) wh[OF i] ar(1) by simp
        moreover have "?row p' \<le> ?row q'" if "p' < q'" "q' < ?n" "fst (rows ! p') = fst (rows ! q')" for p' q'
          using sort_key_keeps_order[OF z, of p' q' fst] that by (simp flip: st)
        ultimately have "?p < ?q \<Longrightarrow> ?row ?p \<le> ?row ?q" using wh[OF i] by blast
        then show ?thesis using pq le_neq_implies_less[OF pq] by fastforce
      qed
      then show ?thesis using wh[OF i] first[OF bound[OF i]] by simp
    qed
    moreover have "unat (of_nat (gs ! i) :: u32) = gs ! i" if "i < ?n" for i
      using bound[OF that] G by (simp add: unat_of_nat)
    ultimately show ?thesis
      unfolding first_rows_minimal_def by (simp add: gs_def)
  qed
  with grp show ?thesis unfolding r2g cur by blast
qed

section \<open>Both sort builds are groupings\<close>

lemma segment_loop_scan:
  "0 < i \<Longrightarrow> i \<le> length rows \<Longrightarrow>
     segment_loop (fst (rows ! (i - 1))) (drop i rows) cur r2g first =
     scan_bits (is_start (map fst rows)) i (drop i (map snd rows)) cur r2g first"
proof (induction "length rows - i" arbitrary: i cur r2g first)
  case (Suc m)
  then have i: "i < length rows" by simp
  have dr: "drop i rows = (fst (rows ! i), snd (rows ! i)) # drop (Suc i) rows"
    "drop i (map snd rows) = snd (rows ! i) # drop (Suc i) (map snd rows)"
    using i by (simp_all add: Cons_nth_drop_Suc drop_map flip: list.map(2))
  have st: "is_start (map fst rows) i \<longleftrightarrow> fst (rows ! i) \<noteq> fst (rows ! (i - 1))"
    using Suc.prems i by (simp add: is_start_def)
  have IH: "segment_loop (fst (rows ! (Suc i - 1))) (drop (Suc i) rows) cur' r2g' first' =
     scan_bits (is_start (map fst rows)) (Suc i) (drop (Suc i) (map snd rows)) cur' r2g' first'" for cur' r2g' first'
    by (rule Suc.hyps(1)) (use Suc.hyps(2) i in simp_all)
  show ?case
    unfolding dr segment_loop.simps scan_bits.simps Let_def
    using IH st Suc.prems(1) by simp
qed simp

lemma arrangement_sort: "arrangement keys (sort_key fst (zip keys (map of_nat [0..<length keys])))"
  by (simp add: arrangement_def)

lemma segment_build_grouping:
  assumes "\<forall>launch < 17. schedule_ok (length keys) (sched launch)" "length keys < 2 ^ 32 - 1"
  shows "\<exists>b. segment_build sched keys = Some b \<and> grouping keys b \<and> first_rows_minimal b"
proof (cases "keys = []")
  case True
  then show ?thesis by (simp add: segment_build_def empty_build_def grouping_def first_rows_minimal_def)
next
  case False
  let ?rows = "sort_key fst (zip keys (map of_nat [0..<length keys] :: u32 list))"
  have sorts: "radix_passes sched keys = ?rows" using assms(1) by (intro radix_passes_sorts) simp
  have l32: "length keys < 2 ^ 32" using assms(2) by simp
  note ar = arrangement_rows[OF arrangement_sort l32]
  obtain r2g first cur where scan: "scan_bits (is_start (map fst ?rows)) 0 (map snd ?rows) 0 (replicate (length keys) 0) [] = (r2g, first, cur)"
    using prod_cases3 by blast
  have "schedule_ok (length (map fst ?rows)) (sched 16)" using assms(1) ar(1) by simp
  then have "segment_scan (slice_of_words (segment_starts (map fst ?rows) (sched 16))) 0 (map snd ?rows) 0 (replicate (length keys) 0) [] =
      Some (r2g, first, cur)"
    unfolding scan[symmetric]
  proof (intro segment_scan_bits segment_starts_bit)
    have "unat (snd r) < length keys" if "r \<in> set ?rows" for r using that ar(3) by (metis in_set_conv_nth)
    then show "\<forall>idx \<in> set (map snd ?rows). unat idx < length (replicate (length keys) (0 :: u32))" by auto
  qed (use ar(1) in auto)
  with segment_grouping[OF arrangement_sort assms(2) False scan] show ?thesis
    using False by (simp add: segment_build_def sorts Let_def)
qed

definition lawful_sort :: "((u128 \<times> u32) list \<Rightarrow> (u128 \<times> u32) list) \<Rightarrow> bool" where
  "lawful_sort srt \<longleftrightarrow> (\<forall>xs. mset (srt xs) = mset xs \<and> sorted (map fst (srt xs)))"

lemma cpu_sort_segment_grouping:
  assumes "lawful_sort srt" "length keys < 2 ^ 32 - 1"
  shows "grouping keys (cpu_sort_segment srt keys)"
proof (cases "keys = []")
  case True
  then show ?thesis by (simp add: cpu_sort_segment_def empty_build_def grouping_def)
next
  case False
  let ?rows = "srt (zip keys (map of_nat [0..<length keys] :: u32 list))"
  have arr: "arrangement keys ?rows" using assms(1) by (simp add: lawful_sort_def arrangement_def)
  obtain r2g first cur where scan: "scan_bits (is_start (map fst ?rows)) 0 (map snd ?rows) 0 (replicate (length keys) 0) [] = (r2g, first, cur)"
    using prod_cases3 by blast
  have "length keys < 2 ^ 32" using assms(2) by simp
  then have ne: "?rows \<noteq> []" using arrangement_rows(1)[OF arr] False by auto
  then obtain k r rest where rows: "?rows = (k, r) # rest" by (cases ?rows) auto
  have "segment_loop (fst (?rows ! 0)) (drop 1 ?rows) 0 ((replicate (length keys) 0)[unat r := 0]) [r] =
      scan_bits (is_start (map fst ?rows)) 1 (drop 1 (map snd ?rows)) 0 ((replicate (length keys) 0)[unat r := 0]) [r]"
    using segment_loop_scan[of 1 ?rows] ne by (simp add: Suc_le_eq)
  also have "\<dots> = (r2g, first, cur)" using scan rows by simp
  finally have "segment_loop k rest 0 ((replicate (length keys) 0)[unat r := 0]) [r] = (r2g, first, cur)"
    using rows by simp
  with segment_grouping[OF arr assms(2) False scan] False rows show ?thesis
    by (simp add: cpu_sort_segment_def)
qed

interpretation rdx: first_row_builder "\<lambda>keys. the (segment_build sched keys)"
  "\<lambda>keys. (\<forall>launch < 17. schedule_ok (length keys) (sched launch)) \<and> length keys < 2 ^ 32 - 1" for sched
  by (standard; use segment_build_grouping in fastforce)

interpretation css: group_builder "cpu_sort_segment srt" "\<lambda>keys. lawful_sort srt \<and> length keys < 2 ^ 32 - 1" for srt
  by (standard; use cpu_sort_segment_grouping in blast)

lemma sort_and_segment_Inr:
  assumes "\<forall>launch < 17. schedule_ok (length keys) (sched launch)" "length keys < 2 ^ 32 - 1"
  shows "sort_and_segment sched keys = Some (Inr (the (segment_build sched keys)))"
  using segment_build_grouping[OF assms] assms(2) by (auto simp: sort_and_segment_def u32_max_def segment_build_def)

section \<open>Properties\<close>

text \<open>C12. The GPU radix sort is a stable sort: for any order in which the threads of its scatters write,
  the sixteen passes arrange the rows by their 128-bit keys and keep equal keys in input order; a
  row count that does not fit 32 bits is an error.\<close>

theorem radix_sort_stable:
  assumes "\<forall>lane < 16. schedule_ok (length keys) (sched lane)"
  shows "sort_u128 sched keys =
    (if length keys > u32_max then Inl RowOverflow else Inr (sort_key fst (zip keys (map of_nat [0..<length keys]))))"
  using radix_passes_sorts[OF assms] by (auto simp: sort_u128_def u32_max_def)

lemma radix_sort_stable_witness:
  "sort_u128 (\<lambda>_. [2, 0, 1]) [7, 2 ^ 100, 7] = Inr [(7, 0), (7, 2), (2 ^ 100, 1)]"
proof -
  have "\<forall>lane < (16::nat). schedule_ok (length [7, 2 ^ 100, 7 :: u128]) [2, 0, 1]"
    by (simp add: schedule_ok_def upt_rec)
  from radix_sort_stable[of "[7, 2 ^ 100, 7]" "\<lambda>_. [2, 0, 1]", OF this] show ?thesis
    by (simp add: upt_rec u32_max_def)
qed

text \<open>C16. The sort build meets the contract of the build phase: one group per distinct key, represented
  by its first row, whatever the schedules; the CPU reference numbers the same groups under any
  sort, stable or not.\<close>

theorem sort_build_correct:
  assumes "\<forall>launch < 17. schedule_ok (length keys) (sched launch)" and "length keys < 2 ^ 32 - 1" and "lawful_sort srt"
  shows "\<exists>b. sort_and_segment sched keys = Some (Inr b) \<and> grouping keys b \<and> first_rows_minimal b \<and>
    grouping keys (cpu_sort_segment srt keys) \<and>
    (\<forall>i < length keys. \<forall>j < length keys.
       row_to_group b ! i = row_to_group b ! j \<longleftrightarrow>
       row_to_group (cpu_sort_segment srt keys) ! i = row_to_group (cpu_sort_segment srt keys) ! j)"
  using sort_and_segment_Inr[OF assms(1,2)]
    rdx.builds[where sched = sched and keys = keys] rdx.builds_first[where sched = sched and keys = keys]
    css.builds[where srt = srt and keys = keys]
    rdx.same_groups[where sched = sched and keys = keys and b = "cpu_sort_segment srt keys"] assms by blast

lemma sort_build_correct_witness:
  "\<exists>b. sort_and_segment (\<lambda>_. [0, 1, 2]) [9, 4, 9] = Some (Inr b) \<and> grouping [9, 4, 9 :: u128] b"
proof -
  have s: "\<forall>launch < (17::nat). schedule_ok (length [9, 4, 9 :: u128]) [0, 1, 2]"
    by (simp add: schedule_ok_def upt_rec)
  have l: "length [9, 4, 9 :: u128] < 2 ^ 32 - 1" by simp
  have "lawful_sort (sort_key fst)" by (simp add: lawful_sort_def)
  from sort_build_correct[of "[9, 4, 9]" "\<lambda>_. [0, 1, 2]", OF s l this] show ?thesis by blast
qed

end
