(* ===== verification/Aggs.thy ===== *)
theory Aggs
  imports Bitmap Build
begin

text \<open>Models the CPU aggregators of \<open>polars-metal-kernels/src/groupby.rs\<close> (\<open>aggregate_*_cpu\<close>, \<open>compute_mean_*\<close>).
  They run under rayon: the rows are split into contiguous ranges in a way the library chooses, each
  range is folded from the identity, and the partial results are combined pairwise. The split is a
  parameter here. Floats are bit patterns: comparison and NaN tests are defined on the bits, addition
  and division are parameters.\<close>

section \<open>IEEE comparison on bit patterns\<close>

type_synonym f32 = "32 word"
type_synonym f64 = "64 word"

definition fmag :: "'a::len word \<Rightarrow> 'a word" where
  "fmag x = x AND mask (LENGTH('a) - 1)"

definition fneg :: "'a::len word \<Rightarrow> bool" where
  "fneg x \<longleftrightarrow> bit x (LENGTH('a) - 1)"

text \<open>The numeric order of the non-NaN patterns, with the two zeros equal.\<close>

definition fval :: "'a::len word \<Rightarrow> int" where
  "fval x = (if fneg x then - uint (fmag x) else uint (fmag x))"

text \<open>\<open>pinf\<close> is the pattern of positive infinity: a larger magnitude is a NaN.\<close>

definition is_nan :: "'a::len word \<Rightarrow> 'a word \<Rightarrow> bool" where
  "is_nan pinf x \<longleftrightarrow> pinf < fmag x"

definition flt :: "'a::len word \<Rightarrow> 'a word \<Rightarrow> 'a word \<Rightarrow> bool" where
  "flt pinf x y \<longleftrightarrow> \<not> is_nan pinf x \<and> \<not> is_nan pinf y \<and> fval x < fval y"

definition f64_infinity :: f64 where "f64_infinity = 0x7FF0000000000000"
definition f64_neg_infinity :: f64 where "f64_neg_infinity = 0xFFF0000000000000"
definition f64_nan :: f64 where "f64_nan = 0x7FF8000000000000"
definition f32_infinity :: f32 where "f32_infinity = 0x7F800000"
definition f32_neg_infinity :: f32 where "f32_neg_infinity = 0xFF800000"

record 'w float_ops =
  fadd :: "'w \<Rightarrow> 'w \<Rightarrow> 'w"
  fdiv :: "'w \<Rightarrow> 'w \<Rightarrow> 'w"
  of_unsigned :: "nat \<Rightarrow> 'w"
  of_signed :: "int \<Rightarrow> 'w"

section \<open>rayon's fold and reduce\<close>

datatype work_split = Items nat | Halves work_split work_split

fun work :: "work_split \<Rightarrow> nat" where
  "work (Items k) = k"
| "work (Halves l r) = work l + work r"

fun par_fold :: "'a \<Rightarrow> ('a \<Rightarrow> nat \<Rightarrow> 'a) \<Rightarrow> ('a \<Rightarrow> 'a \<Rightarrow> 'a) \<Rightarrow> work_split \<Rightarrow> nat \<Rightarrow> 'a" where
  "par_fold idn f op (Items k) i = op idn (foldl f idn [i..<i + k])"
| "par_fold idn f op (Halves l r) i = op (par_fold idn f op l i) (par_fold idn f op r (i + work l))"

text \<open>How the library splits \<open>0..n\<close>: any way, as long as the ranges cover it.\<close>

definition lawful_split :: "(nat \<Rightarrow> work_split) \<Rightarrow> bool" where
  "lawful_split sp \<longleftrightarrow> (\<forall>n. work (sp n) = n)"

section \<open>One accumulator per group\<close>

text \<open>The body of the fold: a row that does not count, or whose group is out of range, is skipped.\<close>

definition group_step ::
  "('a \<Rightarrow> 'v \<Rightarrow> 'a) \<Rightarrow> (nat \<Rightarrow> bool) \<Rightarrow> (nat \<Rightarrow> 'v) \<Rightarrow> u32 list \<Rightarrow> nat \<Rightarrow> 'a list \<Rightarrow> nat \<Rightarrow> 'a list" where
  "group_step upd ok val r2g ng local i =
     (if \<not> ok i then local
      else let g = unat (r2g ! i) in
        if g < ng then local[g := upd (local ! g) (val i)] else local)"

definition par_group ::
  "'a \<Rightarrow> ('a \<Rightarrow> 'v \<Rightarrow> 'a) \<Rightarrow> ('a \<Rightarrow> 'a \<Rightarrow> 'a) \<Rightarrow> work_split \<Rightarrow> (nat \<Rightarrow> bool) \<Rightarrow> (nat \<Rightarrow> 'v) \<Rightarrow> u32 list \<Rightarrow> nat \<Rightarrow> 'a list" where
  "par_group idn upd op t ok val r2g ng =
     par_fold (replicate ng idn) (group_step upd ok val r2g ng) (map2 op) t 0"

section \<open>The aggregators\<close>

definition n_agg_rows :: "'v list \<Rightarrow> u32 list \<Rightarrow> nat" where
  "n_agg_rows values r2g = min (length values) (length r2g)"

definition aggregate_sum_f64_cpu :: "f64 float_ops \<Rightarrow> (nat \<Rightarrow> work_split) \<Rightarrow> f64 list \<Rightarrow> bytes \<Rightarrow> u32 list \<Rightarrow> nat \<Rightarrow> f64 list" where
  "aggregate_sum_f64_cpu F sp values valid r2g ng =
     par_group 0 (fadd F) (fadd F) (sp (n_agg_rows values r2g)) (get_valid valid) ((!) values) r2g ng"

definition aggregate_sum_i64_cpu :: "(nat \<Rightarrow> work_split) \<Rightarrow> 64 word list \<Rightarrow> bytes \<Rightarrow> u32 list \<Rightarrow> nat \<Rightarrow> 64 word list" where
  "aggregate_sum_i64_cpu sp values valid r2g ng =
     par_group 0 (+) (+) (sp (n_agg_rows values r2g)) (get_valid valid) ((!) values) r2g ng"

definition i64_max :: "64 word" where "i64_max = 0x7FFFFFFFFFFFFFFF"
definition i64_min :: "64 word" where "i64_min = 0x8000000000000000"

fun upd_min_i64 :: "64 word \<times> bool \<Rightarrow> 64 word \<Rightarrow> 64 word \<times> bool" where
  "upd_min_i64 (a, h) v = (if v <s a then v else a, True)"

fun op_min_i64 :: "64 word \<times> bool \<Rightarrow> 64 word \<times> bool \<Rightarrow> 64 word \<times> bool" where
  "op_min_i64 (a, ha) (b, hb) = (if b <s a then b else a, ha \<or> hb)"

fun upd_max_i64 :: "64 word \<times> bool \<Rightarrow> 64 word \<Rightarrow> 64 word \<times> bool" where
  "upd_max_i64 (a, h) v = (if a <s v then v else a, True)"

fun op_max_i64 :: "64 word \<times> bool \<Rightarrow> 64 word \<times> bool \<Rightarrow> 64 word \<times> bool" where
  "op_max_i64 (a, ha) (b, hb) = (if a <s b then b else a, ha \<or> hb)"

definition aggregate_min_i64_cpu :: "(nat \<Rightarrow> work_split) \<Rightarrow> 64 word list \<Rightarrow> bytes \<Rightarrow> u32 list \<Rightarrow> nat \<Rightarrow> 64 word list \<times> bool list" where
  "aggregate_min_i64_cpu sp values valid r2g ng =
     (let acc = par_group (i64_max, False) upd_min_i64 op_min_i64 (sp (n_agg_rows values r2g)) (get_valid valid) ((!) values) r2g ng
      in (map fst acc, map snd acc))"

definition aggregate_max_i64_cpu :: "(nat \<Rightarrow> work_split) \<Rightarrow> 64 word list \<Rightarrow> bytes \<Rightarrow> u32 list \<Rightarrow> nat \<Rightarrow> 64 word list \<times> bool list" where
  "aggregate_max_i64_cpu sp values valid r2g ng =
     (let acc = par_group (i64_min, False) upd_max_i64 op_max_i64 (sp (n_agg_rows values r2g)) (get_valid valid) ((!) values) r2g ng
      in (map fst acc, map snd acc))"

text \<open>Minimum and maximum of doubles: a NaN poisons the group.\<close>

definition pick_f64 :: "(f64 \<Rightarrow> f64 \<Rightarrow> bool) \<Rightarrow> f64 \<Rightarrow> f64 \<Rightarrow> f64" where
  "pick_f64 better a v =
     (if is_nan f64_infinity v \<or> is_nan f64_infinity a then f64_nan
      else if better v a then v else a)"

fun upd_f64 :: "(f64 \<Rightarrow> f64 \<Rightarrow> bool) \<Rightarrow> f64 \<times> bool \<Rightarrow> f64 \<Rightarrow> f64 \<times> bool" where
  "upd_f64 better (a, h) v = (pick_f64 better a v, True)"

fun op_f64 :: "(f64 \<Rightarrow> f64 \<Rightarrow> bool) \<Rightarrow> f64 \<times> bool \<Rightarrow> f64 \<times> bool \<Rightarrow> f64 \<times> bool" where
  "op_f64 better (a, ha) (b, hb) = (pick_f64 better a b, ha \<or> hb)"

definition lt_f64 :: "f64 \<Rightarrow> f64 \<Rightarrow> bool" where
  "lt_f64 x y = flt f64_infinity x y"

definition gt_f64 :: "f64 \<Rightarrow> f64 \<Rightarrow> bool" where
  "gt_f64 x y = flt f64_infinity y x"

definition aggregate_min_f64_cpu :: "(nat \<Rightarrow> work_split) \<Rightarrow> f64 list \<Rightarrow> bytes \<Rightarrow> u32 list \<Rightarrow> nat \<Rightarrow> f64 list \<times> bool list" where
  "aggregate_min_f64_cpu sp values valid r2g ng =
     (let acc = par_group (f64_infinity, False) (upd_f64 lt_f64) (op_f64 lt_f64) (sp (n_agg_rows values r2g)) (get_valid valid) ((!) values) r2g ng
      in (map fst acc, map snd acc))"

definition aggregate_max_f64_cpu :: "(nat \<Rightarrow> work_split) \<Rightarrow> f64 list \<Rightarrow> bytes \<Rightarrow> u32 list \<Rightarrow> nat \<Rightarrow> f64 list \<times> bool list" where
  "aggregate_max_f64_cpu sp values valid r2g ng =
     (let acc = par_group (f64_neg_infinity, False) (upd_f64 gt_f64) (op_f64 gt_f64) (sp (n_agg_rows values r2g)) (get_valid valid) ((!) values) r2g ng
      in (map fst acc, map snd acc))"

definition aggregate_count_cpu :: "(nat \<Rightarrow> work_split) \<Rightarrow> bytes \<Rightarrow> u32 list \<Rightarrow> nat \<Rightarrow> u64 list" where
  "aggregate_count_cpu sp valid r2g ng =
     par_group 0 (\<lambda>a _. a + 1) (+) (sp (length r2g)) (get_valid valid) (\<lambda>_. ()) r2g ng"

definition aggregate_len_cpu :: "(nat \<Rightarrow> work_split) \<Rightarrow> u32 list \<Rightarrow> nat \<Rightarrow> u64 list" where
  "aggregate_len_cpu sp r2g ng =
     par_group 0 (\<lambda>a _. a + 1) (+) (sp (length r2g)) (\<lambda>_. True) (\<lambda>_. ()) r2g ng"

text \<open>The means: null for an empty group. Sums and counts of both widths go through the float
  conversions of the target width.\<close>

definition mean_of :: "'w float_ops \<Rightarrow> ('s \<Rightarrow> 'w) \<Rightarrow> 's \<Rightarrow> 'c::len word \<Rightarrow> 'w option" where
  "mean_of F conv s c = (if c = 0 then None else Some (fdiv F (conv s) (of_unsigned F (unat c))))"

definition compute_mean_f64 :: "f64 float_ops \<Rightarrow> f64 list \<Rightarrow> u64 list \<Rightarrow> f64 option list" where
  "compute_mean_f64 F sums counts = map2 (mean_of F id) sums counts"

definition compute_mean_i64 :: "f64 float_ops \<Rightarrow> 64 word list \<Rightarrow> u64 list \<Rightarrow> f64 option list" where
  "compute_mean_i64 F sums counts = map2 (mean_of F (\<lambda>s. of_signed F (sint s))) sums counts"

definition compute_mean_f32 :: "f32 float_ops \<Rightarrow> f32 list \<Rightarrow> u32 list \<Rightarrow> f32 option list" where
  "compute_mean_f32 F sums counts = map2 (mean_of F id) sums counts"

definition compute_mean_i32 :: "f32 float_ops \<Rightarrow> 32 word list \<Rightarrow> u32 list \<Rightarrow> f32 option list" where
  "compute_mean_i32 F sums counts = map2 (mean_of F (\<lambda>s. of_signed F (sint s))) sums counts"

section \<open>The contract of a parallel aggregate\<close>

text \<open>The counting rows of a group, in row order.\<close>

definition rows_in :: "(nat \<Rightarrow> bool) \<Rightarrow> u32 list \<Rightarrow> nat \<Rightarrow> nat \<Rightarrow> nat list" where
  "rows_in ok r2g n g = filter (\<lambda>i. ok i \<and> unat (r2g ! i) = g) [0..<n]"

definition vals_in :: "(nat \<Rightarrow> bool) \<Rightarrow> (nat \<Rightarrow> 'v) \<Rightarrow> u32 list \<Rightarrow> nat \<Rightarrow> nat \<Rightarrow> 'v list" where
  "vals_in ok val r2g n g = map val (rows_in ok r2g n g)"

lemma group_step_length [simp]: "length (group_step upd ok val r2g ng l i) = length l"
  by (simp add: group_step_def Let_def)

lemma group_fold_length [simp]: "length (foldl (group_step upd ok val r2g ng) l is) = length l"
  by (induction "is" arbitrary: l) simp_all

lemma group_fold_nth:
  "g < ng \<Longrightarrow> length l = ng \<Longrightarrow>
     foldl (group_step upd ok val r2g ng) l is ! g =
     foldl upd (l ! g) (map val (filter (\<lambda>i. ok i \<and> unat (r2g ! i) = g) is))"
proof (induction "is" arbitrary: l)
  case (Cons i "is")
  have "group_step upd ok val r2g ng l i ! g =
    (if ok i \<and> unat (r2g ! i) = g then upd (l ! g) (val i) else l ! g)"
    using Cons.prems by (simp add: group_step_def Let_def nth_list_update_if)
  with Cons show ?case by simp
qed simp

locale parallel_agg =
  fixes idn :: "'a" and upd :: "'a \<Rightarrow> 'v \<Rightarrow> 'a" and op :: "'a \<Rightarrow> 'a \<Rightarrow> 'a"
  assumes combine: "op (foldl upd idn xs) (foldl upd idn ys) = foldl upd idn (xs @ ys)"
begin

lemma combine_idn: "op idn (foldl upd idn ys) = foldl upd idn ys"
  using combine[of "[]" ys] by simp

lemma par_fold_length:
  "length (par_fold (replicate n idn) (group_step upd ok val r2g n) (map2 op) t i) = n"
  by (induction t arbitrary: i) simp_all

lemma par_fold_nth:
  assumes "g < n"
  shows "par_fold (replicate n idn) (group_step upd ok val r2g n) (map2 op) t i ! g =
    foldl upd idn (map val (filter (\<lambda>i. ok i \<and> unat (r2g ! i) = g) [i..<i + work t]))"
proof (induction t arbitrary: i)
  case (Items k)
  then show ?case using assms by (simp add: group_fold_nth combine_idn)
next
  case (Halves l r)
  have "[i..<i + work (Halves l r)] = [i..<i + work l] @ [i + work l..<i + work l + work r]"
    by (simp add: add.assoc[symmetric] flip: upt_add_eq_append)
  then show ?case
    using assms Halves by (simp add: par_fold_length combine)
qed

text \<open>Whatever the split, a group's result is the sequential fold over its counting rows.\<close>

lemma par_group_eq:
  "par_group idn upd op t ok val r2g ng =
     map (\<lambda>g. foldl upd idn (vals_in ok val r2g (work t) g)) [0..<ng]"
  by (rule list_eq_by_nth) (simp_all add: par_group_def par_fold_length par_fold_nth vals_in_def rows_in_def)

end


text \<open>The selection every minimum and maximum repeats.\<close>

definition keep :: "('w \<Rightarrow> 'w \<Rightarrow> bool) \<Rightarrow> 'w \<Rightarrow> 'w \<Rightarrow> 'w" where
  "keep better a v = (if better v a then v else a)"

lemma foldl_assoc:
  assumes "\<And>a b c. f (f a b) c = f a (f b c)"
  shows "f a (foldl f b ys) = foldl f (f a b) ys"
  by (induction ys arbitrary: b) (simp_all add: assms)

lemma foldl_keep_mem: "foldl (keep better) a vs \<in> insert a (set vs)"
proof (induction vs arbitrary: a)
  case (Cons v vs)
  then show ?case using Cons[of "keep better a v"] by (auto simp: keep_def split: if_splits)
qed simp

lemma foldl_keep_best:
  fixes k :: "'w \<Rightarrow> 'o::linorder"
  assumes "\<And>x y. better x y \<longleftrightarrow> k x < k y"
  shows "\<forall>x \<in> insert a (set vs). k (foldl (keep better) a vs) \<le> k x"
proof (induction vs arbitrary: a)
  case (Cons v vs)
  have "k (keep better a v) \<le> k a" "k (keep better a v) \<le> k v" by (auto simp: keep_def assms)
  then show ?case using Cons[of "keep better a v"] by auto
qed simp

text \<open>Starting from a value no better than any other, the result is one of the values, and the best.\<close>

lemma foldl_keep_from_worst:
  fixes k :: "'w \<Rightarrow> 'o::linorder"
  assumes "\<And>x y. better x y \<longleftrightarrow> k x < k y" and "\<forall>x \<in> set vs. k x \<le> k idn" and "vs \<noteq> []"
  shows "k (foldl (keep better) idn vs) = Min (k ` set vs)"
proof -
  let ?r = "foldl (keep better) idn vs"
  have best: "\<forall>x \<in> set vs. k ?r \<le> k x" using foldl_keep_best[where k = k, OF assms(1)] by blast
  have "k ?r \<in> k ` set vs"
  proof (cases "?r \<in> set vs")
    case False
    then have "?r = idn" using foldl_keep_mem by (metis insertE)
    moreover obtain v where "v \<in> set vs" using assms(3) by (cases vs) auto
    ultimately show ?thesis using best assms(2) by (intro image_eqI[of _ _ v]) (auto intro: antisym)
  qed simp
  then show ?thesis using best by (intro Min_eqI[symmetric]) auto
qed

lemma keep_assoc:
  fixes k :: "'w \<Rightarrow> 'o::linorder"
  assumes "\<And>x y. better x y \<longleftrightarrow> k x < k y"
  shows "keep better (keep better a b) c = keep better a (keep better b c)"
  by (auto simp: keep_def assms)

text \<open>Tracking whether a group had a value.\<close>

lemma foldl_tracked:
  assumes "\<And>a h v. upd (a, h) v = (f a v, True)"
  shows "foldl upd (a, h) vs = (foldl f a vs, h \<or> vs \<noteq> [])"
  by (induction vs arbitrary: a h) (simp_all add: assms)

lemma parallel_agg_tracked:
  assumes upd: "\<And>a h v. upd (a, h) v = (f a v, True)"
    and op: "\<And>a ha b hb. op (a, ha) (b, hb) = (f a b, ha \<or> hb)"
    and assoc: "\<And>a b c. f (f a b) c = f a (f b c)"
    and idn: "\<And>xs. f (foldl f idn xs) idn = foldl f idn xs"
  shows "parallel_agg (idn, False) upd op"
proof
  fix xs ys
  have "f (foldl f idn xs) (foldl f idn ys) = foldl f (foldl f idn xs) ys"
    using foldl_assoc[of f "foldl f idn xs" idn ys] assoc idn by simp
  then show "op (foldl upd (idn, False) xs) (foldl upd (idn, False) ys) = foldl upd (idn, False) (xs @ ys)"
    using foldl_tracked[of upd f, OF upd] by (simp add: op)
qed

lemma foldl_plus_sum_list: "foldl (+) (a :: 'a::comm_monoid_add) xs = a + sum_list xs"
  by (induction xs arbitrary: a) (simp_all add: add.assoc)

lemma foldl_count: "foldl (\<lambda>a _. a + 1) (a :: 'a::len word) xs = a + of_nat (length xs)"
  by (induction xs arbitrary: a) (simp_all add: algebra_simps)

interpretation sum64: parallel_agg "0 :: 64 word" "(+)" "(+)"
  by standard (simp add: foldl_plus_sum_list)

interpretation cnt: parallel_agg "0 :: u64" "\<lambda>a (_::unit). a + 1" "(+)"
  by standard (simp add: foldl_count)

lemma i64_bounds: "sint v \<le> sint i64_max" "sint i64_min \<le> sint v" for v :: "64 word"
  using sint_less[of v] sint_ge[of v] by (simp_all add: i64_max_def i64_min_def)

definition lt_i64 :: "64 word \<Rightarrow> 64 word \<Rightarrow> bool" where "lt_i64 x y \<longleftrightarrow> x <s y"
definition gt_i64 :: "64 word \<Rightarrow> 64 word \<Rightarrow> bool" where "gt_i64 x y \<longleftrightarrow> y <s x"

lemma lt_i64_key: "lt_i64 x y \<longleftrightarrow> sint x < sint y" by (simp add: lt_i64_def word_sless_alt)
lemma gt_i64_key: "gt_i64 x y \<longleftrightarrow> - sint x < - sint y" by (simp add: gt_i64_def word_sless_alt)

lemma keep_idn_i64:
  "keep lt_i64 a i64_max = a" "keep gt_i64 a i64_min = a"
  using i64_bounds[of a] by (simp_all add: keep_def lt_i64_key gt_i64_key)

interpretation min64: parallel_agg "(i64_max, False)" upd_min_i64 op_min_i64
  by (rule parallel_agg_tracked[where f = "keep lt_i64"])
    (simp_all add: keep_idn_i64 keep_assoc[where k = sint, OF lt_i64_key], simp_all add: keep_def lt_i64_def)

interpretation max64: parallel_agg "(i64_min, False)" upd_max_i64 op_max_i64
  by (rule parallel_agg_tracked[where f = "keep gt_i64"])
    (simp_all add: keep_idn_i64 keep_assoc[where k = "\<lambda>x. - sint x", OF gt_i64_key], simp_all add: keep_def gt_i64_def)


section \<open>Doubles\<close>

lemma f64_consts [simp]:
  "\<not> is_nan f64_infinity f64_infinity" "\<not> is_nan f64_infinity f64_neg_infinity" "is_nan f64_infinity f64_nan"
  by (simp_all add: is_nan_def fmag_def f64_infinity_def f64_neg_infinity_def f64_nan_def mask_eq_exp_minus_1)

lemma fval_range:
  assumes "\<not> is_nan pinf x"
  shows "- uint pinf \<le> fval x \<and> fval x \<le> uint pinf"
proof -
  have "uint (fmag x) \<le> uint pinf" using assms by (simp add: is_nan_def word_less_def)
  moreover have "0 \<le> uint (fmag x)" "0 \<le> uint pinf" by (rule uint_ge_0)+
  ultimately show ?thesis unfolding fval_def by (cases "fneg x"; simp only: if_True if_False; linarith)
qed

lemma fval_inf: "fval f64_infinity = uint f64_infinity" "fval f64_neg_infinity = - uint f64_infinity"
  by (simp_all add: fval_def fneg_def fmag_def f64_infinity_def f64_neg_infinity_def mask_eq_exp_minus_1)

lemma fval_bounds:
  assumes "\<not> is_nan f64_infinity x"
  shows "fval x \<le> fval f64_infinity" "fval f64_neg_infinity \<le> fval x"
  using fval_range[OF assms] by (simp_all only: fval_inf)

lemma pick_f64_nan [simp]:
  "is_nan f64_infinity (pick_f64 better a b) \<longleftrightarrow> is_nan f64_infinity a \<or> is_nan f64_infinity b"
  by (simp add: pick_f64_def)

lemma pick_f64_assoc:
  assumes "\<And>x y. better x y \<longleftrightarrow> \<not> is_nan f64_infinity x \<and> \<not> is_nan f64_infinity y \<and> (k x :: int) < k y"
  shows "pick_f64 better (pick_f64 better a b) c = pick_f64 better a (pick_f64 better b c)"
  by (auto simp: pick_f64_def assms)

lemma foldl_pick:
  assumes "\<not> is_nan f64_infinity a"
  shows "foldl (pick_f64 better) a vs =
    (if \<exists>v \<in> set vs. is_nan f64_infinity v then f64_nan else foldl (keep better) a vs)"
proof (cases "\<exists>v \<in> set vs. is_nan f64_infinity v")
  case True
  have nan: "foldl (pick_f64 better) f64_nan vs = f64_nan" for vs
    by (induction vs) (simp_all add: pick_f64_def)
  from True show ?thesis using assms
  proof (induction vs arbitrary: a)
    case (Cons v vs)
    show ?case
    proof (cases "is_nan f64_infinity v")
      case True
      then have "pick_f64 better a v = f64_nan" by (simp add: pick_f64_def)
      then show ?thesis using True by (simp add: nan)
    next
      case False
      with Cons.prems have "\<not> is_nan f64_infinity (pick_f64 better a v)" by simp
      with Cons False show ?thesis by simp
    qed
  qed simp
next
  case False
  then show ?thesis using assms
  proof (induction vs arbitrary: a)
    case (Cons v vs)
    have "pick_f64 better a v = keep better a v"
      using Cons.prems by (simp add: pick_f64_def keep_def)
    moreover from this Cons.prems have "\<not> is_nan f64_infinity (keep better a v)"
      using pick_f64_nan[of better a v] by simp
    ultimately show ?case using Cons by simp
  qed simp
qed

lemma fold_pick_idn:
  assumes "\<not> is_nan f64_infinity idn" and "\<And>x. \<not> better idn x"
  shows "pick_f64 better (foldl (pick_f64 better) idn xs) idn = foldl (pick_f64 better) idn xs"
proof -
  let ?r = "foldl (pick_f64 better) idn xs"
  have "is_nan f64_infinity ?r \<longrightarrow> ?r = f64_nan"
    using foldl_keep_mem[of better idn xs] assms(1) by (auto simp: foldl_pick[OF assms(1)])
  then show ?thesis using assms by (auto simp: pick_f64_def)
qed

lemma lt_f64_inf: "\<not> lt_f64 f64_infinity x" "\<not> gt_f64 f64_neg_infinity x"
  using fval_bounds[of x] by (auto simp: lt_f64_def gt_f64_def flt_def)

lemma lt_f64_key:
  "lt_f64 x y \<longleftrightarrow> \<not> is_nan f64_infinity x \<and> \<not> is_nan f64_infinity y \<and> fval x < fval y"
  "gt_f64 x y \<longleftrightarrow> \<not> is_nan f64_infinity x \<and> \<not> is_nan f64_infinity y \<and> - fval x < - fval y"
  by (auto simp: lt_f64_def gt_f64_def flt_def)

interpretation minf64: parallel_agg "(f64_infinity, False)" "upd_f64 lt_f64" "op_f64 lt_f64"
  by (rule parallel_agg_tracked[where f = "pick_f64 lt_f64"])
    (simp_all add: fold_pick_idn lt_f64_inf pick_f64_assoc[where k = fval, OF lt_f64_key(1)])

interpretation maxf64: parallel_agg "(f64_neg_infinity, False)" "upd_f64 gt_f64" "op_f64 gt_f64"
  by (rule parallel_agg_tracked[where f = "pick_f64 gt_f64"])
    (simp_all add: fold_pick_idn lt_f64_inf pick_f64_assoc[where k = "\<lambda>x. - fval x", OF lt_f64_key(2)])


section \<open>Properties\<close>

text \<open>The values a double sum adds, as a summation tree whose leaves are in row order.\<close>

datatype 'w sum_tree = Zero | Value 'w | Plus "'w sum_tree" "'w sum_tree"

fun tree_eval :: "('w::zero \<Rightarrow> 'w \<Rightarrow> 'w) \<Rightarrow> 'w sum_tree \<Rightarrow> 'w" where
  "tree_eval add Zero = 0"
| "tree_eval add (Value v) = v"
| "tree_eval add (Plus a b) = add (tree_eval add a) (tree_eval add b)"

fun tree_leaves :: "'w sum_tree \<Rightarrow> 'w list" where
  "tree_leaves Zero = []"
| "tree_leaves (Value v) = [v]"
| "tree_leaves (Plus a b) = tree_leaves a @ tree_leaves b"

lemma foldl_tree: "\<exists>t'. tree_leaves t' = tree_leaves t @ vs \<and> tree_eval add t' = foldl add (tree_eval add t) vs"
proof (induction vs arbitrary: t)
  case Nil
  then show ?case by auto
next
  case (Cons v vs)
  from Cons[of "Plus t (Value v)"] show ?case by simp
qed

lemma par_fold_tree:
  assumes "g < n"
  shows "length (par_fold (replicate n 0) (group_step add ok val r2g n) (map2 add) sp i) = n \<and>
    (\<exists>t. tree_leaves t = map val (filter (\<lambda>i. ok i \<and> unat (r2g ! i) = g) [i..<i + work sp]) \<and>
       tree_eval add t = par_fold (replicate n 0) (group_step add ok val r2g n) (map2 add) sp i ! g)"
proof (induction sp arbitrary: i)
  case (Items k)
  obtain t where "tree_leaves t = map val (filter (\<lambda>i. ok i \<and> unat (r2g ! i) = g) [i..<i + k])"
    "tree_eval add t = foldl add 0 (map val (filter (\<lambda>i. ok i \<and> unat (r2g ! i) = g) [i..<i + k]))"
    using foldl_tree[of Zero] by fastforce
  then show ?case using assms by (intro conjI exI[of _ "Plus Zero t"]) (simp_all add: group_fold_nth)
next
  case (Halves l r)
  obtain a b where "tree_leaves a = map val (filter (\<lambda>i. ok i \<and> unat (r2g ! i) = g) [i..<i + work l])"
    "tree_eval add a = par_fold (replicate n 0) (group_step add ok val r2g n) (map2 add) l i ! g"
    "tree_leaves b = map val (filter (\<lambda>i. ok i \<and> unat (r2g ! i) = g) [i + work l..<i + work l + work r])"
    "tree_eval add b = par_fold (replicate n 0) (group_step add ok val r2g n) (map2 add) r (i + work l) ! g"
    using Halves.IH(1)[of i] Halves.IH(2)[of "i + work l"] by blast
  moreover have "[i..<i + work (Halves l r)] = [i..<i + work l] @ [i + work l..<i + work l + work r]"
    by (simp add: add.assoc[symmetric] flip: upt_add_eq_append)
  ultimately show ?case
    using assms Halves.IH by (intro conjI exI[of _ "Plus a b"]) simp_all
qed

lemma selected_i64:
  assumes "vs \<noteq> []"
  shows "sint (fst (foldl upd_min_i64 (i64_max, False) vs)) = Min (sint ` set vs)"
    and "sint (fst (foldl upd_max_i64 (i64_min, False) vs)) = Max (sint ` set vs)"
proof -
  have t: "foldl upd_min_i64 (i64_max, False) vs = (foldl (keep lt_i64) i64_max vs, vs \<noteq> [])"
    "foldl upd_max_i64 (i64_min, False) vs = (foldl (keep gt_i64) i64_min vs, vs \<noteq> [])"
    using foldl_tracked[of upd_min_i64 "keep lt_i64"] foldl_tracked[of upd_max_i64 "keep gt_i64"]
    by (simp_all add: keep_def lt_i64_def gt_i64_def)
  show "sint (fst (foldl upd_min_i64 (i64_max, False) vs)) = Min (sint ` set vs)"
    using foldl_keep_from_worst[of lt_i64 sint vs i64_max, OF lt_i64_key] assms i64_bounds by (simp add: t)
  have "- sint (foldl (keep gt_i64) i64_min vs) = Min ((\<lambda>x. - sint x) ` set vs)"
    using foldl_keep_from_worst[of gt_i64 "\<lambda>x. - sint x" vs i64_min, OF gt_i64_key] assms i64_bounds by simp
  also have "\<dots> = - Max (sint ` set vs)"
    using assms by (simp add: Max_eq_iff image_image Min_eq_iff)
  finally show "sint (fst (foldl upd_max_i64 (i64_min, False) vs)) = Max (sint ` set vs)" by (simp add: t)
qed

lemma tracked_snd:
  "snd (foldl upd_min_i64 (a, h) vs) \<longleftrightarrow> h \<or> vs \<noteq> []" "snd (foldl upd_max_i64 (a, h) vs) \<longleftrightarrow> h \<or> vs \<noteq> []"
  by (induction vs arbitrary: a h) auto


text \<open>The values of a group that an aggregate over a column counts.\<close>

definition col_vals :: "'v list \<Rightarrow> bytes \<Rightarrow> u32 list \<Rightarrow> nat \<Rightarrow> 'v list" where
  "col_vals values valid r2g g = vals_in (get_valid valid) ((!) values) r2g (n_agg_rows values r2g) g"

lemma lawful_work: "lawful_split sp \<Longrightarrow> work (sp n) = n"
  by (simp add: lawful_split_def)

lemma selected_f64:
  assumes "vs \<noteq> []" and "\<forall>v \<in> set vs. \<not> is_nan f64_infinity v"
  shows "fval (foldl (keep lt_f64) f64_infinity vs) = Min (fval ` set vs)"
    and "fval (foldl (keep gt_f64) f64_neg_infinity vs) = Max (fval ` set vs)"
proof -
  have clean: "foldl (keep b) a vs = foldl (keep b') a vs"
    if "\<not> is_nan f64_infinity a" "\<And>x y. \<not> is_nan f64_infinity x \<Longrightarrow> \<not> is_nan f64_infinity y \<Longrightarrow> b x y = b' x y" for a b b'
    using assms(2) that(1)
  proof (induction vs arbitrary: a)
    case (Cons v vs)
    have "keep b a v = keep b' a v" "\<not> is_nan f64_infinity (keep b' a v)"
      using Cons.prems that(2) by (simp_all add: keep_def)
    with Cons show ?case by simp
  qed simp
  have "foldl (keep lt_f64) f64_infinity vs = foldl (keep (\<lambda>x y. fval x < fval y)) f64_infinity vs"
    by (rule clean) (simp_all add: lt_f64_key)
  then show "fval (foldl (keep lt_f64) f64_infinity vs) = Min (fval ` set vs)"
    using foldl_keep_from_worst[of "\<lambda>x y. fval x < fval y" fval vs f64_infinity] assms fval_bounds by simp
  have "foldl (keep gt_f64) f64_neg_infinity vs = foldl (keep (\<lambda>x y. - fval x < - fval y)) f64_neg_infinity vs"
    by (rule clean) (simp_all add: lt_f64_key)
  then have "- fval (foldl (keep gt_f64) f64_neg_infinity vs) = Min ((\<lambda>x. - fval x) ` set vs)"
    using foldl_keep_from_worst[of "\<lambda>x y. - fval x < - fval y" "\<lambda>x. - fval x" vs f64_neg_infinity] assms fval_bounds by simp
  also have "\<dots> = - Max (fval ` set vs)"
    using assms(1) by (simp add: Max_eq_iff image_image Min_eq_iff)
  finally show "fval (foldl (keep gt_f64) f64_neg_infinity vs) = Max (fval ` set vs)" by simp
qed

lemma int_aggregates:
  assumes "lawful_split sp"
  shows "aggregate_sum_i64_cpu sp values valid r2g ng = map (\<lambda>g. sum_list (col_vals values valid r2g g)) [0..<ng] \<and>
    (\<forall>g < ng. let vs = col_vals values valid r2g g; (mins, mv) = aggregate_min_i64_cpu sp values valid r2g ng;
        (maxs, xv) = aggregate_max_i64_cpu sp values valid r2g ng in
      mv ! g = (vs \<noteq> []) \<and> xv ! g = (vs \<noteq> []) \<and>
      (vs \<noteq> [] \<longrightarrow> sint (mins ! g) = Min (sint ` set vs) \<and> sint (maxs ! g) = Max (sint ` set vs))) \<and>
    aggregate_count_cpu sp valid r2g ng =
      map (\<lambda>g. of_nat (length (rows_in (get_valid valid) r2g (length r2g) g))) [0..<ng] \<and>
    aggregate_len_cpu sp r2g ng = map (\<lambda>g. of_nat (length (rows_in (\<lambda>_. True) r2g (length r2g) g))) [0..<ng]"
  by (simp add: aggregate_sum_i64_cpu_def aggregate_min_i64_cpu_def aggregate_max_i64_cpu_def
      aggregate_count_cpu_def aggregate_len_cpu_def sum64.par_group_eq min64.par_group_eq max64.par_group_eq
      cnt.par_group_eq lawful_work[OF assms] col_vals_def foldl_plus_sum_list foldl_count selected_i64 tracked_snd
      vals_in_def[of _ "\<lambda>_. ()"] Let_def)

text \<open>C26. The 64-bit integer aggregates do not depend on how the rows are split over threads: sums
  wrap, a minimum or maximum is that of the group's non-null values and is marked invalid exactly
  when there is none, counts count the non-null rows and lengths all rows.\<close>

theorem cpu_integer_aggregates:
  assumes "lawful_split sp"
  shows "aggregate_sum_i64_cpu sp values valid r2g ng = map (\<lambda>g. sum_list (col_vals values valid r2g g)) [0..<ng] \<and>
    (\<forall>g < ng. let vs = col_vals values valid r2g g; (mins, mv) = aggregate_min_i64_cpu sp values valid r2g ng;
        (maxs, xv) = aggregate_max_i64_cpu sp values valid r2g ng in
      mv ! g = (vs \<noteq> []) \<and> xv ! g = (vs \<noteq> []) \<and>
      (vs \<noteq> [] \<longrightarrow> sint (mins ! g) = Min (sint ` set vs) \<and> sint (maxs ! g) = Max (sint ` set vs))) \<and>
    aggregate_count_cpu sp valid r2g ng =
      map (\<lambda>g. of_nat (length (rows_in (get_valid valid) r2g (length r2g) g))) [0..<ng] \<and>
    aggregate_len_cpu sp r2g ng = map (\<lambda>g. of_nat (length (rows_in (\<lambda>_. True) r2g (length r2g) g))) [0..<ng]"
  by (rule int_aggregates[OF assms])

definition half_split :: "nat \<Rightarrow> work_split" where
  "half_split n = Halves (Items (n div 2)) (Items (n - n div 2))"

lemma half_split_lawful: "lawful_split half_split"
  by (simp add: lawful_split_def half_split_def)

lemma cpu_integer_aggregates_witness:
  "aggregate_sum_i64_cpu half_split [5, 7, 9, - 20] [0b1101] [0, 0, 0, 1] 2 = [14, - 20] \<and>
   aggregate_count_cpu half_split [0b1101] [0, 0, 0, 1] 2 = [2, 1]"
proof -
  have eval: "map (\<lambda>g. sum_list (col_vals [5, 7, 9, - 20 :: 64 word] [0b1101] [0, 0, 0, 1] g)) [0..<2] = [14, - 20]"
    "map (\<lambda>g. of_nat (length (rows_in (get_valid [0b1101]) [0, 0, 0, 1] (length [0, 0, 0, 1 :: u32]) g))) [0..<2] = [2, 1 :: u64]"
    by code_simp+
  note agg = cpu_integer_aggregates[OF half_split_lawful, of "[5, 7, 9, - 20]" "[0b1101]" "[0, 0, 0, 1]" 2]
  show ?thesis
    using agg[THEN conjunct1] agg[THEN conjunct2, THEN conjunct2, THEN conjunct1] unfolding eval by (rule conjI)
qed

lemma f64_extrema:
  assumes "lawful_split sp" and "g < ng"
  shows "let vs = col_vals values valid r2g g; (mins, mv) = aggregate_min_f64_cpu sp values valid r2g ng;
      (maxs, xv) = aggregate_max_f64_cpu sp values valid r2g ng in
    mv ! g = (vs \<noteq> []) \<and> xv ! g = (vs \<noteq> []) \<and>
    (if \<exists>v \<in> set vs. is_nan f64_infinity v then mins ! g = f64_nan \<and> maxs ! g = f64_nan
     else vs = [] \<or> fval (mins ! g) = Min (fval ` set vs) \<and> fval (maxs ! g) = Max (fval ` set vs))"
proof -
  have t: "foldl (upd_f64 b) (a, h) vs = (foldl (pick_f64 b) a vs, h \<or> vs \<noteq> [])" for a b h vs
    by (rule foldl_tracked) simp
  show ?thesis
    using assms(2) selected_f64[of "col_vals values valid r2g g"]
    by (auto simp: aggregate_min_f64_cpu_def aggregate_max_f64_cpu_def minf64.par_group_eq maxf64.par_group_eq
        lawful_work[OF assms(1)] t foldl_pick Let_def simp flip: col_vals_def)
qed

text \<open>C27. The minimum and maximum of doubles are poisoned by a NaN and are otherwise numerically the least
  and greatest of the group's non-null values, for any split of the rows.\<close>

theorem cpu_f64_extrema:
  assumes "lawful_split sp" and "g < ng"
  shows "let vs = col_vals values valid r2g g; (mins, mv) = aggregate_min_f64_cpu sp values valid r2g ng;
      (maxs, xv) = aggregate_max_f64_cpu sp values valid r2g ng in
    mv ! g = (vs \<noteq> []) \<and> xv ! g = (vs \<noteq> []) \<and>
    (if \<exists>v \<in> set vs. is_nan f64_infinity v then mins ! g = f64_nan \<and> maxs ! g = f64_nan
     else vs = [] \<or> fval (mins ! g) = Min (fval ` set vs) \<and> fval (maxs ! g) = Max (fval ` set vs))"
  by (rule f64_extrema[OF assms])

lemma cpu_f64_extrema_witness:
  "fst (aggregate_min_f64_cpu half_split [0x3FF0000000000000, 0x7FF8000000000001] [0b11] [0, 0] 1) ! 0 = f64_nan"
proof -
  have "col_vals [0x3FF0000000000000, 0x7FF8000000000001 :: f64] [0b11] [0, 0] 0 = [0x3FF0000000000000, 0x7FF8000000000001]"
    by code_simp
  moreover have "is_nan f64_infinity (0x7FF8000000000001 :: f64)"
    by (simp add: is_nan_def fmag_def f64_infinity_def mask_eq_exp_minus_1)
  ultimately show ?thesis
    using cpu_f64_extrema[OF half_split_lawful, of 0 1 "[0x3FF0000000000000, 0x7FF8000000000001]" "[0b11]" "[0, 0]"]
    by (simp add: Let_def split: prod.splits)
qed

text \<open>Arithmetic on the bits stands in for floats where a concrete instance is wanted.\<close>

definition demo_ops :: "'a::len word float_ops" where
  "demo_ops = \<lparr>fadd = (+), fdiv = (div), of_unsigned = of_nat, of_signed = of_int\<rparr>"

lemma f64_sum_and_means:
  assumes "lawful_split sp" and "g < ng" and "length r2g \<le> length values" and "length r2g < 2 ^ 64"
  shows "(\<exists>t. tree_leaves t = col_vals values valid r2g g \<and>
      aggregate_sum_f64_cpu F sp values valid r2g ng ! g = tree_eval (fadd F) t) \<and>
    compute_mean_f64 F (aggregate_sum_f64_cpu F sp values valid r2g ng) (aggregate_count_cpu sp valid r2g ng) ! g =
      (let vs = col_vals values valid r2g g in
       if vs = [] then None
       else Some (fdiv F (aggregate_sum_f64_cpu F sp values valid r2g ng ! g) (of_unsigned F (length vs)))) \<and>
    compute_mean_i64 F (aggregate_sum_i64_cpu sp values valid r2g ng) (aggregate_count_cpu sp valid r2g ng) ! g =
      (let vs = col_vals values valid r2g g in
       if vs = [] then None else Some (fdiv F (of_signed F (sint (sum_list vs))) (of_unsigned F (length vs))))"
proof -
  let ?vs = "col_vals values valid r2g g"
  obtain t where t: "tree_leaves t = ?vs" "aggregate_sum_f64_cpu F sp values valid r2g ng ! g = tree_eval (fadd F) t"
    using par_fold_tree[OF assms(2), of "fadd F" "get_valid valid" "(!) values" r2g "sp (n_agg_rows values r2g)" 0]
    by (auto simp: aggregate_sum_f64_cpu_def par_group_def col_vals_def vals_in_def rows_in_def lawful_work[OF assms(1)])
  have len: "length (aggregate_sum_f64_cpu F sp values valid r2g ng) = ng"
    unfolding aggregate_sum_f64_cpu_def par_group_def by (rule conjunct1[OF par_fold_tree[OF assms(2)]])
  have n: "n_agg_rows values r2g = length r2g" using assms(3) by (simp add: n_agg_rows_def)
  have lvs: "length (rows_in (get_valid valid) r2g (length r2g) g) = length ?vs"
    by (simp add: col_vals_def vals_in_def n)
  have "length ?vs \<le> length r2g" unfolding lvs[symmetric] rows_in_def by (metis length_filter_le length_upt minus_nat.diff_0)
  then have u: "unat (of_nat (length ?vs) :: u64) = length ?vs" using assms(4) by (simp add: unat_of_nat)
  then have c: "(of_nat (length ?vs) :: u64) = 0 \<longleftrightarrow> ?vs = []"
    by (metis length_0_conv unat_0 unat_eq_zero)
  have cnt: "aggregate_count_cpu sp valid r2g ng ! g = of_nat (length ?vs)" "length (aggregate_count_cpu sp valid r2g ng) = ng"
    using assms(2) by (simp_all add: aggregate_count_cpu_def cnt.par_group_eq foldl_count lawful_work[OF assms(1)] vals_in_def lvs)
  have sum: "aggregate_sum_i64_cpu sp values valid r2g ng ! g = sum_list ?vs" "length (aggregate_sum_i64_cpu sp values valid r2g ng) = ng"
    using assms(2) by (simp_all add: aggregate_sum_i64_cpu_def sum64.par_group_eq foldl_plus_sum_list lawful_work[OF assms(1)] col_vals_def)
  show ?thesis
    using t len cnt sum c u assms(2) by (auto simp: compute_mean_f64_def compute_mean_i64_def mean_of_def Let_def)
qed

text \<open>C28. A sum of doubles adds exactly the group's non-null values, in row order, in some grouping of
  the additions that the split chooses; and the means are null exactly for groups without values,
  and otherwise the quotient of the sum by the count.\<close>

theorem cpu_f64_sum_and_means:
  assumes "lawful_split sp" and "g < ng" and "length r2g \<le> length values" and "length r2g < 2 ^ 64"
  shows "(\<exists>t. tree_leaves t = col_vals values valid r2g g \<and>
      aggregate_sum_f64_cpu F sp values valid r2g ng ! g = tree_eval (fadd F) t) \<and>
    compute_mean_f64 F (aggregate_sum_f64_cpu F sp values valid r2g ng) (aggregate_count_cpu sp valid r2g ng) ! g =
      (let vs = col_vals values valid r2g g in
       if vs = [] then None
       else Some (fdiv F (aggregate_sum_f64_cpu F sp values valid r2g ng ! g) (of_unsigned F (length vs)))) \<and>
    compute_mean_i64 F (aggregate_sum_i64_cpu sp values valid r2g ng) (aggregate_count_cpu sp valid r2g ng) ! g =
      (let vs = col_vals values valid r2g g in
       if vs = [] then None else Some (fdiv F (of_signed F (sint (sum_list vs))) (of_unsigned F (length vs))))"
  by (rule f64_sum_and_means[OF assms])

lemma cpu_f64_sum_and_means_witness:
  "compute_mean_i64 demo_ops (aggregate_sum_i64_cpu half_split [4, 8, 9] [0b101] [0, 1, 0] 2)
     (aggregate_count_cpu half_split [0b101] [0, 1, 0] 2) ! 0 = Some 6"
proof -
  have "col_vals [4, 8, 9 :: 64 word] [0b101] [0, 1, 0] 0 = [4, 9]"
    by code_simp
  moreover have "fdiv demo_ops (of_signed demo_ops (sint (13 :: 64 word))) (of_unsigned demo_ops (Suc (Suc 0))) = (6 :: f64)"
    by code_simp
  ultimately show ?thesis
    using cpu_f64_sum_and_means[of half_split "0" "2" "[0, 1, 0]" "[4, 8, 9]" "[0b101]" demo_ops, OF half_split_lawful] by (simp add: Let_def)
qed

end
