(* ===== verification/Gpu_Aggs.thy ===== *)
theory Gpu_Aggs
  imports Aggs Keys Buffers
begin

text \<open>Models the 32-bit aggregation dispatchers of \<open>polars-metal-kernels/src/groupby.rs\<close>
  (\<open>dispatch_agg_*\<close>, \<open>dispatch_{sum,min,max}_*\<close>, \<open>dispatch_count_u32\<close>, \<open>dispatch_len_u32\<close>) with the kernels
  they launch, from \<open>shaders/aggregate.metal\<close>. A launch runs its threads in any order; a
  compare-and-swap loop takes effect as one step, at its successful exchange. Device failures
  (pipelines, command buffers) are not modelled; a zero-byte buffer request is.\<close>

section \<open>The runtime\<close>

text \<open>What the host does not control: the order of the threads of each kernel, the SIMD reductions of the
  Metal standard library, float arithmetic and the work splitting of rayon. The shaders are compiled with
  the default fast-math options, so the comparison of floats on the device, \<open>min\<close>, \<open>max\<close> and \<open>isinf\<close> are
  the device's own.\<close>

record runtime =
  order :: "string \<Rightarrow> nat \<Rightarrow> nat list"
  simd_sum :: "f32 list \<Rightarrow> f32"
  simd_min :: "f32 list \<Rightarrow> f32"
  simd_max :: "f32 list \<Rightarrow> f32"
  dev_less :: "f32 \<Rightarrow> f32 \<Rightarrow> bool"
  dev_min :: "f32 \<Rightarrow> f32 \<Rightarrow> f32"
  dev_max :: "f32 \<Rightarrow> f32 \<Rightarrow> f32"
  dev_isinf :: "f32 \<Rightarrow> bool"
  ops32 :: "f32 float_ops"
  ops64 :: "f64 float_ops"
  splits :: "nat \<Rightarrow> work_split"

datatype group_by_error =
    KeyEncode key_encode_error
  | Buffer buffer_err
  | OutputTooShort nat nat
  | RowCountOverflow nat
  | AggTypeMismatch string string

section \<open>One thread per row, one atomic per thread\<close>

text \<open>The kernels do not check the group: a row whose group is not below the number of groups is a write past
  the end of the buffer.\<close>

fun agg_kernel ::
  "('w \<Rightarrow> 'v \<Rightarrow> 'w) \<Rightarrow> (nat \<Rightarrow> bool) \<Rightarrow> (nat \<Rightarrow> 'v) \<Rightarrow> u32 list \<Rightarrow> 'w list \<Rightarrow> nat list \<Rightarrow> 'w list option" where
  "agg_kernel rmw ok val r2g out [] = Some out"
| "agg_kernel rmw ok val r2g out (gid # sched) =
     (if \<not> ok gid then agg_kernel rmw ok val r2g out sched
      else if unat (r2g ! gid) < length out
      then agg_kernel rmw ok val r2g (out[unat (r2g ! gid) := rmw (out ! unat (r2g ! gid)) (val gid)]) sched
      else None)"

text \<open>The result buffer is copied over the first groups of the caller's slice.\<close>

definition copy_back :: "'w list \<Rightarrow> 'w list \<Rightarrow> 'w list" where
  "copy_back res out = res @ drop (length res) out"

definition agg_checks ::
  "nat \<Rightarrow> nat option \<Rightarrow> nat \<Rightarrow> nat option \<Rightarrow> nat \<Rightarrow> nat \<Rightarrow> group_by_error + unit" where
  "agg_checks n_rows n_values n_r2g n_valid n_out ng =
     rbind (ensure (n_rows \<le> u32_max) (RowCountOverflow n_rows)) (\<lambda>_.
     rbind (case n_values of None \<Rightarrow> Inr () | Some k \<Rightarrow> ensure (n_rows \<le> k) (OutputTooShort k n_rows)) (\<lambda>_.
     rbind (ensure (n_rows \<le> n_r2g) (OutputTooShort n_r2g n_rows)) (\<lambda>_.
     rbind (case n_valid of None \<Rightarrow> Inr ()
            | Some k \<Rightarrow> ensure (div_ceil n_rows 8 \<le> k) (OutputTooShort k (div_ceil n_rows 8))) (\<lambda>_.
     rbind (ensure (ng \<le> n_out) (OutputTooShort n_out ng)) (\<lambda>_.
     ensure (ng \<noteq> 0) (Buffer (AllocationFailed 0)))))))"

definition dispatch_agg_i32 ::
  "runtime \<Rightarrow> 32 word list \<Rightarrow> bytes \<Rightarrow> u32 list \<Rightarrow> nat \<Rightarrow> nat \<Rightarrow> 32 word list \<Rightarrow> string \<Rightarrow> (32 word \<Rightarrow> 32 word \<Rightarrow> 32 word) \<Rightarrow> 32 word \<Rightarrow>
     (group_by_error + 32 word list) option" where
  "dispatch_agg_i32 rt values valid r2g n_rows ng out kname rmw init =
     (if n_rows = 0 then Some (Inr out)
      else obind (Some (agg_checks n_rows (Some (length values)) (length r2g) (Some (length valid)) (length out) ng)) (\<lambda>_.
        map_option (\<lambda>res. Inr (copy_back res out))
          (agg_kernel rmw (get_valid valid) ((!) values) r2g (replicate ng init) (order rt kname n_rows))))"

text \<open>The kernels' read-modify-write operations on signed and unsigned words.\<close>

definition rmw_min_i32 :: "32 word \<Rightarrow> 32 word \<Rightarrow> 32 word" where "rmw_min_i32 a v = (if v <s a then v else a)"
definition rmw_max_i32 :: "32 word \<Rightarrow> 32 word \<Rightarrow> 32 word" where "rmw_max_i32 a v = (if a <s v then v else a)"

definition i32_max :: "32 word" where "i32_max = 0x7FFFFFFF"
definition i32_min :: "32 word" where "i32_min = 0x80000000"

definition dispatch_sum_i32 :: "runtime \<Rightarrow> 32 word list \<Rightarrow> bytes \<Rightarrow> u32 list \<Rightarrow> nat \<Rightarrow> nat \<Rightarrow> 32 word list \<Rightarrow> (group_by_error + 32 word list) option" where
  "dispatch_sum_i32 rt values valid r2g n_rows ng out =
     dispatch_agg_i32 rt values valid r2g n_rows ng out ''agg_sum_i32'' (+) 0"

definition dispatch_min_i32 :: "runtime \<Rightarrow> 32 word list \<Rightarrow> bytes \<Rightarrow> u32 list \<Rightarrow> nat \<Rightarrow> nat \<Rightarrow> 32 word list \<Rightarrow> (group_by_error + 32 word list) option" where
  "dispatch_min_i32 rt values valid r2g n_rows ng out =
     dispatch_agg_i32 rt values valid r2g n_rows ng out ''agg_min_i32'' rmw_min_i32 i32_max"

definition dispatch_max_i32 :: "runtime \<Rightarrow> 32 word list \<Rightarrow> bytes \<Rightarrow> u32 list \<Rightarrow> nat \<Rightarrow> nat \<Rightarrow> 32 word list \<Rightarrow> (group_by_error + 32 word list) option" where
  "dispatch_max_i32 rt values valid r2g n_rows ng out =
     dispatch_agg_i32 rt values valid r2g n_rows ng out ''agg_max_i32'' rmw_max_i32 i32_min"

definition dispatch_agg_u32 ::
  "runtime \<Rightarrow> u32 list \<Rightarrow> bytes \<Rightarrow> u32 list \<Rightarrow> nat \<Rightarrow> nat \<Rightarrow> u32 list \<Rightarrow> string \<Rightarrow> (u32 \<Rightarrow> u32 \<Rightarrow> u32) \<Rightarrow> u32 \<Rightarrow> (group_by_error + u32 list) option" where
  "dispatch_agg_u32 rt values valid r2g n_rows ng out kname rmw init =
     (if n_rows = 0 then Some (Inr out)
      else obind (Some (agg_checks n_rows (Some (length values)) (length r2g) (Some (length valid)) (length out) ng)) (\<lambda>_.
        map_option (\<lambda>res. Inr (copy_back res out))
          (agg_kernel rmw (get_valid valid) ((!) values) r2g (replicate ng init) (order rt kname n_rows))))"

definition dispatch_sum_u32 :: "runtime \<Rightarrow> u32 list \<Rightarrow> bytes \<Rightarrow> u32 list \<Rightarrow> nat \<Rightarrow> nat \<Rightarrow> u32 list \<Rightarrow> (group_by_error + u32 list) option" where
  "dispatch_sum_u32 rt values valid r2g n_rows ng out =
     dispatch_agg_u32 rt values valid r2g n_rows ng out ''agg_sum_u32'' (+) 0"

definition dispatch_min_u32 :: "runtime \<Rightarrow> u32 list \<Rightarrow> bytes \<Rightarrow> u32 list \<Rightarrow> nat \<Rightarrow> nat \<Rightarrow> u32 list \<Rightarrow> (group_by_error + u32 list) option" where
  "dispatch_min_u32 rt values valid r2g n_rows ng out =
     dispatch_agg_u32 rt values valid r2g n_rows ng out ''agg_min_u32'' min (- 1)"

definition dispatch_max_u32 :: "runtime \<Rightarrow> u32 list \<Rightarrow> bytes \<Rightarrow> u32 list \<Rightarrow> nat \<Rightarrow> nat \<Rightarrow> u32 list \<Rightarrow> (group_by_error + u32 list) option" where
  "dispatch_max_u32 rt values valid r2g n_rows ng out =
     dispatch_agg_u32 rt values valid r2g n_rows ng out ''agg_max_u32'' max 0"

definition dispatch_count_u32 :: "runtime \<Rightarrow> bytes \<Rightarrow> u32 list \<Rightarrow> nat \<Rightarrow> nat \<Rightarrow> u32 list \<Rightarrow> (group_by_error + u32 list) option" where
  "dispatch_count_u32 rt valid r2g n_rows ng out =
     (if n_rows = 0 then Some (Inr out)
      else obind (Some (agg_checks n_rows None (length r2g) (Some (length valid)) (length out) ng)) (\<lambda>_.
        map_option (\<lambda>res. Inr (copy_back res out))
          (agg_kernel (\<lambda>a _. a + 1) (get_valid valid) (\<lambda>_. ()) r2g (replicate ng 0) (order rt ''agg_count'' n_rows))))"

definition dispatch_len_u32 :: "runtime \<Rightarrow> u32 list \<Rightarrow> nat \<Rightarrow> nat \<Rightarrow> u32 list \<Rightarrow> (group_by_error + u32 list) option" where
  "dispatch_len_u32 rt r2g n_rows ng out =
     (if n_rows = 0 then Some (Inr out)
      else obind (Some (agg_checks n_rows None (length r2g) None (length out) ng)) (\<lambda>_.
        map_option (\<lambda>res. Inr (copy_back res out))
          (agg_kernel (\<lambda>a _. a + 1) (\<lambda>_. True) (\<lambda>_. ()) r2g (replicate ng 0) (order rt ''agg_len'' n_rows))))"

section \<open>Floats: two kernels\<close>

definition f32_agg_max_groups :: nat where "f32_agg_max_groups = 16"
definition f32_agg_tg_width :: nat where "f32_agg_tg_width = 256"
definition f32_agg_max_tgs :: nat where "f32_agg_max_tgs = 128"

text \<open>An aggregation over floats, as the six kernels instantiate it: the identity, the accumulation in
  a register, the reduction of a SIMD group, the sum over the SIMD groups of a threadgroup, the test
  that skips a threadgroup without contribution, and the device-side update.\<close>

record f32_agg =
  ident :: f32
  accum :: "f32 \<Rightarrow> f32 \<Rightarrow> f32"
  across :: "f32 list \<Rightarrow> f32"
  skips :: "f32 \<Rightarrow> bool"
  flush :: "f32 \<Rightarrow> f32 \<Rightarrow> f32"

text \<open>The rows thread \<open>tid\<close> of a grid of \<open>grid\<close> threads strides over, for one group.\<close>

definition strided_rows :: "nat \<Rightarrow> nat \<Rightarrow> nat \<Rightarrow> (nat \<Rightarrow> bool) \<Rightarrow> u32 list \<Rightarrow> nat \<Rightarrow> nat list" where
  "strided_rows grid tid n ok r2g g = filter (\<lambda>row. row mod grid = tid \<and> ok row \<and> unat (r2g ! row) = g) [0..<n]"

definition thread_partial :: "f32_agg \<Rightarrow> nat \<Rightarrow> nat \<Rightarrow> (nat \<Rightarrow> bool) \<Rightarrow> (nat \<Rightarrow> f32) \<Rightarrow> u32 list \<Rightarrow> nat \<Rightarrow> nat \<Rightarrow> f32" where
  "thread_partial A grid n ok val r2g g tid = foldl (accum A) (ident A) (map val (strided_rows grid tid n ok r2g g))"

definition simd_partial :: "f32_agg \<Rightarrow> nat \<Rightarrow> nat \<Rightarrow> (nat \<Rightarrow> bool) \<Rightarrow> (nat \<Rightarrow> f32) \<Rightarrow> u32 list \<Rightarrow> nat \<Rightarrow> nat \<Rightarrow> nat \<Rightarrow> f32" where
  "simd_partial A grid n ok val r2g g tg s =
     across A (map (\<lambda>lane. thread_partial A grid n ok val r2g g (tg * f32_agg_tg_width + s * 32 + lane)) [0..<32])"

definition tg_total :: "f32_agg \<Rightarrow> nat \<Rightarrow> nat \<Rightarrow> (nat \<Rightarrow> bool) \<Rightarrow> (nat \<Rightarrow> f32) \<Rightarrow> u32 list \<Rightarrow> nat \<Rightarrow> nat \<Rightarrow> f32" where
  "tg_total A grid n ok val r2g g tg =
     foldl (accum A) (ident A) (map (simd_partial A grid n ok val r2g g tg) [0..<f32_agg_tg_width div 32])"

text \<open>The flushes: thread 0 of every threadgroup updates every group, in some order.\<close>

definition prereduce_kernel ::
  "f32_agg \<Rightarrow> nat \<Rightarrow> nat \<Rightarrow> (nat \<Rightarrow> bool) \<Rightarrow> (nat \<Rightarrow> f32) \<Rightarrow> u32 list \<Rightarrow> nat \<Rightarrow> f32 list \<Rightarrow> nat list \<Rightarrow> f32 list" where
  "prereduce_kernel A n_tgs n ok val r2g ng out sched =
     foldl (\<lambda>out k. let g = k mod ng; t = tg_total A (n_tgs * f32_agg_tg_width) n ok val r2g g (k div ng) in
              if skips A t then out else out[g := flush A (out ! g) t]) out sched"

definition prereduce_tgs :: "nat \<Rightarrow> nat" where
  "prereduce_tgs n_rows = max 1 (min f32_agg_max_tgs (div_ceil n_rows f32_agg_tg_width))"

definition dispatch_agg_f32 ::
  "runtime \<Rightarrow> f32 list \<Rightarrow> bytes \<Rightarrow> u32 list \<Rightarrow> nat \<Rightarrow> nat \<Rightarrow> f32 list \<Rightarrow> string \<Rightarrow> f32_agg \<Rightarrow> (group_by_error + f32 list) option" where
  "dispatch_agg_f32 rt values valid r2g n_rows ng out kname A =
     (if n_rows = 0 then Some (Inr out)
      else obind (Some (agg_checks n_rows (Some (length values)) (length r2g) (Some (length valid)) (length out) ng)) (\<lambda>_.
        map_option (\<lambda>res. Inr (copy_back res out))
          (if ng \<le> f32_agg_max_groups
           then Some (prereduce_kernel A (prereduce_tgs n_rows) n_rows (get_valid valid) ((!) values) r2g ng (replicate ng (ident A))
             (order rt (kname @ ''_prereduce'') (prereduce_tgs n_rows * ng)))
           else agg_kernel (flush A) (get_valid valid) ((!) values) r2g (replicate ng (ident A)) (order rt kname n_rows))))"

definition sum_agg :: "runtime \<Rightarrow> f32_agg" where
  "sum_agg rt = \<lparr>ident = 0, accum = fadd (ops32 rt), across = simd_sum rt, skips = (\<lambda>t. fmag t = 0), flush = fadd (ops32 rt)\<rparr>"

definition min_agg :: "runtime \<Rightarrow> f32_agg" where
  "min_agg rt = \<lparr>ident = f32_infinity, accum = dev_min rt, across = simd_min rt,
     skips = (\<lambda>t. dev_isinf rt t \<and> dev_less rt 0 t), flush = keep (dev_less rt)\<rparr>"

definition max_agg :: "runtime \<Rightarrow> f32_agg" where
  "max_agg rt = \<lparr>ident = f32_neg_infinity, accum = dev_max rt, across = simd_max rt,
     skips = (\<lambda>t. dev_isinf rt t \<and> dev_less rt t 0), flush = keep (\<lambda>x y. dev_less rt y x)\<rparr>"

definition dispatch_sum_f32 :: "runtime \<Rightarrow> f32 list \<Rightarrow> bytes \<Rightarrow> u32 list \<Rightarrow> nat \<Rightarrow> nat \<Rightarrow> f32 list \<Rightarrow> (group_by_error + f32 list) option" where
  "dispatch_sum_f32 rt values valid r2g n_rows ng out =
     dispatch_agg_f32 rt values valid r2g n_rows ng out ''agg_sum_f32'' (sum_agg rt)"

definition dispatch_min_f32 :: "runtime \<Rightarrow> f32 list \<Rightarrow> bytes \<Rightarrow> u32 list \<Rightarrow> nat \<Rightarrow> nat \<Rightarrow> f32 list \<Rightarrow> (group_by_error + f32 list) option" where
  "dispatch_min_f32 rt values valid r2g n_rows ng out =
     dispatch_agg_f32 rt values valid r2g n_rows ng out ''agg_min_f32'' (min_agg rt)"

definition dispatch_max_f32 :: "runtime \<Rightarrow> f32 list \<Rightarrow> bytes \<Rightarrow> u32 list \<Rightarrow> nat \<Rightarrow> nat \<Rightarrow> f32 list \<Rightarrow> (group_by_error + f32 list) option" where
  "dispatch_max_f32 rt values valid r2g n_rows ng out =
     dispatch_agg_f32 rt values valid r2g n_rows ng out ''agg_max_f32'' (max_agg rt)"

section \<open>Atomic aggregation does not depend on the order\<close>

definition in_range :: "(nat \<Rightarrow> bool) \<Rightarrow> u32 list \<Rightarrow> nat list \<Rightarrow> nat \<Rightarrow> bool" where
  "in_range ok r2g rows ng \<longleftrightarrow> (\<forall>i \<in> set rows. ok i \<longrightarrow> unat (r2g ! i) < ng)"

lemma agg_kernel_in_range:
  "in_range ok r2g sched (length out) \<Longrightarrow>
     agg_kernel rmw ok val r2g out sched = Some (foldl (group_step rmw ok val r2g (length out)) out sched)"
proof (induction sched arbitrary: out)
  case (Cons i sched)
  then have tl: "in_range ok r2g sched (length out)" by (simp add: in_range_def)
  show ?case
  proof (cases "ok i")
    case True
    let ?out = "out[unat (r2g ! i) := rmw (out ! unat (r2g ! i)) (val i)]"
    have r: "unat (r2g ! i) < length out" using Cons.prems True by (simp add: in_range_def)
    have "agg_kernel rmw ok val r2g ?out sched = Some (foldl (group_step rmw ok val r2g (length out)) ?out sched)"
      using Cons.IH[of ?out] tl by simp
    moreover have "group_step rmw ok val r2g (length out) out i = ?out" using True r by (simp add: group_step_def Let_def)
    ultimately show ?thesis using True r by simp
  next
    case False
    then show ?thesis using Cons.IH[OF tl] by (simp add: group_step_def)
  qed
qed simp

lemma agg_kernel_overrun:
  "\<not> in_range ok r2g sched (length out) \<Longrightarrow> agg_kernel rmw ok val r2g out sched = None"
proof (induction sched arbitrary: out)
  case (Cons i sched)
  show ?case
  proof (cases "ok i \<and> \<not> unat (r2g ! i) < length out")
    case False
    then have "\<not> in_range ok r2g sched (length out)" using Cons.prems by (auto simp: in_range_def)
    then show ?thesis using False Cons.IH[of out] Cons.IH[of "out[unat (r2g ! i) := rmw (out ! unat (r2g ! i)) (val i)]"] by simp
  qed simp
qed (simp add: in_range_def)

lemma agg_kernel_Some:
  assumes "agg_kernel rmw ok val r2g out sched = Some res"
  shows "length res = length out" and "g < length out \<Longrightarrow>
    res ! g = foldl rmw (out ! g) (map val (filter (\<lambda>i. ok i \<and> unat (r2g ! i) = g) sched))"
proof -
  have "in_range ok r2g sched (length out)" using assms agg_kernel_overrun[of ok r2g sched out rmw val] by fastforce
  from agg_kernel_in_range[OF this, of rmw val] assms have res: "res = foldl (group_step rmw ok val r2g (length out)) out sched" by simp
  show "g < length out \<Longrightarrow> res ! g = foldl rmw (out ! g) (map val (filter (\<lambda>i. ok i \<and> unat (r2g ! i) = g) sched))"
    unfolding res by (rule group_fold_nth) simp_all
  have "length (foldl (group_step rmw ok val r2g n) out sched) = length out" for n
    by (induction sched arbitrary: out) (simp_all add: group_step_def Let_def)
  then show "length res = length out" unfolding res .
qed

lemma in_range_sched: "schedule_ok n sched \<Longrightarrow> in_range ok r2g sched ng \<longleftrightarrow> in_range ok r2g [0..<n] ng"
  using schedule_set[of n sched] by (auto simp: in_range_def)

locale atomic_agg =
  fixes init :: "'w" and rmw :: "'w \<Rightarrow> 'v \<Rightarrow> 'w"
  assumes commutes: "rmw (rmw a x) y = rmw (rmw a y) x"
begin

lemma kernel_eq:
  assumes "schedule_ok n sched"
  shows "agg_kernel rmw ok val r2g (replicate ng init) sched =
    (if in_range ok r2g [0..<n] ng then Some (map (\<lambda>g. foldl rmw init (vals_in ok val r2g n g)) [0..<ng]) else None)"
proof (cases "in_range ok r2g [0..<n] ng")
  case True
  then have "in_range ok r2g sched (length (replicate ng init))" using in_range_sched[OF assms] by simp
  from agg_kernel_in_range[OF this] obtain res where res: "agg_kernel rmw ok val r2g (replicate ng init) sched = Some res" by blast
  have "res = map (\<lambda>g. foldl rmw init (vals_in ok val r2g n g)) [0..<ng]"
  proof (rule list_eq_by_nth)
    fix g assume g: "g < length (map (\<lambda>g. foldl rmw init (vals_in ok val r2g n g)) [0..<ng])"
    let ?P = "\<lambda>i. ok i \<and> unat (r2g ! i) = g"
    have "mset (map val (filter ?P sched)) = mset (map val (filter ?P [0..<n]))"
      using schedule_filter_mset[OF assms, of ?P] by simp
    from foldl_mset[where f = rmw, OF commutes this]
    show "res ! g = map (\<lambda>g. foldl rmw init (vals_in ok val r2g n g)) [0..<ng] ! g"
      using g agg_kernel_Some(2)[OF res] by (simp add: vals_in_def rows_in_def)
  qed (simp add: agg_kernel_Some(1)[OF res])
  with res True show ?thesis by simp
next
  case False
  then show ?thesis using agg_kernel_overrun[of ok r2g sched "replicate ng init"] in_range_sched[OF assms] by simp
qed

end

definition lawful_order :: "runtime \<Rightarrow> bool" where
  "lawful_order rt \<longleftrightarrow> (\<forall>k n. schedule_ok n (order rt k n))"

lemma sint_rmw:
  "sint (rmw_min_i32 a v) = min (sint a) (sint v)" "sint (rmw_max_i32 a v) = max (sint a) (sint v)"
  by (simp_all add: rmw_min_i32_def rmw_max_i32_def word_sless_alt)

interpretation sum32: atomic_agg "0 :: 32 word" "(+)"
  by standard (simp add: add.commute add.left_commute)

interpretation min32: atomic_agg i32_max rmw_min_i32
  by (standard, rule signed_word_eqI[where 'a = int]) (simp add: sint_rmw min.commute min.left_commute)

interpretation max32: atomic_agg i32_min rmw_max_i32
  by (standard, rule signed_word_eqI[where 'a = int]) (simp add: sint_rmw max.commute max.left_commute)

interpretation minu32: atomic_agg "- 1 :: u32" min
  by standard (simp add: min.commute min.left_commute)

interpretation maxu32: atomic_agg "0 :: u32" max
  by standard (simp add: max.commute max.left_commute)

interpretation cnt32: atomic_agg "0 :: u32" "\<lambda>a (_::unit). a + 1"
  by standard simp

lemma foldl_best:
  fixes k :: "'w \<Rightarrow> 'o::linorder"
  assumes "\<And>a v. k (f a v) = min (k a) (k v)" and "\<forall>x \<in> set vs. k x \<le> k idn" and "vs \<noteq> []"
  shows "k (foldl f idn vs) = Min (k ` set vs)"
proof -
  have "k (foldl f a vs) = Min (insert (k a) (k ` set vs))" for a
  proof (induction vs arbitrary: a)
    case (Cons v vs)
    have "Min (insert (min (k a) (k v)) (k ` set vs)) = Min (insert (k a) (insert (k v) (k ` set vs)))"
      by (cases "vs = []") (simp_all add: min.assoc)
    with Cons show ?case by (simp add: assms(1))
  qed simp
  moreover obtain v where "v \<in> set vs" using assms(3) by (cases vs) auto
  then have "Min (k ` set vs) \<le> k idn" using assms(2) by (meson Min_le finite_imageI image_eqI List.finite_set order_trans)
  then have "Min (insert (k idn) (k ` set vs)) = Min (k ` set vs)"
    using assms(3) by (simp add: min_def antisym)
  ultimately show ?thesis by simp
qed

lemma i32_bounds: "sint v \<le> sint i32_max" "sint i32_min \<le> sint v" for v :: "32 word"
  using sint_less[of v] sint_ge[of v] by (simp_all add: i32_max_def i32_min_def)

lemma signed_extrema:
  assumes "vs \<noteq> []"
  shows "sint (foldl rmw_min_i32 i32_max vs) = Min (sint ` set vs)" "sint (foldl rmw_max_i32 i32_min vs) = Max (sint ` set vs)"
proof -
  show "sint (foldl rmw_min_i32 i32_max vs) = Min (sint ` set vs)"
    using foldl_best[of sint rmw_min_i32 vs i32_max] assms i32_bounds by (simp add: sint_rmw)
  have "- sint (foldl rmw_max_i32 i32_min vs) = Min ((\<lambda>x. - sint x) ` set vs)"
    using foldl_best[of "\<lambda>x. - sint x" rmw_max_i32 vs i32_min] assms i32_bounds by (simp add: sint_rmw)
  also have "\<dots> = - Max (sint ` set vs)" using assms by (simp add: Max_eq_iff image_image Min_eq_iff)
  finally show "sint (foldl rmw_max_i32 i32_min vs) = Max (sint ` set vs)" by simp
qed

lemma unsigned_extrema:
  assumes "vs \<noteq> []"
  shows "foldl min (- 1 :: u32) vs = Min (set vs)" "foldl max (0 :: u32) vs = Max (set vs)"
proof -
  show "foldl min (- 1 :: u32) vs = Min (set vs)"
    using foldl_best[of "\<lambda>x. x" min vs "- 1 :: u32"] assms by simp
  have "foldl max (0 :: u32) vs = Max (insert 0 (set vs))" for vs
    by (induction vs rule: rev_induct) (simp_all add: max.commute insert_commute)
  moreover have "Max (insert 0 (set vs)) = Max (set vs)"
    using assms by simp
  ultimately show "foldl max (0 :: u32) vs = Max (set vs)" by simp
qed

section \<open>Minimum and maximum of floats on the two routes\<close>

lemma f32_consts [simp]:
  "\<not> is_nan f32_infinity f32_infinity" "\<not> is_nan f32_infinity f32_neg_infinity"
  by (simp_all add: is_nan_def fmag_def f32_infinity_def f32_neg_infinity_def mask_eq_exp_minus_1)

lemma fval_inf32: "fval f32_infinity = uint f32_infinity" "fval f32_neg_infinity = - uint f32_infinity"
  by (simp_all add: fval_def fneg_def fmag_def f32_infinity_def f32_neg_infinity_def mask_eq_exp_minus_1)

lemma fval_bounds32:
  assumes "\<not> is_nan f32_infinity x"
  shows "fval x \<le> fval f32_infinity" "fval f32_neg_infinity \<le> fval x"
  using fval_range[OF assms] by (simp_all only: fval_inf32)

text \<open>\<open>summary k idn S r\<close>: when the values \<open>S\<close> are numbers, \<open>r\<close> is numerically the best of them and the
  identity. Nothing is known of values with a NaN among them.\<close>

definition numbers :: "f32 set \<Rightarrow> bool" where
  "numbers S \<longleftrightarrow> (\<forall>v \<in> S. \<not> is_nan f32_infinity v)"

definition summary :: "(f32 \<Rightarrow> int) \<Rightarrow> f32 \<Rightarrow> f32 set \<Rightarrow> f32 \<Rightarrow> bool" where
  "summary k idn S r \<longleftrightarrow> (numbers S \<longrightarrow> \<not> is_nan f32_infinity r \<and> k r \<le> k idn \<and> (\<forall>v \<in> S. k r \<le> k v) \<and>
     (k r = k idn \<or> (\<exists>v \<in> S. k r = k v)))"

lemma numbers_simps [simp]: "numbers {}" "numbers (insert v S) \<longleftrightarrow> \<not> is_nan f32_infinity v \<and> numbers S"
  "numbers (S \<union> T) \<longleftrightarrow> numbers S \<and> numbers T"
  by (auto simp: numbers_def)

lemma summary_Min:
  assumes "summary k idn S r" "finite S" "numbers S"
  shows "k r = Min (insert (k idn) (k ` S))"
  using assms by (intro Min_eqI[symmetric]) (auto simp: summary_def)

text \<open>The selections of the kernels: of two numbers the better one is kept.\<close>

definition selects :: "(f32 \<Rightarrow> int) \<Rightarrow> (f32 \<Rightarrow> f32 \<Rightarrow> f32) \<Rightarrow> bool" where
  "selects k f \<longleftrightarrow> (\<forall>a v. \<not> is_nan f32_infinity a \<and> \<not> is_nan f32_infinity v \<longrightarrow>
     \<not> is_nan f32_infinity (f a v) \<and> k (f a v) = min (k a) (k v))"

lemma summary_empty: "\<not> is_nan f32_infinity idn \<Longrightarrow> summary k idn {} idn"
  by (simp add: summary_def)

lemma summary_Un:
  "summary k idn S a \<Longrightarrow> summary k idn T b \<Longrightarrow> (\<not> is_nan f32_infinity a \<Longrightarrow> \<not> is_nan f32_infinity b \<Longrightarrow>
     k a \<le> k idn \<Longrightarrow> k b \<le> k idn \<Longrightarrow> \<not> is_nan f32_infinity r \<and> k r = min (k a) (k b)) \<Longrightarrow>
     summary k idn (S \<union> T) r"
  unfolding summary_def by (auto simp: min_def split: if_splits)

lemma summary_value:
  assumes "selects k f" and "summary k idn S a"
  shows "summary k idn (insert v S) (f a v)"
proof (cases "numbers (insert v S)")
  case True
  then have n: "numbers S" "\<not> is_nan f32_infinity v" by simp_all
  with assms(2) have a: "\<not> is_nan f32_infinity a" "k a \<le> k idn" "\<forall>v \<in> S. k a \<le> k v" "k a = k idn \<or> (\<exists>v \<in> S. k a = k v)"
    by (simp_all add: summary_def)
  have "\<not> is_nan f32_infinity (f a v)" "k (f a v) = min (k a) (k v)" using assms(1) a(1) n(2) by (simp_all add: selects_def)
  then show ?thesis using a by (auto simp: summary_def min_def)
next
  case False
  then show ?thesis unfolding summary_def by blast
qed

lemma summary_foldl:
  assumes "selects k f" "summary k idn S a"
  shows "summary k idn (S \<union> set vs) (foldl f a vs)"
  using assms(2)
proof (induction vs arbitrary: S a)
  case (Cons v vs)
  from Cons.IH[OF summary_value[OF assms(1) Cons.prems]] show ?case by simp
qed simp

text \<open>Combining partial results.\<close>

lemma summary_partials:
  assumes f: "selects k f" and "\<And>i. i \<in> set is \<Longrightarrow> summary k idn (P i) (r i)" and "summary k idn S a"
  shows "summary k idn (S \<union> (\<Union>i \<in> set is. P i)) (foldl f a (map r is))"
  using assms(2,3)
proof (induction "is" arbitrary: S a)
  case (Cons i "is")
  have i: "summary k idn (P i) (r i)" using Cons.prems(1) by simp
  have "summary k idn (S \<union> P i) (f a (r i))"
    by (rule summary_Un[OF Cons.prems(2) i]) (use f in \<open>simp add: selects_def\<close>)
  from Cons.IH[OF _ this] Cons.prems show ?case by (simp add: Un_assoc)
qed simp

text \<open>The SIMD reduction of the Metal library: the best of the 32 lanes.\<close>

definition simd_best :: "(f32 \<Rightarrow> int) \<Rightarrow> (f32 list \<Rightarrow> f32) \<Rightarrow> bool" where
  "simd_best k red \<longleftrightarrow> (\<forall>xs. length xs = 32 \<and> (\<forall>x \<in> set xs. \<not> is_nan f32_infinity x) \<longrightarrow>
     \<not> is_nan f32_infinity (red xs) \<and> k (red xs) = Min (k ` set xs))"

lemma summary_simd:
  assumes red: "simd_best k red" and "length is = 32" and parts: "\<And>i. i \<in> set is \<Longrightarrow> summary k idn (P i) (r i)"
  shows "summary k idn (\<Union>i \<in> set is. P i) (red (map r is))"
proof (cases "numbers (\<Union>i \<in> set is. P i)")
  case True
  then have part: "\<not> is_nan f32_infinity (r i) \<and> k (r i) \<le> k idn \<and> (\<forall>v \<in> P i. k (r i) \<le> k v) \<and> (k (r i) = k idn \<or> (\<exists>v \<in> P i. k (r i) = k v))"
    if "i \<in> set is" for i using parts[OF that] that by (auto simp: summary_def numbers_def)
  then have "\<forall>x \<in> set (map r is). \<not> is_nan f32_infinity x" by auto
  with red assms(2) have r: "\<not> is_nan f32_infinity (red (map r is))" "k (red (map r is)) = Min (k ` set (map r is))"
    by (simp_all add: simd_best_def)
  have "set is \<noteq> {}" using assms(2) by auto
  then have "Min (k ` set (map r is)) \<in> k ` set (map r is)" by (intro Min_in) auto
  then obtain i where i: "i \<in> set is" "k (red (map r is)) = k (r i)" using r(2) by auto
  have le: "k (red (map r is)) \<le> k (r j)" if "j \<in> set is" for j using that r(2) by simp
  have "k (red (map r is)) \<le> k v" if "j \<in> set is" "v \<in> P j" for j v
    using le[OF that(1)] part[OF that(1)] that(2) by (meson order_trans)
  moreover have "k (red (map r is)) \<le> k idn \<and> (k (red (map r is)) = k idn \<or> (\<exists>v \<in> P i. k (red (map r is)) = k v))"
    using part[OF i(1)] unfolding i(2) by blast
  ultimately show ?thesis
    using i(1) r(1) unfolding summary_def by blast
next
  case False
  then show ?thesis unfolding summary_def by blast
qed

text \<open>What the kernels need of the device's float operations. It speaks of numbers only: for a NaN operand the
  compile options promise nothing. The infinities that seed the outputs are ordered like other numbers.\<close>

definition lawful_floats :: "runtime \<Rightarrow> bool" where
  "lawful_floats rt \<longleftrightarrow>
     (\<forall>x y. \<not> is_nan f32_infinity x \<and> \<not> is_nan f32_infinity y \<longrightarrow> dev_less rt x y = (fval x < fval y)) \<and>
     selects fval (dev_min rt) \<and> selects (\<lambda>x. - fval x) (dev_max rt) \<and>
     (\<forall>x. \<not> is_nan f32_infinity x \<and> dev_isinf rt x \<longrightarrow> fmag x = f32_infinity) \<and>
     simd_best fval (simd_min rt) \<and> simd_best (\<lambda>x. - fval x) (simd_max rt)"

lemma selects_keep:
  assumes "lawful_floats rt"
  shows "selects fval (keep (dev_less rt))" "selects (\<lambda>x. - fval x) (keep (\<lambda>x y. dev_less rt y x))"
  using assms by (auto simp: lawful_floats_def selects_def keep_def)

text \<open>Every row below \<open>n\<close> is strided over by exactly one thread of the grid.\<close>

lemma strided_cover:
  assumes "0 < tgs"
  shows "(\<Union>tg \<in> set [0..<tgs]. \<Union>s \<in> set [0..<f32_agg_tg_width div 32]. \<Union>lane \<in> set [0..<32].
      set (strided_rows (tgs * f32_agg_tg_width) (tg * f32_agg_tg_width + s * 32 + lane) n ok r2g g)) =
    set (rows_in ok r2g n g)"
proof -
  have "\<exists>tg < tgs. \<exists>s < 8. \<exists>lane < 32. row mod (tgs * 256) = tg * 256 + s * 32 + lane" for row :: nat
  proof -
    define t where "t = row mod (tgs * 256)"
    have "t < tgs * 256" using assms by (simp add: t_def)
    then have "t div 256 < tgs" by (simp add: less_mult_imp_div_less)
    moreover have "t mod 256 div 32 < 8" "t mod 32 < 32" by simp_all
    moreover have "t = t div 256 * 256 + t mod 256 div 32 * 32 + t mod 32"
    proof -
      have "t mod 256 mod 32 = t mod 32" by (simp add: mod_mod_cancel)
      then show ?thesis by (metis div_mult_mod_eq add.assoc)
    qed
    ultimately show ?thesis unfolding t_def by blast
  qed
  then show ?thesis
    unfolding f32_agg_tg_width_def strided_rows_def rows_in_def by (auto simp: Bex_def) 
qed

text \<open>An aggregation whose parts are selections by the key \<open>k\<close>.\<close>

definition extremum_agg :: "(f32 \<Rightarrow> int) \<Rightarrow> f32_agg \<Rightarrow> bool" where
  "extremum_agg k A \<longleftrightarrow> \<not> is_nan f32_infinity (ident A) \<and> selects k (accum A) \<and> selects k (flush A) \<and>
     simd_best k (across A) \<and> (\<forall>t. \<not> is_nan f32_infinity t \<and> skips A t \<longrightarrow> k t = k (ident A))"

lemma inf_magnitude: "fmag x = f32_infinity \<Longrightarrow> fval x = (if fneg x then fval f32_neg_infinity else fval f32_infinity)"
  unfolding fval_inf32 by (simp add: fval_def)

lemma extremum_aggs:
  assumes "lawful_floats rt"
  shows "extremum_agg fval (min_agg rt)" "extremum_agg (\<lambda>x. - fval x) (max_agg rt)"
proof -
  have z: "\<not> is_nan f32_infinity 0" "fval (0 :: f32) = 0" by (simp_all add: is_nan_def fmag_def fval_def f32_infinity_def)
  have i: "fval f32_neg_infinity \<le> 0" "0 \<le> fval f32_infinity" by (simp_all add: fval_inf32)
  have "fval t = fval f32_infinity" if "\<not> is_nan f32_infinity t" "dev_isinf rt t" "dev_less rt 0 t" for t
    using assms that z i inf_magnitude[of t] by (auto simp: lawful_floats_def split: if_splits)
  moreover have "fval t = fval f32_neg_infinity" if "\<not> is_nan f32_infinity t" "dev_isinf rt t" "dev_less rt t 0" for t
    using assms that z i inf_magnitude[of t] by (auto simp: lawful_floats_def split: if_splits)
  ultimately show "extremum_agg fval (min_agg rt)" "extremum_agg (\<lambda>x. - fval x) (max_agg rt)"
    using assms selects_keep[OF assms] by (simp_all add: extremum_agg_def min_agg_def max_agg_def lawful_floats_def)
qed

lemma tg_total_summary:
  assumes A: "extremum_agg k A"
  shows "summary k (ident A)
    (\<Union>s \<in> set [0..<f32_agg_tg_width div 32]. \<Union>lane \<in> set [0..<32].
       val ` set (strided_rows grid (tg * f32_agg_tg_width + s * 32 + lane) n ok r2g g))
    (tg_total A grid n ok val r2g g tg)"
proof -
  have idn: "summary k (ident A) {} (ident A)" using A by (simp add: extremum_agg_def summary_empty)
  have acc: "selects k (accum A)" using A by (simp add: extremum_agg_def)
  have thread: "summary k (ident A) (val ` set (strided_rows grid tid n ok r2g g)) (thread_partial A grid n ok val r2g g tid)" for tid
    using summary_foldl[OF acc idn, of "map val (strided_rows grid tid n ok r2g g)"] by (simp add: thread_partial_def)
  have simd: "summary k (ident A) (\<Union>lane \<in> set [0..<32]. val ` set (strided_rows grid (tg * f32_agg_tg_width + s * 32 + lane) n ok r2g g))
    (simd_partial A grid n ok val r2g g tg s)" for s
    unfolding simd_partial_def using A thread by (intro summary_simd) (simp_all add: extremum_agg_def)
  have "summary k (ident A) ({} \<union> (\<Union>s \<in> set [0..<f32_agg_tg_width div 32]. \<Union>lane \<in> set [0..<32].
       val ` set (strided_rows grid (tg * f32_agg_tg_width + s * 32 + lane) n ok r2g g)))
    (tg_total A grid n ok val r2g g tg)"
    unfolding tg_total_def by (rule summary_partials[OF acc simd idn])
  then show ?thesis by simp
qed


lemma prereduce_nth:
  "g < length out \<Longrightarrow> prereduce_kernel A tgs n ok val r2g ng out sched ! g =
     foldl (\<lambda>a t. if skips A t then a else flush A a t) (out ! g)
       (map (\<lambda>j. tg_total A (tgs * f32_agg_tg_width) n ok val r2g g (j div ng)) (filter (\<lambda>j. j mod ng = g) sched))"
  unfolding prereduce_kernel_def
  by (induction sched arbitrary: out) (auto simp: Let_def nth_list_update_if)

lemma prereduce_length [simp]: "length (prereduce_kernel A tgs n ok val r2g ng out sched) = length out"
proof -
  have "length (foldl (\<lambda>out k. if P k then out else out[f k := h out k]) out sched) = length out" for P f h
    by (induction sched arbitrary: out) simp_all
  from this[of "\<lambda>j. skips A (tg_total A (tgs * f32_agg_tg_width) n ok val r2g (j mod ng) (j div ng))" "\<lambda>j. j mod ng"]
  show ?thesis by (simp add: prereduce_kernel_def Let_def)
qed

lemma skip_flush:
  assumes A: "extremum_agg k A" and a: "summary k (ident A) S a" and t: "summary k (ident A) T t"
  shows "summary k (ident A) (S \<union> T) (if skips A t then a else flush A a t)"
  by (rule summary_Un[OF a t]) (use A in \<open>auto simp: extremum_agg_def selects_def min_def\<close>)

lemma prereduce_summary:
  assumes A: "extremum_agg k A" and sched: "schedule_ok (tgs * ng) sched" and g: "g < ng" and tgs: "0 < tgs"
  shows "summary k (ident A) (set (vals_in ok val r2g n g))
    (prereduce_kernel A tgs n ok val r2g ng (replicate ng (ident A)) sched ! g)"
proof -
  let ?f = "\<lambda>a t. if skips A t then a else flush A a t"
  let ?js = "filter (\<lambda>j. j mod ng = g) sched"
  let ?tot = "\<lambda>j. tg_total A (tgs * f32_agg_tg_width) n ok val r2g g (j div ng)"
  let ?P = "\<lambda>tg. \<Union>s \<in> set [0..<f32_agg_tg_width div 32]. \<Union>lane \<in> set [0..<32].
       val ` set (strided_rows (tgs * f32_agg_tg_width) (tg * f32_agg_tg_width + s * 32 + lane) n ok r2g g)"
  have idn: "\<not> is_nan f32_infinity (ident A)" using A by (simp add: extremum_agg_def)
  have part: "summary k (ident A) (?P (j div ng)) (?tot j)" for j by (rule tg_total_summary[OF A])
  have "summary k (ident A) (S \<union> (\<Union>j \<in> set js. ?P (j div ng))) (foldl ?f a (map ?tot js))"
    if "summary k (ident A) S a" for S a js
    using that
  proof (induction js arbitrary: S a)
    case (Cons j js)
    from Cons.IH[OF skip_flush[OF A Cons.prems part]] show ?case by (simp add: Un_assoc)
  qed simp
  from this[OF summary_empty[OF idn], of ?js]
  have sum: "summary k (ident A) (\<Union>j \<in> set ?js. ?P (j div ng)) (foldl ?f (ident A) (map ?tot ?js))" by simp
  have js: "set ?js = {j. j < tgs * ng \<and> j mod ng = g}" using schedule_set[OF sched] by auto
  have "(\<lambda>j. j div ng) ` {j. j < tgs * ng \<and> j mod ng = g} = {..<tgs}"
  proof (intro set_eqI iffI)
    fix tg assume "tg \<in> {..<tgs}"
    then have "tg * ng + g < tgs * ng" "(tg * ng + g) div ng = tg" "(tg * ng + g) mod ng = g"
      using g mult_le_mono1[of "Suc tg" tgs ng] by auto
    then show "tg \<in> (\<lambda>j. j div ng) ` {j. j < tgs * ng \<and> j mod ng = g}" by (intro image_eqI[of _ _ "tg * ng + g"]) auto
  qed (auto simp: less_mult_imp_div_less)
  then have img: "(\<lambda>j. j div ng) ` set ?js = set [0..<tgs]" unfolding js by (simp add: atLeast0LessThan)
  have "(\<Union>j \<in> set ?js. P (j div ng)) = (\<Union>tg \<in> (\<lambda>j. j div ng) ` set ?js. P tg)" for P :: "nat \<Rightarrow> f32 set"
    by blast
  then have "(\<Union>j \<in> set ?js. ?P (j div ng)) = (\<Union>tg \<in> set [0..<tgs]. ?P tg)" unfolding img .
  also have "\<dots> = val ` (\<Union>tg \<in> set [0..<tgs]. \<Union>s \<in> set [0..<f32_agg_tg_width div 32]. \<Union>lane \<in> set [0..<32].
      set (strided_rows (tgs * f32_agg_tg_width) (tg * f32_agg_tg_width + s * 32 + lane) n ok r2g g))"
    by (simp only: image_UN)
  also have "\<dots> = set (vals_in ok val r2g n g)"
    unfolding strided_cover[OF tgs] by (simp add: vals_in_def)
  finally show ?thesis using sum g by (simp add: prereduce_nth)
qed

lemma per_row_summary:
  assumes A: "extremum_agg k A" and sched: "schedule_ok n sched" and g: "g < ng"
    and res: "agg_kernel (flush A) ok val r2g (replicate ng (ident A)) sched = Some res"
  shows "summary k (ident A) (set (vals_in ok val r2g n g)) (res ! g)"
proof -
  let ?is = "filter (\<lambda>i. ok i \<and> unat (r2g ! i) = g) sched"
  have "set (map val ?is) = set (vals_in ok val r2g n g)"
    using schedule_set[OF sched] by (auto simp: vals_in_def rows_in_def)
  moreover have "selects k (flush A)" "summary k (ident A) {} (ident A)"
    using A by (simp_all add: extremum_agg_def summary_empty)
  ultimately show ?thesis
    using summary_foldl[of k "flush A" "ident A" "{}" "ident A" "map val ?is"] g agg_kernel_Some(2)[OF res] by simp
qed

section \<open>Properties\<close>

definition gpu_vals :: "'v list \<Rightarrow> bytes \<Rightarrow> u32 list \<Rightarrow> nat \<Rightarrow> nat \<Rightarrow> 'v list" where
  "gpu_vals values valid r2g n_rows g = vals_in (get_valid valid) ((!) values) r2g n_rows g"

definition agg_args_ok :: "nat \<Rightarrow> 'v list \<Rightarrow> bytes \<Rightarrow> u32 list \<Rightarrow> 'w list \<Rightarrow> nat \<Rightarrow> group_by_error + unit" where
  "agg_args_ok n_rows values valid r2g out ng =
     agg_checks n_rows (Some (length values)) (length r2g) (Some (length valid)) (length out) ng"

lemma int32_aggregates:
  assumes "lawful_order rt" and "n_rows \<noteq> 0"
  shows "let vs = gpu_vals values valid r2g n_rows;
      within = in_range (get_valid valid) r2g [0..<n_rows] ng;
      result = (\<lambda>f. obind (Some (agg_args_ok n_rows values valid r2g out ng))
        (\<lambda>_. if within then Some (Inr (map f [0..<ng] @ drop ng out)) else None))
    in
    dispatch_sum_i32 rt values valid r2g n_rows ng out = result (\<lambda>g. sum_list (vs g)) \<and>
    dispatch_sum_u32 rt values valid r2g n_rows ng out = result (\<lambda>g. sum_list (vs g)) \<and>
    (\<exists>f. dispatch_min_i32 rt values valid r2g n_rows ng out = result f \<and>
      (\<forall>g. if vs g = [] then f g = i32_max else sint (f g) = Min (sint ` set (vs g)))) \<and>
    (\<exists>f. dispatch_max_i32 rt values valid r2g n_rows ng out = result f \<and>
      (\<forall>g. if vs g = [] then f g = i32_min else sint (f g) = Max (sint ` set (vs g)))) \<and>
    dispatch_min_u32 rt values valid r2g n_rows ng out = result (\<lambda>g. if vs g = [] then - 1 else Min (set (vs g))) \<and>
    dispatch_max_u32 rt values valid r2g n_rows ng out = result (\<lambda>g. if vs g = [] then 0 else Max (set (vs g)))"
proof -
  have s: "schedule_ok n_rows (order rt kn n_rows)" for kn using assms(1) by (simp add: lawful_order_def)
  let ?result = "\<lambda>f. obind (Some (agg_args_ok n_rows values valid r2g out ng))
        (\<lambda>_. if in_range (get_valid valid) r2g [0..<n_rows] ng then Some (Inr (map f [0..<ng] @ drop ng out)) else None)"
  let ?vs = "gpu_vals values valid r2g n_rows"
  have eqs: "dispatch_sum_i32 rt values valid r2g n_rows ng out = ?result (\<lambda>g. foldl (+) 0 (?vs g))"
    "dispatch_sum_u32 rt values valid r2g n_rows ng out = ?result (\<lambda>g. foldl (+) 0 (?vs g))"
    "dispatch_min_i32 rt values valid r2g n_rows ng out = ?result (\<lambda>g. foldl rmw_min_i32 i32_max (?vs g))"
    "dispatch_max_i32 rt values valid r2g n_rows ng out = ?result (\<lambda>g. foldl rmw_max_i32 i32_min (?vs g))"
    "dispatch_min_u32 rt values valid r2g n_rows ng out = ?result (\<lambda>g. foldl min (- 1) (?vs g))"
    "dispatch_max_u32 rt values valid r2g n_rows ng out = ?result (\<lambda>g. foldl max 0 (?vs g))"
    using assms(2)
    by (simp_all add: dispatch_sum_i32_def dispatch_min_i32_def dispatch_max_i32_def dispatch_sum_u32_def dispatch_min_u32_def
        dispatch_max_u32_def dispatch_agg_i32_def dispatch_agg_u32_def copy_back_def gpu_vals_def agg_args_ok_def
        sum32.kernel_eq[OF s] min32.kernel_eq[OF s] max32.kernel_eq[OF s] minu32.kernel_eq[OF s] maxu32.kernel_eq[OF s]
        if_distrib[of "map_option _"] cong: if_cong)
  have ext: "if vs = [] then foldl rmw_min_i32 i32_max vs = i32_max else sint (foldl rmw_min_i32 i32_max vs) = Min (sint ` set vs)"
    "if vs = [] then foldl rmw_max_i32 i32_min vs = i32_min else sint (foldl rmw_max_i32 i32_min vs) = Max (sint ` set vs)" for vs
    by (simp_all add: signed_extrema)
  have uext: "foldl min (- 1) vs = (if vs = [] then - 1 else Min (set vs))" "foldl max 0 vs = (if vs = [] then 0 else Max (set vs))"
    "foldl (+) 0 vs = sum_list vs" for vs :: "u32 list"
    by (simp_all add: unsigned_extrema foldl_plus_sum_list)
  show ?thesis
    unfolding Let_def eqs uext using ext by (intro conjI exI[of _ "\<lambda>g. foldl rmw_min_i32 i32_max (?vs g)"]
        exI[of _ "\<lambda>g. foldl rmw_max_i32 i32_min (?vs g)"] refl) blast+
qed

text \<open>The counting dispatchers.\<close>

lemma gpu_counts_eq:
  assumes "lawful_order rt" and "n_rows \<noteq> 0"
  shows "dispatch_count_u32 rt valid r2g n_rows ng out =
      obind (Some (agg_checks n_rows None (length r2g) (Some (length valid)) (length out) ng)) (\<lambda>_.
        if in_range (get_valid valid) r2g [0..<n_rows] ng
        then Some (Inr (map (\<lambda>g. of_nat (length (rows_in (get_valid valid) r2g n_rows g))) [0..<ng] @ drop ng out)) else None)"
    and "dispatch_len_u32 rt r2g n_rows ng out =
      obind (Some (agg_checks n_rows None (length r2g) None (length out) ng)) (\<lambda>_.
        if in_range (\<lambda>_. True) r2g [0..<n_rows] ng
        then Some (Inr (map (\<lambda>g. of_nat (length (rows_in (\<lambda>_. True) r2g n_rows g))) [0..<ng] @ drop ng out)) else None)"
proof -
  have s: "schedule_ok n_rows (order rt kn n_rows)" for kn using assms(1) by (simp add: lawful_order_def)
  show "dispatch_count_u32 rt valid r2g n_rows ng out =
      obind (Some (agg_checks n_rows None (length r2g) (Some (length valid)) (length out) ng)) (\<lambda>_.
        if in_range (get_valid valid) r2g [0..<n_rows] ng
        then Some (Inr (map (\<lambda>g. of_nat (length (rows_in (get_valid valid) r2g n_rows g))) [0..<ng] @ drop ng out)) else None)"
    "dispatch_len_u32 rt r2g n_rows ng out =
      obind (Some (agg_checks n_rows None (length r2g) None (length out) ng)) (\<lambda>_.
        if in_range (\<lambda>_. True) r2g [0..<n_rows] ng
        then Some (Inr (map (\<lambda>g. of_nat (length (rows_in (\<lambda>_. True) r2g n_rows g))) [0..<ng] @ drop ng out)) else None)"
    using assms(2)
    by (simp_all add: dispatch_count_u32_def dispatch_len_u32_def cnt32.kernel_eq[OF s] foldl_count vals_in_def copy_back_def
        if_distrib[of "map_option _"] cong: if_cong)
qed

text \<open>C24. The integer aggregates of the GPU do not depend on the order in which the threads run. When the
  arguments pass the checks and every row that is read belongs to one of the groups, sums are the wrapping
  sums of the group's non-null values, signed and unsigned minima and maxima those of the values (the seed
  for a group without values), and the two counters count the non-null and all rows of each group. The
  first failed check is returned; a group that is out of range, which no check excludes, is a write out of
  bounds.\<close>

theorem gpu_integer_aggregates:
  assumes "lawful_order rt" and "n_rows \<noteq> 0"
  shows "let vs = gpu_vals values valid r2g n_rows;
      within = in_range (get_valid valid) r2g [0..<n_rows] ng;
      result = (\<lambda>f. obind (Some (agg_args_ok n_rows values valid r2g out ng))
        (\<lambda>_. if within then Some (Inr (map f [0..<ng] @ drop ng out)) else None))
    in
    dispatch_sum_i32 rt values valid r2g n_rows ng out = result (\<lambda>g. sum_list (vs g)) \<and>
    dispatch_sum_u32 rt values valid r2g n_rows ng out = result (\<lambda>g. sum_list (vs g)) \<and>
    (\<exists>f. dispatch_min_i32 rt values valid r2g n_rows ng out = result f \<and>
      (\<forall>g. if vs g = [] then f g = i32_max else sint (f g) = Min (sint ` set (vs g)))) \<and>
    (\<exists>f. dispatch_max_i32 rt values valid r2g n_rows ng out = result f \<and>
      (\<forall>g. if vs g = [] then f g = i32_min else sint (f g) = Max (sint ` set (vs g)))) \<and>
    dispatch_min_u32 rt values valid r2g n_rows ng out = result (\<lambda>g. if vs g = [] then - 1 else Min (set (vs g))) \<and>
    dispatch_max_u32 rt values valid r2g n_rows ng out = result (\<lambda>g. if vs g = [] then 0 else Max (set (vs g))) \<and>
    dispatch_count_u32 rt valid r2g n_rows ng out =
      obind (Some (agg_checks n_rows None (length r2g) (Some (length valid)) (length out) ng)) (\<lambda>_.
        if within then Some (Inr (map (\<lambda>g. of_nat (length (vs g))) [0..<ng] @ drop ng out)) else None) \<and>
    dispatch_len_u32 rt r2g n_rows ng out =
      obind (Some (agg_checks n_rows None (length r2g) None (length out) ng)) (\<lambda>_.
        if in_range (\<lambda>_. True) r2g [0..<n_rows] ng
        then Some (Inr (map (\<lambda>g. of_nat (length (filter (\<lambda>i. unat (r2g ! i) = g) [0..<n_rows]))) [0..<ng] @ drop ng out)) else None)"
  using int32_aggregates[OF assms] gpu_counts_eq[OF assms]
  by (simp add: Let_def gpu_vals_def vals_in_def rows_in_def)

lemma counts_match:
  assumes "lawful_order rt" and "lawful_split (splits rt)" and "length r2g \<noteq> 0" and "length r2g < 2 ^ 32"
    and "div_ceil (length r2g) 8 \<le> length valid" and "ng \<noteq> 0" and range: "\<forall>g \<in> set r2g. unat g < ng"
  shows "\<exists>counts lens. dispatch_count_u32 rt valid r2g (length r2g) ng (replicate ng 0) = Some (Inr counts) \<and>
    dispatch_len_u32 rt r2g (length r2g) ng (replicate ng 0) = Some (Inr lens) \<and>
    map ucast counts = aggregate_count_cpu (splits rt) valid r2g ng \<and>
    map ucast lens = aggregate_len_cpu (splits rt) r2g ng"
proof -
  have small: "ucast (of_nat (length (rows_in ok r2g (length r2g) g)) :: u32) = (of_nat (length (rows_in ok r2g (length r2g) g)) :: u64)" for ok g
  proof -
    have "length (rows_in ok r2g (length r2g) g) \<le> length r2g"
      unfolding rows_in_def by (metis length_filter_le length_upt minus_nat.diff_0)
    then show ?thesis using assms(4) by (simp add: word_unat_eq_iff unat_ucast_up unat_of_nat)
  qed
  have chk: "agg_checks (length r2g) None (length r2g) v ng ng = Inr ()" if "v = None \<or> v = Some (length valid)" for v
    using assms that by (auto simp: agg_checks_def ensure_def u32_max_def)
  have "in_range ok r2g [0..<length r2g] ng" for ok using range by (simp add: in_range_def)
  then have "dispatch_count_u32 rt valid r2g (length r2g) ng (replicate ng 0) =
      Some (Inr (map (\<lambda>g. of_nat (length (rows_in (get_valid valid) r2g (length r2g) g))) [0..<ng]))"
    "dispatch_len_u32 rt r2g (length r2g) ng (replicate ng 0) =
      Some (Inr (map (\<lambda>g. of_nat (length (rows_in (\<lambda>_. True) r2g (length r2g) g))) [0..<ng]))"
    by (simp_all add: gpu_counts_eq[OF assms(1,3)] chk)
  moreover have "aggregate_count_cpu (splits rt) valid r2g ng = map (\<lambda>g. of_nat (length (rows_in (get_valid valid) r2g (length r2g) g))) [0..<ng]"
    "aggregate_len_cpu (splits rt) r2g ng = map (\<lambda>g. of_nat (length (rows_in (\<lambda>_. True) r2g (length r2g) g))) [0..<ng]"
    by (simp_all add: aggregate_count_cpu_def aggregate_len_cpu_def cnt.par_group_eq foldl_count vals_in_def lawful_work[OF assms(2)])
  ultimately show ?thesis by (simp add: small o_def)
qed

text \<open>The GPU counts are those of the CPU: for any thread order and any split of the rows, when every row
  belongs to a group, the 32-bit counts of non-null and of all rows agree with the 64-bit counts of the
  CPU aggregators.\<close>

theorem gpu_counts_match_cpu:
  assumes "lawful_order rt" and "lawful_split (splits rt)" and "length r2g \<noteq> 0" and "length r2g < 2 ^ 32"
    and "div_ceil (length r2g) 8 \<le> length valid" and "ng \<noteq> 0" and "\<forall>g \<in> set r2g. unat g < ng"
  shows "\<exists>counts lens. dispatch_count_u32 rt valid r2g (length r2g) ng (replicate ng 0) = Some (Inr counts) \<and>
    dispatch_len_u32 rt r2g (length r2g) ng (replicate ng 0) = Some (Inr lens) \<and>
    map ucast counts = aggregate_count_cpu (splits rt) valid r2g ng \<and>
    map ucast lens = aggregate_len_cpu (splits rt) r2g ng"
  by (rule counts_match[OF assms])


lemma f32_extrema:
  assumes "lawful_order rt" and "lawful_floats rt" and "n_rows \<noteq> 0" and "g < ng"
    and "dispatch_min_f32 rt values valid r2g n_rows ng out = Some (Inr mins)"
    and "dispatch_max_f32 rt values valid r2g n_rows ng out = Some (Inr maxs)"
  shows "summary fval f32_infinity (set (gpu_vals values valid r2g n_rows g)) (mins ! g)"
    and "summary (\<lambda>x. - fval x) f32_neg_infinity (set (gpu_vals values valid r2g n_rows g)) (maxs ! g)"
proof -
  have s: "schedule_ok m (order rt kn m)" for kn m using assms(1) by (simp add: lawful_order_def)
  have tgs: "0 < prereduce_tgs n_rows" by (simp add: prereduce_tgs_def)
  have sum: "summary k (ident B) (set (gpu_vals values valid r2g n_rows g)) (res ! g)"
    if B: "extremum_agg k B" and res: "dispatch_agg_f32 rt values valid r2g n_rows ng out kn B = Some (Inr res)" for k B kn res
    using res assms(3,4) prereduce_summary[OF B s assms(4) tgs] per_row_summary[OF B s assms(4)]
    by (auto simp: dispatch_agg_f32_def copy_back_def result_simps nth_append gpu_vals_def agg_kernel_Some(1) split: if_splits)
  show "summary fval f32_infinity (set (gpu_vals values valid r2g n_rows g)) (mins ! g)"
    using sum[OF extremum_aggs(1)[OF assms(2)]] assms(5) by (simp add: dispatch_min_f32_def min_agg_def)
  show "summary (\<lambda>x. - fval x) f32_neg_infinity (set (gpu_vals values valid r2g n_rows g)) (maxs ! g)"
    using sum[OF extremum_aggs(2)[OF assms(2)]] assms(6) by (simp add: dispatch_max_f32_def max_agg_def)
qed

text \<open>The extremum of a group whose values are numbers.\<close>

lemma summary_extremum:
  assumes "summary fval f32_infinity (set vs) r" and "numbers (set vs)"
  shows "\<not> is_nan f32_infinity r \<and> fval r = (if vs = [] then fval f32_infinity else Min (fval ` set vs))"
proof -
  have r: "\<not> is_nan f32_infinity r" using assms by (simp add: summary_def)
  have "\<forall>v \<in> set vs. fval v \<le> fval f32_infinity" using assms(2) fval_bounds32(1) by (auto simp: numbers_def)
  then have "Min (insert (fval f32_infinity) (fval ` set vs)) = (if vs = [] then fval f32_infinity else Min (fval ` set vs))"
    by (cases vs) (auto intro!: min_absorb2 simp: Min_le_iff)
  with summary_Min[OF assms(1) _ assms(2)] r show ?thesis by simp
qed

lemma summary_extremum_max:
  assumes "summary (\<lambda>x. - fval x) f32_neg_infinity (set vs) r" and "numbers (set vs)"
  shows "\<not> is_nan f32_infinity r \<and> fval r = (if vs = [] then fval f32_neg_infinity else Max (fval ` set vs))"
proof (cases "vs = []")
  case False
  have r: "\<not> is_nan f32_infinity r" "\<forall>v \<in> set vs. fval v \<le> fval r" "fval f32_neg_infinity \<le> fval r"
    "fval r = fval f32_neg_infinity \<or> (\<exists>v \<in> set vs. fval r = fval v)"
    using assms by (auto simp: summary_def)
  have "\<exists>v \<in> set vs. fval r = fval v"
  proof (cases "fval r = fval f32_neg_infinity")
    case True
    obtain v where v: "v \<in> set vs" using False by (cases vs) auto
    then have "fval f32_neg_infinity \<le> fval v" using assms(2) fval_bounds32(2) by (simp add: numbers_def)
    with r(2) v True show ?thesis by (intro bexI[of _ v]) (auto intro: antisym)
  qed (use r(4) in blast)
  with r False show ?thesis by (auto intro!: Max_eqI[symmetric])
qed (use assms in \<open>simp add: summary_def\<close>)

lemma dispatch_agg_f32_returns:
  assumes "lawful_order rt" and "agg_args_ok n_rows values valid r2g out ng = Inr ()"
    and "in_range (get_valid valid) r2g [0..<n_rows] ng"
  shows "\<exists>res. dispatch_agg_f32 rt values valid r2g n_rows ng out kname A = Some (Inr res)"
proof -
  have s: "schedule_ok n_rows (order rt kname n_rows)" using assms(1) by (simp add: lawful_order_def)
  have "in_range (get_valid valid) r2g (order rt kname n_rows) (length (replicate ng (ident A)))"
    using assms(3) in_range_sched[OF s] by simp
  from agg_kernel_in_range[OF this] have
    "\<exists>z. agg_kernel (flush A) (get_valid valid) ((!) values) r2g (replicate ng (ident A)) (order rt kname n_rows) = Some z" by blast
  with assms(2) show ?thesis by (auto simp: dispatch_agg_f32_def agg_args_ok_def)
qed

text \<open>C25. The minima and maxima of floats on the GPU, by the pre-reducing kernel for few groups and the per-row one
  for many. When the arguments pass the checks and every row that is read belongs to one of the groups, both dispatchers
  return, and for every group whose non-null values are numbers they give numerically the least and the greatest
  of them, or the infinity of the seed for a group without values, in any thread order. The device is taken to order
  numbers (infinities among them) as IEEE does, although the shaders are built with fast math; for a NaN nothing is
  promised.\<close>

theorem f32_extrema_correct:
  assumes "lawful_order rt" and "lawful_floats rt" and "n_rows \<noteq> 0"
    and "agg_args_ok n_rows values valid r2g out ng = Inr ()" and "in_range (get_valid valid) r2g [0..<n_rows] ng"
  shows "\<exists>mins maxs. dispatch_min_f32 rt values valid r2g n_rows ng out = Some (Inr mins) \<and>
    dispatch_max_f32 rt values valid r2g n_rows ng out = Some (Inr maxs) \<and>
    (\<forall>g < ng. let vs = gpu_vals values valid r2g n_rows g in
       (\<forall>v \<in> set vs. \<not> is_nan f32_infinity v) \<longrightarrow>
       \<not> is_nan f32_infinity (mins ! g) \<and> fval (mins ! g) = (if vs = [] then fval f32_infinity else Min (fval ` set vs)) \<and>
       \<not> is_nan f32_infinity (maxs ! g) \<and> fval (maxs ! g) = (if vs = [] then fval f32_neg_infinity else Max (fval ` set vs)))"
proof -
  obtain mins maxs where res: "dispatch_min_f32 rt values valid r2g n_rows ng out = Some (Inr mins)"
    "dispatch_max_f32 rt values valid r2g n_rows ng out = Some (Inr maxs)"
    using dispatch_agg_f32_returns[OF assms(1,4,5)] unfolding dispatch_min_f32_def dispatch_max_f32_def by blast
  note ext = f32_extrema[OF assms(1-3) _ res]
  have "let vs = gpu_vals values valid r2g n_rows g in
       (\<forall>v \<in> set vs. \<not> is_nan f32_infinity v) \<longrightarrow>
       \<not> is_nan f32_infinity (mins ! g) \<and> fval (mins ! g) = (if vs = [] then fval f32_infinity else Min (fval ` set vs)) \<and>
       \<not> is_nan f32_infinity (maxs ! g) \<and> fval (maxs ! g) = (if vs = [] then fval f32_neg_infinity else Max (fval ` set vs))"
    if "g < ng" for g
    using summary_extremum[OF ext(1)[OF that]] summary_extremum_max[OF ext(2)[OF that]] by (simp add: numbers_def Let_def)
  with res show ?thesis by blast
qed

text \<open>A concrete runtime: threads run last to first.\<close>

definition demo_runtime :: runtime where
  "demo_runtime = \<lparr>order = (\<lambda>_ n. rev [0..<n]), simd_sum = sum_list,
     simd_min = (\<lambda>xs. foldl (keep (flt f32_infinity)) (hd xs) (tl xs)),
     simd_max = (\<lambda>xs. foldl (keep (\<lambda>x y. flt f32_infinity y x)) (hd xs) (tl xs)),
     dev_less = flt f32_infinity, dev_min = keep (flt f32_infinity), dev_max = keep (\<lambda>x y. flt f32_infinity y x),
     dev_isinf = (\<lambda>x. fmag x = f32_infinity),
     ops32 = demo_ops, ops64 = demo_ops, splits = half_split\<rparr>"

lemma demo_runtime_lawful: "lawful_order demo_runtime" "lawful_split (splits demo_runtime)"
  by (simp_all add: lawful_order_def demo_runtime_def schedule_ok_def half_split_lawful)

lemma simd_best_fold:
  assumes "selects k f"
  shows "simd_best k (\<lambda>xs. foldl f (hd xs) (tl xs))"
proof -
  have "\<not> is_nan f32_infinity (foldl f a vs) \<and> k (foldl f a vs) = Min (insert (k a) (k ` set vs))"
    if "\<not> is_nan f32_infinity a" "\<forall>v \<in> set vs. \<not> is_nan f32_infinity v" for a vs
    using that
  proof (induction vs arbitrary: a)
    case (Cons v vs)
    have "\<not> is_nan f32_infinity (f a v)" "k (f a v) = min (k a) (k v)"
      using assms Cons.prems by (simp_all add: selects_def)
    moreover have "Min (insert (min (k a) (k v)) (k ` set vs)) = Min (insert (k a) (insert (k v) (k ` set vs)))"
      by (cases "vs = []") (simp_all add: min.assoc)
    ultimately show ?case using Cons by simp
  qed simp
  moreover have "xs = hd xs # tl xs" if "length xs = 32" for xs :: "f32 list" using that by (cases xs) auto
  ultimately show ?thesis unfolding simd_best_def
    by (metis (no_types, opaque_lifting) image_insert list.set_intros(1) list.set_intros(2) list.simps(15))
qed

lemma demo_selects:
  "selects fval (keep (flt f32_infinity))" "selects (\<lambda>x. - fval x) (keep (\<lambda>x y. flt f32_infinity y x))"
  by (auto simp: selects_def keep_def flt_def)

lemma demo_floats: "lawful_floats demo_runtime"
  using demo_selects simd_best_fold[OF demo_selects(1)] simd_best_fold[OF demo_selects(2)]
  by (simp add: lawful_floats_def demo_runtime_def flt_def)

lemma f32_extrema_correct_witness:
  "\<exists>mins. dispatch_min_f32 demo_runtime [0xC0000000, 0x40400000] [0b11] [0, 0] 2 1 [0] = Some (Inr mins) \<and>
     fval (mins ! 0) = fval (0xC0000000 :: f32)"
proof -
  have args: "agg_args_ok 2 [0xC0000000, 0x40400000 :: f32] [0b11] [0, 0] [0 :: f32] 1 = Inr ()"
    "in_range (get_valid [0b11]) [0, 0] [0..<2] 1"
    by (simp_all add: agg_args_ok_def agg_checks_def ensure_def u32_max_def div_ceil_def in_range_def) (auto simp: less_2_cases_iff)
  have vs: "gpu_vals [0xC0000000, 0x40400000] [0b11] [0, 0] 2 0 = [0xC0000000, 0x40400000 :: f32]" by code_simp
  have e: "\<not> is_nan f32_infinity 0xC0000000" "\<not> is_nan f32_infinity 0x40400000" "fval (0xC0000000 :: f32) \<le> fval (0x40400000 :: f32)"
    by code_simp+
  from f32_extrema_correct[OF demo_runtime_lawful(1) demo_floats _ args] e show ?thesis
    by (auto simp: vs Let_def min_def)
qed

lemma gpu_integer_aggregates_witness:
  "dispatch_sum_i32 demo_runtime [5, - 7, 9] [0b101] [1, 0, 1] 3 2 [0, 0] = Some (Inr [0, 14])"
proof -
  have eval: "agg_args_ok 3 [5, - 7, 9 :: 32 word] [0b101] [1, 0, 1] [0, 0 :: 32 word] 2 = Inr ()"
    "in_range (get_valid [0b101]) [1, 0, 1] [0..<3] 2"
    "map (\<lambda>g. sum_list (gpu_vals [5, - 7, 9 :: 32 word] [0b101] [1, 0, 1] 3 g)) [0..<2] @ drop 2 [0, 0] = [0, 14]"
    by (simp add: agg_args_ok_def agg_checks_def ensure_def u32_max_def div_ceil_def) code_simp+
  have "(3::nat) \<noteq> 0" by simp
  from gpu_integer_aggregates[OF demo_runtime_lawful(1) this, of "[5, - 7, 9]" "[0b101]" "[1, 0, 1]" 2 "[0, 0]", unfolded Let_def, THEN conjunct1]
  show ?thesis unfolding eval obind.simps by (simp only: eval if_True)
qed

lemma gpu_counts_match_cpu_witness:
  "\<exists>counts. dispatch_count_u32 demo_runtime [0b101] [1, 0, 1] 3 2 [0, 0] = Some (Inr counts) \<and>
     map ucast counts = aggregate_count_cpu half_split [0b101] [1, 0, 1] 2"
proof -
  have "replicate 2 0 = [0, 0 :: u32]" by (simp add: numeral_2_eq_2)
  moreover have "length [1, 0, 1 :: u32] = 3" "splits demo_runtime = half_split" by (simp_all add: demo_runtime_def)
  ultimately show ?thesis
    using gpu_counts_match_cpu[OF demo_runtime_lawful, of "[1, 0, 1]" "[0b101]" 2] by (simp add: div_ceil_def numeral_3_eq_3) blast
qed

end
