(* ===== verification/A1.thy ===== *)
theory A1
  imports Partitioned
begin

text \<open>Models the GPU hash-table build: the kernels \<open>partition_count\<close>, \<open>partition_scatter\<close> and
  \<open>partition_build\<close> and their host, \<open>partition_and_build_with_scratch\<close> in
  \<open>groupby_build_partitioned/gpu.rs\<close>. In \<open>partition_build\<close> the threads of a threadgroup insert the rows of
  one partition into a shared open-addressed table with atomic operations. It is modelled as a step
  relation over single memory operations, every row with a program counter of its own; that a
  thread handles its rows one after the other only removes interleavings.

  The operations of the kernel are relaxed. A relaxed load may return an older state of its slot, which
  the model allows; a read-modify-write operation sees the latest. Two behaviours that Metal also allows
  are switched on by the memory: the weak compare-and-swap may fail although the slot holds the
  expected value, and the key of a slot, which is neither atomic nor ordered with the state that
  publishes it, may be read as anything. A run without either is called orderly; that runs are orderly
  is not guaranteed, and what goes wrong otherwise is shown below. Threads advance independently: the
  lockstep of a SIMD group, under which the comments of the shader fear a deadlock, is not modelled, and
  nothing is claimed about whether a launch ends.\<close>

section \<open>The build kernel as a step relation\<close>

definition tgsm_slots :: nat where "tgsm_slots = 1024"
definition tgsm_probe_limit :: nat where "tgsm_probe_limit = 64"

text \<open>\<open>slot_state\<close>: 0 is empty, the all-ones word is claiming, any other value is a group id plus one.\<close>

datatype cell = Free | Claiming | Group nat

text \<open>Where a row is: about to load the state of a slot, to exchange it, spinning on a claimed slot,
  comparing the key of a slot whose state it has seen, or holding a claimed slot: writing the key,
  fetching an id, publishing it. The second number is the probe distance.\<close>

datatype pc =
    Load nat nat
  | Cas nat nat
  | Spin nat nat
  | Check nat nat cell
  | WriteKey nat nat
  | TakeId nat nat
  | Publish nat nat nat
  | Done nat
  | Overflowed

record tg_state =
  cell_at :: "nat \<Rightarrow> cell"
  key_at :: "nat \<Rightarrow> u128"
  next_id :: nat
  pc_of :: "nat \<Rightarrow> pc"

definition slot_of :: "u128 \<Rightarrow> nat" where
  "slot_of k = unat (hash_u128 k AND of_nat (tgsm_slots - 1))"

definition tg_init :: "(nat \<Rightarrow> u128) \<Rightarrow> tg_state" where
  "tg_init keys = \<lparr>cell_at = (\<lambda>_. Free), key_at = (\<lambda>_. 0), next_id = 0, pc_of = (\<lambda>r. Load (slot_of (keys r)) 0)\<rparr>"

definition goto :: "tg_state \<Rightarrow> nat \<Rightarrow> pc \<Rightarrow> tg_state" where
  "goto st r c = st\<lparr>pc_of := (pc_of st)(r := c)\<rparr>"

record memory =
  spurious_cas :: bool
  stale_keys :: bool

definition orderly :: memory where
  "orderly = \<lparr>spurious_cas = False, stale_keys = False\<rparr>"

text \<open>A load sees the state of the slot or an older one: a slot is free, then claimed, then published. A row that
  spins has seen the claim and sees it again or the publication. The key is read after that.\<close>

definition after_check :: "cell \<Rightarrow> pc" where
  "after_check c = (case c of Group g \<Rightarrow> Done g | _ \<Rightarrow> Overflowed)"

inductive tg_step :: "memory \<Rightarrow> (nat \<Rightarrow> u128) \<Rightarrow> nat set \<Rightarrow> tg_state \<Rightarrow> tg_state \<Rightarrow> bool"
  for mm :: memory and keys :: "nat \<Rightarrow> u128" and rows :: "nat set" where
  load_free: "\<lbrakk>r \<in> rows; pc_of st r = Load s p; p < tgsm_probe_limit\<rbrakk> \<Longrightarrow>
     tg_step mm keys rows st (goto st r (Cas s p))"
| load_claiming: "\<lbrakk>r \<in> rows; pc_of st r = Load s p; p < tgsm_probe_limit; cell_at st s \<noteq> Free\<rbrakk> \<Longrightarrow>
     tg_step mm keys rows st (goto st r (Spin s p))"
| load_group: "\<lbrakk>r \<in> rows; pc_of st r = Load s p; p < tgsm_probe_limit; cell_at st s = Group g\<rbrakk> \<Longrightarrow>
     tg_step mm keys rows st (goto st r (Check s p (Group g)))"
| give_up: "\<lbrakk>r \<in> rows; pc_of st r = Load s p; \<not> p < tgsm_probe_limit\<rbrakk> \<Longrightarrow>
     tg_step mm keys rows st (goto st r Overflowed)"
| cas_wins: "\<lbrakk>r \<in> rows; pc_of st r = Cas s p; cell_at st s = Free\<rbrakk> \<Longrightarrow>
     tg_step mm keys rows st (goto (st\<lparr>cell_at := (cell_at st)(s := Claiming)\<rparr>) r (WriteKey s p))"
| cas_claiming: "\<lbrakk>r \<in> rows; pc_of st r = Cas s p; cell_at st s = Claiming\<rbrakk> \<Longrightarrow>
     tg_step mm keys rows st (goto st r (Spin s p))"
| cas_group: "\<lbrakk>r \<in> rows; pc_of st r = Cas s p; cell_at st s = Group g\<rbrakk> \<Longrightarrow>
     tg_step mm keys rows st (goto st r (Check s p (Group g)))"
| cas_spurious: "\<lbrakk>r \<in> rows; pc_of st r = Cas s p; cell_at st s = Free; spurious_cas mm\<rbrakk> \<Longrightarrow>
     tg_step mm keys rows st (goto st r (Check s p Free))"
| spin_again: "\<lbrakk>r \<in> rows; pc_of st r = Spin s p; cell_at st s \<noteq> Free\<rbrakk> \<Longrightarrow> tg_step mm keys rows st st"
| spin_ends: "\<lbrakk>r \<in> rows; pc_of st r = Spin s p; cell_at st s = Group g\<rbrakk> \<Longrightarrow>
     tg_step mm keys rows st (goto st r (Check s p (Group g)))"
| check_hit: "\<lbrakk>r \<in> rows; pc_of st r = Check s p c; key_at st s = keys r\<rbrakk> \<Longrightarrow>
     tg_step mm keys rows st (goto st r (after_check c))"
| check_miss: "\<lbrakk>r \<in> rows; pc_of st r = Check s p c; key_at st s \<noteq> keys r\<rbrakk> \<Longrightarrow>
     tg_step mm keys rows st (goto st r (Load ((s + 1) mod tgsm_slots) (p + 1)))"
| stale_hit: "\<lbrakk>r \<in> rows; pc_of st r = Check s p c; stale_keys mm\<rbrakk> \<Longrightarrow>
     tg_step mm keys rows st (goto st r (after_check c))"
| stale_miss: "\<lbrakk>r \<in> rows; pc_of st r = Check s p c; stale_keys mm\<rbrakk> \<Longrightarrow>
     tg_step mm keys rows st (goto st r (Load ((s + 1) mod tgsm_slots) (p + 1)))"
| write_key: "\<lbrakk>r \<in> rows; pc_of st r = WriteKey s p\<rbrakk> \<Longrightarrow>
     tg_step mm keys rows st (goto (st\<lparr>key_at := (key_at st)(s := keys r)\<rparr>) r (TakeId s p))"
| take_id: "\<lbrakk>r \<in> rows; pc_of st r = TakeId s p\<rbrakk> \<Longrightarrow>
     tg_step mm keys rows st (goto (st\<lparr>next_id := next_id st + 1\<rparr>) r (Publish s p (next_id st)))"
| publish: "\<lbrakk>r \<in> rows; pc_of st r = Publish s p g\<rbrakk> \<Longrightarrow>
     tg_step mm keys rows st (goto (st\<lparr>cell_at := (cell_at st)(s := Group g)\<rparr>) r (Done g))"

definition tg_reachable :: "memory \<Rightarrow> (nat \<Rightarrow> u128) \<Rightarrow> nat set \<Rightarrow> tg_state \<Rightarrow> bool" where
  "tg_reachable mm keys rows st \<longleftrightarrow> (tg_step mm keys rows)\<^sup>*\<^sup>* (tg_init keys) st"

fun finished :: "pc \<Rightarrow> bool" where
  "finished (Done _) = True"
| "finished Overflowed = True"
| "finished _ = False"

section \<open>The invariant\<close>

definition slot_at :: "u128 \<Rightarrow> nat \<Rightarrow> nat" where
  "slot_at k p = (slot_of k + p) mod tgsm_slots"

text \<open>The probes a row has behind it: published slots of other keys.\<close>

definition passed :: "tg_state \<Rightarrow> u128 \<Rightarrow> nat \<Rightarrow> bool" where
  "passed st k p \<longleftrightarrow> (\<forall>j < p. (\<exists>g. cell_at st (slot_at k j) = Group g) \<and> key_at st (slot_at k j) \<noteq> k)"

definition probing :: "tg_state \<Rightarrow> u128 \<Rightarrow> nat \<Rightarrow> nat \<Rightarrow> bool" where
  "probing st k s p \<longleftrightarrow> p < tgsm_probe_limit \<and> s = slot_at k p \<and> passed st k p"

fun pc_ok :: "tg_state \<Rightarrow> u128 \<Rightarrow> pc \<Rightarrow> bool" where
  "pc_ok st k (Load s p) = (p \<le> tgsm_probe_limit \<and> s = slot_at k p \<and> passed st k p)"
| "pc_ok st k (Cas s p) = probing st k s p"
| "pc_ok st k (Spin s p) = (probing st k s p \<and> cell_at st s \<noteq> Free)"
| "pc_ok st k (Check s p c) = (probing st k s p \<and> c = cell_at st s \<and> (\<exists>g. c = Group g))"
| "pc_ok st k (WriteKey s p) = (probing st k s p \<and> cell_at st s = Claiming)"
| "pc_ok st k (TakeId s p) = (probing st k s p \<and> cell_at st s = Claiming \<and> key_at st s = k)"
| "pc_ok st k (Publish s p g) = (probing st k s p \<and> cell_at st s = Claiming \<and> key_at st s = k)"
| "pc_ok st k (Done g) = (\<exists>s p. probing st k s p \<and> cell_at st s = Group g \<and> key_at st s = k)"
| "pc_ok st k Overflowed = passed st k tgsm_probe_limit"

fun owns :: "pc \<Rightarrow> nat \<Rightarrow> bool" where
  "owns (WriteKey s p) s' = (s = s')"
| "owns (TakeId s p) s' = (s = s')"
| "owns (Publish s p g) s' = (s = s')"
| "owns _ s' = False"

text \<open>A slot has an id from the moment the id is fetched.\<close>

definition assigned :: "nat set \<Rightarrow> tg_state \<Rightarrow> nat \<Rightarrow> nat \<Rightarrow> bool" where
  "assigned rows st s g \<longleftrightarrow> cell_at st s = Group g \<or> (\<exists>r \<in> rows. \<exists>p. pc_of st r = Publish s p g)"

definition tg_local :: "(nat \<Rightarrow> u128) \<Rightarrow> nat set \<Rightarrow> tg_state \<Rightarrow> bool" where
  "tg_local keys rows st \<longleftrightarrow>
     (\<forall>r \<in> rows. pc_ok st (keys r) (pc_of st r)) \<and>
     (\<forall>r \<in> rows. \<forall>r' \<in> rows. \<forall>s. owns (pc_of st r) s \<longrightarrow> owns (pc_of st r') s \<longrightarrow> r = r') \<and>
     (\<forall>s. cell_at st s = Claiming \<longrightarrow> (\<exists>r \<in> rows. owns (pc_of st r) s))"

definition tg_ids :: "(nat \<Rightarrow> u128) \<Rightarrow> nat set \<Rightarrow> tg_state \<Rightarrow> bool" where
  "tg_ids keys rows st \<longleftrightarrow>
     (\<forall>s g. assigned rows st s g \<longrightarrow> g < next_id st) \<and>
     (\<forall>s s' g. assigned rows st s g \<longrightarrow> assigned rows st s' g \<longrightarrow> s = s') \<and>
     (\<forall>g < next_id st. \<exists>s. assigned rows st s g) \<and>
     (\<forall>s g. cell_at st s = Group g \<longrightarrow> (\<exists>r \<in> rows. pc_of st r = Done g \<and> keys r = key_at st s))"

lemma slot_of_less: "slot_of k < tgsm_slots"
proof -
  have "hash_u128 k AND 1023 \<le> 1023" by (rule word_and_le1)
  then have "unat (hash_u128 k AND 1023) \<le> unat (1023 :: u64)" by (rule word_le_nat_alt[THEN iffD1])
  then show ?thesis by (simp add: slot_of_def tgsm_slots_def)
qed

lemma slot_at_0: "slot_at k 0 = slot_of k"
  using slot_of_less[of k] by (simp add: slot_at_def)

lemma slot_at_Suc: "Suc (slot_at k p) mod tgsm_slots = slot_at k (Suc p)"
  by (simp add: slot_at_def mod_Suc_eq)

section \<open>Steps preserve it\<close>

text \<open>A step changes only slots of a set \<open>X\<close>, none of them published, and frees none.\<close>

definition frame :: "tg_state \<Rightarrow> tg_state \<Rightarrow> nat set \<Rightarrow> bool" where
  "frame st st' X \<longleftrightarrow>
     (\<forall>s. s \<notin> X \<longrightarrow> cell_at st' s = cell_at st s \<and> key_at st' s = key_at st s) \<and>
     (\<forall>s \<in> X. (\<forall>g. cell_at st s \<noteq> Group g) \<and> (cell_at st s \<noteq> Free \<longrightarrow> cell_at st' s \<noteq> Free))"

lemma frame_group: "frame st st' X \<Longrightarrow> cell_at st s = Group g \<Longrightarrow> cell_at st' s = Group g \<and> key_at st' s = key_at st s"
  unfolding frame_def by metis

lemma passed_frame: "frame st st' X \<Longrightarrow> passed st k p \<Longrightarrow> passed st' k p"
  unfolding passed_def by (metis frame_group)

lemma probing_frame: "frame st st' X \<Longrightarrow> probing st k s p \<Longrightarrow> probing st' k s p"
  unfolding probing_def by (metis passed_frame)

lemma pc_ok_frame:
  assumes f: "frame st st' X" and ok: "pc_ok st k c" and no: "\<forall>s \<in> X. \<not> owns c s"
  shows "pc_ok st' k c"
proof (cases c)
  case (Load s p)
  then show ?thesis using ok passed_frame[OF f] by simp
next
  case (Spin s p)
  then show ?thesis using ok probing_frame[OF f] f unfolding frame_def by (metis pc_ok.simps(3))
next
  case (Check s p d)
  then show ?thesis using ok probing_frame[OF f] frame_group[OF f] by auto
next
  case (Done g)
  then show ?thesis using ok probing_frame[OF f] frame_group[OF f] by (metis pc_ok.simps(8))
next
  case (WriteKey s p)
  then have "s \<notin> X" using no by auto
  then show ?thesis using WriteKey ok probing_frame[OF f] f by (simp add: frame_def)
next
  case (TakeId s p)
  then have "s \<notin> X" using no by auto
  then show ?thesis using TakeId ok probing_frame[OF f] f by (simp add: frame_def)
next
  case (Publish s p g)
  then have "s \<notin> X" using no by auto
  then show ?thesis using Publish ok probing_frame[OF f] f by (simp add: frame_def)
qed (use ok probing_frame[OF f] passed_frame[OF f] in simp_all)

lemma owns_claiming: "pc_ok st k c \<Longrightarrow> owns c s \<Longrightarrow> cell_at st s = Claiming"
  by (cases c) auto

lemma tg_local_update:
  assumes inv: "tg_local keys rows st" and r: "r \<in> rows"
    and f: "frame st st' X" and X: "\<forall>s \<in> X. owns (pc_of st r) s \<or> cell_at st s = Free"
    and pc: "pc_of st' = (pc_of st)(r := c)" and ok: "pc_ok st' (keys r) c"
    and own: "\<forall>s. owns c s \<longrightarrow> owns (pc_of st r) s \<or> cell_at st s = Free"
    and claim: "\<forall>s. cell_at st' s = Claiming \<longrightarrow> owns c s \<or> cell_at st s = Claiming \<and> \<not> owns (pc_of st r) s"
  shows "tg_local keys rows st'"
proof -
  have pcs: "pc_ok st (keys r') (pc_of st r')" if "r' \<in> rows" for r' using inv that by (simp add: tg_local_def)
  have uniq: "r' = r''" if "r' \<in> rows" "r'' \<in> rows" "owns (pc_of st r') s" "owns (pc_of st r'') s" for r' r'' s
    using inv that unfolding tg_local_def by blast
  have free: "\<not> owns (pc_of st r') s" if "r' \<in> rows" "cell_at st s = Free" for r' s
    using owns_claiming[OF pcs[OF that(1)]] that(2) by auto
  have other: "\<not> owns (pc_of st r') s" if "r' \<in> rows" "r' \<noteq> r" "owns (pc_of st r) s \<or> cell_at st s = Free" for r' s
    using uniq[OF that(1) r] free[OF that(1)] that(2,3) by blast
  have "pc_ok st' (keys r') (pc_of st' r')" if r': "r' \<in> rows" for r'
  proof (cases "r' = r")
    case False
    then have "pc_ok st' (keys r') (pc_of st r')"
      using other[OF r' False] X by (intro pc_ok_frame[OF f pcs[OF r']]) blast
    then show ?thesis using False pc by simp
  qed (use ok pc in simp)
  moreover have "r' = r''" if "r' \<in> rows" "r'' \<in> rows" "owns (pc_of st' r') s" "owns (pc_of st' r'') s" for r' r'' s
    using that other[of r' s] other[of r'' s] uniq[of r' r'' s] own pc by (auto split: if_splits)
  moreover have "\<exists>r' \<in> rows. owns (pc_of st' r') s" if "cell_at st' s = Claiming" for s
  proof (cases "owns c s")
    case True
    then show ?thesis using r pc by (intro bexI[of _ r]) simp_all
  next
    case False
    with claim that have "cell_at st s = Claiming" "\<not> owns (pc_of st r) s" by blast+
    then obtain r' where "r' \<in> rows" "owns (pc_of st r') s" "r' \<noteq> r" using inv unfolding tg_local_def by blast
    then show ?thesis using pc by (intro bexI[of _ r']) simp_all
  qed
  ultimately show ?thesis unfolding tg_local_def by blast
qed

lemma frame_goto [simp]: "frame st (goto st r c) {}"
  by (simp add: frame_def goto_def)

lemma goto_simps [simp]:
  "cell_at (goto st r c) = cell_at st" "key_at (goto st r c) = key_at st" "next_id (goto st r c) = next_id st"
  "pc_of (goto st r c) = (pc_of st)(r := c)"
  by (simp_all add: goto_def)

lemma goto_passed [simp]: "passed (goto st r c) k p = passed st k p"
  by (simp add: passed_def)

lemma goto_probing [simp]: "probing (goto st r c) k s p = probing st k s p"
  by (simp add: probing_def)

lemma goto_pc_ok [simp]: "pc_ok (goto st r c) k d = pc_ok st k d"
  by (cases d) simp_all

text \<open>A step that only moves the row on.\<close>

lemma tg_local_goto:
  assumes "tg_local keys rows st" "r \<in> rows" "pc_ok st (keys r) c"
    and "\<forall>s. \<not> owns c s" "\<forall>s. \<not> owns (pc_of st r) s"
  shows "tg_local keys rows (goto st r c)"
  by (rule tg_local_update[OF assms(1,2) frame_goto]) (use assms in auto)

lemma tg_local_pc: "tg_local keys rows st \<Longrightarrow> r \<in> rows \<Longrightarrow> pc_ok st (keys r) (pc_of st r)"
  by (simp add: tg_local_def)

lemma tg_local_step:
  assumes "tg_step orderly keys rows st st'" and inv: "tg_local keys rows st"
  shows "tg_local keys rows st'"
  using assms(1)
proof cases
  case (load_free r s p)
  show ?thesis unfolding load_free(1)
    by (rule tg_local_goto[OF inv load_free(2)]) (use load_free tg_local_pc[OF inv load_free(2)] in \<open>auto simp: probing_def\<close>)
next
  case (load_claiming r s p)
  show ?thesis unfolding load_claiming(1)
    by (rule tg_local_goto[OF inv load_claiming(2)]) (use load_claiming tg_local_pc[OF inv load_claiming(2)] in \<open>auto simp: probing_def\<close>)
next
  case (load_group r s p g)
  show ?thesis unfolding load_group(1)
    by (rule tg_local_goto[OF inv load_group(2)]) (use load_group tg_local_pc[OF inv load_group(2)] in \<open>auto simp: probing_def\<close>)
next
  case (give_up r s p)
  show ?thesis unfolding give_up(1)
    by (rule tg_local_goto[OF inv give_up(2)]) (use give_up tg_local_pc[OF inv give_up(2)] in \<open>auto simp: probing_def\<close>)
next
  case (cas_wins r s p)
  have ok: "probing st (keys r) s p" using cas_wins tg_local_pc[OF inv, of r] by auto
  let ?st = "st\<lparr>cell_at := (cell_at st)(s := Claiming)\<rparr>"
  have f: "frame st (goto ?st r (WriteKey s p)) {s}" using cas_wins by (simp add: frame_def)
  show ?thesis unfolding cas_wins(1)
    by (rule tg_local_update[OF inv cas_wins(2) f]) (use cas_wins probing_frame[OF f ok] in auto)
next
  case (cas_claiming r s p)
  show ?thesis unfolding cas_claiming(1)
    by (rule tg_local_goto[OF inv cas_claiming(2)]) (use cas_claiming tg_local_pc[OF inv cas_claiming(2)] in \<open>auto simp: probing_def\<close>)
next
  case (cas_group r s p g)
  show ?thesis unfolding cas_group(1)
    by (rule tg_local_goto[OF inv cas_group(2)]) (use cas_group tg_local_pc[OF inv cas_group(2)] in \<open>auto simp: probing_def\<close>)
next
  case (spin_ends r s p g)
  show ?thesis unfolding spin_ends(1)
    by (rule tg_local_goto[OF inv spin_ends(2)]) (use spin_ends tg_local_pc[OF inv spin_ends(2)] in \<open>auto simp: probing_def\<close>)
next
  case (check_hit r s p c)
  show ?thesis unfolding check_hit(1)
    by (rule tg_local_goto[OF inv check_hit(2)]) (use check_hit tg_local_pc[OF inv check_hit(2)] in \<open>auto simp: after_check_def split: cell.splits\<close>)
next
  case (spin_again r s p)
  then show ?thesis using inv by simp
next
  case (check_miss r s p c)
  show ?thesis unfolding check_miss(1)
    by (rule tg_local_goto[OF inv check_miss(2)]) (use check_miss tg_local_pc[OF inv check_miss(2)] in \<open>auto simp: probing_def slot_at_Suc passed_def less_Suc_eq\<close>)
next
  case (write_key r s p)
  then have ok: "probing st (keys r) s p" "cell_at st s = Claiming" using tg_local_pc[OF inv, of r] by auto
  let ?st = "st\<lparr>key_at := (key_at st)(s := keys r)\<rparr>"
  have f: "frame st (goto ?st r (TakeId s p)) {s}" using ok by (simp add: frame_def)
  show ?thesis unfolding write_key(1)
    by (rule tg_local_update[OF inv write_key(2) f]) (use write_key ok probing_frame[OF f ok(1)] in auto)
next
  case (take_id r s p)
  then have ok: "probing st (keys r) s p" "cell_at st s = Claiming" "key_at st s = keys r"
    using tg_local_pc[OF inv, of r] by auto
  let ?st = "goto (st\<lparr>next_id := next_id st + 1\<rparr>) r (Publish s p (next_id st))"
  have f: "frame st ?st {}" by (simp add: frame_def)
  show ?thesis unfolding take_id(1)
    by (rule tg_local_update[OF inv take_id(2) f]) (use take_id ok probing_frame[OF f ok(1)] in auto)
next
  case (publish r s p g)
  then have ok: "probing st (keys r) s p" "cell_at st s = Claiming" "key_at st s = keys r"
    using tg_local_pc[OF inv, of r] by auto
  let ?st = "goto (st\<lparr>cell_at := (cell_at st)(s := Group g)\<rparr>) r (Done g)"
  have f: "frame st ?st {s}" using ok by (simp add: frame_def)
  have "pc_ok ?st (keys r) (Done g)"
    unfolding pc_ok.simps by (rule exI[of _ s], rule exI[of _ p]) (use ok probing_frame[OF f ok(1)] in simp)
  note okd = this
  show ?thesis unfolding publish(1)
    by (rule tg_local_update[OF inv publish(2) f _ _ okd]) (use publish ok in auto)
qed (simp_all add: orderly_def)


text \<open>Ids: a step that keeps the assignment and the counter, and unpublishes nothing.\<close>

lemma tg_ids_same:
  assumes ids: "tg_ids keys rows st" and r: "r \<in> rows" "\<forall>g. pc_of st r \<noteq> Done g" "\<forall>s p g. pc_of st r \<noteq> Publish s p g"
    and c: "\<forall>s p g. c \<noteq> Publish s p g"
    and st': "pc_of st' = (pc_of st)(r := c)" "next_id st' = next_id st"
      "\<forall>s g. cell_at st' s = Group g \<longleftrightarrow> cell_at st s = Group g"
      "\<forall>s g. cell_at st s = Group g \<longrightarrow> key_at st' s = key_at st s"
  shows "tg_ids keys rows st'"
proof -
  have "(\<exists>p. pc_of st' r' = Publish s p g) \<longleftrightarrow> (\<exists>p. pc_of st r' = Publish s p g)" for r' s g
    using r(3) c st'(1) by (cases "r' = r") simp_all
  then have a: "assigned rows st' s g = assigned rows st s g" for s g
    unfolding assigned_def using st'(3) by simp
  have d: "\<exists>r' \<in> rows. pc_of st' r' = Done g \<and> keys r' = key_at st' s" if "cell_at st' s = Group g" for s g
  proof -
    have "cell_at st s = Group g" using that st'(3) by blast
    then obtain r' where "r' \<in> rows" "pc_of st r' = Done g" "keys r' = key_at st s" using ids unfolding tg_ids_def by blast
    moreover have "key_at st' s = key_at st s" using st'(4) \<open>cell_at st s = Group g\<close> by blast
    ultimately show ?thesis using r(2) st'(1) by (intro bexI[of _ r']) auto
  qed
  show ?thesis using ids unfolding tg_ids_def a st'(2) using d by blast
qed

lemma tg_ids_step:
  assumes "tg_step orderly keys rows st st'" and inv: "tg_local keys rows st" and ids: "tg_ids keys rows st"
  shows "tg_ids keys rows st'"
  using assms(1)
proof cases
  case (load_free r s p)
  show ?thesis unfolding load_free(1) by (rule tg_ids_same[OF ids load_free(2)]) (use load_free in simp_all)
next
  case (load_claiming r s p)
  show ?thesis unfolding load_claiming(1) by (rule tg_ids_same[OF ids load_claiming(2)]) (use load_claiming in simp_all)
next
  case (load_group r s p g)
  show ?thesis unfolding load_group(1) by (rule tg_ids_same[OF ids load_group(2)]) (use load_group in simp_all)
next
  case (give_up r s p)
  show ?thesis unfolding give_up(1) by (rule tg_ids_same[OF ids give_up(2)]) (use give_up in simp_all)
next
  case (cas_wins r s p)
  show ?thesis unfolding cas_wins(1) by (rule tg_ids_same[OF ids cas_wins(2)]) (use cas_wins in simp_all)
next
  case (cas_claiming r s p)
  show ?thesis unfolding cas_claiming(1) by (rule tg_ids_same[OF ids cas_claiming(2)]) (use cas_claiming in simp_all)
next
  case (cas_group r s p g)
  show ?thesis unfolding cas_group(1) by (rule tg_ids_same[OF ids cas_group(2)]) (use cas_group in simp_all)
next
  case (spin_ends r s p g)
  show ?thesis unfolding spin_ends(1) by (rule tg_ids_same[OF ids spin_ends(2)]) (use spin_ends in simp_all)
next
  case (check_hit r s p c)
  show ?thesis unfolding check_hit(1)
    by (rule tg_ids_same[OF ids check_hit(2)]) (use check_hit in \<open>simp_all add: after_check_def split: cell.splits\<close>)
next
  case (spin_again r s p)
  then show ?thesis using ids by simp
next
  case (check_miss r s p c)
  show ?thesis unfolding check_miss(1) by (rule tg_ids_same[OF ids check_miss(2)]) (use check_miss in simp_all)
next
  case (write_key r s p)
  have "cell_at st s = Claiming" using tg_local_pc[OF inv write_key(2)] write_key(3) by simp
  then show ?thesis unfolding write_key(1)
    by (intro tg_ids_same[OF ids write_key(2)]) (use write_key in auto)
next
  case (take_id r s p)
  let ?st = "goto (st\<lparr>next_id := next_id st + 1\<rparr>) r (Publish s p (next_id st))"
  have cl: "cell_at st s = Claiming" "owns (pc_of st r) s" using tg_local_pc[OF inv take_id(2)] take_id(3) by simp_all
  have mine: "r' = r" if "r' \<in> rows" "pc_of st r' = Publish s q g" for r' q g
    using inv that take_id(2) cl(2) unfolding tg_local_def by (metis owns.simps(3))
  have fresh: "\<not> assigned rows st s g" for g
    using cl mine take_id(3) by (auto simp: assigned_def)
  have a: "assigned rows ?st s' g \<longleftrightarrow> assigned rows st s' g \<or> s' = s \<and> g = next_id st" for s' g
  proof -
    have "(\<exists>p. pc_of ?st r' = Publish s' p g) \<longleftrightarrow>
        (\<exists>p. pc_of st r' = Publish s' p g) \<or> r' = r \<and> s' = s \<and> g = next_id st" for r'
      using take_id(3) by (cases "r' = r") auto
    then show ?thesis unfolding assigned_def using take_id(2) by auto
  qed
  have bound: "\<forall>s' g. assigned rows st s' g \<longrightarrow> g < next_id st" using ids by (simp add: tg_ids_def)
  have inj: "\<forall>s' s'' g. assigned rows st s' g \<longrightarrow> assigned rows st s'' g \<longrightarrow> s' = s''" using ids by (simp add: tg_ids_def)
  have dense: "\<forall>g < next_id st. \<exists>s'. assigned rows st s' g" using ids by (simp add: tg_ids_def)
  have fin: "\<exists>r' \<in> rows. pc_of ?st r' = Done g \<and> keys r' = key_at ?st s'" if "cell_at ?st s' = Group g" for s' g
  proof -
    have "cell_at st s' = Group g" using that by simp
    then obtain r' where "r' \<in> rows" "pc_of st r' = Done g" "keys r' = key_at st s'"
      using ids unfolding tg_ids_def by blast
    then show ?thesis using take_id(3) by (intro bexI[of _ r']) auto
  qed
  have "\<forall>s' g. assigned rows ?st s' g \<longrightarrow> g < next_id ?st" unfolding a using bound by (auto intro: less_SucI)
  moreover have "\<forall>s' s'' g. assigned rows ?st s' g \<longrightarrow> assigned rows ?st s'' g \<longrightarrow> s' = s''"
    unfolding a using inj bound by (metis less_irrefl)
  moreover have "\<forall>g < next_id ?st. \<exists>s'. assigned rows ?st s' g"
    unfolding a using dense by (auto simp: less_Suc_eq)
  ultimately show ?thesis unfolding take_id(1) tg_ids_def using fin by blast
next
  case (publish r s p g)
  let ?st = "goto (st\<lparr>cell_at := (cell_at st)(s := Group g)\<rparr>) r (Done g)"
  have cl: "cell_at st s = Claiming" "owns (pc_of st r) s" "key_at st s = keys r"
    using tg_local_pc[OF inv publish(2)] publish(3) by simp_all
  have mine: "r' = r" if "r' \<in> rows" "pc_of st r' = Publish s q h" for r' q h
    using inv that publish(2) cl(2) unfolding tg_local_def by (metis owns.simps(3))
  have a: "assigned rows ?st s' h \<longleftrightarrow> assigned rows st s' h" for s' h
  proof (cases "s' = s")
    case True
    have "pc_of ?st r' \<noteq> Publish s q h" if "r' \<in> rows" for r' q
      using mine[OF that, of q h] by (cases "r' = r") auto
    then have "assigned rows ?st s h \<longleftrightarrow> h = g" unfolding assigned_def by auto
    moreover have "h = g" if "r' \<in> rows" "pc_of st r' = Publish s q h" for r' q
      using mine[OF that] that(2) publish(3) by simp
    then have "assigned rows st s h \<longleftrightarrow> h = g" unfolding assigned_def using cl(1) publish(2,3) by auto
    ultimately show ?thesis using True by simp
  next
    case False
    have "(\<exists>p. pc_of ?st r' = Publish s' p h) \<longleftrightarrow> (\<exists>p. pc_of st r' = Publish s' p h)" for r'
      using False publish(3) by (cases "r' = r") auto
    then show ?thesis unfolding assigned_def using False by simp
  qed
  have fin: "\<exists>r' \<in> rows. pc_of ?st r' = Done h \<and> keys r' = key_at ?st s'" if "cell_at ?st s' = Group h" for s' h
  proof (cases "s' = s")
    case True
    then show ?thesis using that cl(3) publish(2) by (intro bexI[of _ r]) simp_all
  next
    case False
    then have "cell_at st s' = Group h" using that by simp
    then obtain r' where "r' \<in> rows" "pc_of st r' = Done h" "keys r' = key_at st s'"
      using ids unfolding tg_ids_def by blast
    note r' = this
    with False show ?thesis using publish(3) by (intro bexI[of _ r']) auto
  qed
  have "next_id ?st = next_id st" by simp
  then show ?thesis unfolding publish(1) using ids fin unfolding tg_ids_def a by simp
qed (simp_all add: orderly_def)

lemma tg_init_inv: "tg_local keys rows (tg_init keys)" "tg_ids keys rows (tg_init keys)"
  by (simp_all add: tg_local_def tg_ids_def tg_init_def assigned_def passed_def slot_at_0)

lemma tg_reachable_inv:
  assumes "tg_reachable orderly keys rows st"
  shows "tg_local keys rows st \<and> tg_ids keys rows st"
  using assms unfolding tg_reachable_def
  by (induction rule: rtranclp_induct) (auto simp: tg_init_inv intro: tg_local_step tg_ids_step)


section \<open>What a finished threadgroup has computed\<close>

lemma probing_unique:
  assumes "probing st k s p" "key_at st s = k" "probing st k s' p'" "key_at st s' = k"
  shows "s = s' \<and> p = p'"
proof -
  have "\<not> p < p'" using assms unfolding probing_def passed_def by blast
  moreover have "\<not> p' < p" using assms unfolding probing_def passed_def by blast
  ultimately show ?thesis using assms unfolding probing_def by simp
qed

lemma done_same_key:
  assumes inv: "tg_local keys rows st" "tg_ids keys rows st"
    and r: "r \<in> rows" "pc_of st r = Done g" and r': "r' \<in> rows" "pc_of st r' = Done g'"
  shows "g = g' \<longleftrightarrow> keys r = keys r'"
proof -
  obtain s p where s: "probing st (keys r) s p" "cell_at st s = Group g" "key_at st s = keys r"
    using tg_local_pc[OF inv(1) r(1)] r(2) by auto
  obtain s' p' where s': "probing st (keys r') s' p'" "cell_at st s' = Group g'" "key_at st s' = keys r'"
    using tg_local_pc[OF inv(1) r'(1)] r'(2) by auto
  have inj: "\<forall>s s' g. assigned rows st s g \<longrightarrow> assigned rows st s' g \<longrightarrow> s = s'" using inv(2) by (simp add: tg_ids_def)
  show ?thesis
  proof
    assume "g = g'"
    then have "s = s'" using inj s(2) s'(2) unfolding assigned_def by blast
    then show "keys r = keys r'" using s(3) s'(3) by simp
  next
    assume "keys r = keys r'"
    then have "s = s'" using probing_unique[OF s(1,3)] s'(1,3) by simp
    then show "g = g'" using s(2) s'(2) by simp
  qed
qed

text \<open>The published slots hold different keys, each the key of a row.\<close>

lemma published_keys:
  assumes inv: "tg_local keys rows st" "tg_ids keys rows st"
    and "cell_at st s = Group g" "cell_at st s' = Group g'" "key_at st s = key_at st s'"
  shows "s = s'" "key_at st s \<in> keys ` rows"
proof -
  obtain r where r: "r \<in> rows" "pc_of st r = Done g" "keys r = key_at st s"
    using inv(2) assms(3) unfolding tg_ids_def by blast
  obtain r' where r': "r' \<in> rows" "pc_of st r' = Done g'" "keys r' = key_at st s'"
    using inv(2) assms(4) unfolding tg_ids_def by blast
  have "g = g'" using done_same_key[OF inv r(1,2) r'(1,2)] r(3) r'(3) assms(5) by simp
  then show "s = s'" using inv(2) assms(3,4) unfolding tg_ids_def assigned_def by blast
  show "key_at st s \<in> keys ` rows" using r by (metis imageI)
qed

lemma slot_at_inj:
  assumes "slot_at k j = slot_at k j'" "j < tgsm_slots" "j' < tgsm_slots"
  shows "j = j'"
proof -
  have "\<not> a < b" if "(slot_of k + a) mod tgsm_slots = (slot_of k + b) mod tgsm_slots" "b < tgsm_slots" for a b
  proof
    assume "a < b"
    with that(1) have "tgsm_slots dvd b - a" by (metis add_diff_cancel_left mod_eq_dvd_iff_nat nat_add_left_cancel_le less_imp_le)
    with \<open>a < b\<close> that(2) show False by (auto dest: dvd_imp_le)
  qed
  from this[of j j'] this[of j' j] assms show ?thesis unfolding slot_at_def by fastforce
qed

text \<open>A row gives up only after 64 published slots with keys different from its own and one another.\<close>

lemma overflow_keys:
  assumes inv: "tg_local keys rows st" "tg_ids keys rows st" and fin: "finite rows"
    and r: "r \<in> rows" "pc_of st r = Overflowed"
  shows "tgsm_probe_limit < card (keys ` rows)"
proof -
  let ?k = "keys r" and ?f = "\<lambda>j. key_at st (slot_at (keys r) j)"
  have p: "passed st ?k tgsm_probe_limit" using tg_local_pc[OF inv(1) r(1)] r(2) by simp
  have lt: "tgsm_probe_limit < tgsm_slots" by (simp add: tgsm_probe_limit_def tgsm_slots_def)
  have "inj_on ?f {..<tgsm_probe_limit}"
  proof (rule inj_onI)
    fix j j' assume j: "j \<in> {..<tgsm_probe_limit}" "j' \<in> {..<tgsm_probe_limit}" "?f j = ?f j'"
    then obtain g g' where "cell_at st (slot_at ?k j) = Group g" "cell_at st (slot_at ?k j') = Group g'"
      using p unfolding passed_def by blast
    from slot_at_inj[OF published_keys(1)[OF inv this j(3)]] show "j = j'" using j lt by simp
  qed
  then have "card (?f ` {..<tgsm_probe_limit}) = tgsm_probe_limit" by (simp add: card_image)
  moreover have "?f ` {..<tgsm_probe_limit} \<subseteq> keys ` rows - {?k}"
  proof
    fix x assume "x \<in> ?f ` {..<tgsm_probe_limit}"
    then obtain j where j: "j < tgsm_probe_limit" "x = ?f j" by auto
    then obtain g where g: "cell_at st (slot_at ?k j) = Group g" "?f j \<noteq> ?k" using p unfolding passed_def by blast
    from published_keys(2)[OF inv g(1) g(1) refl] g(2) j(2) show "x \<in> keys ` rows - {?k}" by simp
  qed
  then have "card (?f ` {..<tgsm_probe_limit}) \<le> card (keys ` rows - {?k})" using fin by (intro card_mono) auto
  moreover have "card (keys ` rows - {?k}) = card (keys ` rows) - 1" using r(1) fin by (simp add: card_Diff_singleton)
  moreover have "0 < card (keys ` rows)" using r(1) fin by (auto simp: card_gt_0_iff)
  ultimately show ?thesis by simp
qed

lemma ids_bound:
  assumes inv: "tg_local keys rows st" "tg_ids keys rows st"
  shows "next_id st \<le> tgsm_slots"
proof -
  obtain f where f: "\<And>g. g < next_id st \<Longrightarrow> assigned rows st (f g) g"
    using inv(2) unfolding tg_ids_def by metis
  have range: "f g < tgsm_slots" if "g < next_id st" for g
  proof -
    have slot: "s < tgsm_slots" if "probing st k s p" for k s p
      using that by (simp add: probing_def slot_at_def tgsm_slots_def)
    from f[OF that] show ?thesis unfolding assigned_def
    proof
      assume c: "cell_at st (f g) = Group g"
      then obtain r where "r \<in> rows" "pc_of st r = Done g" using inv(2) unfolding tg_ids_def by blast
      then obtain s p where s: "probing st (keys r) s p" "cell_at st s = Group g"
        using tg_local_pc[OF inv(1)] by fastforce
      then have "f g = s" using inv(2) c unfolding tg_ids_def assigned_def by blast
      then show ?thesis using slot[OF s(1)] by simp
    next
      assume "\<exists>r \<in> rows. \<exists>p. pc_of st r = Publish (f g) p g"
      then obtain r p where "r \<in> rows" "pc_of st r = Publish (f g) p g" by blast
      then have "probing st (keys r) (f g) p" using tg_local_pc[OF inv(1)] by fastforce
      then show ?thesis by (rule slot)
    qed
  qed
  have same: "g = g'" if as: "assigned rows st s g" "assigned rows st s g'" for s g g'
  proof -
    have pub: "cell_at st s = Claiming" if "r \<in> rows" "pc_of st r = Publish s p h" for r p h
      using tg_local_pc[OF inv(1) that(1)] that(2) by simp
    have "h = h'" if "r \<in> rows" "pc_of st r = Publish s p h" "r' \<in> rows" "pc_of st r' = Publish s p' h'" for r p h r' p' h'
    proof -
      have "r = r'" using inv(1) that unfolding tg_local_def by (metis owns.simps(3))
      then show ?thesis using that by simp
    qed
    note two = this
    show ?thesis
    proof (cases "cell_at st s = Claiming")
      case True
      then obtain r p r' p' where "r \<in> rows" "pc_of st r = Publish s p g" "r' \<in> rows" "pc_of st r' = Publish s p' g'"
        using as unfolding assigned_def by auto
      then show ?thesis by (rule two)
    next
      case False
      then have "cell_at st s = Group g" "cell_at st s = Group g'" using as pub unfolding assigned_def by blast+
      then show ?thesis by simp
    qed
  qed
  have "inj_on f {..<next_id st}" by (rule inj_onI) (metis f same lessThan_iff)
  moreover have "f ` {..<next_id st} \<subseteq> {..<tgsm_slots}" using range by auto
  ultimately show ?thesis by (metis card_inj_on_le card_lessThan finite_lessThan)
qed

section \<open>Completing a run\<close>

text \<open>How many steps a row can still make, re-reads of a claimed slot aside.\<close>

fun rank :: "pc \<Rightarrow> nat" where
  "rank (Load s p) = 4 * (tgsm_probe_limit + 1 - p) + 7"
| "rank (Cas s p) = 4 * (tgsm_probe_limit + 1 - p) + 6"
| "rank (Spin s p) = 4 * (tgsm_probe_limit + 1 - p) + 5"
| "rank (Check s p c) = 4 * (tgsm_probe_limit + 1 - p) + 4"
| "rank (WriteKey s p) = 3"
| "rank (TakeId s p) = 2"
| "rank (Publish s p g) = 1"
| "rank (Done g) = 0"
| "rank Overflowed = 0"

definition work_left :: "nat set \<Rightarrow> tg_state \<Rightarrow> nat" where
  "work_left rows st = (\<Sum>r \<in> rows. rank (pc_of st r))"

lemma work_left_less:
  assumes "finite rows" "r \<in> rows" "pc_of st' = (pc_of st)(r := c)" "rank c < rank (pc_of st r)"
  shows "work_left rows st' < work_left rows st"
  unfolding work_left_def by (rule sum_strict_mono_ex1) (use assms in \<open>auto intro: less_imp_le\<close>)

text \<open>A row that holds a slot can go on, and so can every unfinished row whose slot nobody holds.\<close>

lemma tg_progress:
  assumes inv: "tg_local keys rows st" and fin: "finite rows" and r: "r \<in> rows" "\<not> finished (pc_of st r)"
  shows "\<exists>st'. tg_step orderly keys rows st st' \<and> work_left rows st' < work_left rows st"
proof -
  have go: ?thesis if "tg_step orderly keys rows st st'" "r' \<in> rows" "pc_of st' = (pc_of st)(r' := c)" "rank c < rank (pc_of st r')" for st' r' c
    using that(1) work_left_less[OF fin that(2-4)] by blast
  have owner: ?thesis if "r' \<in> rows" "owns (pc_of st r') s" for r' s
  proof (cases "pc_of st r'")
    case (WriteKey a p)
    show ?thesis by (rule go[OF tg_step.write_key[OF that(1) WriteKey] that(1), of "TakeId a p"]) (simp_all add: WriteKey)
  next
    case (TakeId a p)
    show ?thesis by (rule go[OF tg_step.take_id[OF that(1) TakeId] that(1), of "Publish a p (next_id st)"]) (simp_all add: TakeId)
  next
    case (Publish a p g)
    show ?thesis by (rule go[OF tg_step.publish[OF that(1) Publish] that(1), of "Done g"]) (simp_all add: Publish)
  qed (use that in simp_all)
  show ?thesis
  proof (cases "pc_of st r")
    case (Load s p)
    show ?thesis
    proof (cases "p < tgsm_probe_limit")
      case True
      show ?thesis by (rule go[OF tg_step.load_free[OF r(1) Load True] r(1)]) (simp add: Load)+
    next
      case False
      show ?thesis by (rule go[OF tg_step.give_up[OF r(1) Load False] r(1)]) (simp add: Load)+
    qed
  next
    case (Cas s p)
    show ?thesis
    proof (cases "cell_at st s")
      case Free
      show ?thesis by (rule go[OF tg_step.cas_wins[OF r(1) Cas Free] r(1)]) (simp add: Cas)+
    next
      case Claiming
      show ?thesis by (rule go[OF tg_step.cas_claiming[OF r(1) Cas Claiming] r(1)]) (simp add: Cas)+
    next
      case (Group g)
      show ?thesis by (rule go[OF tg_step.cas_group[OF r(1) Cas Group] r(1)]) (simp add: Cas)+
    qed
  next
    case (Spin s p)
    show ?thesis
    proof (cases "cell_at st s")
      case Claiming
      then obtain r' where "r' \<in> rows" "owns (pc_of st r') s" using inv unfolding tg_local_def by blast
      then show ?thesis by (rule owner)
    next
      case (Group g)
      show ?thesis by (rule go[OF tg_step.spin_ends[OF r(1) Spin Group] r(1)]) (simp add: Spin)+
    qed (use tg_local_pc[OF inv r(1)] Spin in auto)
  next
    case (Check s p c)
    have p: "p < tgsm_probe_limit" using tg_local_pc[OF inv r(1)] Check by (simp add: probing_def)
    show ?thesis
    proof (cases "key_at st s = keys r")
      case True
      show ?thesis by (rule go[OF tg_step.check_hit[where keys = keys, OF r(1) Check True] r(1)]) (simp add: Check after_check_def split: cell.split)+
    next
      case False
      show ?thesis by (rule go[OF tg_step.check_miss[where keys = keys, OF r(1) Check False] r(1)]) (use p in \<open>simp add: Check\<close>)+
    qed
  qed (use r owner in auto)
qed

text \<open>Every orderly run can be completed.\<close>

lemma completes_from:
  assumes "finite rows" and "tg_reachable orderly keys rows st"
  shows "\<exists>st'. tg_reachable orderly keys rows st' \<and> (\<forall>r \<in> rows. finished (pc_of st' r))"
  using assms(2)
proof (induction "work_left rows st" arbitrary: st rule: less_induct)
  case less
  show ?case
  proof (cases "\<forall>r \<in> rows. finished (pc_of st r)")
    case False
    then obtain r where r: "r \<in> rows" "\<not> finished (pc_of st r)" by blast
    have "tg_local keys rows st" using tg_reachable_inv[OF less.prems] by blast
    from tg_progress[OF this assms(1) r] obtain st' where st': "tg_step orderly keys rows st st'" "work_left rows st' < work_left rows st" by blast
    have "tg_reachable orderly keys rows st'"
      using less.prems st'(1) unfolding tg_reachable_def by (rule rtranclp.rtrancl_into_rtrancl)
    from less.hyps[OF st'(2) this] show ?thesis .
  qed (use less.prems in blast)
qed

lemma complete_run_exists:
  "finite rows \<Longrightarrow> \<exists>st. tg_reachable orderly keys rows st \<and> (\<forall>r \<in> rows. finished (pc_of st r))"
  by (rule completes_from[where st = "tg_init keys"]) (simp_all add: tg_reachable_def)

section \<open>The scatter kernels and the host\<close>

text \<open>\<open>partition_count\<close> and \<open>partition_scatter\<close>; \<open>pid\<close> is the partition of a row. The threads run in the
  order of the schedules.\<close>

definition count_kernel :: "(nat \<Rightarrow> nat) \<Rightarrow> nat \<Rightarrow> nat list \<Rightarrow> u32 list" where
  "count_kernel pid np sched = foldl (\<lambda>c r. c[pid r := c ! pid r + 1]) (replicate np 0) sched"

definition scatter_step :: "(nat \<Rightarrow> nat) \<Rightarrow> u32 list \<Rightarrow> u32 list \<times> u32 list \<times> u32 list \<Rightarrow> nat \<Rightarrow> u32 list \<times> u32 list \<times> u32 list" where
  "scatter_step pid offs = (\<lambda>(cursors, idx, pids) r.
     let p = pid r; slot = cursors ! p in
     (cursors[p := slot + 1], idx[unat (offs ! p + slot) := of_nat r], pids[r := of_nat p]))"

definition scatter_kernel :: "(nat \<Rightarrow> nat) \<Rightarrow> nat \<Rightarrow> nat \<Rightarrow> u32 list \<Rightarrow> nat list \<Rightarrow> u32 list \<times> u32 list \<times> u32 list" where
  "scatter_kernel pid np n offs sched = foldl (scatter_step pid offs) (replicate np 0, replicate n 0, replicate n 0) sched"

definition row_partition :: "u128 list \<Rightarrow> u32 \<Rightarrow> nat \<Rightarrow> nat" where
  "row_partition keys np r = unat (partition_id (keys ! r) np)"

definition scatter_phase :: "u128 list \<Rightarrow> u32 \<Rightarrow> nat list \<Rightarrow> nat list \<Rightarrow> u32 list \<times> u32 list \<times> u32 list" where
  "scatter_phase keys np count_sched scatter_sched =
     (let offs = scan_from 0 (count_kernel (row_partition keys np) (unat np) count_sched);
          (_, idx, pids) = scatter_kernel (row_partition keys np) (unat np) (length keys) offs scatter_sched
      in (offs, idx, pids))"

text \<open>The rows threadgroup \<open>p\<close> reads.\<close>

definition tg_rows :: "u32 list \<Rightarrow> u32 list \<Rightarrow> nat \<Rightarrow> nat set" where
  "tg_rows offs idx p = set (map unat (take (unat (offs ! (p + 1) - offs ! p)) (drop (unat (offs ! p)) idx)))"

text \<open>\<open>fin p\<close> is the state in which threadgroup \<open>p\<close> ended.\<close>

definition tgs_complete :: "memory \<Rightarrow> u128 list \<Rightarrow> u32 \<Rightarrow> u32 list \<Rightarrow> u32 list \<Rightarrow> (nat \<Rightarrow> tg_state) \<Rightarrow> bool" where
  "tgs_complete mm keys np offs idx fin \<longleftrightarrow>
     (\<forall>p < unat np. tg_reachable mm ((!) keys) (tg_rows offs idx p) (fin p) \<and>
        (\<forall>r \<in> tg_rows offs idx p. finished (pc_of (fin p) r)))"

datatype partitioned_build_error = PartRowOverflow | PartOverflow

definition local_group :: "pc \<Rightarrow> u32" where
  "local_group c = (case c of Done g \<Rightarrow> of_nat g | _ \<Rightarrow> - 1)"

text \<open>\<open>None\<close> is a panic.\<close>

definition partition_and_build_with_scratch ::
  "u128 list \<Rightarrow> u32 \<Rightarrow> nat list \<Rightarrow> nat list \<Rightarrow> (nat \<Rightarrow> tg_state) \<Rightarrow> (partitioned_build_error + build_output) option" where
  "partition_and_build_with_scratch keys np count_sched scatter_sched fin =
     (if keys = [] then Some (Inr empty_build)
      else if \<not> is_power_of_two (unat np) then None
      else if length keys > u32_max then Some (Inl PartRowOverflow)
      else let (offs, idx, pids) = scatter_phase keys np count_sched scatter_sched in
        if \<exists>p < unat np. \<exists>r \<in> tg_rows offs idx p. pc_of (fin p) r = Overflowed then Some (Inl PartOverflow)
        else map_option Inr (finalize_build (map (\<lambda>p. of_nat (next_id (fin p))) [0..<unat np])
          (zip pids (map (\<lambda>r. local_group (pc_of (fin (unat (pids ! r))) r)) [0..<length keys]))))"

section \<open>The scatter groups the rows by partition\<close>

definition part_rows :: "(nat \<Rightarrow> nat) \<Rightarrow> nat list \<Rightarrow> nat \<Rightarrow> nat list" where
  "part_rows pid sched p = filter (\<lambda>r. pid r = p) sched"

definition part_start :: "(nat \<Rightarrow> nat) \<Rightarrow> nat list \<Rightarrow> nat \<Rightarrow> nat" where
  "part_start pid sched p = sum_list (map (\<lambda>q. length (part_rows pid sched q)) [0..<p])"

lemma count_kernel_eq:
  assumes "\<forall>r \<in> set sched. pid r < np"
  shows "count_kernel pid np sched = map (\<lambda>p. of_nat (length (part_rows pid sched p))) [0..<np]"
proof -
  have "foldl (\<lambda>c r. c[pid r := c ! pid r + 1]) c sched = map (\<lambda>p. c ! p + of_nat (length (part_rows pid sched p))) [0..<np]"
    if "length c = np" for c :: "u32 list"
    using assms that
  proof (induction sched arbitrary: c)
    case Nil
    then show ?case by (auto simp: part_rows_def intro: list_eq_by_nth)
  next
    case (Cons r sched)
    then show ?case by (auto simp: part_rows_def nth_list_update intro!: list_eq_by_nth)
  qed
  then show ?thesis by (simp add: count_kernel_def)
qed

lemma part_start_Suc: "part_start pid sched (Suc p) = part_start pid sched p + length (part_rows pid sched p)"
  by (simp add: part_start_def)

lemma part_start_mono: "p \<le> q \<Longrightarrow> part_start pid sched p \<le> part_start pid sched q"
  by (induction q) (auto simp: part_start_Suc le_Suc_eq)

lemma part_start_all:
  assumes "\<forall>r \<in> set sched. pid r < np"
  shows "part_start pid sched np = length sched"
proof -
  have "part_start pid sched p = length (filter (\<lambda>r. pid r < p) sched)" for p
  proof (induction p)
    case (Suc p)
    have "length (filter (\<lambda>r. pid r < Suc p) xs) = length (filter (\<lambda>r. pid r < p) xs) + length (part_rows pid xs p)" for xs
      by (induction xs) (auto simp: part_rows_def)
    with Suc show ?case by (simp add: part_start_Suc)
  qed (simp add: part_start_def)
  then show ?thesis using assms by simp
qed

lemma part_pos_bound:
  assumes "\<forall>r \<in> set sched. pid r < np" "p < np" "j < length (part_rows pid sched p)"
  shows "part_start pid sched p + j < length sched"
proof -
  have "part_start pid sched p + j < part_start pid sched (Suc p)" using assms(3) by (simp add: part_start_Suc)
  also have "\<dots> \<le> part_start pid sched np" using assms(2) by (intro part_start_mono) simp
  finally show ?thesis using part_start_all[OF assms(1)] by simp
qed

lemma part_pos_disjoint:
  assumes "j < length (part_rows pid sched p)" "j' < length (part_rows pid sched p')" "p \<noteq> p'"
  shows "part_start pid sched p + j \<noteq> part_start pid sched p' + j'"
proof -
  have "part_start pid sched a + i < part_start pid sched b + k"
    if "a < b" "i < length (part_rows pid sched a)" for a b i k
    using part_start_mono[of "Suc a" b pid sched] that by (simp add: part_start_Suc)
  from this[of p p' j j'] this[of p' p j' j] assms show ?thesis by (metis less_irrefl linorder_neqE_nat)
qed


lemma part_rows_prefix: "length (part_rows pid xs p) \<le> length (part_rows pid (xs @ ys) p)"
  by (simp add: part_rows_def)

lemma scatter_prefix:
  assumes in_np: "\<forall>r \<in> set sched. pid r < np" and perm: "schedule_ok n sched" and n: "n < 2 ^ 32"
    and offs: "\<forall>p < np. offs ! p = of_nat (part_start pid sched p)"
    and pre: "sched = xs @ ys"
  shows "\<exists>idx pids. foldl (scatter_step pid offs) (replicate np 0, replicate n 0, replicate n 0) xs =
      (map (\<lambda>p. of_nat (length (part_rows pid xs p))) [0..<np], idx, pids) \<and> length idx = n \<and> length pids = n \<and>
    (\<forall>p < np. \<forall>j < length (part_rows pid xs p). idx ! (part_start pid sched p + j) = of_nat (part_rows pid xs p ! j)) \<and>
    (\<forall>r \<in> set xs. pids ! r = of_nat (pid r))"
  using pre
proof (induction xs arbitrary: ys rule: rev_induct)
  case Nil
  then show ?case by (auto simp: part_rows_def intro: list_eq_by_nth)
next
  case (snoc r xs)
  let ?cnt = "\<lambda>xs p. length (part_rows pid xs p)" and ?st = "part_start pid sched"
  from snoc.IH[of "r # ys"] snoc.prems obtain idx pids where
    st: "foldl (scatter_step pid offs) (replicate np 0, replicate n 0, replicate n 0) xs = (map (\<lambda>p. of_nat (?cnt xs p)) [0..<np], idx, pids)"
    and len: "length idx = n" "length pids = n"
    and idx: "\<forall>p < np. \<forall>j < ?cnt xs p. idx ! (?st p + j) = of_nat (part_rows pid xs p ! j)"
    and pids: "\<forall>r \<in> set xs. pids ! r = of_nat (pid r)" by auto
  have lens: "length sched = n" using perm by (metis diff_zero length_upt mset_eq_length schedule_ok_def)
  have r: "pid r < np" "r < n" using in_np snoc.prems schedule_set[OF perm] by auto
  have cnt_r: "?cnt (xs @ [r]) p = ?cnt xs p + (if pid r = p then 1 else 0)" for p by (simp add: part_rows_def)
  have lt: "?cnt xs (pid r) < ?cnt sched (pid r)"
    using part_rows_prefix[of pid "xs @ [r]" "pid r" ys] cnt_r[of "pid r"] snoc.prems by simp
  let ?pos = "?st (pid r) + ?cnt xs (pid r)"
  have pos: "?pos < n" using part_pos_bound[OF in_np r(1) lt] lens by simp
  have "unat (offs ! pid r + of_nat (?cnt xs (pid r))) = ?pos"
  proof -
    have "offs ! pid r + of_nat (?cnt xs (pid r)) = of_nat ?pos" using offs r(1) by simp
    then show ?thesis using pos n by (simp add: unat_of_nat del: of_nat_add)
  qed
  then have step: "foldl (scatter_step pid offs) (replicate np 0, replicate n 0, replicate n 0) (xs @ [r]) =
      ((map (\<lambda>p. of_nat (?cnt xs p)) [0..<np])[pid r := of_nat (?cnt xs (pid r)) + 1], idx[?pos := of_nat r], pids[r := of_nat (pid r)])"
    using r st by (simp add: scatter_step_def Let_def)
  have cur: "(map (\<lambda>p. of_nat (?cnt xs p)) [0..<np])[pid r := of_nat (?cnt xs (pid r)) + 1] =
      (map (\<lambda>p. of_nat (?cnt (xs @ [r]) p)) [0..<np] :: u32 list)"
    using r(1) by (intro list_eq_by_nth) (auto simp: nth_list_update cnt_r)
  have "idx[?pos := of_nat r] ! (?st p + j) = of_nat (part_rows pid (xs @ [r]) p ! j)"
    if p: "p < np" and j: "j < ?cnt (xs @ [r]) p" for p j
  proof (cases "p = pid r \<and> j = ?cnt xs p")
    case True
    then show ?thesis using pos len by (simp add: part_rows_def)
  next
    case False
    then have j': "j < ?cnt xs p" using j cnt_r[of p] by (auto split: if_splits)
    have "j < ?cnt sched p" using j' part_rows_prefix[of pid xs p "r # ys"] snoc.prems by simp
    then have "?st p + j \<noteq> ?pos" using part_pos_disjoint[OF _ lt] False j' by fastforce
    moreover have "part_rows pid (xs @ [r]) p ! j = part_rows pid xs p ! j"
      using j' by (simp add: part_rows_def nth_append)
    ultimately show ?thesis using idx p j' by simp
  qed
  moreover have "pids[r := of_nat (pid r)] ! r' = of_nat (pid r')" if "r' \<in> set (xs @ [r])" for r'
    using that pids r len by (auto simp: nth_list_update)
  ultimately show ?case using step cur len by (intro exI[of _ "idx[?pos := of_nat r]"] exI[of _ "pids[r := of_nat (pid r)]"]) simp
qed

lemma part_rows_length: "mset xs = mset ys \<Longrightarrow> length (part_rows pid xs p) = length (part_rows pid ys p)"
  unfolding part_rows_def by (metis mset_filter size_mset)

lemma scatter_phase_spec:
  assumes np: "is_power_of_two (unat np)" and n: "length keys < 2 ^ 32"
    and sched: "schedule_ok (length keys) cs" "schedule_ok (length keys) ss"
  obtains offs idx pids where "scatter_phase keys np cs ss = (offs, idx, pids)"
    and "length pids = length keys" "\<forall>r < length keys. pids ! r = of_nat (row_partition keys np r)"
    and "\<forall>p < unat np. tg_rows offs idx p = {r. r < length keys \<and> row_partition keys np r = p}"
proof -
  let ?pid = "row_partition keys np" and ?n = "length keys"
  have lt: "?pid r < unat np" for r by (simp add: row_partition_def partition_id_less[OF np])
  then have in_np: "\<forall>r \<in> set cs. ?pid r < unat np" "\<forall>r \<in> set ss. ?pid r < unat np" by simp_all
  have cnt: "length (part_rows ?pid cs p) = length (part_rows ?pid ss p)" for p
    using sched by (intro part_rows_length) (simp add: schedule_ok_def)
  define offs where "offs = scan_from 0 (count_kernel ?pid (unat np) cs)"
  have len: "length ss = ?n" using sched(2) by (metis diff_zero length_upt mset_eq_length schedule_ok_def)
  have offs: "offs ! p = of_nat (part_start ?pid ss p)" if "p \<le> unat np" for p
  proof -
    have "sum_list (map (\<lambda>q. of_nat (length (part_rows ?pid ss q)) :: u32) xs) = of_nat (sum_list (map (\<lambda>q. length (part_rows ?pid ss q)) xs))" for xs
      by (induction xs) simp_all
    then show ?thesis
      using that unfolding offs_def count_kernel_eq[OF in_np(1)] cnt
      by (simp add: scan_from_nth take_map part_start_def)
  qed
  obtain idx pids cur where sc: "foldl (scatter_step ?pid offs) (replicate (unat np) 0, replicate ?n 0, replicate ?n 0) ss = (cur, idx, pids)"
    and l: "length idx = ?n" "length pids = ?n"
    and idx: "\<forall>p < unat np. \<forall>j < length (part_rows ?pid ss p). idx ! (part_start ?pid ss p + j) = of_nat (part_rows ?pid ss p ! j)"
    and pids: "\<forall>r \<in> set ss. pids ! r = of_nat (?pid r)"
    using scatter_prefix[OF in_np(2) sched(2) n, of offs ss "[]"] offs by auto
  have "tg_rows offs idx p = {r. r < ?n \<and> ?pid r = p}" if p: "p < unat np" for p
  proof -
    have ends: "part_start ?pid ss p \<le> ?n" "part_start ?pid ss (Suc p) \<le> ?n"
      using part_start_mono[of _ "unat np" ?pid ss] part_start_all[OF in_np(2)] len p by (metis Suc_leI less_imp_le)+
    then have st: "unat (offs ! p) = part_start ?pid ss p" using offs[of p] p n by (simp add: unat_of_nat)
    have "offs ! (p + 1) - offs ! p = of_nat (length (part_rows ?pid ss p))"
      using offs[of p] offs[of "p + 1"] p by (simp add: part_start_Suc)
    then have cnt': "unat (offs ! (p + 1) - offs ! p) = length (part_rows ?pid ss p)"
      using ends(2) n by (simp add: unat_of_nat part_start_Suc)
    have "map unat (take (length (part_rows ?pid ss p)) (drop (part_start ?pid ss p) idx)) = part_rows ?pid ss p"
    proof (rule list_eq_by_nth)
      fix j assume j: "j < length (part_rows ?pid ss p)"
      have "part_rows ?pid ss p ! j \<in> set ss" using nth_mem[OF j] by (simp add: part_rows_def)
      then have "part_rows ?pid ss p ! j < 2 ^ 32" using schedule_set[OF sched(2)] n by auto
      then show "map unat (take (length (part_rows ?pid ss p)) (drop (part_start ?pid ss p) idx)) ! j = part_rows ?pid ss p ! j"
        using j idx p ends l by (simp add: part_start_Suc unat_of_nat)
    qed (use ends l in \<open>simp add: part_start_Suc\<close>)
    then show ?thesis
      unfolding tg_rows_def st cnt' using schedule_set[OF sched(2)] by (auto simp: part_rows_def)
  qed
  moreover have "\<forall>r < ?n. pids ! r = of_nat (?pid r)" using pids schedule_set[OF sched(2)] by auto
  moreover have "scatter_phase keys np cs ss = (offs, idx, pids)"
    using sc by (simp add: scatter_phase_def scatter_kernel_def offs_def Let_def)
  ultimately show ?thesis using that l by blast
qed


section \<open>The whole build\<close>

lemma tg_rows_done:
  assumes "tg_local keys rows st" "tg_ids keys rows st" and "finite rows"
    and fin: "\<forall>r \<in> rows. \<exists>g. pc_of st r = Done g"
  shows "\<forall>r \<in> rows. \<forall>g. pc_of st r = Done g \<longrightarrow> g < next_id st"
    and "\<forall>g < next_id st. \<exists>r \<in> rows. pc_of st r = Done g"
    and "next_id st \<le> card rows"
proof -
  note inv = assms(1,2)
  show bound: "\<forall>r \<in> rows. \<forall>g. pc_of st r = Done g \<longrightarrow> g < next_id st"
  proof (intro ballI allI impI)
    fix r g assume "r \<in> rows" "pc_of st r = Done g"
    then obtain s where "cell_at st s = Group g" using tg_local_pc[OF inv(1)] by fastforce
    then show "g < next_id st" using inv(2) unfolding tg_ids_def assigned_def by blast
  qed
  show onto: "\<forall>g < next_id st. \<exists>r \<in> rows. pc_of st r = Done g"
  proof (intro allI impI)
    fix g assume "g < next_id st"
    then obtain s where "assigned rows st s g" using inv(2) unfolding tg_ids_def by blast
    then have "cell_at st s = Group g" using fin unfolding assigned_def by fastforce
    then show "\<exists>r \<in> rows. pc_of st r = Done g" using inv(2) unfolding tg_ids_def by blast
  qed
  have "{..<next_id st} \<subseteq> (\<lambda>r. THE g. pc_of st r = Done g) ` rows"
  proof
    fix g assume "g \<in> {..<next_id st}"
    then obtain r where "r \<in> rows" "pc_of st r = Done g" using onto by blast
    then show "g \<in> (\<lambda>r. THE g. pc_of st r = Done g) ` rows" by (intro image_eqI[of _ _ r]) simp_all
  qed
  then have "card {..<next_id st} \<le> card rows" by (rule surj_card_le[OF assms(3)])
  then show "next_id st \<le> card rows" by simp
qed

lemma partition_and_build_correct:
  assumes np: "is_power_of_two (unat np)" and n: "length keys < 2 ^ 32" and ne: "keys \<noteq> []"
    and sched: "schedule_ok (length keys) cs" "schedule_ok (length keys) ss"
    and run: "tgs_complete orderly keys np offs idx fin" and sp: "scatter_phase keys np cs ss = (offs, idx, pids)"
    and clean: "\<not> (\<exists>p < unat np. \<exists>r \<in> tg_rows offs idx p. pc_of (fin p) r = Overflowed)"
  shows "\<exists>b. partition_and_build_with_scratch keys np cs ss fin = Some (Inr b) \<and> grouping keys b \<and> first_rows_minimal b"
proof -
  let ?pid = "row_partition keys np" and ?n = "length keys"
  obtain offs' idx' pids' where "scatter_phase keys np cs ss = (offs', idx', pids')" "length pids' = ?n"
    "\<forall>r < ?n. pids' ! r = of_nat (?pid r)" "\<forall>p < unat np. tg_rows offs' idx' p = {r. r < ?n \<and> ?pid r = p}"
    by (rule scatter_phase_spec[OF np n sched])
  with sp have pids: "length pids = ?n" "\<forall>r < ?n. pids ! r = of_nat (?pid r)"
    and rows: "\<forall>p < unat np. tg_rows offs idx p = {r. r < ?n \<and> ?pid r = p}" by simp_all
  have lt: "?pid r < unat np" for r by (simp add: row_partition_def partition_id_less[OF np])
  have pid_u: "unat (pids ! r) = ?pid r" if "r < ?n" for r
    using pids(2) that lt[of r] unsigned_less[of np, where ?'a = nat] by (simp add: unat_of_nat)
  let ?rows = "\<lambda>p. {r. r < ?n \<and> ?pid r = p}"
  have inv: "tg_local ((!) keys) (?rows p) (fin p)" "tg_ids ((!) keys) (?rows p) (fin p)" if "p < unat np" for p
  proof -
    have "tg_reachable orderly ((!) keys) (tg_rows offs idx p) (fin p)" using run that unfolding tgs_complete_def by blast
    from tg_reachable_inv[OF this] rows that
    show "tg_local ((!) keys) (?rows p) (fin p)" "tg_ids ((!) keys) (?rows p) (fin p)" by simp_all
  qed
  have dn: "\<forall>r \<in> ?rows p. \<exists>g. pc_of (fin p) r = Done g" if "p < unat np" for p
  proof
    fix r assume r: "r \<in> ?rows p"
    then have "finished (pc_of (fin p) r)" "pc_of (fin p) r \<noteq> Overflowed"
      using run clean rows that unfolding tgs_complete_def by blast+
    then show "\<exists>g. pc_of (fin p) r = Done g" by (cases "pc_of (fin p) r") simp_all
  qed
  have finp: "finite (?rows p)" for p by simp
  note td = tg_rows_done[OF inv finp dn]
  have small: "next_id (fin p) < 2 ^ 32" if "p < unat np" for p
    using ids_bound[OF inv[OF that]] by (simp add: tgsm_slots_def)
  define id where "id r = (case pc_of (fin (?pid r)) r of Done g \<Rightarrow> g | _ \<Rightarrow> 0)" for r
  have id: "pc_of (fin (?pid r)) r = Done (id r)" "id r < next_id (fin (?pid r))" if "r < ?n" for r
  proof -
    show pc: "pc_of (fin (?pid r)) r = Done (id r)" using dn[OF lt[of r]] that by (auto simp: id_def)
    show "id r < next_id (fin (?pid r))" using td(1)[OF lt lt lt] pc that by blast
  qed
  let ?ng = "map (\<lambda>p. of_nat (next_id (fin p)) :: u32) [0..<unat np]"
  let ?pls = "zip pids (map (\<lambda>r. local_group (pc_of (fin (unat (pids ! r))) r)) [0..<?n])"
  have pl: "?pls ! r = (of_nat (?pid r), of_nat (id r))" if "r < ?n" for r
    using that pids id(1)[OF that] pid_u[OF that] by (simp add: local_group_def)
  have un: "unat (of_nat (?pid r) :: u32) = ?pid r" "unat (of_nat (id r) :: u32) = id r" if "r < ?n" for r
    using pid_u[OF that] pids(2) id(2)[OF that] small[OF lt[of r]] that by (simp_all add: unat_of_nat)
  have ngp: "unat (?ng ! p) = next_id (fin p)" if "p < unat np" for p
    using that small[OF that] by (simp add: unat_of_nat)
  have "\<exists>b. finalize_build ?ng ?pls = Some b \<and> grouping keys b \<and> first_rows_minimal b"
  proof (rule finalize_build_grouping)
    show "length ?pls = ?n" using pids by simp
    show "\<forall>i < ?n. unat (fst (?pls ! i)) < length ?ng \<and> unat (snd (?pls ! i)) < unat (?ng ! unat (fst (?pls ! i)))"
    proof (intro allI impI)
      fix i assume i: "i < ?n"
      show "unat (fst (?pls ! i)) < length ?ng \<and> unat (snd (?pls ! i)) < unat (?ng ! unat (fst (?pls ! i)))"
        unfolding pl[OF i] fst_conv snd_conv un[OF i] ngp[OF lt] using lt id(2)[OF i] by simp
    qed
    show "\<forall>i < ?n. \<forall>j < ?n. ?pls ! i = ?pls ! j \<longleftrightarrow> keys ! i = keys ! j"
    proof (intro allI impI)
      fix i j assume i: "i < ?n" and j: "j < ?n"
      have "?pls ! i = ?pls ! j \<longleftrightarrow> ?pid i = ?pid j \<and> id i = id j"
        unfolding pl[OF i] pl[OF j] prod.inject using un[OF i] un[OF j] by metis
      also have "\<dots> \<longleftrightarrow> ?pid i = ?pid j \<and> keys ! i = keys ! j"
      proof (rule conj_cong[OF refl])
        assume p: "?pid i = ?pid j"
        show "id i = id j \<longleftrightarrow> keys ! i = keys ! j"
          by (rule done_same_key[OF inv[OF lt[of i]]]) (use i j p id(1)[OF i] id(1)[OF j] in simp_all)
      qed
      also have "\<dots> \<longleftrightarrow> keys ! i = keys ! j" by (auto simp: row_partition_def)
      finally show "?pls ! i = ?pls ! j \<longleftrightarrow> keys ! i = keys ! j" .
    qed
    show "\<forall>p < length ?ng. \<forall>l < unat (?ng ! p). \<exists>i < ?n. unat (fst (?pls ! i)) = p \<and> unat (snd (?pls ! i)) = l"
    proof (intro allI impI)
      fix p l assume "p < length ?ng" and l: "l < unat (?ng ! p)"
      then have p: "p < unat np" by simp
      obtain i where i: "i \<in> ?rows p" "pc_of (fin p) i = Done l" using td(2)[OF p p p] l ngp[OF p] by auto
      then have "id i = l" by (auto simp: id_def)
      with i show "\<exists>i < ?n. unat (fst (?pls ! i)) = p \<and> unat (snd (?pls ! i)) = l"
        using pl[of i] un[of i] by (intro exI[of _ i]) auto
    qed
    have "sum_list (map unat ?ng) \<le> sum_list (map (\<lambda>p. card (?rows p)) [0..<unat np])"
      unfolding map_map by (intro sum_list_mono) (use ngp td(3) in auto)
    also have "\<dots> = card (\<Union>p \<in> {..<unat np}. ?rows p)"
      by (subst card_UN_disjoint) (auto simp: sum_list_sum_nth atLeast0LessThan)
    also have "(\<Union>p \<in> {..<unat np}. ?rows p) = {..<?n}" using lt by auto
    finally show "sum_list (map unat ?ng) < 2 ^ 32" using n by simp
  qed (rule n)
  then obtain b where "finalize_build ?ng ?pls = Some b" "grouping keys b" "first_rows_minimal b" by blast
  then show ?thesis
    using ne np n sp clean unfolding partition_and_build_with_scratch_def by (simp add: u32_max_def)
qed


section \<open>Runs\<close>

lemma reach_step: "tg_reachable b keys rows st \<Longrightarrow> tg_step b keys rows st st' \<Longrightarrow> tg_reachable b keys rows st'"
  unfolding tg_reachable_def by (rule rtranclp.rtrancl_into_rtrancl)

lemma reach_init: "tg_reachable b keys rows (tg_init keys)"
  by (simp add: tg_reachable_def)

text \<open>A row at a free slot inserts its key.\<close>

definition inserted :: "tg_state \<Rightarrow> nat \<Rightarrow> nat \<Rightarrow> u128 \<Rightarrow> tg_state" where
  "inserted st r s k = goto (st\<lparr>cell_at := (cell_at st)(s := Group (next_id st)), key_at := (key_at st)(s := k),
     next_id := next_id st + 1\<rparr>) r (Done (next_id st))"

lemma reach_insert:
  assumes reach: "tg_reachable b keys rows st" and r: "r \<in> rows" and pc: "pc_of st r = Load s p" "p < tgsm_probe_limit"
    and free: "cell_at st s = Free"
  shows "tg_reachable b keys rows (inserted st r s (keys r))"
proof -
  let ?a = "goto st r (Cas s p)"
  have a: "tg_reachable b keys rows ?a" by (rule reach_step[OF reach tg_step.load_free[OF r pc]])
  let ?b = "goto (?a\<lparr>cell_at := (cell_at ?a)(s := Claiming)\<rparr>) r (WriteKey s p)"
  have b: "tg_reachable b keys rows ?b" by (rule reach_step[OF a tg_step.cas_wins[OF r]]) (use free in simp_all)
  let ?c = "goto (?b\<lparr>key_at := (key_at ?b)(s := keys r)\<rparr>) r (TakeId s p)"
  have c: "tg_reachable b keys rows ?c" by (rule reach_step[OF b tg_step.write_key[OF r]]) simp
  let ?d = "goto (?c\<lparr>next_id := next_id ?c + 1\<rparr>) r (Publish s p (next_id ?c))"
  have d: "tg_reachable b keys rows ?d" by (rule reach_step[OF c tg_step.take_id[OF r]]) simp
  let ?e = "goto (?d\<lparr>cell_at := (cell_at ?d)(s := Group (next_id st))\<rparr>) r (Done (next_id st))"
  have e: "tg_reachable b keys rows ?e" by (rule reach_step[OF d tg_step.publish[OF r]]) simp
  have "?e = inserted st r s (keys r)" by (simp add: goto_def inserted_def)
  with e show ?thesis by simp
qed




section \<open>Properties\<close>

text \<open>C6. The concurrent hash-table build is correct for every interleaving of the threads of its kernels
  and every older slot state that a relaxed load may see, provided the run is orderly: no weak compare-and-swap
  failed spuriously and every row that saw a slot published also saw its key. A completed orderly run
  without overflow yields the groups of the build contract with minimal first rows, and it reports an
  overflow only if some partition holds more than 64 distinct keys. Metal guarantees neither half of
  the proviso.\<close>

theorem partitioned_gpu_build_correct:
  assumes "is_power_of_two (unat np)" and "length keys < 2 ^ 32" and "keys \<noteq> []"
    and "schedule_ok (length keys) cs" and "schedule_ok (length keys) ss"
    and "scatter_phase keys np cs ss = (offs, idx, pids)" and "tgs_complete orderly keys np offs idx fin"
  shows "partition_and_build_with_scratch keys np cs ss fin = Some (Inl PartOverflow) \<and>
      (\<exists>p < unat np. 64 < card {k \<in> set keys. unat (partition_id k np) = p}) \<or>
    (\<exists>b. partition_and_build_with_scratch keys np cs ss fin = Some (Inr b) \<and> grouping keys b \<and> first_rows_minimal b)"
proof (cases "\<exists>p < unat np. \<exists>r \<in> tg_rows offs idx p. pc_of (fin p) r = Overflowed")
  case True
  then obtain p r where p: "p < unat np" and r: "r \<in> tg_rows offs idx p" "pc_of (fin p) r = Overflowed" by blast
  obtain offs' idx' pids' where "scatter_phase keys np cs ss = (offs', idx', pids')"
    "length pids' = length keys" "\<forall>r < length keys. pids' ! r = of_nat (row_partition keys np r)"
    "\<forall>p < unat np. tg_rows offs' idx' p = {r. r < length keys \<and> row_partition keys np r = p}"
    by (rule scatter_phase_spec[OF assms(1,2,4,5)])
  then have rows: "tg_rows offs idx p = {r. r < length keys \<and> row_partition keys np r = p}" using assms(6) p by simp
  have "tg_reachable orderly ((!) keys) (tg_rows offs idx p) (fin p)" using assms(7) p unfolding tgs_complete_def by blast
  from tg_reachable_inv[OF this] have "64 < card ((!) keys ` tg_rows offs idx p)"
    using overflow_keys[OF _ _ _ r] rows by (simp add: tgsm_probe_limit_def)
  also have "(!) keys ` tg_rows offs idx p = {k \<in> set keys. unat (partition_id k np) = p}"
    unfolding rows row_partition_def by (auto simp: set_conv_nth)
  finally have "64 < card {k \<in> set keys. unat (partition_id k np) = p}" .
  moreover have "partition_and_build_with_scratch keys np cs ss fin = Some (Inl PartOverflow)"
    using True assms(1-3,6) unfolding partition_and_build_with_scratch_def by (simp add: u32_max_def)
  ultimately show ?thesis using p by blast
next
  case False
  from partition_and_build_correct[OF assms(1-5,7,6) False] show ?thesis by blast
qed



lemma partitioned_gpu_build_correct_witness:
  "\<exists>fin b. partition_and_build_with_scratch [7] 1 [0] [0] fin = Some (Inr b) \<and> grouping [7 :: u128] b"
proof -
  have one: "is_power_of_two (unat (1 :: u32))" "length [7 :: u128] < 2 ^ 32" "[7 :: u128] \<noteq> []"
    "schedule_ok (length [7 :: u128]) [0]" by (simp_all add: is_power_of_two_def schedule_ok_def)
  obtain offs idx pids where sp: "scatter_phase [7] 1 [0] [0] = (offs, idx, pids)"
    and "length pids = length [7 :: u128]" "\<forall>r < length [7 :: u128]. pids ! r = of_nat (row_partition [7] 1 r)"
    and rows: "\<forall>p < unat (1 :: u32). tg_rows offs idx p = {r. r < length [7 :: u128] \<and> row_partition [7] 1 r = p}"
    by (rule scatter_phase_spec[OF one(1,2,4,4)])
  have p0: "row_partition [7] 1 0 = 0" using partition_id_less[OF one(1), of 7] by (simp add: row_partition_def)
  then have rows0: "tg_rows offs idx 0 = {0}" using rows by auto
  let ?st = "inserted (tg_init ((!) [7])) 0 (slot_of 7) 7"
  have "tg_reachable orderly ((!) [7]) {0} (inserted (tg_init ((!) [7])) 0 (slot_of 7) ([7] ! 0))"
    by (rule reach_insert[OF reach_init, where p = 0]) (simp_all add: tg_init_def tgsm_probe_limit_def)
  moreover have "pc_of ?st 0 = Done 0" by (simp add: inserted_def tg_init_def)
  ultimately have "tgs_complete orderly [7] 1 offs idx (\<lambda>_. ?st)"
    using rows0 by (simp add: tgs_complete_def)
  from partitioned_gpu_build_correct[OF one(1,2,3,4,4) sp this]
  have "(\<exists>p < unat (1 :: u32). 64 < card {k \<in> set [7 :: u128]. unat (partition_id k 1) = p}) \<or>
    (\<exists>b. partition_and_build_with_scratch [7] 1 [0] [0] (\<lambda>_. ?st) = Some (Inr b) \<and> grouping [7 :: u128] b)" (is "?over \<or> ?good") by blast
  moreover have "\<not> 64 < card {k \<in> set [7 :: u128]. P k}" for P
  proof -
    have "card {k \<in> set [7 :: u128]. P k} \<le> card {7 :: u128}" by (rule card_mono) auto
    then show ?thesis by simp
  qed
  then have "\<not> ?over" by simp
  ultimately have ?good by blast
  then show ?thesis by blast
qed

end
