(* ===== verification/Float_Sums.thy ===== *)
theory Float_Sums
  imports Gpu_Aggs
begin

text \<open>The float sums of the GPU (\<open>dispatch_sum_f32\<close>, kernels \<open>agg_sum_f32\<close> and
  \<open>agg_sum_f32_prereduce\<close> of \<open>shaders/aggregate.metal\<close>). Float addition is not associative, so what the
  two kernels promise is a summation of the group's values in some order and grouping, in which a
  partial sum of zero may be left out.\<close>

section \<open>Summations\<close>

inductive sums_to :: "(f32 \<Rightarrow> f32 \<Rightarrow> f32) \<Rightarrow> f32 multiset \<Rightarrow> f32 \<Rightarrow> bool" for add where
  none: "sums_to add {#} 0"
| one: "sums_to add {#v#} v"
| plus: "sums_to add A x \<Longrightarrow> sums_to add B y \<Longrightarrow> sums_to add (A + B) (add x y)"
| drop_zero: "sums_to add A x \<Longrightarrow> sums_to add B y \<Longrightarrow> fmag y = 0 \<Longrightarrow> sums_to add (A + B) x"

lemma sums_foldl:
  assumes "sums_to add A a" and "\<And>i. i \<in> set is \<Longrightarrow> sums_to add (M i) (x i)"
  shows "sums_to add (A + (\<Sum>i\<leftarrow>is. M i)) (foldl add a (map x is))"
  using assms
proof (induction "is" arbitrary: A a)
  case (Cons i "is")
  from Cons.IH[OF sums_to.plus[OF Cons.prems(1) Cons.prems(2)]] Cons.prems show ?case
    by (simp add: add.assoc)
qed simp

lemma sums_values: "sums_to add (mset vs) (foldl add 0 vs)"
  using sums_foldl[OF sums_to.none, of vs add "\<lambda>v. {#v#}" "\<lambda>v. v"] by (simp add: sums_to.one sum_list_singleton_mset)

text \<open>What the sums ask of \<open>simd_sum\<close>: it adds the 32 lanes in some order.\<close>

definition lawful_simd_sum :: "runtime \<Rightarrow> bool" where
  "lawful_simd_sum rt \<longleftrightarrow> (\<forall>xs M. length xs = 32 \<longrightarrow> (\<forall>i < 32. sums_to (fadd (ops32 rt)) (M i) (xs ! i)) \<longrightarrow>
     sums_to (fadd (ops32 rt)) (\<Sum>i\<leftarrow>[0..<32]. M i) (simd_sum rt xs))"

section \<open>The two kernels\<close>

text \<open>Every row of a group is in the stride of exactly one thread.\<close>

lemma mset_filter_split:
  assumes "\<And>i. i \<in> set xs \<Longrightarrow> f i < k"
  shows "mset (filter P xs) = (\<Sum>t\<leftarrow>[0..<k]. mset (filter (\<lambda>i. f i = t \<and> P i) xs))"
  using assms
proof (induction xs)
  case (Cons i xs)
  have one: "(\<Sum>t\<leftarrow>[0..<k]. (if f i = t then A else {#})) = A" for A :: "'a multiset"
    using Cons.prems[of i] by (simp add: interv_sum_list_conv_sum_set_nat)
  have "(\<Sum>t\<leftarrow>[0..<k]. mset (filter (\<lambda>j. f j = t \<and> P j) (i # xs))) =
      (\<Sum>t\<leftarrow>[0..<k]. (if f i = t then (if P i then {#i#} else {#}) else {#}) + mset (filter (\<lambda>j. f j = t \<and> P j) xs))"
    by (intro arg_cong[where f = sum_list] map_cong) auto
  also have "\<dots> = (if P i then {#i#} else {#}) + (\<Sum>t\<leftarrow>[0..<k]. mset (filter (\<lambda>j. f j = t \<and> P j) xs))"
    by (simp add: sum_list_addf one)
  finally show ?case using Cons by simp
qed simp

lemma upt_block: "[0..<Suc a * b] = [0..<a * b] @ map (\<lambda>j. a * b + j) [0..<b]"
proof -
  have "[0..<Suc a * b] = [0..<a * b] @ [a * b..<a * b + b]"
    using upt_add_eq_append[of 0 "a * b" b] by (simp add: add.commute)
  also have "[a * b..<a * b + b] = map (\<lambda>j. a * b + j) [0..<b]"
    using map_add_upt[of "a * b" b] by (simp add: add.commute)
  finally show ?thesis .
qed

lemma upt_blocks: "(\<Sum>t\<leftarrow>[0..<a * b]. F t) = (\<Sum>i\<leftarrow>[0..<a]. \<Sum>j\<leftarrow>[0..<b]. F (i * b + j :: nat))" for F :: "nat \<Rightarrow> 'm::comm_monoid_add"
proof (induction a)
  case (Suc a)
  have "[0..<Suc a * b] = [0..<a * b] @ map (\<lambda>j. a * b + j) [0..<b]"
    by (rule upt_block)
  with Suc show ?case by (simp add: o_def)
qed simp

lemma strided_mset:
  assumes "0 < tgs"
  shows "mset (rows_in ok r2g n g) = (\<Sum>tg\<leftarrow>[0..<tgs]. \<Sum>s\<leftarrow>[0..<8]. \<Sum>lane\<leftarrow>[0..<32].
    mset (strided_rows (tgs * f32_agg_tg_width) (tg * f32_agg_tg_width + s * 32 + lane) n ok r2g g))"
proof -
  let ?S = "\<lambda>t. mset (strided_rows (tgs * f32_agg_tg_width) t n ok r2g g)"
  have "mset (rows_in ok r2g n g) = (\<Sum>t\<leftarrow>[0..<tgs * f32_agg_tg_width]. ?S t)"
    using mset_filter_split[of "[0..<n]" "\<lambda>i. i mod (tgs * f32_agg_tg_width)" "tgs * f32_agg_tg_width" "\<lambda>i. ok i \<and> unat (r2g ! i) = g"] assms
    by (simp add: rows_in_def strided_rows_def f32_agg_tg_width_def)
  also have "\<dots> = (\<Sum>tg\<leftarrow>[0..<tgs]. \<Sum>j\<leftarrow>[0..<8 * 32]. ?S (tg * f32_agg_tg_width + j))"
    unfolding upt_blocks[of _ tgs] f32_agg_tg_width_def by (simp) 
  also have "\<dots> = (\<Sum>tg\<leftarrow>[0..<tgs]. \<Sum>s\<leftarrow>[0..<8]. \<Sum>lane\<leftarrow>[0..<32]. ?S (tg * f32_agg_tg_width + (s * 32 + lane)))"
    unfolding upt_blocks[of _ 8 32] ..
  finally show ?thesis by (simp add: add.assoc)
qed

lemma image_mset_sum_list: "(\<Sum>i\<leftarrow>xs. image_mset f (M i)) = image_mset f (\<Sum>i\<leftarrow>xs. M i)"
  by (induction xs) simp_all

text \<open>The order in which the threadgroups flush does not matter for what is summed.\<close>

lemma sum_list_schedule: "schedule_ok n sched \<Longrightarrow> (\<Sum>j\<leftarrow>filter P sched. F j) = (\<Sum>j\<leftarrow>filter P [0..<n]. F j)"
  for F :: "nat \<Rightarrow> 'm::comm_monoid_add"
  by (metis mset_map schedule_filter_mset sum_mset_sum_list)

lemma group_flushes:
  assumes "g < ng"
  shows "filter (\<lambda>j. j mod ng = g) [0..<tgs * ng] = map (\<lambda>tg. tg * ng + g) [0..<tgs]"
proof (induction tgs)
  case (Suc tgs)
  have up: "[0..<Suc tgs * ng] = [0..<tgs * ng] @ map (\<lambda>j. tgs * ng + j) [0..<ng]"
    by (rule upt_block)
  have "filter (\<lambda>j. j mod ng = g) (map (\<lambda>j. tgs * ng + j) [0..<ng]) = map (\<lambda>j. tgs * ng + j) (filter (\<lambda>j. j = g) [0..<ng])"
    unfolding filter_map by (intro arg_cong[where f = "map _"] filter_cong) (simp_all add: o_def)
  moreover have "filter (\<lambda>j. j = g) [0..<ng] = [g]"
    using assms by (induction ng) (auto simp: less_Suc_eq)
  ultimately show ?case using Suc up by simp
qed simp

text \<open>A pre-reducing kernel in general. \<open>R M x\<close> says that \<open>x\<close> is a result for the values \<open>M\<close>; the laws ask that
  the register accumulation, the SIMD reduction, the accumulation over SIMD groups and the flush keep
  it so. The kernel then has a result for all values of the group, whatever order it flushes in.\<close>

locale prereduction =
  fixes A :: f32_agg and R :: "f32 multiset \<Rightarrow> f32 \<Rightarrow> bool"
  assumes no_values: "R {#} (ident A)"
    and row: "R M x \<Longrightarrow> R (add_mset v M) (accum A x v)"
    and lanes: "length xs = 32 \<Longrightarrow> (\<And>i. i < 32 \<Longrightarrow> R (P i) (xs ! i)) \<Longrightarrow> R (\<Sum>i\<leftarrow>[0..<32]. P i) (across A xs)"
    and part: "R M x \<Longrightarrow> R N y \<Longrightarrow> R (M + N) (accum A x y)"
    and flushed: "R M x \<Longrightarrow> R N y \<Longrightarrow> R (M + N) (if skips A y then x else flush A x y)"
begin

lemma rows: "R M x \<Longrightarrow> R (M + mset vs) (foldl (accum A) x vs)"
proof (induction vs arbitrary: M x)
  case (Cons v vs)
  from Cons.IH[OF row[OF Cons.prems]] show ?case by simp
qed simp

lemma parts:
  assumes "R M x" and "\<And>i. R (P i) (r i)"
  shows "R (M + (\<Sum>i\<leftarrow>ks. P i)) (foldl (accum A) x (map r ks))"
  using assms
proof (induction ks arbitrary: M x)
  case (Cons i ks)
  from Cons.IH[OF part[OF Cons.prems]] Cons.prems show ?case by (simp add: add.assoc)
qed simp

lemma threadgroup:
  "R (\<Sum>s\<leftarrow>[0..<8]. \<Sum>lane\<leftarrow>[0..<32]. image_mset val (mset (strided_rows grid (tg * f32_agg_tg_width + s * 32 + lane) n ok r2g g)))
    (tg_total A grid n ok val r2g g tg)"
proof -
  have thread: "R (image_mset val (mset (strided_rows grid tid n ok r2g g))) (thread_partial A grid n ok val r2g g tid)" for tid
    using rows[where M = "{#}" and x = "ident A" and vs = "map val (strided_rows grid tid n ok r2g g)"] no_values by (simp add: thread_partial_def)
  have "R (\<Sum>lane\<leftarrow>[0..<32]. image_mset val (mset (strided_rows grid (tg * f32_agg_tg_width + s * 32 + lane) n ok r2g g)))
      (simd_partial A grid n ok val r2g g tg s)" for s
    unfolding simd_partial_def by (rule lanes) (simp_all add: thread)
  from parts[where ks = "[0..<8]", OF no_values this] show ?thesis by (simp add: tg_total_def f32_agg_tg_width_def)
qed

lemma kernel:
  assumes sched: "schedule_ok (tgs * ng) sched" and g: "g < ng" and tgs: "0 < tgs"
  shows "R (mset (vals_in ok val r2g n g)) (prereduce_kernel A tgs n ok val r2g ng (replicate ng (ident A)) sched ! g)"
proof -
  let ?tot = "\<lambda>j. tg_total A (tgs * f32_agg_tg_width) n ok val r2g g (j div ng)"
  let ?M = "\<lambda>tg. \<Sum>s\<leftarrow>[0..<8]. \<Sum>lane\<leftarrow>[0..<32].
      image_mset val (mset (strided_rows (tgs * f32_agg_tg_width) (tg * f32_agg_tg_width + s * 32 + lane) n ok r2g g))"
  let ?f = "\<lambda>a t. if skips A t then a else flush A a t"
  have "R (M + (\<Sum>j\<leftarrow>js. ?M (j div ng))) (foldl ?f a (map ?tot js))" if "R M a" for M a js
    using that
  proof (induction js arbitrary: M a)
    case (Cons j js)
    from Cons.IH[OF flushed[OF Cons.prems threadgroup]] show ?case by (simp add: add.assoc)
  qed simp
  note folded = this
  from folded[where M = "{#}" and a = "ident A" and js = "filter (\<lambda>j. j mod ng = g) sched"] no_values
  have "R (\<Sum>j\<leftarrow>filter (\<lambda>j. j mod ng = g) sched. ?M (j div ng))
      (prereduce_kernel A tgs n ok val r2g ng (replicate ng (ident A)) sched ! g)"
    using g by (simp add: prereduce_nth)
  also have "(\<Sum>j\<leftarrow>filter (\<lambda>j. j mod ng = g) sched. ?M (j div ng)) = (\<Sum>tg\<leftarrow>[0..<tgs]. ?M tg)"
    unfolding sum_list_schedule[OF sched] group_flushes[OF g] using g by (simp add: o_def)
  also have "\<dots> = image_mset val (\<Sum>tg\<leftarrow>[0..<tgs]. \<Sum>s\<leftarrow>[0..<8]. \<Sum>lane\<leftarrow>[0..<32].
      mset (strided_rows (tgs * f32_agg_tg_width) (tg * f32_agg_tg_width + s * 32 + lane) n ok r2g g))"
    by (simp only: image_mset_sum_list)
  also have "\<dots> = mset (vals_in ok val r2g n g)"
    by (simp add: vals_in_def flip: strided_mset[OF tgs])
  finally show ?thesis .
qed

end

lemma sum_prereduction: "lawful_simd_sum rt \<Longrightarrow> prereduction (sum_agg rt) (sums_to (fadd (ops32 rt)))"
proof (unfold_locales, goal_cases)
  case (2 M x v)
  from sums_to.plus[OF 2(2) sums_to.one, of v] show ?case by (simp add: sum_agg_def)
next
  case (3 xs P)
  then show ?case unfolding lawful_simd_sum_def by (simp add: sum_agg_def)
next
  case (5 M x N y)
  from sums_to.plus[OF 5(2,3)] sums_to.drop_zero[OF 5(2,3)] show ?case by (simp add: sum_agg_def)
qed (simp_all add: sum_agg_def sums_to.none sums_to.plus)

lemma prereduce_sums:
  assumes "lawful_simd_sum rt" and "schedule_ok (tgs * ng) sched" and "g < ng" and "0 < tgs"
  shows "sums_to (fadd (ops32 rt)) (mset (vals_in ok val r2g n g))
    (prereduce_kernel (sum_agg rt) tgs n ok val r2g ng (replicate ng 0) sched ! g)"
proof -
  have "ident (sum_agg rt) = 0" by (simp add: sum_agg_def)
  with prereduction.kernel[OF sum_prereduction[OF assms(1)] assms(2-4)] show ?thesis by metis
qed

lemma per_row_sums:
  assumes sched: "schedule_ok n sched" and g: "g < ng"
    and run: "agg_kernel (flush (sum_agg rt)) ok val r2g (replicate ng 0) sched = Some res"
  shows "sums_to (fadd (ops32 rt)) (mset (vals_in ok val r2g n g)) (res ! g)"
proof -
  let ?is = "filter (\<lambda>i. ok i \<and> unat (r2g ! i) = g) sched"
  have "mset (map val ?is) = mset (vals_in ok val r2g n g)"
    using schedule_filter_mset[OF sched, of "\<lambda>i. ok i \<and> unat (r2g ! i) = g"] by (simp add: vals_in_def rows_in_def)
  with sums_values[of "fadd (ops32 rt)" "map val ?is"] g agg_kernel_Some(2)[OF run] show ?thesis by (simp add: sum_agg_def)
qed

lemma dispatch_sum_f32_sums:
  assumes "lawful_order rt" and "lawful_simd_sum rt" and "n_rows \<noteq> 0" and "g < ng"
    and "dispatch_sum_f32 rt values valid r2g n_rows ng out = Some (Inr res)"
  shows "sums_to (fadd (ops32 rt)) (mset (gpu_vals values valid r2g n_rows g)) (res ! g)"
proof -
  have s: "schedule_ok m (order rt kn m)" for kn m using assms(1) by (simp add: lawful_order_def)
  have "0 < prereduce_tgs n_rows" by (simp add: prereduce_tgs_def)
  note kernels = prereduce_sums[OF assms(2) s assms(4) this] per_row_sums[OF s assms(4)]
  have "ident (sum_agg rt) = 0" by (simp add: sum_agg_def)
  then show ?thesis
    using assms(3-5) kernels
    by (auto simp: dispatch_sum_f32_def dispatch_agg_f32_def copy_back_def result_simps nth_append gpu_vals_def agg_kernel_Some(1) split: if_splits)
qed

end
