(* ===== verification/Groupby.thy ===== *)
theory Groupby
  imports Float_Sums A1
begin

text \<open>Models the group-by pipeline of \<open>polars-metal-kernels/src/groupby.rs\<close>: \<open>dispatch_hash\<close> with its
  kernel, \<open>dispatch_build\<close> with the GPU route and its fallback, \<open>run_one_agg\<close> and \<open>dispatch_groupby\<close>.
  A panic or an access out of bounds is
  \<open>None\<close>, a \<open>GroupByError\<close> is \<open>Inl\<close>.\<close>

section \<open>Hashing\<close>

definition rotl_u64 :: "u64 \<Rightarrow> nat \<Rightarrow> u64" where
  "rotl_u64 x r = push_bit r x OR drop_bit (64 - r) x"

definition xxhash_finalize_u64 :: "u64 \<Rightarrow> u32" where
  "xxhash_finalize_u64 v =
     (let h = ucast (v XOR drop_bit 32 v); h = h XOR drop_bit 15 h; h = h * 2246822519; h = h XOR drop_bit 13 h;
        h = h * 3266489917 in h XOR drop_bit 16 h)"

definition hash_u128_reference :: "u64 \<Rightarrow> u64 \<Rightarrow> u32" where
  "hash_u128_reference lo hi = xxhash_finalize_u64 (lo XOR rotl_u64 hi 27)"

text \<open>The kernel reads the keys as 64-bit halves and writes one slot per thread.\<close>

definition key_halves :: "u128 list \<Rightarrow> u64 list" where
  "key_halves keys = concat (map (\<lambda>k. [ucast k, ucast (drop_bit 64 k)]) keys)"

definition groupby_hash_kernel :: "u64 list \<Rightarrow> u32 list \<Rightarrow> nat list \<Rightarrow> u32 list" where
  "groupby_hash_kernel halves hashes sched =
     foldl (\<lambda>out gid. out[gid := xxhash_finalize_u64 (halves ! (gid * 2) XOR rotl_u64 (halves ! (gid * 2 + 1)) 27)]) hashes sched"

definition dispatch_hash :: "runtime \<Rightarrow> u128 list \<Rightarrow> nat \<Rightarrow> u32 list \<Rightarrow> group_by_error + u32 list" where
  "dispatch_hash rt encoded n_rows hashes =
     (if n_rows = 0 then Inr hashes
      else rbind (ensure (n_rows \<le> u32_max) (RowCountOverflow n_rows)) (\<lambda>_.
        rbind (ensure (n_rows \<le> length encoded) (OutputTooShort (length encoded) n_rows)) (\<lambda>_.
        rbind (ensure (n_rows \<le> length hashes) (OutputTooShort (length hashes) n_rows)) (\<lambda>_.
        Inr (copy_back
          (groupby_hash_kernel (key_halves (take n_rows encoded)) (replicate n_rows 0) (order rt ''groupby_hash'' n_rows)) hashes)))))"

section \<open>Building the groups\<close>

text \<open>What the GPU route contributes to one build: nothing when the scratch buffers cannot be had or the
  device fails, otherwise the thread orders and the final states of the threadgroups.\<close>

type_synonym a1_run = "u128 list \<Rightarrow> (nat list \<times> nat list \<times> (nat \<Rightarrow> tg_state)) option"

definition a1_rows_threshold :: nat where "a1_rows_threshold = 500000"

definition try_a1_build :: "a1_run \<Rightarrow> u128 list \<Rightarrow> build_output option option" where
  "try_a1_build a1 encoded =
     (case a1 encoded of
        None \<Rightarrow> Some None
      | Some (cs, ss, fin) \<Rightarrow>
          (case partition_and_build_with_scratch encoded 16 cs ss fin of
             None \<Rightarrow> None
           | Some (Inr b) \<Rightarrow> Some (Some b)
           | Some (Inl _) \<Rightarrow> Some None))"

definition dispatch_build :: "a1_run \<Rightarrow> u128 list \<Rightarrow> nat \<Rightarrow> (group_by_error + build_output) option" where
  "dispatch_build a1 encoded n_rows =
     (if n_rows = 0 then Some (Inr empty_build)
      else if length encoded < n_rows then Some (Inl (OutputTooShort (length encoded) n_rows))
      else case (if a1_rows_threshold \<le> n_rows then try_a1_build a1 (take n_rows encoded) else Some None) of
          None \<Rightarrow> None
        | Some (Some b) \<Rightarrow> Some (Inr b)
        | Some None \<Rightarrow> Some (Inr (cpu_hashmap_build (take n_rows encoded))))"

section \<open>Aggregates\<close>

datatype agg_kind =
    SumI64 | SumF64 | MeanI64 | MeanF64 | MinI64 | MaxI64 | MinF64 | MaxF64 | CountRows | LenRows
  | SumI32 | SumF32 | MeanI32 | MeanF32 | MinI32 | MaxI32 | MinF32 | MaxF32

record agg_request =
  req_kind :: agg_kind
  input_col_idx :: nat

datatype value_column = VI64 "64 word list" bytes | VF64 "f64 list" bytes | VI32 "32 word list" bytes | VF32 "f32 list" bytes

datatype agg_output =
    OI64 "64 word list" "bool list"
  | OF64 "f64 list" "bool list"
  | OU64 "u64 list"
  | OI32 "32 word list" "bool list"
  | OF32 "f32 list" "bool list"

record group_by_result =
  decoded_keys :: "decoded_column list"
  agg_outputs :: "agg_output list"
  result_groups :: u32

fun empty_output_for :: "agg_kind \<Rightarrow> agg_output" where
  "empty_output_for SumI64 = OI64 [] []"
| "empty_output_for MinI64 = OI64 [] []"
| "empty_output_for MaxI64 = OI64 [] []"
| "empty_output_for SumF64 = OF64 [] []"
| "empty_output_for MeanI64 = OF64 [] []"
| "empty_output_for MeanF64 = OF64 [] []"
| "empty_output_for MinF64 = OF64 [] []"
| "empty_output_for MaxF64 = OF64 [] []"
| "empty_output_for CountRows = OU64 []"
| "empty_output_for LenRows = OU64 []"
| "empty_output_for SumI32 = OI32 [] []"
| "empty_output_for MinI32 = OI32 [] []"
| "empty_output_for MaxI32 = OI32 [] []"
| "empty_output_for SumF32 = OF32 [] []"
| "empty_output_for MeanI32 = OF32 [] []"
| "empty_output_for MeanF32 = OF32 [] []"
| "empty_output_for MinF32 = OF32 [] []"
| "empty_output_for MaxF32 = OF32 [] []"

definition count_to_valid :: "u32 list \<Rightarrow> bool list" where
  "count_to_valid counts = map (\<lambda>c. 0 < c) counts"

text \<open>The \<open>Debug\<close> names and the column names of the mismatch error.\<close>

fun kind_name :: "agg_kind \<Rightarrow> string" where
  "kind_name SumI64 = ''SumI64''"
| "kind_name SumF64 = ''SumF64''"
| "kind_name MeanI64 = ''MeanI64''"
| "kind_name MeanF64 = ''MeanF64''"
| "kind_name MinI64 = ''MinI64''"
| "kind_name MaxI64 = ''MaxI64''"
| "kind_name MinF64 = ''MinF64''"
| "kind_name MaxF64 = ''MaxF64''"
| "kind_name CountRows = ''Count''"
| "kind_name LenRows = ''Len''"
| "kind_name SumI32 = ''SumI32''"
| "kind_name SumF32 = ''SumF32''"
| "kind_name MeanI32 = ''MeanI32''"
| "kind_name MeanF32 = ''MeanF32''"
| "kind_name MinI32 = ''MinI32''"
| "kind_name MaxI32 = ''MaxI32''"
| "kind_name MinF32 = ''MinF32''"
| "kind_name MaxF32 = ''MaxF32''"

fun column_name :: "value_column \<Rightarrow> string" where
  "column_name (VI64 _ _) = ''I64''"
| "column_name (VF64 _ _) = ''F64''"
| "column_name (VI32 _ _) = ''I32''"
| "column_name (VF32 _ _) = ''F32''"

definition agg_mismatch :: "agg_kind \<Rightarrow> value_column \<Rightarrow> group_by_error + agg_output" where
  "agg_mismatch kind vcol = Inl (AggTypeMismatch (kind_name kind) (column_name vcol))"

fun column_valid :: "value_column \<Rightarrow> bytes" where
  "column_valid (VI64 _ valid) = valid"
| "column_valid (VF64 _ valid) = valid"
| "column_valid (VI32 _ valid) = valid"
| "column_valid (VF32 _ valid) = valid"

definition mean_values :: "'w::zero option list \<Rightarrow> 'w list" where
  "mean_values means = map (\<lambda>m. case m of None \<Rightarrow> 0 | Some v \<Rightarrow> v) means"

definition mean_valid :: "'w option list \<Rightarrow> bool list" where
  "mean_valid means = map (\<lambda>m. m \<noteq> None) means"

definition gpu_counts :: "runtime \<Rightarrow> bytes \<Rightarrow> u32 list \<Rightarrow> nat \<Rightarrow> (group_by_error + u32 list) option" where
  "gpu_counts rt valid r2g ng = dispatch_count_u32 rt valid r2g (length r2g) ng (replicate ng 0)"

text \<open>The match of the code, with its arms for 64-bit columns and counts in \<open>run_cpu_agg\<close> and its arms for
  32-bit columns in \<open>run_gpu_agg\<close>; both end in the mismatch arm.\<close>

definition run_cpu_agg :: "runtime \<Rightarrow> agg_kind \<Rightarrow> value_column \<Rightarrow> u32 list \<Rightarrow> nat \<Rightarrow> group_by_error + agg_output" where
  "run_cpu_agg rt kind vcol r2g ng = (let sp = splits rt in
    case kind of
      SumI64 \<Rightarrow> (case vcol of VI64 data valid \<Rightarrow>
          Inr (OI64 (aggregate_sum_i64_cpu sp data valid r2g ng) (replicate ng True)) | _ \<Rightarrow> agg_mismatch kind vcol)
    | SumF64 \<Rightarrow> (case vcol of VF64 data valid \<Rightarrow>
          Inr (OF64 (aggregate_sum_f64_cpu (ops64 rt) sp data valid r2g ng) (replicate ng True)) | _ \<Rightarrow> agg_mismatch kind vcol)
    | MinI64 \<Rightarrow> (case vcol of VI64 data valid \<Rightarrow>
          (let (values, valid_out) = aggregate_min_i64_cpu sp data valid r2g ng in Inr (OI64 values valid_out)) | _ \<Rightarrow> agg_mismatch kind vcol)
    | MaxI64 \<Rightarrow> (case vcol of VI64 data valid \<Rightarrow>
          (let (values, valid_out) = aggregate_max_i64_cpu sp data valid r2g ng in Inr (OI64 values valid_out)) | _ \<Rightarrow> agg_mismatch kind vcol)
    | MinF64 \<Rightarrow> (case vcol of VF64 data valid \<Rightarrow>
          (let (values, valid_out) = aggregate_min_f64_cpu sp data valid r2g ng in Inr (OF64 values valid_out)) | _ \<Rightarrow> agg_mismatch kind vcol)
    | MaxF64 \<Rightarrow> (case vcol of VF64 data valid \<Rightarrow>
          (let (values, valid_out) = aggregate_max_f64_cpu sp data valid r2g ng in Inr (OF64 values valid_out)) | _ \<Rightarrow> agg_mismatch kind vcol)
    | CountRows \<Rightarrow> Inr (OU64 (aggregate_count_cpu sp (column_valid vcol) r2g ng))
    | LenRows \<Rightarrow> Inr (OU64 (aggregate_len_cpu sp r2g ng))
    | MeanI64 \<Rightarrow> (case vcol of VI64 data valid \<Rightarrow>
          (let means = compute_mean_i64 (ops64 rt) (aggregate_sum_i64_cpu sp data valid r2g ng) (aggregate_count_cpu sp valid r2g ng)
           in Inr (OF64 (mean_values means) (mean_valid means))) | _ \<Rightarrow> agg_mismatch kind vcol)
    | MeanF64 \<Rightarrow> (case vcol of VF64 data valid \<Rightarrow>
          (let means = compute_mean_f64 (ops64 rt) (aggregate_sum_f64_cpu (ops64 rt) sp data valid r2g ng) (aggregate_count_cpu sp valid r2g ng)
           in Inr (OF64 (mean_values means) (mean_valid means))) | _ \<Rightarrow> agg_mismatch kind vcol)
    | _ \<Rightarrow> agg_mismatch kind vcol)"

definition run_gpu_agg :: "runtime \<Rightarrow> agg_kind \<Rightarrow> value_column \<Rightarrow> u32 list \<Rightarrow> nat \<Rightarrow> (group_by_error + agg_output) option" where
  "run_gpu_agg rt kind vcol r2g ng = (let n_rows = length r2g in
    case kind of
      SumI32 \<Rightarrow> (case vcol of VI32 data valid \<Rightarrow>
          obind (dispatch_sum_i32 rt data valid r2g n_rows ng (replicate ng 0)) (\<lambda>out. Some (Inr (OI32 out (replicate ng True))))
        | _ \<Rightarrow> Some (agg_mismatch kind vcol))
    | SumF32 \<Rightarrow> (case vcol of VF32 data valid \<Rightarrow>
          obind (dispatch_sum_f32 rt data valid r2g n_rows ng (replicate ng 0)) (\<lambda>out. Some (Inr (OF32 out (replicate ng True))))
        | _ \<Rightarrow> Some (agg_mismatch kind vcol))
    | MinI32 \<Rightarrow> (case vcol of VI32 data valid \<Rightarrow>
          obind (dispatch_min_i32 rt data valid r2g n_rows ng (replicate ng i32_max)) (\<lambda>out.
          obind (gpu_counts rt valid r2g ng) (\<lambda>counts. Some (Inr (OI32 out (count_to_valid counts))))) | _ \<Rightarrow> Some (agg_mismatch kind vcol))
    | MaxI32 \<Rightarrow> (case vcol of VI32 data valid \<Rightarrow>
          obind (dispatch_max_i32 rt data valid r2g n_rows ng (replicate ng i32_min)) (\<lambda>out.
          obind (gpu_counts rt valid r2g ng) (\<lambda>counts. Some (Inr (OI32 out (count_to_valid counts))))) | _ \<Rightarrow> Some (agg_mismatch kind vcol))
    | MinF32 \<Rightarrow> (case vcol of VF32 data valid \<Rightarrow>
          obind (dispatch_min_f32 rt data valid r2g n_rows ng (replicate ng f32_infinity)) (\<lambda>out.
          obind (gpu_counts rt valid r2g ng) (\<lambda>counts. Some (Inr (OF32 out (count_to_valid counts))))) | _ \<Rightarrow> Some (agg_mismatch kind vcol))
    | MaxF32 \<Rightarrow> (case vcol of VF32 data valid \<Rightarrow>
          obind (dispatch_max_f32 rt data valid r2g n_rows ng (replicate ng f32_neg_infinity)) (\<lambda>out.
          obind (gpu_counts rt valid r2g ng) (\<lambda>counts. Some (Inr (OF32 out (count_to_valid counts))))) | _ \<Rightarrow> Some (agg_mismatch kind vcol))
    | MeanI32 \<Rightarrow> (case vcol of VI32 data valid \<Rightarrow>
          obind (dispatch_sum_i32 rt data valid r2g n_rows ng (replicate ng 0)) (\<lambda>sums.
          obind (gpu_counts rt valid r2g ng) (\<lambda>counts.
            (let means = compute_mean_i32 (ops32 rt) sums counts in Some (Inr (OF32 (mean_values means) (mean_valid means))))))
        | _ \<Rightarrow> Some (agg_mismatch kind vcol))
    | MeanF32 \<Rightarrow> (case vcol of VF32 data valid \<Rightarrow>
          obind (dispatch_sum_f32 rt data valid r2g n_rows ng (replicate ng 0)) (\<lambda>sums.
          obind (gpu_counts rt valid r2g ng) (\<lambda>counts.
            (let means = compute_mean_f32 (ops32 rt) sums counts in Some (Inr (OF32 (mean_values means) (mean_valid means))))))
        | _ \<Rightarrow> Some (agg_mismatch kind vcol))
    | _ \<Rightarrow> Some (agg_mismatch kind vcol))"

definition run_one_agg :: "runtime \<Rightarrow> agg_kind \<Rightarrow> value_column \<Rightarrow> u32 list \<Rightarrow> nat \<Rightarrow> (group_by_error + agg_output) option" where
  "run_one_agg rt kind vcol r2g ng =
     (if kind \<in> {SumI32, SumF32, MinI32, MaxI32, MinF32, MaxF32, MeanI32, MeanF32}
      then run_gpu_agg rt kind vcol r2g ng else Some (run_cpu_agg rt kind vcol r2g ng))"

lemmas run_agg_defs = run_one_agg_def run_cpu_agg_def run_gpu_agg_def

section \<open>The pipeline\<close>

fun check_key_rows :: "key_column list \<Rightarrow> nat \<Rightarrow> group_by_error + unit" where
  "check_key_rows [] n_rows = Inr ()"
| "check_key_rows (c # cs) n_rows =
     (if kc_n_rows c \<noteq> n_rows then Inl (OutputTooShort (kc_n_rows c) n_rows) else check_key_rows cs n_rows)"

definition run_aggs :: "runtime \<Rightarrow> (agg_request \<times> value_column) list \<Rightarrow> u32 list \<Rightarrow> nat \<Rightarrow> (group_by_error + agg_output list) option" where
  "run_aggs rt specs r2g ng = omap (\<lambda>(req, vcol). run_one_agg rt (req_kind req) vcol r2g ng) specs"

definition empty_outputs :: "(agg_request \<times> value_column) list \<Rightarrow> agg_output list" where
  "empty_outputs specs = map (\<lambda>(req, _). empty_output_for (req_kind req)) specs"

definition key_at :: "u128 list \<Rightarrow> u32 \<Rightarrow> u128 option" where
  "key_at encoded row = (if unat row < length encoded then Some (encoded ! unat row) else None)"

definition group_encoded ::
  "runtime \<Rightarrow> a1_run \<Rightarrow> u128 list \<Rightarrow> key_schema \<Rightarrow> (agg_request \<times> value_column) list \<Rightarrow> nat \<Rightarrow> (group_by_error + group_by_result) option" where
  "group_encoded rt a1 encoded schema specs n_rows =
     (case dispatch_build a1 encoded n_rows of
        None \<Rightarrow> None
      | Some (Inl e) \<Rightarrow> Some (Inl e)
      | Some (Inr b) \<Rightarrow>
          (case run_aggs rt specs (row_to_group b) (unat (n_groups b)) of
             None \<Rightarrow> None
           | Some (Inl e) \<Rightarrow> Some (Inl e)
           | Some (Inr outs) \<Rightarrow>
               (case those (map (key_at encoded) (first_row_per_group b)) of
                  None \<Rightarrow> None
                | Some reps \<Rightarrow>
                    map_option (\<lambda>ds. Inr \<lparr>decoded_keys = ds, agg_outputs = outs, result_groups = n_groups b\<rparr>)
                      (decode_keys reps schema))))"

definition dispatch_groupby ::
  "runtime \<Rightarrow> a1_run \<Rightarrow> key_column list \<Rightarrow> (agg_request \<times> value_column) list \<Rightarrow> nat \<Rightarrow> (group_by_error + group_by_result) option" where
  "dispatch_groupby rt a1 key_cols specs n_rows =
     (case check_key_rows key_cols n_rows of
        Inl e \<Rightarrow> Some (Inl e)
      | Inr _ \<Rightarrow>
          if key_cols = [] then
            if n_rows = 0 then Some (Inr \<lparr>decoded_keys = [], agg_outputs = empty_outputs specs, result_groups = 0\<rparr>)
            else obind (run_aggs rt specs (replicate n_rows 0) 1) (\<lambda>outs.
              Some (Inr \<lparr>decoded_keys = [], agg_outputs = outs, result_groups = 1\<rparr>))
          else case encode_keys key_cols of
              Inl e \<Rightarrow> Some (Inl (KeyEncode e))
            | Inr (encoded, schema) \<Rightarrow>
                if n_rows = 0 then
                  map_option (\<lambda>ds. Inr \<lparr>decoded_keys = ds, agg_outputs = empty_outputs specs, result_groups = 0\<rparr>)
                    (decode_keys [] schema)
                else group_encoded rt a1 encoded schema specs n_rows)"

end
