(* ===== verification/Groupby_Correct.thy ===== *)
theory Groupby_Correct
  imports Groupby
begin

text \<open>The group-by pipeline against what a query asks: what each aggregate means for the rows of a group
  (\<open>agg_meaning\<close>), that \<open>run_one_agg\<close> computes it, that \<open>dispatch_build\<close> yields groups on every route, and
  their composition in \<open>dispatch_groupby\<close>.\<close>

section \<open>What an aggregate means\<close>

datatype agg_cell = CI64 "64 word option" | CF64 "f64 option" | CU64 u64 | CI32 "32 word option" | CF32 "f32 option"

fun out_cell :: "agg_output \<Rightarrow> nat \<Rightarrow> agg_cell" where
  "out_cell (OI64 vs ok) g = CI64 (if ok ! g then Some (vs ! g) else None)"
| "out_cell (OF64 vs ok) g = CF64 (if ok ! g then Some (vs ! g) else None)"
| "out_cell (OU64 vs) g = CU64 (vs ! g)"
| "out_cell (OI32 vs ok) g = CI32 (if ok ! g then Some (vs ! g) else None)"
| "out_cell (OF32 vs ok) g = CF32 (if ok ! g then Some (vs ! g) else None)"

definition picked :: "('w \<Rightarrow> int) \<Rightarrow> (int set \<Rightarrow> int) \<Rightarrow> 'w list \<Rightarrow> 'w option \<Rightarrow> bool" where
  "picked k pick vs c = (if vs = [] then c = None else \<exists>m. c = Some m \<and> k m = pick (k ` set vs))"

definition picked_f64 :: "(int set \<Rightarrow> int) \<Rightarrow> f64 list \<Rightarrow> f64 option \<Rightarrow> bool" where
  "picked_f64 pick vs c =
     (if \<exists>v \<in> set vs. is_nan f64_infinity v then c = Some f64_nan else picked fval pick vs c)"

text \<open>The shaders are compiled with fast math, so that a minimum of floats is promised for numbers only.\<close>

definition picked_f32 :: "(int set \<Rightarrow> int) \<Rightarrow> f32 list \<Rightarrow> f32 option \<Rightarrow> bool" where
  "picked_f32 pick vs c =
     (if vs = [] then c = None
      else \<exists>m. c = Some m \<and> (numbers (set vs) \<longrightarrow> \<not> is_nan f32_infinity m \<and> fval m = pick (fval ` set vs)))"

definition mean_cell :: "'w float_ops \<Rightarrow> 'w \<Rightarrow> nat \<Rightarrow> 'w option" where
  "mean_cell F s n = (if n = 0 then None else Some (fdiv F s (of_unsigned F n)))"

definition f64_sum :: "runtime \<Rightarrow> f64 list \<Rightarrow> f64 \<Rightarrow> bool" where
  "f64_sum rt vs s \<longleftrightarrow> (\<exists>t. tree_leaves t = vs \<and> s = tree_eval (fadd (ops64 rt)) t)"

definition kept :: "'v list \<Rightarrow> bytes \<Rightarrow> nat list \<Rightarrow> 'v list" where
  "kept data valid rows = map ((!) data) (filter (get_valid valid) rows)"

definition i64_meaning :: "runtime \<Rightarrow> agg_kind \<Rightarrow> 64 word list \<Rightarrow> agg_cell \<Rightarrow> bool" where
  "i64_meaning rt kind vs c = (case kind of
      SumI64 \<Rightarrow> c = CI64 (Some (sum_list vs))
    | MinI64 \<Rightarrow> (\<exists>m. c = CI64 m \<and> picked sint Min vs m)
    | MaxI64 \<Rightarrow> (\<exists>m. c = CI64 m \<and> picked sint Max vs m)
    | MeanI64 \<Rightarrow> c = CF64 (mean_cell (ops64 rt) (of_signed (ops64 rt) (sint (sum_list vs))) (length vs))
    | _ \<Rightarrow> False)"

definition f64_meaning :: "runtime \<Rightarrow> agg_kind \<Rightarrow> f64 list \<Rightarrow> agg_cell \<Rightarrow> bool" where
  "f64_meaning rt kind vs c = (case kind of
      SumF64 \<Rightarrow> (\<exists>s. c = CF64 (Some s) \<and> f64_sum rt vs s)
    | MinF64 \<Rightarrow> (\<exists>m. c = CF64 m \<and> picked_f64 Min vs m)
    | MaxF64 \<Rightarrow> (\<exists>m. c = CF64 m \<and> picked_f64 Max vs m)
    | MeanF64 \<Rightarrow> (\<exists>s. c = CF64 (mean_cell (ops64 rt) s (length vs)) \<and> f64_sum rt vs s)
    | _ \<Rightarrow> False)"

definition i32_meaning :: "runtime \<Rightarrow> agg_kind \<Rightarrow> 32 word list \<Rightarrow> agg_cell \<Rightarrow> bool" where
  "i32_meaning rt kind vs c = (case kind of
      SumI32 \<Rightarrow> c = CI32 (Some (sum_list vs))
    | MinI32 \<Rightarrow> (\<exists>m. c = CI32 m \<and> picked sint Min vs m)
    | MaxI32 \<Rightarrow> (\<exists>m. c = CI32 m \<and> picked sint Max vs m)
    | MeanI32 \<Rightarrow> c = CF32 (mean_cell (ops32 rt) (of_signed (ops32 rt) (sint (sum_list vs))) (length vs))
    | _ \<Rightarrow> False)"

definition f32_meaning :: "runtime \<Rightarrow> agg_kind \<Rightarrow> f32 list \<Rightarrow> agg_cell \<Rightarrow> bool" where
  "f32_meaning rt kind vs c = (case kind of
      SumF32 \<Rightarrow> (\<exists>s. c = CF32 (Some s) \<and> sums_to (fadd (ops32 rt)) (mset vs) s)
    | MinF32 \<Rightarrow> (\<exists>m. c = CF32 m \<and> picked_f32 Min vs m)
    | MaxF32 \<Rightarrow> (\<exists>m. c = CF32 m \<and> picked_f32 Max vs m)
    | MeanF32 \<Rightarrow> (\<exists>s. c = CF32 (mean_cell (ops32 rt) s (length vs)) \<and> sums_to (fadd (ops32 rt)) (mset vs) s)
    | _ \<Rightarrow> False)"

text \<open>The meaning of an aggregate of a value column over the rows of a group.\<close>

definition agg_meaning :: "runtime \<Rightarrow> agg_kind \<Rightarrow> value_column \<Rightarrow> nat list \<Rightarrow> agg_cell \<Rightarrow> bool" where
  "agg_meaning rt kind vcol rows c =
     (if kind = LenRows then c = CU64 (of_nat (length rows))
      else if kind = CountRows then c = CU64 (of_nat (length (filter (get_valid (column_valid vcol)) rows)))
      else case vcol of
        VI64 data valid \<Rightarrow> i64_meaning rt kind (kept data valid rows) c
      | VF64 data valid \<Rightarrow> f64_meaning rt kind (kept data valid rows) c
      | VI32 data valid \<Rightarrow> i32_meaning rt kind (kept data valid rows) c
      | VF32 data valid \<Rightarrow> f32_meaning rt kind (kept data valid rows) c)"

fun kind_accepts :: "agg_kind \<Rightarrow> value_column \<Rightarrow> bool" where
  "kind_accepts kind (VI64 _ _) = (kind \<in> {SumI64, MeanI64, MinI64, MaxI64, CountRows, LenRows})"
| "kind_accepts kind (VF64 _ _) = (kind \<in> {SumF64, MeanF64, MinF64, MaxF64, CountRows, LenRows})"
| "kind_accepts kind (VI32 _ _) = (kind \<in> {SumI32, MeanI32, MinI32, MaxI32, CountRows, LenRows})"
| "kind_accepts kind (VF32 _ _) = (kind \<in> {SumF32, MeanF32, MinF32, MaxF32, CountRows, LenRows})"

fun column_fits :: "nat \<Rightarrow> value_column \<Rightarrow> bool" where
  "column_fits n (VI64 data valid) = (n \<le> length data \<and> div_ceil n 8 \<le> length valid)"
| "column_fits n (VF64 data valid) = (n \<le> length data \<and> div_ceil n 8 \<le> length valid)"
| "column_fits n (VI32 data valid) = (n \<le> length data \<and> div_ceil n 8 \<le> length valid)"
| "column_fits n (VF32 data valid) = (n \<le> length data \<and> div_ceil n 8 \<le> length valid)"

definition lawful_runtime :: "runtime \<Rightarrow> bool" where
  "lawful_runtime rt \<longleftrightarrow> lawful_order rt \<and> lawful_split (splits rt) \<and> lawful_floats rt \<and> lawful_simd_sum rt"

section \<open>One aggregate\<close>

text \<open>The rows of a group, as the row-to-group table gives them.\<close>

definition member_rows :: "u32 list \<Rightarrow> nat \<Rightarrow> nat list" where
  "member_rows r2g g = filter (\<lambda>i. unat (r2g ! i) = g) [0..<length r2g]"

lemma vals_kept: "vals_in (get_valid valid) ((!) data) r2g (length r2g) g = kept data valid (member_rows r2g g)"
  by (simp add: vals_in_def kept_def rows_in_def member_rows_def conj_commute)

lemma rows_kept: "rows_in (get_valid valid) r2g (length r2g) g = filter (get_valid valid) (member_rows r2g g)"
  by (simp add: rows_in_def member_rows_def conj_commute)

lemma rows_all: "rows_in (\<lambda>_. True) r2g (length r2g) g = member_rows r2g g"
  by (simp add: rows_in_def member_rows_def)

lemma col_vals_kept: "length r2g \<le> length data \<Longrightarrow> col_vals data valid r2g g = kept data valid (member_rows r2g g)"
  by (simp add: col_vals_def n_agg_rows_def min_absorb2 vals_kept)

lemma gpu_vals_kept: "gpu_vals data valid r2g (length r2g) g = kept data valid (member_rows r2g g)"
  by (simp add: gpu_vals_def vals_kept)

lemma length_kept: "length (kept data valid rows) = length (filter (get_valid valid) rows)"
  by (simp add: kept_def)

lemma kept_Nil: "kept data valid rows = [] \<longleftrightarrow> filter (get_valid valid) rows = []"
  by (simp add: kept_def)

lemma length_member_rows: "length (member_rows r2g g) \<le> length r2g"
  unfolding member_rows_def by (metis length_filter_le length_upt minus_nat.diff_0)

lemma kept_small: "length (kept data valid (member_rows r2g g)) \<le> length r2g"
  by (metis length_kept length_filter_le length_member_rows order_trans)

text \<open>Everything an aggregate needs from its caller.\<close>

definition agg_call_ok :: "runtime \<Rightarrow> u32 list \<Rightarrow> nat \<Rightarrow> bool" where
  "agg_call_ok rt r2g ng \<longleftrightarrow> lawful_runtime rt \<and> r2g \<noteq> [] \<and> length r2g < 2 ^ 32 \<and> 0 < ng \<and> (\<forall>g \<in> set r2g. unat g < ng)"

lemma agg_call_ok_D:
  assumes "agg_call_ok rt r2g ng"
  shows "lawful_order rt" "lawful_split (splits rt)" "lawful_simd_sum rt" "lawful_floats rt"
    "in_range okf r2g [0..<length r2g] ng" "length r2g \<noteq> 0" "length r2g < 2 ^ 32" "ng \<noteq> 0"
  using assms by (simp_all add: agg_call_ok_def lawful_runtime_def in_range_def)

lemma args_ok:
  assumes "agg_call_ok rt r2g ng" and "length r2g \<le> length data" and "div_ceil (length r2g) 8 \<le> length valid"
  shows "agg_args_ok (length r2g) data valid r2g (replicate ng x) ng = Inr ()"
  using assms by (auto simp: agg_args_ok_def agg_checks_def agg_call_ok_def ensure_def u32_max_def)

lemma gpu_counts_kept:
  assumes "agg_call_ok rt r2g ng" and "div_ceil (length r2g) 8 \<le> length valid"
  shows "gpu_counts rt valid r2g ng = Some (Inr (map (\<lambda>g. of_nat (length (filter (get_valid valid) (member_rows r2g g)))) [0..<ng]))"
proof -
  note ok = agg_call_ok_D[OF assms(1)]
  have "agg_checks (length r2g) None (length r2g) (Some (length valid)) ng ng = Inr ()"
    using ok assms(2) by (auto simp: agg_checks_def ensure_def u32_max_def)
  then show ?thesis
    using ok by (simp add: gpu_counts_def gpu_counts_eq rows_kept)
qed

lemma unat_count:
  assumes "agg_call_ok rt r2g ng"
  shows "unat (of_nat (length (filter (get_valid valid) (member_rows r2g g))) :: u32) = length (filter (get_valid valid) (member_rows r2g g))"
    "unat (of_nat (length (filter (get_valid valid) (member_rows r2g g))) :: u64) = length (filter (get_valid valid) (member_rows r2g g))"
proof -
  have "length (filter (get_valid valid) (member_rows r2g g)) < 2 ^ 32"
    using agg_call_ok_D(7)[OF assms] length_member_rows[of r2g g] length_filter_le[of "get_valid valid" "member_rows r2g g"] by linarith
  then show "unat (of_nat (length (filter (get_valid valid) (member_rows r2g g))) :: u32) = length (filter (get_valid valid) (member_rows r2g g))"
    "unat (of_nat (length (filter (get_valid valid) (member_rows r2g g))) :: u64) = length (filter (get_valid valid) (member_rows r2g g))"
    by (simp_all add: unat_of_nat)
qed

lemma mean_out:
  "g < length means \<Longrightarrow> out_cell (OF64 (mean_values means) (mean_valid means)) g = CF64 (means ! g)"
  "g < length means' \<Longrightarrow> out_cell (OF32 (mean_values means') (mean_valid means')) g = CF32 (means' ! g)"
  by (auto simp: mean_values_def mean_valid_def split: option.split)

lemma compute_mean_length [simp]:
  "length (compute_mean_f64 F sums counts) = min (length sums) (length counts)"
  "length (compute_mean_i64 F isums counts) = min (length isums) (length counts)"
  "length (compute_mean_f32 G sums32 counts32) = min (length sums32) (length counts32)"
  "length (compute_mean_i32 G isums32 counts32) = min (length isums32) (length counts32)"
  by (simp_all add: compute_mean_f64_def compute_mean_i64_def compute_mean_f32_def compute_mean_i32_def)

lemma cpu_lengths [simp]:
  "length (aggregate_sum_i64_cpu sp data valid r2g ng) = ng"
  "length (aggregate_count_cpu sp valid r2g ng) = ng"
  by (simp_all add: aggregate_sum_i64_cpu_def aggregate_count_cpu_def sum64.par_group_eq cnt.par_group_eq)

lemma par_group_length [simp]: "length (par_group idn upd op t ok val r2g ng) = ng"
proof -
  have "length (par_fold (replicate ng idn) (group_step upd ok val r2g ng) (map2 op) t i) = ng" for i
  proof (induction t arbitrary: i)
    case (Items k)
    have "length (foldl (group_step upd ok val r2g ng) xs js) = length xs" for xs js
      by (induction js arbitrary: xs) simp_all
    then show ?case by simp
  qed simp
  then show ?thesis by (simp add: par_group_def)
qed

lemma sum_f64_length [simp]: "length (aggregate_sum_f64_cpu F sp data valid r2g ng) = ng"
  by (simp add: aggregate_sum_f64_cpu_def)

fun output_len :: "nat \<Rightarrow> agg_output \<Rightarrow> bool" where
  "output_len ng (OI64 vs ok) \<longleftrightarrow> length vs = ng \<and> length ok = ng"
| "output_len ng (OF64 vs ok) \<longleftrightarrow> length vs = ng \<and> length ok = ng"
| "output_len ng (OU64 vs) \<longleftrightarrow> length vs = ng"
| "output_len ng (OI32 vs ok) \<longleftrightarrow> length vs = ng \<and> length ok = ng"
| "output_len ng (OF32 vs ok) \<longleftrightarrow> length vs = ng \<and> length ok = ng"

lemma dispatch_lengths:
  "dispatch_agg_i32 rt data valid r2g n ng (replicate ng x) kn rmw idn = Some (Inr out) \<Longrightarrow> length out = ng"
  "dispatch_agg_f32 rt data valid r2g n ng (replicate ng x) kn A = Some (Inr out') \<Longrightarrow> length out' = ng"
  "gpu_counts rt valid r2g ng = Some (Inr counts) \<Longrightarrow> length counts = ng"
  by (auto simp: dispatch_agg_i32_def dispatch_agg_f32_def gpu_counts_def dispatch_count_u32_def copy_back_def prereduce_length agg_kernel_Some(1)
      result_simps split: if_splits)

lemma run_one_agg_len: "run_one_agg rt kind vcol r2g ng = Some (Inr out) \<Longrightarrow> output_len ng out"
  by (cases kind; cases vcol)
    (auto simp: run_agg_defs agg_mismatch_def Let_def result_simps aggregate_min_i64_cpu_def aggregate_max_i64_cpu_def
      aggregate_min_f64_cpu_def aggregate_max_f64_cpu_def aggregate_len_cpu_def mean_values_def mean_valid_def count_to_valid_def
      dispatch_sum_i32_def dispatch_min_i32_def dispatch_max_i32_def dispatch_sum_f32_def dispatch_min_f32_def dispatch_max_f32_def
      dest!: dispatch_lengths)

lemma run_i64:
  assumes call: "agg_call_ok rt r2g ng" and fits: "column_fits (length r2g) (VI64 data valid)"
    and kind: "kind \<in> {SumI64, MeanI64, MinI64, MaxI64}"
  shows "\<exists>out. run_one_agg rt kind (VI64 data valid) r2g ng = Some (Inr out) \<and>
    (\<forall>g < ng. i64_meaning rt kind (kept data valid (member_rows r2g g)) (out_cell out g))"
proof -
  note ok = agg_call_ok_D[OF call]
  have vs: "col_vals data valid r2g g = kept data valid (member_rows r2g g)" for g using fits by (simp add: col_vals_kept)
  obtain mins mv maxs xv where mm: "aggregate_min_i64_cpu (splits rt) data valid r2g ng = (mins, mv)"
    "aggregate_max_i64_cpu (splits rt) data valid r2g ng = (maxs, xv)" by fastforce
  note spec = int_aggregates[OF ok(2), of data valid r2g ng, unfolded mm Let_def prod.case vs]
  have le: "length r2g \<le> length data" "length r2g < 2 ^ 64" using fits ok(7) by simp_all
  have mean: "compute_mean_i64 (ops64 rt) (aggregate_sum_i64_cpu (splits rt) data valid r2g ng) (aggregate_count_cpu (splits rt) valid r2g ng) ! g =
      mean_cell (ops64 rt) (of_signed (ops64 rt) (sint (sum_list (kept data valid (member_rows r2g g))))) (length (kept data valid (member_rows r2g g)))"
    if "g < ng" for g
    using f64_sum_and_means[OF ok(2) that le, THEN conjunct2, THEN conjunct2] by (simp add: vs Let_def mean_cell_def)
  from kind consider "kind = SumI64" | "kind = MeanI64" | "kind = MinI64" | "kind = MaxI64" by blast
  then show ?thesis
  proof cases
    case 1
    with spec show ?thesis by (simp add: run_agg_defs i64_meaning_def)
  next
    case 2
    with mean show ?thesis by (simp add: run_agg_defs i64_meaning_def Let_def mean_out del: out_cell.simps)
  next
    case 3
    with spec show ?thesis by (auto simp: run_agg_defs i64_meaning_def mm picked_def)
  next
    case 4
    with spec show ?thesis by (auto simp: run_agg_defs i64_meaning_def mm picked_def)
  qed
qed

lemma run_f64:
  assumes call: "agg_call_ok rt r2g ng" and fits: "column_fits (length r2g) (VF64 data valid)"
    and kind: "kind \<in> {SumF64, MeanF64, MinF64, MaxF64}"
  shows "\<exists>out. run_one_agg rt kind (VF64 data valid) r2g ng = Some (Inr out) \<and>
    (\<forall>g < ng. f64_meaning rt kind (kept data valid (member_rows r2g g)) (out_cell out g))"
proof -
  note ok = agg_call_ok_D[OF call]
  have vs: "col_vals data valid r2g g = kept data valid (member_rows r2g g)" for g using fits by (simp add: col_vals_kept)
  obtain mins mv maxs xv where mm: "aggregate_min_f64_cpu (splits rt) data valid r2g ng = (mins, mv)"
    "aggregate_max_f64_cpu (splits rt) data valid r2g ng = (maxs, xv)" by fastforce
  note ext = f64_extrema[OF ok(2), of _ ng data valid r2g, unfolded mm Let_def prod.case vs]
  have ext: "picked_f64 Min (kept data valid (member_rows r2g g)) (if mv ! g then Some (mins ! g) else None)"
    "picked_f64 Max (kept data valid (member_rows r2g g)) (if xv ! g then Some (maxs ! g) else None)" if "g < ng" for g
    using ext[OF that] by (auto simp: picked_f64_def picked_def)
  have le: "length r2g \<le> length data" "length r2g < 2 ^ 64" using fits ok(7) by simp_all
  note sum = f64_sum_and_means[OF ok(2) _ le, where F = "ops64 rt" and ng = ng and valid = valid, unfolded vs Let_def]
  have sums: "f64_sum rt (kept data valid (member_rows r2g g)) (aggregate_sum_f64_cpu (ops64 rt) (splits rt) data valid r2g ng ! g)"
    if "g < ng" for g
    using sum[OF that] by (simp add: f64_sum_def)
  have mean: "compute_mean_f64 (ops64 rt) (aggregate_sum_f64_cpu (ops64 rt) (splits rt) data valid r2g ng) (aggregate_count_cpu (splits rt) valid r2g ng) ! g =
      mean_cell (ops64 rt) (aggregate_sum_f64_cpu (ops64 rt) (splits rt) data valid r2g ng ! g) (length (kept data valid (member_rows r2g g)))"
    if "g < ng" for g
    using sum[OF that] by (simp add: mean_cell_def)
  from kind consider "kind = SumF64" | "kind = MeanF64" | "kind = MinF64" | "kind = MaxF64" by blast
  then show ?thesis
  proof cases
    case 1
    with sums show ?thesis by (simp add: run_agg_defs f64_meaning_def)
  next
    case 2
    with mean sums show ?thesis by (auto simp: run_agg_defs f64_meaning_def Let_def mean_out simp del: out_cell.simps)
  next
    case 3
    with ext show ?thesis by (simp add: run_agg_defs f64_meaning_def mm)
  next
    case 4
    with ext show ?thesis by (simp add: run_agg_defs f64_meaning_def mm)
  qed
qed

lemma copied_back: "map f [0..<ng] @ drop ng (replicate ng x) = map f [0..<ng]"
  by simp

lemma counted:
  assumes "agg_call_ok rt r2g ng" and "g < ng"
  shows "count_to_valid (map (\<lambda>g. of_nat (length (filter (get_valid valid) (member_rows r2g g)))) [0..<ng]) ! g \<longleftrightarrow>
    filter (get_valid valid) (member_rows r2g g) \<noteq> []"
proof -
  have "0 < (of_nat (length (filter (get_valid valid) (member_rows r2g g))) :: u32) \<longleftrightarrow> filter (get_valid valid) (member_rows r2g g) \<noteq> []"
    unfolding word_less_nat_alt unat_count[OF assms(1)] by simp
  with assms(2) show ?thesis by (simp add: count_to_valid_def)
qed

lemma mean_of_count:
  assumes "agg_call_ok rt r2g ng"
  shows "mean_of G f s (of_nat (length (filter (get_valid valid) (member_rows r2g g))) :: u32) =
    mean_cell G (f s) (length (filter (get_valid valid) (member_rows r2g g)))"
proof -
  let ?c = "of_nat (length (filter (get_valid valid) (member_rows r2g g))) :: u32"
  have "?c = 0 \<longleftrightarrow> length (filter (get_valid valid) (member_rows r2g g)) = 0"
    using unat_count(1)[OF assms, of valid g] by (metis unat_0 unat_eq_zero)
  then show ?thesis using unat_count(1)[OF assms, of valid g] by (auto simp: mean_of_def mean_cell_def)
qed

lemma run_i32:
  assumes call: "agg_call_ok rt r2g ng" and fits: "column_fits (length r2g) (VI32 data valid)"
    and kind: "kind \<in> {SumI32, MeanI32, MinI32, MaxI32}"
  shows "\<exists>out. run_one_agg rt kind (VI32 data valid) r2g ng = Some (Inr out) \<and>
    (\<forall>g < ng. i32_meaning rt kind (kept data valid (member_rows r2g g)) (out_cell out g))"
proof -
  note ok = agg_call_ok_D[OF call]
  have args: "agg_args_ok (length r2g) data valid r2g (replicate ng x) ng = Inr ()" for x
    by (rule args_ok[OF call]) (use fits in simp_all)
  have cnt: "gpu_counts rt valid r2g ng = Some (Inr (map (\<lambda>g. of_nat (length (filter (get_valid valid) (member_rows r2g g)))) [0..<ng]))"
    using gpu_counts_kept[OF call] fits by simp
  note spec = int32_aggregates[OF ok(1,6), of data valid r2g ng "replicate ng _", unfolded Let_def args obind.simps copied_back gpu_vals_kept if_P[OF ok(5)]]
  have sum: "dispatch_sum_i32 rt data valid r2g (length r2g) ng (replicate ng 0) = Some (Inr (map (\<lambda>g. sum_list (kept data valid (member_rows r2g g))) [0..<ng]))"
    by (rule spec[THEN conjunct1])
  obtain lo where lo: "dispatch_min_i32 rt data valid r2g (length r2g) ng (replicate ng i32_max) = Some (Inr (map lo [0..<ng]))"
    "\<forall>g. if kept data valid (member_rows r2g g) = [] then lo g = i32_max else sint (lo g) = Min (sint ` set (kept data valid (member_rows r2g g)))"
    using spec[THEN conjunct2, THEN conjunct2, THEN conjunct1] by blast
  obtain hi where hi: "dispatch_max_i32 rt data valid r2g (length r2g) ng (replicate ng i32_min) = Some (Inr (map hi [0..<ng]))"
    "\<forall>g. if kept data valid (member_rows r2g g) = [] then hi g = i32_min else sint (hi g) = Max (sint ` set (kept data valid (member_rows r2g g)))"
    using spec[THEN conjunct2, THEN conjunct2, THEN conjunct2, THEN conjunct1] by blast
  from kind consider "kind = SumI32" | "kind = MeanI32" | "kind = MinI32" | "kind = MaxI32" by blast
  then show ?thesis
  proof cases
    case 1
    with sum show ?thesis by (simp add: run_agg_defs i32_meaning_def)
  next
    case 2
    with sum cnt show ?thesis
      by (simp add: run_agg_defs i32_meaning_def Let_def mean_out compute_mean_i32_def length_kept mean_of_count[OF call] del: out_cell.simps)
  next
    case 3
    with lo cnt show ?thesis by (auto simp: run_agg_defs i32_meaning_def picked_def kept_Nil counted[OF call])
  next
    case 4
    with hi cnt show ?thesis by (auto simp: run_agg_defs i32_meaning_def picked_def kept_Nil counted[OF call])
  qed
qed

lemma f32_runs:
  assumes call: "agg_call_ok rt r2g ng" and args: "agg_args_ok (length r2g) data valid r2g (replicate ng x) ng = Inr ()"
  shows "\<exists>res. dispatch_agg_f32 rt data valid r2g (length r2g) ng (replicate ng x) kn A = Some (Inr res) \<and> length res = ng"
proof -
  note ok = agg_call_ok_D[OF call]
  have s: "schedule_ok (length r2g) (order rt kn (length r2g))" using ok(1) by (simp add: lawful_order_def)
  from in_range_sched[OF s] ok(5) have "in_range (get_valid valid) r2g (order rt kn (length r2g)) (length (replicate ng (ident A)))" by simp
  from agg_kernel_in_range[OF this] obtain res where
    res: "agg_kernel (flush A) (get_valid valid) ((!) data) r2g (replicate ng (ident A)) (order rt kn (length r2g)) = Some res" by blast
  with agg_kernel_Some(1)[OF res] ok(6) args show ?thesis
    by (auto simp: dispatch_agg_f32_def agg_args_ok_def copy_back_def)
qed

lemma run_f32:
  assumes call: "agg_call_ok rt r2g ng" and fits: "column_fits (length r2g) (VF32 data valid)"
    and kind: "kind \<in> {SumF32, MeanF32, MinF32, MaxF32}"
  shows "\<exists>out. run_one_agg rt kind (VF32 data valid) r2g ng = Some (Inr out) \<and>
    (\<forall>g < ng. f32_meaning rt kind (kept data valid (member_rows r2g g)) (out_cell out g))"
proof -
  note ok = agg_call_ok_D[OF call]
  have args: "agg_args_ok (length r2g) data valid r2g (replicate ng x) ng = Inr ()" for x
    by (rule args_ok[OF call]) (use fits in simp_all)
  have cnt: "gpu_counts rt valid r2g ng = Some (Inr (map (\<lambda>g. of_nat (length (filter (get_valid valid) (member_rows r2g g)))) [0..<ng]))"
    using gpu_counts_kept[OF call] fits by simp
  obtain sums mins maxs where runs: "dispatch_sum_f32 rt data valid r2g (length r2g) ng (replicate ng 0) = Some (Inr sums)"
    "dispatch_min_f32 rt data valid r2g (length r2g) ng (replicate ng f32_infinity) = Some (Inr mins)"
    "dispatch_max_f32 rt data valid r2g (length r2g) ng (replicate ng f32_neg_infinity) = Some (Inr maxs)"
    and len: "length sums = ng"
    using f32_runs[OF call args[of 0], of "''agg_sum_f32''" "sum_agg rt"] f32_runs[OF call args[of f32_infinity], of "''agg_min_f32''" "min_agg rt"]
      f32_runs[OF call args[of f32_neg_infinity], of "''agg_max_f32''" "max_agg rt"]
    by (auto simp: dispatch_sum_f32_def dispatch_min_f32_def dispatch_max_f32_def)
  have mm: "dispatch_max_f32 rt data valid r2g (length r2g) ng (replicate ng f32_infinity) = Some (Inr maxs)"
    using runs(3) ok(6) by (auto simp: dispatch_max_f32_def dispatch_agg_f32_def agg_args_ok_def copy_back_def result_simps agg_kernel_Some(1))
  have ext: "numbers (set (kept data valid (member_rows r2g g))) \<longrightarrow> \<not> is_nan f32_infinity (mins ! g) \<and>
      fval (mins ! g) = Min (fval ` set (kept data valid (member_rows r2g g))) \<and>
    \<not> is_nan f32_infinity (maxs ! g) \<and> fval (maxs ! g) = Max (fval ` set (kept data valid (member_rows r2g g)))"
    if "g < ng" "kept data valid (member_rows r2g g) \<noteq> []" for g
    using summary_extremum summary_extremum_max f32_extrema[OF ok(1,4,6) that(1) runs(2) mm, unfolded gpu_vals_kept] that(2) by auto
  have sum: "sums_to (fadd (ops32 rt)) (mset (kept data valid (member_rows r2g g))) (sums ! g)" if "g < ng" for g
    using dispatch_sum_f32_sums[OF ok(1,3,6) that runs(1)] by (simp only: gpu_vals_kept)
  from kind consider "kind = SumF32" | "kind = MeanF32" | "kind = MinF32" | "kind = MaxF32" by blast
  then show ?thesis
  proof cases
    case 1
    with sum runs show ?thesis by (simp add: run_agg_defs f32_meaning_def)
  next
    case 2
    with sum runs cnt len show ?thesis
      by (auto simp: run_agg_defs f32_meaning_def Let_def mean_out compute_mean_f32_def length_kept mean_of_count[OF call] simp del: out_cell.simps)
  next
    case 3
    with ext runs cnt show ?thesis by (simp add: run_agg_defs f32_meaning_def picked_f32_def kept_Nil counted[OF call])
  next
    case 4
    with ext runs cnt show ?thesis by (simp add: run_agg_defs f32_meaning_def picked_f32_def kept_Nil counted[OF call])
  qed
qed

lemma run_one_agg_meaning:
  assumes call: "agg_call_ok rt r2g ng" and fits: "kind \<noteq> LenRows \<longrightarrow> column_fits (length r2g) vcol" and kind: "kind_accepts kind vcol"
  shows "\<exists>out. run_one_agg rt kind vcol r2g ng = Some (Inr out) \<and>
    (\<forall>g < ng. agg_meaning rt kind vcol (member_rows r2g g) (out_cell out g))"
proof (cases "kind \<in> {CountRows, LenRows}")
  case True
  note spec = int_aggregates[OF agg_call_ok_D(2)[OF call]]
  have "aggregate_count_cpu (splits rt) valid r2g ng = map (\<lambda>g. of_nat (length (filter (get_valid valid) (member_rows r2g g)))) [0..<ng]" for valid
    using spec[of undefined valid r2g ng] by (simp add: rows_kept)
  moreover have "aggregate_len_cpu (splits rt) r2g ng = map (\<lambda>g. of_nat (length (member_rows r2g g))) [0..<ng]"
    using spec[of undefined undefined r2g ng] by (simp add: rows_all)
  ultimately show ?thesis using True by (auto simp: run_agg_defs agg_meaning_def)
next
  case False
  then have other: "kind \<noteq> CountRows" "kind \<noteq> LenRows" by auto
  show ?thesis
  proof (cases vcol)
    case (VI64 data valid)
    with other run_i64[OF call] fits kind show ?thesis by (simp add: agg_meaning_def)
  next
    case (VF64 data valid)
    with other run_f64[OF call] fits kind show ?thesis by (simp add: agg_meaning_def)
  next
    case (VI32 data valid)
    with other run_i32[OF call] fits kind show ?thesis by (simp add: agg_meaning_def)
  next
    case (VF32 data valid)
    with other run_f32[OF call] fits kind show ?thesis by (simp add: agg_meaning_def)
  qed
qed

lemma run_one_agg_mismatch:
  "\<not> kind_accepts kind vcol \<Longrightarrow> run_one_agg rt kind vcol r2g ng = Some (Inl (AggTypeMismatch (kind_name kind) (column_name vcol)))"
  by (cases kind; cases vcol) (simp_all add: run_agg_defs agg_mismatch_def)

section \<open>The build\<close>

text \<open>The condition under which a build groups correctly. A build of fewer than 500000 rows, or one for which
  the device or the scratch buffers are not to be had, is the CPU's and needs nothing. A build that the GPU
  runs must have ended in an orderly way: no weak compare-and-swap failed while the slot was free, and no
  thread read a key that was not yet published. Neither is promised by Metal (\<open>memory_splits_groups\<close>).\<close>

definition orderly_build :: "a1_run \<Rightarrow> u128 list \<Rightarrow> bool" where
  "orderly_build a1 keys \<longleftrightarrow> length keys < a1_rows_threshold \<or>
     (case a1 keys of None \<Rightarrow> True | Some (cs, ss, fin) \<Rightarrow>
       schedule_ok (length keys) cs \<and> schedule_ok (length keys) ss \<and>
       (case scatter_phase keys 16 cs ss of (offs, idx, pids) \<Rightarrow> tgs_complete orderly keys 16 offs idx fin))"

text \<open>Such a GPU run exists for every input.\<close>

lemma orderly_gpu_run:
  assumes "length keys < 2 ^ 32"
  obtains a1 where "a1 keys \<noteq> None" "orderly_build a1 keys"
proof -
  let ?s = "[0..<length keys]"
  have pow: "is_power_of_two (unat (16 :: u32))" by code_simp
  have s: "schedule_ok (length keys) ?s" by (simp add: schedule_ok_def)
  obtain offs idx pids where sp: "scatter_phase keys 16 ?s ?s = (offs, idx, pids)" by (metis prod_cases3)
  have "\<exists>st. tg_reachable orderly ((!) keys) (tg_rows offs idx p) st \<and> (\<forall>r \<in> tg_rows offs idx p. finished (pc_of st r))" for p
    by (rule complete_run_exists) (simp add: tg_rows_def)
  then obtain fin where "\<forall>p. tg_reachable orderly ((!) keys) (tg_rows offs idx p) (fin p) \<and>
    (\<forall>r \<in> tg_rows offs idx p. finished (pc_of (fin p) r))" by metis
  then have "orderly_build (\<lambda>_. Some (?s, ?s, fin)) keys" using s sp by (simp add: orderly_build_def tgs_complete_def)
  then show ?thesis by (intro that[of "\<lambda>_. Some (?s, ?s, fin)"]) simp_all
qed

lemma partitioned_build_or_overflow:
  assumes "orderly_build a1 keys" and "a1 keys = Some (cs, ss, fin)" and "length keys < 2 ^ 32" and "keys \<noteq> []"
    and "a1_rows_threshold \<le> length keys"
  shows "partition_and_build_with_scratch keys 16 cs ss fin = Some (Inl PartOverflow) \<or>
    (\<exists>b. partition_and_build_with_scratch keys 16 cs ss fin = Some (Inr b) \<and> grouping keys b \<and> first_rows_minimal b)"
proof -
  have pow: "is_power_of_two (unat (16 :: u32))" by code_simp
  obtain offs idx pids where sp: "scatter_phase keys 16 cs ss = (offs, idx, pids)" by (metis prod_cases3)
  with assms(1,2,5) have run: "schedule_ok (length keys) cs" "schedule_ok (length keys) ss" "tgs_complete orderly keys 16 offs idx fin"
    unfolding orderly_build_def by auto
  show ?thesis
  proof (cases "\<exists>p < unat (16 :: u32). \<exists>r \<in> tg_rows offs idx p. pc_of (fin p) r = Overflowed")
    case True
    with assms(3,4) sp pow show ?thesis by (simp add: partition_and_build_with_scratch_def u32_max_def)
  next
    case False
    from partition_and_build_correct[OF pow assms(3,4) run sp False] show ?thesis by blast
  qed
qed

lemma dispatch_build_groups:
  assumes "orderly_build a1 (take n encoded)" and "0 < n" and "n \<le> length encoded" and "n < 2 ^ 32"
  shows "\<exists>b. dispatch_build a1 encoded n = Some (Inr b) \<and> grouping (take n encoded) b \<and> first_rows_minimal b"
proof -
  have len: "length (take n encoded) = n" and ne: "take n encoded \<noteq> []" using assms(2,3) by auto
  have cpu: "grouping (take n encoded) (cpu_hashmap_build (take n encoded)) \<and> first_rows_minimal (cpu_hashmap_build (take n encoded))"
    using hmb.builds hmb.builds_first assms(4) len by simp
  consider "n < a1_rows_threshold" | "try_a1_build a1 (take n encoded) = Some None"
    | b where "try_a1_build a1 (take n encoded) = Some (Some b)" "grouping (take n encoded) b" "first_rows_minimal b"
    using partitioned_build_or_overflow[OF assms(1) _ _ ne] assms(4) len
    by (cases "n < a1_rows_threshold"; cases "a1 (take n encoded)") (fastforce simp: try_a1_build_def)+
  then show ?thesis
    using cpu assms(2,3) by cases (auto simp: dispatch_build_def)
qed

section \<open>The pipeline\<close>

definition same_key :: "key_column list \<Rightarrow> nat \<Rightarrow> nat \<Rightarrow> bool" where
  "same_key cols i j \<longleftrightarrow> (\<forall>c \<in> set cols. row_view c i = row_view c j)"

definition spec_ok :: "nat \<Rightarrow> agg_request \<times> value_column \<Rightarrow> bool" where
  "spec_ok n s \<longleftrightarrow> kind_accepts (req_kind (fst s)) (snd s) \<and> (req_kind (fst s) \<noteq> LenRows \<longrightarrow> column_fits n (snd s))"

lemma run_aggs_meaning:
  assumes "agg_call_ok rt r2g ng" and "\<forall>s \<in> set specs. spec_ok (length r2g) s"
  shows "\<exists>outs. run_aggs rt specs r2g ng = Some (Inr outs) \<and> length outs = length specs \<and> (\<forall>out \<in> set outs. output_len ng out) \<and>
    (\<forall>j < length specs. \<forall>g < ng.
       agg_meaning rt (req_kind (fst (specs ! j))) (snd (specs ! j)) (member_rows r2g g) (out_cell (outs ! j) g))"
  using assms(2)
proof (induction specs)
  case Nil
  then show ?case by (simp add: run_aggs_def)
next
  case (Cons s specs)
  obtain req vcol where s: "s = (req, vcol)" by (cases s)
  from Cons.prems s obtain out where out: "run_one_agg rt (req_kind req) vcol r2g ng = Some (Inr out)"
    "\<forall>g < ng. agg_meaning rt (req_kind req) vcol (member_rows r2g g) (out_cell out g)"
    using run_one_agg_meaning[OF assms(1), of "req_kind req" vcol] by (auto simp: spec_ok_def)
  from Cons obtain outs where outs: "run_aggs rt specs r2g ng = Some (Inr outs)" "length outs = length specs" "\<forall>out \<in> set outs. output_len ng out"
    "\<forall>j < length specs. \<forall>g < ng.
       agg_meaning rt (req_kind (fst (specs ! j))) (snd (specs ! j)) (member_rows r2g g) (out_cell (outs ! j) g)" by auto
  show ?case
    by (rule exI[of _ "out # outs"]) (use out outs s run_one_agg_len[OF out(1)] in \<open>auto simp: run_aggs_def All_less_Suc2\<close>)
qed

lemma check_key_rows_ok: "check_key_rows cols n = Inr u \<longleftrightarrow> (\<forall>c \<in> set cols. kc_n_rows c = n)"
  by (induction cols) auto

lemma those_key_at:
  assumes "\<forall>r \<in> set rows. unat r < length encoded"
  shows "those (map (key_at encoded) rows) = Some (map (\<lambda>r. encoded ! unat r) rows)"
  using assms by (induction rows) (simp_all add: key_at_def)

text \<open>A grouping of the encoded keys is a grouping of the rows by their key columns.\<close>

lemma grouping_by_keys:
  assumes enc: "encode_keys cols = Inr (encoded, schema)" and b: "grouping encoded b"
    and min: "first_rows_minimal b"
  defines "reps \<equiv> map unat (first_row_per_group b)"
  shows "length reps = unat (n_groups b)" "\<forall>r \<in> set reps. r < length encoded"
    "\<And>i. i < length encoded \<Longrightarrow> \<exists>!g. g < length reps \<and> same_key cols (reps ! g) i"
    "\<And>g i. g < length reps \<Longrightarrow> i < length encoded \<Longrightarrow> same_key cols (reps ! g) i \<Longrightarrow> reps ! g \<le> i"
    "\<And>g. g < length reps \<Longrightarrow> member_rows (row_to_group b) g = filter (same_key cols (reps ! g)) [0..<length encoded]"
proof -
  show len: "length reps = unat (n_groups b)" using b by (simp add: reps_def grouping_def)
  have rep: "reps ! g < length encoded" "unat (row_to_group b ! (reps ! g)) = g" if "g < length reps" for g
    using b that unfolding reps_def grouping_def by auto
  then show "\<forall>r \<in> set reps. r < length encoded" by (metis in_set_conv_nth)
  have same: "same_key cols (reps ! g) i \<longleftrightarrow> unat (row_to_group b ! i) = g"
    if "g < length reps" "i < length encoded" for g i
  proof -
    have "same_key cols (reps ! g) i \<longleftrightarrow> encoded ! (reps ! g) = encoded ! i"
      using encode_keys_eq_iff[OF enc rep(1)[OF that(1)] that(2)] by (simp add: same_key_def)
    also have "\<dots> \<longleftrightarrow> row_to_group b ! (reps ! g) = row_to_group b ! i"
      using b rep(1)[OF that(1)] that(2) unfolding grouping_def by blast
    finally show ?thesis using rep(2)[OF that(1)] by (metis word_unat_eq_iff)
  qed
  show "\<exists>!g. g < length reps \<and> same_key cols (reps ! g) i" if "i < length encoded" for i
    using same[OF _ that] b that len by (intro ex1I[of _ "unat (row_to_group b ! i)"]) (auto simp: grouping_def)
  show "reps ! g \<le> i" if "g < length reps" "i < length encoded" "same_key cols (reps ! g) i" for g i
    using same[OF that(1,2)] that min b len by (auto simp: first_rows_minimal_def grouping_def reps_def)
  show "member_rows (row_to_group b) g = filter (same_key cols (reps ! g)) [0..<length encoded]" if "g < length reps" for g
    using same[OF that] b by (auto simp: member_rows_def grouping_def intro!: filter_cong)
qed

section \<open>Properties\<close>

text \<open>Instances for the concrete runs below.\<close>

lemma demo_runtime_ok: "lawful_runtime demo_runtime"
proof -
  have "lawful_simd_sum demo_runtime"
    unfolding lawful_simd_sum_def
  proof (intro allI impI)
    fix xs :: "f32 list" and M :: "nat \<Rightarrow> f32 multiset"
    assume len: "length xs = 32" and M: "\<forall>i < 32. sums_to (fadd (ops32 demo_runtime)) (M i) (xs ! i)"
    have "sums_to (fadd (ops32 demo_runtime)) ({#} + (\<Sum>i\<leftarrow>[0..<32]. M i)) (foldl (fadd (ops32 demo_runtime)) 0 (map ((!) xs) [0..<32]))"
      by (rule sums_foldl[OF sums_to.none]) (use M in auto)
    moreover have "map ((!) xs) [0..<32] = xs" using len by (metis map_nth)
    ultimately show "sums_to (fadd (ops32 demo_runtime)) (\<Sum>i\<leftarrow>[0..<32]. M i) (simd_sum demo_runtime xs)"
      by (simp add: demo_runtime_def demo_ops_def foldl_plus_sum_list)
  qed
  then show ?thesis using demo_runtime_lawful demo_floats by (simp add: lawful_runtime_def)
qed

lemma no_gpu_orderly: "orderly_build (\<lambda>_. None) keys"
  by (simp add: orderly_build_def)

text \<open>C4. The build yields groups when the GPU build is skipped for a small input, is not to be had, overflows,
  or ends after an orderly run: the result numbers the distinct keys of the rows with minimal first rows. An
  encoding shorter than the row count is refused, and no rows give no groups. Orderly means that no weak
  compare-and-swap failed spuriously and no read of a key was stale, which Metal does not promise; without it
  a key may end in two groups.\<close>

theorem dispatch_build_correct:
  assumes "orderly_build a1 (take n encoded)" and "n < 2 ^ 32"
  shows "if n = 0 then dispatch_build a1 encoded n = Some (Inr empty_build)
    else if length encoded < n then dispatch_build a1 encoded n = Some (Inl (OutputTooShort (length encoded) n))
    else \<exists>b. dispatch_build a1 encoded n = Some (Inr b) \<and> grouping (take n encoded) b \<and> first_rows_minimal b"
proof -
  consider "n = 0" | "0 < n" "length encoded < n" | "0 < n" "n \<le> length encoded" by linarith
  then show ?thesis
  proof cases
    case 3
    with dispatch_build_groups[OF assms(1) 3 assms(2)] show ?thesis by simp
  qed (simp_all add: dispatch_build_def)
qed

lemma dispatch_build_correct_witness:
  "(\<exists>a1 b. a1 (replicate 500000 7) \<noteq> None \<and>
     dispatch_build a1 (replicate 500000 7) 500000 = Some (Inr b) \<and> grouping (replicate 500000 (7 :: u128)) b) \<and>
   (\<exists>b. dispatch_build (\<lambda>_. None) [9, 4, 9, 1] 3 = Some (Inr b) \<and> grouping [9, 4, 9 :: u128] b)"
proof
  have "length (replicate 500000 (7 :: u128)) < 2 ^ 32" by simp
  then obtain a1 where a1: "a1 (replicate 500000 (7 :: u128)) \<noteq> None" "orderly_build a1 (replicate 500000 7)"
    by (rule orderly_gpu_run)
  have "take 500000 (replicate 500000 (7 :: u128)) = replicate 500000 7" by simp
  with a1 dispatch_build_correct[of a1 500000 "replicate 500000 7"] obtain b where
    "dispatch_build a1 (replicate 500000 7) 500000 = Some (Inr b)" "grouping (replicate 500000 (7 :: u128)) b"
    by (auto)
  with a1(1) show "\<exists>a1 b. a1 (replicate 500000 7) \<noteq> None \<and>
     dispatch_build a1 (replicate 500000 7) 500000 = Some (Inr b) \<and> grouping (replicate 500000 (7 :: u128)) b" by blast
  show "\<exists>b. dispatch_build (\<lambda>_. None) [9, 4, 9, 1] 3 = Some (Inr b) \<and> grouping [9, 4, 9 :: u128] b"
    using dispatch_build_correct[OF no_gpu_orderly, of 3 "[9, 4, 9, 1]"] by auto
qed

text \<open>C7. When every row belongs to a group, an aggregate either means what its kind says for the rows of every
  group, on the CPU for 64-bit columns and on the GPU for 32-bit ones, whatever the thread order, the split of
  the rows and the order of float additions; or its kind does not fit the column and it is refused. The least
  and the greatest of 32-bit floats are determined when the values of the group are numbers; with a NaN among
  them the shaders, compiled with fast math, may give any value, but the cell is still marked valid.\<close>

theorem run_one_agg_correct:
  assumes "lawful_runtime rt" and "r2g \<noteq> []" and "length r2g < 2 ^ 32" and "\<forall>g \<in> set r2g. unat g < ng"
    and "column_fits (length r2g) vcol"
  shows "if kind_accepts kind vcol
    then \<exists>out. run_one_agg rt kind vcol r2g ng = Some (Inr out) \<and>
      (\<forall>g < ng. agg_meaning rt kind vcol (filter (\<lambda>i. unat (r2g ! i) = g) [0..<length r2g]) (out_cell out g))
    else run_one_agg rt kind vcol r2g ng = Some (Inl (AggTypeMismatch (kind_name kind) (column_name vcol)))"
  using run_one_agg_meaning[of rt r2g ng kind vcol] run_one_agg_mismatch[of kind vcol] assms
    in_set_conv_nth[of _ r2g]
  by (fastforce simp: agg_call_ok_def member_rows_def neq_Nil_conv)

lemma run_one_agg_correct_witness:
  "(\<exists>out. run_one_agg demo_runtime MeanI32 (VI32 [5, - 7, 9] [0b101]) [1, 0, 1] 2 = Some (Inr out) \<and>
     out_cell out 0 = CF32 None \<and> out_cell out 1 = CF32 (Some 7)) \<and>
   run_one_agg demo_runtime MinF64 (VI32 [5, - 7, 9] [0b101]) [1, 0, 1] 2 = Some (Inl (AggTypeMismatch ''MinF64'' ''I32''))"
proof -
  have fits: "column_fits (length [1, 0, 1 :: u32]) (VI32 [5, - 7, 9] [0b101])" by (simp add: div_ceil_def)
  have rows: "filter (\<lambda>i. unat ([1, 0, 1 :: u32] ! i) = 0) [0..<length [1, 0, 1 :: u32]] = [1]"
    "filter (\<lambda>i. unat ([1, 0, 1 :: u32] ! i) = 1) [0..<length [1, 0, 1 :: u32]] = [0, 2]" by code_simp+
  have kept: "kept [5, - 7, 9 :: 32 word] [0b101] [1] = []" "kept [5, - 7, 9 :: 32 word] [0b101] [0, 2] = [5, 9]" by code_simp+
  have mean: "fdiv (ops32 demo_runtime) (of_signed (ops32 demo_runtime) 14) (of_unsigned (ops32 demo_runtime) (Suc (Suc 0))) = 7"
    unfolding demo_runtime_def demo_ops_def by simp
  have sum: "agg_meaning demo_runtime MeanI32 (VI32 [5, - 7, 9] [0b101]) [1] c \<longleftrightarrow> c = CF32 None"
    "agg_meaning demo_runtime MeanI32 (VI32 [5, - 7, 9] [0b101]) [0, 2] c \<longleftrightarrow> c = CF32 (Some 7)" for c
    by (simp_all add: agg_meaning_def i32_meaning_def kept kept[unfolded One_nat_def] mean_cell_def mean)
  obtain out where "run_one_agg demo_runtime MeanI32 (VI32 [5, - 7, 9] [0b101]) [1, 0, 1] 2 = Some (Inr out)"
    "\<forall>g < 2. agg_meaning demo_runtime MeanI32 (VI32 [5, - 7, 9] [0b101])
       (filter (\<lambda>i. unat ([1, 0, 1 :: u32] ! i) = g) [0..<length [1, 0, 1 :: u32]]) (out_cell out g)"
    using run_one_agg_correct[OF demo_runtime_ok _ _ _ fits, of 2 MeanI32] by (simp del: upt_rec) blast
  then have "out_cell out 0 = CF32 None \<and> out_cell out 1 = CF32 (Some 7)"
    using rows sum by (metis one_less_numeral_iff semiring_norm(76) zero_less_numeral)
  moreover have "run_one_agg demo_runtime MinF64 (VI32 [5, - 7, 9] [0b101]) [1, 0, 1] 2 = Some (Inl (AggTypeMismatch ''MinF64'' ''I32''))"
    using run_one_agg_correct[OF demo_runtime_ok _ _ _ fits, of 2 MinF64] by simp
  ultimately show ?thesis using \<open>run_one_agg demo_runtime MeanI32 _ _ _ = _\<close> by blast
qed

lemma dispatch_groupby_groups:
  assumes "lawful_runtime rt" and "orderly_build a1 encoded" and "encode_keys key_cols = Inr (encoded, schema)"
    and "\<forall>c \<in> set key_cols. kc_n_rows c = n" and "0 < n" and "n < 2 ^ 32" and "\<forall>s \<in> set specs. spec_ok n s"
  shows "\<exists>res reps. dispatch_groupby rt a1 key_cols specs n = Some (Inr res) \<and>
    length reps = unat (result_groups res) \<and> (\<forall>r \<in> set reps. r < n) \<and>
    (\<forall>i < n. \<exists>!g. g < length reps \<and> same_key key_cols (reps ! g) i) \<and>
    (\<forall>g < length reps. \<forall>i < n. same_key key_cols (reps ! g) i \<longrightarrow> reps ! g \<le> i) \<and>
    decoded_keys res = map (\<lambda>c. column_view c reps) key_cols \<and>
    length (agg_outputs res) = length specs \<and> (\<forall>out \<in> set (agg_outputs res). output_len (length reps) out) \<and>
    (\<forall>j < length specs. \<forall>g < length reps.
       agg_meaning rt (req_kind (fst (specs ! j))) (snd (specs ! j))
         (filter (same_key key_cols (reps ! g)) [0..<n]) (out_cell (agg_outputs res ! j) g))"
proof -
  obtain m where ne: "key_cols \<noteq> []" and m: "\<forall>c \<in> set key_cols. kc_n_rows c = m" "length encoded = m"
    using encode_keys_Inr[OF assms(3)] by (metis diff_zero length_map length_upt)
  have len: "length encoded = n" using ne m assms(4) by (cases key_cols) auto
  obtain b where b: "dispatch_build a1 encoded n = Some (Inr b)" "grouping encoded b" "first_rows_minimal b"
    using dispatch_build_groups[of a1 n encoded] assms(2,5,6) len by auto
  define reps where "reps = map unat (first_row_per_group b)"
  note groups = grouping_by_keys[OF assms(3) b(2,3), folded reps_def, unfolded len]
  have r2g: "length (row_to_group b) = n" using b(2) len by (simp add: grouping_def)
  have "0 < unat (n_groups b)" using b(2) assms(5) len by (force simp: grouping_def)
  then have call: "agg_call_ok rt (row_to_group b) (unat (n_groups b))"
    using assms(1,5,6) r2g b(2) by (auto simp: agg_call_ok_def grouping_def in_set_conv_nth)
  obtain outs where outs: "run_aggs rt specs (row_to_group b) (unat (n_groups b)) = Some (Inr outs)" "length outs = length specs"
    "\<forall>out \<in> set outs. output_len (length reps) out"
    "\<forall>j < length specs. \<forall>g < length reps. agg_meaning rt (req_kind (fst (specs ! j))) (snd (specs ! j))
       (filter (same_key key_cols (reps ! g)) [0..<n]) (out_cell (outs ! j) g)"
    using run_aggs_meaning[OF call, of specs] assms(7) r2g groups(1,5) by auto
  have "those (map (key_at encoded) (first_row_per_group b)) = Some (map ((!) encoded) reps)"
    using those_key_at[of "first_row_per_group b" encoded] groups(2) len by (simp add: reps_def o_def)
  moreover have "decode_keys (map ((!) encoded) reps) schema = Some (map (\<lambda>c. column_view c reps) key_cols)"
    using decode_selected_rows[OF assms(3)] groups(2) len by blast
  ultimately have "dispatch_groupby rt a1 key_cols specs n =
      Some (Inr \<lparr>decoded_keys = map (\<lambda>c. column_view c reps) key_cols, agg_outputs = outs, result_groups = n_groups b\<rparr>)"
    using b(1) outs(1) ne assms(3,4,5) check_key_rows_ok[of key_cols n "()"]
    by (simp add: dispatch_groupby_def group_encoded_def)
  then show ?thesis
    using groups(1-4) outs(2-4) by (intro exI conjI) (assumption | simp)+
qed

text \<open>C2. The whole pipeline, for keys that fit and aggregates that fit their columns, and for a build on the
  CPU or an orderly one on the GPU (no spurious failure of a weak compare-and-swap, no stale read of a key; Metal
  promises neither, and from 500000 rows on the GPU is asked first): the result has one group per distinct combination of key values (nulls equal to nulls only), every row is in exactly
  one group, a group's decoded keys are those of its first row, and every aggregate of a group is
  that of the rows whose keys agree with it. The device is taken to order numbers and to add as \<open>lawful_runtime\<close> says; the
  least and greatest of 32-bit floats are determined for groups of numbers only (fast math promises nothing for NaN).\<close>

theorem dispatch_groupby_correct:
  assumes "lawful_runtime rt" and "orderly_build a1 encoded" and "encode_keys key_cols = Inr (encoded, schema)"
    and "\<forall>c \<in> set key_cols. kc_n_rows c = n" and "0 < n" and "n < 2 ^ 32" and "\<forall>s \<in> set specs. spec_ok n s"
  shows "\<exists>res reps. dispatch_groupby rt a1 key_cols specs n = Some (Inr res) \<and>
    length reps = unat (result_groups res) \<and> (\<forall>r \<in> set reps. r < n) \<and>
    (\<forall>i < n. \<exists>!g. g < length reps \<and> same_key key_cols (reps ! g) i) \<and>
    (\<forall>g < length reps. \<forall>i < n. same_key key_cols (reps ! g) i \<longrightarrow> reps ! g \<le> i) \<and>
    decoded_keys res = map (\<lambda>c. column_view c reps) key_cols \<and>
    length (agg_outputs res) = length specs \<and>
    (\<forall>j < length specs. \<forall>g < length reps.
       agg_meaning rt (req_kind (fst (specs ! j))) (snd (specs ! j))
         (filter (same_key key_cols (reps ! g)) [0..<n]) (out_cell (agg_outputs res ! j) g))"
proof -
  from dispatch_groupby_groups[OF assms] obtain res reps where r: "dispatch_groupby rt a1 key_cols specs n = Some (Inr res)"
    "length reps = unat (result_groups res)" "\<forall>r \<in> set reps. r < n"
    "\<forall>i < n. \<exists>!g. g < length reps \<and> same_key key_cols (reps ! g) i"
    "\<forall>g < length reps. \<forall>i < n. same_key key_cols (reps ! g) i \<longrightarrow> reps ! g \<le> i"
    "decoded_keys res = map (\<lambda>c. column_view c reps) key_cols" "length (agg_outputs res) = length specs"
    "\<forall>j < length specs. \<forall>g < length reps. agg_meaning rt (req_kind (fst (specs ! j))) (snd (specs ! j))
       (filter (same_key key_cols (reps ! g)) [0..<n]) (out_cell (agg_outputs res ! j) g)" by blast
  then show ?thesis by (intro exI[of _ res] exI[of _ reps] conjI) assumption+
qed

definition demo_specs :: "(agg_request \<times> value_column) list" where
  "demo_specs = [(\<lparr>req_kind = SumI32, input_col_idx = 0\<rparr>, VI32 [5, - 7] [3]), (\<lparr>req_kind = LenRows, input_col_idx = 0\<rparr>, VI32 [5, - 7] [3])]"

lemma demo_specs_ok: "\<forall>s \<in> set demo_specs. spec_ok 2 s"
  by (simp add: demo_specs_def spec_ok_def div_ceil_def)

lemma dispatch_groupby_correct_witness:
  "\<exists>res reps. dispatch_groupby demo_runtime (\<lambda>_. None) [demo_column] demo_specs 2 = Some (Inr res) \<and>
     decoded_keys res = [column_view demo_column reps] \<and> (\<exists>!g. g < length reps \<and> same_key [demo_column] (reps ! g) 1)"
proof -
  have "\<forall>c \<in> set [demo_column]. kc_n_rows c = 2" by (simp add: demo_column_def)
  from dispatch_groupby_correct[OF demo_runtime_ok no_gpu_orderly demo_encode this _ _ demo_specs_ok]
  obtain res reps where "dispatch_groupby demo_runtime (\<lambda>_. None) [demo_column] demo_specs 2 = Some (Inr res)"
    "decoded_keys res = [column_view demo_column reps]"
    "\<forall>i < 2. \<exists>!g. g < length reps \<and> same_key [demo_column] (reps ! g) i" by auto
  then show ?thesis by (metis one_less_numeral_iff semiring_norm(76))
qed

lemma keyless_groups:
  assumes "lawful_runtime rt" and "n < 2 ^ 32" and "\<forall>s \<in> set specs. spec_ok n s"
  shows "\<exists>res. dispatch_groupby rt a1 [] specs n = Some (Inr res) \<and> decoded_keys res = [] \<and>
    length (agg_outputs res) = length specs \<and> result_groups res = (if n = 0 then 0 else 1) \<and>
    (n \<noteq> 0 \<longrightarrow> (\<forall>out \<in> set (agg_outputs res). output_len 1 out) \<and> (\<forall>j < length specs. agg_meaning rt (req_kind (fst (specs ! j))) (snd (specs ! j)) [0..<n] (out_cell (agg_outputs res ! j) 0)))"
proof (cases "n = 0")
  case True
  then show ?thesis by (simp add: dispatch_groupby_def empty_outputs_def)
next
  case False
  then have call: "agg_call_ok rt (replicate n 0) 1" using assms(1,2) by (auto simp: agg_call_ok_def)
  have "member_rows (replicate n 0) 0 = [0..<n]" by (simp add: member_rows_def)
  with run_aggs_meaning[OF call, of specs] assms(3) obtain outs where "run_aggs rt specs (replicate n 0) 1 = Some (Inr outs)"
    "length outs = length specs" "\<forall>out \<in> set outs. output_len 1 out"
    "\<forall>j < length specs. agg_meaning rt (req_kind (fst (specs ! j))) (snd (specs ! j)) [0..<n] (out_cell (outs ! j) 0)"
    by auto
  with False show ?thesis by (simp add: dispatch_groupby_def)
qed

text \<open>C29. Without keys the query is one group holding every row, or no group when there are no rows. Aggregates
  mean what they do in the theorem on a single aggregate, which leaves the least and greatest of 32-bit floats open when a
  NaN is among them.\<close>

theorem keyless_groupby_correct:
  assumes "lawful_runtime rt" and "n < 2 ^ 32" and "\<forall>s \<in> set specs. spec_ok n s"
  shows "\<exists>res. dispatch_groupby rt a1 [] specs n = Some (Inr res) \<and> decoded_keys res = [] \<and>
    length (agg_outputs res) = length specs \<and> result_groups res = (if n = 0 then 0 else 1) \<and>
    (n \<noteq> 0 \<longrightarrow> (\<forall>j < length specs. agg_meaning rt (req_kind (fst (specs ! j))) (snd (specs ! j)) [0..<n] (out_cell (agg_outputs res ! j) 0)))"
  using keyless_groups[OF assms, of a1] by blast

lemma keyless_groupby_correct_witness:
  "\<exists>res. dispatch_groupby demo_runtime (\<lambda>_. None) [] demo_specs 2 = Some (Inr res) \<and>
     out_cell (agg_outputs res ! 0) 0 = CI32 (Some (- 2))"
proof -
  obtain res where res: "dispatch_groupby demo_runtime (\<lambda>_. None) [] demo_specs 2 = Some (Inr res)"
    "\<forall>j < length demo_specs. agg_meaning demo_runtime (req_kind (fst (demo_specs ! j))) (snd (demo_specs ! j)) [0..<2] (out_cell (agg_outputs res ! j) 0)"
    using keyless_groupby_correct[OF demo_runtime_ok _ demo_specs_ok] by auto
  have "0 < length demo_specs" by (simp add: demo_specs_def)
  with res(2) have "agg_meaning demo_runtime SumI32 (VI32 [5, - 7] [3]) [0..<2] (out_cell (agg_outputs res ! 0) 0)"
    by (metis demo_specs_def agg_request.select_convs(1) fst_conv nth_Cons_0 snd_conv)
  moreover have "sum_list (kept [5, - 7 :: 32 word] [3] [0..<2]) = - 2" by code_simp
  ultimately have "out_cell (agg_outputs res ! 0) 0 = CI32 (Some (- 2))" by (simp add: agg_meaning_def i32_meaning_def)
  with res(1) show ?thesis by blast
qed

end
