(* ===== verification/Signature.thy ===== *)
theory Signature
  imports Interner
begin

text \<open>Models \<open>polars-metal-kernels/src/aggregate_fused/signature.rs\<close>: the kernel-layer mirror of the
  plan's aggregation specs and the signature under which a compiled fused kernel is cached. Column
  names become slots in first-seen order; the signature's equality leaves the names out.\<close>

section \<open>The mirror types\<close>

datatype k_metal_dtype = KtI64 | KtF64 | KtBool | KtI32 | KtF32 | KtI8 | KtI16 | KtU8 | KtU16 | KtU32 | KtU64 | KtUtf8

datatype k_agg_op = KSum | KMean | KCount | KMin | KMax | KLen

datatype k_binary_op = KAdd | KSub | KMul | KDiv

datatype k_agg_expr =
    KColumn string
  | KLiteralF64 u64
  | KLiteralI64 u64
  | KBinary k_binary_op k_agg_expr k_agg_expr

datatype k_agg_spec =
    KSimple string k_agg_op string
  | KExpression k_agg_expr k_agg_op string
  | KLength string

fun k_walk :: "k_agg_expr \<Rightarrow> k_agg_expr list" where
  "k_walk (KBinary op l r) = KBinary op l r # k_walk l @ k_walk r"
| "k_walk e = [e]"

definition k_visit :: "string list \<Rightarrow> k_agg_expr \<Rightarrow> string list" where
  "k_visit out e =
     (case e of KColumn name \<Rightarrow> if \<not> list_ex (\<lambda>n. n = name) out then out @ [name] else out | _ \<Rightarrow> out)"

definition k_referenced_columns :: "k_agg_expr \<Rightarrow> string list" where
  "k_referenced_columns e = foldl k_visit [] (k_walk e)"

section \<open>The canonical form\<close>

datatype signature_error = UnknownColumn string

datatype canonical_expr =
    CColumn u16
  | CLiteralF64Bits u64
  | CLiteralI64 u64
  | CBinary k_binary_op canonical_expr canonical_expr

datatype canonical_agg =
    CSimple u16 k_agg_op k_metal_dtype
  | CExpression canonical_expr k_agg_op k_metal_dtype
  | CLength

record agg_signature =
  column_order :: "string list"
  column_dtypes :: "k_metal_dtype list"
  sig_aggs :: "canonical_agg list"

text \<open>\<open>PartialEq\<close> and what \<open>Hash\<close> feeds to the hasher.\<close>

definition sig_canonical :: "agg_signature \<Rightarrow> k_metal_dtype list \<times> canonical_agg list" where
  "sig_canonical s = (column_dtypes s, sig_aggs s)"

definition sig_eq :: "agg_signature \<Rightarrow> agg_signature \<Rightarrow> bool" where
  "sig_eq s t \<longleftrightarrow> sig_canonical s = sig_canonical t"

record slot_table =
  slot_map :: "string \<rightharpoonup> u16"
  slot_order :: "string list"
  slot_dtypes :: "k_metal_dtype list"

definition lookup_dtype :: "string \<Rightarrow> (string \<rightharpoonup> k_metal_dtype) \<Rightarrow> signature_error + k_metal_dtype" where
  "lookup_dtype col dts = (case dts col of None \<Rightarrow> Inl (UnknownColumn col) | Some d \<Rightarrow> Inr d)"

definition intern_slot :: "slot_table \<Rightarrow> string \<Rightarrow> k_metal_dtype \<Rightarrow> slot_table \<times> u16" where
  "intern_slot st name dt =
     (case slot_map st name of
        Some slot \<Rightarrow> (st, slot)
      | None \<Rightarrow>
          (let slot = of_nat (length (slot_order st)) in
             (\<lparr>slot_map = (slot_map st)(name \<mapsto> slot), slot_order = slot_order st @ [name], slot_dtypes = slot_dtypes st @ [dt]\<rparr>, slot)))"

fun canon_expr :: "k_agg_expr \<Rightarrow> (string \<rightharpoonup> u16) \<Rightarrow> canonical_expr" where
  "canon_expr (KColumn name) m = CColumn (case m name of None \<Rightarrow> 0 | Some s \<Rightarrow> s)"
| "canon_expr (KLiteralF64 v) m = CLiteralF64Bits v"
| "canon_expr (KLiteralI64 v) m = CLiteralI64 v"
| "canon_expr (KBinary op l r) m = CBinary op (canon_expr l m) (canon_expr r m)"

fun intern_referenced :: "slot_table \<Rightarrow> string list \<Rightarrow> (string \<rightharpoonup> k_metal_dtype) \<Rightarrow> signature_error + slot_table" where
  "intern_referenced st [] dts = Inr st"
| "intern_referenced st (col # cols) dts =
     rbind (lookup_dtype col dts) (\<lambda>dt. intern_referenced (fst (intern_slot st col dt)) cols dts)"

definition canon_spec :: "slot_table \<Rightarrow> k_agg_spec \<Rightarrow> (string \<rightharpoonup> k_metal_dtype) \<Rightarrow> signature_error + slot_table \<times> canonical_agg" where
  "canon_spec st spec dts =
     (case spec of
        KSimple input_col op _ \<Rightarrow>
          rbind (lookup_dtype input_col dts) (\<lambda>dt.
            let (st', slot) = intern_slot st input_col dt in Inr (st', CSimple slot op dt))
      | KExpression expr op _ \<Rightarrow>
          (let referenced = k_referenced_columns expr in
           rbind (intern_referenced st referenced dts) (\<lambda>st'.
           rbind (case referenced of [] \<Rightarrow> Inr KtF64 | c # _ \<Rightarrow> lookup_dtype c dts) (\<lambda>out_dt.
             Inr (st', CExpression (canon_expr expr (slot_map st')) op out_dt))))
      | KLength _ \<Rightarrow> Inr (st, CLength))"

fun canon_specs :: "slot_table \<Rightarrow> k_agg_spec list \<Rightarrow> (string \<rightharpoonup> k_metal_dtype) \<Rightarrow> signature_error + slot_table \<times> canonical_agg list" where
  "canon_specs st [] dts = Inr (st, [])"
| "canon_specs st (spec # specs) dts =
     rbind (canon_spec st spec dts) (\<lambda>(st', c). rbind (canon_specs st' specs dts) (\<lambda>(st'', cs). Inr (st'', c # cs)))"

definition empty_slots :: slot_table where
  "empty_slots = \<lparr>slot_map = Map.empty, slot_order = [], slot_dtypes = []\<rparr>"

definition from_specs :: "k_agg_spec list \<Rightarrow> (string \<rightharpoonup> k_metal_dtype) \<Rightarrow> signature_error + agg_signature" where
  "from_specs specs dts =
     rbind (canon_specs empty_slots specs dts) (\<lambda>(st, cs).
       Inr \<lparr>column_order = slot_order st, column_dtypes = slot_dtypes st, sig_aggs = cs\<rparr>)"

section \<open>Slots\<close>

fun k_leaves :: "k_agg_expr \<Rightarrow> string list" where
  "k_leaves (KColumn n) = [n]"
| "k_leaves (KBinary op l r) = k_leaves l @ k_leaves r"
| "k_leaves e = []"

lemma k_visit_simps [simp]:
  "k_visit out (KColumn n) = push_new out n"
  "k_visit out (KLiteralF64 v) = out"
  "k_visit out (KLiteralI64 w) = out"
  "k_visit out (KBinary op l r) = out"
  by (auto simp: k_visit_def push_new_def list_ex_iff)

lemma k_visit_walk: "foldl k_visit out (k_walk e) = first_seen_from out (k_leaves e)"
  by (induction e arbitrary: out) (simp_all add: first_seen_from_append)

lemma k_referenced_eq: "k_referenced_columns e = first_seen (k_leaves e)"
  by (simp add: k_referenced_columns_def k_visit_walk first_seen_def)

fun spec_columns :: "k_agg_spec \<Rightarrow> string list" where
  "spec_columns (KSimple c op a) = [c]"
| "spec_columns (KExpression e op a) = k_referenced_columns e"
| "spec_columns (KLength a) = []"

definition spec_names :: "k_agg_spec list \<Rightarrow> string list" where
  "spec_names specs = concat (map spec_columns specs)"

text \<open>The table holds the columns seen so far with the slot of each, and their declared types.\<close>

definition slots_ok :: "(string \<rightharpoonup> k_metal_dtype) \<Rightarrow> slot_table \<Rightarrow> bool" where
  "slots_ok dts st \<longleftrightarrow>
     distinct (slot_order st) \<and> dom (slot_map st) = set (slot_order st) \<and>
     map Some (slot_dtypes st) = map dts (slot_order st) \<and>
     (\<forall>i < length (slot_order st). slot_map st (slot_order st ! i) = Some (of_nat i))"

lemma slots_ok_empty [simp]: "slots_ok dts empty_slots"
  by (simp add: slots_ok_def empty_slots_def)

lemma intern_slot_ok:
  assumes "slots_ok dts st" and "dts name = Some dt"
  shows "slots_ok dts (fst (intern_slot st name dt))"
    and "slot_order (fst (intern_slot st name dt)) = push_new (slot_order st) name"
    and "slot_map (fst (intern_slot st name dt)) name = Some (snd (intern_slot st name dt))"
  using assms by (auto simp: intern_slot_def slots_ok_def push_new_def nth_append Let_def domIff less_Suc_eq split: option.splits)

lemma intern_slot_index:
  assumes "slots_ok dts st" and "dts name = Some dt" and "length (slot_order st) < 2 ^ 16"
  shows "unat (snd (intern_slot st name dt)) < length (slot_order (fst (intern_slot st name dt)))"
    and "slot_order (fst (intern_slot st name dt)) ! unat (snd (intern_slot st name dt)) = name"
proof -
  let ?st = "fst (intern_slot st name dt)" and ?c = "snd (intern_slot st name dt)"
  note ok = intern_slot_ok[where dts = dts and st = st and name = name and dt = dt, OF assms(1,2)]
  have "name \<in> set (slot_order ?st)" using ok(2) by simp
  then obtain j where j: "j < length (slot_order ?st)" "slot_order ?st ! j = name" by (metis in_set_conv_nth)
  then have c: "?c = of_nat j" using ok(1,3) unfolding slots_ok_def by fastforce
  have "length (slot_order ?st) \<le> 2 ^ 16" using assms(3) length_push_new[of "slot_order st" name] ok(2) by simp
  with c j(1) have "unat ?c = j" by (simp add: unat_of_nat)
  with j show "unat ?c < length (slot_order ?st)" "slot_order ?st ! unat ?c = name" by simp_all
qed

text \<open>The interner contract: slots as numbers, for columns of one declared type each.\<close>

definition intern_number :: "(string \<Rightarrow> k_metal_dtype) \<Rightarrow> slot_table \<Rightarrow> string \<Rightarrow> slot_table \<times> nat" where
  "intern_number d st name = (fst (intern_slot st name (d name)), unat (snd (intern_slot st name (d name))))"

interpretation column_interner: interner "intern_number d" slot_order "slots_ok (\<lambda>n. Some (d n))" "2 ^ 16" for d
proof (unfold_locales, goal_cases)
  case (3 s k)
  with intern_slot_index(1)[where dts = "\<lambda>n. Some (d n)", OF 3(1) _ 3(2)] show ?case by (simp add: intern_number_def)
next
  case (4 s k)
  with intern_slot_index(2)[where dts = "\<lambda>n. Some (d n)", OF 4(1) _ 4(2)] show ?case by (simp add: intern_number_def)
qed (simp_all add: intern_number_def intern_slot_ok[where dts = "\<lambda>n. Some (d n)"])

text \<open>The table only grows, and every earlier slot keeps its number.\<close>

lemma intern_referenced_ok:
  "slots_ok dts st \<Longrightarrow> intern_referenced st cols dts = Inr st' \<Longrightarrow>
     slots_ok dts st' \<and> slot_order st' = first_seen_from (slot_order st) cols \<and> (\<forall>c \<in> set cols. dts c \<noteq> None)"
proof (induction cols arbitrary: st)
  case (Cons c cols)
  then obtain dt where dt: "dts c = Some dt" "intern_referenced (fst (intern_slot st c dt)) cols dts = Inr st'"
    by (auto simp: lookup_dtype_def result_simps split: option.splits)
  from Cons.IH[OF intern_slot_ok(1)[OF Cons.prems(1) dt(1)] dt(2)] intern_slot_ok(2)[OF Cons.prems(1) dt(1)] dt(1)
  show ?case by simp
qed simp

lemma canon_spec_ok:
  assumes "slots_ok dts st" and "canon_spec st spec dts = Inr (st', c)"
  shows "slots_ok dts st' \<and> slot_order st' = first_seen_from (slot_order st) (spec_columns spec) \<and>
    (\<forall>n \<in> set (spec_columns spec). dts n \<noteq> None)"
proof (cases spec)
  case (KSimple n op a)
  then obtain dt slot where "dts n = Some dt" "intern_slot st n dt = (st', slot)"
    using assms(2) by (auto simp: canon_spec_def lookup_dtype_def result_simps split: option.splits prod.splits)
  with intern_slot_ok(1,2)[OF assms(1), of n dt] KSimple show ?thesis by simp
next
  case (KExpression e op a)
  then have "intern_referenced st (k_referenced_columns e) dts = Inr st'"
    using assms(2) by (auto simp: canon_spec_def Let_def result_simps)
  from intern_referenced_ok[OF assms(1) this] KExpression show ?thesis by simp
qed (use assms in \<open>auto simp: canon_spec_def\<close>)

text \<open>A later state of the table agrees with an earlier one on the columns known then.\<close>

lemma slot_of_index:
  assumes "slots_ok dts st" and "length (slot_order st) \<le> 2 ^ 16" and "slot_map st n = Some s"
  shows "unat s < length (slot_order st) \<and> slot_order st ! unat s = n"
proof -
  have "n \<in> set (slot_order st)" using assms(1,3) unfolding slots_ok_def by blast
  then obtain j where j: "j < length (slot_order st)" "slot_order st ! j = n" by (metis in_set_conv_nth)
  then have "s = of_nat j" using assms(1,3) unfolding slots_ok_def by fastforce
  then have "unat s = j" using j(1) assms(2) by (simp add: unat_of_nat)
  with j show ?thesis by simp
qed

fun expr_names :: "string list \<Rightarrow> canonical_expr \<Rightarrow> k_agg_expr" where
  "expr_names order (CColumn s) = KColumn (order ! unat s)"
| "expr_names order (CLiteralF64Bits v) = KLiteralF64 v"
| "expr_names order (CLiteralI64 v) = KLiteralI64 v"
| "expr_names order (CBinary op l r) = KBinary op (expr_names order l) (expr_names order r)"

fun expr_slots_below :: "nat \<Rightarrow> canonical_expr \<Rightarrow> bool" where
  "expr_slots_below n (CColumn s) \<longleftrightarrow> unat s < n"
| "expr_slots_below n (CBinary op l r) \<longleftrightarrow> expr_slots_below n l \<and> expr_slots_below n r"
| "expr_slots_below n c \<longleftrightarrow> True"

text \<open>What a canonical aggregate says of the specification it came from, aliases aside.\<close>

fun describes :: "string list \<Rightarrow> k_metal_dtype list \<Rightarrow> canonical_agg \<Rightarrow> k_agg_spec \<Rightarrow> bool" where
  "describes order dtypes (CSimple s op dt) (KSimple n op' _) \<longleftrightarrow>
     op = op' \<and> unat s < length order \<and> order ! unat s = n \<and> dtypes ! unat s = dt"
| "describes order dtypes (CExpression e op dt) (KExpression e' op' _) \<longleftrightarrow>
     op = op' \<and> expr_slots_below (length order) e \<and> expr_names order e = e'"
| "describes order dtypes CLength (KLength _) \<longleftrightarrow> True"
| "describes order dtypes _ _ \<longleftrightarrow> False"

lemma canon_expr_names:
  assumes "slots_ok dts st" and "length (slot_order st) \<le> 2 ^ 16" and "set (k_leaves e) \<subseteq> set (slot_order st)"
  shows "expr_slots_below (length (slot_order st)) (canon_expr e (slot_map st)) \<and> expr_names (slot_order st) (canon_expr e (slot_map st)) = e"
  using assms(3)
proof (induction e)
  case (KColumn n)
  then obtain s where "slot_map st n = Some s" using assms(1) unfolding slots_ok_def by auto
  with slot_of_index[OF assms(1,2) this] show ?case by simp
qed auto

lemma first_seen_from_take: "\<exists>rest. first_seen_from order ks = order @ rest"
proof (induction ks arbitrary: order)
  case (Cons k ks)
  from Cons[of "push_new order k"] show ?case by (auto simp: push_new_def)
qed simp

lemma expr_names_append:
  "expr_slots_below (length order) e \<Longrightarrow> expr_slots_below (length (order @ rest)) e \<and> expr_names (order @ rest) e = expr_names order e"
  by (induction e) (auto simp: nth_append)

lemma describes_append:
  "describes order dtypes c spec \<Longrightarrow> length dtypes = length order \<Longrightarrow> describes (order @ rest) (dtypes @ rest') c spec"
  by (induction order dtypes c spec rule: describes.induct) (auto simp: nth_append dest: expr_names_append)

lemma canon_spec_describes:
  assumes "slots_ok dts st" and "canon_spec st spec dts = Inr (st', c)" and "length (slot_order st') \<le> 2 ^ 16"
  shows "describes (slot_order st') (slot_dtypes st') c spec"
proof -
  have ok: "slots_ok dts st'" using canon_spec_ok[OF assms(1,2)] by blast
  have dt_at: "slot_dtypes st' ! i = dt" if "i < length (slot_order st')" "dts (slot_order st' ! i) = Some dt" for i dt
  proof -
    have "map Some (slot_dtypes st') ! i = map dts (slot_order st') ! i" "length (slot_dtypes st') = length (slot_order st')"
      using ok unfolding slots_ok_def by (metis, metis length_map)
    with that show ?thesis by simp
  qed
  show ?thesis
  proof (cases spec)
    case (KSimple n op a)
    then obtain dt slot where s: "dts n = Some dt" "intern_slot st n dt = (st', slot)" "c = CSimple slot op dt"
      using assms(2) by (auto simp: canon_spec_def lookup_dtype_def result_simps split: option.splits prod.splits)
    have "slot_map st' n = Some slot" using intern_slot_ok(3)[OF assms(1) s(1)] s(2) by simp
    from slot_of_index[OF ok assms(3) this] dt_at s KSimple show ?thesis by simp
  next
    case (KExpression e op a)
    then have r: "intern_referenced st (k_referenced_columns e) dts = Inr st'"
      and c: "\<exists>dt. c = CExpression (canon_expr e (slot_map st')) op dt"
      using assms(2) by (auto simp: canon_spec_def Let_def result_simps)
    have "set (k_leaves e) \<subseteq> set (slot_order st')"
      using intern_referenced_ok[OF assms(1) r] by (auto simp: set_first_seen_from k_referenced_eq)
    from canon_expr_names[OF ok assms(3) this] c KExpression show ?thesis by auto
  next
    case (KLength a)
    with assms(2) show ?thesis by (auto simp: canon_spec_def)
  qed
qed

lemma canon_specs_ok:
  "slots_ok dts st \<Longrightarrow> canon_specs st specs dts = Inr (st', cs) \<Longrightarrow>
     slots_ok dts st' \<and> slot_order st' = first_seen_from (slot_order st) (spec_names specs) \<and>
     length cs = length specs \<and> (\<forall>n \<in> set (spec_names specs). dts n \<noteq> None)"
proof (induction specs arbitrary: st cs)
  case (Cons spec specs)
  then obtain st1 c cs1 where s: "canon_spec st spec dts = Inr (st1, c)" "canon_specs st1 specs dts = Inr (st', cs1)" "cs = c # cs1"
    by (auto simp: result_simps split: prod.splits)
  note one = canon_spec_ok[OF Cons.prems(1) s(1)]
  from Cons.IH[OF conjunct1[OF one] s(2)] one s(3) show ?case
    by (auto simp: spec_names_def first_seen_from_append)
qed (simp add: spec_names_def)

lemma canon_specs_describes:
  "slots_ok dts st \<Longrightarrow> canon_specs st specs dts = Inr (st', cs) \<Longrightarrow> length (slot_order st') \<le> 2 ^ 16 \<Longrightarrow>
     list_all2 (describes (slot_order st') (slot_dtypes st')) cs specs"
proof (induction specs arbitrary: st cs)
  case (Cons spec specs)
  then obtain st1 c cs1 where s: "canon_spec st spec dts = Inr (st1, c)" "canon_specs st1 specs dts = Inr (st', cs1)" "cs = c # cs1"
    by (auto simp: result_simps split: prod.splits)
  note one = canon_spec_ok[OF Cons.prems(1) s(1)]
  note more = canon_specs_ok[OF conjunct1[OF one] s(2)]
  obtain rest where rest: "slot_order st' = slot_order st1 @ rest" using more first_seen_from_take by metis
  have lens: "length (slot_dtypes st1) = length (slot_order st1)" "length (slot_dtypes st') = length (slot_order st')"
    "map Some (slot_dtypes st1) = map dts (slot_order st1)" "map Some (slot_dtypes st') = map dts (slot_order st')"
    using one more unfolding slots_ok_def by (metis length_map, metis length_map, blast, blast)
  have "map Some (take (length (slot_order st1)) (slot_dtypes st')) = map Some (slot_dtypes st1)"
    using lens(3,4) rest by (simp add: take_map[symmetric])
  then have "take (length (slot_order st1)) (slot_dtypes st') = slot_dtypes st1"
    by (metis map_injective option.inject injI)
  then have dts': "slot_dtypes st' = slot_dtypes st1 @ drop (length (slot_order st1)) (slot_dtypes st')"
    by (metis append_take_drop_id)
  have "length (slot_order st1) \<le> 2 ^ 16" using Cons.prems(3) rest by simp
  from describes_append[OF canon_spec_describes[OF Cons.prems(1) s(1) this] lens(1), of rest]
  have "describes (slot_order st') (slot_dtypes st') c spec" using rest dts' by metis
  with Cons.IH[OF conjunct1[OF one] s(2) Cons.prems(3)] s(3) show ?case by simp
qed simp

lemma from_specs_slots:
  assumes "from_specs specs dts = Inr sig"
  shows "column_order sig = first_seen (spec_names specs) \<and> map Some (column_dtypes sig) = map dts (column_order sig) \<and>
    (length (column_order sig) \<le> 2 ^ 16 \<longrightarrow> list_all2 (describes (column_order sig) (column_dtypes sig)) (sig_aggs sig) specs)"
proof -
  obtain st cs where s: "canon_specs empty_slots specs dts = Inr (st, cs)"
    "sig = \<lparr>column_order = slot_order st, column_dtypes = slot_dtypes st, sig_aggs = cs\<rparr>"
    using assms by (auto simp: from_specs_def result_simps split: prod.splits)
  with canon_specs_ok[OF slots_ok_empty s(1)] canon_specs_describes[OF slots_ok_empty s(1)]
  show ?thesis by (simp add: slots_ok_def first_seen_def empty_slots_def)
qed

lemma intern_referenced_total:
  "(\<exists>st'. intern_referenced st cols dts = Inr st') \<longleftrightarrow> (\<forall>c \<in> set cols. dts c \<noteq> None)"
  by (induction cols arbitrary: st) (auto simp: lookup_dtype_def split: option.splits)

lemma canon_spec_total: "(\<exists>r. canon_spec st spec dts = Inr r) \<longleftrightarrow> (\<forall>c \<in> set (spec_columns spec). dts c \<noteq> None)"
proof (cases spec)
  case (KSimple n op a)
  then show ?thesis by (auto simp: canon_spec_def lookup_dtype_def split: option.splits prod.splits)
next
  case (KExpression e op a)
  let ?cols = "k_referenced_columns e"
  have "(\<exists>r. canon_spec st spec dts = Inr r) \<longleftrightarrow> (\<exists>st'. intern_referenced st ?cols dts = Inr st') \<and>
      (\<exists>d. (case ?cols of [] \<Rightarrow> Inr KtF64 | c # _ \<Rightarrow> lookup_dtype c dts) = Inr d)"
    using KExpression by (auto simp: canon_spec_def Let_def result_simps)
  also have "\<dots> \<longleftrightarrow> (\<forall>c \<in> set ?cols. dts c \<noteq> None)"
    unfolding intern_referenced_total by (cases ?cols) (auto simp: lookup_dtype_def split: option.splits)
  finally show ?thesis using KExpression by simp
qed (simp add: canon_spec_def)

lemma canon_specs_total: "(\<exists>r. canon_specs st specs dts = Inr r) \<longleftrightarrow> (\<forall>c \<in> set (spec_names specs). dts c \<noteq> None)"
proof (induction specs arbitrary: st)
  case (Cons spec specs)
  have "(\<exists>r. canon_specs st (spec # specs) dts = Inr r) \<longleftrightarrow>
      (\<exists>st' c. canon_spec st spec dts = Inr (st', c) \<and> (\<exists>r. canon_specs st' specs dts = Inr r))"
    by (fastforce simp: result_simps split: prod.splits)
  also have "\<dots> \<longleftrightarrow> (\<exists>r. canon_spec st spec dts = Inr r) \<and> (\<forall>c \<in> set (spec_names specs). dts c \<noteq> None)"
    using Cons by auto
  finally show ?case unfolding canon_spec_total by (auto simp: spec_names_def)
qed (simp add: spec_names_def)

lemma from_specs_total:
  "(\<exists>sig. from_specs specs dts = Inr sig) \<longleftrightarrow> (\<forall>n \<in> set (spec_names specs). dts n \<noteq> None)"
proof -
  have "(\<exists>sig. from_specs specs dts = Inr sig) \<longleftrightarrow> (\<exists>r. canon_specs empty_slots specs dts = Inr r)"
    by (auto simp: from_specs_def result_simps)
  then show ?thesis unfolding canon_specs_total .
qed

end
