(* ===== verification/Emitter.thy ===== *)
theory Emitter
  imports Signature
begin

text \<open>Models \<open>polars-metal-kernels/src/aggregate_fused/emitter.rs\<close>, which prints the Metal source of a fused
  aggregation kernel, as string concatenation line by line, and \<open>aggregate_fused/cache.rs\<close>, which keeps
  one compiled pipeline per signature hash. Rust's \<open>Debug\<close> text of a double and the Metal compiler are
  parameters.\<close>

section \<open>Text\<close>

definition newline :: string where "newline = [CHR 0x0A]"

definition ln :: "string list \<Rightarrow> string" where
  "ln parts = concat parts @ newline"

definition attr :: "string \<Rightarrow> string" where
  "attr s = [CHR 0x5B, CHR 0x5B] @ s @ [CHR 0x5D, CHR 0x5D]"

definition buffer_attr :: "nat \<Rightarrow> string" where
  "buffer_attr n = attr (''buffer('' @ show_nat n @ '')'')"

definition show_i64 :: "u64 \<Rightarrow> string" where
  "show_i64 v = (if sint v < 0 then ''-'' @ show_nat (nat (- sint v)) else show_nat (nat (sint v)))"

fun find_position :: "'a list \<Rightarrow> 'a \<Rightarrow> nat option" where
  "find_position [] x = None"
| "find_position (y # ys) x = (if y = x then Some 0 else map_option Suc (find_position ys x))"

section \<open>Reduction kinds\<close>

datatype reduce_kind = F32Sum | F32Min | F32Max | I32Sum | I32Min | I32Max | U32Sum | U32Min | U32Max | Counter

definition emit_max_groups :: nat where "emit_max_groups = 16"
definition fused_tg_width :: nat where "fused_tg_width = 256"

fun cpp_scalar :: "reduce_kind \<Rightarrow> string" where
  "cpp_scalar F32Sum = ''float''" | "cpp_scalar F32Min = ''float''" | "cpp_scalar F32Max = ''float''"
| "cpp_scalar I32Sum = ''int''" | "cpp_scalar I32Min = ''int''" | "cpp_scalar I32Max = ''int''"
| "cpp_scalar U32Sum = ''uint''" | "cpp_scalar U32Min = ''uint''" | "cpp_scalar U32Max = ''uint''"
| "cpp_scalar Counter = ''uint''"

fun reduce_identity :: "reduce_kind \<Rightarrow> string" where
  "reduce_identity F32Sum = ''0.0f''" | "reduce_identity F32Min = ''INFINITY''" | "reduce_identity F32Max = ''-INFINITY''"
| "reduce_identity I32Sum = ''0''" | "reduce_identity U32Sum = ''0''" | "reduce_identity Counter = ''0''"
| "reduce_identity I32Min = ''INT_MAX''" | "reduce_identity I32Max = ''INT_MIN''"
| "reduce_identity U32Min = ''UINT_MAX''" | "reduce_identity U32Max = ''0u''"

fun simd_reduce_call :: "reduce_kind \<Rightarrow> string \<Rightarrow> string" where
  "simd_reduce_call kind e =
     (if kind \<in> {F32Sum, I32Sum, U32Sum, Counter} then ''simd_sum('' @ e @ '')''
      else if kind \<in> {F32Min, I32Min, U32Min} then ''simd_min('' @ e @ '')''
      else ''simd_max('' @ e @ '')'')"

fun atomic_ptr :: "reduce_kind \<Rightarrow> string" where
  "atomic_ptr kind = (if kind \<in> {I32Sum, I32Min, I32Max} then ''atomic_int'' else ''atomic_uint'')"

definition sum_kind_for :: "k_metal_dtype \<Rightarrow> reduce_kind" where
  "sum_kind_for dt = (if dt \<in> {KtF32, KtF64} then F32Sum else if dt \<in> {KtI32, KtI16, KtI8, KtI64} then I32Sum else U32Sum)"

definition min_kind_for :: "k_metal_dtype \<Rightarrow> reduce_kind" where
  "min_kind_for dt = (if dt \<in> {KtF32, KtF64} then F32Min else if dt \<in> {KtI32, KtI16, KtI8, KtI64} then I32Min else U32Min)"

definition max_kind_for :: "k_metal_dtype \<Rightarrow> reduce_kind" where
  "max_kind_for dt = (if dt \<in> {KtF32, KtF64} then F32Max else if dt \<in> {KtI32, KtI16, KtI8, KtI64} then I32Max else U32Max)"

definition signature_supported_by_fused :: "agg_signature \<Rightarrow> bool" where
  "signature_supported_by_fused sig \<longleftrightarrow> list_all (\<lambda>d. d \<notin> {KtF64, KtI64, KtU64, KtUtf8}) (column_dtypes sig)"

definition msl_value_load_type :: "k_metal_dtype \<Rightarrow> string" where
  "msl_value_load_type dt =
     (if dt \<in> {KtF32, KtF64} then ''float'' else if dt \<in> {KtI32, KtI16, KtI8, KtI64} then ''int''
      else if dt = KtBool then ''uchar'' else ''uint'')"

definition column_dtype_for :: "agg_signature \<Rightarrow> k_metal_dtype list \<Rightarrow> string \<Rightarrow> k_metal_dtype option" where
  "column_dtype_for sig dtypes name = map_option ((!) dtypes) (find_position (column_order sig) name)"

definition op_slots :: "k_agg_op \<Rightarrow> reduce_kind \<Rightarrow> reduce_kind \<Rightarrow> reduce_kind \<Rightarrow> reduce_kind list" where
  "op_slots op sk mk xk =
     (case op of KCount \<Rightarrow> [Counter] | KLen \<Rightarrow> [Counter] | KSum \<Rightarrow> [sk] | KMin \<Rightarrow> [mk] | KMax \<Rightarrow> [xk] | KMean \<Rightarrow> [sk, Counter])"

definition spec_slots :: "agg_signature \<Rightarrow> k_metal_dtype list \<Rightarrow> k_agg_spec \<Rightarrow> reduce_kind list" where
  "spec_slots sig dtypes spec =
     (case spec of
        KSimple input_col op _ \<Rightarrow>
          (let dt = case column_dtype_for sig dtypes input_col of None \<Rightarrow> KtF32 | Some d \<Rightarrow> d
           in op_slots op (sum_kind_for dt) (min_kind_for dt) (max_kind_for dt))
      | KExpression _ op _ \<Rightarrow> op_slots op F32Sum F32Min F32Max
      | KLength _ \<Rightarrow> [Counter])"

definition build_agg_slots :: "k_agg_spec list \<Rightarrow> k_metal_dtype list \<Rightarrow> agg_signature \<Rightarrow> reduce_kind list list" where
  "build_agg_slots specs dtypes sig = map (spec_slots sig dtypes) specs"

section \<open>Expressions\<close>

definition f64_inf :: u64 where "f64_inf = 0x7FF0000000000000"

definition emit_f64 :: "(u64 \<Rightarrow> string) \<Rightarrow> u64 \<Rightarrow> string" where
  "emit_f64 debug v =
     (let mag = v AND 0x7FFFFFFFFFFFFFFF in
      if mag > f64_inf then ''(float)NAN''
      else if mag = f64_inf then (if v = f64_inf then ''(float)INFINITY'' else ''-(float)INFINITY'')
      else debug v @ ''f'')"

fun emit_op :: "k_binary_op \<Rightarrow> string" where
  "emit_op KAdd = ''+''" | "emit_op KSub = ''-''" | "emit_op KMul = ''*''" | "emit_op KDiv = ''/''"

definition column_index :: "string list \<Rightarrow> string \<Rightarrow> nat" where
  "column_index order name = (case find_position order name of None \<Rightarrow> 0 | Some i \<Rightarrow> i)"

fun emit_expr_msl :: "(u64 \<Rightarrow> string) \<Rightarrow> k_agg_expr \<Rightarrow> string list \<Rightarrow> string" where
  "emit_expr_msl debug (KColumn name) order = ''(float)val_'' @ show_nat (column_index order name)"
| "emit_expr_msl debug (KLiteralF64 v) order = emit_f64 debug v"
| "emit_expr_msl debug (KLiteralI64 v) order = ''(float)'' @ show_i64 v"
| "emit_expr_msl debug (KBinary op l r) order =
     ''('' @ emit_expr_msl debug l order @ '' '' @ emit_op op @ '' '' @ emit_expr_msl debug r order @ '')''"

fun join :: "string \<Rightarrow> string list \<Rightarrow> string" where
  "join sep [] = []"
| "join sep [s] = s"
| "join sep (s # ss) = s @ sep @ join sep ss"

definition emit_expr_validity_check :: "k_agg_expr \<Rightarrow> string list \<Rightarrow> string" where
  "emit_expr_validity_check e order =
     (let cols = k_referenced_columns e in
      if cols = [] then ''1u''
      else join '' & '' (map (\<lambda>c. ''val_'' @ show_nat (column_index order c) @ ''_valid'') cols))"

section \<open>The kernel\<close>

definition is_mean :: "k_agg_spec \<Rightarrow> bool" where
  "is_mean spec = (case spec of KSimple _ op _ \<Rightarrow> op = KMean | KExpression _ op _ \<Rightarrow> op = KMean | KLength _ \<Rightarrow> False)"

fun output_slots :: "nat \<Rightarrow> k_agg_spec list \<Rightarrow> nat list list" where
  "output_slots slot [] = []"
| "output_slots slot (s # ss) =
     (if is_mean s then [slot, slot + 1] # output_slots (slot + 2) ss else [slot] # output_slots (slot + 1) ss)"

definition acc_name :: "nat \<Rightarrow> nat \<Rightarrow> string" where
  "acc_name a j = ''acc_'' @ show_nat a @ ''_'' @ show_nat j"

definition emit_agg_row_update :: "(u64 \<Rightarrow> string) \<Rightarrow> k_agg_spec \<Rightarrow> nat \<Rightarrow> string list \<Rightarrow> k_metal_dtype list \<Rightarrow> string" where
  "emit_agg_row_update debug spec a order dtypes =
     (case spec of
        KSimple input_col op _ \<Rightarrow>
          (case find_position order input_col of
             None \<Rightarrow> []
           | Some col \<Rightarrow>
               (let dt = dtypes ! col; c = show_nat col;
                  cast = (if dt \<in> {KtF32, KtF64} then ''(float)'' else if dt \<in> {KtI32, KtI16, KtI8, KtI64} then ''(int)'' else ''(uint)'')
                in case op of
                    KCount \<Rightarrow> ln [''    if (val_'', c, ''_valid) '', acc_name a 0, ''[g] += 1u;'']
                  | KLen \<Rightarrow> ln [''    '', acc_name a 0, ''[g] += 1u;'']
                  | KSum \<Rightarrow> ln [''    if (val_'', c, ''_valid) '', acc_name a 0, ''[g] += '', cast, ''val_'', c, '';'']
                  | KMin \<Rightarrow> ln [''    if (val_'', c, ''_valid) '', acc_name a 0, ''[g] = min('', acc_name a 0, ''[g], '', cast, ''val_'', c, '');'']
                  | KMax \<Rightarrow> ln [''    if (val_'', c, ''_valid) '', acc_name a 0, ''[g] = max('', acc_name a 0, ''[g], '', cast, ''val_'', c, '');'']
                  | KMean \<Rightarrow> ln [''    if (val_'', c, ''_valid) {''] @ ln [''      '', acc_name a 0, ''[g] += '', cast, ''val_'', c, '';''] @
                      ln [''      '', acc_name a 1, ''[g] += 1u;''] @ ln [''    }'']))
      | KExpression e op _ \<Rightarrow>
          (let guard = emit_expr_validity_check e order; val = emit_expr_msl debug e order in
           case op of
             KCount \<Rightarrow> ln [''    if ('', guard, '') '', acc_name a 0, ''[g] += 1u;'']
           | KLen \<Rightarrow> ln [''    '', acc_name a 0, ''[g] += 1u;'']
           | KSum \<Rightarrow> ln [''    if ('', guard, '') { float ex = (float)('', val, ''); '', acc_name a 0, ''[g] += ex; }'']
           | KMin \<Rightarrow> ln [''    if ('', guard, '') { float ex = (float)('', val, ''); '', acc_name a 0, ''[g] = min('', acc_name a 0, ''[g], ex); }'']
           | KMax \<Rightarrow> ln [''    if ('', guard, '') { float ex = (float)('', val, ''); '', acc_name a 0, ''[g] = max('', acc_name a 0, ''[g], ex); }'']
           | KMean \<Rightarrow> ln [''    if ('', guard, '') { float ex = (float)('', val, ''); '', acc_name a 0, ''[g] += ex; '', acc_name a 1, ''[g] += 1u; }''])
      | KLength _ \<Rightarrow> [])"

definition emit_cas :: "string \<Rightarrow> string \<Rightarrow> string \<Rightarrow> string \<Rightarrow> string" where
  "emit_cas aj guard stop next_bits =
     ln [''      if ('', guard, '') {''] @
     ln [''        uint old_bits = atomic_load_explicit(&out_'', aj, ''[gi], memory_order_relaxed);''] @
     ln [''        while (true) {''] @
     ln [''          float cur = as_type<float>(old_bits);''] @
     stop @
     ln [''          uint next_bits = as_type<uint>('', next_bits, '');''] @
     ln [''          if (atomic_compare_exchange_weak_explicit(&out_'', aj,
         ''[gi], &old_bits, next_bits, memory_order_relaxed, memory_order_relaxed)) break;''] @
     ln [''        }''] @
     ln [''      }'']"

definition emit_fetch :: "string \<Rightarrow> string \<Rightarrow> string \<Rightarrow> string" where
  "emit_fetch aj guard op =
     ln [''      if ('', guard, '') {''] @
     ln [''        atomic_fetch_'', op, ''_explicit(&out_'', aj, ''[gi], total_'', aj, '', memory_order_relaxed);''] @
     ln [''      }'']"

definition emit_final_flush :: "nat \<Rightarrow> nat \<Rightarrow> reduce_kind \<Rightarrow> string" where
  "emit_final_flush a j kind =
     (let aj = show_nat a @ ''_'' @ show_nat j; tot = ''total_'' @ aj; part = ''tg_part_'' @ aj @ ''[s * MAX_GROUPS + gi]'' in
      ln [''      '', cpp_scalar kind, '' total_'', aj, '' = '', reduce_identity kind, '';''] @
      ln [''      for (uint s = 0u; s < n_simdgroups; ++s) {''] @
      (if kind \<in> {F32Sum, I32Sum, U32Sum, Counter} then ln [''        '', tot, '' += '', part, '';'']
       else if kind \<in> {F32Min, I32Min, U32Min} then ln [''        '', tot, '' = min('', tot, '', '', part, '');'']
       else ln [''        '', tot, '' = max('', tot, '', '', part, '');'']) @
      ln [''      }''] @
      (case kind of
         F32Sum \<Rightarrow> emit_cas aj (tot @ '' != 0.0f'') [] (''cur + '' @ tot)
       | F32Min \<Rightarrow> emit_cas aj (''!(isinf('' @ tot @ '') && '' @ tot @ '' > 0.0f)'') (ln [''          if (!('', tot, '' < cur)) break;'']) tot
       | F32Max \<Rightarrow> emit_cas aj (''!(isinf('' @ tot @ '') && '' @ tot @ '' < 0.0f)'') (ln [''          if (!('', tot, '' > cur)) break;'']) tot
       | I32Sum \<Rightarrow> emit_fetch aj (tot @ '' != 0'') ''add''
       | U32Sum \<Rightarrow> emit_fetch aj (tot @ '' != 0'') ''add''
       | Counter \<Rightarrow> emit_fetch aj (tot @ '' != 0'') ''add''
       | I32Min \<Rightarrow> emit_fetch aj (tot @ '' != INT_MAX'') ''min''
       | I32Max \<Rightarrow> emit_fetch aj (tot @ '' != INT_MIN'') ''max''
       | U32Min \<Rightarrow> emit_fetch aj (tot @ '' != UINT_MAX'') ''min''
       | U32Max \<Rightarrow> emit_fetch aj (tot @ '' != 0u'') ''max''))"

text \<open>One text per reduction slot \<open>(a, j)\<close>, in order.\<close>

definition per_slot :: "(nat \<Rightarrow> nat \<Rightarrow> reduce_kind \<Rightarrow> string) \<Rightarrow> reduce_kind list list \<Rightarrow> string" where
  "per_slot f slots = concat (map (\<lambda>(a, ks). concat (map (\<lambda>(j, k). f a j k) (enumerate 0 ks))) (enumerate 0 slots))"

definition emit_header :: string where
  "emit_header =
     ln [''#include <metal_stdlib>''] @ ln [''#include <metal_atomic>''] @ ln [''#include <metal_simdgroup>''] @
     ln [''using namespace metal;''] @ newline @
     ln [''#define MAX_GROUPS '', show_nat emit_max_groups, ''u''] @ ln [''#define MAX_SIMDS_PER_TG 8u''] @ newline"

definition emit_signature :: "nat \<Rightarrow> k_metal_dtype list \<Rightarrow> k_agg_spec list \<Rightarrow> reduce_kind list list \<Rightarrow> string" where
  "emit_signature n_cols dtypes specs slots =
     ln [''kernel void aggregate_fused(''] @
     ln [''  device const uint*  row_to_group '', buffer_attr 0, '',''] @
     ln [''  device const uint*  n_rows       '', buffer_attr 1, '',''] @
     ln [''  device const uint*  n_groups     '', buffer_attr 2, '',''] @
     concat (map (\<lambda>i. ln [''  device const '', msl_value_load_type (dtypes ! i), ''*  value_'', show_nat i, ''    '', buffer_attr (3 + i), '','']) [0..<n_cols]) @
     concat (map (\<lambda>i. ln [''  device const uchar* validity_'', show_nat i, '' '', buffer_attr (3 + n_cols + i), '','']) [0..<n_cols]) @
     concat (map (\<lambda>(a, outs). concat (map (\<lambda>(j, sl).
         ln [''  device '', atomic_ptr (slots ! a ! j), ''*  out_'', show_nat a, ''_'', show_nat j, ''     '', buffer_attr sl, '','']) (enumerate 0 outs)))
       (enumerate 0 (output_slots (3 + 2 * n_cols) specs))) @
     ln [''  uint gid              '', attr ''thread_position_in_grid'', '',''] @
     ln [''  uint grid_size        '', attr ''threads_per_grid'', '',''] @
     ln [''  uint tid_in_tg        '', attr ''thread_index_in_threadgroup'', '',''] @
     ln [''  uint sg_index         '', attr ''simdgroup_index_in_threadgroup'', '',''] @
     ln [''  uint lane             '', attr ''thread_index_in_simdgroup'', '',''] @
     ln [''  uint n_simdgroups     '', attr ''simdgroups_per_threadgroup'', '')''] @ ln [''{'']"

definition emit_msl :: "(u64 \<Rightarrow> string) \<Rightarrow> agg_signature \<Rightarrow> k_agg_spec list \<Rightarrow> string" where
  "emit_msl debug sig specs =
     (let dtypes = column_dtypes sig; order = column_order sig; n_cols = length dtypes; slots = build_agg_slots specs dtypes sig in
      emit_header @
      emit_signature n_cols dtypes specs slots @
      ln [''  uint nr = n_rows[0];''] @ ln [''  uint ng = n_groups[0];''] @ newline @
      per_slot (\<lambda>a j k. ln [''  '', cpp_scalar k, '' '', acc_name a j, ''[MAX_GROUPS];''] @
        ln [''  for (uint i = 0u; i < MAX_GROUPS; ++i) { '', acc_name a j, ''[i] = '', reduce_identity k, ''; }'']) slots @
      newline @
      ln [''  for (uint row = gid; row < nr; row += grid_size) {''] @
      ln [''    uint g = row_to_group[row];''] @ ln [''    if (g >= ng) continue;''] @ newline @
      concat (map (\<lambda>i. ln [''    uchar val_'', show_nat i, ''_valid = (validity_'', show_nat i, ''[row >> 3] >> (row & 7)) & 1u;''] @
        ln [''    auto val_'', show_nat i, '' = value_'', show_nat i, ''[row];'']) [0..<length order]) @
      newline @
      concat (map (\<lambda>(a, spec). emit_agg_row_update debug spec a order dtypes) (enumerate 0 specs)) @
      concat (map (\<lambda>(a, spec). case spec of KLength _ \<Rightarrow> ln [''    '', acc_name a 0, ''[g] += 1u;''] | _ \<Rightarrow> []) (enumerate 0 specs)) @
      ln [''  }''] @ newline @ newline @
      per_slot (\<lambda>a j k. ln [''  threadgroup '', cpp_scalar k, '' tg_part_'', show_nat a, ''_'', show_nat j, ''[MAX_SIMDS_PER_TG * MAX_GROUPS];'']) slots @
      newline @
      ln [''  for (uint gi = 0u; gi < MAX_GROUPS; ++gi) {''] @ ln [''    if (gi >= ng) break;''] @
      per_slot (\<lambda>a j k. ln [''    '', cpp_scalar k, '' sgv_'', show_nat a, ''_'', show_nat j, '' = '', simd_reduce_call k (acc_name a j @ ''[gi]''), '';''] @
        ln [''    if (lane == 0u) tg_part_'', show_nat a, ''_'', show_nat j, ''[sg_index * MAX_GROUPS + gi] = sgv_'', show_nat a, ''_'', show_nat j, '';'']) slots @
      ln [''  }''] @ ln [''  threadgroup_barrier(mem_flags::mem_threadgroup);''] @ newline @
      ln [''  if (tid_in_tg == 0u) {''] @ ln [''    for (uint gi = 0u; gi < MAX_GROUPS; ++gi) {''] @ ln [''      if (gi >= ng) break;''] @
      per_slot emit_final_flush slots @
      ln [''    }''] @ ln [''  }''] @ ln [''}''])"

section \<open>The source depends on the signature only\<close>

lemma find_position_Some: "find_position xs x = Some i \<Longrightarrow> i < length xs \<and> xs ! i = x"
  by (induction xs arbitrary: i) (auto split: if_splits)

lemma find_position_None: "find_position xs x = None \<longleftrightarrow> x \<notin> set xs"
  by (induction xs) auto

lemma find_position_nth:
  assumes "distinct xs" "i < length xs"
  shows "find_position xs (xs ! i) = Some i"
proof -
  obtain j where "find_position xs (xs ! i) = Some j" using assms(2) find_position_None[of xs "xs ! i"] by fastforce
  with find_position_Some[OF this] assms show ?thesis by (metis nth_eq_iff_index_eq)
qed

lemma column_index_nth: "distinct xs \<Longrightarrow> i < length xs \<Longrightarrow> column_index xs (xs ! i) = i"
  by (simp add: column_index_def find_position_nth)

fun expr_slots :: "canonical_expr \<Rightarrow> nat list" where
  "expr_slots (CColumn s) = [unat s]"
| "expr_slots (CBinary op l r) = expr_slots l @ expr_slots r"
| "expr_slots e = []"

lemma first_seen_from_map:
  assumes "inj_on f (set order \<union> set ks)"
  shows "first_seen_from (map f order) (map f ks) = map f (first_seen_from order ks)"
  using assms
proof (induction ks arbitrary: order)
  case (Cons k ks)
  have "f k \<in> f ` set order \<longleftrightarrow> k \<in> set order"
    using Cons.prems by (auto simp: inj_on_def)
  then have "push_new (map f order) (f k) = map f (push_new order k)" by (simp add: push_new_def)
  moreover have "inj_on f (set (push_new order k) \<union> set ks)"
    using Cons.prems by (rule inj_on_subset) auto
  ultimately show ?case using Cons.IH by simp
qed simp

lemma k_leaves_names: "k_leaves (expr_names order e) = map ((!) order) (expr_slots e)"
  by (induction e) simp_all

lemma expr_slots_below: "expr_slots_below n e \<Longrightarrow> set (expr_slots e) \<subseteq> {..<n}"
  by (induction e) auto

lemma referenced_slots:
  assumes "distinct order" and "expr_slots_below (length order) e"
  shows "k_referenced_columns (expr_names order e) = map ((!) order) (first_seen (expr_slots e))"
    and "map (column_index order) (k_referenced_columns (expr_names order e)) = first_seen (expr_slots e)"
proof -
  have "inj_on ((!) order) (set [] \<union> set (expr_slots e))"
    using expr_slots_below[OF assms(2)] by (intro inj_on_subset[OF inj_on_nth[OF assms(1)]]) auto
  from first_seen_from_map[OF this]
  show eq: "k_referenced_columns (expr_names order e) = map ((!) order) (first_seen (expr_slots e))"
    by (simp add: k_referenced_eq k_leaves_names first_seen_def)
  show "map (column_index order) (k_referenced_columns (expr_names order e)) = first_seen (expr_slots e)"
    unfolding eq using expr_slots_below[OF assms(2)] by (auto simp: o_def column_index_nth[OF assms(1)] intro!: map_idI)
qed

lemma emit_expr_names:
  assumes "distinct order" "distinct order'" "length order = length order'" "expr_slots_below (length order) e"
  shows "emit_expr_msl debug (expr_names order e) order = emit_expr_msl debug (expr_names order' e) order'"
  using assms(4)
proof (induction e)
  case (CColumn s)
  then show ?case using assms by (simp add: column_index_nth)
qed simp_all

lemma emit_validity_names:
  assumes "distinct order" "distinct order'" "length order = length order'" "expr_slots_below (length order) e"
  shows "emit_expr_validity_check (expr_names order e) order = emit_expr_validity_check (expr_names order' e) order'"
proof -
  have printed: "emit_expr_validity_check (expr_names xs e) xs =
      (if first_seen (expr_slots e) = [] then ''1u''
       else join '' & '' (map (\<lambda>i. ''val_'' @ show_nat i @ ''_valid'') (first_seen (expr_slots e))))"
    if "distinct xs" "expr_slots_below (length xs) e" for xs
  proof -
    have "emit_expr_validity_check (expr_names xs e) xs =
        (let js = map (column_index xs) (k_referenced_columns (expr_names xs e)) in
         if js = [] then ''1u'' else join '' & '' (map (\<lambda>i. ''val_'' @ show_nat i @ ''_valid'') js))"
      by (simp add: emit_expr_validity_check_def Let_def o_def)
    then show ?thesis unfolding referenced_slots(2)[OF that] Let_def .
  qed
  show ?thesis using printed[of order] printed[of order'] assms by simp
qed

text \<open>Two specifications that one canonical aggregate describes are printed alike.\<close>

definition same_shape :: "string list \<Rightarrow> string list \<Rightarrow> k_metal_dtype list \<Rightarrow> k_agg_spec \<Rightarrow> k_agg_spec \<Rightarrow> bool" where
  "same_shape order order' dtypes a b \<longleftrightarrow> (\<exists>c. describes order dtypes c a \<and> describes order' dtypes c b)"

lemma describes_iff:
  "describes order dtypes (CSimple s op dt) a \<longleftrightarrow>
     (\<exists>al. a = KSimple (order ! unat s) op al) \<and> unat s < length order \<and> dtypes ! unat s = dt"
  "describes order dtypes (CExpression e op dt) a \<longleftrightarrow>
     (\<exists>al. a = KExpression (expr_names order e) op al) \<and> expr_slots_below (length order) e"
  "describes order dtypes CLength a \<longleftrightarrow> (\<exists>al. a = KLength al)"
  by (cases a; auto)+

lemma same_shape_cases:
  assumes "same_shape order order' dtypes a b"
  obtains (simple) i op n n' al al' where "a = KSimple n op al" "b = KSimple n' op al'"
      "i < length order" "i < length order'" "order ! i = n" "order' ! i = n'"
    | (expression) e op al al' where "a = KExpression (expr_names order e) op al" "b = KExpression (expr_names order' e) op al'"
      "expr_slots_below (length order) e" "expr_slots_below (length order') e"
    | (len) al al' where "a = KLength al" "b = KLength al'"
proof -
  obtain c where c: "describes order dtypes c a" "describes order' dtypes c b" using assms by (auto simp: same_shape_def)
  show ?thesis
  proof (cases c)
    case (CSimple s op dt)
    with c obtain al al' where "a = KSimple (order ! unat s) op al" "b = KSimple (order' ! unat s) op al'"
      "unat s < length order" "unat s < length order'" by (auto simp: describes_iff)
    then show ?thesis by (rule simple) simp_all
  next
    case (CExpression e op dt)
    with c obtain al al' where "a = KExpression (expr_names order e) op al" "b = KExpression (expr_names order' e) op al'"
      "expr_slots_below (length order) e" "expr_slots_below (length order') e" by (auto simp: describes_iff)
    then show ?thesis by (rule expression)
  next
    case CLength
    with c obtain al al' where "a = KLength al" "b = KLength al'" by (auto simp: describes_iff)
    then show ?thesis by (rule len)
  qed
qed

lemma same_shape_printed:
  assumes "same_shape order order' dtypes a b" and "distinct order" "distinct order'" "length order = length order'"
    and "column_order sig = order" "column_order sig' = order'"
  shows "is_mean a = is_mean b \<and> spec_slots sig dtypes a = spec_slots sig' dtypes b \<and>
    emit_agg_row_update debug a k order dtypes = emit_agg_row_update debug b k order' dtypes \<and>
    ((\<exists>al. a = KLength al) \<longleftrightarrow> (\<exists>al. b = KLength al))"
proof (cases rule: same_shape_cases[OF assms(1), case_names simple expression len])
  case (simple i op n n' al al')
  then have pos: "find_position order n = Some i" "find_position order' n' = Some i"
    using find_position_nth assms(2,3) by metis+
  show ?thesis
    using simple assms(5,6) by (simp add: is_mean_def spec_slots_def column_dtype_for_def emit_agg_row_update_def pos)
next
  case (expression e op al al')
  note texts = emit_expr_names[OF assms(2-4) expression(3), of debug] emit_validity_names[OF assms(2-4) expression(3)]
  show ?thesis
    using expression by (simp add: is_mean_def spec_slots_def emit_agg_row_update_def texts)
next
  case (len al al')
  then show ?thesis by (simp add: is_mean_def spec_slots_def emit_agg_row_update_def)
qed

lemmas same_shape_emit = same_shape_printed[THEN conjunct1] same_shape_printed[THEN conjunct2, THEN conjunct1]
  same_shape_printed[THEN conjunct2, THEN conjunct2, THEN conjunct1] same_shape_printed[THEN conjunct2, THEN conjunct2, THEN conjunct2]

lemma map_enumerate_all2:
  assumes "list_all2 R xs ys" and "\<And>i a b. R a b \<Longrightarrow> f i a = g i b"
  shows "map (\<lambda>(i, a). f i a) (enumerate k xs) = map (\<lambda>(i, b). g i b) (enumerate k ys)"
  using assms(1) by (induction arbitrary: k rule: list_all2_induct) (simp_all add: assms(2))

lemma output_slots_all2:
  assumes "list_all2 R xs ys" and "\<And>a b. R a b \<Longrightarrow> is_mean a = is_mean b"
  shows "output_slots k xs = output_slots k ys"
  using assms(1) by (induction arbitrary: k rule: list_all2_induct) (simp_all add: assms(2))

lemma emit_msl_shape:
  assumes shape: "list_all2 (same_shape (column_order sig) (column_order sig') (column_dtypes sig)) specs specs'"
    and d: "distinct (column_order sig)" "distinct (column_order sig')" "length (column_order sig) = length (column_order sig')"
    and dt: "column_dtypes sig = column_dtypes sig'"
  shows "emit_msl debug sig specs = emit_msl debug sig' specs'"
proof -
  note one = same_shape_emit[OF _ d refl refl]
  have slots: "build_agg_slots specs (column_dtypes sig) sig = build_agg_slots specs' (column_dtypes sig) sig'"
    using shape one(2) unfolding build_agg_slots_def by (induction rule: list_all2_induct) simp_all
  have outs: "output_slots k specs = output_slots k specs'" for k
    by (rule output_slots_all2[OF shape]) (rule one(1))
  have rows: "map (\<lambda>(a, spec). emit_agg_row_update debug spec a (column_order sig) (column_dtypes sig)) (enumerate 0 specs) =
      map (\<lambda>(a, spec). emit_agg_row_update debug spec a (column_order sig') (column_dtypes sig)) (enumerate 0 specs')"
    by (rule map_enumerate_all2[OF shape]) (rule one(3))
  have lens: "map (\<lambda>(a, spec). case spec of KLength _ \<Rightarrow> ln [''    '', acc_name a 0, ''[g] += 1u;''] | _ \<Rightarrow> []) (enumerate 0 specs) =
      map (\<lambda>(a, spec). case spec of KLength _ \<Rightarrow> ln [''    '', acc_name a 0, ''[g] += 1u;''] | _ \<Rightarrow> []) (enumerate 0 specs')"
    by (rule map_enumerate_all2[OF shape]) (auto dest!: one(4) split: k_agg_spec.split)
  show ?thesis
    unfolding emit_msl_def Let_def emit_signature_def dt[symmetric] slots outs rows lens d(3) ..
qed

lemma emit_msl_signature:
  assumes "from_specs specs dts = Inr sig" and "from_specs specs' dts' = Inr sig'" and "sig_eq sig sig'"
    and "length (column_order sig) \<le> 2 ^ 16"
  shows "emit_msl debug sig specs = emit_msl debug sig' specs'"
proof -
  note slots = from_specs_slots[OF assms(1)] from_specs_slots[OF assms(2)]
  have eq: "column_dtypes sig = column_dtypes sig'" "sig_aggs sig = sig_aggs sig'"
    using assms(3) by (simp_all add: sig_eq_def sig_canonical_def)
  have d: "distinct (column_order sig)" "distinct (column_order sig')" using slots by simp_all
  have len: "length (column_order sig) = length (column_order sig')" using slots eq(1) by (metis length_map)
  have "list_all2 (describes (column_order sig) (column_dtypes sig)) (sig_aggs sig) specs"
    using slots(1) assms(4) by blast
  moreover have "list_all2 (describes (column_order sig') (column_dtypes sig)) (sig_aggs sig) specs'"
    using slots(2) assms(4) unfolding eq len by blast
  ultimately have "list_all2 (same_shape (column_order sig) (column_order sig') (column_dtypes sig)) specs specs'"
    unfolding list_all2_conv_all_nth same_shape_def by metis
  from emit_msl_shape[OF this d len eq(1)] show ?thesis .
qed

end
