(* ===== verification/Fused_Cache.thy ===== *)
theory Fused_Cache
  imports Emitter
begin

text \<open>Models \<open>FusedLibraryCache\<close> of \<open>polars-metal-kernels/src/aggregate_fused/cache.rs\<close>: a mutex-guarded
  map from signature hashes to compiled pipelines. \<open>get_or_compile\<close> holds the lock for its lookup and
  again for its insertion, and compiles in between without it, so several threads interleave. A
  pipeline is an object: its identity and the source it was compiled from. The Metal compiler and the
  hasher are parameters.\<close>

section \<open>One thread\<close>

datatype fused_cache_error = CompileFailed string string | EntryPointMissing | PipelineStateFailed string

record pipeline =
  pso_id :: nat
  pso_source :: string

type_synonym compiler = "string \<Rightarrow> fused_cache_error option"

type_synonym sig_hash = "k_metal_dtype list \<times> canonical_agg list \<Rightarrow> u64"

type_synonym fused_request = "agg_signature \<times> k_agg_spec list"

record fused_cache =
  by_hash :: "u64 \<rightharpoonup> pipeline"
  next_pso :: nat

definition new_cache :: fused_cache where
  "new_cache = \<lparr>by_hash = Map.empty, next_pso = 0\<rparr>"

definition hash64 :: "sig_hash \<Rightarrow> agg_signature \<Rightarrow> u64" where
  "hash64 hash sig = hash (sig_canonical sig)"

definition compile_pipeline :: "compiler \<Rightarrow> fused_cache \<Rightarrow> string \<Rightarrow> fused_cache \<times> (fused_cache_error + pipeline)" where
  "compile_pipeline metalc c src =
     (case metalc src of
        Some e \<Rightarrow> (c, Inl e)
      | None \<Rightarrow> (c\<lparr>next_pso := Suc (next_pso c)\<rparr>, Inr \<lparr>pso_id = next_pso c, pso_source = src\<rparr>))"

text \<open>\<open>entry(key).or_insert\<close>: what is there stays.\<close>

definition publish :: "fused_cache \<Rightarrow> u64 \<Rightarrow> pipeline \<Rightarrow> fused_cache \<times> pipeline" where
  "publish c key pso =
     (case by_hash c key of Some q \<Rightarrow> (c, q) | None \<Rightarrow> (c\<lparr>by_hash := (by_hash c)(key \<mapsto> pso)\<rparr>, pso))"

definition get_or_compile :: "compiler \<Rightarrow> sig_hash \<Rightarrow> (u64 \<Rightarrow> string) \<Rightarrow> fused_cache \<Rightarrow> fused_request \<Rightarrow> fused_cache \<times> (fused_cache_error + pipeline)" where
  "get_or_compile metalc hash debug c r =
     (let key = hash64 hash (fst r) in
      case by_hash c key of
        Some pso \<Rightarrow> (c, Inr pso)
      | None \<Rightarrow>
          (case compile_pipeline metalc c (emit_msl debug (fst r) (snd r)) of
             (c', Inl e) \<Rightarrow> (c', Inl e)
           | (c', Inr pso) \<Rightarrow> (let (c'', q) = publish c' key pso in (c'', Inr q))))"

definition warmup :: "compiler \<Rightarrow> sig_hash \<Rightarrow> (u64 \<Rightarrow> string) \<Rightarrow> fused_cache \<Rightarrow> fused_request list \<Rightarrow> fused_cache" where
  "warmup metalc hash debug c rs = foldl (\<lambda>c r. fst (get_or_compile metalc hash debug c r)) c rs"

section \<open>Many threads\<close>

datatype cache_pc = Asked | Missed | Built pipeline | Got "fused_cache_error + pipeline"

record cache_run =
  shared :: fused_cache
  thread_pc :: "nat \<Rightarrow> cache_pc"

definition cache_init :: "fused_cache \<Rightarrow> cache_run" where
  "cache_init c = \<lparr>shared = c, thread_pc = (\<lambda>_. Asked)\<rparr>"

inductive cache_step :: "compiler \<Rightarrow> sig_hash \<Rightarrow> (u64 \<Rightarrow> string) \<Rightarrow> (nat \<Rightarrow> fused_request) \<Rightarrow> cache_run \<Rightarrow> cache_run \<Rightarrow> bool"
  for metalc hash debug req where
  hit: "thread_pc s t = Asked \<Longrightarrow> by_hash (shared s) (hash64 hash (fst (req t))) = Some pso \<Longrightarrow>
    cache_step metalc hash debug req s (s\<lparr>thread_pc := (thread_pc s)(t := Got (Inr pso))\<rparr>)"
| miss: "thread_pc s t = Asked \<Longrightarrow> by_hash (shared s) (hash64 hash (fst (req t))) = None \<Longrightarrow>
    cache_step metalc hash debug req s (s\<lparr>thread_pc := (thread_pc s)(t := Missed)\<rparr>)"
| compiled: "thread_pc s t = Missed \<Longrightarrow>
    compile_pipeline metalc (shared s) (emit_msl debug (fst (req t)) (snd (req t))) = (c, Inr pso) \<Longrightarrow>
    cache_step metalc hash debug req s \<lparr>shared = c, thread_pc = (thread_pc s)(t := Built pso)\<rparr>"
| failed: "thread_pc s t = Missed \<Longrightarrow>
    compile_pipeline metalc (shared s) (emit_msl debug (fst (req t)) (snd (req t))) = (c, Inl e) \<Longrightarrow>
    cache_step metalc hash debug req s \<lparr>shared = c, thread_pc = (thread_pc s)(t := Got (Inl e))\<rparr>"
| published: "thread_pc s t = Built pso \<Longrightarrow> publish (shared s) (hash64 hash (fst (req t))) pso = (c, q) \<Longrightarrow>
    cache_step metalc hash debug req s \<lparr>shared = c, thread_pc = (thread_pc s)(t := Got (Inr q))\<rparr>"

inductive_cases cache_stepE: "cache_step metalc hash debug req s s'"

definition cache_reachable :: "compiler \<Rightarrow> sig_hash \<Rightarrow> (u64 \<Rightarrow> string) \<Rightarrow> (nat \<Rightarrow> fused_request) \<Rightarrow> cache_run \<Rightarrow> bool" where
  "cache_reachable metalc hash debug req s \<longleftrightarrow> (cache_step metalc hash debug req)\<^sup>*\<^sup>* (cache_init new_cache) s"

section \<open>The invariant\<close>

definition req_source :: "(u64 \<Rightarrow> string) \<Rightarrow> (nat \<Rightarrow> fused_request) \<Rightarrow> nat \<Rightarrow> string" where
  "req_source debug req t = emit_msl debug (fst (req t)) (snd (req t))"

text \<open>The requests come from \<open>from_specs\<close>, and the hash tells their signatures apart.\<close>

definition requests_ok :: "sig_hash \<Rightarrow> (nat \<Rightarrow> fused_request) \<Rightarrow> bool" where
  "requests_ok hash req \<longleftrightarrow>
     (\<forall>t. (\<exists>dts. from_specs (snd (req t)) dts = Inr (fst (req t))) \<and> length (column_order (fst (req t))) \<le> 2 ^ 16) \<and>
     inj_on hash (range (\<lambda>t. sig_canonical (fst (req t))))"

lemma same_key_source:
  assumes "requests_ok hash req" and "hash64 hash (fst (req t)) = hash64 hash (fst (req t'))"
  shows "req_source debug req t = req_source debug req t'"
proof -
  have "sig_eq (fst (req t)) (fst (req t'))"
  proof -
    have "inj_on hash (range (\<lambda>t. sig_canonical (fst (req t))))" using assms(1) by (simp add: requests_ok_def)
    from inj_onD[OF this assms(2)[unfolded hash64_def] rangeI rangeI] show ?thesis by (simp add: sig_eq_def)
  qed
  moreover obtain dts dts' where "from_specs (snd (req t)) dts = Inr (fst (req t))" "from_specs (snd (req t')) dts' = Inr (fst (req t'))"
    using assms(1) by (metis requests_ok_def)
  ultimately show ?thesis
    using emit_msl_signature assms(1) unfolding requests_ok_def req_source_def by blast
qed

text \<open>A published pipeline was compiled for its key's signature and is what every thread that asked for
  that key got; a pipeline in a thread's hands was compiled from that thread's source.\<close>

definition cache_inv :: "sig_hash \<Rightarrow> (u64 \<Rightarrow> string) \<Rightarrow> (nat \<Rightarrow> fused_request) \<Rightarrow> cache_run \<Rightarrow> bool" where
  "cache_inv hash debug req s \<longleftrightarrow>
     (\<forall>t p. by_hash (shared s) (hash64 hash (fst (req t))) = Some p \<longrightarrow> pso_source p = req_source debug req t) \<and>
     (\<forall>t p. thread_pc s t = Built p \<longrightarrow> pso_source p = req_source debug req t) \<and>
     (\<forall>t p. thread_pc s t = Got (Inr p) \<longrightarrow> by_hash (shared s) (hash64 hash (fst (req t))) = Some p)"

lemma cache_inv_step:
  assumes ok: "requests_ok hash req" and "cache_step metalc hash debug req s s'" and inv: "cache_inv hash debug req s"
  shows "cache_inv hash debug req s'"
  using assms(2)
proof cases
  case (hit t pso)
  with inv show ?thesis by (auto simp: cache_inv_def)
next
  case (miss t)
  with inv show ?thesis by (auto simp: cache_inv_def)
next
  case (compiled t c pso)
  then have "by_hash c = by_hash (shared s)" "pso_source pso = req_source debug req t"
    by (auto simp: compile_pipeline_def req_source_def split: option.splits)
  with compiled inv show ?thesis by (auto simp: cache_inv_def)
next
  case (failed t c e)
  then have "by_hash c = by_hash (shared s)" by (auto simp: compile_pipeline_def split: option.splits)
  with failed inv show ?thesis by (auto simp: cache_inv_def)
next
  case (published t pso c q)
  have built: "pso_source pso = req_source debug req t" using published(2) inv by (simp add: cache_inv_def)
  show ?thesis
  proof (cases "by_hash (shared s) (hash64 hash (fst (req t)))")
    case None
    with published have c: "c = (shared s)\<lparr>by_hash := (by_hash (shared s))(hash64 hash (fst (req t)) \<mapsto> pso)\<rparr>" "q = pso"
      by (auto simp: publish_def)
    have src: "hash64 hash (fst (req t')) = hash64 hash (fst (req t)) \<longrightarrow> pso_source pso = req_source debug req t'" for t'
      using same_key_source[OF ok, where t = t' and t' = t and debug = debug] built by simp
    have fresh: "thread_pc s t' = Got (Inr p) \<longrightarrow> hash64 hash (fst (req t')) \<noteq> hash64 hash (fst (req t))" for t' p
      using inv None unfolding cache_inv_def by (metis option.distinct(1))
    have "\<forall>t' p. by_hash c (hash64 hash (fst (req t'))) = Some p \<longrightarrow> pso_source p = req_source debug req t'"
    proof (intro allI impI)
      fix t' p assume "by_hash c (hash64 hash (fst (req t'))) = Some p"
      with inv src[of t'] show "pso_source p = req_source debug req t'"
        by (cases "hash64 hash (fst (req t')) = hash64 hash (fst (req t))") (simp_all add: cache_inv_def c)
    qed
    moreover have "\<forall>t' p. thread_pc s' t' = Built p \<longrightarrow> pso_source p = req_source debug req t'"
      using inv unfolding cache_inv_def published(1) by simp
    moreover have "\<forall>t' p. thread_pc s' t' = Got (Inr p) \<longrightarrow> by_hash c (hash64 hash (fst (req t'))) = Some p"
      using inv fresh unfolding cache_inv_def published(1) c by auto
    ultimately show ?thesis using published(1) by (simp add: cache_inv_def)
  next
    case (Some p)
    with published have "c = shared s" "q = p" by (simp_all add: publish_def)
    with published(1) Some inv show ?thesis by (auto simp: cache_inv_def)
  qed
qed

lemma cache_reachable_inv:
  assumes "requests_ok hash req" and "cache_reachable metalc hash debug req s"
  shows "cache_inv hash debug req s"
  using assms(2) unfolding cache_reachable_def
proof (induction rule: rtranclp_induct)
  case base
  show ?case by (simp add: cache_inv_def cache_init_def new_cache_def)
next
  case (step s s')
  from cache_inv_step[OF assms(1) step(2,3)] show ?case .
qed

section \<open>Properties\<close>

text \<open>The source a fused query is compiled from depends on its signature only: queries that differ in
  the names of their columns and in their aliases print the same kernel, text for text, so a cached
  pipeline serves all of them.\<close>

theorem emit_msl_canonical:
  assumes "from_specs specs dts = Inr sig" and "from_specs specs' dts' = Inr sig'" and "sig_eq sig sig'"
    and "length (column_order sig) \<le> 2 ^ 16"
  shows "emit_msl debug sig specs = emit_msl debug sig' specs'"
  by (rule emit_msl_signature[OF assms])

lemma emit_msl_canonical_witness:
  "emit_msl (\<lambda>_. [])  \<lparr>column_order = [''v''], column_dtypes = [KtF32], sig_aggs = [CSimple 0 KSum KtF32]\<rparr> [KSimple ''v'' KSum ''x''] =
   emit_msl (\<lambda>_. []) \<lparr>column_order = [''w''], column_dtypes = [KtF32], sig_aggs = [CSimple 0 KSum KtF32]\<rparr> [KSimple ''w'' KSum ''y'']"
proof (rule emit_msl_canonical)
  show "from_specs [KSimple ''v'' KSum ''x''] [''v'' \<mapsto> KtF32] =
      Inr \<lparr>column_order = [''v''], column_dtypes = [KtF32], sig_aggs = [CSimple 0 KSum KtF32]\<rparr>"
    "from_specs [KSimple ''w'' KSum ''y''] [''w'' \<mapsto> KtF32] =
      Inr \<lparr>column_order = [''w''], column_dtypes = [KtF32], sig_aggs = [CSimple 0 KSum KtF32]\<rparr>"
    by code_simp+
qed (simp_all add: sig_eq_def sig_canonical_def)

text \<open>C9. Under any interleaving of the threads that use the cache, a pipeline a thread gets was compiled
  from the source of its own query, and threads whose queries have the same signature all get the
  same pipeline object, provided the hash tells the signatures in use apart.\<close>

theorem fused_cache_correct:
  assumes "requests_ok hash req" and "cache_reachable metalc hash debug req s" and "thread_pc s t = Got (Inr p)"
  shows "pso_source p = emit_msl debug (fst (req t)) (snd (req t)) \<and>
    (\<forall>t' q. sig_eq (fst (req t')) (fst (req t)) \<and> thread_pc s t' = Got (Inr q) \<longrightarrow> q = p)"
proof -
  have inv: "cache_inv hash debug req s" by (rule cache_reachable_inv[OF assms(1,2)])
  have "q = p" if "sig_eq (fst (req t')) (fst (req t))" "thread_pc s t' = Got (Inr q)" for t' q
    using inv that assms(3) unfolding cache_inv_def sig_eq_def hash64_def by (metis option.inject)
  then have same: "\<forall>t' q. sig_eq (fst (req t')) (fst (req t)) \<and> thread_pc s t' = Got (Inr q) \<longrightarrow> q = p" by blast
  have "pso_source p = req_source debug req t" using inv assms(3) unfolding cache_inv_def by blast
  with same show ?thesis unfolding req_source_def by blast
qed

definition demo_requests :: "nat \<Rightarrow> fused_request" where
  "demo_requests t =
     (let n = (if t = 0 then ''v'' else ''w'') in
        (\<lparr>column_order = [n], column_dtypes = [KtF32], sig_aggs = [CSimple 0 KSum KtF32]\<rparr>, [KSimple n KSum ''x'']))"

lemma demo_requests_ok: "requests_ok (\<lambda>_. 7) demo_requests"
proof -
  have "from_specs [KSimple n KSum ''x''] [n \<mapsto> KtF32] = Inr \<lparr>column_order = [n], column_dtypes = [KtF32], sig_aggs = [CSimple 0 KSum KtF32]\<rparr>" for n
    by (simp add: from_specs_def canon_spec_def lookup_dtype_def intern_slot_def empty_slots_def)
  then have "\<exists>dts. from_specs (snd (demo_requests t)) dts = Inr (fst (demo_requests t))" for t
    by (auto simp: demo_requests_def Let_def)
  then show ?thesis by (auto simp: requests_ok_def demo_requests_def Let_def sig_canonical_def inj_on_def)
qed

lemma six_steps: "r a b \<Longrightarrow> r b c \<Longrightarrow> r c d \<Longrightarrow> r d e \<Longrightarrow> r e f \<Longrightarrow> r f g \<Longrightarrow> r\<^sup>*\<^sup>* a g"
  by (meson r_into_rtranclp rtranclp.rtrancl_into_rtrancl)

lemma demo_race:
  obtains s p where "cache_reachable (\<lambda>_. None) (\<lambda>_. 7) (\<lambda>_. []) demo_requests s" "thread_pc s 0 = Got (Inr p)" "thread_pc s 1 = Got (Inr p)"
proof -
  let ?step = "cache_step (\<lambda>_. None) (\<lambda>_. 7) (\<lambda>_. []) demo_requests"
  note rules = cache_step.miss[where metalc = "\<lambda>_. None" and hash = "\<lambda>_. 7" and debug = "\<lambda>_. []" and req = demo_requests]
    cache_step.compiled[where metalc = "\<lambda>_. None" and hash = "\<lambda>_. 7" and debug = "\<lambda>_. []" and req = demo_requests]
    cache_step.published[where metalc = "\<lambda>_. None" and hash = "\<lambda>_. 7" and debug = "\<lambda>_. []" and req = demo_requests]
  let ?src = "\<lambda>t. emit_msl (\<lambda>_. []) (fst (demo_requests t)) (snd (demo_requests t))"
  let ?p = "\<lparr>pso_id = 0, pso_source = ?src 0\<rparr>" and ?q = "\<lparr>pso_id = 1, pso_source = ?src 1\<rparr>"
  let ?c = "\<lambda>m n. \<lparr>by_hash = m, next_pso = n\<rparr>"
  let ?pc = "\<lambda>x y. (\<lambda>_. Asked)(0 := x, Suc 0 := y)"
  let ?s = "\<lambda>c x y. \<lparr>shared = c, thread_pc = ?pc x y\<rparr>"
  have upd: "(?pc x y)(0 := z) = ?pc z y" "(?pc x y)(Suc 0 := z) = ?pc x z" for x y z :: cache_pc by (auto simp: fun_eq_iff)
  have start: "cache_init new_cache = ?s (?c Map.empty 0) Asked Asked" by (simp add: cache_init_def new_cache_def fun_eq_iff)
  have 1: "?step (?s (?c Map.empty 0) Asked Asked) (?s (?c Map.empty 0) Missed Asked)"
    using rules(1)[of "?s (?c Map.empty 0) Asked Asked" 0] by (simp only: upd cache_run.simps fused_cache.simps) simp
  have 2: "?step (?s (?c Map.empty 0) Missed Asked) (?s (?c Map.empty 0) Missed Missed)"
    using rules(1)[of "?s (?c Map.empty 0) Missed Asked" "Suc 0"] by (simp only: upd cache_run.simps fused_cache.simps) simp
  have 3: "?step (?s (?c Map.empty 0) Missed Missed) (?s (?c Map.empty 1) (Built ?p) Missed)"
    using rules(2)[of "?s (?c Map.empty 0) Missed Missed" 0 "?c Map.empty 1" ?p]
    by (simp only: upd cache_run.simps fused_cache.simps) (simp add: compile_pipeline_def)
  have 4: "?step (?s (?c Map.empty 1) (Built ?p) Missed) (?s (?c Map.empty 2) (Built ?p) (Built ?q))"
    using rules(2)[of "?s (?c Map.empty 1) (Built ?p) Missed" "Suc 0" "?c Map.empty 2" ?q]
    by (simp only: upd cache_run.simps fused_cache.simps) (simp add: compile_pipeline_def)
  have 5: "?step (?s (?c Map.empty 2) (Built ?p) (Built ?q)) (?s (?c [7 \<mapsto> ?q] 2) (Built ?p) (Got (Inr ?q)))"
    using rules(3)[of "?s (?c Map.empty 2) (Built ?p) (Built ?q)" "Suc 0" ?q "?c [7 \<mapsto> ?q] 2" ?q]
    by (simp only: upd cache_run.simps fused_cache.simps) (simp add: publish_def hash64_def)
  have 6: "?step (?s (?c [7 \<mapsto> ?q] 2) (Built ?p) (Got (Inr ?q))) (?s (?c [7 \<mapsto> ?q] 2) (Got (Inr ?q)) (Got (Inr ?q)))"
    using rules(3)[of "?s (?c [7 \<mapsto> ?q] 2) (Built ?p) (Got (Inr ?q))" 0 ?p "?c [7 \<mapsto> ?q] 2" ?q]
    by (simp only: upd cache_run.simps fused_cache.simps) (simp add: publish_def hash64_def)
  have "cache_reachable (\<lambda>_. None) (\<lambda>_. 7) (\<lambda>_. []) demo_requests (?s (?c [7 \<mapsto> ?q] 2) (Got (Inr ?q)) (Got (Inr ?q)))"
    unfolding cache_reachable_def start
    by (rule six_steps[where r = ?step, OF 1 2 3 4 5 6])
  from that[OF this, of ?q] show ?thesis by simp
qed

lemma fused_cache_correct_witness:
  "\<exists>s p. cache_reachable (\<lambda>_. None) (\<lambda>_. 7) (\<lambda>_. []) demo_requests s \<and> thread_pc s 0 = Got (Inr p) \<and> thread_pc s 1 = Got (Inr p) \<and>
     pso_source p = emit_msl (\<lambda>_. []) (fst (demo_requests 0)) (snd (demo_requests 0))"
proof -
  obtain s p where "cache_reachable (\<lambda>_. None) (\<lambda>_. 7) (\<lambda>_. []) demo_requests s" "thread_pc s 0 = Got (Inr p)" "thread_pc s 1 = Got (Inr p)"
    by (rule demo_race)
  with fused_cache_correct[OF demo_requests_ok this(1,2)] show ?thesis by blast
qed

end
