(* ===== verification/Fused.thy ===== *)
theory Fused
  imports Fused_Cache Groupby
begin

text \<open>Models the fused group-by of \<open>polars-metal-kernels/src/groupby.rs\<close>: \<open>dispatch_groupby_fused\<close> with its
  helpers, and what the kernel printed by \<open>aggregate_fused/emitter.rs\<close> computes. A buffer bound to the
  kernel is a list of 32-bit words or of bytes. \<open>None\<close> is a panic or a read past the end of a slice
  (the code takes an unchecked view of the value data).\<close>

section \<open>Errors and columns\<close>

datatype fused_error =
    FGroupBy group_by_error
  | FSignature signature_error
  | FCache fused_cache_error
  | SignatureNotFused
  | NgroupsExceedsFusedCap nat nat
  | MissingValueColumn nat string
  | ValueDtypeMismatch string k_metal_dtype string

type_synonym columns_by_name = "string \<rightharpoonup> value_column"
type_synonym dtype_table = "(string \<times> k_metal_dtype) list"

fun value_dtype :: "value_column \<Rightarrow> k_metal_dtype" where
  "value_dtype (VI32 _ _) = KtI32"
| "value_dtype (VF32 _ _) = KtF32"
| "value_dtype (VI64 _ _) = KtI64"
| "value_dtype (VF64 _ _) = KtF64"

definition insert_dtype :: "dtype_table \<Rightarrow> string \<Rightarrow> columns_by_name \<Rightarrow> fused_error + dtype_table" where
  "insert_dtype out name by_name =
     (if map_of out name \<noteq> None then Inr out
      else case by_name name of
          None \<Rightarrow> Inl (MissingValueColumn (length out) name)
        | Some vcol \<Rightarrow> Inr ((name, value_dtype vcol) # out))"

fun insert_dtypes :: "dtype_table \<Rightarrow> string list \<Rightarrow> columns_by_name \<Rightarrow> fused_error + dtype_table" where
  "insert_dtypes out [] by_name = Inr out"
| "insert_dtypes out (name # names) by_name =
     rbind (insert_dtype out name by_name) (\<lambda>out'. insert_dtypes out' names by_name)"

text \<open>The view is taken without a bound check: reading past the data is not defined.\<close>

definition vcol_bytes_for_slot :: "value_column \<Rightarrow> k_metal_dtype \<Rightarrow> string \<Rightarrow> nat \<Rightarrow> (fused_error + 32 word list \<times> bytes) option" where
  "vcol_bytes_for_slot vcol sig_dt name n_rows =
     (case vcol of
        VI32 data valid \<Rightarrow>
          if sig_dt = KtI32 then (if n_rows \<le> length data then Some (Inr (take n_rows data, valid)) else None)
          else Some (Inl (ValueDtypeMismatch name sig_dt (column_name vcol)))
      | VF32 data valid \<Rightarrow>
          if sig_dt = KtF32 then (if n_rows \<le> length data then Some (Inr (take n_rows data, valid)) else None)
          else Some (Inl (ValueDtypeMismatch name sig_dt (column_name vcol)))
      | _ \<Rightarrow> Some (Inl (ValueDtypeMismatch name sig_dt (column_name vcol))))"

datatype gpu_buf = Words "32 word list" | Octets bytes

fun buf_words :: "gpu_buf \<Rightarrow> 32 word list" where
  "buf_words (Words ws) = ws" | "buf_words (Octets bs) = []"

fun buf_octets :: "gpu_buf \<Rightarrow> bytes" where
  "buf_octets (Octets bs) = bs" | "buf_octets (Words ws) = []"

definition pad_valid :: "bytes \<Rightarrow> bytes" where
  "pad_valid v = (if length v < 4 then v @ replicate (4 - length v) 0 else v)"

text \<open>The value and validity buffers, one pair per column of the signature.\<close>

fun slot_buffers :: "nat \<Rightarrow> (string \<times> k_metal_dtype) list \<Rightarrow> columns_by_name \<Rightarrow> nat \<Rightarrow> (fused_error + (gpu_buf \<times> gpu_buf) list) option" where
  "slot_buffers slot [] by_name n_rows = Some (Inr [])"
| "slot_buffers slot ((name, sig_dt) # cols) by_name n_rows =
     (case by_name name of
        None \<Rightarrow> Some (Inl (MissingValueColumn slot name))
      | Some vcol \<Rightarrow>
          (case vcol_bytes_for_slot vcol sig_dt name n_rows of
             None \<Rightarrow> None
           | Some (Inl e) \<Rightarrow> Some (Inl e)
           | Some (Inr (data, valid)) \<Rightarrow>
               if length valid < div_ceil n_rows 8
               then Some (Inl (FGroupBy (OutputTooShort (length valid) (div_ceil n_rows 8))))
               else case slot_buffers (slot + 1) cols by_name n_rows of
                   None \<Rightarrow> None
                 | Some (Inl e) \<Rightarrow> Some (Inl e)
                 | Some (Inr bufs) \<Rightarrow> Some (Inr ((Words data, Octets (pad_valid (take (div_ceil n_rows 8) valid))) # bufs))))"

section \<open>Output buffers\<close>

datatype primary_kind = PkU32 | PkI32 | PkF32Bits

record output_buf =
  primary :: "32 word list"
  count_buf :: "32 word list option"
  primary_kind :: primary_kind

definition primary_kind_for :: "k_agg_op \<Rightarrow> k_metal_dtype \<Rightarrow> primary_kind" where
  "primary_kind_for op dt =
     (if op \<in> {KCount, KLen} then PkU32
      else if dt \<in> {KtF32, KtF64} then PkF32Bits
      else if dt \<in> {KtI32, KtI16, KtI8, KtI64} then PkI32
      else PkU32)"

definition primary_seed :: "k_agg_op \<Rightarrow> primary_kind \<Rightarrow> 32 word" where
  "primary_seed op pk =
     (case op of
        KMin \<Rightarrow> (case pk of PkI32 \<Rightarrow> i32_max | PkU32 \<Rightarrow> - 1 | PkF32Bits \<Rightarrow> f32_infinity)
      | KMax \<Rightarrow> (case pk of PkI32 \<Rightarrow> i32_min | PkU32 \<Rightarrow> 0 | PkF32Bits \<Rightarrow> f32_neg_infinity)
      | _ \<Rightarrow> 0)"

definition output_shape :: "k_agg_spec \<Rightarrow> dtype_table \<Rightarrow> fused_error + k_agg_op \<times> primary_kind" where
  "output_shape agg dts =
     (case agg of
        KSimple input_col op _ \<Rightarrow>
          (case map_of dts input_col of
             None \<Rightarrow> Inl (MissingValueColumn 0 input_col)
           | Some dt \<Rightarrow> Inr (op, primary_kind_for op dt))
      | KExpression _ op _ \<Rightarrow> Inr (op, primary_kind_for op KtF32)
      | KLength _ \<Rightarrow> Inr (KLen, PkU32))"

definition allocate_agg_output :: "k_agg_spec \<Rightarrow> dtype_table \<Rightarrow> nat \<Rightarrow> fused_error + output_buf" where
  "allocate_agg_output agg dts ng =
     rbind (output_shape agg dts) (\<lambda>(op, pk).
       if ng = 0 then Inl (FGroupBy (Buffer (AllocationFailed 0)))
       else Inr \<lparr>primary = replicate ng (primary_seed op pk),
                 count_buf = (if op = KMean then Some (replicate ng 0) else None), primary_kind = pk\<rparr>)"

section \<open>What the kernel computes\<close>

text \<open>What the compiled code of a printed expression computes from the float values of its columns, listed
  in the order of their occurrences. The kernel is compiled with the default options, fast math among them,
  so that the operations need not be rounded one by one: they may be contracted and reassociated.\<close>

record fused_math =
  expr32 :: "k_agg_expr \<Rightarrow> f32 list \<Rightarrow> f32"

record fused_inputs =
  in_order :: "string list"
  in_dtypes :: "k_metal_dtype list"
  in_vals :: "32 word list list"
  in_valid :: "bytes list"

definition row_valid :: "fused_inputs \<Rightarrow> nat \<Rightarrow> nat \<Rightarrow> bool" where
  "row_valid inp i row = get_valid (in_valid inp ! i) row"

definition row_value :: "fused_inputs \<Rightarrow> nat \<Rightarrow> nat \<Rightarrow> 32 word" where
  "row_value inp i row = in_vals inp ! i ! row"

text \<open>The cast \<open>(float)val_i\<close> of a loaded value.\<close>

definition float_of_value :: "runtime \<Rightarrow> k_metal_dtype \<Rightarrow> 32 word \<Rightarrow> f32" where
  "float_of_value rt dt w =
     (if dt \<in> {KtF32, KtF64} then w
      else if dt \<in> {KtI32, KtI16, KtI8, KtI64} then of_signed (ops32 rt) (sint w)
      else of_unsigned (ops32 rt) (unat w))"

definition eval_expr :: "fused_math \<Rightarrow> (string \<Rightarrow> f32) \<Rightarrow> k_agg_expr \<Rightarrow> f32" where
  "eval_expr fm val e = expr32 fm e (map val (k_leaves e))"

text \<open>What one row adds to reduction slot \<open>j\<close> of an aggregate, when it adds anything.\<close>

definition op_term :: "k_agg_op \<Rightarrow> nat \<Rightarrow> bool \<Rightarrow> 32 word \<Rightarrow> 32 word option" where
  "op_term op j ok v =
     (case op of
        KLen \<Rightarrow> Some 1
      | KCount \<Rightarrow> if ok then Some 1 else None
      | KMean \<Rightarrow> if ok then Some (if j = 0 then v else 1) else None
      | _ \<Rightarrow> if ok then Some v else None)"

definition fused_term :: "runtime \<Rightarrow> fused_math \<Rightarrow> fused_inputs \<Rightarrow> k_agg_spec \<Rightarrow> nat \<Rightarrow> nat \<Rightarrow> 32 word option" where
  "fused_term rt fm inp spec j row =
     (case spec of
        KSimple input_col op _ \<Rightarrow>
          (case find_position (in_order inp) input_col of
             None \<Rightarrow> None
           | Some i \<Rightarrow> op_term op j (row_valid inp i row) (row_value inp i row))
      | KExpression e op _ \<Rightarrow>
          (let val = \<lambda>name. (let i = column_index (in_order inp) name in float_of_value rt (in_dtypes inp ! i) (row_value inp i row)) in
           op_term op j (list_all (\<lambda>name. row_valid inp (column_index (in_order inp) name) row) (k_referenced_columns e))
             (eval_expr fm val e))
      | KLength _ \<Rightarrow> Some 1)"

text \<open>The reduction of each kind; an integer atomic is its read-modify-write operation.\<close>

definition int_agg :: "32 word \<Rightarrow> (32 word \<Rightarrow> 32 word \<Rightarrow> 32 word) \<Rightarrow> f32_agg" where
  "int_agg e f = \<lparr>ident = e, accum = f, across = foldl f e, skips = (\<lambda>t. t = e), flush = f\<rparr>"

fun slot_agg :: "runtime \<Rightarrow> reduce_kind \<Rightarrow> f32_agg" where
  "slot_agg rt F32Sum = sum_agg rt"
| "slot_agg rt F32Min = min_agg rt"
| "slot_agg rt F32Max = max_agg rt"
| "slot_agg rt I32Sum = int_agg 0 (+)"
| "slot_agg rt U32Sum = int_agg 0 (+)"
| "slot_agg rt Counter = int_agg 0 (+)"
| "slot_agg rt I32Min = int_agg i32_max rmw_min_i32"
| "slot_agg rt I32Max = int_agg i32_min rmw_max_i32"
| "slot_agg rt U32Min = int_agg (- 1) min"
| "slot_agg rt U32Max = int_agg 0 max"

text \<open>Every buffer is found by its number in the printed signature; the result is what the output
  buffers of every aggregate hold.\<close>

definition run_pipeline ::
  "runtime \<Rightarrow> fused_math \<Rightarrow> agg_signature \<Rightarrow> k_agg_spec list \<Rightarrow> gpu_buf list \<Rightarrow> nat \<Rightarrow> 32 word list list list" where
  "run_pipeline rt fm sig specs bindings n_tgs =
     (let n_cols = length (column_dtypes sig);
          r2g = buf_words (bindings ! 0); nr = unat (buf_words (bindings ! 1) ! 0); ng = unat (buf_words (bindings ! 2) ! 0);
          inp = \<lparr>in_order = column_order sig, in_dtypes = column_dtypes sig,
                 in_vals = map (\<lambda>i. buf_words (bindings ! (3 + i))) [0..<n_cols],
                 in_valid = map (\<lambda>i. buf_octets (bindings ! (3 + n_cols + i))) [0..<n_cols]\<rparr>
      in map (\<lambda>(spec, kinds, outs). map (\<lambda>(j, kind, out).
             prereduce_kernel (slot_agg rt kind) n_tgs nr (\<lambda>row. fused_term rt fm inp spec j row \<noteq> None)
               (\<lambda>row. the (fused_term rt fm inp spec j row)) r2g ng (buf_words (bindings ! out))
               (order rt (''aggregate_fused_'' @ show_nat out) (n_tgs * ng)))
           (enumerate 0 (zip kinds outs)))
         (zip specs (zip (build_agg_slots specs (column_dtypes sig) sig) (output_slots (3 + 2 * n_cols) specs))))"

section \<open>Reading back\<close>

definition read_words :: "32 word list \<Rightarrow> nat \<Rightarrow> 32 word list" where
  "read_words ws n = map (\<lambda>g. ws ! g) [0..<n]"

definition read_u32_to_u64 :: "32 word list \<Rightarrow> nat \<Rightarrow> u64 list" where
  "read_u32_to_u64 ws n = map (\<lambda>g. ucast (ws ! g)) [0..<n]"

definition mean_from_sum_count :: "runtime \<Rightarrow> (32 word \<Rightarrow> f32) \<Rightarrow> 32 word list \<Rightarrow> u32 list \<Rightarrow> f32 list \<times> bool list" where
  "mean_from_sum_count rt conv sums counts =
     (map2 (\<lambda>s c. if c = 0 then 0 else fdiv (ops32 rt) (conv s) (of_unsigned (ops32 rt) (unat c))) sums counts,
      map2 (\<lambda>s c. c \<noteq> 0) sums counts)"

definition finalize_simple_like :: "runtime \<Rightarrow> k_agg_op \<Rightarrow> output_buf \<Rightarrow> nat \<Rightarrow> 32 word list option \<Rightarrow> agg_output" where
  "finalize_simple_like rt op ob ng counts =
     (let ws = read_words (primary ob) ng; all = replicate ng True in
      case op of
        KCount \<Rightarrow> OU64 (read_u32_to_u64 (primary ob) ng)
      | KLen \<Rightarrow> OU64 (read_u32_to_u64 (primary ob) ng)
      | KMean \<Rightarrow>
          (let cs = (case counts of None \<Rightarrow> replicate ng 0 | Some cs \<Rightarrow> cs);
               conv = (case primary_kind ob of
                  PkI32 \<Rightarrow> (\<lambda>s. of_signed (ops32 rt) (sint s))
                | PkU32 \<Rightarrow> (\<lambda>s. of_unsigned (ops32 rt) (unat s))
                | PkF32Bits \<Rightarrow> (\<lambda>s. s));
               (values, valid) = mean_from_sum_count rt conv ws cs
           in OF32 values valid)
      | _ \<Rightarrow> (case primary_kind ob of PkI32 \<Rightarrow> OI32 ws all | PkU32 \<Rightarrow> OI32 ws all | PkF32Bits \<Rightarrow> OF32 ws all))"

definition finalize_agg_output :: "runtime \<Rightarrow> k_agg_spec \<Rightarrow> output_buf \<Rightarrow> nat \<Rightarrow> dtype_table \<Rightarrow> fused_error + agg_output" where
  "finalize_agg_output rt agg ob ng dts =
     (if length (primary ob) < ng then Inl (FGroupBy (OutputTooShort (length (primary ob) * 4) (ng * 4)))
      else let counts = map_option (\<lambda>c. read_words c ng) (count_buf ob) in
        case agg of
          KLength _ \<Rightarrow> Inr (OU64 (read_u32_to_u64 (primary ob) ng))
        | KSimple input_col op _ \<Rightarrow>
            (case map_of dts input_col of
               None \<Rightarrow> Inl (MissingValueColumn 0 input_col)
             | Some _ \<Rightarrow> Inr (finalize_simple_like rt op ob ng counts))
        | KExpression _ op _ \<Rightarrow> Inr (finalize_simple_like rt op ob ng counts))"

definition empty_output_for_kagg :: "k_agg_spec \<Rightarrow> agg_output" where
  "empty_output_for_kagg agg =
     (case agg of
        KSimple _ op _ \<Rightarrow> if op \<in> {KCount, KLen} then OU64 [] else OF32 [] []
      | KExpression _ op _ \<Rightarrow> if op \<in> {KCount, KLen} then OU64 [] else OF32 [] []
      | KLength _ \<Rightarrow> OU64 [])"

section \<open>The dispatcher\<close>

text \<open>The compiler, the hasher and the text of a double, as the cache and the emitter use them.\<close>

record fused_env =
  env_metalc :: compiler
  env_hash :: sig_hash
  env_debug :: "u64 \<Rightarrow> string"

definition fused_bindings :: "u32 list \<Rightarrow> nat \<Rightarrow> nat \<Rightarrow> (gpu_buf \<times> gpu_buf) list \<Rightarrow> output_buf list \<Rightarrow> gpu_buf list" where
  "fused_bindings r2g n_rows ng cols obs =
     [Words r2g, Words [of_nat n_rows], Words [of_nat ng]] @ map fst cols @ map snd cols @
     concat (map (\<lambda>ob. Words (primary ob) # (case count_buf ob of None \<Rightarrow> [] | Some c \<Rightarrow> [Words c])) obs)"

definition written_back :: "output_buf \<Rightarrow> 32 word list list \<Rightarrow> output_buf" where
  "written_back ob rs = ob\<lparr>primary := rs ! 0, count_buf := map_option (\<lambda>_. rs ! 1) (count_buf ob)\<rparr>"

text \<open>From the groups on: buffers, launch, results. The pipeline runs the source it was compiled from;
  what another source would compute is not modelled.\<close>

definition fused_after_build ::
  "runtime \<Rightarrow> fused_math \<Rightarrow> fused_env \<Rightarrow> pipeline \<Rightarrow> agg_signature \<Rightarrow> k_agg_spec list \<Rightarrow> dtype_table \<Rightarrow> columns_by_name \<Rightarrow>
     nat \<Rightarrow> u32 list \<Rightarrow> nat \<Rightarrow> (fused_error + agg_output list) option" where
  "fused_after_build rt fm env pso sig aggs dts by_name n_rows r2g ng =
     (if emit_max_groups < ng then Some (Inl (NgroupsExceedsFusedCap ng emit_max_groups))
      else case slot_buffers 0 (zip (column_order sig) (column_dtypes sig)) by_name n_rows of
          None \<Rightarrow> None
        | Some (Inl e) \<Rightarrow> Some (Inl e)
        | Some (Inr cols) \<Rightarrow>
            (case rmap (\<lambda>agg. allocate_agg_output agg dts ng) aggs of
               Inl e \<Rightarrow> Some (Inl e)
             | Inr obs \<Rightarrow>
                 if u32_max < n_rows then Some (Inl (FGroupBy (RowCountOverflow n_rows)))
                 else if pso_source pso \<noteq> emit_msl (env_debug env) sig aggs then None
                 else let res = run_pipeline rt fm sig aggs (fused_bindings r2g n_rows ng cols obs) (prereduce_tgs n_rows)
                   in Some (rmap (\<lambda>(agg, ob). finalize_agg_output rt agg ob ng dts) (zip aggs (map2 written_back obs res)))))"

definition fused_build :: "runtime \<Rightarrow> a1_run \<Rightarrow> key_column list \<Rightarrow> u128 list \<Rightarrow> nat \<Rightarrow> (group_by_error + build_output) option" where
  "fused_build rt a1 key_cols encoded n_rows =
     (if key_cols = [] then Some (Inr \<lparr>row_to_group = replicate n_rows 0, first_row_per_group = [0], n_groups = 1\<rparr>)
      else case dispatch_hash rt encoded n_rows (replicate n_rows 0) of
          Inl e \<Rightarrow> Some (Inl e)
        | Inr _ \<Rightarrow> dispatch_build a1 encoded n_rows)"

definition fused_keys :: "key_column list \<Rightarrow> u128 list \<Rightarrow> key_schema \<Rightarrow> u32 list \<Rightarrow> decoded_column list option" where
  "fused_keys key_cols encoded schema firsts =
     (if key_cols = [] then Some []
      else case those (map (key_at encoded) firsts) of None \<Rightarrow> None | Some reps \<Rightarrow> decode_keys reps schema)"

definition empty_schema :: key_schema where
  "empty_schema = \<lparr>ks_fields = [], ks_total_bits = 0, ks_n_rows = 0\<rparr>"

definition fused_encode :: "key_column list \<Rightarrow> fused_error + u128 list \<times> key_schema" where
  "fused_encode key_cols =
     (if key_cols = [] then Inr ([], empty_schema)
      else case encode_keys key_cols of Inl e \<Rightarrow> Inl (FGroupBy (KeyEncode e)) | Inr r \<Rightarrow> Inr r)"

definition fused_run ::
  "runtime \<Rightarrow> fused_math \<Rightarrow> a1_run \<Rightarrow> fused_env \<Rightarrow> fused_cache \<Rightarrow> key_column list \<Rightarrow> u128 list \<Rightarrow> key_schema \<Rightarrow> k_agg_spec list \<Rightarrow>
     dtype_table \<Rightarrow> agg_signature \<Rightarrow> columns_by_name \<Rightarrow> nat \<Rightarrow> fused_cache \<times> (fused_error + group_by_result) option" where
  "fused_run rt fm a1 env cache key_cols encoded schema aggs dts sig by_name n_rows =
     (case get_or_compile (env_metalc env) (env_hash env) (env_debug env) cache (sig, aggs) of
        (cache', Inl e) \<Rightarrow> (cache', Some (Inl (FCache e)))
      | (cache', Inr pso) \<Rightarrow>
          (cache',
           case fused_build rt a1 key_cols encoded n_rows of
             None \<Rightarrow> None
           | Some (Inl e) \<Rightarrow> Some (Inl (FGroupBy e))
           | Some (Inr b) \<Rightarrow>
               (case fused_after_build rt fm env pso sig aggs dts by_name n_rows (row_to_group b) (unat (n_groups b)) of
                  None \<Rightarrow> None
                | Some (Inl e) \<Rightarrow> Some (Inl e)
                | Some (Inr outs) \<Rightarrow>
                    map_option (\<lambda>ds. Inr \<lparr>decoded_keys = ds, agg_outputs = outs, result_groups = n_groups b\<rparr>)
                      (fused_keys key_cols encoded schema (first_row_per_group b)))))"

definition dispatch_groupby_fused ::
  "runtime \<Rightarrow> fused_math \<Rightarrow> a1_run \<Rightarrow> fused_env \<Rightarrow> fused_cache \<Rightarrow> key_column list \<Rightarrow> k_agg_spec list \<Rightarrow> columns_by_name \<Rightarrow> nat \<Rightarrow>
     fused_cache \<times> (fused_error + group_by_result) option" where
  "dispatch_groupby_fused rt fm a1 env cache key_cols aggs by_name n_rows =
     (case check_key_rows key_cols n_rows of
        Inl e \<Rightarrow> (cache, Some (Inl (FGroupBy e)))
      | Inr _ \<Rightarrow>
          (case fused_encode key_cols of
             Inl e \<Rightarrow> (cache, Some (Inl e))
           | Inr (encoded, schema) \<Rightarrow>
               if n_rows = 0 then
                 (cache, map_option (\<lambda>ds. Inr \<lparr>decoded_keys = ds, agg_outputs = map empty_output_for_kagg aggs, result_groups = 0\<rparr>)
                   (if key_cols = [] then Some [] else decode_keys [] schema))
               else case insert_dtypes [] (spec_names aggs) by_name of
                   Inl e \<Rightarrow> (cache, Some (Inl e))
                 | Inr dts \<Rightarrow>
                     (case from_specs aggs (map_of dts) of
                        Inl e \<Rightarrow> (cache, Some (Inl (FSignature e)))
                      | Inr sig \<Rightarrow>
                          if \<not> signature_supported_by_fused sig then (cache, Some (Inl SignatureNotFused))
                          else fused_run rt fm a1 env cache key_cols encoded schema aggs dts sig by_name n_rows)))"

end
