(* ===== verification/Fused_Correct.thy ===== *)
theory Fused_Correct
  imports Fused Groupby_Correct
begin

text \<open>The fused group-by against the one-kernel-per-aggregate pipeline: what the kernel leaves in each
  output buffer, that every buffer is bound where the printed kernel expects it, and that the results
  mean the same as those of \<open>dispatch_groupby\<close>, except for minima and maxima of groups without values.\<close>

section \<open>Integer reductions\<close>

text \<open>The contract of an integer reduction: the operation is that of a commutative monoid.\<close>

locale comm_reduce =
  fixes f :: "32 word \<Rightarrow> 32 word \<Rightarrow> 32 word" and e :: "32 word"
  assumes assoc: "f (f a b) c = f a (f b c)" and comm: "f a b = f b a" and neutral: "f a e = a"
begin

definition reduces :: "32 word multiset \<Rightarrow> 32 word \<Rightarrow> bool" where
  "reduces M x \<longleftrightarrow> (\<exists>vs. mset vs = M \<and> x = foldl f e vs)"

lemma foldl_from: "foldl f a vs = f a (foldl f e vs)"
proof (induction vs arbitrary: a)
  case (Cons v vs)
  show ?case using Cons[of "f a v"] Cons[of "f e v"] by (simp add: assoc comm[of e] neutral)
qed (simp add: neutral)

lemma reduces_plus: "reduces M x \<Longrightarrow> reduces N y \<Longrightarrow> reduces (M + N) (f x y)"
proof -
  assume "reduces M x" "reduces N y"
  then obtain vs ws where "mset vs = M" "x = foldl f e vs" "mset ws = N" "y = foldl f e ws" by (auto simp: reduces_def)
  then have "mset (vs @ ws) = M + N" "f x y = foldl f e (vs @ ws)" using foldl_from[of x ws] by simp_all
  then show ?thesis unfolding reduces_def by blast
qed

lemma reduces_Nil: "reduces {#} e"
  unfolding reduces_def by (rule exI[of _ "[]"]) simp

lemma reduces_lanes: "(\<And>i. i \<in> set is \<Longrightarrow> reduces (P i) (r i)) \<Longrightarrow> reduces (\<Sum>i\<leftarrow>is. P i) (foldl f e (map r is))"
proof (induction "is")
  case Nil
  show ?case by (simp add: reduces_Nil)
next
  case (Cons i "is")
  then have "reduces (P i + (\<Sum>j\<leftarrow>is. P j)) (f (r i) (foldl f e (map r is)))" by (intro reduces_plus) auto
  moreover have "foldl f e (map r (i # is)) = f (r i) (foldl f e (map r is))"
    using foldl_from[of "r i" "map r is"] comm[of e "r i"] neutral[of "r i"] by simp
  ultimately show ?case by simp
qed

lemma reduces_eq: "reduces (mset vs) x \<Longrightarrow> x = foldl f e vs"
proof -
  assume "reduces (mset vs) x"
  then obtain ws where "mset ws = mset vs" "x = foldl f e ws" by (auto simp: reduces_def)
  moreover have "f (f a y) z = f (f a z) y" for a y z by (metis assoc comm)
  ultimately show ?thesis using foldl_mset[of f ws vs e] by simp
qed

end

sublocale comm_reduce \<subseteq> prereduction "int_agg e f" reduces
proof (unfold_locales, goal_cases)
  case 1
  show ?case by (simp add: int_agg_def reduces_Nil)
next
  case (2 M x v)
  have "reduces {#v#} (f e v)" unfolding reduces_def by (intro exI[of _ "[v]"]) simp
  with 2 have "reduces (M + {#v#}) (f x (f e v))" by (rule reduces_plus)
  then show ?case by (simp add: int_agg_def comm[of e] neutral)
next
  case (3 xs P)
  then have "map ((!) xs) [0..<32] = xs" by (metis map_nth)
  with reduces_lanes[of "[0..<32]" P "(!) xs"] 3 show ?case by (simp add: int_agg_def)
next
  case (4 M x N y)
  then show ?case by (simp add: int_agg_def reduces_plus)
next
  case (5 M x N y)
  from reduces_plus[OF 5] show ?case by (auto simp: int_agg_def neutral)
qed

interpretation add_slot: comm_reduce "(+)" 0
  by unfold_locales (simp_all add: add.assoc add.commute)

interpretation mini_slot: comm_reduce rmw_min_i32 i32_max
proof
  fix a b c :: "32 word"
  show "rmw_min_i32 (rmw_min_i32 a b) c = rmw_min_i32 a (rmw_min_i32 b c)" "rmw_min_i32 a b = rmw_min_i32 b a" "rmw_min_i32 a i32_max = a"
    by (rule signed_word_eqI[where 'a = int], use i32_bounds(1)[of a] in \<open>simp add: sint_rmw min.assoc min.commute\<close>)+
qed

interpretation maxi_slot: comm_reduce rmw_max_i32 i32_min
proof
  fix a b c :: "32 word"
  show "rmw_max_i32 (rmw_max_i32 a b) c = rmw_max_i32 a (rmw_max_i32 b c)" "rmw_max_i32 a b = rmw_max_i32 b a" "rmw_max_i32 a i32_min = a"
    by (rule signed_word_eqI[where 'a = int], use i32_bounds(2)[of a] in \<open>simp add: sint_rmw max.assoc max.commute\<close>)+
qed

interpretation minu_slot: comm_reduce min "- 1"
  by unfold_locales (simp_all add: min.assoc, simp add: min.commute)

interpretation maxu_slot: comm_reduce max 0
  by unfold_locales (simp_all add: max.assoc, simp add: max.commute)

text \<open>What a slot holds for group \<open>g\<close> after the kernel, for the values \<open>vs\<close> its rows contributed.\<close>

definition slot_result :: "runtime \<Rightarrow> reduce_kind \<Rightarrow> 32 word list \<Rightarrow> 32 word \<Rightarrow> bool" where
  "slot_result rt kind vs x \<longleftrightarrow> (case kind of
      F32Sum \<Rightarrow> sums_to (fadd (ops32 rt)) (mset vs) x
    | F32Min \<Rightarrow> summary fval f32_infinity (set vs) x
    | F32Max \<Rightarrow> summary (\<lambda>x. - fval x) f32_neg_infinity (set vs) x
    | I32Min \<Rightarrow> x = foldl rmw_min_i32 i32_max vs
    | I32Max \<Rightarrow> x = foldl rmw_max_i32 i32_min vs
    | U32Min \<Rightarrow> x = foldl min (- 1) vs
    | U32Max \<Rightarrow> x = foldl max 0 vs
    | _ \<Rightarrow> x = sum_list vs)"

lemma slot_kernel:
  assumes rt: "lawful_runtime rt" and run: "schedule_ok (tgs * ng) sched" "g < ng" "0 < tgs"
    and seed: "out = replicate ng (ident (slot_agg rt kind))"
  shows "slot_result rt kind (vals_in ok val r2g n g) (prereduce_kernel (slot_agg rt kind) tgs n ok val r2g ng out sched ! g)"
proof -
  have idn: "ident (int_agg e f) = e" for e f by (simp add: int_agg_def)
  note ints = add_slot.reduces_eq[OF add_slot.kernel[OF run, unfolded idn]] mini_slot.reduces_eq[OF mini_slot.kernel[OF run, unfolded idn]]
    maxi_slot.reduces_eq[OF maxi_slot.kernel[OF run, unfolded idn]] minu_slot.reduces_eq[OF minu_slot.kernel[OF run, unfolded idn]]
    maxu_slot.reduces_eq[OF maxu_slot.kernel[OF run, unfolded idn]]
  have sum: "lawful_simd_sum rt" using rt by (simp add: lawful_runtime_def)
  have fl: "lawful_floats rt" using rt by (simp add: lawful_runtime_def)
  note floats = prereduce_sums[OF sum run] prereduce_summary[OF extremum_aggs(1)[OF fl] run] prereduce_summary[OF extremum_aggs(2)[OF fl] run]
  have ids: "ident (sum_agg rt) = 0" "ident (min_agg rt) = f32_infinity" "ident (max_agg rt) = f32_neg_infinity"
    by (simp_all add: sum_agg_def min_agg_def max_agg_def)
  show ?thesis
    using ints floats unfolding seed
    by (cases kind) (simp_all add: slot_result_def idn ids foldl_plus_sum_list)
qed

section \<open>Binding order\<close>

definition ob_words :: "output_buf \<Rightarrow> 32 word list list" where
  "ob_words ob = primary ob # (case count_buf ob of None \<Rightarrow> [] | Some c \<Rightarrow> [c])"

lemma output_slots_length [simp]: "length (output_slots k specs) = length specs"
  by (induction k specs rule: output_slots.induct) simp_all

lemma output_slots_nth_length: "a < length specs \<Longrightarrow> length (output_slots k specs ! a) = (if is_mean (specs ! a) then 2 else 1)"
  by (induction k specs arbitrary: a rule: output_slots.induct) (auto simp: nth_Cons split: nat.split)

text \<open>The numbers the emitter prints for the output buffers are the positions at which they are bound.\<close>

lemma binding_order:
  assumes "list_all2 (\<lambda>spec ob. (count_buf ob \<noteq> None) = is_mean spec) specs obs"
  shows "map (map (\<lambda>i. buf_words ((base @ map Words (concat (map ob_words obs))) ! i))) (output_slots (length base) specs) = map ob_words obs"
  using assms
proof (induction specs obs arbitrary: base rule: list_all2_induct)
  case (Cons spec specs ob obs)
  have step: "map (map (\<lambda>i. buf_words (((base @ map Words (ob_words ob)) @ map Words (concat (map ob_words obs))) ! i)))
      (output_slots (length (base @ map Words (ob_words ob))) specs) = map ob_words obs"
    by (rule Cons.IH)
  show ?case
  proof (cases "is_mean spec")
    case True
    with Cons.hyps obtain c where "ob_words ob = [primary ob, c]" by (auto simp: ob_words_def)
    with True step show ?thesis by (simp add: nth_append)
  next
    case False
    with Cons.hyps have "ob_words ob = [primary ob]" by (auto simp: ob_words_def)
    with False step show ?thesis by (simp add: nth_append)
  qed
qed simp

lemma fused_bindings_eq:
  "fused_bindings r2g n_rows ng cols obs =
     ([Words r2g, Words [of_nat n_rows], Words [of_nat ng]] @ map fst cols @ map snd cols) @ map Words (concat (map ob_words obs))"
proof -
  have "map Words (concat (map ob_words obs)) = concat (map (\<lambda>ob. Words (primary ob) # (case count_buf ob of None \<Rightarrow> [] | Some c \<Rightarrow> [Words c])) obs)"
    by (induction obs) (auto simp: ob_words_def split: option.split)
  then show ?thesis by (simp add: fused_bindings_def)
qed

text \<open>The pipeline on the buffers of the dispatcher.\<close>

definition dispatch_inputs :: "agg_signature \<Rightarrow> (gpu_buf \<times> gpu_buf) list \<Rightarrow> fused_inputs" where
  "dispatch_inputs sig cols =
     \<lparr>in_order = column_order sig, in_dtypes = column_dtypes sig, in_vals = map (buf_words \<circ> fst) cols, in_valid = map (buf_octets \<circ> snd) cols\<rparr>"

lemma run_pipeline_dispatch:
  assumes cols: "length cols = length (column_dtypes sig)" and n: "n < 2 ^ 32" and ng: "ng < 2 ^ 32"
    and obs: "list_all2 (\<lambda>spec ob. (count_buf ob \<noteq> None) = is_mean spec) specs obs"
    and a: "a < length specs" and j: "j < length (ob_words (obs ! a))"
    and kinds: "length (spec_slots sig (column_dtypes sig) (specs ! a)) = length (ob_words (obs ! a))"
  shows "\<exists>name. run_pipeline rt fm sig specs (fused_bindings r2g n ng cols obs) tgs ! a ! j =
    prereduce_kernel (slot_agg rt (spec_slots sig (column_dtypes sig) (specs ! a) ! j)) tgs n
      (\<lambda>row. fused_term rt fm (dispatch_inputs sig cols) (specs ! a) j row \<noteq> None)
      (\<lambda>row. the (fused_term rt fm (dispatch_inputs sig cols) (specs ! a) j row)) r2g ng (ob_words (obs ! a) ! j)
      (order rt name (tgs * ng))"
proof -
  let ?base = "[Words r2g, Words [of_nat n], Words [of_nat ng]] @ map fst cols @ map snd cols"
  let ?b = "fused_bindings r2g n ng cols obs" and ?C = "length (column_dtypes sig)"
  let ?outs = "output_slots (3 + 2 * ?C) specs"
  have len: "length ?base = 3 + 2 * ?C" using cols by simp
  have "map (map (\<lambda>i. buf_words (?b ! i))) ?outs = map ob_words obs"
    using binding_order[OF obs, of ?base] unfolding len fused_bindings_eq .
  moreover have "length obs = length specs" using obs by (simp add: list_all2_lengthD)
  ultimately have "map (\<lambda>i. buf_words (?b ! i)) (?outs ! a) = ob_words (obs ! a)"
    using a by (metis length_map nth_map output_slots_length)
  then have out: "length (?outs ! a) = length (ob_words (obs ! a))" "buf_words (?b ! (?outs ! a ! j)) = ob_words (obs ! a) ! j"
    using j by (metis length_map, metis length_map nth_map)
  have scalars: "buf_words (?b ! 0) = r2g" "unat (buf_words (?b ! 1) ! 0) = n" "unat (buf_words (?b ! 2) ! 0) = ng"
    using n ng by (simp_all add: fused_bindings_eq unat_of_nat)
  have "buf_words (?b ! (3 + i)) = (buf_words \<circ> fst) (cols ! i)" "buf_octets (?b ! (3 + ?C + i)) = (buf_octets \<circ> snd) (cols ! i)"
    if "i < ?C" for i
    using that cols by (simp_all add: fused_bindings_eq nth_append)
  then have "map (\<lambda>i. buf_words (?b ! (3 + i))) [0..<?C] = map (buf_words \<circ> fst) cols"
    "map (\<lambda>i. buf_octets (?b ! (3 + ?C + i))) [0..<?C] = map (buf_octets \<circ> snd) cols"
    using cols by (auto intro!: list_eq_by_nth)
  then have inp: "\<lparr>in_order = column_order sig, in_dtypes = column_dtypes sig,
      in_vals = map (\<lambda>i. buf_words (?b ! (3 + i))) [0..<?C], in_valid = map (\<lambda>i. buf_octets (?b ! (3 + ?C + i))) [0..<?C]\<rparr> = dispatch_inputs sig cols"
    by (simp add: dispatch_inputs_def)
  show ?thesis
    unfolding run_pipeline_def Let_def inp scalars
    using a j out kinds by (auto simp: build_agg_slots_def nth_enumerate_eq)
qed

section \<open>From buffers to cells\<close>

lemma float_parts_eq:
  assumes "fmag x = fmag y" and "fneg x = fneg y"
  shows "x = (y::f32)"
proof (rule bit_eqI)
  fix i assume i: "possible_bit TYPE(f32) i"
  have mag: "bit (fmag z) i \<longleftrightarrow> bit z i \<and> i < 31" for z :: f32
    using i by (auto simp: fmag_def bit_and_iff bit_mask_iff)
  show "bit x i = bit y i"
  proof (cases "i < 31")
    case True
    then show ?thesis using mag[of x] mag[of y] assms(1) by simp
  next
    case False
    then have "i = 31" using i by simp
    then show ?thesis using assms(2) by (simp add: fneg_def)
  qed
qed

lemma fval_infinite:
  "fval x = fval f32_infinity \<Longrightarrow> x = f32_infinity" "fval x = fval f32_neg_infinity \<Longrightarrow> x = f32_neg_infinity"
proof -
  have inf: "fmag f32_infinity = f32_infinity" "\<not> fneg f32_infinity" "fmag f32_neg_infinity = f32_infinity" "fneg f32_neg_infinity"
    by (simp_all add: fmag_def fneg_def f32_infinity_def f32_neg_infinity_def mask_eq_exp_minus_1)
  have pos: "0 < uint f32_infinity" by (simp add: f32_infinity_def)
  have mag: "0 \<le> uint (fmag x)" by (rule uint_ge_0)
  consider "fneg x" "fval x = - uint (fmag x)" | "\<not> fneg x" "fval x = uint (fmag x)" unfolding fval_def by metis
  note split_sign = this
  show "x = f32_infinity" if "fval x = fval f32_infinity"
  proof (cases rule: split_sign)
    case 1
    with that pos mag have False unfolding fval_inf32 by linarith
    then show ?thesis ..
  next
    case 2
    then have "uint (fmag x) = uint f32_infinity" using that unfolding fval_inf32 by linarith
    then have "fmag x = fmag f32_infinity" unfolding inf word_uint_eq_iff .
    then show ?thesis by (rule float_parts_eq) (use 2 inf in blast)
  qed
  show "x = f32_neg_infinity" if "fval x = fval f32_neg_infinity"
  proof (cases rule: split_sign)
    case 2
    with that pos mag have False unfolding fval_inf32 by linarith
    then show ?thesis ..
  next
    case 1
    then have "uint (fmag x) = uint f32_infinity" using that unfolding fval_inf32 by linarith
    then have "fmag x = fmag f32_neg_infinity" unfolding inf word_uint_eq_iff .
    then show ?thesis by (rule float_parts_eq) (use 1 inf in blast)
  qed
qed

lemma summary_none: "summary k idn {} x \<Longrightarrow> k x = k idn"
  by (simp add: summary_def numbers_def)

text \<open>The meaning of an operation for the values \<open>vs\<close> that a group of \<open>k\<close> rows contributes; a minimum or
  maximum of no values is the seed of its buffer.\<close>

definition op_meaning :: "runtime \<Rightarrow> bool \<Rightarrow> k_agg_op \<Rightarrow> 32 word list \<Rightarrow> nat \<Rightarrow> agg_cell \<Rightarrow> bool" where
  "op_meaning rt fl op vs k c \<longleftrightarrow> (case op of
      KLen \<Rightarrow> c = CU64 (of_nat k)
    | KCount \<Rightarrow> c = CU64 (of_nat (length vs))
    | KSum \<Rightarrow> if fl then f32_meaning rt SumF32 vs c else i32_meaning rt SumI32 vs c
    | KMean \<Rightarrow> if fl then f32_meaning rt MeanF32 vs c else i32_meaning rt MeanI32 vs c
    | KMin \<Rightarrow> if vs = [] then c = (if fl then CF32 (Some f32_infinity) else CI32 (Some i32_max))
              else if fl then f32_meaning rt MinF32 vs c else i32_meaning rt MinI32 vs c
    | KMax \<Rightarrow> if vs = [] then c = (if fl then CF32 (Some f32_neg_infinity) else CI32 (Some i32_min))
              else if fl then f32_meaning rt MaxF32 vs c else i32_meaning rt MaxI32 vs c)"

definition op_slot_values :: "k_agg_op \<Rightarrow> nat \<Rightarrow> 32 word list \<Rightarrow> nat \<Rightarrow> 32 word list" where
  "op_slot_values op j vs k =
     (if op = KLen then replicate k 1 else if op = KCount \<or> op = KMean \<and> j \<noteq> 0 then replicate (length vs) 1 else vs)"

lemma op_term_values:
  "map (\<lambda>row. the (op_term op j (ok row) (v row))) (filter (\<lambda>row. op_term op j (ok row) (v row) \<noteq> None) rows) =
     op_slot_values op j (map v (filter ok rows)) (length rows)"
proof -
  have ones: "map (\<lambda>row. 1 :: 32 word) rows = replicate (length rows) 1" "map (\<lambda>row. 1 :: 32 word) (filter ok rows) = replicate (length (filter ok rows)) 1"
    by (simp_all add: map_replicate_const)
  have f: "(op_term op j (ok row) (v row) \<noteq> None) = (op = KLen \<or> ok row)" for row
    by (cases op) (auto simp: op_term_def)
  have m: "the (op_term op j (ok row) (v row)) = (if op = KLen \<or> op = KCount \<or> op = KMean \<and> j \<noteq> 0 then 1 else v row)"
    if "op = KLen \<or> ok row" for row
    using that by (cases op) (auto simp: op_term_def)
  have "map (\<lambda>row. the (op_term op j (ok row) (v row))) (filter (\<lambda>row. op = KLen \<or> ok row) rows) =
      map (\<lambda>row. if op = KLen \<or> op = KCount \<or> op = KMean \<and> j \<noteq> 0 then 1 else v row) (filter (\<lambda>row. op = KLen \<or> ok row) rows)"
    by (intro map_cong refl) (use m in auto)
  also have "\<dots> = op_slot_values op j (map v (filter ok rows)) (length rows)"
    by (cases "op = KLen") (auto simp: op_slot_values_def ones)
  finally show ?thesis by (simp only: f)
qed

text \<open>The three reductions and the container of an operand type.\<close>

definition float_kinds :: "bool \<Rightarrow> k_agg_op \<Rightarrow> reduce_kind list" where
  "float_kinds fl op = (if fl then op_slots op F32Sum F32Min F32Max else op_slots op I32Sum I32Min I32Max)"

definition float_container :: "bool \<Rightarrow> k_agg_op \<Rightarrow> primary_kind" where
  "float_container fl op = (if op \<in> {KCount, KLen} then PkU32 else if fl then PkF32Bits else PkI32)"

lemma count_cell: "k < 2 ^ 32 \<Longrightarrow> ucast (sum_list (replicate k (1 :: u32))) = (of_nat k :: u64)"
proof -
  assume "k < 2 ^ 32"
  moreover have "sum_list (replicate k (1 :: u32)) = of_nat k" by (simp add: sum_list_replicate)
  ultimately show ?thesis by (simp add: word_unat_eq_iff unat_ucast_up unat_of_nat)
qed

lemma op_cell:
  assumes "length vs \<le> k" and "k < 2 ^ 32" and g: "g < ng"
    and r0: "slot_result rt (float_kinds fl op ! 0) (op_slot_values op 0 vs k) (primary ob ! g)"
    and r1: "op = KMean \<longrightarrow> (\<exists>cs. count_buf ob = Some cs \<and> slot_result rt Counter (op_slot_values op 1 vs k) (cs ! g))"
    and pk: "primary_kind ob = float_container fl op"
  shows "op_meaning rt fl op vs k (out_cell (finalize_simple_like rt op ob ng (map_option (\<lambda>c. read_words c ng) (count_buf ob))) g)"
proof -
  note defs = op_meaning_def finalize_simple_like_def pk float_container_def float_kinds_def op_slots_def op_slot_values_def
    read_words_def read_u32_to_u64_def slot_result_def
  note r0 = r0[unfolded slot_result_def float_kinds_def op_slot_values_def op_slots_def]
  have small: "length vs < 2 ^ 32" using assms(1,2) by simp
  show ?thesis
  proof (cases op)
    case KSum
    with r0 g show ?thesis by (cases fl) (auto simp: defs f32_meaning_def i32_meaning_def)
  next
    case KMean
    then obtain cs where cs: "count_buf ob = Some cs" "cs ! g = sum_list (replicate (length vs) 1)"
      using r1 by (auto simp: slot_result_def op_slot_values_def)
    then have c: "unat (cs ! g) = length vs" "cs ! g = 0 \<longleftrightarrow> vs = []"
      using small by (simp_all add: sum_list_replicate unat_of_nat word_unat_eq_iff)
    show ?thesis
      using KMean r0 g cs(1) c
      by (cases fl) (auto simp: defs Let_def f32_meaning_def i32_meaning_def mean_from_sum_count_def mean_cell_def)
  next
    case KCount
    with r0 g small show ?thesis by (cases fl) (simp_all add: defs count_cell)
  next
    case KLen
    with r0 g assms(2) show ?thesis by (cases fl) (simp_all add: defs count_cell)
  next
    case KMin
    show ?thesis
    proof (cases fl)
      case True
      with KMin r0 have s: "summary fval f32_infinity (set vs) (primary ob ! g)" by simp
      show ?thesis
      proof (cases "vs = []")
        case True
        with s have "primary ob ! g = f32_infinity" using summary_none fval_infinite(1) by fastforce
        with True \<open>fl\<close> KMin g show ?thesis by (simp add: defs)
      next
        case False
        with \<open>fl\<close> KMin g summary_extremum[OF s] show ?thesis by (simp add: defs f32_meaning_def picked_f32_def)
      qed
    next
      case False
      with KMin r0 g signed_extrema(1)[of vs] show ?thesis by (auto simp: defs i32_meaning_def picked_def)
    qed
  next
    case KMax
    show ?thesis
    proof (cases fl)
      case True
      with KMax r0 have s: "summary (\<lambda>x. - fval x) f32_neg_infinity (set vs) (primary ob ! g)" by simp
      show ?thesis
      proof (cases "vs = []")
        case True
        with s have "primary ob ! g = f32_neg_infinity" using summary_none[of "\<lambda>x. - fval x"] fval_infinite(2) by fastforce
        with True \<open>fl\<close> KMax g show ?thesis by (simp add: defs)
      next
        case False
        with \<open>fl\<close> KMax g summary_extremum_max[OF s] show ?thesis by (simp add: defs f32_meaning_def picked_f32_def)
      qed
    next
      case False
      with KMax r0 g signed_extrema(2)[of vs] show ?thesis by (auto simp: defs i32_meaning_def picked_def)
    qed
  qed
qed

section \<open>What a fused query asks\<close>

fun column_words :: "value_column \<Rightarrow> 32 word list" where
  "column_words (VI32 data _) = data"
| "column_words (VF32 data _) = data"
| "column_words _ = []"

definition fused_column :: "nat \<Rightarrow> columns_by_name \<Rightarrow> string \<Rightarrow> bool" where
  "fused_column n by_name name \<longleftrightarrow>
     (\<exists>vcol. by_name name = Some vcol \<and> value_dtype vcol \<in> {KtI32, KtF32} \<and> column_fits n vcol)"

definition column_of :: "columns_by_name \<Rightarrow> string \<Rightarrow> value_column" where
  "column_of by_name name = the (by_name name)"

definition expr_value :: "runtime \<Rightarrow> fused_math \<Rightarrow> columns_by_name \<Rightarrow> k_agg_expr \<Rightarrow> nat \<Rightarrow> f32" where
  "expr_value rt fm by_name e row =
     eval_expr fm (\<lambda>name. float_of_value rt (value_dtype (column_of by_name name)) (column_words (column_of by_name name) ! row)) e"

fun spec_op :: "k_agg_spec \<Rightarrow> k_agg_op" where
  "spec_op (KSimple _ op _) = op" | "spec_op (KExpression _ op _) = op" | "spec_op (KLength _) = KLen"

fun spec_float :: "columns_by_name \<Rightarrow> k_agg_spec \<Rightarrow> bool" where
  "spec_float by_name (KSimple name _ _) = (value_dtype (column_of by_name name) = KtF32)" | "spec_float by_name _ = True"

fun spec_present :: "columns_by_name \<Rightarrow> k_agg_spec \<Rightarrow> nat \<Rightarrow> bool" where
  "spec_present by_name (KSimple name _ _) row = get_valid (column_valid (column_of by_name name)) row"
| "spec_present by_name (KExpression e _ _) row =
     list_all (\<lambda>name. get_valid (column_valid (column_of by_name name)) row) (k_referenced_columns e)"
| "spec_present by_name (KLength _) row = True"

fun spec_value :: "runtime \<Rightarrow> fused_math \<Rightarrow> columns_by_name \<Rightarrow> k_agg_spec \<Rightarrow> nat \<Rightarrow> 32 word" where
  "spec_value rt fm by_name (KSimple name _ _) row = column_words (column_of by_name name) ! row"
| "spec_value rt fm by_name (KExpression e _ _) row = expr_value rt fm by_name e row"
| "spec_value rt fm by_name (KLength _) row = 1"

definition spec_values :: "runtime \<Rightarrow> fused_math \<Rightarrow> columns_by_name \<Rightarrow> k_agg_spec \<Rightarrow> nat list \<Rightarrow> 32 word list" where
  "spec_values rt fm by_name spec rows = map (spec_value rt fm by_name spec) (filter (spec_present by_name spec) rows)"

fun fused_kind :: "k_agg_op \<Rightarrow> value_column \<Rightarrow> agg_kind" where
  "fused_kind op vcol =
     (case op of KCount \<Rightarrow> CountRows | KLen \<Rightarrow> LenRows
      | KSum \<Rightarrow> if value_dtype vcol = KtF32 then SumF32 else SumI32
      | KMean \<Rightarrow> if value_dtype vcol = KtF32 then MeanF32 else MeanI32
      | KMin \<Rightarrow> if value_dtype vcol = KtF32 then MinF32 else MinI32
      | KMax \<Rightarrow> if value_dtype vcol = KtF32 then MaxF32 else MaxI32)"

text \<open>An aggregate of a column means what \<open>dispatch_groupby\<close> computes for it, unless it is a minimum or
  maximum over no values; an aggregate of an expression is that of the expression's float values.\<close>

definition fused_meaning :: "runtime \<Rightarrow> fused_math \<Rightarrow> columns_by_name \<Rightarrow> k_agg_spec \<Rightarrow> nat list \<Rightarrow> agg_cell \<Rightarrow> bool" where
  "fused_meaning rt fm by_name spec rows c \<longleftrightarrow>
     (if spec_op spec \<in> {KMin, KMax} \<and> spec_values rt fm by_name spec rows = []
      then c = (if spec_float by_name spec
                then CF32 (Some (if spec_op spec = KMin then f32_infinity else f32_neg_infinity))
                else CI32 (Some (if spec_op spec = KMin then i32_max else i32_min)))
      else case spec of
          KSimple name op _ \<Rightarrow> agg_meaning rt (fused_kind op (column_of by_name name)) (column_of by_name name) rows c
        | KExpression e op _ \<Rightarrow> op_meaning rt True op (spec_values rt fm by_name spec rows) (length rows) c
        | KLength _ \<Rightarrow> c = CU64 (of_nat (length rows)))"

lemma op_meaning_fused:
  assumes "op_meaning rt (spec_float by_name spec) (spec_op spec) (spec_values rt fm by_name spec rows) (length rows) c"
    and cols: "\<forall>name \<in> set (spec_columns spec). fused_column n by_name name"
  shows "fused_meaning rt fm by_name spec rows c"
proof (cases spec)
  case (KSimple name op al)
  then obtain vcol where v: "column_of by_name name = vcol" "value_dtype vcol \<in> {KtI32, KtF32}"
    using cols by (auto simp: fused_column_def column_of_def)
  have vs: "spec_values rt fm by_name spec rows = kept (column_words vcol) (column_valid vcol) rows"
  proof -
    have "spec_value rt fm by_name spec = (!) (column_words vcol)" "spec_present by_name spec = get_valid (column_valid vcol)"
      using KSimple v(1) by (simp_all add: fun_eq_iff)
    then show ?thesis by (simp add: spec_values_def kept_def)
  qed
  consider data valid where "vcol = VI32 data valid" | data valid where "vcol = VF32 data valid" using v(2) by (cases vcol) auto
  then show ?thesis
  proof cases
    case 1
    with assms(1) KSimple v(1) vs show ?thesis
      by (cases op) (auto simp: fused_meaning_def op_meaning_def agg_meaning_def length_kept i32_meaning_def split: if_splits)
  next
    case 2
    with assms(1) KSimple v(1) vs show ?thesis
      by (cases op) (auto simp: fused_meaning_def op_meaning_def agg_meaning_def length_kept f32_meaning_def split: if_splits)
  qed
next
  case (KExpression e op al)
  with assms(1) show ?thesis by (auto simp: fused_meaning_def op_meaning_def)
next
  case (KLength al)
  with assms(1) show ?thesis by (simp add: fused_meaning_def op_meaning_def)
qed

section \<open>The columns\<close>

lemma insert_dtypes_ok:
  assumes "\<forall>name \<in> set names. by_name name \<noteq> None"
    and "\<forall>name dt. map_of out name = Some dt \<longrightarrow> by_name name \<noteq> None \<and> dt = value_dtype (column_of by_name name)"
  shows "\<exists>dts. insert_dtypes out names by_name = Inr dts \<and> dom (map_of dts) = dom (map_of out) \<union> set names \<and>
    (\<forall>name dt. map_of dts name = Some dt \<longrightarrow> dt = value_dtype (column_of by_name name))"
  using assms
proof (induction names arbitrary: out)
  case (Cons name names)
  obtain out' where out': "insert_dtype out name by_name = Inr out'" "dom (map_of out') = insert name (dom (map_of out))"
    "\<forall>name dt. map_of out' name = Some dt \<longrightarrow> by_name name \<noteq> None \<and> dt = value_dtype (column_of by_name name)"
  proof (cases "map_of out name")
    case None
    obtain vcol where "by_name name = Some vcol" using Cons.prems(1) by auto
    with None Cons.prems(2) show ?thesis by (intro that[of "(name, value_dtype vcol) # out"]) (auto simp: insert_dtype_def column_of_def)
  next
    case (Some dt)
    with Cons.prems(2) show ?thesis by (intro that[of out]) (auto simp: insert_dtype_def)
  qed
  have "\<forall>name \<in> set names. by_name name \<noteq> None" using Cons.prems(1) by simp
  from Cons.IH[OF this out'(3)] out'(1,2) show ?case by auto
qed auto

definition column_buffers :: "nat \<Rightarrow> value_column \<Rightarrow> gpu_buf \<times> gpu_buf" where
  "column_buffers n vcol = (Words (take n (column_words vcol)), Octets (pad_valid (take (div_ceil n 8) (column_valid vcol))))"

lemma slot_buffers_ok:
  assumes "\<forall>name \<in> set names. fused_column n by_name name"
  shows "slot_buffers s (zip names (map (\<lambda>name. value_dtype (column_of by_name name)) names)) by_name n =
    Some (Inr (map (\<lambda>name. column_buffers n (column_of by_name name)) names))"
  using assms
proof (induction names arbitrary: s)
  case (Cons name names)
  then obtain vcol where v: "by_name name = Some vcol" "value_dtype vcol \<in> {KtI32, KtF32}" "column_fits n vcol"
    by (auto simp: fused_column_def)
  with Cons show ?case
    by (cases vcol) (simp_all add: column_of_def vcol_bytes_for_slot_def column_buffers_def)
qed simp

lemma padded_valid:
  assumes "row < n" and "div_ceil n 8 \<le> length valid"
  shows "get_valid (pad_valid (take (div_ceil n 8) valid)) row = get_valid valid row"
proof -
  have "row div 8 < div_ceil n 8" using assms(1) by (rule less_div_ceil_8)
  with assms(2) show ?thesis by (auto simp: get_valid_bit pad_valid_def nth_append)
qed

lemma column_fits_valid: "column_fits n vcol \<Longrightarrow> div_ceil n 8 \<le> length (column_valid vcol)"
  by (cases vcol) simp_all

lemma eval_expr_cong: "(\<And>name. name \<in> set (k_leaves e) \<Longrightarrow> val name = val' name) \<Longrightarrow> eval_expr fm val e = eval_expr fm val' e"
  unfolding eval_expr_def by (metis map_cong)

lemma fused_term_columns:
  assumes dist: "distinct names_of" and cols: "\<forall>name \<in> set names_of. fused_column n by_name name"
    and inp: "inp = \<lparr>in_order = names_of, in_dtypes = map (\<lambda>name. value_dtype (column_of by_name name)) names_of,
      in_vals = map (\<lambda>name. take n (column_words (column_of by_name name))) names_of,
      in_valid = map (\<lambda>name. pad_valid (take (div_ceil n 8) (column_valid (column_of by_name name)))) names_of\<rparr>"
    and names: "set (spec_columns spec) \<subseteq> set names_of" and row: "row < n"
  shows "fused_term rt fm inp spec j row = op_term (spec_op spec) j (spec_present by_name spec row) (spec_value rt fm by_name spec row)"
proof -
  have at: "row_valid inp i row = get_valid (column_valid (column_of by_name name)) row"
      "row_value inp i row = column_words (column_of by_name name) ! row"
      "in_dtypes inp ! i = value_dtype (column_of by_name name)"
    if "i < length names_of" "names_of ! i = name" for i name
  proof -
    have "fused_column n by_name name" using cols that by auto
    then have "column_fits n (column_of by_name name)" by (auto simp: fused_column_def column_of_def)
    with that row padded_valid[OF row column_fits_valid] show "row_valid inp i row = get_valid (column_valid (column_of by_name name)) row"
      "row_value inp i row = column_words (column_of by_name name) ! row" "in_dtypes inp ! i = value_dtype (column_of by_name name)"
      by (simp_all add: inp row_valid_def row_value_def)
  qed
  have idx: "\<exists>i. find_position names_of name = Some i \<and> column_index names_of name = i \<and> i < length names_of \<and> names_of ! i = name"
    if "name \<in> set names_of" for name
    using that find_position_nth[OF dist] by (auto simp: in_set_conv_nth column_index_def)
  show ?thesis
  proof (cases spec)
    case (KSimple name op al)
    with names obtain i where "find_position names_of name = Some i" "i < length names_of" "names_of ! i = name" using idx by auto
    with KSimple at show ?thesis by (simp add: fused_term_def inp)
  next
    case (KExpression e op al)
    have leaf: "row_valid inp (column_index names_of name) row = get_valid (column_valid (column_of by_name name)) row \<and>
        float_of_value rt (in_dtypes inp ! column_index names_of name) (row_value inp (column_index names_of name) row) =
        float_of_value rt (value_dtype (column_of by_name name)) (column_words (column_of by_name name) ! row)"
      if "name \<in> set (k_leaves e)" for name
      using idx[of name] at that names KExpression by (auto simp: k_referenced_eq)
    have ord: "in_order inp = names_of" by (simp add: inp)
    have "list_all (\<lambda>name. row_valid inp (column_index names_of name) row) (k_referenced_columns e) =
        list_all (\<lambda>name. get_valid (column_valid (column_of by_name name)) row) (k_referenced_columns e)"
      using leaf by (intro list.pred_cong refl) (simp add: k_referenced_eq)
    moreover have "eval_expr fm (\<lambda>name. float_of_value rt (in_dtypes inp ! column_index names_of name) (row_value inp (column_index names_of name) row)) e =
        expr_value rt fm by_name e row"
      unfolding expr_value_def by (rule eval_expr_cong) (use leaf in blast)
    ultimately show ?thesis using KExpression by (simp add: fused_term_def Let_def ord)
  next
    case (KLength al)
    then show ?thesis by (simp add: fused_term_def op_term_def)
  qed
qed

section \<open>The launch\<close>

text \<open>Everything fixed about a fused query before its groups are known.\<close>

definition fused_query_ok :: "nat \<Rightarrow> columns_by_name \<Rightarrow> k_agg_spec list \<Rightarrow> dtype_table \<Rightarrow> agg_signature \<Rightarrow> bool" where
  "fused_query_ok n by_name aggs dts sig \<longleftrightarrow>
     insert_dtypes [] (spec_names aggs) by_name = Inr dts \<and> from_specs aggs (map_of dts) = Inr sig \<and>
     (\<forall>name \<in> set (spec_names aggs). fused_column n by_name name)"

lemma fused_query_D:
  assumes "fused_query_ok n by_name aggs dts sig"
  shows "distinct (column_order sig)" "set (column_order sig) = set (spec_names aggs)"
    "column_dtypes sig = map (\<lambda>name. value_dtype (column_of by_name name)) (column_order sig)"
    "\<forall>name \<in> set (column_order sig). fused_column n by_name name"
    "\<forall>name \<in> set (spec_names aggs). map_of dts name = Some (value_dtype (column_of by_name name))"
    "signature_supported_by_fused sig"
proof -
  have cols: "\<forall>name \<in> set (spec_names aggs). fused_column n by_name name" using assms by (simp add: fused_query_ok_def)
  then have "\<forall>name \<in> set (spec_names aggs). by_name name \<noteq> None" by (auto simp: fused_column_def)
  from insert_dtypes_ok[OF this, of "[]"] assms
  show dts: "\<forall>name \<in> set (spec_names aggs). map_of dts name = Some (value_dtype (column_of by_name name))"
    unfolding fused_query_ok_def by fastforce
  have sig: "column_order sig = first_seen (spec_names aggs)" "map Some (column_dtypes sig) = map (map_of dts) (column_order sig)"
    using assms from_specs_slots[of aggs "map_of dts" sig] by (simp_all add: fused_query_ok_def)
  then show "distinct (column_order sig)" and set: "set (column_order sig) = set (spec_names aggs)" by simp_all
  have "map (map_of dts) (column_order sig) = map Some (map (\<lambda>name. value_dtype (column_of by_name name)) (column_order sig))"
    using dts set by simp
  with sig(2) show dtypes: "column_dtypes sig = map (\<lambda>name. value_dtype (column_of by_name name)) (column_order sig)"
    by (metis map_injective option.inject injI)
  show order: "\<forall>name \<in> set (column_order sig). fused_column n by_name name" using cols set by simp
  show "signature_supported_by_fused sig"
    unfolding signature_supported_by_fused_def dtypes using order by (auto simp: list_all_iff fused_column_def column_of_def)
qed

lemma output_shape_ok:
  assumes "fused_query_ok n by_name aggs dts sig" and "spec \<in> set aggs"
  shows "output_shape spec dts = Inr (spec_op spec, float_container (spec_float by_name spec) (spec_op spec))"
    and "spec_slots sig (column_dtypes sig) spec = float_kinds (spec_float by_name spec) (spec_op spec)"
    and "set (spec_columns spec) \<subseteq> set (column_order sig)"
proof -
  note q = fused_query_D[OF assms(1)]
  show sub: "set (spec_columns spec) \<subseteq> set (column_order sig)" using assms(2) q(2) by (auto simp: spec_names_def)
  have "output_shape spec dts = Inr (spec_op spec, float_container (spec_float by_name spec) (spec_op spec)) \<and>
      spec_slots sig (column_dtypes sig) spec = float_kinds (spec_float by_name spec) (spec_op spec)"
  proof (cases spec)
    case (KSimple name op al)
    with sub have n: "name \<in> set (column_order sig)" by simp
    then obtain i where i: "i < length (column_order sig)" "column_order sig ! i = name" by (auto simp: in_set_conv_nth)
    then have "find_position (column_order sig) name = Some i" using find_position_nth[OF q(1)] by blast
    then have dt: "column_dtype_for sig (column_dtypes sig) name = Some (value_dtype (column_of by_name name))"
      using i by (simp add: column_dtype_for_def q(3))
    have "value_dtype (column_of by_name name) \<in> {KtI32, KtF32}" "map_of dts name = Some (value_dtype (column_of by_name name))"
      using q(2,4,5) n by (auto simp: fused_column_def column_of_def)
    with KSimple dt show ?thesis
      by (auto simp: output_shape_def primary_kind_for_def float_container_def spec_slots_def float_kinds_def
          sum_kind_for_def min_kind_for_def max_kind_for_def)
  next
    case (KExpression e op al)
    then show ?thesis by (simp add: output_shape_def primary_kind_for_def float_container_def spec_slots_def float_kinds_def)
  next
    case (KLength al)
    then show ?thesis by (simp add: output_shape_def float_container_def spec_slots_def float_kinds_def op_slots_def)
  qed
  then show "output_shape spec dts = Inr (spec_op spec, float_container (spec_float by_name spec) (spec_op spec))"
    "spec_slots sig (column_dtypes sig) spec = float_kinds (spec_float by_name spec) (spec_op spec)" by simp_all
qed

definition fresh_output :: "bool \<Rightarrow> k_agg_op \<Rightarrow> nat \<Rightarrow> output_buf" where
  "fresh_output fl op ng = \<lparr>primary = replicate ng (primary_seed op (float_container fl op)),
     count_buf = (if op = KMean then Some (replicate ng 0) else None), primary_kind = float_container fl op\<rparr>"

lemma fresh_seed: "replicate ng (primary_seed op (float_container fl op)) = replicate ng (ident (slot_agg rt (float_kinds fl op ! 0)))"
  by (cases op; cases fl) (simp_all add: primary_seed_def float_container_def float_kinds_def op_slots_def int_agg_def sum_agg_def min_agg_def max_agg_def)

lemma fresh_words:
  "ob_words (fresh_output fl op ng) = map (\<lambda>kind. replicate ng (ident (slot_agg rt kind))) (float_kinds fl op)"
  using fresh_seed[of ng op fl rt]
  by (cases op; cases fl) (simp_all add: fresh_output_def ob_words_def float_kinds_def op_slots_def int_agg_def)

lemma is_mean_op: "is_mean spec \<longleftrightarrow> spec_op spec = KMean"
  by (cases spec) (simp_all add: is_mean_def)

lemma allocate_ok:
  assumes "fused_query_ok n by_name aggs dts sig" and "spec \<in> set aggs" and "0 < ng"
  shows "allocate_agg_output spec dts ng = Inr (fresh_output (spec_float by_name spec) (spec_op spec) ng)"
  using assms(3) by (simp add: allocate_agg_output_def output_shape_ok(1)[OF assms(1,2)] fresh_output_def)

lemma member_vals: "vals_in ok val r2g (length r2g) g = map val (filter ok (member_rows r2g g))"
  by (simp add: vals_in_def rows_in_def member_rows_def conj_commute)

lemma member_rows_less: "row \<in> set (member_rows r2g g) \<Longrightarrow> row < length r2g"
  by (simp add: member_rows_def)

text \<open>The slots of one aggregate after the launch.\<close>

lemma launched_slot:
  assumes rt: "lawful_runtime rt" and q: "fused_query_ok (length r2g) by_name aggs dts sig"
    and n: "length r2g < 2 ^ 32" and ng: "ng < 2 ^ 32"
    and a: "a < length aggs" and g: "g < ng" and tgs: "0 < tgs"
    and obs: "obs = map (\<lambda>spec. fresh_output (spec_float by_name spec) (spec_op spec) ng) aggs"
    and cols: "cols = map (\<lambda>name. column_buffers (length r2g) (column_of by_name name)) (column_order sig)"
    and res: "res = run_pipeline rt fm sig aggs (fused_bindings r2g (length r2g) ng cols obs) tgs"
    and j: "j < length (float_kinds (spec_float by_name (aggs ! a)) (spec_op (aggs ! a)))"
  shows "slot_result rt (float_kinds (spec_float by_name (aggs ! a)) (spec_op (aggs ! a)) ! j)
      (op_slot_values (spec_op (aggs ! a)) j (spec_values rt fm by_name (aggs ! a) (member_rows r2g g)) (length (member_rows r2g g)))
      (res ! a ! j ! g)"
    and "length (res ! a ! j) = ng"
proof -
  let ?spec = "aggs ! a" and ?inp = "dispatch_inputs sig cols"
  let ?kinds = "float_kinds (spec_float by_name ?spec) (spec_op ?spec)"
  let ?T = "fused_term rt fm ?inp ?spec j"
  note d = fused_query_D[OF q]
  have spec: "?spec \<in> set aggs" using a by simp
  note shape = output_shape_ok[OF q spec]
  have obs_all: "list_all2 (\<lambda>spec ob. (count_buf ob \<noteq> None) = is_mean spec) aggs obs"
    by (simp add: obs list_all2_conv_all_nth is_mean_op fresh_output_def)
  have words: "ob_words (obs ! a) = map (\<lambda>kind. replicate ng (ident (slot_agg rt kind))) ?kinds"
    unfolding fresh_words[symmetric] using a by (simp add: obs)
  have lens: "length cols = length (column_dtypes sig)" "j < length (ob_words (obs ! a))"
    "length (spec_slots sig (column_dtypes sig) ?spec) = length (ob_words (obs ! a))"
    using j d(3) shape(2) by (simp_all add: cols words)
  obtain name where run: "res ! a ! j = prereduce_kernel (slot_agg rt (?kinds ! j)) tgs (length r2g) (\<lambda>row. ?T row \<noteq> None) (\<lambda>row. the (?T row)) r2g ng
      (replicate ng (ident (slot_agg rt (?kinds ! j)))) (order rt name (tgs * ng))"
    using run_pipeline_dispatch[OF lens(1) n ng obs_all a lens(2,3), of rt fm r2g tgs] words j shape(2) by (auto simp: res)
  have inp: "?inp = \<lparr>in_order = column_order sig, in_dtypes = map (\<lambda>name. value_dtype (column_of by_name name)) (column_order sig),
      in_vals = map (\<lambda>name. take (length r2g) (column_words (column_of by_name name))) (column_order sig),
      in_valid = map (\<lambda>name. pad_valid (take (div_ceil (length r2g) 8) (column_valid (column_of by_name name)))) (column_order sig)\<rparr>"
    by (simp add: dispatch_inputs_def cols column_buffers_def d(3))
  have "?T row = op_term (spec_op ?spec) j (spec_present by_name ?spec row) (spec_value rt fm by_name ?spec row)"
    if "row \<in> set (member_rows r2g g)" for row
    by (rule fused_term_columns[OF d(1,4) inp shape(3) member_rows_less[OF that]])
  then have "vals_in (\<lambda>row. ?T row \<noteq> None) (\<lambda>row. the (?T row)) r2g (length r2g) g =
      op_slot_values (spec_op ?spec) j (spec_values rt fm by_name ?spec (member_rows r2g g)) (length (member_rows r2g g))"
    unfolding member_vals spec_values_def op_term_values[symmetric]
    by (intro map_cong filter_cong refl) auto
  moreover have "schedule_ok (tgs * ng) (order rt name (tgs * ng))" using rt by (simp add: lawful_runtime_def lawful_order_def)
  ultimately show "slot_result rt (?kinds ! j)
      (op_slot_values (spec_op ?spec) j (spec_values rt fm by_name ?spec (member_rows r2g g)) (length (member_rows r2g g))) (res ! a ! j ! g)"
    unfolding run using slot_kernel[OF rt _ g tgs refl] by metis
  show "length (res ! a ! j) = ng" unfolding run by (simp add: prereduce_length)
qed

lemma length_run_pipeline: "length (run_pipeline rt fm sig specs bs tgs) = length specs"
  by (simp add: run_pipeline_def Let_def build_agg_slots_def)

lemma finalize_len:
  "(\<And>cs. cnt = Some cs \<Longrightarrow> length cs = ng) \<Longrightarrow> output_len ng (finalize_simple_like rt op ob ng cnt)"
  by (cases op; cases "primary_kind ob"; cases cnt)
    (auto simp: finalize_simple_like_def Let_def read_words_def read_u32_to_u64_def mean_from_sum_count_def)

lemma fused_after_build_meaning:
  assumes rt: "lawful_runtime rt" and q: "fused_query_ok (length r2g) by_name aggs dts sig"
    and n: "length r2g < 2 ^ 32" and ng: "0 < ng" "ng \<le> emit_max_groups"
    and src: "pso_source pso = emit_msl (env_debug env) sig aggs"
  shows "\<exists>outs. fused_after_build rt fm env pso sig aggs dts by_name (length r2g) r2g ng = Some (Inr outs) \<and>
    length outs = length aggs \<and> (\<forall>out \<in> set outs. output_len ng out) \<and>
    (\<forall>a < length aggs. \<forall>g < ng. fused_meaning rt fm by_name (aggs ! a) (member_rows r2g g) (out_cell (outs ! a) g))"
proof -
  note d = fused_query_D[OF q]
  define cols where "cols = map (\<lambda>name. column_buffers (length r2g) (column_of by_name name)) (column_order sig)"
  define obs where "obs = map (\<lambda>spec. fresh_output (spec_float by_name spec) (spec_op spec) ng) aggs"
  define tgs where "tgs = prereduce_tgs (length r2g)"
  define res where "res = run_pipeline rt fm sig aggs (fused_bindings r2g (length r2g) ng cols obs) tgs"
  define finals where "finals = map (\<lambda>a. finalize_simple_like rt (spec_op (aggs ! a)) (written_back (obs ! a) (res ! a)) ng
    (map_option (\<lambda>c. read_words c ng) (count_buf (written_back (obs ! a) (res ! a))))) [0..<length aggs]"
  have tgs: "0 < tgs" by (simp add: tgs_def prereduce_tgs_def)
  have small: "ng < 2 ^ 32" using ng(2) by (simp add: emit_max_groups_def)
  note slot = launched_slot[OF rt q n small _ _ tgs obs_def cols_def res_def]
  have bufs: "slot_buffers 0 (zip (column_order sig) (column_dtypes sig)) by_name (length r2g) = Some (Inr cols)"
    unfolding d(3) cols_def using slot_buffers_ok[OF d(4)] by simp
  have allocs: "rmap (\<lambda>agg. allocate_agg_output agg dts ng) aggs = Inr obs"
    unfolding obs_def by (rule rmap_total) (rule allocate_ok[OF q _ ng(1)])
  have final: "finalize_agg_output rt (aggs ! a) (written_back (obs ! a) (res ! a)) ng dts = Inr (finals ! a)" if a: "a < length aggs" for a
  proof -
    have "0 < length (float_kinds (spec_float by_name (aggs ! a)) (spec_op (aggs ! a)))"
      by (cases "spec_op (aggs ! a)") (simp_all add: float_kinds_def op_slots_def)
    then have "length (res ! a ! 0) = ng" using slot(2)[OF a ng(1)] by blast
    then have "length (primary (written_back (obs ! a) (res ! a))) = ng" by (simp add: written_back_def)
    moreover have "set (spec_columns (aggs ! a)) \<subseteq> set (spec_names aggs)" using nth_mem[OF a] by (force simp: spec_names_def)
    then have "\<forall>name \<in> set (spec_columns (aggs ! a)). map_of dts name \<noteq> None" using d(5) by fastforce
    moreover have "finals ! a = finalize_simple_like rt (spec_op (aggs ! a)) (written_back (obs ! a) (res ! a)) ng
        (map_option (\<lambda>c. read_words c ng) (count_buf (written_back (obs ! a) (res ! a))))"
      using a by (simp add: finals_def)
    moreover have "finalize_simple_like rt KLen ob ng cs = OU64 (read_u32_to_u64 (primary ob) ng)" for ob cs
      by (simp add: finalize_simple_like_def Let_def)
    ultimately show ?thesis
      by (cases "aggs ! a") (auto simp: finalize_agg_output_def Let_def)
  qed
  have "length res = length aggs" "length obs = length aggs" by (simp_all add: res_def length_run_pipeline obs_def)
  then have "rmap (\<lambda>(agg, ob). finalize_agg_output rt agg ob ng dts) (zip aggs (map2 written_back obs res)) = Inr finals"
    unfolding rmap_Inr_iff using final by (simp add: finals_def)
  then have out: "fused_after_build rt fm env pso sig aggs dts by_name (length r2g) r2g ng = Some (Inr finals)"
    using ng n src by (simp add: fused_after_build_def bufs allocs Let_def u32_max_def flip: res_def tgs_def)
  have meaning: "fused_meaning rt fm by_name (aggs ! a) (member_rows r2g g) (out_cell (finals ! a) g)"
    if a: "a < length aggs" and g: "g < ng" for a g
  proof -
    let ?spec = "aggs ! a" and ?rows = "member_rows r2g g"
    let ?vs = "spec_values rt fm by_name ?spec ?rows"
    let ?ob = "written_back (obs ! a) (res ! a)"
    have "length ?vs \<le> length ?rows" by (simp add: spec_values_def)
    moreover have "length ?rows < 2 ^ 32" using length_member_rows[of r2g g] n by simp
    moreover have "slot_result rt (float_kinds (spec_float by_name ?spec) (spec_op ?spec) ! 0)
        (op_slot_values (spec_op ?spec) 0 ?vs (length ?rows)) (primary ?ob ! g)"
    proof -
      have "0 < length (float_kinds (spec_float by_name ?spec) (spec_op ?spec))"
        by (cases "spec_op ?spec") (simp_all add: float_kinds_def op_slots_def)
      from slot(1)[OF a g this] show ?thesis by (simp add: written_back_def)
    qed
    moreover have "spec_op ?spec = KMean \<longrightarrow> (\<exists>cs. count_buf ?ob = Some cs \<and> slot_result rt Counter (op_slot_values (spec_op ?spec) 1 ?vs (length ?rows)) (cs ! g))"
    proof
      assume mean: "spec_op ?spec = KMean"
      then have k: "1 < length (float_kinds (spec_float by_name ?spec) (spec_op ?spec))" "float_kinds (spec_float by_name ?spec) (spec_op ?spec) ! 1 = Counter"
        by (simp_all add: float_kinds_def op_slots_def)
      have "count_buf ?ob = Some (res ! a ! 1)" using a mean by (simp add: written_back_def obs_def fresh_output_def)
      with slot(1)[OF a g k(1)] k(2) show "\<exists>cs. count_buf ?ob = Some cs \<and> slot_result rt Counter (op_slot_values (spec_op ?spec) 1 ?vs (length ?rows)) (cs ! g)"
        by simp
    qed
    moreover have "primary_kind ?ob = float_container (spec_float by_name ?spec) (spec_op ?spec)"
      using a by (simp add: written_back_def obs_def fresh_output_def)
    ultimately have "op_meaning rt (spec_float by_name ?spec) (spec_op ?spec) ?vs (length ?rows)
        (out_cell (finalize_simple_like rt (spec_op ?spec) ?ob ng (map_option (\<lambda>c. read_words c ng) (count_buf ?ob))) g)"
      by (rule op_cell[OF _ _ g])
    moreover have "\<forall>name \<in> set (spec_columns ?spec). fused_column (length r2g) by_name name"
      using q a by (auto simp: fused_query_ok_def spec_names_def)
    ultimately show ?thesis using op_meaning_fused a by (simp add: finals_def)
  qed
  have "output_len ng (finals ! a)" if a: "a < length aggs" for a
    using a slot(2)[OF a ng(1)] by (auto simp: finals_def read_words_def intro!: finalize_len)
  then have "\<forall>out \<in> set finals. output_len ng out" by (auto simp: in_set_conv_nth finals_def)
  then show ?thesis using out meaning by (intro exI[of _ finals]) (simp add: finals_def)
qed

section \<open>The dispatcher\<close>

lemma fused_build_ok:
  assumes a1: "orderly_build a1 encoded" and enc: "fused_encode key_cols = Inr (encoded, schema)"
    and rows: "\<forall>c \<in> set key_cols. kc_n_rows c = n" and n: "0 < n" "n < 2 ^ 32"
  shows "\<exists>b reps. fused_build rt a1 key_cols encoded n = Some (Inr b) \<and> length (row_to_group b) = n \<and> 0 < unat (n_groups b) \<and>
    length reps = unat (n_groups b) \<and> (\<forall>r \<in> set reps. r < n) \<and>
    (\<forall>i < n. \<exists>!g. g < length reps \<and> same_key key_cols (reps ! g) i) \<and>
    (\<forall>g < length reps. \<forall>i < n. same_key key_cols (reps ! g) i \<longrightarrow> reps ! g \<le> i) \<and>
    (\<forall>g < length reps. member_rows (row_to_group b) g = filter (same_key key_cols (reps ! g)) [0..<n]) \<and>
    fused_keys key_cols encoded schema (first_row_per_group b) = Some (map (\<lambda>c. column_view c reps) key_cols)"
proof (cases "key_cols = []")
  case True
  let ?b = "\<lparr>row_to_group = replicate n 0, first_row_per_group = [0], n_groups = 1\<rparr>"
  have "member_rows (replicate n 0) 0 = [0..<n]" by (simp add: member_rows_def)
  with True n show ?thesis
    by (intro exI[of _ ?b] exI[of _ "[0]"]) (auto simp: fused_build_def fused_keys_def same_key_def)
next
  case False
  then have e: "encode_keys key_cols = Inr (encoded, schema)"
    using enc by (auto simp: fused_encode_def split: sum.splits)
  obtain m where m: "\<forall>c \<in> set key_cols. kc_n_rows c = m" "length encoded = m"
    using encode_keys_Inr[OF e] by (metis diff_zero length_map length_upt)
  have len: "length encoded = n" using False m rows by (cases key_cols) auto
  obtain b where b: "dispatch_build a1 encoded n = Some (Inr b)" "grouping encoded b" "first_rows_minimal b"
    using dispatch_build_groups[of a1 n encoded] a1 n len by auto
  define reps where "reps = map unat (first_row_per_group b)"
  note groups = grouping_by_keys[OF e b(2,3), folded reps_def, unfolded len]
  have "\<exists>hs. dispatch_hash rt encoded n (replicate n 0) = Inr hs"
    using n len by (simp add: dispatch_hash_def u32_max_def ensure_def)
  then have build: "fused_build rt a1 key_cols encoded n = Some (Inr b)"
    using False b(1) by (auto simp: fused_build_def)
  have "those (map (key_at encoded) (first_row_per_group b)) = Some (map ((!) encoded) reps)"
    using those_key_at[of "first_row_per_group b" encoded] groups(2) len by (simp add: reps_def o_def)
  moreover have "decode_keys (map ((!) encoded) reps) schema = Some (map (\<lambda>c. column_view c reps) key_cols)"
    using decode_selected_rows[OF e] groups(2) len by blast
  ultimately have keys: "fused_keys key_cols encoded schema (first_row_per_group b) = Some (map (\<lambda>c. column_view c reps) key_cols)"
    using False by (simp add: fused_keys_def)
  have "length (row_to_group b) = n" "0 < unat (n_groups b)"
    using b(2) len n(1) by (force simp: grouping_def)+
  with build groups keys show ?thesis by (intro exI[of _ b] exI[of _ reps]) blast
qed

lemma get_or_compile_source:
  assumes "by_hash cache (hash64 (env_hash env) sig) = None \<longrightarrow> env_metalc env (emit_msl (env_debug env) sig aggs) = None"
    and "\<forall>p. by_hash cache (hash64 (env_hash env) sig) = Some p \<longrightarrow> pso_source p = emit_msl (env_debug env) sig aggs"
  shows "\<exists>cache' pso. get_or_compile (env_metalc env) (env_hash env) (env_debug env) cache (sig, aggs) = (cache', Inr pso) \<and>
    pso_source pso = emit_msl (env_debug env) sig aggs"
  using assms by (auto simp: get_or_compile_def compile_pipeline_def publish_def Let_def split: option.splits)

text \<open>The signature of a query, the condition that the cache holds for its hash only the source emitted for
  it, and the error of a compiler that refuses this source when it is not cached.\<close>

definition query_signature :: "columns_by_name \<Rightarrow> k_agg_spec list \<Rightarrow> signature_error + agg_signature" where
  "query_signature by_name aggs = from_specs aggs (\<lambda>name. map_option value_dtype (by_name name))"

definition cache_fits :: "fused_env \<Rightarrow> fused_cache \<Rightarrow> columns_by_name \<Rightarrow> k_agg_spec list \<Rightarrow> bool" where
  "cache_fits env cache by_name aggs \<longleftrightarrow>
     (\<forall>sig p. query_signature by_name aggs = Inr sig \<and> by_hash cache (hash64 (env_hash env) sig) = Some p \<longrightarrow>
        pso_source p = emit_msl (env_debug env) sig aggs)"

definition compile_refusal :: "fused_env \<Rightarrow> fused_cache \<Rightarrow> columns_by_name \<Rightarrow> k_agg_spec list \<Rightarrow> fused_cache_error option" where
  "compile_refusal env cache by_name aggs =
     (case query_signature by_name aggs of
        Inl _ \<Rightarrow> None
      | Inr sig \<Rightarrow>
          if by_hash cache (hash64 (env_hash env) sig) = None then env_metalc env (emit_msl (env_debug env) sig aggs) else None)"

lemma intern_referenced_cong:
  "(\<And>c. c \<in> set cols \<Longrightarrow> f c = g c) \<Longrightarrow> intern_referenced st cols f = intern_referenced st cols g"
  by (induction cols arbitrary: st) (simp_all add: lookup_dtype_def)

lemma canon_spec_cong:
  assumes "\<And>c. c \<in> set (spec_columns spec) \<Longrightarrow> f c = g c"
  shows "canon_spec st spec f = canon_spec st spec g"
proof (cases spec)
  case (KSimple name op al)
  with assms show ?thesis by (simp add: canon_spec_def lookup_dtype_def)
next
  case (KExpression e op al)
  with assms intern_referenced_cong[of "k_referenced_columns e" f g] show ?thesis
    by (simp add: canon_spec_def lookup_dtype_def Let_def split: list.split)
qed (simp add: canon_spec_def)

lemma canon_specs_cong:
  "(\<And>c. c \<in> set (spec_names aggs) \<Longrightarrow> f c = g c) \<Longrightarrow> canon_specs st aggs f = canon_specs st aggs g"
proof (induction aggs arbitrary: st)
  case (Cons spec aggs)
  then have "canon_spec st spec f = canon_spec st spec g" "\<And>st. canon_specs st aggs f = canon_specs st aggs g"
    by (auto intro!: canon_spec_cong simp: spec_names_def)
  then show ?case by simp
qed simp

lemma query_signature_eq:
  assumes "fused_query_ok n by_name aggs dts sig"
  shows "query_signature by_name aggs = Inr sig"
proof -
  have "map_option value_dtype (by_name name) = map_of dts name" if "name \<in> set (spec_names aggs)" for name
    using fused_query_D(2,4,5)[OF assms] that by (auto simp: fused_column_def column_of_def)
  from canon_specs_cong[of aggs "\<lambda>name. map_option value_dtype (by_name name)" "map_of dts" empty_slots, OF this] assms show ?thesis
    by (simp add: query_signature_def fused_query_ok_def from_specs_def)
qed

lemma fused_query_exists:
  assumes "\<forall>name \<in> set (spec_names aggs). fused_column n by_name name"
  shows "\<exists>dts sig. fused_query_ok n by_name aggs dts sig"
proof -
  have "\<forall>name \<in> set (spec_names aggs). by_name name \<noteq> None" using assms by (auto simp: fused_column_def)
  from insert_dtypes_ok[OF this, of "[]"] obtain dts where dts: "insert_dtypes [] (spec_names aggs) by_name = Inr dts"
    "dom (map_of dts) = set (spec_names aggs)" by auto
  then have "\<forall>name \<in> set (spec_names aggs). map_of dts name \<noteq> None" by blast
  then obtain sig where "from_specs aggs (map_of dts) = Inr sig" using from_specs_total by blast
  with dts(1) assms show ?thesis by (auto simp: fused_query_ok_def)
qed

section \<open>Properties\<close>

lemma fused_groupby_groups:
  assumes "lawful_runtime rt" and "orderly_build a1 encoded" and "fused_encode key_cols = Inr (encoded, schema)"
    and "\<forall>c \<in> set key_cols. kc_n_rows c = n" and "0 < n" and "n < 2 ^ 32"
    and "\<forall>name \<in> set (spec_names aggs). fused_column n by_name name" and "cache_fits env cache by_name aggs"
  shows "\<exists>cache' r reps. dispatch_groupby_fused rt fm a1 env cache key_cols aggs by_name n = (cache', Some r) \<and>
    (\<forall>r \<in> set reps. r < n) \<and>
    (\<forall>i < n. \<exists>!g. g < length reps \<and> same_key key_cols (reps ! g) i) \<and>
    (\<forall>g < length reps. \<forall>i < n. same_key key_cols (reps ! g) i \<longrightarrow> reps ! g \<le> i) \<and>
    (case compile_refusal env cache by_name aggs of Some e \<Rightarrow> r = Inl (FCache e) | None \<Rightarrow>
     if 16 < length reps then r = Inl (NgroupsExceedsFusedCap (length reps) 16)
     else \<exists>res. r = Inr res \<and> unat (result_groups res) = length reps \<and>
       decoded_keys res = map (\<lambda>c. column_view c reps) key_cols \<and> length (agg_outputs res) = length aggs \<and>
       (\<forall>out \<in> set (agg_outputs res). output_len (length reps) out) \<and>
       (\<forall>a < length aggs. \<forall>g < length reps.
          fused_meaning rt fm by_name (aggs ! a) (filter (same_key key_cols (reps ! g)) [0..<n]) (out_cell (agg_outputs res ! a) g)))"
proof -
  obtain dts sig where q: "fused_query_ok n by_name aggs dts sig"
    using fused_query_exists[OF assms(7)] by blast
  note sig = query_signature_eq[OF q]
  have hit: "\<forall>p. by_hash cache (hash64 (env_hash env) sig) = Some p \<longrightarrow> pso_source p = emit_msl (env_debug env) sig aggs"
    using assms(8) sig unfolding cache_fits_def by blast
  obtain b reps where b: "fused_build rt a1 key_cols encoded n = Some (Inr b)" "length (row_to_group b) = n" "0 < unat (n_groups b)"
    and groups: "length reps = unat (n_groups b)" "\<forall>r \<in> set reps. r < n"
    "\<forall>i < n. \<exists>!g. g < length reps \<and> same_key key_cols (reps ! g) i"
    "\<forall>g < length reps. \<forall>i < n. same_key key_cols (reps ! g) i \<longrightarrow> reps ! g \<le> i"
    "\<forall>g < length reps. member_rows (row_to_group b) g = filter (same_key key_cols (reps ! g)) [0..<n]"
    and keys: "fused_keys key_cols encoded schema (first_row_per_group b) = Some (map (\<lambda>c. column_view c reps) key_cols)"
    using fused_build_ok[OF assms(2-6), of rt] by blast
  have run: "dispatch_groupby_fused rt fm a1 env cache key_cols aggs by_name n =
      fused_run rt fm a1 env cache key_cols encoded schema aggs dts sig by_name n"
    using assms(3,5) q fused_query_D(6)[OF q] check_key_rows_ok[of key_cols n "()"] assms(4)
    by (simp add: dispatch_groupby_fused_def fused_query_ok_def)
  show ?thesis
  proof (cases "compile_refusal env cache by_name aggs")
    case (Some e)
    then obtain cache' where "get_or_compile (env_metalc env) (env_hash env) (env_debug env) cache (sig, aggs) = (cache', Inl e)"
      by (auto simp: compile_refusal_def sig get_or_compile_def compile_pipeline_def split: if_splits)
    then have "dispatch_groupby_fused rt fm a1 env cache key_cols aggs by_name n = (cache', Some (Inl (FCache e)))"
      by (simp add: run fused_run_def)
    with Some groups show ?thesis by (intro exI[of _ cache'] exI[of _ "Inl (FCache e)"] exI[of _ reps]) simp
  next
    case accepted: None
    then obtain cache' pso where pso: "get_or_compile (env_metalc env) (env_hash env) (env_debug env) cache (sig, aggs) = (cache', Inr pso)"
      "pso_source pso = emit_msl (env_debug env) sig aggs"
      using get_or_compile_source[OF _ hit] by (auto simp: compile_refusal_def sig split: if_splits)
    show ?thesis
  proof (cases "16 < length reps")
    case True
    then have "dispatch_groupby_fused rt fm a1 env cache key_cols aggs by_name n = (cache', Some (Inl (NgroupsExceedsFusedCap (length reps) 16)))"
      by (simp add: run fused_run_def pso(1) b(1) fused_after_build_def emit_max_groups_def groups(1))
    with True accepted groups show ?thesis by (intro exI[of _ cache'] exI[of _ "Inl (NgroupsExceedsFusedCap (length reps) 16)"] exI[of _ reps]) simp
  next
    case False
    then have few: "unat (n_groups b) \<le> emit_max_groups" by (simp add: emit_max_groups_def groups(1))
    obtain outs where outs: "fused_after_build rt fm env pso sig aggs dts by_name n (row_to_group b) (unat (n_groups b)) = Some (Inr outs)"
      "length outs = length aggs" "\<forall>out \<in> set outs. output_len (length reps) out"
      "\<forall>a < length aggs. \<forall>g < length reps. fused_meaning rt fm by_name (aggs ! a) (member_rows (row_to_group b) g) (out_cell (outs ! a) g)"
      using fused_after_build_meaning[of rt "row_to_group b" by_name aggs dts sig "unat (n_groups b)" pso env fm]
        assms(1,6) q b(2,3) few pso(2) groups(1) by auto
    let ?res = "\<lparr>decoded_keys = map (\<lambda>c. column_view c reps) key_cols, agg_outputs = outs, result_groups = n_groups b\<rparr>"
    have "dispatch_groupby_fused rt fm a1 env cache key_cols aggs by_name n = (cache', Some (Inr ?res))"
      by (simp add: run fused_run_def pso(1) b(1) outs(1) keys)
    with False accepted groups outs(2-4) show ?thesis
      by (intro exI[of _ cache'] exI[of _ "Inr ?res"] exI[of _ reps]) simp
  qed
  qed
qed

text \<open>C3. The fused group-by finds the same groups as the unfused one, with or without keys. It fails with the
  compiler's error when the source emitted for the query is not cached and the compiler refuses it, and
  it refuses queries of more than 16 groups. Otherwise every aggregate of every group means what the
  unfused pipeline computes for it, and an expression is aggregated over the rows on which all its columns
  are present, except that a minimum or maximum of no values is the seed of its buffer, marked as
  present. The build must be the CPU's or an orderly one of the GPU (no spurious failure of a weak
  compare-and-swap, no stale read of a key), and the cache must not hold another source under the hash of the
  query's signature. The value of an expression on a row is what the compiled code gives for its operands,
  a parameter: with fast math its operations need not be rounded one by one. Minima and maxima of floats are determined when the
  values of the group are numbers.\<close>

theorem fused_groupby_correct:
  assumes "lawful_runtime rt" and "orderly_build a1 encoded" and "fused_encode key_cols = Inr (encoded, schema)"
    and "\<forall>c \<in> set key_cols. kc_n_rows c = n" and "0 < n" and "n < 2 ^ 32"
    and "\<forall>name \<in> set (spec_names aggs). fused_column n by_name name" and "cache_fits env cache by_name aggs"
  shows "\<exists>cache' r reps. dispatch_groupby_fused rt fm a1 env cache key_cols aggs by_name n = (cache', Some r) \<and>
    (\<forall>r \<in> set reps. r < n) \<and>
    (\<forall>i < n. \<exists>!g. g < length reps \<and> same_key key_cols (reps ! g) i) \<and>
    (\<forall>g < length reps. \<forall>i < n. same_key key_cols (reps ! g) i \<longrightarrow> reps ! g \<le> i) \<and>
    (case compile_refusal env cache by_name aggs of Some e \<Rightarrow> r = Inl (FCache e) | None \<Rightarrow>
     if 16 < length reps then r = Inl (NgroupsExceedsFusedCap (length reps) 16)
     else \<exists>res. r = Inr res \<and> unat (result_groups res) = length reps \<and>
       decoded_keys res = map (\<lambda>c. column_view c reps) key_cols \<and> length (agg_outputs res) = length aggs \<and>
       (\<forall>a < length aggs. \<forall>g < length reps.
          fused_meaning rt fm by_name (aggs ! a) (filter (same_key key_cols (reps ! g)) [0..<n]) (out_cell (agg_outputs res ! a) g)))"
proof -
  from fused_groupby_groups[OF assms, of fm] obtain cache' r reps where
    "dispatch_groupby_fused rt fm a1 env cache key_cols aggs by_name n = (cache', Some r)"
    "\<forall>r \<in> set reps. r < n" "\<forall>i < n. \<exists>!g. g < length reps \<and> same_key key_cols (reps ! g) i"
    "\<forall>g < length reps. \<forall>i < n. same_key key_cols (reps ! g) i \<longrightarrow> reps ! g \<le> i"
    and res: "case compile_refusal env cache by_name aggs of Some e \<Rightarrow> r = Inl (FCache e) | None \<Rightarrow>
     if 16 < length reps then r = Inl (NgroupsExceedsFusedCap (length reps) 16)
     else \<exists>res. r = Inr res \<and> unat (result_groups res) = length reps \<and>
       decoded_keys res = map (\<lambda>c. column_view c reps) key_cols \<and> length (agg_outputs res) = length aggs \<and>
       (\<forall>out \<in> set (agg_outputs res). output_len (length reps) out) \<and>
       (\<forall>a < length aggs. \<forall>g < length reps.
          fused_meaning rt fm by_name (aggs ! a) (filter (same_key key_cols (reps ! g)) [0..<n]) (out_cell (agg_outputs res ! a) g))"
    by (elim exE conjE) (rule that)
  then show ?thesis by (intro exI[of _ cache'] exI[of _ r] exI[of _ reps] conjI) (assumption | auto split: option.splits if_splits)+
qed

text \<open>A query over one column of two values, one of them missing.\<close>

definition demo_math :: fused_math where
  "demo_math = \<lparr>expr32 = (\<lambda>_. sum_list)\<rparr>"

definition demo_env :: fused_env where
  "demo_env = \<lparr>env_metalc = (\<lambda>_. None), env_hash = (\<lambda>_. 7), env_debug = (\<lambda>_. [])\<rparr>"

definition demo_aggs :: "k_agg_spec list" where
  "demo_aggs = [KSimple ''v'' KSum ''s'', KSimple ''w'' KMin ''m'']"

definition demo_columns :: columns_by_name where
  "demo_columns = [''v'' \<mapsto> VI32 [5, - 7] [3], ''w'' \<mapsto> VI32 [1, 2] [0]]"

lemma demo_fused_call:
  "\<forall>name \<in> set (spec_names demo_aggs). fused_column 2 demo_columns name"
  "cache_fits demo_env new_cache demo_columns demo_aggs" "compile_refusal demo_env new_cache demo_columns demo_aggs = None"
  by (simp_all add: cache_fits_def compile_refusal_def demo_aggs_def spec_names_def fused_column_def demo_columns_def demo_env_def new_cache_def
      div_ceil_def split: sum.split)

lemma fused_groupby_correct_witness:
  "\<exists>cache' res. dispatch_groupby_fused demo_runtime demo_math (\<lambda>_. None) demo_env new_cache [] demo_aggs demo_columns 2 = (cache', Some (Inr res)) \<and>
     out_cell (agg_outputs res ! 0) 0 = CI32 (Some (- 2)) \<and> out_cell (agg_outputs res ! 1) 0 = CI32 (Some i32_max)"
proof -
  have enc: "fused_encode [] = Inr ([], empty_schema)" by (simp add: fused_encode_def)
  obtain cache' r reps where r: "dispatch_groupby_fused demo_runtime demo_math (\<lambda>_. None) demo_env new_cache [] demo_aggs demo_columns 2 = (cache', Some r)"
    "\<forall>i < 2. \<exists>!g. g < length reps \<and> same_key [] (reps ! g) i"
    "if 16 < length reps then r = Inl (NgroupsExceedsFusedCap (length reps) 16)
     else \<exists>res. r = Inr res \<and> unat (result_groups res) = length reps \<and>
       decoded_keys res = map (\<lambda>c. column_view c reps) [] \<and> length (agg_outputs res) = length demo_aggs \<and>
       (\<forall>a < length demo_aggs. \<forall>g < length reps.
          fused_meaning demo_runtime demo_math demo_columns (demo_aggs ! a) (filter (same_key [] (reps ! g)) [0..<2]) (out_cell (agg_outputs res ! a) g))"
    using fused_groupby_correct[OF demo_runtime_ok no_gpu_orderly enc _ _ _ demo_fused_call(1,2), of demo_math] demo_fused_call(3) by auto
  have "\<exists>!g. g < length reps" using r(2)[rule_format, of 0] by (simp add: same_key_def)
  then have one: "length reps = 1" by (metis less_one linorder_neqE_nat less_Suc_eq not_less_zero zero_less_one One_nat_def less_trans_Suc)
  with r(3) obtain res where res: "r = Inr res"
    "\<forall>a < 2. fused_meaning demo_runtime demo_math demo_columns (demo_aggs ! a) [0..<2] (out_cell (agg_outputs res ! a) 0)"
    by (auto simp: same_key_def demo_aggs_def)
  have kept: "sum_list (kept [5, - 7 :: 32 word] [3] [0..<2]) = - 2" "spec_values demo_runtime demo_math demo_columns (KSimple ''w'' KMin ''m'') [0..<2] = []"
    by code_simp (simp add: spec_values_def demo_columns_def column_of_def get_valid_bit upt_rec)
  have "out_cell (agg_outputs res ! 0) 0 = CI32 (Some (- 2))"
    using res(2)[rule_format, of 0] kept(1)
    by (simp add: demo_aggs_def fused_meaning_def agg_meaning_def i32_meaning_def column_of_def demo_columns_def)
  moreover have "out_cell (agg_outputs res ! 1) 0 = CI32 (Some i32_max)"
    using res(2)[rule_format, of 1] kept(2) by (simp add: demo_aggs_def fused_meaning_def column_of_def demo_columns_def)
  ultimately show ?thesis using r(1) res(1) by blast
qed

end
