(* ===== verification/Plan_Wire.thy ===== *)
theory Plan_Wire
  imports Plan Signature
begin

text \<open>Models the plan half of \<open>polars-metal-core/src/udf/groupby/mod.rs\<close>: the Python dictionaries that carry a
  group-by plan and their parser, the conversion to the kernel's mirror types, and the choice between
  the fused and the per-aggregate pipeline. A Python value is a datatype with the constructors the
  parser asks for; how PyO3 reads a float out of an integer is a parameter.\<close>

section \<open>Python values\<close>

datatype py_value =
    PyStr string
  | PyInt int
  | PyFloat u64
  | PyBool bool
  | PyNone
  | PyByteString bytes
  | PyListOf "py_value list"
  | PyTupleOf "py_value list"
  | PyDictOf "(string \<times> py_value) list"

type_synonym py_dict = "(string \<times> py_value) list"

fun extract_string :: "py_value \<Rightarrow> string option" where
  "extract_string (PyStr s) = Some s" | "extract_string _ = None"

fun extract_i64 :: "py_value \<Rightarrow> u64 option" where
  "extract_i64 (PyInt i) = (if - (2 ^ 63) \<le> i \<and> i < 2 ^ 63 then Some (word_of_int i) else None)"
| "extract_i64 (PyBool b) = Some (if b then 1 else 0)"
| "extract_i64 _ = None"

fun extract_f64 :: "(int \<Rightarrow> u64 option) \<Rightarrow> py_value \<Rightarrow> u64 option" where
  "extract_f64 fl (PyFloat v) = Some v"
| "extract_f64 fl (PyInt i) = fl i"
| "extract_f64 fl (PyBool b) = fl (if b then 1 else 0)"
| "extract_f64 fl _ = None"

definition string_at :: "py_dict \<Rightarrow> string \<Rightarrow> string option" where
  "string_at d key = (case map_of d key of None \<Rightarrow> None | Some v \<Rightarrow> extract_string v)"

section \<open>The parsed plan\<close>

datatype parsed_agg =
    PaSimple string agg_op string
  | PaExpression agg_expr agg_op string
  | PaLength string

fun output_alias :: "parsed_agg \<Rightarrow> string" where
  "output_alias (PaSimple _ _ alias) = alias"
| "output_alias (PaExpression _ _ alias) = alias"
| "output_alias (PaLength alias) = alias"

record parsed_key =
  pk_name :: string
  pk_dtype :: metal_dtype

record parsed_plan =
  pp_keys :: "parsed_key list"
  pp_aggs :: "parsed_agg list"

datatype plan_parse_error =
    Missing string
  | WrongType string
  | UnknownDtype string
  | UnknownOp string

section \<open>The parser\<close>

definition or_wrong :: "'a option \<Rightarrow> string \<Rightarrow> plan_parse_error + 'a" where
  "or_wrong v what = (case v of None \<Rightarrow> Inl (WrongType what) | Some x \<Rightarrow> Inr x)"

definition binary_op_from_wire :: "string \<Rightarrow> plan_parse_error + binary_op" where
  "binary_op_from_wire s =
     (if s = ''Add'' then Inr Add else if s = ''Sub'' then Inr Sub else if s = ''Mul'' then Inr Mul
      else if s = ''Div'' then Inr Div else Inl (UnknownOp (''binary op '' @ s)))"

fun dict_field :: "py_value option \<Rightarrow> string \<Rightarrow> plan_parse_error + py_dict" where
  "dict_field None what = Inl (WrongType what)"
| "dict_field (Some (PyDictOf d)) what = Inr d"
| "dict_field (Some _) what = Inl (WrongType (what @ ''(dict)''))"

lemma dict_field_Inr: "dict_field v what = Inr d \<longleftrightarrow> v = Some (PyDictOf d)"
  by (cases "(v, what)" rule: dict_field.cases) auto

lemma map_of_size: "map_of d k = Some v \<Longrightarrow> size v < size_list (size_prod (\<lambda>_. 0) size) d"
  by (induction d) (auto split: if_splits)

function parse_agg_expr_dict :: "(int \<Rightarrow> u64 option) \<Rightarrow> py_dict \<Rightarrow> plan_parse_error + agg_expr" where
  "parse_agg_expr_dict fl d =
     (case string_at d ''kind'' of
        None \<Rightarrow> Inl (WrongType ''expr.kind'')
      | Some kind \<Rightarrow>
          if kind = ''Column'' then rbind (or_wrong (string_at d ''name'') ''expr.name'') (\<lambda>name. Inr (Column name))
          else if kind = ''LiteralF64'' then
            rbind (or_wrong (Option.bind (map_of d ''value'') (extract_f64 fl)) ''expr.value(f64)'') (\<lambda>v. Inr (LiteralF64 v))
          else if kind = ''LiteralI64'' then
            rbind (or_wrong (Option.bind (map_of d ''value'') extract_i64) ''expr.value(i64)'') (\<lambda>v. Inr (LiteralI64 v))
          else if kind = ''Binary'' then
            (case rbind (or_wrong (string_at d ''op'') ''expr.op'') binary_op_from_wire of
               Inl e \<Rightarrow> Inl e
             | Inr op \<Rightarrow>
                 (case dict_field (map_of d ''lhs'') ''expr.lhs'' of
                    Inl e \<Rightarrow> Inl e
                  | Inr l \<Rightarrow>
                      (case dict_field (map_of d ''rhs'') ''expr.rhs'' of
                         Inl e \<Rightarrow> Inl e
                       | Inr r \<Rightarrow> rbind (parse_agg_expr_dict fl l) (\<lambda>le. rbind (parse_agg_expr_dict fl r) (\<lambda>re. Inr (Binary op le re))))))
          else Inl (UnknownOp (''expr kind='' @ kind)))"
  by pat_completeness auto

termination
  by (relation "measure (\<lambda>(fl, d). size_list (size_prod (\<lambda>_. 0) size) d)") (auto simp: dict_field_Inr dest!: map_of_size)

declare parse_agg_expr_dict.simps [simp del]

definition parse_key_entry :: "py_value \<Rightarrow> plan_parse_error + parsed_key" where
  "parse_key_entry item =
     (case item of
        PyListOf entry \<Rightarrow>
          if length entry < 2 then Inl (WrongType ''key entry'')
          else rbind (or_wrong (extract_string (entry ! 0)) ''key name'') (\<lambda>name.
               rbind (or_wrong (extract_string (entry ! 1)) ''key dtype'') (\<lambda>dt.
               (case dtype_from_wire dt of
                  None \<Rightarrow> Inl (UnknownDtype dt)
                | Some d \<Rightarrow> Inr \<lparr>pk_name = name, pk_dtype = d\<rparr>)))
      | _ \<Rightarrow> Inl (WrongType ''key entry''))"

text \<open>A missing kind is the older shape of the dictionary.\<close>

definition agg_entry_kind :: "py_dict \<Rightarrow> string" where
  "agg_entry_kind entry =
     (case string_at entry ''kind'' of
        Some kind \<Rightarrow> kind
      | None \<Rightarrow> if string_at entry ''op'' = Some ''Len'' then ''Length'' else ''Simple'')"

definition parse_agg_op :: "py_dict \<Rightarrow> plan_parse_error + agg_op" where
  "parse_agg_op entry =
     rbind (or_wrong (string_at entry ''op'') ''op'') (\<lambda>s.
       case agg_op_from_wire s of None \<Rightarrow> Inl (UnknownOp s) | Some op \<Rightarrow> Inr op)"

definition parse_agg_entry :: "(int \<Rightarrow> u64 option) \<Rightarrow> py_value \<Rightarrow> plan_parse_error + parsed_agg" where
  "parse_agg_entry fl item =
     (case item of
        PyDictOf entry \<Rightarrow>
          rbind (or_wrong (string_at entry ''output_alias'') ''output_alias'') (\<lambda>alias.
            let kind = agg_entry_kind entry in
            if kind = ''Length'' then Inr (PaLength alias)
            else if kind = ''Simple'' then
              (let input_col = (case string_at entry ''input_col'' of None \<Rightarrow> [] | Some c \<Rightarrow> c)
               in rbind (parse_agg_op entry) (\<lambda>op. Inr (PaSimple input_col op alias)))
            else if kind = ''Expression'' then
              rbind (parse_agg_op entry) (\<lambda>op.
              rbind (dict_field (map_of entry ''expr'') ''expr'') (\<lambda>d.
              rbind (parse_agg_expr_dict fl d) (\<lambda>expr.
              (case validate expr of
                 Inl _ \<Rightarrow> Inl (WrongType ''expr(too deep)'')
               | Inr _ \<Rightarrow> Inr (PaExpression expr op alias)))))
            else Inl (UnknownOp (''kind='' @ kind)))
      | _ \<Rightarrow> Inl (WrongType ''agg entry''))"

definition list_field :: "py_dict \<Rightarrow> string \<Rightarrow> plan_parse_error + py_value list" where
  "list_field plan what =
     (case map_of plan what of
        None \<Rightarrow> Inl (Missing what)
      | Some (PyListOf xs) \<Rightarrow> Inr xs
      | Some _ \<Rightarrow> Inl (WrongType what))"

definition parse_groupby_plan :: "(int \<Rightarrow> u64 option) \<Rightarrow> py_dict \<Rightarrow> plan_parse_error + parsed_plan" where
  "parse_groupby_plan fl plan =
     rbind (list_field plan ''keys'') (\<lambda>ks.
     rbind (rmap parse_key_entry ks) (\<lambda>keys.
     rbind (list_field plan ''aggs'') (\<lambda>xs.
     rbind (rmap (parse_agg_entry fl) xs) (\<lambda>aggs.
       Inr \<lparr>pp_keys = keys, pp_aggs = aggs\<rparr>))))"

section \<open>Conversion to the kernel's types\<close>

fun convert_agg_op :: "agg_op \<Rightarrow> k_agg_op" where
  "convert_agg_op Sum = KSum" | "convert_agg_op Mean = KMean" | "convert_agg_op Count = KCount"
| "convert_agg_op Min = KMin" | "convert_agg_op Max = KMax" | "convert_agg_op Len = KLen"

fun convert_binary_op :: "binary_op \<Rightarrow> k_binary_op" where
  "convert_binary_op Add = KAdd" | "convert_binary_op Sub = KSub" | "convert_binary_op Mul = KMul" | "convert_binary_op Div = KDiv"

fun convert_agg_expr :: "agg_expr \<Rightarrow> k_agg_expr" where
  "convert_agg_expr (Column name) = KColumn name"
| "convert_agg_expr (LiteralF64 v) = KLiteralF64 v"
| "convert_agg_expr (LiteralI64 v) = KLiteralI64 v"
| "convert_agg_expr (Binary op l r) = KBinary (convert_binary_op op) (convert_agg_expr l) (convert_agg_expr r)"

fun kernel_spec :: "parsed_agg \<Rightarrow> k_agg_spec" where
  "kernel_spec (PaSimple c op alias) = KSimple c (convert_agg_op op) alias"
| "kernel_spec (PaExpression e op alias) = KExpression (convert_agg_expr e) (convert_agg_op op) alias"
| "kernel_spec (PaLength alias) = KLength alias"

definition kernel_dtype_table :: "(string \<times> k_metal_dtype) list" where
  "kernel_dtype_table =
     [(''I64'', KtI64), (''F64'', KtF64), (''Bool'', KtBool), (''I32'', KtI32), (''F32'', KtF32), (''I8'', KtI8),
      (''I16'', KtI16), (''U8'', KtU8), (''U16'', KtU16), (''U32'', KtU32)]"

definition wire_dtype_tag_to_kernel :: "string \<Rightarrow> k_metal_dtype option" where
  "wire_dtype_tag_to_kernel tag = map_of kernel_dtype_table tag"

section \<open>The route\<close>

datatype dispatch_choice = Fused | PerAgg

type_synonym wire_columns = "string \<rightharpoonup> string \<times> bytes \<times> bytes"

definition is_expression :: "parsed_agg \<Rightarrow> bool" where
  "is_expression a = (case a of PaExpression _ _ _ \<Rightarrow> True | _ \<Rightarrow> False)"

fun agg_columns :: "parsed_agg \<Rightarrow> string list" where
  "agg_columns (PaSimple c _ _) = [c]"
| "agg_columns (PaExpression e _ _) = referenced_columns e"
| "agg_columns (PaLength _) = []"

text \<open>The loop over the referenced columns: \<open>None\<close> is its early return, otherwise whether all columns
  seen so far fit the fused kernel.\<close>

fun columns_supported :: "wire_columns \<Rightarrow> bool \<Rightarrow> string list \<Rightarrow> bool option" where
  "columns_supported by_name ok [] = Some ok"
| "columns_supported by_name ok (c # cs) =
     (case by_name c of
        None \<Rightarrow> None
      | Some (tag, _, _) \<Rightarrow>
          (case wire_dtype_tag_to_kernel tag of
             None \<Rightarrow> None
           | Some kdt \<Rightarrow> columns_supported by_name (if kdt \<in> {KtF64, KtI64} then False else ok) cs))"

definition decide_groupby_dispatch :: "parsed_agg list \<Rightarrow> wire_columns \<Rightarrow> dispatch_choice" where
  "decide_groupby_dispatch parsed by_name =
     (let has_expression = list_ex is_expression parsed;
          n_simple_or_len = length (filter (\<lambda>a. \<not> is_expression a) parsed) in
      case columns_supported by_name True (concat (map agg_columns parsed)) of
        None \<Rightarrow> PerAgg
      | Some all_fused_supported \<Rightarrow>
          if has_expression \<and> all_fused_supported then Fused
          else if \<not> has_expression \<and> 2 \<le> n_simple_or_len \<and> all_fused_supported then Fused
          else PerAgg)"

section \<open>Facts\<close>

lemma convert_leaves: "k_leaves (convert_agg_expr e) = column_leaves e"
  by (induction e) simp_all

lemma convert_referenced: "k_referenced_columns (convert_agg_expr e) = referenced_columns e"
  by (simp add: k_referenced_eq referenced_columns_eq convert_leaves)

lemma kernel_spec_columns: "spec_columns (kernel_spec a) = agg_columns a"
  by (cases a) (simp_all add: convert_referenced)

lemma kernel_spec_names: "spec_names (map kernel_spec aggs) = concat (map agg_columns aggs)"
  by (simp add: spec_names_def kernel_spec_columns o_def)

definition narrow_column :: "wire_columns \<Rightarrow> string \<Rightarrow> bool" where
  "narrow_column by_name c \<longleftrightarrow>
     (\<exists>tag data valid dt. by_name c = Some (tag, data, valid) \<and> wire_dtype_tag_to_kernel tag = Some dt \<and> dt \<notin> {KtF64, KtI64})"

lemma columns_supported_iff: "columns_supported by_name ok cs = Some True \<longleftrightarrow> ok \<and> (\<forall>c \<in> set cs. narrow_column by_name c)"
proof (induction cs arbitrary: ok)
  case (Cons c cs)
  have False if "columns_supported by_name False cs = Some True" using that Cons[of False] by simp
  with Cons[of ok] show ?case by (auto simp: narrow_column_def split: option.splits)
qed simp

lemma decide_fused_iff:
  "decide_groupby_dispatch parsed by_name = Fused \<longleftrightarrow>
     (\<forall>a \<in> set parsed. \<forall>c \<in> set (agg_columns a). narrow_column by_name c) \<and> (list_ex is_expression parsed \<or> 2 \<le> length parsed)"
proof -
  have "length (filter (\<lambda>a. \<not> is_expression a) parsed) = length parsed" if "\<not> list_ex is_expression parsed"
    using that by (simp add: list_ex_iff)
  moreover have "columns_supported by_name True (concat (map agg_columns parsed)) = Some True \<longleftrightarrow>
      (\<forall>a \<in> set parsed. \<forall>c \<in> set (agg_columns a). narrow_column by_name c)"
    unfolding columns_supported_iff by simp
  ultimately show ?thesis
    by (cases "columns_supported by_name True (concat (map agg_columns parsed))") (auto simp: decide_groupby_dispatch_def Let_def)
qed

section \<open>The walker's dictionaries\<close>

text \<open>What \<open>_walk_group_by\<close> of \<open>src/python/polars_metal/_walker.py\<close> lowers to a dictionary: the data types of
  the keys it lets through (all that \<open>_map_dtype\<close> knows, except UInt64), aggregates of a column, of an
  expression, and the length (any operator of the plan, although the walker never writes a length with a column); the literals are Python's floats and unbounded integers.\<close>

datatype polars_dtype =
    PlInt64 | PlFloat64 | PlBoolean | PlInt32 | PlFloat32 | PlInt8 | PlInt16 | PlUInt8 | PlUInt16 | PlUInt32 | PlString | PlDate

datatype walker_expr = WColumn string | WFloat u64 | WInt int | WBinary binary_op walker_expr walker_expr

datatype walker_agg = WSimple string agg_op string | WExpression walker_expr agg_op string | WLength string

record walker_plan =
  wp_keys :: "(string \<times> polars_dtype) list"
  wp_aggs :: "walker_agg list"

text \<open>The tags and shapes that it prints.\<close>

fun map_dtype :: "polars_dtype \<Rightarrow> string" where
  "map_dtype PlInt64 = ''I64''" | "map_dtype PlFloat64 = ''F64''" | "map_dtype PlBoolean = ''Bool''"
| "map_dtype PlInt32 = ''I32''" | "map_dtype PlFloat32 = ''F32''" | "map_dtype PlInt8 = ''I8''"
| "map_dtype PlInt16 = ''I16''" | "map_dtype PlUInt8 = ''U8''" | "map_dtype PlUInt16 = ''U16''"
| "map_dtype PlUInt32 = ''U32''" | "map_dtype PlString = ''Utf8''" | "map_dtype PlDate = ''Date''"

fun binary_op_wire :: "binary_op \<Rightarrow> string" where
  "binary_op_wire Add = ''Add''" | "binary_op_wire Sub = ''Sub''" | "binary_op_wire Mul = ''Mul''" | "binary_op_wire Div = ''Div''"

fun wire_expr :: "walker_expr \<Rightarrow> py_dict" where
  "wire_expr (WColumn name) = [(''kind'', PyStr ''Column''), (''name'', PyStr name)]"
| "wire_expr (WFloat v) = [(''kind'', PyStr ''LiteralF64''), (''value'', PyFloat v)]"
| "wire_expr (WInt i) = [(''kind'', PyStr ''LiteralI64''), (''value'', PyInt i)]"
| "wire_expr (WBinary op l r) =
     [(''kind'', PyStr ''Binary''), (''op'', PyStr (binary_op_wire op)), (''lhs'', PyDictOf (wire_expr l)), (''rhs'', PyDictOf (wire_expr r))]"

fun agg_op_wire :: "agg_op \<Rightarrow> string" where
  "agg_op_wire Sum = ''Sum''" | "agg_op_wire Mean = ''Mean''" | "agg_op_wire Count = ''Count''"
| "agg_op_wire Min = ''Min''" | "agg_op_wire Max = ''Max''" | "agg_op_wire Len = ''Len''"

fun wire_agg :: "walker_agg \<Rightarrow> py_value" where
  "wire_agg (WSimple c op alias) =
     PyDictOf [(''kind'', PyStr ''Simple''), (''input_col'', PyStr c), (''op'', PyStr (agg_op_wire op)), (''output_alias'', PyStr alias)]"
| "wire_agg (WExpression e op alias) =
     PyDictOf [(''kind'', PyStr ''Expression''), (''expr'', PyDictOf (wire_expr e)), (''op'', PyStr (agg_op_wire op)), (''output_alias'', PyStr alias)]"
| "wire_agg (WLength alias) = PyDictOf [(''kind'', PyStr ''Length''), (''output_alias'', PyStr alias)]"

definition wire_key :: "string \<times> polars_dtype \<Rightarrow> py_value" where
  "wire_key = (\<lambda>(name, dt). PyListOf [PyStr name, PyStr (map_dtype dt)])"

text \<open>The printed plan carries its kind and its input beside the two entries.\<close>

definition wire_plan :: "py_value \<Rightarrow> walker_plan \<Rightarrow> py_dict" where
  "wire_plan input w =
     [(''kind'', PyStr ''GroupBy''), (''input'', input), (''keys'', PyListOf (map wire_key (wp_keys w))),
      (''aggs'', PyListOf (map wire_agg (wp_aggs w)))]"

text \<open>The plan that the walker means. A Date is stored as a 32-bit integer. Integer literals must fit 64 bits, and
  expressions have a bounded depth; the first part that has no meaning is the error.\<close>

fun dtype_meaning :: "polars_dtype \<Rightarrow> metal_dtype" where
  "dtype_meaning PlInt64 = I64" | "dtype_meaning PlFloat64 = F64" | "dtype_meaning PlBoolean = Bool"
| "dtype_meaning PlInt32 = I32" | "dtype_meaning PlFloat32 = F32" | "dtype_meaning PlInt8 = I8"
| "dtype_meaning PlInt16 = I16" | "dtype_meaning PlUInt8 = U8" | "dtype_meaning PlUInt16 = U16"
| "dtype_meaning PlUInt32 = U32" | "dtype_meaning PlString = Utf8" | "dtype_meaning PlDate = I32"

definition key_meaning :: "string \<times> polars_dtype \<Rightarrow> parsed_key" where
  "key_meaning = (\<lambda>(name, dt). \<lparr>pk_name = name, pk_dtype = dtype_meaning dt\<rparr>)"

fun expr_meaning :: "walker_expr \<Rightarrow> plan_parse_error + agg_expr" where
  "expr_meaning (WColumn name) = Inr (Column name)"
| "expr_meaning (WFloat v) = Inr (LiteralF64 v)"
| "expr_meaning (WInt i) =
     (if - (2 ^ 63) \<le> i \<and> i < 2 ^ 63 then Inr (LiteralI64 (word_of_int i)) else Inl (WrongType ''expr.value(i64)''))"
| "expr_meaning (WBinary op l r) = rbind (expr_meaning l) (\<lambda>le. rbind (expr_meaning r) (\<lambda>re. Inr (Binary op le re)))"

fun expr_depth :: "walker_expr \<Rightarrow> nat" where
  "expr_depth (WBinary op l r) = Suc (max (expr_depth l) (expr_depth r))"
| "expr_depth e = 0"

fun agg_meaning_of :: "walker_agg \<Rightarrow> plan_parse_error + parsed_agg" where
  "agg_meaning_of (WSimple c op alias) = Inr (PaSimple c op alias)"
| "agg_meaning_of (WExpression e op alias) =
     rbind (expr_meaning e) (\<lambda>expr. if 4 < expr_depth e then Inl (WrongType ''expr(too deep)'') else Inr (PaExpression expr op alias))"
| "agg_meaning_of (WLength alias) = Inr (PaLength alias)"

definition plan_meaning :: "walker_plan \<Rightarrow> plan_parse_error + parsed_plan" where
  "plan_meaning w =
     rbind (rmap agg_meaning_of (wp_aggs w)) (\<lambda>aggs. Inr \<lparr>pp_keys = map key_meaning (wp_keys w), pp_aggs = aggs\<rparr>)"

lemma parse_wire_expr: "parse_agg_expr_dict fl (wire_expr e) = expr_meaning e"
proof (induction e)
  case (WBinary op l r)
  have "binary_op_from_wire (binary_op_wire op) = Inr op" by (cases op) (simp_all add: binary_op_from_wire_def)
  with WBinary show ?case by (subst parse_agg_expr_dict.simps) (simp add: string_at_def or_wrong_def)
qed (simp_all add: parse_agg_expr_dict.simps string_at_def or_wrong_def)

lemma agg_op_wire_back: "agg_op_from_wire (agg_op_wire op) = Some op"
  by (cases op) (simp_all add: agg_op_from_wire_def agg_op_wire_table_def)

lemma expr_meaning_depth: "expr_meaning e = Inr expr \<Longrightarrow> depth expr = expr_depth e"
  by (induction e arbitrary: expr) (auto simp: result_simps split: if_splits)

lemma parse_wire_agg: "parse_agg_entry fl (wire_agg a) = agg_meaning_of a"
proof (cases a)
  case (WExpression e op al)
  show ?thesis
  proof (cases "expr_meaning e")
    case (Inr expr)
    with WExpression expr_meaning_depth[OF Inr] show ?thesis
      by (simp add: parse_agg_entry_def string_at_def or_wrong_def agg_entry_kind_def parse_agg_op_def agg_op_wire_back parse_wire_expr validate_def)
  qed (simp add: WExpression parse_agg_entry_def string_at_def or_wrong_def agg_entry_kind_def parse_agg_op_def agg_op_wire_back parse_wire_expr)
qed (simp_all add: parse_agg_entry_def string_at_def or_wrong_def agg_entry_kind_def parse_agg_op_def agg_op_wire_back)

lemma parse_wire_key: "parse_key_entry (wire_key k) = Inr (key_meaning k)"
  by (cases k, rename_tac n d, case_tac d)
    (simp_all add: parse_key_entry_def wire_key_def or_wrong_def dtype_from_wire_def dtype_wire_table_def key_meaning_def)

lemma rmap_map: "(\<And>x. f (g x) = h x) \<Longrightarrow> rmap f (map g xs) = rmap h xs"
  by (induction xs) auto

lemma rmap_Inr: "rmap (\<lambda>x. Inr (f x)) xs = Inr (map f xs)"
  by (induction xs) auto

section \<open>Properties\<close>

text \<open>C10. The plan parser reads back every plan that the walker prints, as what the walker means: keys with their
  data types, simple aggregates, lengths, and expressions up to the depth limit, with the literals
  exact. A Date key is read as the 32-bit integers that store it; an integer literal beyond 64 bits and a deeper
  expression are refused, the first of them in the order of the dictionary.\<close>

theorem plan_parse_roundtrip: "parse_groupby_plan fl (wire_plan input w) = plan_meaning w"
  by (simp add: parse_groupby_plan_def wire_plan_def list_field_def plan_meaning_def
      rmap_map[of parse_key_entry wire_key "\<lambda>k. Inr (key_meaning k)", OF parse_wire_key] rmap_Inr rmap_map[of "parse_agg_entry fl" wire_agg agg_meaning_of, OF parse_wire_agg])

end
