(* ===== verification/Views.thy ===== *)
theory Views
  imports Keys
begin

text \<open>Typed views of byte buffers: what \<open>slice::from_raw_parts\<close> makes of the little-endian bytes of a column.\<close>

section \<open>Views\<close>

definition typed_view :: "nat \<Rightarrow> bytes \<Rightarrow> nat \<Rightarrow> 'w::len word list" where
  "typed_view width data n_rows = map (\<lambda>r. of_le_bytes (row_bytes width data r)) [0..<n_rows]"

definition words_le :: "'w::len word list \<Rightarrow> bytes" where
  "words_le ws = concat (map le_bytes ws)"

lemma words_le_simps [simp]: "words_le [] = []" "words_le (w # ws) = le_bytes w @ words_le ws"
  by (simp_all add: words_le_def)

lemma words_le_length: "length (words_le (ws :: 'w::len word list)) = length ws * (LENGTH('w) div 8)"
  by (induction ws) simp_all

lemma words_le_row: "i < length ws \<Longrightarrow> row_bytes (LENGTH('w) div 8) (words_le (ws :: 'w::len word list)) i = le_bytes (ws ! i)"
proof (induction ws arbitrary: i)
  case (Cons w ws)
  then show ?case by (cases i) (simp_all add: row_bytes_def add.commute)
qed simp

lemma typed_view_words_le:
  assumes "8 dvd LENGTH('w::len)" and "width = LENGTH('w) div 8"
  shows "typed_view width (words_le (ws :: 'w word list)) (length ws) = ws"
  unfolding typed_view_def assms(2) using assms(1)
  by (intro list_eq_by_nth) (simp_all add: words_le_row of_le_bytes_le_bytes)

lemma get_valid_take: "row < 8 * k \<Longrightarrow> get_valid (take k bs) row \<longleftrightarrow> get_valid bs row"
  by (auto simp: get_valid_bit)

end
