(* ===== verification/Columns_Wire.thy ===== *)
theory Columns_Wire
  imports Plan_Wire Dict Views Groupby_Correct
begin

text \<open>Models the column half of \<open>polars-metal-core/src/udf/groupby/mod.rs\<close> and of \<open>legacy.rs\<close>: the packed
  format of string columns, the typed views of value columns, and the bytes the results are returned
  in. A string is its UTF-8 bytes.\<close>

section \<open>Strings\<close>

definition str_of_bytes :: "bytes \<Rightarrow> string" where
  "str_of_bytes bs = map (\<lambda>b. char_of (unat b)) bs"

definition bytes_of_str :: "string \<Rightarrow> bytes" where
  "bytes_of_str s = map (\<lambda>c. of_nat (of_char c)) s"

definition utf8_cont :: "byte \<Rightarrow> bool" where
  "utf8_cont b \<longleftrightarrow> 0x80 \<le> b \<and> b \<le> 0xBF"

text \<open>\<open>core::str::from_utf8\<close>: the well-formed byte sequences of the Unicode standard.\<close>

fun utf8_valid :: "bytes \<Rightarrow> bool" where
  "utf8_valid [] = True"
| "utf8_valid (b # bs) =
     (if b < 0x80 then utf8_valid bs
      else if 0xC2 \<le> b \<and> b \<le> 0xDF then
        (case bs of c # rest \<Rightarrow> utf8_cont c \<and> utf8_valid rest | _ \<Rightarrow> False)
      else if 0xE0 \<le> b \<and> b \<le> 0xEF then
        (case bs of c # d # rest \<Rightarrow>
           (if b = 0xE0 then 0xA0 \<le> c \<and> c \<le> 0xBF else if b = 0xED then 0x80 \<le> c \<and> c \<le> 0x9F else utf8_cont c) \<and>
           utf8_cont d \<and> utf8_valid rest
         | _ \<Rightarrow> False)
      else if 0xF0 \<le> b \<and> b \<le> 0xF4 then
        (case bs of c # d # e # rest \<Rightarrow>
           (if b = 0xF0 then 0x90 \<le> c \<and> c \<le> 0xBF else if b = 0xF4 then 0x80 \<le> c \<and> c \<le> 0x8F else utf8_cont c) \<and>
           utf8_cont d \<and> utf8_cont e \<and> utf8_valid rest
         | _ \<Rightarrow> False)
      else False)"

section \<open>Packed string columns\<close>

datatype wire_error =
    Utf8TooShort string nat
  | Utf8RowCount string nat nat
  | Utf8Truncated string nat nat
  | Utf8ValidityShort string nat nat nat
  | Utf8Offsets string nat int int
  | Utf8EndBeyond string nat nat nat
  | Utf8Invalid string nat
  | ValueTooShort string nat nat
  | ValueUnsupported string
  | AggUnsupported agg_op string

definition utf8_offset :: "bytes \<Rightarrow> nat \<Rightarrow> int" where
  "utf8_offset data i = sint (of_le_bytes (take 4 (drop (4 + i * 4) data)) :: 32 word)"

definition utf8_row :: "string \<Rightarrow> bytes \<Rightarrow> bytes \<Rightarrow> bytes \<Rightarrow> nat \<Rightarrow> wire_error + string option" where
  "utf8_row name data string_bytes valid r =
     (if bit_at valid r \<noteq> 1 then Inr None
      else let s_off = utf8_offset data r; e_off = utf8_offset data (r + 1) in
        if s_off < 0 \<or> e_off < s_off then Inl (Utf8Offsets name r s_off e_off)
        else if length string_bytes < nat e_off then Inl (Utf8EndBeyond name r (nat e_off) (length string_bytes))
        else let slice = take (nat e_off - nat s_off) (drop (nat s_off) string_bytes) in
          if utf8_valid slice then Inr (Some (str_of_bytes slice)) else Inl (Utf8Invalid name r))"

definition parse_utf8_column :: "string \<Rightarrow> nat \<Rightarrow> bytes \<Rightarrow> bytes \<Rightarrow> wire_error + string option list" where
  "parse_utf8_column name n_rows data valid =
     (if length data < 4 then Inl (Utf8TooShort name (length data))
      else let header_n = unat (of_le_bytes (take 4 data) :: u32) in
        if header_n \<noteq> n_rows then Inl (Utf8RowCount name header_n n_rows)
        else let offsets_end = 4 + (n_rows + 1) * 4 in
          if length data < offsets_end then Inl (Utf8Truncated name (length data) offsets_end)
          else if length valid < (n_rows + 7) div 8 then Inl (Utf8ValidityShort name (length valid) ((n_rows + 7) div 8) n_rows)
          else rmap (utf8_row name data (drop offsets_end data) valid) [0..<n_rows])"

text \<open>A string key column is replaced by its dictionary codes.\<close>

definition utf8_codes :: "string \<Rightarrow> nat \<Rightarrow> bytes \<Rightarrow> bytes \<Rightarrow> wire_error + bytes \<times> string list" where
  "utf8_codes name n_rows data valid =
     rbind (parse_utf8_column name n_rows data valid) (\<lambda>strings.
       let (dict, codes, _) = build_dict_nullable strings in Inr (concat (map le_bytes codes), dict))"

section \<open>Typed value columns\<close>

definition checked_reinterpret :: "nat \<Rightarrow> bytes \<Rightarrow> nat \<Rightarrow> string \<Rightarrow> wire_error + 'w::len word list" where
  "checked_reinterpret width data n_rows tag =
     (if length data < n_rows * width then Inl (ValueTooShort tag (length data) (n_rows * width))
      else Inr (typed_view width data n_rows))"

definition build_value_column :: "string \<Rightarrow> bytes \<Rightarrow> bytes \<Rightarrow> nat \<Rightarrow> wire_error + value_column" where
  "build_value_column tag data valid n_rows =
     (if tag = ''I32'' then rbind (checked_reinterpret 4 data n_rows tag) (\<lambda>ws. Inr (VI32 ws valid))
      else if tag = ''F32'' then rbind (checked_reinterpret 4 data n_rows tag) (\<lambda>ws. Inr (VF32 ws valid))
      else Inl (ValueUnsupported tag))"

definition agg_kind_table :: "((agg_op \<times> string) \<times> agg_kind) list" where
  "agg_kind_table =
     [((Count, ''I64''), CountRows), ((Count, ''F64''), CountRows), ((Count, ''I32''), CountRows), ((Count, ''F32''), CountRows),
      ((Sum, ''I64''), SumI64), ((Mean, ''I64''), MeanI64), ((Min, ''I64''), MinI64), ((Max, ''I64''), MaxI64),
      ((Sum, ''F64''), SumF64), ((Mean, ''F64''), MeanF64), ((Min, ''F64''), MinF64), ((Max, ''F64''), MaxF64),
      ((Sum, ''I32''), SumI32), ((Mean, ''I32''), MeanI32), ((Min, ''I32''), MinI32), ((Max, ''I32''), MaxI32),
      ((Sum, ''F32''), SumF32), ((Mean, ''F32''), MeanF32), ((Min, ''F32''), MinF32), ((Max, ''F32''), MaxF32)]"

definition agg_kind_for :: "agg_op \<Rightarrow> string \<Rightarrow> wire_error + agg_kind" where
  "agg_kind_for op tag =
     (case map_of agg_kind_table (op, tag) of None \<Rightarrow> Inl (AggUnsupported op tag) | Some kind \<Rightarrow> Inr kind)"

definition build_agg_kind_and_vcol :: "agg_op \<Rightarrow> string \<Rightarrow> bytes \<Rightarrow> bytes \<Rightarrow> nat \<Rightarrow> wire_error + agg_kind \<times> value_column" where
  "build_agg_kind_and_vcol op tag data valid n_rows =
     rbind (agg_kind_for op tag) (\<lambda>kind.
       if tag = ''I64'' then rbind (checked_reinterpret 8 data n_rows tag) (\<lambda>ws. Inr (kind, VI64 ws valid))
       else if tag = ''F64'' then rbind (checked_reinterpret 8 data n_rows tag) (\<lambda>ws. Inr (kind, VF64 ws valid))
       else if tag = ''I32'' then rbind (checked_reinterpret 4 data n_rows tag) (\<lambda>ws. Inr (kind, VI32 ws valid))
       else if tag = ''F32'' then rbind (checked_reinterpret 4 data n_rows tag) (\<lambda>ws. Inr (kind, VF32 ws valid))
       else Inl (ValueUnsupported tag))"

section \<open>Results as bytes\<close>

definition sat_add_i32 :: "32 word \<Rightarrow> 32 word \<Rightarrow> 32 word" where
  "sat_add_i32 a b =
     (if 2 ^ 31 - 1 < sint a + sint b then i32_max else if sint a + sint b < - (2 ^ 31) then i32_min else a + b)"

text \<open>The offsets after the first, and the text, of the valid strings.\<close>

fun utf8_pack :: "32 word \<Rightarrow> (string \<times> bool) list \<Rightarrow> 32 word list \<times> bytes" where
  "utf8_pack acc [] = ([], [])"
| "utf8_pack acc ((s, ok) # rows) =
     (let acc' = (if ok then sat_add_i32 acc (of_nat (length s)) else acc); (offs, blob) = utf8_pack acc' rows
      in (acc' # offs, (if ok then bytes_of_str s else []) @ blob))"

type_synonym encoded_column = "string \<times> bytes \<times> bytes"

fun encode_decoded_column :: "decoded_column \<Rightarrow> encoded_column" where
  "encode_decoded_column (DI64 values valid) = (''I64'', words_le values, pack_valid_bitmap valid)"
| "encode_decoded_column (DF64 values valid) = (''F64'', words_le values, pack_valid_bitmap valid)"
| "encode_decoded_column (DBool values valid) = (''Bool'', pack_valid_bitmap values, pack_valid_bitmap valid)"
| "encode_decoded_column (DI32 values valid) = (''I32'', words_le values, pack_valid_bitmap valid)"
| "encode_decoded_column (DF32 values valid) = (''F32'', words_le values, pack_valid_bitmap valid)"
| "encode_decoded_column (DI8 values valid) = (''I8'', values, pack_valid_bitmap valid)"
| "encode_decoded_column (DI16 values valid) = (''I16'', words_le values, pack_valid_bitmap valid)"
| "encode_decoded_column (DU8 values valid) = (''U8'', values, pack_valid_bitmap valid)"
| "encode_decoded_column (DU16 values valid) = (''U16'', words_le values, pack_valid_bitmap valid)"
| "encode_decoded_column (DU32 values valid) = (''U32'', words_le values, pack_valid_bitmap valid)"
| "encode_decoded_column (DUtf8 values valid) =
     (let n = of_nat (length values) :: u32; (offs, blob) = utf8_pack 0 (zip values valid)
      in (''Utf8'', le_bytes n @ words_le (0 # offs) @ blob, pack_valid_bitmap valid))"

fun encode_agg_output :: "agg_output \<Rightarrow> encoded_column" where
  "encode_agg_output (OI64 values valid) = (''I64'', words_le values, pack_valid_bitmap valid)"
| "encode_agg_output (OF64 values valid) = (''F64'', words_le values, pack_valid_bitmap valid)"
| "encode_agg_output (OU64 values) =
     (''U32'', words_le (map (\<lambda>v. ucast v :: u32) values), replicate (max (align4 ((length values + 7) div 8)) 4) 0xFF)"
| "encode_agg_output (OI32 values valid) = (''I32'', words_le values, pack_valid_bitmap valid)"
| "encode_agg_output (OF32 values valid) = (''F32'', words_le values, pack_valid_bitmap valid)"

section \<open>Facts\<close>

lemma bytes_of_str_back: "str_of_bytes (bytes_of_str s) = s"
proof -
  have "char_of (unat (of_nat (of_char c) :: byte)) = c" for c :: char
    using nat_of_char_less_256[of c] by (simp add: unat_of_nat)
  then show ?thesis by (simp add: str_of_bytes_def bytes_of_str_def o_def)
qed

lemma length_bytes_of_str [simp]: "length (bytes_of_str s) = length s"
  by (simp add: bytes_of_str_def)

section \<open>Reading the results\<close>

text \<open>What a consumer of the returned bytes reads for group \<open>g\<close>.\<close>

definition wire_value :: "nat \<Rightarrow> bytes \<Rightarrow> nat \<Rightarrow> 'w::len word" where
  "wire_value width data g = of_le_bytes (row_bytes width data g)"

definition wire_cell :: "encoded_column \<Rightarrow> nat \<Rightarrow> agg_cell" where
  "wire_cell col g = (case col of (tag, data, valid) \<Rightarrow>
     let present = get_valid valid g in
     if tag = ''I64'' then CI64 (if present then Some (wire_value 8 data g) else None)
     else if tag = ''F64'' then CF64 (if present then Some (wire_value 8 data g) else None)
     else if tag = ''I32'' then CI32 (if present then Some (wire_value 4 data g) else None)
     else if tag = ''F32'' then CF32 (if present then Some (wire_value 4 data g) else None)
     else CU64 (ucast (wire_value 4 data g :: u32)))"

fun output_fits :: "nat \<Rightarrow> agg_output \<Rightarrow> bool" where
  "output_fits ng (OI64 values valid) \<longleftrightarrow> length values = ng \<and> length valid = ng"
| "output_fits ng (OF64 values valid) \<longleftrightarrow> length values = ng \<and> length valid = ng"
| "output_fits ng (OU64 values) \<longleftrightarrow> length values = ng \<and> (\<forall>v \<in> set values. unat v < 2 ^ 32)"
| "output_fits ng (OI32 values valid) \<longleftrightarrow> length values = ng \<and> length valid = ng"
| "output_fits ng (OF32 values valid) \<longleftrightarrow> length values = ng \<and> length valid = ng"

lemma wire_value_words:
  "g < length ws \<Longrightarrow> 8 dvd LENGTH('w) \<Longrightarrow> wire_value (LENGTH('w) div 8) (words_le (ws :: 'w::len word list)) g = ws ! g"
  by (simp add: wire_value_def words_le_row of_le_bytes_le_bytes)

lemma narrow_count: "unat (v :: u64) < 2 ^ 32 \<Longrightarrow> ucast (ucast v :: u32) = v"
  by (simp add: word_unat_eq_iff unat_ucast_up unsigned_ucast_eq unsigned_take_bit_eq take_bit_nat_eq_self)

lemma wire_cell_output:
  assumes "output_fits ng out" and "g < ng"
  shows "wire_cell (encode_agg_output out) g = out_cell out g"
proof (cases out)
  case (OU64 vs)
  with assms wire_value_words[of g "map (\<lambda>v. ucast v :: u32) vs"] show ?thesis
    by (simp add: wire_cell_def narrow_count)
next
  case (OI64 vs ok)
  with assms wire_value_words[of g "vs"] show ?thesis by (simp add: wire_cell_def pack_get)
next
  case (OF64 vs ok)
  with assms wire_value_words[of g "vs"] show ?thesis by (simp add: wire_cell_def pack_get)
next
  case (OI32 vs ok)
  with assms wire_value_words[of g "vs"] show ?thesis by (simp add: wire_cell_def pack_get)
next
  case (OF32 vs ok)
  with assms wire_value_words[of g "vs"] show ?thesis by (simp add: wire_cell_def pack_get)
qed

section \<open>Strings survive the packed format\<close>

definition packed_rows :: "string list \<Rightarrow> bool list \<Rightarrow> string option list" where
  "packed_rows values valid = map2 (\<lambda>s ok. if ok then Some s else None) values valid"

definition blob_len :: "(string \<times> bool) list \<Rightarrow> nat" where
  "blob_len rows = sum_list (map (\<lambda>(s, ok). if ok then length s else 0) rows)"

lemma blob_len_simps [simp]: "blob_len [] = 0" "blob_len ((s, ok) # rows) = (if ok then length s else 0) + blob_len rows"
  by (simp_all add: blob_len_def)

lemma sint_of_nat32: "k < 2 ^ 31 \<Longrightarrow> sint (of_nat k :: 32 word) = int k"
proof -
  assume "k < 2 ^ 31"
  then have "int k < 2 ^ 31" by simp
  then show ?thesis by (simp add: signed_of_nat signed_take_bit_int_eq_self)
qed

lemma sat_add_small: "a + b < 2 ^ 31 \<Longrightarrow> sat_add_i32 (of_nat a) (of_nat b) = of_nat (a + b)"
  by (simp add: sat_add_i32_def sint_of_nat32)

text \<open>The offsets are the running lengths, and each slice is the row's text.\<close>

lemma utf8_pack_spec:
  assumes "a + blob_len rows < 2 ^ 31" and "utf8_pack (of_nat a) rows = (offs, blob)"
  shows "length offs = length rows \<and> length blob = blob_len rows \<and>
    (\<forall>r < length rows. offs ! r = of_nat (a + blob_len (take (Suc r) rows)) \<and>
      (snd (rows ! r) \<longrightarrow> take (length (fst (rows ! r))) (drop (blob_len (take r rows)) blob) = bytes_of_str (fst (rows ! r))))"
  using assms
proof (induction rows arbitrary: a offs blob)
  case (Cons row rows)
  obtain s ok where row: "row = (s, ok)" by (cases row)
  let ?k = "if ok then length s else 0"
  obtain offs' blob' where rec: "utf8_pack (of_nat (a + ?k)) rows = (offs', blob')" by fastforce
  have "(if ok then sat_add_i32 (of_nat a) (of_nat (length s)) else of_nat a) = (of_nat (a + ?k) :: 32 word)"
    using Cons.prems(1) row sat_add_small[of a "length s"] by auto
  then have eqs: "offs = of_nat (a + ?k) # offs'" "blob = (if ok then bytes_of_str s else []) @ blob'"
    using Cons.prems(2) row rec by (auto simp: Let_def)
  have "a + ?k + blob_len rows < 2 ^ 31" using Cons.prems(1) row by simp
  note IH = Cons.IH[OF this rec]
  have "offs ! r = of_nat (a + blob_len (take (Suc r) (row # rows))) \<and>
      (snd ((row # rows) ! r) \<longrightarrow> take (length (fst ((row # rows) ! r))) (drop (blob_len (take r (row # rows))) blob) = bytes_of_str (fst ((row # rows) ! r)))"
    if "r < length (row # rows)" for r
    using that IH row by (cases r) (auto simp: eqs add.assoc)
  then show ?case using IH row by (simp add: eqs)
qed simp

lemma blob_len_take_Suc: "r < length rows \<Longrightarrow> blob_len (take (Suc r) rows) = blob_len (take r rows) + (if snd (rows ! r) then length (fst (rows ! r)) else 0)"
  by (simp add: blob_len_def take_Suc_conv_app_nth split_beta)

lemma blob_len_take: "blob_len (take r rows) \<le> blob_len rows"
  by (induction rows arbitrary: r) (auto simp: take_Cons' split_beta)

text \<open>The regions of the payload.\<close>

lemma payload_offset:
  assumes "i < length ws"
  shows "utf8_offset (le_bytes (n :: u32) @ words_le (ws :: 32 word list) @ blob) i = sint (ws ! i)"
proof -
  have "4 + i * 4 + 4 \<le> 4 + length (words_le ws)" using assms by (simp add: words_le_length)
  then have "take 4 (drop (4 + i * 4) (le_bytes n @ words_le ws @ blob)) = row_bytes 4 (words_le ws) i"
    by (simp add: row_bytes_def)
  also have "\<dots> = le_bytes (ws ! i)" using words_le_row[OF assms] by simp
  finally show ?thesis by (simp add: utf8_offset_def of_le_bytes_le_bytes)
qed

lemma utf8_payload_row:
  assumes rows: "rows = zip strs ok" "length strs = length ok" and small: "blob_len rows < 2 ^ 31"
    and pack: "utf8_pack 0 rows = (offs, blob)" and r: "r < length strs"
    and utf8: "ok ! r \<longrightarrow> utf8_valid (bytes_of_str (strs ! r))"
  shows "utf8_row name (le_bytes (n :: u32) @ words_le (0 # offs) @ blob) blob (pack_valid_bitmap ok) r = Inr (packed_rows strs ok ! r)"
proof -
  let ?data = "le_bytes n @ words_le (0 # offs) @ blob"
  have len: "length rows = length strs" using rows by simp
  have "utf8_pack (of_nat 0) rows = (offs, blob)" using pack by simp
  with utf8_pack_spec[of 0 rows offs blob] small have spec: "length offs = length rows" "length blob = blob_len rows"
    "\<And>q. q < length rows \<Longrightarrow> offs ! q = of_nat (blob_len (take (Suc q) rows)) \<and>
      (snd (rows ! q) \<longrightarrow> take (length (fst (rows ! q))) (drop (blob_len (take q rows)) blob) = bytes_of_str (fst (rows ! q)))"
    by simp_all
  have at: "sint ((0 # offs) ! q) = int (blob_len (take q rows))" if "q \<le> length rows" for q
  proof (cases q)
    case (Suc p)
    with that spec(3)[of p] have "(0 # offs) ! q = of_nat (blob_len (take q rows))" by simp
    with sint_of_nat32[of "blob_len (take q rows)"] blob_len_take[of q rows] small show ?thesis by simp
  qed simp
  have off: "utf8_offset ?data q = int (blob_len (take q rows))" if "q \<le> length rows" for q
    using payload_offset[of q "0 # offs" n blob] at[OF that] that spec(1) by simp
  have bit: "bit_at (pack_valid_bitmap ok) r = (if ok ! r then 1 else 0)"
    using bit_at_1[OF pack_index_in_range[of r ok]] r rows(2) by (simp add: pack_get)
  have row: "rows ! r = (strs ! r, ok ! r)" using rows r by simp
  show ?thesis
  proof (cases "ok ! r")
    case True
    have e: "blob_len (take (Suc r) rows) = blob_len (take r rows) + length (strs ! r)"
      using blob_len_take_Suc[of r rows] r len row True by simp
    have "take (length (strs ! r)) (drop (blob_len (take r rows)) blob) = bytes_of_str (strs ! r)"
      using spec(3)[of r] r len row True by simp
    moreover have "blob_len (take (Suc r) rows) \<le> length blob" using blob_len_take spec(2) by simp
    moreover have "nat (int x + int y) = x + y" for x y by simp
    ultimately show ?thesis
      using r len True utf8 off[of r] off[of "Suc r"] rows(2)
      by (simp add: utf8_row_def bit e packed_rows_def bytes_of_str_back Let_def)
  next
    case False
    then show ?thesis using r rows(2) by (simp add: utf8_row_def bit packed_rows_def)
  qed
qed

section \<open>Properties\<close>

text \<open>C11. A string column survives the packed wire format: the bytes in which a decoded string key is
  returned parse, by the format of the input columns, to the same strings and the same nulls, up to
  2^31 bytes of text.\<close>

theorem utf8_column_roundtrip:
  assumes "length strs = length ok" and "length strs < 2 ^ 32" and "blob_len (zip strs ok) < 2 ^ 31"
    and "\<forall>r < length strs. ok ! r \<longrightarrow> utf8_valid (bytes_of_str (strs ! r))"
  shows "case encode_decoded_column (DUtf8 strs ok) of (tag, data, valid) \<Rightarrow>
    tag = ''Utf8'' \<and> parse_utf8_column name (length strs) data valid = Inr (packed_rows strs ok)"
proof -
  let ?n = "of_nat (length strs) :: u32"
  obtain offs blob where pack: "utf8_pack 0 (zip strs ok) = (offs, blob)" by fastforce
  let ?data = "le_bytes ?n @ words_le (0 # offs) @ blob"
  have "utf8_pack (of_nat 0) (zip strs ok) = (offs, blob)" using pack by simp
  with utf8_pack_spec[of 0 "zip strs ok" offs blob] assms(1,3) have len: "length offs = length strs" by simp
  have n: "unat ?n = length strs" using assms(2) by (simp add: unat_of_nat)
  have head: "take 4 ?data = le_bytes ?n" by simp
  have size: "length (words_le (0 # offs)) = (length strs + 1) * 4" unfolding words_le_length using len by simp
  then have tail: "drop (4 + length strs * 4) (words_le (0 # offs)) = []" "length (words_le (0 # offs)) = 4 + length strs * 4" by simp_all
  have long: "4 + (length strs + 1) * 4 \<le> length ?data" using size by simp
  have valid: "(length strs + 7) div 8 \<le> length (pack_valid_bitmap ok)"
    using align4_ge[of "div_ceil (length ok) 8"] assms(1) unfolding pack_length div_ceil_8 by linarith
  have "rmap (utf8_row name ?data blob (pack_valid_bitmap ok)) [0..<length strs] = Inr (map ((!) (packed_rows strs ok)) [0..<length strs])"
  proof (rule rmap_total)
    fix r assume "r \<in> set [0..<length strs]"
    then have r: "r < length strs" by simp
    with assms(4) have "ok ! r \<longrightarrow> utf8_valid (bytes_of_str (strs ! r))" by blast
    then show "utf8_row name ?data blob (pack_valid_bitmap ok) r = Inr (packed_rows strs ok ! r)"
      by (rule utf8_payload_row[OF refl assms(1,3) pack r])
  qed
  also have "map ((!) (packed_rows strs ok)) [0..<length strs] = packed_rows strs ok"
    using map_nth[of "packed_rows strs ok"] assms(1) by (simp add: packed_rows_def)
  finally have "parse_utf8_column name (length strs) ?data (pack_valid_bitmap ok) = Inr (packed_rows strs ok)"
    using long valid by (simp add: parse_utf8_column_def head n tail of_le_bytes_le_bytes Let_def del: words_le_simps)
  then show ?thesis by (simp add: pack)
qed

lemma utf8_column_roundtrip_witness:
  "case encode_decoded_column (DUtf8 [''ab'', [], ''c''] [True, False, True]) of (tag, data, valid) \<Rightarrow>
    parse_utf8_column ''k'' 3 data valid = Inr [Some ''ab'', None, Some ''c'']"
proof -
  have "case encode_decoded_column (DUtf8 [''ab'', [], ''c''] [True, False, True]) of (tag, data, valid) \<Rightarrow>
      tag = ''Utf8'' \<and> parse_utf8_column ''k'' (length [''ab'', [], ''c'']) data valid = Inr (packed_rows [''ab'', [], ''c''] [True, False, True])"
  proof (rule utf8_column_roundtrip)
    show "\<forall>r < length [''ab'', [], ''c'']. [True, False, True] ! r \<longrightarrow> utf8_valid (bytes_of_str ([''ab'', [], ''c''] ! r))"
      by code_simp
  qed simp_all
  then show ?thesis by (simp add: packed_rows_def numeral_3_eq_3 split: prod.splits)
qed

end
