(* ===== verification/Execute.thy ===== *)
theory Execute
  imports Columns_Wire Fused_Correct
begin

text \<open>Models \<open>execute_groupby\<close> of \<open>polars-metal-core/src/udf/groupby/mod.rs\<close> with \<open>execute_peragg\<close> of
  \<open>legacy.rs\<close>: the Python entry point that parses the plan and the columns, picks a route, retries a
  fused query with too many groups on the per-aggregate pipeline, and returns the results as bytes.
  A panic is \<open>None\<close>; the messages of the Python exceptions are structured values.\<close>

section \<open>Errors and the engine\<close>

datatype exec_error =
    PlanParse plan_parse_error
  | ColumnNotTuple nat
  | ColumnArity nat nat
  | ColumnField nat string
  | KeyColumnMissing string
  | KeyWire wire_error
  | KeyUnsupported
  | AggColumnMissing string
  | DeviceUnavailable string
  | FusedValue string wire_error
  | FusedFailed fused_error
  | PerAggValue wire_error
  | PerAggMissing
  | ExpressionPerAgg
  | GroupByFailed group_by_error

text \<open>Everything outside the program that one call depends on: the runtime, the arithmetic and compiler of
  the fused kernel, the GPU build, the device, the order in which a hash map is iterated, and the
  reading of a Python integer as a float.\<close>

record engine =
  eng_rt :: runtime
  eng_math :: fused_math
  eng_a1 :: a1_run
  eng_env :: fused_env
  eng_device :: "string option"
  eng_iter :: "string list \<Rightarrow> string list"
  eng_float :: "int \<Rightarrow> u64 option"

definition map_err :: "('e \<Rightarrow> 'f) \<Rightarrow> 'e + 'a \<Rightarrow> 'f + 'a" where
  "map_err f r = (case r of Inl e \<Rightarrow> Inl (f e) | Inr x \<Rightarrow> Inr x)"

section \<open>Columns\<close>

definition extract_bytes :: "py_value \<Rightarrow> bytes option" where
  "extract_bytes v = (case v of PyByteString bs \<Rightarrow> Some bs | _ \<Rightarrow> None)"

definition or_field :: "nat \<Rightarrow> string \<Rightarrow> 'a option \<Rightarrow> exec_error + 'a" where
  "or_field idx what v = (case v of None \<Rightarrow> Inl (ColumnField idx what) | Some x \<Rightarrow> Inr x)"

definition parse_column :: "nat \<times> py_value \<Rightarrow> exec_error + string \<times> string \<times> bytes \<times> bytes" where
  "parse_column = (\<lambda>(idx, v). case v of
     PyTupleOf tup \<Rightarrow>
       if length tup \<noteq> 4 then Inl (ColumnArity idx (length tup))
       else rbind (or_field idx ''name'' (extract_string (tup ! 0))) (\<lambda>name.
            rbind (or_field idx ''dtype'' (extract_string (tup ! 1))) (\<lambda>tag.
            rbind (or_field idx ''data'' (extract_bytes (tup ! 2))) (\<lambda>data.
            rbind (or_field idx ''valid'' (extract_bytes (tup ! 3))) (\<lambda>valid.
              Inr (name, tag, data, valid)))))
   | _ \<Rightarrow> Inl (ColumnNotTuple idx))"

definition parse_columns :: "py_value list \<Rightarrow> exec_error + wire_columns" where
  "parse_columns cols =
     rbind (rmap parse_column (enumerate 0 cols)) (\<lambda>entries. Inr (foldl (\<lambda>m (name, col). m(name \<mapsto> col)) Map.empty entries))"

section \<open>Keys\<close>

definition metal_dtype_to_key_dtype :: "metal_dtype \<Rightarrow> exec_error + key_dtype" where
  "metal_dtype_to_key_dtype d =
     (case d of I64 \<Rightarrow> Inr KI64 | F64 \<Rightarrow> Inr KF64 | Bool \<Rightarrow> Inr KBool | I32 \<Rightarrow> Inr KI32 | F32 \<Rightarrow> Inr KF32 | I8 \<Rightarrow> Inr KI8
      | I16 \<Rightarrow> Inr KI16 | U8 \<Rightarrow> Inr KU8 | U16 \<Rightarrow> Inr KU16 | U32 \<Rightarrow> Inr KU32 | Utf8 \<Rightarrow> Inr KUtf8 | U64 \<Rightarrow> Inl KeyUnsupported)"

definition key_bytes :: "wire_columns \<Rightarrow> nat \<Rightarrow> parsed_key \<Rightarrow> exec_error + bytes \<times> bytes \<times> string list option" where
  "key_bytes by_name n_rows k =
     (case by_name (pk_name k) of
        None \<Rightarrow> Inl (KeyColumnMissing (pk_name k))
      | Some (tag, data, valid) \<Rightarrow>
          if pk_dtype k = Utf8
          then map_err KeyWire (rbind (utf8_codes (pk_name k) n_rows data valid) (\<lambda>(codes, dict). Inr (codes, valid, Some dict)))
          else Inr (data, valid, None))"

definition key_column_of :: "nat \<Rightarrow> parsed_key \<times> bytes \<times> bytes \<times> string list option \<Rightarrow> exec_error + key_column" where
  "key_column_of n_rows = (\<lambda>(k, data, valid, dict).
     rbind (metal_dtype_to_key_dtype (pk_dtype k)) (\<lambda>d.
       Inr \<lparr>kc_name = pk_name k, kc_dtype = d, kc_data = data, kc_valid = valid, kc_n_rows = n_rows, kc_dict = dict\<rparr>))"

definition build_keys :: "wire_columns \<Rightarrow> nat \<Rightarrow> parsed_key list \<Rightarrow> exec_error + key_column list" where
  "build_keys by_name n_rows keys =
     rbind (rmap (key_bytes by_name n_rows) keys) (\<lambda>refs. rmap (key_column_of n_rows) (zip keys refs))"

section \<open>Aggregates\<close>

type_synonym byte_refs = "(string \<times> string \<times> bytes \<times> bytes) list"

fun collect_refs :: "wire_columns \<Rightarrow> byte_refs \<Rightarrow> string list \<Rightarrow> exec_error + byte_refs" where
  "collect_refs by_name refs [] = Inr refs"
| "collect_refs by_name refs (c # cs) =
     (if map_of refs c \<noteq> None then collect_refs by_name refs cs
      else case by_name c of
          None \<Rightarrow> Inl (AggColumnMissing c)
        | Some col \<Rightarrow> collect_refs by_name (refs @ [(c, col)]) cs)"

definition fused_value :: "byte_refs \<Rightarrow> nat \<Rightarrow> string \<Rightarrow> exec_error + string \<times> value_column" where
  "fused_value refs n_rows name =
     (case the (map_of refs name) of (tag, data, valid) \<Rightarrow>
        map_err (FusedValue name) (rbind (build_value_column tag data valid n_rows) (\<lambda>vcol. Inr (name, vcol))))"

definition peragg_spec :: "byte_refs \<Rightarrow> nat \<Rightarrow> nat \<times> parsed_agg \<Rightarrow> exec_error + agg_request \<times> value_column" where
  "peragg_spec refs n_rows = (\<lambda>(i, agg). case agg of
     PaLength _ \<Rightarrow> Inr (\<lparr>req_kind = LenRows, input_col_idx = i\<rparr>, VI64 [] [])
   | PaSimple input_col op _ \<Rightarrow>
       (case map_of refs input_col of
          None \<Rightarrow> Inl PerAggMissing
        | Some (tag, data, valid) \<Rightarrow>
            map_err PerAggValue (rbind (build_agg_kind_and_vcol op tag data valid n_rows) (\<lambda>(kind, vcol).
              Inr (\<lparr>req_kind = kind, input_col_idx = i\<rparr>, vcol))))
   | PaExpression _ _ _ \<Rightarrow> Inl ExpressionPerAgg)"

definition execute_peragg :: "engine \<Rightarrow> key_column list \<Rightarrow> parsed_agg list \<Rightarrow> byte_refs \<Rightarrow> nat \<Rightarrow> (exec_error + group_by_result) option" where
  "execute_peragg eng key_cols aggs refs n_rows =
     (case rmap (peragg_spec refs n_rows) (enumerate 0 aggs) of
        Inl e \<Rightarrow> Some (Inl e)
      | Inr specs \<Rightarrow> map_option (map_err GroupByFailed) (dispatch_groupby (eng_rt eng) (eng_a1 eng) key_cols specs n_rows))"

section \<open>The two routes\<close>

definition is_group_cap :: "fused_error \<Rightarrow> bool" where
  "is_group_cap e = (case e of NgroupsExceedsFusedCap _ _ \<Rightarrow> True | _ \<Rightarrow> False)"

definition run_groupby ::
  "engine \<Rightarrow> fused_cache \<Rightarrow> key_column list \<Rightarrow> parsed_agg list \<Rightarrow> byte_refs \<Rightarrow> nat \<Rightarrow> fused_cache \<times> (exec_error + group_by_result) option" where
  "run_groupby eng cache key_cols aggs refs n_rows =
     (case decide_groupby_dispatch aggs (map_of refs) of
        PerAgg \<Rightarrow> (cache, execute_peragg eng key_cols aggs refs n_rows)
      | Fused \<Rightarrow>
          (case rmap (fused_value refs n_rows) (eng_iter eng (map fst refs)) of
             Inl e \<Rightarrow> (cache, Some (Inl e))
           | Inr columns \<Rightarrow>
               (case dispatch_groupby_fused (eng_rt eng) (eng_math eng) (eng_a1 eng) (eng_env eng) cache key_cols
                       (map kernel_spec aggs) (map_of columns) n_rows of
                  (cache', None) \<Rightarrow> (cache', None)
                | (cache', Some (Inr r)) \<Rightarrow> (cache', Some (Inr r))
                | (cache', Some (Inl e)) \<Rightarrow>
                    if is_group_cap e \<and> \<not> list_ex is_expression aggs
                    then (cache', execute_peragg eng key_cols aggs refs n_rows)
                    else (cache', Some (Inl (FusedFailed e))))))"

type_synonym result_columns = "(string \<times> encoded_column) list"

definition encode_result :: "parsed_plan \<Rightarrow> group_by_result \<Rightarrow> result_columns option" where
  "encode_result p r =
     (if length (decoded_keys r) < length (pp_keys p) \<or> length (agg_outputs r) < length (pp_aggs p) then None
      else Some (map2 (\<lambda>k d. (pk_name k, encode_decoded_column d)) (pp_keys p) (decoded_keys r) @
                 map2 (\<lambda>a out. (output_alias a, encode_agg_output out)) (pp_aggs p) (agg_outputs r)))"

text \<open>What is prepared before the route is chosen.\<close>

definition prepare :: "engine \<Rightarrow> py_dict \<Rightarrow> nat \<Rightarrow> py_value list \<Rightarrow> exec_error + parsed_plan \<times> key_column list \<times> byte_refs" where
  "prepare eng plan_dict n_rows columns =
     rbind (map_err PlanParse (parse_groupby_plan (eng_float eng) plan_dict)) (\<lambda>p.
     rbind (parse_columns columns) (\<lambda>by_name.
     rbind (build_keys by_name n_rows (pp_keys p)) (\<lambda>key_cols.
     rbind (collect_refs by_name [] (concat (map agg_columns (pp_aggs p)))) (\<lambda>refs.
     (case eng_device eng of Some e \<Rightarrow> Inl (DeviceUnavailable e) | None \<Rightarrow> Inr (p, key_cols, refs))))))"

definition execute_groupby :: "engine \<Rightarrow> fused_cache \<Rightarrow> py_dict \<Rightarrow> nat \<Rightarrow> py_value list \<Rightarrow> fused_cache \<times> (exec_error + result_columns) option" where
  "execute_groupby eng cache plan_dict n_rows columns =
     (case prepare eng plan_dict n_rows columns of
        Inl e \<Rightarrow> (cache, Some (Inl e))
      | Inr (p, key_cols, refs) \<Rightarrow>
          (case run_groupby eng cache key_cols (pp_aggs p) refs n_rows of
             (cache', None) \<Rightarrow> (cache', None)
           | (cache', Some (Inl e)) \<Rightarrow> (cache', Some (Inl e))
           | (cache', Some (Inr r)) \<Rightarrow> (cache', map_option Inr (encode_result p r))))"

section \<open>Keys and columns\<close>

lemma map_err_Inr [result_simps]: "map_err f r = Inr x \<longleftrightarrow> r = Inr x"
  by (cases r) (simp_all add: map_err_def)

lemma map_err_simps [simp]: "map_err f (Inr x) = Inr x" "map_err f (Inl e) = Inl (f e)"
  by (simp_all add: map_err_def)

lemma build_keys_rows:
  assumes "build_keys by_name n keys = Inr cols"
  shows "length cols = length keys \<and> (\<forall>c \<in> set cols. kc_n_rows c = n)"
proof -
  obtain refs where refs: "rmap (key_bytes by_name n) keys = Inr refs" "rmap (key_column_of n) (zip keys refs) = Inr cols"
    using assms by (auto simp: build_keys_def result_simps)
  have len: "length refs = length keys" using refs(1) by (simp add: rmap_Inr_iff)
  have rows: "kc_n_rows (cols ! i) = n" if "i < length keys" for i
  proof -
    have "key_column_of n (keys ! i, refs ! i) = Inr (cols ! i)" using that refs(2) len by (simp add: rmap_Inr_iff)
    then show ?thesis by (cases "refs ! i") (auto simp: key_column_of_def result_simps dest!: sym[of _ "cols ! i"])
  qed
  have "length cols = length keys" using refs(2) len by (simp add: rmap_Inr_iff)
  with rows show ?thesis by (auto simp: in_set_conv_nth)
qed

lemma collect_refs_lookup:
  assumes "collect_refs by_name refs cs = Inr refs'" and "\<forall>c \<in> dom (map_of refs). map_of refs c = by_name c"
  shows "dom (map_of refs') = dom (map_of refs) \<union> set cs \<and> (\<forall>c \<in> dom (map_of refs'). map_of refs' c = by_name c)"
  using assms
proof (induction cs arbitrary: refs)
  case (Cons c cs)
  show ?case
  proof (cases "c \<in> dom (map_of refs)")
    case True
    with Cons.prems(1) have "collect_refs by_name refs cs = Inr refs'" by auto
    from Cons.IH[OF this Cons.prems(2)] True show ?thesis by auto
  next
    case False
    then have none: "map_of refs c = None" by blast
    with Cons.prems(1) obtain col where col: "by_name c = Some col" "collect_refs by_name (refs @ [(c, col)]) cs = Inr refs'"
      by (auto split: option.splits)
    have m: "map_of (refs @ [(c, col)]) = (map_of refs)(c \<mapsto> col)" using none by (auto simp: map_add_def split: option.splits)
    have "\<forall>d \<in> dom (map_of (refs @ [(c, col)])). map_of (refs @ [(c, col)]) d = by_name d"
      unfolding m using Cons.prems(2) col(1) by simp
    from Cons.IH[OF col(2) this] show ?thesis unfolding m dom_fun_upd by simp
  qed
qed simp

section \<open>What a query asks of its columns\<close>

fun wire_vcol :: "nat \<Rightarrow> string \<times> bytes \<times> bytes \<Rightarrow> value_column" where
  "wire_vcol n (tag, data, valid) =
     (if tag = ''I64'' then VI64 (typed_view 8 data n) valid else if tag = ''F64'' then VF64 (typed_view 8 data n) valid
      else if tag = ''I32'' then VI32 (typed_view 4 data n) valid else VF32 (typed_view 4 data n) valid)"

fun wire_column_ok :: "nat \<Rightarrow> string \<times> bytes \<times> bytes \<Rightarrow> bool" where
  "wire_column_ok n (tag, data, valid) \<longleftrightarrow>
     (tag \<in> {''I64'', ''F64''} \<and> n * 8 \<le> length data \<or> tag \<in> {''I32'', ''F32''} \<and> n * 4 \<le> length data) \<and> div_ceil n 8 \<le> length valid"

fun op_is_len :: "parsed_agg \<Rightarrow> bool" where
  "op_is_len (PaSimple _ op _) \<longleftrightarrow> op = Len"
| "op_is_len _ \<longleftrightarrow> False"

definition query_ok :: "nat \<Rightarrow> byte_refs \<Rightarrow> parsed_agg list \<Rightarrow> bool" where
  "query_ok n refs aggs \<longleftrightarrow>
     (\<forall>a \<in> set aggs. \<not> op_is_len a) \<and> (\<forall>a \<in> set aggs. \<forall>c \<in> set (agg_columns a). \<exists>col. map_of refs c = Some col \<and> wire_column_ok n col) \<and>
     (\<forall>col \<in> ran (map_of refs). wire_column_ok n col)"

definition wire_kind :: "agg_op \<Rightarrow> string \<times> bytes \<times> bytes \<Rightarrow> agg_kind" where
  "wire_kind op col = the (map_of agg_kind_table (op, fst col))"

definition seed_cell :: "agg_op \<Rightarrow> value_column \<Rightarrow> agg_cell" where
  "seed_cell op vcol =
     (if value_dtype vcol = KtF32 then CF32 (Some (if op = Min then f32_infinity else f32_neg_infinity))
      else CI32 (Some (if op = Min then i32_max else i32_min)))"

text \<open>The answer to one aggregate for the rows of a group. The fused kernel answers a minimum or maximum of no
  values by its seed, the per-aggregate pipeline by null.\<close>

definition agg_answer :: "engine \<Rightarrow> nat \<Rightarrow> byte_refs \<Rightarrow> bool \<Rightarrow> parsed_agg \<Rightarrow> nat list \<Rightarrow> agg_cell \<Rightarrow> bool" where
  "agg_answer eng n refs fused a rows c \<longleftrightarrow>
     (case a of
        PaLength _ \<Rightarrow> c = CU64 (of_nat (length rows))
      | PaSimple name op _ \<Rightarrow>
          (let col = the (map_of refs name); vcol = wire_vcol n col in
             if fused \<and> op \<in> {Min, Max} \<and> filter (get_valid (column_valid vcol)) rows = [] then c = seed_cell op vcol
             else agg_meaning (eng_rt eng) (wire_kind op col) vcol rows c)
      | PaExpression e op _ \<Rightarrow>
          fused_meaning (eng_rt eng) (eng_math eng) (\<lambda>name. map_option (wire_vcol n) (map_of refs name)) (kernel_spec a) rows c)"

section \<open>The per-aggregate route\<close>

lemma checked_reinterpret_ok: "n * w \<le> length data \<Longrightarrow> checked_reinterpret w data n tag = Inr (typed_view w data n)"
  by (simp add: checked_reinterpret_def)

lemma typed_view_length [simp]: "length (typed_view w data n) = n"
  by (simp add: typed_view_def)

lemma wire_column_cases:
  assumes "wire_column_ok n col"
  obtains tag data valid where "col = (tag, data, valid)" "tag = ''I64'' \<or> tag = ''F64'' \<or> tag = ''I32'' \<or> tag = ''F32''"
    "tag = ''I64'' \<or> tag = ''F64'' \<longrightarrow> n * 8 \<le> length data" "tag = ''I32'' \<or> tag = ''F32'' \<longrightarrow> n * 4 \<le> length data"
    "div_ceil n 8 \<le> length valid"
  using assms by (cases col) auto

lemma build_agg_ok:
  assumes "wire_column_ok n (tag, data, valid)" and "op \<noteq> Len"
  shows "build_agg_kind_and_vcol op tag data valid n = Inr (wire_kind op (tag, data, valid), wire_vcol n (tag, data, valid)) \<and>
    kind_accepts (wire_kind op (tag, data, valid)) (wire_vcol n (tag, data, valid)) \<and> column_fits n (wire_vcol n (tag, data, valid))"
proof -
  from assms(1) have t: "tag = ''I64'' \<and> n * 8 \<le> length data \<or> tag = ''F64'' \<and> n * 8 \<le> length data \<or>
      tag = ''I32'' \<and> n * 4 \<le> length data \<or> tag = ''F32'' \<and> n * 4 \<le> length data" and v: "div_ceil n 8 \<le> length valid" by auto
  have kind: "agg_kind_for op tag = Inr (wire_kind op (tag, data, valid))" "kind_accepts (wire_kind op (tag, data, valid)) (wire_vcol n (tag, data, valid))"
    using t assms(2) by (cases op; auto simp: agg_kind_for_def wire_kind_def agg_kind_table_def)+
  show ?thesis
    using t v kind by (auto simp: build_agg_kind_and_vcol_def checked_reinterpret_ok)
qed

definition peragg_pair :: "byte_refs \<Rightarrow> nat \<Rightarrow> nat \<times> parsed_agg \<Rightarrow> agg_request \<times> value_column" where
  "peragg_pair refs n = (\<lambda>(i, a). case a of
     PaSimple name op _ \<Rightarrow> (\<lparr>req_kind = wire_kind op (the (map_of refs name)), input_col_idx = i\<rparr>, wire_vcol n (the (map_of refs name)))
   | _ \<Rightarrow> (\<lparr>req_kind = LenRows, input_col_idx = i\<rparr>, VI64 [] []))"

lemma peragg_spec_ok:
  assumes "query_ok n refs aggs" and "a \<in> set aggs" and "\<not> is_expression a"
  shows "peragg_spec refs n (i, a) = Inr (peragg_pair refs n (i, a)) \<and> spec_ok n (peragg_pair refs n (i, a))"
proof (cases a)
  case (PaSimple name op al)
  then obtain col where col: "map_of refs name = Some col" "wire_column_ok n col" and op: "op \<noteq> Len"
    using assms(1,2) by (fastforce simp: query_ok_def)
  obtain tag data valid where c: "col = (tag, data, valid)" by (cases col)
  with build_agg_ok[of n tag data valid op] col op PaSimple show ?thesis
    by (simp add: peragg_spec_def peragg_pair_def spec_ok_def del: wire_vcol.simps)
next
  case (PaExpression e op al)
  with assms(3) show ?thesis by (simp add: is_expression_def)
next
  case (PaLength al)
  then show ?thesis by (simp add: peragg_spec_def peragg_pair_def spec_ok_def)
qed

lemma peragg_answer:
  assumes "\<not> is_expression a" and "agg_meaning (eng_rt eng) (req_kind (fst (peragg_pair refs n (i, a)))) (snd (peragg_pair refs n (i, a))) rows c"
  shows "agg_answer eng n refs False a rows c"
  using assms by (cases a) (simp_all add: agg_answer_def peragg_pair_def is_expression_def agg_meaning_def Let_def)

text \<open>The groups that a result stands for, as the first row of each.\<close>

definition group_firsts :: "key_column list \<Rightarrow> nat \<Rightarrow> nat list \<Rightarrow> bool" where
  "group_firsts key_cols n reps \<longleftrightarrow> (\<forall>r \<in> set reps. r < n) \<and>
     (\<forall>i < n. \<exists>!g. g < length reps \<and> same_key key_cols (reps ! g) i) \<and>
     (\<forall>g < length reps. \<forall>i < n. same_key key_cols (reps ! g) i \<longrightarrow> reps ! g \<le> i)"

definition key_rows :: "key_column list \<Rightarrow> nat \<Rightarrow> nat list \<Rightarrow> nat \<Rightarrow> nat list" where
  "key_rows key_cols n reps g = filter (same_key key_cols (reps ! g)) [0..<n]"

lemma same_key_equiv: "same_key cols i i" "same_key cols i j \<longleftrightarrow> same_key cols j i"
  "same_key cols i j \<Longrightarrow> same_key cols j k \<Longrightarrow> same_key cols i k"
  by (auto simp: same_key_def)

text \<open>They are the rows that no earlier row agrees with, so their number is that of the groups.\<close>

lemma group_firsts_rows:
  assumes "group_firsts key_cols n reps"
  shows "distinct reps" and "set reps = {i. i < n \<and> (\<forall>j < n. same_key key_cols j i \<longrightarrow> i \<le> j)}"
proof -
  have below: "\<forall>r \<in> set reps. r < n" and one: "\<And>i. i < n \<Longrightarrow> \<exists>!g. g < length reps \<and> same_key key_cols (reps ! g) i"
    and least: "\<And>g i. g < length reps \<Longrightarrow> i < n \<Longrightarrow> same_key key_cols (reps ! g) i \<Longrightarrow> reps ! g \<le> i"
    using assms by (auto simp: group_firsts_def)
  show "distinct reps"
  proof (unfold distinct_conv_nth, intro allI impI notI)
    fix g h assume "g < length reps" "h < length reps" "g \<noteq> h" "reps ! g = reps ! h"
    moreover from this below have "reps ! g < n" by simp
    ultimately show False using one[of "reps ! g"] same_key_equiv(1) by metis
  qed
  show "set reps = {i. i < n \<and> (\<forall>j < n. same_key key_cols j i \<longrightarrow> i \<le> j)}"
  proof (intro equalityI subsetI CollectI conjI allI impI)
    fix r assume r: "r \<in> set reps"
    then show "r < n" using below by blast
    fix j assume "j < n" "same_key key_cols j r"
    with r least same_key_equiv(2) show "r \<le> j" by (metis in_set_conv_nth)
  next
    fix i assume i: "i \<in> {i. i < n \<and> (\<forall>j < n. same_key key_cols j i \<longrightarrow> i \<le> j)}"
    then obtain g where g: "g < length reps" "same_key key_cols (reps ! g) i" using one by blast
    moreover have "i \<le> reps ! g" using i g below by (metis (mono_tags, lifting) mem_Collect_eq nth_mem)
    ultimately have "reps ! g = i" using least i by (simp add: le_antisym)
    with g(1) show "i \<in> set reps" by auto
  qed
qed

lemma group_firsts_length:
  assumes "group_firsts key_cols n reps" and "group_firsts key_cols n reps'"
  shows "length reps = length reps'"
  using distinct_card[OF group_firsts_rows(1)[OF assms(1)]] distinct_card[OF group_firsts_rows(1)[OF assms(2)]]
  by (simp only: group_firsts_rows(2)[OF assms(1)] group_firsts_rows(2)[OF assms(2)])

definition answers :: "engine \<Rightarrow> nat \<Rightarrow> byte_refs \<Rightarrow> bool \<Rightarrow> key_column list \<Rightarrow> parsed_agg list \<Rightarrow> nat list \<Rightarrow> group_by_result \<Rightarrow> bool" where
  "answers eng n refs fused key_cols aggs reps res \<longleftrightarrow>
     decoded_keys res = map (\<lambda>c. column_view c reps) key_cols \<and> length (agg_outputs res) = length aggs \<and>
     (\<forall>out \<in> set (agg_outputs res). output_len (length reps) out) \<and>
     (\<forall>a < length aggs. \<forall>g < length reps.
        agg_answer eng n refs fused (aggs ! a) (key_rows key_cols n reps g) (out_cell (agg_outputs res ! a) g))"

definition engine_ok :: "engine \<Rightarrow> bool" where
  "engine_ok eng \<longleftrightarrow> lawful_runtime (eng_rt eng) \<and> (\<forall>xs. set (eng_iter eng xs) = set xs)"

lemma keyless_firsts: "0 < n \<Longrightarrow> group_firsts [] n [0] \<and> key_rows [] n [0] 0 = [0..<n]"
  by (simp add: group_firsts_def key_rows_def same_key_def)

lemma peragg_specs:
  assumes "query_ok n refs aggs" and "\<not> list_ex is_expression aggs"
  shows "rmap (peragg_spec refs n) (enumerate k aggs) = Inr (map (peragg_pair refs n) (enumerate k aggs)) \<and>
    (\<forall>s \<in> set (map (peragg_pair refs n) (enumerate k aggs)). spec_ok n s)"
proof -
  have ok: "peragg_spec refs n x = Inr (peragg_pair refs n x) \<and> spec_ok n (peragg_pair refs n x)" if "x \<in> set (enumerate k aggs)" for x
  proof -
    obtain i a where x: "x = (i, a)" by (cases x)
    with that have "a \<in> set aggs" by (auto simp: in_set_enumerate_eq)
    moreover from this have "\<not> is_expression a" using assms(2) by (auto simp: list_ex_iff)
    ultimately show ?thesis unfolding x by (rule peragg_spec_ok[OF assms(1)])
  qed
  then show ?thesis by (auto intro!: rmap_total)
qed

lemma peragg_route:
  assumes eng: "engine_ok eng" "orderly_build (eng_a1 eng) encoded" and q: "query_ok n refs aggs" "\<not> list_ex is_expression aggs"
    and enc: "fused_encode key_cols = Inr (encoded, schema)" "\<forall>c \<in> set key_cols. kc_n_rows c = n" and n: "0 < n" "n < 2 ^ 32"
  shows "\<exists>res reps. execute_peragg eng key_cols aggs refs n = Some (Inr res) \<and> group_firsts key_cols n reps \<and>
    answers eng n refs False key_cols aggs reps res"
proof -
  define specs where "specs = map (peragg_pair refs n) (enumerate 0 aggs)"
  have specs: "rmap (peragg_spec refs n) (enumerate 0 aggs) = Inr specs" "\<forall>s \<in> set specs. spec_ok n s" "length specs = length aggs"
    using peragg_specs[OF q, of 0] by (simp_all add: specs_def)
  have at: "specs ! a = peragg_pair refs n (a, aggs ! a)" "\<not> is_expression (aggs ! a)" if "a < length aggs" for a
    using that q(2) by (simp_all add: specs_def nth_enumerate_eq list_ex_iff)
  have rt: "lawful_runtime (eng_rt eng)" "orderly_build (eng_a1 eng) encoded" using eng by (simp_all add: engine_ok_def)
  have "\<exists>res reps. dispatch_groupby (eng_rt eng) (eng_a1 eng) key_cols specs n = Some (Inr res) \<and> group_firsts key_cols n reps \<and>
      decoded_keys res = map (\<lambda>c. column_view c reps) key_cols \<and> length (agg_outputs res) = length specs \<and>
      (\<forall>out \<in> set (agg_outputs res). output_len (length reps) out) \<and>
      (\<forall>j < length specs. \<forall>g < length reps. agg_meaning (eng_rt eng) (req_kind (fst (specs ! j))) (snd (specs ! j))
         (key_rows key_cols n reps g) (out_cell (agg_outputs res ! j) g))"
  proof (cases "key_cols = []")
    case True
    from keyless_groups[OF rt(1) n(2) specs(2), of "eng_a1 eng"] keyless_firsts[OF n(1)] n(1) True show ?thesis
      by (elim exE, intro exI[of _ "[0]"] exI) auto
  next
    case False
    with enc(1) have "encode_keys key_cols = Inr (encoded, schema)" by (auto simp: fused_encode_def split: sum.splits)
    from dispatch_groupby_groups[OF rt this enc(2) n specs(2)] show ?thesis
      unfolding group_firsts_def key_rows_def by blast
  qed
  then obtain res reps where r: "dispatch_groupby (eng_rt eng) (eng_a1 eng) key_cols specs n = Some (Inr res)" "group_firsts key_cols n reps"
    "decoded_keys res = map (\<lambda>c. column_view c reps) key_cols" "length (agg_outputs res) = length aggs"
    "\<forall>out \<in> set (agg_outputs res). output_len (length reps) out"
    "\<forall>j < length aggs. \<forall>g < length reps. agg_meaning (eng_rt eng) (req_kind (fst (specs ! j))) (snd (specs ! j))
         (key_rows key_cols n reps g) (out_cell (agg_outputs res ! j) g)" using specs(3) by auto
  have "agg_answer eng n refs False (aggs ! a) (key_rows key_cols n reps g) (out_cell (agg_outputs res ! a) g)"
    if "a < length aggs" "g < length reps" for a g
    by (rule peragg_answer[OF at(2)[OF that(1)], where i = a]) (use r(6) that at(1) in metis)
  then have "answers eng n refs False key_cols aggs reps res" using r by (simp add: answers_def)
  with r(1,2) specs(1) show ?thesis by (auto simp: execute_peragg_def)
qed

text \<open>An expression that reaches this route is an error.\<close>

lemma rmap_fails:
  assumes "\<And>x. x \<in> set xs \<Longrightarrow> f x = Inl e \<or> (\<exists>y. f x = Inr y)" and "\<exists>x \<in> set xs. f x = Inl e"
  shows "rmap f xs = Inl e"
  using assms
proof (induction xs)
  case (Cons x xs)
  show ?case
  proof (cases "f x = Inl e")
    case False
    then obtain y where "f x = Inr y" using Cons.prems(1)[of x] by auto
    moreover from False Cons have "rmap f xs = Inl e" by auto
    ultimately show ?thesis by simp
  qed simp
qed simp

lemma peragg_expression:
  assumes "query_ok n refs aggs" and "list_ex is_expression aggs"
  shows "execute_peragg eng key_cols aggs refs n = Some (Inl ExpressionPerAgg)"
proof -
  have expr: "peragg_spec refs n (i, a) = Inl ExpressionPerAgg" if "is_expression a" for i a
    using that by (cases a) (simp_all add: peragg_spec_def is_expression_def)
  have "rmap (peragg_spec refs n) (enumerate 0 aggs) = Inl ExpressionPerAgg"
  proof (rule rmap_fails)
    fix x assume x: "x \<in> set (enumerate 0 aggs)"
    obtain i a where ia: "x = (i, a)" by (cases x)
    with x have "a \<in> set aggs" by (auto simp: in_set_enumerate_eq)
    with peragg_spec_ok[OF assms(1), of a i] expr[of a i] ia
    show "peragg_spec refs n x = Inl ExpressionPerAgg \<or> (\<exists>y. peragg_spec refs n x = Inr y)" by blast
  next
    obtain i where "i < length aggs" "is_expression (aggs ! i)" using assms(2) by (auto simp: list_ex_iff in_set_conv_nth)
    then show "\<exists>x \<in> set (enumerate 0 aggs). peragg_spec refs n x = Inl ExpressionPerAgg"
      using expr by (intro bexI[of _ "(i, aggs ! i)"]) (auto simp: in_set_enumerate_eq)
  qed
  then show ?thesis by (simp add: execute_peragg_def)
qed

section \<open>The fused route\<close>

lemma narrow_wire:
  assumes "narrow_column (map_of refs) c" and "map_of refs c = Some col" and "wire_column_ok n col"
  shows "fused_value refs n c = Inr (c, wire_vcol n col) \<and> value_dtype (wire_vcol n col) \<in> {KtI32, KtF32} \<and> column_fits n (wire_vcol n col)"
proof -
  from assms(3) obtain tag data valid where c: "col = (tag, data, valid)" "tag = ''I64'' \<or> tag = ''F64'' \<or> tag = ''I32'' \<or> tag = ''F32''"
    "tag = ''I32'' \<or> tag = ''F32'' \<longrightarrow> n * 4 \<le> length data" "div_ceil n 8 \<le> length valid" by (rule wire_column_cases)
  have look: "map_of refs c = Some (tag, data, valid)" using assms(2) c(1) by simp
  have wide: "wire_dtype_tag_to_kernel ''I64'' = Some KtI64" "wire_dtype_tag_to_kernel ''F64'' = Some KtF64"
    by (simp_all add: wire_dtype_tag_to_kernel_def kernel_dtype_table_def)
  obtain dt where "wire_dtype_tag_to_kernel tag = Some dt" "dt \<notin> {KtF64, KtI64}"
    using assms(1) look unfolding narrow_column_def by auto
  then have "tag \<noteq> ''I64''" "tag \<noteq> ''F64''" using wide by auto
  with c(2) consider "tag = ''I32''" | "tag = ''F32''" by blast
  then show ?thesis
    by cases (use c(3,4) in \<open>simp_all add: fused_value_def look c(1) build_value_column_def checked_reinterpret_ok\<close>)
qed

definition wire_columns_of :: "nat \<Rightarrow> byte_refs \<Rightarrow> columns_by_name" where
  "wire_columns_of n refs = (\<lambda>name. map_option (wire_vcol n) (map_of refs name))"

lemma fused_values:
  assumes "\<forall>c \<in> set names. narrow_column (map_of refs) c \<and> (\<exists>col. map_of refs c = Some col \<and> wire_column_ok n col)"
  shows "rmap (fused_value refs n) names = Inr (map (\<lambda>c. (c, wire_vcol n (the (map_of refs c)))) names)"
  by (rule rmap_total) (use assms narrow_wire in fastforce)

lemma map_of_graph: "map_of (map (\<lambda>c. (c, f c)) xs) = (\<lambda>c. if c \<in> set xs then Some (f c) else None)"
  by (induction xs) auto

lemma fused_kind_wire:
  assumes "value_dtype (wire_vcol n col) \<in> {KtI32, KtF32}" and "wire_column_ok n col" and "op \<noteq> Len"
  shows "fused_kind (convert_agg_op op) (wire_vcol n col) = wire_kind op col"
proof -
  from assms(2) obtain tag data valid where c: "col = (tag, data, valid)" "tag = ''I64'' \<or> tag = ''F64'' \<or> tag = ''I32'' \<or> tag = ''F32''"
    by (rule wire_column_cases)
  from c(2) assms(1) have "tag = ''I32'' \<or> tag = ''F32''" unfolding c(1) by auto
  then show ?thesis
    using assms(3) unfolding c(1) by (elim disjE; cases op) (simp_all add: wire_kind_def agg_kind_table_def)
qed

lemma fused_answer:
  assumes q: "query_ok n refs aggs" and narrow: "\<forall>a \<in> set aggs. \<forall>c \<in> set (agg_columns a). narrow_column (map_of refs) c"
    and a: "a \<in> set aggs"
    and m: "fused_meaning (eng_rt eng) (eng_math eng) (wire_columns_of n refs) (kernel_spec a) rows c"
  shows "agg_answer eng n refs True a rows c"
proof (cases a)
  case (PaSimple name op al)
  with q a obtain col where col: "map_of refs name = Some col" "wire_column_ok n col" and op: "op \<noteq> Len"
    by (fastforce simp: query_ok_def)
  have "narrow_column (map_of refs) name" using narrow a PaSimple by fastforce
  from narrow_wire[OF this col] have dt: "value_dtype (wire_vcol n col) \<in> {KtI32, KtF32}" by blast
  have by_name: "column_of (wire_columns_of n refs) name = wire_vcol n col"
    using col(1) by (simp add: column_of_def wire_columns_of_def)
  have empty: "spec_values (eng_rt eng) (eng_math eng) (wire_columns_of n refs) (kernel_spec a) rows = [] \<longleftrightarrow>
      filter (get_valid (column_valid (wire_vcol n col))) rows = []"
    by (simp add: spec_values_def PaSimple by_name del: filter_empty_conv wire_vcol.simps) (simp add: filter_empty_conv by_name)
  have op_min: "convert_agg_op op = KMin \<longleftrightarrow> op = Min" "convert_agg_op op = KMax \<longleftrightarrow> op = Max" by (cases op; simp)+
  show ?thesis
  proof (cases "op \<in> {Min, Max} \<and> filter (get_valid (column_valid (wire_vcol n col))) rows = []")
    case True
    with m empty PaSimple op_min have "c = seed_cell op (wire_vcol n col)"
      by (auto simp: fused_meaning_def by_name seed_cell_def)
    with True dt col(1) PaSimple show ?thesis by (simp add: agg_answer_def Let_def)
  next
    case False
    with m empty PaSimple op_min have "agg_meaning (eng_rt eng) (fused_kind (convert_agg_op op) (wire_vcol n col)) (wire_vcol n col) rows c"
      by (auto simp: fused_meaning_def by_name simp del: fused_kind.simps)
    then have "agg_meaning (eng_rt eng) (wire_kind op col) (wire_vcol n col) rows c"
      unfolding fused_kind_wire[OF dt col(2) op] .
    with False col(1) PaSimple show ?thesis by (auto simp: agg_answer_def Let_def)
  qed
next
  case (PaExpression e op al)
  with m show ?thesis by (simp add: agg_answer_def wire_columns_of_def)
next
  case (PaLength al)
  with m show ?thesis by (simp add: agg_answer_def fused_meaning_def)
qed

lemma fused_route:
  assumes eng: "engine_ok eng" "orderly_build (eng_a1 eng) encoded" and q: "query_ok n refs aggs"
    and dom: "dom (map_of refs) = set (concat (map agg_columns aggs))"
    and choice: "decide_groupby_dispatch aggs (map_of refs) = Fused"
    and cache: "cache_fits (eng_env eng) cache (wire_columns_of n refs) (map kernel_spec aggs)"
    and enc: "fused_encode key_cols = Inr (encoded, schema)" "\<forall>c \<in> set key_cols. kc_n_rows c = n" and n: "0 < n" "n < 2 ^ 32"
  shows "\<exists>columns cache' r reps. rmap (fused_value refs n) (eng_iter eng (map fst refs)) = Inr columns \<and>
    dispatch_groupby_fused (eng_rt eng) (eng_math eng) (eng_a1 eng) (eng_env eng) cache key_cols (map kernel_spec aggs) (map_of columns) n =
      (cache', Some r) \<and> group_firsts key_cols n reps \<and>
    (case compile_refusal (eng_env eng) cache (wire_columns_of n refs) (map kernel_spec aggs) of Some e \<Rightarrow> r = Inl (FCache e) | None \<Rightarrow>
     if 16 < length reps then r = Inl (NgroupsExceedsFusedCap (length reps) 16)
     else \<exists>res. r = Inr res \<and> answers eng n refs True key_cols aggs reps res)"
proof -
  have narrow: "\<forall>a \<in> set aggs. \<forall>c \<in> set (agg_columns a). narrow_column (map_of refs) c" using choice decide_fused_iff by simp
  define names where "names = eng_iter eng (map fst refs)"
  have names: "set names = dom (map_of refs)" using eng by (simp add: names_def engine_ok_def dom_map_of_conv_image_fst)
  have ok: "narrow_column (map_of refs) c \<and> (\<exists>col. map_of refs c = Some col \<and> wire_column_ok n col)" if "c \<in> set (concat (map agg_columns aggs))" for c
    using that narrow q by (auto simp: query_ok_def)
  define columns where "columns = map (\<lambda>c. (c, wire_vcol n (the (map_of refs c)))) names"
  have cols: "rmap (fused_value refs n) names = Inr columns"
    unfolding columns_def by (rule fused_values) (use ok names dom in blast)
  have by_name: "map_of columns = wire_columns_of n refs"
    unfolding columns_def map_of_graph names wire_columns_of_def by (auto simp: fun_eq_iff)
  have call: "fused_column n (wire_columns_of n refs) c" if "c \<in> set (spec_names (map kernel_spec aggs))" for c
  proof -
    from that ok[of c] obtain col where col: "narrow_column (map_of refs) c" "map_of refs c = Some col" "wire_column_ok n col"
      unfolding kernel_spec_names by blast
    from narrow_wire[OF this] col(2) show ?thesis by (simp add: fused_column_def wire_columns_of_def)
  qed
  have rt: "lawful_runtime (eng_rt eng)" "orderly_build (eng_a1 eng) encoded" using eng by (simp_all add: engine_ok_def)
  from fused_groupby_groups[OF rt enc n _ cache, of "eng_math eng"] call obtain cache' r reps where
    r: "dispatch_groupby_fused (eng_rt eng) (eng_math eng) (eng_a1 eng) (eng_env eng) cache key_cols (map kernel_spec aggs) (map_of columns) n = (cache', Some r)"
    and firsts: "group_firsts key_cols n reps"
    and res: "case compile_refusal (eng_env eng) cache (wire_columns_of n refs) (map kernel_spec aggs) of Some e \<Rightarrow> r = Inl (FCache e) | None \<Rightarrow>
     if 16 < length reps then r = Inl (NgroupsExceedsFusedCap (length reps) 16)
     else \<exists>res. r = Inr res \<and> unat (result_groups res) = length reps \<and>
       decoded_keys res = map (\<lambda>c. column_view c reps) key_cols \<and> length (agg_outputs res) = length (map kernel_spec aggs) \<and>
       (\<forall>out \<in> set (agg_outputs res). output_len (length reps) out) \<and>
       (\<forall>a < length (map kernel_spec aggs). \<forall>g < length reps.
          fused_meaning (eng_rt eng) (eng_math eng) (wire_columns_of n refs) (map kernel_spec aggs ! a)
            (key_rows key_cols n reps g) (out_cell (agg_outputs res ! a) g))"
    unfolding by_name group_firsts_def key_rows_def by blast
  have "case compile_refusal (eng_env eng) cache (wire_columns_of n refs) (map kernel_spec aggs) of Some e \<Rightarrow> r = Inl (FCache e) | None \<Rightarrow>
      if 16 < length reps then r = Inl (NgroupsExceedsFusedCap (length reps) 16)
      else \<exists>res. r = Inr res \<and> answers eng n refs True key_cols aggs reps res"
  proof (cases "16 < length reps \<or> compile_refusal (eng_env eng) cache (wire_columns_of n refs) (map kernel_spec aggs) \<noteq> None")
    case False
    with res obtain res where r: "r = Inr res" "decoded_keys res = map (\<lambda>c. column_view c reps) key_cols"
      "length (agg_outputs res) = length aggs" "\<forall>out \<in> set (agg_outputs res). output_len (length reps) out"
      and meaning: "\<forall>a < length aggs. \<forall>g < length reps.
          fused_meaning (eng_rt eng) (eng_math eng) (wire_columns_of n refs) (map kernel_spec aggs ! a)
            (key_rows key_cols n reps g) (out_cell (agg_outputs res ! a) g)" by auto
    have "agg_answer eng n refs True (aggs ! a) (key_rows key_cols n reps g) (out_cell (agg_outputs res ! a) g)"
      if "a < length aggs" "g < length reps" for a g
      by (rule fused_answer[OF q narrow nth_mem[OF that(1)]]) (use meaning that in simp)
    with r False show ?thesis by (auto simp: answers_def)
  qed (use res in \<open>auto split: option.splits\<close>)
  with cols r firsts show ?thesis unfolding names_def by blast
qed

section \<open>The whole call\<close>

text \<open>The error of a well-formed query with \<open>k\<close> groups: the compiler's refusal of the fused kernel, more than 16
  groups on the fused route when an expression rules out the retry, or an expression on the
  per-aggregate route.\<close>

definition query_error :: "engine \<Rightarrow> fused_cache \<Rightarrow> nat \<Rightarrow> byte_refs \<Rightarrow> parsed_agg list \<Rightarrow> nat \<Rightarrow> exec_error option" where
  "query_error eng cache n refs aggs k =
     (case decide_groupby_dispatch aggs (map_of refs) of
        Fused \<Rightarrow>
          (case compile_refusal (eng_env eng) cache (wire_columns_of n refs) (map kernel_spec aggs) of
             Some e \<Rightarrow> Some (FusedFailed (FCache e))
           | None \<Rightarrow> if list_ex is_expression aggs \<and> 16 < k then Some (FusedFailed (NgroupsExceedsFusedCap k 16)) else None)
      | PerAgg \<Rightarrow> if list_ex is_expression aggs then Some ExpressionPerAgg else None)"

definition answered_fused :: "byte_refs \<Rightarrow> parsed_agg list \<Rightarrow> nat \<Rightarrow> bool" where
  "answered_fused refs aggs k \<longleftrightarrow> decide_groupby_dispatch aggs (map_of refs) = Fused \<and> k \<le> 16"

lemma run_groupby_answers:
  assumes eng: "engine_ok eng" "orderly_build (eng_a1 eng) encoded" and q: "query_ok n refs aggs"
    and dom: "dom (map_of refs) = set (concat (map agg_columns aggs))"
    and cache: "cache_fits (eng_env eng) cache (wire_columns_of n refs) (map kernel_spec aggs)"
    and enc: "fused_encode key_cols = Inr (encoded, schema)" "\<forall>c \<in> set key_cols. kc_n_rows c = n" and n: "0 < n" "n < 2 ^ 32"
  shows "\<exists>cache' r reps. run_groupby eng cache key_cols aggs refs n = (cache', Some r) \<and> group_firsts key_cols n reps \<and>
    (case query_error eng cache n refs aggs (length reps) of Some e \<Rightarrow> r = Inl e
     | None \<Rightarrow> \<exists>res. r = Inr res \<and> answers eng n refs (answered_fused refs aggs (length reps)) key_cols aggs reps res)"
proof (cases "decide_groupby_dispatch aggs (map_of refs)")
  case PerAgg
  show ?thesis
  proof (cases "list_ex is_expression aggs")
    case True
    from fused_build_ok[OF eng(2) enc n] have "\<exists>reps. group_firsts key_cols n reps" unfolding group_firsts_def by blast
    with True PerAgg peragg_expression[OF q True] show ?thesis by (auto simp: run_groupby_def query_error_def)
  next
    case False
    from peragg_route[OF eng q False enc n] PerAgg False show ?thesis by (auto simp: run_groupby_def query_error_def answered_fused_def)
  qed
next
  case Fused
  from fused_route[OF eng q dom Fused cache enc n] obtain columns cache' r reps where
    cols: "rmap (fused_value refs n) (eng_iter eng (map fst refs)) = Inr columns"
    and run: "dispatch_groupby_fused (eng_rt eng) (eng_math eng) (eng_a1 eng) (eng_env eng) cache key_cols (map kernel_spec aggs) (map_of columns) n = (cache', Some r)"
    and firsts: "group_firsts key_cols n reps"
    and r: "case compile_refusal (eng_env eng) cache (wire_columns_of n refs) (map kernel_spec aggs) of Some e \<Rightarrow> r = Inl (FCache e) | None \<Rightarrow>
     if 16 < length reps then r = Inl (NgroupsExceedsFusedCap (length reps) 16)
     else \<exists>res. r = Inr res \<and> answers eng n refs True key_cols aggs reps res" by blast
  consider e where "compile_refusal (eng_env eng) cache (wire_columns_of n refs) (map kernel_spec aggs) = Some e"
    | "compile_refusal (eng_env eng) cache (wire_columns_of n refs) (map kernel_spec aggs) = None" "length reps \<le> 16"
    | "compile_refusal (eng_env eng) cache (wire_columns_of n refs) (map kernel_spec aggs) = None" "16 < length reps" "list_ex is_expression aggs"
    | "compile_refusal (eng_env eng) cache (wire_columns_of n refs) (map kernel_spec aggs) = None" "16 < length reps" "\<not> list_ex is_expression aggs"
    by (cases "compile_refusal (eng_env eng) cache (wire_columns_of n refs) (map kernel_spec aggs)") force+
  then show ?thesis
  proof cases
    case 1
    with r Fused cols run firsts show ?thesis by (auto simp: run_groupby_def query_error_def is_group_cap_def)
  next
    case 2
    with r obtain res where "r = Inr res" "answers eng n refs True key_cols aggs reps res" by auto
    moreover from this have "run_groupby eng cache key_cols aggs refs n = (cache', Some (Inr res))"
      using Fused cols run by (simp add: run_groupby_def)
    moreover have "query_error eng cache n refs aggs (length reps) = None" "answered_fused refs aggs (length reps)"
      using 2 Fused by (simp_all add: query_error_def answered_fused_def)
    ultimately show ?thesis using firsts by (intro exI[of _ cache'] exI[of _ "Inr res"] exI[of _ reps]) simp
  next
    case 3
    with r Fused cols run firsts show ?thesis by (auto simp: run_groupby_def query_error_def is_group_cap_def)
  next
    case 4
    from peragg_route[OF eng q 4(3) enc n] obtain res reps' where
      per: "execute_peragg eng key_cols aggs refs n = Some (Inr res)" "group_firsts key_cols n reps'" "answers eng n refs False key_cols aggs reps' res" by blast
    have "\<not> answered_fused refs aggs (length reps')" using 4(2) group_firsts_length[OF firsts per(2)] by (simp add: answered_fused_def)
    moreover have "query_error eng cache n refs aggs (length reps') = None" using 4 Fused by (simp add: query_error_def)
    moreover have "run_groupby eng cache key_cols aggs refs n = (cache', Some (Inr res))"
      using 4 r Fused cols run per(1) by (simp add: run_groupby_def is_group_cap_def)
    ultimately show ?thesis using per(2,3) by (intro exI[of _ cache'] exI[of _ "Inr res"] exI[of _ reps']) simp
  qed
qed

text \<open>Only counts are 64-bit unsigned, and they fit the 32 bits they are returned in.\<close>

lemma agg_meaning_count:
  "agg_meaning rt kind vcol rows (CU64 v) \<Longrightarrow> \<exists>k \<le> length rows. v = of_nat k"
  by (auto simp: agg_meaning_def i64_meaning_def f64_meaning_def i32_meaning_def f32_meaning_def
      intro: length_filter_le split: if_splits value_column.splits agg_kind.splits)

lemma op_meaning_count:
  "op_meaning rt fl op vs k (CU64 v) \<Longrightarrow> length vs \<le> k \<Longrightarrow> \<exists>m \<le> k. v = of_nat m"
  by (cases op) (auto simp: op_meaning_def i32_meaning_def f32_meaning_def split: if_splits)

lemma agg_answer_count:
  assumes "agg_answer eng n refs fused a rows (CU64 v)"
  shows "\<exists>k \<le> length rows. v = of_nat k"
proof (cases a)
  case (PaSimple name op al)
  with assms show ?thesis by (auto simp: agg_answer_def Let_def seed_cell_def intro: agg_meaning_count split: if_splits)
next
  case (PaExpression e op al)
  have "length (spec_values rt fm by_name spec rows) \<le> length rows" for rt fm by_name spec
    by (simp add: spec_values_def)
  with PaExpression assms op_meaning_count show ?thesis by (auto simp: agg_answer_def fused_meaning_def split: if_splits)
next
  case (PaLength al)
  with assms show ?thesis by (auto simp: agg_answer_def)
qed

lemma key_rows_length: "length (key_rows key_cols n reps g) \<le> n"
  unfolding key_rows_def using length_filter_le[of _ "[0..<n]"] by (metis diff_zero length_upt)

lemma answers_fit:
  assumes "answers eng n refs fused key_cols aggs reps res" and "n < 2 ^ 32" and "a < length aggs"
  shows "output_fits (length reps) (agg_outputs res ! a)"
proof (cases "agg_outputs res ! a")
  case (OU64 vs)
  have len: "length vs = length reps" using assms OU64 by (auto simp: answers_def dest!: bspec[OF _ nth_mem[of a "agg_outputs res"]])
  have "unat (vs ! g) < 2 ^ 32" if g: "g < length reps" for g
  proof -
    have "agg_answer eng n refs fused (aggs ! a) (key_rows key_cols n reps g) (CU64 (vs ! g))"
      using assms(1,3) g OU64 by (simp add: answers_def) (metis out_cell.simps(3))
    then obtain k where "k \<le> length (key_rows key_cols n reps g)" "vs ! g = of_nat k" using agg_answer_count by blast
    moreover from this have "k \<le> n" using key_rows_length[of key_cols n reps g] by linarith
    ultimately show ?thesis using assms(2) by (simp add: unat_of_nat)
  qed
  with OU64 len show ?thesis by (auto simp: in_set_conv_nth)
qed (use assms in \<open>auto simp: answers_def dest!: bspec[OF _ nth_mem[of a "agg_outputs res"]]\<close>)

lemma map_zip_fst: "length xs = length ys \<Longrightarrow> map (\<lambda>x. f (fst x)) (zip xs ys) = map f xs"
  by (induction xs ys rule: list_induct2) simp_all

lemma prepare_Inr:
  assumes "prepare eng plan_dict n columns = Inr (p, key_cols, refs)"
  shows "length key_cols = length (pp_keys p)" and "\<forall>c \<in> set key_cols. kc_n_rows c = n"
    and "dom (map_of refs) = set (concat (map agg_columns (pp_aggs p)))"
proof -
  from assms obtain by_name where b: "build_keys by_name n (pp_keys p) = Inr key_cols"
    "collect_refs by_name [] (concat (map agg_columns (pp_aggs p))) = Inr refs"
    by (auto simp: prepare_def result_simps split: option.splits)
  from build_keys_rows[OF b(1)] show "length key_cols = length (pp_keys p)" "\<forall>c \<in> set key_cols. kc_n_rows c = n" by simp_all
  have "\<forall>c \<in> dom (map_of ([] :: byte_refs)). map_of [] c = by_name c" by simp
  from collect_refs_lookup[OF b(2) this] show "dom (map_of refs) = set (concat (map agg_columns (pp_aggs p)))" by simp
qed

section \<open>Properties\<close>

text \<open>C1. The group-by entry point answers the query whichever route it takes. For a plan and columns that parse,
  with keys that fit and value columns of the four 32- and 64-bit types long enough for the rows and aggregated
  by anything but Len, the call returns one column per key, the key's values at the first row of each
  group, and one column per aggregate under its alias, whose bytes read for every group the answer of the
  aggregate over the rows with the group's key. A minimum or maximum of no values is the seed of its buffer
  (as if present) when the fused kernel answered, which it does for at most 16 groups, and null
  otherwise. The query fails when the compiler refuses the fused kernel, with more than 16 groups when one of its
  aggregates is an expression (without expressions it is retried and answered), and always when an
  expression reaches the per-aggregate route, as it does over a 64-bit column. As in the theorems on the two
  routes, a GPU build is assumed to be orderly, the cache not to hold another source under the query's hash,
  and the device to order numbers and to add as \<open>lawful_runtime\<close> says.\<close>

theorem execute_groupby_correct:
  assumes "engine_ok eng" and "orderly_build (eng_a1 eng) (fst enc)"
    and "prepare eng plan_dict n columns = Inr (p, key_cols, refs)" and "fused_encode key_cols = Inr enc"
    and "query_ok n refs (pp_aggs p)"
    and "cache_fits (eng_env eng) cache (wire_columns_of n refs) (map kernel_spec (pp_aggs p))" and "0 < n" and "n < 2 ^ 32"
  shows "\<exists>cache' r reps. execute_groupby eng cache plan_dict n columns = (cache', Some r) \<and> group_firsts key_cols n reps \<and>
    (case query_error eng cache n refs (pp_aggs p) (length reps) of Some e \<Rightarrow> r = Inl e
     | None \<Rightarrow> \<exists>out. r = Inr out \<and>
       map fst out = map pk_name (pp_keys p) @ map output_alias (pp_aggs p) \<and>
       (\<forall>i < length (pp_keys p). snd (out ! i) = encode_decoded_column (column_view (key_cols ! i) reps)) \<and>
       (\<forall>a < length (pp_aggs p). \<forall>g < length reps.
          agg_answer eng n refs (answered_fused refs (pp_aggs p) (length reps)) (pp_aggs p ! a) (key_rows key_cols n reps g)
            (wire_cell (snd (out ! (length (pp_keys p) + a))) g)))"
proof -
  note prep = prepare_Inr[OF assms(3)]
  obtain encoded schema where enc: "enc = (encoded, schema)" by (cases enc)
  with assms(2,4) have enc: "orderly_build (eng_a1 eng) encoded" "fused_encode key_cols = Inr (encoded, schema)" by simp_all
  from run_groupby_answers[OF assms(1) enc(1) assms(5) prep(3) assms(6) enc(2) prep(2) assms(7,8)] obtain cache' r reps where
    run: "run_groupby eng cache key_cols (pp_aggs p) refs n = (cache', Some r)" and firsts: "group_firsts key_cols n reps"
    and r: "case query_error eng cache n refs (pp_aggs p) (length reps) of Some e \<Rightarrow> r = Inl e
     | None \<Rightarrow> \<exists>res. r = Inr res \<and> answers eng n refs (answered_fused refs (pp_aggs p) (length reps)) key_cols (pp_aggs p) reps res" by blast
  let ?fused = "answered_fused refs (pp_aggs p) (length reps)"
  show ?thesis
  proof (cases "query_error eng cache n refs (pp_aggs p) (length reps)")
    case (Some e)
    with r run assms(3) firsts show ?thesis
      by (intro exI[of _ cache'] exI[of _ "Inl e"] exI[of _ reps]) (simp add: execute_groupby_def)
  next
    case None
    with r obtain res where res: "r = Inr res" "answers eng n refs ?fused key_cols (pp_aggs p) reps res" by auto
    then have keys: "decoded_keys res = map (\<lambda>c. column_view c reps) key_cols" and len: "length (agg_outputs res) = length (pp_aggs p)"
      by (simp_all add: answers_def)
    define out where "out = map2 (\<lambda>k d. (pk_name k, encode_decoded_column d)) (pp_keys p) (decoded_keys res) @
                 map2 (\<lambda>a out. (output_alias a, encode_agg_output out)) (pp_aggs p) (agg_outputs res)"
    have run': "execute_groupby eng cache plan_dict n columns = (cache', Some (Inr out))"
      using run res(1) assms(3) keys len prep(1) by (simp add: execute_groupby_def encode_result_def out_def)
    have cell: "agg_answer eng n refs ?fused (pp_aggs p ! a) (key_rows key_cols n reps g) (wire_cell (snd (out ! (length (pp_keys p) + a))) g)"
      if "a < length (pp_aggs p)" "g < length reps" for a g
    proof -
      have "snd (out ! (length (pp_keys p) + a)) = encode_agg_output (agg_outputs res ! a)"
        using that len keys prep(1) by (simp add: out_def nth_append)
      with wire_cell_output[OF answers_fit[OF res(2) assms(8) that(1)] that(2)] res(2) that show ?thesis by (simp add: answers_def)
    qed
    have "map fst out = map pk_name (pp_keys p) @ map output_alias (pp_aggs p)"
      using keys len prep(1) by (simp add: out_def o_def split_beta map_zip_fst)
    moreover have "\<forall>i < length (pp_keys p). snd (out ! i) = encode_decoded_column (column_view (key_cols ! i) reps)"
      using keys len prep(1) by (simp add: out_def nth_append)
    ultimately show ?thesis using run' firsts None cell
      by (intro exI[of _ cache'] exI[of _ "Inr out"] exI[of _ reps]) simp
  qed
qed

text \<open>Two rows in one group: the sum of a 32-bit column with a missing value, and the number of rows.\<close>

definition demo_engine :: engine where
  "demo_engine = \<lparr>eng_rt = demo_runtime, eng_math = demo_math, eng_a1 = (\<lambda>_. None), eng_env = demo_env,
     eng_device = None, eng_iter = (\<lambda>xs. xs), eng_float = (\<lambda>_. None)\<rparr>"

definition demo_query :: parsed_plan where
  "demo_query = \<lparr>pp_keys = [\<lparr>pk_name = ''k'', pk_dtype = U8\<rparr>], pp_aggs = [PaSimple ''v'' Sum ''s'', PaLength ''n'']\<rparr>"

definition demo_plan_dict :: py_dict where
  "demo_plan_dict = wire_plan PyNone \<lparr>wp_keys = [(''k'', PlUInt8)], wp_aggs = [WSimple ''v'' Sum ''s'', WLength ''n'']\<rparr>"

definition demo_upstream :: "py_value list" where
  "demo_upstream =
     [PyTupleOf [PyStr ''k'', PyStr ''U8'', PyByteString [7, 9], PyByteString [1]],
      PyTupleOf [PyStr ''v'', PyStr ''I32'', PyByteString [5, 0, 0, 0, 9, 0, 0, 0], PyByteString [3]]]"

definition demo_refs :: byte_refs where
  "demo_refs = [(''v'', ''I32'', [5, 0, 0, 0, 9, 0, 0, 0], [3])]"

lemma demo_prepare: "prepare demo_engine demo_plan_dict 2 demo_upstream = Inr (demo_query, [demo_column], demo_refs)"
proof -
  have plan: "parse_groupby_plan (eng_float demo_engine) demo_plan_dict = Inr demo_query"
    by code_simp
  have cols: "parse_columns demo_upstream = Inr [''k'' \<mapsto> (''U8'', [7, 9], [1]), ''v'' \<mapsto> (''I32'', [5, 0, 0, 0, 9, 0, 0, 0], [3])]"
    by (simp add: parse_columns_def demo_upstream_def parse_column_def or_field_def extract_bytes_def)
  show ?thesis
    unfolding prepare_def plan cols
    by (simp add: build_keys_def key_bytes_def key_column_of_def metal_dtype_to_key_dtype_def demo_query_def
        demo_column_def demo_refs_def demo_engine_def)
qed

lemma execute_groupby_correct_witness:
  "\<exists>cache' out g. execute_groupby demo_engine new_cache demo_plan_dict 2 demo_upstream = (cache', Some (Inr out)) \<and>
     map fst out = [''k'', ''s'', ''n''] \<and> wire_cell (snd (out ! 1)) g = CI32 (Some 9) \<and> wire_cell (snd (out ! 2)) g = CU64 1"
proof -
  have eng: "engine_ok demo_engine"
    by (simp add: engine_ok_def demo_engine_def demo_runtime_ok)
  have build: "orderly_build (eng_a1 demo_engine) (fst ([14, 1 :: u128], demo_schema))"
    by (simp add: demo_engine_def no_gpu_orderly)
  have enc: "fused_encode [demo_column] = Inr ([14, 1], demo_schema)" by (simp add: fused_encode_def demo_encode)
  have q: "query_ok 2 demo_refs (pp_aggs demo_query)"
    by (simp add: query_ok_def demo_query_def demo_refs_def div_ceil_def is_expression_def ran_def)
  have cache: "cache_fits (eng_env demo_engine) new_cache (wire_columns_of 2 demo_refs) (map kernel_spec (pp_aggs demo_query))"
    by (simp add: cache_fits_def new_cache_def)
  have ok: "query_error demo_engine new_cache 2 demo_refs (pp_aggs demo_query) k = None" for k
    by (simp add: query_error_def demo_query_def is_expression_def compile_refusal_def demo_engine_def demo_env_def
        split: dispatch_choice.split sum.split option.split)
  from execute_groupby_correct[OF eng build demo_prepare enc q cache] ok obtain cache' out reps where
    run: "execute_groupby demo_engine new_cache demo_plan_dict 2 demo_upstream = (cache', Some (Inr out))"
    and firsts: "group_firsts [demo_column] 2 reps"
    and names: "map fst out = map pk_name (pp_keys demo_query) @ map output_alias (pp_aggs demo_query)"
    and cells: "\<forall>a < length (pp_aggs demo_query). \<forall>g < length reps.
          agg_answer demo_engine 2 demo_refs (answered_fused demo_refs (pp_aggs demo_query) (length reps)) (pp_aggs demo_query ! a) (key_rows [demo_column] 2 reps g)
            (wire_cell (snd (out ! (length (pp_keys demo_query) + a))) g)" by auto
  have "(1 :: nat) < 2" by simp
  with firsts obtain g where g: "g < length reps" "same_key [demo_column] (reps ! g) 1" unfolding group_firsts_def by blast
  have same: "\<not> same_key [demo_column] 0 1" "same_key [demo_column] 1 1" "\<not> same_key [demo_column] 1 0" by code_simp+
  have "reps ! g < 2" using firsts g(1) by (simp add: group_firsts_def)
  with g(2) same(1) have "reps ! g = 1" by (cases "reps ! g") (auto simp: less_Suc_eq numeral_2_eq_2)
  then have rows: "key_rows [demo_column] 2 reps g = [1]" using same by (simp add: key_rows_def upt_rec)
  have "\<exists>fused. agg_answer demo_engine 2 demo_refs fused (PaSimple ''v'' Sum ''s'') [1] (wire_cell (snd (out ! 1)) g)"
    "\<exists>fused. agg_answer demo_engine 2 demo_refs fused (PaLength ''n'') [1] (wire_cell (snd (out ! 2)) g)"
    using cells[rule_format, of 0 g] cells[rule_format, of 1 g] g(1) rows by (auto simp: demo_query_def numeral_2_eq_2)
  moreover have "kept (typed_view 4 [5, 0, 0, 0, 9, 0, 0, 0] 2) [3] [1] = [9 :: 32 word]" by code_simp
  moreover have "wire_kind Sum (''I32'', [5, 0, 0, 0, 9, 0, 0, 0], [3]) = SumI32" by code_simp
  ultimately have "wire_cell (snd (out ! 1)) g = CI32 (Some 9)" "wire_cell (snd (out ! 2)) g = CU64 1"
    by (simp_all add: agg_answer_def demo_refs_def agg_meaning_def i32_meaning_def)
  with run names show ?thesis by (intro exI[of _ cache'] exI[of _ out] exI[of _ g]) (simp add: demo_query_def)
qed

end
