(* ===== verification/Bitmap_Kernels.thy ===== *)
theory Bitmap_Kernels
  imports Views
begin

text \<open>Bit-packed buffers that kernels fill through 32-bit atomics (\<open>shaders/_validity.metal\<close>). A device bitmap is a
  list of 32-bit words; the host reads its bytes.\<close>

section \<open>Bitmaps written by threads\<close>

definition set_valid_atomic_or :: "u32 list \<Rightarrow> nat \<Rightarrow> u32 list" where
  "set_valid_atomic_or ws row =
     (let byte_idx = drop_bit 3 row; word_idx = drop_bit 2 byte_idx; bit_in_word = push_bit 3 (byte_idx AND 3) OR (row AND 7)
      in ws[word_idx := ws ! word_idx OR push_bit bit_in_word 1])"

definition word_bit :: "u32 list \<Rightarrow> nat \<Rightarrow> bool" where
  "word_bit ws row \<longleftrightarrow> row div 32 < length ws \<and> bit (ws ! (row div 32)) (row mod 32)"

lemma bit_in_word: "push_bit 3 (drop_bit 3 (row :: nat) AND 3) OR (row AND 7) = row mod 32"
proof -
  have masks: "(3 :: nat) = mask 2" "(7 :: nat) = mask 3" by (simp_all add: mask_eq_exp_minus_1)
  have "push_bit 3 (take_bit 2 (drop_bit 3 row)) OR take_bit 3 row = take_bit 5 row"
    by (rule bit_eqI) (auto simp: bit_simps)
  then show ?thesis unfolding masks take_bit_eq_mask[symmetric] by (simp add: take_bit_eq_mod)
qed

lemma set_valid_atomic_or_eq: "set_valid_atomic_or ws row = ws[row div 32 := ws ! (row div 32) OR push_bit (row mod 32) 1]"
proof -
  have "drop_bit 2 (drop_bit 3 row) = row div 32" by (simp add: drop_bit_eq_div div_mult2_eq[symmetric])
  then show ?thesis unfolding set_valid_atomic_or_def Let_def bit_in_word by metis
qed

lemma set_valid_atomic_or_length [simp]: "length (set_valid_atomic_or ws row) = length ws"
  by (simp add: set_valid_atomic_or_eq)

lemma set_valid_atomic_or_bit:
  assumes "row < 32 * length ws"
  shows "word_bit (set_valid_atomic_or ws row) r \<longleftrightarrow> word_bit ws r \<or> r = row"
proof -
  have w: "row div 32 < length ws" using assms by (simp add: less_mult_imp_div_less mult.commute)
  have b: "bit (2 ^ (row mod 32) :: u32) n \<longleftrightarrow> n = row mod 32" for n
    by (auto simp: bit_exp_iff possible_bit_word)
  have eq: "r = row \<longleftrightarrow> r div 32 = row div 32 \<and> r mod 32 = row mod 32" by (metis div_mult_mod_eq)
  show ?thesis
    using w by (auto simp: set_valid_atomic_or_eq word_bit_def nth_list_update bit_or_iff b eq)
qed

text \<open>The byte view: bit \<open>row\<close> of the words is bit \<open>row\<close> of the bitmap.\<close>

lemma words_le_valid: "get_valid (words_le ws) row \<longleftrightarrow> word_bit ws row"
proof (induction ws arbitrary: row)
  case Nil
  then show ?case by (simp add: word_bit_def)
next
  case (Cons w ws)
  have small: "get_valid (le_bytes w @ bs) row \<longleftrightarrow> (if row < 32 then bit w row else get_valid bs (row - 32))" for bs
  proof (cases "row < 32")
    case True
    then have "row div 8 < 4" by simp
    with True show ?thesis
      by (simp add: get_valid_bit nth_append le_bytes_def bit_simps)
  next
    case False
    define k where "k = row - 32"
    with False have k: "row = k + 32" by simp
    then have "row = k + 8 * 4" by simp
    then have "row div 8 = 4 + k div 8" "row mod 8 = k mod 8" by (metis div_mult_self2 zero_neq_numeral) (metis \<open>row = k + 8 * 4\<close> mod_mult_self2)
    with k show ?thesis by (simp add: get_valid_bit nth_append)
  qed
  show ?case
  proof (cases "row < 32")
    case True
    then show ?thesis unfolding words_le_simps small by (simp add: word_bit_def)
  next
    case False
    define k where "k = row - 32"
    with False have k: "row = k + 32" by simp
    then have "row div 32 = Suc (k div 32)" "row mod 32 = k mod 32" by simp_all
    with k Cons[of k] show ?thesis unfolding words_le_simps small by (simp add: word_bit_def)
  qed
qed

text \<open>Kernels whose threads each write one output and set at most one bit of a bitmap; in a \<open>bit_writer\<close> the
  output is itself a bitmap. The interpretations are the scatter, comparison and logical kernels.\<close>

definition or_bit :: "u32 list \<Rightarrow> nat option \<Rightarrow> u32 list" where
  "or_bit ws t = (case t of None \<Rightarrow> ws | Some row \<Rightarrow> set_valid_atomic_or ws row)"

definition write_slot :: "'a list \<Rightarrow> (nat \<times> 'a) option \<Rightarrow> 'a list" where
  "write_slot d t = (case t of None \<Rightarrow> d | Some (i, v) \<Rightarrow> d[i := v])"

locale output_writer =
  fixes thread :: "'d \<times> u32 list \<Rightarrow> nat \<Rightarrow> 'd \<times> u32 list"
    and put :: "'d \<Rightarrow> nat \<Rightarrow> 'd"
    and valid_row :: "nat \<Rightarrow> nat option"
  assumes writes: "thread (d, v) gid = (put d gid, or_bit v (valid_row gid))"
begin

lemma threads: "foldl thread (d, v) gids = (foldl put d gids, foldl or_bit v (map valid_row gids))"
  by (induction gids arbitrary: d v) (simp_all add: writes)

end

locale bit_writer =
  fixes thread :: "u32 list \<times> u32 list \<Rightarrow> nat \<Rightarrow> u32 list \<times> u32 list"
    and data_row valid_row :: "nat \<Rightarrow> nat option"
  assumes bit_writes: "thread (d, v) gid = (or_bit d (data_row gid), or_bit v (valid_row gid))"

sublocale bit_writer \<subseteq> output_writer thread "\<lambda>d gid. or_bit d (data_row gid)" valid_row
  by unfold_locales (rule bit_writes)

context bit_writer
begin

lemma bit_threads: "foldl thread (d, v) gids = (foldl or_bit d (map data_row gids), foldl or_bit v (map valid_row gids))"
  by (simp add: threads foldl_map)

end

lemma write_slots_length [simp]: "length (foldl write_slot d ts) = length d"
  by (induction ts arbitrary: d) (simp_all add: write_slot_def split: option.split)

lemma write_slots_nth:
  assumes "\<And>v'. Some (i, v') \<in> set ts \<Longrightarrow> v' = v" and "i < length d"
  shows "foldl write_slot d ts ! i = (if \<exists>v'. Some (i, v') \<in> set ts then v else d ! i)"
  using assms
proof (induction ts arbitrary: d)
  case (Cons t ts)
  have len: "length (write_slot d t) = length d" by (simp add: write_slot_def split: option.split prod.split)
  have IH: "foldl write_slot (write_slot d t) ts ! i = (if \<exists>v'. Some (i, v') \<in> set ts then v else write_slot d t ! i)"
    by (rule Cons.IH) (use Cons.prems len in auto)
  show ?case
    using Cons.prems unfolding foldl_Cons IH by (cases t) (auto simp: write_slot_def nth_list_update)
qed simp

lemma or_bits_length [simp]: "length (foldl or_bit ws ts) = length ws"
  by (induction ts arbitrary: ws) (simp_all add: or_bit_def split: option.split)

lemma or_bits:
  assumes "\<forall>row. Some row \<in> set ts \<longrightarrow> row < 32 * length ws"
  shows "word_bit (foldl or_bit ws ts) r \<longleftrightarrow> word_bit ws r \<or> Some r \<in> set ts"
  using assms
proof (induction ts arbitrary: ws)
  case (Cons t ts)
  then show ?case
    by (cases t) (auto simp: or_bit_def set_valid_atomic_or_bit)
qed simp

lemma word_bit_zero [simp]: "\<not> word_bit (replicate n 0) r"
  by (simp add: word_bit_def)

lemma fresh_bits:
  assumes "\<forall>row. Some row \<in> set ts \<longrightarrow> row < 32 * n"
  shows "get_valid (words_le (foldl or_bit (replicate n 0) ts)) r \<longleftrightarrow> Some r \<in> set ts"
  using or_bits[of ts "replicate n 0" r] assms by (simp add: words_le_valid)

section \<open>One bit per row\<close>

text \<open>A kernel whose thread \<open>r\<close> sets bit \<open>r\<close> of its two outputs, or leaves them.\<close>

definition row_bit :: "nat \<Rightarrow> (nat \<Rightarrow> bool) \<Rightarrow> nat \<Rightarrow> nat option" where
  "row_bit n D r = (if r < n \<and> D r then Some r else None)"

locale row_writer =
  fixes thread :: "u32 list \<times> u32 list \<Rightarrow> nat \<Rightarrow> u32 list \<times> u32 list"
    and n :: nat
    and D V :: "nat \<Rightarrow> bool"
  assumes row_writes: "thread (d, v) r = (or_bit d (row_bit n D r), or_bit v (row_bit n V r))"

sublocale row_writer \<subseteq> bit_writer thread "row_bit n D" "row_bit n V"
  by unfold_locales (rule row_writes)

lemma row_bits:
  assumes "schedule_ok n sched" and "n \<le> 32 * k"
  shows "get_valid (words_le (foldl or_bit (replicate k 0) (map (row_bit n D) sched))) r \<longleftrightarrow> r < n \<and> D r"
proof -
  have mem: "Some r \<in> set (map (row_bit n D) sched) \<longleftrightarrow> r < n \<and> D r" for r
    using schedule_set[OF assms(1)] by (auto simp: row_bit_def image_iff split: if_splits)
  have "get_valid (words_le (foldl or_bit (replicate k 0) (map (row_bit n D) sched))) r \<longleftrightarrow> Some r \<in> set (map (row_bit n D) sched)"
  proof (rule fresh_bits, intro allI impI)
    fix row assume "Some row \<in> set (map (row_bit n D) sched)"
    then show "row < 32 * k" unfolding mem using assms(2) by simp
  qed
  then show ?thesis unfolding mem .
qed

context row_writer
begin

lemma rows:
  assumes "schedule_ok n sched" and "n \<le> 32 * k"
  shows "\<exists>d v. foldl thread (replicate k 0, replicate k 0) sched = (d, v) \<and> length d = k \<and> length v = k \<and>
    (\<forall>r. get_valid (words_le d) r \<longleftrightarrow> r < n \<and> D r) \<and> (\<forall>r. get_valid (words_le v) r \<longleftrightarrow> r < n \<and> V r)"
  unfolding bit_threads using row_bits[OF assms] by simp

end

section \<open>Padded buffers\<close>

lemma padded_covers: "n \<le> 32 * (cmp_out_min_bytes n div 4)"
proof -
  have "n \<le> 8 * align4 ((n + 7) div 8)"
    using div_ceil_8_bounds(1)[of n] align4_ge[of "(n + 7) div 8"] unfolding div_ceil_8 by linarith
  then have "n \<le> 8 * cmp_out_min_bytes n" by (simp add: cmp_out_min_bytes_def Let_def)
  moreover have "4 dvd cmp_out_min_bytes n" by (simp add: cmp_out_min_bytes_def Let_def max_def)
  ultimately show ?thesis by (auto simp: dvd_def)
qed

lemma padded_words: "cmp_out_min_bytes n div 4 * 4 = cmp_out_min_bytes n"
  by (simp add: cmp_out_min_bytes_def Let_def max_def)

text \<open>The nullable boolean a pair of bitmaps holds for a row.\<close>

definition bool_view :: "bytes \<Rightarrow> bytes \<Rightarrow> nat \<Rightarrow> bool option" where
  "bool_view data valid r = (if get_valid valid r then Some (get_valid data r) else None)"

end
