(* ===== verification/Compaction.thy ===== *)
theory Compaction
  imports Gpu_Aggs Bitmap_Kernels
begin

text \<open>Models \<open>polars-metal-kernels/src/filter.rs\<close> and \<open>pipeline.rs\<close> with their kernels
  (\<open>shaders/filter_predicate.metal\<close>, \<open>filter_scatter.metal\<close>): a predicate becomes keep flags, MLX sums
  them to output offsets, and a scatter moves the surviving rows of a column. MLX's cumulative sum is a
  parameter; device failures are not modelled.\<close>

section \<open>Errors\<close>

datatype filter_error =
    FilterInputLength nat nat nat
  | FilterOutputLength nat nat
  | FilterRowCount nat
  | ScatterOverrun
  | DstDataTooSmall nat nat
  | DstValidTooSmall nat nat
  | DstDataBoolTooSmall nat nat
  | ScatterPrefixSumMismatch u32 nat

section \<open>Pass 1: the predicate\<close>

definition filter_predicate_to_u8 :: "bytes \<Rightarrow> bytes \<Rightarrow> u32 \<Rightarrow> bytes \<Rightarrow> nat \<Rightarrow> bytes" where
  "filter_predicate_to_u8 pred_data pred_valid n_rows keep_flags gid =
     (if unat n_rows \<le> gid then keep_flags
      else let d = get_valid pred_data gid; v = get_valid pred_valid gid
        in keep_flags[gid := if d \<and> v then 1 else 0])"

definition dispatch_predicate_to_u8 :: "runtime \<Rightarrow> bytes \<Rightarrow> bytes \<Rightarrow> nat \<Rightarrow> bytes \<Rightarrow> filter_error + bytes" where
  "dispatch_predicate_to_u8 rt pred_data pred_valid n_rows out =
     (let min_bytes = (n_rows + 7) div 8 in
      if length out \<noteq> n_rows then Inl (FilterOutputLength (length out) n_rows)
      else if n_rows = 0 then Inr out
      else if length pred_data < min_bytes then Inl (FilterInputLength (length pred_data) min_bytes n_rows)
      else if length pred_valid < min_bytes then Inl (FilterInputLength (length pred_valid) min_bytes n_rows)
      else if u32_max < n_rows then Inl (FilterRowCount n_rows)
      else Inr (foldl (filter_predicate_to_u8 (take min_bytes pred_data) (take min_bytes pred_valid) (of_nat n_rows))
             (replicate n_rows 0) (order rt ''filter_predicate_to_u8'' n_rows)))"

section \<open>Pass 2: output offsets\<close>

text \<open>The sum is MLX's, reached through \<open>cumsum_u8_to_u32\<close> of \<open>polars-metal-mlx-sys\<close>; an MLX exception is a string.\<close>

datatype ffi_error = ShapeMismatch nat nat | Mlx string

type_synonym mlx_cumsum = "bytes \<Rightarrow> string + u32 list"

definition cumsum_u8_to_u32 :: "mlx_cumsum \<Rightarrow> bytes \<Rightarrow> u32 list \<Rightarrow> ffi_error + u32 list" where
  "cumsum_u8_to_u32 mlx input out =
     (if length input \<noteq> length out then Inl (ShapeMismatch (length input) (length out))
      else if input = [] then Inr out
      else case mlx input of Inl e \<Rightarrow> Inl (Mlx e) | Inr ps \<Rightarrow> Inr ps)"

section \<open>Pass 3: the scatter\<close>

definition dst_valid_min_bytes :: "nat \<Rightarrow> nat" where
  "dst_valid_min_bytes n_out = (let raw = (n_out + 7) div 8; padded = align4 raw in max padded 4)"

definition scatter_sentinel_i64 :: u64 where "scatter_sentinel_i64 = 0xDEADBEEFCAFEBABE"
definition scatter_sentinel_f64_bits :: f64 where "scatter_sentinel_f64_bits = 0x7FFDEADBEEFCAFE0"

text \<open>The body of \<open>filter_scatter_i64\<close> and, with the other sentinel, of \<open>filter_scatter_f64\<close>: both move eight
  opaque bytes.\<close>

definition scatter_word_thread ::
  "u64 \<Rightarrow> u64 list \<Rightarrow> bytes \<Rightarrow> bytes \<Rightarrow> u32 list \<Rightarrow> u32 \<Rightarrow> u32 \<Rightarrow> u64 list \<times> u32 list \<Rightarrow> nat \<Rightarrow> u64 list \<times> u32 list" where
  "scatter_word_thread sentinel src_data src_valid keep_flags prefix_sum n_rows n_out = (\<lambda>(dst_data, dst_valid) gid.
     if unat n_rows \<le> gid then (dst_data, dst_valid)
     else if keep_flags ! gid = 0 then (dst_data, dst_valid)
     else let out_idx = prefix_sum ! gid - 1 in
       if n_out \<le> out_idx then (dst_data[unat n_out := sentinel], dst_valid)
       else (dst_data[unat out_idx := src_data ! gid],
             if get_valid src_valid gid then set_valid_atomic_or dst_valid (unat out_idx) else dst_valid))"

definition scatter_checks :: "nat \<Rightarrow> nat \<Rightarrow> nat \<Rightarrow> nat \<Rightarrow> nat \<Rightarrow> nat \<Rightarrow> nat \<Rightarrow> filter_error + unit" where
  "scatter_checks n_rows n_src_valid n_keep n_prefix n_out n_dst n_dst_valid =
     rbind (ensure (n_keep = n_rows) (FilterOutputLength n_keep n_rows)) (\<lambda>_.
     rbind (ensure (n_prefix = n_rows) (FilterOutputLength n_prefix n_rows)) (\<lambda>_.
     rbind (case checked_add_usize n_out 1 of None \<Rightarrow> Inl (FilterRowCount n_out) | Some k \<Rightarrow> Inr k) (\<lambda>expected_dst.
     rbind (ensure (expected_dst \<le> n_dst) (DstDataTooSmall n_dst expected_dst)) (\<lambda>_.
     rbind (ensure (dst_valid_min_bytes n_out \<le> n_dst_valid) (DstValidTooSmall n_dst_valid (dst_valid_min_bytes n_out))) (\<lambda>_.
     ensure ((n_rows + 7) div 8 \<le> n_src_valid) (FilterInputLength n_src_valid ((n_rows + 7) div 8) n_rows))))))"

definition scatter_counts :: "nat \<Rightarrow> nat \<Rightarrow> filter_error + u32 \<times> u32" where
  "scatter_counts n_rows n_out =
     rbind (ensure (n_rows \<le> u32_max) (FilterRowCount n_rows)) (\<lambda>_.
     rbind (ensure (n_out \<le> u32_max) (FilterRowCount n_out)) (\<lambda>_. Inr (of_nat n_rows, of_nat n_out)))"

definition dispatch_scatter_word ::
  "runtime \<Rightarrow> string \<Rightarrow> u64 \<Rightarrow> u64 list \<Rightarrow> bytes \<Rightarrow> bytes \<Rightarrow> u32 list \<Rightarrow> nat \<Rightarrow> u64 list \<Rightarrow> bytes \<Rightarrow> filter_error + u64 list \<times> bytes" where
  "dispatch_scatter_word rt kname sentinel src_data src_valid keep_flags prefix_sum n_out dst_data dst_valid =
     (let n_rows = length src_data in
      rbind (scatter_checks n_rows (length src_valid) (length keep_flags) (length prefix_sum) n_out (length dst_data) (length dst_valid)) (\<lambda>_.
      if n_rows = 0 then Inr (dst_data, dst_valid)
      else rbind (scatter_counts n_rows n_out) (\<lambda>(n_rows_u32, n_out_u32).
        let min_src_valid = (n_rows + 7) div 8;
            (data_buf, valid_buf) = foldl (scatter_word_thread sentinel src_data (take min_src_valid src_valid) keep_flags prefix_sum n_rows_u32 n_out_u32)
              (replicate (n_out + 1) 0, replicate (dst_valid_min_bytes n_out div 4) 0) (order rt kname n_rows);
            dst_data = copy_back data_buf dst_data;
            dst_valid = copy_back (words_le valid_buf) dst_valid
        in if dst_data ! n_out = sentinel then Inl ScatterOverrun else Inr (dst_data, dst_valid))))"

definition dispatch_scatter_i64 ::
  "runtime \<Rightarrow> u64 list \<Rightarrow> bytes \<Rightarrow> bytes \<Rightarrow> u32 list \<Rightarrow> nat \<Rightarrow> u64 list \<Rightarrow> bytes \<Rightarrow> filter_error + u64 list \<times> bytes" where
  "dispatch_scatter_i64 rt = dispatch_scatter_word rt ''filter_scatter_i64'' scatter_sentinel_i64"

definition dispatch_scatter_f64 ::
  "runtime \<Rightarrow> f64 list \<Rightarrow> bytes \<Rightarrow> bytes \<Rightarrow> u32 list \<Rightarrow> nat \<Rightarrow> f64 list \<Rightarrow> bytes \<Rightarrow> filter_error + f64 list \<times> bytes" where
  "dispatch_scatter_f64 rt = dispatch_scatter_word rt ''filter_scatter_f64'' scatter_sentinel_f64_bits"

definition scatter_bool_thread ::
  "bytes \<Rightarrow> bytes \<Rightarrow> bytes \<Rightarrow> u32 list \<Rightarrow> u32 \<Rightarrow> u32 \<Rightarrow> u32 list \<times> u32 list \<Rightarrow> nat \<Rightarrow> u32 list \<times> u32 list" where
  "scatter_bool_thread src_data src_valid keep_flags prefix_sum n_rows n_out = (\<lambda>(dst_data, dst_valid) gid.
     if unat n_rows \<le> gid then (dst_data, dst_valid)
     else if keep_flags ! gid = 0 then (dst_data, dst_valid)
     else let out_idx = prefix_sum ! gid - 1 in
       if n_out \<le> out_idx then (dst_data, dst_valid)
       else (if get_valid src_data gid then set_valid_atomic_or dst_data (unat out_idx) else dst_data,
             if get_valid src_valid gid then set_valid_atomic_or dst_valid (unat out_idx) else dst_valid))"

definition scatter_bool_checks :: "nat \<Rightarrow> nat \<Rightarrow> nat \<Rightarrow> nat \<Rightarrow> nat \<Rightarrow> nat \<Rightarrow> nat \<Rightarrow> nat \<Rightarrow> filter_error + unit" where
  "scatter_bool_checks n_rows n_src n_src_valid n_keep n_prefix n_out n_dst n_dst_valid =
     (let min_src_bytes = (n_rows + 7) div 8; min_out_bytes = dst_valid_min_bytes n_out in
      rbind (ensure (n_keep = n_rows) (FilterOutputLength n_keep n_rows)) (\<lambda>_.
      rbind (ensure (n_prefix = n_rows) (FilterOutputLength n_prefix n_rows)) (\<lambda>_.
      rbind (ensure (min_src_bytes \<le> n_src) (FilterInputLength n_src min_src_bytes n_rows)) (\<lambda>_.
      rbind (ensure (min_src_bytes \<le> n_src_valid) (FilterInputLength n_src_valid min_src_bytes n_rows)) (\<lambda>_.
      rbind (ensure (min_out_bytes \<le> n_dst) (DstDataBoolTooSmall n_dst min_out_bytes)) (\<lambda>_.
      ensure (min_out_bytes \<le> n_dst_valid) (DstValidTooSmall n_dst_valid min_out_bytes)))))))"

definition dispatch_scatter_bool ::
  "runtime \<Rightarrow> bytes \<Rightarrow> bytes \<Rightarrow> bytes \<Rightarrow> u32 list \<Rightarrow> nat \<Rightarrow> nat \<Rightarrow> bytes \<Rightarrow> bytes \<Rightarrow> filter_error + bytes \<times> bytes" where
  "dispatch_scatter_bool rt src_data src_valid keep_flags prefix_sum n_rows n_out dst_data dst_valid =
     rbind (scatter_bool_checks n_rows (length src_data) (length src_valid) (length keep_flags) (length prefix_sum) n_out
              (length dst_data) (length dst_valid)) (\<lambda>_.
     rbind (if n_rows = 0 then Inr ()
            else rbind (ensure (n_out \<le> u32_max) (FilterRowCount n_out)) (\<lambda>_.
              ensure (prefix_sum ! (n_rows - 1) = of_nat n_out) (ScatterPrefixSumMismatch (prefix_sum ! (n_rows - 1)) n_out))) (\<lambda>_.
     if n_rows = 0 then Inr (dst_data, dst_valid)
     else rbind (scatter_counts n_rows n_out) (\<lambda>(n_rows_u32, n_out_u32).
       let min_src_bytes = (n_rows + 7) div 8;
           fresh = replicate (dst_valid_min_bytes n_out div 4) 0;
           (data_buf, valid_buf) = foldl (scatter_bool_thread (take min_src_bytes src_data) (take min_src_bytes src_valid) keep_flags prefix_sum
             n_rows_u32 n_out_u32) (fresh, fresh) (order rt ''filter_scatter_bool'' n_rows)
       in Inr (copy_back (words_le data_buf) dst_data, copy_back (words_le valid_buf) dst_valid))))"

section \<open>pipeline.rs\<close>

datatype pipeline_error = FilterFailed filter_error | Cumsum ffi_error

definition pipe :: "filter_error + 'a \<Rightarrow> pipeline_error + 'a" where
  "pipe r = (case r of Inl e \<Rightarrow> Inl (FilterFailed e) | Inr x \<Rightarrow> Inr x)"

record 'v compaction_result =
  cr_data :: "'v list"
  cr_valid :: bytes
  cr_n_out :: nat

definition compute_keep_and_prefix ::
  "runtime \<Rightarrow> mlx_cumsum \<Rightarrow> bytes \<Rightarrow> bytes \<Rightarrow> nat \<Rightarrow> pipeline_error + bytes \<times> u32 list \<times> nat" where
  "compute_keep_and_prefix rt mlx pred_data pred_valid n_rows =
     (if n_rows = 0 then Inr ([], [], 0)
      else rbind (pipe (dispatch_predicate_to_u8 rt pred_data pred_valid n_rows (replicate n_rows 0))) (\<lambda>keep_flags.
        case cumsum_u8_to_u32 mlx keep_flags (replicate n_rows 0) of
          Inl e \<Rightarrow> Inl (Cumsum e)
        | Inr prefix_sum \<Rightarrow> Inr (keep_flags, prefix_sum, unat (prefix_sum ! (n_rows - 1)))))"

definition compact_i64 :: "runtime \<Rightarrow> u64 list \<Rightarrow> bytes \<Rightarrow> bytes \<Rightarrow> u32 list \<Rightarrow> nat \<Rightarrow> pipeline_error + u64 compaction_result" where
  "compact_i64 rt src_data src_valid keep_flags prefix_sum n_out =
     rbind (pipe (dispatch_scatter_i64 rt src_data src_valid keep_flags prefix_sum n_out
        (replicate (n_out + 1) 0) (replicate (dst_valid_min_bytes n_out) 0))) (\<lambda>(dst_data, dst_valid).
     Inr \<lparr>cr_data = take n_out dst_data, cr_valid = dst_valid, cr_n_out = n_out\<rparr>)"

definition compact_f64 :: "runtime \<Rightarrow> f64 list \<Rightarrow> bytes \<Rightarrow> bytes \<Rightarrow> u32 list \<Rightarrow> nat \<Rightarrow> pipeline_error + f64 compaction_result" where
  "compact_f64 rt src_data src_valid keep_flags prefix_sum n_out =
     rbind (pipe (dispatch_scatter_f64 rt src_data src_valid keep_flags prefix_sum n_out
        (replicate (n_out + 1) 0) (replicate (dst_valid_min_bytes n_out) 0))) (\<lambda>(dst_data, dst_valid).
     Inr \<lparr>cr_data = take n_out dst_data, cr_valid = dst_valid, cr_n_out = n_out\<rparr>)"

definition compact_bool ::
  "runtime \<Rightarrow> bytes \<Rightarrow> bytes \<Rightarrow> bytes \<Rightarrow> u32 list \<Rightarrow> nat \<Rightarrow> nat \<Rightarrow> pipeline_error + byte compaction_result" where
  "compact_bool rt src_data src_valid keep_flags prefix_sum n_rows n_out =
     (let out_bytes = dst_valid_min_bytes n_out in
      rbind (pipe (dispatch_scatter_bool rt src_data src_valid keep_flags prefix_sum n_rows n_out
        (replicate out_bytes 0) (replicate out_bytes 0))) (\<lambda>(dst_data, dst_valid).
      Inr \<lparr>cr_data = dst_data, cr_valid = dst_valid, cr_n_out = n_out\<rparr>))"

section \<open>Keep flags and offsets\<close>

lemma rank_nth:
  assumes "P r" and "r < n"
  shows "length (filter P [0..<r]) < length (filter P [0..<n])" and "filter P [0..<n] ! length (filter P [0..<r]) = r"
proof -
  have "[0..<n] = [0..<r] @ r # [Suc r..<n]"
    using assms(2) by (metis less_imp_le_nat upt_add_eq_append upt_conv_Cons le_add_diff_inverse zero_le)
  then have split: "filter P [0..<n] = filter P [0..<r] @ r # filter P [Suc r..<n]" using assms(1) by simp
  show "length (filter P [0..<r]) < length (filter P [0..<n])" "filter P [0..<n] ! length (filter P [0..<r]) = r"
    unfolding split by simp_all
qed

lemma nth_rank:
  assumes "i < length (filter P [0..<n])"
  shows "P (filter P [0..<n] ! i)" and "filter P [0..<n] ! i < n" and "length (filter P [0..<filter P [0..<n] ! i]) = i"
proof -
  let ?r = "filter P [0..<n] ! i"
  have "?r \<in> set (filter P [0..<n])" using assms by (rule nth_mem)
  then show r: "P ?r" "?r < n" by simp_all
  have "distinct (filter P [0..<n])" by simp
  then show "length (filter P [0..<?r]) = i"
    using nth_eq_iff_index_eq[OF _ rank_nth(1)[of P ?r n, OF r] assms] rank_nth(2)[of P ?r n, OF r] by blast
qed

definition inclusive_sums :: "bytes \<Rightarrow> u32 list" where
  "inclusive_sums bs = map (\<lambda>i. of_nat (sum_list (map unat (take (Suc i) bs)))) [0..<length bs]"

text \<open>The documented result of MLX's cumulative sum, for the lengths its 32-bit shapes can express.\<close>

definition lawful_cumsum :: "mlx_cumsum \<Rightarrow> bool" where
  "lawful_cumsum mlx \<longleftrightarrow> (\<forall>bs. bs \<noteq> [] \<and> length bs < 2 ^ 31 \<longrightarrow> mlx bs = Inr (inclusive_sums bs))"

definition flags_of :: "(nat \<Rightarrow> bool) \<Rightarrow> nat \<Rightarrow> bytes" where
  "flags_of P n = map (\<lambda>r. if P r then 1 else 0) [0..<n]"

definition offsets_of :: "(nat \<Rightarrow> bool) \<Rightarrow> nat \<Rightarrow> u32 list" where
  "offsets_of P n = map (\<lambda>r. of_nat (length (filter P [0..<Suc r]))) [0..<n]"

lemma flags_offsets_length [simp]: "length (flags_of P n) = n" "length (offsets_of P n) = n"
  by (simp_all add: flags_of_def offsets_of_def)

lemma flags_of_nth [simp]: "r < n \<Longrightarrow> flags_of P n ! r = (if P r then 1 else 0)"
  by (simp add: flags_of_def)

lemma inclusive_sums_flags: "inclusive_sums (flags_of P n) = offsets_of P n"
proof -
  have sums: "sum_list (map unat (flags_of P k)) = length (filter P [0..<k])" for k
    by (induction k) (simp_all add: flags_of_def)
  have "take k (flags_of P n) = flags_of P k" if "k \<le> n" for k
    using that by (simp add: flags_of_def take_map)
  with sums show ?thesis by (auto simp: inclusive_sums_def offsets_of_def)
qed

lemma offset_minus_1:
  assumes "P r" and "r < n"
  shows "offsets_of P n ! r - 1 = of_nat (length (filter P [0..<r]))"
  using assms by (simp add: offsets_of_def)

lemma dispatch_predicate_flags:
  assumes "lawful_order rt" and "0 < n_rows" and "n_rows < 2 ^ 32"
    and "div_ceil n_rows 8 \<le> length pred_data" and "div_ceil n_rows 8 \<le> length pred_valid"
  shows "dispatch_predicate_to_u8 rt pred_data pred_valid n_rows (replicate n_rows 0) =
    Inr (flags_of (\<lambda>r. get_valid pred_data r \<and> get_valid pred_valid r) n_rows)"
proof -
  let ?P = "\<lambda>r. get_valid pred_data r \<and> get_valid pred_valid r"
  let ?m = "(n_rows + 7) div 8"
  let ?w = "\<lambda>r. if r < n_rows then Some (r, if ?P r then 1 else 0) else (None :: (nat \<times> byte) option)"
  let ?sched = "order rt ''filter_predicate_to_u8'' n_rows"
  have m: "?m = div_ceil n_rows 8" by (simp add: div_ceil_8)
  have set: "set ?sched = {..<n_rows}" using assms(1) by (simp add: lawful_order_def schedule_set)
  have bits: "get_valid (take ?m bs) r = get_valid bs r" if "r < n_rows" for bs r
    using that div_ceil_8_bounds(1)[of n_rows] unfolding m by (intro get_valid_take) simp
  have n: "unat (of_nat n_rows :: u32) = n_rows" using assms(3) by (simp add: unat_of_nat)
  have step: "filter_predicate_to_u8 (take ?m pred_data) (take ?m pred_valid) (of_nat n_rows) d r = write_slot d (?w r)" for d r
    by (simp add: filter_predicate_to_u8_def write_slot_def n bits Let_def del: of_nat_add)
  have "foldl (\<lambda>d r. write_slot d (?w r)) (replicate n_rows 0) ?sched = flags_of ?P n_rows"
    unfolding foldl_map[of write_slot _ ?w, symmetric]
  proof (rule list_eq_by_nth)
    fix i assume "i < length (flags_of ?P n_rows)"
    then have i: "i < n_rows" by simp
    have "foldl write_slot (replicate n_rows 0) (map ?w ?sched) ! i = (if \<exists>v'. Some (i, v') \<in> set (map ?w ?sched)
        then (if ?P i then 1 else 0) else replicate n_rows 0 ! i)"
      using i by (intro write_slots_nth) (auto split: if_splits)
    moreover have "\<exists>v'. Some (i, v') \<in> set (map ?w ?sched)" using i set by (auto simp: image_iff)
    ultimately show "foldl write_slot (replicate n_rows 0) (map ?w ?sched) ! i = flags_of ?P n_rows ! i" using i by simp
  qed simp
  moreover have "foldl (filter_predicate_to_u8 (take ?m pred_data) (take ?m pred_valid) (of_nat n_rows)) (replicate n_rows 0) ?sched =
      foldl (\<lambda>d r. write_slot d (?w r)) (replicate n_rows 0) ?sched"
    by (rule foldl_cong) (simp_all only: step)
  ultimately show ?thesis
    using assms m by (simp add: dispatch_predicate_to_u8_def u32_max_def Let_def)
qed

section \<open>What the scatter kernels write\<close>

definition kept_row :: "bytes \<Rightarrow> u32 \<Rightarrow> nat \<Rightarrow> bool" where
  "kept_row keep_flags n_rows r \<longleftrightarrow> r < unat n_rows \<and> keep_flags ! r \<noteq> 0"

definition scatter_slot :: "u64 \<Rightarrow> u64 list \<Rightarrow> bytes \<Rightarrow> u32 list \<Rightarrow> u32 \<Rightarrow> u32 \<Rightarrow> nat \<Rightarrow> (nat \<times> u64) option" where
  "scatter_slot sentinel src keep_flags ps n_rows n_out r =
     (if \<not> kept_row keep_flags n_rows r then None
      else if n_out \<le> ps ! r - 1 then Some (unat n_out, sentinel) else Some (unat (ps ! r - 1), src ! r))"

definition scatter_bit :: "bytes \<Rightarrow> bytes \<Rightarrow> u32 list \<Rightarrow> u32 \<Rightarrow> u32 \<Rightarrow> nat \<Rightarrow> nat option" where
  "scatter_bit bits keep_flags ps n_rows n_out r =
     (if kept_row keep_flags n_rows r \<and> \<not> n_out \<le> ps ! r - 1 \<and> get_valid bits r then Some (unat (ps ! r - 1)) else None)"

interpretation scatter_word: output_writer "scatter_word_thread sentinel src valid keep_flags ps n_rows n_out"
  "\<lambda>d r. write_slot d (scatter_slot sentinel src keep_flags ps n_rows n_out r)" "scatter_bit valid keep_flags ps n_rows n_out"
  for sentinel src valid keep_flags ps n_rows n_out
  by unfold_locales
    (simp add: scatter_word_thread_def scatter_slot_def scatter_bit_def kept_row_def write_slot_def or_bit_def Let_def)

interpretation scatter_bool: bit_writer "scatter_bool_thread src valid keep_flags ps n_rows n_out"
  "scatter_bit src keep_flags ps n_rows n_out" "scatter_bit valid keep_flags ps n_rows n_out"
  for src valid keep_flags ps n_rows n_out
  by unfold_locales
    (simp add: scatter_bool_thread_def scatter_bit_def kept_row_def or_bit_def Let_def)

lemma dst_valid_min_bytes_eq: "dst_valid_min_bytes n_out = cmp_out_min_bytes n_out"
  by (simp add: dst_valid_min_bytes_def cmp_out_min_bytes_def)

lemmas dst_valid_min_bytes_covers = padded_covers[folded dst_valid_min_bytes_eq]
lemmas dst_valid_words = padded_words[folded dst_valid_min_bytes_eq]

text \<open>The same slots over row numbers, with \<open>off r\<close> the output row of row \<open>r\<close>.\<close>

definition out_row :: "u32 list \<Rightarrow> nat \<Rightarrow> nat" where
  "out_row ps r = unat (ps ! r - 1)"

lemma scatter_slot_eq:
  assumes "n < 2 ^ 32" and "n_out < 2 ^ 32"
  shows "scatter_slot sentinel src keep_flags ps (of_nat n) (of_nat n_out) r =
    (if r < n \<and> keep_flags ! r \<noteq> 0
     then if out_row ps r < n_out then Some (out_row ps r, src ! r) else Some (n_out, sentinel) else None)"
  using assms by (simp add: scatter_slot_def kept_row_def out_row_def word_le_nat_alt unat_of_nat)

lemma scatter_bit_eq:
  assumes "n < 2 ^ 32" and "n_out < 2 ^ 32"
  shows "scatter_bit bits keep_flags ps (of_nat n) (of_nat n_out) r =
    (if r < n \<and> keep_flags ! r \<noteq> 0 \<and> out_row ps r < n_out \<and> get_valid bits r then Some (out_row ps r) else None)"
  using assms by (simp add: scatter_bit_def kept_row_def out_row_def word_le_nat_alt unat_of_nat not_le)

text \<open>The bits of a scattered bitmap, for any order of the threads.\<close>

lemma scatter_bits:
  assumes "schedule_ok n sched" and "n < 2 ^ 32" and "n_out < 2 ^ 32"
  shows "get_valid (words_le (foldl or_bit (replicate (dst_valid_min_bytes n_out div 4) 0)
      (map (scatter_bit bits keep_flags ps (of_nat n) (of_nat n_out)) sched))) i \<longleftrightarrow>
    i < n_out \<and> (\<exists>r < n. keep_flags ! r \<noteq> 0 \<and> get_valid bits r \<and> out_row ps r = i)"
proof -
  let ?ts = "map (scatter_bit bits keep_flags ps (of_nat n) (of_nat n_out)) sched"
  have mem: "Some i \<in> set ?ts \<longleftrightarrow> i < n_out \<and> (\<exists>r < n. keep_flags ! r \<noteq> 0 \<and> get_valid bits r \<and> out_row ps r = i)" for i
    unfolding scatter_bit_eq[OF assms(2,3)] using schedule_set[OF assms(1)] by (auto simp: image_iff split: if_splits)
  have "get_valid (words_le (foldl or_bit (replicate (dst_valid_min_bytes n_out div 4) 0) ?ts)) i \<longleftrightarrow> Some i \<in> set ?ts"
  proof (rule fresh_bits, intro allI impI)
    fix row assume "Some row \<in> set ?ts"
    then show "row < 32 * (dst_valid_min_bytes n_out div 4)"
      unfolding mem using dst_valid_min_bytes_covers[of n_out] by linarith
  qed
  then show ?thesis unfolding mem .
qed

lemma copy_back_valid: "i < 8 * length bs \<Longrightarrow> get_valid (copy_back bs out) i \<longleftrightarrow> get_valid bs i"
  by (auto simp: copy_back_def get_valid_bit nth_append)

text \<open>The word scatter, for any offsets: a kept row whose offset is out of range leaves the sentinel.\<close>

definition in_range :: "bytes \<Rightarrow> u32 list \<Rightarrow> nat \<Rightarrow> nat \<Rightarrow> bool" where
  "in_range keep_flags ps n n_out \<longleftrightarrow> (\<forall>r < n. keep_flags ! r \<noteq> 0 \<longrightarrow> out_row ps r < n_out)"

lemma scatter_slots:
  assumes "schedule_ok n sched" and "n < 2 ^ 32" and "n_out < 2 ^ 32"
    and ts_eq: "ts = map (scatter_slot sentinel src keep_flags ps (of_nat n) (of_nat n_out)) sched"
  shows "foldl write_slot (replicate (n_out + 1) 0) ts ! n_out = (if in_range keep_flags ps n n_out then 0 else sentinel)"
    and "i < n_out \<Longrightarrow> r < n \<Longrightarrow> keep_flags ! r \<noteq> 0 \<Longrightarrow> out_row ps r = i \<Longrightarrow>
      (\<And>r'. r' < n \<Longrightarrow> keep_flags ! r' \<noteq> 0 \<Longrightarrow> out_row ps r' = i \<Longrightarrow> r' = r) \<Longrightarrow>
      foldl write_slot (replicate (n_out + 1) 0) ts ! i = src ! r"
proof -
  note ts = ts_eq[unfolded scatter_slot_eq[OF assms(2,3)]]
  have set: "set sched = {..<n}" using assms(1) by (rule schedule_set)
  have only: "v = sentinel" if "Some (n_out, v) \<in> set ts" for v
    using that by (auto simp: ts split: if_splits)
  have ex: "(\<exists>v. Some (n_out, v) \<in> set ts) \<longleftrightarrow> \<not> in_range keep_flags ps n n_out"
    by (auto simp: ts set in_range_def image_iff split: if_splits)
  show "foldl write_slot (replicate (n_out + 1) 0) ts ! n_out = (if in_range keep_flags ps n n_out then 0 else sentinel)"
    using write_slots_nth[of n_out ts sentinel "replicate (n_out + 1) 0", OF only] ex by (simp add: nth_Cons')
  show "foldl write_slot (replicate (n_out + 1) 0) ts ! i = src ! r"
    if "i < n_out" and r: "r < n" "keep_flags ! r \<noteq> 0" "out_row ps r = i"
      and uniq: "\<And>r'. r' < n \<Longrightarrow> keep_flags ! r' \<noteq> 0 \<Longrightarrow> out_row ps r' = i \<Longrightarrow> r' = r"
  proof -
    have val: "v = src ! r" if "Some (i, v) \<in> set ts" for v
      using that \<open>i < n_out\<close> uniq by (auto simp: ts set split: if_splits)
    have "Some (i, src ! r) \<in> set ts" using r \<open>i < n_out\<close> by (auto simp: ts set image_iff intro!: bexI[of _ r])
    with write_slots_nth[of i ts "src ! r" "replicate (n_out + 1) 0", OF val] \<open>i < n_out\<close> show ?thesis by auto
  qed
qed

section \<open>The dispatchers\<close>

text \<open>The arguments the dispatchers accept, for \<open>n\<close> rows of which \<open>n_out\<close> leave.\<close>

definition scatter_args_ok :: "nat \<Rightarrow> bytes \<Rightarrow> bytes \<Rightarrow> u32 list \<Rightarrow> nat \<Rightarrow> bool" where
  "scatter_args_ok n src_valid keep_flags ps n_out \<longleftrightarrow> 0 < n \<and> n < 2 ^ 32 \<and> n_out < 2 ^ 32 \<and>
     length keep_flags = n \<and> length ps = n \<and> div_ceil n 8 \<le> length src_valid"

definition scatter_valid_buf :: "string \<Rightarrow> runtime \<Rightarrow> nat \<Rightarrow> bytes \<Rightarrow> bytes \<Rightarrow> u32 list \<Rightarrow> nat \<Rightarrow> bytes" where
  "scatter_valid_buf kname rt n bits keep_flags ps n_out =
     words_le (foldl or_bit (replicate (dst_valid_min_bytes n_out div 4) 0)
       (map (scatter_bit (take ((n + 7) div 8) bits) keep_flags ps (of_nat n) (of_nat n_out)) (order rt kname n)))"

lemma scatter_valid_buf_length [simp]: "length (scatter_valid_buf kname rt n bits keep_flags ps n_out) = dst_valid_min_bytes n_out"
  using dst_valid_words[of n_out] by (simp add: scatter_valid_buf_def words_le_length)

lemma scatter_valid_buf_bit:
  assumes "lawful_order rt" and "n < 2 ^ 32" and "n_out < 2 ^ 32"
  shows "get_valid (scatter_valid_buf kname rt n bits keep_flags ps n_out) i \<longleftrightarrow>
    i < n_out \<and> (\<exists>r < n. keep_flags ! r \<noteq> 0 \<and> get_valid bits r \<and> out_row ps r = i)"
proof -
  have "schedule_ok n (order rt kname n)" using assms(1) by (simp add: lawful_order_def)
  moreover have "get_valid (take ((n + 7) div 8) bits) r = get_valid bits r" if "r < n" for r
    using that div_ceil_8_bounds(1)[of n] unfolding div_ceil_8 by (intro get_valid_take) linarith
  ultimately show ?thesis unfolding scatter_valid_buf_def by (auto simp: scatter_bits[OF _ assms(2,3)])
qed

lemma scatter_args_checks:
  assumes "scatter_args_ok n src_valid keep_flags ps n_out" and "n_out + 1 \<le> n_dst" and "dst_valid_min_bytes n_out \<le> n_dst_valid"
  shows "scatter_checks n (length src_valid) (length keep_flags) (length ps) n_out n_dst n_dst_valid = Inr ()"
    and "scatter_counts n n_out = Inr (of_nat n, of_nat n_out)"
  using assms by (simp_all add: scatter_args_ok_def scatter_checks_def scatter_counts_def checked_add_usize_def usize_max_def
      u32_max_def div_ceil_8 ensure_def)

lemma scatter_word_threads:
  "foldl (scatter_word_thread sentinel src valid keep_flags ps n_rows n_out) (d, v) gids =
    (foldl write_slot d (map (scatter_slot sentinel src keep_flags ps n_rows n_out) gids),
     foldl or_bit v (map (scatter_bit valid keep_flags ps n_rows n_out) gids))"
  by (simp add: scatter_word.threads foldl_map)

lemma dispatch_scatter_word_eq:
  assumes ok: "lawful_order rt" "scatter_args_ok (length src) src_valid keep_flags ps n_out"
    and dst: "n_out + 1 \<le> length dst" "dst_valid_min_bytes n_out \<le> length dst_valid" and "sentinel \<noteq> 0"
  shows "dispatch_scatter_word rt kname sentinel src src_valid keep_flags ps n_out dst dst_valid =
    (if in_range keep_flags ps (length src) n_out
     then Inr (copy_back (foldl write_slot (replicate (n_out + 1) 0)
                 (map (scatter_slot sentinel src keep_flags ps (of_nat (length src)) (of_nat n_out)) (order rt kname (length src)))) dst,
               copy_back (scatter_valid_buf kname rt (length src) src_valid keep_flags ps n_out) dst_valid)
     else Inl ScatterOverrun)"
proof -
  let ?n = "length src"
  have bounds: "?n < 2 ^ 32" "n_out < 2 ^ 32" "src \<noteq> []" using ok(2) by (auto simp: scatter_args_ok_def)
  have sched: "schedule_ok ?n (order rt kname ?n)" using ok(1) by (simp add: lawful_order_def)
  note at = scatter_slots(1)[OF sched bounds(1,2) refl, of sentinel src keep_flags ps]
  have len: "length (copy_back (foldl write_slot (replicate (n_out + 1) 0) ts) dst) = length dst"
    "copy_back (foldl write_slot (replicate (n_out + 1) 0) ts) dst ! n_out = foldl write_slot (replicate (n_out + 1) 0) ts ! n_out" for ts
    using dst(1) by (simp_all add: copy_back_def nth_append)
  show ?thesis
    unfolding dispatch_scatter_word_def Let_def scatter_args_checks[OF ok(2) dst] rbind.simps split_conv scatter_word_threads len(2) at
      scatter_valid_buf_def[symmetric]
    using bounds(3) \<open>sentinel \<noteq> 0\<close> by simp
qed

text \<open>A scatter with a wrong prefix sum is never silent: the 8-byte dispatchers return the overrun error
  exactly when some kept row's offset is not below \<open>n_out\<close>, for every schedule of the kernel's threads.\<close>

theorem scatter_overrun_detected:
  assumes "lawful_order rt" and "scatter_args_ok (length src) src_valid keep_flags ps n_out"
    and "n_out + 1 \<le> length dst" and "dst_valid_min_bytes n_out \<le> length dst_valid"
  shows "(dispatch_scatter_i64 rt src src_valid keep_flags ps n_out dst dst_valid = Inl ScatterOverrun \<longleftrightarrow>
      (\<exists>r < length src. keep_flags ! r \<noteq> 0 \<and> n_out \<le> unat (ps ! r - 1))) \<and>
    (dispatch_scatter_f64 rt src src_valid keep_flags ps n_out dst dst_valid = Inl ScatterOverrun \<longleftrightarrow>
      (\<exists>r < length src. keep_flags ! r \<noteq> 0 \<and> n_out \<le> unat (ps ! r - 1)))"
  unfolding dispatch_scatter_i64_def dispatch_scatter_f64_def
  using dispatch_scatter_word_eq[OF assms]
  by (auto simp: scatter_sentinel_i64_def scatter_sentinel_f64_bits_def in_range_def out_row_def not_less)

lemma scatter_overrun_detected_witness:
  "dispatch_scatter_i64 demo_runtime [7] [1] [1] [5] 1 [0, 0] [0, 0, 0, 0] = Inl ScatterOverrun"
  using scatter_overrun_detected[of demo_runtime "[7]" "[1]" "[1]" "[5]" 1 "[0, 0]" "[0, 0, 0, 0]"] demo_runtime_lawful
  by (simp add: scatter_args_ok_def div_ceil_def dst_valid_min_bytes_def align4_def)

lemma offsets_out_row:
  assumes "P r" and "r < n" and "n < 2 ^ 32"
  shows "out_row (offsets_of P n) r = length (filter P [0..<r])"
proof -
  have "length (filter P [0..<r]) \<le> r" by (metis length_filter_le length_upt minus_nat.diff_0)
  with assms show ?thesis by (simp add: out_row_def offset_minus_1 unat_of_nat)
qed

lemma offsets_row_iff:
  assumes "P r" and "r < n" and "n < 2 ^ 32" and "i < length (filter P [0..<n])"
  shows "out_row (offsets_of P n) r = i \<longleftrightarrow> r = filter P [0..<n] ! i"
  unfolding offsets_out_row[of P, OF assms(1-3)] using rank_nth(2)[of P r n] nth_rank(3)[of i P n] assms by metis

lemma survivors_small: "length (filter P [0..<n]) \<le> n"
  by (metis length_filter_le length_upt minus_nat.diff_0)

lemma scatter_survivor_bit:
  assumes "lawful_order rt" and "n < 2 ^ 32" and "i < length (filter P [0..<n])"
  shows "get_valid (scatter_valid_buf kname rt n bits (flags_of P n) (offsets_of P n) (length (filter P [0..<n]))) i \<longleftrightarrow>
    get_valid bits (filter P [0..<n] ! i)"
proof -
  let ?row = "filter P [0..<n] ! i"
  have small: "length (filter P [0..<n]) < 2 ^ 32" using survivors_small[of P n] assms(2) by linarith
  have "r < n \<and> flags_of P n ! r \<noteq> 0 \<and> out_row (offsets_of P n) r = i \<longleftrightarrow> r = ?row" for r
    using nth_rank(1,2)[OF assms(3)] offsets_row_iff[of P r n i, OF _ _ assms(2,3)] by (auto split: if_splits)
  then have "(\<exists>r < n. flags_of P n ! r \<noteq> 0 \<and> get_valid bits r \<and> out_row (offsets_of P n) r = i) \<longleftrightarrow> get_valid bits ?row" by metis
  with assms(3) show ?thesis by (simp add: scatter_valid_buf_bit[OF assms(1,2) small])
qed

section \<open>The pipeline keeps the surviving rows\<close>

lemma compute_keep_and_prefix_eq:
  assumes "lawful_order rt" and "lawful_cumsum mlx" and "0 < n_rows" and "n_rows < 2 ^ 31"
    and "div_ceil n_rows 8 \<le> length pred_data" and "div_ceil n_rows 8 \<le> length pred_valid"
  defines "P \<equiv> \<lambda>r. get_valid pred_data r \<and> get_valid pred_valid r"
  shows "compute_keep_and_prefix rt mlx pred_data pred_valid n_rows =
    Inr (flags_of P n_rows, offsets_of P n_rows, length (filter P [0..<n_rows]))"
proof -
  have ne: "flags_of P n_rows \<noteq> []" using flags_offsets_length(1)[of P n_rows] assms(3) by fastforce
  then have cs: "mlx (flags_of P n_rows) = Inr (offsets_of P n_rows)" "flags_of P n_rows \<noteq> []"
    using assms(2,4) by (simp_all add: lawful_cumsum_def inclusive_sums_flags)
  have last: "unat (offsets_of P n_rows ! (n_rows - 1)) = length (filter P [0..<n_rows])"
    using assms(3,4) survivors_small[of P n_rows] by (simp add: offsets_of_def unat_of_nat del: upt_Suc)
  from assms(3,4) have "n_rows < 2 ^ 32" by simp
  note flags = dispatch_predicate_flags[OF assms(1,3) this assms(5,6), folded P_def]
  show ?thesis
    using assms(3) by (simp add: compute_keep_and_prefix_def flags pipe_def cumsum_u8_to_u32_def cs last[unfolded One_nat_def])
qed

lemma scatter_args_flags:
  assumes "0 < n" and "n < 2 ^ 32" and "div_ceil n 8 \<le> length valid"
  shows "scatter_args_ok n valid (flags_of P n) (offsets_of P n) (length (filter P [0..<n]))"
  using assms survivors_small[of P n] by (simp add: scatter_args_ok_def)

lemma scatter_survivors:
  assumes rt: "lawful_order rt" and n: "0 < length src" "length src < 2 ^ 32" and valid: "div_ceil (length src) 8 \<le> length valid"
    and "sentinel \<noteq> 0" and rows_def: "rows = filter P [0..<length src]"
  shows "\<exists>data v. dispatch_scatter_word rt kname sentinel src valid (flags_of P (length src)) (offsets_of P (length src)) (length rows)
      (replicate (length rows + 1) 0) (replicate (dst_valid_min_bytes (length rows)) 0) = Inr (data, v) \<and>
    take (length rows) data = map ((!) src) rows \<and>
    (\<forall>i < length rows. get_valid v i = get_valid valid (rows ! i))"
proof -
  let ?n = "length src" and ?F = "flags_of P (length src)" and ?S = "offsets_of P (length src)" and ?m = "length rows"
  let ?D = "foldl write_slot (replicate (?m + 1) 0)
      (map (scatter_slot sentinel src ?F ?S (of_nat ?n) (of_nat ?m)) (order rt kname ?n))"
  let ?V = "scatter_valid_buf kname rt ?n valid ?F ?S ?m"
  have m: "?m < 2 ^ 32" using survivors_small[of P ?n] n(2) unfolding rows_def by linarith
  have keep_iff: "?F ! r \<noteq> 0 \<longleftrightarrow> P r" if "r < ?n" for r using that by simp
  have row: "out_row ?S r = i \<longleftrightarrow> r = rows ! i" if "P r" "r < ?n" "i < ?m" for r i
    using offsets_row_iff[of P r ?n i] that n(2) by (simp add: rows_def)
  have "in_range ?F ?S ?n ?m"
    using rank_nth(1)[of P _ ?n] by (auto simp: in_range_def offsets_out_row[of P, OF _ _ n(2)] rows_def split: if_splits)
  then have eq: "dispatch_scatter_word rt kname sentinel src valid ?F ?S ?m (replicate (?m + 1) 0) (replicate (dst_valid_min_bytes ?m) 0) =
      Inr (copy_back ?D (replicate (?m + 1) 0), copy_back ?V (replicate (dst_valid_min_bytes ?m) 0))"
    using dispatch_scatter_word_eq[OF rt scatter_args_flags[OF n valid, of P, folded rows_def], of "replicate (?m + 1) 0"
        "replicate (dst_valid_min_bytes ?m) 0" sentinel kname] \<open>sentinel \<noteq> 0\<close> by simp
  have "?D ! i = src ! (rows ! i)" if i: "i < ?m" for i
  proof (rule scatter_slots(2)[OF _ n(2) m refl i])
    show "schedule_ok ?n (order rt kname ?n)" using rt by (simp add: lawful_order_def)
    show "rows ! i < ?n" "?F ! (rows ! i) \<noteq> 0" "out_row ?S (rows ! i) = i"
      using nth_rank[of i P ?n] i row by (simp_all add: rows_def)
    show "r' = rows ! i" if "r' < ?n" "?F ! r' \<noteq> 0" "out_row ?S r' = i" for r'
      using that keep_iff row i by blast
  qed
  then have "take ?m (copy_back ?D (replicate (?m + 1) 0)) = map ((!) src) rows"
    by (intro list_eq_by_nth) (simp_all add: copy_back_def nth_append)
  moreover have "get_valid (copy_back ?V (replicate (dst_valid_min_bytes ?m) 0)) i = get_valid valid (rows ! i)" if "i < ?m" for i
    using scatter_survivor_bit[OF rt n(2), of i P kname valid] that by (simp add: copy_back_def rows_def)
  ultimately show ?thesis using eq by blast
qed

end
