(* ===== verification/Filter_Compact.thy ===== *)
theory Filter_Compact
  imports Compaction Execute
begin

text \<open>Models \<open>polars-metal-core/src/udf/compact.rs\<close>: the Python entry point of the filter, which runs the
  predicate and the prefix sum once and then one scatter per column.\<close>

section \<open>One column\<close>

datatype compact_error =
    PredDataSmall nat nat nat
  | PredValidSmall nat nat nat
  | KeepPrefixFailed pipeline_error
  | CompactColumn exec_error
  | CompactDtype string
  | ColumnValidSmall string nat nat nat
  | ColumnDataSmall string metal_dtype nat nat
  | CompactFailed string pipeline_error
  | CompactUnsupported string metal_dtype

definition compact_one_column ::
  "runtime \<Rightarrow> metal_dtype \<Rightarrow> nat \<Rightarrow> bytes \<Rightarrow> bytes \<Rightarrow> bytes \<Rightarrow> u32 list \<Rightarrow> nat \<Rightarrow> string \<Rightarrow> compact_error + bytes \<times> bytes" where
  "compact_one_column rt dtype n_rows src_data src_valid keep_flags prefix_sum n_out col =
     (let min_valid_bytes = (n_rows + 7) div 8; expected_data = n_rows * 8 in
      if length src_valid < min_valid_bytes
      then Inl (ColumnValidSmall col (length src_valid) min_valid_bytes n_rows)
      else if n_out = 0 then Inr ([], [])
      else case dtype of
        I64 \<Rightarrow>
          if length src_data < expected_data then Inl (ColumnDataSmall col dtype (length src_data) expected_data)
          else rbind (map_err (CompactFailed col)
                 (compact_i64 rt (typed_view 8 src_data n_rows) src_valid keep_flags prefix_sum n_out)) (\<lambda>result.
               Inr (words_le (take (cr_n_out result) (cr_data result)), cr_valid result))
      | F64 \<Rightarrow>
          if length src_data < expected_data then Inl (ColumnDataSmall col dtype (length src_data) expected_data)
          else rbind (map_err (CompactFailed col)
                 (compact_f64 rt (typed_view 8 src_data n_rows) src_valid keep_flags prefix_sum n_out)) (\<lambda>result.
               Inr (words_le (take (cr_n_out result) (cr_data result)), cr_valid result))
      | Bool \<Rightarrow>
          if length src_data < min_valid_bytes then Inl (ColumnDataSmall col dtype (length src_data) min_valid_bytes)
          else rbind (map_err (CompactFailed col)
                 (compact_bool rt src_data src_valid keep_flags prefix_sum n_rows n_out)) (\<lambda>result.
               Inr (cr_data result, cr_valid result))
      | _ \<Rightarrow> Inl (CompactUnsupported col dtype))"

section \<open>The entry point\<close>

definition compact_entry ::
  "runtime \<Rightarrow> nat \<Rightarrow> bytes \<times> u32 list \<times> nat \<Rightarrow> nat \<times> py_value \<Rightarrow> compact_error + bytes \<times> bytes \<times> nat" where
  "compact_entry rt n_rows = (\<lambda>(keep_flags, prefix_sum, n_out) entry.
     rbind (map_err CompactColumn (parse_column entry)) (\<lambda>(name, tag, data, valid).
     case dtype_from_wire tag of
       None \<Rightarrow> Inl (CompactDtype tag)
     | Some dtype \<Rightarrow>
         rbind (compact_one_column rt dtype n_rows data valid keep_flags prefix_sum n_out name) (\<lambda>(out_data, out_valid).
           Inr (out_data, out_valid, n_out))))"

text \<open>\<open>None\<close> is the panic of a vector longer than \<open>isize::MAX\<close>; the sum \<open>n_rows + 7\<close> wraps.\<close>

definition execute_filter_compact ::
  "runtime \<Rightarrow> mlx_cumsum \<Rightarrow> bytes \<Rightarrow> bytes \<Rightarrow> usize \<Rightarrow> py_value list \<Rightarrow> (compact_error + (bytes \<times> bytes \<times> nat) list) option" where
  "execute_filter_compact rt mlx pred_data pred_valid n_rows columns =
     (let min_pred_bytes = unat ((n_rows + 7) div 8); n = unat n_rows in
      if length pred_data < min_pred_bytes then Some (Inl (PredDataSmall (length pred_data) min_pred_bytes n))
      else if length pred_valid < min_pred_bytes then Some (Inl (PredValidSmall (length pred_valid) min_pred_bytes n))
      else if 2 ^ 63 \<le> n then None
      else Some (rbind (map_err KeepPrefixFailed (compute_keep_and_prefix rt mlx pred_data pred_valid n)) (\<lambda>shared.
        rmap (compact_entry rt n shared) (enumerate 0 columns))))"

section \<open>What a column means\<close>

text \<open>A cell of a column sent over the wire: nothing where the validity bit is clear, otherwise its eight bytes
  or, for a boolean column, its bit.\<close>

definition filter_cell :: "string \<Rightarrow> bytes \<Rightarrow> bytes \<Rightarrow> nat \<Rightarrow> u64 option" where
  "filter_cell tag data valid r =
     (if \<not> get_valid valid r then None
      else Some (if tag = ''Bool'' then if get_valid data r then 1 else 0 else of_le_bytes (row_bytes 8 data r)))"

definition filter_column_ok :: "nat \<Rightarrow> string \<times> string \<times> bytes \<times> bytes \<Rightarrow> bool" where
  "filter_column_ok n = (\<lambda>(name, tag, data, valid). div_ceil n 8 \<le> length valid \<and>
     (tag \<in> {''I64'', ''F64''} \<and> 8 * n \<le> length data \<or> tag = ''Bool'' \<and> div_ceil n 8 \<le> length data))"

definition holds_row :: "bytes \<Rightarrow> bytes \<Rightarrow> nat \<Rightarrow> bool" where
  "holds_row pred_data pred_valid r \<longleftrightarrow> get_valid pred_data r \<and> get_valid pred_valid r"

section \<open>Every column keeps the surviving rows\<close>

lemma compact_word_column:
  assumes "lawful_order rt" and "0 < n" and "n < 2 ^ 31" and "div_ceil n 8 \<le> length valid" and "8 * n \<le> length data"
    and tag: "tag \<noteq> ''Bool''" and dtype: "dtype = I64 \<or> dtype = F64" and rows: "rows = filter P [0..<n]"
  shows "\<exists>out v. compact_one_column rt dtype n data valid (flags_of P n) (offsets_of P n) (length rows) name = Inr (out, v) \<and>
    length out = 8 * length rows \<and>
    (\<forall>i < length rows. filter_cell tag out v i = filter_cell tag data valid (rows ! i))"
proof (cases "rows = []")
  case True
  then show ?thesis using assms(4) by (simp add: compact_one_column_def div_ceil_8 Let_def)
next
  case False
  let ?src = "typed_view 8 data n :: u64 list"
  have len: "length ?src = n" by (simp add: typed_view_def)
  have n32: "n < 2 ^ 32" using assms(3) by simp
  from scatter_survivors[OF assms(1), of ?src valid scatter_sentinel_i64 rows P "''filter_scatter_i64''"]
    scatter_survivors[OF assms(1), of ?src valid scatter_sentinel_f64_bits rows P "''filter_scatter_f64''"] assms(2,4) n32 rows
  obtain d v d' v' where
    run: "dispatch_scatter_i64 rt ?src valid (flags_of P n) (offsets_of P n) (length rows)
        (replicate (length rows + 1) 0) (replicate (dst_valid_min_bytes (length rows)) 0) = Inr (d, v)"
      "dispatch_scatter_f64 rt ?src valid (flags_of P n) (offsets_of P n) (length rows)
        (replicate (length rows + 1) 0) (replicate (dst_valid_min_bytes (length rows)) 0) = Inr (d', v')"
    and vals: "take (length rows) d = map ((!) ?src) rows" "take (length rows) d' = map ((!) ?src) rows"
    and valid: "\<forall>i < length rows. get_valid v i = get_valid valid (rows ! i)" "\<forall>i < length rows. get_valid v' i = get_valid valid (rows ! i)"
    unfolding dispatch_scatter_i64_def dispatch_scatter_f64_def len
    by (auto simp: scatter_sentinel_i64_def scatter_sentinel_f64_bits_def)
  let ?out = "words_le (map ((!) ?src) rows)"
  have out: "\<exists>v. compact_one_column rt dtype n data valid (flags_of P n) (offsets_of P n) (length rows) name = Inr (?out, v) \<and>
      (\<forall>i < length rows. get_valid v i = get_valid valid (rows ! i))"
    using dtype False assms(4,5) run vals valid
    by (auto simp: compact_one_column_def compact_i64_def compact_f64_def pipe_def map_err_def div_ceil_8 Let_def)
  have cell: "filter_cell tag ?out v i = filter_cell tag data valid (rows ! i)"
    if "i < length rows" "get_valid v i = get_valid valid (rows ! i)" for v i
  proof -
    have "rows ! i < n" using nth_rank(2)[of i P n] that(1) rows by simp
    moreover have "row_bytes 8 ?out i = le_bytes (?src ! (rows ! i))"
      using words_le_row[of i "map ((!) ?src) rows"] that(1) by simp
    ultimately show ?thesis
      using that tag by (simp add: filter_cell_def of_le_bytes_le_bytes typed_view_def)
  qed
  have "length ?out = 8 * length rows" by (simp add: words_le_length)
  with out cell show ?thesis by blast
qed

lemma compact_bool_column:
  assumes "lawful_order rt" and "0 < n" and "n < 2 ^ 31" and "div_ceil n 8 \<le> length valid" and "div_ceil n 8 \<le> length data"
    and rows: "rows = filter P [0..<n]"
  shows "\<exists>out v. compact_one_column rt Bool n data valid (flags_of P n) (offsets_of P n) (length rows) name = Inr (out, v) \<and>
    (\<forall>i < length rows. filter_cell ''Bool'' out v i = filter_cell ''Bool'' data valid (rows ! i))"
proof (cases "rows = []")
  case True
  then show ?thesis using assms(4) by (simp add: compact_one_column_def div_ceil_8 Let_def)
next
  case False
  have n32: "n < 2 ^ 32" using assms(3) by simp
  have m: "length rows \<le> n" using survivors_small[of P n] rows by simp
  let ?buf = "\<lambda>bits. scatter_valid_buf ''filter_scatter_bool'' rt n bits (flags_of P n) (offsets_of P n) (length rows)"
  have last: "offsets_of P n ! (n - Suc 0) = of_nat (length rows)"
    using assms(2) by (simp add: offsets_of_def rows del: upt_Suc)
  have run: "compact_one_column rt Bool n data valid (flags_of P n) (offsets_of P n) (length rows) name = Inr (?buf data, ?buf valid)"
    using assms(2,4,5) n32 m last False
    by (simp add: compact_one_column_def compact_bool_def dispatch_scatter_bool_def scatter_bool_checks_def scatter_counts_def
        scatter_bool.bit_threads scatter_valid_buf_def[symmetric] u32_max_def pipe_def map_err_def copy_back_def div_ceil_8 ensure_def Let_def)
  have "get_valid (?buf bits) i = get_valid bits (rows ! i)" if "i < length rows" for i bits
    using scatter_survivor_bit[OF assms(1) n32, of i P] that rows by simp
  with run show ?thesis by (auto simp: filter_cell_def)
qed

lemma rmap_pairs:
  assumes "rmap g xs = Inr ys" and "\<And>x y. g x = Inr y \<Longrightarrow> y \<in> set ys \<Longrightarrow> \<exists>z. f x = Inr z \<and> Q y z"
  shows "\<exists>zs. rmap f xs = Inr zs \<and> list_all2 Q ys zs"
  using assms
proof (induction xs arbitrary: ys)
  case (Cons x xs)
  then obtain y ys' where ys: "ys = y # ys'" "g x = Inr y" "rmap g xs = Inr ys'" by (auto simp: result_simps)
  with Cons.prems(2) obtain z where "f x = Inr z" "Q y z" by auto
  moreover obtain zs where "rmap f xs = Inr zs" "list_all2 Q ys' zs"
    using Cons.IH[OF ys(3)] Cons.prems(2) ys(1) by (metis list.set_intros(2))
  ultimately show ?case using ys(1) by auto
qed simp

definition survivor_column :: "nat list \<Rightarrow> string \<times> string \<times> bytes \<times> bytes \<Rightarrow> bytes \<times> bytes \<times> nat \<Rightarrow> bool" where
  "survivor_column rows = (\<lambda>(name, tag, data, valid) (out_data, out_valid, n_out). n_out = length rows \<and>
     (tag \<noteq> ''Bool'' \<longrightarrow> length out_data = 8 * n_out) \<and>
     (\<forall>i < n_out. filter_cell tag out_data out_valid i = filter_cell tag data valid (rows ! i)))"

lemma compact_entry_survivors:
  assumes rt: "lawful_order rt" and n: "0 < n" "n < 2 ^ 31" and rows: "rows = filter P [0..<n]"
    and parse: "parse_column entry = Inr (name, tag, data, valid)" and ok: "filter_column_ok n (name, tag, data, valid)"
  shows "\<exists>out. compact_entry rt n (flags_of P n, offsets_of P n, length rows) entry = Inr out \<and>
    survivor_column rows (name, tag, data, valid) out"
proof -
  have valid: "div_ceil n 8 \<le> length valid" using ok by (simp add: filter_column_ok_def)
  consider (word) dtype where "dtype_from_wire tag = Some dtype" "dtype = I64 \<or> dtype = F64" "tag \<noteq> ''Bool''" "8 * n \<le> length data"
    | (bool) "tag = ''Bool''" "dtype_from_wire tag = Some Bool" "div_ceil n 8 \<le> length data"
    using ok by (auto simp: filter_column_ok_def dtype_from_wire_def dtype_wire_table_def)
  then show ?thesis
  proof cases
    case word
    with compact_word_column[OF rt n valid word(4,3,2) rows, of name] parse show ?thesis
      by (auto simp: compact_entry_def survivor_column_def map_err_def)
  next
    case bool
    with compact_bool_column[OF rt n valid bool(3) rows, of name] parse show ?thesis
      by (auto simp: compact_entry_def survivor_column_def map_err_def)
  qed
qed

lemma compact_entry_empty:
  assumes parse: "parse_column entry = Inr (name, tag, data, valid)" and ok: "filter_column_ok 0 (name, tag, data, valid)"
  shows "\<exists>out. compact_entry rt 0 ([], [], 0) entry = Inr out \<and> survivor_column [] (name, tag, data, valid) out"
proof -
  have "\<exists>dtype. dtype_from_wire tag = Some dtype"
    using ok by (auto simp: filter_column_ok_def dtype_from_wire_def dtype_wire_table_def)
  with parse show ?thesis by (auto simp: compact_entry_def compact_one_column_def survivor_column_def map_err_def)
qed

lemma filter_compact_rows:
  assumes "lawful_order rt" and "lawful_cumsum mlx" and "unat n_rows < 2 ^ 31"
    and "div_ceil (unat n_rows) 8 \<le> length pred_data" and "div_ceil (unat n_rows) 8 \<le> length pred_valid"
    and "rmap parse_column (enumerate 0 columns) = Inr cols" and "list_all (filter_column_ok (unat n_rows)) cols"
  shows "\<exists>outs. execute_filter_compact rt mlx pred_data pred_valid n_rows columns = Some (Inr outs) \<and>
    list_all2 (survivor_column (filter (holds_row pred_data pred_valid) [0..<unat n_rows])) cols outs"
proof -
  let ?n = "unat n_rows" and ?P = "holds_row pred_data pred_valid"
  let ?shared = "(flags_of ?P ?n, offsets_of ?P ?n, length (filter ?P [0..<?n]))"
  have P: "(\<lambda>r. get_valid pred_data r \<and> get_valid pred_valid r) = ?P" by (auto simp: holds_row_def)
  have "unat (n_rows + 7) = ?n + 7" using assms(3) by (simp add: unat_plus_if')
  then have m: "unat ((n_rows + 7) div 8) = div_ceil ?n 8" by (simp add: unat_div div_ceil_8)
  have keep_eq: "compute_keep_and_prefix rt mlx pred_data pred_valid ?n = Inr ?shared"
  proof (cases "?n = 0")
    case False
    then show ?thesis using compute_keep_and_prefix_eq[OF assms(1,2) _ assms(3-5)] by (simp add: P)
  qed (simp add: compute_keep_and_prefix_def flags_of_def offsets_of_def)
  have "\<exists>outs. rmap (compact_entry rt ?n ?shared) (enumerate 0 columns) = Inr outs \<and>
      list_all2 (survivor_column (filter ?P [0..<?n])) cols outs"
  proof (rule rmap_pairs[OF assms(6)])
    fix entry col assume col: "parse_column entry = Inr col" "col \<in> set cols"
    obtain name tag data valid where c: "col = (name, tag, data, valid)" by (cases col)
    have ok: "filter_column_ok ?n col" using assms(7) col(2) by (simp add: list_all_iff)
    show "\<exists>out. compact_entry rt ?n ?shared entry = Inr out \<and> survivor_column (filter ?P [0..<?n]) col out"
    proof (cases "?n = 0")
      case True
      with compact_entry_empty[of entry name tag data valid rt] col(1) ok show ?thesis
        by (simp add: c flags_of_def offsets_of_def)
    next
      case False
      then show ?thesis
        using compact_entry_survivors[OF assms(1) _ assms(3) refl, of entry name tag data valid ?P] col(1) ok unfolding c by blast
    qed
  qed
  moreover have "\<not> 2 ^ 63 \<le> ?n" using assms(3) by simp
  ultimately show ?thesis
    using assms(4,5) by (simp add: execute_filter_compact_def m keep_eq map_err_def Let_def)
qed

text \<open>Filtering is row selection: for every order of the threads of the three passes, the entry point returns
  for each 64-bit or boolean column, in order, the rows whose predicate is true and not null, values and nulls
  unchanged; the empty frame and the predicate no row satisfies included.\<close>

theorem filter_compact_correct:
  assumes "lawful_order rt" and "lawful_cumsum mlx" and "unat n_rows < 2 ^ 31"
    and "div_ceil (unat n_rows) 8 \<le> length pred_data" and "div_ceil (unat n_rows) 8 \<le> length pred_valid"
    and "rmap parse_column (enumerate 0 columns) = Inr cols" and "list_all (filter_column_ok (unat n_rows)) cols"
  shows "\<exists>outs. execute_filter_compact rt mlx pred_data pred_valid n_rows columns = Some (Inr outs) \<and>
    list_all2 (survivor_column (filter (holds_row pred_data pred_valid) [0..<unat n_rows])) cols outs"
  by (rule filter_compact_rows[OF assms])

definition demo_filter_columns :: "py_value list" where
  "demo_filter_columns =
     [PyTupleOf [PyStr ''a'', PyStr ''I64'', PyByteString (replicate 8 1 @ replicate 8 2), PyByteString [3]],
      PyTupleOf [PyStr ''b'', PyStr ''Bool'', PyByteString [2], PyByteString [2]]]"

definition demo_cumsum :: mlx_cumsum where
  "demo_cumsum bs = Inr (inclusive_sums bs)"

lemma demo_filter_parse:
  "rmap parse_column (enumerate 0 demo_filter_columns) =
    Inr [(''a'', ''I64'', replicate 8 1 @ replicate 8 2, [3]), (''b'', ''Bool'', [2], [2])]"
  by (simp add: demo_filter_columns_def parse_column_def or_field_def extract_bytes_def)

lemma filter_compact_correct_witness:
  "\<exists>outs. execute_filter_compact demo_runtime demo_cumsum [2] [3] 2 demo_filter_columns = Some (Inr outs) \<and>
    list_all2 (survivor_column [1])
      [(''a'', ''I64'', replicate 8 1 @ replicate 8 2, [3]), (''b'', ''Bool'', [2], [2])] outs"
proof -
  have rt: "lawful_order demo_runtime" using demo_runtime_ok by (simp add: lawful_runtime_def)
  have cs: "lawful_cumsum demo_cumsum" by (simp add: lawful_cumsum_def demo_cumsum_def)
  have rows: "filter (holds_row [2] [3]) [0..<2] = [1]" by code_simp
  show ?thesis
    using filter_compact_correct[OF rt cs _ _ _ demo_filter_parse, of 2 "[2]" "[3]"]
    by (simp add: filter_column_ok_def div_ceil_def rows)
qed

end
