(* ===== verification/Compare.thy ===== *)
theory Compare
  imports Gpu_Aggs Bitmap_Kernels Plan
begin

text \<open>Models \<open>polars-metal-kernels/src/cmp.rs\<close> with its kernels (\<open>shaders/cmp_i64.metal\<close>, \<open>cmp_f64.metal\<close>) and the
  Python entry points of \<open>polars-metal-core/src/udf/compare.rs\<close>: six comparisons of a column with a column or
  a scalar, returning a nullable boolean column. The shader compares doubles by integer arithmetic on their
  bit patterns; the theorems relate it to the IEEE order.\<close>

section \<open>The operators of the kernels\<close>

datatype cmp_op = OpEq | OpNe | OpLt | OpLe | OpGt | OpGe

definition entry_point_i64_cc :: "cmp_op \<Rightarrow> string" where
  "entry_point_i64_cc op = (case op of OpEq \<Rightarrow> ''cmp_i64_eq'' | OpNe \<Rightarrow> ''cmp_i64_ne'' | OpLt \<Rightarrow> ''cmp_i64_lt''
     | OpLe \<Rightarrow> ''cmp_i64_le'' | OpGt \<Rightarrow> ''cmp_i64_gt'' | OpGe \<Rightarrow> ''cmp_i64_ge'')"

definition entry_point_i64_cs :: "cmp_op \<Rightarrow> string" where
  "entry_point_i64_cs op = (case op of OpEq \<Rightarrow> ''cmp_i64_eq_scalar'' | OpNe \<Rightarrow> ''cmp_i64_ne_scalar'' | OpLt \<Rightarrow> ''cmp_i64_lt_scalar''
     | OpLe \<Rightarrow> ''cmp_i64_le_scalar'' | OpGt \<Rightarrow> ''cmp_i64_gt_scalar'' | OpGe \<Rightarrow> ''cmp_i64_ge_scalar'')"

definition entry_point_f64_cc :: "cmp_op \<Rightarrow> string" where
  "entry_point_f64_cc op = (case op of OpEq \<Rightarrow> ''cmp_f64_eq'' | OpNe \<Rightarrow> ''cmp_f64_ne'' | OpLt \<Rightarrow> ''cmp_f64_lt''
     | OpLe \<Rightarrow> ''cmp_f64_le'' | OpGt \<Rightarrow> ''cmp_f64_gt'' | OpGe \<Rightarrow> ''cmp_f64_ge'')"

definition entry_point_f64_cs :: "cmp_op \<Rightarrow> string" where
  "entry_point_f64_cs op = (case op of OpEq \<Rightarrow> ''cmp_f64_eq_scalar'' | OpNe \<Rightarrow> ''cmp_f64_ne_scalar'' | OpLt \<Rightarrow> ''cmp_f64_lt_scalar''
     | OpLe \<Rightarrow> ''cmp_f64_le_scalar'' | OpGt \<Rightarrow> ''cmp_f64_gt_scalar'' | OpGe \<Rightarrow> ''cmp_f64_ge_scalar'')"

text \<open>\<open>cmp_f64.metal\<close>: comparisons on the bits of two doubles.\<close>

definition f64_is_nan :: "u64 \<Rightarrow> bool" where
  "f64_is_nan bits =
     (let expo = drop_bit 52 bits AND 0x7FF; mantissa = bits AND 0x000FFFFFFFFFFFFF in expo = 0x7FF \<and> mantissa \<noteq> 0)"

definition both_are_zero :: "u64 \<Rightarrow> u64 \<Rightarrow> bool" where
  "both_are_zero a b \<longleftrightarrow> push_bit 1 (a OR b) = 0"

definition f64_total_order_key :: "u64 \<Rightarrow> u64" where
  "f64_total_order_key bits =
     (let sign_mask = (if drop_bit 63 bits = 0 then 0x8000000000000000 else 0xFFFFFFFFFFFFFFFF) in bits XOR sign_mask)"

definition f64_eq :: "u64 \<Rightarrow> u64 \<Rightarrow> bool" where
  "f64_eq a b = (if f64_is_nan a \<or> f64_is_nan b then False else if both_are_zero a b then True else a = b)"

definition f64_lt :: "u64 \<Rightarrow> u64 \<Rightarrow> bool" where
  "f64_lt a b = (if f64_is_nan a \<or> f64_is_nan b then False else if both_are_zero a b then False
     else f64_total_order_key a < f64_total_order_key b)"

definition f64_le :: "u64 \<Rightarrow> u64 \<Rightarrow> bool" where
  "f64_le a b = (if f64_is_nan a \<or> f64_is_nan b then False else if both_are_zero a b then True
     else f64_total_order_key a \<le> f64_total_order_key b)"

definition f64_gt :: "u64 \<Rightarrow> u64 \<Rightarrow> bool" where
  "f64_gt a b = (if f64_is_nan a \<or> f64_is_nan b then False else if both_are_zero a b then False
     else f64_total_order_key a > f64_total_order_key b)"

definition f64_ge :: "u64 \<Rightarrow> u64 \<Rightarrow> bool" where
  "f64_ge a b = (if f64_is_nan a \<or> f64_is_nan b then False else if both_are_zero a b then True
     else f64_total_order_key a \<ge> f64_total_order_key b)"

definition f64_ne :: "u64 \<Rightarrow> u64 \<Rightarrow> bool" where
  "f64_ne a b = (if f64_is_nan a \<or> f64_is_nan b then True else if both_are_zero a b then False else a \<noteq> b)"

text \<open>The kernels the shader files instantiate, by name.\<close>

type_synonym cmp_kernels = "(string \<times> (u64 \<Rightarrow> u64 \<Rightarrow> bool)) list"

definition cmp_i64_kernels_cc :: cmp_kernels where
  "cmp_i64_kernels_cc = [(''cmp_i64_eq'', \<lambda>a b. a = b), (''cmp_i64_ne'', \<lambda>a b. a \<noteq> b), (''cmp_i64_lt'', \<lambda>a b. a <s b),
     (''cmp_i64_le'', \<lambda>a b. a \<le>s b), (''cmp_i64_gt'', \<lambda>a b. b <s a), (''cmp_i64_ge'', \<lambda>a b. b \<le>s a)]"

definition cmp_i64_kernels_cs :: cmp_kernels where
  "cmp_i64_kernels_cs = [(''cmp_i64_eq_scalar'', \<lambda>a b. a = b), (''cmp_i64_ne_scalar'', \<lambda>a b. a \<noteq> b), (''cmp_i64_lt_scalar'', \<lambda>a b. a <s b),
     (''cmp_i64_le_scalar'', \<lambda>a b. a \<le>s b), (''cmp_i64_gt_scalar'', \<lambda>a b. b <s a), (''cmp_i64_ge_scalar'', \<lambda>a b. b \<le>s a)]"

definition cmp_f64_kernels_cc :: cmp_kernels where
  "cmp_f64_kernels_cc = [(''cmp_f64_eq'', f64_eq), (''cmp_f64_ne'', f64_ne), (''cmp_f64_lt'', f64_lt),
     (''cmp_f64_le'', f64_le), (''cmp_f64_gt'', f64_gt), (''cmp_f64_ge'', f64_ge)]"

definition cmp_f64_kernels_cs :: cmp_kernels where
  "cmp_f64_kernels_cs = [(''cmp_f64_eq_scalar'', f64_eq), (''cmp_f64_ne_scalar'', f64_ne), (''cmp_f64_lt_scalar'', f64_lt),
     (''cmp_f64_le_scalar'', f64_le), (''cmp_f64_gt_scalar'', f64_gt), (''cmp_f64_ge_scalar'', f64_ge)]"

text \<open>The bodies of the two kernel macros.\<close>

definition cmp_kernel_cc ::
  "(u64 \<Rightarrow> u64 \<Rightarrow> bool) \<Rightarrow> u64 list \<Rightarrow> bytes \<Rightarrow> u64 list \<Rightarrow> bytes \<Rightarrow> u32 \<Rightarrow> u32 list \<times> u32 list \<Rightarrow> nat \<Rightarrow> u32 list \<times> u32 list" where
  "cmp_kernel_cc f lhs_data lhs_valid rhs_data rhs_valid n_rows = (\<lambda>(out_data, out_valid) gid.
     if unat n_rows \<le> gid then (out_data, out_valid)
     else let lv = get_valid lhs_valid gid; rv = get_valid rhs_valid gid in
       if \<not> lv \<or> \<not> rv then (out_data, out_valid)
       else (if f (lhs_data ! gid) (rhs_data ! gid) then set_valid_atomic_or out_data gid else out_data,
             set_valid_atomic_or out_valid gid))"

definition cmp_kernel_cs ::
  "(u64 \<Rightarrow> u64 \<Rightarrow> bool) \<Rightarrow> u64 list \<Rightarrow> bytes \<Rightarrow> u64 \<Rightarrow> u32 \<Rightarrow> u32 list \<times> u32 list \<Rightarrow> nat \<Rightarrow> u32 list \<times> u32 list" where
  "cmp_kernel_cs f lhs_data lhs_valid rhs_scalar n_rows = (\<lambda>(out_data, out_valid) gid.
     if unat n_rows \<le> gid then (out_data, out_valid)
     else if \<not> get_valid lhs_valid gid then (out_data, out_valid)
     else (if f (lhs_data ! gid) rhs_scalar then set_valid_atomic_or out_data gid else out_data,
           set_valid_atomic_or out_valid gid))"

section \<open>The dispatchers\<close>

datatype cmp_error =
    CmpShader string
  | CmpInputLength nat nat nat
  | CmpValidityTooShort nat nat nat
  | CmpOutputTooShort nat nat
  | CmpRowCount nat

definition out_min_bytes :: "nat \<Rightarrow> nat" where
  "out_min_bytes n_rows = (let raw = (n_rows + 7) div 8; padded = align4 raw in max padded 4)"

definition cmp_out_checks :: "nat \<Rightarrow> nat \<Rightarrow> nat \<Rightarrow> cmp_error + unit" where
  "cmp_out_checks n_rows n_data n_valid =
     rbind (ensure (out_min_bytes n_rows \<le> n_data) (CmpOutputTooShort n_data (out_min_bytes n_rows))) (\<lambda>_.
     ensure (out_min_bytes n_rows \<le> n_valid) (CmpOutputTooShort n_valid (out_min_bytes n_rows)))"

definition valid_check :: "nat \<Rightarrow> nat \<Rightarrow> cmp_error + unit" where
  "valid_check n_rows got = ensure ((n_rows + 7) div 8 \<le> got) (CmpValidityTooShort got ((n_rows + 7) div 8) n_rows)"

text \<open>The launch both column forms end with: no rows clear the outputs, otherwise the kernel of that name fills
  fresh bitmaps that are copied over the front of the outputs.\<close>

definition cmp_launch ::
  "runtime \<Rightarrow> cmp_kernels \<Rightarrow> string \<Rightarrow> ((u64 \<Rightarrow> u64 \<Rightarrow> bool) \<Rightarrow> u32 \<Rightarrow> u32 list \<times> u32 list \<Rightarrow> nat \<Rightarrow> u32 list \<times> u32 list) \<Rightarrow> nat \<Rightarrow>
     bytes \<Rightarrow> bytes \<Rightarrow> cmp_error + bytes \<times> bytes" where
  "cmp_launch rt kernels kname thread n_rows out_data out_valid =
     (let min_out = out_min_bytes n_rows in
      if n_rows = 0 then Inr (copy_back (replicate min_out 0) out_data, copy_back (replicate min_out 0) out_valid)
      else if u32_max < n_rows then Inl (CmpRowCount n_rows)
      else case map_of kernels kname of
          None \<Rightarrow> Inl (CmpShader kname)
        | Some f \<Rightarrow>
            let fresh = replicate (min_out div 4) 0;
                (data_buf, valid_buf) = foldl (thread f (of_nat n_rows)) (fresh, fresh) (order rt kname n_rows)
            in Inr (copy_back (words_le data_buf) out_data, copy_back (words_le valid_buf) out_valid))"

definition dispatch_cmp_cc ::
  "runtime \<Rightarrow> cmp_kernels \<Rightarrow> string \<Rightarrow> u64 list \<Rightarrow> bytes \<Rightarrow> u64 list \<Rightarrow> bytes \<Rightarrow> nat \<Rightarrow> bytes \<Rightarrow> bytes \<Rightarrow> cmp_error + bytes \<times> bytes" where
  "dispatch_cmp_cc rt kernels kname lhs_data lhs_valid rhs_data rhs_valid n_rows out_data out_valid =
     (let min_valid = (n_rows + 7) div 8 in
      rbind (ensure (length lhs_data = n_rows \<and> length rhs_data = n_rows) (CmpInputLength (length lhs_data) (length rhs_data) n_rows)) (\<lambda>_.
      rbind (valid_check n_rows (length lhs_valid)) (\<lambda>_.
      rbind (valid_check n_rows (length rhs_valid)) (\<lambda>_.
      rbind (cmp_out_checks n_rows (length out_data) (length out_valid)) (\<lambda>_.
      cmp_launch rt kernels kname (\<lambda>f. cmp_kernel_cc f lhs_data (take min_valid lhs_valid) rhs_data (take min_valid rhs_valid))
        n_rows out_data out_valid)))))"

definition dispatch_cmp_cs ::
  "runtime \<Rightarrow> cmp_kernels \<Rightarrow> string \<Rightarrow> u64 list \<Rightarrow> bytes \<Rightarrow> u64 \<Rightarrow> nat \<Rightarrow> bytes \<Rightarrow> bytes \<Rightarrow> cmp_error + bytes \<times> bytes" where
  "dispatch_cmp_cs rt kernels kname lhs_data lhs_valid rhs n_rows out_data out_valid =
     (let min_valid = (n_rows + 7) div 8 in
      rbind (ensure (length lhs_data = n_rows) (CmpInputLength (length lhs_data) 0 n_rows)) (\<lambda>_.
      rbind (valid_check n_rows (length lhs_valid)) (\<lambda>_.
      rbind (cmp_out_checks n_rows (length out_data) (length out_valid)) (\<lambda>_.
      cmp_launch rt kernels kname (\<lambda>f. cmp_kernel_cs f lhs_data (take min_valid lhs_valid) rhs) n_rows out_data out_valid))))"

definition dispatch_cmp_i64 ::
  "runtime \<Rightarrow> u64 list \<Rightarrow> bytes \<Rightarrow> u64 list \<Rightarrow> bytes \<Rightarrow> nat \<Rightarrow> cmp_op \<Rightarrow> bytes \<Rightarrow> bytes \<Rightarrow> cmp_error + bytes \<times> bytes" where
  "dispatch_cmp_i64 rt lhs_data lhs_valid rhs_data rhs_valid n_rows op =
     dispatch_cmp_cc rt cmp_i64_kernels_cc (entry_point_i64_cc op) lhs_data lhs_valid rhs_data rhs_valid n_rows"

definition dispatch_cmp_i64_scalar ::
  "runtime \<Rightarrow> u64 list \<Rightarrow> bytes \<Rightarrow> u64 \<Rightarrow> nat \<Rightarrow> cmp_op \<Rightarrow> bytes \<Rightarrow> bytes \<Rightarrow> cmp_error + bytes \<times> bytes" where
  "dispatch_cmp_i64_scalar rt lhs_data lhs_valid rhs n_rows op =
     dispatch_cmp_cs rt cmp_i64_kernels_cs (entry_point_i64_cs op) lhs_data lhs_valid rhs n_rows"

definition dispatch_cmp_f64 ::
  "runtime \<Rightarrow> f64 list \<Rightarrow> bytes \<Rightarrow> f64 list \<Rightarrow> bytes \<Rightarrow> nat \<Rightarrow> cmp_op \<Rightarrow> bytes \<Rightarrow> bytes \<Rightarrow> cmp_error + bytes \<times> bytes" where
  "dispatch_cmp_f64 rt lhs_data lhs_valid rhs_data rhs_valid n_rows op =
     dispatch_cmp_cc rt cmp_f64_kernels_cc (entry_point_f64_cc op) lhs_data lhs_valid rhs_data rhs_valid n_rows"

definition dispatch_cmp_f64_scalar ::
  "runtime \<Rightarrow> f64 list \<Rightarrow> bytes \<Rightarrow> f64 \<Rightarrow> nat \<Rightarrow> cmp_op \<Rightarrow> bytes \<Rightarrow> bytes \<Rightarrow> cmp_error + bytes \<times> bytes" where
  "dispatch_cmp_f64_scalar rt lhs_data lhs_valid rhs n_rows op =
     dispatch_cmp_cs rt cmp_f64_kernels_cs (entry_point_f64_cs op) lhs_data lhs_valid rhs n_rows"

section \<open>The Python entry points\<close>

datatype compare_error =
    UnknownCompareOp string
  | CompareBuffer buffer_error
  | CompareDispatch cmp_error

definition parse_compare_op :: "string \<Rightarrow> compare_error + cmp_op" where
  "parse_compare_op s =
     (if s = ''Eq'' then Inr OpEq else if s = ''Ne'' then Inr OpNe else if s = ''Lt'' then Inr OpLt
      else if s = ''Le'' then Inr OpLe else if s = ''Gt'' then Inr OpGt else if s = ''Ge'' then Inr OpGe
      else Inl (UnknownCompareOp s))"

definition lift_cmp :: "('e \<Rightarrow> compare_error) \<Rightarrow> 'e + 'a \<Rightarrow> compare_error + 'a" where
  "lift_cmp wrap r = (case r of Inl e \<Rightarrow> Inl (wrap e) | Inr x \<Rightarrow> Inr x)"

text \<open>A slice of \<open>n_rows\<close> eight-byte values taken from a buffer that is too short is undefined behaviour: \<open>None\<close>.\<close>

definition slice8 :: "bytes \<Rightarrow> usize \<Rightarrow> u64 list option" where
  "slice8 data n_rows = (if 8 * unat n_rows \<le> length data then Some (typed_view 8 data (unat n_rows)) else None)"

definition cmp_col_scalar ::
  "(u64 list \<Rightarrow> bytes \<Rightarrow> u64 \<Rightarrow> nat \<Rightarrow> cmp_op \<Rightarrow> bytes \<Rightarrow> bytes \<Rightarrow> cmp_error + bytes \<times> bytes) \<Rightarrow>
     bytes \<Rightarrow> bytes \<Rightarrow> u64 \<Rightarrow> string \<Rightarrow> usize \<Rightarrow> (compare_error + bytes \<times> bytes) option" where
  "cmp_col_scalar dispatch lhs_data lhs_valid rhs op n_rows =
     (case rbind (parse_compare_op op) (\<lambda>op_enum.
           rbind (lift_cmp CompareBuffer (check_numeric_buffers lhs_data lhs_valid n_rows 8)) (\<lambda>_. Inr op_enum)) of
        Inl e \<Rightarrow> Some (Inl e)
      | Inr op_enum \<Rightarrow>
          Option.bind (slice8 lhs_data n_rows) (\<lambda>lhs_slice.
            let min_out = cmp_out_min_bytes (unat n_rows)
            in Some (lift_cmp CompareDispatch
                 (dispatch lhs_slice lhs_valid rhs (unat n_rows) op_enum (replicate min_out 0) (replicate min_out 0)))))"

definition cmp_col_col ::
  "(u64 list \<Rightarrow> bytes \<Rightarrow> u64 list \<Rightarrow> bytes \<Rightarrow> nat \<Rightarrow> cmp_op \<Rightarrow> bytes \<Rightarrow> bytes \<Rightarrow> cmp_error + bytes \<times> bytes) \<Rightarrow>
     bytes \<Rightarrow> bytes \<Rightarrow> bytes \<Rightarrow> bytes \<Rightarrow> string \<Rightarrow> usize \<Rightarrow> (compare_error + bytes \<times> bytes) option" where
  "cmp_col_col dispatch lhs_data lhs_valid rhs_data rhs_valid op n_rows =
     (case rbind (parse_compare_op op) (\<lambda>op_enum.
           rbind (lift_cmp CompareBuffer (check_numeric_buffers lhs_data lhs_valid n_rows 8)) (\<lambda>_.
           rbind (lift_cmp CompareBuffer (check_numeric_buffers rhs_data rhs_valid n_rows 8)) (\<lambda>_. Inr op_enum))) of
        Inl e \<Rightarrow> Some (Inl e)
      | Inr op_enum \<Rightarrow>
          Option.bind (slice8 lhs_data n_rows) (\<lambda>lhs_slice.
          Option.bind (slice8 rhs_data n_rows) (\<lambda>rhs_slice.
            let min_out = cmp_out_min_bytes (unat n_rows)
            in Some (lift_cmp CompareDispatch
                 (dispatch lhs_slice lhs_valid rhs_slice rhs_valid (unat n_rows) op_enum (replicate min_out 0) (replicate min_out 0))))))"

definition cmp_i64_col_scalar :: "runtime \<Rightarrow> bytes \<Rightarrow> bytes \<Rightarrow> u64 \<Rightarrow> string \<Rightarrow> usize \<Rightarrow> (compare_error + bytes \<times> bytes) option" where
  "cmp_i64_col_scalar rt = cmp_col_scalar (dispatch_cmp_i64_scalar rt)"

definition cmp_f64_col_scalar :: "runtime \<Rightarrow> bytes \<Rightarrow> bytes \<Rightarrow> f64 \<Rightarrow> string \<Rightarrow> usize \<Rightarrow> (compare_error + bytes \<times> bytes) option" where
  "cmp_f64_col_scalar rt = cmp_col_scalar (dispatch_cmp_f64_scalar rt)"

definition cmp_i64_col_col :: "runtime \<Rightarrow> bytes \<Rightarrow> bytes \<Rightarrow> bytes \<Rightarrow> bytes \<Rightarrow> string \<Rightarrow> usize \<Rightarrow> (compare_error + bytes \<times> bytes) option" where
  "cmp_i64_col_col rt = cmp_col_col (dispatch_cmp_i64 rt)"

definition cmp_f64_col_col :: "runtime \<Rightarrow> bytes \<Rightarrow> bytes \<Rightarrow> bytes \<Rightarrow> bytes \<Rightarrow> string \<Rightarrow> usize \<Rightarrow> (compare_error + bytes \<times> bytes) option" where
  "cmp_f64_col_col rt = cmp_col_col (dispatch_cmp_f64 rt)"

section \<open>The kernels row by row\<close>

interpretation cmp_cc: row_writer "cmp_kernel_cc f lhs lv rhs rv n" "unat n"
  "\<lambda>r. get_valid lv r \<and> get_valid rv r \<and> f (lhs ! r) (rhs ! r)" "\<lambda>r. get_valid lv r \<and> get_valid rv r"
  for f lhs lv rhs rv n
  by unfold_locales (simp add: cmp_kernel_cc_def row_bit_def or_bit_def Let_def)

interpretation cmp_cs: row_writer "cmp_kernel_cs f lhs lv rhs n" "unat n"
  "\<lambda>r. get_valid lv r \<and> f (lhs ! r) rhs" "get_valid lv"
  for f lhs lv rhs n
  by unfold_locales (simp add: cmp_kernel_cs_def row_bit_def or_bit_def)

lemma out_min_bytes_eq: "out_min_bytes n = cmp_out_min_bytes n"
  by (simp add: out_min_bytes_def cmp_out_min_bytes_def)

text \<open>What a nullable comparison column holds.\<close>

definition compared :: "nat \<Rightarrow> (nat \<Rightarrow> bool) \<Rightarrow> (nat \<Rightarrow> bool) \<Rightarrow> bytes \<times> bytes \<Rightarrow> bool" where
  "compared n V D out \<longleftrightarrow> (case out of (data, valid) \<Rightarrow>
     length data = cmp_out_min_bytes n \<and> length valid = cmp_out_min_bytes n \<and>
     (\<forall>r. get_valid valid r \<longleftrightarrow> r < n \<and> V r) \<and> (\<forall>r. get_valid data r \<longleftrightarrow> r < n \<and> V r \<and> D r))"

lemma cmp_launch_rows:
  assumes rt: "lawful_order rt" and n: "n < 2 ^ 32" and f: "map_of kernels kname = Some f"
    and rows: "\<And>k. n \<le> 32 * k \<Longrightarrow> schedule_ok n (order rt kname n) \<Longrightarrow>
      \<exists>d v. foldl (thread f (of_nat n)) (replicate k 0, replicate k 0) (order rt kname n) = (d, v) \<and> length d = k \<and> length v = k \<and>
        (\<forall>r. get_valid (words_le d) r \<longleftrightarrow> r < n \<and> V r \<and> D r) \<and> (\<forall>r. get_valid (words_le v) r \<longleftrightarrow> r < n \<and> V r)"
  shows "\<exists>out. cmp_launch rt kernels kname thread n (replicate (cmp_out_min_bytes n) 0) (replicate (cmp_out_min_bytes n) 0) = Inr out \<and>
    compared n V D out"
proof (cases "n = 0")
  case True
  then show ?thesis by (simp add: cmp_launch_def out_min_bytes_eq copy_back_def compared_def Let_def)
next
  case False
  obtain d v where run: "foldl (thread f (of_nat n)) (replicate (cmp_out_min_bytes n div 4) 0, replicate (cmp_out_min_bytes n div 4) 0)
        (order rt kname n) = (d, v)"
    and len: "length d = cmp_out_min_bytes n div 4" "length v = cmp_out_min_bytes n div 4"
    and bits: "\<forall>r. get_valid (words_le d) r \<longleftrightarrow> r < n \<and> V r \<and> D r" "\<forall>r. get_valid (words_le v) r \<longleftrightarrow> r < n \<and> V r"
    using rows[OF padded_covers] rt unfolding lawful_order_def by blast
  with False f n show ?thesis
    by (simp add: cmp_launch_def out_min_bytes_eq copy_back_def compared_def words_le_length padded_words u32_max_def Let_def)
qed

lemma get_valid_rows: "r < n \<Longrightarrow> get_valid (take ((n + 7) div 8) bs) r \<longleftrightarrow> get_valid bs r"
  using div_ceil_8_bounds(1)[of n] unfolding div_ceil_8 by (intro get_valid_take) linarith

lemma cmp_cc_rows:
  assumes rt: "lawful_order rt" and n: "n < 2 ^ 32" and f: "map_of kernels kname = Some f"
    and args: "length lhs = n" "length rhs = n" "div_ceil n 8 \<le> length lv" "div_ceil n 8 \<le> length rv"
  shows "\<exists>out. dispatch_cmp_cc rt kernels kname lhs lv rhs rv n (replicate (cmp_out_min_bytes n) 0) (replicate (cmp_out_min_bytes n) 0) = Inr out \<and>
    compared n (\<lambda>r. get_valid lv r \<and> get_valid rv r) (\<lambda>r. f (lhs ! r) (rhs ! r)) out"
proof -
  let ?m = "(n + 7) div 8"
  have u: "unat (of_nat n :: u32) = n" using n by (simp add: unat_of_nat)
  have "\<exists>out. cmp_launch rt kernels kname (\<lambda>f. cmp_kernel_cc f lhs (take ?m lv) rhs (take ?m rv)) n
      (replicate (cmp_out_min_bytes n) 0) (replicate (cmp_out_min_bytes n) 0) = Inr out \<and>
    compared n (\<lambda>r. get_valid lv r \<and> get_valid rv r) (\<lambda>r. f (lhs ! r) (rhs ! r)) out"
  proof (rule cmp_launch_rows[OF rt n f])
    fix k assume "n \<le> 32 * k" "schedule_ok n (order rt kname n)"
    with cmp_cc.rows[of "of_nat n" _ k f lhs "take ?m lv" rhs "take ?m rv"]
    show "\<exists>d v. foldl (cmp_kernel_cc f lhs (take ?m lv) rhs (take ?m rv) (of_nat n)) (replicate k 0, replicate k 0) (order rt kname n) = (d, v) \<and>
        length d = k \<and> length v = k \<and>
        (\<forall>r. get_valid (words_le d) r \<longleftrightarrow> r < n \<and> (get_valid lv r \<and> get_valid rv r) \<and> f (lhs ! r) (rhs ! r)) \<and>
        (\<forall>r. get_valid (words_le v) r \<longleftrightarrow> r < n \<and> (get_valid lv r \<and> get_valid rv r))"
      unfolding u by (metis get_valid_rows)
  qed
  with args show ?thesis
    by (simp add: dispatch_cmp_cc_def valid_check_def cmp_out_checks_def out_min_bytes_eq div_ceil_8 Let_def)
qed

lemma cmp_cs_rows:
  assumes rt: "lawful_order rt" and n: "n < 2 ^ 32" and f: "map_of kernels kname = Some f"
    and args: "length lhs = n" "div_ceil n 8 \<le> length lv"
  shows "\<exists>out. dispatch_cmp_cs rt kernels kname lhs lv rhs n (replicate (cmp_out_min_bytes n) 0) (replicate (cmp_out_min_bytes n) 0) = Inr out \<and>
    compared n (get_valid lv) (\<lambda>r. f (lhs ! r) rhs) out"
proof -
  let ?m = "(n + 7) div 8"
  have u: "unat (of_nat n :: u32) = n" using n by (simp add: unat_of_nat)
  have "\<exists>out. cmp_launch rt kernels kname (\<lambda>f. cmp_kernel_cs f lhs (take ?m lv) rhs) n
      (replicate (cmp_out_min_bytes n) 0) (replicate (cmp_out_min_bytes n) 0) = Inr out \<and> compared n (get_valid lv) (\<lambda>r. f (lhs ! r) rhs) out"
  proof (rule cmp_launch_rows[OF rt n f])
    fix k assume "n \<le> 32 * k" "schedule_ok n (order rt kname n)"
    with cmp_cs.rows[of "of_nat n" _ k f lhs "take ?m lv" rhs]
    show "\<exists>d v. foldl (cmp_kernel_cs f lhs (take ?m lv) rhs (of_nat n)) (replicate k 0, replicate k 0) (order rt kname n) = (d, v) \<and>
        length d = k \<and> length v = k \<and>
        (\<forall>r. get_valid (words_le d) r \<longleftrightarrow> r < n \<and> get_valid lv r \<and> f (lhs ! r) rhs) \<and>
        (\<forall>r. get_valid (words_le v) r \<longleftrightarrow> r < n \<and> get_valid lv r)"
      unfolding u by (metis get_valid_rows)
  qed
  with args show ?thesis
    by (simp add: dispatch_cmp_cs_def valid_check_def cmp_out_checks_def out_min_bytes_eq div_ceil_8 Let_def)
qed

section \<open>The order of doubles\<close>

text \<open>An operator over the integers, and over doubles as IEEE 754 has it: nothing but \<open>Ne\<close> holds of a NaN, and the
  two zeros are equal.\<close>

definition order_holds :: "cmp_op \<Rightarrow> int \<Rightarrow> int \<Rightarrow> bool" where
  "order_holds op x y = (case op of OpEq \<Rightarrow> x = y | OpNe \<Rightarrow> x \<noteq> y | OpLt \<Rightarrow> x < y | OpLe \<Rightarrow> x \<le> y | OpGt \<Rightarrow> y < x | OpGe \<Rightarrow> y \<le> x)"

definition ieee_holds :: "cmp_op \<Rightarrow> f64 \<Rightarrow> f64 \<Rightarrow> bool" where
  "ieee_holds op x y =
     (if is_nan f64_infinity x \<or> is_nan f64_infinity y then op = OpNe else order_holds op (fval x) (fval y))"

lemma uint_take_bit: "uint (take_bit n (x :: u64)) = uint x mod 2 ^ n"
  by (subst unsigned_take_bit_eq) (rule take_bit_eq_mod)

lemma uint_drop_bit: "uint (drop_bit n (x :: u64)) = uint x div 2 ^ n"
proof -
  have "take_bit LENGTH(64) (uint x) = uint x" using uint_lt2p[of x] by (intro take_bit_int_eq_self) simp_all
  then show ?thesis by (subst unsigned_drop_bit_eq) (simp only: drop_bit_eq_div)
qed

lemma fmag_take_bit: "fmag (x :: u64) = take_bit 63 x"
  by (simp add: fmag_def take_bit_eq_mask)

lemma uint_fmag: "uint (fmag (x :: u64)) = uint x mod 2 ^ 63"
  unfolding fmag_take_bit by (rule uint_take_bit)

lemma fneg_iff: "fneg (x :: u64) \<longleftrightarrow> 2 ^ 63 \<le> uint x"
proof -
  have "fneg x \<longleftrightarrow> odd (uint x div 2 ^ 63)"
    using bit_iff_odd[of "uint x" 63] by (simp add: fneg_def bit_uint_iff)
  moreover have "uint x div 2 ^ 63 = (if 2 ^ 63 \<le> uint x then 1 else 0)"
    using uint_lt2p[of x] uint_ge_0[of x] by (auto simp: int_div_pos_eq zdiv_eq_0_iff)
  ultimately show ?thesis by simp
qed

lemma uint_parts: "uint (x :: u64) = uint (fmag x) + (if fneg x then 2 ^ 63 else 0)"
proof (cases "fneg x")
  case True
  then have "(uint x - 2 ^ 63) mod 2 ^ 63 = uint x - 2 ^ 63"
    using uint_lt2p[of x] by (intro mod_pos_pos_trivial) (simp_all add: fneg_iff)
  with True show ?thesis by (simp add: uint_fmag)
next
  case False
  then have "uint x mod 2 ^ 63 = uint x" by (intro mod_pos_pos_trivial) (simp_all add: fneg_iff)
  with False show ?thesis by (simp add: uint_fmag)
qed

lemma fmag_bounds: "0 \<le> uint (fmag (x :: u64))" "uint (fmag x) < 2 ^ 63"
  unfolding uint_fmag by simp_all

lemma nan_split:
  fixes x :: int
  assumes "0 \<le> x"
  shows "2047 * 2 ^ 52 < x mod 2 ^ 63 \<longleftrightarrow> x div 2 ^ 52 mod 2 ^ 11 = 2047 \<and> x mod 2 ^ 52 \<noteq> 0"
proof -
  define e m where "e = x div 2 ^ 52 mod 2 ^ 11" and "m = x mod 2 ^ 52"
  have "x mod 2 ^ 63 = x mod (2 ^ 52 * 2 ^ 11)" by simp
  also have "\<dots> = m + 2 ^ 52 * e" unfolding e_def m_def by (subst zmod_zmult2_eq) simp_all
  finally have x: "x mod 2 ^ 63 = m + 2 ^ 52 * e" .
  have "0 \<le> m" "m < 2 ^ 52" "e < 2 ^ 11" by (simp_all add: e_def m_def)
  then show ?thesis unfolding x e_def[symmetric] m_def[symmetric] by auto
qed

lemma f64_is_nan_iff: "f64_is_nan x \<longleftrightarrow> is_nan f64_infinity x"
proof -
  have "0x7FF = (mask 11 :: u64)" "0x000FFFFFFFFFFFFF = (mask 52 :: u64)" by (simp_all add: mask_eq_exp_minus_1)
  then have parts: "drop_bit 52 x AND 0x7FF = take_bit 11 (drop_bit 52 x)" "x AND 0x000FFFFFFFFFFFFF = take_bit 52 x"
    by (simp_all add: take_bit_eq_mask)
  have "f64_is_nan x \<longleftrightarrow> uint (take_bit 11 (drop_bit 52 x)) = 2047 \<and> uint (take_bit 52 x) \<noteq> 0"
    unfolding f64_is_nan_def Let_def parts by (simp add: word_uint_eq_iff)
  also have "\<dots> \<longleftrightarrow> uint x div 2 ^ 52 mod 2 ^ 11 = 2047 \<and> uint x mod 2 ^ 52 \<noteq> 0"
    unfolding uint_take_bit uint_drop_bit ..
  also have "\<dots> \<longleftrightarrow> 2047 * 2 ^ 52 < uint x mod 2 ^ 63"
    by (rule nan_split[symmetric]) simp
  finally show ?thesis by (simp add: is_nan_def word_less_def uint_fmag f64_infinity_def)
qed

lemma uint_total_order_key:
  "uint (f64_total_order_key x) = (if fneg x then 2 ^ 63 - 1 - uint (fmag x) else 2 ^ 63 + uint (fmag x))"
proof -
  have sign: "drop_bit 63 x = 0 \<longleftrightarrow> \<not> fneg x"
  proof -
    have "drop_bit 63 x = 0 \<longleftrightarrow> uint x div 2 ^ 63 = 0"
      unfolding word_uint_eq_iff uint_drop_bit by simp
    then show ?thesis using uint_ge_0[of x] by (auto simp: fneg_iff zdiv_eq_0_iff not_le)
  qed
  show ?thesis
  proof (cases "fneg x")
    case True
    have ones: "0xFFFFFFFFFFFFFFFF = (- 1 :: u64)" by simp
    have "f64_total_order_key x = - 1 - x"
      using True unfolding f64_total_order_key_def Let_def sign ones by (simp add: not_eq_complement)
    then have "f64_total_order_key x = 0xFFFFFFFFFFFFFFFF - x" unfolding ones .
    then have "uint (f64_total_order_key x) = 2 ^ 64 - 1 - uint x"
      using uint_lt2p[of x] uint_ge_0[of x] by (simp add: uint_sub_if')
    with True uint_parts[of x] show ?thesis by simp
  next
    case False
    have "x AND 0x8000000000000000 = 0"
    proof (rule bit_eqI)
      fix i
      have "bit (0x8000000000000000 :: u64) i \<longleftrightarrow> i = 63"
        using bit_exp_iff[of 63 i, where ?'a = "64 word"] by (auto simp: possible_bit_word)
      with False show "bit (x AND 0x8000000000000000) i \<longleftrightarrow> bit (0 :: u64) i"
        by (auto simp: bit_and_iff fneg_def)
    qed
    then have "f64_total_order_key x = x + 0x8000000000000000"
      using False unfolding f64_total_order_key_def Let_def sign by (simp add: disjunctive_add_eq_xor)
    moreover have "uint x < 2 ^ 63" using False by (simp add: fneg_iff)
    ultimately have "uint (f64_total_order_key x) = uint x + 2 ^ 63" by (simp add: uint_plus_if')
    with False uint_parts[of x] show ?thesis by simp
  qed
qed

lemma zero_bits: "(z :: u64) = 0 \<longleftrightarrow> (\<forall>i. \<not> bit z i)"
proof
  assume "\<forall>i. \<not> bit z i"
  then show "z = 0" by (intro bit_eqI) simp
qed simp

lemma shifted_zero: "push_bit 1 (w :: u64) = 0 \<longleftrightarrow> fmag w = 0"
proof -
  have "push_bit 1 w = 0 \<longleftrightarrow> (\<forall>i. \<not> bit (push_bit 1 w) i)" by (rule zero_bits)
  also have "\<dots> \<longleftrightarrow> (\<forall>i < 63. \<not> bit w i)"
  proof (intro iffI allI impI)
    fix i :: nat assume all: "\<forall>i. \<not> bit (push_bit 1 w) i" and i: "i < 63"
    from all have "\<not> bit (push_bit 1 w) (Suc i)" by blast
    with i show "\<not> bit w i" unfolding bit_push_bit_iff by simp
  next
    fix i assume "\<forall>i < 63. \<not> bit w i"
    then show "\<not> bit (push_bit 1 w) i" unfolding bit_push_bit_iff by (cases i) simp_all
  qed
  also have "\<dots> \<longleftrightarrow> (\<forall>i. \<not> bit (fmag w) i)" by (auto simp: fmag_take_bit bit_take_bit_iff)
  also have "\<dots> \<longleftrightarrow> fmag w = 0" by (rule zero_bits[symmetric])
  finally show ?thesis .
qed

lemma both_are_zero_iff: "both_are_zero a b \<longleftrightarrow> fmag a = 0 \<and> fmag b = 0"
proof -
  have "fmag (a OR b) = fmag a OR fmag b" by (simp add: fmag_take_bit)
  then show ?thesis unfolding both_are_zero_def shifted_zero by (simp add: or_eq_0_iff)
qed

lemma zero_fval: "fmag (x :: u64) = 0 \<longleftrightarrow> fval x = 0"
  using word_uint_eq_iff[of "fmag x" 0] by (simp add: fval_def)

lemma signed_eq:
  "0 \<le> m \<Longrightarrow> 0 \<le> (k :: int) \<Longrightarrow> (if s then - m else m) = (if t then - k else k) \<Longrightarrow> (if s then - m else m) \<noteq> 0 \<Longrightarrow>
    s = t \<and> m = k"
  by (auto split: if_splits)

lemma signed_keys:
  assumes "0 \<le> m" "m < 2 ^ 63" "0 \<le> (k :: int)" "k < 2 ^ 63" and "m \<noteq> 0 \<or> k \<noteq> 0"
  shows "(if s then 2 ^ 63 - 1 - m else 2 ^ 63 + m) < (if t then 2 ^ 63 - 1 - k else 2 ^ 63 + k) \<longleftrightarrow>
      (if s then - m else m) < (if t then - k else k)"
    and "(if s then 2 ^ 63 - 1 - m else 2 ^ 63 + m) \<le> (if t then 2 ^ 63 - 1 - k else 2 ^ 63 + k) \<longleftrightarrow>
      (if s then - m else m) \<le> (if t then - k else k)"
  using assms by auto

lemma fval_inj:
  assumes "fval (x :: u64) = fval y" and "fval x \<noteq> 0"
  shows "x = y"
proof -
  have "fneg x = fneg y \<and> uint (fmag x) = uint (fmag y)"
    using assms signed_eq[OF fmag_bounds(1) fmag_bounds(1)] unfolding fval_def by blast
  then have "uint x = uint y" using uint_parts[of x] uint_parts[of y] by simp
  then show ?thesis by (simp add: word_uint_eq_iff)
qed

lemma key_order:
  assumes "\<not> both_are_zero x y"
  shows "f64_total_order_key x < f64_total_order_key y \<longleftrightarrow> fval x < fval y"
    and "f64_total_order_key x \<le> f64_total_order_key y \<longleftrightarrow> fval x \<le> fval y"
proof -
  have nz: "uint (fmag x) \<noteq> 0 \<or> uint (fmag y) \<noteq> 0"
    using assms by (simp add: both_are_zero_iff word_uint_eq_iff)
  show "f64_total_order_key x < f64_total_order_key y \<longleftrightarrow> fval x < fval y"
    "f64_total_order_key x \<le> f64_total_order_key y \<longleftrightarrow> fval x \<le> fval y"
    unfolding word_less_def word_le_def uint_total_order_key fval_def
    by (rule signed_keys[OF fmag_bounds fmag_bounds nz])+
qed

lemma ieee_kernels:
  "f64_eq x y = ieee_holds OpEq x y" "f64_ne x y = ieee_holds OpNe x y" "f64_lt x y = ieee_holds OpLt x y"
  "f64_le x y = ieee_holds OpLe x y" "f64_gt x y = ieee_holds OpGt x y" "f64_ge x y = ieee_holds OpGe x y"
proof -
  have zero: "both_are_zero x y \<longleftrightarrow> fval x = 0 \<and> fval y = 0" "both_are_zero y x \<longleftrightarrow> fval x = 0 \<and> fval y = 0"
    by (auto simp: both_are_zero_iff zero_fval)
  have eq: "x = y \<longleftrightarrow> fval x = fval y" if "\<not> both_are_zero x y"
    using that fval_inj[of x y] by (auto simp: zero)
  note defs = f64_eq_def f64_ne_def f64_lt_def f64_le_def f64_gt_def f64_ge_def ieee_holds_def order_holds_def f64_is_nan_iff
  show "f64_eq x y = ieee_holds OpEq x y" "f64_ne x y = ieee_holds OpNe x y" using eq by (auto simp: defs zero)
  show "f64_lt x y = ieee_holds OpLt x y" "f64_le x y = ieee_holds OpLe x y"
    using key_order[of x y] by (auto simp: defs zero)
  show "f64_gt x y = ieee_holds OpGt x y" "f64_ge x y = ieee_holds OpGe x y"
    using key_order[of y x] by (auto simp: defs zero)
qed

section \<open>The comparison is the comparison\<close>

definition int_holds :: "cmp_op \<Rightarrow> u64 \<Rightarrow> u64 \<Rightarrow> bool" where
  "int_holds op x y = order_holds op (sint x) (sint y)"

lemma int_kernels:
  "(\<lambda>a b. a = b) = int_holds OpEq" "(\<lambda>a b. a \<noteq> b) = int_holds OpNe" "(\<lambda>a b. a <s b) = int_holds OpLt"
  "(\<lambda>a b. a \<le>s b) = int_holds OpLe" "(\<lambda>a b. b <s a) = int_holds OpGt" "(\<lambda>a b. b \<le>s a) = int_holds OpGe"
  by (auto simp: fun_eq_iff int_holds_def order_holds_def word_sless_alt word_sle_eq intro: signed_word_eqI)

lemma double_kernels:
  "f64_eq = ieee_holds OpEq" "f64_ne = ieee_holds OpNe" "f64_lt = ieee_holds OpLt"
  "f64_le = ieee_holds OpLe" "f64_gt = ieee_holds OpGt" "f64_ge = ieee_holds OpGe"
  by (intro ext, rule ieee_kernels)+

lemma kernels_by_name:
  shows "map_of cmp_i64_kernels_cc (entry_point_i64_cc op) = Some (int_holds op)"
    and "map_of cmp_i64_kernels_cs (entry_point_i64_cs op) = Some (int_holds op)"
    and "map_of cmp_f64_kernels_cc (entry_point_f64_cc op) = Some (ieee_holds op)"
    and "map_of cmp_f64_kernels_cs (entry_point_f64_cs op) = Some (ieee_holds op)"
proof -
  show "map_of cmp_i64_kernels_cc (entry_point_i64_cc op) = Some (int_holds op)"
    unfolding cmp_i64_kernels_cc_def entry_point_i64_cc_def by (cases op, simp_all) (rule int_kernels)+
  show "map_of cmp_i64_kernels_cs (entry_point_i64_cs op) = Some (int_holds op)"
    unfolding cmp_i64_kernels_cs_def entry_point_i64_cs_def by (cases op, simp_all) (rule int_kernels)+
  show "map_of cmp_f64_kernels_cc (entry_point_f64_cc op) = Some (ieee_holds op)"
    unfolding cmp_f64_kernels_cc_def double_kernels entry_point_f64_cc_def by (cases op) simp_all
  show "map_of cmp_f64_kernels_cs (entry_point_f64_cs op) = Some (ieee_holds op)"
    unfolding cmp_f64_kernels_cs_def double_kernels entry_point_f64_cs_def by (cases op) simp_all
qed

definition op_wire :: "cmp_op \<Rightarrow> string" where
  "op_wire op = (case op of OpEq \<Rightarrow> ''Eq'' | OpNe \<Rightarrow> ''Ne'' | OpLt \<Rightarrow> ''Lt'' | OpLe \<Rightarrow> ''Le'' | OpGt \<Rightarrow> ''Gt'' | OpGe \<Rightarrow> ''Ge'')"

lemma parse_op_wire [simp]: "parse_compare_op (op_wire op) = Inr op"
  by (cases op) (simp_all add: parse_compare_op_def op_wire_def)

text \<open>The buffers of a numeric column of \<open>n\<close> rows.\<close>

definition numeric_column :: "nat \<Rightarrow> bytes \<Rightarrow> bytes \<Rightarrow> bool" where
  "numeric_column n data valid \<longleftrightarrow> 8 * n \<le> length data \<and> div_ceil n 8 \<le> length valid \<and> length data < 2 ^ 56 \<and> length valid < 2 ^ 56"

lemma numeric_column_checked:
  assumes "numeric_column (unat n_rows) data valid"
  shows "check_numeric_buffers data valid n_rows 8 = Inr ()" and "slice8 data n_rows = Some (typed_view 8 data (unat n_rows))"
proof -
  have n: "8 * unat n_rows \<le> length data" "length data < 2 ^ 56" "div_ceil (unat n_rows) 8 \<le> length valid" "length valid < 2 ^ 56"
    using assms by (simp_all add: numeric_column_def)
  then have "unat (n_rows * 8) = 8 * unat n_rows" "unat ((n_rows + 7) div 8) = div_ceil (unat n_rows) 8"
    by (simp_all add: unat_mult_lem[THEN iffD1] unat_div unat_plus_if' div_ceil_8 mult.commute)
  with n show "check_numeric_buffers data valid n_rows 8 = Inr ()"
    by (simp add: check_numeric_buffers_def word_less_nat_alt unat_of_nat Let_def)
  show "slice8 data n_rows = Some (typed_view 8 data (unat n_rows))" using n(1) by (simp add: slice8_def)
qed

abbreviation wire_num :: "bytes \<Rightarrow> nat \<Rightarrow> u64" where
  "wire_num data r \<equiv> of_le_bytes (row_bytes 8 data r)"

lemma compared_cong:
  "compared n V D out \<Longrightarrow> (\<And>r. r < n \<Longrightarrow> D r = D' r) \<Longrightarrow> compared n V D' out"
  unfolding compared_def by auto

lemma typed_view_row: "r < n \<Longrightarrow> typed_view 8 data n ! r = (wire_num data r)"
  by (simp add: typed_view_def)

lemma col_col_rows:
  assumes rt: "lawful_order rt" and n: "unat n_rows < 2 ^ 32" and f: "map_of kernels (entry op) = Some f"
    and cols: "numeric_column (unat n_rows) lhs lv" "numeric_column (unat n_rows) rhs rv"
    and dispatch: "\<And>l lv r rv n op. dispatch l lv r rv n op = dispatch_cmp_cc rt kernels (entry op) l lv r rv n"
  shows "\<exists>out. cmp_col_col dispatch lhs lv rhs rv (op_wire op) n_rows = Some (Inr out) \<and>
    compared (unat n_rows) (\<lambda>r. get_valid lv r \<and> get_valid rv r) (\<lambda>r. f (wire_num lhs r) (wire_num rhs r)) out"
proof -
  let ?n = "unat n_rows"
  have len: "length (typed_view 8 bs ?n :: u64 list) = ?n" for bs by (simp add: typed_view_def)
  have v: "div_ceil ?n 8 \<le> length lv" "div_ceil ?n 8 \<le> length rv" using cols by (simp_all add: numeric_column_def)
  obtain out where out: "dispatch_cmp_cc rt kernels (entry op) (typed_view 8 lhs ?n) lv (typed_view 8 rhs ?n) rv ?n
      (replicate (cmp_out_min_bytes ?n) 0) (replicate (cmp_out_min_bytes ?n) 0) = Inr out"
    and cmp: "compared ?n (\<lambda>r. get_valid lv r \<and> get_valid rv r) (\<lambda>r. f (typed_view 8 lhs ?n ! r) (typed_view 8 rhs ?n ! r)) out"
    using cmp_cc_rows[OF rt n f len len v] by blast
  have "cmp_col_col dispatch lhs lv rhs rv (op_wire op) n_rows = Some (Inr out)"
    by (simp add: cmp_col_col_def lift_cmp_def numeric_column_checked[OF cols(1)] numeric_column_checked[OF cols(2)] dispatch out)
  moreover have "compared ?n (\<lambda>r. get_valid lv r \<and> get_valid rv r) (\<lambda>r. f (wire_num lhs r) (wire_num rhs r)) out"
    using cmp by (rule compared_cong) (simp add: typed_view_row)
  ultimately show ?thesis by blast
qed

lemma col_scalar_rows:
  assumes rt: "lawful_order rt" and n: "unat n_rows < 2 ^ 32" and f: "map_of kernels (entry op) = Some f"
    and cols: "numeric_column (unat n_rows) lhs lv"
    and dispatch: "\<And>l lv r n op. dispatch l lv r n op = dispatch_cmp_cs rt kernels (entry op) l lv r n"
  shows "\<exists>out. cmp_col_scalar dispatch lhs lv x (op_wire op) n_rows = Some (Inr out) \<and>
    compared (unat n_rows) (get_valid lv) (\<lambda>r. f (wire_num lhs r) x) out"
proof -
  let ?n = "unat n_rows"
  have len: "length (typed_view 8 bs ?n :: u64 list) = ?n" for bs by (simp add: typed_view_def)
  have v: "div_ceil ?n 8 \<le> length lv" using cols by (simp add: numeric_column_def)
  obtain out where out: "dispatch_cmp_cs rt kernels (entry op) (typed_view 8 lhs ?n) lv x ?n
      (replicate (cmp_out_min_bytes ?n) 0) (replicate (cmp_out_min_bytes ?n) 0) = Inr out"
    and cmp: "compared ?n (get_valid lv) (\<lambda>r. f (typed_view 8 lhs ?n ! r) x) out"
    using cmp_cs_rows[OF rt n f len v] by blast
  have "cmp_col_scalar dispatch lhs lv x (op_wire op) n_rows = Some (Inr out)"
    by (simp add: cmp_col_scalar_def lift_cmp_def numeric_column_checked[OF cols] dispatch out)
  moreover have "compared ?n (get_valid lv) (\<lambda>r. f (wire_num lhs r) x) out"
    using cmp by (rule compared_cong) (simp add: typed_view_row)
  ultimately show ?thesis by blast
qed

lemma compare_rows:
  assumes "lawful_order rt" and "unat n_rows < 2 ^ 32"
    and "numeric_column (unat n_rows) lhs lv" and "numeric_column (unat n_rows) rhs rv"
  shows "let n = unat n_rows; both = (\<lambda>r. get_valid lv r \<and> get_valid rv r) in
    (\<exists>out. cmp_i64_col_col rt lhs lv rhs rv (op_wire op) n_rows = Some (Inr out) \<and>
      compared n both (\<lambda>r. int_holds op (wire_num lhs r) (wire_num rhs r)) out) \<and>
    (\<exists>out. cmp_f64_col_col rt lhs lv rhs rv (op_wire op) n_rows = Some (Inr out) \<and>
      compared n both (\<lambda>r. ieee_holds op (wire_num lhs r) (wire_num rhs r)) out) \<and>
    (\<exists>out. cmp_i64_col_scalar rt lhs lv x (op_wire op) n_rows = Some (Inr out) \<and>
      compared n (get_valid lv) (\<lambda>r. int_holds op (wire_num lhs r) x) out) \<and>
    (\<exists>out. cmp_f64_col_scalar rt lhs lv x (op_wire op) n_rows = Some (Inr out) \<and>
      compared n (get_valid lv) (\<lambda>r. ieee_holds op (wire_num lhs r) x) out)"
  unfolding Let_def cmp_i64_col_col_def cmp_f64_col_col_def cmp_i64_col_scalar_def cmp_f64_col_scalar_def
  by (intro conjI col_col_rows[OF assms(1,2) kernels_by_name(1) assms(3,4)] col_col_rows[OF assms(1,2) kernels_by_name(3) assms(3,4)]
      col_scalar_rows[OF assms(1,2) kernels_by_name(2) assms(3)] col_scalar_rows[OF assms(1,2) kernels_by_name(4) assms(3)])
    (rule ext | simp add: dispatch_cmp_i64_def dispatch_cmp_f64_def dispatch_cmp_i64_scalar_def dispatch_cmp_f64_scalar_def)+

text \<open>The four comparison entry points compute, for every order of the kernel's threads, the nullable column
  that compares the rows valid on both sides: signed integers by value, doubles as IEEE 754 does although the
  shader compares bit patterns as integers; rows past the end and null rows hold no bit.\<close>

theorem compare_correct:
  assumes "lawful_order rt" and "unat n_rows < 2 ^ 32"
    and "numeric_column (unat n_rows) lhs lv" and "numeric_column (unat n_rows) rhs rv"
  shows "let n = unat n_rows; both = (\<lambda>r. get_valid lv r \<and> get_valid rv r) in
    (\<exists>out. cmp_i64_col_col rt lhs lv rhs rv (op_wire op) n_rows = Some (Inr out) \<and>
      compared n both (\<lambda>r. int_holds op (wire_num lhs r) (wire_num rhs r)) out) \<and>
    (\<exists>out. cmp_f64_col_col rt lhs lv rhs rv (op_wire op) n_rows = Some (Inr out) \<and>
      compared n both (\<lambda>r. ieee_holds op (wire_num lhs r) (wire_num rhs r)) out) \<and>
    (\<exists>out. cmp_i64_col_scalar rt lhs lv x (op_wire op) n_rows = Some (Inr out) \<and>
      compared n (get_valid lv) (\<lambda>r. int_holds op (wire_num lhs r) x) out) \<and>
    (\<exists>out. cmp_f64_col_scalar rt lhs lv x (op_wire op) n_rows = Some (Inr out) \<and>
      compared n (get_valid lv) (\<lambda>r. ieee_holds op (wire_num lhs r) x) out)"
  by (rule compare_rows[OF assms])

text \<open>Minus zero equals zero, and nothing is less than a NaN.\<close>

lemma compare_correct_witness:
  "\<exists>out. cmp_f64_col_scalar demo_runtime (replicate 7 0 @ [0x80] @ replicate 6 0 @ [0xF8, 0x7F]) [3] 0 ''Eq'' 2 = Some (Inr out) \<and>
    bool_view (fst out) (snd out) 0 = Some True \<and> bool_view (fst out) (snd out) 1 = Some False"
proof -
  let ?col = "replicate 7 0 @ [0x80] @ replicate 6 0 @ [0xF8, 0x7F]"
  have col: "numeric_column (unat 2) ?col [3]" by (simp add: numeric_column_def div_ceil_def)
  have "op_wire OpEq = ''Eq''" by (simp add: op_wire_def)
  then obtain out where out: "cmp_f64_col_scalar demo_runtime ?col [3] 0 ''Eq'' 2 = Some (Inr out)"
    and cmp: "compared (unat (2 :: usize)) (get_valid [3]) (\<lambda>r. ieee_holds OpEq (wire_num ?col r) 0) out"
    using compare_correct[OF demo_runtime_lawful(1) _ col col, of OpEq 0] by (auto simp: Let_def)
  have "wire_num ?col 0 = 0x8000000000000000" "wire_num ?col 1 = 0x7FF8000000000000"
    by code_simp+
  then have "ieee_holds OpEq (wire_num ?col 0) 0" "\<not> ieee_holds OpEq (wire_num ?col 1) 0"
    by (simp_all add: ieee_kernels[symmetric] f64_eq_def f64_is_nan_def both_are_zero_def)
  moreover have "get_valid [3] 0" "get_valid [3] 1" by code_simp+
  ultimately have "bool_view (fst out) (snd out) 0 = Some True \<and> bool_view (fst out) (snd out) 1 = Some False"
    using cmp by (cases out) (simp add: compared_def bool_view_def)
  with out show ?thesis by blast
qed

end
