(* ===== verification/Logical.thy ===== *)
theory Logical
  imports Gpu_Aggs Bitmap_Kernels
begin

text \<open>Models \<open>polars-metal-kernels/src/logical.rs\<close> with its kernels (\<open>shaders/logical_bool.metal\<close>) and the Python
  entry points of \<open>polars-metal-core/src/udf/logical.rs\<close>: conjunction and disjunction of nullable boolean columns.
  The row count comes from the caller, so \<open>n_rows + 7\<close> wraps at 64 bits.\<close>

section \<open>The kernels\<close>

definition write_bits :: "u32 list \<times> u32 list \<Rightarrow> nat \<Rightarrow> bool \<Rightarrow> bool \<Rightarrow> u32 list \<times> u32 list" where
  "write_bits out gid out_data_bit out_valid_bit =
     (if out_valid_bit
      then (if out_data_bit then set_valid_atomic_or (fst out) gid else fst out, set_valid_atomic_or (snd out) gid)
      else out)"

definition bool_and :: "bytes \<Rightarrow> bytes \<Rightarrow> bytes \<Rightarrow> bytes \<Rightarrow> u32 \<Rightarrow> u32 list \<times> u32 list \<Rightarrow> nat \<Rightarrow> u32 list \<times> u32 list" where
  "bool_and lhs_data lhs_valid rhs_data rhs_valid n_rows out gid =
     (if unat n_rows \<le> gid then out
      else let ld = get_valid lhs_data gid; lv = get_valid lhs_valid gid; rd = get_valid rhs_data gid; rv = get_valid rhs_valid gid;
        (out_data_bit, out_valid_bit) =
          (if lv \<and> \<not> ld then (False, True)
           else if rv \<and> \<not> rd then (False, True)
           else if lv \<and> ld \<and> rv \<and> rd then (True, True)
           else (False, False))
        in write_bits out gid out_data_bit out_valid_bit)"

definition bool_or :: "bytes \<Rightarrow> bytes \<Rightarrow> bytes \<Rightarrow> bytes \<Rightarrow> u32 \<Rightarrow> u32 list \<times> u32 list \<Rightarrow> nat \<Rightarrow> u32 list \<times> u32 list" where
  "bool_or lhs_data lhs_valid rhs_data rhs_valid n_rows out gid =
     (if unat n_rows \<le> gid then out
      else let ld = get_valid lhs_data gid; lv = get_valid lhs_valid gid; rd = get_valid rhs_data gid; rv = get_valid rhs_valid gid;
        (out_data_bit, out_valid_bit) =
          (if lv \<and> ld then (True, True)
           else if rv \<and> rd then (True, True)
           else if lv \<and> \<not> ld \<and> rv \<and> \<not> rd then (False, True)
           else (False, False))
        in write_bits out gid out_data_bit out_valid_bit)"

text \<open>A kernel of the shader library, by name.\<close>

definition logical_kernels ::
  "(string \<times> (bytes \<Rightarrow> bytes \<Rightarrow> bytes \<Rightarrow> bytes \<Rightarrow> u32 \<Rightarrow> u32 list \<times> u32 list \<Rightarrow> nat \<Rightarrow> u32 list \<times> u32 list)) list" where
  "logical_kernels = [(''bool_and'', bool_and), (''bool_or'', bool_or)]"

section \<open>The dispatcher\<close>

datatype logical_error =
    LogicalShader string
  | LogicalInputTooShort nat nat usize
  | LogicalOutputTooShort nat nat
  | LogicalRowCount usize

definition in_min_bytes :: "usize \<Rightarrow> nat" where
  "in_min_bytes n_rows = unat ((n_rows + 7) div 8)"

definition logical_out_min_bytes :: "usize \<Rightarrow> nat" where
  "logical_out_min_bytes n_rows = (let raw = unat ((n_rows + 7) div 8); padded = align4 raw in max padded 4)"

definition dispatch_logical ::
  "runtime \<Rightarrow> string \<Rightarrow> bytes \<Rightarrow> bytes \<Rightarrow> bytes \<Rightarrow> bytes \<Rightarrow> usize \<Rightarrow> bytes \<Rightarrow> bytes \<Rightarrow> logical_error + bytes \<times> bytes" where
  "dispatch_logical rt entry_point lhs_data lhs_valid rhs_data rhs_valid n_rows out_data out_valid =
     (let min_in = in_min_bytes n_rows; min_out = logical_out_min_bytes n_rows in
      rbind (rmap (\<lambda>got. ensure (min_in \<le> got) (LogicalInputTooShort got min_in n_rows))
               [length lhs_data, length lhs_valid, length rhs_data, length rhs_valid]) (\<lambda>_.
      rbind (ensure (min_out \<le> length out_data) (LogicalOutputTooShort (length out_data) min_out)) (\<lambda>_.
      rbind (ensure (min_out \<le> length out_valid) (LogicalOutputTooShort (length out_valid) min_out)) (\<lambda>_.
      if n_rows = 0 then Inr (copy_back (replicate min_out 0) out_data, copy_back (replicate min_out 0) out_valid)
      else if u32_max < unat n_rows then Inl (LogicalRowCount n_rows)
      else case map_of logical_kernels entry_point of
          None \<Rightarrow> Inl (LogicalShader entry_point)
        | Some thread \<Rightarrow>
            let fresh = replicate (min_out div 4) 0;
                (data_buf, valid_buf) =
                  foldl (thread (take min_in lhs_data) (take min_in lhs_valid) (take min_in rhs_data) (take min_in rhs_valid) (ucast n_rows))
                    (fresh, fresh) (order rt entry_point (unat n_rows))
            in Inr (copy_back (words_le data_buf) out_data, copy_back (words_le valid_buf) out_valid)))))"

definition dispatch_bool_and ::
  "runtime \<Rightarrow> bytes \<Rightarrow> bytes \<Rightarrow> bytes \<Rightarrow> bytes \<Rightarrow> usize \<Rightarrow> bytes \<Rightarrow> bytes \<Rightarrow> logical_error + bytes \<times> bytes" where
  "dispatch_bool_and rt = dispatch_logical rt ''bool_and''"

definition dispatch_bool_or ::
  "runtime \<Rightarrow> bytes \<Rightarrow> bytes \<Rightarrow> bytes \<Rightarrow> bytes \<Rightarrow> usize \<Rightarrow> bytes \<Rightarrow> bytes \<Rightarrow> logical_error + bytes \<times> bytes" where
  "dispatch_bool_or rt = dispatch_logical rt ''bool_or''"

section \<open>The Python entry points\<close>

datatype logical_py_error = LogicalBuffer buffer_error | LogicalDispatch string logical_error

definition dispatch_logical_py ::
  "runtime \<Rightarrow> bytes \<Rightarrow> bytes \<Rightarrow> bytes \<Rightarrow> bytes \<Rightarrow> usize \<Rightarrow> bool \<Rightarrow> logical_py_error + bytes \<times> bytes" where
  "dispatch_logical_py rt lhs_data lhs_valid rhs_data rhs_valid n_rows is_and =
     (case rmap (\<lambda>(buf, label). check_bitpacked_buffer buf n_rows label)
         [(lhs_data, ''lhs_data''), (lhs_valid, ''lhs_valid''), (rhs_data, ''rhs_data''), (rhs_valid, ''rhs_valid'')] of
        Inl e \<Rightarrow> Inl (LogicalBuffer e)
      | Inr _ \<Rightarrow>
          let min_out = logical_out_min_bytes n_rows;
              out_data = replicate min_out 0;
              out_valid = replicate min_out 0;
              kernel_name = (if is_and then ''bool_and'' else ''bool_or'')
          in case (if is_and then dispatch_bool_and rt lhs_data lhs_valid rhs_data rhs_valid n_rows out_data out_valid
                   else dispatch_bool_or rt lhs_data lhs_valid rhs_data rhs_valid n_rows out_data out_valid) of
               Inl e \<Rightarrow> Inl (LogicalDispatch kernel_name e)
             | Inr out \<Rightarrow> Inr out)"

definition bool_and_dispatch :: "runtime \<Rightarrow> bytes \<Rightarrow> bytes \<Rightarrow> bytes \<Rightarrow> bytes \<Rightarrow> usize \<Rightarrow> logical_py_error + bytes \<times> bytes" where
  "bool_and_dispatch rt lhs_data lhs_valid rhs_data rhs_valid n_rows =
     dispatch_logical_py rt lhs_data lhs_valid rhs_data rhs_valid n_rows True"

definition bool_or_dispatch :: "runtime \<Rightarrow> bytes \<Rightarrow> bytes \<Rightarrow> bytes \<Rightarrow> bytes \<Rightarrow> usize \<Rightarrow> logical_py_error + bytes \<times> bytes" where
  "bool_or_dispatch rt lhs_data lhs_valid rhs_data rhs_valid n_rows =
     dispatch_logical_py rt lhs_data lhs_valid rhs_data rhs_valid n_rows False"

section \<open>Kleene logic\<close>

fun kleene_and :: "bool option \<Rightarrow> bool option \<Rightarrow> bool option" where
  "kleene_and (Some False) _ = Some False"
| "kleene_and _ (Some False) = Some False"
| "kleene_and (Some True) (Some True) = Some True"
| "kleene_and _ _ = None"

fun kleene_or :: "bool option \<Rightarrow> bool option \<Rightarrow> bool option" where
  "kleene_or (Some True) _ = Some True"
| "kleene_or _ (Some True) = Some True"
| "kleene_or (Some False) (Some False) = Some False"
| "kleene_or _ _ = None"

abbreviation row_and :: "bytes \<Rightarrow> bytes \<Rightarrow> bytes \<Rightarrow> bytes \<Rightarrow> nat \<Rightarrow> bool option" where
  "row_and ld lv rd rv r \<equiv> kleene_and (bool_view ld lv r) (bool_view rd rv r)"

abbreviation row_or :: "bytes \<Rightarrow> bytes \<Rightarrow> bytes \<Rightarrow> bytes \<Rightarrow> nat \<Rightarrow> bool option" where
  "row_or ld lv rd rv r \<equiv> kleene_or (bool_view ld lv r) (bool_view rd rv r)"

interpretation and_kernel: row_writer "bool_and ld lv rd rv n" "unat n"
  "\<lambda>r. row_and ld lv rd rv r = Some True" "\<lambda>r. row_and ld lv rd rv r \<noteq> None"
  for ld lv rd rv n
  by unfold_locales (auto simp: bool_and_def write_bits_def row_bit_def or_bit_def bool_view_def Let_def)

interpretation or_kernel: row_writer "bool_or ld lv rd rv n" "unat n"
  "\<lambda>r. row_or ld lv rd rv r = Some True" "\<lambda>r. row_or ld lv rd rv r \<noteq> None"
  for ld lv rd rv n
  by unfold_locales (auto simp: bool_or_def write_bits_def row_bit_def or_bit_def bool_view_def Let_def)

section \<open>The kernels compute Kleene logic\<close>

text \<open>A nullable boolean column of \<open>n\<close> rows in padded buffers.\<close>

definition holds_column :: "nat \<Rightarrow> (nat \<Rightarrow> bool option) \<Rightarrow> bytes \<times> bytes \<Rightarrow> bool" where
  "holds_column n F out \<longleftrightarrow> length (fst out) = cmp_out_min_bytes n \<and> length (snd out) = cmp_out_min_bytes n \<and>
     (\<forall>r. bool_view (fst out) (snd out) r = (if r < n then F r else None))"

definition bool_column :: "nat \<Rightarrow> bytes \<Rightarrow> bytes \<Rightarrow> bool" where
  "bool_column n data valid \<longleftrightarrow> div_ceil n 8 \<le> length data \<and> div_ceil n 8 \<le> length valid \<and> length data < 2 ^ 63 \<and> length valid < 2 ^ 63"

lemma min_bytes_small:
  assumes "unat n_rows < 2 ^ 32"
  shows "in_min_bytes n_rows = div_ceil (unat n_rows) 8" and "logical_out_min_bytes n_rows = cmp_out_min_bytes (unat n_rows)"
proof -
  have "unat ((n_rows + 7) div 8) = (unat n_rows + 7) div 8"
    using assms by (simp add: unat_div unat_plus_if')
  then show "in_min_bytes n_rows = div_ceil (unat n_rows) 8" "logical_out_min_bytes n_rows = cmp_out_min_bytes (unat n_rows)"
    by (simp_all add: in_min_bytes_def logical_out_min_bytes_def cmp_out_min_bytes_def div_ceil_8 Let_def)
qed

lemma bitpacked_checked:
  assumes "unat n_rows < 2 ^ 32" and "div_ceil (unat n_rows) 8 \<le> length buf" and "length buf < 2 ^ 63"
  shows "check_bitpacked_buffer buf n_rows label = Inr ()"
proof -
  have "unat ((n_rows + 7) div 8) \<le> length buf" using min_bytes_small(1)[OF assms(1)] assms(2) by (simp add: in_min_bytes_def)
  with assms(3) show ?thesis by (simp add: check_bitpacked_buffer_def word_less_nat_alt unat_of_nat)
qed

text \<open>A launch of a kernel that writes the rows of \<open>F\<close>, on the trimmed inputs it is given.\<close>

lemma logical_launch:
  assumes rt: "lawful_order rt" and n: "unat n_rows < 2 ^ 32"
    and cols: "bool_column (unat n_rows) ld lv" "bool_column (unat n_rows) rd rv"
    and kernel: "map_of logical_kernels entry = Some thread"
    and rows: "\<And>k. unat n_rows \<le> 32 * k \<Longrightarrow> schedule_ok (unat n_rows) (order rt entry (unat n_rows)) \<Longrightarrow>
      let m = in_min_bytes n_rows; G = (\<lambda>r. F (take m ld) (take m lv) (take m rd) (take m rv) r) in
      \<exists>d v. foldl (thread (take m ld) (take m lv) (take m rd) (take m rv) (ucast n_rows)) (replicate k 0, replicate k 0)
          (order rt entry (unat n_rows)) = (d, v) \<and> length d = k \<and> length v = k \<and>
        (\<forall>r. get_valid (words_le d) r \<longleftrightarrow> r < unat n_rows \<and> G r = Some True) \<and>
        (\<forall>r. get_valid (words_le v) r \<longleftrightarrow> r < unat n_rows \<and> G r \<noteq> None)"
    and trim: "\<And>m r. r < 8 * m \<Longrightarrow> F (take m ld) (take m lv) (take m rd) (take m rv) r = F ld lv rd rv r"
  shows "\<exists>out. dispatch_logical rt entry ld lv rd rv n_rows (replicate (logical_out_min_bytes n_rows) 0)
      (replicate (logical_out_min_bytes n_rows) 0) = Inr out \<and> holds_column (unat n_rows) (F ld lv rd rv) out"
proof -
  let ?n = "unat n_rows" and ?m = "in_min_bytes n_rows"
  have lens: "?m \<le> length ld" "?m \<le> length lv" "?m \<le> length rd" "?m \<le> length rv"
    using cols by (simp_all add: bool_column_def min_bytes_small(1)[OF n])
  note out_min = min_bytes_small(2)[OF n]
  show ?thesis
  proof (cases "n_rows = 0")
    case True
    then show ?thesis using lens
      by (simp add: dispatch_logical_def copy_back_def holds_column_def bool_view_def out_min[unfolded True] Let_def)
  next
    case False
    obtain d v where run: "foldl (thread (take ?m ld) (take ?m lv) (take ?m rd) (take ?m rv) (ucast n_rows))
          (replicate (cmp_out_min_bytes ?n div 4) 0, replicate (cmp_out_min_bytes ?n div 4) 0) (order rt entry ?n) = (d, v)"
      and len: "length d = cmp_out_min_bytes ?n div 4" "length v = cmp_out_min_bytes ?n div 4"
      and bits: "\<forall>r. get_valid (words_le d) r \<longleftrightarrow> r < ?n \<and> F (take ?m ld) (take ?m lv) (take ?m rd) (take ?m rv) r = Some True"
        "\<forall>r. get_valid (words_le v) r \<longleftrightarrow> r < ?n \<and> F (take ?m ld) (take ?m lv) (take ?m rd) (take ?m rv) r \<noteq> None"
      using rows[OF padded_covers] rt unfolding lawful_order_def Let_def by blast
    have "r < 8 * ?m" if "r < ?n" for r
      using that div_ceil_8_bounds(1)[of ?n] by (simp add: min_bytes_small(1)[OF n])
    then have "bool_view (words_le d) (words_le v) r = (if r < ?n then F ld lv rd rv r else None)" for r
      using bits trim[of r ?m] by (auto simp: bool_view_def)
    then have "holds_column ?n (F ld lv rd rv) (words_le d, words_le v)"
      using len by (simp add: holds_column_def words_le_length padded_words)
    moreover have "dispatch_logical rt entry ld lv rd rv n_rows (replicate (logical_out_min_bytes n_rows) 0)
        (replicate (logical_out_min_bytes n_rows) 0) = Inr (words_le d, words_le v)"
      using False n lens kernel run len
      by (simp add: dispatch_logical_def out_min copy_back_def words_le_length padded_words u32_max_def Let_def)
    ultimately show ?thesis by blast
  qed
qed

lemma bool_view_take: "r < 8 * m \<Longrightarrow> bool_view (take m d) (take m v) r = bool_view d v r"
  by (simp add: bool_view_def get_valid_take)

lemma logical_entry:
  assumes n: "unat n_rows < 2 ^ 32"
    and cols: "bool_column (unat n_rows) ld lv" "bool_column (unat n_rows) rd rv"
    and run: "dispatch_logical rt (if is_and then ''bool_and'' else ''bool_or'') ld lv rd rv n_rows
      (replicate (logical_out_min_bytes n_rows) 0) (replicate (logical_out_min_bytes n_rows) 0) = Inr out"
  shows "dispatch_logical_py rt ld lv rd rv n_rows is_and = Inr out"
proof -
  have "check_bitpacked_buffer buf n_rows label = Inr ()" if "buf \<in> {ld, lv, rd, rv}" for buf label
    using that cols by (intro bitpacked_checked[OF n]) (auto simp: bool_column_def)
  then show ?thesis using run
    by (simp add: dispatch_logical_py_def dispatch_bool_and_def dispatch_bool_or_def split: if_splits)
qed

lemma logical_rows:
  assumes "lawful_order rt" and "unat n_rows < 2 ^ 32"
    and "bool_column (unat n_rows) ld lv" and "bool_column (unat n_rows) rd rv"
  shows "(\<exists>out. bool_and_dispatch rt ld lv rd rv n_rows = Inr out \<and>
      holds_column (unat n_rows) (\<lambda>r. kleene_and (bool_view ld lv r) (bool_view rd rv r)) out) \<and>
    (\<exists>out. bool_or_dispatch rt ld lv rd rv n_rows = Inr out \<and>
      holds_column (unat n_rows) (\<lambda>r. kleene_or (bool_view ld lv r) (bool_view rd rv r)) out)"
proof -
  have u: "unat (ucast n_rows :: u32) = unat n_rows" using assms(2) by (simp add: unsigned_ucast_eq take_bit_nat_eq_self)
  obtain out where "dispatch_logical rt ''bool_and'' ld lv rd rv n_rows
      (replicate (logical_out_min_bytes n_rows) 0) (replicate (logical_out_min_bytes n_rows) 0) = Inr out"
    "holds_column (unat n_rows) (row_and ld lv rd rv) out"
    using logical_launch[OF assms, of "''bool_and''" bool_and row_and]
      and_kernel.rows[where n = "ucast n_rows", unfolded u]
    by (auto simp: logical_kernels_def bool_view_take Let_def)
  moreover obtain out' where "dispatch_logical rt ''bool_or'' ld lv rd rv n_rows
      (replicate (logical_out_min_bytes n_rows) 0) (replicate (logical_out_min_bytes n_rows) 0) = Inr out'"
    "holds_column (unat n_rows) (row_or ld lv rd rv) out'"
    using logical_launch[OF assms, of "''bool_or''" bool_or row_or]
      or_kernel.rows[where n = "ucast n_rows", unfolded u]
    by (auto simp: logical_kernels_def bool_view_take Let_def)
  ultimately show ?thesis
    using logical_entry[OF assms(2-4), of rt True] logical_entry[OF assms(2-4), of rt False]
    unfolding bool_and_dispatch_def bool_or_dispatch_def by auto
qed

text \<open>\<open>bool_and\<close> and \<open>bool_or\<close> are Kleene's connectives on nullable booleans, row by row, for every order of
  the kernel's threads: a null is absorbed by a false conjunct or a true disjunct and otherwise propagates.\<close>

theorem logical_correct:
  assumes "lawful_order rt" and "unat n_rows < 2 ^ 32"
    and "bool_column (unat n_rows) ld lv" and "bool_column (unat n_rows) rd rv"
  shows "(\<exists>out. bool_and_dispatch rt ld lv rd rv n_rows = Inr out \<and>
      holds_column (unat n_rows) (\<lambda>r. kleene_and (bool_view ld lv r) (bool_view rd rv r)) out) \<and>
    (\<exists>out. bool_or_dispatch rt ld lv rd rv n_rows = Inr out \<and>
      holds_column (unat n_rows) (\<lambda>r. kleene_or (bool_view ld lv r) (bool_view rd rv r)) out)"
  by (rule logical_rows[OF assms])

text \<open>False and null is false; true and null is null.\<close>

lemma logical_correct_witness:
  "\<exists>out. bool_and_dispatch demo_runtime [0b10] [0b11] [0] [0] 2 = Inr out \<and>
    bool_view (fst out) (snd out) 0 = Some False \<and> bool_view (fst out) (snd out) 1 = None"
proof -
  have "bool_column (unat 2) [0b10] [0b11]" "bool_column (unat 2) [0] [0]" by (simp_all add: bool_column_def div_ceil_def)
  from logical_correct[OF demo_runtime_lawful(1) _ this] obtain out where
    out: "bool_and_dispatch demo_runtime [0b10] [0b11] [0] [0] 2 = Inr out"
    and col: "holds_column 2 (row_and [0b10] [0b11] [0] [0]) out" by auto
  have "row_and [0b10] [0b11] [0] [0] 0 = Some False" "row_and [0b10] [0b11] [0] [0] 1 = None" by code_simp+
  with col have "bool_view (fst out) (snd out) 0 = Some False \<and> bool_view (fst out) (snd out) 1 = None"
    by (simp add: holds_column_def)
  with out show ?thesis by blast
qed

end
