(* ===== verification/Filter_Query.thy ===== *)
theory Filter_Query
  imports Filter_Compact Compare Logical
begin

text \<open>How the entry points of the filter compose: the Python walker evaluates comparisons, joins them with
  \<open>bool_and\<close> or \<open>bool_or\<close> and hands the predicate to \<open>execute_filter_compact\<close>, passing bytes from one to the next.\<close>

lemma padded_bytes: "div_ceil n 8 \<le> cmp_out_min_bytes n" "n < 2 ^ 32 \<Longrightarrow> cmp_out_min_bytes n < 2 ^ 63"
proof -
  show "div_ceil n 8 \<le> cmp_out_min_bytes n"
    using align4_ge[of "(n + 7) div 8"] by (simp add: cmp_out_min_bytes_def div_ceil_8 Let_def)
  assume "n < 2 ^ 32"
  then show "cmp_out_min_bytes n < 2 ^ 63"
    using align4_less[of "(n + 7) div 8"] by (simp add: cmp_out_min_bytes_def Let_def)
qed

lemma compared_view:
  "compared n V D out \<Longrightarrow> r < n \<Longrightarrow> bool_view (fst out) (snd out) r = (if V r then Some (D r) else None)"
  by (auto simp: compared_def bool_view_def split: prod.splits)

lemma compared_column:
  assumes "compared n V D out" and "n < 2 ^ 32"
  shows "bool_column n (fst out) (snd out)"
  using assms padded_bytes[of n] by (auto simp: compared_def bool_column_def split: prod.splits)

lemma holds_row_view: "holds_row data valid r \<longleftrightarrow> bool_view data valid r = Some True"
  by (auto simp: holds_row_def bool_view_def)

lemma kleene_and_True: "kleene_and p q = Some True \<longleftrightarrow> p = Some True \<and> q = Some True"
  by (cases "(p, q)" rule: kleene_and.cases) auto

lemma kleene_or_True: "kleene_or p q = Some True \<longleftrightarrow> p = Some True \<or> q = Some True"
  by (cases "(p, q)" rule: kleene_or.cases) auto

lemma filter_by_column:
  assumes "lawful_order rt" and "lawful_cumsum mlx" and "unat n_rows < 2 ^ 31" and col: "holds_column (unat n_rows) F p"
    and "rmap parse_column (enumerate 0 columns) = Inr cols" and "list_all (filter_column_ok (unat n_rows)) cols"
  shows "\<exists>outs. execute_filter_compact rt mlx (fst p) (snd p) n_rows columns = Some (Inr outs) \<and>
    list_all2 (survivor_column (filter (\<lambda>r. F r = Some True) [0..<unat n_rows])) cols outs"
proof -
  have "filter (holds_row (fst p) (snd p)) [0..<unat n_rows] = filter (\<lambda>r. F r = Some True) [0..<unat n_rows]"
    using col by (intro filter_cong) (simp_all add: holds_row_view holds_column_def)
  moreover have "div_ceil (unat n_rows) 8 \<le> length (fst p)" "div_ceil (unat n_rows) 8 \<le> length (snd p)"
    using col padded_bytes(1)[of "unat n_rows"] by (simp_all add: holds_column_def)
  ultimately show ?thesis using filter_compact_rows[OF assms(1-3) _ _ assms(5,6), of "fst p" "snd p"] by simp
qed

text \<open>C5. A filter on two comparisons, end to end: comparing an integer and a double column with scalars, joining the
  two predicates by \<open>bool_and\<close> (or \<open>bool_or\<close>) and compacting returns exactly the rows on which both (one) hold, in order;
  a row with a null operand counts as not holding. There are fewer than \<open>2 ^ 31\<close> rows, the columns are long enough, and MLX's
  prefix sum adds.\<close>

theorem filter_query_correct:
  fixes op op' :: cmp_op and x y :: u64
  assumes rt: "lawful_order rt" and mlx: "lawful_cumsum mlx" and n: "unat n_rows < 2 ^ 31"
    and a: "numeric_column (unat n_rows) a av" and b: "numeric_column (unat n_rows) b bv"
    and cols: "rmap parse_column (enumerate 0 columns) = Inr cols" "list_all (filter_column_ok (unat n_rows)) cols"
  defines "A \<equiv> \<lambda>r. get_valid av r \<and> int_holds op (wire_num a r) x"
    and "B \<equiv> \<lambda>r. get_valid bv r \<and> ieee_holds op' (wire_num b r) y"
  shows "\<exists>pa pb p q outs outs'.
    cmp_i64_col_scalar rt a av x (op_wire op) n_rows = Some (Inr pa) \<and>
    cmp_f64_col_scalar rt b bv y (op_wire op') n_rows = Some (Inr pb) \<and>
    bool_and_dispatch rt (fst pa) (snd pa) (fst pb) (snd pb) n_rows = Inr p \<and>
    bool_or_dispatch rt (fst pa) (snd pa) (fst pb) (snd pb) n_rows = Inr q \<and>
    execute_filter_compact rt mlx (fst p) (snd p) n_rows columns = Some (Inr outs) \<and>
    execute_filter_compact rt mlx (fst q) (snd q) n_rows columns = Some (Inr outs') \<and>
    list_all2 (survivor_column (filter (\<lambda>r. A r \<and> B r) [0..<unat n_rows])) cols outs \<and>
    list_all2 (survivor_column (filter (\<lambda>r. A r \<or> B r) [0..<unat n_rows])) cols outs'"
proof -
  let ?n = "unat n_rows"
  have n32: "?n < 2 ^ 32" using n by simp
  obtain pa where pa: "cmp_i64_col_scalar rt a av x (op_wire op) n_rows = Some (Inr pa)"
      "compared ?n (get_valid av) (\<lambda>r. int_holds op (wire_num a r) x) pa"
    using compare_rows[OF rt n32 a a, of op x] by (auto simp: Let_def)
  obtain pb where pb: "cmp_f64_col_scalar rt b bv y (op_wire op') n_rows = Some (Inr pb)"
      "compared ?n (get_valid bv) (\<lambda>r. ieee_holds op' (wire_num b r) y) pb"
    using compare_rows[OF rt n32 b b, of op' y] by (auto simp: Let_def)
  obtain p q where
    p: "bool_and_dispatch rt (fst pa) (snd pa) (fst pb) (snd pb) n_rows = Inr p"
      "holds_column ?n (row_and (fst pa) (snd pa) (fst pb) (snd pb)) p"
    and q: "bool_or_dispatch rt (fst pa) (snd pa) (fst pb) (snd pb) n_rows = Inr q"
      "holds_column ?n (row_or (fst pa) (snd pa) (fst pb) (snd pb)) q"
    using logical_rows[OF rt n32 compared_column[OF pa(2) n32] compared_column[OF pb(2) n32]] by auto
  have and_rows: "filter (\<lambda>r. row_and (fst pa) (snd pa) (fst pb) (snd pb) r = Some True) [0..<?n] = filter (\<lambda>r. A r \<and> B r) [0..<?n]"
    by (rule filter_cong) (auto simp: kleene_and_True compared_view[OF pa(2)] compared_view[OF pb(2)] A_def B_def)
  have or_rows: "filter (\<lambda>r. row_or (fst pa) (snd pa) (fst pb) (snd pb) r = Some True) [0..<?n] = filter (\<lambda>r. A r \<or> B r) [0..<?n]"
    by (rule filter_cong) (auto simp: kleene_or_True compared_view[OF pa(2)] compared_view[OF pb(2)] A_def B_def)
  show ?thesis
    using filter_by_column[OF rt mlx n p(2) cols] filter_by_column[OF rt mlx n q(2) cols] pa(1) pb(1) p(1) q(1)
    unfolding and_rows or_rows by blast
qed

lemma filter_query_correct_witness:
  "\<exists>pa pb p outs. cmp_i64_col_scalar demo_runtime (replicate 8 0 @ 5 # replicate 7 0) [3] 1 ''Gt'' 2 = Some (Inr pa) \<and>
    cmp_f64_col_scalar demo_runtime (replicate 8 0 @ replicate 8 0) [3] 0 ''Eq'' 2 = Some (Inr pb) \<and>
    bool_and_dispatch demo_runtime (fst pa) (snd pa) (fst pb) (snd pb) 2 = Inr p \<and>
    execute_filter_compact demo_runtime demo_cumsum (fst p) (snd p) 2 demo_filter_columns = Some (Inr outs) \<and>
    list_all2 (survivor_column [1])
      [(''a'', ''I64'', replicate 8 1 @ replicate 8 2, [3]), (''b'', ''Bool'', [2], [2])] outs"
proof -
  let ?a = "replicate 8 0 @ 5 # replicate 7 0 :: bytes" and ?b = "replicate 8 0 @ replicate 8 0 :: bytes"
  have a: "numeric_column (unat 2) ?a [3]" and b: "numeric_column (unat 2) ?b [3]" by (simp_all add: numeric_column_def div_ceil_def)
  have cs: "lawful_cumsum demo_cumsum" by (simp add: lawful_cumsum_def demo_cumsum_def)
  have cols: "list_all (filter_column_ok (unat (2 :: usize))) [(''a'', ''I64'', replicate 8 1 @ replicate 8 2, [3]), (''b'', ''Bool'', [2], [2])]"
    by (simp add: filter_column_ok_def div_ceil_def)
  have "[0..<unat (2 :: usize)] = [0, 1]" by (simp add: upt_rec)
  moreover have "get_valid [3] 0" "get_valid [3] 1" by code_simp+
  moreover have "wire_num ?a 0 = 0" "wire_num ?a 1 = 5" "wire_num ?b 0 = 0" "wire_num ?b 1 = 0" by code_simp+
  moreover have "\<not> int_holds OpGt 0 1" "int_holds OpGt 5 1" "ieee_holds OpEq 0 0"
    by (simp_all add: int_holds_def ieee_kernels[symmetric] f64_eq_def f64_is_nan_def order_holds_def)
  ultimately have rows: "filter (\<lambda>r. (get_valid [3] r \<and> int_holds OpGt (wire_num ?a r) 1) \<and> (get_valid [3] r \<and> ieee_holds OpEq (wire_num ?b r) 0))
      [0..<unat (2 :: usize)] = [1]" by (simp only: filter.simps simp_thms if_True if_False)
  show ?thesis
    using filter_query_correct[OF demo_runtime_lawful(1) cs _ a b demo_filter_parse cols, where op = OpGt and x = 1 and op' = OpEq and y = 0]
    unfolding rows op_wire_def cmp_op.case by fastforce
qed

end
