(* ===== verification/Plan_Exec.thy ===== *)
theory Plan_Exec
  imports Plan_Wire Compare
begin

text \<open>Models \<open>polars-metal-core/src/udf/predicate.rs\<close> and \<open>udf/mod.rs\<close>: the parser of the dictionaries that carry
  a scan, projection or filter plan and its predicate, and \<open>execute_plan\<close>, which interprets projections on a
  Polars frame. The frame and its \<open>select\<close> method belong to Polars: they are a type and an argument.\<close>

section \<open>Reading Python values\<close>

datatype plan_error =
    KeyError string
  | ExtractError string
  | ColumnEntryType
  | ColumnEntryArity nat
  | UnknownDtypeTag string
  | UnknownCompareTag string
  | UnknownPlanKind string
  | UnsupportedPredicate string

fun extract_usize :: "py_value \<Rightarrow> nat option" where
  "extract_usize (PyInt i) = (if 0 \<le> i \<and> i < 2 ^ 64 then Some (nat i) else None)"
| "extract_usize (PyBool b) = Some (if b then 1 else 0)"
| "extract_usize _ = None"

fun extract_bool :: "py_value \<Rightarrow> bool option" where
  "extract_bool (PyBool b) = Some b" | "extract_bool _ = None"

text \<open>A vector of strings is read from any sequence; a byte string is one, of integers.\<close>

fun extract_strings :: "py_value \<Rightarrow> string list option" where
  "extract_strings (PyListOf xs) = those (map extract_string xs)"
| "extract_strings (PyTupleOf xs) = those (map extract_string xs)"
| "extract_strings (PyByteString bs) = (if bs = [] then Some [] else None)"
| "extract_strings _ = None"

definition field :: "py_dict \<Rightarrow> string \<Rightarrow> plan_error + py_value" where
  "field d key = (case map_of d key of None \<Rightarrow> Inl (KeyError key) | Some v \<Rightarrow> Inr v)"

definition extracted :: "string \<Rightarrow> 'a option \<Rightarrow> plan_error + 'a" where
  "extracted what v = (case v of None \<Rightarrow> Inl (ExtractError what) | Some x \<Rightarrow> Inr x)"

definition typed_field :: "(py_value \<Rightarrow> 'a option) \<Rightarrow> py_dict \<Rightarrow> string \<Rightarrow> plan_error + 'a" where
  "typed_field get d key = rbind (field d key) (\<lambda>v. extracted key (get v))"

fun as_dict :: "py_value \<Rightarrow> py_dict option" where
  "as_dict (PyDictOf d) = Some d" | "as_dict _ = None"

fun as_list :: "py_value \<Rightarrow> py_value list option" where
  "as_list (PyListOf xs) = Some xs" | "as_list _ = None"

definition parse_dtype :: "string \<Rightarrow> plan_error + metal_dtype" where
  "parse_dtype s = (case dtype_from_wire s of None \<Rightarrow> Inl (UnknownDtypeTag s) | Some d \<Rightarrow> Inr d)"

section \<open>Predicates\<close>

fun plan_compare_op :: "cmp_op \<Rightarrow> compare_op" where
  "plan_compare_op OpEq = CEq" | "plan_compare_op OpNe = CNe" | "plan_compare_op OpLt = CLt"
| "plan_compare_op OpLe = CLe" | "plan_compare_op OpGt = CGt" | "plan_compare_op OpGe = CGe"

definition compare_tag :: "string \<Rightarrow> plan_error + compare_op" where
  "compare_tag s = (case parse_compare_op s of Inl _ \<Rightarrow> Inl (UnknownCompareTag s) | Inr op \<Rightarrow> Inr (plan_compare_op op))"

lemma typed_field_dict: "typed_field as_dict d key = Inr d' \<Longrightarrow> map_of d key = Some (PyDictOf d')"
  by (auto simp: typed_field_def field_def extracted_def result_simps split: option.splits elim: as_dict.elims)

abbreviation dict_measure :: "'a \<times> py_dict \<Rightarrow> nat" where
  "dict_measure \<equiv> \<lambda>(fl, d). size_list (size_prod (\<lambda>_. 0) size) d"

lemma typed_field_smaller: "typed_field as_dict d key = Inr d' \<Longrightarrow> ((fl, d'), (fl, d)) \<in> measure dict_measure"
  by (auto dest!: typed_field_dict map_of_size)

function deserialize_predicate :: "(int \<Rightarrow> u64 option) \<Rightarrow> py_dict \<Rightarrow> plan_error + predicate_ast" where
  "deserialize_predicate fl d =
     (case typed_field extract_string d ''kind'' of
        Inl e \<Rightarrow> Inl e
      | Inr kind \<Rightarrow>
          if kind = ''Column'' then
            rbind (typed_field extract_string d ''name'') (\<lambda>name.
            rbind (typed_field extract_string d ''dtype'') (\<lambda>dtype_s.
            rbind (parse_dtype dtype_s) (\<lambda>dtype. Inr (PColumn name dtype))))
          else if kind = ''LiteralI64'' then rbind (typed_field extract_i64 d ''value'') (\<lambda>v. Inr (PLiteralI64 v))
          else if kind = ''LiteralF64'' then rbind (typed_field (extract_f64 fl) d ''value'') (\<lambda>v. Inr (PLiteralF64 v))
          else if kind = ''LiteralBool'' then rbind (typed_field extract_bool d ''value'') (\<lambda>v. Inr (PLiteralBool v))
          else if kind = ''Compare'' then
            (case rbind (typed_field extract_string d ''op'') compare_tag of
               Inl e \<Rightarrow> Inl e
             | Inr op \<Rightarrow>
                 (case typed_field as_dict d ''lhs'' of
                    Inl e \<Rightarrow> Inl e
                  | Inr l \<Rightarrow> rbind (deserialize_predicate fl l) (\<lambda>lhs.
                      case typed_field as_dict d ''rhs'' of
                        Inl e \<Rightarrow> Inl e
                      | Inr r \<Rightarrow> rbind (deserialize_predicate fl r) (\<lambda>rhs. Inr (PCompare op lhs rhs)))))
          else if kind = ''And'' \<or> kind = ''Or'' then
            (case typed_field as_dict d ''lhs'' of
               Inl e \<Rightarrow> Inl e
             | Inr l \<Rightarrow> rbind (deserialize_predicate fl l) (\<lambda>lhs.
                 case typed_field as_dict d ''rhs'' of
                   Inl e \<Rightarrow> Inl e
                 | Inr r \<Rightarrow> rbind (deserialize_predicate fl r) (\<lambda>rhs.
                     Inr (if kind = ''And'' then PAnd lhs rhs else POr lhs rhs))))
          else Inl (UnsupportedPredicate kind))"
  by pat_completeness auto

termination
  by (relation "measure dict_measure") (rule wf_measure typed_field_smaller, assumption?)+

declare deserialize_predicate.simps [simp del]

section \<open>Plans\<close>

definition parse_scan_column :: "py_value \<Rightarrow> plan_error + string \<times> metal_dtype" where
  "parse_scan_column entry =
     (case extract_strings entry of
        None \<Rightarrow> Inl ColumnEntryType
      | Some [name, dtype_s] \<Rightarrow> rbind (parse_dtype dtype_s) (\<lambda>dtype. Inr (name, dtype))
      | Some got \<Rightarrow> Inl (ColumnEntryArity (length got)))"

function deserialize_plan :: "(int \<Rightarrow> u64 option) \<Rightarrow> py_dict \<Rightarrow> plan_error + metal_plan_node" where
  "deserialize_plan fl d =
     (case typed_field extract_string d ''kind'' of
        Inl e \<Rightarrow> Inl e
      | Inr kind \<Rightarrow>
          if kind = ''Scan'' then
            rbind (typed_field extract_usize d ''n_rows'') (\<lambda>n_rows.
            rbind (typed_field as_list d ''columns'') (\<lambda>cols.
            rbind (rmap parse_scan_column cols) (\<lambda>columns. Inr (Scan n_rows columns))))
          else if kind = ''Project'' then
            (case typed_field as_dict d ''input'' of
               Inl e \<Rightarrow> Inl e
             | Inr i \<Rightarrow> rbind (deserialize_plan fl i) (\<lambda>input.
                 rbind (typed_field extract_strings d ''columns'') (\<lambda>cols. Inr (Project input cols))))
          else if kind = ''Filter'' then
            (case typed_field as_dict d ''input'' of
               Inl e \<Rightarrow> Inl e
             | Inr i \<Rightarrow> rbind (deserialize_plan fl i) (\<lambda>input.
                 rbind (typed_field as_dict d ''predicate'') (\<lambda>p.
                 rbind (deserialize_predicate fl p) (\<lambda>predicate. Inr (Filter input predicate)))))
          else Inl (UnknownPlanKind kind))"
  by pat_completeness auto

termination
  by (relation "measure dict_measure") (rule wf_measure typed_field_smaller, assumption?)+

declare deserialize_plan.simps [simp del]

section \<open>Execution\<close>

datatype 'e run_error = PlanError plan_error | SelectError 'e | FilterNotImplemented | GroupByNotImplemented

fun execute_node :: "('df \<Rightarrow> string list \<Rightarrow> 'e + 'df) \<Rightarrow> 'df \<Rightarrow> metal_plan_node \<Rightarrow> 'e run_error + 'df" where
  "execute_node select df (Scan n_rows columns) = Inr df"
| "execute_node select df (Project input columns) =
     rbind (execute_node select df input) (\<lambda>upstream.
       case select upstream columns of Inl e \<Rightarrow> Inl (SelectError e) | Inr out \<Rightarrow> Inr out)"
| "execute_node select df (Filter input predicate) = Inl FilterNotImplemented"
| "execute_node select df (GroupBy input keys aggs) = Inl GroupByNotImplemented"

definition execute_plan ::
  "('df \<Rightarrow> string list \<Rightarrow> 'e + 'df) \<Rightarrow> (int \<Rightarrow> u64 option) \<Rightarrow> 'df \<Rightarrow> py_dict \<Rightarrow> 'e run_error + 'df" where
  "execute_plan select fl df_in plan_dict =
     (case deserialize_plan fl plan_dict of Inl e \<Rightarrow> Inl (PlanError e) | Inr plan \<Rightarrow> execute_node select df_in plan)"

section \<open>The walker's dictionaries\<close>

fun compare_wire :: "compare_op \<Rightarrow> string" where
  "compare_wire CEq = ''Eq''" | "compare_wire CNe = ''Ne''" | "compare_wire CLt = ''Lt''"
| "compare_wire CLe = ''Le''" | "compare_wire CGt = ''Gt''" | "compare_wire CGe = ''Ge''"

text \<open>The tags that the walker prints for a column of a data type. Dates are stored as 32-bit integers; the name
  of strings depends on the version of Polars.\<close>

fun dtype_tags :: "metal_dtype \<Rightarrow> string set" where
  "dtype_tags I64 = {''I64''}" | "dtype_tags F64 = {''F64''}" | "dtype_tags Bool = {''Bool''}"
| "dtype_tags I32 = {''I32'', ''Date''}" | "dtype_tags F32 = {''F32''}" | "dtype_tags I8 = {''I8''}"
| "dtype_tags I16 = {''I16''}" | "dtype_tags U8 = {''U8''}" | "dtype_tags U16 = {''U16''}" | "dtype_tags U32 = {''U32''}"
| "dtype_tags U64 = {''U64''}" | "dtype_tags Utf8 = {''Utf8'', ''String''}"

text \<open>\<open>tag name t\<close> is the tag it chose for a column.\<close>

fun wire_predicate :: "(string \<Rightarrow> metal_dtype \<Rightarrow> string) \<Rightarrow> predicate_ast \<Rightarrow> py_dict" where
  "wire_predicate tag (PColumn name t) = [(''kind'', PyStr ''Column''), (''name'', PyStr name), (''dtype'', PyStr (tag name t))]"
| "wire_predicate tag (PLiteralI64 v) = [(''kind'', PyStr ''LiteralI64''), (''value'', PyInt (sint v))]"
| "wire_predicate tag (PLiteralF64 v) = [(''kind'', PyStr ''LiteralF64''), (''value'', PyFloat v)]"
| "wire_predicate tag (PLiteralBool b) = [(''kind'', PyStr ''LiteralBool''), (''value'', PyBool b)]"
| "wire_predicate tag (PCompare op l r) =
     [(''kind'', PyStr ''Compare''), (''op'', PyStr (compare_wire op)), (''lhs'', PyDictOf (wire_predicate tag l)), (''rhs'', PyDictOf (wire_predicate tag r))]"
| "wire_predicate tag (PAnd l r) = [(''kind'', PyStr ''And''), (''lhs'', PyDictOf (wire_predicate tag l)), (''rhs'', PyDictOf (wire_predicate tag r))]"
| "wire_predicate tag (POr l r) = [(''kind'', PyStr ''Or''), (''lhs'', PyDictOf (wire_predicate tag l)), (''rhs'', PyDictOf (wire_predicate tag r))]"

text \<open>A group-by has no dictionary here: it is parsed by \<open>parse_groupby_plan\<close>.\<close>

fun wire_node :: "(string \<Rightarrow> metal_dtype \<Rightarrow> string) \<Rightarrow> metal_plan_node \<Rightarrow> py_dict" where
  "wire_node tag (Scan n columns) =
     [(''kind'', PyStr ''Scan''), (''n_rows'', PyInt (int n)),
      (''columns'', PyListOf (map (\<lambda>(name, t). PyTupleOf [PyStr name, PyStr (tag name t)]) columns))]"
| "wire_node tag (Project input columns) =
     [(''kind'', PyStr ''Project''), (''input'', PyDictOf (wire_node tag input)), (''columns'', PyListOf (map PyStr columns))]"
| "wire_node tag (Filter input predicate) =
     [(''kind'', PyStr ''Filter''), (''input'', PyDictOf (wire_node tag input)), (''predicate'', PyDictOf (wire_predicate tag predicate))]"
| "wire_node tag (GroupBy input keys aggs) = []"

fun wire_ok :: "metal_plan_node \<Rightarrow> bool" where
  "wire_ok (Scan n columns) \<longleftrightarrow> n < 2 ^ 64"
| "wire_ok (Project input columns) \<longleftrightarrow> wire_ok input"
| "wire_ok (Filter input predicate) \<longleftrightarrow> wire_ok input"
| "wire_ok (GroupBy input keys aggs) \<longleftrightarrow> False"

definition lawful_tags :: "(string \<Rightarrow> metal_dtype \<Rightarrow> string) \<Rightarrow> bool" where
  "lawful_tags tag \<longleftrightarrow> (\<forall>name t. tag name t \<in> dtype_tags t)"

lemma tag_back:
  assumes "lawful_tags tag"
  shows "dtype_from_wire (tag name t) = Some t"
proof -
  have "tag name t \<in> dtype_tags t" using assms by (simp add: lawful_tags_def)
  then show ?thesis by (cases t) (auto simp: dtype_from_wire_def dtype_wire_table_def)
qed

lemma compare_wire_back: "compare_tag (compare_wire op) = Inr op"
  by (cases op) (simp_all add: compare_tag_def parse_compare_op_def)

lemmas field_simps = typed_field_def field_def extracted_def

lemma deserialize_wire_predicate: "lawful_tags tag \<Longrightarrow> deserialize_predicate fl (wire_predicate tag p) = Inr p"
proof (induction p)
  case (PLiteralI64 v)
  have "- (2 ^ 63) \<le> sint v" "sint v < 2 ^ 63" using sint_ge[of v] sint_less[of v] by simp_all
  then show ?case by (simp add: deserialize_predicate.simps field_simps)
next
  case (PCompare op l r)
  then show ?case by (subst deserialize_predicate.simps) (simp add: field_simps compare_wire_back)
next
  case (PAnd l r)
  then show ?case by (subst deserialize_predicate.simps) (simp add: field_simps)
next
  case (POr l r)
  then show ?case by (subst deserialize_predicate.simps) (simp add: field_simps)
qed (simp_all add: deserialize_predicate.simps field_simps parse_dtype_def tag_back)

lemma extract_wire_strings: "extract_strings (PyListOf (map PyStr cs)) = Some cs"
  using those_map_Some [of cs Some "\<lambda>x. x"] by (simp add: o_def)

lemma parse_wire_column: "lawful_tags tag \<Longrightarrow> parse_scan_column (PyTupleOf [PyStr name, PyStr (tag name t)]) = Inr (name, t)"
  by (simp add: parse_scan_column_def parse_dtype_def tag_back)

lemma deserialize_wire_node: "lawful_tags tag \<Longrightarrow> wire_ok p \<Longrightarrow> deserialize_plan fl (wire_node tag p) = Inr p"
proof (induction p)
  case (Scan n columns)
  have "rmap parse_scan_column (map (\<lambda>(name, t). PyTupleOf [PyStr name, PyStr (tag name t)]) columns) = Inr columns"
    using Scan.prems(1) by (simp add: rmap_Inr_iff parse_wire_column split_beta)
  with Scan show ?case by (subst deserialize_plan.simps) (simp add: field_simps)
next
  case (Project input columns)
  then show ?case by (subst deserialize_plan.simps) (simp add: field_simps extract_wire_strings del: extract_strings.simps)
next
  case (Filter input predicate)
  then show ?case by (subst deserialize_plan.simps) (simp add: field_simps deserialize_wire_predicate)
qed simp

text \<open>The projections of a plan, innermost first, when nothing but scans and projections occur.\<close>

fun projections :: "metal_plan_node \<Rightarrow> string list list option" where
  "projections (Scan n columns) = Some []"
| "projections (Project input columns) = map_option (\<lambda>ps. ps @ [columns]) (projections input)"
| "projections (Filter input predicate) = None"
| "projections (GroupBy input keys aggs) = None"

fun select_all :: "('df \<Rightarrow> string list \<Rightarrow> 'e + 'df) \<Rightarrow> 'df \<Rightarrow> string list list \<Rightarrow> 'e run_error + 'df" where
  "select_all select df [] = Inr df"
| "select_all select df (p # ps) = (case select df p of Inl e \<Rightarrow> Inl (SelectError e) | Inr out \<Rightarrow> select_all select out ps)"

lemma select_all_snoc:
  "select_all select df (ps @ [p]) =
    rbind (select_all select df ps) (\<lambda>up. case select up p of Inl e \<Rightarrow> Inl (SelectError e) | Inr out \<Rightarrow> Inr out)"
  by (induction ps arbitrary: df) (simp_all split: sum.split)

lemma execute_node_projections:
  "case projections p of
     Some ps \<Rightarrow> execute_node select df p = select_all select df ps
   | None \<Rightarrow> execute_node select df p \<in> {Inl FilterNotImplemented, Inl GroupByNotImplemented}"
  by (induction p) (auto simp: select_all_snoc split: option.splits)

section \<open>Properties\<close>

text \<open>\<open>execute_plan\<close> on the dictionary of a plan: every scan, projection and filter plan is read back exactly,
  whichever of its tags the walker prints for a data type, a
  chain of projections is applied innermost first and stops at the first error of Polars, and a plan with a
  filter or group-by in its chain is refused without selecting anything.\<close>

theorem execute_plan_correct:
  assumes "wire_ok p" and "lawful_tags tag"
  shows "deserialize_plan fl (wire_node tag p) = Inr p \<and>
    (case projections p of
       Some ps \<Rightarrow> execute_plan select fl df (wire_node tag p) = select_all select df ps
     | None \<Rightarrow> execute_plan select fl df (wire_node tag p) \<in> {Inl FilterNotImplemented, Inl GroupByNotImplemented})"
  using deserialize_wire_node[OF assms(2,1)] execute_node_projections[where p = p and select = select and df = df]
  by (simp add: execute_plan_def split: option.splits)

definition demo_tag :: "string \<Rightarrow> metal_dtype \<Rightarrow> string" where
  "demo_tag name t = (case t of I64 \<Rightarrow> ''I64'' | F64 \<Rightarrow> ''F64'' | Bool \<Rightarrow> ''Bool'' | I32 \<Rightarrow> ''Date'' | F32 \<Rightarrow> ''F32'' | I8 \<Rightarrow> ''I8''
     | I16 \<Rightarrow> ''I16'' | U8 \<Rightarrow> ''U8'' | U16 \<Rightarrow> ''U16'' | U32 \<Rightarrow> ''U32'' | U64 \<Rightarrow> ''U64'' | Utf8 \<Rightarrow> ''String'')"

definition demo_node :: metal_plan_node where
  "demo_node = Project (Project (Scan 3 [(''a'', I64), (''b'', I32)]) [''a'', ''b'']) [''b'']"

lemma execute_plan_correct_witness:
  "execute_plan (\<lambda>df cs. if set cs \<subseteq> set df then Inr cs else Inl ''missing'') (\<lambda>_. None) [''a'', ''b'', ''c''] (wire_node demo_tag demo_node) = Inr [''b'']"
proof -
  have "wire_ok demo_node" "projections demo_node = Some [[''a'', ''b''], [''b'']]" by (simp_all add: demo_node_def)
  moreover have "lawful_tags demo_tag" by (auto simp: lawful_tags_def demo_tag_def split: metal_dtype.split)
  ultimately show ?thesis using execute_plan_correct[of demo_node demo_tag "\<lambda>_. None" "\<lambda>df cs. if set cs \<subseteq> set df then Inr cs else Inl ''missing''" "[''a'', ''b'', ''c'']"] by simp
qed

end
