(* ===== verification/Fusion.thy ===== *)
theory Fusion
  imports Prelude
begin

text \<open>Models expression fusion up to its graph: \<open>polars-metal-core/src/fusion/supported_ops.rs\<close> (the operators and their
  costs), \<open>scope.rs\<close> (the graph the Python analyzer builds), \<open>density.rs\<close> (the routing decision) and \<open>py.rs\<close> (the
  methods Python calls). Indices are 32-bit and the flop estimate is 64-bit, as in the code.\<close>

section \<open>supported\_ops.rs\<close>

datatype (plugins only: size) op_id =
    OAdd | OSub | OMul | ODiv | OMod | OPow | ONeg | OAbs | OSquare | OEq | ONe | OLt | OLe | OGt | OGe | OLogicalAnd
    | OLogicalOr | OLogicalNot | OWhere | OSin | OCos | OTan | OSinh | OCosh | OTanh | OAsin | OAcos | OAtan | OAtan2
    | OLog | OLog2 | OLog10 | OLog1p | OExp | OExp2 | OSqrt | OCbrt | OFloor | OCeil | ORound | OCastF32 | OCastF64 |
    OCastI32 | OCastBool | OSum | OMean | OMin | OMax | OStd | OVar | OArgMin | OArgMax | OSort | OArgPartition |
    OCumSum | OCumProd | OCumMax | OCumMin | OMatMul | OFft | OIfft | OShift | ORowIndex | OTake

datatype dtype_req = ReqF32 | F32OrF64 | ReqBool | Numeric | ListOrArrayF32

datatype dtype_out = SameAsInput | OutBool | OutF32 | ScalarF32 | ComplexF32 | SortedSameAsInput | OutI32

record op_spec =
  n_args :: u32
  flops_per_row :: u32
  input_dtype :: dtype_req
  output_dtype :: dtype_out
  dynamic_flops :: bool
  allows_null :: bool

definition spec :: "u32 \<Rightarrow> u32 \<Rightarrow> dtype_req \<Rightarrow> dtype_out \<Rightarrow> bool \<Rightarrow> op_spec" where
  "spec n flops req out dyn =
     \<lparr>n_args = n, flops_per_row = flops, input_dtype = req, output_dtype = out, dynamic_flops = dyn, allows_null = False\<rparr>"

definition op_spec_of :: "op_id \<Rightarrow> op_spec" where
  "op_spec_of op = (case op of
     OAdd \<Rightarrow> spec 2 1 Numeric SameAsInput False | OSub \<Rightarrow> spec 2 1 Numeric SameAsInput False
   | OMul \<Rightarrow> spec 2 1 Numeric SameAsInput False
   | ODiv \<Rightarrow> spec 2 4 Numeric SameAsInput False
   | OMod \<Rightarrow> spec 2 4 F32OrF64 SameAsInput False
   | OPow \<Rightarrow> spec 2 12 F32OrF64 SameAsInput False
   | ONeg \<Rightarrow> spec 1 1 Numeric SameAsInput False | OAbs \<Rightarrow> spec 1 1 Numeric SameAsInput False
   | OSquare \<Rightarrow> spec 1 1 Numeric SameAsInput False
   | OEq \<Rightarrow> spec 2 1 Numeric OutBool False | ONe \<Rightarrow> spec 2 1 Numeric OutBool False
   | OLt \<Rightarrow> spec 2 1 Numeric OutBool False | OLe \<Rightarrow> spec 2 1 Numeric OutBool False
   | OGt \<Rightarrow> spec 2 1 Numeric OutBool False | OGe \<Rightarrow> spec 2 1 Numeric OutBool False
   | OLogicalAnd \<Rightarrow> spec 2 1 ReqBool OutBool False | OLogicalOr \<Rightarrow> spec 2 1 ReqBool OutBool False
   | OLogicalNot \<Rightarrow> spec 1 1 ReqBool OutBool False
   | OWhere \<Rightarrow> spec 3 1 Numeric SameAsInput False
   | OSin \<Rightarrow> spec 1 10 F32OrF64 SameAsInput False | OCos \<Rightarrow> spec 1 10 F32OrF64 SameAsInput False
   | OTan \<Rightarrow> spec 1 10 F32OrF64 SameAsInput False | OSinh \<Rightarrow> spec 1 10 F32OrF64 SameAsInput False
   | OCosh \<Rightarrow> spec 1 10 F32OrF64 SameAsInput False | OTanh \<Rightarrow> spec 1 10 F32OrF64 SameAsInput False
   | OAsin \<Rightarrow> spec 1 10 F32OrF64 SameAsInput False | OAcos \<Rightarrow> spec 1 10 F32OrF64 SameAsInput False
   | OAtan \<Rightarrow> spec 1 10 F32OrF64 SameAsInput False | OLog \<Rightarrow> spec 1 10 F32OrF64 SameAsInput False
   | OLog2 \<Rightarrow> spec 1 10 F32OrF64 SameAsInput False | OLog10 \<Rightarrow> spec 1 10 F32OrF64 SameAsInput False
   | OLog1p \<Rightarrow> spec 1 10 F32OrF64 SameAsInput False | OExp \<Rightarrow> spec 1 10 F32OrF64 SameAsInput False
   | OExp2 \<Rightarrow> spec 1 10 F32OrF64 SameAsInput False
   | OAtan2 \<Rightarrow> spec 2 12 F32OrF64 SameAsInput False
   | OSqrt \<Rightarrow> spec 1 4 F32OrF64 SameAsInput False | OCbrt \<Rightarrow> spec 1 4 F32OrF64 SameAsInput False
   | OFloor \<Rightarrow> spec 1 1 F32OrF64 SameAsInput False | OCeil \<Rightarrow> spec 1 1 F32OrF64 SameAsInput False
   | ORound \<Rightarrow> spec 1 1 F32OrF64 SameAsInput False
   | OCastF32 \<Rightarrow> spec 1 1 Numeric OutF32 False | OCastF64 \<Rightarrow> spec 1 1 Numeric OutF32 False
   | OCastI32 \<Rightarrow> spec 1 1 Numeric OutF32 False
   | OCastBool \<Rightarrow> spec 1 1 Numeric OutBool False
   | OSum \<Rightarrow> spec 1 1 Numeric ScalarF32 False | OMean \<Rightarrow> spec 1 1 Numeric ScalarF32 False
   | OMin \<Rightarrow> spec 1 1 Numeric ScalarF32 False | OMax \<Rightarrow> spec 1 1 Numeric ScalarF32 False
   | OStd \<Rightarrow> spec 1 3 Numeric ScalarF32 False | OVar \<Rightarrow> spec 1 3 Numeric ScalarF32 False
   | OArgMin \<Rightarrow> spec 1 1 Numeric OutI32 False | OArgMax \<Rightarrow> spec 1 1 Numeric OutI32 False
   | OSort \<Rightarrow> spec 1 0 Numeric SortedSameAsInput True
   | OArgPartition \<Rightarrow> spec 1 0 Numeric OutI32 True
   | OCumSum \<Rightarrow> spec 1 2 Numeric SameAsInput False | OCumProd \<Rightarrow> spec 1 2 Numeric SameAsInput False
   | OCumMax \<Rightarrow> spec 1 2 Numeric SameAsInput False | OCumMin \<Rightarrow> spec 1 2 Numeric SameAsInput False
   | OMatMul \<Rightarrow> spec 2 0 ListOrArrayF32 OutF32 True
   | OFft \<Rightarrow> spec 1 0 ReqF32 ComplexF32 True | OIfft \<Rightarrow> spec 1 0 ReqF32 ComplexF32 True
   | OShift \<Rightarrow> spec 1 1 F32OrF64 SameAsInput False
   | ORowIndex \<Rightarrow> spec 0 0 ReqF32 OutF32 False
   | OTake \<Rightarrow> spec 2 1 Numeric SameAsInput False)"

definition all_op_ids :: "op_id list" where
  "all_op_ids =
    [OAdd, OSub, OMul, ODiv, OMod, OPow, ONeg, OAbs, OSquare, OEq, ONe, OLt, OLe, OGt, OGe, OLogicalAnd, OLogicalOr,
     OLogicalNot, OWhere, OSin, OCos, OTan, OSinh, OCosh, OTanh, OAsin, OAcos, OAtan, OAtan2, OLog, OLog2, OLog10,
     OLog1p, OExp, OExp2, OSqrt, OCbrt, OFloor, OCeil, ORound, OCastF32, OCastF64, OCastI32, OCastBool, OSum, OMean,
     OMin, OMax, OStd, OVar, OArgMin, OArgMax, OSort, OArgPartition, OCumSum, OCumProd, OCumMax, OCumMin, OMatMul,
     OFft, OIfft, OShift, ORowIndex, OTake]"

section \<open>scope.rs\<close>

datatype input_dtype = InF32 | InF64 | InBool | InI32 | InI8 | InI16 | InI64 | InU8 | InU16 | InU32 | InU64 | InArrayF32 nat | InListF32

definition input_element_size :: "input_dtype \<Rightarrow> nat" where
  "input_element_size d = (case d of
     InBool \<Rightarrow> 1 | InI8 \<Rightarrow> 1 | InU8 \<Rightarrow> 1 | InI16 \<Rightarrow> 2 | InU16 \<Rightarrow> 2 | InF32 \<Rightarrow> 4 | InI32 \<Rightarrow> 4 | InU32 \<Rightarrow> 4 | InListF32 \<Rightarrow> 4
   | InF64 \<Rightarrow> 8 | InI64 \<Rightarrow> 8 | InU64 \<Rightarrow> 8 | InArrayF32 n \<Rightarrow> n * 4)"

type_synonym node_idx = u32

record op_node =
  node_op :: op_id
  node_args :: "node_idx list"
  node_param :: "u64 option"

record fusion_scope =
  sc_inputs :: "(string \<times> input_dtype) list"
  sc_ops :: "op_node list"
  sc_outputs :: "node_idx list"

definition new_scope :: fusion_scope where
  "new_scope = \<lparr>sc_inputs = [], sc_ops = [], sc_outputs = []\<rparr>"

definition add_input :: "fusion_scope \<Rightarrow> string \<Rightarrow> input_dtype \<Rightarrow> fusion_scope \<times> node_idx" where
  "add_input sc name dtype = (sc\<lparr>sc_inputs := sc_inputs sc @ [(name, dtype)]\<rparr>, of_nat (length (sc_inputs sc)))"

definition push_op_param :: "fusion_scope \<Rightarrow> op_id \<Rightarrow> node_idx list \<Rightarrow> u64 option \<Rightarrow> fusion_scope \<times> node_idx" where
  "push_op_param sc op args param =
     (sc\<lparr>sc_ops := sc_ops sc @ [\<lparr>node_op = op, node_args = args, node_param = param\<rparr>]\<rparr>,
      of_nat (length (sc_inputs sc)) + of_nat (length (sc_ops sc)))"

definition push_op :: "fusion_scope \<Rightarrow> op_id \<Rightarrow> node_idx list \<Rightarrow> fusion_scope \<times> node_idx" where
  "push_op sc op args =
     (sc\<lparr>sc_ops := sc_ops sc @ [\<lparr>node_op = op, node_args = args, node_param = None\<rparr>]\<rparr>,
      of_nat (length (sc_inputs sc)) + of_nat (length (sc_ops sc)))"

definition mark_output :: "fusion_scope \<Rightarrow> node_idx \<Rightarrow> fusion_scope" where
  "mark_output sc idx = sc\<lparr>sc_outputs := sc_outputs sc @ [idx]\<rparr>"

definition est_flops_for :: "fusion_scope \<Rightarrow> usize \<Rightarrow> u64" where
  "est_flops_for sc n_rows =
     foldl (\<lambda>sum node. let sp = op_spec_of (node_op node) in
       if \<not> dynamic_flops sp then sum + ucast (flops_per_row sp) * n_rows else sum) 0 (sc_ops sc)"

definition terminators :: "op_id list" where
  "terminators = [OSum, OMean, OMin, OMax, OStd, OVar, OArgMin, OArgMax, OSort, OArgPartition, OMatMul, OFft, OIfft]"

definition has_terminator :: "fusion_scope \<Rightarrow> bool" where
  "has_terminator sc = list_ex (\<lambda>node. node_op node \<in> set terminators) (sc_ops sc)"

section \<open>density.rs\<close>

definition min_flops_threshold :: u64 where "min_flops_threshold = 50000000"
definition min_rows_threshold :: usize where "min_rows_threshold = 100000"

datatype cpu_reason = BelowRowsThreshold | BelowFlopsThreshold | EmptyScope

datatype route_decision = RouteGpu | RouteCpu cpu_reason

definition density_routes_gpu :: "fusion_scope \<Rightarrow> usize \<Rightarrow> route_decision" where
  "density_routes_gpu sc n_rows =
     (if sc_ops sc = [] then RouteCpu EmptyScope
      else if n_rows < min_rows_threshold then RouteCpu BelowRowsThreshold
      else if est_flops_for sc n_rows < min_flops_threshold then RouteCpu BelowFlopsThreshold
      else RouteGpu)"

section \<open>py.rs\<close>

datatype scope_error = BadArrayDim string | UnknownInputDtype string | UnknownOpId string | ArityError string u32 nat

text \<open>\<open>trim_start_matches\<close> removes the prefix as often as it occurs, \<open>trim_end_matches\<close> every closing parenthesis.\<close>

fun trim_start :: "nat \<Rightarrow> string \<Rightarrow> string \<Rightarrow> string" where
  "trim_start 0 p s = s"
| "trim_start (Suc fuel) p s = (if p \<noteq> [] \<and> take (length p) s = p then trim_start fuel p (drop (length p) s) else s)"

definition trim_start_matches :: "string \<Rightarrow> string \<Rightarrow> string" where
  "trim_start_matches p s = trim_start (length s) p s"

definition trim_end_parens :: "string \<Rightarrow> string" where
  "trim_end_parens s = rev (dropWhile (\<lambda>c. c = CHR '')'') (rev s))"

definition is_digit :: "char \<Rightarrow> bool" where
  "is_digit c \<longleftrightarrow> 48 \<le> (of_char c :: nat) \<and> (of_char c :: nat) \<le> 57"

definition digits_value :: "string \<Rightarrow> nat" where
  "digits_value s = foldl (\<lambda>v c. 10 * v + (of_char c - 48)) 0 s"

definition parse_usize :: "string \<Rightarrow> nat option" where
  "parse_usize s =
     (let ds = (case s of c # cs \<Rightarrow> if c = CHR ''+'' then cs else s | [] \<Rightarrow> [])
      in if ds \<noteq> [] \<and> list_all is_digit ds \<and> digits_value ds \<le> usize_max then Some (digits_value ds) else None)"

definition input_dtype_names :: "(string \<times> input_dtype) list" where
  "input_dtype_names =
     [(''F32'', InF32), (''F64'', InF64), (''Bool'', InBool), (''I32'', InI32), (''I8'', InI8), (''I16'', InI16), (''I64'', InI64), (''U8'', InU8), (''U16'', InU16), (''U32'', InU32), (''U64'', InU64)]"

definition parse_input_dtype :: "string \<Rightarrow> scope_error + input_dtype" where
  "parse_input_dtype s =
     (case map_of input_dtype_names s of
        Some d \<Rightarrow> Inr d
      | None \<Rightarrow>
          if take 9 s = ''ArrayF32('' then
            (case parse_usize (trim_end_parens (trim_start_matches ''ArrayF32('' s)) of
               None \<Rightarrow> Inl (BadArrayDim s) | Some n \<Rightarrow> Inr (InArrayF32 n))
          else if s = ''ListF32'' then Inr InListF32
          else Inl (UnknownInputDtype s))"

definition op_id_table :: "(string \<times> op_id) list" where
  "op_id_table =
    [(''Add'', OAdd), (''Sub'', OSub), (''Mul'', OMul), (''Div'', ODiv), (''Mod'', OMod), (''Pow'', OPow),
     (''Neg'', ONeg), (''Abs'', OAbs), (''Square'', OSquare), (''Eq'', OEq), (''Ne'', ONe), (''Lt'', OLt),
     (''Le'', OLe), (''Gt'', OGt), (''Ge'', OGe), (''LogicalAnd'', OLogicalAnd), (''LogicalOr'', OLogicalOr),
     (''LogicalNot'', OLogicalNot), (''Where'', OWhere), (''Sin'', OSin), (''Cos'', OCos), (''Tan'', OTan),
     (''Sinh'', OSinh), (''Cosh'', OCosh), (''Tanh'', OTanh), (''Asin'', OAsin), (''Acos'', OAcos), (''Atan'', OAtan),
     (''Atan2'', OAtan2), (''Log'', OLog), (''Log2'', OLog2), (''Log10'', OLog10), (''Log1p'', OLog1p),
     (''Exp'', OExp), (''Exp2'', OExp2), (''Sqrt'', OSqrt), (''Cbrt'', OCbrt), (''Floor'', OFloor), (''Ceil'', OCeil),
     (''Round'', ORound), (''CastF32'', OCastF32), (''CastF64'', OCastF64), (''CastI32'', OCastI32),
     (''CastBool'', OCastBool), (''Sum'', OSum), (''Mean'', OMean), (''Min'', OMin), (''Max'', OMax), (''Std'', OStd),
     (''Var'', OVar), (''ArgMin'', OArgMin), (''ArgMax'', OArgMax), (''Sort'', OSort),
     (''ArgPartition'', OArgPartition), (''CumSum'', OCumSum), (''CumProd'', OCumProd), (''CumMax'', OCumMax),
     (''CumMin'', OCumMin), (''MatMul'', OMatMul), (''Fft'', OFft), (''Ifft'', OIfft), (''Shift'', OShift),
     (''RowIndex'', ORowIndex), (''Take'', OTake)]"

definition op_id_from_str :: "string \<Rightarrow> op_id option" where
  "op_id_from_str s = map_of op_id_table s"

definition py_add_input :: "fusion_scope \<Rightarrow> string \<Rightarrow> string \<Rightarrow> scope_error + fusion_scope \<times> u32" where
  "py_add_input sc name dtype = rbind (parse_input_dtype dtype) (\<lambda>d. Inr (add_input sc name d))"

definition py_push_op :: "fusion_scope \<Rightarrow> string \<Rightarrow> u32 list \<Rightarrow> u64 option \<Rightarrow> scope_error + fusion_scope \<times> u32" where
  "py_push_op sc op_str args param =
     (case op_id_from_str op_str of
        None \<Rightarrow> Inl (UnknownOpId op_str)
      | Some op \<Rightarrow>
          if of_nat (length args) \<noteq> n_args (op_spec_of op) then Inl (ArityError op_str (n_args (op_spec_of op)) (length args))
          else Inr (push_op_param sc op args param))"

definition py_mark_output :: "fusion_scope \<Rightarrow> u32 \<Rightarrow> fusion_scope" where
  "py_mark_output sc idx = mark_output sc idx"

definition py_route_decision :: "fusion_scope \<Rightarrow> usize \<Rightarrow> string" where
  "py_route_decision sc n_rows =
     (case density_routes_gpu sc n_rows of
        RouteGpu \<Rightarrow> ''Gpu''
      | RouteCpu EmptyScope \<Rightarrow> ''Cpu(EmptyScope)''
      | RouteCpu BelowRowsThreshold \<Rightarrow> ''Cpu(BelowRowsThreshold)''
      | RouteCpu BelowFlopsThreshold \<Rightarrow> ''Cpu(BelowFlopsThreshold)'')"

section \<open>The scopes Python can build\<close>

text \<open>The interface: from an empty scope, inputs, operations and outputs are added by the three methods. An argument
  list has fewer than \<open>2 ^ 32\<close> entries (16 GB of indices), so its length survives the cast in the arity check.\<close>

inductive reachable_scope :: "fusion_scope \<Rightarrow> bool" where
  scope_new: "reachable_scope new_scope"
| scope_input: "reachable_scope sc \<Longrightarrow> py_add_input sc name dtype = Inr (sc', idx) \<Longrightarrow> reachable_scope sc'"
| scope_op: "reachable_scope sc \<Longrightarrow> length args < 2 ^ 32 \<Longrightarrow> py_push_op sc op args param = Inr (sc', idx) \<Longrightarrow> reachable_scope sc'"
| scope_output: "reachable_scope sc \<Longrightarrow> reachable_scope (py_mark_output sc idx)"

definition arity_ok :: "op_node \<Rightarrow> bool" where
  "arity_ok node \<longleftrightarrow> length (node_args node) = unat (n_args (op_spec_of (node_op node)))"

lemma py_add_inputE:
  assumes "py_add_input sc name dtype = Inr (sc', idx)"
  obtains d where "sc' = sc\<lparr>sc_inputs := sc_inputs sc @ [(name, d)]\<rparr>" "idx = of_nat (length (sc_inputs sc))"
    "parse_input_dtype dtype = Inr d"
  using assms by (auto simp: py_add_input_def add_input_def result_simps)

lemma py_push_opE:
  assumes "py_push_op sc op_str args param = Inr (sc', idx)"
  obtains op where "op_id_from_str op_str = Some op" "of_nat (length args) = n_args (op_spec_of op)"
    "sc' = sc\<lparr>sc_ops := sc_ops sc @ [\<lparr>node_op = op, node_args = args, node_param = param\<rparr>]\<rparr>"
    "idx = of_nat (length (sc_inputs sc) + length (sc_ops sc))"
  using assms by (auto simp: py_push_op_def push_op_param_def split: option.splits if_splits)

lemma reachable_arity: "reachable_scope sc \<Longrightarrow> list_all arity_ok (sc_ops sc)"
proof (induction rule: reachable_scope.induct)
  case (scope_op sc args op param sc' idx)
  from scope_op(3) obtain k where "sc' = sc\<lparr>sc_ops := sc_ops sc @ [\<lparr>node_op = k, node_args = args, node_param = param\<rparr>]\<rparr>"
    and n: "of_nat (length args) = n_args (op_spec_of k)" by (rule py_push_opE)
  moreover have "unat (of_nat (length args) :: u32) = length args" using scope_op(2) by (simp add: unat_of_nat)
  ultimately show ?case using scope_op.IH by (simp add: arity_ok_def n [symmetric])
qed (auto simp: new_scope_def py_mark_output_def mark_output_def elim!: py_add_inputE)

section \<open>Indices\<close>

text \<open>A node is named by its position: the inputs first, then the operations.\<close>

definition node_at :: "fusion_scope \<Rightarrow> u32 \<Rightarrow> (string \<times> input_dtype) + op_node" where
  "node_at sc idx =
     (if unat idx < length (sc_inputs sc) then Inl (sc_inputs sc ! unat idx)
      else Inr (sc_ops sc ! (unat idx - length (sc_inputs sc))))"

definition n_nodes :: "fusion_scope \<Rightarrow> nat" where
  "n_nodes sc = length (sc_inputs sc) + length (sc_ops sc)"

text \<open>Pushing an operation never moves a node, and the index returned is the new node's, below \<open>2 ^ 32\<close> nodes.\<close>

lemma push_op_index:
  assumes ok: "py_push_op sc op_str args param = Inr (sc', idx)" and small: "n_nodes sc < 2 ^ 32"
  shows "unat idx = n_nodes sc" "n_nodes sc' = Suc (n_nodes sc)"
    "\<exists>op. op_id_from_str op_str = Some op \<and> node_at sc' idx = Inr \<lparr>node_op = op, node_args = args, node_param = param\<rparr>"
    "unat i < n_nodes sc \<Longrightarrow> node_at sc' i = node_at sc i"
proof -
  obtain op where op: "op_id_from_str op_str = Some op"
    and sc': "sc' = sc\<lparr>sc_ops := sc_ops sc @ [\<lparr>node_op = op, node_args = args, node_param = param\<rparr>]\<rparr>"
    and idx: "idx = of_nat (length (sc_inputs sc) + length (sc_ops sc))" using ok by (rule py_push_opE)
  show i: "unat idx = n_nodes sc"
    using small unfolding idx n_nodes_def by (simp only: unat_of_nat) simp
  show "n_nodes sc' = Suc (n_nodes sc)" by (simp add: sc' n_nodes_def)
  show "\<exists>op. op_id_from_str op_str = Some op \<and> node_at sc' idx = Inr \<lparr>node_op = op, node_args = args, node_param = param\<rparr>"
    unfolding node_at_def i by (simp add: sc' op n_nodes_def)
  show "unat i < n_nodes sc \<Longrightarrow> node_at sc' i = node_at sc i"
    by (auto simp: sc' n_nodes_def node_at_def nth_append)
qed

text \<open>Adding an input after an operation renumbers every operation: an index handed out earlier names another node.\<close>

lemma add_input_shifts:
  assumes "py_add_input sc name dtype = Inr (sc', idx)" and "length (sc_inputs sc) \<le> unat i" and "unat i < n_nodes sc"
  shows "node_at sc' i = (if unat i = length (sc_inputs sc) then Inl (sc_inputs sc' ! unat i)
      else Inr (sc_ops sc ! (unat i - length (sc_inputs sc) - 1)))"
  using assms by (elim py_add_inputE) (auto simp: node_at_def n_nodes_def nth_append)

section \<open>The flop estimate\<close>

definition static_flops :: "op_id \<Rightarrow> nat" where
  "static_flops op = (if dynamic_flops (op_spec_of op) then 0 else unat (flops_per_row (op_spec_of op)))"

definition scope_flops :: "fusion_scope \<Rightarrow> nat \<Rightarrow> nat" where
  "scope_flops sc n_rows = sum_list (map (\<lambda>node. static_flops (node_op node) * n_rows) (sc_ops sc))"

lemma static_flops_le: "static_flops op \<le> 12"
  by (cases op) (simp_all add: static_flops_def op_spec_of_def spec_def)

lemma scope_flops_le: "scope_flops sc n \<le> length (sc_ops sc) * (12 * n)"
proof -
  have "sum_list (map (\<lambda>node. static_flops (node_op node) * n) ops) \<le> length ops * (12 * n)" for ops
    by (induction ops) (auto intro: add_mono simp: static_flops_le)
  then show ?thesis by (simp add: scope_flops_def)
qed

lemma unat_ucast_flops: "unat (ucast (x :: u32) :: u64) = unat x"
  by (rule unat_ucast_up) simp

lemma flops_fold:
  fixes n_rows :: usize
  assumes "unat acc + sum_list (map (\<lambda>node. static_flops (node_op node) * unat n_rows) ops) < 2 ^ 64"
  shows "unat (foldl (\<lambda>sum node. let sp = op_spec_of (node_op node) in
       if \<not> dynamic_flops sp then sum + ucast (flops_per_row sp) * n_rows else sum) (acc :: u64) ops) =
     unat acc + sum_list (map (\<lambda>node. static_flops (node_op node) * unat n_rows) ops)"
  using assms
proof (induction ops arbitrary: acc)
  case (Cons node ops)
  let ?sp = "op_spec_of (node_op node)"
  show ?case
  proof (cases "dynamic_flops ?sp")
    case True
    then show ?thesis using Cons by (simp add: static_flops_def)
  next
    case False
    have f: "static_flops (node_op node) = unat (flops_per_row ?sp)" using False by (simp add: static_flops_def)
    have u: "unat (ucast (flops_per_row ?sp) :: u64) = unat (flops_per_row ?sp)"
      by (rule unat_ucast_flops)
    have p: "unat (ucast (flops_per_row ?sp) * n_rows) = static_flops (node_op node) * unat n_rows"
      using Cons.prems unfolding f [symmetric] unat_word_ariths u by simp
    have a: "unat (acc + ucast (flops_per_row ?sp) * n_rows) = unat acc + static_flops (node_op node) * unat n_rows"
      using Cons.prems unfolding unat_word_ariths(1) p by simp
    show ?thesis using Cons.IH [of "acc + ucast (flops_per_row ?sp) * n_rows"] Cons.prems False a by simp
  qed
qed simp

lemma est_flops_exact:
  assumes "scope_flops sc (unat n_rows) < 2 ^ 64"
  shows "unat (est_flops_for sc n_rows) = scope_flops sc (unat n_rows)"
  using flops_fold [of 0 n_rows "sc_ops sc"] assms by (simp add: est_flops_for_def scope_flops_def)

text \<open>The density decision is exact: for a scope whose operations times the rows stay below \<open>2 ^ 60\<close>, the 64-bit
  estimate does not wrap and is the sum of the operations' per-row costs times the rows, and the scope goes to the GPU
  if and only if it has an operation, at least \<open>10 ^ 5\<close> rows and an estimate of at least \<open>5 * 10 ^ 7\<close> flops.\<close>

theorem density_decision_exact:
  assumes "length (sc_ops sc) * unat n_rows < 2 ^ 60"
  shows "unat (est_flops_for sc n_rows) = scope_flops sc (unat n_rows) \<and> scope_flops sc (unat n_rows) < 2 ^ 64 \<and>
    (density_routes_gpu sc n_rows = RouteGpu \<longleftrightarrow>
       sc_ops sc \<noteq> [] \<and> 100000 \<le> unat n_rows \<and> 50000000 \<le> scope_flops sc (unat n_rows))"
proof -
  have b: "scope_flops sc (unat n_rows) < 2 ^ 64"
    using scope_flops_le [of sc "unat n_rows"] assms by simp
  note e = est_flops_exact [OF b]
  have r: "n_rows < min_rows_threshold \<longleftrightarrow> unat n_rows < 100000"
    by (simp add: min_rows_threshold_def word_less_nat_alt)
  have f: "est_flops_for sc n_rows < min_flops_threshold \<longleftrightarrow> scope_flops sc (unat n_rows) < 50000000"
    by (simp add: min_flops_threshold_def word_less_nat_alt e)
  show ?thesis using b e by (auto simp: density_routes_gpu_def r f)
qed

definition demo_scope :: fusion_scope where
  "demo_scope = \<lparr>sc_inputs = [(''x'', InF32)],
     sc_ops = [\<lparr>node_op = OSin, node_args = [0], node_param = None\<rparr>, \<lparr>node_op = OMul, node_args = [1, 0], node_param = None\<rparr>],
     sc_outputs = [2]\<rparr>"

theorem density_decision_exact_witness:
  "unat (est_flops_for demo_scope 10000000) = 110000000 \<and> density_routes_gpu demo_scope 10000000 = RouteGpu"
  using density_decision_exact [of demo_scope 10000000]
  by (simp add: demo_scope_def scope_flops_def static_flops_def op_spec_of_def spec_def)

end
