(* ===== verification/Subgraph.thy ===== *)
theory Subgraph
  imports Fusion Buffers Views
begin

text \<open>Models the MLX subgraph of a fused expression: \<open>polars-metal-core/src/fusion/subgraph.rs\<close> and \<open>udf/fused_expr.rs\<close>
  with the wrappers of \<open>polars-metal-mlx-sys\<close> they call (\<open>array.rs\<close>, \<open>elementwise.rs\<close>, \<open>reduce.rs\<close>, \<open>scan.rs\<close>, \<open>sort.rs\<close>,
  \<open>shape.rs\<close>, \<open>matmul.rs\<close>). The C++ functions behind the bridge and the arrays they make are MLX's: a record of
  functions over an arbitrary type of arrays. Panics are \<open>None\<close>.\<close>

section \<open>array.rs\<close>

datatype mlx_dtype = MF32 | MF64 | MI32 | MBool | MI8 | MI16 | MI64 | MU8 | MU16 | MU32 | MU64

definition mlx_element_size :: "mlx_dtype \<Rightarrow> nat" where
  "mlx_element_size d = (case d of MBool \<Rightarrow> 1 | MI8 \<Rightarrow> 1 | MU8 \<Rightarrow> 1 | MI16 \<Rightarrow> 2 | MU16 \<Rightarrow> 2
     | MF32 \<Rightarrow> 4 | MI32 \<Rightarrow> 4 | MU32 \<Rightarrow> 4 | MF64 \<Rightarrow> 8 | MI64 \<Rightarrow> 8 | MU64 \<Rightarrow> 8)"

definition mlx_tag :: "mlx_dtype \<Rightarrow> u32" where
  "mlx_tag d = (case d of MF32 \<Rightarrow> 0 | MF64 \<Rightarrow> 1 | MI32 \<Rightarrow> 2 | MBool \<Rightarrow> 3 | MI8 \<Rightarrow> 4 | MI16 \<Rightarrow> 5 | MI64 \<Rightarrow> 6
     | MU8 \<Rightarrow> 7 | MU16 \<Rightarrow> 8 | MU32 \<Rightarrow> 9 | MU64 \<Rightarrow> 10)"

datatype mlx_error = MlxRuntime string | MlxUnknownTag u32 | ConstructionFailed | MlxDtypeMismatch

definition mlx_from_tag :: "u32 \<Rightarrow> mlx_error + mlx_dtype" where
  "mlx_from_tag tag =
     (if tag = 0 then Inr MF32 else if tag = 1 then Inr MF64 else if tag = 2 then Inr MI32 else if tag = 3 then Inr MBool
      else if tag = 4 then Inr MI8 else if tag = 5 then Inr MI16 else if tag = 6 then Inr MI64 else if tag = 7 then Inr MU8
      else if tag = 8 then Inr MU16 else if tag = 9 then Inr MU32 else if tag = 10 then Inr MU64 else Inl (MlxUnknownTag tag))"

text \<open>The bridge: an operation by its C++ name, arrays and integer arguments; the constructors, whose \<open>None\<close> is a
  null pointer; what can be read of an array. An exception is its message.\<close>

record 'h mlx =
  mlx_op :: "string \<Rightarrow> 'h list \<Rightarrow> int list \<Rightarrow> string + 'h"
  mlx_view :: "metal_buffer \<Rightarrow> int list \<Rightarrow> u32 \<Rightarrow> string + 'h option"
  mlx_from_f32 :: "u32 list \<Rightarrow> string + 'h option"
  mlx_shape :: "'h \<Rightarrow> nat list"
  mlx_is_f32 :: "'h \<Rightarrow> bool"
  mlx_dtype_tag :: "'h \<Rightarrow> string + u32"
  mlx_eval_one :: "'h \<Rightarrow> string + unit"
  mlx_data :: "'h \<Rightarrow> bytes"

text \<open>A handle keeps the buffers it may read alive.\<close>

record 'h mlx_array =
  ma_ptr :: 'h
  ma_refs :: "metal_buffer list"

definition runtime_err :: "string + 'a \<Rightarrow> mlx_error + 'a" where
  "runtime_err r = (case r of Inl e \<Rightarrow> Inl (MlxRuntime e) | Inr x \<Rightarrow> Inr x)"

definition ma_shape :: "'h mlx \<Rightarrow> 'h mlx_array \<Rightarrow> nat list" where
  "ma_shape m h = mlx_shape m (ma_ptr h)"

definition ma_dtype :: "'h mlx \<Rightarrow> 'h mlx_array \<Rightarrow> mlx_error + mlx_dtype" where
  "ma_dtype m h = rbind (runtime_err (mlx_dtype_tag m (ma_ptr h))) mlx_from_tag"

definition mlx_array_from_f32_slice :: "'h mlx \<Rightarrow> u32 list \<Rightarrow> mlx_error + 'h mlx_array" where
  "mlx_array_from_f32_slice m data =
     rbind (runtime_err (mlx_from_f32 m data)) (\<lambda>h. case h of
       None \<Rightarrow> Inl ConstructionFailed | Some p \<Rightarrow> Inr \<lparr>ma_ptr = p, ma_refs = []\<rparr>)"

definition mlx_array_view_metal_buffer :: "'h mlx \<Rightarrow> metal_buffer \<Rightarrow> int list \<Rightarrow> mlx_dtype \<Rightarrow> mlx_error + 'h mlx_array" where
  "mlx_array_view_metal_buffer m buf shape dtype =
     rbind (runtime_err (mlx_view m buf shape (mlx_tag dtype))) (\<lambda>h. case h of
       None \<Rightarrow> Inl ConstructionFailed | Some p \<Rightarrow> Inr \<lparr>ma_ptr = p, ma_refs = [buf]\<rparr>)"

fun mlx_array_eval :: "'h mlx \<Rightarrow> 'h mlx_array list \<Rightarrow> mlx_error + unit" where
  "mlx_array_eval m [] = Inr ()"
| "mlx_array_eval m (h # hs) = rbind (runtime_err (mlx_eval_one m (ma_ptr h))) (\<lambda>_. mlx_array_eval m hs)"

definition elements :: "'h mlx \<Rightarrow> 'h mlx_array \<Rightarrow> nat" where
  "elements m h = prod_list (ma_shape m h)"

text \<open>The bytes of the \<open>n\<close> elements read back, for each element type; only the float reader checks the type.\<close>

definition mlx_to_vec :: "'h mlx \<Rightarrow> mlx_dtype \<Rightarrow> 'h mlx_array \<Rightarrow> mlx_error + bytes" where
  "mlx_to_vec m dtype h =
     (if dtype = MF32 \<and> \<not> mlx_is_f32 m (ma_ptr h) then Inl MlxDtypeMismatch
      else if elements m h = 0 then Inr []
      else Inr (take (elements m h * mlx_element_size dtype) (mlx_data m (ma_ptr h))))"

section \<open>The operation wrappers\<close>

definition unop :: "'h mlx \<Rightarrow> string \<Rightarrow> 'h mlx_array \<Rightarrow> mlx_error + 'h mlx_array" where
  "unop m cpp a = rbind (runtime_err (mlx_op m cpp [ma_ptr a] [])) (\<lambda>p. Inr \<lparr>ma_ptr = p, ma_refs = ma_refs a\<rparr>)"

definition binop :: "'h mlx \<Rightarrow> string \<Rightarrow> 'h mlx_array \<Rightarrow> 'h mlx_array \<Rightarrow> mlx_error + 'h mlx_array" where
  "binop m cpp a b =
     (let refs = ma_refs a @ ma_refs b in
      rbind (runtime_err (mlx_op m cpp [ma_ptr a, ma_ptr b] [])) (\<lambda>p. Inr \<lparr>ma_ptr = p, ma_refs = refs\<rparr>))"

definition mlx_where :: "'h mlx \<Rightarrow> 'h mlx_array \<Rightarrow> 'h mlx_array \<Rightarrow> 'h mlx_array \<Rightarrow> mlx_error + 'h mlx_array" where
  "mlx_where m cond then_v else_v =
     (let refs = ma_refs cond @ ma_refs then_v @ ma_refs else_v in
      rbind (runtime_err (mlx_op m ''mlx_op_where'' [ma_ptr cond, ma_ptr then_v, ma_ptr else_v] [])) (\<lambda>p.
        Inr \<lparr>ma_ptr = p, ma_refs = refs\<rparr>))"

definition mlx_cast :: "'h mlx \<Rightarrow> 'h mlx_array \<Rightarrow> mlx_dtype \<Rightarrow> mlx_error + 'h mlx_array" where
  "mlx_cast m a dtype =
     rbind (runtime_err (mlx_op m ''mlx_op_cast'' [ma_ptr a] [uint (mlx_tag dtype)])) (\<lambda>p. Inr \<lparr>ma_ptr = p, ma_refs = ma_refs a\<rparr>)"

definition global_reduce :: "'h mlx \<Rightarrow> string \<Rightarrow> 'h mlx_array \<Rightarrow> mlx_error + 'h mlx_array" where
  "global_reduce m cpp a = rbind (runtime_err (mlx_op m cpp [ma_ptr a] [])) (\<lambda>p. Inr \<lparr>ma_ptr = p, ma_refs = ma_refs a\<rparr>)"

definition mlx_sort :: "'h mlx \<Rightarrow> 'h mlx_array \<Rightarrow> mlx_error + 'h mlx_array" where
  "mlx_sort m a = rbind (runtime_err (mlx_op m ''mlx_op_sort'' [ma_ptr a] [])) (\<lambda>p. Inr \<lparr>ma_ptr = p, ma_refs = ma_refs a\<rparr>)"

definition scan_op :: "'h mlx \<Rightarrow> string \<Rightarrow> 'h mlx_array \<Rightarrow> int \<Rightarrow> mlx_error + 'h mlx_array" where
  "scan_op m cpp a axis = rbind (runtime_err (mlx_op m cpp [ma_ptr a] [axis])) (\<lambda>p. Inr \<lparr>ma_ptr = p, ma_refs = ma_refs a\<rparr>)"

definition mlx_iota_f32 :: "'h mlx \<Rightarrow> u64 \<Rightarrow> mlx_error + 'h mlx_array" where
  "mlx_iota_f32 m n = rbind (runtime_err (mlx_op m ''mlx_iota_f32'' [] [sint n])) (\<lambda>p. Inr \<lparr>ma_ptr = p, ma_refs = []\<rparr>)"

definition mlx_shift :: "'h mlx \<Rightarrow> 'h mlx_array \<Rightarrow> u64 \<Rightarrow> mlx_error + 'h mlx_array" where
  "mlx_shift m a shift = rbind (runtime_err (mlx_op m ''mlx_shift'' [ma_ptr a] [sint shift])) (\<lambda>p. Inr \<lparr>ma_ptr = p, ma_refs = ma_refs a\<rparr>)"

definition mlx_take :: "'h mlx \<Rightarrow> 'h mlx_array \<Rightarrow> 'h mlx_array \<Rightarrow> mlx_error + 'h mlx_array" where
  "mlx_take m a indices =
     rbind (runtime_err (mlx_op m ''mlx_op_take'' [ma_ptr a, ma_ptr indices] [])) (\<lambda>p.
       Inr \<lparr>ma_ptr = p, ma_refs = ma_refs a @ ma_refs indices\<rparr>)"

definition mlx_matmul :: "'h mlx \<Rightarrow> 'h mlx_array \<Rightarrow> 'h mlx_array \<Rightarrow> mlx_error + 'h mlx_array" where
  "mlx_matmul m a b =
     (let refs = ma_refs a @ ma_refs b in
      rbind (runtime_err (mlx_op m ''mlx_op_matmul'' [ma_ptr a, ma_ptr b] [])) (\<lambda>p. Inr \<lparr>ma_ptr = p, ma_refs = refs\<rparr>))"

section \<open>subgraph.rs: one operation\<close>

datatype build_error =
    InputCountMismatch nat nat
  | UndefinedNode u32
  | MlxError mlx_error
  | OutputDtypeMismatch mlx_dtype mlx_dtype
  | OutputTooLarge nat nat
  | StagingError buffer_err
  | UnsupportedOp op_id
  | ArgCountMismatch op_id nat nat
  | UnsupportedInputDtype input_dtype
  | UnsupportedOutputDtype mlx_dtype

definition ffi :: "mlx_error + 'a \<Rightarrow> build_error + 'a" where
  "ffi r = (case r of Inl e \<Rightarrow> Inl (MlxError e) | Inr x \<Rightarrow> Inr x)"

definition arg_count :: "op_id \<Rightarrow> nat \<Rightarrow> 'a list \<Rightarrow> (build_error + 'b) option \<Rightarrow> (build_error + 'b) option" where
  "arg_count op expected args rest =
     (if length args \<noteq> expected then Some (Inl (ArgCountMismatch op expected (length args))) else rest)"

text \<open>An argument taken by index: an index past the end is a panic.\<close>

definition with1 :: "'a list \<Rightarrow> ('a \<Rightarrow> mlx_error + 'b) \<Rightarrow> (build_error + 'b) option" where
  "with1 args f = (case args of a # _ \<Rightarrow> Some (ffi (f a)) | _ \<Rightarrow> None)"

definition with2 :: "'a list \<Rightarrow> ('a \<Rightarrow> 'a \<Rightarrow> mlx_error + 'b) \<Rightarrow> (build_error + 'b) option" where
  "with2 args f = (case args of a # b # _ \<Rightarrow> Some (ffi (f a b)) | _ \<Rightarrow> None)"

definition with3 :: "'a list \<Rightarrow> ('a \<Rightarrow> 'a \<Rightarrow> 'a \<Rightarrow> mlx_error + 'b) \<Rightarrow> (build_error + 'b) option" where
  "with3 args f = (case args of a # b # c # _ \<Rightarrow> Some (ffi (f a b c)) | _ \<Rightarrow> None)"

definition apply_op :: "'h mlx \<Rightarrow> op_node \<Rightarrow> 'h mlx_array list \<Rightarrow> 'h mlx_array list \<Rightarrow> (build_error + 'h mlx_array) option" where
  "apply_op m node handles args = (let op = node_op node in case op of
     OAdd \<Rightarrow> arg_count op 2 args (with2 args (binop m ''mlx_op_add''))
   | OSub \<Rightarrow> arg_count op 2 args (with2 args (binop m ''mlx_op_sub''))
   | OMul \<Rightarrow> arg_count op 2 args (with2 args (binop m ''mlx_op_mul''))
   | ODiv \<Rightarrow> arg_count op 2 args (with2 args (binop m ''mlx_op_div''))
   | OMod \<Rightarrow> arg_count op 2 args (with2 args (binop m ''mlx_op_mod''))
   | OPow \<Rightarrow> arg_count op 2 args (with2 args (binop m ''mlx_op_pow''))
   | ONeg \<Rightarrow> arg_count op 1 args (with1 args (unop m ''mlx_op_neg''))
   | OAbs \<Rightarrow> arg_count op 1 args (with1 args (unop m ''mlx_op_abs''))
   | OSquare \<Rightarrow> arg_count op 1 args (with1 args (unop m ''mlx_op_square''))
   | OEq \<Rightarrow> with2 args (binop m ''mlx_op_eq'')
   | ONe \<Rightarrow> with2 args (binop m ''mlx_op_ne'')
   | OLt \<Rightarrow> with2 args (binop m ''mlx_op_lt'')
   | OLe \<Rightarrow> with2 args (binop m ''mlx_op_le'')
   | OGt \<Rightarrow> with2 args (binop m ''mlx_op_gt'')
   | OGe \<Rightarrow> with2 args (binop m ''mlx_op_ge'')
   | OLogicalAnd \<Rightarrow> with2 args (binop m ''mlx_op_logical_and'')
   | OLogicalOr \<Rightarrow> with2 args (binop m ''mlx_op_logical_or'')
   | OLogicalNot \<Rightarrow> with1 args (unop m ''mlx_op_logical_not'')
   | OWhere \<Rightarrow> arg_count op 3 args (with3 args (mlx_where m))
   | OSin \<Rightarrow> with1 args (unop m ''mlx_op_sin'')
   | OCos \<Rightarrow> with1 args (unop m ''mlx_op_cos'')
   | OTan \<Rightarrow> with1 args (unop m ''mlx_op_tan'')
   | OSinh \<Rightarrow> with1 args (unop m ''mlx_op_sinh'')
   | OCosh \<Rightarrow> with1 args (unop m ''mlx_op_cosh'')
   | OTanh \<Rightarrow> with1 args (unop m ''mlx_op_tanh'')
   | OAsin \<Rightarrow> with1 args (unop m ''mlx_op_asin'')
   | OAcos \<Rightarrow> with1 args (unop m ''mlx_op_acos'')
   | OAtan \<Rightarrow> with1 args (unop m ''mlx_op_atan'')
   | OAtan2 \<Rightarrow> with2 args (binop m ''mlx_op_atan2'')
   | OLog \<Rightarrow> with1 args (unop m ''mlx_op_log'')
   | OLog2 \<Rightarrow> with1 args (unop m ''mlx_op_log2'')
   | OLog10 \<Rightarrow> with1 args (unop m ''mlx_op_log10'')
   | OLog1p \<Rightarrow> with1 args (unop m ''mlx_op_log1p'')
   | OExp \<Rightarrow> with1 args (unop m ''mlx_op_exp'')
   | OExp2 \<Rightarrow> with1 args (unop m ''mlx_op_exp2'')
   | OSqrt \<Rightarrow> with1 args (unop m ''mlx_op_sqrt'')
   | OCbrt \<Rightarrow> with1 args (unop m ''mlx_op_cbrt'')
   | OFloor \<Rightarrow> with1 args (unop m ''mlx_op_floor'')
   | OCeil \<Rightarrow> with1 args (unop m ''mlx_op_ceil'')
   | ORound \<Rightarrow> with1 args (unop m ''mlx_op_round'')
   | OCastF32 \<Rightarrow> with1 args (\<lambda>a. mlx_cast m a MF32)
   | OCastF64 \<Rightarrow> with1 args (\<lambda>a. mlx_cast m a MF64)
   | OCastI32 \<Rightarrow> with1 args (\<lambda>a. mlx_cast m a MI32)
   | OCastBool \<Rightarrow> with1 args (\<lambda>a. mlx_cast m a MBool)
   | OSum \<Rightarrow> with1 args (global_reduce m ''mlx_op_sum_all'')
   | OMean \<Rightarrow> with1 args (global_reduce m ''mlx_op_mean_all'')
   | OMin \<Rightarrow> with1 args (global_reduce m ''mlx_op_min_all'')
   | OMax \<Rightarrow> with1 args (global_reduce m ''mlx_op_max_all'')
   | OStd \<Rightarrow> with1 args (global_reduce m ''mlx_op_std_all'')
   | OVar \<Rightarrow> with1 args (global_reduce m ''mlx_op_var_all'')
   | OArgMin \<Rightarrow> with1 args (global_reduce m ''mlx_op_argmin_all'')
   | OArgMax \<Rightarrow> with1 args (global_reduce m ''mlx_op_argmax_all'')
   | OSort \<Rightarrow> with1 args (mlx_sort m)
   | OArgPartition \<Rightarrow> Some (Inl (UnsupportedOp op))
   | OCumSum \<Rightarrow> with1 args (\<lambda>a. scan_op m ''mlx_op_cumsum'' a 0)
   | OCumProd \<Rightarrow> with1 args (\<lambda>a. scan_op m ''mlx_op_cumprod'' a 0)
   | OCumMax \<Rightarrow> with1 args (\<lambda>a. scan_op m ''mlx_op_cummax'' a 0)
   | OCumMin \<Rightarrow> with1 args (\<lambda>a. scan_op m ''mlx_op_cummin'' a 0)
   | OMatMul \<Rightarrow> with2 args (mlx_matmul m)
   | OFft \<Rightarrow> Some (Inl (UnsupportedOp op))
   | OIfft \<Rightarrow> Some (Inl (UnsupportedOp op))
   | OShift \<Rightarrow> arg_count op 1 args
       (case node_param node of None \<Rightarrow> Some (Inl (UnsupportedOp op)) | Some w \<Rightarrow> with1 args (\<lambda>a. mlx_shift m a w))
   | ORowIndex \<Rightarrow> arg_count op 0 args
       (case handles of [] \<Rightarrow> Some (Inl (UnsupportedOp op))
        | h # _ \<Rightarrow> (case ma_shape m h of [] \<Rightarrow> Some (Inl (UnsupportedOp op))
          | n # _ \<Rightarrow> Some (ffi (mlx_iota_f32 m (of_nat n)))))
   | OTake \<Rightarrow> arg_count op 2 args
       (with2 args (\<lambda>a i. rbind (mlx_cast m i MI32) (\<lambda>idx. mlx_take m a idx))))"

definition node_handle :: "'a list \<Rightarrow> u32 \<Rightarrow> build_error + 'a" where
  "node_handle handles idx = (if unat idx < length handles then Inr (handles ! unat idx) else Inl (UndefinedNode idx))"

definition build_op :: "'h mlx \<Rightarrow> op_node \<Rightarrow> 'h mlx_array list \<Rightarrow> (build_error + 'h mlx_array) option" where
  "build_op m node handles =
     (case rmap (node_handle handles) (node_args node) of
        Inl e \<Rightarrow> Some (Inl e)
      | Inr args \<Rightarrow> apply_op m node handles args)"

section \<open>subgraph.rs: the graph\<close>

fun build_ops :: "'h mlx \<Rightarrow> 'h mlx_array list \<Rightarrow> op_node list \<Rightarrow> (build_error + 'h mlx_array list) option" where
  "build_ops m handles [] = Some (Inr handles)"
| "build_ops m handles (node # nodes) =
     (case build_op m node handles of
        None \<Rightarrow> None
      | Some (Inl e) \<Rightarrow> Some (Inl e)
      | Some (Inr handle) \<Rightarrow> build_ops m (handles @ [handle]) nodes)"

record 'h mlx_subgraph =
  sg_handles :: "'h mlx_array list"
  sg_outputs :: "'h mlx_array list"

text \<open>The common end of both constructors: the operations in order, then the outputs.\<close>

definition build_graph :: "'h mlx \<Rightarrow> fusion_scope \<Rightarrow> 'h mlx_array list \<Rightarrow> (build_error + 'h mlx_subgraph) option" where
  "build_graph m sc handles =
     (case build_ops m handles (sc_ops sc) of
        None \<Rightarrow> None
      | Some (Inl e) \<Rightarrow> Some (Inl e)
      | Some (Inr hs) \<Rightarrow> Some (rbind (rmap (node_handle hs) (sc_outputs sc)) (\<lambda>outs. Inr \<lparr>sg_handles = hs, sg_outputs = outs\<rparr>)))"

definition from_fusion_scope :: "'h mlx \<Rightarrow> fusion_scope \<Rightarrow> u32 list list \<Rightarrow> (build_error + 'h mlx_subgraph) option" where
  "from_fusion_scope m sc inputs =
     (if length inputs \<noteq> length (sc_inputs sc) then Some (Inl (InputCountMismatch (length (sc_inputs sc)) (length inputs)))
      else case rmap (\<lambda>data. ffi (mlx_array_from_f32_slice m data)) inputs of
          Inl e \<Rightarrow> Some (Inl e)
        | Inr handles \<Rightarrow> build_graph m sc handles)"

definition input_dtype_to_mlx :: "input_dtype \<Rightarrow> build_error + mlx_dtype" where
  "input_dtype_to_mlx d = (case d of
     InF32 \<Rightarrow> Inr MF32 | InI32 \<Rightarrow> Inr MI32 | InBool \<Rightarrow> Inr MBool | InI8 \<Rightarrow> Inr MI8 | InI16 \<Rightarrow> Inr MI16 | InI64 \<Rightarrow> Inr MI64
   | InU8 \<Rightarrow> Inr MU8 | InU16 \<Rightarrow> Inr MU16 | InU32 \<Rightarrow> Inr MU32 | InU64 \<Rightarrow> Inr MU64
   | InF64 \<Rightarrow> Inl (UnsupportedInputDtype d) | InArrayF32 _ \<Rightarrow> Inl (UnsupportedInputDtype d) | InListF32 \<Rightarrow> Inl (UnsupportedInputDtype d))"

definition view_input :: "'h mlx \<Rightarrow> metal_buffer \<times> string \<times> input_dtype \<Rightarrow> build_error + 'h mlx_array" where
  "view_input m = (\<lambda>(buf, _, dtype).
     rbind (input_dtype_to_mlx dtype) (\<lambda>d. ffi (mlx_array_view_metal_buffer m buf [int (buf_len buf div mlx_element_size d)] d)))"

definition from_fusion_scope_buffers :: "'h mlx \<Rightarrow> fusion_scope \<Rightarrow> metal_buffer list \<Rightarrow> (build_error + 'h mlx_subgraph) option" where
  "from_fusion_scope_buffers m sc inputs =
     (if length inputs \<noteq> length (sc_inputs sc) then Some (Inl (InputCountMismatch (length (sc_inputs sc)) (length inputs)))
      else case rmap (view_input m) (zip inputs (sc_inputs sc)) of
          Inl e \<Rightarrow> Some (Inl e)
        | Inr handles \<Rightarrow> build_graph m sc handles)"

section \<open>subgraph.rs: evaluation\<close>

definition eval_graph :: "'h mlx \<Rightarrow> 'h mlx_subgraph \<Rightarrow> build_error + u32 list list" where
  "eval_graph m g =
     rbind (ffi (mlx_array_eval m (sg_outputs g))) (\<lambda>_.
     rmap (\<lambda>h. rbind (ffi (mlx_to_vec m MF32 h)) (\<lambda>bs. Inr (typed_view 4 bs (elements m h)))) (sg_outputs g))"

text \<open>Memory is the store of the buffer layer; the caller's output lives at \<open>out_ptr\<close>.\<close>

definition eval_into_typed ::
  "'h mlx \<Rightarrow> 'h mlx_subgraph \<Rightarrow> mem \<Rightarrow> nat \<Rightarrow> nat \<Rightarrow> mlx_dtype \<Rightarrow> mem \<times> (build_error + nat)" where
  "eval_into_typed m g mem out_ptr out_cap out_dtype =
     (case sg_outputs g of
        [h] \<Rightarrow>
          (case rbind (ffi (mlx_array_eval m [h])) (\<lambda>_. ffi (ma_dtype m h)) of
             Inl e \<Rightarrow> (mem, Inl e)
           | Inr got \<Rightarrow>
               if got \<noteq> out_dtype then (mem, Inl (OutputDtypeMismatch out_dtype got))
               else let n = elements m h in
                 if out_cap < n then (mem, Inl (OutputTooLarge n out_cap))
                 else if n = 0 then (mem, Inr 0)
                 else if out_dtype = MBool \<or> out_dtype = MF64 then (mem, Inl (UnsupportedOutputDtype out_dtype))
                 else (case ffi (mlx_to_vec m out_dtype h) of
                     Inl e \<Rightarrow> (mem, Inl e)
                   | Inr data \<Rightarrow> (write_mem mem out_ptr data, Inr n)))
      | outs \<Rightarrow> (mem, Inl (InputCountMismatch 1 (length outs))))"

fun stage_outputs :: "driver \<Rightarrow> 'h mlx \<Rightarrow> mem \<Rightarrow> 'h mlx_array list \<Rightarrow> mem \<times> (build_error + metal_buffer list)" where
  "stage_outputs drv m mem [] = (mem, Inr [])"
| "stage_outputs drv m mem (h # hs) =
     (case ffi (ma_dtype m h) of
        Inl e \<Rightarrow> (mem, Inl e)
      | Inr dtype \<Rightarrow>
          if dtype = MBool \<or> dtype = MF64 then (mem, Inl (UnsupportedOutputDtype dtype))
          else (case ffi (mlx_to_vec m dtype h) of
              Inl e \<Rightarrow> (mem, Inl e)
            | Inr data \<Rightarrow>
                (case new_buffer_from_bytes drv mem data of
                   (mem', Inl e) \<Rightarrow> (mem', Inl (StagingError e))
                 | (mem', Inr buf) \<Rightarrow>
                     (case stage_outputs drv m mem' hs of
                        (mem'', Inl e) \<Rightarrow> (mem'', Inl e) | (mem'', Inr bufs) \<Rightarrow> (mem'', Inr (buf # bufs))))))"

definition eval_to_metal_buffers :: "driver \<Rightarrow> 'h mlx \<Rightarrow> 'h mlx_subgraph \<Rightarrow> mem \<Rightarrow> mem \<times> (build_error + metal_buffer list)" where
  "eval_to_metal_buffers drv m g mem =
     (case ffi (mlx_array_eval m (sg_outputs g)) of
        Inl e \<Rightarrow> (mem, Inl e) | Inr _ \<Rightarrow> stage_outputs drv m mem (sg_outputs g))"

section \<open>fused\_expr.rs\<close>

datatype fused_expr_error =
    NoDevice string
  | BadInputTag mlx_error
  | InputStaging buffer_err
  | SubgraphBuild build_error
  | BadOutputTag mlx_error
  | SubgraphEval build_error

text \<open>The byte length \<open>n * element_size\<close> wraps at 64 bits.\<close>

fun stage_inputs :: "driver \<Rightarrow> mem \<Rightarrow> (nat \<times> usize \<times> u32) list \<Rightarrow> mem \<times> (fused_expr_error + metal_buffer list)" where
  "stage_inputs drv mem [] = (mem, Inr [])"
| "stage_inputs drv mem ((ptr, n, tag) # rest) =
     (case mlx_from_tag tag of
        Inl e \<Rightarrow> (mem, Inl (BadInputTag e))
      | Inr dtype \<Rightarrow>
          (case from_borrowed_bytes drv mem ptr (unat (n * of_nat (mlx_element_size dtype))) of
             (mem', Inl e) \<Rightarrow> (mem', Inl (InputStaging e))
           | (mem', Inr buf) \<Rightarrow>
               (case stage_inputs drv mem' rest of
                  (mem'', Inl e) \<Rightarrow> (mem'', Inl e) | (mem'', Inr bufs) \<Rightarrow> (mem'', Inr (buf # bufs)))))"

definition execute_fused_expr ::
  "string option \<Rightarrow> driver \<Rightarrow> 'h mlx \<Rightarrow> mem \<Rightarrow> fusion_scope \<Rightarrow> (nat \<times> usize \<times> u32) list \<Rightarrow> nat \<times> nat \<times> u32 \<Rightarrow>
     (mem \<times> (fused_expr_error + nat)) option" where
  "execute_fused_expr no_device drv m mem sc inputs out =
     (case no_device of
        Some e \<Rightarrow> Some (mem, Inl (NoDevice e))
      | None \<Rightarrow>
          (case stage_inputs drv mem inputs of
             (mem', Inl e) \<Rightarrow> Some (mem', Inl e)
           | (mem', Inr buffers) \<Rightarrow>
               (case from_fusion_scope_buffers m sc buffers of
                  None \<Rightarrow> None
                | Some (Inl e) \<Rightarrow> Some (mem', Inl (SubgraphBuild e))
                | Some (Inr g) \<Rightarrow>
                    (case out of (out_ptr, out_cap, out_tag) \<Rightarrow>
                       (case mlx_from_tag out_tag of
                          Inl e \<Rightarrow> Some (mem', Inl (BadOutputTag e))
                        | Inr out_dtype \<Rightarrow>
                            (case eval_into_typed m g mem' out_ptr out_cap out_dtype of
                               (mem'', Inl e) \<Rightarrow> Some (mem'', Inl (SubgraphEval e))
                             | (mem'', Inr n) \<Rightarrow> Some (mem'', Inr n)))))))"

end
