(* ===== verification/Subgraph_Correct.thy ===== *)
theory Subgraph_Correct
  imports Subgraph
begin

text \<open>The MLX subgraph against the expression it was built from: a graph built from a scope of the Python interface never
  panics, its outputs are the values of the expression evaluated top-down, every buffer an output may read is kept alive
  by the output, and reading the result back writes only the caller's output buffer.\<close>

section \<open>One operation\<close>

lemma with_someI:
  "1 \<le> length args \<Longrightarrow> with1 args f \<noteq> None"
  "2 \<le> length args \<Longrightarrow> with2 args g \<noteq> None"
  "3 \<le> length args \<Longrightarrow> with3 args h \<noteq> None"
  by (auto simp: with1_def with2_def with3_def numeral_eq_Suc Suc_le_length_iff)

lemma apply_op_no_panic:
  assumes "length args = unat (n_args (op_spec_of (node_op node)))"
  shows "apply_op m node handles args \<noteq> None"
  using assms
  by (cases "node_op node")
    (simp_all add: apply_op_def op_spec_of_def spec_def arg_count_def with_someI split: option.splits list.splits del: not_None_eq)

lemma rmap_length: "rmap f xs = Inr ys \<Longrightarrow> length ys = length xs"
  by (simp add: rmap_Inr_iff)

lemma build_op_no_panic: "arity_ok node \<Longrightarrow> build_op m node handles \<noteq> None"
  unfolding build_op_def
  by (auto simp: arity_ok_def dest!: rmap_length intro!: apply_op_no_panic split: sum.splits simp del: not_None_eq)

section \<open>The expression a scope describes\<close>

text \<open>The value of node \<open>k\<close>, evaluated from the node down: an input is itself, an operation applies to the values of its
  arguments, which must be earlier nodes.\<close>

function expr_value :: "'h mlx \<Rightarrow> 'h mlx_array list \<Rightarrow> op_node list \<Rightarrow> nat \<Rightarrow> 'h mlx_array option" where
  "expr_value m ins ops k =
     (if k < length ins then Some (ins ! k)
      else if k < length ins + length ops then
        (let node = ops ! (k - length ins) in
         if list_all (\<lambda>i. unat i < k) (node_args node) then
           (case those (map (\<lambda>i. expr_value m ins ops (unat i)) (node_args node)) of
              None \<Rightarrow> None
            | Some args \<Rightarrow> (case apply_op m node ins args of Some (Inr h) \<Rightarrow> Some h | _ \<Rightarrow> None))
         else None)
      else None)"
  by pat_completeness auto
termination
  by (relation "measure (\<lambda>(m, ins, ops, k). k)") (auto simp: list_all_iff)

declare expr_value.simps [simp del]

text \<open>What building the graph promises: every node has a value, and so has every output.\<close>

definition expr_outputs :: "'h mlx \<Rightarrow> 'h mlx_array list \<Rightarrow> fusion_scope \<Rightarrow> 'h mlx_array list option" where
  "expr_outputs m ins sc =
     (if list_all (\<lambda>k. expr_value m ins (sc_ops sc) k \<noteq> None) [0..<length ins + length (sc_ops sc)]
      then those (map (\<lambda>i. expr_value m ins (sc_ops sc) (unat i)) (sc_outputs sc)) else None)"

lemma those_None: "x \<in> set xs \<Longrightarrow> f x = None \<Longrightarrow> those (map f xs) = None"
  by (induction xs) (auto split: option.splits)

lemma those_nth: "those xs = Some ys \<Longrightarrow> length ys = length xs \<and> (\<forall>i < length xs. xs ! i = Some (ys ! i))"
proof (induction xs arbitrary: ys)
  case (Cons x xs)
  then show ?case by (auto split: option.splits simp: less_Suc_eq_0_disj)
qed simp

lemma node_handle_Inr: "node_handle hs i = Inr h \<longleftrightarrow> unat i < length hs \<and> h = hs ! unat i"
  by (auto simp: node_handle_def)

lemma rmap_handles:
  "list_all (\<lambda>i. unat i < length hs) is \<Longrightarrow> rmap (node_handle hs) is = Inr (map (\<lambda>i. hs ! unat i) is)"
  by (rule rmap_total) (auto simp: node_handle_def list_all_iff)

lemma rmap_handles_Inl:
  assumes "rmap (node_handle hs) is = Inl e"
  shows "\<not> list_all (\<lambda>i. unat i < length hs) is \<and> (\<exists>i. e = UndefinedNode i)"
  using assms by (induction "is") (auto simp: node_handle_def result_simps split: if_splits)

text \<open>Beyond its arguments an operation reads only the first handle, for its length.\<close>

lemma apply_op_handles: "take 1 hs = take 1 hs' \<Longrightarrow> apply_op m node hs args = apply_op m node hs' args"
  unfolding apply_op_def by (cases hs; cases hs') (simp_all cong: op_id.case_cong)

lemma apply_op_nothing: "apply_op m node [] [] \<noteq> Some (Inr h)"
  by (cases "node_op node") (simp_all add: apply_op_def arg_count_def with1_def with2_def with3_def split: option.splits)

lemma expr_value_no_input: "expr_value m [] ops 0 = None"
  by (subst expr_value.simps) (auto simp: list_all_iff Let_def apply_op_nothing split: option.splits sum.splits)

lemma expr_value_op:
  assumes hs: "length hs = length ins + j" "\<forall>k < length hs. expr_value m ins ops k = Some (hs ! k)"
    and j: "j < length ops" and ok: "arity_ok (ops ! j)"
  shows "expr_value m ins ops (length hs) = (case build_op m (ops ! j) hs of Some (Inr h) \<Rightarrow> Some h | _ \<Rightarrow> None)"
proof (cases "list_all (\<lambda>i. unat i < length hs) (node_args (ops ! j))")
  case True
  let ?args = "map (\<lambda>i. hs ! unat i) (node_args (ops ! j))"
  have t: "those (map (\<lambda>i. expr_value m ins ops (unat i)) (node_args (ops ! j))) = Some ?args"
    using True hs(2) by (intro those_map_Some) (auto simp: list_all_iff)
  have "take 1 hs = take 1 ins"
  proof (cases ins)
    case Nil
    then have "hs = []" using hs(2) expr_value_no_input [of m ops] by (cases hs) force+
    then show ?thesis using Nil by simp
  next
    case (Cons a as)
    have "expr_value m ins ops 0 = Some a" by (subst expr_value.simps) (simp add: Cons)
    then have "hs ! 0 = a" using hs Cons by auto
    then show ?thesis using hs(1) Cons by (cases hs) auto
  qed
  then have a: "apply_op m (ops ! j) ins ?args = apply_op m (ops ! j) hs ?args" by (intro apply_op_handles) simp
  show ?thesis
    using True j hs(1) by (subst expr_value.simps) (simp add: Let_def t a build_op_def rmap_handles)
next
  case False
  then have "\<exists>e. rmap (node_handle hs) (node_args (ops ! j)) = Inl e"
    by (cases "rmap (node_handle hs) (node_args (ops ! j))")
      (auto simp: rmap_Inr_iff node_handle_Inr list_all_iff in_set_conv_nth)
  then show ?thesis using False hs(1) by (subst expr_value.simps) (auto simp: Let_def build_op_def)
qed

lemma build_ops_values:
  assumes "list_all arity_ok ops" and "length hs = length ins + j" and "j \<le> length ops"
    and "\<forall>k < length hs. expr_value m ins ops k = Some (hs ! k)"
  shows "case build_ops m hs (drop j ops) of
      None \<Rightarrow> False
    | Some (Inl e) \<Rightarrow> \<exists>k < length ins + length ops. expr_value m ins ops k = None
    | Some (Inr vs) \<Rightarrow> length vs = length ins + length ops \<and> (\<forall>k < length vs. expr_value m ins ops k = Some (vs ! k))"
  using assms(2-)
proof (induction "length ops - j" arbitrary: j hs)
  case 0
  then show ?case by simp
next
  case (Suc n)
  then have j: "j < length ops" by simp
  have ok: "arity_ok (ops ! j)" using assms(1) j by (simp add: list_all_length)
  note v = expr_value_op [OF Suc.prems(1,3) j ok]
  obtain r where r: "build_op m (ops ! j) hs = Some r" using build_op_no_panic [OF ok] by auto
  show ?case
  proof (cases r)
    case (Inl e)
    then show ?thesis using v r Suc.prems(1) j
      by (auto simp: Cons_nth_drop_Suc [OF j, symmetric] intro!: exI [of _ "length ins + j"])
  next
    case (Inr h)
    have "\<forall>k < length (hs @ [h]). expr_value m ins ops k = Some ((hs @ [h]) ! k)"
      using Suc.prems(3) v r Inr by (auto simp: nth_append less_Suc_eq)
    from Suc.hyps(1) [of "Suc j" "hs @ [h]", OF _ _ _ this]
    show ?thesis using Suc.hyps(2) Suc.prems(1) j r Inr by (simp add: Cons_nth_drop_Suc [OF j, symmetric])
  qed
qed

lemma rmap_handles_values:
  assumes vs: "\<forall>k < length vs. val k = Some (vs ! k)" and out: "\<forall>k \<ge> length vs. val k = None"
  shows "(case rmap (node_handle vs) is of Inr outs \<Rightarrow> Some outs | Inl _ \<Rightarrow> None) = those (map (\<lambda>i. val (unat i)) is)"
proof (cases "list_all (\<lambda>i. unat i < length vs) is")
  case True
  then have "those (map (\<lambda>i. val (unat i)) is) = Some (map (\<lambda>i. vs ! unat i) is)"
    using vs by (intro those_map_Some) (auto simp: list_all_iff)
  then show ?thesis using True by (simp add: rmap_handles)
next
  case False
  then obtain i where i: "i \<in> set is" "length vs \<le> unat i" by (auto simp: list_all_iff not_less)
  then have "those (map (\<lambda>i. val (unat i)) is) = None" using out by (intro those_None) auto
  moreover have "\<exists>e. rmap (node_handle vs) is = Inl e"
    using False by (cases "rmap (node_handle vs) is") (auto simp: rmap_Inr_iff node_handle_Inr list_all_iff in_set_conv_nth)
  ultimately show ?thesis by auto
qed

lemma build_graph_values:
  assumes "list_all arity_ok (sc_ops sc)"
  shows "\<exists>r. build_graph m sc ins = Some r \<and>
    (case r of Inr g \<Rightarrow> Some (sg_outputs g) | Inl _ \<Rightarrow> None) = expr_outputs m ins sc"
proof -
  have i: "\<forall>k < length ins. expr_value m ins (sc_ops sc) k = Some (ins ! k)"
    by (subst expr_value.simps) simp
  have beyond: "expr_value m ins (sc_ops sc) k = None" if "length ins + length (sc_ops sc) \<le> k" for k
    using that by (subst expr_value.simps) simp
  note b = build_ops_values [OF assms, of ins ins 0 m, simplified, OF i]
  show ?thesis
  proof (cases "build_ops m ins (sc_ops sc)")
    case None
    then show ?thesis using b by simp
  next
    case (Some r)
    show ?thesis
    proof (cases r)
      case (Inl e)
      then show ?thesis using b Some by (force simp: build_graph_def expr_outputs_def list_all_iff)
    next
      case (Inr vs)
      then have vs: "length vs = length ins + length (sc_ops sc)"
        "\<forall>k < length vs. expr_value m ins (sc_ops sc) k = Some (vs ! k)" using b Some by auto
      have l: "list_all (\<lambda>k. expr_value m ins (sc_ops sc) k \<noteq> None) [0..<length ins + length (sc_ops sc)]"
        using vs by (auto simp: list_all_iff)
      have "(case rmap (node_handle vs) (sc_outputs sc) of Inr outs \<Rightarrow> Some outs | Inl _ \<Rightarrow> None) = expr_outputs m ins sc"
        using rmap_handles_values [OF vs(2)] beyond vs(1) l by (simp add: expr_outputs_def)
      then show ?thesis
        using Some Inr by (cases "rmap (node_handle vs) (sc_outputs sc)") (auto simp: build_graph_def)
    qed
  qed
qed

section \<open>Inputs\<close>

lemma view_input_refs: "view_input m (buf, name, d) = Inr h \<Longrightarrow> ma_refs h = [buf]"
  by (auto simp: view_input_def result_simps ffi_def mlx_array_view_metal_buffer_def runtime_err_def split: sum.splits option.splits)

lemma views_refs:
  assumes "rmap (view_input m) (zip bufs ins) = Inr hs" and "length bufs = length ins" and "i < length bufs"
  shows "ma_refs (hs ! i) = [bufs ! i]"
proof -
  obtain name d where e: "ins ! i = (name, d)" by fastforce
  have "view_input m (bufs ! i, name, d) = Inr (hs ! i)" using assms by (simp add: rmap_Inr_iff e [symmetric])
  then show ?thesis by (rule view_input_refs)
qed

section \<open>What a graph reads\<close>

text \<open>Node \<open>k\<close> reads input \<open>i\<close> when some path of arguments leads there.\<close>

inductive reads :: "nat \<Rightarrow> op_node list \<Rightarrow> nat \<Rightarrow> nat \<Rightarrow> bool" for n_in ops where
  reads_input: "i < n_in \<Longrightarrow> reads n_in ops i i"
| reads_arg: "n_in \<le> k \<Longrightarrow> k < n_in + length ops \<Longrightarrow> a \<in> set (node_args (ops ! (k - n_in))) \<Longrightarrow>
    reads n_in ops (unat a) i \<Longrightarrow> reads n_in ops k i"

lemma reads_iff:
  "reads n_in ops k i \<longleftrightarrow> (if k < n_in then i = k
     else k < n_in + length ops \<and> (\<exists>a \<in> set (node_args (ops ! (k - n_in))). reads n_in ops (unat a) i))"
  by (subst reads.simps) auto

lemma ffi_Inr: "ffi r = Inr h \<longleftrightarrow> r = Inr h"
  by (auto simp: ffi_def split: sum.splits)

lemma runtime_err_Inr: "runtime_err r = Inr h \<longleftrightarrow> r = Inr h"
  by (auto simp: runtime_err_def split: sum.splits)

lemmas wrapper_results = unop_def binop_def mlx_where_def mlx_cast_def global_reduce_def mlx_sort_def scan_op_def
  mlx_shift_def mlx_take_def mlx_matmul_def mlx_iota_f32_def ffi_Inr runtime_err_Inr result_simps

lemma with_Inr:
  "with1 args f = Some (Inr h) \<longleftrightarrow> (\<exists>a as. args = a # as \<and> f a = Inr h)"
  "with2 args g = Some (Inr h) \<longleftrightarrow> (\<exists>a b as. args = a # b # as \<and> g a b = Inr h)"
  "with3 args k = Some (Inr h) \<longleftrightarrow> (\<exists>a b c as. args = a # b # c # as \<and> k a b c = Inr h)"
  by (auto simp: with1_def with2_def with3_def ffi_Inr split: list.splits)

text \<open>The handle of an operation holds exactly the buffers its arguments hold.\<close>

lemma wrapper_refs:
  "unop m s a = Inr h \<Longrightarrow> ma_refs h = ma_refs a"
  "binop m s a b = Inr h \<Longrightarrow> ma_refs h = ma_refs a @ ma_refs b"
  "mlx_where m a b c = Inr h \<Longrightarrow> ma_refs h = ma_refs a @ ma_refs b @ ma_refs c"
  "mlx_cast m a d = Inr h \<Longrightarrow> ma_refs h = ma_refs a"
  "global_reduce m s a = Inr h \<Longrightarrow> ma_refs h = ma_refs a"
  "mlx_sort m a = Inr h \<Longrightarrow> ma_refs h = ma_refs a"
  "scan_op m s a i = Inr h \<Longrightarrow> ma_refs h = ma_refs a"
  "mlx_shift m a w = Inr h \<Longrightarrow> ma_refs h = ma_refs a"
  "mlx_matmul m a b = Inr h \<Longrightarrow> ma_refs h = ma_refs a @ ma_refs b"
  "rbind (mlx_cast m b d) (\<lambda>idx. mlx_take m a idx) = Inr h \<Longrightarrow> ma_refs h = ma_refs a @ ma_refs b"
  "mlx_iota_f32 m n = Inr h \<Longrightarrow> ma_refs h = []"
  by (auto simp: wrapper_results)

text \<open>An operation of the right arity applies one wrapper to all its arguments.\<close>

lemma with_refs:
  "length args = 1 \<Longrightarrow> with1 args f = Some (Inr h) \<Longrightarrow> (\<And>a h. f a = Inr h \<Longrightarrow> ma_refs h = ma_refs a) \<Longrightarrow>
     ma_refs h = concat (map ma_refs args)"
  "length args = 2 \<Longrightarrow> with2 args g = Some (Inr h) \<Longrightarrow> (\<And>a b h. g a b = Inr h \<Longrightarrow> ma_refs h = ma_refs a @ ma_refs b) \<Longrightarrow>
     ma_refs h = concat (map ma_refs args)"
  "length args = 3 \<Longrightarrow> with3 args k = Some (Inr h) \<Longrightarrow>
     (\<And>a b c h. k a b c = Inr h \<Longrightarrow> ma_refs h = ma_refs a @ ma_refs b @ ma_refs c) \<Longrightarrow> ma_refs h = concat (map ma_refs args)"
  by (auto simp: with_Inr)

lemma arg_count_Inr: "arg_count op n args rest = Some (Inr h) \<longleftrightarrow> length args = n \<and> rest = Some (Inr h)"
  by (auto simp: arg_count_def)

lemma apply_op_refs:
  assumes "length args = unat (n_args (op_spec_of (node_op node)))" and "apply_op m node hs args = Some (Inr h)"
  shows "ma_refs h = concat (map ma_refs args)"
  using assms
  by (cases "node_op node")
    (simp_all add: apply_op_def op_spec_of_def spec_def arg_count_Inr ffi_Inr split: option.splits list.splits,
      (erule with_refs [rotated]; simp add: wrapper_refs | simp add: wrapper_refs)+)

lemma value_refs:
  assumes "list_all arity_ok ops"
  shows "expr_value m ins ops k = Some h \<Longrightarrow> set (ma_refs h) = (\<Union>i \<in> {i. reads (length ins) ops k i}. set (ma_refs (ins ! i)))"
proof (induction k arbitrary: h rule: less_induct)
  case (less k)
  show ?case
  proof (cases "k < length ins")
    case True
    then have "h = ins ! k" using less.prems by (subst (asm) expr_value.simps) simp
    moreover have "{i. reads (length ins) ops k i} = {k}" using True by (auto simp: reads_iff)
    ultimately show ?thesis by simp
  next
    case False
    let ?node = "ops ! (k - length ins)"
    obtain args where k: "k < length ins + length ops" and early: "list_all (\<lambda>i. unat i < k) (node_args ?node)"
      and args: "those (map (\<lambda>i. expr_value m ins ops (unat i)) (node_args ?node)) = Some args"
      and h: "apply_op m ?node ins args = Some (Inr h)"
      using less.prems False
      by (subst (asm) expr_value.simps) (auto simp: Let_def split: if_splits option.splits sum.splits)
    have ok: "arity_ok ?node" using assms k False by (simp add: list_all_length)
    note n = those_nth [OF args]
    have r: "ma_refs h = concat (map ma_refs args)"
      by (rule apply_op_refs [OF _ h]) (use ok n in \<open>simp add: arity_ok_def\<close>)
    have a: "set (ma_refs (args ! j)) = (\<Union>i \<in> {i. reads (length ins) ops (unat (node_args ?node ! j)) i}. set (ma_refs (ins ! i)))"
      if "j < length (node_args ?node)" for j
      using that n early by (intro less.IH) (auto simp: list_all_length)
    have step: "reads (length ins) ops k i \<longleftrightarrow> (\<exists>j < length (node_args ?node). reads (length ins) ops (unat (node_args ?node ! j)) i)" for i
      using False k by (subst reads_iff) (force simp: set_conv_nth)
    have "set (ma_refs h) = (\<Union>j < length (node_args ?node). set (ma_refs (args ! j)))"
      unfolding r using n by (force simp: set_conv_nth [of args])
    also have "\<dots> = (\<Union>i \<in> {i. reads (length ins) ops k i}. set (ma_refs (ins ! i)))"
      using a by (auto simp: step)
    finally show ?thesis .
  qed
qed

section \<open>Graphs of reachable scopes\<close>

lemma from_buffers_eq:
  assumes "length bufs = length (sc_inputs sc)" and "rmap (view_input m) (zip bufs (sc_inputs sc)) = Inr ins"
  shows "from_fusion_scope_buffers m sc bufs = build_graph m sc ins"
  using assms by (simp add: from_fusion_scope_buffers_def)

lemma build_graph_no_panic: "list_all arity_ok (sc_ops sc) \<Longrightarrow> build_graph m sc ins \<noteq> None"
  using build_graph_values [of sc m ins] by auto

lemma from_scope_no_panic:
  assumes "reachable_scope sc"
  shows "from_fusion_scope m sc cols \<noteq> None" and "from_fusion_scope_buffers m sc bufs \<noteq> None"
  using build_graph_no_panic [OF reachable_arity [OF assms]]
  by (auto simp: from_fusion_scope_def from_fusion_scope_buffers_def split: sum.splits)

text \<open>Fused expressions of Python's scope interface do not panic: for every scope built by \<open>add_input\<close>, \<open>push_op\<close>
  (whose arity check is the only one for most operators) and \<open>mark_output\<close>, building the MLX graph over column buffers
  and running the whole entry point return a result or an error value, whatever MLX, the driver and the buffers do.\<close>

theorem reachable_scope_no_panic:
  assumes "reachable_scope sc"
  shows "from_fusion_scope m sc cols \<noteq> None \<and> from_fusion_scope_buffers m sc bufs \<noteq> None \<and>
    execute_fused_expr no_device drv m mem sc inputs out \<noteq> None"
proof -
  note n = from_scope_no_panic [OF assms]
  have "execute_fused_expr no_device drv m mem sc inputs out \<noteq> None"
    unfolding execute_fused_expr_def by (simp add: n split: option.split prod.split sum.split del: not_None_eq)
  then show ?thesis by (intro conjI n)
qed

text \<open>The MLX graph of a fused expression is the expression: for a scope of Python's interface whose input columns
  can be viewed, the graph is built exactly when every node and every output has a value in the top-down evaluation of
  the scope, and its outputs are then those values, in the order the outputs were marked.\<close>

theorem subgraph_implements_expression:
  assumes "reachable_scope sc" and "length bufs = length (sc_inputs sc)"
    and "rmap (view_input m) (zip bufs (sc_inputs sc)) = Inr ins"
  shows "\<exists>r. from_fusion_scope_buffers m sc bufs = Some r \<and>
    (case r of Inr g \<Rightarrow> Some (sg_outputs g) | Inl _ \<Rightarrow> None) = expr_outputs m ins sc"
  unfolding from_buffers_eq [OF assms(2,3)] by (rule build_graph_values) (rule reachable_arity [OF assms(1)])

text \<open>Zero-copy inputs stay alive: every output of a graph built from a scope of Python's interface holds a reference
  to exactly the column buffers that some path of arguments from it reaches, so no buffer an output may read lazily is
  released before it, and no other buffer is retained.\<close>

theorem outputs_keep_their_inputs:
  assumes "reachable_scope sc" and g: "from_fusion_scope_buffers m sc bufs = Some (Inr g)"
  shows "length (sg_outputs g) = length (sc_outputs sc) \<and>
    (\<forall>j < length (sc_outputs sc). set (ma_refs (sg_outputs g ! j)) =
       (\<lambda>i. bufs ! i) ` {i. reads (length bufs) (sc_ops sc) (unat (sc_outputs sc ! j)) i})"
proof -
  note ok = reachable_arity [OF assms(1)]
  have l: "length bufs = length (sc_inputs sc)" using g by (simp add: from_fusion_scope_buffers_def split: if_splits)
  obtain ins where ins: "rmap (view_input m) (zip bufs (sc_inputs sc)) = Inr ins"
    using g l by (auto simp: from_fusion_scope_buffers_def split: sum.splits)
  have li: "length ins = length bufs" using ins l by (simp add: rmap_Inr_iff)
  have "expr_outputs m ins sc = Some (sg_outputs g)"
    using build_graph_values [OF ok, of m ins] g unfolding from_buffers_eq [OF l ins] by auto
  then have o: "those (map (\<lambda>i. expr_value m ins (sc_ops sc) (unat i)) (sc_outputs sc)) = Some (sg_outputs g)"
    by (simp add: expr_outputs_def split: if_splits)
  have "set (ma_refs (sg_outputs g ! j)) = (\<lambda>i. bufs ! i) ` {i. reads (length bufs) (sc_ops sc) (unat (sc_outputs sc ! j)) i}"
    if "j < length (sc_outputs sc)" for j
  proof -
    have "expr_value m ins (sc_ops sc) (unat (sc_outputs sc ! j)) = Some (sg_outputs g ! j)"
      using those_nth [OF o] that by simp
    note v = value_refs [OF ok this]
    have "set (ma_refs (ins ! i)) = {bufs ! i}" if "reads (length bufs) (sc_ops sc) k i" for k i
    proof -
      have "i < length bufs" using that by induction auto
      then show ?thesis by (simp add: views_refs [OF ins l])
    qed
    then show ?thesis unfolding v li by auto
  qed
  then show ?thesis using those_nth [OF o] by simp
qed

section \<open>Reading the result back\<close>

lemma mlx_to_vec_length: "mlx_to_vec m d h = Inr bs \<Longrightarrow> length bs \<le> elements m h * mlx_element_size d"
  by (auto simp: mlx_to_vec_def split: if_splits)

lemma eval_into_typed_cases:
  assumes "eval_into_typed m g mem out_ptr out_cap out_dtype = (mem', r)"
  obtains (err) e where "r = Inl e" "mem' = mem"
  | (nothing_written) "r = Inr 0" "mem' = mem"
  | (written) h bs where "sg_outputs g = [h]" "r = Inr (elements m h)" "elements m h \<le> out_cap" "ma_dtype m h = Inr out_dtype"
      "mlx_to_vec m out_dtype h = Inr bs" "mem' = write_mem mem out_ptr bs"
proof (cases "sg_outputs g")
  case Nil
  then show ?thesis using assms by (auto simp: eval_into_typed_def intro: err)
next
  case (Cons h hs)
  show ?thesis
  proof (cases hs)
    case Nil
    show ?thesis using assms unfolding eval_into_typed_def Cons Nil
      by (auto simp: result_simps ffi_Inr Let_def Cons Nil split: sum.splits if_splits
          intro: err nothing_written written)
  next
    case (Cons h' hs')
    then show ?thesis using assms \<open>sg_outputs g = h # hs\<close> by (auto simp: eval_into_typed_def intro: err)
  qed
qed

lemma write_mem_frame: "heap (write_mem m a bs) x \<noteq> heap m x \<Longrightarrow> a \<le> x \<and> x < a + length bs"
  by (auto simp: write_mem_def split: if_splits)

text \<open>Reading the result back is confined to the caller's buffer: evaluating a graph into an output of \<open>out_cap\<close>
  elements changes no byte outside that output and allocates nothing, an error leaves memory as it was, and a success
  returns at most \<open>out_cap\<close> elements.\<close>

theorem eval_into_typed_confined:
  assumes "eval_into_typed m g mem out_ptr out_cap out_dtype = (mem', r)"
  shows "(\<forall>x. heap mem' x \<noteq> heap mem x \<longrightarrow> out_ptr \<le> x \<and> x < out_ptr + out_cap * mlx_element_size out_dtype) \<and>
    live mem' = live mem \<and> (case r of Inl _ \<Rightarrow> mem' = mem | Inr n \<Rightarrow> n \<le> out_cap)"
  using assms
proof (cases rule: eval_into_typed_cases)
  case (written h bs)
  have "length bs \<le> out_cap * mlx_element_size out_dtype"
    using mlx_to_vec_length [OF written(5)] written(3) by (meson le_trans mult_le_mono1)
  then have "out_ptr \<le> x \<and> x < out_ptr + out_cap * mlx_element_size out_dtype" if "heap mem' x \<noteq> heap mem x" for x
    using write_mem_frame [of mem out_ptr bs x] that written(6) by simp
  moreover have "live mem' = live mem" by (simp add: written(6) write_mem_def)
  ultimately show ?thesis using written(2,3) by simp
qed auto

section \<open>A concrete run\<close>

text \<open>A toy of MLX for the witnesses: an array is its shape, tag and bytes, addition is bytewise.\<close>

definition demo_mlx :: "(nat list \<times> u32 \<times> bytes) mlx" where
  "demo_mlx = \<lparr>
     mlx_op = (\<lambda>name args ints. if name = ''mlx_op_add'' then
         (case args of (s, t, xs) # (_, _, ys) # _ \<Rightarrow> Inr (s, t, map2 (+) xs ys) | _ \<Rightarrow> Inl ''arguments'')
       else Inl ''unsupported''),
     mlx_view = (\<lambda>buf shape tag. Inr (Some (map nat shape, tag, replicate (buf_len buf) 3))),
     mlx_from_f32 = (\<lambda>xs. Inr None),
     mlx_shape = fst,
     mlx_is_f32 = (\<lambda>h. fst (snd h) = 0),
     mlx_dtype_tag = (\<lambda>h. Inr (fst (snd h))),
     mlx_eval_one = (\<lambda>h. Inr ()),
     mlx_data = (\<lambda>h. snd (snd h))\<rparr>"

definition sum_scope :: fusion_scope where
  "sum_scope = \<lparr>sc_inputs = [(''x'', InI8), (''y'', InI8)],
     sc_ops = [\<lparr>node_op = OAdd, node_args = [0, 1], node_param = None\<rparr>, \<lparr>node_op = OAdd, node_args = [2, 2], node_param = None\<rparr>],
     sc_outputs = [3, 0]\<rparr>"

lemma sum_scope_reachable: "reachable_scope sum_scope"
proof -
  let ?s1 = "\<lparr>sc_inputs = [(''x'', InI8)], sc_ops = [], sc_outputs = []\<rparr>"
  let ?s2 = "\<lparr>sc_inputs = [(''x'', InI8), (''y'', InI8)], sc_ops = [], sc_outputs = []\<rparr>"
  let ?s3 = "\<lparr>sc_inputs = [(''x'', InI8), (''y'', InI8)], sc_ops = [\<lparr>node_op = OAdd, node_args = [0, 1], node_param = None\<rparr>], sc_outputs = []\<rparr>"
  let ?s4 = "sum_scope\<lparr>sc_outputs := []\<rparr>"
  have "py_add_input new_scope ''x'' ''I8'' = Inr (?s1, 0)"
    by (simp add: py_add_input_def parse_input_dtype_def input_dtype_names_def add_input_def new_scope_def)
  with scope_new have s1: "reachable_scope ?s1" by (rule scope_input)
  have "py_add_input ?s1 ''y'' ''I8'' = Inr (?s2, 1)"
    by (simp add: py_add_input_def parse_input_dtype_def input_dtype_names_def add_input_def)
  with s1 have s2: "reachable_scope ?s2" by (rule scope_input)
  have "py_push_op ?s2 ''Add'' [0, 1] None = Inr (?s3, 2)"
    by (simp add: py_push_op_def op_id_from_str_def op_id_table_def op_spec_of_def spec_def push_op_param_def)
  from scope_op [OF s2 _ this] have s3: "reachable_scope ?s3" by simp
  have "py_push_op ?s3 ''Add'' [2, 2] None = Inr (?s4, 3)"
    by (simp add: py_push_op_def op_id_from_str_def op_id_table_def op_spec_of_def spec_def push_op_param_def sum_scope_def)
  from scope_op [OF s3 _ this] have s4: "reachable_scope ?s4" by simp
  have "py_mark_output (py_mark_output ?s4 3) 0 = sum_scope"
    by (simp add: py_mark_output_def mark_output_def sum_scope_def)
  then show ?thesis using scope_output [OF scope_output [OF s4], of 3 0] by simp
qed

definition sum_bufs :: "metal_buffer list" where
  "sum_bufs = [from_metal_owned 100 2, from_metal_owned 200 2]"

definition sum_graph :: "(nat list \<times> u32 \<times> bytes) mlx_subgraph" where
  "sum_graph =
     (let x = \<lparr>ma_ptr = ([2], 4, [3, 3]), ma_refs = [sum_bufs ! 0]\<rparr>; y = \<lparr>ma_ptr = ([2], 4, [3, 3]), ma_refs = [sum_bufs ! 1]\<rparr>;
        s = \<lparr>ma_ptr = ([2], 4, [6, 6]), ma_refs = [sum_bufs ! 0, sum_bufs ! 1]\<rparr>;
        d = \<lparr>ma_ptr = ([2], 4, [12, 12]), ma_refs = [sum_bufs ! 0, sum_bufs ! 1, sum_bufs ! 0, sum_bufs ! 1]\<rparr>
      in \<lparr>sg_handles = [x, y, s, d], sg_outputs = [d, x]\<rparr>)"

lemma sum_scope_views:
  "rmap (view_input demo_mlx) (zip sum_bufs (sc_inputs sum_scope)) = Inr (take 2 (sg_handles sum_graph))"
  by (simp add: sum_bufs_def sum_scope_def sum_graph_def view_input_def input_dtype_to_mlx_def mlx_array_view_metal_buffer_def
      demo_mlx_def runtime_err_def ffi_def mlx_element_size_def mlx_tag_def buf_len_def from_metal_owned_def Let_def numeral_2_eq_2)

lemma sum_graph_built: "from_fusion_scope_buffers demo_mlx sum_scope sum_bufs = Some (Inr sum_graph)"
  unfolding from_fusion_scope_buffers_def sum_scope_views build_graph_def
  by (simp add: sum_bufs_def sum_scope_def sum_graph_def build_op_def apply_op_def arg_count_def with2_def binop_def
      demo_mlx_def runtime_err_def ffi_def node_handle_def Let_def nth_Cons')

lemma sum_graph_outputs: "map ma_ptr (sg_outputs sum_graph) = [([2], 4, [12, 12]), ([2], 4, [3, 3])]"
  by (simp add: sum_graph_def Let_def)

theorem reachable_scope_no_panic_witness:
  "from_fusion_scope_buffers demo_mlx sum_scope sum_bufs \<noteq> None \<and> sc_ops sum_scope \<noteq> []"
  using reachable_scope_no_panic [OF sum_scope_reachable, of demo_mlx "[]" sum_bufs None undefined "\<lparr>heap = \<lambda>_. 0, live = []\<rparr>" "[]" "(0, 0, 0)"]
  by (elim conjE, intro conjI) (assumption, simp add: sum_scope_def)

theorem subgraph_implements_expression_witness:
  "expr_outputs demo_mlx (take 2 (sg_handles sum_graph)) sum_scope = Some (sg_outputs sum_graph)"
  using subgraph_implements_expression [OF sum_scope_reachable _ sum_scope_views] sum_graph_built
  by (simp add: sum_bufs_def sum_scope_def)

theorem outputs_keep_their_inputs_witness:
  "set (ma_refs (sg_outputs sum_graph ! 0)) = {sum_bufs ! 0, sum_bufs ! 1} \<and> set (ma_refs (sg_outputs sum_graph ! 1)) = {sum_bufs ! 0}"
proof -
  let ?ops = "sc_ops sum_scope"
  have r0: "reads 2 ?ops 0 i \<longleftrightarrow> i = 0" and r1: "reads 2 ?ops 1 i \<longleftrightarrow> i = 1" for i
    by (subst reads_iff, simp)+
  have r2: "reads 2 ?ops 2 i \<longleftrightarrow> i = 0 \<or> i = 1" for i
    by (subst reads_iff) (simp add: sum_scope_def r0 [unfolded sum_scope_def, simplified] r1 [unfolded sum_scope_def, simplified])
  have r3: "reads 2 ?ops 3 i \<longleftrightarrow> i = 0 \<or> i = 1" for i
    by (subst reads_iff) (simp add: sum_scope_def r2 [unfolded sum_scope_def, simplified])
  have "{i. reads 2 ?ops 3 i} = {0, 1}" "{i. reads 2 ?ops 0 i} = {0}" using r3 r0 by auto
  note s = this
  have l: "length sum_bufs = 2" "length (sc_outputs sum_scope) = 2" "unat (sc_outputs sum_scope ! 0) = 3" "unat (sc_outputs sum_scope ! 1) = 0"
    by (simp_all add: sum_bufs_def sum_scope_def)
  show ?thesis
    using outputs_keep_their_inputs [OF sum_scope_reachable sum_graph_built, THEN conjunct2, rule_format, of 0]
      outputs_keep_their_inputs [OF sum_scope_reachable sum_graph_built, THEN conjunct2, rule_format, of 1]
    unfolding l by (simp add: s)
qed

theorem eval_into_typed_confined_witness:
  "\<exists>mem' n. eval_into_typed demo_mlx (sum_graph\<lparr>sg_outputs := [sg_outputs sum_graph ! 0]\<rparr>) demo_mem 16 2 MI8 = (mem', Inr n) \<and> n = 2 \<and>
     heap mem' 18 = heap demo_mem 18"
proof -
  let ?r = "eval_into_typed demo_mlx (sum_graph\<lparr>sg_outputs := [sg_outputs sum_graph ! 0]\<rparr>) demo_mem 16 2 MI8"
  have n: "snd ?r = Inr 2"
    by (simp add: eval_into_typed_def sum_graph_def Let_def demo_mlx_def runtime_err_def ffi_def ma_dtype_def elements_def
        ma_shape_def mlx_to_vec_def mlx_from_tag_def)
  then have "?r = (fst ?r, Inr 2)" by (metis prod.collapse)
  from eval_into_typed_confined [OF this] have "heap (fst ?r) 18 = heap demo_mem 18"
    by (auto simp: mlx_element_size_def)
  then show ?thesis using n by (metis prod.collapse)
qed

end
