(* ===== verification/Router_Udf.thy ===== *)
theory Router_Udf
  imports Router Plan_Exec
begin

text \<open>Models \<open>polars-metal-core/src/router_udf.rs\<close>: the walk over the walker's dictionaries that assigns every plan node its
  number and its decision, and the dictionary returned to Python.\<close>

section \<open>The walk\<close>

datatype route_error = RouteMissing string | RouteExtract string | RouteNotDict string

definition route_kind :: "string \<Rightarrow> py_dict \<Rightarrow> route_error + string" where
  "route_kind msg d =
     (case map_of d ''kind'' of
        None \<Rightarrow> Inl (RouteMissing msg)
      | Some v \<Rightarrow> (case extract_string v of None \<Rightarrow> Inl (RouteExtract ''kind'') | Some s \<Rightarrow> Inr s))"

definition route_input :: "string \<Rightarrow> py_dict \<Rightarrow> route_error + py_dict" where
  "route_input msg d =
     (case map_of d ''input'' of
        None \<Rightarrow> Inl (RouteMissing msg)
      | Some v \<Rightarrow> (case as_dict v of None \<Rightarrow> Inl (RouteNotDict ''input'') | Some i \<Rightarrow> Inr i))"

abbreviation route_measure :: "py_dict \<Rightarrow> nat" where
  "route_measure d \<equiv> size_list (size_prod (\<lambda>_. 0) size) d"

lemma route_input_Inr: "route_input msg d = Inr i \<longleftrightarrow> map_of d ''input'' = Some (PyDictOf i)"
  by (auto simp: route_input_def split: option.splits elim: as_dict.elims)

lemma route_input_smaller: "route_input msg d = Inr i \<Longrightarrow> route_measure i < route_measure d"
  by (auto simp: route_input_Inr dest!: map_of_size)

function peek_input_row_count :: "py_dict \<Rightarrow> route_error + nat" where
  "peek_input_row_count d =
     (case route_kind ''missing 'kind' '' d of
        Inl e \<Rightarrow> Inl e
      | Inr kd \<Rightarrow>
          if kd = ''Scan'' then
            (case map_of d ''n_rows'' of
               None \<Rightarrow> Inl (RouteMissing ''Scan: missing n_rows'')
             | Some v \<Rightarrow> (case extract_usize v of None \<Rightarrow> Inl (RouteExtract ''n_rows'') | Some n \<Rightarrow> Inr n))
          else if kd \<in> {''Project'', ''Filter'', ''GroupBy'', ''Sort'', ''HStack''} then
            (case route_input ''missing 'input' in row-count peek'' d of Inl e \<Rightarrow> Inl e | Inr i \<Rightarrow> peek_input_row_count i)
          else Inr 0)"
  by pat_completeness auto

termination
  by (relation "measure route_measure") (auto dest: route_input_smaller)

declare peek_input_row_count.simps [simp del]

definition child_decision :: "lifting_plan \<Rightarrow> node_id \<Rightarrow> node_decision" where
  "child_decision lifting child =
     (case lp_get lifting child of None \<Rightarrow> Fallback ''missing child decision'' | Some d \<Rightarrow> d)"

definition unsupported_node :: "string \<Rightarrow> string" where
  "unsupported_node other = ''unsupported IR node: '' @ other"

text \<open>The node that the walk finishes: its identifier, its number, its decision.\<close>

definition record_node :: "string \<Rightarrow> (lifting_plan \<Rightarrow> node_decision) \<Rightarrow> u32 \<times> lifting_plan \<Rightarrow> node_id \<times> u32 \<times> lifting_plan" where
  "record_node kd decision = (\<lambda>(next_seq, lifting).
     let i = node_id_new kd next_seq in (i, next_seq + 1, lp_set lifting i (decision lifting)))"

function parse_and_route :: "py_dict \<Rightarrow> u32 \<times> lifting_plan \<Rightarrow> route_error + node_id \<times> u32 \<times> lifting_plan" where
  "parse_and_route d st =
     (case route_kind ''router: missing 'kind' '' d of
        Inl e \<Rightarrow> Inl e
      | Inr kd \<Rightarrow>
          if kd = ''Scan'' then Inr (record_node ''Scan'' (\<lambda>_. decide_scan_initial) st)
          else if kd \<in> {''Project'', ''Sort'', ''HStack''} then
            (case route_input (kd @ '': missing input'') d of
               Inl e \<Rightarrow> Inl e
             | Inr i \<Rightarrow> rbind (parse_and_route i st) (\<lambda>(child, st').
                 Inr (record_node kd (\<lambda>lifting. if kd = ''Project'' then decide_project (child_decision lifting child)
                   else child_decision lifting child) st')))
          else if kd = ''Filter'' then
            (case route_input ''Filter: missing input'' d of
               Inl e \<Rightarrow> Inl e
             | Inr i \<Rightarrow> rbind (parse_and_route i st) (\<lambda>(_, st'). Inr (record_node ''Filter'' (\<lambda>_. decide_filter 0) st')))
          else if kd = ''GroupBy'' then
            (case route_input ''GroupBy: missing input'' d of
               Inl e \<Rightarrow> Inl e
             | Inr i \<Rightarrow> (case peek_input_row_count i of
                   Inl e \<Rightarrow> Inl e
                 | Inr n_rows \<Rightarrow> rbind (parse_and_route i st) (\<lambda>(_, st'). Inr (record_node ''GroupBy'' (\<lambda>_. decide_groupby n_rows) st'))))
          else
            (case route_input [] d of
               Inl _ \<Rightarrow> Inr (record_node kd (\<lambda>_. Fallback (unsupported_node kd)) st)
             | Inr i \<Rightarrow> rbind (parse_and_route i st) (\<lambda>(_, st').
                 Inr (record_node kd (\<lambda>_. Fallback (unsupported_node kd)) st'))))"
  by pat_completeness auto

termination
  by (relation "measure (\<lambda>(d, st). route_measure d)") (auto dest: route_input_smaller)

declare parse_and_route.simps [simp del]

definition decision_text :: "node_decision \<Rightarrow> string" where
  "decision_text d = (case d of GpuLift \<Rightarrow> ''gpu_lift'' | CpuLeave \<Rightarrow> ''cpu_leave'' | Fallback reason \<Rightarrow> ''fallback:'' @ reason)"

text \<open>A Python dictionary keeps the last value set under a key; \<open>it\<close> is the order in which the hash map is iterated.\<close>

definition compute_lifting_plan_py :: "(lifting_plan \<Rightarrow> lifting_plan) \<Rightarrow> py_dict \<Rightarrow> route_error + (string \<rightharpoonup> string)" where
  "compute_lifting_plan_py it plan_dict =
     (case parse_and_route plan_dict (0, []) of
        Inl e \<Rightarrow> Inl e
      | Inr (_, _, lifting) \<Rightarrow> Inr (foldl (\<lambda>out (i, d). out(to_wire i \<mapsto> decision_text d)) Map.empty (it lifting)))"

section \<open>What the walk decides\<close>

text \<open>The tree a dictionary stands for: a scan, a node over its input, or a node of another kind without one.\<close>

datatype route_tree = RScan nat | RNode string route_tree | RLeaf string

definition walked_kinds :: "string list" where
  "walked_kinds = [''Scan'', ''Project'', ''Filter'', ''GroupBy'', ''Sort'', ''HStack'']"

fun represents :: "route_tree \<Rightarrow> py_dict \<Rightarrow> bool" where
  "represents (RScan n) d \<longleftrightarrow> map_of d ''kind'' = Some (PyStr ''Scan'') \<and> map_of d ''n_rows'' = Some (PyInt (int n)) \<and> n < 2 ^ 64"
| "represents (RNode kd t) d \<longleftrightarrow> kd \<noteq> ''Scan'' \<and> map_of d ''kind'' = Some (PyStr kd) \<and>
     (case map_of d ''input'' of Some (PyDictOf i) \<Rightarrow> represents t i | _ \<Rightarrow> False)"
| "represents (RLeaf kd) d \<longleftrightarrow> kd \<notin> set walked_kinds \<and> map_of d ''kind'' = Some (PyStr kd) \<and>
     (case map_of d ''input'' of Some (PyDictOf i) \<Rightarrow> False | _ \<Rightarrow> True)"

fun tree_kind :: "route_tree \<Rightarrow> string" where
  "tree_kind (RScan n) = ''Scan''" | "tree_kind (RNode kd t) = kd" | "tree_kind (RLeaf kd) = kd"

fun tree_rows :: "route_tree \<Rightarrow> nat" where
  "tree_rows (RScan n) = n"
| "tree_rows (RNode kd t) = (if kd \<in> set walked_kinds then tree_rows t else 0)"
| "tree_rows (RLeaf kd) = 0"

text \<open>The decision: group-bys over enough rows are lifted, projections, sorts and appended columns follow their input,
  scans and filters stay, any other node falls back.\<close>

fun tree_decides :: "route_tree \<Rightarrow> node_decision" where
  "tree_decides (RScan n) = CpuLeave"
| "tree_decides (RNode kd t) =
     (if kd \<in> {''Project'', ''Sort'', ''HStack''} then tree_decides t
      else if kd = ''Filter'' then CpuLeave
      else if kd = ''GroupBy'' then (if 100000 < tree_rows t then GpuLift else CpuLeave)
      else Fallback (unsupported_node kd))"
| "tree_decides (RLeaf kd) = Fallback (unsupported_node kd)"

fun tree_post :: "route_tree \<Rightarrow> route_tree list" where
  "tree_post (RScan n) = [RScan n]"
| "tree_post (RNode kd t) = tree_post t @ [RNode kd t]"
| "tree_post (RLeaf kd) = [RLeaf kd]"

lemma tree_post_last: "tree_post t \<noteq> []" "last (tree_post t) = t"
  by (cases t; simp)+

lemma represents_kind: "represents t d \<Longrightarrow> route_kind msg d = Inr (tree_kind t)"
  by (cases t) (auto simp: route_kind_def)

lemma represents_node: "represents (RNode kd t) d \<Longrightarrow> \<exists>i. map_of d ''input'' = Some (PyDictOf i) \<and> represents t i"
  by (auto split: option.splits py_value.splits)

lemma peek_rows: "represents t d \<Longrightarrow> peek_input_row_count d = Inr (tree_rows t)"
proof (induction t arbitrary: d)
  case (RScan n)
  then show ?case by (subst peek_input_row_count.simps) (simp add: represents_kind [OF RScan])
next
  case (RNode kd t)
  obtain i where i: "map_of d ''input'' = Some (PyDictOf i)" "represents t i" using represents_node [OF RNode.prems] by auto
  have k: "kd \<noteq> ''Scan''" using RNode.prems by simp
  have "route_input msg d = Inr i" for msg using i by (simp add: route_input_Inr)
  then show ?case using RNode.IH [OF i(2)] k
    by (subst peek_input_row_count.simps) (simp add: represents_kind [OF RNode.prems] walked_kinds_def)
next
  case (RLeaf kd)
  then have k: "kd \<notin> set walked_kinds" by simp
  show ?case using k by (subst peek_input_row_count.simps) (simp add: represents_kind [OF RLeaf] walked_kinds_def)
qed

lemma route_spec:
  assumes "represents t d" "\<forall>i \<in> fst ` set plan. unat (seq i) < k" "k + length (tree_post t) < 2 ^ 32"
  shows "parse_and_route d (of_nat k, plan) =
    Inr (node_id_new (tree_kind t) (of_nat (k + length (tree_post t) - 1)), of_nat (k + length (tree_post t)),
      plan @ numbered tree_kind tree_decides k (tree_post t))"
  using assms
proof (induction t arbitrary: d)
  case (RScan n)
  show ?case using numbered_set_next [of plan k "[]" tree_kind tree_decides "RScan n"] RScan.prems
    by (subst parse_and_route.simps)
      (simp add: represents_kind [OF RScan.prems(1)] record_node_def Let_def decide_scan_initial_def numbered_def add.commute)
next
  case (RNode kd t)
  let ?l = "length (tree_post t)"
  let ?plan = "plan @ numbered tree_kind tree_decides k (tree_post t)"
  obtain i where i: "map_of d ''input'' = Some (PyDictOf i)" "represents t i" using represents_node [OF RNode.prems(1)] by auto
  have r: "route_input msg d = Inr i" for msg using i by (simp add: route_input_Inr)
  have k: "kd \<noteq> ''Scan''" using RNode.prems by simp
  have IH: "parse_and_route i (of_nat k, plan) =
      Inr (node_id_new (tree_kind t) (of_nat (k + ?l - 1)), of_nat (k + ?l), ?plan)"
    using RNode.IH [OF i(2)] RNode.prems by simp
  have c: "child_decision ?plan (node_id_new (tree_kind t) (of_nat (k + ?l - 1))) = tree_decides t"
    using numbered_get_last [of plan k "tree_post t" tree_kind tree_decides] RNode.prems tree_post_last [of t]
    by (simp add: child_decision_def)
  have s: "lp_set ?plan (node_id_new kd (of_nat (k + ?l))) (tree_decides (RNode kd t)) =
      plan @ numbered tree_kind tree_decides k (tree_post (RNode kd t))"
    using numbered_set_next [of plan k "tree_post t" tree_kind tree_decides "RNode kd t"] RNode.prems by simp
  have kind: "route_kind msg d = Inr kd" for msg using represents_kind [OF RNode.prems(1)] by simp
  consider (inherit) "kd = ''Project'' \<or> kd = ''Sort'' \<or> kd = ''HStack''" | (filt) "kd = ''Filter''" | (grp) "kd = ''GroupBy''"
    | (other) "kd \<notin> set walked_kinds"
    using k by (auto simp: walked_kinds_def)
  then have "parse_and_route d (of_nat k, plan) =
      Inr (node_id_new kd (of_nat (k + ?l)), of_nat (k + ?l) + 1, lp_set ?plan (node_id_new kd (of_nat (k + ?l))) (tree_decides (RNode kd t)))"
  proof cases
    case inherit
    then show ?thesis
      unfolding parse_and_route.simps [of d] kind r by (elim disjE) (simp_all add: IH c [unfolded One_nat_def] record_node_def Let_def del: of_nat_add)
  next
    case filt
    then show ?thesis
      unfolding parse_and_route.simps [of d] kind r by (simp add: IH record_node_def Let_def decide_filter_def del: of_nat_add)
  next
    case grp
    then show ?thesis
      unfolding parse_and_route.simps [of d] kind r
      by (simp add: IH peek_rows [OF i(2)] record_node_def Let_def decide_groupby_def groupby_gpu_min_rows_def del: of_nat_add)
  next
    case other
    then show ?thesis
      unfolding parse_and_route.simps [of d] kind r
      by (simp add: IH record_node_def Let_def walked_kinds_def del: of_nat_add)
  qed
  then show ?case unfolding s by simp
next
  case (RLeaf kd)
  have k: "kd \<notin> set walked_kinds" using RLeaf by simp
  have r: "\<exists>e. route_input msg d = Inl e" for msg
    using RLeaf.prems(1) by (cases "route_input msg d") (auto simp: route_input_Inr)
  obtain e where e: "route_input [] d = Inl e" using r by auto
  show ?case using numbered_set_next [of plan k "[]" tree_kind tree_decides "RLeaf kd"] RLeaf.prems k
    by (subst parse_and_route.simps)
      (simp add: represents_kind [OF RLeaf.prems(1)] record_node_def Let_def e numbered_def walked_kinds_def add.commute)
qed

section \<open>The returned dictionary\<close>

lemma digit_char_not_hash: "d < 10 \<Longrightarrow> CHR ''#'' \<noteq> digit_char d"
proof -
  assume d: "d < 10"
  have "CHR ''#'' = char_of (35 :: nat)" by code_simp
  then show ?thesis using d by (simp add: digit_char_def char_of_eq_iff take_bit_nat_eq_self)
qed

lemma show_nat_no_hash: "CHR ''#'' \<notin> set (show_nat n)"
  by (induction n rule: show_nat.induct) (subst show_nat.simps, simp add: digit_char_not_hash)

lemma to_wire_inj:
  assumes "to_wire i = to_wire j"
  shows "kind i = kind j \<and> seq i = seq j"
proof -
  have t: "takeWhile (\<lambda>c. c \<noteq> CHR ''#'') (rev (to_wire i)) = rev (show_nat (unat (seq i)))" for i :: node_id
    using show_nat_no_hash [of "unat (seq i)"] by (auto simp: to_wire_def takeWhile_append intro!: takeWhile_eq_all_conv [THEN iffD2])
  have "rev (show_nat (unat (seq i))) = rev (show_nat (unat (seq j)))" using t [of i] t [of j] assms by simp
  then have "unat (seq i) = unat (seq j)" using show_nat_inj by simp
  then show ?thesis using assms by (simp add: to_wire_def word_unat_eq_iff)
qed

lemma option_eqI: "(\<And>v. a = Some v \<longleftrightarrow> b = Some v) \<Longrightarrow> a = b"
  by (cases a; cases b) auto

lemma dict_of_entries:
  assumes "\<forall>e \<in> set xs. \<forall>e' \<in> set xs. to_wire (fst e) = to_wire (fst e') \<longrightarrow> snd e = snd e'"
  shows "foldl (\<lambda>out (i, d). out(to_wire i \<mapsto> decision_text d)) Map.empty xs w = Some v \<longleftrightarrow>
    (\<exists>(i, d) \<in> set xs. to_wire i = w \<and> decision_text d = v)"
  using assms
proof (induction xs rule: rev_induct)
  case (snoc e xs)
  obtain i d where e: "e = (i, d)" by force
  show ?case using snoc by (auto simp: e)
qed simp

text \<open>What Python gets for a list of numbered decisions.\<close>

definition wire_dict :: "lifting_plan \<Rightarrow> string \<rightharpoonup> string" where
  "wire_dict plan = map_of (map (\<lambda>(i, d). (to_wire i, decision_text d)) plan)"

lemma numbered_wire_distinct:
  assumes "length ns < 2 ^ 32"
  shows "distinct (map (to_wire \<circ> fst) (numbered kd dc 0 ns))"
proof -
  have "to_wire (fst (numbered kd dc 0 ns ! a)) \<noteq> to_wire (fst (numbered kd dc 0 ns ! b))"
    if "a < length ns" "b < length ns" "a \<noteq> b" for a b
  proof
    assume "to_wire (fst (numbered kd dc 0 ns ! a)) = to_wire (fst (numbered kd dc 0 ns ! b))"
    from to_wire_inj [OF this] have "(of_nat a :: u32) = of_nat b" using that by (simp add: numbered_nth node_id_new_def)
    then have "unat (of_nat a :: u32) = unat (of_nat b :: u32)" by simp
    then show False using that assms by (simp add: unat_of_nat)
  qed
  then show ?thesis by (simp add: distinct_conv_nth)
qed

lemma entry_point_dict:
  assumes r: "represents t d" and small: "length (tree_post t) < 2 ^ 32" and it: "\<And>plan. set (it plan) = set plan"
  shows "compute_lifting_plan_py it d = Inr (wire_dict (numbered tree_kind tree_decides 0 (tree_post t)))"
proof -
  let ?plan = "numbered tree_kind tree_decides 0 (tree_post t)"
  have w: "parse_and_route d (0, []) = Inr (node_id_new (tree_kind t) (of_nat (length (tree_post t) - 1)), of_nat (length (tree_post t)), ?plan)"
    using route_spec [OF r, of "[]" 0] small by simp
  note dist = numbered_wire_distinct [OF small, of tree_kind tree_decides]
  have one: "e = e'" if "e \<in> set ?plan" "e' \<in> set ?plan" "to_wire (fst e) = to_wire (fst e')" for e e'
    using dist that by (metis (no_types, lifting) comp_apply distinct_map inj_on_def)
  have "foldl (\<lambda>out (i, d). out(to_wire i \<mapsto> decision_text d)) Map.empty (it ?plan) w = wire_dict ?plan w" for w
  proof -
    have "wire_dict ?plan w = Some v \<longleftrightarrow> (\<exists>(i, d) \<in> set ?plan. to_wire i = w \<and> decision_text d = v)" for v
      unfolding wire_dict_def using dist
      by (subst map_of_eq_Some_iff) (auto simp: comp_def case_prod_unfold)
    moreover have "foldl (\<lambda>out (i, d). out(to_wire i \<mapsto> decision_text d)) Map.empty (it ?plan) w = Some v \<longleftrightarrow>
        (\<exists>(i, d) \<in> set ?plan. to_wire i = w \<and> decision_text d = v)" for v
    proof -
      have "\<forall>e \<in> set (it ?plan). \<forall>e' \<in> set (it ?plan). to_wire (fst e) = to_wire (fst e') \<longrightarrow> snd e = snd e'"
        unfolding it using one by blast
      from dict_of_entries [OF this, of w v] show ?thesis unfolding it .
    qed
    ultimately show ?thesis by (intro option_eqI) simp
  qed
  then show ?thesis by (simp add: compute_lifting_plan_py_def w fun_eq_iff)
qed

text \<open>The routing entry point decides every node of the walker's plan: for a dictionary that stands for a plan tree,
  whatever the order in which the hash map is iterated, the result has one entry per node, keyed by its kind and its
  post-order number, and the decision is to lift a group-by over more than 100000 scanned rows, to leave scans, filters
  and smaller group-bys to the CPU, to inherit for projections, sorts and appended columns, and to fall back otherwise.\<close>

theorem routing_entry_correct:
  assumes "represents t d" and "length (tree_post t) < 2 ^ 32" and "\<And>plan. set (it plan) = set plan"
  shows "\<exists>out. compute_lifting_plan_py it d = Inr out \<and> card (dom out) = length (tree_post t) \<and>
    (\<forall>j < length (tree_post t). out (tree_kind (tree_post t ! j) @ ''#'' @ show_nat j) = Some (decision_text (tree_decides (tree_post t ! j))))"
proof -
  let ?plan = "numbered tree_kind tree_decides 0 (tree_post t)"
  let ?kv = "map (\<lambda>(i, d). (to_wire i, decision_text d)) ?plan"
  have d: "distinct (map fst ?kv)"
    using numbered_wire_distinct [OF assms(2), of tree_kind tree_decides] by (simp add: comp_def case_prod_unfold)
  have "card (dom (wire_dict ?plan)) = length (tree_post t)"
    unfolding wire_dict_def dom_map_of_conv_image_fst using distinct_card [OF d] by (simp only: set_map length_map numbered_length)
  moreover have "wire_dict ?plan (tree_kind (tree_post t ! j) @ ''#'' @ show_nat j) = Some (decision_text (tree_decides (tree_post t ! j)))"
    if j: "j < length (tree_post t)" for j
  proof -
    have "?kv ! j = (tree_kind (tree_post t ! j) @ ''#'' @ show_nat j, decision_text (tree_decides (tree_post t ! j)))"
      using j assms(2) by (simp add: numbered_nth to_wire_def node_id_new_def unat_of_nat)
    then have "(tree_kind (tree_post t ! j) @ ''#'' @ show_nat j, decision_text (tree_decides (tree_post t ! j))) \<in> set ?kv"
      using j by (metis length_map nth_mem numbered_length)
    then show ?thesis unfolding wire_dict_def using d by (rule map_of_is_SomeI [rotated])
  qed
  ultimately show ?thesis using entry_point_dict [where it = it, OF assms] by blast
qed

section \<open>The entry point and the router\<close>

text \<open>The plan language without its column lists.\<close>

fun plan_tree :: "metal_plan_node \<Rightarrow> route_tree" where
  "plan_tree (Scan n _) = RScan n"
| "plan_tree (Project i _) = RNode ''Project'' (plan_tree i)"
| "plan_tree (Filter i _) = RNode ''Filter'' (plan_tree i)"
| "plan_tree (GroupBy i _ _) = RNode ''GroupBy'' (plan_tree i)"

fun is_groupby :: "metal_plan_node \<Rightarrow> bool" where
  "is_groupby (GroupBy _ _ _) = True" | "is_groupby _ = False"

lemma tree_post_plan: "tree_post (plan_tree p) = map plan_tree (post_order p)"
  by (induction p) simp_all

lemma tree_kind_plan: "tree_kind (plan_tree p) = node_kind p"
  by (cases p) simp_all

lemma tree_rows_plan: "\<forall>n \<in> set (post_order p). \<not> is_groupby n \<Longrightarrow> tree_rows (plan_tree p) = input_row_count p"
  by (induction p) (simp_all add: walked_kinds_def)

text \<open>The two deciders agree on a node unless the router falls back; a group-by is over plain inputs.\<close>

lemma tree_decides_plan:
  assumes "length (filter is_groupby (post_order p)) \<le> 1" and "\<forall>n \<in> set (post_order p). \<not> is_fallback (node_decides n)"
  shows "tree_decides (plan_tree p) = node_decides p"
  using assms
proof (induction p)
  case (GroupBy i ks as)
  have "filter is_groupby (post_order i) = []" using GroupBy.prems(1) by simp
  then have "tree_rows (plan_tree i) = input_row_count i" by (intro tree_rows_plan) (auto simp: filter_empty_conv)
  then show ?case using GroupBy.prems(2)
    by (auto simp: is_fallback_def decide_groupby_with_keys_def decide_groupby_def groupby_gpu_min_rows_def Let_def split: if_splits)
qed auto

lemma post_order_prefix: "n \<in> set (post_order p) \<Longrightarrow> \<exists>ys. post_order p = post_order n @ ys"
  by (induction p) force+

lemma numbered_plan:
  assumes "\<forall>n \<in> set ns. tree_decides (plan_tree n) = node_decides n"
  shows "numbered tree_kind tree_decides k (map plan_tree ns) = numbered node_kind node_decides k ns"
  using assms by (intro nth_equalityI) (simp_all add: numbered_nth tree_kind_plan)

text \<open>The routing entry point and the router of the plan language agree: on the dictionary of a plan with at most one
  group-by whose nodes the router does not send to the fallback, Python gets exactly the decisions of
  \<open>compute_lifting_plan\<close>, in any iteration order of the hash map.\<close>

theorem entry_agrees_with_router:
  assumes r: "represents (plan_tree p) d" and small: "length (post_order p) < 2 ^ 32"
    and it: "\<And>plan. set (it plan) = set plan"
    and one: "length (filter is_groupby (post_order p)) \<le> 1" and fb: "\<forall>n \<in> set (post_order p). \<not> is_fallback (node_decides n)"
  shows "compute_lifting_plan_py it d = Inr (wire_dict (compute_lifting_plan p))"
proof -
  have "tree_decides (plan_tree n) = node_decides n" if n: "n \<in> set (post_order p)" for n
  proof -
    obtain ys where ys: "post_order p = post_order n @ ys" using post_order_prefix [OF n] by auto
    show ?thesis by (rule tree_decides_plan) (use one fb ys in auto)
  qed
  then have "numbered tree_kind tree_decides 0 (tree_post (plan_tree p)) = compute_lifting_plan p"
    unfolding tree_post_plan compute_lifting_plan_eq [OF small] by (intro numbered_plan) simp
  then show ?thesis using entry_point_dict [OF r _ it] small by (simp add: tree_post_plan)
qed

definition demo_route :: py_dict where
  "demo_route =
     [(''kind'', PyStr ''Sort''), (''input'', PyDictOf [(''kind'', PyStr ''GroupBy''), (''input'', PyDictOf [(''kind'', PyStr ''HStack''), (''input'', PyDictOf
       [(''kind'', PyStr ''Scan''), (''n_rows'', PyInt 200000)])])])]"

theorem routing_entry_correct_witness:
  "\<exists>out. compute_lifting_plan_py rev demo_route = Inr out \<and> card (dom out) = 4 \<and> out ''Sort#3'' = Some ''gpu_lift'' \<and>
     out ''HStack#1'' = Some ''cpu_leave''"
proof -
  let ?t = "RNode ''Sort'' (RNode ''GroupBy'' (RNode ''HStack'' (RScan 200000)))"
  have r: "represents ?t demo_route" by (simp add: demo_route_def)
  have s: "show_nat 3 = ''3''" "show_nat 1 = ''1''" by code_simp+
  obtain out where o: "compute_lifting_plan_py rev demo_route = Inr out" "card (dom out) = length (tree_post ?t)"
    and j: "\<And>j. j < length (tree_post ?t) \<Longrightarrow> out (tree_kind (tree_post ?t ! j) @ ''#'' @ show_nat j) = Some (decision_text (tree_decides (tree_post ?t ! j)))"
    using routing_entry_correct [OF r, of rev] by auto
  have "out (''Sort'' @ ''#'' @ ''3'') = Some ''gpu_lift''" using j [of 3] by (simp add: s decision_text_def walked_kinds_def)
  moreover have "out (''HStack'' @ ''#'' @ ''1'') = Some ''cpu_leave''" using j [of 1] by (simp add: s [unfolded One_nat_def] decision_text_def)
  ultimately show ?thesis using o by simp
qed

definition demo_grouped :: "metal_dtype \<Rightarrow> metal_plan_node" where
  "demo_grouped t = GroupBy (Scan 200000 [(''k'', t), (''l'', t)]) [(''k'', t), (''l'', t)] []"

definition demo_grouped_dict :: py_dict where
  "demo_grouped_dict = [(''kind'', PyStr ''GroupBy''), (''input'', PyDictOf [(''kind'', PyStr ''Scan''), (''n_rows'', PyInt 200000)])]"

theorem entry_agrees_with_router_witness:
  "compute_lifting_plan_py (\<lambda>l. l) demo_grouped_dict = Inr (wire_dict (compute_lifting_plan (demo_grouped I32)))"
  by (rule entry_agrees_with_router)
    (simp_all add: demo_grouped_def demo_grouped_dict_def expression_falls_back_def decide_groupby_with_keys_def is_fallback_def decide_groupby_def)

text \<open>Where the router falls back, the entry point does not: two 64-bit keys exceed the 128 bits of a composite key.\<close>

theorem wide_keys_are_lifted:
  "compute_lifting_plan_py (\<lambda>l. l) demo_grouped_dict = Inr (wire_dict (numbered tree_kind tree_decides 0 [RScan 200000, RNode ''GroupBy'' (RScan 200000)])) \<and>
   tree_decides (RNode ''GroupBy'' (RScan 200000)) = GpuLift \<and> is_fallback (node_decides (demo_grouped I64))"
  using entry_point_dict [of "RNode ''GroupBy'' (RScan 200000)" demo_grouped_dict "\<lambda>l. l"]
  by (simp add: demo_grouped_def demo_grouped_dict_def expression_falls_back_def decide_groupby_with_keys_def is_fallback_def)

end
