(* ===== verification/Civil.thy ===== *)
theory Civil
  imports Prelude "HOL-Library.Signed_Division"
begin

text \<open>The date kernel \<open>shaders/dt_gregorian.metal\<close>: year, month and day of a number of days since 1970-01-01, in 32-bit
  integers whose division truncates, against the proleptic Gregorian calendar.\<close>

section \<open>The kernel\<close>

text \<open>A 32-bit result. Sums and products are reduced once per value: reduction commutes with them.\<close>

definition wrap32 :: "int \<Rightarrow> int" where
  "wrap32 x = signed_take_bit 31 x"

definition civil_fields :: "int \<Rightarrow> int \<times> int \<times> int" where
  "civil_fields input =
     (let z = wrap32 (input + 719468);
          era = (if z \<ge> 0 then z else wrap32 (z - 146096)) sdiv 146097;
          doe = wrap32 (z - era * 146097);
          yoe = wrap32 (doe - doe sdiv 1460 + doe sdiv 36524 - doe sdiv 146096) sdiv 365;
          y = wrap32 (yoe + era * 400);
          doy = wrap32 (doe - (365 * yoe + yoe sdiv 4 - yoe sdiv 100));
          mp = wrap32 (5 * doy + 2) sdiv 153;
          d = wrap32 (doy - wrap32 (153 * mp + 2) sdiv 5 + 1);
          m = (if mp < 10 then wrap32 (mp + 3) else wrap32 (mp - 9));
          year = wrap32 (y + (if m \<le> 2 then 1 else 0))
      in (year, m, d))"

definition field_from_days :: "u32 \<Rightarrow> u32 \<Rightarrow> u32" where
  "field_from_days field input =
     (case civil_fields (sint input) of (year, m, d) \<Rightarrow>
        word_of_int (if field = 0 then year else if field = 1 then m else d))"

section \<open>The calendar\<close>

definition leap_year :: "int \<Rightarrow> bool" where
  "leap_year y \<longleftrightarrow> 4 dvd y \<and> (\<not> 100 dvd y \<or> 400 dvd y)"

definition month_length :: "int \<Rightarrow> int \<Rightarrow> int" where
  "month_length y m = (if m = 2 then (if leap_year y then 29 else 28) else if m \<in> {4, 6, 9, 11} then 30 else 31)"

text \<open>The first of January of year \<open>y\<close>, the days of the year before month \<open>m\<close>, and the number of a date.\<close>

definition year_start :: "int \<Rightarrow> int" where
  "year_start y = 365 * (y - 1) + (y - 1) div 4 - (y - 1) div 100 + (y - 1) div 400 - 719162"

definition days_before_month :: "int \<Rightarrow> int \<Rightarrow> int" where
  "days_before_month y m = sum_list (map (month_length y) [1..m - 1])"

definition day_number :: "int \<Rightarrow> int \<Rightarrow> int \<Rightarrow> int" where
  "day_number y m d = year_start y + days_before_month y m + d - 1"

definition is_date :: "int \<Rightarrow> int \<Rightarrow> int \<Rightarrow> bool" where
  "is_date y m d \<longleftrightarrow> 1 \<le> m \<and> m \<le> 12 \<and> 1 \<le> d \<and> d \<le> month_length y m"

text \<open>The closed forms are those of the calendar: day 0 is 1970-01-01, and years and months follow each other.\<close>

lemma div_step:
  fixes n c :: int
  assumes "0 < c"
  shows "(n + 1) div c = n div c + (if c dvd n + 1 then 1 else 0)"
proof -
  have n: "n = c * (n div c) + n mod c" by simp
  have r: "0 \<le> n mod c" "n mod c < c" using assms by simp_all
  show ?thesis
  proof (cases "n mod c + 1 = c")
    case True
    then have e: "n + 1 = c * (n div c + 1)" using n by (simp only: distrib_left)
    then have "c dvd n + 1" by (metis dvd_triv_left)
    moreover have "(n + 1) div c = n div c + 1" using assms by (subst e) simp
    ultimately show ?thesis by simp
  next
    case False
    then have e: "n + 1 = c * (n div c) + (n mod c + 1)" and lt: "n mod c + 1 < c" using n r by linarith+
    have "(n + 1) div c = n div c" by (rule int_div_pos_eq [OF e]) (use lt r in auto)
    moreover have "(n + 1) mod c = n mod c + 1" by (rule int_mod_pos_eq [OF e]) (use lt r in auto)
    then have "\<not> c dvd n + 1" using r by (simp add: dvd_eq_mod_eq_0)
    ultimately show ?thesis by simp
  qed
qed

lemma year_start_epoch: "year_start 1970 = 0"
  by (simp add: year_start_def)

lemma leap_rule:
  assumes "R \<longrightarrow> Q" and "Q \<longrightarrow> P"
  shows "of_bool P - of_bool Q + of_bool R = (of_bool (P \<and> (\<not> Q \<or> R)) :: int)"
  using assms by (cases P; cases Q; cases R) simp_all

lemma year_start_Suc: "year_start (y + 1) = year_start y + 365 + of_bool (leap_year y)"
proof -
  have "4 dvd y" if "100 dvd y" using that by (rule dvd_trans [rotated]) simp
  moreover have "100 dvd y" if "400 dvd y" using that by (rule dvd_trans [rotated]) simp
  ultimately have l: "of_bool (4 dvd y) - of_bool (100 dvd y) + of_bool (400 dvd y) = (of_bool (leap_year y) :: int)"
    unfolding leap_year_def by (intro leap_rule) blast+
  have d: "y div c = (y - 1) div c + of_bool (c dvd y)" if "0 < c" for c
    using div_step [OF that, of "y - 1"] by (simp add: of_bool_def)
  show ?thesis
    unfolding year_start_def l [symmetric] using d [of 4] d [of 100] d [of 400] by (simp del: of_bool_eq)
qed

lemma days_before_month_1: "days_before_month y 1 = 0"
  by (simp add: days_before_month_def)

lemma days_before_month_Suc:
  assumes "1 \<le> m"
  shows "days_before_month y (m + 1) = days_before_month y m + month_length y m"
proof -
  have "[1..m + 1 - 1] = [1..m - 1] @ [m]" unfolding add_diff_cancel_right' by (rule upto_rec2 [OF assms])
  then show ?thesis unfolding days_before_month_def by (simp only: map_append sum_list_append) simp
qed

section \<open>The kernel without wrap-around\<close>

lemma wrap32_id: "- (2 ^ 31) \<le> x \<Longrightarrow> x < 2 ^ 31 \<Longrightarrow> wrap32 x = x"
  unfolding wrap32_def by (rule signed_take_bit_int_eq_self) simp_all

lemma sdiv_nonneg: "0 \<le> a \<Longrightarrow> 0 < b \<Longrightarrow> a sdiv b = a div (b :: int)"
  by (cases "a = 0") (simp_all add: signed_divide_int_def)

text \<open>Truncation after the shift by \<open>146096\<close> is the floor.\<close>

lemma era_floor:
  fixes z :: int
  shows "(if z \<ge> 0 then z else z - 146096) sdiv 146097 = z div 146097"
proof (cases "0 \<le> z")
  case False
  let ?q = "z div 146097" and ?r = "z mod 146097"
  have r: "0 \<le> ?r" "?r < 146097" by simp_all
  have z: "z = 146097 * ?q + ?r" by simp
  have "(146096 - z) div 146097 = - ?q"
    by (rule int_div_pos_eq [of _ _ _ "146096 - ?r"]) (use z r in linarith)+
  then show ?thesis using False by (simp add: signed_divide_int_def)
qed (simp add: sdiv_nonneg)

text \<open>The year of the era from the day of the era: the quotient is monotone, and right at the ends of every year.\<close>

definition year_days :: "int \<Rightarrow> int" where
  "year_days k = 365 * k + k div 4 - k div 100 + k div 400"

definition yoe_numerator :: "int \<Rightarrow> int" where
  "yoe_numerator doe = doe - doe div 1460 + doe div 36524 - doe div 146096"

lemma yoe_step:
  assumes "0 \<le> n" "n < 146096"
  shows "yoe_numerator n \<le> yoe_numerator (n + 1)"
proof -
  have last: "n + 1 = 146096" if "146096 dvd n + 1"
    using zdvd_imp_le [OF that] assms by linarith
  show ?thesis
  proof (cases "146096 dvd n + 1")
    case True
    then have "n = 146095" using last by simp
    then show ?thesis by (simp add: yoe_numerator_def)
  next
    case False
    then show ?thesis
      unfolding yoe_numerator_def using div_step [of 1460 n] div_step [of 36524 n] div_step [of 146096 n] by simp
  qed
qed

lemma yoe_mono:
  assumes "0 \<le> a" "a \<le> b" "b \<le> 146096"
  shows "yoe_numerator a \<le> yoe_numerator b"
  using assms(2,3)
proof (induction b rule: int_ge_induct)
  case (step i)
  then show ?case using yoe_step [of i] assms(1) by force
qed simp

lemma yoe_ends: "list_all (\<lambda>k. 365 * k \<le> yoe_numerator (year_days k) \<and> yoe_numerator (year_days (k + 1) - 1) < 365 * (k + 1) \<and>
    0 \<le> year_days k \<and> year_days (k + 1) \<le> 146097) [0..399]"
  by code_simp

lemma ex_interval:
  fixes f :: "int \<Rightarrow> int"
  assumes "f 0 \<le> x" "x < f (int n)"
  shows "\<exists>k. 0 \<le> k \<and> k < int n \<and> f k \<le> x \<and> x < f (k + 1)"
  using assms(2)
proof (induction n)
  case 0
  then show ?case using assms(1) by simp
next
  case (Suc n)
  show ?case
  proof (cases "x < f (int n)")
    case True
    then show ?thesis using Suc.IH by force
  next
    case False
    then show ?thesis using Suc.prems by (intro exI [of _ "int n"]) (simp add: add.commute)
  qed
qed

lemma year_of_era:
  assumes "0 \<le> doe" "doe < 146097"
  obtains k where "yoe_numerator doe div 365 = k" "0 \<le> k" "k \<le> 399" "year_days k \<le> doe" "doe < year_days (k + 1)"
    "yoe_numerator doe < 365 * (k + 1)"
proof -
  have "year_days 0 \<le> doe" "doe < year_days (int 400)" using assms by (simp_all add: year_days_def)
  from ex_interval [OF this] obtain k where k: "0 \<le> k" "k < 400" "year_days k \<le> doe" "doe < year_days (k + 1)" by auto
  have ends: "365 * k \<le> yoe_numerator (year_days k)" "yoe_numerator (year_days (k + 1) - 1) < 365 * (k + 1)"
    "0 \<le> year_days k" "year_days (k + 1) \<le> 146097"
    using yoe_ends k(1,2) by (auto simp: list_all_iff)
  have "yoe_numerator (year_days k) \<le> yoe_numerator doe" using yoe_mono [of "year_days k" doe] ends(3) k assms by simp
  moreover have "yoe_numerator doe \<le> yoe_numerator (year_days (k + 1) - 1)"
    using yoe_mono [of doe "year_days (k + 1) - 1"] ends(4) k assms by simp
  ultimately have b: "365 * k \<le> yoe_numerator doe" "yoe_numerator doe < 365 * (k + 1)" using ends by linarith+
  then have "yoe_numerator doe div 365 = k" by (intro int_div_pos_eq [of _ _ _ "yoe_numerator doe - 365 * k"]) auto
  then show thesis using that [of k] k b by simp
qed

text \<open>The year from March: its length is that of the year its February falls in.\<close>

lemma year_days_Suc: "0 \<le> k \<Longrightarrow> year_days (k + 1) = year_days k + 365 + of_bool (leap_year (k + 1))"
  using year_start_Suc [of "k + 1"] unfolding year_start_def year_days_def add_diff_cancel_right' by linarith

definition march_start :: "int \<Rightarrow> int" where
  "march_start mp = (153 * mp + 2) div 5"

definition march_length :: "int \<Rightarrow> int" where
  "march_length mp = (if mp = 11 then 29 else month_length 1 (mp + 3 - (if mp < 10 then 0 else 12)))"

lemma months: "list_all (\<lambda>doy. let mp = (5 * doy + 2) div 153; d = doy - march_start mp + 1 in
    0 \<le> mp \<and> mp \<le> 11 \<and> 1 \<le> d \<and> d \<le> march_length mp) [0..365]"
  by code_simp

lemma month_of_year:
  assumes "0 \<le> doy" "doy \<le> 365"
  defines "mp \<equiv> (5 * doy + 2) div 153"
  shows "0 \<le> mp" "mp \<le> 11" "1 \<le> doy - march_start mp + 1" "doy - march_start mp + 1 \<le> march_length mp"
  using months assms by (auto simp: list_all_iff Let_def)

text \<open>The days of the year that begins in March of year \<open>y\<close>, by the months of the calendar.\<close>

lemma march_calendar:
  assumes "0 \<le> mp" "mp \<le> 11"
  shows "mp < 10 \<Longrightarrow> days_before_month y (mp + 3) = 59 + of_bool (leap_year y) + march_start mp \<and> month_length y (mp + 3) = march_length mp"
    and "10 \<le> mp \<Longrightarrow> days_before_month y (mp - 9) = march_start mp - 306 \<and>
      month_length y (mp - 9) = march_length mp - of_bool (mp = 11 \<and> \<not> leap_year y)"
proof -
  have "mp \<in> set [0..11]" using assms by simp
  then have "mp \<in> {0, 1, 2, 3, 4, 5, 6, 7, 8, 9, 10, 11}" by (simp add: upto_rec1)
  then show "mp < 10 \<Longrightarrow> days_before_month y (mp + 3) = 59 + of_bool (leap_year y) + march_start mp \<and> month_length y (mp + 3) = march_length mp"
    and "10 \<le> mp \<Longrightarrow> days_before_month y (mp - 9) = march_start mp - 306 \<and>
      month_length y (mp - 9) = march_length mp - of_bool (mp = 11 \<and> \<not> leap_year y)"
    by (auto simp: days_before_month_def march_start_def march_length_def month_length_def upto_rec1)
qed

lemma march_first: "year_start (y + 1) - 306 = 365 * y + y div 4 - y div 100 + y div 400 - 719468"
  by (simp add: year_start_def)

lemma era_days:
  "0 \<le> k \<Longrightarrow> k \<le> 399 \<Longrightarrow> 365 * (k + 400 * e) + (k + 400 * e) div 4 - (k + 400 * e) div 100 + (k + 400 * e) div 400 =
     year_days k + 146097 * e"
proof -
  assume k: "0 \<le> k" "k \<le> 399"
  have "(k + 400 * e) div 4 = k div 4 + 100 * e" "(k + 400 * e) div 100 = k div 100 + 4 * e" "(k + 400 * e) div 400 = k div 400 + e"
    using div_mult_self1 [of 4 k "100 * e"] div_mult_self1 [of 100 k "4 * e"] div_mult_self1 [of 400 k e] by (simp_all add: mult.assoc)
  then show ?thesis by (simp add: year_days_def)
qed

lemma leap_era: "leap_year (k + 400 * e) = leap_year k"
proof -
  have "400 * e = 4 * (100 * e)" "400 * e = 100 * (4 * e)" by simp_all
  then have "4 dvd 400 * e" "100 dvd 400 * e" "400 dvd 400 * e" by (metis dvd_triv_left)+
  then show ?thesis by (simp add: leap_year_def dvd_add_left_iff)
qed

section \<open>The kernel computes dates\<close>

lemma civil_fields_correct:
  assumes "- (2 ^ 31) \<le> n" "n < 2 ^ 31 - 719468" and f: "civil_fields n = (y, m, d)"
  shows "is_date y m d \<and> day_number y m d = n"
proof -
  let ?z = "n + 719468"
  define e doe where ed: "e = ?z div 146097" "doe = ?z mod 146097"
  have doe: "0 \<le> doe" "doe < 146097" and z: "?z = e * 146097 + doe" by (simp_all add: ed)
  have e1: "- 15000 \<le> e" using assms(1) z doe by simp
  have e2: "e \<le> 15000" using assms(2) z doe by simp
  obtain k where k: "yoe_numerator doe div 365 = k" "0 \<le> k" "k \<le> 399" "year_days k \<le> doe" "doe < year_days (k + 1)"
    and num: "yoe_numerator doe < 365 * (k + 1)"
    using year_of_era [OF doe] .
  define doy where dy: "doy = doe - year_days k"
  have doy: "0 \<le> doy" "doy \<le> 364 + of_bool (leap_year (k + 1))" using k year_days_Suc [of k] unfolding dy by simp_all
  then have doy': "doy \<le> 365" by (cases "leap_year (k + 1)") simp_all
  define mp where mp: "mp = (5 * doy + 2) div 153"
  note mo = month_of_year [OF doy(1) doy', folded mp]
  have fields: "civil_fields n = (k + e * 400 + of_bool (10 \<le> mp), if mp < 10 then mp + 3 else mp - 9, doy - march_start mp + 1)"
  proof -
    have w1: "wrap32 (n + 719468) = ?z" by (rule wrap32_id) (use assms in auto)
    have w2: "wrap32 (?z - 146096) = ?z - 146096" by (rule wrap32_id) (use assms in auto)
    have w3: "wrap32 (?z - e * 146097) = doe"
    proof -
      have "?z - e * 146097 = doe" using z by linarith
      then show ?thesis using wrap32_id [of doe] doe by simp
    qed
    have n0: "0 \<le> yoe_numerator doe" using k(1,2) by (metis pos_imp_zdiv_nonneg_iff zero_less_numeral)
    have w4: "wrap32 (doe - doe sdiv 1460 + doe sdiv 36524 - doe sdiv 146096) = yoe_numerator doe"
    proof -
      have "doe - doe sdiv 1460 + doe sdiv 36524 - doe sdiv 146096 = yoe_numerator doe"
        using doe(1) by (simp only: yoe_numerator_def sdiv_nonneg zero_less_numeral)
      moreover have "wrap32 (yoe_numerator doe) = yoe_numerator doe" by (rule wrap32_id) (use n0 num k(3) in simp_all)
      ultimately show ?thesis by simp
    qed
    have w5: "yoe_numerator doe sdiv 365 = k" using n0 k(1) by (simp add: sdiv_nonneg)
    have w6: "wrap32 (k + e * 400) = k + e * 400" by (rule wrap32_id) (use k e1 e2 in auto)
    have "365 * k + k sdiv 4 - k sdiv 100 = year_days k" using k(2,3) by (simp add: sdiv_nonneg year_days_def)
    then have w7: "wrap32 (doe - (365 * k + k sdiv 4 - k sdiv 100)) = doy"
      using wrap32_id [of doy] doy(1) doy' by (simp add: dy)
    have w8: "wrap32 (5 * doy + 2) sdiv 153 = mp"
      using wrap32_id [of "5 * doy + 2"] doy(1) doy' by (simp add: sdiv_nonneg mp)
    have w9: "wrap32 (153 * mp + 2) sdiv 5 = march_start mp"
      using wrap32_id [of "153 * mp + 2"] mo(1,2) by (simp add: sdiv_nonneg march_start_def)
    have m31: "march_length mp \<le> 31" by (simp add: march_length_def month_length_def)
    have w10: "wrap32 (doy - march_start mp + 1) = doy - march_start mp + 1"
      by (rule wrap32_id) (use mo(3,4) m31 in auto)
    have w11: "wrap32 (mp + 3) = mp + 3" "wrap32 (mp - 9) = mp - 9"
      by (rule wrap32_id; use mo(1,2) in simp)+
    have w12: "wrap32 (k + e * 400 + 1) = k + e * 400 + 1" by (rule wrap32_id) (use k e1 e2 in auto)
    have "civil_fields n =
        (wrap32 (k + e * 400 + (if (if mp < 10 then mp + 3 else mp - 9) \<le> 2 then 1 else 0)),
         if mp < 10 then mp + 3 else mp - 9, doy - march_start mp + 1)"
      unfolding civil_fields_def Let_def w1 w2 era_floor ed(1) [symmetric] w3 w4 w5 w6 w7 w8 w9 w10 w11 ..
    then show ?thesis using mo(1,2) w6 w12 by (cases "mp < 10") auto
  qed
  have first: "year_start (k + e * 400 + 1) - 306 = year_days k + 146097 * e - 719468"
    using march_first [of "k + e * 400"] era_days [OF k(2,3), of e] by (simp add: mult.commute)
  show ?thesis
  proof (cases "mp < 10")
    case True
    let ?y = "k + e * 400"
    have eq: "y = ?y" "m = mp + 3" "d = doy - march_start mp + 1" using f True unfolding fields by auto
    note c = march_calendar(1) [OF mo(1,2) True, of ?y]
    have "year_start (?y + 1) = year_start ?y + 365 + of_bool (leap_year ?y)" by (rule year_start_Suc)
    then have "day_number y m d = n" unfolding day_number_def eq c [THEN conjunct1] using first z dy by linarith
    then show ?thesis using mo True c unfolding is_date_def eq by simp
  next
    case False
    let ?y = "k + e * 400 + 1"
    have eq: "y = ?y" "m = mp - 9" "d = doy - march_start mp + 1" using f False unfolding fields by auto
    note c = march_calendar(2) [OF mo(1,2), of ?y]
    have "day_number y m d = n" unfolding day_number_def eq using c False first z dy by simp
    moreover have "d \<le> month_length y m"
    proof (cases "mp = 11 \<and> \<not> leap_year ?y")
      case True
      then have "\<not> leap_year (k + 1)" using leap_era [of "k + 1" e] by (simp add: algebra_simps)
      then have "doy \<le> 364" using doy(2) by simp
      then show ?thesis using True c unfolding eq by (simp add: march_start_def march_length_def)
    next
      case nf: False
      then have "month_length ?y (mp - 9) = march_length mp" using c False by (cases "mp = 11") simp_all
      then show ?thesis using mo(4) unfolding eq by simp
    qed
    ultimately show ?thesis using mo False unfolding is_date_def eq by simp
  qed
qed

section \<open>A day has one date\<close>

lemma month_length_pos: "0 < month_length y m"
  by (simp add: month_length_def)

lemma days_before_month_mono:
  assumes "1 \<le> a" "a < b"
  shows "days_before_month y a + month_length y a \<le> days_before_month y b"
proof -
  have "a + 1 \<le> b" using assms(2) by simp
  then show ?thesis
  proof (induction b rule: int_ge_induct)
    case base
    then show ?case using days_before_month_Suc [OF assms(1)] by simp
  next
    case (step i)
    then show ?case using days_before_month_Suc [of i y] month_length_pos [of y i] assms(1) by simp
  qed
qed

lemma days_of_year: "days_before_month y 12 + month_length y 12 = 365 + of_bool (leap_year y)"
  by (simp add: days_before_month_def month_length_def upto_rec1)

lemma year_start_mono: "a \<le> b \<Longrightarrow> year_start a \<le> year_start b"
proof (induction b rule: int_ge_induct)
  case (step i)
  have "(0 :: int) \<le> of_bool (leap_year i)" by simp
  then show ?case using step year_start_Suc [of i] by linarith
qed simp

lemma date_in_year:
  assumes "is_date y m d"
  shows "year_start y \<le> day_number y m d" "day_number y m d < year_start (y + 1)"
proof -
  have "0 \<le> days_before_month y m" unfolding days_before_month_def
    by (intro sum_list_nonneg) (auto simp: less_imp_le [OF month_length_pos])
  then show "year_start y \<le> day_number y m d" using assms by (simp add: day_number_def is_date_def)
  have "days_before_month y m + month_length y m \<le> days_before_month y 12 + month_length y 12"
    using assms days_before_month_mono [of m 12 y] month_length_pos [of y 12] by (cases "m = 12") (auto simp: is_date_def)
  then show "day_number y m d < year_start (y + 1)"
    using assms unfolding days_of_year year_start_Suc day_number_def is_date_def by linarith
qed

lemma date_unique:
  assumes "is_date y m d" "is_date y' m' d'" "day_number y m d = day_number y' m' d'"
  shows "y = y' \<and> m = m' \<and> d = d'"
proof -
  have "\<not> y < y'" "\<not> y' < y"
    using date_in_year [OF assms(1)] date_in_year [OF assms(2)] assms(3) year_start_mono [of "y + 1" y'] year_start_mono [of "y' + 1" y] by auto
  then have y: "y = y'" by simp
  have "\<not> m < m'" "\<not> m' < m"
    using assms days_before_month_mono [of m m' y] days_before_month_mono [of m' m y]
    unfolding y day_number_def is_date_def by auto
  then have "m = m'" by simp
  then show ?thesis using y assms(3) by (simp add: day_number_def)
qed

end
