(* ===== verification/Device_Arrays.thy ===== *)
theory Device_Arrays
  imports Buffers Views
begin

text \<open>What the entry points over one 32-bit output array share (\<open>udf/dt.rs\<close>, \<open>udf/rolling.rs\<close>, \<open>udf/dtw.rs\<close>): arrays
  borrowed from the caller, a kernel whose threadgroups each write some elements of the output, and the copy back when
  the output could not be shared. A threadgroup reads the input arrays when it starts.\<close>

section \<open>Arrays in memory\<close>

definition words_at :: "mem \<Rightarrow> nat \<Rightarrow> nat \<Rightarrow> u32 list" where
  "words_at m a n = map (\<lambda>i. of_le_bytes (read_mem m (a + 4 * i) 4)) [0..<n]"

definition store_word :: "nat \<Rightarrow> mem \<Rightarrow> nat \<times> u32 \<Rightarrow> mem" where
  "store_word base m = (\<lambda>(i, w). write_mem m (base + 4 * i) (le_bytes w))"

definition launch ::
  "(u32 list list \<Rightarrow> nat \<Rightarrow> (nat \<times> u32) list) \<Rightarrow> (nat \<times> nat) list \<Rightarrow> nat \<Rightarrow> mem \<Rightarrow> nat list \<Rightarrow> mem" where
  "launch krn inputs base = foldl (\<lambda>m g. foldl (store_word base) m (krn (map (\<lambda>(a, n). words_at m a n) inputs) g))"

text \<open>The output of an unaligned pointer is a private copy, which is read back at the end.\<close>

definition copy_back_output :: "driver \<Rightarrow> mem \<Rightarrow> nat \<Rightarrow> nat \<Rightarrow> metal_buffer \<Rightarrow> mem" where
  "copy_back_output drv m out_ptr out_n outb =
     (if is_ptr_page_aligned drv out_ptr then m else write_mem m out_ptr (take (4 * out_n) (as_slice m outb)))"

section \<open>Stores\<close>

lemma words_at_length [simp]: "length (words_at m a n) = n"
  by (simp add: words_at_def)

lemma words_at_nth: "i < n \<Longrightarrow> words_at m a n ! i = of_le_bytes (read_mem m (a + 4 * i) 4)"
  by (simp add: words_at_def)

lemma read_mem_sub: "i + k \<le> n \<Longrightarrow> read_mem m (a + i) k = take k (drop i (read_mem m a n))"
  by (rule list_eq_by_nth) (simp_all add: add.assoc)

lemma words_at_eq: "read_mem m a (4 * n) = read_mem m' a' (4 * n) \<Longrightarrow> words_at m a n = words_at m' a' n"
  unfolding words_at_def by (rule map_cong) (simp_all add: read_mem_sub [of _ 4 "4 * n"])

lemma store_word_heap:
  "heap (store_word base m (i, w)) x = (if base + 4 * i \<le> x \<and> x < base + 4 * i + 4 then le_bytes w ! (x - (base + 4 * i)) else heap m x)"
  by (simp add: store_word_def write_mem_def le_bytes_length)

lemma store_word_live [simp]: "live (store_word base m e) = live m"
  by (cases e) (simp add: store_word_def)

lemma store_words_live [simp]: "live (foldl (store_word base) m ws) = live m"
  by (induction ws rule: rev_induct) simp_all

text \<open>Stores that agree on the value of every element leave it there, in any order.\<close>

lemma store_words_heap:
  assumes "\<And>i w. (i, w) \<in> set ws \<Longrightarrow> w = val i"
  shows "heap (foldl (store_word base) m ws) x =
    (if base \<le> x \<and> (x - base) div 4 \<in> fst ` set ws then le_bytes (val ((x - base) div 4)) ! ((x - base) mod 4) else heap m x)"
  using assms
proof (induction ws rule: rev_induct)
  case (snoc e ws)
  obtain i w where e: "e = (i, w)" by force
  have w: "w = val i" using snoc.prems e by auto
  have IH: "heap (foldl (store_word base) m ws) x =
    (if base \<le> x \<and> (x - base) div 4 \<in> fst ` set ws then le_bytes (val ((x - base) div 4)) ! ((x - base) mod 4) else heap m x)"
    using snoc by simp
  have d: "base + 4 * i \<le> x \<and> x < base + 4 * i + 4 \<longleftrightarrow> base \<le> x \<and> (x - base) div 4 = i" by auto
  have r: "x - (base + 4 * i) = (x - base) mod 4" if "base \<le> x" "(x - base) div 4 = i"
    using that by (metis diff_diff_left minus_mult_div_eq_mod)
  show ?case using r by (auto simp: e w store_word_heap d IH)
qed simp

text \<open>Whole threadgroups that cover \<open>n\<close> threads.\<close>

definition padded_grid :: "nat \<Rightarrow> nat \<Rightarrow> nat" where
  "padded_grid tg n = (n + tg - 1) div tg * tg"

lemma padded_grid_ge: "0 < tg \<Longrightarrow> n \<le> padded_grid tg n"
  unfolding padded_grid_def using div_mult_mod_eq [of "n + tg - 1" tg] mod_less_divisor [of tg "n + tg - 1"] by linarith

section \<open>Threadgroups\<close>

text \<open>The 32-bit floating-point operations of a kernel.\<close>

record float_arith =
  f_sub :: "u32 \<Rightarrow> u32 \<Rightarrow> u32"
  f_mul :: "u32 \<Rightarrow> u32 \<Rightarrow> u32"
  f_add :: "u32 \<Rightarrow> u32 \<Rightarrow> u32"
  f_min :: "u32 \<Rightarrow> u32 \<Rightarrow> u32"
  f_sqrt :: "u32 \<Rightarrow> u32"
  f_div :: "u32 \<Rightarrow> u32 \<Rightarrow> u32"
  f_of_u32 :: "u32 \<Rightarrow> u32"

definition infinity32 :: u32 where "infinity32 = 0x7F800000"

text \<open>A shared array of a threadgroup, with undefined contents at the start: every thread stores each \<open>tgsize\<close>-th element, in
  any order of the threads; the barrier that follows is the end of the fold.\<close>

definition strided :: "nat \<Rightarrow> nat \<Rightarrow> nat \<Rightarrow> nat list" where
  "strided tid tgsize cnt = filter (\<lambda>j. j mod tgsize = tid) [0..<cnt]"

definition cooperative_load :: "nat list \<Rightarrow> nat \<Rightarrow> nat \<Rightarrow> (nat \<Rightarrow> u32) \<Rightarrow> (nat \<Rightarrow> u32) \<Rightarrow> nat \<Rightarrow> u32" where
  "cooperative_load tids tgsize cnt src s = foldl (\<lambda>s tid. foldl (\<lambda>s j. s(j := src j)) s (strided tid tgsize cnt)) s tids"

lemma store_all: "foldl (\<lambda>s j. s(j := src j)) s js = (\<lambda>j. if j \<in> set js then src j else s j)"
  by (induction js arbitrary: s) (auto simp: fun_eq_iff)

lemma cooperative_load_eq:
  assumes "set tids = {..<tgsize}" and "0 < tgsize"
  shows "cooperative_load tids tgsize cnt src s = (\<lambda>j. if j < cnt then src j else s j)"
proof -
  have "cooperative_load ts tgsize cnt src s = (\<lambda>j. if j < cnt \<and> j mod tgsize \<in> set ts then src j else s j)" for ts
    by (induction ts arbitrary: s) (auto simp: cooperative_load_def store_all strided_def fun_eq_iff)
  then show ?thesis using assms by simp
qed

text \<open>The strides of a loop that doubles.\<close>

function doubling :: "nat \<Rightarrow> nat \<Rightarrow> nat list" where
  "doubling stride k = (if 0 < stride \<and> stride < k then stride # doubling (2 * stride) k else [])"
  by pat_completeness auto

termination
  by (relation "measure (\<lambda>(stride, k). k - stride)") auto

declare doubling.simps [simp del]

section \<open>Staging\<close>

lemma disjoint_prefix: "disjoint_regions (a, l) r \<Longrightarrow> k \<le> l \<Longrightarrow> disjoint_regions (a, k) r"
  by (auto simp: disjoint_regions_def)
lemma disjoint_prefix2: "disjoint_regions r (a, l) \<Longrightarrow> k \<le> l \<Longrightarrow> disjoint_regions r (a, k)"
  by (auto simp: disjoint_regions_def)

text \<open>What a step leaves alone: live regions stay live with their contents, except \<open>W\<close>, which the caller may write.\<close>

definition keeps :: "(nat \<times> nat) list \<Rightarrow> mem \<Rightarrow> mem \<Rightarrow> bool" where
  "keeps W m m' \<longleftrightarrow> set (live m) \<subseteq> set (live m') \<and>
     (\<forall>(a, l) \<in> set (live m). (\<forall>w \<in> set W. disjoint_regions (a, l) w) \<longrightarrow> read_mem m' a l = read_mem m a l)"

lemma keeps_refl [simp]: "keeps W m m"
  by (auto simp: keeps_def)

lemma keeps_trans: "keeps W m m' \<Longrightarrow> keeps W m' m'' \<Longrightarrow> keeps W m m''"
  by (fastforce simp: keeps_def)

lemma keeps_weaken: "keeps [] m m' \<Longrightarrow> keeps W m m'"
  by (auto simp: keeps_def)

lemma keeps_read: "keeps [] m m' \<Longrightarrow> (a, l) \<in> set (live m) \<Longrightarrow> read_mem m' a l = read_mem m a l \<and> (a, l) \<in> set (live m')"
  by (auto simp: keeps_def)

lemma keeps_alloc:
  assumes "driver_ok drv" and "new_buffer_filled drv m bs = (m', r)"
  shows "keeps [] m m'"
proof (cases r)
  case (Inl e)
  then show ?thesis using assms(2) new_buffer_filled_Inl by fastforce
next
  case (Inr b)
  then show ?thesis
    using new_buffer_filled_frame [OF assms(1)] new_buffer_filled_Inr(3) assms(2) by (fastforce simp: keeps_def)
qed

lemma keeps_from_bytes: "driver_ok drv \<Longrightarrow> new_buffer_from_bytes drv m bs = (m', r) \<Longrightarrow> keeps [] m m'"
  by (auto simp: new_buffer_from_bytes_def split: if_splits dest: keeps_alloc)

lemma kept_words: "keeps [] m m' \<Longrightarrow> (a, l) \<in> set (live m) \<Longrightarrow> 4 * n \<le> l \<Longrightarrow> words_at m' a n = words_at m a n"
  using read_mem_sub [of 0 "4 * n" l] by (intro words_at_eq) (simp add: keeps_read)

text \<open>Borrowing an array of the caller: the buffer is the array, or a fresh copy of it.\<close>

lemma borrow_words:
  assumes drv: "driver_ok drv" and b: "from_borrowed drv m ptr n 4 = (m', Inr b)" and live: "(ptr, 4 * n) \<in> set (live m)"
  shows "keeps [] m m'" and "buf_len b = 4 * n" and "(buf_base b, 4 * n) \<in> set (live m')"
    and "words_at m' (buf_base b) n = words_at m ptr n"
    and "is_ptr_page_aligned drv ptr \<Longrightarrow> buf_base b = ptr \<and> m' = m"
    and "\<not> is_ptr_page_aligned drv ptr \<Longrightarrow> r \<in> set (live m) \<Longrightarrow> disjoint_regions (buf_base b, 4 * n) r"
proof -
  have c: "if is_ptr_page_aligned drv ptr then m' = m \<and> b = MetalBuffer ptr (n * 4) None None
      else new_buffer_filled drv m (read_mem m ptr (n * 4)) = (m', Inr b)"
    using b by (auto simp: from_borrowed_def from_borrowed_bytes_def split: if_splits)
  show "keeps [] m m'" using c keeps_alloc [OF drv] by (auto split: if_splits)
  show len: "buf_len b = 4 * n" using c new_buffer_filled_Inr(2) by (fastforce split: if_splits)
  show "(buf_base b, 4 * n) \<in> set (live m')"
    using c live new_buffer_filled_Inr(3) [of drv m "read_mem m ptr (n * 4)" m' b] by (auto simp: mult.commute split: if_splits)
  have "read_mem m' (buf_base b) (4 * n) = read_mem m ptr (4 * n)"
    using c new_buffer_filled_Inr(1) [of drv m "read_mem m ptr (n * 4)" m' b] len by (auto simp: as_slice_def mult.commute split: if_splits)
  then show "words_at m' (buf_base b) n = words_at m ptr n" by (rule words_at_eq)
  show "is_ptr_page_aligned drv ptr \<Longrightarrow> buf_base b = ptr \<and> m' = m" using c by simp
  show "\<not> is_ptr_page_aligned drv ptr \<Longrightarrow> r \<in> set (live m) \<Longrightarrow> disjoint_regions (buf_base b, 4 * n) r"
    using c new_buffer_filled_frame [OF drv, of m "read_mem m ptr (n * 4)" m' b] len by (cases r) auto
qed

lemma borrowed_apart:
  assumes "driver_ok drv" and "from_borrowed drv m ptr n 4 = (m', Inr b)" and "(ptr, 4 * n) \<in> set (live m)"
    and "r \<in> set (live m)" and "disjoint_regions (ptr, 4 * n) r"
  shows "disjoint_regions (buf_base b, 4 * n) r"
  using borrow_words(5) [OF assms(1-3)] borrow_words(6) [OF assms(1-3) _ assms(4)] assms(5)
  by (cases "is_ptr_page_aligned drv ptr") auto

section \<open>Kernels by threadgroups\<close>

text \<open>The contract of a kernel: group \<open>g\<close> stores \<open>result\<close> of the inputs into the elements it owns, each element of the
  output has one owner.\<close>

locale group_kernel =
  fixes krn :: "u32 list list \<Rightarrow> nat \<Rightarrow> (nat \<times> u32) list"
    and result :: "u32 list list \<Rightarrow> nat \<Rightarrow> u32" and owner :: "nat \<Rightarrow> nat" and n n_grps :: nat
  assumes stores: "g < n_grps \<Longrightarrow> (i, w) \<in> set (krn xss g) \<longleftrightarrow> i < n \<and> owner i = g \<and> w = result xss i"
    and owned: "i < n \<Longrightarrow> owner i < n_grps"
begin

lemma launch_live [simp]: "live (launch krn inputs base m gs) = live m"
  unfolding launch_def by (induction gs rule: rev_induct) simp_all

lemma group_indices: "g < n_grps \<Longrightarrow> fst ` set (krn xss g) = {i. i < n \<and> owner i = g}"
proof -
  assume g: "g < n_grps"
  have "fst ` set (krn xss g) = {i. \<exists>w. (i, w) \<in> set (krn xss g)}" by force
  then show ?thesis by (simp add: stores [OF g])
qed

lemma launch_heap:
  fixes m :: mem
  assumes apart: "\<And>r. r \<in> set inputs \<Longrightarrow> disjoint_regions (fst r, 4 * snd r) (base, 4 * n)"
    and gs: "\<And>g. g \<in> set gs \<Longrightarrow> g < n_grps"
  defines "xss \<equiv> map (\<lambda>(a, k). words_at m a k) inputs"
  shows "heap (launch krn inputs base m gs) x =
    (if base \<le> x \<and> (x - base) div 4 < n \<and> owner ((x - base) div 4) \<in> set gs
     then le_bytes (result xss ((x - base) div 4)) ! ((x - base) mod 4) else heap m x)"
  using gs
proof (induction gs arbitrary: x rule: rev_induct)
  case Nil
  then show ?case by (simp add: launch_def)
next
  case (snoc g gs)
  let ?m = "launch krn inputs base m gs"
  have IH: "heap ?m y = (if base \<le> y \<and> (y - base) div 4 < n \<and> owner ((y - base) div 4) \<in> set gs
     then le_bytes (result xss ((y - base) div 4)) ! ((y - base) mod 4) else heap m y)" for y
    using snoc by simp
  have same: "words_at ?m a k = words_at m a k" if r: "(a, k) \<in> set inputs" for a k
  proof (rule words_at_eq)
    have "heap ?m (a + i) = heap m (a + i)" if "i < 4 * k" for i
    proof -
      have "\<not> (base \<le> a + i \<and> (a + i - base) div 4 < n)"
        using apart [OF r] that by (auto simp: disjoint_regions_def div_less_iff_less_mult)
      then show ?thesis by (auto simp: IH)
    qed
    then show "read_mem ?m a (4 * k) = read_mem m a (4 * k)" by (intro list_eq_by_nth) simp_all
  qed
  have xs: "map (\<lambda>(a, k). words_at ?m a k) inputs = xss" unfolding xss_def by (rule map_cong) (auto simp: same)
  have g: "g < n_grps" using snoc.prems by simp
  have step: "launch krn inputs base m (gs @ [g]) = foldl (store_word base) ?m (krn xss g)"
    by (simp add: launch_def xs [unfolded launch_def])
  show ?case
    unfolding step
    by (subst store_words_heap [where val = "result xss"]) (auto simp: stores [OF g] group_indices [OF g] IH)
qed

lemma launch_words:
  assumes "\<And>r. r \<in> set inputs \<Longrightarrow> disjoint_regions (fst r, 4 * snd r) (base, 4 * n)" and "set gs = {..<n_grps}"
  shows "words_at (launch krn inputs base m gs) base n = map (result (map (\<lambda>(a, k). words_at m a k) inputs)) [0..<n]"
proof (rule list_eq_by_nth)
  fix i assume "i < length (map (result (map (\<lambda>(a, k). words_at m a k) inputs)) [0..<n])"
  then have i: "i < n" by simp
  let ?xss = "map (\<lambda>(a, k). words_at m a k) inputs"
  have b: "heap (launch krn inputs base m gs) (base + 4 * i + j) = le_bytes (result ?xss i) ! j" if "j < 4" for j
    using launch_heap [OF assms(1), where gs = gs and x = "base + 4 * i + j" and m = m] assms(2) owned [OF i] i that by (simp add: add.assoc)
  have "read_mem (launch krn inputs base m gs) (base + 4 * i) 4 = le_bytes (result ?xss i)"
    by (rule list_eq_by_nth) (simp_all add: le_bytes_length b)
  then show "words_at (launch krn inputs base m gs) base n ! i = map (result ?xss) [0..<n] ! i"
    using i by (simp add: words_at_nth of_le_bytes_le_bytes)
qed simp

lemma launch_frame:
  assumes "\<And>r. r \<in> set inputs \<Longrightarrow> disjoint_regions (fst r, 4 * snd r) (base, 4 * n)" and "set gs = {..<n_grps}"
    and "disjoint_regions (a, l) (base, 4 * n)"
  shows "read_mem (launch krn inputs base m gs) a l = read_mem m a l"
proof (rule list_eq_by_nth)
  fix i assume "i < length (read_mem m a l)"
  then have i: "i < l" by simp
  then have "\<not> (base \<le> a + i \<and> (a + i - base) div 4 < n)"
    using assms(3) by (auto simp: disjoint_regions_def div_less_iff_less_mult)
  then show "read_mem (launch krn inputs base m gs) a l ! i = read_mem m a l ! i"
    using launch_heap [OF assms(1), where gs = gs and x = "a + i" and m = m] assms(2) i by auto
qed simp

lemma launch_keeps:
  assumes "\<And>r. r \<in> set inputs \<Longrightarrow> disjoint_regions (fst r, 4 * snd r) (base, 4 * n)" and "set gs = {..<n_grps}"
  shows "keeps [(base, 4 * n)] m (launch krn inputs base m gs)"
  unfolding keeps_def using launch_frame [OF assms] by auto

text \<open>The end of every entry point: the launch into the staged output, then the copy back.\<close>

lemma finished_call:
  fixes m :: mem
  assumes apart: "\<And>r. r \<in> set inputs \<Longrightarrow> disjoint_regions (fst r, 4 * snd r) (buf_base outb, 4 * n)" and gs: "set gs = {..<n_grps}"
    and len: "buf_len outb = 4 * n" and al: "is_ptr_page_aligned drv out_ptr \<Longrightarrow> buf_base outb = out_ptr"
  defines "m' \<equiv> copy_back_output drv (launch krn inputs (buf_base outb) m gs) out_ptr n outb"
  shows "words_at m' out_ptr n = map (result (map (\<lambda>(a, k). words_at m a k) inputs)) [0..<n]"
    and "keeps [(buf_base outb, 4 * n), (out_ptr, 4 * n)] m m'"
proof -
  let ?l = "launch krn inputs (buf_base outb) m gs"
  note w = launch_words [OF apart gs]
  have k: "keeps [(buf_base outb, 4 * n), (out_ptr, 4 * n)] m ?l"
    using launch_keeps [OF apart gs, where m = m] by (auto simp: keeps_def)
  show "words_at m' out_ptr n = map (result (map (\<lambda>(a, k). words_at m a k) inputs)) [0..<n]"
  proof (cases "is_ptr_page_aligned drv out_ptr")
    case True
    then show ?thesis using w al by (simp add: m'_def copy_back_output_def)
  next
    case False
    have "read_mem (write_mem ?l out_ptr (as_slice ?l outb)) out_ptr (4 * n) = as_slice ?l outb"
      using read_write_same [of ?l out_ptr "as_slice ?l outb"] len by simp
    then have "words_at m' out_ptr n = words_at ?l (buf_base outb) n"
      using False len by (intro words_at_eq) (simp add: m'_def copy_back_output_def as_slice_def)
    then show ?thesis using w by simp
  qed
  have "keeps [(buf_base outb, 4 * n), (out_ptr, 4 * n)] ?l m'"
    using len by (auto simp: m'_def copy_back_output_def keeps_def read_write_disjoint)
  with k show "keeps [(buf_base outb, 4 * n), (out_ptr, 4 * n)] m m'" by (rule keeps_trans)
qed

end

text \<open>A scalar argument is a buffer of its bytes.\<close>

definition scalar_arg :: "mem \<Rightarrow> metal_buffer \<Rightarrow> u32" where
  "scalar_arg m b = of_le_bytes (as_slice m b)"

lemma scalar_buffer:
  assumes "driver_ok drv" and "new_buffer_from_bytes drv m (le_bytes (w :: u32)) = (m', Inr b)"
  shows "scalar_arg m' b = w" and "keeps [] m m'" and "(buf_base b, buf_len b) \<in> set (live m')"
    and "r \<in> set (live m) \<Longrightarrow> disjoint_regions (buf_base b, buf_len b) r"
proof -
  have f: "new_buffer_filled drv m (le_bytes w) = (m', Inr b)" using assms(2) by (simp add: new_buffer_from_bytes_def split: if_splits)
  show "scalar_arg m' b = w" using new_buffer_filled_Inr(1) [OF f] by (simp add: scalar_arg_def of_le_bytes_le_bytes)
  show "keeps [] m m'" using assms by (rule keeps_from_bytes)
  show "(buf_base b, buf_len b) \<in> set (live m')" using new_buffer_filled_Inr(2,3) [OF f] by simp
  show "r \<in> set (live m) \<Longrightarrow> disjoint_regions (buf_base b, buf_len b) r"
    using new_buffer_filled_frame [OF assms(1) f] by (cases r) auto
qed

lemma scalar_kept: "keeps [] m m' \<Longrightarrow> (buf_base b, buf_len b) \<in> set (live m) \<Longrightarrow> scalar_arg m' b = scalar_arg m b"
  by (simp add: scalar_arg_def as_slice_def keeps_read)

text \<open>Several scalars, one buffer each, in the order of the calls.\<close>

fun scalar_buffers :: "driver \<Rightarrow> mem \<Rightarrow> u32 list \<Rightarrow> mem \<times> (buffer_err + metal_buffer list)" where
  "scalar_buffers drv m [] = (m, Inr [])"
| "scalar_buffers drv m (w # ws) =
     (case new_buffer_from_bytes drv m (le_bytes w) of
        (m1, Inl e) \<Rightarrow> (m1, Inl e)
      | (m1, Inr b) \<Rightarrow> (case scalar_buffers drv m1 ws of (m2, Inl e) \<Rightarrow> (m2, Inl e) | (m2, Inr bs) \<Rightarrow> (m2, Inr (b # bs))))"

lemma scalar_buffers_correct:
  assumes "driver_ok drv"
  shows "scalar_buffers drv m ws = (m', Inr bs) \<Longrightarrow> map (scalar_arg m') bs = ws \<and> keeps [] m m'"
proof (induction ws arbitrary: m bs)
  case (Cons w ws)
  then obtain m1 b bs' where 1: "new_buffer_from_bytes drv m (le_bytes w) = (m1, Inr b)"
    and 2: "scalar_buffers drv m1 ws = (m', Inr bs')" and bs: "bs = b # bs'"
    by (auto split: prod.splits sum.splits)
  note s = scalar_buffer [OF assms 1] and IH = Cons.IH [OF 2]
  then show ?case using scalar_kept [of m1 m' b] by (auto simp: bs intro: keeps_trans)
qed simp

section \<open>A driver that never refuses\<close>

definition obliging :: "driver \<Rightarrow> bool" where
  "obliging drv \<longleftrightarrow> (\<forall>m n. drv_alloc drv m n \<noteq> None) \<and> (\<forall>m a n. drv_wrap drv m a n)"

lemma bump_driver_obliging: "obliging bump_driver"
  by (simp add: obliging_def bump_driver_def)

lemma obliging_filled: "obliging drv \<Longrightarrow> \<exists>m' b. new_buffer_filled drv m bs = (m', Inr b)"
  by (auto simp: obliging_def new_buffer_filled_def split: option.split)

lemma obliging_from_bytes: "obliging drv \<Longrightarrow> bs \<noteq> [] \<Longrightarrow> \<exists>m' b. new_buffer_from_bytes drv m bs = (m', Inr b)"
  by (simp add: new_buffer_from_bytes_def obliging_filled)

lemma obliging_scalar: "obliging drv \<Longrightarrow> \<exists>m' b. new_buffer_from_bytes drv m (le_bytes (w :: u32)) = (m', Inr b)"
  by (rule obliging_from_bytes) (auto simp: le_bytes_length simp flip: length_greater_0_conv)

lemma obliging_scalars: "obliging drv \<Longrightarrow> \<exists>m' bs. scalar_buffers drv m ws = (m', Inr bs)"
proof (induction ws arbitrary: m)
  case (Cons w ws)
  obtain m1 b where "new_buffer_from_bytes drv m (le_bytes w) = (m1, Inr b)" using obliging_scalar [OF Cons.prems] by blast
  then show ?case using Cons.IH [OF Cons.prems, of m1] by (auto split: prod.splits sum.splits)
qed simp

lemma obliging_borrow:
  assumes "obliging drv" "0 < n" "ptr \<noteq> 0"
  shows "\<exists>m' b. from_borrowed drv m ptr n 4 = (m', Inr b)"
  using assms obliging_filled [OF assms(1)] by (auto simp: obliging_def from_borrowed_def from_borrowed_bytes_def)

lemma obliging_stage:
  assumes "obliging drv" "src \<noteq> []"
  shows "\<exists>m' pool' b. stage drv m pool src = Some (m', pool', Inr b)"
proof (cases "length src \<le> pool_capacity pool")
  case True
  then show ?thesis using stage_reuse [OF assms(2)] by blast
next
  case False
  then have g: "(case pool_buf pool of None \<Rightarrow> True | Some b \<Rightarrow> buf_len b < length src)"
    by (auto simp: pool_capacity_def split: option.splits)
  obtain m1 b where u: "new_buffer_filled drv m (map (drv_junk drv) [0..<length src]) = (m1, Inr b)"
    using obliging_filled [OF assms(1)] by blast
  then have "new_buffer_uninit drv m (length src) = (m1, Inr b)" using assms(2) by (simp add: new_buffer_uninit_def)
  then show ?thesis using g new_buffer_filled_Inr(2) [OF u] assms(2) by (simp add: stage_def copy_to_prefix_def)
qed

end
