(* ===== verification/Dates.thy ===== *)
theory Dates
  imports Civil Device_Arrays Gpu_Aggs
begin

text \<open>Models the date fields: \<open>polars-metal-kernels/src/dt.rs\<close> and \<open>polars-metal-core/src/udf/dt.rs\<close> around the kernel of
  \<open>Civil\<close>. The staging pool of the process is an argument and a result.\<close>

section \<open>dt.rs\<close>

definition dt_tg_size :: nat where "dt_tg_size = 256"

datatype dt_field = Year | Month | Day

definition dt_code :: "dt_field \<Rightarrow> u32" where
  "dt_code f = (case f of Year \<Rightarrow> 0 | Month \<Rightarrow> 1 | Day \<Rightarrow> 2)"

datatype dt_error = DtBuffer buffer_err | DtOutputLength nat nat | DtRowOverflow nat

text \<open>One thread: the arguments are the words of the scalar buffers, the input and the thread's number.\<close>

definition dt_field_from_days :: "u32 \<Rightarrow> u32 \<Rightarrow> u32 list list \<Rightarrow> nat \<Rightarrow> (nat \<times> u32) list" where
  "dt_field_from_days n field_code xss gid =
     (if unat n \<le> gid then [] else [(gid, field_from_days field_code (hd xss ! gid))])"

definition dispatch_dt_field_buf ::
  "driver \<Rightarrow> runtime \<Rightarrow> mem \<Rightarrow> metal_buffer \<Rightarrow> metal_buffer \<Rightarrow> u32 \<Rightarrow> dt_field \<Rightarrow> mem \<times> (dt_error + unit)" where
  "dispatch_dt_field_buf drv rt m inb outb n f =
     (if n = 0 then (m, Inr ())
      else case new_buffer_from_bytes drv m (le_bytes n) of
          (m1, Inl e) \<Rightarrow> (m1, Inl (DtBuffer e))
        | (m1, Inr n_buf) \<Rightarrow>
            (case new_buffer_from_bytes drv m1 (le_bytes (dt_code f)) of
               (m2, Inl e) \<Rightarrow> (m2, Inl (DtBuffer e))
             | (m2, Inr field_buf) \<Rightarrow>
                 (launch (dt_field_from_days (scalar_arg m2 n_buf) (scalar_arg m2 field_buf)) [(buf_base inb, unat n)]
                    (buf_base outb) m2 (order rt ''dt_field_from_days'' (padded_grid dt_tg_size (unat n))), Inr ())))"

definition dispatch_dt_field ::
  "driver \<Rightarrow> runtime \<Rightarrow> mem \<Rightarrow> u32 list \<Rightarrow> u32 list \<Rightarrow> dt_field \<Rightarrow> mem \<times> (dt_error + u32 list)" where
  "dispatch_dt_field drv rt m input output f =
     (let n = length input in
      if length output \<noteq> n then (m, Inl (DtOutputLength (length output) n))
      else if n = 0 then (m, Inr output)
      else if 2 ^ 32 \<le> n then (m, Inl (DtRowOverflow n))
      else case from_typed_slice drv m input of
          (m1, Inl e) \<Rightarrow> (m1, Inl (DtBuffer e))
        | (m1, Inr input_buf) \<Rightarrow>
            (case new_buffer_zeroed drv m1 (4 * length output) of
               (m2, Inl e) \<Rightarrow> (m2, Inl (DtBuffer e))
             | (m2, Inr output_buf) \<Rightarrow>
                 (case dispatch_dt_field_buf drv rt m2 input_buf output_buf (of_nat n) f of
                    (m3, Inl e) \<Rightarrow> (m3, Inl e)
                  | (m3, Inr _) \<Rightarrow> (m3, Inr (take n (to_typed_vec m3 output_buf))))))"

section \<open>udf/dt.rs\<close>

datatype dt_py_error =
    DtNoDevice string
  | DtLengthMismatch
  | DtTooManyRows
  | DtUnknownField u32
  | DtOutputStaging buffer_err
  | DtInputStaging buffer_err
  | DtDispatch dt_error

definition dt_field_of :: "u32 \<Rightarrow> dt_py_error + dt_field" where
  "dt_field_of f = (if f = 0 then Inr Year else if f = 1 then Inr Month else if f = 2 then Inr Day else Inl (DtUnknownField f))"

text \<open>The input: shared when the pointer is page-aligned, else through the pool. A panic is \<open>None\<close>.\<close>

definition dt_stage_input ::
  "driver \<Rightarrow> mem \<Rightarrow> staging_pool \<Rightarrow> nat \<Rightarrow> nat \<Rightarrow> (mem \<times> staging_pool \<times> (buffer_err + metal_buffer)) option" where
  "dt_stage_input drv m pool in_ptr in_n =
     (if is_ptr_page_aligned drv in_ptr
      then (case from_borrowed drv m in_ptr in_n 4 of (m', r) \<Rightarrow> Some (m', pool, r))
      else stage drv m pool (read_mem m in_ptr (in_n * 4)))"

definition execute_dt ::
  "string option \<Rightarrow> driver \<Rightarrow> runtime \<Rightarrow> mem \<Rightarrow> staging_pool \<Rightarrow> nat \<times> nat \<Rightarrow> nat \<times> nat \<Rightarrow> u32 \<Rightarrow>
     (mem \<times> staging_pool \<times> (dt_py_error + unit)) option" where
  "execute_dt no_device drv rt m pool inp out f =
     (case (no_device, inp, out) of
        (Some e, _, _) \<Rightarrow> Some (m, pool, Inl (DtNoDevice e))
      | (None, (in_ptr, in_n), (out_ptr, out_n)) \<Rightarrow>
          if in_n \<noteq> out_n then Some (m, pool, Inl DtLengthMismatch)
          else if in_n = 0 then Some (m, pool, Inr ())
          else if 2 ^ 32 \<le> in_n then Some (m, pool, Inl DtTooManyRows)
          else (case dt_field_of f of
              Inl e \<Rightarrow> Some (m, pool, Inl e)
            | Inr fld \<Rightarrow>
                (case from_borrowed drv m out_ptr out_n 4 of
                   (m1, Inl e) \<Rightarrow> Some (m1, pool, Inl (DtOutputStaging e))
                 | (m1, Inr outb) \<Rightarrow>
                     (case dt_stage_input drv m1 pool in_ptr in_n of
                        None \<Rightarrow> None
                      | Some (m2, pool', Inl e) \<Rightarrow> Some (m2, pool', Inl (DtInputStaging e))
                      | Some (m2, pool', Inr inb) \<Rightarrow>
                          (case dispatch_dt_field_buf drv rt m2 inb outb (of_nat in_n) fld of
                             (m3, Inl e) \<Rightarrow> Some (m3, pool', Inl (DtDispatch e))
                           | (m3, Inr _) \<Rightarrow> Some (copy_back_output drv m3 out_ptr out_n outb, pool', Inr ()))))))"

section \<open>The kernel over memory\<close>

definition dt_result :: "u32 \<Rightarrow> u32 list list \<Rightarrow> nat \<Rightarrow> u32" where
  "dt_result code xss i = field_from_days code (hd xss ! i)"

interpretation dt: group_kernel "dt_field_from_days n code" "dt_result code" "\<lambda>i. i" "unat n" "padded_grid dt_tg_size (unat n)"
  for n :: u32 and code :: u32
  using padded_grid_ge [of dt_tg_size "unat n"]
  by unfold_locales (auto simp: dt_field_from_days_def dt_result_def dt_tg_size_def)

text \<open>Staging through the pool: the array's words, in the pool's buffer, which is the old one or a fresh one.\<close>

lemma stage_words:
  assumes drv: "driver_ok drv" and s: "stage drv m pool (read_mem m ptr (4 * n)) = Some (m', pool', Inr b)" and n: "0 < n"
    and live: "\<And>p. pool_buf pool = Some p \<Longrightarrow> (buf_base p, buf_len p) \<in> set (live m)"
  shows "4 * n \<le> buf_len b" and "(buf_base b, buf_len b) \<in> set (live m')" and "words_at m' (buf_base b) n = words_at m ptr n"
    and "keeps [(buf_base b, buf_len b)] m m'"
    and "pool_buf pool \<noteq> Some b \<Longrightarrow> r \<in> set (live m) \<Longrightarrow> disjoint_regions (buf_base b, buf_len b) r"
proof -
  let ?src = "read_mem m ptr (4 * n)"
  have ne: "?src \<noteq> []" using n by (metis length_0_conv less_not_refl2 mult_is_0 read_mem_length zero_neq_numeral)
  obtain m1 where w: "m' = write_mem m1 (buf_base b) ?src" and k: "keeps [] m m1" and len: "4 * n \<le> buf_len b"
    and l1: "(buf_base b, buf_len b) \<in> set (live m1)"
    and fresh: "pool_buf pool = Some b \<or> (\<forall>r \<in> set (live m). disjoint_regions (buf_base b, buf_len b) r)"
  proof (cases "length ?src \<le> pool_capacity pool")
    case True
    then obtain p where p: "pool_buf pool = Some p" "stage drv m pool ?src = Some (write_mem m (buf_base p) ?src, pool, Inr p)"
      using stage_reuse [OF ne] by blast
    then have "m' = write_mem m (buf_base b) ?src" "p = b" using s by auto
    then show thesis using that [of m] p live [OF p(1)] True by (simp add: pool_capacity_def)
  next
    case False
    then have "pool_capacity pool < length ?src" by simp
    from stage_grow [OF this, of drv m] s obtain m1 where u: "new_buffer_uninit drv m (length ?src) = (m1, Inr b)" "buf_len b = 4 * n"
      and m': "m' = write_mem m1 (buf_base b) ?src" by auto
    then have f: "new_buffer_filled drv m (map (drv_junk drv) [0..<4 * n]) = (m1, Inr b)"
      using n by (simp add: new_buffer_uninit_def)
    show thesis
      using that [OF m'] keeps_alloc [OF drv f] u(2) new_buffer_filled_Inr(3) [OF f] new_buffer_filled_frame [OF drv f] by fastforce
  qed
  show "4 * n \<le> buf_len b" by (rule len)
  show "(buf_base b, buf_len b) \<in> set (live m')" using l1 by (simp add: w)
  have "read_mem m' (buf_base b) (4 * n) = ?src" using read_write_same [of m1 "buf_base b" ?src] by (simp add: w)
  then show "words_at m' (buf_base b) n = words_at m ptr n" by (rule words_at_eq)
  have "keeps [(buf_base b, buf_len b)] m1 m'"
  proof -
    have "read_mem m' a l = read_mem m1 a l" if d: "disjoint_regions (a, l) (buf_base b, buf_len b)" for a l
      unfolding w by (rule read_write_disjoint) (simp add: disjoint_prefix2 [OF d len])
    moreover have "live m' = live m1" by (simp add: w)
    ultimately show ?thesis by (auto simp: keeps_def)
  qed
  with keeps_weaken [OF k] show "keeps [(buf_base b, buf_len b)] m m'" by (rule keeps_trans)
  show "pool_buf pool \<noteq> Some b \<Longrightarrow> r \<in> set (live m) \<Longrightarrow> disjoint_regions (buf_base b, buf_len b) r" using fresh by blast
qed

lemma dispatch_dt_launch:
  assumes drv: "driver_ok drv" and n: "n \<noteq> 0" and d: "dispatch_dt_field_buf drv rt m inb outb n f = (m', Inr ())"
  obtains m2 where "keeps [] m m2"
    "m' = launch (dt_field_from_days n (dt_code f)) [(buf_base inb, unat n)] (buf_base outb) m2
      (order rt ''dt_field_from_days'' (padded_grid dt_tg_size (unat n)))"
proof -
  obtain m1 nb m2 fb where 1: "new_buffer_from_bytes drv m (le_bytes n) = (m1, Inr nb)"
    and 2: "new_buffer_from_bytes drv m1 (le_bytes (dt_code f)) = (m2, Inr fb)"
    and m': "m' = launch (dt_field_from_days (scalar_arg m2 nb) (scalar_arg m2 fb)) [(buf_base inb, unat n)] (buf_base outb) m2
      (order rt ''dt_field_from_days'' (padded_grid dt_tg_size (unat n)))"
    using d n by (auto simp: dispatch_dt_field_buf_def split: prod.splits sum.splits)
  note s1 = scalar_buffer [OF drv 1] and s2 = scalar_buffer [OF drv 2]
  have "scalar_arg m2 nb = n" using scalar_kept [OF s2(2) s1(3)] s1(1) by simp
  then show thesis using that [of m2] keeps_trans [OF s1(2) s2(2)] m' s2(1) by simp
qed

section \<open>The entry point\<close>

text \<open>The caller's arrays are live and apart, from each other and from the pool's buffer.\<close>

definition arrays_ready :: "mem \<Rightarrow> staging_pool \<Rightarrow> nat \<Rightarrow> nat \<Rightarrow> nat \<Rightarrow> bool" where
  "arrays_ready m pool in_ptr out_ptr n \<longleftrightarrow>
     (in_ptr, 4 * n) \<in> set (live m) \<and> (out_ptr, 4 * n) \<in> set (live m) \<and> disjoint_regions (in_ptr, 4 * n) (out_ptr, 4 * n) \<and>
     (case pool_buf pool of None \<Rightarrow> True
      | Some p \<Rightarrow> (buf_base p, buf_len p) \<in> set (live m) \<and> disjoint_regions (buf_base p, buf_len p) (out_ptr, 4 * n))"

definition pool_region :: "staging_pool \<Rightarrow> (nat \<times> nat) list" where
  "pool_region pool = (case pool_buf pool of None \<Rightarrow> [] | Some p \<Rightarrow> [(buf_base p, buf_len p)])"

lemma dt_stage_input_words:
  assumes drv: "driver_ok drv" and s: "dt_stage_input drv m pool in_ptr n = Some (m', pool', Inr b)" and n: "0 < n"
    and inp: "(in_ptr, 4 * n) \<in> set (live m)" and out: "(a, 4 * n) \<in> set (live m)" "disjoint_regions (in_ptr, 4 * n) (a, 4 * n)"
    and pool: "\<And>p. pool_buf pool = Some p \<Longrightarrow> (buf_base p, buf_len p) \<in> set (live m) \<and> disjoint_regions (buf_base p, buf_len p) (a, 4 * n)"
  shows "words_at m' (buf_base b) n = words_at m in_ptr n"
    and "disjoint_regions (buf_base b, 4 * n) (a, 4 * n)"
    and "\<exists>l. 4 * n \<le> l \<and> (buf_base b, l) \<in> set (live m')"
    and "keeps (pool_region pool) m m'"
proof -
  have all: "words_at m' (buf_base b) n = words_at m in_ptr n \<and> disjoint_regions (buf_base b, 4 * n) (a, 4 * n) \<and>
      (\<exists>l. 4 * n \<le> l \<and> (buf_base b, l) \<in> set (live m')) \<and> keeps (pool_region pool) m m'"
  proof (cases "is_ptr_page_aligned drv in_ptr")
    case True
    then have b: "from_borrowed drv m in_ptr n 4 = (m', Inr b)" using s by (simp add: dt_stage_input_def split: prod.splits)
    from borrow_words [OF drv b inp] True out(2)
    show ?thesis by (auto intro: keeps_weaken)
  next
    case False
    then have st: "stage drv m pool (read_mem m in_ptr (4 * n)) = Some (m', pool', Inr b)"
      using s by (simp add: dt_stage_input_def mult.commute)
    note w = stage_words [OF drv st n, OF pool [THEN conjunct1]]
    have "disjoint_regions (buf_base b, buf_len b) (a, 4 * n)"
      using pool w(5) [OF _ _ out(1)] by (cases "pool_buf pool = Some b") auto
    moreover have "keeps (pool_region pool) m m'"
    proof (cases "pool_buf pool = Some b")
      case True
      then show ?thesis using w(4) by (simp add: pool_region_def)
    next
      case False
      from w(5) [OF _ False] pool w(4) show ?thesis by (fastforce simp: keeps_def disjoint_regions_sym)
    qed
    ultimately show ?thesis using w disjoint_prefix by blast
  qed
  show "words_at m' (buf_base b) n = words_at m in_ptr n" "disjoint_regions (buf_base b, 4 * n) (a, 4 * n)"
    "\<exists>l. 4 * n \<le> l \<and> (buf_base b, l) \<in> set (live m')" "keeps (pool_region pool) m m'"
    using all by blast+
qed

lemma sint_wrap32: "sint (word_of_int x :: u32) = wrap32 x"
  by (simp add: wrap32_def sint_sbintrunc')

lemma wrap32_idem: "wrap32 (wrap32 x) = wrap32 x"
  by (simp add: wrap32_def)

lemma civil_fields_wrapped: "civil_fields n = (y, m, d) \<Longrightarrow> wrap32 y = y \<and> wrap32 m = m \<and> wrap32 d = d"
  by (auto simp: civil_fields_def Let_def wrap32_idem)

lemma field_from_days_date:
  assumes "sint w < 2 ^ 31 - 719468"
  shows "\<exists>y m d. is_date y m d \<and> day_number y m d = sint w \<and>
    sint (field_from_days code w) = (if code = 0 then y else if code = 1 then m else d)"
proof -
  obtain y m d where c: "civil_fields (sint w) = (y, m, d)" by (metis prod_cases3)
  have "- (2 ^ 31) \<le> sint w" using sint_ge [of w] by simp
  from civil_fields_correct [OF this assms c] civil_fields_wrapped [OF c] show ?thesis
    by (intro exI [of _ y] exI [of _ m] exI [of _ d]) (simp add: field_from_days_def c sint_wrap32)
qed

lemma execute_dt_result:
  assumes drv: "driver_ok drv" and rt: "lawful_order rt" and ready: "arrays_ready m pool in_ptr out_ptr n"
    and n: "0 < n" "n < 2 ^ 32" and f: "dt_field_of f = Inr fld"
    and run: "execute_dt None drv rt m pool (in_ptr, n) (out_ptr, n) f = Some (m', pool', Inr ())"
  shows "words_at m' out_ptr n = map (dt_result (dt_code fld) [words_at m in_ptr n]) [0..<n]"
    and "keeps ((out_ptr, 4 * n) # pool_region pool) m m'"
proof -
  have ready': "(in_ptr, 4 * n) \<in> set (live m)" "(out_ptr, 4 * n) \<in> set (live m)" "disjoint_regions (in_ptr, 4 * n) (out_ptr, 4 * n)"
    and pool: "\<And>p. pool_buf pool = Some p \<Longrightarrow> (buf_base p, buf_len p) \<in> set (live m) \<and> disjoint_regions (buf_base p, buf_len p) (out_ptr, 4 * n)"
    using ready by (auto simp: arrays_ready_def split: option.splits)
  obtain m1 outb m2 inb m3 where 1: "from_borrowed drv m out_ptr n 4 = (m1, Inr outb)"
    and 2: "dt_stage_input drv m1 pool in_ptr n = Some (m2, pool', Inr inb)"
    and 3: "dispatch_dt_field_buf drv rt m2 inb outb (of_nat n) fld = (m3, Inr ())"
    and m': "m' = copy_back_output drv m3 out_ptr n outb"
    using run n f by (auto simp: execute_dt_def split: prod.splits sum.splits option.splits)
  note o = borrow_words [OF drv 1 ready'(2)]
  have fresh: "disjoint_regions r (buf_base outb, 4 * n)" if "r \<in> set (live m)" "disjoint_regions r (out_ptr, 4 * n)" for r
    using o(5) o(6) [OF _ that(1)] that(2) by (cases "is_ptr_page_aligned drv out_ptr") (auto simp: disjoint_regions_sym)
  have in1: "(in_ptr, 4 * n) \<in> set (live m1)" "words_at m1 in_ptr n = words_at m in_ptr n"
    using keeps_read [OF o(1) ready'(1)] kept_words [OF o(1) ready'(1)] by auto
  have pool1: "(buf_base p, buf_len p) \<in> set (live m1) \<and> disjoint_regions (buf_base p, buf_len p) (buf_base outb, 4 * n)"
    if "pool_buf pool = Some p" for p
    using pool [OF that] fresh keeps_read [OF o(1)] by blast
  note i = dt_stage_input_words [OF drv 2 n(1) in1(1) o(3) fresh [OF ready'(1,3)] pool1]
  have out2: "keeps [] m2 m2'" if "keeps [] m2 m2'" for m2' using that .
  have u: "unat (of_nat n :: u32) = n" using n(2) by (simp add: unat_of_nat)
  have "of_nat n \<noteq> (0 :: u32)" using n u by force
  then obtain m2' where k2: "keeps [] m2 m2'"
    and m3: "m3 = launch (dt_field_from_days (of_nat n) (dt_code fld)) [(buf_base inb, n)] (buf_base outb) m2'
      (order rt ''dt_field_from_days'' (padded_grid dt_tg_size n))"
    using dispatch_dt_launch [OF drv _ 3] u by auto
  have gs: "set (order rt ''dt_field_from_days'' (padded_grid dt_tg_size n)) = {..<padded_grid dt_tg_size n}"
    using rt schedule_set by (simp add: lawful_order_def)
  have words2: "words_at m2' (buf_base inb) n = words_at m in_ptr n"
    using i(1,3) in1(2) kept_words [OF k2] by metis
  note e = dt.finished_call [where n = "of_nat n", unfolded u, of "[(buf_base inb, n)]" outb, simplified, OF i(2) gs o(2) o(5) [THEN conjunct1]]
  show "words_at m' out_ptr n = map (dt_result (dt_code fld) [words_at m in_ptr n]) [0..<n]"
    unfolding m' m3 using e(1) words2 by simp
  have k3: "keeps [(buf_base outb, 4 * n), (out_ptr, 4 * n)] m2' m'" unfolding m' m3 by (rule e(2))
  show "keeps ((out_ptr, 4 * n) # pool_region pool) m m'"
  proof -
    have "keeps (pool_region pool) m m2'" using keeps_trans [OF keeps_trans [OF keeps_weaken [OF o(1)] i(4)] keeps_weaken [OF k2]] .
    then show ?thesis using k3 fresh by (fastforce simp: keeps_def)
  qed
qed

definition date_mem :: mem where
  "date_mem = \<lparr>heap = (\<lambda>x. if x = 37 then 0x08 else if x = 38 then 0x2B else 0), live = [(16, 8), (33, 8)]\<rparr>"

text \<open>With a driver that never refuses, the call succeeds.\<close>

lemma execute_dt_succeeds:
  assumes drv: "obliging drv" and n: "0 < n" "n < 2 ^ 32" and ptrs: "in_ptr \<noteq> 0" "out_ptr \<noteq> 0" and f: "dt_field_of f = Inr fld"
  shows "\<exists>m' pool'. execute_dt None drv rt m pool (in_ptr, n) (out_ptr, n) f = Some (m', pool', Inr ())"
proof -
  obtain m1 outb where 1: "from_borrowed drv m out_ptr n 4 = (m1, Inr outb)" using obliging_borrow [OF drv n(1) ptrs(2)] by blast
  have "read_mem m1 in_ptr (n * 4) \<noteq> []" using n(1) by (simp flip: length_greater_0_conv)
  then have st: "\<exists>m2 pool' inb. stage drv m1 pool (read_mem m1 in_ptr (n * 4)) = Some (m2, pool', Inr inb)" by (rule obliging_stage [OF drv])
  have bo: "\<exists>m2 inb. from_borrowed drv m1 in_ptr n 4 = (m2, Inr inb)" by (rule obliging_borrow [OF drv n(1) ptrs(1)])
  have "\<exists>m2 pool' inb. dt_stage_input drv m1 pool in_ptr n = Some (m2, pool', Inr inb)"
    unfolding dt_stage_input_def using st bo by (auto split: if_split)
  then obtain m2 pool' inb where 2: "dt_stage_input drv m1 pool in_ptr n = Some (m2, pool', Inr inb)" by blast
  have "unat (of_nat n :: u32) = n" using n(2) by (simp add: unat_of_nat)
  then have nz: "of_nat n \<noteq> (0 :: u32)" using n(1) by force
  obtain m3 nb where 3: "new_buffer_from_bytes drv m2 (le_bytes (of_nat n :: u32)) = (m3, Inr nb)" using obliging_scalar [OF drv] by blast
  obtain m4 fb where 4: "new_buffer_from_bytes drv m3 (le_bytes (dt_code fld)) = (m4, Inr fb)" using obliging_scalar [OF drv] by blast
  have "\<exists>m3. dispatch_dt_field_buf drv rt m2 inb outb (of_nat n) fld = (m3, Inr ())"
    by (simp add: dispatch_dt_field_buf_def nz 3 4)
  then show ?thesis using n 1 2 f by (auto simp: execute_dt_def)
qed

text \<open>C14. The date entry point returns dates of the Gregorian calendar: for a column of days since 1970-01-01 below the range
  where the kernel's first addition overflows, a successful call leaves in the output, row by row, the year, month or day
  of the valid date with that day number, and it changes no other live memory than the output and the staging buffer,
  whether the arrays are shared with the device, copied or staged through the pool, and in any order of the threads. With a
  driver that refuses no allocation and pointers that are not null, the call succeeds.\<close>

theorem execute_dt_correct:
  assumes "driver_ok drv" and "lawful_order rt" and "arrays_ready m pool in_ptr out_ptr n" and "0 < n" and "n < 2 ^ 32"
    and "dt_field_of f = Inr fld" and days: "\<forall>w \<in> set (words_at m in_ptr n). sint w < 2 ^ 31 - 719468"
  shows "(\<forall>m' pool'. execute_dt None drv rt m pool (in_ptr, n) (out_ptr, n) f = Some (m', pool', Inr ()) \<longrightarrow>
      (\<forall>i < n. \<exists>y mo d. is_date y mo d \<and> day_number y mo d = sint (words_at m in_ptr n ! i) \<and>
        sint (words_at m' out_ptr n ! i) = (case fld of Year \<Rightarrow> y | Month \<Rightarrow> mo | Day \<Rightarrow> d)) \<and>
      keeps ((out_ptr, 4 * n) # pool_region pool) m m') \<and>
    (obliging drv \<and> in_ptr \<noteq> 0 \<and> out_ptr \<noteq> 0 \<longrightarrow>
      (\<exists>m' pool'. execute_dt None drv rt m pool (in_ptr, n) (out_ptr, n) f = Some (m', pool', Inr ())))"
proof (intro conjI allI impI)
  show "\<exists>m' pool'. execute_dt None drv rt m pool (in_ptr, n) (out_ptr, n) f = Some (m', pool', Inr ())"
    if "obliging drv \<and> in_ptr \<noteq> 0 \<and> out_ptr \<noteq> 0"
    using execute_dt_succeeds assms(4-6) that by blast
next
  fix m' pool'
  assume run: "execute_dt None drv rt m pool (in_ptr, n) (out_ptr, n) f = Some (m', pool', Inr ())"
  note r = execute_dt_result [OF assms(1-6) run]
  show "keeps ((out_ptr, 4 * n) # pool_region pool) m m'" by (rule r(2))
  show "\<exists>y mo d. is_date y mo d \<and> day_number y mo d = sint (words_at m in_ptr n ! i) \<and>
      sint (words_at m' out_ptr n ! i) = (case fld of Year \<Rightarrow> y | Month \<Rightarrow> mo | Day \<Rightarrow> d)" if i: "i < n" for i
  proof -
    have "sint (words_at m in_ptr n ! i) < 2 ^ 31 - 719468" using days i by simp
    from field_from_days_date [OF this, of "dt_code fld"] show ?thesis
      using i by (cases fld) (auto simp: r(1) dt_result_def dt_code_def)
  qed
qed

lemma execute_dt_correct_witness:
  "\<exists>m' pool'. execute_dt None bump_driver demo_runtime date_mem staging_new (33, 2) (16, 2) 0 = Some (m', pool', Inr ()) \<and>
     words_at date_mem 33 2 = [0, 11016] \<and> (\<exists>mo d. is_date (sint (words_at m' 16 2 ! 1)) mo d \<and> day_number (sint (words_at m' 16 2 ! 1)) mo d = 11016)"
proof -
  have ready: "arrays_ready date_mem staging_new 33 16 2" by code_simp
  have w: "words_at date_mem 33 2 = [0, 11016]" by code_simp
  have d: "\<forall>w \<in> set (words_at date_mem 33 2). sint w < 2 ^ 31 - 719468" unfolding w by simp
  have f: "dt_field_of 0 = Inr Year" by (simp add: dt_field_of_def)
  note dates = execute_dt_correct [OF bump_driver_ok demo_runtime_lawful(1) ready _ _ f d]
  obtain m' pool' where run: "execute_dt None bump_driver demo_runtime date_mem staging_new (33, 2) (16, 2) 0 = Some (m', pool', Inr ())"
    using dates bump_driver_obliging by auto
  from dates [THEN conjunct1, rule_format, OF _ _ run, THEN conjunct1, rule_format, of 1]
  show ?thesis using run w by auto
qed

end
