(* ===== verification/Dtw.thy ===== *)
theory Dtw
  imports Device_Arrays Gpu_Aggs "HOL-Library.Extended_Nat"
begin

text \<open>Models dynamic time warping: the kernel \<open>shaders/dtw.metal\<close>, \<open>polars-metal-kernels/src/dtw.rs\<close> and
  \<open>polars-metal-core/src/udf/dtw.rs\<close>, with the recursive definition of the warping distance. Floats are bit patterns and their
  arithmetic on the device is a parameter, one operation for each of the source: that fast math may contract and reassociate
  them is outside the model.\<close>

section \<open>dtw.metal\<close>

definition dtw_tg_size :: nat where "dtw_tg_size = 32"

definition max_l :: nat where "max_l = 1024"

definition dtw_first_row :: "nat \<Rightarrow> u32" where
  "dtw_first_row j = (if j = 0 then 0 else infinity32)"

definition dtw_cell :: "float_arith \<Rightarrow> (nat \<Rightarrow> u32) \<Rightarrow> (nat \<Rightarrow> u32) \<Rightarrow> u32 \<Rightarrow> (nat \<Rightarrow> u32) \<Rightarrow> nat \<Rightarrow> nat \<Rightarrow> u32" where
  "dtw_cell A ref_s prev qi cur j =
     (let d = f_sub A qi (ref_s (j - 1));
          cost = f_mul A d d;
          mn = f_min A (f_min A (prev j) (cur (j - 1))) (prev (j - 1))
      in cur(j := f_add A cost mn))"

definition band_lo :: "int \<Rightarrow> nat \<Rightarrow> nat" where
  "band_lo window i = (if window \<ge> 0 \<and> int i - window > 1 then nat (int i - window) else 1)"

definition band_hi :: "int \<Rightarrow> nat \<Rightarrow> nat \<Rightarrow> nat" where
  "band_hi window L i = (if window \<ge> 0 \<and> int i + window < int L then nat (int i + window) else L)"

definition fill_inf :: "(nat \<Rightarrow> u32) \<Rightarrow> nat list \<Rightarrow> nat \<Rightarrow> u32" where
  "fill_inf = foldl (\<lambda>cur j. cur(j := infinity32))"

definition dtw_row :: "float_arith \<Rightarrow> int \<Rightarrow> nat \<Rightarrow> (nat \<Rightarrow> u32) \<Rightarrow> (nat \<Rightarrow> u32) \<Rightarrow> u32 \<Rightarrow> (nat \<Rightarrow> u32) \<Rightarrow> nat \<Rightarrow> nat \<Rightarrow> u32" where
  "dtw_row A window L ref_s prev qi cur i =
     (let cur = cur(0 := infinity32);
          jlo = band_lo window i;
          jhi = band_hi window L i;
          cur = fill_inf cur [1..<jlo];
          cur = foldl (dtw_cell A ref_s prev qi) cur [jlo..<jhi + 1]
      in fill_inf cur [jhi + 1..<L + 1])"

text \<open>The loop over the rows, with the exchange of the two row pointers.\<close>

definition dtw_rows :: "float_arith \<Rightarrow> int \<Rightarrow> nat \<Rightarrow> (nat \<Rightarrow> u32) \<Rightarrow> (nat \<Rightarrow> u32) \<Rightarrow> (nat \<Rightarrow> u32) \<times> (nat \<Rightarrow> u32) \<Rightarrow> nat list \<Rightarrow> (nat \<Rightarrow> u32) \<times> (nat \<Rightarrow> u32)" where
  "dtw_rows A window L ref_s q = foldl (\<lambda>(prev, cur) i. (dtw_row A window L ref_s prev (q (i - 1)) cur i, prev))"

text \<open>One threadgroup; its shared memory holds the reference and the two rows. \<open>tids\<close> is the order in which its threads load, \<open>junk\<close> what threadgroup memory held.\<close>

definition dtw_banded :: "float_arith \<Rightarrow> nat list \<Rightarrow> (nat \<Rightarrow> u32) \<Rightarrow> u32 \<Rightarrow> u32 \<Rightarrow> u32 \<Rightarrow> u32 list list \<Rightarrow> nat \<Rightarrow> (nat \<times> u32) list" where
  "dtw_banded A tids junk n_pairs seq_len window xss pair_id =
     (if unat n_pairs \<le> pair_id then []
      else
        let L = unat seq_len;
            q = (\<lambda>i. (xss ! 0) ! (pair_id * L + i));
            ref_s = cooperative_load tids dtw_tg_size L (\<lambda>j. (xss ! 1) ! j) junk;
            row_a = cooperative_load tids dtw_tg_size (L + 1) dtw_first_row junk;
            (prev, cur) = dtw_rows A (sint window) L ref_s q (row_a, junk) [1..<L + 1]
        in [(pair_id, f_sqrt A (prev L))])"

section \<open>dtw.rs\<close>

datatype dtw_error =
    DtwBuffer buffer_err
  | SeqLenOutOfRange nat
  | QueriesLenMismatch nat nat
  | ReferenceLenMismatch nat nat
  | DtwOutputLenMismatch nat nat
  | PairCountOverflow nat

text \<open>The grid has one threadgroup per pair. The context \<open>(A, tids, junk)\<close> is the device's.\<close>

type_synonym dtw_device = "float_arith \<times> nat list \<times> (nat \<Rightarrow> u32)"

definition dispatch_dtw_buf ::
  "driver \<Rightarrow> runtime \<Rightarrow> dtw_device \<Rightarrow> mem \<Rightarrow> metal_buffer \<Rightarrow> metal_buffer \<Rightarrow> metal_buffer \<Rightarrow> u32 \<Rightarrow> u32 \<Rightarrow> u32 \<Rightarrow> mem \<times> (dtw_error + unit)" where
  "dispatch_dtw_buf drv rt dev m queries reference output n_pairs seq_len window =
     (let l = unat seq_len in
      if seq_len = 0 \<or> max_l < l then (m, Inl (SeqLenOutOfRange l))
      else if n_pairs = 0 then (m, Inr ())
      else case scalar_buffers drv m [n_pairs, seq_len, window] of
          (m1, Inl e) \<Rightarrow> (m1, Inl (DtwBuffer e))
        | (m1, Inr bs) \<Rightarrow>
            (case (dev, map (scalar_arg m1) bs) of
               ((A, tids, junk), [n, L, w]) \<Rightarrow>
                 (launch (dtw_banded A tids junk n L w) [(buf_base queries, unat n_pairs * l), (buf_base reference, l)]
                    (buf_base output) m1 (order rt ''dtw_banded'' (unat n_pairs)), Inr ())))"

definition dispatch_dtw ::
  "driver \<Rightarrow> runtime \<Rightarrow> dtw_device \<Rightarrow> mem \<Rightarrow> u32 list \<Rightarrow> u32 list \<Rightarrow> u32 list \<Rightarrow> nat \<Rightarrow> u32 \<Rightarrow> mem \<times> (dtw_error + u32 list)" where
  "dispatch_dtw drv rt dev m queries reference output seq_len window =
     (if seq_len = 0 \<or> max_l < seq_len then (m, Inl (SeqLenOutOfRange seq_len))
      else if length reference \<noteq> seq_len then (m, Inl (ReferenceLenMismatch (length reference) seq_len))
      else let n_pairs = length output in
        if length queries \<noteq> n_pairs * seq_len then (m, Inl (QueriesLenMismatch (length queries) (n_pairs * seq_len)))
        else if n_pairs = 0 then (m, Inr output)
        else if 2 ^ 32 \<le> n_pairs then (m, Inl (PairCountOverflow n_pairs))
        else case new_buffer_from_bytes drv m (words_le queries) of
            (m1, Inl e) \<Rightarrow> (m1, Inl (DtwBuffer e))
          | (m1, Inr q_buf) \<Rightarrow>
              (case new_buffer_from_bytes drv m1 (words_le reference) of
                 (m2, Inl e) \<Rightarrow> (m2, Inl (DtwBuffer e))
               | (m2, Inr r_buf) \<Rightarrow>
                   (case new_buffer_zeroed drv m2 (4 * n_pairs) of
                      (m3, Inl e) \<Rightarrow> (m3, Inl (DtwBuffer e))
                    | (m3, Inr out_buf) \<Rightarrow>
                        (case dispatch_dtw_buf drv rt dev m3 q_buf r_buf out_buf (of_nat n_pairs) (of_nat seq_len) window of
                           (m4, Inl e) \<Rightarrow> (m4, Inl e)
                         | (m4, Inr _) \<Rightarrow> (m4, Inr (words_at m4 (buf_base out_buf) n_pairs))))))"

section \<open>udf/dtw.rs\<close>

datatype dtw_py_error =
    DtwNoDevice string
  | DtwDimensionMismatch
  | DtwTooManyPairs
  | DtwTooLong
  | DtwQueryStaging buffer_err
  | DtwRefStaging buffer_err
  | DtwOutStaging buffer_err
  | DtwDispatch dtw_error

definition saturating_mul :: "nat \<Rightarrow> nat \<Rightarrow> nat" where
  "saturating_mul a b = min (a * b) (2 ^ 64 - 1)"

definition execute_dtw ::
  "string option \<Rightarrow> driver \<Rightarrow> runtime \<Rightarrow> dtw_device \<Rightarrow> mem \<Rightarrow> nat \<times> nat \<Rightarrow> nat \<times> nat \<Rightarrow> nat \<times> nat \<Rightarrow> nat \<Rightarrow> nat \<Rightarrow> u32 \<Rightarrow>
     mem \<times> (dtw_py_error + unit)" where
  "execute_dtw no_device drv rt dev m queries reference out n_pairs seq_len window =
     (case (no_device, queries, reference, out) of
        (Some e, _) \<Rightarrow> (m, Inl (DtwNoDevice e))
      | (None, (q_ptr, q_n), (r_ptr, r_n), (out_ptr, out_n)) \<Rightarrow>
          if r_n \<noteq> seq_len \<or> out_n \<noteq> n_pairs \<or> q_n \<noteq> saturating_mul n_pairs seq_len then (m, Inl DtwDimensionMismatch)
          else if n_pairs = 0 \<or> seq_len = 0 then (m, Inr ())
          else if 2 ^ 32 \<le> n_pairs then (m, Inl DtwTooManyPairs)
          else if 2 ^ 32 \<le> seq_len then (m, Inl DtwTooLong)
          else (case from_borrowed drv m q_ptr q_n 4 of
              (m1, Inl e) \<Rightarrow> (m1, Inl (DtwQueryStaging e))
            | (m1, Inr qb) \<Rightarrow>
                (case from_borrowed drv m1 r_ptr r_n 4 of
                   (m2, Inl e) \<Rightarrow> (m2, Inl (DtwRefStaging e))
                 | (m2, Inr rb) \<Rightarrow>
                     (case from_borrowed drv m2 out_ptr out_n 4 of
                        (m3, Inl e) \<Rightarrow> (m3, Inl (DtwOutStaging e))
                      | (m3, Inr ob) \<Rightarrow>
                          (case dispatch_dtw_buf drv rt dev m3 qb rb ob (of_nat n_pairs) (of_nat seq_len) window of
                             (m4, Inl e) \<Rightarrow> (m4, Inl (DtwDispatch e))
                           | (m4, Inr _) \<Rightarrow> (copy_back_output drv m4 out_ptr out_n ob, Inr ()))))))"

section \<open>The rolling rows compute the table\<close>

lemma fill_inf_eq: "fill_inf cur js = (\<lambda>j. if j \<in> set js then infinity32 else cur j)"
  unfolding fill_inf_def by (rule store_all)

definition in_band :: "int \<Rightarrow> nat \<Rightarrow> nat \<Rightarrow> bool" where
  "in_band window i j \<longleftrightarrow> window < 0 \<or> \<bar>int i - int j\<bar> \<le> window"

text \<open>The distance table: the cost of a cell plus the least of its three predecessors, infinity outside the band.\<close>

fun dtw_table :: "float_arith \<Rightarrow> int \<Rightarrow> (nat \<Rightarrow> u32) \<Rightarrow> (nat \<Rightarrow> u32) \<Rightarrow> nat \<Rightarrow> nat \<Rightarrow> u32" where
  "dtw_table A w q r 0 j = (if j = 0 then 0 else infinity32)"
| "dtw_table A w q r (Suc i) 0 = infinity32"
| "dtw_table A w q r (Suc i) (Suc j) =
     (if in_band w (Suc i) (Suc j)
      then f_add A (f_mul A (f_sub A (q i) (r j)) (f_sub A (q i) (r j)))
        (f_min A (f_min A (dtw_table A w q r i (Suc j)) (dtw_table A w q r (Suc i) j)) (dtw_table A w q r i j))
      else infinity32)"

lemma band_cells:
  assumes "1 \<le> i" "i \<le> L" "1 \<le> j" "j \<le> L"
  shows "in_band w i j \<longleftrightarrow> band_lo w i \<le> j \<and> j \<le> band_hi w L i"
  using assms by (auto simp: in_band_def band_lo_def band_hi_def)

lemma band_bounds:
  assumes "1 \<le> i" "i \<le> L"
  shows "1 \<le> band_lo w i" "band_lo w i \<le> Suc (band_hi w L i)" "band_hi w L i \<le> L"
  using assms by (auto simp: band_lo_def band_hi_def)

lemma dtw_cells:
  assumes prev: "\<And>j. j \<le> L \<Longrightarrow> prev j = dtw_table A w q r i j" and i: "i < L" and refs: "\<And>j. j < L \<Longrightarrow> ref_s j = r j"
    and cur: "\<And>j. j < lo \<Longrightarrow> cur j = dtw_table A w q r (Suc i) j" and lo: "1 \<le> lo" "band_lo w (Suc i) \<le> lo"
    and k: "lo + k \<le> Suc (band_hi w L (Suc i))"
  shows "j < lo + k \<Longrightarrow> foldl (dtw_cell A ref_s prev (q i)) cur [lo..<lo + k] j = dtw_table A w q r (Suc i) j"
  using k
proof (induction k arbitrary: j)
  case 0
  then show ?case using cur by simp
next
  case (Suc k)
  let ?c = "foldl (dtw_cell A ref_s prev (q i)) cur [lo..<lo + k]"
  have hi: "lo + k \<le> L" using Suc.prems(2) band_bounds(3) [of "Suc i" L w] i by simp
  obtain j' where j': "lo + k = Suc j'" using lo(1) by (metis add_is_0 not0_implies_Suc not_one_le_zero)
  have band: "in_band w (Suc i) (Suc j')"
    using band_cells [of "Suc i" L "Suc j'" w] Suc.prems(2) lo hi i unfolding j' [symmetric] by simp
  have IH: "?c j = dtw_table A w q r (Suc i) j" if "j < lo + k" for j using Suc that by simp
  have "foldl (dtw_cell A ref_s prev (q i)) cur [lo..<lo + Suc k] = dtw_cell A ref_s prev (q i) ?c (lo + k)" by simp
  moreover have "dtw_cell A ref_s prev (q i) ?c (lo + k) (lo + k) = dtw_table A w q r (Suc i) (lo + k)"
    using prev [of "Suc j'"] prev [of j'] refs [of j'] IH [of j'] hi band unfolding j' by (simp add: dtw_cell_def Let_def)
  moreover have "dtw_cell A ref_s prev (q i) ?c (lo + k) j = ?c j" if "j \<noteq> lo + k" for j
    using that by (simp add: dtw_cell_def Let_def)
  ultimately show ?case using IH Suc.prems(1) by (metis add_Suc_right less_SucE)
qed

lemma dtw_row_table:
  assumes prev: "\<And>j. j \<le> L \<Longrightarrow> prev j = dtw_table A w q r i j" and i: "i < L" and refs: "\<And>j. j < L \<Longrightarrow> ref_s j = r j"
    and j: "j \<le> L"
  shows "dtw_row A w L ref_s prev (q i) cur (Suc i) j = dtw_table A w q r (Suc i) j"
proof -
  let ?lo = "band_lo w (Suc i)" and ?hi = "band_hi w L (Suc i)"
  note b = band_bounds [of "Suc i" L w]
  have out: "dtw_table A w q r (Suc i) j = infinity32" if "j \<le> L" "\<not> (?lo \<le> j \<and> j \<le> ?hi) \<or> j = 0" for j
    using band_cells [of "Suc i" L j w] that i by (cases j) auto
  define c where "c = fill_inf (cur(0 := infinity32)) [1..<?lo]"
  have c: "c j = dtw_table A w q r (Suc i) j" if "j < ?lo" for j
    using out [of j] that b i by (auto simp: c_def fill_inf_eq)
  have f: "foldl (dtw_cell A ref_s prev (q i)) c [?lo..<Suc ?hi] j = dtw_table A w q r (Suc i) j" if "j \<le> ?hi" for j
    using dtw_cells [where lo = ?lo and k = "Suc ?hi - ?lo" and j = j, OF prev i refs c] b i that by simp
  have "dtw_row A w L ref_s prev (q i) cur (Suc i) j = (if ?hi < j then infinity32 else foldl (dtw_cell A ref_s prev (q i)) c [?lo..<Suc ?hi] j)"
    using j by (auto simp: dtw_row_def c_def fill_inf_eq Let_def simp del: upt_Suc)
  then show ?thesis using f [of j] out [of j] j by auto
qed

lemma dtw_rows_table:
  assumes first: "\<And>j. j \<le> L \<Longrightarrow> prev j = dtw_table A w q r 0 j" and refs: "\<And>j. j < L \<Longrightarrow> ref_s j = r j" and k: "k \<le> L" and j: "j \<le> L"
  shows "fst (dtw_rows A w L ref_s q (prev, cur) [1..<Suc k]) j = dtw_table A w q r k j"
  using k j
proof (induction k arbitrary: j)
  case 0
  then show ?case using first by (simp add: dtw_rows_def)
next
  case (Suc k)
  obtain p c where pc: "dtw_rows A w L ref_s q (prev, cur) [Suc 0..<Suc k] = (p, c)" by force
  have "p j = dtw_table A w q r k j" if "j \<le> L" for j using Suc.IH [of j] Suc.prems(1) that by (simp add: pc del: upt_Suc)
  note row = dtw_row_table [OF this _ refs]
  have "[1..<Suc (Suc k)] = [1..<Suc k] @ [Suc k]" by simp
  then show ?case using row Suc.prems pc by (simp add: dtw_rows_def del: upt_Suc)
qed

text \<open>What a threadgroup computes: the root of the last entry of its pair's table.\<close>

definition dtw_distance :: "float_arith \<Rightarrow> nat \<Rightarrow> int \<Rightarrow> u32 list list \<Rightarrow> nat \<Rightarrow> u32" where
  "dtw_distance A L w xss p = f_sqrt A (dtw_table A w (\<lambda>i. xss ! 0 ! (p * L + i)) (\<lambda>j. xss ! 1 ! j) L L)"

lemma dtw_banded_result:
  assumes "set tids = {..<dtw_tg_size}"
  shows "dtw_banded A tids junk n l w xss p = (if unat n \<le> p then [] else [(p, dtw_distance A (unat l) (sint w) xss p)])"
proof -
  let ?L = "unat l" and ?q = "\<lambda>i. xss ! 0 ! (p * unat l + i)" and ?r = "\<lambda>j. xss ! 1 ! j"
  define ref_s where "ref_s = cooperative_load tids dtw_tg_size ?L (\<lambda>j. (xss ! 1) ! j) junk"
  define row_a where "row_a = cooperative_load tids dtw_tg_size (?L + 1) dtw_first_row junk"
  have tg: "0 < dtw_tg_size" by (simp add: dtw_tg_size_def)
  have "fst (dtw_rows A (sint w) ?L ref_s ?q (row_a, junk) [1..<Suc ?L]) ?L = dtw_table A (sint w) ?q ?r ?L ?L"
    by (rule dtw_rows_table) (auto simp: ref_s_def row_a_def cooperative_load_eq [OF assms tg] dtw_first_row_def)
  then show ?thesis
    by (auto simp: dtw_banded_def ref_s_def row_a_def dtw_distance_def Let_def simp del: upt_Suc split: prod.split)
qed

text \<open>The order of the load does not matter: every order gives the kernel of the threads in sequence.\<close>

interpretation dtw: group_kernel "dtw_banded A [0..<dtw_tg_size] junk n l w" "dtw_distance A (unat l) (sint w)" "\<lambda>i. i" "unat n" "unat n"
  for A junk n l w
  by unfold_locales (auto simp: dtw_banded_result atLeast0LessThan)

lemma dtw_any_load:
  "set tids = {..<dtw_tg_size} \<Longrightarrow> dtw_banded A tids junk n l w = dtw_banded A [0..<dtw_tg_size] junk n l w"
  by (intro ext) (simp add: dtw_banded_result atLeast0LessThan)

section \<open>The table holds the least costs\<close>

text \<open>A warping path advances in one of the sequences or in both, inside the band.\<close>

inductive warping_path :: "int \<Rightarrow> (nat \<times> nat) list \<Rightarrow> nat \<Rightarrow> nat \<Rightarrow> bool" for w where
  start: "warping_path w [] 0 0"
| step: "warping_path w p i j \<Longrightarrow> (i', j') \<in> {(i, Suc j), (Suc i, j), (Suc i, Suc j)} \<Longrightarrow> 1 \<le> i' \<Longrightarrow> 1 \<le> j' \<Longrightarrow> in_band w i' j' \<Longrightarrow>
    warping_path w (p @ [(i', j')]) i' j'"

inductive_cases warping_path_cell: "warping_path w p (Suc i) (Suc j)"
inductive_simps warping_path_origin: "warping_path w p 0 j" "warping_path w p i 0"

definition cell_cost :: "float_arith \<Rightarrow> (u32 \<Rightarrow> enat) \<Rightarrow> (nat \<Rightarrow> u32) \<Rightarrow> (nat \<Rightarrow> u32) \<Rightarrow> nat \<times> nat \<Rightarrow> enat" where
  "cell_cost A val q r = (\<lambda>(i, j). let d = f_sub A (q (i - 1)) (r (j - 1)) in val (f_mul A d d))"

definition path_cost :: "float_arith \<Rightarrow> (u32 \<Rightarrow> enat) \<Rightarrow> (nat \<Rightarrow> u32) \<Rightarrow> (nat \<Rightarrow> u32) \<Rightarrow> (nat \<times> nat) list \<Rightarrow> enat" where
  "path_cost A val q r p = sum_list (map (cell_cost A val q r) p)"

text \<open>A reading of the floats under which the minimum is exact and no sum of the run is rounded.\<close>

definition exact_run :: "float_arith \<Rightarrow> (u32 \<Rightarrow> enat) \<Rightarrow> nat \<Rightarrow> int \<Rightarrow> (nat \<Rightarrow> u32) \<Rightarrow> (nat \<Rightarrow> u32) \<Rightarrow> bool" where
  "exact_run A val L w q r \<longleftrightarrow> val 0 = 0 \<and> val infinity32 = \<infinity> \<and> (\<forall>x y. val (f_min A x y) = min (val x) (val y)) \<and>
     (\<forall>i < L. \<forall>j < L. in_band w (Suc i) (Suc j) \<longrightarrow>
       val (dtw_table A w q r (Suc i) (Suc j)) = cell_cost A val q r (Suc i, Suc j) +
         min (min (val (dtw_table A w q r i (Suc j))) (val (dtw_table A w q r (Suc i) j))) (val (dtw_table A w q r i j)))"

lemma path_cost_snoc: "path_cost A val q r (p @ [e]) = path_cost A val q r p + cell_cost A val q r e"
  by (simp add: path_cost_def)

lemma table_below:
  assumes "exact_run A val L w q r"
  shows "warping_path w p i j \<Longrightarrow> i \<le> L \<Longrightarrow> j \<le> L \<Longrightarrow> val (dtw_table A w q r i j) \<le> path_cost A val q r p"
proof (induction rule: warping_path.induct)
  case start
  then show ?case using assms by (simp add: exact_run_def path_cost_def)
next
  case (step p i j i' j')
  obtain k l where kl: "i' = Suc k" "j' = Suc l" using step.hyps(3,4) that [of "i' - 1" "j' - 1"] by simp
  have le: "val (dtw_table A w q r i j) \<le> path_cost A val q r p" using step by auto
  have eq: "val (dtw_table A w q r i' j') = cell_cost A val q r (i', j') +
      min (min (val (dtw_table A w q r k (Suc l))) (val (dtw_table A w q r (Suc k) l))) (val (dtw_table A w q r k l))"
    using assms step.hyps(5) step.prems unfolding exact_run_def kl by simp
  have "min (min (val (dtw_table A w q r k (Suc l))) (val (dtw_table A w q r (Suc k) l))) (val (dtw_table A w q r k l)) \<le>
      val (dtw_table A w q r i j)"
    using step.hyps(2) unfolding kl by (auto simp: min_le_iff_disj simp del: dtw_table.simps)
  from order.trans [OF this le] show ?case
    unfolding path_cost_snoc eq by (subst add.commute) (rule add_right_mono)
qed

lemma table_reached:
  assumes "exact_run A val L w q r"
  shows "i \<le> L \<Longrightarrow> j \<le> L \<Longrightarrow> val (dtw_table A w q r i j) \<noteq> \<infinity> \<Longrightarrow>
    \<exists>p. warping_path w p i j \<and> path_cost A val q r p = val (dtw_table A w q r i j)"
proof (induction "i + j" arbitrary: i j rule: less_induct)
  case less
  have base: "val 0 = 0" "val infinity32 = \<infinity>" using assms by (simp_all add: exact_run_def)
  show ?case
  proof (cases "i = 0 \<or> j = 0")
    case True
    then have "i = 0 \<and> j = 0" using less.prems(3) base by (cases i; cases j) auto
    then show ?thesis using base by (auto simp: path_cost_def intro!: exI [of _ "[]"] warping_path.start)
  next
    case False
    then obtain k l where kl: "i = Suc k" "j = Suc l" by (metis not0_implies_Suc)
    have band: "in_band w i j" using less.prems(3) base kl by (auto split: if_splits)
    let ?D = "\<lambda>i j. val (dtw_table A w q r i j)"
    have D: "?D i j = cell_cost A val q r (i, j) + min (min (?D k (Suc l)) (?D (Suc k) l)) (?D k l)"
      using assms band less.prems(1,2) unfolding exact_run_def kl by simp
    have "\<exists>(i', j') \<in> {(k, Suc l), (Suc k, l), (k, l)}. ?D i j = cell_cost A val q r (i, j) + ?D i' j'"
      unfolding D by (auto simp: min_def)
    then obtain i' j' where pred: "(i', j') \<in> {(k, Suc l), (Suc k, l), (k, l)}" and e: "?D i j = cell_cost A val q r (i, j) + ?D i' j'" by blast
    have "?D i' j' \<noteq> \<infinity>"
    proof
      assume "?D i' j' = \<infinity>"
      then have "?D i j = \<infinity>" unfolding e by simp
      then show False using less.prems(3) by simp
    qed
    then obtain p where p: "warping_path w p i' j'" "path_cost A val q r p = ?D i' j'"
      using less.hyps [of i' j'] pred less.prems(1,2) kl by auto
    have "warping_path w (p @ [(i, j)]) i j" by (rule warping_path.step [OF p(1)]) (use pred kl band in auto)
    then show ?thesis using p(2) e by (auto simp: path_cost_snoc add.commute)
  qed
qed

section \<open>The entry point\<close>

text \<open>The caller's arrays are live, and the output is apart from the others.\<close>

definition dtw_arrays :: "mem \<Rightarrow> nat \<times> nat \<Rightarrow> nat \<times> nat \<Rightarrow> nat \<times> nat \<Rightarrow> bool" where
  "dtw_arrays m = (\<lambda>(q, qn) (r, rn) (a, n). {(q, 4 * qn), (r, 4 * rn), (a, 4 * n)} \<subseteq> set (live m) \<and>
     disjoint_regions (q, 4 * qn) (a, 4 * n) \<and> disjoint_regions (r, 4 * rn) (a, 4 * n))"

lemma dispatch_dtw_launch:
  assumes drv: "driver_ok drv" and n: "n \<noteq> 0" and tids: "set tids = {..<dtw_tg_size}"
    and d: "dispatch_dtw_buf drv rt (A, tids, junk) m qb rb ob n l w = (m', Inr ())"
  obtains m2 where "keeps [] m m2" and "l \<noteq> 0" and "unat l \<le> max_l"
    and "m' = launch (dtw_banded A [0..<dtw_tg_size] junk n l w) [(buf_base qb, unat n * unat l), (buf_base rb, unat l)]
      (buf_base ob) m2 (order rt ''dtw_banded'' (unat n))"
proof -
  obtain m2 bs where 1: "scalar_buffers drv m [n, l, w] = (m2, Inr bs)"
    and m': "(case map (scalar_arg m2) bs of [n', L, w'] \<Rightarrow> (launch (dtw_banded A tids junk n' L w')
      [(buf_base qb, unat n * unat l), (buf_base rb, unat l)] (buf_base ob) m2 (order rt ''dtw_banded'' (unat n)), Inr ())) =
      (m', Inr () :: dtw_error + unit)"
    and l: "l \<noteq> 0" "unat l \<le> max_l"
    using d n by (auto simp: dispatch_dtw_buf_def Let_def not_less simp del: scalar_buffers.simps split: prod.splits sum.splits if_splits)
  show thesis
    using that [of m2] scalar_buffers_correct [OF drv 1] l m' by (simp add: dtw_any_load [OF tids])
qed

lemma execute_dtw_result:
  assumes drv: "driver_ok drv" and rt: "lawful_order rt" and tids: "set tids = {..<dtw_tg_size}"
    and arrays: "dtw_arrays m (q, qn) (r, rn) (a, n)" and n: "0 < n" "0 < l"
    and run: "execute_dtw None drv rt (A, tids, junk) m (q, qn) (r, rn) (a, n) n l w = (m', Inr ())"
  shows "words_at m' a n = map (dtw_distance A l (sint w) [words_at m q qn, words_at m r rn]) [0..<n] \<and>
    keeps [(a, 4 * n)] m m' \<and> l \<le> max_l \<and> qn = n * l \<and> rn = l"
proof -
  have live: "(q, 4 * qn) \<in> set (live m)" "(r, 4 * rn) \<in> set (live m)" "(a, 4 * n) \<in> set (live m)"
    and apart: "disjoint_regions (q, 4 * qn) (a, 4 * n)" "disjoint_regions (r, 4 * rn) (a, 4 * n)"
    using arrays by (auto simp: dtw_arrays_def)
  obtain m1 qb m2 rb m3 ob m4 where 1: "from_borrowed drv m q qn 4 = (m1, Inr qb)" and 2: "from_borrowed drv m1 r rn 4 = (m2, Inr rb)"
    and 3: "from_borrowed drv m2 a n 4 = (m3, Inr ob)"
    and 4: "dispatch_dtw_buf drv rt (A, tids, junk) m3 qb rb ob (of_nat n) (of_nat l) w = (m4, Inr ())"
    and m': "m' = copy_back_output drv m4 a n ob"
    and dims: "rn = l" "qn = saturating_mul n l" "n < 2 ^ 32" "l < 2 ^ 32"
    using run n by (auto simp: execute_dtw_def not_le split: prod.splits sum.splits if_splits)
  have "n * l < 2 ^ 32 * 2 ^ 32" using dims(3,4) by (intro mult_strict_mono) auto
  then have qn: "qn = n * l" using dims(2) by (simp add: saturating_mul_def)
  have u: "unat (of_nat n :: u32) = n" "unat (of_nat l :: u32) = l" using dims(3,4) by (simp_all add: unat_of_nat)
  note b1 = borrow_words [OF drv 1 live(1)]
  have r1: "(r, 4 * rn) \<in> set (live m1)" "(a, 4 * n) \<in> set (live m1)" using keeps_read [OF b1(1)] live by auto
  note b2 = borrow_words [OF drv 2 r1(1)]
  have a2: "(a, 4 * n) \<in> set (live m2)" using keeps_read [OF b2(1) r1(2)] by simp
  note b3 = borrow_words [OF drv 3 a2]
  have q2: "(buf_base qb, 4 * qn) \<in> set (live m2)" using keeps_read [OF b2(1) b1(3)] by simp
  have dq: "disjoint_regions (buf_base qb, 4 * qn) (buf_base ob, 4 * n)"
    using borrowed_apart [OF drv 3 a2 q2] borrowed_apart [OF drv 1 live(1,3) apart(1)] by (simp add: disjoint_regions_sym)
  have dr: "disjoint_regions (buf_base rb, 4 * rn) (buf_base ob, 4 * n)"
    using borrowed_apart [OF drv 3 a2 b2(3)] borrowed_apart [OF drv 2 r1 apart(2)] by (simp add: disjoint_regions_sym)
  have "of_nat n \<noteq> (0 :: u32)" using n u by force
  from dispatch_dtw_launch [OF drv this tids 4] obtain m5 where k5: "keeps [] m3 m5" and lm: "l \<le> max_l"
    and m4: "m4 = launch (dtw_banded A [0..<dtw_tg_size] junk (of_nat n) (of_nat l) w) [(buf_base qb, qn), (buf_base rb, rn)]
      (buf_base ob) m5 (order rt ''dtw_banded'' n)"
    using u qn dims(1) by auto
  have gs: "set (order rt ''dtw_banded'' n) = {..<n}" using rt schedule_set by (simp add: lawful_order_def)
  have q3: "(buf_base qb, 4 * qn) \<in> set (live m3)" "(buf_base rb, 4 * rn) \<in> set (live m3)"
    using keeps_read [OF b3(1)] q2 b2(3) by auto
  have wq: "words_at m5 (buf_base qb) qn = words_at m q qn"
    using kept_words [OF k5 q3(1)] kept_words [OF b3(1) q2] kept_words [OF b2(1) b1(3)] b1(4) by simp
  have wr: "words_at m5 (buf_base rb) rn = words_at m r rn"
    using kept_words [OF k5 q3(2)] kept_words [OF b3(1) b2(3)] b2(4) kept_words [OF b1(1) live(2)] by simp
  have ap: "\<And>s. s \<in> set [(buf_base qb, qn), (buf_base rb, rn)] \<Longrightarrow> disjoint_regions (fst s, 4 * snd s) (buf_base ob, 4 * n)"
    using dq dr by auto
  note e = dtw.finished_call [where n = "of_nat n" and l = "of_nat l" and inputs = "[(buf_base qb, qn), (buf_base rb, rn)]", unfolded u,
      OF ap gs b3(2) b3(5) [THEN conjunct1]]
  have "words_at m' a n = map (dtw_distance A l (sint w) [words_at m q qn, words_at m r rn]) [0..<n]"
    unfolding m' m4 using e(1) wq wr by simp
  moreover have "keeps [(a, 4 * n)] m m'"
  proof -
    have k: "keeps [] m m2" "keeps [] m m5" using keeps_trans [OF b1(1) b2(1)] keeps_trans [OF _ keeps_trans [OF b3(1) k5]] by auto
    have "keeps [(buf_base ob, 4 * n), (a, 4 * n)] m5 m'" unfolding m' m4 by (rule e(2))
    moreover have "disjoint_regions s (buf_base ob, 4 * n)" if "s \<in> set (live m)" "disjoint_regions s (a, 4 * n)" for s
      using borrowed_apart [OF drv 3 a2, of s] that keeps_read [OF k(1)] by (cases s) (auto simp: disjoint_regions_sym)
    ultimately show ?thesis using k(2) by (fastforce simp: keeps_def)
  qed
  ultimately show ?thesis using lm qn dims(1) by simp
qed

text \<open>The warping entry point computes the banded warping distance of every query: a successful call leaves at each
  position the root of the last entry of the recursive distance table of that query and the reference, changes no other live
  memory than the output, and accepts only lengths up to 1024; when the sums of the run are exact, that entry is the least
  cost over all warping paths inside the band (infinite when there is none). The rolling rows, the undefined threadgroup
  memory, the sharing or copying of the arrays and the order of the threads leave no trace.\<close>

theorem execute_dtw_correct:
  assumes "driver_ok drv" and "lawful_order rt" and "set tids = {..<dtw_tg_size}"
    and "dtw_arrays m (q, qn) (r, rn) (a, n)" and "0 < n" and "0 < l"
    and "execute_dtw None drv rt (A, tids, junk) m (q, qn) (r, rn) (a, n) n l w = (m', Inr ())"
  defines "qs \<equiv> \<lambda>p i. words_at m q (n * l) ! (p * l + i)" and "rs \<equiv> \<lambda>j. words_at m r l ! j"
  shows "l \<le> max_l \<and> keeps [(a, 4 * n)] m m' \<and>
    (\<forall>p < n. \<exists>x. words_at m' a n ! p = f_sqrt A x \<and> x = dtw_table A (sint w) (qs p) rs l l \<and>
      (\<forall>val. exact_run A val l (sint w) (qs p) rs \<longrightarrow>
        (\<forall>path. warping_path (sint w) path l l \<longrightarrow> val x \<le> path_cost A val (qs p) rs path) \<and>
        (val x \<noteq> \<infinity> \<longrightarrow> (\<exists>path. warping_path (sint w) path l l \<and> val x = path_cost A val (qs p) rs path))))"
proof -
  note r = execute_dtw_result [OF assms(1-7)]
  have "words_at m' a n ! p = f_sqrt A (dtw_table A (sint w) (qs p) rs l l)" if "p < n" for p
    using r that by (simp add: dtw_distance_def qs_def rs_def)
  moreover have "val (dtw_table A (sint w) (qs p) rs l l) \<le> path_cost A val (qs p) rs path"
    if "exact_run A val l (sint w) (qs p) rs" "warping_path (sint w) path l l" for val p path
    using table_below [OF that(1,2)] by simp
  moreover have "\<exists>path. warping_path (sint w) path l l \<and> path_cost A val (qs p) rs path = val (dtw_table A (sint w) (qs p) rs l l)"
    if "exact_run A val l (sint w) (qs p) rs" "val (dtw_table A (sint w) (qs p) rs l l) \<noteq> \<infinity>" for val p
    using table_reached [OF that(1) order.refl order.refl that(2)] .
  ultimately show ?thesis using r by metis
qed

text \<open>Small numbers as floats: the words below infinity stand for themselves.\<close>

definition small_val :: "u32 \<Rightarrow> enat" where
  "small_val x = (if x = infinity32 then \<infinity> else enat (unat x))"

definition small_arith :: float_arith where
  "small_arith = \<lparr>f_sub = (-), f_mul = (*), f_add = (\<lambda>x y. if x = infinity32 \<or> y = infinity32 then infinity32 else x + y),
     f_min = (\<lambda>x y. if small_val x \<le> small_val y then x else y), f_sqrt = (\<lambda>x. x),
     f_div = (div), f_of_u32 = (\<lambda>x. x)\<rparr>"

definition dtw_mem :: mem where
  "dtw_mem = \<lparr>heap = (\<lambda>x. if x = 16 then 1 else if x = 20 then 3 else if x = 32 then 1 else if x = 36 then 2 else 0),
     live = [(16, 8), (32, 8), (49, 4)]\<rparr>"

lemma execute_dtw_succeeds:
  assumes drv: "obliging drv" and n: "0 < n" "n < 2 ^ 32" "0 < l" "l \<le> max_l" and ptrs: "q \<noteq> 0" "r \<noteq> 0" "a \<noteq> 0"
  shows "\<exists>m'. execute_dtw None drv rt dev m (q, n * l) (r, l) (a, n) n l w = (m', Inr ())"
proof -
  have "n * l < 2 ^ 32 * 2 ^ 32" using n by (intro mult_strict_mono) (auto simp: max_l_def)
  then have sat: "saturating_mul n l = n * l" by (simp add: saturating_mul_def)
  obtain m1 qb where 1: "from_borrowed drv m q (n * l) 4 = (m1, Inr qb)" using obliging_borrow [OF drv _ ptrs(1)] n by fastforce
  obtain m2 rb where 2: "from_borrowed drv m1 r l 4 = (m2, Inr rb)" using obliging_borrow [OF drv n(3) ptrs(2)] by blast
  obtain m3 ob where 3: "from_borrowed drv m2 a n 4 = (m3, Inr ob)" using obliging_borrow [OF drv n(1) ptrs(3)] by blast
  have u: "unat (of_nat n :: u32) = n" "unat (of_nat l :: u32) = l" using n by (simp_all add: unat_of_nat max_l_def)
  have nz: "of_nat n \<noteq> (0 :: u32)" "of_nat l \<noteq> (0 :: u32)" using n u by force+
  obtain m4 bs where 4: "scalar_buffers drv m3 [of_nat n, of_nat l, w] = (m4, Inr bs)" using obliging_scalars [OF drv] by blast
  then obtain b1 b2 b3 where bs: "bs = [b1, b2, b3]" by (auto split: prod.splits sum.splits)
  have "\<exists>m5. dispatch_dtw_buf drv rt dev m3 qb rb ob (of_nat n) (of_nat l) w = (m5, Inr ())"
    using n nz u 4 by (simp add: dispatch_dtw_buf_def bs Let_def not_less split: prod.split)
  then show ?thesis using n 1 2 3 sat by (auto simp: execute_dtw_def max_l_def)
qed

text \<open>The query 1, 3 against the reference 1, 2: the diagonal path costs 0 + 1.\<close>

lemma dtw_demo_table:
  "dtw_table small_arith (-1) ((!) [1, 3]) ((!) [1, 2]) (Suc 0) (Suc 0) = 0"
  "dtw_table small_arith (-1) ((!) [1, 3]) ((!) [1, 2]) (Suc 0) (Suc (Suc 0)) = 1"
  "dtw_table small_arith (-1) ((!) [1, 3]) ((!) [1, 2]) (Suc (Suc 0)) (Suc 0) = 4"
  "dtw_table small_arith (-1) ((!) [1, 3]) ((!) [1, 2]) (Suc (Suc 0)) (Suc (Suc 0)) = 1"
  by (simp_all add: small_arith_def in_band_def infinity32_def small_val_def)

lemma dtw_demo_exact: "exact_run small_arith small_val 2 (-1) ((!) [1, 3]) ((!) [1, 2])"
proof -
  note t = dtw_demo_table [unfolded numeral_2_eq_2 [symmetric]]
  have c: "i = 0 \<or> i = 1" if "i < 2" for i :: nat using that by linarith
  have "small_val (f_min small_arith x y) = min (small_val x) (small_val y)" for x y
    by (simp add: small_arith_def min_def)
  moreover have "small_val (dtw_table small_arith (-1) ((!) [1, 3]) ((!) [1, 2]) (Suc i) (Suc j)) =
      cell_cost small_arith small_val ((!) [1, 3]) ((!) [1, 2]) (Suc i, Suc j) +
      min (min (small_val (dtw_table small_arith (-1) ((!) [1, 3]) ((!) [1, 2]) i (Suc j)))
        (small_val (dtw_table small_arith (-1) ((!) [1, 3]) ((!) [1, 2]) (Suc i) j)))
        (small_val (dtw_table small_arith (-1) ((!) [1, 3]) ((!) [1, 2]) i j))" if "i < 2" "j < 2" for i j
    using c [OF that(1)] c [OF that(2)]
    by (elim disjE; simp only: One_nat_def dtw_demo_table cell_cost_def)
      (simp_all add: small_val_def small_arith_def infinity32_def one_enat_def zero_enat_def)
  moreover have "small_val 0 = 0" "small_val infinity32 = \<infinity>" by (simp_all add: small_val_def zero_enat_def infinity32_def)
  ultimately show ?thesis unfolding exact_run_def by blast
qed

theorem execute_dtw_correct_witness:
  "\<exists>m'. execute_dtw None bump_driver demo_runtime (small_arith, [0..<dtw_tg_size], \<lambda>_. 7) dtw_mem (16, 2) (32, 2) (49, 1) 1 2 (-1) = (m', Inr ()) \<and>
     words_at m' 49 1 ! 0 = 1 \<and>
     (\<exists>path. warping_path (-1) path 2 2 \<and> path_cost small_arith small_val ((!) [1, 3]) ((!) [1, 2]) path = 1)"
proof -
  obtain m' where run: "execute_dtw None bump_driver demo_runtime (small_arith, [0..<dtw_tg_size], \<lambda>_. 7) dtw_mem (16, 2) (32, 2) (49, 1) 1 2 (-1) = (m', Inr ())"
    using execute_dtw_succeeds [OF bump_driver_obliging, where n = 1 and l = 2] by (fastforce simp: max_l_def)
  have arrays: "dtw_arrays dtw_mem (16, 2) (32, 2) (49, 1)" by code_simp
  have w: "words_at dtw_mem 16 2 = [1, 3]" "words_at dtw_mem 32 2 = [1, 2]" by code_simp+
  have tids: "set [0..<dtw_tg_size] = {..<dtw_tg_size}" by (simp add: atLeast0LessThan)
  have x: "dtw_table small_arith (-1) ((!) [1, 3]) ((!) [1, 2]) 2 2 = 1" unfolding numeral_2_eq_2 by (rule dtw_demo_table(4))
  have v: "small_val 1 = 1" by (simp add: small_val_def infinity32_def one_enat_def)
  note c = execute_dtw_correct [OF bump_driver_ok demo_runtime_lawful(1) tids arrays _ _ run]
  from c have "words_at m' 49 1 ! 0 = f_sqrt small_arith 1 \<and>
      (\<exists>path. warping_path (-1) path 2 2 \<and> small_val 1 = path_cost small_arith small_val ((!) [1, 3]) ((!) [1, 2]) path)"
    using dtw_demo_exact x v by (auto simp: w one_enat_def dest!: spec [of _ small_val])
  then show ?thesis using run v by (auto simp: small_arith_def)
qed

end
