(* ===== verification/Rolling.thy ===== *)
theory Rolling
  imports Device_Arrays Gpu_Aggs
begin

text \<open>Models rolling windows: the kernels \<open>shaders/rolling.metal\<close>, \<open>polars-metal-kernels/src/rolling.rs\<close> and
  \<open>polars-metal-core/src/udf/rolling.rs\<close>. A threadgroup loads a tile of the input, turns it into prefix sums in three
  phases between barriers and writes 256 results. Floats are bit patterns with the arithmetic of the device as a parameter: each float operation of the source is
  one operation of it. The shaders are built with fast math, which may also contract and reassociate operations; that is
  outside the model, and immaterial where the sums are exact.
  Indices of the kernel are below \<open>2 ^ 32\<close> for every launch of the host, so they are natural numbers here.\<close>

section \<open>rolling.metal\<close>

definition rolling_tg_size :: nat where "rolling_tg_size = 256"

definition max_w :: nat where "max_w = 4096"

definition tile_source :: "u32 list \<Rightarrow> nat \<Rightarrow> nat \<Rightarrow> nat \<Rightarrow> nat \<Rightarrow> u32" where
  "tile_source input n base halo j =
     (let src = int base - int halo + int j in if src \<ge> 0 \<and> src < int n then input ! nat src else 0)"

text \<open>Phase A: every thread sums up its segment in place and notes the total.\<close>

definition segment_start :: "nat \<Rightarrow> nat \<Rightarrow> nat" where
  "segment_start seg lid = lid * seg"

definition segment_end :: "nat \<Rightarrow> nat \<Rightarrow> nat \<Rightarrow> nat" where
  "segment_end seg load_count lid = min (lid * seg + seg) load_count"

definition sum_in_place :: "float_arith \<Rightarrow> (nat \<Rightarrow> u32) \<Rightarrow> nat list \<Rightarrow> nat \<Rightarrow> u32" where
  "sum_in_place A = foldl (\<lambda>t j. t(j := f_add A (t j) (t (j - 1))))"

definition phase_a_thread :: "float_arith \<Rightarrow> nat \<Rightarrow> nat \<Rightarrow> (nat \<Rightarrow> u32) \<times> (nat \<Rightarrow> u32) \<Rightarrow> nat \<Rightarrow> (nat \<Rightarrow> u32) \<times> (nat \<Rightarrow> u32)" where
  "phase_a_thread A seg load_count = (\<lambda>(tile, seg_a) lid.
     let s = segment_start seg lid; e = segment_end seg load_count lid in
     if s < load_count then
       let tile = sum_in_place A tile [s + 1..<e] in (tile, seg_a(lid := tile (e - 1)))
     else (tile, seg_a(lid := 0)))"

text \<open>Phase B: the passes of the inclusive scan over the totals; \<open>vals\<close> is read before the barrier.\<close>

definition scan_pass :: "float_arith \<Rightarrow> nat list \<Rightarrow> (nat \<Rightarrow> u32) \<times> (nat \<Rightarrow> u32) \<Rightarrow> nat \<Rightarrow> (nat \<Rightarrow> u32) \<times> (nat \<Rightarrow> u32)" where
  "scan_pass A tids = (\<lambda>(seg_a, seg_b) stride.
     let vals = (\<lambda>lid. if lid \<ge> stride then seg_a (lid - stride) else 0);
         seg_b = foldl (\<lambda>b lid. b(lid := f_add A (seg_a lid) (vals lid))) seg_b tids;
         seg_a = foldl (\<lambda>a lid. a(lid := seg_b lid)) seg_a tids
     in (seg_a, seg_b))"

definition segment_offset :: "(nat \<Rightarrow> u32) \<Rightarrow> nat \<Rightarrow> u32" where
  "segment_offset seg_a lid = (if lid = 0 then 0 else seg_a (lid - 1))"

text \<open>Phase C: the offset of the segment is added to its local sums.\<close>

definition phase_c_thread :: "float_arith \<Rightarrow> nat \<Rightarrow> nat \<Rightarrow> (nat \<Rightarrow> u32) \<Rightarrow> (nat \<Rightarrow> u32) \<Rightarrow> nat \<Rightarrow> nat \<Rightarrow> u32" where
  "phase_c_thread A seg load_count seg_a tile lid =
     (let s = segment_start seg lid; e = segment_end seg load_count lid; off = segment_offset seg_a lid in
      if s < load_count then foldl (\<lambda>t j. t(j := f_add A (t j) off)) tile [s..<e] else tile)"

definition tile_prefixes :: "float_arith \<Rightarrow> nat list \<Rightarrow> nat \<Rightarrow> (nat \<Rightarrow> u32) \<Rightarrow> (nat \<Rightarrow> u32) \<Rightarrow> (nat \<Rightarrow> u32) \<Rightarrow> nat \<Rightarrow> u32" where
  "tile_prefixes A tids load_count tile seg_a seg_b =
     (let seg = (load_count + rolling_tg_size - 1) div rolling_tg_size;
          (tile, seg_a) = foldl (phase_a_thread A seg load_count) (tile, seg_a) tids;
          (seg_a, seg_b) = foldl (scan_pass A tids) (seg_a, seg_b) (doubling 1 rolling_tg_size)
      in foldl (phase_c_thread A seg load_count seg_a) tile tids)"

definition window_sum :: "float_arith \<Rightarrow> nat \<Rightarrow> (nat \<Rightarrow> u32) \<Rightarrow> nat \<Rightarrow> u32" where
  "window_sum A halo tile lid = f_sub A (tile (lid + halo)) (if lid = 0 then 0 else tile (lid - 1))"

text \<open>The end of both kernels: the threads whose row exists store their results.\<close>

definition store_rows :: "nat list \<Rightarrow> nat \<Rightarrow> nat \<Rightarrow> (nat \<Rightarrow> u32) \<Rightarrow> (nat \<times> u32) list" where
  "store_rows tids n tgid out =
     map (\<lambda>lid. (tgid * rolling_tg_size + lid, out lid)) (filter (\<lambda>lid. tgid * rolling_tg_size + lid < n) tids)"

text \<open>One threadgroup. \<open>tids\<close> is the order of its threads, \<open>junk\<close> the memory they find.\<close>

definition load_tile :: "nat list \<Rightarrow> (nat \<Rightarrow> u32) \<Rightarrow> u32 \<Rightarrow> u32 \<Rightarrow> u32 list \<Rightarrow> nat \<Rightarrow> nat \<Rightarrow> u32" where
  "load_tile tids junk n w input tgid =
     (let halo = unat (w - 1); base = tgid * rolling_tg_size; load_count = rolling_tg_size + halo in
      cooperative_load tids rolling_tg_size load_count (tile_source input (unat n) base halo) junk)"

definition rolling_sum_out :: "float_arith \<Rightarrow> nat list \<Rightarrow> (nat \<Rightarrow> u32) \<Rightarrow> u32 \<Rightarrow> u32 \<Rightarrow> u32 \<Rightarrow> u32 list \<Rightarrow> nat \<Rightarrow> nat \<Rightarrow> u32" where
  "rolling_sum_out A tids junk n w is_mean input tgid lid =
     (let halo = unat (w - 1);
          tile = tile_prefixes A tids (rolling_tg_size + halo) (load_tile tids junk n w input tgid) junk junk;
          s = window_sum A halo tile lid
      in if is_mean \<noteq> 0 then f_div A s (f_of_u32 A w) else s)"

definition rolling_sum_f32 :: "float_arith \<Rightarrow> nat list \<Rightarrow> (nat \<Rightarrow> u32) \<Rightarrow> u32 \<Rightarrow> u32 \<Rightarrow> u32 \<Rightarrow> u32 list list \<Rightarrow> nat \<Rightarrow> (nat \<times> u32) list" where
  "rolling_sum_f32 A tids junk n w is_mean xss tgid =
     store_rows tids (unat n) tgid (rolling_sum_out A tids junk n w is_mean (hd xss) tgid)"

definition two_pass :: "float_arith \<Rightarrow> u32 \<Rightarrow> u32 \<Rightarrow> (nat \<Rightarrow> u32) \<Rightarrow> u32" where
  "two_pass A w ddof x =
     (let s = foldl (\<lambda>s k. f_add A s (x k)) 0 [0..<unat w];
          mu = f_div A s (f_of_u32 A w);
          ss = foldl (\<lambda>ss k. let d = f_sub A (x k) mu in f_add A ss (f_mul A d d)) 0 [0..<unat w]
      in f_div A ss (f_of_u32 A (w - ddof)))"

definition rolling_var_out :: "float_arith \<Rightarrow> nat list \<Rightarrow> (nat \<Rightarrow> u32) \<Rightarrow> u32 \<Rightarrow> u32 \<Rightarrow> u32 \<Rightarrow> u32 \<Rightarrow> u32 list \<Rightarrow> nat \<Rightarrow> nat \<Rightarrow> u32" where
  "rolling_var_out A tids junk n w ddof is_std input tgid lid =
     (let tile = load_tile tids junk n w input tgid;
          v = two_pass A w ddof (\<lambda>k. tile (lid + k))
      in if is_std \<noteq> 0 then f_sqrt A v else v)"

definition rolling_var_f32 :: "float_arith \<Rightarrow> nat list \<Rightarrow> (nat \<Rightarrow> u32) \<Rightarrow> u32 \<Rightarrow> u32 \<Rightarrow> u32 \<Rightarrow> u32 \<Rightarrow> u32 list list \<Rightarrow> nat \<Rightarrow> (nat \<times> u32) list" where
  "rolling_var_f32 A tids junk n w ddof is_std xss tgid =
     store_rows tids (unat n) tgid (rolling_var_out A tids junk n w ddof is_std (hd xss) tgid)"

section \<open>rolling.rs\<close>

datatype rolling_error =
    RollBuffer buffer_err
  | WindowOutOfRange nat
  | RollOutputLength nat nat
  | RollRowOverflow nat
  | InvalidDdof u32 u32

text \<open>The device: its arithmetic, and for every threadgroup the order of its threads and the memory it finds.\<close>

type_synonym roll_device = "float_arith \<times> (nat \<Rightarrow> nat list) \<times> (nat \<Rightarrow> nat \<Rightarrow> u32)"

fun sum_kernel :: "roll_device \<Rightarrow> u32 list \<Rightarrow> u32 list list \<Rightarrow> nat \<Rightarrow> (nat \<times> u32) list" where
  "sum_kernel (A, tids, junk) [n, w, is_mean] xss g = rolling_sum_f32 A (tids g) (junk g) n w is_mean xss g"
| "sum_kernel _ _ xss g = []"

fun var_kernel :: "roll_device \<Rightarrow> u32 list \<Rightarrow> u32 list list \<Rightarrow> nat \<Rightarrow> (nat \<times> u32) list" where
  "var_kernel (A, tids, junk) [n, w, ddof, is_std] xss g = rolling_var_f32 A (tids g) (junk g) n w ddof is_std xss g"
| "var_kernel _ _ xss g = []"

definition roll_groups :: "u32 \<Rightarrow> nat" where
  "roll_groups n = padded_grid rolling_tg_size (unat n) div rolling_tg_size"

definition dispatch_rolling_sum_f32_buf ::
  "driver \<Rightarrow> runtime \<Rightarrow> roll_device \<Rightarrow> mem \<Rightarrow> metal_buffer \<Rightarrow> metal_buffer \<Rightarrow> u32 \<Rightarrow> u32 \<Rightarrow> bool \<Rightarrow> mem \<times> (rolling_error + unit)" where
  "dispatch_rolling_sum_f32_buf drv rt dev m input output n w is_mean =
     (if w = 0 \<or> unat w > max_w then (m, Inl (WindowOutOfRange (unat w)))
      else if n = 0 then (m, Inr ())
      else case scalar_buffers drv m [n, w, of_bool is_mean] of
          (m1, Inl e) \<Rightarrow> (m1, Inl (RollBuffer e))
        | (m1, Inr bs) \<Rightarrow>
            (launch (sum_kernel dev (map (scalar_arg m1) bs)) [(buf_base input, unat n)] (buf_base output) m1
               (order rt ''rolling_sum_f32'' (roll_groups n)), Inr ()))"

definition dispatch_rolling_var_f32_buf ::
  "driver \<Rightarrow> runtime \<Rightarrow> roll_device \<Rightarrow> mem \<Rightarrow> metal_buffer \<Rightarrow> metal_buffer \<Rightarrow> u32 \<Rightarrow> u32 \<Rightarrow> u32 \<Rightarrow> bool \<Rightarrow> mem \<times> (rolling_error + unit)" where
  "dispatch_rolling_var_f32_buf drv rt dev m input output n w ddof is_std =
     (if w = 0 \<or> unat w > max_w then (m, Inl (WindowOutOfRange (unat w)))
      else if w \<le> ddof then (m, Inl (InvalidDdof w ddof))
      else if n = 0 then (m, Inr ())
      else case scalar_buffers drv m [n, w, ddof, of_bool is_std] of
          (m1, Inl e) \<Rightarrow> (m1, Inl (RollBuffer e))
        | (m1, Inr bs) \<Rightarrow>
            (launch (var_kernel dev (map (scalar_arg m1) bs)) [(buf_base input, unat n)] (buf_base output) m1
               (order rt ''rolling_var_f32'' (roll_groups n)), Inr ()))"

text \<open>The two wrappers over slices stage their arguments alike.\<close>

definition rolling_over_slices ::
  "driver \<Rightarrow> (mem \<Rightarrow> metal_buffer \<Rightarrow> metal_buffer \<Rightarrow> u32 \<Rightarrow> u32 \<Rightarrow> mem \<times> (rolling_error + unit)) \<Rightarrow>
     mem \<Rightarrow> u32 list \<Rightarrow> u32 list \<Rightarrow> nat \<Rightarrow> mem \<times> (rolling_error + u32 list)" where
  "rolling_over_slices drv dispatch m input output w =
     (let n = length input in
      if length output \<noteq> n then (m, Inl (RollOutputLength (length output) n))
      else if w = 0 \<or> w > max_w then (m, Inl (WindowOutOfRange w))
      else if n = 0 then (m, Inr output)
      else if 2 ^ 32 \<le> n then (m, Inl (RollRowOverflow n))
      else case new_buffer_from_bytes drv m (words_le input) of
          (m1, Inl e) \<Rightarrow> (m1, Inl (RollBuffer e))
        | (m1, Inr input_buf) \<Rightarrow>
            (case new_buffer_zeroed drv m1 (4 * n) of
               (m2, Inl e) \<Rightarrow> (m2, Inl (RollBuffer e))
             | (m2, Inr output_buf) \<Rightarrow>
                 (case dispatch m2 input_buf output_buf (of_nat n) (of_nat w) of
                    (m3, Inl e) \<Rightarrow> (m3, Inl e)
                  | (m3, Inr _) \<Rightarrow> (m3, Inr (words_at m3 (buf_base output_buf) n)))))"

definition dispatch_rolling_sum_f32 ::
  "driver \<Rightarrow> runtime \<Rightarrow> roll_device \<Rightarrow> mem \<Rightarrow> u32 list \<Rightarrow> u32 list \<Rightarrow> nat \<Rightarrow> bool \<Rightarrow> mem \<times> (rolling_error + u32 list)" where
  "dispatch_rolling_sum_f32 drv rt dev m input output w is_mean =
     rolling_over_slices drv (\<lambda>m ib ob n w. dispatch_rolling_sum_f32_buf drv rt dev m ib ob n w is_mean) m input output w"

definition dispatch_rolling_var_f32 ::
  "driver \<Rightarrow> runtime \<Rightarrow> roll_device \<Rightarrow> mem \<Rightarrow> u32 list \<Rightarrow> u32 list \<Rightarrow> nat \<Rightarrow> u32 \<Rightarrow> bool \<Rightarrow> mem \<times> (rolling_error + u32 list)" where
  "dispatch_rolling_var_f32 drv rt dev m input output w ddof is_std =
     rolling_over_slices drv (\<lambda>m ib ob n w. dispatch_rolling_var_f32_buf drv rt dev m ib ob n w ddof is_std) m input output w"

section \<open>udf/rolling.rs\<close>

datatype rolling_py_error =
    RollNoDevice string
  | RollLengthMismatch
  | RollTooManyRows
  | RollInputStaging buffer_err
  | RollOutputStaging buffer_err
  | RollUnknownOp u32
  | RollDispatch rolling_error

definition run_rolling_op ::
  "driver \<Rightarrow> runtime \<Rightarrow> roll_device \<Rightarrow> mem \<Rightarrow> metal_buffer \<Rightarrow> metal_buffer \<Rightarrow> u32 \<Rightarrow> u32 \<Rightarrow> u32 \<Rightarrow> u32 \<Rightarrow> mem \<times> (rolling_py_error + unit)" where
  "run_rolling_op drv rt dev m inb outb n w opc ddof =
     (if 3 < opc then (m, Inl (RollUnknownOp opc))
      else case (if opc = 0 then dispatch_rolling_sum_f32_buf drv rt dev m inb outb n w False
          else if opc = 1 then dispatch_rolling_sum_f32_buf drv rt dev m inb outb n w True
          else if opc = 2 then dispatch_rolling_var_f32_buf drv rt dev m inb outb n w ddof False
          else dispatch_rolling_var_f32_buf drv rt dev m inb outb n w ddof True) of
          (m', Inl e) \<Rightarrow> (m', Inl (RollDispatch e))
        | (m', Inr _) \<Rightarrow> (m', Inr ()))"

definition execute_rolling ::
  "string option \<Rightarrow> driver \<Rightarrow> runtime \<Rightarrow> roll_device \<Rightarrow> mem \<Rightarrow> nat \<times> nat \<Rightarrow> nat \<times> nat \<Rightarrow> u32 \<Rightarrow> u32 \<Rightarrow> u32 \<Rightarrow> mem \<times> (rolling_py_error + unit)" where
  "execute_rolling no_device drv rt dev m inp out w opc ddof =
     (case (no_device, inp, out) of
        (Some e, _) \<Rightarrow> (m, Inl (RollNoDevice e))
      | (None, (in_ptr, in_n), (out_ptr, out_n)) \<Rightarrow>
          if in_n \<noteq> out_n then (m, Inl RollLengthMismatch)
          else if in_n = 0 then (m, Inr ())
          else if 2 ^ 32 \<le> in_n then (m, Inl RollTooManyRows)
          else (case from_borrowed drv m in_ptr in_n 4 of
              (m1, Inl e) \<Rightarrow> (m1, Inl (RollInputStaging e))
            | (m1, Inr inb) \<Rightarrow>
                (case from_borrowed drv m1 out_ptr out_n 4 of
                   (m2, Inl e) \<Rightarrow> (m2, Inl (RollOutputStaging e))
                 | (m2, Inr outb) \<Rightarrow>
                     (case run_rolling_op drv rt dev m2 inb outb (of_nat in_n) w opc ddof of
                        (m3, Inl e) \<Rightarrow> (m3, Inl e)
                      | (m3, Inr _) \<Rightarrow> (copy_back_output drv m3 out_ptr out_n outb, Inr ())))))"

section \<open>The three phases\<close>

text \<open>The segment of a thread, and the segments of the first threads together.\<close>

definition seg_set :: "nat \<Rightarrow> nat \<Rightarrow> nat \<Rightarrow> nat set" where
  "seg_set seg k lid = {segment_start seg lid..<segment_end seg k lid}"

lemma seg_set_mem: "0 < seg \<Longrightarrow> j \<in> seg_set seg k lid \<longleftrightarrow> j < k \<and> j div seg = lid"
  using dividend_less_times_div [of seg j] unfolding seg_set_def segment_start_def segment_end_def
  by (auto simp: div_nat_eqI mult.commute add.commute)

definition seg_range :: "nat \<Rightarrow> nat \<Rightarrow> nat \<Rightarrow> nat \<Rightarrow> nat set" where
  "seg_range seg k a b = {j. j < k \<and> a \<le> j div seg \<and> j div seg < b}"

lemma seg_set_range: "0 < seg \<Longrightarrow> seg_set seg k lid = seg_range seg k lid (lid + 1)"
  by (auto simp: seg_set_mem seg_range_def)

lemma scan_pass_eq:
  "fst (scan_pass A tids (a, b) stride) = (\<lambda>j. if j \<in> set tids then f_add A (a j) (if j \<ge> stride then a (j - stride) else 0) else a j)"
  by (auto simp: scan_pass_def Let_def store_all fun_eq_iff)

lemma add_all:
  "distinct js \<Longrightarrow> foldl (\<lambda>t j. t(j := f_add A (t j) off)) t js = (\<lambda>j. if j \<in> set js then f_add A (t j) off else t j)"
  by (induction js arbitrary: t) (auto simp: fun_eq_iff)

lemma phase_c_thread_eq:
  assumes "0 < seg" and "j < k"
  shows "phase_c_thread A seg k a t lid j = (if j div seg = lid then f_add A (t j) (segment_offset a lid) else t j)"
proof -
  have m: "j \<in> seg_set seg k lid \<longleftrightarrow> j div seg = lid" using seg_set_mem [OF assms(1)] assms(2) by simp
  show ?thesis
  proof (cases "segment_start seg lid < k")
    case True
    then show ?thesis using m by (simp add: phase_c_thread_def Let_def add_all seg_set_def)
  next
    case False
    then have "j \<notin> seg_set seg k lid" using assms by (auto simp: seg_set_def segment_end_def segment_start_def)
    then show ?thesis using False m by (simp add: phase_c_thread_def Let_def)
  qed
qed

lemma phase_c_threads:
  assumes "0 < seg" and "j < k"
  shows "distinct ts \<Longrightarrow> foldl (phase_c_thread A seg k a) t ts j =
    (if j div seg \<in> set ts then f_add A (t j) (segment_offset a (j div seg)) else t j)"
  by (induction ts rule: rev_induct) (auto simp: phase_c_thread_eq [OF assms])

text \<open>What the phases need of a property of sums: \<open>tracks S x\<close> says of \<open>x\<close> what is wanted of a sum of the tile elements in
  \<open>S\<close>. It holds of the empty sum and of single elements and is kept by the device's addition of sums over disjoint sets.
  The prefix sums then satisfy it, whatever the arithmetic.\<close>

locale tile_sums =
  fixes A :: float_arith and k :: nat and T :: "nat \<Rightarrow> u32" and tracks :: "nat set \<Rightarrow> u32 \<Rightarrow> bool"
  assumes empty: "tracks {} 0" and single: "j < k \<Longrightarrow> tracks {j} (T j)"
    and add: "tracks S x \<Longrightarrow> tracks R y \<Longrightarrow> S \<inter> R = {} \<Longrightarrow> tracks (S \<union> R) (f_add A x y)"
begin

lemma sum_in_place_tracks:
  assumes t: "\<And>j. s \<le> j \<Longrightarrow> j \<le> s + d \<Longrightarrow> t j = T j" and d: "s + d < k"
  shows "s \<le> j \<Longrightarrow> j \<le> s + d \<Longrightarrow> tracks {s..j} (sum_in_place A t [s + 1..<s + 1 + d] j)"
    and "j < s \<or> s + d < j \<Longrightarrow> sum_in_place A t [s + 1..<s + 1 + d] j = t j"
proof -
  have "(s \<le> j \<longrightarrow> j \<le> s + d \<longrightarrow> tracks {s..j} (sum_in_place A t [s + 1..<s + 1 + d] j)) \<and>
      (j < s \<or> s + d < j \<longrightarrow> sum_in_place A t [s + 1..<s + 1 + d] j = t j)" for j
    using t d
  proof (induction d arbitrary: j)
    case 0
    then show ?case using single by (auto simp: sum_in_place_def le_antisym)
  next
    case (Suc d)
    let ?t = "sum_in_place A t [s + 1..<s + 1 + d]"
    have IH: "(s \<le> j \<longrightarrow> j \<le> s + d \<longrightarrow> tracks {s..j} (?t j)) \<and> (j < s \<or> s + d < j \<longrightarrow> ?t j = t j)" for j
      using Suc by simp
    have st: "sum_in_place A t [s + 1..<s + 1 + Suc d] = ?t(s + Suc d := f_add A (?t (s + Suc d)) (?t (s + d)))"
      by (simp add: sum_in_place_def)
    have "?t (s + Suc d) = T (s + Suc d)" using IH [of "s + Suc d"] Suc.prems(1) [of "s + Suc d"] by simp
    then have x: "tracks {s + Suc d} (?t (s + Suc d))" using single Suc.prems(2) by simp
    have y: "tracks {s..s + d} (?t (s + d))" using IH [of "s + d"] by simp
    have "{s + Suc d} \<union> {s..s + d} = {s..s + Suc d}" by auto
    then have "tracks {s..s + Suc d} (f_add A (?t (s + Suc d)) (?t (s + d)))"
      using add [OF x y] by simp
    then show ?case using IH [of j] unfolding st by (auto simp: le_Suc_eq)
  qed
  then show "s \<le> j \<Longrightarrow> j \<le> s + d \<Longrightarrow> tracks {s..j} (sum_in_place A t [s + 1..<s + 1 + d] j)"
    and "j < s \<or> s + d < j \<Longrightarrow> sum_in_place A t [s + 1..<s + 1 + d] j = t j" by blast+
qed

lemma phase_a_threads:
  fixes tile seg_a :: "nat \<Rightarrow> u32"
  assumes seg: "0 < seg" and ts: "distinct ts"
    and tile: "\<And>j. j < k \<Longrightarrow> tile j = T j"
  defines "st \<equiv> foldl (phase_a_thread A seg k) (tile, seg_a) ts"
  shows "\<forall>j < k. (if j div seg \<in> set ts then tracks {j div seg * seg..j} (fst st j) else fst st j = T j)"
    and "\<forall>lid \<in> set ts. tracks (seg_set seg k lid) (snd st lid)"
proof -
  have "(\<forall>j < k. (if j div seg \<in> set ts then tracks {j div seg * seg..j} (fst (foldl (phase_a_thread A seg k) (tile, seg_a) ts) j)
      else fst (foldl (phase_a_thread A seg k) (tile, seg_a) ts) j = T j)) \<and>
    (\<forall>lid \<in> set ts. tracks (seg_set seg k lid) (snd (foldl (phase_a_thread A seg k) (tile, seg_a) ts) lid))"
    using ts
  proof (induction ts rule: rev_induct)
    case Nil
    then show ?case using tile by simp
  next
    case (snoc lid ts)
    obtain t a where ta: "foldl (phase_a_thread A seg k) (tile, seg_a) ts = (t, a)" by force
    have IH: "j < k \<Longrightarrow> if j div seg \<in> set ts then tracks {j div seg * seg..j} (t j) else t j = T j"
      "\<forall>lid \<in> set ts. tracks (seg_set seg k lid) (a lid)" for j
      using snoc ta by auto
    have new: "lid \<notin> set ts" using snoc.prems by simp
    let ?s = "segment_start seg lid" and ?e = "segment_end seg k lid"
    show ?case
    proof (cases "?s < k")
      case False
      then have "seg_set seg k lid = {}" by (auto simp: seg_set_def segment_start_def segment_end_def)
      moreover have "j div seg \<noteq> lid" if "j < k" for j using seg_set_mem [OF seg, of j k lid] that calculation by auto
      ultimately show ?thesis
        using IH new False ta empty by (auto simp: phase_a_thread_def Let_def)
    next
      case True
      define d where "d = ?e - Suc ?s"
      have e: "?e = ?s + 1 + d" "?s + d < k" using True seg by (auto simp: d_def segment_start_def segment_end_def)
      have mem: "j \<in> seg_set seg k lid \<longleftrightarrow> ?s \<le> j \<and> j \<le> ?s + d" for j using e(1) by (auto simp: seg_set_def)
      have T: "t j = T j" if "?s \<le> j" "j \<le> ?s + d" for j
        using IH(1) [of j] new mem [of j] that seg_set_mem [OF seg, of j k lid] by auto
      define t2 where "t2 = sum_in_place A t [?s + 1..<?s + 1 + d]"
      note st = sum_in_place_tracks [OF T e(2), folded t2_def]
      have fold: "foldl (phase_a_thread A seg k) (tile, seg_a) (ts @ [lid]) = (t2, a(lid := t2 (?s + d)))"
      proof -
        have "foldl (phase_a_thread A seg k) (tile, seg_a) (ts @ [lid]) = phase_a_thread A seg k (t, a) lid" by (simp add: ta)
        then show ?thesis using True e(1) by (simp add: phase_a_thread_def Let_def t2_def del: upt_Suc)
      qed
      have "if j div seg \<in> set (ts @ [lid]) then tracks {j div seg * seg..j} (t2 j) else t2 j = T j" if j: "j < k" for j
      proof (cases "j div seg = lid")
        case True
        then show ?thesis using st(1) [of j] mem [of j] seg_set_mem [OF seg, of j k lid] j by (auto simp: segment_start_def)
      next
        case False
        then have "t2 j = t j" using st(2) [of j] mem [of j] seg_set_mem [OF seg, of j k lid] by auto
        then show ?thesis using IH(1) [OF j] False by auto
      qed
      moreover have "tracks (seg_set seg k lid) (t2 (?s + d))"
        using st(1) [of "?s + d"] e(1) by (simp add: seg_set_def atLeastLessThanSuc_atLeastAtMost)
      ultimately show ?thesis unfolding fold using IH(2) by auto
    qed
  qed
  then show "\<forall>j < k. (if j div seg \<in> set ts then tracks {j div seg * seg..j} (fst st j) else fst st j = T j)"
    "\<forall>lid \<in> set ts. tracks (seg_set seg k lid) (snd st lid)"
    unfolding st_def by blast+
qed

lemma scan_pass_tracks:
  assumes tids: "set tids = {..<g}" and w: "0 < w"
    and a: "\<And>lid. lid < g \<Longrightarrow> tracks (seg_range seg k (lid + 1 - w) (lid + 1)) (a lid)" and lid: "lid < g"
  shows "tracks (seg_range seg k (lid + 1 - 2 * w) (lid + 1)) (fst (scan_pass A tids (a, b) w) lid)"
proof -
  have v: "tracks (seg_range seg k (lid + 1 - 2 * w) (lid + 1 - w)) (if lid \<ge> w then a (lid - w) else 0)"
  proof (cases "w \<le> lid")
    case True
    have "lid - w + 1 - w = lid + 1 - 2 * w" "lid - w + 1 = lid + 1 - w" using True by simp_all
    then show ?thesis using a [of "lid - w"] lid True by simp
  next
    case False
    then have "seg_range seg k (lid + 1 - 2 * w) (lid + 1 - w) = {}" by (auto simp: seg_range_def)
    then show ?thesis using False empty by simp
  qed
  have "seg_range seg k (lid + 1 - w) (lid + 1) \<union> seg_range seg k (lid + 1 - 2 * w) (lid + 1 - w) = seg_range seg k (lid + 1 - 2 * w) (lid + 1)"
    "seg_range seg k (lid + 1 - w) (lid + 1) \<inter> seg_range seg k (lid + 1 - 2 * w) (lid + 1 - w) = {}"
    using w by (auto simp: seg_range_def)
  then show ?thesis using add [OF a [OF lid] v] lid tids by (simp add: scan_pass_eq)
qed

lemma scan_tracks:
  shows "set tids = {..<g} \<Longrightarrow> 0 < w \<Longrightarrow> (\<And>lid. lid < g \<Longrightarrow> tracks (seg_range seg k (lid + 1 - w) (lid + 1)) (a lid)) \<Longrightarrow> lid < g \<Longrightarrow>
    tracks (seg_range seg k 0 (lid + 1)) (fst (foldl (scan_pass A tids) (a, b) (doubling w g)) lid)"
proof (induction w g arbitrary: a b lid rule: doubling.induct)
  case (1 w g)
  show ?case
  proof (cases "w < g")
    case False
    then have "lid + 1 - w = 0" using 1(5) by simp
    then show ?thesis using 1(4) [OF 1(5)] False by (simp add: doubling.simps)
  next
    case True
    obtain a' b' where ab: "scan_pass A tids (a, b) w = (a', b')" by force
    have "tracks (seg_range seg k (lid + 1 - 2 * w) (lid + 1)) (a' lid)" if "lid < g" for lid
      using scan_pass_tracks [OF 1(2,3) 1(4) that, where b = b] by (simp add: ab)
    then have "tracks (seg_range seg k 0 (lid + 1)) (fst (foldl (scan_pass A tids) (a', b') (doubling (2 * w) g)) lid)"
      using 1(1) [of a' lid b'] 1(2,3,5) True by simp
    then show ?thesis using True 1(3) by (simp add: doubling.simps [of w g] ab)
  qed
qed

lemma tile_prefixes_tracks:
  assumes tids: "schedule_ok rolling_tg_size tids"
    and tile: "\<And>j. j < k \<Longrightarrow> tile j = T j" and j: "j < k"
  shows "tracks {..j} (tile_prefixes A tids k tile sa sb j)"
proof -
  define seg where "seg = (k + rolling_tg_size - 1) div rolling_tg_size"
  have set: "set tids = {..<rolling_tg_size}" using schedule_set [OF tids] .
  have dist: "distinct tids" using tids by (metis distinct_upt mset_eq_imp_distinct_iff schedule_ok_def)
  have g: "0 < rolling_tg_size" by (simp add: rolling_tg_size_def)
  have seg: "0 < seg" using j g by (simp add: seg_def div_greater_zero_iff)
  have "k \<le> seg * rolling_tg_size"
    using div_mult_mod_eq [of "k + rolling_tg_size - 1" rolling_tg_size] mod_less_divisor [OF g, of "k + rolling_tg_size - 1"]
    unfolding seg_def [symmetric] by linarith
  then have lid: "j div seg < rolling_tg_size" using j seg by (simp add: div_less_iff_less_mult mult.commute)
  obtain t a where ta: "foldl (phase_a_thread A seg k) (tile, sa) tids = (t, a)" by force
  note A = phase_a_threads [OF seg dist tile, of sa, unfolded ta set]
  obtain a2 b2 where ab: "foldl (scan_pass A tids) (a, sb) (doubling 1 rolling_tg_size) = (a2, b2)" by force
  have a: "tracks (seg_range seg k (lid + 1 - 1) (lid + 1)) (a lid)" if "lid < rolling_tg_size" for lid
    using A(2) that by (simp add: seg_set_range [OF seg])
  have off: "tracks (seg_range seg k 0 lid) (segment_offset a2 lid)" if l: "lid < rolling_tg_size" for lid
  proof (cases lid)
    case 0
    then show ?thesis using empty by (simp add: segment_offset_def seg_range_def)
  next
    case (Suc l)
    then show ?thesis using scan_tracks [OF set, of 1 seg a l sb, unfolded ab] a l by (simp add: segment_offset_def)
  qed
  have p: "tile_prefixes A tids k tile sa sb j = f_add A (t j) (segment_offset a2 (j div seg))"
    unfolding tile_prefixes_def Let_def seg_def [symmetric] ta prod.case ab using lid by (simp add: phase_c_threads [OF seg j dist] set)
  have t: "tracks {j div seg * seg..j} (t j)" using A(1) [rule_format, OF _ j] lid by simp
  have "j \<in> {j div seg * seg..j}" by simp
  have split: "{j div seg * seg..j} \<union> seg_range seg k 0 (j div seg) = {..j}" "{j div seg * seg..j} \<inter> seg_range seg k 0 (j div seg) = {}"
  proof -
    have i: "i \<in> seg_range seg k 0 (j div seg) \<longleftrightarrow> i < j div seg * seg" for i
    proof -
      have "i < j div seg * seg \<Longrightarrow> i < k" using j div_times_less_eq_dividend [of j seg] by linarith
      then show ?thesis by (auto simp: seg_range_def div_less_iff_less_mult [OF seg])
    qed
    have le: "j div seg * seg \<le> j" by (rule div_times_less_eq_dividend)
    have "i \<in> {j div seg * seg..j} \<union> seg_range seg k 0 (j div seg) \<longleftrightarrow> i \<in> {..j}" for i
      using le by (simp only: Un_iff atLeastAtMost_iff atMost_iff i) linarith
    then show "{j div seg * seg..j} \<union> seg_range seg k 0 (j div seg) = {..j}" by blast
    show "{j div seg * seg..j} \<inter> seg_range seg k 0 (j div seg) = {}"
      by (simp only: disjoint_iff atLeastAtMost_iff i not_less) blast
  qed
  show ?thesis unfolding p using add [OF t off [OF lid] split(2)] by (simp add: split(1))
qed

end

section \<open>Sums of sets of rows\<close>

text \<open>\<open>stands_for\<close>: a float that holds the exact sum of the tile elements in a set. \<open>rep\<close> are the floats that are exact
  integers of magnitude at most \<open>B\<close> (\<open>2 ^ 24\<close> for binary32), \<open>val\<close> their values.\<close>

definition exact_arith :: "float_arith \<Rightarrow> (u32 \<Rightarrow> bool) \<Rightarrow> (u32 \<Rightarrow> int) \<Rightarrow> int \<Rightarrow> bool" where
  "exact_arith A rep val B \<longleftrightarrow> rep 0 \<and> val 0 = 0 \<and>
     (\<forall>x y. rep x \<longrightarrow> rep y \<longrightarrow> \<bar>val x + val y\<bar> \<le> B \<longrightarrow> rep (f_add A x y) \<and> val (f_add A x y) = val x + val y) \<and>
     (\<forall>x y. rep x \<longrightarrow> rep y \<longrightarrow> \<bar>val x - val y\<bar> \<le> B \<longrightarrow> rep (f_sub A x y) \<and> val (f_sub A x y) = val x - val y)"

definition small_tile :: "(u32 \<Rightarrow> bool) \<Rightarrow> (u32 \<Rightarrow> int) \<Rightarrow> int \<Rightarrow> nat \<Rightarrow> (nat \<Rightarrow> u32) \<Rightarrow> bool" where
  "small_tile rep val B k T \<longleftrightarrow> (\<forall>j < k. rep (T j)) \<and> (\<Sum>j < k. \<bar>val (T j)\<bar>) \<le> B"

definition stands_for :: "(u32 \<Rightarrow> bool) \<Rightarrow> (u32 \<Rightarrow> int) \<Rightarrow> nat \<Rightarrow> (nat \<Rightarrow> u32) \<Rightarrow> nat set \<Rightarrow> u32 \<Rightarrow> bool" where
  "stands_for rep val k T S x \<longleftrightarrow> S \<subseteq> {..<k} \<and> rep x \<and> val x = (\<Sum>j \<in> S. val (T j))"

lemma stands_for_bound:
  assumes "small_tile rep val B k T" and "S \<subseteq> {..<k}"
  shows "\<bar>\<Sum>j \<in> S. val (T j)\<bar> \<le> B"
proof -
  have "\<bar>\<Sum>j \<in> S. val (T j)\<bar> \<le> (\<Sum>j \<in> S. \<bar>val (T j)\<bar>)" by (rule sum_abs)
  also have "\<dots> \<le> (\<Sum>j < k. \<bar>val (T j)\<bar>)" using assms(2) by (intro sum_mono2) auto
  finally show ?thesis using assms(1) by (simp add: small_tile_def)
qed

lemma stands_for_add:
  assumes "exact_arith A rep val B" and "small_tile rep val B k T"
    and "stands_for rep val k T S x" and "stands_for rep val k T R y" and "S \<inter> R = {}"
  shows "stands_for rep val k T (S \<union> R) (f_add A x y)"
proof -
  have fin: "finite S" "finite R" using assms(3,4) finite_subset [OF _ finite_lessThan] by (auto simp: stands_for_def)
  have u: "(\<Sum>j \<in> S \<union> R. val (T j)) = val x + val y"
    using assms(3-5) fin by (simp add: stands_for_def sum.union_disjoint)
  moreover have "\<bar>val x + val y\<bar> \<le> B"
    using stands_for_bound [OF assms(2), of "S \<union> R"] assms(3,4) unfolding u by (simp add: stands_for_def)
  ultimately show ?thesis using assms(1,3,4) by (auto simp: stands_for_def exact_arith_def)
qed

lemma stands_for_sub:
  assumes "exact_arith A rep val B" and "small_tile rep val B k T"
    and "stands_for rep val k T S x" and "stands_for rep val k T R y" and "R \<subseteq> S"
  shows "stands_for rep val k T (S - R) (f_sub A x y)"
proof -
  have fin: "finite S" "finite R" using assms(3,4) finite_subset [OF _ finite_lessThan] by (auto simp: stands_for_def)
  have u: "(\<Sum>j \<in> S - R. val (T j)) = val x - val y"
    using assms(3-5) fin by (simp add: stands_for_def sum_diff)
  moreover have "\<bar>val x - val y\<bar> \<le> B"
    using stands_for_bound [OF assms(2), of "S - R"] assms(3) unfolding u by (auto simp: stands_for_def)
  ultimately show ?thesis using assms(1,3,4) by (auto simp: stands_for_def exact_arith_def)
qed

lemma stands_for_empty: "exact_arith A rep val B \<Longrightarrow> stands_for rep val k T {} 0"
  by (simp add: stands_for_def exact_arith_def)

lemma stands_for_single: "small_tile rep val B k T \<Longrightarrow> j < k \<Longrightarrow> stands_for rep val k T {j} (T j)"
  by (simp add: stands_for_def small_tile_def)

interpretation exact_sums: tile_sums A k T
    "\<lambda>S x. exact_arith A rep val B \<longrightarrow> small_tile rep val B k T \<longrightarrow> stands_for rep val k T S x" for A k T rep val B
  by unfold_locales (auto simp: stands_for_empty stands_for_single intro: stands_for_add)

lemma window_sum_stands:
  assumes ex: "exact_arith A rep val B" and sm: "small_tile rep val B k T"
    and P: "\<And>j. j < k \<Longrightarrow> stands_for rep val k T {..j} (P j)" and k: "lid + halo < k"
  shows "stands_for rep val k T {lid..lid + halo} (window_sum A halo P lid)"
proof -
  have y: "stands_for rep val k T {..<lid} (if lid = 0 then 0 else P (lid - 1))"
  proof (cases lid)
    case 0
    then show ?thesis using stands_for_empty [OF ex] by simp
  next
    case (Suc l)
    then show ?thesis using P [of l] k by (simp add: lessThan_Suc_atMost)
  qed
  have "{..lid + halo} - {..<lid} = {lid..lid + halo}" "{..<lid} \<subseteq> {..lid + halo}" by auto
  then show ?thesis using stands_for_sub [OF ex sm P [OF k] y] by (simp add: window_sum_def)
qed

section \<open>The groups of a launch\<close>

definition lawful_threads :: "nat list \<Rightarrow> nat list" where
  "lawful_threads tids = (if schedule_ok rolling_tg_size tids then tids else [0..<rolling_tg_size])"

lemma lawful_threads_ok: "schedule_ok rolling_tg_size (lawful_threads tids)"
  by (simp add: lawful_threads_def schedule_id)

lemma store_rows_mem:
  assumes "schedule_ok rolling_tg_size tids"
  shows "(i, x) \<in> set (store_rows tids n g out) \<longleftrightarrow> i < n \<and> i div rolling_tg_size = g \<and> x = out (i mod rolling_tg_size)"
proof -
  have g: "0 < rolling_tg_size" by (simp add: rolling_tg_size_def)
  have "(i, x) \<in> set (store_rows tids n g out) \<longleftrightarrow> (\<exists>lid < rolling_tg_size. i = g * rolling_tg_size + lid \<and> i < n \<and> x = out lid)"
    using schedule_set [OF assms] by (auto simp: store_rows_def)
  also have "\<dots> \<longleftrightarrow> i < n \<and> i div rolling_tg_size = g \<and> x = out (i mod rolling_tg_size)"
    using g mod_less_divisor [OF g, of i] div_mult_mod_eq [of i rolling_tg_size] by (metis add.commute div_mult_self3 less_nat_zero_code mod_less mod_mult_self3 div_less add_0)
  finally show ?thesis .
qed

lemma roll_group_of: "i < unat n \<Longrightarrow> i div rolling_tg_size < roll_groups n"
proof -
  assume i: "i < unat n"
  have g: "0 < rolling_tg_size" by (simp add: rolling_tg_size_def)
  have "padded_grid rolling_tg_size (unat n) = roll_groups n * rolling_tg_size" by (simp add: roll_groups_def padded_grid_def)
  then have "i < roll_groups n * rolling_tg_size" using i padded_grid_ge [OF g, of "unat n"] by linarith
  then show ?thesis by (simp add: less_mult_imp_div_less)
qed

definition roll_row :: "(nat \<Rightarrow> nat \<Rightarrow> u32) \<Rightarrow> nat \<Rightarrow> u32" where
  "roll_row out i = out (i div rolling_tg_size) (i mod rolling_tg_size)"

interpretation roll_sum: group_kernel "sum_kernel (A, \<lambda>g. lawful_threads (tids g), junk) [n, w, f]"
    "\<lambda>xss. roll_row (\<lambda>g. rolling_sum_out A (lawful_threads (tids g)) (junk g) n w f (hd xss) g)"
    "\<lambda>i. i div rolling_tg_size" "unat n" "roll_groups n" for A tids junk n w f
  by unfold_locales (auto simp: rolling_sum_f32_def store_rows_mem [OF lawful_threads_ok] roll_row_def roll_group_of)

interpretation roll_var: group_kernel "var_kernel (A, \<lambda>g. lawful_threads (tids g), junk) [n, w, ddof, f]"
    "\<lambda>xss. roll_row (\<lambda>g. rolling_var_out A (lawful_threads (tids g)) (junk g) n w ddof f (hd xss) g)"
    "\<lambda>i. i div rolling_tg_size" "unat n" "roll_groups n" for A tids junk n w ddof f
  by unfold_locales (auto simp: rolling_var_f32_def store_rows_mem [OF lawful_threads_ok] roll_row_def roll_group_of)

section \<open>Windows\<close>

lemma store_tile:
  assumes "schedule_ok rolling_tg_size tids" and "j < rolling_tg_size + unat (w - 1)"
  shows "load_tile tids junk n w xs g j = tile_source xs (unat n) (g * rolling_tg_size) (unat (w - 1)) j"
  using assms schedule_set [OF assms(1)] by (simp add: load_tile_def Let_def cooperative_load_eq rolling_tg_size_def)

lemma tile_source_mem: "tile_source xs (length xs) base halo j \<in> insert 0 (set xs)"
  unfolding tile_source_def Let_def by (auto intro!: nth_mem)

text \<open>A sum over a piece of the tile is a sum over the rows it shows; elements outside the column are zero.\<close>

lemma tile_sum:
  fixes h :: "u32 \<Rightarrow> int"
  assumes "h 0 = 0"
  shows "(\<Sum>j \<in> {a..<b}. h (tile_source xs n base halo j)) =
    (\<Sum>r \<in> {r. r < n \<and> base + a \<le> r + halo \<and> r + halo < base + b}. h (xs ! r))"
proof -
  let ?J = "{j \<in> {a..<b}. halo \<le> base + j \<and> base + j - halo < n}"
  have "(\<Sum>j \<in> {a..<b}. h (tile_source xs n base halo j)) = (\<Sum>j \<in> ?J. h (tile_source xs n base halo j))"
    by (rule sum.mono_neutral_right) (auto simp: tile_source_def Let_def assms)
  also have "\<dots> = (\<Sum>r \<in> {r. r < n \<and> base + a \<le> r + halo \<and> r + halo < base + b}. h (xs ! r))"
  proof (rule sum.reindex_bij_witness [where i = "\<lambda>r. r + halo - base" and j = "\<lambda>j. base + j - halo"])
    show "h (xs ! (base + j - halo)) = h (tile_source xs n base halo j)" if "j \<in> ?J" for j
    proof -
      have e: "int base - int halo + int j = int (base + j - halo)" using that by auto
      have "base + j - halo < n" using that by auto
      then have "0 \<le> int (base + j - halo) \<and> int (base + j - halo) < int n" by linarith
      then show ?thesis by (simp only: tile_source_def Let_def e nat_int if_True simp_thms)
    qed
  qed auto
  finally show ?thesis .
qed

definition tile_rows :: "u32 list \<Rightarrow> nat \<Rightarrow> nat \<Rightarrow> nat set" where
  "tile_rows xs w g = {r. r < length xs \<and> g * rolling_tg_size + 1 \<le> r + w \<and> r < (g + 1) * rolling_tg_size}"

text \<open>The column suits the arithmetic: integers whose magnitudes, over the rows that one threadgroup reads, sum up to at most \<open>B\<close>.\<close>

definition column_fits :: "(u32 \<Rightarrow> bool) \<Rightarrow> (u32 \<Rightarrow> int) \<Rightarrow> int \<Rightarrow> nat \<Rightarrow> u32 list \<Rightarrow> bool" where
  "column_fits rep val B w xs \<longleftrightarrow> (\<forall>x \<in> set xs. rep x) \<and>
     (\<forall>g < (length xs + rolling_tg_size - 1) div rolling_tg_size. (\<Sum>r \<in> tile_rows xs w g. \<bar>val (xs ! r)\<bar>) \<le> B)"

lemma halo_rows: "w \<noteq> 0 \<Longrightarrow> unat (w - 1 :: u32) + 1 = unat w"
  using unat_minus_one [of w] by (simp add: unat_gt_0)

lemma rolling_sum_exact:
  fixes w :: u32 and junk :: "nat \<Rightarrow> u32"
  assumes ex: "exact_arith A rep val B" and fits: "column_fits rep val B (unat w) xs" and tids: "schedule_ok rolling_tg_size tids"
    and w: "w \<noteq> 0" and n: "unat n = length xs" and i: "i < length xs"
  defines "s \<equiv> window_sum A (unat (w - 1)) (tile_prefixes A tids (rolling_tg_size + unat (w - 1)) (load_tile tids junk n w xs (i div rolling_tg_size)) junk junk) (i mod rolling_tg_size)"
  shows "rep s \<and> val s = (\<Sum>r \<in> {i + 1 - unat w..i}. val (xs ! r))"
proof -
  let ?g = "i div rolling_tg_size" and ?lid = "i mod rolling_tg_size" and ?halo = "unat (w - 1)"
  let ?k = "rolling_tg_size + ?halo" and ?T = "tile_source xs (length xs) (?g * rolling_tg_size) ?halo"
  have tg: "0 < rolling_tg_size" by (simp add: rolling_tg_size_def)
  have lid: "?lid < rolling_tg_size" using tg by simp
  have hw: "?halo + 1 = unat w" using halo_rows [OF w] .
  have "i < (length xs + rolling_tg_size - 1) div rolling_tg_size * rolling_tg_size"
    using padded_grid_ge [OF tg, of "length xs"] i by (simp add: padded_grid_def)
  then have g: "?g < (length xs + rolling_tg_size - 1) div rolling_tg_size" by (rule less_mult_imp_div_less)
  have zero: "val 0 = 0" "rep 0" using ex by (simp_all add: exact_arith_def)
  have "small_tile rep val B ?k ?T"
  proof -
    have "rep (?T j)" for j
      using fits zero by (auto simp: tile_source_def Let_def column_fits_def)
    moreover have "(\<Sum>j < ?k. \<bar>val (?T j)\<bar>) = (\<Sum>r \<in> tile_rows xs (unat w) ?g. \<bar>val (xs ! r)\<bar>)"
    proof -
      have "{r. r < length xs \<and> ?g * rolling_tg_size + 0 \<le> r + ?halo \<and> r + ?halo < ?g * rolling_tg_size + ?k} = tile_rows xs (unat w) ?g"
        unfolding tile_rows_def hw [symmetric] by auto
      then show ?thesis
        using tile_sum [of "\<lambda>x. \<bar>val x\<bar>" xs "length xs" "?g * rolling_tg_size" ?halo 0 ?k] zero
        by (simp add: lessThan_atLeast0)
    qed
    ultimately show ?thesis using fits g by (simp add: small_tile_def column_fits_def)
  qed
  note sm = this
  have P: "stands_for rep val ?k ?T {..j} (tile_prefixes A tids ?k (load_tile tids junk n w xs ?g) junk junk j)" if "j < ?k" for j
    using exact_sums.tile_prefixes_tracks [OF tids, of ?k "load_tile tids junk n w xs ?g" ?T j A] store_tile [OF tids] n that ex sm by auto
  have "stands_for rep val ?k ?T {?lid..?lid + ?halo} s"
    unfolding s_def by (rule window_sum_stands [OF ex sm P]) (use lid in auto)
  moreover have "(\<Sum>j \<in> {?lid..?lid + ?halo}. val (?T j)) = (\<Sum>r \<in> {i + 1 - unat w..i}. val (xs ! r))"
  proof -
    have d: "?g * rolling_tg_size + ?lid = i" by simp
    have "{r. r < length xs \<and> ?g * rolling_tg_size + ?lid \<le> r + ?halo \<and> r + ?halo < ?g * rolling_tg_size + (?lid + ?halo + 1)} = {i + 1 - unat w..i}"
      using d i hw by auto
    moreover have "{?lid..?lid + ?halo} = {?lid..<?lid + ?halo + 1}" by auto
    ultimately show ?thesis using tile_sum [of val xs "length xs" "?g * rolling_tg_size" ?halo ?lid "?lid + ?halo + 1"] zero by simp
  qed
  ultimately show ?thesis by (simp add: stands_for_def)
qed

text \<open>The window of a row, oldest element first, zeros before the column.\<close>

definition window_value :: "u32 list \<Rightarrow> nat \<Rightarrow> nat \<Rightarrow> nat \<Rightarrow> u32" where
  "window_value xs w i k = (if w \<le> i + k + 1 then xs ! (i + k + 1 - w) else 0)"

lemma two_pass_cong: "(\<And>k. k < unat w \<Longrightarrow> x k = y k) \<Longrightarrow> two_pass A w ddof x = two_pass A w ddof y"
proof -
  assume eq: "\<And>k. k < unat w \<Longrightarrow> x k = y k"
  have f: "foldl (\<lambda>s k. g s (x k)) 0 [0..<unat w] = foldl (\<lambda>s k. g s (y k)) 0 [0..<unat w]" for g :: "u32 \<Rightarrow> u32 \<Rightarrow> u32"
    by (rule foldl_cong) (auto simp: eq)
  show ?thesis unfolding two_pass_def Let_def f [of "f_add A"] by (subst f) rule
qed

lemma tile_window:
  fixes w :: u32
  assumes w: "w \<noteq> 0" and i: "i < length xs" and k: "k < unat w"
  shows "tile_source xs (length xs) (i div rolling_tg_size * rolling_tg_size) (unat (w - 1)) (i mod rolling_tg_size + k) = window_value xs (unat w) i k"
proof -
  have d: "i div rolling_tg_size * rolling_tg_size + i mod rolling_tg_size = i" by simp
  have hw: "unat (w - 1) + 1 = unat w" using halo_rows [OF w] .
  have e: "int (i div rolling_tg_size * rolling_tg_size) - int (unat (w - 1)) + int (i mod rolling_tg_size + k) = int (i + k + 1) - int (unat w)"
    using d hw by linarith
  show ?thesis
  proof (cases "unat w \<le> i + k + 1")
    case True
    then have "int (i + k + 1) - int (unat w) = int (i + k + 1 - unat w)" by simp
    moreover have "i + k + 1 - unat w < length xs" using i k by linarith
    ultimately show ?thesis using True by (simp only: tile_source_def Let_def e window_value_def nat_int of_nat_less_iff if_True simp_thms of_nat_0_le_iff)
  next
    case False
    then have "\<not> 0 \<le> int (i + k + 1) - int (unat w)" by linarith
    then show ?thesis using False by (simp only: tile_source_def Let_def e window_value_def if_False simp_thms)
  qed
qed

lemma rolling_var_window:
  assumes tids: "schedule_ok rolling_tg_size tids" and w: "w \<noteq> 0" and n: "unat n = length xs" and i: "i < length xs"
  shows "rolling_var_out A tids junk n w ddof f xs (i div rolling_tg_size) (i mod rolling_tg_size) =
    (let v = two_pass A w ddof (window_value xs (unat w) i) in if f \<noteq> 0 then f_sqrt A v else v)"
proof -
  have "two_pass A w ddof (\<lambda>k. load_tile tids junk n w xs (i div rolling_tg_size) (i mod rolling_tg_size + k)) =
      two_pass A w ddof (window_value xs (unat w) i)"
  proof (rule two_pass_cong)
    fix k assume k: "k < unat w"
    have "i mod rolling_tg_size + k < rolling_tg_size + unat (w - 1)"
      using halo_rows [OF w] k mod_less_divisor [of rolling_tg_size i] by (simp add: rolling_tg_size_def)
    then show "load_tile tids junk n w xs (i div rolling_tg_size) (i mod rolling_tg_size + k) = window_value xs (unat w) i k"
      using tile_window [OF w i k] by (simp add: store_tile [OF tids] n)
  qed
  then show ?thesis by (simp add: rolling_var_out_def Let_def)
qed

section \<open>The entry point\<close>

definition roll_arrays :: "mem \<Rightarrow> nat \<Rightarrow> nat \<Rightarrow> nat \<Rightarrow> bool" where
  "roll_arrays m a b n \<longleftrightarrow> (a, 4 * n) \<in> set (live m) \<and> (b, 4 * n) \<in> set (live m) \<and> disjoint_regions (a, 4 * n) (b, 4 * n)"

definition lawful_device :: "roll_device \<Rightarrow> bool" where
  "lawful_device = (\<lambda>(A, tids, junk). \<forall>g. schedule_ok rolling_tg_size (tids g))"

definition roll_value :: "roll_device \<Rightarrow> u32 \<Rightarrow> u32 \<Rightarrow> u32 \<Rightarrow> u32 \<Rightarrow> u32 list \<Rightarrow> nat \<Rightarrow> u32" where
  "roll_value dev n w opc ddof xs = (case dev of (A, tids, junk) \<Rightarrow>
     roll_row (\<lambda>g. if opc < 2 then rolling_sum_out A (tids g) (junk g) n w (of_bool (opc = 1)) xs g
       else rolling_var_out A (tids g) (junk g) n w ddof (of_bool (opc = 3)) xs g))"

text \<open>The kernel of an operation and its launch.\<close>

definition roll_kernel :: "roll_device \<Rightarrow> u32 \<Rightarrow> u32 \<Rightarrow> u32 \<Rightarrow> u32 \<Rightarrow> u32 list list \<Rightarrow> nat \<Rightarrow> (nat \<times> u32) list" where
  "roll_kernel dev n w opc ddof =
     (if opc < 2 then sum_kernel dev [n, w, of_bool (opc = 1)] else var_kernel dev [n, w, ddof, of_bool (opc = 3)])"

lemma u32_below_4: "\<not> 3 < (x :: u32) \<longleftrightarrow> x = 0 \<or> x = 1 \<or> x = 2 \<or> x = 3"
proof -
  have "unat x \<le> 3 \<longleftrightarrow> unat x = 0 \<or> unat x = 1 \<or> unat x = 2 \<or> unat x = 3" by linarith
  then show ?thesis by (simp add: not_less word_le_nat_alt word_unat_eq_iff)
qed

lemma run_rolling_launch:
  assumes drv: "driver_ok drv" and n: "n \<noteq> 0" and run: "run_rolling_op drv rt dev m ib ob n w opc ddof = (m', Inr ())"
  obtains m1 where "keeps [] m m1" and "w \<noteq> 0" and "unat w \<le> max_w" and "opc \<le> 3" and "2 \<le> opc \<Longrightarrow> ddof < w"
    and "m' = launch (roll_kernel dev n w opc ddof) [(buf_base ib, unat n)] (buf_base ob) m1
      (order rt (if opc < 2 then ''rolling_sum_f32'' else ''rolling_var_f32'') (roll_groups n))"
proof -
  note launched = that
  have sum: thesis if d: "dispatch_rolling_sum_f32_buf drv rt dev m ib ob n w mean = (m', Inr ())" and o: "opc = of_bool mean" for mean
  proof -
    obtain m1 bs where 1: "scalar_buffers drv m [n, w, of_bool mean] = (m1, Inr bs)"
      and r: "w \<noteq> 0" "unat w \<le> max_w" "m' = launch (sum_kernel dev (map (scalar_arg m1) bs)) [(buf_base ib, unat n)] (buf_base ob) m1
          (order rt ''rolling_sum_f32'' (roll_groups n))"
      using d n by (auto simp: dispatch_rolling_sum_f32_buf_def simp del: scalar_buffers.simps split: prod.splits sum.splits if_splits)
    have "opc < 2" "(opc = 1) = mean" "opc \<le> 3" using o by (cases mean; simp)+
    then show thesis using launched [of m1] scalar_buffers_correct [OF drv 1] r by (simp add: roll_kernel_def not_le [symmetric])
  qed
  have var: thesis if d: "dispatch_rolling_var_f32_buf drv rt dev m ib ob n w ddof std = (m', Inr ())" and o: "opc = 2 + of_bool std" for std
  proof -
    obtain m1 bs where 1: "scalar_buffers drv m [n, w, ddof, of_bool std] = (m1, Inr bs)"
      and r: "w \<noteq> 0" "unat w \<le> max_w" "ddof < w" "m' = launch (var_kernel dev (map (scalar_arg m1) bs)) [(buf_base ib, unat n)] (buf_base ob) m1
          (order rt ''rolling_var_f32'' (roll_groups n))"
      using d n by (auto simp: dispatch_rolling_var_f32_buf_def not_le simp del: scalar_buffers.simps split: prod.splits sum.splits if_splits)
    have "\<not> opc < 2" "(opc = 3) = std" "opc \<le> 3" using o by (cases std; simp)+
    then show thesis using launched [of m1] scalar_buffers_correct [OF drv 1] r by (simp add: roll_kernel_def)
  qed
  have "\<not> 3 < opc" using run by (auto simp: run_rolling_op_def)
  then consider "opc = 0" | "opc = 1" | "opc = 2" | "opc = 3" using u32_below_4 by auto
  then show thesis
  proof cases
    case 1
    then show thesis using run sum [of False] by (auto simp: run_rolling_op_def split: prod.splits sum.splits)
  next
    case 2
    then show thesis using run sum [of True] by (auto simp: run_rolling_op_def split: prod.splits sum.splits)
  next
    case 3
    then show thesis using run var [of False] by (auto simp: run_rolling_op_def split: prod.splits sum.splits)
  next
    case 4
    then show thesis using run var [of True] by (auto simp: run_rolling_op_def split: prod.splits sum.splits)
  qed
qed

lemma roll_finished:
  fixes m :: mem and n w opc ddof :: u32
  assumes dev: "lawful_device dev" and apart: "disjoint_regions (a, 4 * unat n) (buf_base outb, 4 * unat n)"
    and gs: "set gs = {..<roll_groups n}" and len: "buf_len outb = 4 * unat n" and al: "is_ptr_page_aligned drv out_ptr \<Longrightarrow> buf_base outb = out_ptr"
  defines "m' \<equiv> copy_back_output drv (launch (roll_kernel dev n w opc ddof) [(a, unat n)] (buf_base outb) m gs) out_ptr (unat n) outb"
  shows "words_at m' out_ptr (unat n) = map (roll_value dev n w opc ddof (words_at m a (unat n))) [0..<unat n]"
    and "keeps [(buf_base outb, 4 * unat n), (out_ptr, 4 * unat n)] m m'"
proof -
  obtain A tids junk where d: "dev = (A, tids, junk)" by (cases dev)
  have t: "lawful_threads (tids g) = tids g" for g using dev by (simp add: lawful_threads_def lawful_device_def d)
  have ap: "\<And>r. r \<in> set [(a, unat n)] \<Longrightarrow> disjoint_regions (fst r, 4 * snd r) (buf_base outb, 4 * unat n)" using apart by simp
  define f1 f3 where f: "f1 = (of_bool (opc = 1) :: u32)" "f3 = (of_bool (opc = 3) :: u32)"
  note s = roll_sum.finished_call [where A = A and tids = tids and junk = junk and w = w and f = f1 and inputs = "[(a, unat n)]" and drv = drv and m = m, OF ap gs len al, unfolded t]
  note v = roll_var.finished_call [where A = A and tids = tids and junk = junk and w = w and ddof = ddof and f = f3 and inputs = "[(a, unat n)]"
      and drv = drv and m = m, OF ap gs len al, unfolded t]
  show "words_at m' out_ptr (unat n) = map (roll_value dev n w opc ddof (words_at m a (unat n))) [0..<unat n]"
    using s(1) v(1) by (simp add: m'_def roll_kernel_def roll_value_def d f [symmetric])
  show "keeps [(buf_base outb, 4 * unat n), (out_ptr, 4 * unat n)] m m'"
    using s(2) v(2) by (simp add: m'_def roll_kernel_def d f [symmetric])
qed

lemma execute_rolling_result:
  assumes drv: "driver_ok drv" and rt: "lawful_order rt" and dev: "lawful_device dev" and arrays: "roll_arrays m a b n" and n: "0 < n"
    and run: "execute_rolling None drv rt dev m (a, n) (b, n) w opc ddof = (m', Inr ())"
  shows "words_at m' b n = map (roll_value dev (of_nat n) w opc ddof (words_at m a n)) [0..<n] \<and> keeps [(b, 4 * n)] m m' \<and>
    n < 2 ^ 32 \<and> w \<noteq> 0 \<and> unat w \<le> max_w \<and> opc \<le> 3 \<and> (2 \<le> opc \<longrightarrow> ddof < w)"
proof -
  have live: "(a, 4 * n) \<in> set (live m)" "(b, 4 * n) \<in> set (live m)" and ab: "disjoint_regions (a, 4 * n) (b, 4 * n)"
    using arrays by (auto simp: roll_arrays_def)
  obtain m1 ib m2 ob m3 where 1: "from_borrowed drv m a n 4 = (m1, Inr ib)" and 2: "from_borrowed drv m1 b n 4 = (m2, Inr ob)"
    and 3: "run_rolling_op drv rt dev m2 ib ob (of_nat n) w opc ddof = (m3, Inr ())"
    and m': "m' = copy_back_output drv m3 b n ob" and n32: "n < 2 ^ 32"
    using run n by (auto simp: execute_rolling_def not_le split: prod.splits sum.splits if_splits)
  have u: "unat (of_nat n :: u32) = n" using n32 by (simp add: unat_of_nat)
  have nz: "of_nat n \<noteq> (0 :: u32)" using n u by force
  note b1 = borrow_words [OF drv 1 live(1)]
  have b: "(b, 4 * n) \<in> set (live m1)" using keeps_read [OF b1(1) live(2)] by simp
  note b2 = borrow_words [OF drv 2 b]
  have apart: "disjoint_regions (buf_base ib, 4 * n) (buf_base ob, 4 * n)"
    using borrowed_apart [OF drv 2 b b1(3)] borrowed_apart [OF drv 1 live ab] by (simp add: disjoint_regions_sym)
  from run_rolling_launch [OF drv nz 3] obtain m4 where k4: "keeps [] m2 m4"
    and facts: "w \<noteq> 0" "unat w \<le> max_w" "opc \<le> 3" "2 \<le> opc \<Longrightarrow> ddof < w"
    and m3: "m3 = launch (roll_kernel dev (of_nat n) w opc ddof) [(buf_base ib, n)] (buf_base ob) m4
      (order rt (if opc < 2 then ''rolling_sum_f32'' else ''rolling_var_f32'') (roll_groups (of_nat n)))"
    unfolding u by metis
  have gs: "set (order rt (if opc < 2 then ''rolling_sum_f32'' else ''rolling_var_f32'') (roll_groups (of_nat n))) = {..<roll_groups (of_nat n)}"
    using rt schedule_set unfolding lawful_order_def by blast
  have i2: "(buf_base ib, 4 * n) \<in> set (live m2)" using keeps_read [OF b2(1) b1(3)] by simp
  have words: "words_at m4 (buf_base ib) n = words_at m a n"
    using kept_words [OF k4 i2] kept_words [OF b2(1) b1(3)] b1(4) by simp
  note e = roll_finished [where n = "of_nat n", unfolded u, OF dev apart gs b2(2) b2(5) [THEN conjunct1]]
  have "words_at m' b n = map (roll_value dev (of_nat n) w opc ddof (words_at m a n)) [0..<n]"
    unfolding m' m3 using e(1) words by simp
  moreover have "keeps [(b, 4 * n)] m m'"
  proof -
    have k: "keeps [] m m4" using keeps_trans [OF keeps_trans [OF b1(1) b2(1)] k4] .
    have "keeps [(buf_base ob, 4 * n), (b, 4 * n)] m4 m'" unfolding m' m3 by (rule e(2))
    moreover have "disjoint_regions s (buf_base ob, 4 * n)" if "s \<in> set (live m)" "disjoint_regions s (b, 4 * n)" for s
      using borrowed_apart [OF drv 2 b, of s] that keeps_read [OF b1(1)] by (cases s) (auto simp: disjoint_regions_sym)
    ultimately show ?thesis using k by (fastforce simp: keeps_def)
  qed
  ultimately show ?thesis using n32 facts by simp
qed

text \<open>The rolling entry point computes the window statistics of every row. After a successful call the output holds, for
  variances and deviations, the two-pass formula over exactly the last \<open>w\<close> rows (zeros before the column) in any arithmetic,
  and for sums and means the exact sum of those rows whenever the column is one of integers whose magnitudes over a tile
  stay in the exact range, so that the tile, segment and scan phases lose nothing; the first \<open>w - 1\<close> rows hold the
  statistics of their shorter windows. No other live memory changes, whatever the order of groups and threads.\<close>

theorem execute_rolling_correct:
  assumes "driver_ok drv" and "lawful_order rt" and "lawful_device (A, tids, junk)" and "roll_arrays m a b n" and "0 < n"
    and "execute_rolling None drv rt (A, tids, junk) m (a, n) (b, n) w opc ddof = (m', Inr ())"
  defines "xs \<equiv> words_at m a n" and "std \<equiv> \<lambda>v. if opc = 3 then f_sqrt A v else v"
  shows "keeps [(b, 4 * n)] m m' \<and> w \<noteq> 0 \<and> unat w \<le> 4096 \<and> (2 \<le> opc \<longrightarrow> ddof < w) \<and>
    (2 \<le> opc \<longrightarrow> words_at m' b n = map (\<lambda>i. std (two_pass A w ddof (window_value xs (unat w) i))) [0..<n]) \<and>
    (opc < 2 \<and> exact_arith A rep val B \<and> column_fits rep val B (unat w) xs \<longrightarrow>
      (\<forall>i < n. \<exists>s. rep s \<and> val s = (\<Sum>r \<in> {i + 1 - unat w..i}. val (xs ! r)) \<and>
        words_at m' b n ! i = (if opc = 1 then f_div A s (f_of_u32 A w) else s)))"
proof -
  note r = execute_rolling_result [OF assms(1-6)]
  have u: "unat (of_nat n :: u32) = length xs" using r by (simp add: unat_of_nat xs_def)
  have w: "w \<noteq> 0" using r by simp
  have sch: "schedule_ok rolling_tg_size (tids g)" for g using assms(3) by (simp add: lawful_device_def)
  have var: "roll_value (A, tids, junk) (of_nat n) w opc ddof xs i = std (two_pass A w ddof (window_value xs (unat w) i))"
    if "2 \<le> opc" "i < n" for i
    using that rolling_var_window [OF sch w u, of i] by (auto simp: roll_value_def roll_row_def std_def xs_def Let_def not_less [symmetric])
  have sum: "\<exists>s. rep s \<and> val s = (\<Sum>r \<in> {i + 1 - unat w..i}. val (xs ! r)) \<and>
      roll_value (A, tids, junk) (of_nat n) w opc ddof xs i = (if opc = 1 then f_div A s (f_of_u32 A w) else s)"
    if "opc < 2" "exact_arith A rep val B" "column_fits rep val B (unat w) xs" "i < n" for i
    using that rolling_sum_exact [OF that(2,3) sch w u, where i = i]
    by (auto simp: roll_value_def roll_row_def xs_def Let_def rolling_sum_out_def)
  show ?thesis using r var sum by (simp add: max_w_def xs_def [symmetric])
qed

text \<open>Integers as floats.\<close>

definition int_arith :: float_arith where
  "int_arith = \<lparr>f_sub = (\<lambda>x y. word_of_int (sint x - sint y)), f_mul = (*), f_add = (\<lambda>x y. word_of_int (sint x + sint y)),
     f_min = min, f_sqrt = (\<lambda>x. x), f_div = (div), f_of_u32 = (\<lambda>x. x)\<rparr>"

lemma sint_in_range: "- (2 ^ 31) \<le> k \<Longrightarrow> k < 2 ^ 31 \<Longrightarrow> sint (word_of_int k :: u32) = k"
  by (simp add: sint_sbintrunc' signed_take_bit_int_eq_self)

lemma sint_small:
  fixes x y :: u32
  shows "\<bar>sint x + sint y\<bar> \<le> 2 ^ 24 \<Longrightarrow> sint (x + y) = sint x + sint y"
    and "\<bar>sint x - sint y\<bar> \<le> 2 ^ 24 \<Longrightarrow> sint (x - y) = sint x - sint y"
  using sint_in_range [of "sint x + sint y"] sint_in_range [of "sint x - sint y"] by auto

lemma int_arith_exact: "exact_arith int_arith (\<lambda>x. \<bar>sint x\<bar> \<le> 2 ^ 24) sint (2 ^ 24)"
  unfolding exact_arith_def int_arith_def by (auto simp: sint_small)

definition roll_device_demo :: roll_device where
  "roll_device_demo = (int_arith, \<lambda>_. [0..<rolling_tg_size], \<lambda>_ _. 7)"

definition roll_mem :: mem where
  "roll_mem = \<lparr>heap = (\<lambda>x. if x = 33 then 5 else if x = 37 then 1 else if x = 41 then 7 else 0), live = [(16, 12), (33, 12)]\<rparr>"

lemma execute_rolling_succeeds:
  assumes drv: "obliging drv" and n: "0 < n" "n < 2 ^ 32" and ptrs: "a \<noteq> 0" "b \<noteq> 0" and w: "w \<noteq> 0" "unat w \<le> max_w"
  shows "\<exists>m'. execute_rolling None drv rt dev m (a, n) (b, n) w 0 ddof = (m', Inr ())"
proof -
  obtain m1 ib where 1: "from_borrowed drv m a n 4 = (m1, Inr ib)" using obliging_borrow [OF drv n(1) ptrs(1)] by blast
  obtain m2 ob where 2: "from_borrowed drv m1 b n 4 = (m2, Inr ob)" using obliging_borrow [OF drv n(1) ptrs(2)] by blast
  have "unat (of_nat n :: u32) = n" using n(2) by (simp add: unat_of_nat)
  then have nz: "of_nat n \<noteq> (0 :: u32)" using n(1) by force
  obtain m3 bs where 3: "scalar_buffers drv m2 [of_nat n, w, of_bool False] = (m3, Inr bs)" using obliging_scalars [OF drv] by blast
  have "\<exists>m4. dispatch_rolling_sum_f32_buf drv rt dev m2 ib ob (of_nat n) w False = (m4, Inr ())"
    using w nz 3 by (simp add: dispatch_rolling_sum_f32_buf_def not_less del: scalar_buffers.simps)
  then have "\<exists>m4. run_rolling_op drv rt dev m2 ib ob (of_nat n) w 0 ddof = (m4, Inr ())" by (auto simp: run_rolling_op_def)
  then show ?thesis using n 1 2 by (auto simp: execute_rolling_def)
qed

lemma roll_demo_ready: "roll_arrays roll_mem 33 16 3" "lawful_device roll_device_demo"
  by (simp_all add: roll_arrays_def roll_mem_def disjoint_regions_def lawful_device_def roll_device_demo_def schedule_id)

lemma roll_demo_words: "words_at roll_mem 33 3 = [5, 1, 7]"
  by code_simp

theorem execute_rolling_correct_witness:
  "\<exists>m'. execute_rolling None bump_driver demo_runtime roll_device_demo roll_mem (33, 3) (16, 3) 2 0 1 = (m', Inr ()) \<and>
     sint (words_at m' 16 3 ! 2) = 8"
proof -
  obtain m' where run: "execute_rolling None bump_driver demo_runtime roll_device_demo roll_mem (33, 3) (16, 3) 2 0 1 = (m', Inr ())"
    using execute_rolling_succeeds [OF bump_driver_obliging, where n = 3 and a = 33 and b = 16 and w = 2] by (fastforce simp: max_w_def)
  have g: "tile_rows [5, 1, 7] 2 0 = {0, 1, 2}" by (auto simp: tile_rows_def rolling_tg_size_def)
  have fits: "column_fits (\<lambda>x. \<bar>sint x\<bar> \<le> 2 ^ 24) sint (2 ^ 24) 2 [5, 1, 7]"
    by (simp add: column_fits_def g) (simp add: rolling_tg_size_def g)
  note c = execute_rolling_correct [OF bump_driver_ok demo_runtime_lawful(1) roll_demo_ready(2) [unfolded roll_device_demo_def]
      roll_demo_ready(1) _ run [unfolded roll_device_demo_def], unfolded roll_demo_words,
      where rep = "\<lambda>x. \<bar>sint x\<bar> \<le> 2 ^ 24" and val = sint and B = "2 ^ 24"]
  have "{Suc 0..2} = {1, 2 :: nat}" by auto
  then have "sint (words_at m' 16 3 ! 2) = 8" using c int_arith_exact fits by (auto dest!: spec [of _ 2])
  then show ?thesis using run by blast
qed

section \<open>An infinity stays in the prefix sums\<close>

text \<open>How an infinity behaves: it absorbs what is added to it, and the difference of two is not a number.\<close>

definition absorbing :: "float_arith \<Rightarrow> u32 set \<Rightarrow> u32 \<Rightarrow> bool" where
  "absorbing A F not_number \<longleftrightarrow> 0 \<in> F \<and> infinity32 \<notin> F \<and> (\<forall>x \<in> F. \<forall>y \<in> F. f_add A x y \<in> F) \<and>
     (\<forall>x \<in> insert infinity32 F. f_add A x infinity32 = infinity32 \<and> f_add A infinity32 x = infinity32) \<and>
     f_sub A infinity32 infinity32 = not_number"

interpretation absorbed_sums: tile_sums A k T
    "\<lambda>S x. absorbing A F nn \<longrightarrow> (\<forall>j < k. T j \<in> insert infinity32 F) \<longrightarrow> (if \<exists>j \<in> S. T j = infinity32 then x = infinity32 else x \<in> F)"
  for A k T F nn
  by unfold_locales (auto simp: absorbing_def split: if_splits)

text \<open>The prefix differences spread an infinity, where the device keeps the rules of IEEE arithmetic for infinities (the
  fast-math build does not promise it): when the first row of a column is infinite and all others finite, every
  later row of the first threadgroup whose window starts after that row gets the difference of two infinities instead of the
  finite sum of its window, whatever the finite values are.\<close>

theorem infinity_leaks:
  assumes "driver_ok drv" and "lawful_order rt" and "lawful_device (A, tids, junk)" and "roll_arrays m a b n" and "0 < n"
    and "execute_rolling None drv rt (A, tids, junk) m (a, n) (b, n) w 0 ddof = (m', Inr ())"
    and inf: "absorbing A F not_number" and first: "words_at m a n ! 0 = infinity32" and rest: "\<forall>r \<in> {1..<n}. words_at m a n ! r \<in> F"
    and i: "unat w \<le> i" "i < n" "i < 256"
  shows "words_at m' b n ! i = not_number \<and> (\<forall>r \<in> {i + 1 - unat w..i}. words_at m a n ! r \<in> F)"
proof -
  define xs where "xs = words_at m a n"
  note r = execute_rolling_result [OF assms(1-6)]
  have u: "unat (of_nat n :: u32) = length xs" using r by (simp add: unat_of_nat xs_def)
  have w: "w \<noteq> 0" using r by simp
  have hw: "unat (w - 1) + 1 = unat w" using halo_rows [OF w] .
  have sch: "schedule_ok rolling_tg_size (tids 0)" using assms(3) by (simp add: lawful_device_def)
  let ?h = "unat (w - 1)" and ?k = "rolling_tg_size + unat (w - 1)" and ?T = "tile_source xs (length xs) 0 (unat (w - 1))"
  let ?P = "tile_prefixes A (tids 0) ?k (load_tile (tids 0) (junk 0) (of_nat n) w xs 0) (junk 0) (junk 0)"
  have T: "\<forall>j < ?k. ?T j \<in> insert infinity32 F"
  proof (intro allI impI)
    fix j
    have "x \<in> insert infinity32 F" if "x \<in> set xs" for x
    proof -
      obtain r where "r < length xs" "x = xs ! r" using \<open>x \<in> set xs\<close> by (metis in_set_conv_nth)
      then show ?thesis using first rest by (cases r) (auto simp: xs_def)
    qed
    then show "?T j \<in> insert infinity32 F" using inf tile_source_mem [of xs 0 ?h j] by (auto simp: absorbing_def)
  qed
  have Th: "?T ?h = infinity32" using first assms(5) by (simp add: tile_source_def xs_def)
  have P: "?P j = infinity32" if "?h \<le> j" "j < ?k" for j
  proof -
    have ex: "\<exists>i \<in> {..j}. ?T i = infinity32" using Th that(1) by blast
    have "(if \<exists>i \<in> {..j}. ?T i = infinity32 then ?P j = infinity32 else ?P j \<in> F)"
    using absorbed_sums.tile_prefixes_tracks [OF sch, of ?k "load_tile (tids 0) (junk 0) (of_nat n) w xs 0" ?T j A F not_number]
      store_tile [OF sch, of _ w "junk 0" "of_nat n" xs 0] u that inf T by simp
    then show ?thesis using ex by (simp only: if_True simp_thms)
  qed
  have lid: "i div rolling_tg_size = 0" "i mod rolling_tg_size = i" using i by (simp_all add: rolling_tg_size_def)
  have "window_sum A ?h ?P i = not_number"
    using P [of "i + ?h"] P [of "i - 1"] i hw inf by (simp add: window_sum_def rolling_tg_size_def absorbing_def)
  then have "roll_value (A, tids, junk) (of_nat n) w 0 ddof xs i = not_number"
    by (simp add: roll_value_def roll_row_def lid rolling_sum_out_def Let_def)
  moreover have "xs ! r \<in> F" if "r \<in> {i + 1 - unat w..i}" for r
    using rest i that by (auto simp: xs_def)
  ultimately show ?thesis using r i by (simp add: xs_def)
qed

definition clipping_arith :: float_arith where
  "clipping_arith = \<lparr>f_sub = (\<lambda>x y. if x = infinity32 \<and> y = infinity32 then 0x7FC00000 else x - y), f_mul = (*),
     f_add = (\<lambda>x y. if x = infinity32 \<or> y = infinity32 then infinity32
       else if unat x + unat y < unat infinity32 then x + y else infinity32 - 1),
     f_min = min, f_sqrt = (\<lambda>x. x), f_div = (div), f_of_u32 = (\<lambda>x. x)\<rparr>"

lemma clipping_absorbs: "absorbing clipping_arith {x. x < infinity32} 0x7FC00000"
  by (auto simp: absorbing_def clipping_arith_def infinity32_def word_less_nat_alt unat_word_ariths)

definition leak_mem :: mem where
  "leak_mem = \<lparr>heap = (\<lambda>x. if x = 35 then 0x80 else if x = 36 then 0x7F else if x = 37 then 5 else if x = 41 then 7 else 0), live = [(16, 12), (33, 12)]\<rparr>"

theorem infinity_leaks_witness:
  "\<exists>m'. execute_rolling None bump_driver demo_runtime (clipping_arith, \<lambda>_. [0..<rolling_tg_size], \<lambda>_ _. 7) leak_mem (33, 3) (16, 3) 1 0 1 = (m', Inr ()) \<and>
     words_at leak_mem 33 3 = [infinity32, 5, 7] \<and> words_at m' 16 3 ! 2 = 0x7FC00000"
proof -
  let ?d = "(clipping_arith, \<lambda>_. [0..<rolling_tg_size], \<lambda>_ _. 7) :: roll_device"
  obtain m' where run: "execute_rolling None bump_driver demo_runtime ?d leak_mem (33, 3) (16, 3) 1 0 1 = (m', Inr ())"
    using execute_rolling_succeeds [OF bump_driver_obliging, where n = 3 and a = 33 and b = 16 and w = 1] by (fastforce simp: max_w_def)
  have dev: "lawful_device ?d" by (simp add: lawful_device_def schedule_id)
  have ready: "roll_arrays leak_mem 33 16 3" by (simp add: roll_arrays_def leak_mem_def disjoint_regions_def)
  have w: "words_at leak_mem 33 3 = [infinity32, 5, 7]" by code_simp
  have "\<forall>r \<in> {1..<3}. [infinity32, 5, 7] ! r \<in> {x :: u32. x < infinity32}"
  proof
    fix r :: nat assume "r \<in> {1..<3}"
    then have "r = 1 \<or> r = 2" by auto
    then show "[infinity32, 5, 7] ! r \<in> {x :: u32. x < infinity32}" by (auto simp: infinity32_def)
  qed
  then have "words_at m' 16 3 ! 2 = 0x7FC00000"
    using infinity_leaks [OF bump_driver_ok demo_runtime_lawful(1) dev ready _ run clipping_absorbs, unfolded w, of 2] by auto
  then show ?thesis using run w by blast
qed

end
