(* ===== verification/Command.thy ===== *)
theory Command
  imports Prelude
begin

text \<open>Models \<open>polars-metal-kernels/src/command.rs\<close>: the command queue that tracks the last command buffer only, the widths of
  threadgroups and the errors. Which of the calls of Metal succeed is a parameter.\<close>

datatype dispatch_error = QueueCreation | CommandBufferCreation | EncoderCreation | GpuError string | EmptyGrid

text \<open>Metal, by the number of the command buffer: whether it and its encoder are made, and the error it completes with.\<close>

record metal_queue =
  makes_queue :: bool
  makes_buffer :: "nat \<Rightarrow> bool"
  makes_encoder :: "nat \<Rightarrow> bool"
  failure :: "nat \<Rightarrow> string option"

record command_queue =
  requested :: nat
  in_flight :: "nat option"
  committed :: "(nat \<times> nat \<times> nat) list"

definition new_queue :: "metal_queue \<Rightarrow> dispatch_error + command_queue" where
  "new_queue D = (if makes_queue D then Inr \<lparr>requested = 0, in_flight = None, committed = []\<rparr> else Inl QueueCreation)"

definition default_threadgroup_width :: nat where "default_threadgroup_width = 256"

definition auto_width :: "nat \<Rightarrow> nat" where
  "auto_width max_tg = max 1 (min max_tg default_threadgroup_width)"

definition clamped_width :: "nat \<Rightarrow> nat \<Rightarrow> nat" where
  "clamped_width width max_tg = max (min width max_tg) 1"

definition enqueue_with_tg :: "metal_queue \<Rightarrow> nat \<Rightarrow> nat \<Rightarrow> nat \<Rightarrow> command_queue \<Rightarrow> command_queue \<times> (dispatch_error + unit)" where
  "enqueue_with_tg D max_tg n_threads width q =
     (if n_threads = 0 then (q, Inl EmptyGrid)
      else let k = requested q; q = q\<lparr>requested := Suc k\<rparr> in
        if \<not> makes_buffer D k then (q, Inl CommandBufferCreation)
        else if \<not> makes_encoder D k then (q, Inl EncoderCreation)
        else (q\<lparr>in_flight := Some k, committed := committed q @ [(k, n_threads, clamped_width width max_tg)]\<rparr>, Inr ()))"

definition enqueue :: "metal_queue \<Rightarrow> nat \<Rightarrow> nat \<Rightarrow> command_queue \<Rightarrow> command_queue \<times> (dispatch_error + unit)" where
  "enqueue D max_tg n_threads q =
     (if n_threads = 0 then (q, Inl EmptyGrid) else enqueue_with_tg D max_tg n_threads (auto_width max_tg) q)"

definition wait_until_complete :: "metal_queue \<Rightarrow> command_queue \<Rightarrow> command_queue \<times> (dispatch_error + unit)" where
  "wait_until_complete D q =
     (case in_flight q of
        None \<Rightarrow> (q, Inr ())
      | Some k \<Rightarrow> (q\<lparr>in_flight := None\<rparr>, case failure D k of None \<Rightarrow> Inr () | Some e \<Rightarrow> Inl (GpuError e)))"

section \<open>Sequences of calls\<close>

text \<open>A caller stops at the first error.\<close>

datatype queue_call = Enqueue nat nat | Enqueue_with_tg nat nat nat | Wait

fun run_call :: "metal_queue \<Rightarrow> queue_call \<Rightarrow> command_queue \<Rightarrow> command_queue \<times> (dispatch_error + unit)" where
  "run_call D (Enqueue max_tg n) q = enqueue D max_tg n q"
| "run_call D (Enqueue_with_tg max_tg n w) q = enqueue_with_tg D max_tg n w q"
| "run_call D Wait q = wait_until_complete D q"

fun queue_calls :: "metal_queue \<Rightarrow> queue_call list \<Rightarrow> command_queue \<Rightarrow> command_queue \<times> (dispatch_error + unit)" where
  "queue_calls D [] q = (q, Inr ())"
| "queue_calls D (c # cs) q = (case run_call D c q of (q', Inl e) \<Rightarrow> (q', Inl e) | (q', Inr _) \<Rightarrow> queue_calls D cs q')"

text \<open>A wait between any two dispatches, and at the end.\<close>

fun waited :: "bool \<Rightarrow> queue_call list \<Rightarrow> bool" where
  "waited busy [] \<longleftrightarrow> \<not> busy"
| "waited busy (Wait # cs) \<longleftrightarrow> waited False cs"
| "waited busy (c # cs) \<longleftrightarrow> \<not> busy \<and> waited True cs"

text \<open>Every committed command that did not fail, or that is still tracked.\<close>

definition tracked :: "metal_queue \<Rightarrow> command_queue \<Rightarrow> bool" where
  "tracked D q \<longleftrightarrow> (\<forall>(k, n, w) \<in> set (committed q). (failure D k = None \<or> in_flight q = Some k) \<and> 0 < n \<and> 0 < w)"

lemma enqueue_tracked:
  assumes "enqueue_with_tg D max_tg n width q = (q', Inr ())" "tracked D q" "in_flight q = None"
  shows "tracked D q' \<and> in_flight q' \<noteq> None"
  using assms by (auto simp: enqueue_with_tg_def tracked_def clamped_width_def Let_def split: if_splits)

lemma queue_calls_tracked:
  "\<lbrakk>queue_calls D cs q = (q', Inr ()); waited (in_flight q \<noteq> None) cs; tracked D q\<rbrakk> \<Longrightarrow> tracked D q' \<and> in_flight q' = None"
proof (induction cs arbitrary: q)
  case (Cons c cs)
  obtain q1 where 1: "run_call D c q = (q1, Inr ())" and 2: "queue_calls D cs q1 = (q', Inr ())"
    using Cons.prems(1) by (auto split: prod.splits sum.splits)
  have "tracked D q1 \<and> waited (in_flight q1 \<noteq> None) cs"
  proof (cases c)
    case (Enqueue m n)
    then have "in_flight q = None" "waited True cs" using Cons.prems(2) by simp_all
    then show ?thesis using 1 Enqueue enqueue_tracked [of D m n "auto_width m" q q1] Cons.prems(3)
      by (auto simp: enqueue_def split: if_splits)
  next
    case (Enqueue_with_tg m n w)
    then have "in_flight q = None" "waited True cs" using Cons.prems(2) by simp_all
    then show ?thesis using 1 Enqueue_with_tg enqueue_tracked [of D m n w q q1] Cons.prems(3) by auto
  next
    case Wait
    then show ?thesis
      using 1 Cons.prems(2,3) by (auto simp: wait_until_complete_def tracked_def split: option.splits)
  qed
  then show ?case using Cons.IH [OF 2] by blast
qed auto

text \<open>A query that waits after every dispatch learns of every failed command: when all its calls return without error, no
  command that it committed failed, and each had a grid and a threadgroup of at least one thread. Two dispatches before a wait
  can hide the failure of the first.\<close>

theorem waiting_reports_errors:
  "(new_queue D = Inr q \<and> waited False cs \<and> queue_calls D cs q = (q', Inr ()) \<longrightarrow>
      in_flight q' = None \<and> (\<forall>(k, n, w) \<in> set (committed q'). failure D k = None \<and> 0 < n \<and> 0 < w)) \<and>
    (\<exists>D q q' e. new_queue D = Inr q \<and> queue_calls D [Enqueue 1024 8, Enqueue 1024 8, Wait] q = (q', Inr ()) \<and>
      failure D 0 = Some e \<and> committed q' = [(0, 8, 256), (1, 8, 256)])"
proof
  show "new_queue D = Inr q \<and> waited False cs \<and> queue_calls D cs q = (q', Inr ()) \<longrightarrow>
      in_flight q' = None \<and> (\<forall>(k, n, w) \<in> set (committed q'). failure D k = None \<and> 0 < n \<and> 0 < w)"
  proof
    assume a: "new_queue D = Inr q \<and> waited False cs \<and> queue_calls D cs q = (q', Inr ())"
    then have "tracked D q" "in_flight q = None" by (auto simp: new_queue_def tracked_def split: if_splits)
    then have "tracked D q'" and n: "in_flight q' = None" using queue_calls_tracked [of D cs q q'] a by simp_all
    then show "in_flight q' = None \<and> (\<forall>(k, n, w) \<in> set (committed q'). failure D k = None \<and> 0 < n \<and> 0 < w)"
      by (simp add: tracked_def n)
  qed
  let ?D = "\<lparr>makes_queue = True, makes_buffer = (\<lambda>_. True), makes_encoder = (\<lambda>_. True), failure = (\<lambda>k. if k = 0 then Some ''page fault'' else None)\<rparr>"
  show "\<exists>D q q' e. new_queue D = Inr q \<and> queue_calls D [Enqueue 1024 8, Enqueue 1024 8, Wait] q = (q', Inr ()) \<and>
      failure D 0 = Some e \<and> committed q' = [(0, 8, 256), (1, 8, 256)]"
    by (rule exI [of _ ?D])
      (simp add: new_queue_def enqueue_def enqueue_with_tg_def wait_until_complete_def Let_def clamped_width_def auto_width_def default_threadgroup_width_def)
qed

definition demo_queue :: metal_queue where
  "demo_queue = \<lparr>makes_queue = True, makes_buffer = (\<lambda>_. True), makes_encoder = (\<lambda>_. True), failure = (\<lambda>_. None)\<rparr>"

lemma waiting_reports_errors_witness:
  "\<exists>q q'. new_queue demo_queue = Inr q \<and> queue_calls demo_queue [Enqueue_with_tg 1024 64 32, Wait, Enqueue 512 1000, Wait] q = (q', Inr ()) \<and>
    committed q' = [(0, 64, 32), (1, 1000, 256)] \<and> in_flight q' = None \<and> failure demo_queue 0 = None \<and> failure demo_queue 1 = None"
proof -
  let ?cs = "[Enqueue_with_tg 1024 64 32, Wait, Enqueue 512 1000, Wait]"
  obtain q q' where r: "new_queue demo_queue = Inr q" "queue_calls demo_queue ?cs q = (q', Inr ())" "committed q' = [(0, 64, 32), (1, 1000, 256)]"
    by (simp add: demo_queue_def new_queue_def enqueue_def enqueue_with_tg_def wait_until_complete_def Let_def clamped_width_def auto_width_def default_threadgroup_width_def)
  then have "in_flight q' = None \<and> failure demo_queue 0 = None \<and> failure demo_queue 1 = None"
    using waiting_reports_errors [of demo_queue q ?cs q'] by simp
  with r show ?thesis by blast
qed

end
