(* ===== verification/Dft.thy ===== *)
theory Dft
  imports Complex_Main
begin

text \<open>The discrete Fourier transform over the complex numbers, as the reference for the kernels of \<open>fft.metal\<close> and the planner
  in \<open>fft.rs\<close>: the splitting lemma behind the Stockham stages and the four-step decomposition, inversion, circular
  convolution and Bluestein's identity.\<close>

section \<open>Roots of unity\<close>

definition uroot :: "nat \<Rightarrow> complex" where
  "uroot n = cis (- (2 * pi / real n))"

lemma uroot_power: "uroot n ^ k = cis (- (2 * pi * real k / real n))"
  unfolding uroot_def DeMoivre by (simp add: mult.commute)

lemma uroot_pow_self [simp]: "0 < n \<Longrightarrow> uroot n ^ n = 1"
  by (simp add: uroot_power complex_eq_iff)

lemma uroot_pow_multiple: "0 < n \<Longrightarrow> uroot n ^ (n * k) = 1"
  by (simp add: power_mult)

lemma uroot_pow_mod: "0 < n \<Longrightarrow> uroot n ^ (k mod n) = uroot n ^ k"
  by (metis mult_div_mod_eq power_add uroot_pow_multiple mult_1)

lemma uroot_mult: "0 < a \<Longrightarrow> uroot (a * b) ^ a = uroot b"
  by (simp add: uroot_power) (simp add: uroot_def)

lemma uroot_norm [simp]: "cmod (uroot n) = 1"
  by (simp add: uroot_def)

lemma uroot_cnj: "uroot n ^ k * cnj (uroot n ^ k) = 1"
  by (simp add: uroot_power cis_cnj cis_mult)

lemma uroot_neq_1: "0 < d \<Longrightarrow> d < n \<Longrightarrow> uroot n ^ d \<noteq> 1"
proof
  assume d: "0 < d" "d < n" and e: "uroot n ^ d = 1"
  then have "cos (2 * pi * real d / real n) = 1" by (simp add: uroot_power complex_eq_iff)
  then obtain k :: int where k: "2 * pi * real d / real n = real_of_int k * 2 * pi" by (metis cos_one_2pi_int mult.commute mult.assoc)
  then have "real d = real_of_int k * real n" using d by (simp add: field_simps)
  then have "int d = k * int n" by (metis of_int_eq_iff of_int_mult of_int_of_nat_eq)
  then have "int n dvd int d" by simp
  then show False using d by (simp add: nat_dvd_not_less)
qed

text \<open>The powers of a root of unity sum up to nothing, unless they are all one.\<close>

lemma uroot_sum:
  assumes n: "0 < n"
  shows "(\<Sum>k < n. uroot n ^ (k * d)) = (if n dvd d then of_nat n else 0)"
proof (cases "n dvd d")
  case True
  then obtain c where d: "d = n * c" by blast
  have "uroot n ^ (k * d) = 1" for k using uroot_pow_multiple [OF n, of "k * c"] by (simp add: d ac_simps)
  then show ?thesis using True by simp
next
  case False
  then have r: "uroot n ^ d \<noteq> 1"
    using uroot_neq_1 [of "d mod n" n] uroot_pow_mod [OF n, of d] n by (simp add: mod_greater_zero_iff_not_dvd)
  have "(\<Sum>k < n. uroot n ^ (k * d)) = (\<Sum>k < n. (uroot n ^ d) ^ k)" by (simp add: power_mult [symmetric] mult.commute)
  also have "\<dots> = ((uroot n ^ d) ^ n - 1) / (uroot n ^ d - 1)" using geometric_sum [OF r] by simp
  also have "(uroot n ^ d) ^ n = 1" using uroot_pow_multiple [OF n, of d] by (simp add: power_mult [symmetric] mult.commute)
  finally show ?thesis using False by simp
qed

section \<open>The transform\<close>

definition dft :: "nat \<Rightarrow> (nat \<Rightarrow> complex) \<Rightarrow> nat \<Rightarrow> complex" where
  "dft n x k = (\<Sum>j < n. x j * uroot n ^ (j * k))"

definition idft :: "nat \<Rightarrow> (nat \<Rightarrow> complex) \<Rightarrow> nat \<Rightarrow> complex" where
  "idft n x k = (\<Sum>j < n. x j * cnj (uroot n ^ (j * k))) / of_nat n"

lemma dft_cong: "(\<And>j. j < n \<Longrightarrow> x j = y j) \<Longrightarrow> dft n x k = dft n y k"
  by (simp add: dft_def)

lemma idft_by_dft: "idft n x k = cnj (dft n (\<lambda>j. cnj (x j)) k) / of_nat n"
  by (simp add: idft_def dft_def)

lemma uroot_difference:
  assumes "0 < n" "j < n" "l < n"
  shows "(\<Sum>k < n. uroot n ^ (j * k) * cnj (uroot n ^ (l * k))) = (if j = l then of_nat n else 0)"
proof -
  have inv: "uroot n ^ (l * k) * uroot n ^ (k * (n - l)) = 1" for k
  proof -
    have "l * k + k * (n - l) = n * k" using assms(3) by (simp add: diff_mult_distrib2 ac_simps)
    then show ?thesis using uroot_pow_multiple [OF assms(1), of k] by (simp add: power_add [symmetric])
  qed
  have "cnj (uroot n ^ (l * k)) = uroot n ^ (k * (n - l))" for k
  proof -
    have "cnj (uroot n ^ (l * k)) = (uroot n ^ (l * k) * uroot n ^ (k * (n - l))) * cnj (uroot n ^ (l * k))" unfolding inv by simp
    also have "\<dots> = uroot n ^ (k * (n - l)) * (uroot n ^ (l * k) * cnj (uroot n ^ (l * k)))" by (simp only: ac_simps)
    finally show ?thesis unfolding uroot_cnj by simp
  qed
  then have "(\<Sum>k < n. uroot n ^ (j * k) * cnj (uroot n ^ (l * k))) = (\<Sum>k < n. uroot n ^ (k * (j + (n - l))))"
    by (simp add: power_add [symmetric] distrib_left mult.commute)
  also have "\<dots> = (if n dvd j + (n - l) then of_nat n else 0)" by (rule uroot_sum [OF assms(1)])
  also have "n dvd j + (n - l) \<longleftrightarrow> j = l"
  proof
    assume "n dvd j + (n - l)"
    then obtain c where c: "j + (n - l) = n * c" by blast
    have "0 < j + (n - l)" "j + (n - l) < 2 * n" using assms by linarith+
    then have "0 < n * c" "n * c < n * 2" unfolding c by simp_all
    then have "c = 1" by simp
    then show "j = l" using c assms by simp
  qed (use assms in simp)
  finally show ?thesis .
qed

theorem dft_inverse:
  assumes "0 < n" "l < n"
  shows "idft n (dft n x) l = x l"
proof -
  have "(\<Sum>k < n. dft n x k * cnj (uroot n ^ (k * l))) = (\<Sum>j < n. x j * (\<Sum>k < n. uroot n ^ (j * k) * cnj (uroot n ^ (l * k))))"
    unfolding dft_def sum_distrib_right sum_distrib_left by (subst sum.swap) (simp add: ac_simps)
  also have "\<dots> = (\<Sum>j < n. x j * (if j = l then of_nat n else 0))"
    using uroot_difference [OF assms(1) _ assms(2)] by (intro sum.cong) auto
  also have "\<dots> = (\<Sum>j < n. if j = l then x l * of_nat n else 0)" by (intro sum.cong) auto
  also have "\<dots> = x l * of_nat n" using assms by simp
  finally show ?thesis using assms(1) by (simp add: idft_def)
qed

section \<open>Splitting a transform\<close>

lemma sum_residues:
  fixes f :: "nat \<Rightarrow> complex"
  shows "(\<Sum>v < r * p. f v) = (\<Sum>t < r. \<Sum>u < p. f (t + u * r))"
proof (induction p)
  case (Suc p)
  have "(\<Sum>v < r * Suc p. f v) = (\<Sum>v < r * p. f v) + (\<Sum>t < r. f (t + p * r))"
    using sum.nat_group [of f r p] sum.nat_group [of f r "Suc p"]
    by (simp add: mult.commute sum.shift_bounds_nat_ivl [of f 0 "p * r" r, simplified, symmetric] lessThan_atLeast0 add.commute)
  then show ?case using Suc by (simp add: sum.distrib)
qed simp

text \<open>The transform of size \<open>p\<close> of every \<open>n div p\<close>-th element from \<open>b\<close> on.\<close>

definition sub_dft :: "nat \<Rightarrow> nat \<Rightarrow> (nat \<Rightarrow> complex) \<Rightarrow> nat \<Rightarrow> nat \<Rightarrow> complex" where
  "sub_dft n p x b k = (\<Sum>u < p. x (b + u * (n div p)) * uroot p ^ (u * k))"

lemma sub_dft_one: "sub_dft n 1 x b k = x b"
  by (simp add: sub_dft_def uroot_def)

lemma sub_dft_all: "0 < n \<Longrightarrow> sub_dft n n x 0 k = dft n x k"
  by (simp add: sub_dft_def dft_def)

theorem sub_dft_split:
  assumes n: "n = r * p * q" and pos: "0 < r" "0 < p" "0 < q"
  shows "sub_dft n (r * p) x b (k + s * p) = (\<Sum>t < r. uroot r ^ (t * s) * (uroot (r * p) ^ (t * k) * sub_dft n p x (b + t * q) k))"
proof -
  have d: "n div (r * p) = q" "n div p = r * q" using pos by (simp_all add: n)
  have w: "uroot (r * p) ^ ((t + u * r) * (k + s * p)) = uroot r ^ (t * s) * (uroot (r * p) ^ (t * k) * uroot p ^ (u * k))" for t u
  proof -
    have e: "(t + u * r) * (k + s * p) = p * (t * s) + t * k + r * (u * k) + r * p * (u * s)" by (simp add: algebra_simps)
    have "uroot (r * p) ^ (p * (t * s)) = uroot r ^ (t * s)" "uroot (r * p) ^ (r * (u * k)) = uroot p ^ (u * k)"
      using uroot_mult [OF pos(1), of p] uroot_mult [OF pos(2), of r] by (simp_all only: power_mult mult.commute [of r p])
    moreover have "uroot (r * p) ^ (r * p * (u * s)) = 1" using pos by (intro uroot_pow_multiple) simp
    ultimately show ?thesis unfolding e power_add by simp
  qed
  have "sub_dft n (r * p) x b (k + s * p) = (\<Sum>t < r. \<Sum>u < p. x (b + (t + u * r) * q) * uroot (r * p) ^ ((t + u * r) * (k + s * p)))"
    unfolding sub_dft_def d sum_residues ..
  also have "\<dots> = (\<Sum>t < r. \<Sum>u < p. uroot r ^ (t * s) * (uroot (r * p) ^ (t * k) * (x (b + t * q + u * (r * q)) * uroot p ^ (u * k))))"
    unfolding w by (intro sum.cong) (simp_all add: algebra_simps)
  finally show ?thesis by (simp add: sub_dft_def d sum_distrib_left)
qed

corollary dft_four_step:
  assumes "0 < l1" "0 < l2"
  shows "dft (l1 * l2) x (k1 + k2 * l1) =
    dft l2 (\<lambda>j. uroot (l1 * l2) ^ (j * k1) * dft l1 (\<lambda>i. x (j + i * l2)) k1) k2"
proof -
  have "sub_dft (l2 * l1) (l2 * l1) x 0 (k1 + k2 * l1) =
      (\<Sum>t < l2. uroot l2 ^ (t * k2) * (uroot (l2 * l1) ^ (t * k1) * sub_dft (l2 * l1) l1 x (0 + t * 1) k1))"
    using assms by (intro sub_dft_split) simp_all
  then show ?thesis using assms by (simp add: sub_dft_all mult.commute [of l1 l2]) (simp add: dft_def sub_dft_def mult.commute)
qed

section \<open>Circular convolution\<close>

definition circular :: "nat \<Rightarrow> (nat \<Rightarrow> complex) \<Rightarrow> (nat \<Rightarrow> complex) \<Rightarrow> nat \<Rightarrow> complex" where
  "circular n a h m = (\<Sum>j < n. a j * h ((m + n - j) mod n))"

lemma rotate_sum:
  fixes f :: "nat \<Rightarrow> complex"
  assumes "0 < n" "j < n"
  shows "(\<Sum>m < n. f ((m + n - j) mod n)) = (\<Sum>m < n. f m)"
proof (rule sum.reindex_bij_witness [where i = "\<lambda>m. (m + j) mod n" and j = "\<lambda>m. (m + n - j) mod n"])
  fix m assume m: "m \<in> {..<n}"
  have "(m + n - j) mod n + j = (if j \<le> m then m else m + n)" using m assms by (auto simp: mod_if)
  then show "((m + n - j) mod n + j) mod n = m" using m by simp
  have "((m + j) mod n + n - j) mod n = (m + j + n - j) mod n"
    using assms by (metis Nat.add_diff_assoc less_imp_le mod_add_left_eq)
  then show "((m + j) mod n + n - j) mod n = m" using m by simp
qed (use assms in auto)

theorem dft_circular:
  assumes n: "0 < n"
  shows "dft n (circular n a h) k = dft n a k * dft n h k"
proof -
  have "(\<Sum>m < n. h ((m + n - j) mod n) * uroot n ^ (m * k)) = uroot n ^ (j * k) * dft n h k" if j: "j < n" for j
  proof -
    have "uroot n ^ (m * k) = uroot n ^ (j * k) * uroot n ^ (((m + n - j) mod n) * k)" if m: "m < n" for m
    proof -
      have "(j + (m + n - j) mod n) = (if j \<le> m then m else m + n)" using m j by (auto simp: mod_if)
      then have "uroot n ^ (j + (m + n - j) mod n) = uroot n ^ m" using n by (simp add: power_add)
      then show ?thesis by (simp only: power_mult power_add [symmetric] power_mult_distrib [symmetric])
    qed
    then have "(\<Sum>m < n. h ((m + n - j) mod n) * uroot n ^ (m * k)) =
        (\<Sum>m < n. uroot n ^ (j * k) * (h ((m + n - j) mod n) * uroot n ^ (((m + n - j) mod n) * k)))"
      by (intro sum.cong refl) (simp only: lessThan_iff ac_simps)
    also have "\<dots> = uroot n ^ (j * k) * dft n h k"
      using rotate_sum [OF n j, of "\<lambda>m. h m * uroot n ^ (m * k)"] by (simp add: sum_distrib_left [symmetric] dft_def)
    finally show ?thesis .
  qed
  then have "dft n (circular n a h) k = (\<Sum>j < n. a j * (uroot n ^ (j * k) * dft n h k))"
    unfolding dft_def circular_def sum_distrib_right by (subst sum.swap) (simp add: mult.assoc sum_distrib_left [symmetric])
  then show ?thesis by (simp add: dft_def sum_distrib_right mult.assoc)
qed

corollary circular_by_dft:
  assumes "0 < n" "m < n"
  shows "idft n (\<lambda>k. dft n a k * dft n h k) m = circular n a h m"
proof -
  have "dft n (circular n a h) = (\<lambda>k. dft n a k * dft n h k)" using dft_circular [OF assms(1)] by blast
  then show ?thesis using dft_inverse [OF assms, of "circular n a h"] by simp
qed

section \<open>Bluestein's identity\<close>

definition chirp :: "nat \<Rightarrow> nat \<Rightarrow> complex" where
  "chirp n m = uroot (2 * n) ^ (m * m)"

text \<open>The filter, wrapped around a circle of \<open>M\<close> places.\<close>

definition chirp_filter :: "nat \<Rightarrow> nat \<Rightarrow> nat \<Rightarrow> complex" where
  "chirp_filter n M m = (if m < n then cnj (chirp n m) else if M - n < m \<and> m < M then cnj (chirp n (M - m)) else 0)"

lemma chirp_product:
  assumes "0 < n"
  shows "uroot n ^ (j * k) = chirp n j * chirp n k * cnj (chirp n (if j \<le> k then k - j else j - k))"
proof -
  define d where "d = (if j \<le> k then k - j else j - k)"
  have e: "2 * (j * k) + d * d = j * j + k * k"
  proof (cases "j \<le> k")
    case True
    then obtain c where "k = j + c" using le_Suc_ex by blast
    then show ?thesis by (simp add: d_def algebra_simps)
  next
    case False
    then obtain c where "j = k + c" using le_Suc_ex [of k j] by auto
    then show ?thesis using False by (simp add: d_def algebra_simps)
  qed
  have "uroot n ^ (j * k) * chirp n d = chirp n j * chirp n k"
    using uroot_mult [of 2 n] by (simp add: chirp_def power_add [symmetric] e [symmetric]) (simp add: power_add power_mult)
  moreover have "chirp n d * cnj (chirp n d) = 1" unfolding chirp_def by (rule uroot_cnj)
  ultimately have "uroot n ^ (j * k) * 1 = chirp n j * chirp n k * cnj (chirp n d)" by (metis mult.assoc)
  then show ?thesis by (simp add: d_def)
qed

theorem bluestein_identity:
  assumes n: "0 < n" and M: "2 * n - 1 \<le> M" and k: "k < n"
  shows "chirp n k * circular M (\<lambda>j. if j < n then x j * chirp n j else 0) (chirp_filter n M) k = dft n x k"
proof -
  have nM: "n \<le> M" using M n by linarith
  have h: "chirp_filter n M ((k + M - j) mod M) = cnj (chirp n (if j \<le> k then k - j else j - k))" if j: "j < n" for j
  proof (cases "j \<le> k")
    case True
    then have "(k + M - j) mod M = k - j" using k nM by (simp add: mod_if)
    moreover have "k - j < n" using k by simp
    ultimately show ?thesis using True by (simp add: chirp_filter_def)
  next
    case False
    then have "(k + M - j) mod M = M - (j - k)" "M - (M - (j - k)) = j - k" "\<not> M - (j - k) < n" "M - n < M - (j - k)" "M - (j - k) < M"
      using j k M nM by (auto simp: mod_if)
    then show ?thesis using False by (simp add: chirp_filter_def)
  qed
  have "circular M (\<lambda>j. if j < n then x j * chirp n j else 0) (chirp_filter n M) k =
      (\<Sum>j < n. x j * chirp n j * chirp_filter n M ((k + M - j) mod M))"
    unfolding circular_def using nM by (intro sum.mono_neutral_cong_right) auto
  also have "\<dots> = (\<Sum>j < n. x j * chirp n j * cnj (chirp n (if j \<le> k then k - j else j - k)))"
    by (intro sum.cong refl) (simp only: h lessThan_iff)
  finally show ?thesis
    unfolding dft_def by (simp add: chirp_product [OF n, of _ k] sum_distrib_left ac_simps)
qed

end
