(* ===== verification/Fft_Codelets.thy ===== *)
theory Fft_Codelets
  imports Dft
begin

text \<open>The codelets of \<open>shaders/_fft_radix.metal\<close>, the small transforms inside the kernels of \<open>fft.metal\<close>, over any
  arithmetic of the floats; in exact arithmetic each is the discrete Fourier transform of its size. Each float
  operation of the source is one operation here; under fast math the compiler may contract and reassociate them, which
  changes the rounding and nothing in exact arithmetic.\<close>

section \<open>Arithmetic\<close>

text \<open>The decimal constants of the codelets, by the value they round.\<close>

datatype fft_literal = Sin60 | Sqrt5_4 | Sin72 | Sin36 | Cos45 | Half | Rader1_re | Rader1_im | Rader2_re | Rader2_im | Rader3_im

record 'f real_ops =
  r_add :: "'f \<Rightarrow> 'f \<Rightarrow> 'f"
  r_sub :: "'f \<Rightarrow> 'f \<Rightarrow> 'f"
  r_mul :: "'f \<Rightarrow> 'f \<Rightarrow> 'f"
  r_div :: "'f \<Rightarrow> 'f \<Rightarrow> 'f"
  r_neg :: "'f \<Rightarrow> 'f"
  r_cos :: "'f \<Rightarrow> 'f"
  r_sin :: "'f \<Rightarrow> 'f"
  r_pi :: 'f
  r_nat :: "nat \<Rightarrow> 'f"
  r_lit :: "fft_literal \<Rightarrow> 'f"

type_synonym 'f float2 = "'f \<times> 'f"

definition cadd :: "'f real_ops \<Rightarrow> 'f float2 \<Rightarrow> 'f float2 \<Rightarrow> 'f float2" where
  "cadd R a b = (r_add R (fst a) (fst b), r_add R (snd a) (snd b))"

definition csub :: "'f real_ops \<Rightarrow> 'f float2 \<Rightarrow> 'f float2 \<Rightarrow> 'f float2" where
  "csub R a b = (r_sub R (fst a) (fst b), r_sub R (snd a) (snd b))"

text \<open>A float times a vector, a vector over a float, and the product by components.\<close>

definition scl :: "'f real_ops \<Rightarrow> 'f \<Rightarrow> 'f float2 \<Rightarrow> 'f float2" where
  "scl R s a = (r_mul R s (fst a), r_mul R s (snd a))"

definition over :: "'f real_ops \<Rightarrow> 'f float2 \<Rightarrow> nat \<Rightarrow> 'f float2" where
  "over R a d = (r_div R (fst a) (r_nat R d), r_div R (snd a) (r_nat R d))"

definition by_parts :: "'f real_ops \<Rightarrow> 'f float2 \<Rightarrow> 'f float2 \<Rightarrow> 'f float2" where
  "by_parts R a b = (r_mul R (fst a) (fst b), r_mul R (snd a) (snd b))"

definition turn_left :: "'f real_ops \<Rightarrow> 'f float2 \<Rightarrow> 'f float2" where
  "turn_left R a = (r_neg R (snd a), fst a)"

definition turn_right :: "'f real_ops \<Rightarrow> 'f float2 \<Rightarrow> 'f float2" where
  "turn_right R a = (snd a, r_neg R (fst a))"

definition cmul :: "'f real_ops \<Rightarrow> 'f float2 \<Rightarrow> 'f float2 \<Rightarrow> 'f float2" where
  "cmul R a b = (r_sub R (r_mul R (fst a) (fst b)) (r_mul R (snd a) (snd b)),
     r_add R (r_mul R (fst a) (snd b)) (r_mul R (snd a) (fst b)))"

definition cmulconj :: "'f real_ops \<Rightarrow> 'f float2 \<Rightarrow> 'f float2 \<Rightarrow> 'f float2" where
  "cmulconj R a b = (r_sub R (r_mul R (fst a) (fst b)) (r_mul R (snd a) (snd b)),
     r_sub R (r_mul R (r_neg R (fst a)) (snd b)) (r_mul R (snd a) (fst b)))"

definition twiddle :: "'f real_ops \<Rightarrow> nat \<Rightarrow> nat \<Rightarrow> bool \<Rightarrow> 'f float2" where
  "twiddle R k p invd =
     (let two = r_nat R 2;
          theta = r_div R (r_mul R (r_mul R (if invd then two else r_neg R two) (r_nat R k)) (r_pi R)) (r_nat R p)
      in (r_cos R theta, r_sin R theta))"

section \<open>Codelets\<close>

definition radix2 :: "'f real_ops \<Rightarrow> 'f float2 list \<Rightarrow> 'f float2 list" where
  "radix2 R x = [cadd R (x ! 0) (x ! 1), csub R (x ! 0) (x ! 1)]"

definition radix3 :: "'f real_ops \<Rightarrow> 'f float2 list \<Rightarrow> 'f float2 list" where
  "radix3 R x =
     (let pi_2_3 = r_neg R (r_lit R Sin60);
          a1 = cadd R (x ! 1) (x ! 2); a2 = csub R (x ! 1) (x ! 2);
          b1 = csub R (x ! 0) (scl R (r_lit R Half) a1); b2 = scl R pi_2_3 a2;
          b2j = turn_left R b2
      in [cadd R (x ! 0) a1, cadd R b1 b2j, csub R b1 b2j])"

definition radix4 :: "'f real_ops \<Rightarrow> 'f float2 list \<Rightarrow> 'f float2 list" where
  "radix4 R x =
     (let z0 = cadd R (x ! 0) (x ! 2); z1 = csub R (x ! 0) (x ! 2); z2 = cadd R (x ! 1) (x ! 3); z3 = csub R (x ! 1) (x ! 3);
          z3i = turn_right R z3
      in [cadd R z0 z2, cadd R z1 z3i, csub R z0 z2, csub R z1 z3i])"

definition radix5 :: "'f real_ops \<Rightarrow> 'f float2 list \<Rightarrow> 'f float2 list" where
  "radix5 R x =
     (let a1 = cadd R (x ! 1) (x ! 4); a2 = cadd R (x ! 2) (x ! 3); a3 = csub R (x ! 1) (x ! 4); a4 = csub R (x ! 2) (x ! 3);
          a5 = cadd R a1 a2; a6 = scl R (r_lit R Sqrt5_4) (csub R a1 a2);
          a7 = csub R (x ! 0) (over R a5 4); a8 = cadd R a7 a6; a9 = csub R a7 a6;
          a10 = cadd R (scl R (r_lit R Sin72) a3) (scl R (r_lit R Sin36) a4);
          a11 = csub R (scl R (r_lit R Sin36) a3) (scl R (r_lit R Sin72) a4);
          a10j = turn_right R a10; a11j = turn_right R a11
      in [cadd R (x ! 0) a5, cadd R a8 a10j, cadd R a9 a11j, csub R a9 a11j, csub R a8 a10j])"

definition radix6 :: "'f real_ops \<Rightarrow> 'f float2 list \<Rightarrow> 'f float2 list" where
  "radix6 R x =
     (let a1 = cadd R (x ! 2) (x ! 4); a2 = csub R (x ! 0) (over R a1 2); a3 = scl R (r_lit R Sin60) (csub R (x ! 2) (x ! 4));
          a4 = cadd R (x ! 5) (x ! 1); a5 = csub R (x ! 3) (over R a4 2); a6 = scl R (r_lit R Sin60) (csub R (x ! 5) (x ! 1));
          a7 = cadd R (x ! 0) a1; a3i = turn_right R a3; a6i = turn_right R a6;
          a8 = cadd R a2 a3i; a9 = csub R a2 a3i; a10 = cadd R (x ! 3) a4; a11 = cadd R a5 a6i; a12 = csub R a5 a6i
      in [cadd R a7 a10, csub R a8 a11, cadd R a9 a12, csub R a7 a10, cadd R a8 a11, csub R a9 a12])"

text \<open>The constants of the length-6 codelet inside radix 7 (Rader).\<close>

definition rader_factors :: "'f real_ops \<Rightarrow> 'f float2 list" where
  "rader_factors R =
     [(r_neg R (r_nat R 1), r_nat R 0),
      (r_lit R Rader1_re, r_neg R (r_lit R Rader1_im)),
      (r_lit R Rader2_re, r_neg R (r_lit R Rader2_im)),
      (r_nat R 0, r_neg R (r_lit R Rader3_im)),
      (r_lit R Rader2_re, r_lit R Rader2_im),
      (r_neg R (r_lit R Rader1_re), r_neg R (r_lit R Rader1_im))]"

definition radix7 :: "'f real_ops \<Rightarrow> 'f float2 list \<Rightarrow> 'f float2 list" where
  "radix7 R x =
     (let invd = (r_div R (r_nat R 1) (r_nat R 6), r_div R (r_neg R (r_nat R 1)) (r_nat R 6));
          y = radix6 R [(x ! 1), (x ! 3), (x ! 2), (x ! 6), (x ! 4), (x ! 5)];
          y0 = cadd R (y ! 0) (x ! 0);
          z = radix6 R (map2 (cmulconj R) y (rader_factors R));
          out = map (\<lambda>v. cadd R (by_parts R v invd) (x ! 0)) z
      in [y0, out ! 0, out ! 4, out ! 5, out ! 2, out ! 1, out ! 3])"

definition radix8 :: "'f real_ops \<Rightarrow> 'f float2 list \<Rightarrow> 'f float2 list" where
  "radix8 R x =
     (let w0 = (r_lit R Cos45, r_neg R (r_lit R Cos45));
          w1 = (r_neg R (r_lit R Cos45), r_neg R (r_lit R Cos45));
          e = radix4 R [(x ! 0), (x ! 2), (x ! 4), (x ! 6)]; d = radix4 R [(x ! 1), (x ! 3), (x ! 5), (x ! 7)];
          d1 = cmul R (d ! 1) w0; d2 = turn_right R (d ! 2); d3 = cmul R (d ! 3) w1
      in [cadd R (e ! 0) (d ! 0), cadd R (e ! 1) d1, cadd R (e ! 2) d2, cadd R (e ! 3) d3,
          csub R (e ! 0) (d ! 0), csub R (e ! 1) d1, csub R (e ! 2) d2, csub R (e ! 3) d3])"

definition radix_dispatch :: "'f real_ops \<Rightarrow> nat \<Rightarrow> 'f float2 list \<Rightarrow> 'f float2 list" where
  "radix_dispatch R r x =
     (if r = 2 then radix2 R x else if r = 3 then radix3 R x else if r = 4 then radix4 R x else if r = 5 then radix5 R x
      else if r = 6 then radix6 R x else if r = 7 then radix7 R x else if r = 8 then radix8 R x else [])"

section \<open>Exact arithmetic\<close>

text \<open>The primitive seventh roots in the order of the powers of 5, and their transform of size 6.\<close>

definition rader_root :: "nat \<Rightarrow> complex" where
  "rader_root q = uroot 7 ^ ([1, 5, 4, 6, 2, 3] ! q)"

definition exact_literal :: "fft_literal \<Rightarrow> real" where
  "exact_literal l = (case l of
     Sin60 \<Rightarrow> sin (pi / 3) | Sqrt5_4 \<Rightarrow> (cos (2 * pi / 5) - cos (4 * pi / 5)) / 2 | Sin72 \<Rightarrow> sin (2 * pi / 5) | Sin36 \<Rightarrow> sin (4 * pi / 5)
   | Cos45 \<Rightarrow> cos (pi / 4) | Half \<Rightarrow> 1 / 2
   | Rader1_re \<Rightarrow> Re (dft 6 rader_root 1) | Rader1_im \<Rightarrow> - Im (dft 6 rader_root 1)
   | Rader2_re \<Rightarrow> Re (dft 6 rader_root 2) | Rader2_im \<Rightarrow> - Im (dft 6 rader_root 2)
   | Rader3_im \<Rightarrow> - Im (dft 6 rader_root 3))"

definition exact :: "real real_ops" where
  "exact = \<lparr>r_add = (+), r_sub = (-), r_mul = (*), r_div = (/), r_neg = uminus, r_cos = cos, r_sin = sin, r_pi = pi,
     r_nat = real, r_lit = exact_literal\<rparr>"

definition cx :: "real float2 \<Rightarrow> complex" where
  "cx a = Complex (fst a) (snd a)"

lemma exact_ops [simp]:
  "r_add exact = (+)" "r_sub exact = (-)" "r_mul exact = (*)" "r_div exact = (/)" "r_neg exact = uminus"
  "r_cos exact = cos" "r_sin exact = sin" "r_pi exact = pi" "r_nat exact = real" "r_lit exact = exact_literal"
  by (simp_all add: exact_def)

lemma cx_simps:
  "cx (cadd exact a b) = cx a + cx b" "cx (csub exact a b) = cx a - cx b" "cx (scl exact s a) = of_real s * cx a"
  "cx (over exact a d) = cx a / of_nat d" "cx (turn_left exact a) = \<i> * cx a" "cx (turn_right exact a) = - \<i> * cx a"
  "cx (cmul exact a b) = cx a * cx b" "cx (cmulconj exact a b) = cnj (cx a * cx b)"
  by (simp_all add: cx_def cadd_def csub_def scl_def over_def turn_left_def turn_right_def cmul_def cmulconj_def complex_eq_iff)

lemma cx_twiddle: "cx (twiddle exact k p invd) = (if invd then cnj (uroot p ^ k) else uroot p ^ k)"
  by (simp add: cx_def twiddle_def Let_def uroot_power complex_eq_iff ac_simps)

section \<open>The codelets are small transforms\<close>

text \<open>The powers of a root as one symbol, with exponents reduced.\<close>

definition wp :: "nat \<Rightarrow> nat \<Rightarrow> complex" where
  "wp n k = uroot n ^ k"

lemma dft_wp: "dft n x k = (\<Sum>j < n. x j * wp n (j * k))"
  by (simp add: dft_def wp_def)

lemma wp_0 [simp]: "wp n 0 = 1"
  by (simp add: wp_def)

lemma wp_reduce: "0 < n \<Longrightarrow> n \<le> k \<Longrightarrow> wp n k = wp n (k - n)"
  unfolding wp_def by (metis le_add_diff_inverse mult_1 power_add uroot_pow_self)

lemma wp_two: "wp n (Suc (Suc 0)) = wp n 2"
  by (simp only: numeral_2_eq_2)

text \<open>Powers on opposite sides of the real axis, and a half turn apart.\<close>

lemma wp_opposite: "0 < n \<Longrightarrow> k \<le> n \<Longrightarrow> wp n (n - k) = cnj (wp n k)"
proof -
  assume n: "0 < n" "k \<le> n"
  have "wp n k * wp n (n - k) = 1" using n by (simp add: wp_def power_add [symmetric])
  moreover have "wp n k * cnj (wp n k) = 1" unfolding wp_def by (rule uroot_cnj)
  ultimately show ?thesis by (metis mult.commute mult.left_commute mult.right_neutral)
qed

lemma wp_value: "wp n k = Complex (cos (2 * pi * real k / real n)) (- sin (2 * pi * real k / real n))"
  by (simp add: wp_def uroot_power complex_eq_iff)

lemma wp2: "wp 2 (Suc 0) = - 1"
  by (simp add: wp_value complex_eq_iff)

lemma angle_60: "cos (pi - pi / 3) = - 1 / 2" "sin (pi - pi / 3) = sin (pi / 3)"
  by (simp_all only: cos_pi_minus sin_pi_minus) (simp add: cos_60)

lemma wp3: "wp 3 (Suc 0) = Complex (- 1 / 2) (- sin (pi / 3))" "wp 3 2 = Complex (- 1 / 2) (sin (pi / 3))"
proof -
  show one: "wp 3 (Suc 0) = Complex (- 1 / 2) (- sin (pi / 3))"
    using angle_60 by (simp add: wp_value)
  show "wp 3 2 = Complex (- 1 / 2) (sin (pi / 3))" using wp_opposite [of 3 1] one by (simp add: complex_eq_iff)
qed

lemma wp4: "wp 4 (Suc 0) = - \<i>" "wp 4 2 = - 1" "wp 4 3 = \<i>"
proof -
  show one: "wp 4 (Suc 0) = - \<i>" by (simp add: wp_value complex_eq_iff)
  show "wp 4 2 = - 1" by (simp add: wp_value complex_eq_iff)
  show "wp 4 3 = \<i>" using wp_opposite [of 4 1] one by simp
qed

lemma wp5:
  "wp 5 (Suc 0) = Complex (cos (2 * pi / 5)) (- sin (2 * pi / 5))" "wp 5 2 = Complex (cos (4 * pi / 5)) (- sin (4 * pi / 5))"
  "wp 5 3 = Complex (cos (4 * pi / 5)) (sin (4 * pi / 5))" "wp 5 4 = Complex (cos (2 * pi / 5)) (sin (2 * pi / 5))"
proof -
  show one: "wp 5 (Suc 0) = Complex (cos (2 * pi / 5)) (- sin (2 * pi / 5))"
    and two: "wp 5 2 = Complex (cos (4 * pi / 5)) (- sin (4 * pi / 5))" by (simp_all add: wp_value)
  show "wp 5 3 = Complex (cos (4 * pi / 5)) (sin (4 * pi / 5))" "wp 5 4 = Complex (cos (2 * pi / 5)) (sin (2 * pi / 5))"
    using wp_opposite [of 5 1] wp_opposite [of 5 2] one two by (simp_all add: complex_eq_iff)
qed

lemma wp6:
  "wp 6 (Suc 0) = Complex (1 / 2) (- sin (pi / 3))" "wp 6 2 = Complex (- 1 / 2) (- sin (pi / 3))" "wp 6 3 = - 1"
  "wp 6 4 = Complex (- 1 / 2) (sin (pi / 3))" "wp 6 5 = Complex (1 / 2) (sin (pi / 3))"
proof -
  show one: "wp 6 (Suc 0) = Complex (1 / 2) (- sin (pi / 3))" by (simp add: wp_value cos_60)
  show two: "wp 6 2 = Complex (- 1 / 2) (- sin (pi / 3))" using angle_60 by (simp add: wp_value)
  show "wp 6 3 = - 1" by (simp add: wp_value complex_eq_iff)
  show "wp 6 4 = Complex (- 1 / 2) (sin (pi / 3))" "wp 6 5 = Complex (1 / 2) (sin (pi / 3))"
    using wp_opposite [of 6 1] wp_opposite [of 6 2] one two by (simp_all add: complex_eq_iff)
qed

lemma sum_2: "(\<Sum>j < 2. f j) = f 0 + f (1 :: nat)" by (simp add: numeral_2_eq_2)
lemma sum_3: "(\<Sum>j < 3. f j) = f 0 + f 1 + f (2 :: nat)" by (simp add: eval_nat_numeral)
lemma sum_4: "(\<Sum>j < 4. f j) = f 0 + f 1 + f 2 + f (3 :: nat)" by (simp add: eval_nat_numeral)
lemma sum_5: "(\<Sum>j < 5. f j) = f 0 + f 1 + f 2 + f 3 + f (4 :: nat)" by (simp add: eval_nat_numeral)
lemma sum_6: "(\<Sum>j < 6. f j) = f 0 + f 1 + f 2 + f 3 + f 4 + f (5 :: nat)" by (simp add: eval_nat_numeral)
lemma sum_7: "(\<Sum>j < 7. f j) = f 0 + f 1 + f 2 + f 3 + f 4 + f 5 + f (6 :: nat)" by (simp add: eval_nat_numeral)
lemma sum_8: "(\<Sum>j < 8. f j) = f 0 + f 1 + f 2 + f 3 + f 4 + f 5 + f 6 + f (7 :: nat)" by (simp add: eval_nat_numeral)

lemma below_2: "k < 2 \<longleftrightarrow> k = 0 \<or> k = (1 :: nat)" by linarith
lemma below_3: "k < 3 \<longleftrightarrow> k = 0 \<or> k = 1 \<or> k = (2 :: nat)" by linarith
lemma below_4: "k < 4 \<longleftrightarrow> k = 0 \<or> k = 1 \<or> k = 2 \<or> k = (3 :: nat)" by linarith
lemma below_5: "k < 5 \<longleftrightarrow> k = 0 \<or> k = 1 \<or> k = 2 \<or> k = 3 \<or> k = (4 :: nat)" by linarith
lemma below_6: "k < 6 \<longleftrightarrow> k = 0 \<or> k = 1 \<or> k = 2 \<or> k = 3 \<or> k = 4 \<or> k = (5 :: nat)" by linarith
lemma below_7: "k < 7 \<longleftrightarrow> k = 0 \<or> k = 1 \<or> k = 2 \<or> k = 3 \<or> k = 4 \<or> k = 5 \<or> k = (6 :: nat)" by linarith
lemma below_8: "k < 8 \<longleftrightarrow> k = 0 \<or> k = 1 \<or> k = 2 \<or> k = 3 \<or> k = 4 \<or> k = 5 \<or> k = 6 \<or> k = (7 :: nat)" by linarith

lemmas codelet_simps = Let_def cx_simps dft_wp wp_reduce wp_two add_divide_distrib diff_divide_distrib complex_eq_iff algebra_simps

lemma radix2_exact: "k < 2 \<Longrightarrow> cx (radix2 exact x ! k) = dft 2 (\<lambda>j. cx (x ! j)) k"
  unfolding below_2 by (elim disjE) (simp_all add: radix2_def sum_2 wp2 codelet_simps)

lemma radix3_exact: "k < 3 \<Longrightarrow> cx (radix3 exact x ! k) = dft 3 (\<lambda>j. cx (x ! j)) k"
  unfolding below_3 by (elim disjE) (simp_all add: radix3_def sum_3 wp3 codelet_simps exact_literal_def)

lemma radix4_exact: "k < 4 \<Longrightarrow> cx (radix4 exact x ! k) = dft 4 (\<lambda>j. cx (x ! j)) k"
  unfolding below_4 by (elim disjE) (simp_all add: radix4_def sum_4 wp4 codelet_simps)

lemma cos_fifths: "cos (4 * pi / 5) = - 1 / 2 - cos (2 * pi / 5)"
proof -
  have "(\<Sum>j < 5. wp 5 (j * 1)) = 0" using uroot_sum [of 5 1] by (simp add: wp_def)
  then show ?thesis by (simp add: sum_5 wp5 complex_eq_iff)
qed

lemma radix5_exact: "k < 5 \<Longrightarrow> cx (radix5 exact x ! k) = dft 5 (\<lambda>j. cx (x ! j)) k"
proof -
  define c s1 s2 where c: "c = cos (2 * pi / 5)" "s1 = sin (2 * pi / 5)" "s2 = sin (4 * pi / 5)"
  have l: "exact_literal Sqrt5_4 = c + 1 / 4" "exact_literal Sin72 = s1" "exact_literal Sin36 = s2"
    by (simp_all add: exact_literal_def cos_fifths c)
  have w: "wp 5 (Suc 0) = Complex c (- s1)" "wp 5 2 = Complex (- 1 / 2 - c) (- s2)" "wp 5 3 = Complex (- 1 / 2 - c) s2" "wp 5 4 = Complex c s1"
    by (simp_all add: wp5 cos_fifths c)
  show "k < 5 \<Longrightarrow> cx (radix5 exact x ! k) = dft 5 (\<lambda>j. cx (x ! j)) k"
    unfolding below_5 by (elim disjE) (simp_all add: radix5_def sum_5 codelet_simps w l)
qed

lemma radix6_exact: "k < 6 \<Longrightarrow> cx (radix6 exact x ! k) = dft 6 (\<lambda>j. cx (x ! j)) k"
  unfolding below_6 by (elim disjE) (simp_all add: radix6_def sum_6 wp6 codelet_simps exact_literal_def)

lemma wp8:
  "wp 8 (Suc 0) = Complex (cos (pi / 4)) (- cos (pi / 4))" "wp 8 2 = - \<i>" "wp 8 3 = Complex (- cos (pi / 4)) (- cos (pi / 4))"
  "wp 8 4 = - 1" "wp 8 5 = Complex (- cos (pi / 4)) (cos (pi / 4))" "wp 8 6 = \<i>" "wp 8 7 = Complex (cos (pi / 4)) (cos (pi / 4))"
proof -
  have sc: "sin (pi / 4) = cos (pi / 4)" by (simp add: sin_45 cos_45)
  have "cos (pi - pi / 4) = - cos (pi / 4)" "sin (pi - pi / 4) = sin (pi / 4)" by (simp_all only: cos_pi_minus sin_pi_minus)
  then have t: "cos (2 * pi * 3 / 8) = - cos (pi / 4)" "sin (2 * pi * 3 / 8) = cos (pi / 4)" by (simp_all add: sc)
  show v: "wp 8 (Suc 0) = Complex (cos (pi / 4)) (- cos (pi / 4))" "wp 8 2 = - \<i>" "wp 8 3 = Complex (- cos (pi / 4)) (- cos (pi / 4))" "wp 8 4 = - 1"
    using t by (simp_all add: wp_value sc complex_eq_iff)
  show "wp 8 5 = Complex (- cos (pi / 4)) (cos (pi / 4))" "wp 8 6 = \<i>" "wp 8 7 = Complex (cos (pi / 4)) (cos (pi / 4))"
    using wp_opposite [of 8 1] wp_opposite [of 8 2] wp_opposite [of 8 3] v by (simp_all add: complex_eq_iff)
qed

lemma radix8_exact: "k < 8 \<Longrightarrow> cx (radix8 exact x ! k) = dft 8 (\<lambda>j. cx (x ! j)) k"
proof -
  define c where c: "c = cos (pi / 4)"
  have cc: "c * c = 1 / 2" by (simp add: c cos_45)
  have e: "cx (radix4 exact x ! k) = dft 4 (\<lambda>j. cx (x ! j)) k" if "k < 4" for k and x :: "real float2 list" by (rule radix4_exact [OF that])
  have l: "exact_literal Cos45 = c" by (simp add: exact_literal_def c)
  have w: "cx (c, - c) = Complex c (- c)" "cx (- c, - c) = Complex (- c) (- c)" by (simp_all add: cx_def)
  show "k < 8 \<Longrightarrow> cx (radix8 exact x ! k) = dft 8 (\<lambda>j. cx (x ! j)) k"
    unfolding below_8
    by (elim disjE) (simp_all add: radix8_def sum_8 sum_4 codelet_simps wp8 [folded c] wp4 l w e)
qed

text \<open>Radix 7: the constants are the transform of the roots, and the two transforms of size 6 make a circular convolution.\<close>

lemma wp7_opposite: "wp 7 6 = cnj (wp 7 1)" "wp 7 5 = cnj (wp 7 2)" "wp 7 4 = cnj (wp 7 3)"
  using wp_opposite [of 7 1] wp_opposite [of 7 2] wp_opposite [of 7 3] by simp_all

lemma rader_root_wp: "q < 6 \<Longrightarrow> rader_root q = wp 7 ([1, 5, 4, 6, 2, 3] ! q)"
  by (simp add: rader_root_def wp_def)

lemma rader_factors_exact: "k < 6 \<Longrightarrow> cx (rader_factors exact ! k) = dft 6 rader_root k"
proof -
  define w1 w2 w3 where w: "w1 = wp 7 1" "w2 = wp 7 2" "w3 = wp 7 3"
  have "(\<Sum>j < 7. wp 7 (j * 1)) = 0" using uroot_sum [of 7 1] by (simp add: wp_def)
  then have "1 + w1 + w2 + w3 + cnj w3 + cnj w2 + cnj w1 = 0" by (simp add: sum_7 w wp7_opposite)
  then have re: "Re w1 = - 1 / 2 - Re w2 - Re w3" by (simp add: complex_eq_iff)
  have r: "rader_root 0 = w1" "rader_root (Suc 0) = cnj w2" "rader_root 2 = cnj w3" "rader_root 3 = cnj w1" "rader_root 4 = w2" "rader_root 5 = w3"
    by (simp_all add: rader_root_wp w wp7_opposite)
  show "k < 6 \<Longrightarrow> cx (rader_factors exact ! k) = dft 6 rader_root k"
    unfolding below_6
    by (elim disjE) (simp_all add: rader_factors_def cx_def exact_literal_def dft_wp sum_6 wp6 wp_reduce wp_two r re complex_eq_iff algebra_simps)
qed

lemma radix_lengths [simp]:
  "length (radix2 R x) = 2" "length (radix3 R x) = 3" "length (radix4 R x) = 4" "length (radix5 R x) = 5" "length (radix6 R x) = 6"
  "length (radix7 R x) = 7" "length (radix8 R x) = 8" "length (rader_factors R) = 6"
  by (simp_all add: radix2_def radix3_def radix4_def radix5_def radix6_def radix7_def radix8_def rader_factors_def Let_def)

lemma rader_convolution:
  fixes a :: "real float2 list"
  assumes s: "s < 6"
  defines "z \<equiv> radix6 exact (map2 (cmulconj exact) (radix6 exact a) (rader_factors exact))"
  shows "cx (by_parts exact (z ! s) (1 / 6, - 1 / 6)) = circular 6 (\<lambda>j. cx (a ! j)) rader_root s"
proof -
  let ?A = "dft 6 (\<lambda>j. cx (a ! j))" and ?B = "dft 6 rader_root"
  have m: "cx (map2 (cmulconj exact) (radix6 exact a) (rader_factors exact) ! k) = cnj (?A k * ?B k)" if "k < 6" for k
    using that by (simp add: cx_simps radix6_exact rader_factors_exact)
  have "cx (z ! s) = dft 6 (\<lambda>k. cnj (?A k * ?B k)) s"
    unfolding z_def radix6_exact [OF s] by (rule dft_cong) (rule m)
  then have "cx (z ! s) = 6 * cnj (idft 6 (\<lambda>k. ?A k * ?B k) s)" by (simp add: idft_by_dft)
  also have "idft 6 (\<lambda>k. ?A k * ?B k) s = circular 6 (\<lambda>j. cx (a ! j)) rader_root s" by (rule circular_by_dft) (use s in simp_all)
  finally have "cx (z ! s) = 6 * cnj (circular 6 (\<lambda>j. cx (a ! j)) rader_root s)" .
  then show ?thesis by (simp add: cx_def by_parts_def complex_eq_iff)
qed

lemma radix7_exact: "k < 7 \<Longrightarrow> cx (radix7 exact x ! k) = dft 7 (\<lambda>j. cx (x ! j)) k"
proof -
  define a where a: "a = [x ! 1, x ! 3, x ! 2, x ! 6, x ! 4, x ! 5]"
  define z where z: "z = radix6 exact (map2 (cmulconj exact) (radix6 exact a) (rader_factors exact))"
  have lz: "length z = 6" by (simp add: z)
  have y: "radix7 exact x = (let out = map (\<lambda>v. cadd exact (by_parts exact v (1 / 6, - 1 / 6)) (x ! 0)) z in
      [cadd exact (radix6 exact a ! 0) (x ! 0), out ! 0, out ! 4, out ! 5, out ! 2, out ! 1, out ! 3])"
    by (simp add: radix7_def Let_def a z)
  have o: "cx (map (\<lambda>v. cadd exact (by_parts exact v (1 / 6, - 1 / 6)) (x ! 0)) z ! s) = circular 6 (\<lambda>j. cx (a ! j)) rader_root s + cx (x ! 0)"
    if "s < 6" for s
    using rader_convolution [OF that, of a, folded z] that by (simp add: lz cx_simps)
  have r: "rader_root 0 = wp 7 1" "rader_root (Suc 0) = wp 7 5" "rader_root 2 = wp 7 4" "rader_root 3 = wp 7 6" "rader_root 4 = wp 7 2" "rader_root 5 = wp 7 3"
    by (simp_all add: rader_root_wp)
  have c: "circular 6 (\<lambda>j. cx (a ! j)) rader_root s + cx (x ! 0) = dft 7 (\<lambda>j. cx (x ! j)) ([1, 5, 4, 6, 2, 3] ! s)" if "s < 6" for s
    using that unfolding below_6
    by (elim disjE) (simp_all add: circular_def sum_6 dft_wp sum_7 wp_reduce wp_two a r)
  define out where out: "out = map (\<lambda>v. cadd exact (by_parts exact v (1 / 6, - 1 / 6)) (x ! 0)) z"
  have oc: "cx (out ! s) = dft 7 (\<lambda>j. cx (x ! j)) ([1, 5, 4, 6, 2, 3] ! s)" if "s < 6" for s
    using o [OF that] c [OF that] unfolding out by simp
  have "cx (radix6 exact a ! 0) + cx (x ! 0) = dft 7 (\<lambda>j. cx (x ! j)) 0"
    by (simp add: radix6_exact dft_wp sum_6 sum_7 a)
  then show "k < 7 \<Longrightarrow> cx (radix7 exact x ! k) = dft 7 (\<lambda>j. cx (x ! j)) k"
    unfolding below_7 y Let_def out [symmetric]
    using oc [of 0] oc [of 1] oc [of 2] oc [of 3] oc [of 4] oc [of 5]
    by (elim disjE) (simp_all add: cx_simps)
qed

theorem radix_dispatch_exact:
  assumes "2 \<le> r" "r \<le> 8" "k < r"
  shows "length (radix_dispatch R r x) = r \<and> cx (radix_dispatch exact r y ! k) = dft r (\<lambda>j. cx (y ! j)) k"
proof -
  have "r = 2 \<or> r = 3 \<or> r = 4 \<or> r = 5 \<or> r = 6 \<or> r = 7 \<or> r = 8" using assms by linarith
  then show ?thesis
    using assms(3) by (elim disjE) (simp_all add: radix_dispatch_def radix2_exact radix3_exact radix4_exact radix5_exact radix6_exact radix7_exact radix8_exact)
qed

end
