(* ===== verification/Fft_Kernels.thy ===== *)
theory Fft_Kernels
  imports Device_Arrays Fft_Codelets "HOL-Library.Word"
begin

unbundle bit_operations_syntax

text \<open>The kernels of \<open>shaders/fft.metal\<close> and what they compute: in any arithmetic a value that does not depend on the
  order of the threads, in exact arithmetic discrete Fourier transforms. A device array of \<open>float2\<close> is a function from
  indices to pairs. Threads of a group run one after the other between two barriers, in any order; index arithmetic stays
  below \<open>2 ^ 31\<close> for every launch of the host and is that of natural numbers.\<close>

section \<open>Threadgroups\<close>

text \<open>The work of a group between two barriers: thread by thread, every thread its strided share of the loop; each turn of
  the loop stores some elements.\<close>

definition group_work :: "nat list \<Rightarrow> nat \<Rightarrow> nat \<Rightarrow> nat list" where
  "group_work tids tg cnt = concat (map (\<lambda>tid. strided tid tg cnt) tids)"

definition put :: "(nat \<Rightarrow> 'a) \<Rightarrow> (nat \<times> 'a) list \<Rightarrow> nat \<Rightarrow> 'a" where
  "put = foldl (\<lambda>s (i, v). s(i := v))"

definition phase :: "nat list \<Rightarrow> nat \<Rightarrow> nat \<Rightarrow> (nat \<Rightarrow> (nat \<times> 'a) list) \<Rightarrow> (nat \<Rightarrow> 'a) \<Rightarrow> nat \<Rightarrow> 'a" where
  "phase tids tg cnt stores s = foldl (\<lambda>s i. put s (stores i)) s (group_work tids tg cnt)"

lemma group_work_set: "set tids = {..<tg} \<Longrightarrow> 0 < tg \<Longrightarrow> set (group_work tids tg cnt) = {..<cnt}"
proof -
  assume t: "set tids = {..<tg}" "0 < tg"
  have "set (group_work ts tg cnt) = {i. i < cnt \<and> i mod tg \<in> set ts}" for ts
    by (induction ts) (auto simp: group_work_def strided_def)
  then show ?thesis using t by auto
qed

lemma group_work_distinct: "distinct tids \<Longrightarrow> distinct (group_work tids tg cnt)"
proof (induction tids)
  case (Cons tid tids)
  have "i \<in> set (group_work ts tg cnt) \<Longrightarrow> i mod tg \<in> set ts" for i ts
    by (induction ts) (auto simp: group_work_def strided_def)
  moreover have "distinct (strided tid tg cnt)" "i \<in> set (strided tid tg cnt) \<Longrightarrow> i mod tg = tid" for i by (simp_all add: strided_def)
  ultimately show ?case using Cons by (fastforce simp: group_work_def)
qed (simp add: group_work_def)

lemma put_eq:
  assumes "\<And>i v. (i, v) \<in> set ws \<Longrightarrow> v = val i"
  shows "put s ws x = (if x \<in> fst ` set ws then val x else s x)"
  using assms
proof (induction ws rule: rev_induct)
  case (snoc e ws)
  then show ?case by (cases e) (auto simp: put_def)
qed (simp add: put_def)

lemma phase_eq:
  assumes t: "set tids = {..<tg}" "0 < tg" and v: "\<And>i a v. i < cnt \<Longrightarrow> (a, v) \<in> set (stores i) \<Longrightarrow> v = val a"
  shows "phase tids tg cnt stores s x = (if \<exists>i < cnt. x \<in> fst ` set (stores i) then val x else s x)"
proof -
  have "foldl (\<lambda>s i. put s (stores i)) s js x = (if \<exists>i \<in> set js. x \<in> fst ` set (stores i) then val x else s x)"
    if "set js \<subseteq> {..<cnt}" for js
    using that
  proof (induction js rule: rev_induct)
    case (snoc j js)
    then have "put s' (stores j) x = (if x \<in> fst ` set (stores j) then val x else s' x)" for s' by (intro put_eq) (auto intro: v)
    with snoc show ?case by auto
  qed simp
  from this [of "group_work tids tg cnt"] show ?thesis by (simp add: phase_def group_work_set [OF t] lessThan_def)
qed

lemma phase_each:
  assumes "set tids = {..<tg}" "0 < tg"
  shows "phase tids tg cnt (\<lambda>i. [(b + i, f i)]) s x = (if b \<le> x \<and> x < b + cnt then f (x - b) else s x)"
proof -
  have "(\<exists>i < cnt. x = b + i) \<longleftrightarrow> b \<le> x \<and> x < b + cnt"
    by (metis add_less_cancel_left le_add1 le_add_diff_inverse)
  then show ?thesis by (subst phase_eq [OF assms, where val = "\<lambda>x. f (x - b)"]) auto
qed

lemma phase_all:
  assumes "set tids = {..<tg}" "0 < tg"
  shows "phase tids tg cnt (\<lambda>i. [(i, f i)]) s x = (if x < cnt then f x else s x)"
  using phase_each [OF assms, of cnt 0 f] by simp

section \<open>The radix-2 transform\<close>

text \<open>A turn of the loop of a stage, the stages, and the result moved back to the first array after an odd number of them.
  \<open>ts\<close> gives the order of the threads after each barrier.\<close>

definition butterfly :: "'f real_ops \<Rightarrow> nat \<Rightarrow> nat \<Rightarrow> bool \<Rightarrow> (nat \<Rightarrow> 'f float2) \<Rightarrow> nat \<Rightarrow> (nat \<times> 'f float2) list" where
  "butterfly R ns lhalf invd src i =
     (let j = i AND (ns - 1); block = i div ns; u = src i; v = cmul R (src (i + lhalf)) (twiddle R j (2 * ns) invd);
          out0 = block * (2 * ns) + j
      in [(out0, cadd R u v), (out0 + ns, csub R u v)])"

definition pow2_stages ::
  "'f real_ops \<Rightarrow> (nat \<Rightarrow> nat list) \<Rightarrow> nat \<Rightarrow> nat \<Rightarrow> bool \<Rightarrow> (nat \<Rightarrow> 'f float2) \<times> (nat \<Rightarrow> 'f float2) \<times> nat \<Rightarrow>
    (nat \<Rightarrow> 'f float2) \<times> (nat \<Rightarrow> 'f float2) \<times> nat" where
  "pow2_stages R ts tg len invd st =
     foldl (\<lambda>(src, dst, s) ns. (phase (ts s) tg (len div 2) (butterfly R ns (len div 2) invd src) dst, src, Suc s)) st (doubling 1 len)"

definition stockham_pow2_tg ::
  "'f real_ops \<Rightarrow> (nat \<Rightarrow> nat list) \<Rightarrow> nat \<Rightarrow> nat \<Rightarrow> (nat \<Rightarrow> 'f float2) \<Rightarrow> (nat \<Rightarrow> 'f float2) \<Rightarrow> nat \<Rightarrow> 'f float2" where
  "stockham_pow2_tg R ts tg len a b =
     (let (src, dst, s) = pow2_stages R ts tg len False (a, b, 1); stages = s - 1 in
      if odd stages then phase (ts s) tg len (\<lambda>i. [(i, src i)]) dst else src)"

text \<open>The number of the store phase at the end of a kernel.\<close>

definition last_phase :: "nat \<Rightarrow> nat" where
  "last_phase len = length (doubling 1 len) + 2"

definition vscale :: "'f real_ops \<Rightarrow> 'f float2 \<Rightarrow> 'f \<Rightarrow> 'f float2" where
  "vscale R v s = (r_mul R (fst v) s, r_mul R (snd v) s)"

definition end_scale :: "'f real_ops \<Rightarrow> nat \<Rightarrow> bool \<Rightarrow> 'f" where
  "end_scale R n invd = (if invd then r_div R (r_nat R 1) (r_nat R n) else r_nat R 1)"

text \<open>The threads of a group and the memory it finds.\<close>

type_synonym 'f group_env = "(nat \<Rightarrow> nat list) \<times> nat \<times> (nat \<Rightarrow> 'f float2) \<times> (nat \<Rightarrow> 'f float2)"

definition fft_stockham_pow2_f32 ::
  "'f real_ops \<Rightarrow> 'f group_env \<Rightarrow> (nat \<Rightarrow> 'f float2) \<Rightarrow> nat \<Rightarrow> bool \<Rightarrow> (nat \<Rightarrow> 'f float2) \<Rightarrow> nat \<Rightarrow> 'f float2" where
  "fft_stockham_pow2_f32 R env src_in n invd out =
     (case env of (ts, tg, a, b) \<Rightarrow>
        let a = phase (ts 0) tg n (\<lambda>i. [(i, src_in i)]) a;
            (src, _, _) = pow2_stages R ts tg n invd (a, b, 1)
        in phase (ts (last_phase n)) tg n (\<lambda>i. [(i, vscale R (src i) (end_scale R n invd))]) out)"

definition fft_stockham_pow2_batched ::
  "'f real_ops \<Rightarrow> 'f group_env \<Rightarrow> nat \<Rightarrow> nat \<Rightarrow> (nat \<Rightarrow> 'f float2) \<Rightarrow> nat \<Rightarrow> 'f float2" where
  "fft_stockham_pow2_batched R env len tgid data =
     (case env of (ts, tg, a, b) \<Rightarrow>
        let base = tgid * len;
            a = phase (ts 0) tg len (\<lambda>i. [(i, data (base + i))]) a;
            a = stockham_pow2_tg R ts tg len a b
        in phase (ts (last_phase len)) tg len (\<lambda>i. [(base + i, a i)]) data)"

definition fft_fourstep_cols ::
  "'f real_ops \<Rightarrow> 'f group_env \<Rightarrow> nat \<Rightarrow> nat \<Rightarrow> nat \<Rightarrow> (nat \<Rightarrow> 'f float2) \<Rightarrow> nat \<Rightarrow> 'f float2" where
  "fft_fourstep_cols R env l1 l2 tgid data =
     (case env of (ts, tg, a, b) \<Rightarrow>
        let s = tgid div l2; col = tgid mod l2; base = s * (l1 * l2) + col;
            a = phase (ts 0) tg l1 (\<lambda>i. [(i, data (base + i * l2))]) a;
            a = stockham_pow2_tg R ts tg l1 a b
        in phase (ts (last_phase l1)) tg l1 (\<lambda>i. [(base + i * l2, a i)]) data)"

section \<open>The mixed-radix transform\<close>

definition gather :: "'f real_ops \<Rightarrow> nat \<Rightarrow> nat \<Rightarrow> nat \<Rightarrow> (nat \<Rightarrow> 'f float2) \<Rightarrow> nat \<Rightarrow> 'f float2 list" where
  "gather R m p r src i =
     map (\<lambda>t. let v = src (i + t * m) in if t \<noteq> 0 then cmul R v (twiddle R (t * (i mod p)) (r * p) False) else v) [0..<r]"

definition mixed_butterfly :: "'f real_ops \<Rightarrow> nat \<Rightarrow> nat \<Rightarrow> nat \<Rightarrow> (nat \<Rightarrow> 'f float2) \<Rightarrow> nat \<Rightarrow> (nat \<times> 'f float2) list" where
  "mixed_butterfly R n p r src i =
     (let m = n div r; k = i mod p; blk = i div p; y = radix_dispatch R r (gather R m p r src i); base = blk * r * p + k
      in map (\<lambda>t. (base + t * p, y ! t)) [0..<r])"

definition mixed_stages ::
  "'f real_ops \<Rightarrow> (nat \<Rightarrow> nat list) \<Rightarrow> nat \<Rightarrow> nat \<Rightarrow> nat list \<Rightarrow> (nat \<Rightarrow> 'f float2) \<times> (nat \<Rightarrow> 'f float2) \<times> nat \<times> nat \<Rightarrow>
    (nat \<Rightarrow> 'f float2) \<times> (nat \<Rightarrow> 'f float2) \<times> nat \<times> nat" where
  "mixed_stages R ts tg n radices st =
     foldl (\<lambda>(src, dst, p, s) r. (phase (ts s) tg (n div r) (mixed_butterfly R n p r src) dst, src, p * r, Suc s)) st radices"

definition conj_if :: "'f real_ops \<Rightarrow> bool \<Rightarrow> 'f float2 \<Rightarrow> 'f float2" where
  "conj_if R invd v = (if invd then (fst v, r_neg R (snd v)) else v)"

definition fft_mixed_radix_f32 ::
  "'f real_ops \<Rightarrow> 'f group_env \<Rightarrow> (nat \<Rightarrow> 'f float2) \<Rightarrow> nat \<Rightarrow> bool \<Rightarrow> nat list \<Rightarrow> (nat \<Rightarrow> 'f float2) \<Rightarrow> nat \<Rightarrow> 'f float2" where
  "fft_mixed_radix_f32 R env src_in n invd radices out =
     (case env of (ts, tg, a, b) \<Rightarrow>
        let a = phase (ts 0) tg n (\<lambda>i. [(i, conj_if R invd (src_in i))]) a;
            (src, _, _, s) = mixed_stages R ts tg n radices (a, b, 1, 1)
        in phase (ts s) tg n (\<lambda>i. [(i, vscale R (conj_if R invd (src i)) (end_scale R n invd))]) out)"

section \<open>What the kernels compute, in any arithmetic and for any order of the threads\<close>

lemma pow2_and: "i AND ((2 :: nat) ^ k - 1) = i mod 2 ^ k"
  using take_bit_eq_mask [of k i] by (simp add: take_bit_eq_mod mask_eq_exp_minus_1)

lemma doubling_pow2: "doubling (2 ^ i) (2 ^ k) = map (\<lambda>j. 2 ^ j) [i..<k]"
proof (induction "k - i" arbitrary: i)
  case 0
  then show ?case by (subst doubling.simps) simp
next
  case (Suc d)
  then have "i < k" by simp
  moreover have "doubling (2 ^ Suc i) (2 ^ k) = map (\<lambda>j. 2 ^ j) [Suc i..<k]" by (rule Suc.hyps(1)) (use Suc.hyps(2) in simp)
  ultimately show ?case by (subst doubling.simps) (simp add: upt_conv_Cons)
qed

definition agree :: "nat \<Rightarrow> (nat \<Rightarrow> 'a) \<Rightarrow> (nat \<Rightarrow> 'a) \<Rightarrow> bool" where
  "agree n f g \<longleftrightarrow> (\<forall>i < n. f i = g i)"

lemma agree_refl [simp]: "agree n f f"
  by (simp add: agree_def)

text \<open>The value at place \<open>x\<close> after a stage.\<close>

definition butter_val :: "'f real_ops \<Rightarrow> nat \<Rightarrow> nat \<Rightarrow> bool \<Rightarrow> (nat \<Rightarrow> 'f float2) \<Rightarrow> nat \<Rightarrow> 'f float2" where
  "butter_val R n ns invd src x =
     (let k = x mod ns; i = x div (2 * ns) * ns + k; u = src i; v = cmul R (src (i + n div 2)) (twiddle R k (2 * ns) invd)
      in if even (x div ns) then cadd R u v else csub R u v)"

definition pow2_val :: "'f real_ops \<Rightarrow> nat \<Rightarrow> bool \<Rightarrow> (nat \<Rightarrow> 'f float2) \<Rightarrow> nat \<Rightarrow> 'f float2" where
  "pow2_val R n invd x = foldl (\<lambda>src ns. butter_val R n ns invd src) x (doubling 1 n)"

definition mixed_val :: "'f real_ops \<Rightarrow> nat \<Rightarrow> nat \<Rightarrow> nat \<Rightarrow> (nat \<Rightarrow> 'f float2) \<Rightarrow> nat \<Rightarrow> 'f float2" where
  "mixed_val R n p r src x = radix_dispatch R r (gather R (n div r) p r src (x div (r * p) * p + x mod p)) ! (x div p mod r)"

definition mixed_fold :: "'f real_ops \<Rightarrow> nat \<Rightarrow> nat list \<Rightarrow> (nat \<Rightarrow> 'f float2) \<Rightarrow> nat \<Rightarrow> nat \<Rightarrow> 'f float2" where
  "mixed_fold R n rs x p = fst (foldl (\<lambda>(src, p) r. (mixed_val R n p r src, p * r)) (x, p) rs)"

text \<open>Places by block, row and column.\<close>

lemma place_parts:
  fixes p r :: nat
  assumes "k < p" "t < r"
  shows "(b * r * p + k + t * p) mod p = k" "(b * r * p + k + t * p) div p mod r = t" "(b * r * p + k + t * p) div (r * p) = b"
proof -
  have e: "b * r * p + k + t * p = k + p * (t + r * b)" by (simp add: algebra_simps)
  have d: "(k + p * (t + r * b)) div p = t + r * b" using assms by (simp add: div_mult_self4)
  show "(b * r * p + k + t * p) mod p = k" "(b * r * p + k + t * p) div p mod r = t" using assms unfolding e by (simp_all only: d) simp_all
  have "(k + p * (t + r * b)) div (r * p) = (k + p * (t + r * b)) div p div r" by (simp add: div_mult2_eq mult.commute [of r])
  then show "(b * r * p + k + t * p) div (r * p) = b" using assms unfolding e d by simp
qed

lemma place_whole:
  fixes p r :: nat
  assumes "0 < p" "0 < r"
  shows "x div (r * p) * r * p + x mod p + x div p mod r * p = x"
proof -
  have "x div (r * p) = x div p div r" by (simp add: div_mult2_eq mult.commute [of r])
  then have "x div (r * p) * r * p + x div p mod r * p = x div p * p"
    by (metis add_mult_distrib div_mult_mod_eq)
  then show ?thesis using div_mult_mod_eq [of x p] by linarith
qed

lemma place_block: "0 < p \<Longrightarrow> x < r * p * q \<Longrightarrow> x div (r * p) * p + x mod p < p * (q :: nat)"
proof -
  assume "0 < p" "x < r * p * q"
  then have "x div (r * p) < q" "x mod p < p" by (simp_all add: less_mult_imp_div_less mult.commute)
  moreover from this have "x div (r * p) * p + x mod p < Suc (x div (r * p)) * p" by simp
  moreover have "Suc (x div (r * p)) * p \<le> q * p" using \<open>x div (r * p) < q\<close> by (intro mult_le_mono1) simp
  ultimately show ?thesis by (simp add: mult.commute)
qed

definition lawful_group :: "'f group_env \<Rightarrow> bool" where
  "lawful_group env \<longleftrightarrow> (case env of (ts, tg, a, b) \<Rightarrow> 0 < tg \<and> (\<forall>s. distinct (ts s) \<and> set (ts s) = {..<tg}))"

lemma butter_phase:
  assumes t: "set tids = {..<tg}" "0 < tg" and ns: "ns = 2 ^ i" and n: "n = 2 * ns * q" and a: "agree n src src'"
  shows "agree n (phase tids tg (n div 2) (butterfly R ns (n div 2) invd src) dst) (butter_val R n ns invd src')"
  unfolding agree_def
proof (intro allI impI)
  fix x assume x: "x < n"
  have pos: "0 < ns" by (simp add: ns)
  have half: "n div 2 = ns * q" by (simp add: n)
  have two: "(\<exists>t < 2. P t) \<longleftrightarrow> P 0 \<or> P 1" for P :: "nat \<Rightarrow> bool" by (metis below_2)
  have mem: "(c, v) \<in> set (butterfly R ns (n div 2) invd src j) \<longleftrightarrow>
      (\<exists>t < 2. c = j div ns * 2 * ns + j mod ns + t * ns \<and>
         v = (let u = src j; w = cmul R (src (j + n div 2)) (twiddle R (j mod ns) (2 * ns) invd) in if t = 0 then cadd R u w else csub R u w))"
    for c v j
    unfolding two butterfly_def Let_def ns pow2_and by (simp add: ac_simps)
  have val: "v = butter_val R n ns invd src' c" if j: "j < n div 2" and m: "(c, v) \<in> set (butterfly R ns (n div 2) invd src j)" for j c v
  proof -
    obtain t where t: "t < 2" "c = j div ns * 2 * ns + j mod ns + t * ns"
      and v: "v = (let u = src j; w = cmul R (src (j + n div 2)) (twiddle R (j mod ns) (2 * ns) invd) in if t = 0 then cadd R u w else csub R u w)"
      using m unfolding mem by blast
    have c: "c mod ns = j mod ns" "c div ns mod 2 = t" "c div (2 * ns) = j div ns"
      unfolding t(2) by (rule place_parts; use pos t in simp)+
    have e: "even (c div ns) \<longleftrightarrow> t = 0" using c(2) by (simp add: even_iff_mod_2_eq_zero)
    have s: "src j = src' j" "src (j + n div 2) = src' (j + n div 2)" using a j by (simp_all add: agree_def)
    show ?thesis unfolding v butter_val_def Let_def c(1,3) e by (simp add: s)
  qed
  have hit: "\<exists>j < n div 2. x \<in> fst ` set (butterfly R ns (n div 2) invd src j)"
  proof (intro exI conjI)
    let ?j = "x div (2 * ns) * ns + x mod ns"
    show "?j < n div 2" unfolding half by (rule place_block) (use pos x n in simp_all)
    have "?j div ns = x div (2 * ns)" "?j mod ns = x mod ns" using pos by simp_all
    then have "(x, let u = src ?j; w = cmul R (src (?j + n div 2)) (twiddle R (?j mod ns) (2 * ns) invd)
        in if x div ns mod 2 = 0 then cadd R u w else csub R u w) \<in> set (butterfly R ns (n div 2) invd src ?j)"
      using place_whole [OF pos, of 2 x] unfolding mem by (intro exI [of _ "x div ns mod 2"]) simp
    then show "x \<in> fst ` set (butterfly R ns (n div 2) invd src ?j)" by force
  qed
  show "phase tids tg (n div 2) (butterfly R ns (n div 2) invd src) dst x = butter_val R n ns invd src' x"
    by (subst phase_eq [OF t, where val = "butter_val R n ns invd src'"]) (use val hit in auto)
qed

lemma pow2_fold:
  assumes t: "\<And>s. set (ts s) = {..<tg}" "0 < tg" and a: "agree n a x"
  shows "(\<And>ns. ns \<in> set nss \<Longrightarrow> (\<exists>i. ns = 2 ^ i) \<and> 2 * ns dvd n) \<Longrightarrow>
    \<exists>src dst. foldl (\<lambda>(src, dst, s) ns. (phase (ts s) tg (n div 2) (butterfly R ns (n div 2) invd src) dst, src, Suc s)) (a, b, k) nss =
      (src, dst, k + length nss) \<and> agree n src (foldl (\<lambda>src ns. butter_val R n ns invd src) x nss)"
proof (induction nss rule: rev_induct)
  case (snoc ns nss)
  obtain i q where "ns = 2 ^ i" "n = 2 * ns * q" using snoc.prems by fastforce
  then show ?case using snoc butter_phase [OF t(1) t(2)] by fastforce
qed (use a in simp)

lemma pow2_stages_val:
  assumes t: "\<And>s. set (ts s) = {..<tg}" "0 < tg" and a: "agree (2 ^ e) a x"
  obtains src dst where "pow2_stages R ts tg (2 ^ e) invd (a, b, 1) = (src, dst, Suc e)" and "agree (2 ^ e) src (pow2_val R (2 ^ e) invd x)"
proof -
  have d: "doubling 1 (2 ^ e) = map (\<lambda>j. 2 ^ j) [0..<e]" using doubling_pow2 [of 0 e] by simp
  have "\<exists>src dst. pow2_stages R ts tg (2 ^ e) invd (a, b, 1) = (src, dst, 1 + length (map (\<lambda>j. (2 :: nat) ^ j) [0..<e])) \<and>
      agree (2 ^ e) src (pow2_val R (2 ^ e) invd x)"
    unfolding pow2_stages_def pow2_val_def d by (rule pow2_fold [OF t a]) (auto simp flip: power_Suc intro!: le_imp_power_dvd)
  then show ?thesis using that by auto
qed

lemma stockham_pow2_tg_val:
  assumes t: "\<And>s. set (ts s) = {..<tg}" "0 < tg" and a: "agree (2 ^ e) a x"
  shows "agree (2 ^ e) (stockham_pow2_tg R ts tg (2 ^ e) a b) (pow2_val R (2 ^ e) False x)"
proof -
  obtain src dst where "pow2_stages R ts tg (2 ^ e) False (a, b, 1) = (src, dst, Suc e)" "agree (2 ^ e) src (pow2_val R (2 ^ e) False x)"
    by (rule pow2_stages_val [OF t a])
  then show ?thesis by (simp add: stockham_pow2_tg_def agree_def phase_all [OF t])
qed

lemma lawful_groupD:
  assumes "lawful_group (ts, tg, a, b)"
  shows "set (ts s) = {..<tg}" and "0 < tg"
  using assms by (simp_all add: lawful_group_def)

theorem fft_stockham_pow2_f32_val:
  assumes "lawful_group env" and "n = 2 ^ e"
  shows "fft_stockham_pow2_f32 R env src_in n invd out x =
    (if x < n then vscale R (pow2_val R n invd src_in x) (end_scale R n invd) else out x)"
proof -
  obtain ts tg a b where env: "env = (ts, tg, a, b)" by (cases env)
  note t = lawful_groupD [OF assms(1) [unfolded env]]
  let ?a = "phase (ts 0) tg n (\<lambda>i. [(i, src_in i)]) a"
  have "agree (2 ^ e) ?a src_in" by (simp add: agree_def phase_all [OF t] assms(2))
  then obtain src dst where "pow2_stages R ts tg (2 ^ e) invd (?a, b, 1) = (src, dst, Suc e)" "agree (2 ^ e) src (pow2_val R (2 ^ e) invd src_in)"
    by (rule pow2_stages_val [OF t])
  then show ?thesis by (simp add: fft_stockham_pow2_f32_def env Let_def assms(2) phase_all [OF t] agree_def)
qed

theorem fft_stockham_pow2_batched_val:
  assumes "lawful_group env" and "len = 2 ^ e"
  shows "fft_stockham_pow2_batched R env len g data x =
    (if x div len = g then pow2_val R len False (\<lambda>i. data (g * len + i)) (x mod len) else data x)"
proof -
  obtain ts tg a b where env: "env = (ts, tg, a, b)" by (cases env)
  note t = lawful_groupD [OF assms(1) [unfolded env]]
  let ?x = "\<lambda>i. data (g * len + i)"
  let ?a = "phase (ts 0) tg len (\<lambda>i. [(i, ?x i)]) a"
  have a: "agree (2 ^ e) ?a ?x" by (simp add: agree_def phase_all [OF t] assms(2))
  have pos: "0 < len" by (simp add: assms(2))
  have range: "g * len \<le> x \<and> x < g * len + len \<longleftrightarrow> x div len = g"
    using pos by (auto simp: div_nat_eqI mult.commute) (use dividend_less_times_div [OF pos, of x] in simp)
  have "x - g * len = x mod len" if "x div len = g" using that by (metis minus_div_mult_eq_mod)
  then show ?thesis
    using stockham_pow2_tg_val [OF t a, where R = R and b = b] pos
    by (simp add: fft_stockham_pow2_batched_def env Let_def phase_each [OF t] range agree_def assms(2) [symmetric])
qed

theorem fft_fourstep_cols_val:
  assumes "lawful_group env" and "l1 = 2 ^ e" and "0 < l2"
  shows "fft_fourstep_cols R env l1 l2 g data x =
    (if x div (l1 * l2) = g div l2 \<and> x mod l2 = g mod l2
     then pow2_val R l1 False (\<lambda>i. data (g div l2 * (l1 * l2) + g mod l2 + i * l2)) (x div l2 mod l1) else data x)"
proof -
  obtain ts tg a b where env: "env = (ts, tg, a, b)" by (cases env)
  note t = lawful_groupD [OF assms(1) [unfolded env]]
  let ?base = "g div l2 * (l1 * l2) + g mod l2"
  let ?x = "\<lambda>i. data (?base + i * l2)"
  let ?a = "phase (ts 0) tg l1 (\<lambda>i. [(i, ?x i)]) a"
  let ?r = "stockham_pow2_tg R ts tg l1 ?a b"
  have "agree (2 ^ e) ?a ?x" by (simp add: agree_def phase_all [OF t] assms(2))
  then have r: "agree l1 ?r (pow2_val R l1 False ?x)" using stockham_pow2_tg_val [OF t, where a = ?a and x = ?x and R = R and b = b] assms(2) by simp
  have pos: "0 < l1" by (simp add: assms(2))
  have parts: "(?base + i * l2) mod l2 = g mod l2" "(?base + i * l2) div l2 mod l1 = i" "(?base + i * l2) div (l1 * l2) = g div l2" if "i < l1" for i
    using place_parts [of "g mod l2" l2 i l1 "g div l2"] that assms(3) by (simp_all add: mult.assoc)
  have hit: "(\<exists>i < l1. x = ?base + i * l2) \<longleftrightarrow> x div (l1 * l2) = g div l2 \<and> x mod l2 = g mod l2"
    using parts place_whole [OF assms(3) pos, of x] pos by (metis mod_less_divisor mult.assoc)
  have "phase (ts (last_phase l1)) tg l1 (\<lambda>i. [(?base + i * l2, ?r i)]) data x =
      (if \<exists>i < l1. x \<in> fst ` set [(?base + i * l2, ?r i)] then pow2_val R l1 False ?x (x div l2 mod l1) else data x)"
    by (rule phase_eq [OF t]) (use r parts(2) in \<open>auto simp: agree_def\<close>)
  then show ?thesis by (simp add: fft_fourstep_cols_def env Let_def hit)
qed

lemma mixed_phase:
  assumes t: "set tids = {..<tg}" "0 < tg" and n: "n = r * p * q" and pos: "0 < r" "0 < p" and a: "agree n src src'"
  shows "agree n (phase tids tg (n div r) (mixed_butterfly R n p r src) dst) (mixed_val R n p r src')"
  unfolding agree_def
proof (intro allI impI)
  fix x assume x: "x < n"
  have m: "n div r = p * q" using pos by (simp add: n mult.assoc)
  have mem: "(c, v) \<in> set (mixed_butterfly R n p r src j) \<longleftrightarrow>
      (\<exists>t < r. c = j div p * r * p + j mod p + t * p \<and> v = radix_dispatch R r (gather R (n div r) p r src j) ! t)" for c v j
    unfolding mixed_butterfly_def Let_def by auto
  have same: "gather R (n div r) p r src j = gather R (n div r) p r src' j" if j: "j < n div r" for j
  proof -
    have b: "j + t * (n div r) < n" if "t < r" for t
    proof -
      have "j + t * (n div r) < Suc t * (n div r)" using j by simp
      also have "\<dots> \<le> r * (n div r)" using that by (intro mult_le_mono1) simp
      finally show ?thesis unfolding m by (simp only: n mult.assoc)
    qed
    from b [of 0] have "j < n" using pos by simp
    then show ?thesis using a b by (auto simp: gather_def agree_def Let_def)
  qed
  have val: "v = mixed_val R n p r src' c" if j: "j < n div r" and mm: "(c, v) \<in> set (mixed_butterfly R n p r src j)" for j c v
  proof -
    obtain t where t: "t < r" "c = j div p * r * p + j mod p + t * p" and v: "v = radix_dispatch R r (gather R (n div r) p r src j) ! t"
      using mm unfolding mem by blast
    have c: "c mod p = j mod p" "c div p mod r = t" "c div (r * p) = j div p"
      unfolding t(2) by (rule place_parts; use pos t in simp)+
    show ?thesis unfolding v mixed_val_def c by (simp add: same [OF j])
  qed
  have hit: "\<exists>j < n div r. x \<in> fst ` set (mixed_butterfly R n p r src j)"
  proof (intro exI conjI)
    let ?j = "x div (r * p) * p + x mod p"
    show "?j < n div r" unfolding m by (rule place_block) (use pos x n in simp_all)
    have "?j div p = x div (r * p)" "?j mod p = x mod p" using pos by simp_all
    then have "(x, radix_dispatch R r (gather R (n div r) p r src ?j) ! (x div p mod r)) \<in> set (mixed_butterfly R n p r src ?j)"
      using place_whole [OF pos(2,1), of x] pos unfolding mem by (intro exI [of _ "x div p mod r"]) simp
    then show "x \<in> fst ` set (mixed_butterfly R n p r src ?j)" by force
  qed
  show "phase tids tg (n div r) (mixed_butterfly R n p r src) dst x = mixed_val R n p r src' x"
    by (subst phase_eq [OF t, where val = "mixed_val R n p r src'"]) (use val hit in auto)
qed

lemma mixed_stages_val:
  assumes t: "\<And>s. set (ts s) = {..<tg}" "0 < tg"
  shows "\<lbrakk>agree n a x; p * prod_list rs dvd n; 0 < p; \<And>r. r \<in> set rs \<Longrightarrow> 0 < r\<rbrakk> \<Longrightarrow>
    \<exists>src dst p' s'. mixed_stages R ts tg n rs (a, b, p, s) = (src, dst, p', s') \<and> agree n src (mixed_fold R n rs x p)"
proof (induction rs arbitrary: a b p s x)
  case (Cons r rs)
  let ?d = "phase (ts s) tg (n div r) (mixed_butterfly R n p r a) b"
  have dv: "p * r * prod_list rs dvd n" using Cons.prems(2) by (simp add: ac_simps)
  then obtain q where "n = p * r * prod_list rs * q" by (elim dvdE)
  then have n: "n = r * p * (prod_list rs * q)" by (simp add: ac_simps)
  have "agree n ?d (mixed_val R n p r x)" using Cons.prems by (intro mixed_phase [OF t n]) simp_all
  then have "\<exists>src dst p' s'. mixed_stages R ts tg n rs (?d, a, p * r, Suc s) = (src, dst, p', s') \<and>
      agree n src (mixed_fold R n rs (mixed_val R n p r x) (p * r))"
    by (rule Cons.IH) (use Cons.prems dv in auto)
  then show ?case by (simp add: mixed_stages_def mixed_fold_def)
qed (simp add: mixed_stages_def mixed_fold_def)

theorem fft_mixed_radix_f32_val:
  assumes "lawful_group env" and "n = prod_list radices" and "\<And>r. r \<in> set radices \<Longrightarrow> 0 < r"
  shows "fft_mixed_radix_f32 R env src_in n invd radices out x =
    (if x < n then vscale R (conj_if R invd (mixed_fold R n radices (\<lambda>i. conj_if R invd (src_in i)) 1 x)) (end_scale R n invd) else out x)"
proof -
  obtain ts tg a b where env: "env = (ts, tg, a, b)" by (cases env)
  note t = lawful_groupD [OF assms(1) [unfolded env]]
  let ?x = "\<lambda>i. conj_if R invd (src_in i)"
  let ?a = "phase (ts 0) tg n (\<lambda>i. [(i, ?x i)]) a"
  have "agree n ?a ?x" by (simp add: agree_def phase_all [OF t])
  then obtain src dst p' s' where "mixed_stages R ts tg n radices (?a, b, 1, 1) = (src, dst, p', s')" "agree n src (mixed_fold R n radices ?x 1)"
    using mixed_stages_val [where ts = ts and tg = tg, OF t, where a = ?a and x = ?x and p = 1 and rs = radices and n = n and s = 1 and R = R and b = b] assms(2,3) by auto
  then show ?thesis by (simp add: fft_mixed_radix_f32_def env Let_def phase_all [OF t] agree_def)
qed

section \<open>Exactness\<close>

text \<open>After stages of total size \<open>p\<close> the array holds the transforms of size \<open>p\<close> of all the subsequences. \<open>V\<close> reads an
  element; the radix-2 kernel for the inverse is read through the conjugate.\<close>

definition transformed :: "('f float2 \<Rightarrow> complex) \<Rightarrow> nat \<Rightarrow> nat \<Rightarrow> (nat \<Rightarrow> complex) \<Rightarrow> (nat \<Rightarrow> 'f float2) \<Rightarrow> bool" where
  "transformed V n p x src \<longleftrightarrow> (\<forall>b < n div p. \<forall>k < p. V (src (b * p + k)) = sub_dft n p x b k)"

lemma transformed_start: "transformed V n 1 (\<lambda>i. V (src i)) src"
  by (simp add: transformed_def sub_dft_one del: One_nat_def)

lemma transformed_end: "transformed V n n x src \<Longrightarrow> k < n \<Longrightarrow> V (src k) = dft n x k"
  unfolding transformed_def by (cases n) (auto simp: sub_dft_all dest!: spec [of _ 0])

lemma transformed_step:
  assumes n: "n = r * p * q" and pos: "0 < r" "0 < p"
    and st: "\<And>b k s. \<lbrakk>b < q; k < p; s < r\<rbrakk> \<Longrightarrow> V (dst (b * r * p + k + s * p)) =
      (\<Sum>t < r. uroot r ^ (t * s) * (uroot (r * p) ^ (t * k) * V (src (b * p + k + t * (p * q)))))"
    and src: "transformed V n p x src"
  shows "transformed V n (r * p) x dst"
  unfolding transformed_def
proof (intro allI impI)
  fix b k assume b: "b < n div (r * p)" and k: "k < r * p"
  then have bq: "b < q" using pos by (simp add: n)
  have q: "0 < q" using bq by simp
  define j s where js: "j = k mod p" "s = k div p"
  have ks: "k = j + s * p" "j < p" "s < r" using pos k by (simp_all add: js less_mult_imp_div_less)
  have np: "n div p = r * q" using pos by (simp add: n)
  have "V (src (b * p + j + t * (p * q))) = sub_dft n p x (b + t * q) j" if "t < r" for t
  proof -
    have "b + t * q < Suc t * q" using bq by simp
    also have "\<dots> \<le> r * q" using that by (intro mult_le_mono1) simp
    finally have "b + t * q < n div p" by (simp add: np)
    then have "V (src ((b + t * q) * p + j)) = sub_dft n p x (b + t * q) j" using src ks(2) by (simp add: transformed_def)
    moreover have "(b + t * q) * p + j = b * p + j + t * (p * q)" by (simp add: algebra_simps)
    ultimately show ?thesis by simp
  qed
  then have "V (dst (b * r * p + j + s * p)) = sub_dft n (r * p) x b (j + s * p)"
    unfolding st [OF bq ks(2,3)] sub_dft_split [OF n pos q] by (intro sum.cong refl) simp
  then show "V (dst (b * (r * p) + k)) = sub_dft n (r * p) x b k" by (simp add: ks(1) ac_simps)
qed

definition seen :: "bool \<Rightarrow> real float2 \<Rightarrow> complex" where
  "seen invd v = (if invd then cnj (cx v) else cx v)"

lemma butter_transformed:
  assumes n: "n = 2 * p * q" and p: "0 < p" and src: "transformed (seen invd) n p x src"
  shows "transformed (seen invd) n (2 * p) x (butter_val exact n p invd src)"
proof (rule transformed_step [OF n _ p _ src])
  fix b k s :: nat assume a: "b < q" "k < p" "s < 2"
  let ?c = "b * 2 * p + k + s * p"
  have c: "?c mod p = k" "?c div p mod 2 = s" "?c div (2 * p) = b" by (rule place_parts; use a in simp)+
  have h: "n div 2 = p * q" by (simp add: n)
  have e: "even (?c div p) \<longleftrightarrow> s = 0" using c(2) by (simp add: even_iff_mod_2_eq_zero)
  have u: "uroot 2 ^ s = (if s = 0 then 1 else - 1)" if "s < 2" for s using that wp2 by (auto simp: below_2 wp_def)
  show "seen invd (butter_val exact n p invd src ?c) =
      (\<Sum>t < 2. uroot 2 ^ (t * s) * (uroot (2 * p) ^ (t * k) * seen invd (src (b * p + k + t * (p * q)))))"
    unfolding butter_val_def Let_def c(1,3) e h
    by (simp add: sum_2 u a seen_def cx_simps cx_twiddle)
qed simp

theorem pow2_val_exact:
  assumes n: "n = 2 ^ e" and k: "k < n"
  shows "seen invd (pow2_val exact n invd x k) = dft n (\<lambda>i. seen invd (x i)) k"
proof -
  have "transformed (seen invd) n (2 ^ j) (\<lambda>i. seen invd (x i)) (foldl (\<lambda>src ns. butter_val exact n ns invd src) x (map (\<lambda>j. 2 ^ j) [0..<j]))"
    if "j \<le> e" for j
    using that
  proof (induction j)
    case 0
    then show ?case using transformed_start [of "seen invd" n x] by simp
  next
    case (Suc j)
    have "n = 2 * 2 ^ j * 2 ^ (e - Suc j)" using Suc.prems by (simp add: n power_add [symmetric] flip: power_Suc)
    then show ?case using Suc butter_transformed [of n "2 ^ j" "2 ^ (e - Suc j)"] by simp
  qed
  from this [of e] have "transformed (seen invd) n n (\<lambda>i. seen invd (x i)) (pow2_val exact n invd x)"
    using doubling_pow2 [of 0 e] by (simp add: pow2_val_def n)
  then show ?thesis using k by (rule transformed_end)
qed

lemma mixed_transformed:
  assumes n: "n = r * p * q" and p: "0 < p" and r: "2 \<le> r" "r \<le> 8" and src: "transformed cx n p x src"
  shows "transformed cx n (r * p) x (mixed_val exact n p r src)"
proof (rule transformed_step [OF n _ p _ src])
  fix b k s assume a: "b < q" "k < p" "s < r"
  let ?c = "b * r * p + k + s * p"
  have c: "?c mod p = k" "?c div p mod r = s" "?c div (r * p) = b" by (rule place_parts; use a in simp)+
  have m: "n div r = p * q" using r by (simp add: n mult.assoc)
  let ?g = "gather exact (p * q) p r src (b * p + k)"
  have g: "cx (?g ! t) = cx (src (b * p + k + t * (p * q))) * uroot (r * p) ^ (t * k)" if "t < r" for t
    using that a by (simp add: gather_def Let_def cx_simps cx_twiddle)
  have "cx (mixed_val exact n p r src ?c) = dft r (\<lambda>t. cx (?g ! t)) s"
    unfolding mixed_val_def c m using radix_dispatch_exact [OF r a(3)] by blast
  also have "\<dots> = (\<Sum>t < r. uroot r ^ (t * s) * (uroot (r * p) ^ (t * k) * cx (src (b * p + k + t * (p * q)))))"
    unfolding dft_def by (intro sum.cong refl) (simp add: g)
  finally show "cx (mixed_val exact n p r src ?c) =
      (\<Sum>t < r. uroot r ^ (t * s) * (uroot (r * p) ^ (t * k) * cx (src (b * p + k + t * (p * q)))))" .
qed (use r in simp)

lemma mixed_fold_transformed:
  "\<lbrakk>p * prod_list rs = n; 0 < p; \<forall>r \<in> set rs. 2 \<le> r \<and> r \<le> 8; transformed cx n p x src\<rbrakk> \<Longrightarrow>
    transformed cx n n x (mixed_fold exact n rs src p)"
proof (induction rs arbitrary: p src)
  case (Cons r rs)
  have n: "n = r * p * prod_list rs" using Cons.prems(1) by (simp add: ac_simps)
  have "transformed cx n (r * p) x (mixed_val exact n p r src)" using Cons.prems by (intro mixed_transformed [OF n]) simp_all
  then have "transformed cx n n x (mixed_fold exact n rs (mixed_val exact n p r src) (r * p))"
    using Cons.prems n by (intro Cons.IH) simp_all
  then show ?case by (simp add: mixed_fold_def mult.commute)
qed (simp add: mixed_fold_def)

theorem mixed_fold_exact:
  assumes "prod_list rs = n" and "\<forall>r \<in> set rs. 2 \<le> r \<and> r \<le> 8" and "k < n"
  shows "cx (mixed_fold exact n rs x 1 k) = dft n (\<lambda>i. cx (x i)) k"
proof (rule transformed_end)
  show "transformed cx n n (\<lambda>i. cx (x i)) (mixed_fold exact n rs x 1)"
    by (rule mixed_fold_transformed [OF _ _ assms(2) transformed_start]) (use assms(1) in simp_all)
qed (rule assms(3))

end
