(* ===== verification/Fft_Pass.thy ===== *)
theory Fft_Pass
  imports Fft_Kernels Command
begin

text \<open>The four-step transform: the grid kernels of \<open>fft.metal\<close>, the planar twins of all kernels, the dispatch of
  \<open>command.rs\<close> and \<open>fft_pass\<close> with its planar twin from \<open>fft.rs\<close>. A pass is first shown to compute a value that depends on
  neither the order of groups and threads nor the layout of the arrays; in exact arithmetic that value is the transform of
  every signal of the batch.\<close>

section \<open>Kernels over a grid\<close>

definition fft_twiddle_mul :: "'f real_ops \<Rightarrow> nat \<Rightarrow> nat \<Rightarrow> nat \<Rightarrow> nat \<Rightarrow> nat \<Rightarrow> (nat \<Rightarrow> 'f float2) \<Rightarrow> nat \<Rightarrow> 'f float2" where
  "fft_twiddle_mul R l2 len batch grid_size gid data =
     foldl (\<lambda>data idx. let loc = idx mod len; i = loc div l2; j = loc mod l2 in
         data(idx := cmul R (data idx) (twiddle R (i * j) len False)))
       data (strided gid grid_size (batch * len))"

definition transposed :: "nat \<Rightarrow> nat \<Rightarrow> nat \<Rightarrow> nat" where
  "transposed l1 l2 idx = (let len = l1 * l2; s = idx div len; loc = idx mod len; i = loc div l2; j = loc mod l2 in s * len + j * l1 + i)"

definition fft_transpose ::
  "nat \<Rightarrow> nat \<Rightarrow> nat \<Rightarrow> nat \<Rightarrow> nat \<Rightarrow> (nat \<Rightarrow> 'f float2) \<Rightarrow> (nat \<Rightarrow> 'f float2) \<Rightarrow> nat \<Rightarrow> 'f float2" where
  "fft_transpose l1 l2 batch grid_size gid src out =
     foldl (\<lambda>out idx. out(transposed l1 l2 idx := src idx)) out (strided gid grid_size (batch * (l1 * l2)))"

definition fft_copy :: "nat \<Rightarrow> nat \<Rightarrow> nat \<Rightarrow> (nat \<Rightarrow> 'f float2) \<Rightarrow> (nat \<Rightarrow> 'f float2) \<Rightarrow> nat \<Rightarrow> 'f float2" where
  "fft_copy cnt grid_size gid src out = foldl (\<lambda>out idx. out(idx := src idx)) out (strided gid grid_size cnt)"

section \<open>Planar twins\<close>

text \<open>Real and imaginary parts in two arrays.\<close>

type_synonym 'f planes = "(nat \<Rightarrow> 'f) \<times> (nat \<Rightarrow> 'f)"

definition joined :: "'f planes \<Rightarrow> nat \<Rightarrow> 'f float2" where
  "joined P i = (fst P i, snd P i)"

definition put_planes :: "'f planes \<Rightarrow> nat \<Rightarrow> 'f float2 \<Rightarrow> 'f planes" where
  "put_planes P i v = ((fst P)(i := fst v), (snd P)(i := snd v))"

definition phase_planes :: "nat list \<Rightarrow> nat \<Rightarrow> nat \<Rightarrow> (nat \<Rightarrow> nat \<times> 'f float2) \<Rightarrow> 'f planes \<Rightarrow> 'f planes" where
  "phase_planes tids tg cnt store P = foldl (\<lambda>P i. case store i of (a, v) \<Rightarrow> put_planes P a v) P (group_work tids tg cnt)"

definition fft_stockham_pow2_batched_planar :: "'f real_ops \<Rightarrow> 'f group_env \<Rightarrow> nat \<Rightarrow> nat \<Rightarrow> 'f planes \<Rightarrow> 'f planes" where
  "fft_stockham_pow2_batched_planar R env len tgid data =
     (case env of (ts, tg, a, b) \<Rightarrow>
        let base = tgid * len;
            a = phase (ts 0) tg len (\<lambda>i. [(i, (fst data (base + i), snd data (base + i)))]) a;
            a = stockham_pow2_tg R ts tg len a b
        in phase_planes (ts (last_phase len)) tg len (\<lambda>i. (base + i, a i)) data)"

definition fft_fourstep_cols_planar :: "'f real_ops \<Rightarrow> 'f group_env \<Rightarrow> nat \<Rightarrow> nat \<Rightarrow> nat \<Rightarrow> 'f planes \<Rightarrow> 'f planes" where
  "fft_fourstep_cols_planar R env l1 l2 tgid data =
     (case env of (ts, tg, a, b) \<Rightarrow>
        let s = tgid div l2; col = tgid mod l2; base = s * (l1 * l2) + col;
            a = phase (ts 0) tg l1 (\<lambda>i. [(i, (fst data (base + i * l2), snd data (base + i * l2)))]) a;
            a = stockham_pow2_tg R ts tg l1 a b
        in phase_planes (ts (last_phase l1)) tg l1 (\<lambda>i. (base + i * l2, a i)) data)"

definition fft_twiddle_mul_planar :: "'f real_ops \<Rightarrow> nat \<Rightarrow> nat \<Rightarrow> nat \<Rightarrow> nat \<Rightarrow> nat \<Rightarrow> 'f planes \<Rightarrow> 'f planes" where
  "fft_twiddle_mul_planar R l2 len batch grid_size gid data =
     foldl (\<lambda>data idx. let loc = idx mod len; i = loc div l2; j = loc mod l2; v = (fst data idx, snd data idx);
                            v = cmul R v (twiddle R (i * j) len False)
                        in put_planes data idx v)
       data (strided gid grid_size (batch * len))"

definition fft_transpose_planar :: "nat \<Rightarrow> nat \<Rightarrow> nat \<Rightarrow> nat \<Rightarrow> nat \<Rightarrow> 'f planes \<Rightarrow> 'f planes \<Rightarrow> 'f planes" where
  "fft_transpose_planar l1 l2 batch grid_size gid src out =
     foldl (\<lambda>out idx. put_planes out (transposed l1 l2 idx) (fst src idx, snd src idx)) out (strided gid grid_size (batch * (l1 * l2)))"

definition fft_copy_planar :: "nat \<Rightarrow> nat \<Rightarrow> nat \<Rightarrow> 'f planes \<Rightarrow> 'f planes \<Rightarrow> 'f planes" where
  "fft_copy_planar cnt grid_size gid src out = foldl (\<lambda>out idx. put_planes out idx (fst src idx, snd src idx)) out (strided gid grid_size cnt)"

definition fft_stockham_pow2_planar_f32 :: "'f real_ops \<Rightarrow> 'f group_env \<Rightarrow> 'f planes \<Rightarrow> nat \<Rightarrow> bool \<Rightarrow> 'f planes \<Rightarrow> 'f planes" where
  "fft_stockham_pow2_planar_f32 R env src_in n invd out =
     (case env of (ts, tg, a, b) \<Rightarrow>
        let a = phase (ts 0) tg n (\<lambda>i. [(i, (fst src_in i, snd src_in i))]) a;
            (src, _, _) = pow2_stages R ts tg n invd (a, b, 1)
        in phase_planes (ts (last_phase n)) tg n (\<lambda>i. (i, vscale R (src i) (end_scale R n invd))) out)"

definition fft_mixed_radix_planar_f32 ::
  "'f real_ops \<Rightarrow> 'f group_env \<Rightarrow> 'f planes \<Rightarrow> nat \<Rightarrow> bool \<Rightarrow> nat list \<Rightarrow> 'f planes \<Rightarrow> 'f planes" where
  "fft_mixed_radix_planar_f32 R env src_in n invd radices out =
     (case env of (ts, tg, a, b) \<Rightarrow>
        let a = phase (ts 0) tg n (\<lambda>i. [(i, conj_if R invd (fst src_in i, snd src_in i))]) a;
            (src, _, _, s) = mixed_stages R ts tg n radices (a, b, 1, 1)
        in phase_planes (ts s) tg n (\<lambda>i. (i, vscale R (conj_if R invd (src i)) (end_scale R n invd))) out)"

text \<open>Every planar kernel is the interleaved one under \<open>joined\<close>.\<close>

lemma foldl_sim: "(\<And>s i. h (f s i) = g (h s) i) \<Longrightarrow> h (foldl f s is) = foldl g (h s) is"
  by (induction "is" arbitrary: s) simp_all

lemma joined_put: "joined (put_planes P i v) = (joined P)(i := v)"
  by (auto simp: joined_def put_planes_def)

lemma joined_phase: "joined (phase_planes tids tg cnt store P) = phase tids tg cnt (\<lambda>i. [store i]) (joined P)"
  unfolding phase_planes_def phase_def by (rule foldl_sim) (simp add: joined_put put_def fun_upd_def split: prod.split)

lemma joined_kernels:
  "joined (fft_stockham_pow2_batched_planar R env len g D) = fft_stockham_pow2_batched R env len g (joined D)"
  "joined (fft_fourstep_cols_planar R env l1 l2 g D) = fft_fourstep_cols R env l1 l2 g (joined D)"
  "joined (fft_twiddle_mul_planar R l2 len batch gs gid D) = fft_twiddle_mul R l2 len batch gs gid (joined D)"
  "joined (fft_transpose_planar l1 l2 batch gs gid S D) = fft_transpose l1 l2 batch gs gid (joined S) (joined D)"
  "joined (fft_copy_planar cnt gs gid S D) = fft_copy cnt gs gid (joined S) (joined D)"
  "joined (fft_stockham_pow2_planar_f32 R env S n invd D) = fft_stockham_pow2_f32 R env (joined S) n invd (joined D)"
  "joined (fft_mixed_radix_planar_f32 R env S n invd rs D) = fft_mixed_radix_f32 R env (joined S) n invd rs (joined D)"
proof -
  have j: "(fst P i, snd P i) = joined P i" for P :: "'a planes" and i by (simp add: joined_def)
  show "joined (fft_stockham_pow2_batched_planar R env len g D) = fft_stockham_pow2_batched R env len g (joined D)"
    "joined (fft_fourstep_cols_planar R env l1 l2 g D) = fft_fourstep_cols R env l1 l2 g (joined D)"
    "joined (fft_stockham_pow2_planar_f32 R env S n invd D) = fft_stockham_pow2_f32 R env (joined S) n invd (joined D)"
    "joined (fft_mixed_radix_planar_f32 R env S n invd rs D) = fft_mixed_radix_f32 R env (joined S) n invd rs (joined D)"
    by (simp_all add: fft_stockham_pow2_batched_planar_def fft_stockham_pow2_batched_def fft_fourstep_cols_planar_def fft_fourstep_cols_def
      fft_stockham_pow2_planar_f32_def fft_stockham_pow2_f32_def fft_mixed_radix_planar_f32_def fft_mixed_radix_f32_def
      Let_def j joined_phase split: prod.split)
  show "joined (fft_twiddle_mul_planar R l2 len batch gs gid D) = fft_twiddle_mul R l2 len batch gs gid (joined D)"
    unfolding fft_twiddle_mul_planar_def fft_twiddle_mul_def by (rule foldl_sim) (simp add: joined_put Let_def j)
  show "joined (fft_transpose_planar l1 l2 batch gs gid S D) = fft_transpose l1 l2 batch gs gid (joined S) (joined D)"
    unfolding fft_transpose_planar_def fft_transpose_def by (rule foldl_sim) (simp add: joined_put j)
  show "joined (fft_copy_planar cnt gs gid S D) = fft_copy cnt gs gid (joined S) (joined D)"
    unfolding fft_copy_planar_def fft_copy_def by (rule foldl_sim) (simp add: joined_put j)
qed

section \<open>Dispatch\<close>

datatype fft_error = FftBuffer buffer_err | FftDispatch dispatch_error | Unsupported int

text \<open>The device: its arithmetic, the widest group of a pipeline, the order of the groups of a grid, of the threads of a
  group after each barrier, the memory a group finds, and which allocations it grants.\<close>

record 'f fft_device =
  arith :: "'f real_ops"
  max_threads :: "string \<Rightarrow> nat"
  group_order :: "string \<Rightarrow> nat \<Rightarrow> nat list"
  thread_order :: "string \<Rightarrow> nat \<Rightarrow> nat \<Rightarrow> nat \<Rightarrow> nat list"
  group_memory :: "string \<Rightarrow> nat \<Rightarrow> (nat \<Rightarrow> 'f float2) \<times> (nat \<Rightarrow> 'f float2)"
  grants :: "nat \<Rightarrow> bool"

definition group_env_of :: "'f fft_device \<Rightarrow> string \<Rightarrow> nat \<Rightarrow> nat \<Rightarrow> 'f group_env" where
  "group_env_of dev kname w g = (thread_order dev kname w g, w, fst (group_memory dev kname g), snd (group_memory dev kname g))"

definition dispatch_1d_with_tg ::
  "'f fft_device \<Rightarrow> string \<Rightarrow> ('f group_env \<Rightarrow> nat \<Rightarrow> nat \<Rightarrow> 'd \<Rightarrow> 'd) \<Rightarrow> nat \<Rightarrow> nat \<Rightarrow> 'd \<Rightarrow> fft_error + 'd" where
  "dispatch_1d_with_tg dev kname body n_threads width d =
     (if n_threads = 0 then Inl (FftDispatch EmptyGrid)
      else let tg_width = clamped_width width (max_threads dev kname) in
        Inr (foldl (\<lambda>d g. body (group_env_of dev kname (min tg_width (n_threads - g * tg_width)) g) g (g * tg_width) d) d
               (group_order dev kname (div_ceil n_threads tg_width))))"

definition dispatch_1d ::
  "'f fft_device \<Rightarrow> string \<Rightarrow> ('f group_env \<Rightarrow> nat \<Rightarrow> nat \<Rightarrow> 'd \<Rightarrow> 'd) \<Rightarrow> nat \<Rightarrow> 'd \<Rightarrow> fft_error + 'd" where
  "dispatch_1d dev kname body n_threads d =
     (if n_threads = 0 then Inl (FftDispatch EmptyGrid)
      else dispatch_1d_with_tg dev kname body n_threads (auto_width (max_threads dev kname)) d)"

text \<open>A kernel without shared memory: every thread of the group runs with its place in the grid.\<close>

definition each_thread :: "(nat \<Rightarrow> 'd \<Rightarrow> 'd) \<Rightarrow> 'f group_env \<Rightarrow> nat \<Rightarrow> nat \<Rightarrow> 'd \<Rightarrow> 'd" where
  "each_thread thread env g off d = (case env of (ts, _) \<Rightarrow> foldl (\<lambda>d tid. thread (off + tid) d) d (ts 0))"

definition lawful_fft_device :: "'f fft_device \<Rightarrow> bool" where
  "lawful_fft_device dev \<longleftrightarrow> (\<forall>k. 1024 \<le> max_threads dev k \<and>
     (\<forall>n. distinct (group_order dev k n) \<and> set (group_order dev k n) = {..<n}) \<and>
     (\<forall>w g s. distinct (thread_order dev k w g s) \<and> set (thread_order dev k w g s) = {..<w}))"

lemma lawful_env: "lawful_fft_device dev \<Longrightarrow> 0 < w \<Longrightarrow> lawful_group (group_env_of dev k w g)"
  by (simp add: lawful_fft_device_def lawful_group_def group_env_of_def)

lemma dispatch_groups:
  assumes "lawful_fft_device dev" "0 < width" "width \<le> 1024" "0 < G"
  shows "dispatch_1d_with_tg dev k body (G * width) width d =
    Inr (foldl (\<lambda>d g. body (group_env_of dev k width g) g (g * width) d) d (group_order dev k G))"
proof -
  have "1024 \<le> max_threads dev k" using assms(1) by (simp add: lawful_fft_device_def)
  then have w: "max (min width (max_threads dev k)) 1 = width" using assms by simp
  have c: "div_ceil (G * width) width = G" unfolding div_ceil_def by (intro div_nat_eqI) (use assms in \<open>simp_all add: mult.commute\<close>)
  have "min width (G * width - g * width) = width" if "g \<in> set (group_order dev k G)" for g
  proof -
    have "g < G" using that assms(1) by (simp add: lawful_fft_device_def)
    then have "Suc g * width \<le> G * width" by (intro mult_le_mono1) simp
    then show ?thesis by simp
  qed
  then have "foldl (\<lambda>d g. body (group_env_of dev k (min width (G * width - g * width)) g) g (g * width) d) d (group_order dev k G) =
      foldl (\<lambda>d g. body (group_env_of dev k width g) g (g * width) d) d (group_order dev k G)"
    by (intro foldl_cong) simp_all
  then show ?thesis using assms by (simp add: dispatch_1d_with_tg_def clamped_width_def w c Let_def del: One_nat_def)
qed

text \<open>The threads of a grid, in the order in which they run.\<close>

definition grid_threads :: "'f fft_device \<Rightarrow> string \<Rightarrow> nat \<Rightarrow> nat list" where
  "grid_threads dev k n =
     (let w = max 1 (min (max_threads dev k) default_threadgroup_width) in
      concat (map (\<lambda>g. map ((+) (g * w)) (thread_order dev k (min w (n - g * w)) g 0)) (group_order dev k (div_ceil n w))))"

lemma foldl_concat_map: "foldl (\<lambda>d g. foldl f d (h g)) d gs = foldl f d (concat (map h gs))"
  by (induction gs arbitrary: d) simp_all

lemma distinct_concat_map:
  assumes "distinct gs" and "\<And>g. distinct (h g)" and "\<And>g x. x \<in> set (h g) \<Longrightarrow> owner x = g"
  shows "distinct (concat (map h gs))"
  using assms(1)
proof (induction gs)
  case (Cons g gs)
  have "set (h g) \<inter> set (concat (map h gs)) = {}" using assms(3) Cons.prems by (auto simp: disjoint_iff)
  then show ?case using Cons assms(2) by simp
qed simp

lemma dispatch_grid:
  assumes "lawful_fft_device dev" "0 < n"
  shows "dispatch_1d dev k (each_thread thread) n d = Inr (foldl (\<lambda>d gid. thread gid d) d (grid_threads dev k n))"
proof -
  have "min (max 1 (min (max_threads dev k) default_threadgroup_width)) (max_threads dev k) = max 1 (min (max_threads dev k) default_threadgroup_width)"
    using spec [OF assms(1) [unfolded lawful_fft_device_def], of k] by (simp add: default_threadgroup_width_def)
  then show ?thesis
    using assms(2) by (simp add: dispatch_1d_def dispatch_1d_with_tg_def auto_width_def clamped_width_def each_thread_def group_env_of_def grid_threads_def Let_def
      foldl_concat_map [symmetric] foldl_map)
qed

lemma grid_threads_all:
  assumes dev: "lawful_fft_device dev"
  shows "set (grid_threads dev k n) = {..<n}" and "distinct (grid_threads dev k n)"
proof -
  define w where w: "w = max 1 (min (max_threads dev k) default_threadgroup_width)"
  define G where G: "G = div_ceil n w"
  have pos: "0 < w" by (simp add: w)
  have gs: "distinct (group_order dev k G)" "set (group_order dev k G) = {..<G}" using dev by (simp_all add: lawful_fft_device_def)
  have ts: "distinct (thread_order dev k m g 0)" "set (thread_order dev k m g 0) = {..<m}" for m g using dev by (simp_all add: lawful_fft_device_def)
  have gt: "grid_threads dev k n = concat (map (\<lambda>g. map ((+) (g * w)) (thread_order dev k (min w (n - g * w)) g 0)) (group_order dev k G))"
    by (simp add: grid_threads_def Let_def w G)
  have own: "x \<in> set (map ((+) (g * w)) (thread_order dev k (min w (n - g * w)) g 0)) \<longleftrightarrow> x < n \<and> x div w = g" for x g
  proof -
    have "x \<in> set (map ((+) (g * w)) (thread_order dev k (min w (n - g * w)) g 0)) \<longleftrightarrow> g * w \<le> x \<and> x - g * w < min w (n - g * w)"
      by (auto simp: ts(2) image_iff intro: bexI [of _ "x - g * w"])
    also have "\<dots> \<longleftrightarrow> (g * w \<le> x \<and> x < g * w + w) \<and> x < n" by auto
    also have "g * w \<le> x \<and> x < g * w + w \<longleftrightarrow> x div w = g"
      using pos by (auto simp: div_nat_eqI mult.commute) (use dividend_less_times_div [OF pos, of x] in simp)
    finally show ?thesis by (simp only: conj_commute)
  qed
  have in_concat: "x \<in> set (concat (map h gs)) \<longleftrightarrow> (\<exists>g \<in> set gs. x \<in> set (h g))" for x :: nat and h and gs :: "nat list" by simp
  have "x div w < G" if "x < n" for x
    using that pos padded_grid_ge [OF pos, of n] unfolding G div_ceil_def padded_grid_def by (simp add: div_less_iff_less_mult)
  then show "set (grid_threads dev k n) = {..<n}" by (auto simp: gt in_concat own gs(2) simp del: set_concat set_map)
  show "distinct (grid_threads dev k n)"
    unfolding gt using gs(1) by (rule distinct_concat_map [where owner = "\<lambda>x. x div w"]) (simp_all add: distinct_map ts(1) own del: set_map)
qed

section \<open>What the kernels compute on a grid\<close>

lemma foldl_each:
  "distinct is \<Longrightarrow> foldl (\<lambda>d i. d(i := f i (d i))) d is x = (if x \<in> set is then f x (d x) else d x)"
  by (induction "is" arbitrary: d) auto

definition twiddle_val :: "'f real_ops \<Rightarrow> nat \<Rightarrow> nat \<Rightarrow> nat \<Rightarrow> (nat \<Rightarrow> 'f float2) \<Rightarrow> nat \<Rightarrow> 'f float2" where
  "twiddle_val R l2 len n d x = (if x < n then cmul R (d x) (twiddle R (x mod len div l2 * (x mod len mod l2)) len False) else d x)"

definition transpose_val :: "nat \<Rightarrow> nat \<Rightarrow> nat \<Rightarrow> (nat \<Rightarrow> 'f float2) \<Rightarrow> (nat \<Rightarrow> 'f float2) \<Rightarrow> nat \<Rightarrow> 'f float2" where
  "transpose_val l1 l2 n d out x = (if x < n then d (transposed l2 l1 x) else out x)"

lemma twiddle_grid:
  assumes "set gids = {..<n}" "distinct gids" "0 < n" "n = batch * len"
  shows "foldl (\<lambda>d gid. fft_twiddle_mul R l2 len batch n gid d) d gids = twiddle_val R l2 len n d"
proof
  fix x
  have s: "fft_twiddle_mul R l2 len batch n gid d =
      foldl (\<lambda>d i. d(i := cmul R (d i) (twiddle R (i mod len div l2 * (i mod len mod l2)) len False))) d (strided gid n n)" for gid d
    by (simp add: fft_twiddle_mul_def Let_def assms(4))
  show "foldl (\<lambda>d gid. fft_twiddle_mul R l2 len batch n gid d) d gids x = twiddle_val R l2 len n d x"
    unfolding s foldl_concat_map group_work_def [symmetric] twiddle_val_def
    using foldl_each [OF group_work_distinct [OF assms(2)], of "\<lambda>i v. cmul R v (twiddle R (i mod len div l2 * (i mod len mod l2)) len False)"]
    by (simp add: group_work_set [OF assms(1,3)])
qed

lemma copy_grid:
  assumes "set gids = {..<n}" "0 < n"
  shows "foldl (\<lambda>out gid. fft_copy n n gid d out) out gids = (\<lambda>x. if x < n then d x else out x)"
proof
  fix x
  have s: "fft_copy n n gid d out = foldl (\<lambda>out i. put out [(i, d i)]) out (strided gid n n)" for gid out
    by (simp add: fft_copy_def put_def)
  show "foldl (\<lambda>out gid. fft_copy n n gid d out) out gids x = (if x < n then d x else out x)"
    unfolding s foldl_concat_map group_work_def [symmetric] phase_def [symmetric] by (rule phase_all [OF assms])
qed

lemma transposed_parts: "transposed l1 l2 x = x div (l1 * l2) * l2 * l1 + x div l2 mod l1 + x mod l2 * l1"
proof (cases "l2 = 0")
  case False
  have "x mod (l1 * l2) = l2 * (x div l2 mod l1) + x mod l2" using mod_mult2_eq [of x l2 l1] by (simp add: mult.commute)
  then have "x mod (l1 * l2) div l2 = x div l2 mod l1" "x mod (l1 * l2) mod l2 = x mod l2" using False by simp_all
  then show ?thesis by (simp only: transposed_def Let_def ac_simps)
qed (simp add: transposed_def Let_def)

lemma transposed_twice:
  assumes "0 < l1" "0 < l2"
  shows "transposed l2 l1 (transposed l1 l2 x) = x"
proof -
  have "x div l2 mod l1 < l1" "x mod l2 < l2" using assms by simp_all
  note p = place_parts [OF this, of "x div (l1 * l2)", folded transposed_parts]
  show ?thesis unfolding transposed_parts [of l2 l1] p using place_whole [OF assms(2,1), of x] by (simp add: ac_simps)
qed

lemma transposed_below:
  assumes "0 < l1" "0 < l2"
  shows "transposed l1 l2 x < batch * (l1 * l2) \<longleftrightarrow> x < batch * (l1 * l2)"
proof -
  have "x div l2 mod l1 < l1" "x mod l2 < l2" using assms by simp_all
  note p = place_parts [OF this, of "x div (l1 * l2)", folded transposed_parts]
  have "transposed l1 l2 x < batch * (l1 * l2) \<longleftrightarrow> transposed l1 l2 x div (l2 * l1) < batch"
    using assms by (simp add: div_less_iff_less_mult ac_simps)
  then show ?thesis unfolding p(3) using assms by (simp add: div_less_iff_less_mult)
qed

lemma transpose_grid:
  assumes "set gids = {..<n}" "0 < n" and n: "n = batch * (l1 * l2)"
  shows "foldl (\<lambda>out gid. fft_transpose l1 l2 batch n gid d out) out gids = transpose_val l1 l2 n d out"
proof
  fix x
  have pos: "0 < l1" "0 < l2" using assms by (auto intro: gr0I)
  have s: "fft_transpose l1 l2 batch n gid d out = foldl (\<lambda>out i. put out [(transposed l1 l2 i, d i)]) out (strided gid n n)" for gid out
    by (simp add: fft_transpose_def put_def n)
  have v: "d i = d (transposed l2 l1 (transposed l1 l2 i))" for i by (simp add: transposed_twice [OF pos])
  have hit: "(\<exists>i < n. x = transposed l1 l2 i) \<longleftrightarrow> x < n"
    using transposed_twice [OF pos(2,1)] transposed_below [OF pos, of _ batch] transposed_below [OF pos(2,1), of _ batch]
    unfolding n by (metis mult.commute)
  have "phase gids n n (\<lambda>i. [(transposed l1 l2 i, d i)]) out x =
      (if \<exists>i < n. x \<in> fst ` set [(transposed l1 l2 i, d i)] then d (transposed l2 l1 x) else out x)"
    by (rule phase_eq [OF assms(1,2)]) (simp add: transposed_twice [OF pos])
  then show "foldl (\<lambda>out gid. fft_transpose l1 l2 batch n gid d out) out gids x = transpose_val l1 l2 n d out x"
    unfolding s foldl_concat_map group_work_def [symmetric] phase_def [symmetric] transpose_val_def by (simp add: hit)
qed

text \<open>Groups that each own some places and read only those.\<close>

lemma foldl_owned:
  assumes step: "\<And>d g x. step d g x = (if owner x = g then F g d x else d x)"
    and inside: "\<And>d d' g x. (\<And>y. owner y = g \<Longrightarrow> d y = d' y) \<Longrightarrow> owner x = g \<Longrightarrow> F g d x = F g d' x"
    and "distinct gs"
  shows "foldl step d gs x = (if owner x \<in> set gs then F (owner x) d x else d x)"
  using assms(3)
proof (induction gs arbitrary: x rule: rev_induct)
  case (snoc g gs)
  have "F g (foldl step d gs) x = F g d x" if "owner x = g" using snoc that by (intro inside) auto
  with snoc show ?case by (auto simp: step [of "foldl step d gs" g x])
qed simp

definition batched_val :: "'f real_ops \<Rightarrow> nat \<Rightarrow> nat \<Rightarrow> (nat \<Rightarrow> 'f float2) \<Rightarrow> nat \<Rightarrow> 'f float2" where
  "batched_val R len batch d x = (if x < batch * len then pow2_val R len False (\<lambda>i. d (x div len * len + i)) (x mod len) else d x)"

definition cols_val :: "'f real_ops \<Rightarrow> nat \<Rightarrow> nat \<Rightarrow> nat \<Rightarrow> (nat \<Rightarrow> 'f float2) \<Rightarrow> nat \<Rightarrow> 'f float2" where
  "cols_val R l1 l2 batch d x =
     (if x < batch * (l1 * l2)
      then pow2_val R l1 False (\<lambda>i. d (x div (l1 * l2) * (l1 * l2) + x mod l2 + i * l2)) (x div l2 mod l1) else d x)"

lemma pow2_val_cong:
  assumes "agree (2 ^ e) a x" and "k < 2 ^ e"
  shows "pow2_val R (2 ^ e) invd a k = pow2_val R (2 ^ e) invd x k"
proof -
  have t: "set ((\<lambda>_. [0]) s) = {..<1 :: nat}" "0 < (1 :: nat)" for s :: nat by auto
  obtain src dst where 1: "pow2_stages R (\<lambda>_. [0]) 1 (2 ^ e) invd (a, a, 1) = (src, dst, Suc e)" "agree (2 ^ e) src (pow2_val R (2 ^ e) invd x)"
    by (rule pow2_stages_val [OF t assms(1)])
  moreover obtain src' dst' where "pow2_stages R (\<lambda>_. [0]) 1 (2 ^ e) invd (a, a, 1) = (src', dst', Suc e)" "agree (2 ^ e) src' (pow2_val R (2 ^ e) invd a)"
    by (rule pow2_stages_val [OF t agree_refl])
  ultimately show ?thesis using assms(2) by (simp add: agree_def)
qed

lemma batched_groups:
  assumes dev: "lawful_fft_device dev" and len: "len = 2 ^ e"
  shows "foldl (\<lambda>d g. fft_stockham_pow2_batched R (group_env_of dev k len g) len g d) d (group_order dev k batch) = batched_val R len batch d"
proof
  fix x
  have pos: "0 < len" by (simp add: len)
  have "foldl (\<lambda>d g. fft_stockham_pow2_batched R (group_env_of dev k len g) len g d) d (group_order dev k batch) x =
      (if x div len \<in> set (group_order dev k batch) then pow2_val R len False (\<lambda>i. d (x div len * len + i)) (x mod len) else d x)"
  proof (rule foldl_owned)
    show "fft_stockham_pow2_batched R (group_env_of dev k len g) len g d x =
        (if x div len = g then pow2_val R len False (\<lambda>i. d (g * len + i)) (x mod len) else d x)" for d g x
      by (rule fft_stockham_pow2_batched_val [OF lawful_env [OF dev pos] len])
    show "pow2_val R len False (\<lambda>i. d (g * len + i)) (x mod len) = pow2_val R len False (\<lambda>i. d' (g * len + i)) (x mod len)"
      if "\<And>y. y div len = g \<Longrightarrow> d y = d' y" for d d' g x
      unfolding len by (rule pow2_val_cong) (use that in \<open>simp_all add: agree_def len\<close>)
  qed (use dev in \<open>simp add: lawful_fft_device_def\<close>)
  also have "x div len \<in> set (group_order dev k batch) \<longleftrightarrow> x < batch * len"
    using dev pos by (simp add: lawful_fft_device_def div_less_iff_less_mult)
  finally show "foldl (\<lambda>d g. fft_stockham_pow2_batched R (group_env_of dev k len g) len g d) d (group_order dev k batch) x = batched_val R len batch d x"
    by (simp add: batched_val_def)
qed

lemma cols_groups:
  assumes dev: "lawful_fft_device dev" and l1: "l1 = 2 ^ e" and l2: "0 < l2"
  shows "foldl (\<lambda>d g. fft_fourstep_cols R (group_env_of dev k l1 g) l1 l2 g d) d (group_order dev k (batch * l2)) = cols_val R l1 l2 batch d"
proof
  fix x
  let ?owner = "\<lambda>x. x div (l1 * l2) * l2 + x mod l2"
  have pos: "0 < l1" by (simp add: l1)
  have own: "x div (l1 * l2) = g div l2 \<and> x mod l2 = g mod l2 \<longleftrightarrow> ?owner x = g" for x g
    using l2 by (auto simp: div_mult_mod_eq)
  have place: "(g div l2 * (l1 * l2) + g mod l2 + i * l2) div (l1 * l2) = g div l2" "(g div l2 * (l1 * l2) + g mod l2 + i * l2) mod l2 = g mod l2"
    if "i < l1" for g i
    using place_parts [of "g mod l2" l2 i l1 "g div l2"] that l2 by (simp_all add: mult.assoc)
  have "foldl (\<lambda>d g. fft_fourstep_cols R (group_env_of dev k l1 g) l1 l2 g d) d (group_order dev k (batch * l2)) x =
      (if ?owner x \<in> set (group_order dev k (batch * l2))
       then pow2_val R l1 False (\<lambda>i. d (?owner x div l2 * (l1 * l2) + ?owner x mod l2 + i * l2)) (x div l2 mod l1) else d x)"
  proof (rule foldl_owned [where owner = ?owner and F = "\<lambda>g d x. pow2_val R l1 False (\<lambda>i. d (g div l2 * (l1 * l2) + g mod l2 + i * l2)) (x div l2 mod l1)"])
    show "fft_fourstep_cols R (group_env_of dev k l1 g) l1 l2 g d x =
        (if ?owner x = g then pow2_val R l1 False (\<lambda>i. d (g div l2 * (l1 * l2) + g mod l2 + i * l2)) (x div l2 mod l1) else d x)" for d g x
      unfolding own [symmetric] by (rule fft_fourstep_cols_val [OF lawful_env [OF dev pos] l1 l2])
    show "pow2_val R l1 False (\<lambda>i. d (g div l2 * (l1 * l2) + g mod l2 + i * l2)) (x div l2 mod l1) =
        pow2_val R l1 False (\<lambda>i. d' (g div l2 * (l1 * l2) + g mod l2 + i * l2)) (x div l2 mod l1)"
      if "\<And>y. ?owner y = g \<Longrightarrow> d y = d' y" for d d' g x
      unfolding l1
    proof (rule pow2_val_cong)
      show "agree (2 ^ e) (\<lambda>i. d (g div l2 * (2 ^ e * l2) + g mod l2 + i * l2)) (\<lambda>i. d' (g div l2 * (2 ^ e * l2) + g mod l2 + i * l2))"
        unfolding agree_def l1 [symmetric] using that place by (simp add: own [symmetric])
    qed (use pos in simp)
  qed (use dev in \<open>simp add: lawful_fft_device_def\<close>)
  also have "?owner x \<in> set (group_order dev k (batch * l2)) \<longleftrightarrow> x div (l1 * l2) < batch"
  proof -
    have "?owner x \<in> set (group_order dev k (batch * l2)) \<longleftrightarrow> ?owner x < batch * l2" using dev by (simp add: lawful_fft_device_def)
    also have "\<dots> \<longleftrightarrow> ?owner x div l2 < batch" by (simp only: div_less_iff_less_mult [OF l2])
    also have "?owner x div l2 = x div (l1 * l2)" using l2 by simp
    finally show ?thesis .
  qed
  also have "x div (l1 * l2) < batch \<longleftrightarrow> x < batch * (l1 * l2)" using pos l2 by (simp add: div_less_iff_less_mult)
  finally show "foldl (\<lambda>d g. fft_fourstep_cols R (group_env_of dev k l1 g) l1 l2 g d) d (group_order dev k (batch * l2)) x = cols_val R l1 l2 batch d x"
    using l2 by (simp add: cols_val_def)
qed

section \<open>fft_pass\<close>

definition fft_base_max :: nat where "fft_base_max = 1024"

definition fft_max_recursion_depth :: nat where "fft_max_recursion_depth = 6"

definition alloc :: "'f fft_device \<Rightarrow> nat \<Rightarrow> fft_error + unit" where
  "alloc dev b = (if b = 0 then Inl (FftBuffer (AllocationFailed 0)) else if grants dev b then Inr () else Inl (FftBuffer (AllocationFailed b)))"

definition granting :: "'f fft_device \<Rightarrow> bool" where
  "granting dev \<longleftrightarrow> (\<forall>b > 0. grants dev b)"

lemma granting_alloc: "granting dev \<Longrightarrow> 0 < b \<Longrightarrow> alloc dev b = Inr ()"
  by (simp add: granting_def alloc_def)

function fft_pass ::
  "'f fft_device \<Rightarrow> nat \<Rightarrow> nat \<Rightarrow> nat \<Rightarrow> (nat \<Rightarrow> 'f float2) \<times> (nat \<Rightarrow> 'f float2) \<Rightarrow> fft_error + (nat \<Rightarrow> 'f float2) \<times> (nat \<Rightarrow> 'f float2)" where
  "fft_pass dev len batch depth st =
     (if depth > fft_max_recursion_depth then Inl (Unsupported (int len))
      else if len \<le> fft_base_max then
        rbind (alloc dev 4) (\<lambda>_.
        rbind (dispatch_1d_with_tg dev ''fft_stockham_pow2_batched'' (\<lambda>env g _. fft_stockham_pow2_batched (arith dev) env len g)
                 (batch * len) len (fst st)) (\<lambda>data.
        Inr (data, snd st)))
      else let l1 = fft_base_max; l2 = len div l1 in
        rbind (rmap (alloc dev) [4, 4, 4, 4]) (\<lambda>_.
        rbind (dispatch_1d_with_tg dev ''fft_fourstep_cols'' (\<lambda>env g _. fft_fourstep_cols (arith dev) env l1 l2 g)
                 (batch * l2 * l1) l1 (fst st)) (\<lambda>data.
        rbind (dispatch_1d dev ''fft_twiddle_mul'' (each_thread (fft_twiddle_mul (arith dev) l2 len batch (batch * len)))
                 (batch * len) data) (\<lambda>data.
        rbind (fft_pass dev l2 (batch * l1) (depth + 1) (data, snd st)) (\<lambda>(data, scratch).
        rbind (dispatch_1d dev ''fft_transpose'' (each_thread (\<lambda>gid. fft_transpose l1 l2 batch (batch * len) gid data))
                 (batch * len) scratch) (\<lambda>scratch.
        rbind (alloc dev 4) (\<lambda>_.
        rbind (dispatch_1d dev ''fft_copy'' (each_thread (\<lambda>gid. fft_copy (batch * len) (batch * len) gid scratch))
                 (batch * len) data) (\<lambda>data.
        Inr (data, scratch)))))))))"
  by pat_completeness auto

termination
  by (relation "measure (\<lambda>(dev, len, batch, depth, st). Suc fft_max_recursion_depth - depth)") auto

function fft_pass_planar ::
  "'f fft_device \<Rightarrow> nat \<Rightarrow> nat \<Rightarrow> nat \<Rightarrow> 'f planes \<times> 'f planes \<Rightarrow> fft_error + 'f planes \<times> 'f planes" where
  "fft_pass_planar dev len batch depth st =
     (if depth > fft_max_recursion_depth then Inl (Unsupported (int len))
      else if len \<le> fft_base_max then
        rbind (alloc dev 4) (\<lambda>_.
        rbind (dispatch_1d_with_tg dev ''fft_stockham_pow2_batched_planar'' (\<lambda>env g _. fft_stockham_pow2_batched_planar (arith dev) env len g)
                 (batch * len) len (fst st)) (\<lambda>data.
        Inr (data, snd st)))
      else let l1 = fft_base_max; l2 = len div l1 in
        rbind (rmap (alloc dev) [4, 4, 4, 4]) (\<lambda>_.
        rbind (dispatch_1d_with_tg dev ''fft_fourstep_cols_planar'' (\<lambda>env g _. fft_fourstep_cols_planar (arith dev) env l1 l2 g)
                 (batch * l2 * l1) l1 (fst st)) (\<lambda>data.
        rbind (dispatch_1d dev ''fft_twiddle_mul_planar'' (each_thread (fft_twiddle_mul_planar (arith dev) l2 len batch (batch * len)))
                 (batch * len) data) (\<lambda>data.
        rbind (fft_pass_planar dev l2 (batch * l1) (depth + 1) (data, snd st)) (\<lambda>(data, scratch).
        rbind (dispatch_1d dev ''fft_transpose_planar'' (each_thread (\<lambda>gid. fft_transpose_planar l1 l2 batch (batch * len) gid data))
                 (batch * len) scratch) (\<lambda>scratch.
        rbind (alloc dev 4) (\<lambda>_.
        rbind (dispatch_1d dev ''fft_copy_planar'' (each_thread (\<lambda>gid. fft_copy_planar (batch * len) (batch * len) gid scratch))
                 (batch * len) data) (\<lambda>data.
        Inr (data, scratch)))))))))"
  by pat_completeness auto

termination
  by (relation "measure (\<lambda>(dev, len, batch, depth, st). Suc fft_max_recursion_depth - depth)") auto

declare fft_pass.simps [simp del] fft_pass_planar.simps [simp del]

text \<open>The value of a pass.\<close>

function pass_val :: "'f real_ops \<Rightarrow> nat \<Rightarrow> nat \<Rightarrow> (nat \<Rightarrow> 'f float2) \<Rightarrow> nat \<Rightarrow> 'f float2" where
  "pass_val R len batch d =
     (if len \<le> fft_base_max then batched_val R len batch d
      else let l2 = len div fft_base_max; d = pass_val R l2 (batch * fft_base_max)
                    (twiddle_val R l2 len (batch * len) (cols_val R fft_base_max l2 batch d))
        in transpose_val fft_base_max l2 (batch * len) d d)"
  by pat_completeness auto

termination
  by (relation "measure (\<lambda>(R, len, batch, d). len)") (auto simp: fft_base_max_def)

declare pass_val.simps [simp del]

text \<open>Lengths that the recursion reaches.\<close>

lemma pass_split:
  assumes "len = 2 ^ e" "\<not> len \<le> fft_base_max"
  shows "10 < e" "len div fft_base_max = 2 ^ (e - 10)" "fft_base_max * (len div fft_base_max) = len" "fft_base_max = 2 ^ 10"
proof -
  have b: "fft_base_max = 2 ^ 10" by (simp add: fft_base_max_def)
  then show "fft_base_max = 2 ^ 10" .
  have "(2 :: nat) ^ 10 < 2 ^ e" using assms b by simp
  then show e: "10 < e" by (rule power_less_imp_less_exp [rotated]) simp
  have "len = fft_base_max * 2 ^ (e - 10)" using e by (simp add: assms(1) b power_add [symmetric] del: power_numeral)
  then show "len div fft_base_max = 2 ^ (e - 10)" "fft_base_max * (len div fft_base_max) = len" by (simp_all add: b)
qed

theorem fft_pass_val:
  assumes dev: "lawful_fft_device dev" "granting dev"
  shows "\<lbrakk>len = 2 ^ e; 0 < batch; depth \<le> fft_max_recursion_depth; e \<le> 10 * (7 - depth)\<rbrakk> \<Longrightarrow>
    \<exists>scratch'. fft_pass dev len batch depth (data, scratch) = Inr (pass_val (arith dev) len batch data, scratch')"
proof (induction "Suc fft_max_recursion_depth - depth" arbitrary: len batch depth e data scratch)
  case (Suc c)
  note al = granting_alloc [OF dev(2)]
  show ?case
  proof (cases "len \<le> fft_base_max")
    case True
    have "dispatch_1d_with_tg dev ''fft_stockham_pow2_batched'' (\<lambda>env g _. fft_stockham_pow2_batched (arith dev) env len g) (batch * len) len data =
        Inr (batched_val (arith dev) len batch data)"
      using Suc.prems(1,2) True by (subst dispatch_groups [OF dev(1)]) (simp_all add: fft_base_max_def batched_groups [OF dev(1) refl])
    then show ?thesis using Suc.prems(3) True by (simp add: fft_pass.simps [of dev len] pass_val.simps [of _ len] al)
  next
    case False
    define l2 where l2: "l2 = len div fft_base_max"
    note sp = pass_split [OF Suc.prems(1) False, folded l2]
    have pos: "0 < l2" "0 < len" "0 < batch * len" using sp Suc.prems by simp_all
    have n: "batch * len = batch * (fft_base_max * l2)" by (simp add: sp(3))
    have wide: "0 < fft_base_max" "fft_base_max \<le> 1024" "0 < batch * l2" using pos Suc.prems(2) by (simp_all add: fft_base_max_def)
    note g = grid_threads_all [OF dev(1)]
    let ?d1 = "cols_val (arith dev) fft_base_max l2 batch data"
    let ?d2 = "twiddle_val (arith dev) l2 len (batch * len) ?d1"
    let ?d3 = "pass_val (arith dev) l2 (batch * fft_base_max) ?d2"
    have cols: "dispatch_1d_with_tg dev ''fft_fourstep_cols'' (\<lambda>env g _. fft_fourstep_cols (arith dev) env fft_base_max l2 g)
        (batch * l2 * fft_base_max) fft_base_max data = Inr ?d1"
      by (simp only: dispatch_groups [OF dev(1) wide] cols_groups [OF dev(1) sp(4) pos(1)])
    have tw: "dispatch_1d dev ''fft_twiddle_mul'' (each_thread (fft_twiddle_mul (arith dev) l2 len batch (batch * len))) (batch * len) d =
        Inr (twiddle_val (arith dev) l2 len (batch * len) d)" for d
      unfolding dispatch_grid [OF dev(1) pos(3)] twiddle_grid [OF g pos(3) refl] ..
    have depth: "depth < fft_max_recursion_depth"
      using Suc.prems(3,4) sp(1) by (cases "depth = fft_max_recursion_depth") (simp_all add: fft_max_recursion_depth_def)
    then have "\<exists>sc. fft_pass dev l2 (batch * fft_base_max) (depth + 1) (?d2, scratch) = Inr (?d3, sc)"
      by (intro Suc.hyps(1) [OF _ sp(2)]) (use Suc.hyps(2) Suc.prems wide in \<open>simp_all add: fft_max_recursion_depth_def\<close>)
    then obtain sc where rec: "fft_pass dev l2 (batch * fft_base_max) (depth + 1) (?d2, scratch) = Inr (?d3, sc)" by blast
    have tr: "dispatch_1d dev ''fft_transpose'' (each_thread (\<lambda>gid. fft_transpose fft_base_max l2 batch (batch * len) gid d)) (batch * len) out =
        Inr (transpose_val fft_base_max l2 (batch * len) d out)" for d out
      unfolding dispatch_grid [OF dev(1) pos(3)] using transpose_grid [OF g(1) pos(3) n] by simp
    have cp: "dispatch_1d dev ''fft_copy'' (each_thread (\<lambda>gid. fft_copy (batch * len) (batch * len) gid (transpose_val fft_base_max l2 (batch * len) d sc)))
        (batch * len) d = Inr (transpose_val fft_base_max l2 (batch * len) d d)" for d
      unfolding dispatch_grid [OF dev(1) pos(3)] copy_grid [OF g(1) pos(3)] by (auto simp: transpose_val_def)
    show ?thesis
      using False depth by (simp add: fft_pass.simps [of dev len] pass_val.simps [of _ len] Let_def l2 [symmetric] al cols tw rec tr cp del: One_nat_def)
  qed
qed simp

text \<open>The planar pass has the same value.\<close>

lemma planar_groups:
  assumes "lawful_fft_device dev" "0 < width" "width \<le> 1024" "0 < G"
    and "\<And>env g d. joined (body env g d) = body' env g (joined d)"
    and "\<And>d. foldl (\<lambda>d g. body' (group_env_of dev k width g) g d) d (group_order dev k G) = val d"
  obtains D' where "dispatch_1d_with_tg dev k (\<lambda>env g _. body env g) (G * width) width D = Inr D'" "joined D' = val (joined D)"
proof -
  have "joined (foldl (\<lambda>d g. body (group_env_of dev k width g) g d) D (group_order dev k G)) =
      foldl (\<lambda>d g. body' (group_env_of dev k width g) g d) (joined D) (group_order dev k G)"
    by (rule foldl_sim) (simp add: assms(5))
  then show ?thesis by (intro that [OF dispatch_groups [OF assms(1-4)]]) (simp add: assms(6))
qed

lemma planar_grid:
  assumes "lawful_fft_device dev" "0 < n"
    and "\<And>gid d. joined (thread gid d) = thread' gid (joined d)"
    and "\<And>d. foldl (\<lambda>d gid. thread' gid d) d (grid_threads dev k n) = val d"
  obtains D' where "dispatch_1d dev k (each_thread thread) n D = Inr D'" "joined D' = val (joined D)"
proof -
  have "joined (foldl (\<lambda>d gid. thread gid d) D (grid_threads dev k n)) = foldl (\<lambda>d gid. thread' gid d) (joined D) (grid_threads dev k n)"
    by (rule foldl_sim) (simp add: assms(3))
  then show ?thesis by (intro that [OF dispatch_grid [OF assms(1,2)]]) (simp add: assms(4))
qed

theorem fft_pass_planar_val:
  assumes dev: "lawful_fft_device dev" "granting dev"
  shows "\<lbrakk>len = 2 ^ e; 0 < batch; depth \<le> fft_max_recursion_depth; e \<le> 10 * (7 - depth)\<rbrakk> \<Longrightarrow>
    \<exists>data' scratch'. fft_pass_planar dev len batch depth (data, scratch) = Inr (data', scratch') \<and>
      joined data' = pass_val (arith dev) len batch (joined data)"
proof (induction "Suc fft_max_recursion_depth - depth" arbitrary: len batch depth e data scratch)
  case (Suc c)
  note al = granting_alloc [OF dev(2)]
  show ?case
  proof (cases "len \<le> fft_base_max")
    case True
    then have small: "0 < len" "len \<le> 1024" using Suc.prems(1) by (simp_all add: fft_base_max_def)
    obtain D where "dispatch_1d_with_tg dev ''fft_stockham_pow2_batched_planar'' (\<lambda>env g _. fft_stockham_pow2_batched_planar (arith dev) env len g)
        (batch * len) len data = Inr D" "joined D = batched_val (arith dev) len batch (joined data)"
      by (rule planar_groups [where body = "\<lambda>env g. fft_stockham_pow2_batched_planar (arith dev) env len g" and body' = "\<lambda>env g. fft_stockham_pow2_batched (arith dev) env len g" and val = "batched_val (arith dev) len batch", OF dev(1) small Suc.prems(2) joined_kernels(1) batched_groups [OF dev(1) Suc.prems(1)]])
    then show ?thesis using Suc.prems(3) True by (simp add: fft_pass_planar.simps [of dev len] pass_val.simps [of _ len] al)
  next
    case False
    define l2 where l2: "l2 = len div fft_base_max"
    note sp = pass_split [OF Suc.prems(1) False, folded l2]
    have pos: "0 < l2" "0 < len" "0 < batch * len" using sp Suc.prems by simp_all
    have n: "batch * len = batch * (fft_base_max * l2)" by (simp add: sp(3))
    have wide: "0 < fft_base_max" "fft_base_max \<le> 1024" "0 < batch * l2" using pos Suc.prems(2) by (simp_all add: fft_base_max_def)
    note g = grid_threads_all [OF dev(1)]
    obtain D1 where 1: "dispatch_1d_with_tg dev ''fft_fourstep_cols_planar'' (\<lambda>env g _. fft_fourstep_cols_planar (arith dev) env fft_base_max l2 g)
        (batch * l2 * fft_base_max) fft_base_max data = Inr D1" "joined D1 = cols_val (arith dev) fft_base_max l2 batch (joined data)"
      by (rule planar_groups [where body = "\<lambda>env g. fft_fourstep_cols_planar (arith dev) env fft_base_max l2 g" and body' = "\<lambda>env g. fft_fourstep_cols (arith dev) env fft_base_max l2 g" and val = "cols_val (arith dev) fft_base_max l2 batch", OF dev(1) wide joined_kernels(2) cols_groups [OF dev(1) sp(4) pos(1)]])
    obtain D2 where 2: "dispatch_1d dev ''fft_twiddle_mul_planar'' (each_thread (fft_twiddle_mul_planar (arith dev) l2 len batch (batch * len)))
        (batch * len) D1 = Inr D2" "joined D2 = twiddle_val (arith dev) l2 len (batch * len) (joined D1)"
      by (rule planar_grid [where thread = "fft_twiddle_mul_planar (arith dev) l2 len batch (batch * len)" and thread' = "fft_twiddle_mul (arith dev) l2 len batch (batch * len)" and val = "twiddle_val (arith dev) l2 len (batch * len)", OF dev(1) pos(3) joined_kernels(3) twiddle_grid [OF g pos(3) refl]])
    have depth: "depth < fft_max_recursion_depth"
      using Suc.prems(3,4) sp(1) by (cases "depth = fft_max_recursion_depth") (simp_all add: fft_max_recursion_depth_def)
    then have "\<exists>data' scratch'. fft_pass_planar dev l2 (batch * fft_base_max) (depth + 1) (D2, scratch) = Inr (data', scratch') \<and>
        joined data' = pass_val (arith dev) l2 (batch * fft_base_max) (joined D2)"
      by (intro Suc.hyps(1) [OF _ sp(2)]) (use Suc.hyps(2) Suc.prems wide in \<open>simp_all add: fft_max_recursion_depth_def\<close>)
    then obtain D3 sc where 3: "fft_pass_planar dev l2 (batch * fft_base_max) (depth + 1) (D2, scratch) = Inr (D3, sc)"
      "joined D3 = pass_val (arith dev) l2 (batch * fft_base_max) (joined D2)"
      by blast
    obtain D4 where 4: "dispatch_1d dev ''fft_transpose_planar'' (each_thread (\<lambda>gid. fft_transpose_planar fft_base_max l2 batch (batch * len) gid D3))
        (batch * len) sc = Inr D4" "joined D4 = transpose_val fft_base_max l2 (batch * len) (joined D3) (joined sc)"
      by (rule planar_grid [where thread = "\<lambda>gid. fft_transpose_planar fft_base_max l2 batch (batch * len) gid D3" and thread' = "\<lambda>gid. fft_transpose fft_base_max l2 batch (batch * len) gid (joined D3)" and val = "transpose_val fft_base_max l2 (batch * len) (joined D3)", OF dev(1) pos(3) joined_kernels(4) transpose_grid [OF g(1) pos(3) n]])
    have copy: "foldl (\<lambda>out gid. fft_copy (batch * len) (batch * len) gid (joined D4) out) out (grid_threads dev ''fft_copy_planar'' (batch * len)) =
        (\<lambda>x. if x < batch * len then joined D4 x else out x)" for out
      by (rule copy_grid [OF g(1) pos(3)])
    obtain D5 where 5: "dispatch_1d dev ''fft_copy_planar'' (each_thread (\<lambda>gid. fft_copy_planar (batch * len) (batch * len) gid D4))
        (batch * len) D3 = Inr D5" "joined D5 = (\<lambda>x. if x < batch * len then joined D4 x else joined D3 x)"
      by (rule planar_grid [where thread = "\<lambda>gid. fft_copy_planar (batch * len) (batch * len) gid D4" and thread' = "\<lambda>gid. fft_copy (batch * len) (batch * len) gid (joined D4)" and val = "\<lambda>out x. if x < batch * len then joined D4 x else out x", OF dev(1) pos(3) joined_kernels(5) copy])
    have "joined D5 = transpose_val fft_base_max l2 (batch * len) (joined D3) (joined D3)"
      by (auto simp: 5(2) 4(2) transpose_val_def)
    then show ?thesis
      using False depth 1 2 3 4(1) 5(1)
      by (simp add: fft_pass_planar.simps [of dev len] pass_val.simps [of _ len] Let_def l2 [symmetric] al del: One_nat_def)
  qed
qed simp

section \<open>Exactness\<close>

lemma pow2_val_dft:
  assumes "n = 2 ^ e" "k < n"
  shows "cx (pow2_val exact n False x k) = dft n (\<lambda>i. cx (x i)) k"
  using pow2_val_exact [OF assms, of False x] by (simp add: seen_def)

theorem pass_val_exact:
  "\<lbrakk>len = 2 ^ e; s < batch; k < len\<rbrakk> \<Longrightarrow>
    cx (pass_val exact len batch data (s * len + k)) = dft len (\<lambda>j. cx (data (s * len + j))) k"
proof (induction len arbitrary: e batch s k data rule: less_induct)
  case (less len)
  have below: "s * len + k < batch * len"
  proof -
    have "s * len + k < Suc s * len" "Suc s * len \<le> batch * len" using less.prems by (simp, intro mult_le_mono1) simp
    then show ?thesis by simp
  qed
  show ?case
  proof (cases "len \<le> fft_base_max")
    case True
    have "(s * len + k) div len = s" "(s * len + k) mod len = k" using less.prems by simp_all
    then show ?thesis
      using True below pow2_val_dft [OF less.prems(1,3)] by (simp add: pass_val.simps [of _ len] batched_val_def)
  next
    case False
    define l1 l2 where l: "l1 = fft_base_max" "l2 = len div fft_base_max"
    note sp = pass_split [OF less.prems(1) False, folded l]
    have pos: "0 < l1" "0 < l2" "0 < len" "l2 < len" using sp less.prems(1) by (auto simp: power_strict_increasing_iff intro: gr0I)
    define k1 k2 where k: "k1 = k mod l1" "k2 = k div l1"
    have kk: "k = k1 + k2 * l1" "k1 < l1" "k2 < l2" using pos less.prems(3) by (simp_all add: k less_mult_imp_div_less sp(3) mult.commute)
    have len: "l1 * l2 = len" by (rule sp(3))
    define d1 d2 where d: "d1 = cols_val exact l1 l2 batch data" "d2 = twiddle_val exact l2 len (batch * len) d1"
    have z: "cx (d2 ((s * l1 + k1) * l2 + j)) = uroot (l1 * l2) ^ (j * k1) * dft l1 (\<lambda>i. cx (data (s * len + (j + i * l2)))) k1"
      if j: "j < l2" for j
    proof -
      let ?z = "(s * l1 + k1) * l2 + j"
      have e: "?z = s * l1 * l2 + j + k1 * l2" by (simp add: algebra_simps)
      have p: "?z mod l2 = j" "?z div l2 mod l1 = k1" "?z div (l1 * l2) = s" unfolding e by (rule place_parts; use j kk in simp)+
      have m: "?z mod len = l2 * k1 + j" using mod_mult2_eq [of ?z l2 l1] unfolding p(1,2) by (simp only: len mult.commute [of l2 l1])
      have "?z div len < batch" using p(3) less.prems(2) by (simp only: len)
      then have b: "?z < batch * len" by (simp only: div_less_iff_less_mult [OF pos(3)])
      have "cx (d1 ?z) = dft l1 (\<lambda>i. cx (data (s * len + (j + i * l2)))) k1"
        using b pow2_val_dft [OF sp(4) kk(2)] unfolding d(1) cols_val_def p by (simp add: len add.assoc)
      moreover have "d2 ?z = cmul exact (d1 ?z) (twiddle exact (k1 * j) len False)"
        using b j unfolding d(2) twiddle_val_def m by simp
      ultimately show ?thesis by (simp add: cx_simps cx_twiddle len mult.commute)
    qed
    have y: "s * len + k = s * l2 * l1 + k1 + k2 * l1" by (simp add: kk(1) len [symmetric] algebra_simps)
    have "transposed l2 l1 (s * len + k) = (s * l1 + k1) * l2 + k2"
    proof -
      have p: "(s * len + k) mod l1 = k1" "(s * len + k) div l1 mod l2 = k2" "(s * len + k) div (l2 * l1) = s"
        unfolding y by (rule place_parts; use kk in simp)+
      show ?thesis unfolding transposed_parts p by (simp add: algebra_simps)
    qed
    then have "pass_val exact len batch data (s * len + k) = pass_val exact l2 (batch * l1) d2 ((s * l1 + k1) * l2 + k2)"
      using False below l(2) [folded l(1)] by (simp add: pass_val.simps [of _ len] Let_def l(1) [symmetric] d transpose_val_def)
    moreover have "s * l1 + k1 < batch * l1"
    proof -
      have "s * l1 + k1 < Suc s * l1" "Suc s * l1 \<le> batch * l1" using less.prems(2) kk(2) by (simp, intro mult_le_mono1) simp
      then show ?thesis by simp
    qed
    ultimately have "cx (pass_val exact len batch data (s * len + k)) = dft l2 (\<lambda>j. cx (d2 ((s * l1 + k1) * l2 + j))) k2"
      using less.IH [OF pos(4) sp(2) _ kk(3)] by simp
    also have "\<dots> = dft l2 (\<lambda>j. uroot (l1 * l2) ^ (j * k1) * dft l1 (\<lambda>i. cx (data (s * len + (j + i * l2)))) k1) k2"
      by (rule dft_cong) (rule z)
    also have "\<dots> = dft (l1 * l2) (\<lambda>j. cx (data (s * len + j))) (k1 + k2 * l1)" using dft_four_step [OF pos(1,2)] by simp
    finally show ?thesis by (simp only: len kk(1))
  qed
qed

end
