(* ===== verification/Fft.thy ===== *)
theory Fft
  imports Fft_Pass
begin

text \<open>Models the planner \<open>polars-metal-kernels/src/fft.rs\<close>: the choice among the radix-2, mixed-radix, four-step and Bluestein
  transforms, each in an interleaved and a planar form. A buffer of floats is the list of its contents, a host vector too.
  Every transform is shown to compute a value that depends neither on the layout nor on the order of groups and threads, and
  \<open>factorize\<close> is characterized. Sizes are below \<open>2 ^ 62\<close>, where the 64-bit expressions do not wrap.\<close>

section \<open>Factors\<close>

function strip :: "nat \<Rightarrow> nat \<Rightarrow> nat list \<Rightarrow> nat \<times> nat list" where
  "strip r rem out = (if 2 \<le> r \<and> 0 < rem \<and> rem mod r = 0 then strip r (rem div r) (out @ [r]) else (rem, out))"
  by pat_completeness auto

termination
  by (relation "measure (\<lambda>(r, rem, out). rem)") auto

declare strip.simps [simp del]

definition factorize :: "int \<Rightarrow> nat list option" where
  "factorize n =
     (if n \<le> 0 then None
      else if n = 1 then Some [1]
      else case foldl (\<lambda>(rem, out) r. strip r rem out) (nat n, []) [8, 7, 6, 5, 4, 3, 2] of
          (rem, out) \<Rightarrow> if rem \<noteq> 1 then None else Some out)"

definition is_pow2 :: "int \<Rightarrow> bool" where
  "is_pow2 n \<longleftrightarrow> n AND (n - 1) = 0"

text \<open>The number of bits, which is 64 minus the leading zeros of a 64-bit word.\<close>

fun bit_length :: "nat \<Rightarrow> nat" where
  "bit_length x = (if x = 0 then 0 else Suc (bit_length (x div 2)))"

declare bit_length.simps [simp del]

definition next_pow2 :: "nat \<Rightarrow> nat" where
  "next_pow2 x = (if x \<le> 1 then 1 else 2 ^ bit_length (x - 1))"

section \<open>Host arrays\<close>

definition float2_at :: "'f list \<Rightarrow> nat \<Rightarrow> 'f float2" where
  "float2_at xs i = (xs ! (2 * i), xs ! (2 * i + 1))"

definition interleave :: "nat \<Rightarrow> (nat \<Rightarrow> 'f float2) \<Rightarrow> 'f list" where
  "interleave n f = concat (map (\<lambda>i. [fst (f i), snd (f i)]) [0..<n])"

definition write_f32_into :: "'f list \<Rightarrow> 'f list \<Rightarrow> 'f list" where
  "write_f32_into dst xs = xs @ drop (length xs) dst"

definition copy_buf_into :: "'f list \<Rightarrow> 'f list \<Rightarrow> 'f list" where
  "copy_buf_into dst src = take (length dst) src"

text \<open>The loops over \<open>chunks_exact_mut(2)\<close>.\<close>

fun conj_pairs :: "'f real_ops \<Rightarrow> 'f list \<Rightarrow> 'f list" where
  "conj_pairs R (a # b # xs) = a # r_neg R b # conj_pairs R xs"
| "conj_pairs R xs = xs"

fun conj_scale :: "'f real_ops \<Rightarrow> 'f \<Rightarrow> 'f list \<Rightarrow> 'f list" where
  "conj_scale R scale (a # b # xs) = r_mul R a scale # r_mul R (r_neg R b) scale # conj_scale R scale xs"
| "conj_scale R scale xs = xs"

definition one_over :: "'f real_ops \<Rightarrow> nat \<Rightarrow> 'f" where
  "one_over R n = r_div R (r_nat R 1) (r_nat R n)"

definition zero_points :: "'f real_ops \<Rightarrow> nat \<Rightarrow> 'f float2" where
  "zero_points R i = (r_nat R 0, r_nat R 0)"

section \<open>Four-step and base transforms\<close>

definition fft_recursive_fourstep_buf :: "'f fft_device \<Rightarrow> 'f list \<Rightarrow> 'f list \<Rightarrow> int \<Rightarrow> bool \<Rightarrow> fft_error + 'f list" where
  "fft_recursive_fourstep_buf dev in_buf out_buf n invd =
     (let ntot = nat n; R = arith dev;
          out_buf = (if invd then write_f32_into out_buf (conj_pairs R in_buf) else copy_buf_into out_buf in_buf)
      in rbind (alloc dev (2 * ntot * 4)) (\<lambda>_.
         rbind (fft_pass dev ntot 1 0 (float2_at out_buf, zero_points R)) (\<lambda>(data, _).
         let out_buf = interleave ntot data in
         Inr (if invd then write_f32_into out_buf (conj_scale R (one_over R ntot) out_buf) else out_buf))))"

definition fft_recursive_fourstep_planar ::
  "'f fft_device \<Rightarrow> 'f list \<Rightarrow> 'f list \<Rightarrow> 'f list \<Rightarrow> 'f list \<Rightarrow> int \<Rightarrow> bool \<Rightarrow> fft_error + 'f list \<times> 'f list" where
  "fft_recursive_fourstep_planar dev re_in im_in re_out im_out n invd =
     (let ntot = nat n; R = arith dev;
          re_out = copy_buf_into re_out re_in;
          im_out = (if invd then write_f32_into im_out (map (r_neg R) im_in) else copy_buf_into im_out im_in)
      in rbind (alloc dev (ntot * 4)) (\<lambda>_.
         rbind (alloc dev (ntot * 4)) (\<lambda>_.
         rbind (fft_pass_planar dev ntot 1 0 (((!) re_out, (!) im_out), (\<lambda>_. r_nat R 0, \<lambda>_. r_nat R 0))) (\<lambda>((re, im), _).
         let re_out = map re [0..<ntot]; im_out = map im [0..<ntot]; scale = one_over R ntot in
         if invd then Inr (write_f32_into re_out (map (\<lambda>v. r_mul R v scale) re_out), write_f32_into im_out (map (\<lambda>v. r_mul R (r_neg R v) scale) im_out))
         else Inr (re_out, im_out)))))"

text \<open>The end of both planners: one group of at most 1024 threads.\<close>

definition base_transform :: "'f fft_device \<Rightarrow> 'f list \<Rightarrow> 'f list \<Rightarrow> int \<Rightarrow> bool \<Rightarrow> fft_error + 'f list" where
  "base_transform dev in_buf out_buf n invd =
     (let nn = nat n; tg = min nn fft_base_max in
      rbind (rmap (alloc dev) [4, 4]) (\<lambda>_.
      rbind (if is_pow2 n then
               dispatch_1d_with_tg dev ''fft_stockham_pow2_f32'' (\<lambda>env _ _. fft_stockham_pow2_f32 (arith dev) env (float2_at in_buf) nn invd)
                 tg tg (float2_at out_buf)
             else case factorize n of
                 Some radices \<Rightarrow>
                   rbind (rmap (alloc dev) [4 * length radices, 4]) (\<lambda>_.
                   dispatch_1d_with_tg dev ''fft_mixed_radix_f32'' (\<lambda>env _ _. fft_mixed_radix_f32 (arith dev) env (float2_at in_buf) nn invd radices)
                     tg tg (float2_at out_buf))
               | None \<Rightarrow> Inl (Unsupported n)) (\<lambda>out.
      Inr (interleave nn out))))"

definition base_transform_planar ::
  "'f fft_device \<Rightarrow> 'f list \<Rightarrow> 'f list \<Rightarrow> 'f list \<Rightarrow> 'f list \<Rightarrow> int \<Rightarrow> bool \<Rightarrow> fft_error + 'f list \<times> 'f list" where
  "base_transform_planar dev re_in im_in re_out im_out n invd =
     (let nn = nat n; tg = min nn fft_base_max; src = ((!) re_in, (!) im_in) in
      rbind (rmap (alloc dev) [4, 4]) (\<lambda>_.
      rbind (if is_pow2 n then
               dispatch_1d_with_tg dev ''fft_stockham_pow2_planar_f32'' (\<lambda>env _ _. fft_stockham_pow2_planar_f32 (arith dev) env src nn invd)
                 tg tg ((!) re_out, (!) im_out)
             else case factorize n of
                 Some radices \<Rightarrow>
                   rbind (rmap (alloc dev) [4 * length radices, 4]) (\<lambda>_.
                   dispatch_1d_with_tg dev ''fft_mixed_radix_planar_f32'' (\<lambda>env _ _. fft_mixed_radix_planar_f32 (arith dev) env src nn invd radices)
                     tg tg ((!) re_out, (!) im_out))
               | None \<Rightarrow> Inl (Unsupported n)) (\<lambda>(re, im).
      Inr (map re [0..<nn], map im [0..<nn]))))"

section \<open>Bluestein\<close>

text \<open>64-bit arithmetic of the host and the conversions.\<close>

record ('f, 'd) wide_ops =
  wops :: "'d real_ops"
  widen :: "'f \<Rightarrow> 'd"
  narrow :: "'d \<Rightarrow> 'f"

definition widen2 :: "('f, 'd) wide_ops \<Rightarrow> 'f float2 \<Rightarrow> 'd float2" where
  "widen2 W v = (widen W (fst v), widen W (snd v))"

definition narrow2 :: "('f, 'd) wide_ops \<Rightarrow> 'd float2 \<Rightarrow> 'f float2" where
  "narrow2 W v = (narrow W (fst v), narrow W (snd v))"

definition chirp_point :: "'d real_ops \<Rightarrow> nat \<Rightarrow> nat \<Rightarrow> 'd float2" where
  "chirp_point D n mi =
     (let mm = (mi * mi) mod (2 * n); angle = r_div D (r_mul D (r_neg D (r_pi D)) (r_nat D mm)) (r_nat D n) in (r_cos D angle, r_sin D angle))"

definition filter_point :: "('f, 'd) wide_ops \<Rightarrow> nat \<Rightarrow> nat \<Rightarrow> 'f float2" where
  "filter_point W n mi = (case chirp_point (wops W) n mi of (br, bi) \<Rightarrow> narrow2 W (br, r_neg (wops W) bi))"

text \<open>The transforms of size \<open>m\<close> go back to \<open>fft_gpu\<close>, which is the argument \<open>fft\<close>.\<close>

definition bluestein ::
  "'f real_ops \<Rightarrow> ('f, 'd) wide_ops \<Rightarrow> ('f list \<Rightarrow> int \<Rightarrow> bool \<Rightarrow> fft_error + 'f list) \<Rightarrow> 'f list \<Rightarrow> nat \<Rightarrow> fft_error + 'f list" where
  "bluestein R W fft input n =
     (let m = next_pow2 (2 * n - 1); D = wops W;
          a = interleave m (\<lambda>i. if i < n then narrow2 W (cmul D (widen2 W (float2_at input i)) (chirp_point D n i)) else zero_points R i);
          h = interleave m (foldl (\<lambda>h mi. h(mi := filter_point W n mi, m - mi := filter_point W n mi))
                ((zero_points R)(0 := filter_point W n 0)) [1..<n])
      in rbind (fft a (int m) False) (\<lambda>fa.
         rbind (fft h (int m) False) (\<lambda>fh.
         let c = interleave m (\<lambda>i. narrow2 W (cmul D (widen2 W (float2_at fa i)) (widen2 W (float2_at fh i)))) in
         rbind (fft c (int m) True) (\<lambda>conv.
         Inr (interleave n (\<lambda>k. narrow2 W (cmul D (chirp_point D n k) (widen2 W (float2_at conv k)))))))))"

definition bluestein_dispatch ::
  "'f real_ops \<Rightarrow> ('f, 'd) wide_ops \<Rightarrow> ('f list \<Rightarrow> int \<Rightarrow> bool \<Rightarrow> fft_error + 'f list) \<Rightarrow> 'f list \<Rightarrow> int \<Rightarrow> bool \<Rightarrow> fft_error + 'f list" where
  "bluestein_dispatch R W fft input n invd =
     (if n < 2 then Inl (Unsupported n)
      else if next_pow2 (2 * nat n - 1) > 2 ^ 30 then Inl (Unsupported n)
      else if \<not> invd then bluestein R W fft input (nat n)
      else rbind (bluestein R W fft (conj_pairs R input) (nat n)) (\<lambda>out. Inr (conj_scale R (one_over R (nat n)) out)))"

definition bluestein_bridge ::
  "'f real_ops \<Rightarrow> ('f, 'd) wide_ops \<Rightarrow> ('f list \<Rightarrow> int \<Rightarrow> bool \<Rightarrow> fft_error + 'f list) \<Rightarrow> 'f list \<Rightarrow> 'f list \<Rightarrow> int \<Rightarrow> bool \<Rightarrow> fft_error + 'f list" where
  "bluestein_bridge R W fft in_buf out_buf n invd =
     rbind (bluestein_dispatch R W fft in_buf n invd) (\<lambda>result. Inr (write_f32_into out_buf result))"

text \<open>The planners. \<open>fft_gpu_buf\<close> takes \<open>fft_gpu\<close> as an argument, the two being mutually recursive.\<close>

definition fft_gpu_buf ::
  "'f fft_device \<Rightarrow> ('f, 'd) wide_ops \<Rightarrow> ('f list \<Rightarrow> int \<Rightarrow> bool \<Rightarrow> fft_error + 'f list) \<Rightarrow> 'f list \<Rightarrow> 'f list \<Rightarrow> int \<Rightarrow> bool \<Rightarrow> fft_error + 'f list" where
  "fft_gpu_buf dev W fft in_buf out_buf n invd =
     (if n \<le> 0 then Inl (Unsupported n)
      else if n > int fft_base_max then
        if is_pow2 n then
          if n > 2 ^ 30 then Inl (Unsupported n) else fft_recursive_fourstep_buf dev in_buf out_buf n invd
        else bluestein_bridge (arith dev) W fft in_buf out_buf n invd
      else if \<not> is_pow2 n \<and> factorize n = None then bluestein_bridge (arith dev) W fft in_buf out_buf n invd
      else base_transform dev in_buf out_buf n invd)"

section \<open>Powers of two\<close>

lemma is_pow2_power: "is_pow2 (2 ^ k)"
  using take_bit_eq_mask [of k "2 ^ k :: int"] by (simp add: is_pow2_def mask_eq_exp_minus_1 [symmetric] take_bit_eq_mod)

lemma is_pow2_iff: "0 < n \<Longrightarrow> is_pow2 (int n) \<longleftrightarrow> (\<exists>k. n = 2 ^ k)"
proof (induction n rule: less_induct)
  case (less n)
  have r: "int n AND (int n - 1) = of_bool (odd (int n) \<and> odd (int n - 1)) + 2 * (int n div 2 AND (int n - 1) div 2)" by (rule and_rec)
  show ?case
  proof (cases "even n")
    case True
    then obtain m where m: "n = 2 * m" by blast
    have "(int n - 1) div 2 = int m - 1" "int n div 2 = int m" using m by simp_all
    then have "is_pow2 (int n) \<longleftrightarrow> is_pow2 (int m)" using r m by (simp add: is_pow2_def)
    also have "\<dots> \<longleftrightarrow> (\<exists>k. m = 2 ^ k)" using less m by simp
    also have "\<dots> \<longleftrightarrow> (\<exists>k. n = 2 ^ k)"
    proof
      assume "\<exists>k. n = 2 ^ k"
      then obtain k where "2 * m = 2 ^ k" using m by auto
      then show "\<exists>k. m = 2 ^ k" by (cases k) auto
    qed (auto simp: m simp flip: power_Suc)
    finally show ?thesis .
  next
    case False
    then obtain m where m: "n = 2 * m + 1" by (rule oddE)
    have d: "int n div 2 = int m" "(int n - 1) div 2 = int m" using m by simp_all
    have "is_pow2 (int n) \<longleftrightarrow> m = 0" using r unfolding is_pow2_def d by (simp add: m)
    also have "\<dots> \<longleftrightarrow> (\<exists>k. n = 2 ^ k)"
    proof
      assume "\<exists>k. n = 2 ^ k"
      then obtain k where "n = 2 ^ k" ..
      then have "n = 1" using False by (cases k) simp_all
      then show "m = 0" using m by simp
    qed (auto simp: m intro: exI [of _ 0])
    finally show ?thesis .
  qed
qed

lemma bit_length_bounds: "0 < x \<Longrightarrow> 2 ^ (bit_length x - 1) \<le> x \<and> x < 2 ^ bit_length x \<and> 0 < bit_length x"
proof (induction x rule: bit_length.induct)
  case (1 x)
  show ?case
  proof (cases "x div 2 = 0")
    case True
    then show ?thesis using "1.prems" by (simp add: bit_length.simps [of x] bit_length.simps [of 0])
  next
    case False
    then have IH: "2 ^ (bit_length (x div 2) - 1) \<le> x div 2" "x div 2 < 2 ^ bit_length (x div 2)" "0 < bit_length (x div 2)"
      using "1.IH" "1.prems" by simp_all
    then obtain b where "bit_length (x div 2) = Suc b" using gr0_conv_Suc by blast
    then have "bit_length x = Suc (Suc b)" "2 ^ b \<le> x div 2" "x div 2 < 2 * 2 ^ b" using IH "1.prems" by (simp_all add: bit_length.simps [of x])
    moreover from this have "2 * 2 ^ b \<le> x" "x < 4 * 2 ^ b" by linarith+
    ultimately show ?thesis by simp
  qed
qed

text \<open>The least power of two that is not below \<open>x\<close>.\<close>

lemma next_pow2_least: "x \<le> next_pow2 x" "\<exists>k. next_pow2 x = 2 ^ k" "x \<le> 2 ^ k \<Longrightarrow> next_pow2 x \<le> 2 ^ k"
proof -
  show "x \<le> next_pow2 x" using bit_length_bounds [of "x - 1"] by (auto simp: next_pow2_def)
  show "\<exists>k. next_pow2 x = 2 ^ k" by (auto simp: next_pow2_def intro: exI [of _ 0])
  assume x: "x \<le> 2 ^ k"
  show "next_pow2 x \<le> 2 ^ k"
  proof (cases "x \<le> 1")
    case False
    then have c: "2 ^ (bit_length (x - 1) - 1) \<le> x - 1" "0 < bit_length (x - 1)" "x - 1 < x" using bit_length_bounds [of "x - 1"] by simp_all
    then have b: "2 ^ (bit_length (x - 1) - 1) < (2 :: nat) ^ k" "0 < bit_length (x - 1)" using x by (linarith, simp)
    have "bit_length (x - 1) - 1 < k" by (rule power_less_imp_less_exp [OF _ b(1)]) simp
    then have "bit_length (x - 1) \<le> k" using b(2) by simp
    then show ?thesis using False by (simp add: next_pow2_def power_increasing)
  qed (simp add: next_pow2_def)
qed

section \<open>The recursion ends\<close>

lemma interleave_Suc: "interleave (Suc n) f = fst (f 0) # snd (f 0) # interleave n (\<lambda>i. f (Suc i))"
  by (simp add: interleave_def upt_conv_Cons map_Suc_upt [symmetric] comp_def del: upt_Suc)

lemma interleave_length [simp]: "length (interleave n f) = 2 * n"
  by (induction n arbitrary: f) (simp_all add: interleave_Suc, simp add: interleave_def)

lemma bluestein_dispatch_cong:
  assumes "\<And>xs m b. is_pow2 m \<Longrightarrow> length xs = 2 * nat m \<Longrightarrow> fft xs m b = fft' xs m b"
  shows "bluestein_dispatch R W fft input n invd = bluestein_dispatch R W fft' input n invd"
proof -
  have "is_pow2 (int (next_pow2 x))" for x using next_pow2_least(2) [of x] is_pow2_power by (metis of_nat_numeral of_nat_power)
  then have "bluestein R W fft input n = bluestein R W fft' input n" for input n by (simp add: bluestein_def assms)
  then show ?thesis by (simp add: bluestein_dispatch_def)
qed

lemma fft_gpu_buf_cong [fundef_cong]:
  assumes "dev = dev'" "W = W'" "in_buf = in_buf'" "out_buf = out_buf'" "n = n'" "invd = invd'"
    and "\<And>xs m b. \<not> is_pow2 n' \<Longrightarrow> is_pow2 m \<Longrightarrow> fft xs m b = fft' xs m b"
  shows "fft_gpu_buf dev W fft in_buf out_buf n invd = fft_gpu_buf dev' W' fft' in_buf' out_buf' n' invd'"
proof (cases "is_pow2 n'")
  case False
  then have "bluestein_dispatch R W' fft input n invd = bluestein_dispatch R W' fft' input n invd" for R input n invd
    by (intro bluestein_dispatch_cong assms(7))
  then show ?thesis using assms(1-6) by (simp add: fft_gpu_buf_def bluestein_bridge_def)
next
  case True
  then show ?thesis using assms(1-6) by (simp add: fft_gpu_buf_def)
qed

function fft_gpu :: "'f fft_device \<Rightarrow> ('f, 'd) wide_ops \<Rightarrow> 'f list \<Rightarrow> int \<Rightarrow> bool \<Rightarrow> fft_error + 'f list" where
  "fft_gpu dev W input n invd =
     (if n \<le> 0 then Inl (Unsupported n)
      else rbind (alloc dev (4 * length input)) (\<lambda>_.
        rbind (alloc dev (2 * nat n * 4)) (\<lambda>_.
        fft_gpu_buf dev W (fft_gpu dev W) input (replicate (2 * nat n) (r_nat (arith dev) 0)) n invd)))"
  by pat_completeness auto

termination
  by (relation "measure (\<lambda>(dev, W, input, n, invd). of_bool (\<not> is_pow2 n))") auto

declare fft_gpu.simps [simp del]

definition bluestein_bridge_planar ::
  "'f fft_device \<Rightarrow> ('f, 'd) wide_ops \<Rightarrow> 'f list \<Rightarrow> 'f list \<Rightarrow> 'f list \<Rightarrow> 'f list \<Rightarrow> int \<Rightarrow> bool \<Rightarrow> fft_error + 'f list \<times> 'f list" where
  "bluestein_bridge_planar dev W re_in im_in re_out im_out n invd =
     (let nn = nat n; inter = interleave nn (\<lambda>i. (re_in ! i, im_in ! i)) in
      rbind (bluestein_dispatch (arith dev) W (fft_gpu dev W) inter n invd) (\<lambda>result.
      Inr (write_f32_into re_out (map (\<lambda>i. result ! (2 * i)) [0..<nn]), write_f32_into im_out (map (\<lambda>i. result ! (2 * i + 1)) [0..<nn]))))"

definition fft_gpu_planar_core ::
  "'f fft_device \<Rightarrow> ('f, 'd) wide_ops \<Rightarrow> 'f list \<Rightarrow> 'f list \<Rightarrow> 'f list \<Rightarrow> 'f list \<Rightarrow> int \<Rightarrow> bool \<Rightarrow> fft_error + 'f list \<times> 'f list" where
  "fft_gpu_planar_core dev W re_in im_in re_out im_out n invd =
     (if n \<le> 0 then Inl (Unsupported n)
      else if n > int fft_base_max then
        if is_pow2 n then
          if n > 2 ^ 30 then Inl (Unsupported n) else fft_recursive_fourstep_planar dev re_in im_in re_out im_out n invd
        else bluestein_bridge_planar dev W re_in im_in re_out im_out n invd
      else if \<not> is_pow2 n \<and> factorize n = None then bluestein_bridge_planar dev W re_in im_in re_out im_out n invd
      else base_transform_planar dev re_in im_in re_out im_out n invd)"

section \<open>Lists of pairs\<close>

lemma interleave_nth: "i < n \<Longrightarrow> interleave n f ! (2 * i) = fst (f i) \<and> interleave n f ! Suc (2 * i) = snd (f i)"
proof (induction n arbitrary: f i)
  case (Suc n)
  then show ?case by (cases i) (simp_all add: interleave_Suc)
qed simp

lemma float2_at_interleave [simp]: "i < n \<Longrightarrow> float2_at (interleave n f) i = f i"
  by (simp add: float2_at_def interleave_nth)

lemma interleave_cong: "(\<And>i. i < n \<Longrightarrow> f i = g i) \<Longrightarrow> interleave n f = interleave n g"
  unfolding interleave_def by (intro arg_cong [where f = concat] map_cong) simp_all

lemma interleave_float2_at: "length xs = 2 * n \<Longrightarrow> interleave n (float2_at xs) = xs"
proof (rule list_eq_by_nth)
  fix j assume "length xs = 2 * n" "j < length xs"
  then show "interleave n (float2_at xs) ! j = xs ! j"
    using interleave_nth [of "j div 2" n "float2_at xs"] by (cases "even j") (auto simp: float2_at_def elim!: evenE oddE)
qed simp

lemma conj_pairs_interleave: "conj_pairs R (interleave n f) = interleave n (\<lambda>i. conj_if R True (f i))"
  by (induction n arbitrary: f) (simp_all add: interleave_Suc conj_if_def, simp_all add: interleave_def)

definition conj_scaled :: "'f real_ops \<Rightarrow> nat \<Rightarrow> 'f float2 \<Rightarrow> 'f float2" where
  "conj_scaled R n v = (r_mul R (fst v) (one_over R n), r_mul R (r_neg R (snd v)) (one_over R n))"

lemma conj_scale_interleave: "conj_scale R (one_over R m) (interleave n f) = interleave n (\<lambda>i. conj_scaled R m (f i))"
  by (induction n arbitrary: f) (simp_all add: interleave_Suc conj_scaled_def, simp_all add: interleave_def)

lemma conj_if_False [simp]: "conj_if R False v = v"
  by (simp add: conj_if_def)

lemma conj_pairs_list: "length xs = 2 * n \<Longrightarrow> conj_pairs R xs = interleave n (\<lambda>i. conj_if R True (float2_at xs i))"
  using conj_pairs_interleave [of R n "float2_at xs"] by (simp add: interleave_float2_at)

section \<open>Values of the direct transforms\<close>

text \<open>Sizes that are transformed without Bluestein.\<close>

definition direct :: "int \<Rightarrow> bool" where
  "direct n \<longleftrightarrow> 0 < n \<and> (is_pow2 n \<and> n \<le> 2 ^ 30 \<or> n \<le> int fft_base_max \<and> factorize n \<noteq> None)"

definition direct_val :: "'f real_ops \<Rightarrow> int \<Rightarrow> bool \<Rightarrow> (nat \<Rightarrow> 'f float2) \<Rightarrow> nat \<Rightarrow> 'f float2" where
  "direct_val R n invd x k =
     (let nn = nat n in
      if n > int fft_base_max then
        let v = pass_val R nn 1 (\<lambda>i. conj_if R invd (x i)) k in if invd then conj_scaled R nn v else v
      else if is_pow2 n then vscale R (pow2_val R nn invd x k) (end_scale R nn invd)
      else vscale R (conj_if R invd (mixed_fold R nn (the (factorize n)) (\<lambda>i. conj_if R invd (x i)) 1 k)) (end_scale R nn invd))"

text \<open>Values only depend on the elements of the signal.\<close>

lemma pass_val_cong:
  "\<lbrakk>len = 2 ^ e; agree (batch * len) d d'\<rbrakk> \<Longrightarrow> agree (batch * len) (pass_val R len batch d) (pass_val R len batch d')"
proof (induction len arbitrary: e batch d d' rule: less_induct)
  case (less len)
  show ?case
  proof (cases "len \<le> fft_base_max")
    case True
    have "batched_val R len batch d x = batched_val R len batch d' x" if x: "x < batch * len" for x
    proof -
      have "x div len < batch" using x less.prems(1) by (simp add: div_less_iff_less_mult)
      have "x div len * len + i < batch * len" if "i < len" for i
      proof -
        have "x div len * len + i < Suc (x div len) * len" "Suc (x div len) * len \<le> batch * len"
          using that \<open>x div len < batch\<close> by (simp, intro mult_le_mono1) simp
        then show ?thesis by simp
      qed
      then show ?thesis using less.prems(2) x unfolding batched_val_def less.prems(1)
        by (simp, intro pow2_val_cong) (simp_all add: agree_def)
    qed
    then show ?thesis using True by (simp add: pass_val.simps [of _ len] agree_def)
  next
    case False
    define l1 l2 where l: "l1 = fft_base_max" "l2 = len div fft_base_max"
    note sp = pass_split [OF less.prems(1) False, folded l]
    have pos: "0 < l1" "0 < l2" "l2 < len" using sp less.prems(1) by (auto simp: power_strict_increasing_iff intro: gr0I)
    have c: "cols_val R l1 l2 batch d x = cols_val R l1 l2 batch d' x" if x: "x < batch * (l1 * l2)" for x
    proof -
      have b: "x div (l1 * l2) < batch" using x pos by (simp add: div_less_iff_less_mult)
      have "x div (l1 * l2) * (l1 * l2) + x mod l2 + i * l2 < batch * (l1 * l2)" if "i < l1" for i
      proof -
        have "(x div (l1 * l2) * l1 * l2 + x mod l2 + i * l2) div (l1 * l2) = x div (l1 * l2)"
          using place_parts(3) [of "x mod l2" l2 i l1 "x div (l1 * l2)"] that pos by simp
        then have "(x div (l1 * l2) * (l1 * l2) + x mod l2 + i * l2) div (l1 * l2) < batch" using b by (simp only: mult.assoc)
        then show ?thesis using pos by (simp only: div_less_iff_less_mult nat_0_less_mult_iff)
      qed
      then show ?thesis using less.prems(2) x pos unfolding cols_val_def sp(4)
        by (simp only: if_True) (rule pow2_val_cong; use less.prems(2) pos sp in \<open>simp add: agree_def\<close>)
    qed
    have n: "batch * (l1 * l2) = batch * len" "batch * l1 * l2 = batch * len" by (simp_all add: sp(3) mult.assoc)
    let ?t = "\<lambda>d. twiddle_val R l2 len (batch * len) (cols_val R l1 l2 batch d)"
    have "agree (batch * l1 * l2) (?t d) (?t d')" using c by (simp add: n agree_def twiddle_val_def)
    then have "agree (batch * l1 * l2) (pass_val R l2 (batch * l1) (?t d)) (pass_val R l2 (batch * l1) (?t d'))"
      by (rule less.IH [OF pos(3) sp(2)])
    then have "agree (batch * len) (pass_val R l2 (batch * l1) (?t d)) (pass_val R l2 (batch * l1) (?t d'))" by (simp only: n)
    moreover have "transposed l2 l1 x < batch * len" if "x < batch * len" for x
      using transposed_below [OF pos(2,1), of x batch] that n by (simp add: mult.commute [of l2])
    ultimately show ?thesis
      using False l(2) [folded l(1)] by (simp add: pass_val.simps [of _ len] Let_def l(1) [symmetric] agree_def transpose_val_def n)
  qed
qed

lemma mixed_fold_cong:
  assumes "agree n a x" and "n = prod_list rs" and "\<And>r. r \<in> set rs \<Longrightarrow> 0 < r" and "k < n"
  shows "mixed_fold R n rs a 1 k = mixed_fold R n rs x 1 k"
proof -
  have t: "set ((\<lambda>_. [0]) s) = {..<1 :: nat}" "0 < (1 :: nat)" for s :: nat by auto
  have v: "\<exists>src dst p' s'. mixed_stages R (\<lambda>_. [0]) 1 n rs (a, a, 1, 1) = (src, dst, p', s') \<and> agree n src (mixed_fold R n rs y 1)"
    if "agree n a y" for y
    by (rule mixed_stages_val [OF t that]) (use assms in simp_all)
  from v [OF assms(1)] v [OF agree_refl] show ?thesis using assms(4) by (auto simp: agree_def)
qed

section \<open>factorize\<close>

lemma strip_spec:
  "\<lbrakk>2 \<le> r; 0 < rem\<rbrakk> \<Longrightarrow> \<exists>rem' k. strip r rem out = (rem', out @ replicate k r) \<and> rem = rem' * r ^ k \<and> 0 < rem' \<and> \<not> r dvd rem'"
proof (induction r rem out rule: strip.induct)
  case (1 r rem out)
  show ?case
  proof (cases "r dvd rem")
    case True
    then have m: "rem mod r = 0" "0 < rem div r" using "1.prems" by (auto simp: dvd_imp_le div_greater_zero_iff)
    obtain rem' k where k: "strip r (rem div r) (out @ [r]) = (rem', (out @ [r]) @ replicate k r)" "rem div r = rem' * r ^ k" "0 < rem'" "\<not> r dvd rem'"
      using "1.IH" "1.prems" m by blast
    have "rem = rem' * r ^ Suc k" using dvd_div_mult_self [OF True] k(2) by (simp add: ac_simps)
    then show ?thesis using k "1.prems" m by (subst strip.simps) (auto intro!: exI [of _ "Suc k"])
  next
    case False
    then show ?thesis using "1.prems" by (subst strip.simps) (auto intro: exI [of _ 0] simp: dvd_eq_mod_eq_0)
  qed
qed

lemma strip_all:
  "\<lbrakk>\<forall>r \<in> set rs. 2 \<le> r; 0 < n\<rbrakk> \<Longrightarrow> \<exists>rem out. foldl (\<lambda>(rem, out) r. strip r rem out) (n, []) rs = (rem, out) \<and>
    n = rem * prod_list out \<and> 0 < rem \<and> set out \<subseteq> set rs \<and> (\<forall>r \<in> set rs. \<not> r dvd rem)"
proof (induction rs rule: rev_induct)
  case (snoc r rs)
  then obtain rem out where 1: "foldl (\<lambda>(rem, out) r. strip r rem out) (n, []) rs = (rem, out)" "n = rem * prod_list out" "0 < rem"
    "set out \<subseteq> set rs" "\<forall>r \<in> set rs. \<not> r dvd rem" by auto
  obtain rem' k where 2: "strip r rem out = (rem', out @ replicate k r)" "rem = rem' * r ^ k" "0 < rem'" "\<not> r dvd rem'"
    using strip_spec [of r rem out] snoc.prems(1) 1(3) by auto
  have "\<not> r' dvd rem'" if "r' \<in> set rs" for r' using 1(5) that unfolding 2(2) by auto
  moreover have "set (out @ replicate k r) \<subseteq> insert r (set rs)" using 1(4) by auto
  ultimately show ?case using 1 2 by (simp add: prod_list_replicate ac_simps)
qed simp

inductive smooth_number :: "nat \<Rightarrow> bool" where
  smooth_one: "smooth_number 1"
| smooth_step: "p \<in> {2, 3, 5, 7} \<Longrightarrow> smooth_number m \<Longrightarrow> smooth_number (p * m)"

lemma smooth_mult: "smooth_number a \<Longrightarrow> smooth_number b \<Longrightarrow> smooth_number (a * b)"
  by (induction rule: smooth_number.induct) (auto simp: mult.assoc simp del: insert_iff intro: smooth_step)

lemma smooth_small: "2 \<le> r \<Longrightarrow> r \<le> 8 \<Longrightarrow> smooth_number r"
proof -
  have p: "smooth_number p" if "p \<in> {2, 3, 5, 7}" for p using smooth_step [OF that smooth_one] by simp
  then have "smooth_number (2 * 2)" "smooth_number (2 * 3)" "smooth_number (2 * (2 * 2))" by (intro smooth_mult; simp)+
  moreover assume "2 \<le> r" "r \<le> 8"
  then have "r = 2 \<or> r = 3 \<or> r = 2 * 2 \<or> r = 5 \<or> r = 2 * 3 \<or> r = 7 \<or> r = 2 * (2 * 2)" by linarith
  ultimately show ?thesis using p by auto
qed

lemma smooth_dvd: "smooth_number n \<Longrightarrow> m dvd n \<Longrightarrow> smooth_number m"
proof (induction arbitrary: m rule: smooth_number.induct)
  case (smooth_step p n)
  show ?case
  proof (cases "p dvd m")
    case True
    then obtain m' where m: "m = p * m'" by blast
    then have "m' dvd n" using smooth_step by auto
    then show ?thesis unfolding m using smooth_step by (intro smooth_number.smooth_step) auto
  next
    case False
    have "gcd m p dvd p" "gcd m p \<noteq> p" using False by (metis gcd_dvd2, metis gcd_dvd1)
    moreover have "d = 1" if "d dvd p" "d \<noteq> p" for d
    proof -
      have "d \<le> 7" using that smooth_step(1) by (auto dest!: dvd_imp_le)
      then have "d = 0 \<or> d = 1 \<or> d = 2 \<or> d = 3 \<or> d = 4 \<or> d = 5 \<or> d = 6 \<or> d = 7" by linarith
      then show ?thesis using that smooth_step(1) by auto
    qed
    ultimately have "gcd m p = 1" by blast
    then have "coprime m p" by (simp only: coprime_iff_gcd_eq_1)
    then have "m dvd n" using smooth_step.prems by (simp add: coprime_dvd_mult_right_iff)
    then show ?thesis by (rule smooth_step.IH)
  qed
qed (simp add: smooth_one [simplified])

lemma smooth_iff: "smooth_number n \<longleftrightarrow> (\<exists>a b c d. n = 2 ^ a * 3 ^ b * 5 ^ c * 7 ^ d)"
proof
  assume "smooth_number n"
  then show "\<exists>a b c d. n = 2 ^ a * 3 ^ b * 5 ^ c * 7 ^ d"
  proof induction
    case (smooth_step p m)
    then obtain a b c d where m: "m = 2 ^ a * 3 ^ b * 5 ^ c * 7 ^ d" by blast
    have "p * m = 2 ^ (a + of_bool (p = 2)) * 3 ^ (b + of_bool (p = 3)) * 5 ^ (c + of_bool (p = 5)) * 7 ^ (d + of_bool (p = 7))"
      using smooth_step(1) by (auto simp: m power_add)
    then show ?case by blast
  qed (auto intro!: exI [of _ 0])
next
  have "smooth_number (p ^ k)" if "smooth_number p" for p k using that by (induction k) (auto intro: smooth_mult simp: smooth_one [simplified])
  moreover assume "\<exists>a b c d. n = 2 ^ a * 3 ^ b * 5 ^ c * 7 ^ d"
  ultimately show "smooth_number n" by (auto intro!: smooth_mult simp: smooth_small)
qed

lemma factorize_stripped:
  assumes "1 < n"
  obtains rem out where "factorize n = (if rem \<noteq> 1 then None else Some out)" "nat n = rem * prod_list out"
    "\<forall>r \<in> set out. 2 \<le> r \<and> r \<le> 8" "\<not> 7 dvd rem" "\<not> 5 dvd rem" "\<not> 3 dvd rem" "\<not> 2 dvd rem"
proof -
  define rs :: "nat list" where rs: "rs = [8, 7, 6, 5, 4, 3, 2]"
  have "\<forall>r \<in> set rs. 2 \<le> r" "0 < nat n" using assms by (simp_all add: rs)
  from strip_all [OF this] obtain rem out where s: "foldl (\<lambda>(rem, out) r. strip r rem out) (nat n, []) rs = (rem, out)"
    "nat n = rem * prod_list out" "set out \<subseteq> set rs" "\<forall>r \<in> set rs. \<not> r dvd rem" by blast
  have "factorize n = (if rem \<noteq> 1 then None else Some out)" using assms s(1) unfolding factorize_def rs by simp
  then show ?thesis by (rule that) (use s(2-4) in \<open>auto simp: rs\<close>)
qed

text \<open>\<open>factorize\<close> succeeds exactly on the positive numbers without a prime factor above 7; for numbers above 1 it then lists
  factors between 2 and 8 whose product is the number.\<close>

theorem factorize_correct:
  "(factorize n \<noteq> None \<longleftrightarrow> 0 < n \<and> (\<exists>a b c d. n = 2 ^ a * 3 ^ b * 5 ^ c * 7 ^ d)) \<and>
    (\<forall>rs. factorize n = Some rs \<and> 1 < n \<longrightarrow> int (prod_list rs) = n \<and> (\<forall>r \<in> set rs. 2 \<le> r \<and> r \<le> 8))"
proof -
  consider "n \<le> 0" | "n = 1" | "1 < n" by linarith
  then show ?thesis
  proof cases
    case 2
    then show ?thesis by (auto simp: factorize_def intro!: exI [of _ 0])
  next
    case 3
    then obtain rem out where f: "factorize n = (if rem \<noteq> 1 then None else Some out)" and n: "nat n = rem * prod_list out"
      and out: "\<forall>r \<in> set out. 2 \<le> r \<and> r \<le> 8" and rem: "\<not> 7 dvd rem" "\<not> 5 dvd rem" "\<not> 3 dvd rem" "\<not> 2 dvd rem"
      by (rule factorize_stripped)
    have "smooth_number (prod_list out)" using out by (induction out) (auto intro: smooth_mult simp: smooth_small smooth_one [simplified])
    have "smooth_number (nat n) \<longleftrightarrow> rem = 1"
    proof
      assume "smooth_number (nat n)"
      then have "smooth_number rem" by (rule smooth_dvd) (simp add: n)
      then show "rem = 1" by cases (use rem in auto)
    qed (use \<open>smooth_number (prod_list out)\<close> n in simp)
    moreover have "smooth_number (nat n) \<longleftrightarrow> (\<exists>a b c d. n = 2 ^ a * 3 ^ b * 5 ^ c * 7 ^ d)"
    proof -
      have "nat n = 2 ^ a * 3 ^ b * 5 ^ c * 7 ^ d \<longleftrightarrow> n = 2 ^ a * 3 ^ b * 5 ^ c * 7 ^ d" for a b c d
        using 3 by (auto simp: nat_eq_iff)
      then show ?thesis by (simp add: smooth_iff)
    qed
    ultimately have "factorize n \<noteq> None \<longleftrightarrow> 0 < n \<and> (\<exists>a b c d. n = 2 ^ a * 3 ^ b * 5 ^ c * 7 ^ d)" using 3 unfolding f by simp
    moreover have "int (prod_list rs) = n \<and> (\<forall>r \<in> set rs. 2 \<le> r \<and> r \<le> 8)" if "factorize n = Some rs" for rs
      using that out n 3 unfolding f by (auto split: if_splits)
    ultimately show ?thesis by blast
  qed (simp add: factorize_def)
qed

lemma strip_steps:
  "2 \<le> r \<Longrightarrow> 0 < rem \<Longrightarrow> rem mod r = 0 \<Longrightarrow> strip r rem out = strip r (rem div r) (out @ [r])"
  "rem mod r \<noteq> 0 \<Longrightarrow> strip r rem out = (rem, out)"
  by (simp_all add: strip.simps [of r rem])

lemma factorize_correct_witness:
  "factorize 360 = Some [8, 5, 3, 3] \<and> int (prod_list [8, 5, 3, 3]) = 360 \<and> factorize 22 = None"
proof -
  have f: "factorize 360 = Some [8, 5, 3, 3]" by (simp add: factorize_def strip_steps)
  have "factorize 360 = Some [8, 5, 3, 3] \<and> (1::int) < 360" using f by simp
  from mp [OF spec [OF conjunct2 [OF factorize_correct [of 360]], of "[8, 5, 3, 3]"] this]
  have "int (prod_list [8, 5, 3, 3]) = 360" by (rule conjunct1)
  moreover have "factorize 22 = None" by (simp add: factorize_def strip_steps)
  ultimately show ?thesis using f by blast
qed

lemma factorize_radices:
  assumes "factorize n = Some rs" "\<not> is_pow2 n" "0 < n"
  shows "prod_list rs = nat n" and "\<forall>r \<in> set rs. 2 \<le> r \<and> r \<le> 8"
proof -
  have "n \<noteq> 1" using assms(2) is_pow2_power [of 0] by auto
  then have "1 < n" using assms(3) by simp
  then show "prod_list rs = nat n" "\<forall>r \<in> set rs. 2 \<le> r \<and> r \<le> 8"
    by (rule factorize_stripped; use assms(1) in \<open>auto split: if_splits\<close>)+
qed

section \<open>Direct transforms, in both layouts\<close>

lemma is_pow2D: "is_pow2 n \<Longrightarrow> 0 < n \<Longrightarrow> \<exists>e. nat n = 2 ^ e"
  using is_pow2_iff [of "nat n"] by simp

lemma one_group:
  assumes "lawful_fft_device dev" "0 < w" "w \<le> 1024"
  shows "dispatch_1d_with_tg dev k body w w d = Inr (body (group_env_of dev k w 0) 0 0 d)"
proof -
  have "distinct (group_order dev k 1)" "set (group_order dev k 1) = {0}" using assms(1) by (auto simp: lawful_fft_device_def)
  then have "group_order dev k 1 = [0]" by (metis distinct_card distinct_length_2_or_more empty_iff insert_iff length_0_conv list.exhaust list.set_intros(1) list.set_intros(2) list.set(1) singletonD)
  then show ?thesis using dispatch_groups [OF assms, of 1 k body d] by simp
qed

theorem base_transform_val:
  assumes dev: "lawful_fft_device dev" "granting dev" and n: "direct n" "n \<le> int fft_base_max"
  shows "base_transform dev in_buf out_buf n invd = Inr (interleave (nat n) (direct_val (arith dev) n invd (float2_at in_buf)))"
proof -
  have w: "0 < nat n" "nat n \<le> 1024" using n by (simp_all add: direct_def fft_base_max_def)
  have t: "min (nat n) fft_base_max = nat n" using w by (simp add: fft_base_max_def)
  note env = lawful_env [OF dev(1) w(1)] and al = granting_alloc [OF dev(2)]
  show ?thesis
  proof (cases "is_pow2 n")
    case True
    then obtain e where e: "nat n = 2 ^ e" using is_pow2D w by auto
    show ?thesis
      using True n(2) al fft_stockham_pow2_f32_val [OF env e]
      by (simp add: base_transform_def Let_def t one_group [OF dev(1) w] direct_val_def cong: interleave_cong)
  next
    case False
    then obtain rs where rs: "factorize n = Some rs" using n by (auto simp: direct_def fft_base_max_def)
    note f = factorize_radices [OF rs False]
    have pos: "0 < n" using w by simp
    have "nat n \<noteq> 1" using False is_pow2_power [of 0] by (cases "n = 1") auto
    then have "rs \<noteq> []" using f(1) [OF pos] by auto
    have rpos: "0 < r" if "r \<in> set rs" for r using f(2) [OF pos] that by auto
    show ?thesis
      using False n(2) al fft_mixed_radix_f32_val [OF env f(1) [symmetric, OF pos] rpos] \<open>rs \<noteq> []\<close>
      by (simp add: base_transform_def Let_def t one_group [OF dev(1) w] direct_val_def rs cong: interleave_cong)
  qed
qed

lemma planar_result: "joined (re, im) = f \<Longrightarrow> re k = fst (f k) \<and> im k = snd (f k)"
  by (auto simp: joined_def)

theorem base_transform_planar_val:
  assumes dev: "lawful_fft_device dev" "granting dev" and n: "direct n" "n \<le> int fft_base_max"
  shows "base_transform_planar dev re_in im_in re_out im_out n invd =
    (let v = direct_val (arith dev) n invd (joined ((!) re_in, (!) im_in)) in
     Inr (map (\<lambda>k. fst (v k)) [0..<nat n], map (\<lambda>k. snd (v k)) [0..<nat n]))"
proof -
  have w: "0 < nat n" "nat n \<le> 1024" using n by (simp_all add: direct_def fft_base_max_def)
  have t: "min (nat n) fft_base_max = nat n" using w by (simp add: fft_base_max_def)
  note env = lawful_env [OF dev(1) w(1)] and al = granting_alloc [OF dev(2)]
  let ?x = "joined ((!) re_in, (!) im_in)" and ?o = "((!) re_out, (!) im_out)"
  show ?thesis
  proof (cases "is_pow2 n")
    case True
    then obtain e where e: "nat n = 2 ^ e" using is_pow2D w by auto
    let ?k = "''fft_stockham_pow2_planar_f32''"
    obtain re im where p: "fft_stockham_pow2_planar_f32 (arith dev) (group_env_of dev ?k (nat n) 0) ((!) re_in, (!) im_in) (nat n) invd ?o = (re, im)"
      by fastforce
    have "joined (re, im) = fft_stockham_pow2_f32 (arith dev) (group_env_of dev ?k (nat n) 0) ?x (nat n) invd (joined ?o)"
      unfolding p [symmetric] by (rule joined_kernels)
    note planar_result [OF this]
    then show ?thesis
      using True n(2) al fft_stockham_pow2_f32_val [OF env e]
      by (simp add: base_transform_planar_def Let_def t one_group [OF dev(1) w] direct_val_def p)
  next
    case False
    then obtain rs where rs: "factorize n = Some rs" using n by (auto simp: direct_def fft_base_max_def)
    note f = factorize_radices [OF rs False]
    have pos: "0 < n" using w by simp
    have "nat n \<noteq> 1" using False is_pow2_power [of 0] by (cases "n = 1") auto
    then have "rs \<noteq> []" using f(1) [OF pos] by auto
    have rpos: "0 < r" if "r \<in> set rs" for r using f(2) [OF pos] that by auto
    let ?k = "''fft_mixed_radix_planar_f32''"
    obtain re im where p: "fft_mixed_radix_planar_f32 (arith dev) (group_env_of dev ?k (nat n) 0) ((!) re_in, (!) im_in) (nat n) invd rs ?o = (re, im)"
      by fastforce
    have "joined (re, im) = fft_mixed_radix_f32 (arith dev) (group_env_of dev ?k (nat n) 0) ?x (nat n) invd rs (joined ?o)"
      unfolding p [symmetric] by (rule joined_kernels)
    note planar_result [OF this]
    then show ?thesis
      using False n(2) al fft_mixed_radix_f32_val [OF env f(1) [symmetric, OF pos] rpos] \<open>rs \<noteq> []\<close>
      by (simp add: base_transform_planar_def Let_def t one_group [OF dev(1) w] direct_val_def rs p)
  qed
qed

lemma fourstep_pass:
  assumes "direct n" "n > int fft_base_max"
  obtains e where "nat n = 2 ^ e" "e \<le> 10 * (7 - 0)" "0 < nat n"
proof -
  have n: "is_pow2 n" "n \<le> 2 ^ 30" "0 < n" using assms by (auto simp: direct_def)
  then obtain e where e: "nat n = 2 ^ e" using is_pow2D by blast
  have "nat n \<le> 2 ^ 30" using n(2) by (simp add: nat_le_iff)
  then have "(2 :: nat) ^ e \<le> 2 ^ 30" by (simp only: e)
  then have "e \<le> 30" using power_increasing_iff [of "2 :: nat" e 30] by simp
  then show ?thesis using that e n(3) by simp
qed

theorem fft_recursive_fourstep_buf_val:
  assumes dev: "lawful_fft_device dev" "granting dev" and n: "direct n" "n > int fft_base_max"
    and len: "length in_buf = 2 * nat n" "length out_buf = 2 * nat n"
  shows "fft_recursive_fourstep_buf dev in_buf out_buf n invd = Inr (interleave (nat n) (direct_val (arith dev) n invd (float2_at in_buf)))"
proof -
  obtain e where e: "nat n = 2 ^ e" "e \<le> 10 * (7 - 0)" "0 < nat n" by (rule fourstep_pass [OF n])
  let ?R = "arith dev"
  define seed where seed_def: "seed = (if invd then write_f32_into out_buf (conj_pairs ?R in_buf) else copy_buf_into out_buf in_buf)"
  have seed: "seed = interleave (nat n) (\<lambda>i. conj_if ?R invd (float2_at in_buf i))"
    using len by (simp add: seed_def conj_pairs_list write_f32_into_def copy_buf_into_def interleave_float2_at)
  obtain sc where p: "fft_pass dev (nat n) 1 0 (float2_at seed, zero_points ?R) = Inr (pass_val ?R (nat n) 1 (float2_at seed), sc)"
    using fft_pass_val [OF dev e(1) _ _ e(2), of 1 "float2_at seed" "zero_points ?R"] by auto
  let ?x = "\<lambda>i. conj_if ?R invd (float2_at in_buf i)"
  have "agree (1 * nat n) (pass_val ?R (nat n) 1 (float2_at seed)) (pass_val ?R (nat n) 1 ?x)"
    by (rule pass_val_cong [OF e(1)]) (simp add: agree_def seed)
  then have i: "interleave (nat n) (pass_val ?R (nat n) 1 (float2_at seed)) = interleave (nat n) (pass_val ?R (nat n) 1 ?x)"
    by (intro interleave_cong) (simp add: agree_def)
  have "fft_recursive_fourstep_buf dev in_buf out_buf n invd =
      Inr (if invd then interleave (nat n) (\<lambda>k. conj_scaled ?R (nat n) (pass_val ?R (nat n) 1 ?x k)) else interleave (nat n) (pass_val ?R (nat n) 1 ?x))"
    unfolding fft_recursive_fourstep_buf_def Let_def seed_def [symmetric]
    using e(3) granting_alloc [OF dev(2)] p i by (simp add: conj_scale_interleave write_f32_into_def)
  then show ?thesis using n(2) by (auto simp: direct_val_def Let_def intro!: interleave_cong)
qed

theorem fft_recursive_fourstep_planar_val:
  assumes dev: "lawful_fft_device dev" "granting dev" and n: "direct n" "n > int fft_base_max"
    and len: "length re_in = nat n" "length im_in = nat n" "length re_out = nat n" "length im_out = nat n"
  shows "fft_recursive_fourstep_planar dev re_in im_in re_out im_out n invd =
    (let v = direct_val (arith dev) n invd (joined ((!) re_in, (!) im_in)) in
     Inr (map (\<lambda>k. fst (v k)) [0..<nat n], map (\<lambda>k. snd (v k)) [0..<nat n]))"
proof -
  obtain e where e: "nat n = 2 ^ e" "e \<le> 10 * (7 - 0)" "0 < nat n" by (rule fourstep_pass [OF n])
  let ?R = "arith dev"
  let ?x = "\<lambda>i. conj_if ?R invd (joined ((!) re_in, (!) im_in) i)"
  define re0 im0 where seed: "re0 = copy_buf_into re_out re_in"
    "im0 = (if invd then write_f32_into im_out (map (r_neg ?R) im_in) else copy_buf_into im_out im_in)"
  have at: "joined ((!) re0, (!) im0) i = ?x i" if "i < nat n" for i
    using len that by (simp add: seed joined_def conj_if_def write_f32_into_def copy_buf_into_def nth_append)
  let ?v = "pass_val ?R (nat n) 1 (joined ((!) re0, (!) im0))"
  have "\<exists>data' scratch'. fft_pass_planar dev (nat n) 1 0 (((!) re0, (!) im0), (\<lambda>_. r_nat ?R 0, \<lambda>_. r_nat ?R 0)) = Inr (data', scratch') \<and> joined data' = ?v"
    by (rule fft_pass_planar_val [OF dev e(1) _ _ e(2)]) simp_all
  then obtain re im sc where p: "fft_pass_planar dev (nat n) 1 0 (((!) re0, (!) im0), (\<lambda>_. r_nat ?R 0, \<lambda>_. r_nat ?R 0)) = Inr ((re, im), sc)"
    and j: "joined (re, im) = ?v" by fastforce
  have "agree (1 * nat n) ?v (pass_val ?R (nat n) 1 ?x)"
    by (rule pass_val_cong [OF e(1)]) (simp add: agree_def at)
  then have v: "re k = fst (pass_val ?R (nat n) 1 ?x k)" "im k = snd (pass_val ?R (nat n) 1 ?x k)" if "k < nat n" for k
    using planar_result [OF j, of k] that by (simp_all add: agree_def)
  then show ?thesis
    unfolding fft_recursive_fourstep_planar_def Let_def seed [symmetric]
    using n(2) e(3) granting_alloc [OF dev(2)] p
    by (simp add: direct_val_def Let_def conj_scaled_def write_f32_into_def)
qed

section \<open>The planners\<close>

lemma planner_cases:
  assumes "0 < n"
  shows "fft_gpu_buf dev W fft in_buf out_buf n invd =
    (if direct n then if n > int fft_base_max then fft_recursive_fourstep_buf dev in_buf out_buf n invd else base_transform dev in_buf out_buf n invd
     else if is_pow2 n then Inl (Unsupported n)
     else bluestein_bridge (arith dev) W fft in_buf out_buf n invd)"
    and "fft_gpu_planar_core dev W re_in im_in re_out im_out n invd =
    (if direct n then if n > int fft_base_max then fft_recursive_fourstep_planar dev re_in im_in re_out im_out n invd
        else base_transform_planar dev re_in im_in re_out im_out n invd
     else if is_pow2 n then Inl (Unsupported n)
     else bluestein_bridge_planar dev W re_in im_in re_out im_out n invd)"
  using assms by (auto simp: fft_gpu_buf_def fft_gpu_planar_core_def direct_def fft_base_max_def)

lemma direct_val_cong:
  assumes n: "direct n" and x: "agree (nat n) x y" and k: "k < nat n"
  shows "direct_val R n invd x k = direct_val R n invd y k"
proof -
  have f: "agree (nat n) (\<lambda>i. conj_if R invd (x i)) (\<lambda>i. conj_if R invd (y i))" using x by (simp add: agree_def)
  consider "n > int fft_base_max" | "n \<le> int fft_base_max" "is_pow2 n" | rs where "n \<le> int fft_base_max" "\<not> is_pow2 n" "factorize n = Some rs"
    using n unfolding direct_def by (cases "n > int fft_base_max"; cases "is_pow2 n") auto
  then show ?thesis
  proof cases
    case 1
    then obtain e where e: "nat n = 2 ^ e" by (rule fourstep_pass [OF n])
    have "agree (1 * nat n) (pass_val R (nat n) 1 (\<lambda>i. conj_if R invd (x i))) (pass_val R (nat n) 1 (\<lambda>i. conj_if R invd (y i)))"
      by (rule pass_val_cong [OF e]) (use f in simp)
    then have eq: "pass_val R (nat n) 1 (\<lambda>i. conj_if R invd (x i)) k = pass_val R (nat n) 1 (\<lambda>i. conj_if R invd (y i)) k" using k by (simp add: agree_def)
    show ?thesis unfolding direct_val_def Let_def eq using 1 by simp
  next
    case 2
    then obtain e where e: "nat n = 2 ^ e" using is_pow2D n by (auto simp: direct_def)
    have "pow2_val R (nat n) invd x k = pow2_val R (nat n) invd y k" unfolding e by (rule pow2_val_cong) (use x k e in simp_all)
    then show ?thesis using 2 by (simp add: direct_val_def)
  next
    case 3
    have pos: "0 < n" using n by (simp add: direct_def)
    note r = factorize_radices [OF 3(3,2) pos]
    have "mixed_fold R (nat n) rs (\<lambda>i. conj_if R invd (x i)) 1 k = mixed_fold R (nat n) rs (\<lambda>i. conj_if R invd (y i)) 1 k"
      by (rule mixed_fold_cong [OF f r(1) [symmetric] _ k]) (use r(2) in fastforce)
    then show ?thesis using 3 by (simp add: direct_val_def)
  qed
qed

lemma fft_gpu_direct:
  assumes dev: "lawful_fft_device dev" "granting dev" and n: "direct n" and len: "length input = 2 * nat n"
  shows "fft_gpu dev W input n invd = Inr (interleave (nat n) (direct_val (arith dev) n invd (float2_at input)))"
proof -
  have "0 < n" using n by (simp add: direct_def)
  then show ?thesis
    using granting_alloc [OF dev(2)] len n fft_recursive_fourstep_buf_val [OF dev n] base_transform_val [OF dev n]
    by (simp add: fft_gpu.simps [of dev W input n] planner_cases)
qed

lemma bluestein_length: "bluestein R W fft input n = Inr out \<Longrightarrow> length out = 2 * n"
  by (auto simp: bluestein_def Let_def result_simps)

lemma conj_scale_length [simp]: "length (conj_scale R s xs) = length xs"
  by (induction R s xs rule: conj_scale.induct) simp_all

lemma bluestein_dispatch_length: "bluestein_dispatch R W fft input n invd = Inr out \<Longrightarrow> length out = 2 * nat n"
  by (auto simp: bluestein_dispatch_def result_simps split: if_splits dest: bluestein_length)

lemma fft_planar:
  assumes "lawful_fft_device dev" "granting dev" "0 < n"
    and "length re_in = nat n" "length im_in = nat n" "length re_out = nat n" "length im_out = nat n"
  shows "fft_gpu_planar_core dev W re_in im_in re_out im_out n invd =
    (case fft_gpu dev W (interleave (nat n) (\<lambda>i. (re_in ! i, im_in ! i))) n invd of
       Inl e \<Rightarrow> Inl e
     | Inr out \<Rightarrow> Inr (map (\<lambda>k. fst (float2_at out k)) [0..<nat n], map (\<lambda>k. snd (float2_at out k)) [0..<nat n]))"
proof -
  let ?in = "interleave (nat n) (\<lambda>i. (re_in ! i, im_in ! i))" and ?R = "arith dev"
  show ?thesis
  proof (cases "direct n")
    case True
    let ?x = "joined ((!) re_in, (!) im_in)"
    have x: "agree (nat n) (float2_at ?in) ?x" by (simp add: agree_def joined_def)
    have "direct_val ?R n invd (float2_at ?in) k = direct_val ?R n invd ?x k" if k: "k < nat n" for k
      by (rule direct_val_cong [OF True x k])
    then show ?thesis
      using assms True fft_gpu_direct [OF assms(1,2) True, of ?in W invd] fft_recursive_fourstep_planar_val [OF assms(1,2) True]
        base_transform_planar_val [OF assms(1,2) True]
      by (simp add: planner_cases Let_def)
  next
    case False
    let ?r = "bluestein_dispatch ?R W (fft_gpu dev W) ?in n invd"
    show ?thesis
    proof (cases "is_pow2 n")
      case True
      then show ?thesis
        using False assms granting_alloc [OF assms(2)] by (simp add: planner_cases fft_gpu.simps [of dev W ?in n])
    next
      case pow2: False
      show ?thesis
      proof (cases ?r)
        case (Inl e)
        then show ?thesis
          using pow2 False assms granting_alloc [OF assms(2)]
          by (simp add: planner_cases fft_gpu.simps [of dev W ?in n] bluestein_bridge_def bluestein_bridge_planar_def Let_def)
      next
        case (Inr out)
        then show ?thesis
          using pow2 False assms granting_alloc [OF assms(2)] bluestein_dispatch_length [OF Inr]
          by (simp add: planner_cases fft_gpu.simps [of dev W ?in n] bluestein_bridge_def bluestein_bridge_planar_def Let_def write_f32_into_def float2_at_def)
      qed
    qed
  qed
qed

lemma fft_gpu_any_device:
  assumes dev: "lawful_fft_device dev" "granting dev" and dev': "lawful_fft_device dev'" "granting dev'" "arith dev' = arith dev"
    and len: "length input = 2 * nat n"
  shows "fft_gpu dev W input n invd = fft_gpu dev' W input n invd"
proof -
  have d: "fft_gpu dev W xs m b = fft_gpu dev' W xs m b" if "direct m" "length xs = 2 * nat m" for xs m b
    by (simp add: fft_gpu_direct [OF dev that] fft_gpu_direct [OF dev'(1,2) that] dev'(3))
  have p: "fft_gpu dev W xs m b = fft_gpu dev' W xs m b" if "is_pow2 m" "length xs = 2 * nat m" for xs m b
  proof (cases "0 < m \<and> \<not> direct m")
    case True
    then show ?thesis
      using that granting_alloc [OF dev(2)] granting_alloc [OF dev'(2)]
      by (simp add: fft_gpu.simps [of dev W xs m] fft_gpu.simps [of dev' W xs m] planner_cases)
  next
    case False
    then show ?thesis using d [OF _ that(2)] by (cases "direct m") (simp_all add: fft_gpu.simps [of dev W xs m] fft_gpu.simps [of dev' W xs m])
  qed
  show ?thesis
  proof (cases "0 < n \<and> \<not> direct n \<and> \<not> is_pow2 n")
    case True
    have "bluestein_dispatch (arith dev) W (fft_gpu dev W) input n invd = bluestein_dispatch (arith dev) W (fft_gpu dev' W) input n invd"
      by (rule bluestein_dispatch_cong) (rule p)
    then show ?thesis
      using True len granting_alloc [OF dev(2)] granting_alloc [OF dev'(2)] dev'(3)
      by (simp add: fft_gpu.simps [of dev W input n] fft_gpu.simps [of dev' W input n] planner_cases bluestein_bridge_def)
  next
    case False
    then consider "n \<le> 0" | "direct n" | "is_pow2 n" by linarith
    then show ?thesis
    proof cases
      case 1
      then show ?thesis by (simp add: fft_gpu.simps [of dev W input n] fft_gpu.simps [of dev' W input n])
    qed (rule d p, assumption, rule len)+
  qed
qed

text \<open>The result of a transform depends neither on the layout nor on the device: in any arithmetic whose operations are those of the source one by one, for every size, forward
  and inverse, the planar transform on one device and the interleaved one on another give the same floats, whatever the
  order of groups and threads, and refuse the same sizes.\<close>

theorem planar_equals_interleaved:
  assumes "lawful_fft_device dev" "granting dev" and "lawful_fft_device dev'" "granting dev'" "arith dev' = arith dev" and "0 < n"
    and "length re_in = nat n" "length im_in = nat n" "length re_out = nat n" "length im_out = nat n"
  shows "fft_gpu_planar_core dev W re_in im_in re_out im_out n invd =
    (case fft_gpu dev' W (interleave (nat n) (\<lambda>i. (re_in ! i, im_in ! i))) n invd of
       Inl e \<Rightarrow> Inl e
     | Inr out \<Rightarrow> Inr (map (\<lambda>k. fst (float2_at out k)) [0..<nat n], map (\<lambda>k. snd (float2_at out k)) [0..<nat n]))"
  unfolding fft_planar [OF assms(1,2,6-10)]
  by (subst fft_gpu_any_device [OF assms(1-5)]) simp_all

definition exact_wide :: "(real, real) wide_ops" where
  "exact_wide = \<lparr>wops = exact, widen = id, narrow = id\<rparr>"

text \<open>A device that runs the groups in decreasing order.\<close>

definition demo_fft_device :: "'f real_ops \<Rightarrow> 'f fft_device" where
  "demo_fft_device R = \<lparr>arith = R, max_threads = (\<lambda>_. 1024), group_order = (\<lambda>_ n. rev [0..<n]), thread_order = (\<lambda>_ w _ _. [0..<w]),
     group_memory = (\<lambda>_ _. (zero_points R, zero_points R)), grants = (\<lambda>_. True)\<rparr>"

lemma demo_fft_device_lawful: "lawful_fft_device (demo_fft_device R)" "granting (demo_fft_device R)" "arith (demo_fft_device R) = R"
  by (auto simp: lawful_fft_device_def granting_def demo_fft_device_def)

lemma planar_equals_interleaved_witness:
  "fft_gpu_planar_core (demo_fft_device exact) exact_wide [1, 2, 3] [0, 0, 1] [0, 0, 0] [0, 0, 0] 3 True =
    (case fft_gpu (demo_fft_device exact) exact_wide [1, 0, 2, 0, 3, 1] 3 True of
       Inl e \<Rightarrow> Inl e
     | Inr out \<Rightarrow> Inr (map (\<lambda>k. fst (float2_at out k)) [0..<3], map (\<lambda>k. snd (float2_at out k)) [0..<3]))"
proof -
  have i: "interleave (nat 3) (\<lambda>i. ([1, 2, 3 :: real] ! i, [0, 0, 1] ! i)) = [1, 0, 2, 0, 3, 1]"
    by (simp add: interleave_def eval_nat_numeral)
  from planar_equals_interleaved [OF demo_fft_device_lawful(1,2) demo_fft_device_lawful(1,2) refl,
      where W = exact_wide and invd = True and n = 3 and re_in = "[1, 2, 3 :: real]" and im_in = "[0, 0, 1]" and re_out = "[0, 0, 0]" and im_out = "[0, 0, 0]"]
  have "fft_gpu_planar_core (demo_fft_device exact) exact_wide [1, 2, 3] [0, 0, 1] [0, 0, 0] [0, 0, 0] 3 True =
    (case fft_gpu (demo_fft_device exact) exact_wide (interleave (nat 3) (\<lambda>i. ([1, 2, 3 :: real] ! i, [0, 0, 1] ! i))) 3 True of
       Inl e \<Rightarrow> Inl e
     | Inr out \<Rightarrow> Inr (map (\<lambda>k. fst (float2_at out k)) [0..<nat 3], map (\<lambda>k. snd (float2_at out k)) [0..<nat 3]))"
    by simp
  then show ?thesis unfolding i unfolding nat_numeral .
qed

end
