(* ===== verification/Fft_Exact.thy ===== *)
theory Fft_Exact
  imports Fft
begin

text \<open>The planner in exact arithmetic: \<open>fft_gpu\<close> is the discrete Fourier transform and its inverse on every supported size. The
  entry point \<open>polars-metal-core/src/fft.rs\<close> follows, from the streams in the caller's memory to the returned bytes.\<close>

section \<open>Exactness\<close>

definition transform :: "bool \<Rightarrow> nat \<Rightarrow> (nat \<Rightarrow> complex) \<Rightarrow> nat \<Rightarrow> complex" where
  "transform invd n x k = (if invd then idft n x k else dft n x k)"

text \<open>The reference of the tests.\<close>

definition dft_reference :: "('f, 'd) wide_ops \<Rightarrow> 'f list \<Rightarrow> nat \<Rightarrow> bool \<Rightarrow> 'f list" where
  "dft_reference W input n invd =
     (let D = wops W; sign = if invd then r_nat D 1 else r_neg D (r_nat D 1) in
      interleave n (\<lambda>k.
        let (sre, sim) = foldl (\<lambda>(sre, sim) t.
              let ang = r_div D (r_mul D (r_mul D (r_mul D (r_mul D sign (r_nat D 2)) (r_pi D)) (r_nat D k)) (r_nat D t)) (r_nat D n);
                  c = r_cos D ang; s = r_sin D ang; re = widen W (input ! (2 * t)); im = widen W (input ! (2 * t + 1))
              in (r_add D sre (r_sub D (r_mul D re c) (r_mul D im s)), r_add D sim (r_add D (r_mul D re s) (r_mul D im c))))
              (r_nat D 0, r_nat D 0) [0..<n];
            scale = if invd then r_div D (r_nat D 1) (r_nat D n) else r_nat D 1
        in (narrow W (r_mul D sre scale), narrow W (r_mul D sim scale))))"

lemma cx_eq: "cx a = cx b \<longleftrightarrow> a = b"
  by (auto simp: cx_def complex_eq_iff intro: prod_eqI)

lemma cx_ends:
  "cx (conj_if exact invd v) = (if invd then cnj (cx v) else cx v)"
  "cx (conj_scaled exact n v) = cnj (cx v) / of_nat n"
  "cx (vscale exact v (end_scale exact n invd)) = (if invd then cx v / of_nat n else cx v)"
  by (simp_all add: cx_def conj_if_def conj_scaled_def one_over_def vscale_def end_scale_def complex_eq_iff)

lemma direct_val_exact:
  assumes n: "direct n" and k: "k < nat n"
  shows "cx (direct_val exact n invd x k) = transform invd (nat n) (\<lambda>i. cx (x i)) k"
proof -
  consider "n > int fft_base_max" | "n \<le> int fft_base_max" "is_pow2 n" | rs where "n \<le> int fft_base_max" "\<not> is_pow2 n" "factorize n = Some rs"
    using n unfolding direct_def by (cases "n > int fft_base_max"; cases "is_pow2 n") auto
  then show ?thesis
  proof cases
    case 1
    then obtain e where e: "nat n = 2 ^ e" by (rule fourstep_pass [OF n])
    have "cx (pass_val exact (nat n) 1 (\<lambda>i. conj_if exact invd (x i)) k) = dft (nat n) (\<lambda>i. cx (conj_if exact invd (x i))) k"
      using pass_val_exact [OF e, of 0 1 k] k by simp
    then show ?thesis using 1 by (cases invd) (simp_all add: direct_val_def Let_def cx_ends transform_def idft_by_dft)
  next
    case 2
    then obtain e where e: "nat n = 2 ^ e" using is_pow2D n by (auto simp: direct_def)
    have "cx (pow2_val exact (nat n) invd x k) = (if invd then cnj (dft (nat n) (\<lambda>i. cnj (cx (x i))) k) else dft (nat n) (\<lambda>i. cx (x i)) k)"
      using pow2_val_exact [OF e k, of invd x] by (auto simp: seen_def) (metis complex_cnj_cnj)
    then show ?thesis using 2 by (cases invd) (simp_all add: direct_val_def Let_def cx_ends transform_def idft_by_dft)
  next
    case 3
    have pos: "0 < n" using n by (simp add: direct_def)
    note r = factorize_radices [OF 3(3,2) pos]
    have "cx (mixed_fold exact (nat n) rs (\<lambda>i. conj_if exact invd (x i)) 1 k) = dft (nat n) (\<lambda>i. cx (conj_if exact invd (x i))) k"
      by (rule mixed_fold_exact [OF r k])
    then show ?thesis using 3 by (cases invd) (simp_all add: direct_val_def Let_def cx_ends transform_def idft_by_dft)
  qed
qed

lemma foldl_pair_sums:
  "foldl (\<lambda>(a, b) t. (a + f t, b + h t)) (0, 0) [0..<n] = ((\<Sum>t < n. f t) :: real, (\<Sum>t < n. h t) :: real)"
  by (induction n) simp_all

lemma dft_reference_exact:
  assumes "\<And>k. k < n \<Longrightarrow> cx (f k) = transform invd n (\<lambda>i. cx (float2_at input i)) k"
  shows "interleave n f = dft_reference exact_wide input n invd"
proof -
  let ?sg = "if invd then 1 else - 1 :: real"
  let ?ang = "\<lambda>k t. ?sg * 2 * pi * real k * real t / real n"
  define fr where fr: "fr = (\<lambda>k t. input ! (2 * t) * cos (?ang k t) - input ! (2 * t + 1) * sin (?ang k t))"
  define fi where fi: "fi = (\<lambda>k t. input ! (2 * t) * sin (?ang k t) + input ! (2 * t + 1) * cos (?ang k t))"
  let ?sc = "if invd then 1 / real n else 1"
  have r: "dft_reference exact_wide input n invd = interleave n (\<lambda>k. ((\<Sum>t < n. fr k t) * ?sc, (\<Sum>t < n. fi k t) * ?sc))"
    by (simp add: dft_reference_def exact_wide_def fr fi Let_def foldl_pair_sums)
  have w: "Complex (fr k t) (fi k t) = cx (float2_at input t) * (if invd then cnj (uroot n ^ (t * k)) else uroot n ^ (t * k))" for k t
    by (simp add: fr fi cx_def float2_at_def uroot_power complex_eq_iff ac_simps)
  have "Complex (\<Sum>t < n. fr k t) (\<Sum>t < n. fi k t) = (\<Sum>t < n. Complex (fr k t) (fi k t))" for k
    by (simp add: complex_eq_iff Re_sum Im_sum)
  then have s: "Complex (\<Sum>t < n. fr k t) (\<Sum>t < n. fi k t) =
      (\<Sum>t < n. cx (float2_at input t) * (if invd then cnj (uroot n ^ (t * k)) else uroot n ^ (t * k)))" for k
    by (simp add: w)
  have "cx ((\<Sum>t < n. fr k t) * ?sc, (\<Sum>t < n. fi k t) * ?sc) = transform invd n (\<lambda>i. cx (float2_at input i)) k" for k
  proof -
    have "cx ((\<Sum>t < n. fr k t) * ?sc, (\<Sum>t < n. fi k t) * ?sc) = Complex (\<Sum>t < n. fr k t) (\<Sum>t < n. fi k t) * of_real ?sc"
      by (simp add: cx_def complex_eq_iff)
    then show ?thesis unfolding s by (simp add: transform_def idft_def dft_def)
  qed
  with assms show ?thesis unfolding r by (intro interleave_cong) (simp add: cx_eq [symmetric])
qed

lemma fft_gpu_direct_exact:
  assumes "lawful_fft_device dev" "granting dev" "arith dev = exact" "direct n" "length input = 2 * nat n"
  obtains f where "fft_gpu dev W input n invd = Inr (interleave (nat n) f)"
    "\<And>k. k < nat n \<Longrightarrow> cx (f k) = transform invd (nat n) (\<lambda>i. cx (float2_at input i)) k"
proof (rule that)
  show "fft_gpu dev W input n invd = Inr (interleave (nat n) (direct_val exact n invd (float2_at input)))"
    using fft_gpu_direct [OF assms(1,2,4,5)] assms(3) by simp
qed (rule direct_val_exact [OF assms(4)])

lemma chirp_point_exact: "cx (chirp_point exact n m) = chirp n m"
proof (cases "n = 0")
  case False
  have "chirp n m = uroot (2 * n) ^ ((m * m) mod (2 * n))" using False by (simp add: chirp_def uroot_pow_mod)
  also have "\<dots> = cx (chirp_point exact n m)" by (simp add: uroot_power cx_def chirp_point_def Let_def complex_eq_iff)
  finally show ?thesis by simp
qed (simp add: chirp_point_def chirp_def cx_def uroot_power complex_eq_iff)

lemma filter_point_exact: "cx (filter_point exact_wide n m) = cnj (chirp n m)"
  using chirp_point_exact [of n m]
  by (auto simp: filter_point_def exact_wide_def narrow2_def cx_def complex_eq_iff split: prod.split)

text \<open>The loop that fills both ends of the filter.\<close>

lemma filter_loop:
  assumes "0 < b" "2 * b \<le> m + 1"
  shows "foldl (\<lambda>h i. h(i := f i, m - i := f i)) (z(0 := f 0)) [1..<b] x =
    (if x < b then f x else if m - b < x \<and> x < m then f (m - x) else z x)"
  using assms
proof (induction b arbitrary: x)
  case (Suc b)
  show ?case
  proof (cases "b = 0")
    case False
    then have IH: "foldl (\<lambda>h i. h(i := f i, m - i := f i)) (z(0 := f 0)) [1..<b] y =
        (if y < b then f y else if m - b < y \<and> y < m then f (m - y) else z y)" for y
      by (intro Suc.IH) (use Suc.prems False in simp_all)
    have u: "[1..<Suc b] = [1..<b] @ [b]" using False by simp
    show ?thesis using Suc.prems False unfolding u foldl_append by (auto simp: IH simp del: upt_Suc One_nat_def)
  qed auto
qed simp

lemma wide_id: "wops exact_wide = exact" "widen2 exact_wide v = v" "narrow2 exact_wide v = v"
  by (simp_all add: exact_wide_def widen2_def narrow2_def)

theorem bluestein_exact:
  assumes dev: "lawful_fft_device dev" "granting dev" "arith dev = exact" and n: "2 \<le> n" "next_pow2 (2 * n - 1) \<le> 2 ^ 30"
  obtains f where "bluestein exact exact_wide (fft_gpu dev exact_wide) input n = Inr (interleave n f)"
    "\<And>k. k < n \<Longrightarrow> cx (f k) = dft n (\<lambda>i. cx (float2_at input i)) k"
proof -
  define m where m: "m = next_pow2 (2 * n - 1)"
  have mn: "2 * n - 1 \<le> m" "0 < m" "m \<le> 2 ^ 30" using next_pow2_least(1) [of "2 * n - 1"] n unfolding m [symmetric] by linarith+
  have p2: "is_pow2 (int m)" using next_pow2_least(2) [of "2 * n - 1"] is_pow2_iff [of m] mn(2) by (simp add: m)
  have "int m \<le> 2 ^ 30" using mn(3) by simp
  then have d: "direct (int m)" using mn p2 by (simp add: direct_def)
  define x where x: "x = (\<lambda>i. cx (float2_at input i))"
  define a where a: "a = (\<lambda>i. if i < n then cmul exact (float2_at input i) (chirp_point exact n i) else zero_points exact i)"
  define h where h: "h = foldl (\<lambda>h mi. h(mi := filter_point exact_wide n mi, m - mi := filter_point exact_wide n mi))
    ((zero_points exact)(0 := filter_point exact_wide n 0)) [1..<n]"
  have z: "cx (zero_points exact i) = 0" for i by (simp add: zero_points_def cx_def complex_eq_iff)
  let ?a = "\<lambda>j. if j < n then x j * chirp n j else 0" and ?h = "chirp_filter n m"
  have ca: "cx (a j) = ?a j" for j by (simp add: a z x cx_simps chirp_point_exact)
  have ch: "cx (h j) = ?h j" if "j < m" for j
    unfolding h using that n mn(1) by (subst filter_loop) (auto simp: chirp_filter_def filter_point_exact z)
  note go = fft_gpu_direct_exact [OF dev d, where W = exact_wide]
  obtain fa where 1: "fft_gpu dev exact_wide (interleave m a) (int m) False = Inr (interleave m fa)"
    and c1: "\<And>k. k < m \<Longrightarrow> cx (fa k) = dft m (\<lambda>i. cx (float2_at (interleave m a) i)) k"
    by (rule go [of "interleave m a" False]) (simp_all add: transform_def)
  obtain fh where 2: "fft_gpu dev exact_wide (interleave m h) (int m) False = Inr (interleave m fh)"
    and c2: "\<And>k. k < m \<Longrightarrow> cx (fh k) = dft m (\<lambda>i. cx (float2_at (interleave m h) i)) k"
    by (rule go [of "interleave m h" False]) (simp_all add: transform_def)
  have fah: "cx (fa k) = dft m ?a k" "cx (fh k) = dft m ?h k" if "k < m" for k
    using that by (simp_all only: c1 c2) (rule dft_cong; simp add: ca ch)+
  define c where c: "c = interleave m (\<lambda>i. cmul exact (float2_at (interleave m fa) i) (float2_at (interleave m fh) i))"
  obtain fc where 3: "fft_gpu dev exact_wide c (int m) True = Inr (interleave m fc)"
    and c3: "\<And>k. k < m \<Longrightarrow> cx (fc k) = idft m (\<lambda>i. cx (float2_at c i)) k"
    by (rule go [of c True]) (simp_all add: transform_def c)
  have fc: "cx (fc k) = circular m ?a ?h k" if "k < m" for k
  proof -
    have "idft m (\<lambda>i. cx (float2_at c i)) k = idft m (\<lambda>i. dft m ?a i * dft m ?h i) k"
      unfolding idft_def by (intro arg_cong2 [where f = "(/)"] sum.cong refl) (simp add: c cx_simps fah)
    then show ?thesis using c3 [OF that] circular_by_dft [OF mn(2) that] by simp
  qed
  define f where f: "f = (\<lambda>k. cmul exact (chirp_point exact n k) (float2_at (interleave m fc) k))"
  show ?thesis
  proof (rule that)
    show "bluestein exact exact_wide (fft_gpu dev exact_wide) input n = Inr (interleave n f)"
      by (simp only: bluestein_def Let_def m [symmetric] wide_id a [symmetric] h [symmetric] 1 2 3 rbind.simps c [symmetric] f)
    fix k assume k: "k < n"
    then have km: "k < m" using mn n by linarith
    have "cx (f k) = chirp n k * circular m ?a ?h k" using km by (simp add: f cx_simps chirp_point_exact fc)
    also have "\<dots> = dft n x k" using n by (intro bluestein_identity [OF _ mn(1) k]) simp
    finally show "cx (f k) = dft n (\<lambda>i. cx (float2_at input i)) k" by (simp add: x)
  qed
qed

lemma bluestein_dispatch_exact:
  assumes dev: "lawful_fft_device dev" "granting dev" "arith dev = exact" and n: "2 \<le> n" "next_pow2 (2 * nat n - 1) \<le> 2 ^ 30"
    and len: "length input = 2 * nat n"
  shows "bluestein_dispatch exact exact_wide (fft_gpu dev exact_wide) input n invd = Inr (dft_reference exact_wide input (nat n) invd)"
proof (cases invd)
  case False
  obtain f where f: "bluestein exact exact_wide (fft_gpu dev exact_wide) input (nat n) = Inr (interleave (nat n) f)"
    "\<And>k. k < nat n \<Longrightarrow> cx (f k) = dft (nat n) (\<lambda>i. cx (float2_at input i)) k"
    by (rule bluestein_exact [OF dev, of "nat n" input]) (use n in simp_all)
  then have "interleave (nat n) f = dft_reference exact_wide input (nat n) False" by (intro dft_reference_exact) (simp add: transform_def)
  then show ?thesis using False n f(1) by (simp add: bluestein_dispatch_def)
next
  case True
  let ?s = "conj_pairs exact input"
  obtain f where f: "bluestein exact exact_wide (fft_gpu dev exact_wide) ?s (nat n) = Inr (interleave (nat n) f)"
    "\<And>k. k < nat n \<Longrightarrow> cx (f k) = dft (nat n) (\<lambda>i. cx (float2_at ?s i)) k"
    by (rule bluestein_exact [OF dev, of "nat n" ?s]) (use n in simp_all)
  have "dft (nat n) (\<lambda>i. cx (float2_at ?s i)) k = dft (nat n) (\<lambda>i. cnj (cx (float2_at input i))) k" for k
    by (rule dft_cong) (simp add: conj_pairs_list [OF len] cx_ends)
  then have "interleave (nat n) (\<lambda>k. conj_scaled exact (nat n) (f k)) = dft_reference exact_wide input (nat n) True"
    by (intro dft_reference_exact) (simp add: transform_def cx_ends idft_by_dft f(2))
  then show ?thesis using True n f(1) by (simp add: bluestein_dispatch_def conj_scale_interleave)
qed

text \<open>The sizes that a transform accepts.\<close>

definition supported :: "int \<Rightarrow> bool" where
  "supported n \<longleftrightarrow> 0 < n \<and> (n \<le> 2 ^ 29 \<or> n = 2 ^ 30)"

lemma supported_iff: "0 < n \<Longrightarrow> supported n \<longleftrightarrow> direct n \<or> \<not> is_pow2 n \<and> next_pow2 (2 * nat n - 1) \<le> 2 ^ 30"
proof -
  assume n: "0 < n"
  have np: "next_pow2 (2 * nat n - 1) \<le> 2 ^ 30 \<longleftrightarrow> n \<le> 2 ^ 29"
  proof
    assume "next_pow2 (2 * nat n - 1) \<le> 2 ^ 30"
    then have "2 * nat n - 1 \<le> 2 ^ 30" using next_pow2_least(1) [of "2 * nat n - 1"] by linarith
    then show "n \<le> 2 ^ 29" using n by simp
  next
    assume "n \<le> 2 ^ 29"
    then have "2 * nat n - 1 \<le> 2 ^ 30" using n by (simp add: nat_le_iff)
    then show "next_pow2 (2 * nat n - 1) \<le> 2 ^ 30" by (rule next_pow2_least(3))
  qed
  have big: "n = 2 ^ 30" if p: "is_pow2 n" and b: "2 ^ 29 < n" "n \<le> 2 ^ 30"
  proof -
    obtain e where e: "nat n = 2 ^ e" using is_pow2D [OF p n] by blast
    have "(2 :: nat) ^ 29 < nat n" "nat n \<le> 2 ^ 30" using b by simp_all
    then have "(2 :: nat) ^ 29 < 2 ^ e" "(2 :: nat) ^ e \<le> 2 ^ 30" by (simp_all only: e)
    then have "29 < e" "e \<le> 30" by (meson power_less_imp_less_exp one_less_numeral_iff semiring_norm(76), meson power_le_imp_le_exp one_less_numeral_iff semiring_norm(76))
    then have "e = 30" by simp
    then show ?thesis using e n by simp
  qed
  have small: "n \<le> 2 ^ 29" if "n \<le> int fft_base_max" using that by (simp add: fft_base_max_def)
  have "is_pow2 (2 ^ 30)" by (rule is_pow2_power)
  then show ?thesis using n big small unfolding supported_def direct_def np by (cases "n \<le> 2 ^ 29"; cases "is_pow2 n") auto
qed

lemma fft_gpu_exact:
  assumes "lawful_fft_device dev" "granting dev" "arith dev = exact" "length input = 2 * nat n"
  shows "fft_gpu dev exact_wide input n invd =
    (if supported n then Inr (dft_reference exact_wide input (nat n) invd) else Inl (Unsupported n))"
proof (cases "0 < n")
  case False
  then show ?thesis by (simp add: fft_gpu.simps [of dev exact_wide input n] supported_def)
next
  case True
  note al = granting_alloc [OF assms(2)] and sup = supported_iff [OF True]
  show ?thesis
  proof (cases "direct n")
    case d: True
    obtain f where "fft_gpu dev exact_wide input n invd = Inr (interleave (nat n) f)"
      "\<And>k. k < nat n \<Longrightarrow> cx (f k) = transform invd (nat n) (\<lambda>i. cx (float2_at input i)) k"
      by (rule fft_gpu_direct_exact [OF assms(1-3) d assms(4), where W = exact_wide and invd = invd]) blast
    then show ?thesis using d sup dft_reference_exact [of "nat n" f invd input] by simp
  next
    case nd: False
    have b: "fft_gpu dev exact_wide input n invd = (if is_pow2 n then Inl (Unsupported n)
        else bluestein_bridge exact exact_wide (fft_gpu dev exact_wide) input (replicate (2 * nat n) (r_nat exact 0)) n invd)"
      using True nd al assms(3,4) by (simp add: fft_gpu.simps [of dev exact_wide input n] planner_cases)
    show ?thesis
    proof (cases "is_pow2 n \<or> \<not> next_pow2 (2 * nat n - 1) \<le> 2 ^ 30")
      case True
      then show ?thesis using b nd sup by (auto simp: bluestein_bridge_def bluestein_dispatch_def)
    next
      case ok: False
      have "n \<noteq> 1" using ok is_pow2_power [of 0] by auto
      then have "2 \<le> n" using True by simp
      then show ?thesis
        using b nd ok sup bluestein_dispatch_exact [OF assms(1-3) _ _ assms(4), of invd]
        by (simp add: bluestein_bridge_def write_f32_into_def dft_reference_def Let_def)
    qed
  qed
qed


lemma dft_reference_value:
  obtains f where "dft_reference exact_wide input n invd = interleave n f"
    "\<And>k. k < n \<Longrightarrow> cx (f k) = transform invd n (\<lambda>i. cx (float2_at input i)) k"
proof (rule that)
  let ?f = "\<lambda>k. (Re (transform invd n (\<lambda>i. cx (float2_at input i)) k), Im (transform invd n (\<lambda>i. cx (float2_at input i)) k))"
  have f: "cx (?f k) = transform invd n (\<lambda>i. cx (float2_at input i)) k" for k by (simp add: cx_def)
  then show "cx (?f k) = transform invd n (\<lambda>i. cx (float2_at input i)) k" for k .
  show "dft_reference exact_wide input n invd = interleave n ?f" by (rule dft_reference_exact [symmetric]) (rule f)
qed




section \<open>polars-metal-core/src/fft.rs\<close>

datatype 'f fft_input = RealSignal "'f list" | ComplexSignal "'f list" "'f list"

text \<open>The errors of \<open>fft_core\<close>, by the text they are wrapped in.\<close>

datatype fft_core_error = NoFftDevice string | FftStaging string fft_error | FftKernel fft_error

text \<open>\<open>n as usize\<close> of a 64-bit integer.\<close>

definition usize_of :: "int \<Rightarrow> nat" where
  "usize_of n = nat (n mod 2 ^ 64)"

definition staged :: "'f fft_device \<Rightarrow> string \<Rightarrow> nat \<Rightarrow> fft_core_error + unit" where
  "staged dev what b = map_sum (FftStaging what) id (alloc dev b)"

definition fft_core ::
  "'f fft_device \<Rightarrow> ('f, 'd) wide_ops \<Rightarrow> string option \<Rightarrow> 'f fft_input \<Rightarrow> int \<Rightarrow> bool \<Rightarrow> fft_core_error + 'f list \<times> 'f list" where
  "fft_core dev W unavailable input n invd =
     (let len = usize_of n; zeros = replicate len (r_nat (arith dev) 0) in
      case unavailable of
        Some msg \<Rightarrow> Inl (NoFftDevice msg)
      | None \<Rightarrow>
          rbind (case input of
              RealSignal re \<Rightarrow>
                rbind (staged dev ''fft re staging'' (4 * length re)) (\<lambda>_.
                rbind (staged dev ''fft im staging'' (len * 4)) (\<lambda>_. Inr (re, zeros)))
            | ComplexSignal re im \<Rightarrow>
                rbind (staged dev ''fft re staging'' (4 * length re)) (\<lambda>_.
                rbind (staged dev ''fft im staging'' (4 * length im)) (\<lambda>_. Inr (re, im)))) (\<lambda>(re_in, im_in).
          rbind (staged dev ''fft re_out'' (len * 4)) (\<lambda>_.
          rbind (staged dev ''fft im_out'' (len * 4)) (\<lambda>_.
          map_sum FftKernel id (fft_gpu_planar_core dev W re_in im_in zeros zeros n invd)))))"

text \<open>The four bytes of a float.\<close>

record 'f float_bytes =
  of_f32 :: "'f \<Rightarrow> bytes"
  to_f32 :: "bytes \<Rightarrow> 'f"

definition f32_stream :: "'f float_bytes \<Rightarrow> mem \<Rightarrow> nat \<Rightarrow> nat \<Rightarrow> 'f list" where
  "f32_stream B m ptr len = map (\<lambda>i. to_f32 B (read_mem m (ptr + 4 * i) 4)) [0..<len]"

datatype execute_fft_error = RealLength nat int | ImagLength nat int | FftFailed fft_core_error

definition execute_fft ::
  "'f float_bytes \<Rightarrow> 'f fft_device \<Rightarrow> ('f, 'd) wide_ops \<Rightarrow> string option \<Rightarrow> mem \<Rightarrow> nat \<times> nat \<Rightarrow> (nat \<times> nat) option \<Rightarrow> int \<Rightarrow> bool \<Rightarrow>
    execute_fft_error + bytes \<times> bytes" where
  "execute_fft B dev W unavailable m real_arg imag_arg n invd =
     (case real_arg of (rptr, rlen) \<Rightarrow>
      if rlen \<noteq> usize_of n then Inl (RealLength rlen n)
      else rbind (case imag_arg of
          None \<Rightarrow> Inr ()
        | Some (_, ilen) \<Rightarrow> if ilen \<noteq> usize_of n then Inl (ImagLength ilen n) else Inr ()) (\<lambda>_.
        let rslice = f32_stream B m rptr rlen;
            result = (case imag_arg of
                None \<Rightarrow> fft_core dev W unavailable (RealSignal rslice) n invd
              | Some (iptr, ilen) \<Rightarrow> fft_core dev W unavailable (ComplexSignal rslice (f32_stream B m iptr ilen)) n invd)
        in map_sum FftFailed (\<lambda>(re_out, im_out). (concat (map (of_f32 B) re_out), concat (map (of_f32 B) im_out))) result))"

text \<open>The signal that the arguments describe.\<close>

definition signal :: "real float_bytes \<Rightarrow> mem \<Rightarrow> nat \<Rightarrow> (nat \<times> nat) option \<Rightarrow> nat \<Rightarrow> complex" where
  "signal B m rptr imag_arg i =
     Complex (to_f32 B (read_mem m (rptr + 4 * i) 4)) (case imag_arg of None \<Rightarrow> 0 | Some (iptr, _) \<Rightarrow> to_f32 B (read_mem m (iptr + 4 * i) 4))"

lemma planar_core_exact:
  assumes dev: "lawful_fft_device dev" "granting dev" "arith dev = exact" and "0 < n"
    and "length re_in = nat n" "length im_in = nat n" "length re_out = nat n" "length im_out = nat n"
  shows "fft_gpu_planar_core dev exact_wide re_in im_in re_out im_out n invd =
    (if supported n
     then let y = transform invd (nat n) (\<lambda>i. Complex (re_in ! i) (im_in ! i)) in Inr (map (\<lambda>k. Re (y k)) [0..<nat n], map (\<lambda>k. Im (y k)) [0..<nat n])
     else Inl (Unsupported n))"
proof -
  let ?in = "interleave (nat n) (\<lambda>i. (re_in ! i, im_in ! i))"
  obtain f where f: "dft_reference exact_wide ?in (nat n) invd = interleave (nat n) f"
    "\<And>k. k < nat n \<Longrightarrow> cx (f k) = transform invd (nat n) (\<lambda>i. cx (float2_at ?in i)) k"
    by (rule dft_reference_value [where n = "nat n" and input = ?in and invd = invd]) blast
  have "transform invd (nat n) (\<lambda>i. cx (float2_at ?in i)) k = transform invd (nat n) (\<lambda>i. Complex (re_in ! i) (im_in ! i)) k" for k
    unfolding transform_def idft_by_dft by (auto simp: cx_def intro!: arg_cong [where f = cnj] dft_cong)
  then have "fst (f k) = Re (transform invd (nat n) (\<lambda>i. Complex (re_in ! i) (im_in ! i)) k)"
    "snd (f k) = Im (transform invd (nat n) (\<lambda>i. Complex (re_in ! i) (im_in ! i)) k)" if "k < nat n" for k
    using f(2) [OF that] by (simp_all add: cx_def complex_eq_iff)
  then show ?thesis
    unfolding fft_planar [OF dev(1,2) assms(4-8)] by (simp add: fft_gpu_exact [OF dev] f(1) Let_def)
qed

text \<open>The entry point in exact arithmetic: streams whose length is not the declared one are refused with their length, a size
  that no transform accepts is refused by the kernel, and otherwise the returned bytes are those of the real and imaginary
  parts of the discrete Fourier transform (or its inverse) of the real or complex signal in the caller's memory.\<close>

theorem execute_fft_correct:
  assumes dev: "lawful_fft_device dev" "granting dev" "arith dev = exact" and n: "0 < n" "n < 2 ^ 63"
  shows "execute_fft B dev exact_wide None m (rptr, rlen) imag_arg n invd =
    (if int rlen \<noteq> n then Inl (RealLength rlen n)
     else if \<exists>iptr ilen. imag_arg = Some (iptr, ilen) \<and> int ilen \<noteq> n then Inl (ImagLength (snd (the imag_arg)) n)
     else if supported n
     then let y = transform invd rlen (signal B m rptr imag_arg) in
       Inr (concat (map (\<lambda>k. of_f32 B (Re (y k))) [0..<rlen]), concat (map (\<lambda>k. of_f32 B (Im (y k))) [0..<rlen]))
     else Inl (FftFailed (FftKernel (Unsupported n))))"
proof -
  have u: "usize_of n = nat n" using n by (simp add: usize_of_def)
  have st: "staged dev what (4 * nat n) = Inr ()" "staged dev what (nat n * 4) = Inr ()" for what
    using granting_alloc [OF dev(2)] n by (simp_all add: staged_def)
  have t: "transform invd (nat n) (\<lambda>i. Complex (xs ! i) (ys ! i)) = transform invd (nat n) z"
    if "\<And>i. i < nat n \<Longrightarrow> Complex (xs ! i) (ys ! i) = z i" for xs ys z
    unfolding transform_def idft_by_dft fun_eq_iff using that by (auto intro!: arg_cong [where f = cnj] dft_cong)
  have core: "fft_core dev exact_wide None sig n invd = (if supported n
      then Inr (map (\<lambda>k. Re (transform invd (nat n) z k)) [0..<nat n], map (\<lambda>k. Im (transform invd (nat n) z k)) [0..<nat n])
      else Inl (FftKernel (Unsupported n)))"
    if sig: "sig = RealSignal re \<and> im = replicate (nat n) 0 \<or> sig = ComplexSignal re im" and len: "length re = nat n" "length im = nat n"
      and z: "\<And>i. i < nat n \<Longrightarrow> Complex (re ! i) (im ! i) = z i" for sig re im z
  proof -
    have k: "fft_gpu_planar_core dev exact_wide re im (replicate (nat n) 0) (replicate (nat n) 0) n invd = (if supported n
        then Inr (map (\<lambda>k. Re (transform invd (nat n) z k)) [0..<nat n], map (\<lambda>k. Im (transform invd (nat n) z k)) [0..<nat n])
        else Inl (Unsupported n))"
      by (simp add: planar_core_exact [OF dev n(1) len] t [OF z] Let_def)
    have "fft_core dev exact_wide None sig n invd = map_sum FftKernel id (fft_gpu_planar_core dev exact_wide re im (replicate (nat n) 0) (replicate (nat n) 0) n invd)"
      using sig by (rule disjE) (simp_all add: fft_core_def u len st dev(3) Let_def)
    then show ?thesis unfolding k by simp
  qed
  show ?thesis
  proof (cases "int rlen = n")
    case False
    then have "rlen \<noteq> usize_of n" using u n by auto
    then show ?thesis using False by (simp add: execute_fft_def)
  next
    case True
    then have r: "rlen = nat n" by simp
    show ?thesis
    proof (cases imag_arg)
      case None
      have "fft_core dev exact_wide None (RealSignal (f32_stream B m rptr rlen)) n invd = (if supported n
          then Inr (map (\<lambda>k. Re (transform invd (nat n) (signal B m rptr None) k)) [0..<nat n], map (\<lambda>k. Im (transform invd (nat n) (signal B m rptr None) k)) [0..<nat n])
          else Inl (FftKernel (Unsupported n)))"
        by (rule core [where re = "f32_stream B m rptr rlen" and im = "replicate (nat n) 0"]) (simp_all add: f32_stream_def r signal_def)
      then show ?thesis using None True r u by (simp add: execute_fft_def Let_def comp_def)
    next
      case (Some p)
      obtain iptr ilen where p: "p = (iptr, ilen)" by (cases p)
      show ?thesis
      proof (cases "int ilen = n")
        case False
        then have "ilen \<noteq> usize_of n" using u n by auto
        moreover have "rlen = usize_of n" using r u by simp
        ultimately show ?thesis using False Some p True by (simp add: execute_fft_def)
      next
        case i: True
        then have "ilen = nat n" by simp
        have "fft_core dev exact_wide None (ComplexSignal (f32_stream B m rptr rlen) (f32_stream B m iptr ilen)) n invd = (if supported n
            then Inr (map (\<lambda>k. Re (transform invd (nat n) (signal B m rptr imag_arg) k)) [0..<nat n], map (\<lambda>k. Im (transform invd (nat n) (signal B m rptr imag_arg) k)) [0..<nat n])
            else Inl (FftKernel (Unsupported n)))"
          by (rule core [where re = "f32_stream B m rptr rlen" and im = "f32_stream B m iptr ilen"])
            (simp_all add: f32_stream_def r signal_def Some p \<open>ilen = nat n\<close>)
        then show ?thesis using Some p True r u i \<open>ilen = nat n\<close> by (simp add: execute_fft_def Let_def comp_def)
      qed
    qed
  qed
qed

text \<open>Floats that are small natural numbers, and a memory with the signal 3, 1.\<close>

definition demo_float_bytes :: "real float_bytes" where
  "demo_float_bytes = \<lparr>of_f32 = (\<lambda>x. le_bytes (of_int \<lfloor>x\<rfloor> :: u32)), to_f32 = (\<lambda>bs. real (unat (of_le_bytes bs :: u32)))\<rparr>"

definition demo_signal :: mem where
  "demo_signal = \<lparr>heap = (\<lambda>a. if a = 0 then 3 else if a = 4 then 1 else 0), live = [(0, 8)]\<rparr>"

lemma execute_fft_correct_witness:
  "execute_fft demo_float_bytes (demo_fft_device exact) exact_wide None demo_signal (0, 2) None 2 False =
      Inr ([4, 0, 0, 0, 2, 0, 0, 0], [0, 0, 0, 0, 0, 0, 0, 0]) \<and>
    execute_fft demo_float_bytes (demo_fft_device exact) exact_wide None demo_signal (0, 3) None 2 False = Inl (RealLength 3 2)"
proof -
  have b: "le_bytes (0 :: u32) = [0, 0, 0, 0]" "le_bytes (2 :: u32) = [2, 0, 0, 0]" "le_bytes (4 :: u32) = [4, 0, 0, 0]" by code_simp+
  have r: "of_le_bytes (read_mem demo_signal 0 4) = (3 :: u32)" "of_le_bytes (read_mem demo_signal 4 4) = (1 :: u32)" by code_simp+
  have o: "of_f32 demo_float_bytes = (\<lambda>x. le_bytes (of_int \<lfloor>x\<rfloor> :: u32))" by (simp add: demo_float_bytes_def)
  have s: "supported 2" by (simp add: supported_def)
  have y: "transform False 2 (signal demo_float_bytes demo_signal 0 None) 0 = 4" "transform False 2 (signal demo_float_bytes demo_signal 0 None) (Suc 0) = 2"
    by (simp_all add: transform_def dft_wp sum_2 wp2 signal_def demo_float_bytes_def r complex_eq_iff)
  show ?thesis
    using execute_fft_correct [OF demo_fft_device_lawful, of 2 demo_float_bytes demo_signal 0 2 None False]
      execute_fft_correct [OF demo_fft_device_lawful, of 2 demo_float_bytes demo_signal 0 3 None False]
    by (simp add: s y numeral_2_eq_2 [symmetric] o b Let_def upt_rec)
qed

end
