(* ===== verification/Mlx_Arrays.thy ===== *)
theory Mlx_Arrays
  imports Subgraph Device_Arrays Aggs
begin

text \<open>What vector search and correlation share: the shape, axis and partition wrappers of \<open>polars-metal-mlx-sys\<close>, the views of host
  slices, and what MLX's documentation says of the operations both compose, for arrays of 32-bit words in row-major order.\<close>

section \<open>Wrappers\<close>

definition mlx_sum_axis :: "'h mlx \<Rightarrow> 'h mlx_array \<Rightarrow> int \<Rightarrow> mlx_error + 'h mlx_array" where
  "mlx_sum_axis m a axis =
     rbind (runtime_err (mlx_op m ''mlx_op_sum_axis'' [ma_ptr a] [axis])) (\<lambda>p. Inr \<lparr>ma_ptr = p, ma_refs = ma_refs a\<rparr>)"

definition mlx_mean_axis :: "'h mlx \<Rightarrow> 'h mlx_array \<Rightarrow> int \<Rightarrow> mlx_error + 'h mlx_array" where
  "mlx_mean_axis m a axis =
     rbind (runtime_err (mlx_op m ''mlx_op_mean_axis'' [ma_ptr a] [axis])) (\<lambda>p. Inr \<lparr>ma_ptr = p, ma_refs = ma_refs a\<rparr>)"

definition mlx_transpose :: "'h mlx \<Rightarrow> 'h mlx_array \<Rightarrow> int list \<Rightarrow> mlx_error + 'h mlx_array" where
  "mlx_transpose m a axes =
     rbind (runtime_err (mlx_op m ''mlx_op_transpose'' [ma_ptr a] axes)) (\<lambda>p. Inr \<lparr>ma_ptr = p, ma_refs = ma_refs a\<rparr>)"

definition mlx_reshape :: "'h mlx \<Rightarrow> 'h mlx_array \<Rightarrow> int list \<Rightarrow> mlx_error + 'h mlx_array" where
  "mlx_reshape m a shape =
     rbind (runtime_err (mlx_op m ''mlx_op_reshape'' [ma_ptr a] shape)) (\<lambda>p. Inr \<lparr>ma_ptr = p, ma_refs = ma_refs a\<rparr>)"

definition mlx_slice :: "'h mlx \<Rightarrow> 'h mlx_array \<Rightarrow> int list \<Rightarrow> int list \<Rightarrow> int list \<Rightarrow> mlx_error + 'h mlx_array" where
  "mlx_slice m a start stop strides =
     rbind (runtime_err (mlx_op m ''mlx_op_slice'' [ma_ptr a] (start @ stop @ strides))) (\<lambda>p.
       Inr \<lparr>ma_ptr = p, ma_refs = ma_refs a\<rparr>)"

definition mlx_take_along_axis :: "'h mlx \<Rightarrow> 'h mlx_array \<Rightarrow> 'h mlx_array \<Rightarrow> int \<Rightarrow> mlx_error + 'h mlx_array" where
  "mlx_take_along_axis m a indices axis =
     rbind (runtime_err (mlx_op m ''mlx_op_take_along_axis'' [ma_ptr a, ma_ptr indices] [axis])) (\<lambda>p.
       Inr \<lparr>ma_ptr = p, ma_refs = ma_refs a @ ma_refs indices\<rparr>)"

definition mlx_argpartition_axis :: "'h mlx \<Rightarrow> 'h mlx_array \<Rightarrow> int \<Rightarrow> int \<Rightarrow> mlx_error + 'h mlx_array" where
  "mlx_argpartition_axis m a kth axis =
     rbind (runtime_err (mlx_op m ''mlx_op_argpartition_axis'' [ma_ptr a] [kth, axis])) (\<lambda>p.
       Inr \<lparr>ma_ptr = p, ma_refs = ma_refs a\<rparr>)"

text \<open>The conversions of Rust's \<open>as\<close>: the low bits of a 64-bit number, read with or without a sign.\<close>

definition as_i32 :: "int \<Rightarrow> int" where "as_i32 x = sint (word_of_int x :: 32 word)"

definition as_usize :: "int \<Rightarrow> nat" where "as_usize x = nat (x mod 2 ^ 64)"

lemma as_i32_id: "0 \<le> x \<Longrightarrow> x < 2 ^ 31 \<Longrightarrow> as_i32 x = x"
  unfolding as_i32_def by (simp add: signed_of_int signed_take_bit_int_eq_self)

lemma as_usize_id: "0 \<le> x \<Longrightarrow> x < 2 ^ 64 \<Longrightarrow> as_usize x = nat x"
  by (simp add: as_usize_def)

section \<open>Views of host slices\<close>

text \<open>A slice is its address and length. Its buffer shares the page it starts on or is a copy; the view keeps it alive.\<close>

datatype search_error =
    NoMetalDevice string
  | ViewStaging buffer_err
  | MlxFailed mlx_error
  | UnknownSearchOp u32
  | TooManyColumns int

definition mlx_failed :: "mlx_error + 'a \<Rightarrow> search_error + 'a" where
  "mlx_failed r = (case r of Inl e \<Rightarrow> Inl (MlxFailed e) | Inr x \<Rightarrow> Inr x)"

definition view_shaped ::
  "string option \<Rightarrow> driver \<Rightarrow> 'h mlx \<Rightarrow> mem \<Rightarrow> nat \<times> nat \<Rightarrow> int list \<Rightarrow> mem \<times> (search_error + 'h mlx_array)" where
  "view_shaped no_device drv m mem data shape =
     (case no_device of
        Some e \<Rightarrow> (mem, Inl (NoMetalDevice e))
      | None \<Rightarrow>
          (case from_borrowed drv mem (fst data) (snd data) 4 of
             (mem', Inl e) \<Rightarrow> (mem', Inl (ViewStaging e))
           | (mem', Inr buf) \<Rightarrow> (mem', mlx_failed (mlx_array_view_metal_buffer m buf shape MF32))))"

definition view2d ::
  "string option \<Rightarrow> driver \<Rightarrow> 'h mlx \<Rightarrow> mem \<Rightarrow> nat \<times> nat \<Rightarrow> int \<Rightarrow> int \<Rightarrow> mem \<times> (search_error + 'h mlx_array)" where
  "view2d no_device drv m mem data rows cols = view_shaped no_device drv m mem data [rows, cols]"

definition view1d ::
  "string option \<Rightarrow> driver \<Rightarrow> 'h mlx \<Rightarrow> mem \<Rightarrow> nat \<times> nat \<Rightarrow> int \<Rightarrow> mem \<times> (search_error + 'h mlx_array)" where
  "view1d no_device drv m mem data n = view_shaped no_device drv m mem data [n]"

section \<open>Arrays\<close>

text \<open>What an array holds: the elements in row-major order, floats as bit patterns.\<close>

record tensor =
  t_shape :: "nat list"
  t_elems :: "u32 list"
  t_float :: bool

definition grid :: "nat \<Rightarrow> nat \<Rightarrow> (nat \<Rightarrow> nat \<Rightarrow> u32) \<Rightarrow> tensor" where
  "grid r c f = \<lparr>t_shape = [r, c], t_elems = map (\<lambda>x. f (x div c) (x mod c)) [0..<r * c], t_float = True\<rparr>"

definition vec :: "nat \<Rightarrow> (nat \<Rightarrow> u32) \<Rightarrow> tensor" where
  "vec n f = \<lparr>t_shape = [n], t_elems = map f [0..<n], t_float = True\<rparr>"

definition igrid :: "nat \<Rightarrow> nat \<Rightarrow> (nat \<Rightarrow> nat \<Rightarrow> nat) \<Rightarrow> tensor" where
  "igrid r c f = (grid r c (\<lambda>i j. of_nat (f i j)))\<lparr>t_float := False\<rparr>"

text \<open>The arithmetic of the device on single floats, on a row and on a row with a column.\<close>

record array_ops =
  aadd :: "u32 \<Rightarrow> u32 \<Rightarrow> u32"
  asub :: "u32 \<Rightarrow> u32 \<Rightarrow> u32"
  amul :: "u32 \<Rightarrow> u32 \<Rightarrow> u32"
  adiv :: "u32 \<Rightarrow> u32 \<Rightarrow> u32"
  asqrt :: "u32 \<Rightarrow> u32"
  aexp :: "u32 \<Rightarrow> u32"
  asum :: "u32 list \<Rightarrow> u32"
  amean :: "u32 list \<Rightarrow> u32"
  adot :: "u32 list \<Rightarrow> u32 list \<Rightarrow> u32"

definition negate32 :: "u32 \<Rightarrow> u32" where "negate32 x = x XOR 0x80000000"

definition binary_fns :: "array_ops \<Rightarrow> (string \<times> (u32 \<Rightarrow> u32 \<Rightarrow> u32)) list" where
  "binary_fns R = [(''mlx_op_add'', aadd R), (''mlx_op_sub'', asub R), (''mlx_op_mul'', amul R), (''mlx_op_div'', adiv R)]"

definition unary_fns :: "array_ops \<Rightarrow> (string \<times> (u32 \<Rightarrow> u32)) list" where
  "unary_fns R = [(''mlx_op_neg'', negate32), (''mlx_op_sqrt'', asqrt R), (''mlx_op_exp'', aexp R)]"

text \<open>An extent of one is repeated.\<close>

definition extent :: "nat \<Rightarrow> nat \<Rightarrow> nat" where "extent a b = (if a = 1 then b else a)"

definition fits :: "nat \<Rightarrow> nat \<Rightarrow> bool" where "fits a b \<longleftrightarrow> a = b \<or> a = 1 \<or> b = 1"

definition clip :: "nat \<Rightarrow> nat \<Rightarrow> nat" where "clip a i = (if a = 1 then 0 else i)"

text \<open>The results that the documentation allows; where it promises nothing there is none. A partition is any arrangement with the
  smallest entries of a row without NaN in front.\<close>

inductive documented :: "array_ops \<Rightarrow> string \<Rightarrow> tensor list \<Rightarrow> int list \<Rightarrow> tensor \<Rightarrow> bool" for R where
  doc_binary: "map_of (binary_fns R) name = Some op \<Longrightarrow> fits a c \<Longrightarrow> fits b d \<Longrightarrow>
    documented R name [grid a b f, grid c d g] []
      (grid (extent a c) (extent b d) (\<lambda>i j. op (f (clip a i) (clip b j)) (g (clip c i) (clip d j))))"
| doc_unary: "map_of (unary_fns R) name = Some op \<Longrightarrow> documented R name [grid a b f] [] (grid a b (\<lambda>i j. op (f i j)))"
| doc_sum: "documented R ''mlx_op_sum_axis'' [grid a b f] [1] (vec a (\<lambda>i. asum R (map (f i) [0..<b])))"
| doc_mean: "documented R ''mlx_op_mean_axis'' [grid a b f] [1] (vec a (\<lambda>i. amean R (map (f i) [0..<b])))"
| doc_column: "documented R ''mlx_op_reshape'' [vec n f] [int n, 1] (grid n 1 (\<lambda>i j. f i))"
| doc_line: "documented R ''mlx_op_reshape'' [vec n f] [1, int n] (grid 1 n (\<lambda>i j. f j))"
| doc_fold: "documented R ''mlx_op_reshape'' [vec (a * b) f] [int a, int b] (grid a b (\<lambda>i j. f (i * b + j)))"
| doc_flat: "documented R ''mlx_op_reshape'' [igrid a b f] [int (a * b)]
    \<lparr>t_shape = [a * b], t_elems = t_elems (igrid a b f), t_float = False\<rparr>"
| doc_transpose: "documented R ''mlx_op_transpose'' [grid a b f] [1, 0] (grid b a (\<lambda>i j. f j i))"
| doc_matmul: "documented R ''mlx_op_matmul'' [grid a b f, grid b c g] []
    (grid a c (\<lambda>i j. adot R (map (f i) [0..<b]) (map (\<lambda>k. g k j) [0..<b])))"
| doc_partition: "kth < b \<Longrightarrow> b < 2 ^ 31 \<Longrightarrow> \<forall>i < a. bij_betw (p i) {..<b} {..<b} \<Longrightarrow>
    \<forall>i < a. (\<forall>j < b. \<not> is_nan f32_infinity (f i j)) \<longrightarrow> (\<forall>x y. x \<le> kth \<and> kth < y \<and> y < b \<longrightarrow> fval (f i (p i x)) \<le> fval (f i (p i y))) \<Longrightarrow>
    documented R ''mlx_op_argpartition_axis'' [grid a b f] [int kth, -1] (igrid a b p)"
| doc_slice: "k \<le> b \<Longrightarrow> documented R ''mlx_op_slice'' [igrid a b p] [0, 0, int a, int k, 1, 1] (igrid a k p)"
| doc_cast: "\<forall>i < a. \<forall>j < b. p i j < 2 ^ 31 \<Longrightarrow> documented R ''mlx_op_cast'' [igrid a b p] [2] (igrid a b p)"
| doc_along: "\<forall>i < a. \<forall>j < k. p i j < b \<Longrightarrow> b < 2 ^ 31 \<Longrightarrow>
    documented R ''mlx_op_take_along_axis'' [grid a b f, igrid a k p] [1] (grid a k (\<lambda>i j. f i (p i j)))"
| doc_take: "\<forall>x \<in> set ix. unat x < n \<Longrightarrow> n < 2 ^ 31 \<Longrightarrow>
    documented R ''mlx_op_take'' [vec n f, \<lparr>t_shape = [length ix], t_elems = ix, t_float = False\<rparr>] []
      (vec (length ix) (\<lambda>x. f (unat (ix ! x))))"

lemma grid_shape [simp]: "t_shape (grid r c f) = [r, c]" "t_float (grid r c f)" "length (t_elems (grid r c f)) = r * c"
  by (simp_all add: grid_def)

lemma cell_bound:
  assumes "i < r" "j < (c :: nat)"
  shows "i * c + j < r * c"
proof -
  have "Suc i * c \<le> r * c" using assms(1) by (intro mult_le_mono1) simp
  then show ?thesis using assms(2) by simp
qed

lemma grid_at: "i < r \<Longrightarrow> j < c \<Longrightarrow> t_elems (grid r c f) ! (i * c + j) = f i j"
  using cell_bound [of i r j c] by (simp add: grid_def)

lemma cell_parts:
  assumes "x < r * (c :: nat)"
  shows "x div c < r" and "x mod c < c"
proof -
  have "0 < c" using assms by (cases c) auto
  then show "x div c < r" "x mod c < c" using assms by (simp_all add: less_mult_imp_div_less)
qed

lemma grid_cong: "(\<And>i j. i < r \<Longrightarrow> j < c \<Longrightarrow> f i j = g i j) \<Longrightarrow> grid r c f = grid r c g"
  by (simp add: grid_def cell_parts)

lemma grid_eq: "grid r c f = grid r' c' g \<longleftrightarrow> r = r' \<and> c = c' \<and> (\<forall>i < r. \<forall>j < c. f i j = g i j)"
proof
  assume e: "grid r c f = grid r' c' g"
  then have s: "r = r'" "c = c'" by (auto simp: grid_def)
  with e have "f i j = g i j" if "i < r" "j < c" for i j using grid_at [OF that] by metis
  with s show "r = r' \<and> c = c' \<and> (\<forall>i < r. \<forall>j < c. f i j = g i j)" by blast
next
  assume "r = r' \<and> c = c' \<and> (\<forall>i < r. \<forall>j < c. f i j = g i j)"
  then show "grid r c f = grid r' c' g" using grid_cong [of r c f g] by simp
qed

lemma vec_eq: "vec n f = vec n' g \<longleftrightarrow> n = n' \<and> (\<forall>i < n. f i = g i)"
proof
  assume "vec n f = vec n' g"
  then have "n = n'" "map f [0..<n] = map g [0..<n]" by (auto simp: vec_def)
  then show "n = n' \<and> (\<forall>i < n. f i = g i)" by (simp add: map_eq_conv)
qed (simp add: vec_def)

lemma igrid_eq: "igrid r c f = igrid r' c' g \<longleftrightarrow> r = r' \<and> c = c' \<and> (\<forall>i < r. \<forall>j < c. (of_nat (f i j) :: u32) = of_nat (g i j))"
proof -
  have "igrid r c f = igrid r' c' g \<longleftrightarrow> grid r c (\<lambda>i j. of_nat (f i j)) = grid r' c' (\<lambda>i j. of_nat (g i j))"
    by (simp add: igrid_def grid_def)
  then show ?thesis by (simp add: grid_eq)
qed

lemma kinds_differ [simp]: "grid r c f \<noteq> vec n g" "vec n g \<noteq> grid r c f" "grid r c f \<noteq> igrid r' c' p" "igrid r' c' p \<noteq> grid r c f"
  "vec n g \<noteq> igrid r' c' p" "igrid r' c' p \<noteq> vec n g"
  by (simp_all add: grid_def vec_def igrid_def)

text \<open>A lawful MLX: an operation with a documented result returns one, a view reads the words of its buffer, reading back gives the
  elements.\<close>

definition mlx_ok :: "'h mlx \<Rightarrow> ('h \<Rightarrow> tensor) \<Rightarrow> array_ops \<Rightarrow> mem \<Rightarrow> bool" where
  "mlx_ok m sem R mem \<longleftrightarrow>
     (\<forall>name args ints t. documented R name (map sem args) ints t \<longrightarrow>
        (\<exists>h. mlx_op m name args ints = Inr h \<and> documented R name (map sem args) ints (sem h))) \<and>
     (\<forall>buf shape. (\<forall>n \<in> set shape. 0 \<le> n) \<and> 4 * prod_list (map nat shape) = buf_len buf \<longrightarrow>
        (\<exists>h. mlx_view m buf shape 0 = Inr (Some h) \<and>
           sem h = \<lparr>t_shape = map nat shape, t_elems = words_at mem (buf_base buf) (prod_list (map nat shape)), t_float = True\<rparr>)) \<and>
     (\<forall>h. mlx_shape m h = t_shape (sem h) \<and> mlx_is_f32 m h = t_float (sem h) \<and> mlx_eval_one m h = Inr () \<and>
        mlx_data m h = words_le (t_elems (sem h)))"

section \<open>The wrappers on lawful arrays\<close>

lemma ok_op:
  "mlx_ok m sem R mem \<Longrightarrow> documented R name (map sem args) ints t \<Longrightarrow>
     \<exists>h. mlx_op m name args ints = Inr h \<and> documented R name (map sem args) ints (sem h)"
  unfolding mlx_ok_def by blast

lemma doc_binary_only:
  assumes "documented R name [grid a b f, grid c d g] [] t" and "map_of (binary_fns R) name = Some op"
  shows "t = grid (extent a c) (extent b d) (\<lambda>i j. op (f (clip a i) (clip b j)) (g (clip c i) (clip d j)))"
  using assms(1)
proof cases
  case (doc_binary op' a' c' b' d' f' g')
  have "clip x i < x" if "i < extent x y" "fits x y" for x y i using that by (auto simp: clip_def extent_def fits_def split: if_splits)
  moreover have "clip y i < y" if "i < extent x y" "fits x y" for x y i using that by (auto simp: clip_def extent_def fits_def split: if_splits)
  ultimately show ?thesis using doc_binary assms(2) by (auto simp: grid_eq)
qed (use assms(2) in \<open>auto simp: binary_fns_def split: if_splits\<close>)

lemma doc_unary_only:
  assumes "documented R name [grid a b f] [] t" and "map_of (unary_fns R) name = Some op"
  shows "t = grid a b (\<lambda>i j. op (f i j))"
  using assms(1) by cases (use assms(2) in \<open>auto simp: grid_eq\<close>)

lemma map_at: "(\<And>j. j < b \<Longrightarrow> f j = g j) \<Longrightarrow> map f [0..<b] = map g [0..<b]"
  by simp

lemma doc_sum_only: "documented R ''mlx_op_sum_axis'' [grid a b f] [1] t \<Longrightarrow> t = vec a (\<lambda>i. asum R (map (f i) [0..<b]))"
  by (erule documented.cases; auto simp: grid_eq vec_eq unary_fns_def intro!: arg_cong [of _ _ "asum R"])

lemma doc_mean_only: "documented R ''mlx_op_mean_axis'' [grid a b f] [1] t \<Longrightarrow> t = vec a (\<lambda>i. amean R (map (f i) [0..<b]))"
  by (erule documented.cases; auto simp: grid_eq vec_eq unary_fns_def intro!: arg_cong [of _ _ "amean R"])

lemma doc_transpose_only: "documented R ''mlx_op_transpose'' [grid a b f] [1, 0] t \<Longrightarrow> t = grid b a (\<lambda>i j. f j i)"
  by (erule documented.cases; auto simp: grid_eq unary_fns_def)

lemma doc_matmul_only:
  "documented R ''mlx_op_matmul'' [grid a b f, grid b c g] [] t \<Longrightarrow>
     t = grid a c (\<lambda>i j. adot R (map (f i) [0..<b]) (map (\<lambda>k. g k j) [0..<b]))"
  by (erule documented.cases; auto simp: grid_eq binary_fns_def intro!: arg_cong2 [of _ _ _ _ "adot R"] split: if_splits)

lemma doc_reshape_only:
  "documented R ''mlx_op_reshape'' [vec n f] [int n, 1] t \<Longrightarrow> t = grid n 1 (\<lambda>i j. f i)"
  "documented R ''mlx_op_reshape'' [vec n f] [1, int n] t \<Longrightarrow> t = grid 1 n (\<lambda>i j. f j)"
  "documented R ''mlx_op_reshape'' [vec (a * b) f] [int a, int b] t \<Longrightarrow> t = grid a b (\<lambda>i j. f (i * b + j))"
  "documented R ''mlx_op_reshape'' [igrid a b p] [int (a * b)] t \<Longrightarrow>
     t = \<lparr>t_shape = [a * b], t_elems = t_elems (igrid a b p), t_float = False\<rparr>"
  by (erule documented.cases; auto simp: grid_eq vec_eq unary_fns_def cell_bound simp del: of_nat_mult)+

lemma doc_partition_only:
  assumes "documented R ''mlx_op_argpartition_axis'' [grid a b f] [int kth, -1] t"
  obtains p where "t = igrid a b p" "\<forall>i < a. bij_betw (p i) {..<b} {..<b}"
    "\<forall>i < a. (\<forall>j < b. \<not> is_nan f32_infinity (f i j)) \<longrightarrow>
      (\<forall>x y. x \<le> kth \<and> kth < y \<and> y < b \<longrightarrow> fval (f i (p i x)) \<le> fval (f i (p i y)))"
  using assms
proof cases
  case (doc_partition kth' b' a' p f')
  have g: "a = a'" "b = b'" "\<forall>i < a. \<forall>j < b. f i j = f' i j" "kth = kth'" using doc_partition(1,2) by (auto simp: grid_eq)
  have "p i x < b" if "i < a" "x < b" for i x using doc_partition(6) that g by (auto simp: bij_betw_def)
  then have "\<forall>i < a. (\<forall>j < b. \<not> is_nan f32_infinity (f i j)) \<longrightarrow>
      (\<forall>x y. x \<le> kth \<and> kth < y \<and> y < b \<longrightarrow> fval (f i (p i x)) \<le> fval (f i (p i y)))"
    using doc_partition(7) g by simp
  then show ?thesis using that doc_partition(3,6) g by simp
qed

lemma doc_slice_only:
  "documented R ''mlx_op_slice'' [igrid a b p] [0, 0, int a, int k, 1, 1] t \<Longrightarrow> t = igrid a k p"
  by (erule documented.cases; auto simp: igrid_eq unary_fns_def)

lemma doc_cast_only: "documented R ''mlx_op_cast'' [igrid a b p] [2] t \<Longrightarrow> t = igrid a b p"
  by (erule documented.cases; auto simp: unary_fns_def)

lemma of_nat_32_inj: "m < 2 ^ 31 \<Longrightarrow> n < 2 ^ 31 \<Longrightarrow> (of_nat m :: u32) = of_nat n \<longleftrightarrow> m = n"
  by (simp add: word_of_nat_eq_iff take_bit_nat_eq_self)

lemma doc_along_only:
  assumes "documented R ''mlx_op_take_along_axis'' [grid a b f, igrid a k p] [1] t" and p: "\<forall>i < a. \<forall>j < k. p i j < b"
  shows "t = grid a k (\<lambda>i j. f i (p i j))"
  using assms(1)
proof cases
  case (doc_along a' k' p' b' f')
  have g: "a = a'" "b = b'" "k = k'" "\<forall>i < a. \<forall>j < b. f i j = f' i j" using doc_along(1,2) by (auto simp: grid_eq igrid_eq)
  have "p i j = p' i j" if "i < a" "j < k" for i j
  proof -
    have "(of_nat (p i j) :: u32) = of_nat (p' i j)" using doc_along(2) that by (auto simp: igrid_eq)
    moreover have "p i j < 2 ^ 31" "p' i j < 2 ^ 31" using doc_along(4,5) p that g by (meson less_trans)+
    ultimately show ?thesis by (simp only: of_nat_32_inj)
  qed
  then show ?thesis using g p by (auto simp: doc_along(3) grid_eq)
qed

lemma doc_take_only:
  assumes "documented R ''mlx_op_take'' [vec n f, \<lparr>t_shape = [length ix], t_elems = ix, t_float = False\<rparr>] [] t"
  shows "t = vec (length ix) (\<lambda>x. f (unat (ix ! x)))"
  using assms by cases (auto simp: binary_fns_def vec_eq split: if_splits)

text \<open>Each wrapper returns a handle to the documented array.\<close>

lemmas axis_wrappers = mlx_sum_axis_def mlx_mean_axis_def mlx_transpose_def mlx_reshape_def mlx_slice_def mlx_take_along_axis_def
  mlx_argpartition_axis_def unop_def binop_def mlx_cast_def mlx_matmul_def mlx_take_def runtime_err_def Let_def

text \<open>An operation whose documented result is unique.\<close>

lemma ok_one:
  assumes "mlx_ok m sem R mem" and "sem (ma_ptr x) = s" and "documented R name [s] ints t"
    and "\<And>t'. documented R name [s] ints t' \<Longrightarrow> t' = t"
  shows "\<exists>h. mlx_op m name [ma_ptr x] ints = Inr h \<and> sem h = t"
proof -
  have "documented R name (map sem [ma_ptr x]) ints t" using assms(2,3) by simp
  then obtain h where h: "mlx_op m name [ma_ptr x] ints = Inr h" "documented R name (map sem [ma_ptr x]) ints (sem h)"
    using ok_op [OF assms(1)] by blast
  then have "documented R name [s] ints (sem h)" using assms(2) by simp
  then have "sem h = t" by (rule assms(4))
  with h(1) show ?thesis by blast
qed

lemma ok_two:
  assumes "mlx_ok m sem R mem" and "sem (ma_ptr x) = s" "sem (ma_ptr y) = u" and "documented R name [s, u] ints t"
    and "\<And>t'. documented R name [s, u] ints t' \<Longrightarrow> t' = t"
  shows "\<exists>h. mlx_op m name [ma_ptr x, ma_ptr y] ints = Inr h \<and> sem h = t"
proof -
  have "documented R name (map sem [ma_ptr x, ma_ptr y]) ints t" using assms(2-4) by simp
  then obtain h where h: "mlx_op m name [ma_ptr x, ma_ptr y] ints = Inr h" "documented R name (map sem [ma_ptr x, ma_ptr y]) ints (sem h)"
    using ok_op [OF assms(1)] by blast
  then have "documented R name [s, u] ints (sem h)" using assms(2,3) by simp
  then have "sem h = t" by (rule assms(5))
  with h(1) show ?thesis by blast
qed

lemma ok_binop:
  assumes ok: "mlx_ok m sem R mem" and "map_of (binary_fns R) name = Some op" and "sem (ma_ptr x) = grid a b f" "sem (ma_ptr y) = grid c d g" and "fits a c" "fits b d"
  shows "\<exists>z. binop m name x y = Inr z \<and>
    sem (ma_ptr z) = grid (extent a c) (extent b d) (\<lambda>i j. op (f (clip a i) (clip b j)) (g (clip c i) (clip d j)))"
  by (rule exE [OF ok_two [OF ok assms(3,4) doc_binary [OF assms(2,5,6)]]], erule doc_binary_only [OF _ assms(2)], auto simp: axis_wrappers)

text \<open>The shapes that occur: equal ones, a column against a matrix, a column against a line.\<close>

lemma ok_same:
  assumes "mlx_ok m sem R mem" and "map_of (binary_fns R) name = Some op" and "sem (ma_ptr x) = grid a b f" "sem (ma_ptr y) = grid a b g"
  shows "\<exists>z. binop m name x y = Inr z \<and> sem (ma_ptr z) = grid a b (\<lambda>i j. op (f i j) (g i j))"
proof -
  have "grid (extent a a) (extent b b) (\<lambda>i j. op (f (clip a i) (clip b j)) (g (clip a i) (clip b j))) = grid a b (\<lambda>i j. op (f i j) (g i j))"
    by (auto simp: grid_eq extent_def clip_def)
  then show ?thesis using ok_binop [OF assms] by (simp add: fits_def)
qed

lemma ok_by_column:
  assumes "mlx_ok m sem R mem" and "map_of (binary_fns R) name = Some op" and "sem (ma_ptr x) = grid a b f" "sem (ma_ptr y) = grid a 1 g"
  shows "\<exists>z. binop m name x y = Inr z \<and> sem (ma_ptr z) = grid a b (\<lambda>i j. op (f i j) (g i 0))"
proof -
  have "grid (extent a a) (extent b 1) (\<lambda>i j. op (f (clip a i) (clip b j)) (g (clip a i) (clip 1 j))) = grid a b (\<lambda>i j. op (f i j) (g i 0))"
    by (auto simp: grid_eq extent_def clip_def)
  then show ?thesis using ok_binop [OF assms] by (simp add: fits_def)
qed

lemma ok_outer:
  assumes "mlx_ok m sem R mem" and "map_of (binary_fns R) name = Some op" and "sem (ma_ptr x) = grid a 1 f" "sem (ma_ptr y) = grid 1 b g"
  shows "\<exists>z. binop m name x y = Inr z \<and> sem (ma_ptr z) = grid a b (\<lambda>i j. op (f i 0) (g 0 j))"
proof -
  have "grid (extent a 1) (extent 1 b) (\<lambda>i j. op (f (clip a i) (clip 1 j)) (g (clip 1 i) (clip b j))) = grid a b (\<lambda>i j. op (f i 0) (g 0 j))"
    by (auto simp: grid_eq extent_def clip_def)
  then show ?thesis using ok_binop [OF assms] by (simp add: fits_def)
qed

lemma ok_unop:
  assumes ok: "mlx_ok m sem R mem" and "map_of (unary_fns R) name = Some op" and "sem (ma_ptr x) = grid a b f"
  shows "\<exists>z. unop m name x = Inr z \<and> sem (ma_ptr z) = grid a b (\<lambda>i j. op (f i j))"
  by (rule exE [OF ok_one [OF ok assms(3) doc_unary [OF assms(2)]]], erule doc_unary_only [OF _ assms(2)], auto simp: axis_wrappers)

lemma ok_sum: "mlx_ok m sem R mem \<Longrightarrow> sem (ma_ptr x) = grid a b f \<Longrightarrow> \<exists>z. mlx_sum_axis m x 1 = Inr z \<and> sem (ma_ptr z) = vec a (\<lambda>i. asum R (map (f i) [0..<b]))"
  by (drule (1) ok_one [OF _ _ doc_sum], erule doc_sum_only, auto simp: axis_wrappers)

lemma ok_mean: "mlx_ok m sem R mem \<Longrightarrow> sem (ma_ptr x) = grid a b f \<Longrightarrow> \<exists>z. mlx_mean_axis m x 1 = Inr z \<and> sem (ma_ptr z) = vec a (\<lambda>i. amean R (map (f i) [0..<b]))"
  by (drule (1) ok_one [OF _ _ doc_mean], erule doc_mean_only, auto simp: axis_wrappers)

lemma ok_transpose: "mlx_ok m sem R mem \<Longrightarrow> sem (ma_ptr x) = grid a b f \<Longrightarrow> \<exists>z. mlx_transpose m x [1, 0] = Inr z \<and> sem (ma_ptr z) = grid b a (\<lambda>i j. f j i)"
  by (drule (1) ok_one [OF _ _ doc_transpose], erule doc_transpose_only, auto simp: axis_wrappers)

lemma ok_matmul:
  assumes ok: "mlx_ok m sem R mem" and "sem (ma_ptr x) = grid a b f" "sem (ma_ptr y) = grid b c g"
  shows "\<exists>z. mlx_matmul m x y = Inr z \<and>
    sem (ma_ptr z) = grid a c (\<lambda>i j. adot R (map (f i) [0..<b]) (map (\<lambda>k. g k j) [0..<b]))"
  by (rule exE [OF ok_two [OF assms doc_matmul]], erule doc_matmul_only, auto simp: axis_wrappers)

lemma ok_column: "mlx_ok m sem R mem \<Longrightarrow> sem (ma_ptr x) = vec n f \<Longrightarrow> r = int n \<Longrightarrow> \<exists>z. mlx_reshape m x [r, 1] = Inr z \<and> sem (ma_ptr z) = grid n 1 (\<lambda>i j. f i)"
  by (drule (1) ok_one [OF _ _ doc_column], erule doc_reshape_only(1), auto simp: axis_wrappers)

lemma ok_line: "mlx_ok m sem R mem \<Longrightarrow> sem (ma_ptr x) = vec n f \<Longrightarrow> r = int n \<Longrightarrow> \<exists>z. mlx_reshape m x [1, r] = Inr z \<and> sem (ma_ptr z) = grid 1 n (\<lambda>i j. f j)"
  by (drule (1) ok_one [OF _ _ doc_line], erule doc_reshape_only(2), auto simp: axis_wrappers)

lemma ok_fold:
  "mlx_ok m sem R mem \<Longrightarrow> sem (ma_ptr x) = vec (a * b) f \<Longrightarrow> r = int a \<Longrightarrow> s = int b \<Longrightarrow>
     \<exists>z. mlx_reshape m x [r, s] = Inr z \<and> sem (ma_ptr z) = grid a b (\<lambda>i j. f (i * b + j))"
  by (drule (1) ok_one [OF _ _ doc_fold], erule doc_reshape_only(3), auto simp: axis_wrappers)

lemma ok_flat:
  "mlx_ok m sem R mem \<Longrightarrow> sem (ma_ptr x) = igrid a b p \<Longrightarrow> r = int (a * b) \<Longrightarrow>
     \<exists>z. mlx_reshape m x [r] = Inr z \<and> sem (ma_ptr z) = \<lparr>t_shape = [a * b], t_elems = t_elems (igrid a b p), t_float = False\<rparr>"
  by (drule (1) ok_one [OF _ _ doc_flat], erule doc_reshape_only(4), auto simp: axis_wrappers simp del: of_nat_mult)

lemma ok_slice:
  assumes ok: "mlx_ok m sem R mem" and "sem (ma_ptr x) = igrid a b p" and "k \<le> b" "r = int a" "s = int k"
  shows "\<exists>z. mlx_slice m x [0, 0] [r, s] [1, 1] = Inr z \<and> sem (ma_ptr z) = igrid a k p"
  by (rule exE [OF ok_one [OF ok assms(2) doc_slice [OF assms(3)]]], erule doc_slice_only, auto simp: axis_wrappers assms(4,5))

lemma ok_cast:
  assumes ok: "mlx_ok m sem R mem" and "sem (ma_ptr x) = igrid a b p" and "\<forall>i < a. \<forall>j < b. p i j < 2 ^ 31"
  shows "\<exists>z. mlx_cast m x MI32 = Inr z \<and> sem (ma_ptr z) = igrid a b p"
  by (rule exE [OF ok_one [OF ok assms(2) doc_cast [OF assms(3)]]], erule doc_cast_only, auto simp: axis_wrappers mlx_tag_def)

lemma ok_along:
  assumes ok: "mlx_ok m sem R mem" and "sem (ma_ptr x) = grid a b f" "sem (ma_ptr y) = igrid a k p" and "\<forall>i < a. \<forall>j < k. p i j < b" "b < 2 ^ 31"
  shows "\<exists>z. mlx_take_along_axis m x y 1 = Inr z \<and> sem (ma_ptr z) = grid a k (\<lambda>i j. f i (p i j))"
  by (rule exE [OF ok_two [OF ok assms(2,3) doc_along [OF assms(4,5)]]], erule doc_along_only [OF _ assms(4)], auto simp: axis_wrappers)

lemma ok_take:
  assumes ok: "mlx_ok m sem R mem" and "sem (ma_ptr x) = vec n f" "sem (ma_ptr y) = \<lparr>t_shape = [length ix], t_elems = ix, t_float = False\<rparr>"
    and "\<forall>x \<in> set ix. unat x < n" "n < 2 ^ 31"
  shows "\<exists>z. mlx_take m x y = Inr z \<and> sem (ma_ptr z) = vec (length ix) (\<lambda>x. f (unat (ix ! x)))"
  by (rule exE [OF ok_two [OF ok assms(2,3) doc_take [OF assms(4,5)]]], erule doc_take_only, auto simp: axis_wrappers)

lemma ok_partition:
  assumes ok: "mlx_ok m sem R mem" and "sem (ma_ptr x) = grid a b f" and "kth < b" "b < 2 ^ 31" "r = int kth"
  shows "\<exists>z p. mlx_argpartition_axis m x r (-1) = Inr z \<and> sem (ma_ptr z) = igrid a b p \<and>
    (\<forall>i < a. bij_betw (p i) {..<b} {..<b}) \<and>
    (\<forall>i < a. (\<forall>j < b. \<not> is_nan f32_infinity (f i j)) \<longrightarrow>
      (\<forall>x y. x \<le> kth \<and> kth < y \<and> y < b \<longrightarrow> fval (f i (p i x)) \<le> fval (f i (p i y))))"
proof -
  let ?part = "documented R ''mlx_op_argpartition_axis'' [grid a b f] [int kth, -1]"
  let ?ix = "\<lambda>i. sort_key (\<lambda>j. fval (f i j)) [0..<b]"
  have q: "bij_betw ((!) (?ix i)) {..<b} {..<b}" for i by (rule bij_betw_nth) auto
  have "fval (f i (?ix i ! x)) \<le> fval (f i (?ix i ! y))" if "x \<le> kth" "kth < y" "y < b" for i x y
    using sorted_nth_mono [of "map (\<lambda>j. fval (f i j)) (?ix i)" x y] that by simp
  then have "?part (igrid a b (\<lambda>i. (!) (?ix i)))" using doc_partition [OF assms(3,4), of a "\<lambda>i. (!) (?ix i)" f R] q by simp
  then obtain h where "mlx_op m ''mlx_op_argpartition_axis'' [ma_ptr x] [int kth, -1] = Inr h" and h: "?part (sem h)"
    using ok_op [OF ok, of "''mlx_op_argpartition_axis''" "[ma_ptr x]" "[int kth, -1]"] assms(2) by auto
  moreover obtain p where "sem h = igrid a b p" "\<forall>i < a. bij_betw (p i) {..<b} {..<b}"
    "\<forall>i < a. (\<forall>j < b. \<not> is_nan f32_infinity (f i j)) \<longrightarrow>
      (\<forall>x y. x \<le> kth \<and> kth < y \<and> y < b \<longrightarrow> fval (f i (p i x)) \<le> fval (f i (p i y)))"
    using h by (rule doc_partition_only)
  ultimately show ?thesis using assms(5) by (auto simp: axis_wrappers)
qed

section \<open>Views and readback\<close>

text \<open>A range inside a live region.\<close>

definition within :: "mem \<Rightarrow> nat \<Rightarrow> nat \<Rightarrow> bool" where
  "within mem a n \<longleftrightarrow> (\<exists>(b, l) \<in> set (live mem). b \<le> a \<and> a + n \<le> b + l)"

lemma within_sub: "within mem a n \<Longrightarrow> a \<le> a' \<Longrightarrow> a' + n' \<le> a + n \<Longrightarrow> within mem a' n'"
  unfolding within_def by (erule bexE) (rule bexI, auto)

lemma within_kept:
  assumes "keeps [] mem mem'" "within mem a (4 * n)"
  shows "words_at mem' a n = words_at mem a n" and "within mem' a (4 * n)"
proof -
  obtain b l where b: "(b, l) \<in> set (live mem)" "b \<le> a" "a + 4 * n \<le> b + l" using assms(2) by (auto simp: within_def)
  then have k: "read_mem mem' b l = read_mem mem b l" "(b, l) \<in> set (live mem')" using keeps_read [OF assms(1)] by auto
  have "read_mem mm a (4 * n) = take (4 * n) (drop (a - b) (read_mem mm b l))" for mm
    using read_mem_sub [of "a - b" "4 * n" l mm b] b by simp
  then show "words_at mem' a n = words_at mem a n" by (intro words_at_eq) (simp add: k)
  show "within mem' a (4 * n)" using b k by (auto simp: within_def)
qed

lemma borrow_within:
  assumes drv: "driver_ok drv" and b: "from_borrowed drv mem ptr n 4 = (mem', Inr b)" and w: "within mem ptr (4 * n)"
  shows "keeps [] mem mem'" and "buf_len b = 4 * n" and "within mem' (buf_base b) (4 * n)"
    and "words_at mem' (buf_base b) n = words_at mem ptr n"
proof -
  have c: "if is_ptr_page_aligned drv ptr then mem' = mem \<and> b = MetalBuffer ptr (n * 4) None None
      else new_buffer_filled drv mem (read_mem mem ptr (n * 4)) = (mem', Inr b)"
    using b by (auto simp: from_borrowed_def from_borrowed_bytes_def split: if_splits)
  show "keeps [] mem mem'" using c keeps_alloc [OF drv] by (auto split: if_splits)
  show len: "buf_len b = 4 * n" using c new_buffer_filled_Inr(2) by (fastforce split: if_splits)
  show "within mem' (buf_base b) (4 * n)"
    using c w new_buffer_filled_Inr(3) [of drv mem "read_mem mem ptr (n * 4)" mem' b] by (auto simp: within_def mult.commute split: if_splits)
  have "read_mem mem' (buf_base b) (4 * n) = read_mem mem ptr (4 * n)"
    using c new_buffer_filled_Inr(1) [of drv mem "read_mem mem ptr (n * 4)" mem' b] len by (auto simp: as_slice_def mult.commute split: if_splits)
  then show "words_at mem' (buf_base b) n = words_at mem ptr n" by (rule words_at_eq)
qed

text \<open>A view succeeds when the driver does; it holds the words of the slice when MLX evaluates in a memory \<open>M\<close> that keeps the
  buffers.\<close>

lemma view_shaped_ok:
  assumes drv: "driver_ok drv" "obliging drv" and data: "0 < n" "ptr \<noteq> 0" "within mem ptr (4 * n)"
    and v: "view_shaped None drv m mem (ptr, n) shape = (mem', r)"
  shows "keeps [] mem mem'"
    and "mlx_ok m sem R M \<Longrightarrow> \<forall>x \<in> set shape. 0 \<le> x \<Longrightarrow> prod_list (map nat shape) = n \<Longrightarrow>
      \<exists>z ws. r = Inr z \<and> sem (ma_ptr z) = \<lparr>t_shape = map nat shape, t_elems = ws, t_float = True\<rparr> \<and> length ws = n \<and>
        (keeps [] mem' M \<longrightarrow> ws = words_at mem ptr n)"
proof -
  obtain m1 b where b: "from_borrowed drv mem ptr n 4 = (m1, Inr b)" using obliging_borrow [OF drv(2) data(1,2)] by blast
  note w = borrow_within [OF drv(1) b data(3)]
  have r: "m1 = mem'" "r = mlx_failed (mlx_array_view_metal_buffer m b shape MF32)" using v b by (simp_all add: view_shaped_def)
  show "keeps [] mem mem'" using w(1) r(1) by simp
  assume ok: "mlx_ok m sem R M" and sh: "\<forall>x \<in> set shape. 0 \<le> x" "prod_list (map nat shape) = n"
  have "4 * prod_list (map nat shape) = buf_len b" using sh(2) w(2) by simp
  then obtain h where h: "mlx_view m b shape 0 = Inr (Some h)"
    "sem h = \<lparr>t_shape = map nat shape, t_elems = words_at M (buf_base b) (prod_list (map nat shape)), t_float = True\<rparr>"
    using ok sh(1) unfolding mlx_ok_def by blast
  have "words_at M (buf_base b) n = words_at mem ptr n" if "keeps [] mem' M" using within_kept(1) [OF that] w(3,4) r(1) by simp
  then show "\<exists>z ws. r = Inr z \<and> sem (ma_ptr z) = \<lparr>t_shape = map nat shape, t_elems = ws, t_float = True\<rparr> \<and> length ws = n \<and>
        (keeps [] mem' M \<longrightarrow> ws = words_at mem ptr n)"
    using h sh(2) by (simp add: r(2) mlx_array_view_metal_buffer_def mlx_tag_def runtime_err_def mlx_failed_def)
qed

lemma words_grid: "length ws = a * b \<Longrightarrow> \<lparr>t_shape = [a, b], t_elems = ws, t_float = True\<rparr> = grid a b (\<lambda>i j. ws ! (i * b + j))"
  by (simp add: grid_def list_eq_iff_nth_eq)

lemma words_vec: "length ws = n \<Longrightarrow> \<lparr>t_shape = [n], t_elems = ws, t_float = True\<rparr> = vec n ((!) ws)"
  by (simp add: vec_def list_eq_iff_nth_eq)

lemma view2d_ok:
  assumes drv: "driver_ok drv" "obliging drv" and data: "0 < a * b" "ptr \<noteq> 0" "within mem ptr (4 * (a * b))"
    and v: "view2d None drv m mem (ptr, a * b) (int a) (int b) = (mem', r)"
  shows "keeps [] mem mem'"
    and "mlx_ok m sem R M \<Longrightarrow> \<exists>z ws. r = Inr z \<and> sem (ma_ptr z) = grid a b (\<lambda>i j. ws ! (i * b + j)) \<and>
      (keeps [] mem' M \<longrightarrow> ws = words_at mem ptr (a * b))"
proof -
  note s = view_shaped_ok [OF drv data v [unfolded view2d_def]]
  show "keeps [] mem mem'" by (rule s(1))
  assume "mlx_ok m sem R M"
  from s(2) [OF this] show "\<exists>z ws. r = Inr z \<and> sem (ma_ptr z) = grid a b (\<lambda>i j. ws ! (i * b + j)) \<and>
      (keeps [] mem' M \<longrightarrow> ws = words_at mem ptr (a * b))"
    by (auto simp: words_grid)
qed

lemma view1d_ok:
  assumes drv: "driver_ok drv" "obliging drv" and data: "0 < n" "ptr \<noteq> 0" "within mem ptr (4 * n)"
    and v: "view1d None drv m mem (ptr, n) (int n) = (mem', r)"
  shows "keeps [] mem mem'"
    and "mlx_ok m sem R M \<Longrightarrow> \<exists>z ws. r = Inr z \<and> sem (ma_ptr z) = vec n ((!) ws) \<and> (keeps [] mem' M \<longrightarrow> ws = words_at mem ptr n)"
proof -
  note s = view_shaped_ok [OF drv data v [unfolded view1d_def]]
  show "keeps [] mem mem'" by (rule s(1))
  assume "mlx_ok m sem R M"
  from s(2) [OF this] show "\<exists>z ws. r = Inr z \<and> sem (ma_ptr z) = vec n ((!) ws) \<and> (keeps [] mem' M \<longrightarrow> ws = words_at mem ptr n)"
    by (auto simp: words_vec)
qed

text \<open>The readers of 32-bit elements.\<close>

definition mlx_to_words :: "'h mlx \<Rightarrow> mlx_dtype \<Rightarrow> 'h mlx_array \<Rightarrow> mlx_error + u32 list" where
  "mlx_to_words m dtype h = rbind (mlx_to_vec m dtype h) (\<lambda>bs. Inr (typed_view 4 bs (elements m h)))"

lemma eval_ok: "mlx_ok m sem R M \<Longrightarrow> mlx_array_eval m hs = Inr ()"
  by (induction hs) (simp_all add: mlx_ok_def runtime_err_def)

lemma to_words_ok:
  assumes ok: "mlx_ok m sem R M" and t: "sem (ma_ptr h) = t" "length (t_elems t) = prod_list (t_shape t)"
    and d: "dtype = MI32 \<or> dtype = MF32 \<and> t_float t"
  shows "mlx_to_words m dtype h = Inr (t_elems t)"
proof -
  have m: "mlx_shape m (ma_ptr h) = t_shape t" "mlx_is_f32 m (ma_ptr h) = t_float t" "mlx_data m (ma_ptr h) = words_le (t_elems t)"
    using ok t(1) by (auto simp: mlx_ok_def)
  have e: "elements m h = length (t_elems t)" using t(2) m(1) by (simp add: elements_def ma_shape_def)
  have "take (elements m h * 4) (words_le (t_elems t)) = words_le (t_elems t)" by (simp add: e words_le_length)
  moreover have "typed_view 4 (words_le (t_elems t)) (length (t_elems t)) = t_elems t" by (rule typed_view_words_le) simp_all
  moreover have "mlx_element_size dtype = 4" using d by (auto simp: mlx_element_size_def)
  ultimately show ?thesis using d m by (auto simp: mlx_to_words_def mlx_to_vec_def e typed_view_def)
qed

section \<open>A reference MLX\<close>

text \<open>The documented operations computed on the arrays themselves; a partition is a sort.\<close>

definition tensor_at :: "tensor \<Rightarrow> nat \<Rightarrow> nat \<Rightarrow> u32" where
  "tensor_at s i j = t_elems s ! (i * (t_shape s ! 1) + j)"

definition tensor_op1 :: "array_ops \<Rightarrow> string \<Rightarrow> tensor \<Rightarrow> int list \<Rightarrow> string + tensor" where
  "tensor_op1 R name s ints =
     (let a = t_shape s ! 0; b = t_shape s ! 1; row = (\<lambda>i. map (tensor_at s i) [0..<b]) in
      case map_of (unary_fns R) name of
        Some op \<Rightarrow> Inr (grid a b (\<lambda>i j. op (tensor_at s i j)))
      | None \<Rightarrow>
          if name = ''mlx_op_sum_axis'' then Inr (vec a (\<lambda>i. asum R (row i)))
          else if name = ''mlx_op_mean_axis'' then Inr (vec a (\<lambda>i. amean R (row i)))
          else if name = ''mlx_op_reshape'' then Inr (s\<lparr>t_shape := map nat ints\<rparr>)
          else if name = ''mlx_op_transpose'' then Inr (grid b a (\<lambda>i j. tensor_at s j i))
          else if name = ''mlx_op_argpartition_axis'' then Inr (igrid a b (\<lambda>i. (!) (sort_key (\<lambda>j. fval (tensor_at s i j)) [0..<b])))
          else if name = ''mlx_op_slice'' then Inr (igrid (nat (ints ! 2)) (nat (ints ! 3)) (\<lambda>i j. unat (tensor_at s i j)))
          else if name = ''mlx_op_cast'' then Inr s
          else Inl ''unsupported'')"

definition tensor_op2 :: "array_ops \<Rightarrow> string \<Rightarrow> tensor \<Rightarrow> tensor \<Rightarrow> string + tensor" where
  "tensor_op2 R name s u =
     (let a = t_shape s ! 0; b = t_shape s ! 1; c = t_shape u ! 0; d = t_shape u ! 1 in
      case map_of (binary_fns R) name of
        Some op \<Rightarrow> Inr (grid (extent a c) (extent b d) (\<lambda>i j. op (tensor_at s (clip a i) (clip b j)) (tensor_at u (clip c i) (clip d j))))
      | None \<Rightarrow>
          if name = ''mlx_op_matmul'' then
            Inr (grid a d (\<lambda>i j. adot R (map (tensor_at s i) [0..<b]) (map (\<lambda>k. tensor_at u k j) [0..<b])))
          else if name = ''mlx_op_take_along_axis'' then Inr (grid a d (\<lambda>i j. tensor_at s i (unat (tensor_at u i j))))
          else if name = ''mlx_op_take'' then Inr (vec (length (t_elems u)) (\<lambda>x. t_elems s ! unat (t_elems u ! x)))
          else Inl ''unsupported'')"

definition tensor_mlx :: "array_ops \<Rightarrow> mem \<Rightarrow> tensor mlx" where
  "tensor_mlx R M = \<lparr>
     mlx_op = (\<lambda>name args ints. case args of [s] \<Rightarrow> tensor_op1 R name s ints | [s, u] \<Rightarrow> tensor_op2 R name s u | _ \<Rightarrow> Inl ''arguments''),
     mlx_view = (\<lambda>buf shape tag. Inr (Some
       \<lparr>t_shape = map nat shape, t_elems = words_at M (buf_base buf) (prod_list (map nat shape)), t_float = True\<rparr>)),
     mlx_from_f32 = (\<lambda>xs. Inr None),
     mlx_shape = t_shape,
     mlx_is_f32 = t_float,
     mlx_dtype_tag = (\<lambda>h. Inr (if t_float h then 0 else 2)),
     mlx_eval_one = (\<lambda>h. Inr ()),
     mlx_data = (\<lambda>h. words_le (t_elems h))\<rparr>"

lemma tensor_at_grid [simp]: "i < r \<Longrightarrow> j < c \<Longrightarrow> tensor_at (grid r c f) i j = f i j"
  by (simp add: tensor_at_def grid_at)

lemma tensor_at_igrid [simp]: "i < r \<Longrightarrow> j < c \<Longrightarrow> tensor_at (igrid r c p) i j = of_nat (p i j)"
  using tensor_at_grid [of i r j c "\<lambda>i j. of_nat (p i j)"] by (simp add: tensor_at_def igrid_def)

lemma igrid_shape [simp]: "t_shape (igrid r c p) = [r, c]" "\<not> t_float (igrid r c p)" "length (t_elems (igrid r c p)) = r * c"
  by (simp_all add: igrid_def)

lemma clip_less: "i < extent x y \<Longrightarrow> fits x y \<Longrightarrow> clip x i < x \<and> clip y i < y"
  by (auto simp: clip_def extent_def fits_def split: if_splits)

lemma insort_key_agree: "f x = g x \<Longrightarrow> (\<And>y. y \<in> set ys \<Longrightarrow> f y = g y) \<Longrightarrow> insort_key f x ys = insort_key g x ys"
  by (induction ys) simp_all

lemma sort_key_agree: "(\<And>x. x \<in> set xs \<Longrightarrow> f x = g x) \<Longrightarrow> sort_key f xs = sort_key g xs"
proof (induction xs)
  case (Cons x xs)
  then have e: "sort_key f xs = sort_key g xs" by simp
  have "insort_key f x (sort_key g xs) = insort_key g x (sort_key g xs)" by (rule insort_key_agree) (use Cons.prems in auto)
  then show ?case by (simp add: e)
qed simp

lemma tensor_op_documented:
  assumes "documented R name args ints t"
  shows "\<exists>t'. mlx_op (tensor_mlx R M) name args ints = Inr t' \<and> documented R name args ints t'"
  using assms
proof (cases rule: documented.cases)
  case (doc_binary op a c b d f g)
  have "mlx_op (tensor_mlx R M) name args ints = Inr t"
    using doc_binary(1-4) clip_less [OF _ doc_binary(5)] clip_less [OF _ doc_binary(6)]
    by (auto simp: tensor_mlx_def tensor_op2_def Let_def intro!: grid_cong)
  then show ?thesis using assms by blast
next
  case (doc_partition kth b a p f)
  let ?ix = "\<lambda>i. sort_key (\<lambda>j. fval (f i j)) [0..<b]"
  have o: "mlx_op (tensor_mlx R M) name args ints = Inr (igrid a b (\<lambda>i. (!) (?ix i)))"
  proof -
    have "sort_key (\<lambda>j. fval (tensor_at (grid a b f) i j)) [0..<b] = ?ix i" if "i < a" for i
      using that by (intro sort_key_agree) simp_all
    then show ?thesis
      using doc_partition(1-4) by (simp add: tensor_mlx_def tensor_op1_def Let_def unary_fns_def igrid_eq)
  qed
  have "bij_betw ((!) (?ix i)) {..<b} {..<b}" for i by (rule bij_betw_nth) auto
  moreover have "fval (f i (?ix i ! x)) \<le> fval (f i (?ix i ! y))" if "x \<le> kth" "kth < y" "y < b" for i x y
    using sorted_nth_mono [of "map (\<lambda>j. fval (f i j)) (?ix i)" x y] that by simp
  ultimately show ?thesis
    using o documented.doc_partition [OF doc_partition(5,6), of a "\<lambda>i. (!) (?ix i)" f R] doc_partition(1-3) by auto
next
  case (doc_along a k p b f)
  have "unat (of_nat (p i j) :: u32) = p i j" if "i < a" "j < k" for i j
    using less_trans [of "p i j" b "2 ^ 31"] doc_along(5,6) that by (simp add: unsigned_of_nat take_bit_nat_eq_self)
  then have "mlx_op (tensor_mlx R M) name args ints = Inr t"
    using doc_along by (auto simp: tensor_mlx_def tensor_op2_def Let_def binary_fns_def intro!: grid_cong)
  then show ?thesis using assms by blast
next
  case (doc_take ix n f)
  then have "mlx_op (tensor_mlx R M) name args ints = Inr t"
    by (auto simp: tensor_mlx_def tensor_op2_def Let_def binary_fns_def vec_def)
  then show ?thesis using assms by blast
next
  case (doc_matmul a b f c g)
  then have "mlx_op (tensor_mlx R M) name args ints = Inr t"
    by (auto simp: tensor_mlx_def tensor_op2_def Let_def binary_fns_def intro!: grid_cong arg_cong2 [of _ _ _ _ "adot R"])
  then show ?thesis using assms by blast
next
  case (doc_unary op a b f)
  then have "mlx_op (tensor_mlx R M) name args ints = Inr t"
    by (auto simp: tensor_mlx_def tensor_op1_def Let_def intro!: grid_cong)
  then show ?thesis using assms by blast
next
  case (doc_slice k b a p)
  then have "mlx_op (tensor_mlx R M) name args ints = Inr t"
    by (auto simp: tensor_mlx_def tensor_op1_def Let_def unary_fns_def igrid_eq)
  then show ?thesis using assms by blast
next
  case (doc_sum a b f)
  then have "mlx_op (tensor_mlx R M) name args ints = Inr t"
    by (auto simp: tensor_mlx_def tensor_op1_def Let_def unary_fns_def vec_eq intro!: arg_cong [of _ _ "asum R"])
  then show ?thesis using assms by blast
next
  case (doc_mean a b f)
  then have "mlx_op (tensor_mlx R M) name args ints = Inr t"
    by (auto simp: tensor_mlx_def tensor_op1_def Let_def unary_fns_def vec_eq intro!: arg_cong [of _ _ "amean R"])
  then show ?thesis using assms by blast
next
  case (doc_transpose a b f)
  then have "mlx_op (tensor_mlx R M) name args ints = Inr t"
    by (auto simp: tensor_mlx_def tensor_op1_def Let_def unary_fns_def intro!: grid_cong)
  then show ?thesis using assms by blast
next
  case (doc_line n f)
  have "map (\<lambda>x. f (x mod n)) [0..<n] = map f [0..<n]" by simp
  then have "mlx_op (tensor_mlx R M) name args ints = Inr t"
    using doc_line by (simp add: tensor_mlx_def tensor_op1_def Let_def unary_fns_def grid_def vec_def)
  then show ?thesis using assms by blast
next
  case (doc_flat a b p)
  have "igrid a b p\<lparr>t_shape := [a * b]\<rparr> = t" by (simp add: doc_flat(4) igrid_def)
  then have "mlx_op (tensor_mlx R M) name args ints = Inr t"
    using doc_flat by (simp add: tensor_mlx_def tensor_op1_def Let_def unary_fns_def del: of_nat_mult)
  then show ?thesis using assms by blast
qed (use assms in \<open>auto simp: tensor_mlx_def tensor_op1_def Let_def unary_fns_def grid_def vec_def cong: map_cong\<close>)

lemma tensor_mlx_ok: "mlx_ok (tensor_mlx R M) id R M"
  using tensor_op_documented [of R] by (auto simp: mlx_ok_def) (simp_all add: tensor_mlx_def)

end
