(* ===== verification/Vector_Search.thy ===== *)
theory Vector_Search
  imports Mlx_Arrays "HOL-Library.Product_Lexorder"
begin

text \<open>Models \<open>polars-metal-core/src/vector_search.rs\<close>: the best \<open>k\<close> corpus rows of each query by cosine similarity or squared
  distance, as an MLX graph over the whole corpus or over tiles of its rows whose results are merged on the host.\<close>

unbundle bit_operations_syntax

section \<open>The graph\<close>

definition op_cosine :: u32 where "op_cosine = 0"

definition op_knn_l2 :: u32 where "op_knn_l2 = 1"

definition l2_normalize_rows :: "'h mlx \<Rightarrow> 'h mlx_array \<Rightarrow> int \<Rightarrow> mlx_error + 'h mlx_array" where
  "l2_normalize_rows m x rows =
     rbind (binop m ''mlx_op_mul'' x x) (\<lambda>sq.
     rbind (mlx_sum_axis m sq 1) (\<lambda>ss.
     rbind (mlx_reshape m ss [rows, 1]) (\<lambda>ss.
     rbind (unop m ''mlx_op_sqrt'' ss) (\<lambda>norm.
     binop m ''mlx_op_div'' x norm))))"

text \<open>The metric and what the partition runs on, whose smallest entries are the best.\<close>

definition cosine_metric :: "'h mlx \<Rightarrow> 'h mlx_array \<Rightarrow> 'h mlx_array \<Rightarrow> int \<Rightarrow> int \<Rightarrow> mlx_error + 'h mlx_array \<times> 'h mlx_array" where
  "cosine_metric m q c q_rows n_rows =
     rbind (l2_normalize_rows m q (as_i32 q_rows)) (\<lambda>qn.
     rbind (l2_normalize_rows m c (as_i32 n_rows)) (\<lambda>cn.
     rbind (mlx_transpose m cn [1, 0]) (\<lambda>ct.
     rbind (mlx_matmul m qn ct) (\<lambda>sims.
     rbind (unop m ''mlx_op_neg'' sims) (\<lambda>neg. Inr (sims, neg))))))"

definition l2_metric :: "'h mlx \<Rightarrow> 'h mlx_array \<Rightarrow> 'h mlx_array \<Rightarrow> int \<Rightarrow> int \<Rightarrow> mlx_error + 'h mlx_array \<times> 'h mlx_array" where
  "l2_metric m q c q_rows n_rows =
     rbind (binop m ''mlx_op_mul'' q q) (\<lambda>qq.
     rbind (mlx_sum_axis m qq 1) (\<lambda>qs.
     rbind (mlx_reshape m qs [as_i32 q_rows, 1]) (\<lambda>q2.
     rbind (binop m ''mlx_op_mul'' c c) (\<lambda>cc.
     rbind (mlx_sum_axis m cc 1) (\<lambda>cs.
     rbind (mlx_reshape m cs [1, as_i32 n_rows]) (\<lambda>c2.
     rbind (mlx_transpose m c [1, 0]) (\<lambda>ct.
     rbind (mlx_matmul m q ct) (\<lambda>cross.
     rbind (binop m ''mlx_op_add'' cross cross) (\<lambda>two_cross.
     rbind (binop m ''mlx_op_add'' q2 c2) (\<lambda>s.
     rbind (binop m ''mlx_op_sub'' s two_cross) (\<lambda>d2. Inr (d2, d2))))))))))))"

definition search_metric ::
  "'h mlx \<Rightarrow> 'h mlx_array \<Rightarrow> 'h mlx_array \<Rightarrow> int \<Rightarrow> int \<Rightarrow> u32 \<Rightarrow> search_error + 'h mlx_array \<times> 'h mlx_array" where
  "search_metric m q c q_rows n_rows op =
     (if op = op_cosine then mlx_failed (cosine_metric m q c q_rows n_rows)
      else if op = op_knn_l2 then mlx_failed (l2_metric m q c q_rows n_rows)
      else Inl (UnknownSearchOp op))"

definition best_of ::
  "'h mlx \<Rightarrow> 'h mlx_array \<Rightarrow> 'h mlx_array \<Rightarrow> int \<Rightarrow> int \<Rightarrow> mlx_error + 'h mlx_array \<times> 'h mlx_array" where
  "best_of m metric partition_on q_rows k =
     rbind (mlx_argpartition_axis m partition_on (as_i32 (k - 1)) (-1)) (\<lambda>part.
     rbind (mlx_slice m part [0, 0] [as_i32 q_rows, as_i32 k] [1, 1]) (\<lambda>idx_k.
     rbind (mlx_cast m idx_k MI32) (\<lambda>idx_k_i.
     rbind (mlx_take_along_axis m metric idx_k_i 1) (\<lambda>val_k. Inr (idx_k_i, val_k)))))"

definition reranked ::
  "'h mlx \<Rightarrow> 'h mlx_array \<Rightarrow> 'h mlx_array \<Rightarrow> 'h mlx_array \<Rightarrow> int \<Rightarrow> int \<Rightarrow> mlx_error + 'h mlx_array" where
  "reranked m wv idx_k_i val_k q_rows k =
     rbind (mlx_reshape m idx_k_i [as_i32 (q_rows * k)]) (\<lambda>idx_flat.
     rbind (mlx_take m wv idx_flat) (\<lambda>feat.
     rbind (mlx_reshape m feat [as_i32 q_rows, as_i32 k]) (\<lambda>feat2d.
     rbind (unop m ''mlx_op_neg'' feat2d) (\<lambda>neg.
     rbind (unop m ''mlx_op_exp'' neg) (\<lambda>decay.
     binop m ''mlx_op_mul'' val_k decay)))))"

definition read_back :: "'h mlx \<Rightarrow> 'h mlx_array \<Rightarrow> 'h mlx_array \<Rightarrow> mlx_error + u32 list \<times> u32 list" where
  "read_back m idx val =
     rbind (mlx_array_eval m [idx, val]) (\<lambda>_.
     rbind (mlx_to_words m MI32 idx) (\<lambda>indices.
     rbind (mlx_to_words m MF32 val) (\<lambda>vs. Inr (indices, vs))))"

type_synonym slice = "nat \<times> nat"

definition vector_search_topk_rerank ::
  "string option \<Rightarrow> driver \<Rightarrow> 'h mlx \<Rightarrow> mem \<Rightarrow> slice \<Rightarrow> int \<Rightarrow> slice \<Rightarrow> int \<Rightarrow> int \<Rightarrow> int \<Rightarrow> u32 \<Rightarrow> slice option \<Rightarrow>
     mem \<times> (search_error + u32 list \<times> u32 list)" where
  "vector_search_topk_rerank no_device drv m mem query q_rows corpus n_rows d k op weight =
     (case view2d no_device drv m mem query q_rows d of
        (m1, Inl e) \<Rightarrow> (m1, Inl e)
      | (m1, Inr q) \<Rightarrow>
          (case view2d no_device drv m m1 corpus n_rows d of
             (m2, Inl e) \<Rightarrow> (m2, Inl e)
           | (m2, Inr c) \<Rightarrow>
               (case rbind (search_metric m q c q_rows n_rows op) (\<lambda>(metric, partition_on).
                   mlx_failed (best_of m metric partition_on q_rows k)) of
                  Inl e \<Rightarrow> (m2, Inl e)
                | Inr (idx, val) \<Rightarrow>
                    (case weight of
                       None \<Rightarrow> (m2, mlx_failed (read_back m idx val))
                     | Some w \<Rightarrow>
                         (case view1d no_device drv m m2 w n_rows of
                            (m3, Inl e) \<Rightarrow> (m3, Inl e)
                          | (m3, Inr wv) \<Rightarrow> (m3, mlx_failed (rbind (reranked m wv idx val q_rows k) (read_back m idx))))))))"

definition vector_search_topk ::
  "string option \<Rightarrow> driver \<Rightarrow> 'h mlx \<Rightarrow> mem \<Rightarrow> slice \<Rightarrow> int \<Rightarrow> slice \<Rightarrow> int \<Rightarrow> int \<Rightarrow> int \<Rightarrow> u32 \<Rightarrow>
     mem \<times> (search_error + u32 list \<times> u32 list)" where
  "vector_search_topk no_device drv m mem query q_rows corpus n_rows d k op =
     vector_search_topk_rerank no_device drv m mem query q_rows corpus n_rows d k op None"

section \<open>Tiles\<close>

text \<open>\<open>f32::total_cmp\<close> compares these integers.\<close>

definition total_key :: "u32 \<Rightarrow> int" where
  "total_key x = sint (x XOR drop_bit 1 (signed_drop_bit 31 x))"

definition rank_key :: "u32 \<Rightarrow> u32 \<times> u32 \<Rightarrow> int \<times> int" where
  "rank_key op = (\<lambda>(i, v). (if op = op_cosine then - total_key v else total_key v, sint i))"

definition keep_best :: "u32 \<Rightarrow> nat \<Rightarrow> (u32 \<times> u32) list \<Rightarrow> (u32 \<times> u32) list" where
  "keep_best op kk xs = take kk (sort_key (rank_key op) xs)"

text \<open>The candidates of one tile join those of the tiles before; an index past the end is a panic.\<close>

definition merge_tile ::
  "u32 \<Rightarrow> nat \<Rightarrow> nat \<Rightarrow> int \<Rightarrow> u32 list \<Rightarrow> u32 list \<Rightarrow> (u32 \<times> u32) list list \<Rightarrow> (u32 \<times> u32) list list option" where
  "merge_tile op kk per offset idx val best =
     (if length idx < length best * per \<or> length val < length best * per then None
      else Some (map (\<lambda>qi. keep_best op kk (best ! qi @
             map (\<lambda>j. (idx ! (qi * per + j) + word_of_int (as_i32 offset), val ! (qi * per + j))) [0..<per])) [0..<length best]))"

definition subslice :: "slice \<Rightarrow> nat \<Rightarrow> nat \<Rightarrow> slice option" where
  "subslice s from to = (if from \<le> to \<and> to \<le> snd s then Some (fst s + 4 * from, to - from) else None)"

definition as_i64 :: "nat \<Rightarrow> int" where "as_i64 n = sint (of_nat n :: 64 word)"

partial_function (option) tile_loop ::
  "string option \<Rightarrow> driver \<Rightarrow> 'h mlx \<Rightarrow> slice \<Rightarrow> int \<Rightarrow> slice \<Rightarrow> int \<Rightarrow> int \<Rightarrow> nat \<Rightarrow> u32 \<Rightarrow> int \<Rightarrow> slice option \<Rightarrow> mem \<Rightarrow>
     (u32 \<times> u32) list list \<Rightarrow> int \<Rightarrow> (mem \<times> (search_error + (u32 \<times> u32) list list)) option" where
  "tile_loop no_device drv m query q_rows corpus n_rows d kk op tile_rows weight mem best offset =
     (if \<not> offset < n_rows then Some (mem, Inr best)
      else
        let rows = min (n_rows - offset) tile_rows; per = min kk (as_usize rows);
            w_tile = (case weight of None \<Rightarrow> Some None
                      | Some w \<Rightarrow> map_option Some (subslice w (as_usize offset) (as_usize (offset + rows))))
        in case (w_tile, subslice corpus (as_usize (offset * d)) (as_usize ((offset + rows) * d))) of
             (None, _) \<Rightarrow> None
           | (_, None) \<Rightarrow> None
           | (Some wt, Some tile) \<Rightarrow>
               (case vector_search_topk_rerank no_device drv m mem query q_rows tile rows d (as_i64 per) op wt of
                  (mem', Inl e) \<Rightarrow> Some (mem', Inl e)
                | (mem', Inr (idx, val)) \<Rightarrow>
                    Option.bind (merge_tile op kk per offset idx val best) (\<lambda>best'.
                      tile_loop no_device drv m query q_rows corpus n_rows d kk op tile_rows weight mem' best' (offset + rows))))"

text \<open>The table of candidates takes 24 bytes for each query, of at most \<open>isize::MAX\<close>.\<close>

definition vector_search_topk_tiled ::
  "string option \<Rightarrow> driver \<Rightarrow> 'h mlx \<Rightarrow> mem \<Rightarrow> slice \<Rightarrow> int \<Rightarrow> slice \<Rightarrow> int \<Rightarrow> int \<Rightarrow> int \<Rightarrow> u32 \<Rightarrow> int \<Rightarrow> slice option \<Rightarrow>
     (mem \<times> (search_error + u32 list \<times> u32 list)) option" where
  "vector_search_topk_tiled no_device drv m mem query q_rows corpus n_rows d k op tile_rows weight =
     (if n_rows \<le> tile_rows
      then Some (vector_search_topk_rerank no_device drv m mem query q_rows corpus n_rows d k op weight)
      else if 2 ^ 63 \<le> 24 * as_usize q_rows then None
      else map_option (map_prod id (map_sum id (\<lambda>best. (concat (map (map fst) best), concat (map (map snd) best)))))
        (tile_loop no_device drv m query q_rows corpus n_rows d (as_usize (min k n_rows)) op tile_rows weight mem
          (replicate (as_usize q_rows) []) 0))"

definition execute_vector_search ::
  "string option \<Rightarrow> driver \<Rightarrow> 'h mlx \<Rightarrow> mem \<Rightarrow> slice \<Rightarrow> int \<Rightarrow> slice \<Rightarrow> int \<Rightarrow> int \<Rightarrow> int \<Rightarrow> u32 \<Rightarrow> int \<Rightarrow> slice option \<Rightarrow>
     (mem \<times> (search_error + u32 list \<times> u32 list)) option" where
  "execute_vector_search no_device drv m mem query q_rows corpus n_rows d k op tile_rows weight =
     vector_search_topk_tiled no_device drv m mem query q_rows corpus n_rows d k op tile_rows weight"

section \<open>Scores\<close>

definition unit_row :: "array_ops \<Rightarrow> u32 list \<Rightarrow> u32 list" where
  "unit_row R v = map (\<lambda>x. adiv R x (asqrt R (asum R (map (\<lambda>y. amul R y y) v)))) v"

text \<open>The metric of a query row and a corpus row, and the integer that orders scores from the best one.\<close>

definition score :: "array_ops \<Rightarrow> u32 \<Rightarrow> u32 list \<Rightarrow> u32 list \<Rightarrow> u32" where
  "score R op v w =
     (if op = op_cosine then adot R (unit_row R v) (unit_row R w)
      else let cross = adot R v w
        in asub R (aadd R (asum R (map (\<lambda>x. amul R x x) v)) (asum R (map (\<lambda>x. amul R x x) w))) (aadd R cross cross))"

definition rank_of :: "u32 \<Rightarrow> u32 \<Rightarrow> int" where
  "rank_of op v = (if op = op_cosine then - fval v else fval v)"

lemma fns: "map_of (binary_fns R) ''mlx_op_add'' = Some (aadd R)" "map_of (binary_fns R) ''mlx_op_sub'' = Some (asub R)"
  "map_of (binary_fns R) ''mlx_op_mul'' = Some (amul R)" "map_of (binary_fns R) ''mlx_op_div'' = Some (adiv R)"
  "map_of (unary_fns R) ''mlx_op_neg'' = Some negate32" "map_of (unary_fns R) ''mlx_op_sqrt'' = Some (asqrt R)"
  "map_of (unary_fns R) ''mlx_op_exp'' = Some (aexp R)"
  by (simp_all add: binary_fns_def unary_fns_def)

lemma l2_normalize_ok:
  assumes ok: "mlx_ok m sem R mem" and x: "sem (ma_ptr x) = grid a b f"
  shows "\<exists>z. l2_normalize_rows m x (int a) = Inr z \<and> sem (ma_ptr z) = grid a b (\<lambda>i j. unit_row R (map (f i) [0..<b]) ! j)"
proof -
  obtain sq where sq: "binop m ''mlx_op_mul'' x x = Inr sq" "sem (ma_ptr sq) = grid a b (\<lambda>i j. amul R (f i j) (f i j))"
    using ok_same [OF ok fns(3) x x] by blast
  obtain ss where ss: "mlx_sum_axis m sq 1 = Inr ss" "sem (ma_ptr ss) = vec a (\<lambda>i. asum R (map (\<lambda>j. amul R (f i j) (f i j)) [0..<b]))"
    using ok_sum [OF ok sq(2)] by blast
  obtain s1 where s1: "mlx_reshape m ss [int a, 1] = Inr s1" "sem (ma_ptr s1) = grid a 1 (\<lambda>i j. asum R (map (\<lambda>j. amul R (f i j) (f i j)) [0..<b]))"
    using ok_column [OF ok ss(2) refl] by blast
  obtain nm where nm: "unop m ''mlx_op_sqrt'' s1 = Inr nm" "sem (ma_ptr nm) = grid a 1 (\<lambda>i j. asqrt R (asum R (map (\<lambda>j. amul R (f i j) (f i j)) [0..<b])))"
    using ok_unop [OF ok fns(6) s1(2)] by blast
  obtain z where z: "binop m ''mlx_op_div'' x nm = Inr z"
    "sem (ma_ptr z) = grid a b (\<lambda>i j. adiv R (f i j) (asqrt R (asum R (map (\<lambda>j. amul R (f i j) (f i j)) [0..<b]))))"
    using ok_by_column [OF ok fns(4) x nm(2)] by blast
  have "sem (ma_ptr z) = grid a b (\<lambda>i j. unit_row R (map (f i) [0..<b]) ! j)"
    unfolding z(2) by (rule grid_cong) (simp add: unit_row_def o_def)
  then show ?thesis using sq(1) ss(1) s1(1) nm(1) z(1) by (simp add: l2_normalize_rows_def result_simps)
qed

lemma sign_bit: "bit (0x80000000 :: u32) n \<longleftrightarrow> n = 31"
  using bit_exp_iff [of 31 n, where ?'a = "32 word"] by (auto simp: possible_bit_word)

lemma negate32_bit: "bit (negate32 x) n \<longleftrightarrow> (if n = 31 then \<not> bit x n else bit x n)"
  unfolding negate32_def bit_xor_iff sign_bit by simp

lemma negate32_parts: "fmag (negate32 x) = fmag x" "fneg (negate32 x) \<longleftrightarrow> \<not> fneg x"
  by (auto simp: fmag_def fneg_def negate32_bit intro!: bit_eqI simp: bit_and_iff bit_mask_iff)

lemma negate32_fval: "fval (negate32 x) = - fval x" "is_nan pinf (negate32 x) \<longleftrightarrow> is_nan pinf x"
  by (simp_all add: fval_def is_nan_def negate32_parts)

lemma sint_sign: "\<not> fneg (x :: u32) \<Longrightarrow> sint x = uint (fmag x)"
proof -
  assume "\<not> fneg x"
  then have "\<not> bit (uint x) 31" by (simp add: fneg_def bit_uint_iff)
  then have "sint x = take_bit 31 (uint x)" by (simp add: sint_uint signed_take_bit_eq_if_positive)
  also have "\<dots> = uint (take_bit 31 x)" by (simp add: unsigned_take_bit_eq)
  also have "take_bit 31 x = fmag x" by (simp add: fmag_def take_bit_eq_mask)
  finally show ?thesis .
qed

lemma total_key_fval: "total_key x = (if fneg x then - 1 - uint (fmag x) else uint (fmag x))"
proof -
  have big: "\<not> bit x (32 + n)" for n using bit_imp_le_length [of x "32 + n"] by auto
  show ?thesis
  proof (cases "fneg x")
    case True
    have "x XOR drop_bit 1 (signed_drop_bit 31 x) = NOT (negate32 x)"
      using True by (auto simp: fneg_def negate32_bit bit_xor_iff bit_not_iff bit_drop_bit_eq bit_signed_drop_bit_iff big intro!: bit_eqI)
    moreover have "sint (NOT (negate32 x)) = - 1 - sint (negate32 x)"
      using sint_ge [of "negate32 x"] sint_lt [of "negate32 x"] by (simp add: signed_not_eq not_int_def signed_take_bit_int_eq_self)
    ultimately show ?thesis using True sint_sign [of "negate32 x"] by (simp add: total_key_def negate32_parts)
  next
    case False
    have "x XOR drop_bit 1 (signed_drop_bit 31 x) = x"
      using False by (auto simp: fneg_def bit_eq_iff bit_xor_iff bit_drop_bit_eq bit_signed_drop_bit_iff big)
    then show ?thesis using False sint_sign [of x] by (simp add: total_key_def)
  qed
qed

lemma total_refines: "total_key v \<le> total_key w \<Longrightarrow> fval v \<le> fval w"
  by (auto simp: total_key_fval fval_def intro: order_trans [of _ 0] split: if_splits)

lemma rank_refines: "rank_key op (i, v) \<le> rank_key op (j, w) \<Longrightarrow> rank_of op v \<le> rank_of op w"
  using total_refines [of v w] total_refines [of w v] by (auto simp: rank_key_def rank_of_def less_eq_prod_def)

section \<open>Choosing the best\<close>

text \<open>\<open>js\<close> are \<open>k\<close> of the best elements of \<open>A\<close>, or all of them when there are fewer.\<close>

definition top_of :: "nat set \<Rightarrow> (nat \<Rightarrow> int) \<Rightarrow> nat \<Rightarrow> nat list \<Rightarrow> bool" where
  "top_of A key k js \<longleftrightarrow> distinct js \<and> set js \<subseteq> A \<and> length js = min k (card A) \<and> (\<forall>i \<in> set js. \<forall>j \<in> A - set js. key i \<le> key j)"

lemma sort_key_map: "sort_key f (map g xs) = map g (sort_key (\<lambda>x. f (g x)) xs)"
proof -
  have i: "insort_key f (g x) (map g ys) = map g (insort_key (\<lambda>x. f (g x)) x ys)" for x ys by (induction ys) simp_all
  show ?thesis by (induction xs) (simp_all add: i)
qed

text \<open>Taking the first of a list that some refinement of the order sorts.\<close>

lemma top_take:
  fixes rank :: "nat \<Rightarrow> 'b :: linorder"
  assumes "distinct cs" and "\<And>i j. i \<in> set cs \<Longrightarrow> j \<in> set cs \<Longrightarrow> rank i \<le> rank j \<Longrightarrow> key i \<le> key j"
  shows "top_of (set cs) key k (take k (sort_key rank cs))"
proof -
  let ?s = "sort_key rank cs"
  have "key i \<le> key j" if i: "i \<in> set (take k ?s)" and j: "j \<in> set cs - set (take k ?s)" for i j
  proof -
    obtain x where x: "x < k" "x < length ?s" "i = ?s ! x" using i by (auto simp: in_set_conv_nth)
    have "j \<in> set (drop k ?s)" using j by (metis DiffD1 DiffD2 UnE append_take_drop_id set_append set_sort)
    then obtain y where "y < length (drop k ?s)" "j = drop k ?s ! y" by (auto simp: in_set_conv_nth)
    then have y: "k + y < length ?s" "j = ?s ! (k + y)" by simp_all
    have "rank i \<le> rank j" using sorted_nth_mono [of "map rank ?s" x "k + y"] x y by simp
    then show ?thesis using assms(2) [of i j] i j set_take_subset [of k ?s] by auto
  qed
  then show ?thesis using assms(1) set_take_subset [of k ?s] by (auto simp: top_of_def distinct_card min.commute)
qed

text \<open>The best of a union are among the best of its parts.\<close>

lemma top_union:
  assumes A: "top_of A key k as" and B: "top_of B key k bs" and fin: "finite A" "finite B" "A \<inter> B = {}"
    and cs: "top_of (set as \<union> set bs) key k cs"
  shows "top_of (A \<union> B) key k cs"
proof -
  have card: "card (A \<union> B) = card A + card B" "card (set as \<union> set bs) = length as + length bs"
    using fin A B by (auto simp: top_of_def card_Un_disjoint distinct_card disjoint_iff subset_iff intro!: trans [OF card_Un_disjoint])
  then have l: "length cs = min k (card (A \<union> B))" using A B cs by (auto simp: top_of_def)
  have part: "key i \<le> key j"
    if p: "top_of P key k ps" and i: "i \<in> set cs" and j: "j \<in> P" "j \<notin> set cs" "set ps \<subseteq> set as \<union> set bs" and P: "finite P" for P ps i j
  proof (cases "j \<in> set ps")
    case True
    then show ?thesis using cs i j by (auto simp: top_of_def)
  next
    case False
    have best: "key c \<le> key j" if "c \<in> set ps" for c using p that j False by (auto simp: top_of_def)
    show ?thesis
    proof (cases "set ps \<subseteq> set cs")
      case True
      have "card (set ps) < card P" using p P j False by (auto simp: top_of_def intro!: psubset_card_mono)
      then have "card (set ps) = k" using p by (auto simp: top_of_def distinct_card)
      moreover have "card (set cs) \<le> k" using cs by (simp add: top_of_def distinct_card)
      ultimately have "set ps = set cs" using True by (intro card_seteq) auto
      then show ?thesis using i best by blast
    next
      case False
      then obtain c where c: "c \<in> set ps" "c \<notin> set cs" by blast
      then have "key i \<le> key c" using cs i j(3) by (auto simp: top_of_def)
      then show ?thesis using best [OF c(1)] by simp
    qed
  qed
  show ?thesis
    unfolding top_of_def
  proof (intro conjI ballI)
    show "distinct cs" "set cs \<subseteq> A \<union> B" using A B cs by (auto simp: top_of_def)
    show "length cs = min k (card (A \<union> B))" by (rule l)
    fix i j assume "i \<in> set cs" "j \<in> A \<union> B - set cs"
    then show "key i \<le> key j" using part [OF A] part [OF B] fin by auto
  qed
qed

section \<open>What the graph computes\<close>

lemma unit_row_map: "map (\<lambda>k. unit_row R (map f [0..<d]) ! k) [0..<d] = unit_row R (map f [0..<d])"
  by (rule nth_equalityI) (simp_all add: unit_row_def)

lemma cosine_ok:
  assumes ok: "mlx_ok m sem R mem" and q: "sem (ma_ptr q) = grid Q d f" and c: "sem (ma_ptr c) = grid N d g" and n: "Q < 2 ^ 31" "N < 2 ^ 31"
  shows "\<exists>z p. cosine_metric m q c (int Q) (int N) = Inr (z, p) \<and>
    sem (ma_ptr z) = grid Q N (\<lambda>i j. score R op_cosine (map (f i) [0..<d]) (map (g j) [0..<d])) \<and>
    sem (ma_ptr p) = grid Q N (\<lambda>i j. negate32 (score R op_cosine (map (f i) [0..<d]) (map (g j) [0..<d])))"
proof -
  let ?u = "\<lambda>f i j. unit_row R (map (f i) [0..<d]) ! j"
  have i: "as_i32 (int Q) = int Q" "as_i32 (int N) = int N" using n by (simp_all add: as_i32_id)
  obtain qn where qn: "l2_normalize_rows m q (int Q) = Inr qn" "sem (ma_ptr qn) = grid Q d (?u f)" using l2_normalize_ok [OF ok q] by blast
  obtain cn where cn: "l2_normalize_rows m c (int N) = Inr cn" "sem (ma_ptr cn) = grid N d (?u g)" using l2_normalize_ok [OF ok c] by blast
  obtain ct where ct: "mlx_transpose m cn [1, 0] = Inr ct" "sem (ma_ptr ct) = grid d N (\<lambda>i j. ?u g j i)" using ok_transpose [OF ok cn(2)] by blast
  obtain z where z: "mlx_matmul m qn ct = Inr z" "sem (ma_ptr z) = grid Q N (\<lambda>i j. adot R (map (?u f i) [0..<d]) (map (?u g j) [0..<d]))"
    using ok_matmul [OF ok qn(2) ct(2)] by blast
  have zs: "sem (ma_ptr z) = grid Q N (\<lambda>i j. score R op_cosine (map (f i) [0..<d]) (map (g j) [0..<d]))"
    unfolding z(2) by (simp add: score_def unit_row_map)
  obtain p where p: "unop m ''mlx_op_neg'' z = Inr p"
    "sem (ma_ptr p) = grid Q N (\<lambda>i j. negate32 (score R op_cosine (map (f i) [0..<d]) (map (g j) [0..<d])))"
    using ok_unop [OF ok fns(5) zs] by blast
  show ?thesis using qn(1) cn(1) ct(1) z(1) zs p by (simp add: cosine_metric_def i)
qed

lemma l2_ok:
  assumes ok: "mlx_ok m sem R mem" and q: "sem (ma_ptr q) = grid Q d f" and c: "sem (ma_ptr c) = grid N d g" and n: "Q < 2 ^ 31" "N < 2 ^ 31"
  shows "\<exists>z. l2_metric m q c (int Q) (int N) = Inr (z, z) \<and>
    sem (ma_ptr z) = grid Q N (\<lambda>i j. score R op_knn_l2 (map (f i) [0..<d]) (map (g j) [0..<d]))"
proof -
  let ?sq = "\<lambda>f i. asum R (map (\<lambda>j. amul R (f i j) (f i j)) [0..<d])" and ?x = "\<lambda>i j. adot R (map (f i) [0..<d]) (map (g j) [0..<d])"
  have i: "as_i32 (int Q) = int Q" "as_i32 (int N) = int N" using n by (simp_all add: as_i32_id)
  obtain qq where qq: "binop m ''mlx_op_mul'' q q = Inr qq" "sem (ma_ptr qq) = grid Q d (\<lambda>i j. amul R (f i j) (f i j))" using ok_same [OF ok fns(3) q q] by blast
  obtain qs where qs: "mlx_sum_axis m qq 1 = Inr qs" "sem (ma_ptr qs) = vec Q (?sq f)" using ok_sum [OF ok qq(2)] by blast
  obtain q2 where q2: "mlx_reshape m qs [int Q, 1] = Inr q2" "sem (ma_ptr q2) = grid Q 1 (\<lambda>i j. ?sq f i)" using ok_column [OF ok qs(2) refl] by blast
  obtain cc where cc: "binop m ''mlx_op_mul'' c c = Inr cc" "sem (ma_ptr cc) = grid N d (\<lambda>i j. amul R (g i j) (g i j))" using ok_same [OF ok fns(3) c c] by blast
  obtain cs where cs: "mlx_sum_axis m cc 1 = Inr cs" "sem (ma_ptr cs) = vec N (?sq g)" using ok_sum [OF ok cc(2)] by blast
  obtain c2 where c2: "mlx_reshape m cs [1, int N] = Inr c2" "sem (ma_ptr c2) = grid 1 N (\<lambda>i j. ?sq g j)" using ok_line [OF ok cs(2) refl] by blast
  obtain ct where ct: "mlx_transpose m c [1, 0] = Inr ct" "sem (ma_ptr ct) = grid d N (\<lambda>i j. g j i)" using ok_transpose [OF ok c] by blast
  obtain x where x: "mlx_matmul m q ct = Inr x" "sem (ma_ptr x) = grid Q N ?x" using ok_matmul [OF ok q ct(2)] by blast
  obtain xx where xx: "binop m ''mlx_op_add'' x x = Inr xx" "sem (ma_ptr xx) = grid Q N (\<lambda>i j. aadd R (?x i j) (?x i j))" using ok_same [OF ok fns(1) x(2) x(2)] by blast
  obtain t where t: "binop m ''mlx_op_add'' q2 c2 = Inr t" "sem (ma_ptr t) = grid Q N (\<lambda>i j. aadd R (?sq f i) (?sq g j))" using ok_outer [OF ok fns(1) q2(2) c2(2)] by blast
  obtain z where z: "binop m ''mlx_op_sub'' t xx = Inr z" "sem (ma_ptr z) = grid Q N (\<lambda>i j. asub R (aadd R (?sq f i) (?sq g j)) (aadd R (?x i j) (?x i j)))"
    using ok_same [OF ok fns(2) t(2) xx(2)] by blast
  have "sem (ma_ptr z) = grid Q N (\<lambda>i j. score R op_knn_l2 (map (f i) [0..<d]) (map (g j) [0..<d]))"
    unfolding z(2) by (simp add: score_def op_knn_l2_def op_cosine_def o_def Let_def)
  then show ?thesis using qq(1) qs(1) q2(1) cc(1) cs(1) c2(1) ct(1) x(1) xx(1) t(1) z(1) by (simp add: l2_metric_def i)
qed

lemma metric_ok:
  assumes ok: "mlx_ok m sem R mem" and q: "sem (ma_ptr q) = grid Q d f" and c: "sem (ma_ptr c) = grid N d g" and n: "Q < 2 ^ 31" "N < 2 ^ 31"
    and op: "op = op_cosine \<or> op = op_knn_l2"
  obtains z p where "search_metric m q c (int Q) (int N) op = Inr (z, p)"
    "sem (ma_ptr z) = grid Q N (\<lambda>i j. score R op (map (f i) [0..<d]) (map (g j) [0..<d]))"
    "sem (ma_ptr p) = grid Q N (\<lambda>i j. if op = op_cosine then negate32 (score R op (map (f i) [0..<d]) (map (g j) [0..<d]))
      else score R op (map (f i) [0..<d]) (map (g j) [0..<d]))"
proof (cases "op = op_cosine")
  case True
  then show ?thesis using cosine_ok [OF ok q c n] that by (auto simp: search_metric_def mlx_failed_def)
next
  case False
  then have "op = op_knn_l2" using op by simp
  then show ?thesis using l2_ok [OF ok q c n] False that by (auto simp: search_metric_def mlx_failed_def)
qed

text \<open>The first columns of the partition are the best entries of each row.\<close>

lemma partition_top:
  assumes p: "bij_betw p {..<N} {..<N}" and k: "0 < k" "k \<le> N"
    and le: "\<And>x y. x \<le> k - 1 \<Longrightarrow> k - 1 < y \<Longrightarrow> y < N \<Longrightarrow> key (p x) \<le> key (p y)"
  shows "top_of {..<N} key k (map p [0..<k])"
proof -
  have inj: "inj_on p {..<N}" and img: "p ` {..<N} = {..<N}" using p by (auto simp: bij_betw_def)
  have d: "distinct (map p [0..<k])" using inj k by (auto simp: distinct_map intro: inj_on_subset)
  have s: "set (map p [0..<k]) \<subseteq> {..<N}" using img k by auto
  have "key i \<le> key j" if i: "i \<in> set (map p [0..<k])" and j: "j \<in> {..<N} - set (map p [0..<k])" for i j
  proof -
    obtain x where x: "x < k" "i = p x" using i by auto
    obtain y where y: "y < N" "j = p y" using j img by auto
    have "k \<le> y" using j y by (auto simp: image_iff not_less [symmetric])
    then show ?thesis using le [of x y] x y k by simp
  qed
  then show ?thesis using d s k by (simp add: top_of_def)
qed

lemma best_of_ok:
  assumes ok: "mlx_ok m sem R mem" and z: "sem (ma_ptr z) = grid Q N S"
    and p: "sem (ma_ptr p) = grid Q N (\<lambda>i j. if op = op_cosine then negate32 (S i j) else S i j)"
    and n: "Q < 2 ^ 31" "N < 2 ^ 31" and k: "0 < k" "k \<le> N"
  obtains idx val pm where "best_of m z p (int Q) (int k) = Inr (idx, val)" "sem (ma_ptr idx) = igrid Q k pm"
    "sem (ma_ptr val) = grid Q k (\<lambda>i j. S i (pm i j))" "\<forall>i < Q. \<forall>j < k. pm i j < N"
    "\<forall>i < Q. (\<forall>j < N. \<not> is_nan f32_infinity (S i j)) \<longrightarrow> top_of {..<N} (\<lambda>j. rank_of op (S i j)) k (map (pm i) [0..<k])"
proof -
  let ?P = "\<lambda>i j. if op = op_cosine then negate32 (S i j) else S i j"
  have i: "as_i32 (int Q) = int Q" "as_i32 (int k) = int k" "as_i32 (int k - 1) = int (k - 1)"
    using n k by (simp_all add: as_i32_id of_nat_diff)
  obtain part pm where part: "mlx_argpartition_axis m p (as_i32 (int k - 1)) (-1) = Inr part" "sem (ma_ptr part) = igrid Q N pm"
    and bij: "\<forall>i < Q. bij_betw (pm i) {..<N} {..<N}"
    and le: "\<forall>i < Q. (\<forall>j < N. \<not> is_nan f32_infinity (?P i j)) \<longrightarrow>
      (\<forall>x y. x \<le> k - 1 \<and> k - 1 < y \<and> y < N \<longrightarrow> fval (?P i (pm i x)) \<le> fval (?P i (pm i y)))"
    using ok_partition [OF ok p, of "k - 1" "as_i32 (int k - 1)"] k n(2) i(3) by (auto simp: less_eq_Suc_le)
  obtain ik where ik: "mlx_slice m part [0, 0] [int Q, int k] [1, 1] = Inr ik" "sem (ma_ptr ik) = igrid Q k pm"
    using ok_slice [OF ok part(2) k(2) refl refl] by blast
  have b: "\<forall>i < Q. \<forall>j < k. pm i j < N" using bij k(2) bij_betwE by (metis lessThan_iff less_le_trans)
  then have b31: "\<forall>i < Q. \<forall>j < k. pm i j < 2 ^ 31" using n(2) by (meson less_trans)
  obtain idx where idx: "mlx_cast m ik MI32 = Inr idx" "sem (ma_ptr idx) = igrid Q k pm" using ok_cast [OF ok ik(2) b31] by blast
  obtain val where val: "mlx_take_along_axis m z idx 1 = Inr val" "sem (ma_ptr val) = grid Q k (\<lambda>i j. S i (pm i j))"
    using ok_along [OF ok z idx(2) b n(2)] by blast
  have "top_of {..<N} (\<lambda>j. rank_of op (S i j)) k (map (pm i) [0..<k])" if "i < Q" "\<forall>j < N. \<not> is_nan f32_infinity (S i j)" for i
  proof (rule partition_top [OF _ k])
    show "bij_betw (pm i) {..<N} {..<N}" using bij that(1) by simp
    fix x y assume "x \<le> k - 1" "k - 1 < y" "y < N"
    then have "fval (?P i (pm i x)) \<le> fval (?P i (pm i y))" using le that by (auto simp: negate32_fval)
    then show "rank_of op (S i (pm i x)) \<le> rank_of op (S i (pm i y))" by (simp add: rank_of_def negate32_fval split: if_splits)
  qed
  then show ?thesis using that [of idx val pm] part(1) ik(1) idx val b by (simp add: best_of_def i)
qed

lemma unat_grid_index: "i < Q \<Longrightarrow> j < k \<Longrightarrow> p i j < 2 ^ 31 \<Longrightarrow> unat (t_elems (igrid Q k p) ! (i * k + j)) = p i j"
  using tensor_at_igrid [of i Q j k p] by (simp add: tensor_at_def unsigned_of_nat take_bit_nat_eq_self)

lemma reranked_ok:
  assumes ok: "mlx_ok m sem R mem" and wv: "sem (ma_ptr wv) = vec N w" and idx: "sem (ma_ptr idx) = igrid Q k pm"
    and val: "sem (ma_ptr val) = grid Q k V" and pm: "\<forall>i < Q. \<forall>j < k. pm i j < N" and n: "Q < 2 ^ 31" "k < 2 ^ 31" "N < 2 ^ 31" "Q * k < 2 ^ 31"
  shows "\<exists>z. reranked m wv idx val (int Q) (int k) = Inr z \<and> sem (ma_ptr z) = grid Q k (\<lambda>i j. amul R (V i j) (aexp R (negate32 (w (pm i j)))))"
proof -
  let ?ix = "t_elems (igrid Q k pm)"
  have i: "as_i32 (int Q) = int Q" "as_i32 (int k) = int k" "as_i32 (int Q * int k) = int (Q * k)"
    using n as_i32_id [of "int (Q * k)"] by (simp_all add: as_i32_id flip: of_nat_mult)
  have at: "unat (?ix ! (i * k + j)) = pm i j" if "i < Q" "j < k" for i j using unat_grid_index [OF that] pm n(3) that by (meson less_trans)
  obtain fl where fl: "mlx_reshape m idx [int (Q * k)] = Inr fl" "sem (ma_ptr fl) = \<lparr>t_shape = [length ?ix], t_elems = ?ix, t_float = False\<rparr>"
    using ok_flat [OF ok idx refl] by auto
  have bound: "\<forall>x \<in> set ?ix. unat x < N"
  proof
    fix x assume "x \<in> set ?ix"
    then obtain l where l: "l < Q * k" "x = ?ix ! l" by (auto simp: in_set_conv_nth)
    note c = cell_parts [OF l(1)]
    have "unat (?ix ! (l div k * k + l mod k)) = pm (l div k) (l mod k)" by (rule at [OF c])
    then show "unat x < N" using pm c l(2) by simp
  qed
  obtain ft where ft: "mlx_take m wv fl = Inr ft" "sem (ma_ptr ft) = vec (Q * k) (\<lambda>x. w (unat (?ix ! x)))"
    using ok_take [OF ok wv fl(2) bound n(3)] by auto
  obtain f2 where f2: "mlx_reshape m ft [int Q, int k] = Inr f2" "sem (ma_ptr f2) = grid Q k (\<lambda>i j. w (unat (?ix ! (i * k + j))))"
    using ok_fold [OF ok ft(2) refl refl] by blast
  have "grid Q k (\<lambda>i j. w (unat (?ix ! (i * k + j)))) = grid Q k (\<lambda>i j. w (pm i j))" by (rule grid_cong) (simp add: at)
  then have f2': "sem (ma_ptr f2) = grid Q k (\<lambda>i j. w (pm i j))" using f2(2) by simp
  obtain ng where ng: "unop m ''mlx_op_neg'' f2 = Inr ng" "sem (ma_ptr ng) = grid Q k (\<lambda>i j. negate32 (w (pm i j)))"
    using ok_unop [OF ok fns(5) f2'] by blast
  obtain ex where ex: "unop m ''mlx_op_exp'' ng = Inr ex" "sem (ma_ptr ex) = grid Q k (\<lambda>i j. aexp R (negate32 (w (pm i j))))"
    using ok_unop [OF ok fns(7) ng(2)] by blast
  obtain z where z: "binop m ''mlx_op_mul'' val ex = Inr z" "sem (ma_ptr z) = grid Q k (\<lambda>i j. amul R (V i j) (aexp R (negate32 (w (pm i j)))))"
    using ok_same [OF ok fns(3) val ex(2)] by blast
  show ?thesis using fl(1) ft(1) f2(1) ng(1) ex(1) z by (simp add: reranked_def i)
qed

lemma read_back_ok:
  assumes ok: "mlx_ok m sem R mem" and idx: "sem (ma_ptr idx) = igrid Q k pm" and val: "sem (ma_ptr val) = grid Q k V"
  shows "read_back m idx val = Inr (t_elems (igrid Q k pm), t_elems (grid Q k V))"
  using to_words_ok [OF ok idx, of MI32] to_words_ok [OF ok val, of MF32] eval_ok [OF ok] by (simp add: read_back_def del: mlx_array_eval.simps)

section \<open>One pass\<close>

text \<open>The matrix that a slice holds, its scores, and the value returned for a hit.\<close>

definition row_at :: "u32 list \<Rightarrow> nat \<Rightarrow> nat \<Rightarrow> u32 list" where
  "row_at ws d i = map (\<lambda>j. ws ! (i * d + j)) [0..<d]"

definition hit_value :: "array_ops \<Rightarrow> u32 list option \<Rightarrow> nat \<Rightarrow> u32 \<Rightarrow> u32" where
  "hit_value R weights j v = (case weights of None \<Rightarrow> v | Some w \<Rightarrow> amul R v (aexp R (negate32 (w ! j))))"

definition slice_ok :: "mem \<Rightarrow> slice \<Rightarrow> nat \<Rightarrow> bool" where
  "slice_ok mem s n \<longleftrightarrow> snd s = n \<and> 0 < n \<and> fst s \<noteq> 0 \<and> within mem (fst s) (4 * n)"

abbreviation slice_words :: "mem \<Rightarrow> slice \<Rightarrow> u32 list" where
  "slice_words mem s \<equiv> words_at mem (fst s) (snd s)"

lemma slice_kept: "keeps [] mem mem' \<Longrightarrow> slice_ok mem s n \<Longrightarrow> slice_ok mem' s n \<and> slice_words mem' s = slice_words mem s"
  using within_kept [of mem mem' "fst s" n] by (auto simp: slice_ok_def)

lemma pass_ok:
  assumes drv: "driver_ok drv" "obliging drv" and op: "op = op_cosine \<or> op = op_knn_l2"
    and n: "Q < 2 ^ 31" "N < 2 ^ 31" "Q * k < 2 ^ 31" and k: "0 < k" "k \<le> N"
    and sl: "slice_ok mem query (Q * d)" "slice_ok mem corpus (N * d)" "\<forall>w. weight = Some w \<longrightarrow> slice_ok mem w N"
    and run: "vector_search_topk_rerank None drv m mem query (int Q) corpus (int N) (int d) (int k) op weight = (mem', r)"
  shows "keeps [] mem mem'"
    and "mlx_ok m sem R M \<Longrightarrow> \<exists>qs cs ws S pm. S = (\<lambda>i j. score R op (row_at qs d i) (row_at cs d j)) \<and>
      (keeps [] mem' M \<longrightarrow> qs = slice_words mem query \<and> cs = slice_words mem corpus \<and> ws = map_option (slice_words mem) weight) \<and>
      r = Inr (t_elems (igrid Q k pm), t_elems (grid Q k (\<lambda>i j. hit_value R ws (pm i j) (S i (pm i j))))) \<and>
      (\<forall>i < Q. \<forall>j < k. pm i j < N) \<and> (weight = None \<longrightarrow> ws = None) \<and>
      (\<forall>i < Q. (\<forall>j < N. \<not> is_nan f32_infinity (S i j)) \<longrightarrow> top_of {..<N} (\<lambda>j. rank_of op (S i j)) k (map (pm i) [0..<k]))"
proof -
  let ?go = "\<lambda>q c. rbind (search_metric m q c (int Q) (int N) op) (\<lambda>(metric, partition_on). mlx_failed (best_of m metric partition_on (int Q) (int k)))"
  obtain m1 r1 where v1: "view2d None drv m mem query (int Q) (int d) = (m1, r1)" by fastforce
  obtain m2 r2 where v2: "view2d None drv m m1 corpus (int N) (int d) = (m2, r2)" by fastforce
  obtain m3 r3 where v3: "view1d None drv m m2 (the weight) (int N) = (m3, r3)" by fastforce
  have "(fst query, Q * d) = query" "(fst corpus, N * d) = corpus" using sl(1,2) by (simp_all add: slice_ok_def prod_eq_iff)
  with v1 v2 have v1': "view2d None drv m mem (fst query, Q * d) (int Q) (int d) = (m1, r1)"
    and v2': "view2d None drv m m1 (fst corpus, N * d) (int N) (int d) = (m2, r2)" by simp_all
  note w1 = view2d_ok [OF drv _ _ _ v1']
  have k1: "keeps [] mem m1" using w1(1) sl(1) by (simp add: slice_ok_def)
  have sl1: "slice_ok m1 corpus (N * d)" "slice_words m1 corpus = slice_words mem corpus" using slice_kept [OF k1 sl(2)] by simp_all
  note w2 = view2d_ok [OF drv _ _ _ v2']
  have k2: "keeps [] m1 m2" using w2(1) sl1(1) by (simp add: slice_ok_def)
  have k12: "keeps [] mem m2" using k1 k2 by (rule keeps_trans)
  have wt: "slice_ok m2 w N \<and> slice_words m2 w = slice_words mem w" if "weight = Some w" for w using slice_kept [OF k12] sl(3) that by blast
  have e: "the weight = (fst w, N)" if "weight = Some w" for w using wt [OF that] that by (auto simp: slice_ok_def prod_eq_iff)
  have k3: "keeps [] m2 m3" if "weight = Some w" for w
    using view1d_ok(1) [OF drv _ _ _ v3 [unfolded e [OF that]]] wt [OF that] by (simp add: slice_ok_def)
  have r: "(mem', r) = (case r1 of Inl e \<Rightarrow> (m1, Inl e) | Inr q \<Rightarrow> (case r2 of Inl e \<Rightarrow> (m2, Inl e) | Inr c \<Rightarrow>
      (case ?go q c of Inl e \<Rightarrow> (m2, Inl e) | Inr (idx, val) \<Rightarrow>
        (case weight of None \<Rightarrow> (m2, mlx_failed (read_back m idx val)) | Some w \<Rightarrow> (case r3 of Inl e \<Rightarrow> (m3, Inl e)
          | Inr wv \<Rightarrow> (m3, mlx_failed (rbind (reranked m wv idx val (int Q) (int k)) (read_back m idx))))))))"
    using run v1 v2 v3 by (auto simp: vector_search_topk_rerank_def split: sum.splits option.splits)
  have A: "keeps [] m1 mem'" and B: "r1 = Inr x \<Longrightarrow> keeps [] m2 mem'" for x
    using r k2 k3 keeps_trans [OF k2] by (auto split: sum.splits option.splits prod.splits)
  show "keeps [] mem mem'" using k1 A by (rule keeps_trans)
  assume ok: "mlx_ok m sem R M"
  obtain x qs where x: "r1 = Inr x" "sem (ma_ptr x) = grid Q d (\<lambda>i j. qs ! (i * d + j))"
    and qs: "keeps [] mem' M \<Longrightarrow> qs = slice_words mem query"
    using w1(2) [OF _ _ _ ok] sl(1) keeps_trans [OF A] by (auto simp: slice_ok_def)
  note B = B [OF x(1)]
  obtain c cs where c: "r2 = Inr c" "sem (ma_ptr c) = grid N d (\<lambda>i j. cs ! (i * d + j))"
    and cs: "keeps [] mem' M \<Longrightarrow> cs = slice_words mem corpus"
    using w2(2) [OF _ _ _ ok] sl1 keeps_trans [OF B] by (auto simp: slice_ok_def)
  define S where S: "S = (\<lambda>i j. score R op (row_at qs d i) (row_at cs d j))"
  obtain z p where z: "search_metric m x c (int Q) (int N) op = Inr (z, p)" "sem (ma_ptr z) = grid Q N S"
    "sem (ma_ptr p) = grid Q N (\<lambda>i j. if op = op_cosine then negate32 (S i j) else S i j)"
    using metric_ok [OF ok x(2) c(2) n(1,2) op] unfolding S row_at_def by blast
  obtain idx val pm where b: "best_of m z p (int Q) (int k) = Inr (idx, val)" "sem (ma_ptr idx) = igrid Q k pm"
    "sem (ma_ptr val) = grid Q k (\<lambda>i j. S i (pm i j))" and pm: "\<forall>i < Q. \<forall>j < k. pm i j < N"
    and top: "\<forall>i < Q. (\<forall>j < N. \<not> is_nan f32_infinity (S i j)) \<longrightarrow> top_of {..<N} (\<lambda>j. rank_of op (S i j)) k (map (pm i) [0..<k])"
    using best_of_ok [OF ok z(2,3) n(1,2) k] by blast
  have g: "?go x c = Inr (idx, val)" by (simp add: z(1) b(1) mlx_failed_def)
  have "\<exists>ws. r = Inr (t_elems (igrid Q k pm), t_elems (grid Q k (\<lambda>i j. hit_value R ws (pm i j) (S i (pm i j))))) \<and>
      (keeps [] mem' M \<longrightarrow> ws = map_option (slice_words mem) weight) \<and> (weight = None \<longrightarrow> ws = None)"
  proof (cases weight)
    case None
    then show ?thesis using r x(1) c(1) g read_back_ok [OF ok b(2,3)]
      by (intro exI [of _ None]) (simp add: mlx_failed_def hit_value_def)
  next
    case (Some w)
    have m3: "mem' = m3" if "r3 = Inr y" for y using r x(1) c(1) g Some that by simp
    obtain wv ws where wv: "r3 = Inr wv" "sem (ma_ptr wv) = vec N ((!) ws)" and ws: "keeps [] m3 M \<Longrightarrow> ws = slice_words mem w"
      using view1d_ok(2) [OF drv _ _ _ v3 [unfolded e [OF Some]] ok] wt [OF Some] by (auto simp: slice_ok_def)
    obtain y where y: "reranked m wv idx val (int Q) (int k) = Inr y"
      "sem (ma_ptr y) = grid Q k (\<lambda>i j. amul R (S i (pm i j)) (aexp R (negate32 (ws ! pm i j))))"
      using reranked_ok [OF ok wv(2) b(2,3) pm n(1) _ n(2,3)] k n(2) by (meson le_less_trans)
    show ?thesis using r x(1) c(1) g Some wv(1) y read_back_ok [OF ok b(2) y(2)] ws m3 [OF wv(1)]
      by (intro exI [of _ "Some ws"]) (simp add: mlx_failed_def hit_value_def)
  qed
  with pm top qs cs S show "\<exists>qs cs ws S pm. S = (\<lambda>i j. score R op (row_at qs d i) (row_at cs d j)) \<and>
      (keeps [] mem' M \<longrightarrow> qs = slice_words mem query \<and> cs = slice_words mem corpus \<and> ws = map_option (slice_words mem) weight) \<and>
      r = Inr (t_elems (igrid Q k pm), t_elems (grid Q k (\<lambda>i j. hit_value R ws (pm i j) (S i (pm i j))))) \<and>
      (\<forall>i < Q. \<forall>j < k. pm i j < N) \<and> (weight = None \<longrightarrow> ws = None) \<and>
      (\<forall>i < Q. (\<forall>j < N. \<not> is_nan f32_infinity (S i j)) \<longrightarrow> top_of {..<N} (\<lambda>j. rank_of op (S i j)) k (map (pm i) [0..<k]))" by blast
qed

section \<open>Merging tiles\<close>

text \<open>The candidates of query \<open>i\<close> as pairs of index and score.\<close>

definition pairs :: "(nat \<Rightarrow> u32) \<Rightarrow> nat list \<Rightarrow> (u32 \<times> u32) list" where
  "pairs v js = map (\<lambda>j. (of_nat j, v j)) js"

lemma top_shift:
  assumes "top_of {..<n} (\<lambda>j. key (o' + j)) k js"
  shows "top_of {o'..<o' + n} key k (map ((+) o') js)"
proof -
  have "(+) o' ` {..<n} = {o'..<o' + n}" by (simp add: lessThan_atLeast0 image_add_atLeastLessThan add.commute)
  then have "\<exists>j' < n. j = o' + j'" if "j \<in> {o'..<o' + n}" for j using that by auto
  then show ?thesis using assms by (fastforce simp: top_of_def distinct_map)
qed

lemma keep_best_top:
  assumes old: "top_of {..<a} (\<lambda>j. rank_of op (v j)) k js" and new: "top_of {a..<a + n} (\<lambda>j. rank_of op (v j)) k js'"
  shows "\<exists>cs. keep_best op k (pairs v js @ pairs v js') = pairs v cs \<and> top_of {..<a + n} (\<lambda>j. rank_of op (v j)) k cs"
proof -
  let ?rank = "\<lambda>j. rank_key op (of_nat j, v j)" and ?cs = "take k (sort_key (\<lambda>j. rank_key op (of_nat j, v j)) (js @ js'))"
  have e: "keep_best op k (pairs v js @ pairs v js') = pairs v ?cs"
    using sort_key_map [of "rank_key op" "\<lambda>j. (of_nat j, v j)" "js @ js'"] by (simp add: keep_best_def pairs_def take_map)
  have "distinct (js @ js')" using old new by (fastforce simp: top_of_def)
  then have "top_of (set (js @ js')) (\<lambda>j. rank_of op (v j)) k ?cs" by (rule top_take) (rule rank_refines)
  then have "top_of ({..<a} \<union> {a..<a + n}) (\<lambda>j. rank_of op (v j)) k ?cs" by (intro top_union [OF old new]) auto
  moreover have "{..<a} \<union> {a..<a + n} = {..<a + n}" by auto
  ultimately have "top_of {..<a + n} (\<lambda>j. rank_of op (v j)) k ?cs" by (simp only:)
  with e show ?thesis by (intro exI [of _ ?cs] conjI)
qed

lemma merge_tile_top:
  assumes old: "length best = Q" "\<forall>i < Q. \<exists>js. best ! i = pairs (S i) js \<and> top_of {..<a} (\<lambda>j. rank_of op (S i j)) kk js"
    and n: "a + n < 2 ^ 31" "per = min kk n"
    and pm: "\<forall>i < Q. top_of {..<n} (\<lambda>j. rank_of op (S i (a + j))) per (map (pm i) [0..<per])"
  shows "\<exists>best'. merge_tile op kk per (int a) (t_elems (igrid Q per pm)) (t_elems (grid Q per (\<lambda>i j. S i (a + pm i j)))) best = Some best' \<and>
    length best' = Q \<and> (\<forall>i < Q. \<exists>js. best' ! i = pairs (S i) js \<and> top_of {..<a + n} (\<lambda>j. rank_of op (S i j)) kk js)"
proof -
  let ?idx = "t_elems (igrid Q per pm)" and ?val = "t_elems (grid Q per (\<lambda>i j. S i (a + pm i j)))"
  have off: "as_i32 (int a) = int a" using n(1) by (simp add: as_i32_id)
  have row: "map (\<lambda>j. (?idx ! (i * per + j) + word_of_int (as_i32 (int a)), ?val ! (i * per + j))) [0..<per] =
      pairs (S i) (map ((+) a) (map (pm i) [0..<per]))" if i: "i < Q" for i
  proof -
    have "?idx ! (i * per + j) = of_nat (pm i j)" "?val ! (i * per + j) = S i (a + pm i j)" if "j < per" for j
      using tensor_at_igrid [OF i that] grid_at [OF i that] by (simp_all add: tensor_at_def)
    then show ?thesis by (simp add: pairs_def off add.commute)
  qed
  have step: "\<exists>js. keep_best op kk (best ! i @ pairs (S i) (map ((+) a) (map (pm i) [0..<per]))) = pairs (S i) js \<and>
      top_of {..<a + n} (\<lambda>j. rank_of op (S i j)) kk js" if i: "i < Q" for i
  proof -
    obtain js where js: "best ! i = pairs (S i) js" "top_of {..<a} (\<lambda>j. rank_of op (S i j)) kk js" using old(2) i by blast
    have "top_of {..<n} (\<lambda>j. rank_of op (S i (a + j))) kk (map (pm i) [0..<per])" using pm i n(2) by (auto simp: top_of_def)
    from keep_best_top [OF js(2) top_shift [OF this]] show ?thesis by (simp add: js(1))
  qed
  let ?b = "map (\<lambda>qi. keep_best op kk (best ! qi @ pairs (S qi) (map ((+) a) (map (pm qi) [0..<per])))) [0..<Q]"
  have "merge_tile op kk per (int a) ?idx ?val best = Some ?b"
    using old(1) by (simp add: merge_tile_def row [simplified] cong: map_cong)
  then show ?thesis using step by (intro exI [of _ ?b]) (simp cong: map_cong)
qed

lemma merge_total:
  assumes "length best = Q"
  shows "\<exists>best'. merge_tile op kk per off (t_elems (igrid Q per pm)) (t_elems (grid Q per V)) best = Some best' \<and> length best' = Q"
  using assms by (simp add: merge_tile_def)

section \<open>All tiles\<close>

lemma as_i64_id: "n < 2 ^ 63 \<Longrightarrow> as_i64 n = int n"
  by (simp add: as_i64_def signed_of_nat signed_take_bit_int_eq_self)

lemma subslice_tile:
  assumes "slice_ok mem s (N * d)" and "a + n \<le> N" "0 < n" and "N * d < 2 ^ 63"
  shows "subslice s (as_usize (int a * int d)) (as_usize ((int a + int n) * int d)) = Some (fst s + 4 * (a * d), n * d)"
    and "slice_ok mem (fst s + 4 * (a * d), n * d) (n * d)"
    and "j < n \<Longrightarrow> row_at (slice_words mem (fst s + 4 * (a * d), n * d)) d j = row_at (slice_words mem s) d (a + j)"
proof -
  have le: "a * d + n * d \<le> N * d" using mult_le_mono1 [OF assms(2), of d] by (simp add: add_mult_distrib)
  have "as_usize (int a * int d) = a * d" "as_usize ((int a + int n) * int d) = a * d + n * d"
    using le assms(4) by (simp_all add: as_usize_id add_mult_distrib nat_mult_distrib nat_add_distrib flip: of_nat_mult of_nat_add)
  then show "subslice s (as_usize (int a * int d)) (as_usize ((int a + int n) * int d)) = Some (fst s + 4 * (a * d), n * d)"
    using le assms(1) by (simp add: subslice_def slice_ok_def)
  show "slice_ok mem (fst s + 4 * (a * d), n * d) (n * d)"
    using assms(1,3) le within_sub [of mem "fst s" "4 * (N * d)" "fst s + 4 * (a * d)" "4 * (n * d)"] by (auto simp: slice_ok_def)
  assume j: "j < n"
  have "words_at mem (fst s + 4 * (a * d)) (n * d) ! (j * d + l) = words_at mem (fst s) (snd s) ! ((a + j) * d + l)" if "l < d" for l
  proof -
    have "j * d + l < n * d" by (rule cell_bound [OF j that])
    then show ?thesis using le assms(1) by (simp add: words_at_nth slice_ok_def add_mult_distrib algebra_simps)
  qed
  then show "row_at (slice_words mem (fst s + 4 * (a * d), n * d)) d j = row_at (slice_words mem s) d (a + j)"
    by (simp add: row_at_def)
qed

lemma tile_loop_ok:
  assumes drv: "driver_ok drv" "obliging drv" and op: "op = op_cosine \<or> op = op_knn_l2"
    and n: "Q < 2 ^ 31" "N < 2 ^ 31" "Q * kk < 2 ^ 31" "N * d < 2 ^ 63" and T: "0 < kk" "0 < T" and ok: "mlx_ok m sem R M"
    and S: "S = (\<lambda>i j. score R op (row_at qw d i) (row_at cw d j))"
  shows "a \<le> N \<Longrightarrow> length best = Q \<Longrightarrow> slice_ok mem query (Q * d) \<Longrightarrow> slice_ok mem corpus (N * d) \<Longrightarrow>
    slice_words mem query = qw \<Longrightarrow> slice_words mem corpus = cw \<Longrightarrow>
    \<exists>mem' best'. tile_loop None drv m query (int Q) corpus (int N) (int d) kk op (int T) None mem best (int a) = Some (mem', Inr best') \<and>
      keeps [] mem mem' \<and> length best' = Q \<and>
      (keeps [] mem' M \<and> (\<forall>i < Q. \<forall>j < N. \<not> is_nan f32_infinity (S i j)) \<and>
        (\<forall>i < Q. \<exists>js. best ! i = pairs (S i) js \<and> top_of {..<a} (\<lambda>j. rank_of op (S i j)) kk js) \<longrightarrow>
        (\<forall>i < Q. \<exists>js. best' ! i = pairs (S i) js \<and> top_of {..<N} (\<lambda>j. rank_of op (S i j)) kk js))"
proof (induction "N - a" arbitrary: a best mem rule: less_induct)
  case less
  show ?case
  proof (cases "a < N")
    case False
    then show ?thesis using less.prems by (subst tile_loop.simps) auto
  next
    case True
    define n' where n': "n' = min (N - a) T"
    define per where per: "per = min kk n'"
    define tile where tile: "tile = (fst corpus + 4 * (a * d), n' * d)"
    have nn: "0 < n'" "a + n' \<le> N" "0 < per" "per \<le> n'" "per \<le> kk" using True T by (auto simp: n' per)
    have rows: "min (int N - int a) (int T) = int n'" using True by (simp add: n' of_nat_min of_nat_diff)
    have us: "as_usize (int n') = n'" "as_i64 per = int per" using nn n(2) by (simp_all add: as_usize_id as_i64_id)
    note t = subslice_tile [OF less.prems(4) nn(2,1) n(4), folded tile]
    have qper: "Q * per < 2 ^ 31" using mult_le_mono2 [OF nn(5), of Q] n(3) by linarith
    obtain m1 r where run: "vector_search_topk_rerank None drv m mem query (int Q) tile (int n') (int d) (int per) op None = (m1, r)" by fastforce
    have n31: "n' < 2 ^ 31" using nn n(2) by linarith
    note p = pass_ok [OF drv op n(1) n31 qper nn(3,4) less.prems(3) t(2) _ run]
    have k1: "keeps [] mem m1" using p(1) by simp
    obtain qs cs S' pm where S': "S' = (\<lambda>i j. score R op (row_at qs d i) (row_at cs d j))"
      and words: "keeps [] m1 M \<Longrightarrow> qs = slice_words mem query \<and> cs = slice_words mem tile"
      and r: "r = Inr (t_elems (igrid Q per pm), t_elems (grid Q per (\<lambda>i j. S' i (pm i j))))"
      and pm: "\<forall>i < Q. \<forall>j < per. pm i j < n'"
      and top: "\<forall>i < Q. (\<forall>j < n'. \<not> is_nan f32_infinity (S' i j)) \<longrightarrow> top_of {..<n'} (\<lambda>j. rank_of op (S' i j)) per (map (pm i) [0..<per])"
      using p(2) [OF _ ok] by (auto simp: hit_value_def)
    obtain best1 where b1: "merge_tile op kk per (int a) (t_elems (igrid Q per pm)) (t_elems (grid Q per (\<lambda>i j. S' i (pm i j)))) best = Some best1" "length best1 = Q"
      using merge_total [OF less.prems(2)] by blast
    have step: "tile_loop None drv m query (int Q) corpus (int N) (int d) kk op (int T) None mem best (int a) =
        tile_loop None drv m query (int Q) corpus (int N) (int d) kk op (int T) None m1 best1 (int (a + n'))"
      using True t(1) run r b1(1) by (subst tile_loop.simps) (simp add: rows us Let_def flip: per)
    have sl: "slice_ok m1 query (Q * d)" "slice_ok m1 corpus (N * d)" "slice_words m1 query = qw" "slice_words m1 corpus = cw"
      using slice_kept [OF k1 less.prems(3)] slice_kept [OF k1 less.prems(4)] less.prems(5,6) by simp_all
    have "N - (a + n') < N - a" using True nn by simp
    from less.hyps [OF this nn(2) b1(2) sl] obtain mem' best' where
      fin: "tile_loop None drv m query (int Q) corpus (int N) (int d) kk op (int T) None m1 best1 (int (a + n')) = Some (mem', Inr best')"
        "keeps [] m1 mem'" "length best' = Q"
      and inv: "keeps [] mem' M \<and> (\<forall>i < Q. \<forall>j < N. \<not> is_nan f32_infinity (S i j)) \<and>
        (\<forall>i < Q. \<exists>js. best1 ! i = pairs (S i) js \<and> top_of {..<a + n'} (\<lambda>j. rank_of op (S i j)) kk js) \<Longrightarrow>
        \<forall>i < Q. \<exists>js. best' ! i = pairs (S i) js \<and> top_of {..<N} (\<lambda>j. rank_of op (S i j)) kk js" by blast
    have "\<forall>i < Q. \<exists>js. best1 ! i = pairs (S i) js \<and> top_of {..<a + n'} (\<lambda>j. rank_of op (S i j)) kk js"
      if M: "keeps [] mem' M" and nan: "\<forall>i < Q. \<forall>j < N. \<not> is_nan f32_infinity (S i j)"
        and old: "\<forall>i < Q. \<exists>js. best ! i = pairs (S i) js \<and> top_of {..<a} (\<lambda>j. rank_of op (S i j)) kk js"
    proof -
      have w: "qs = qw" "cs = slice_words mem tile" using words [OF keeps_trans [OF fin(2) M]] less.prems(5) by simp_all
      have shift: "S' i j = S i (a + j)" if "j < n'" for i j
        using t(3) [OF that] less.prems(6) by (simp add: S S' w)
      have g: "grid Q per (\<lambda>i j. S' i (pm i j)) = grid Q per (\<lambda>i j. S i (a + pm i j))" using pm by (intro grid_cong) (simp add: shift)
      have "top_of {..<n'} (\<lambda>j. rank_of op (S i (a + j))) per (map (pm i) [0..<per])" if "i < Q" for i
      proof -
        have "top_of {..<n'} (\<lambda>j. rank_of op (S' i j)) per (map (pm i) [0..<per])" using top that nan nn by (simp add: shift)
        then show ?thesis using shift by (auto simp: top_of_def subset_iff)
      qed
      then obtain b where "merge_tile op kk per (int a) (t_elems (igrid Q per pm)) (t_elems (grid Q per (\<lambda>i j. S i (a + pm i j)))) best = Some b"
        "\<forall>i < Q. \<exists>js. b ! i = pairs (S i) js \<and> top_of {..<a + n'} (\<lambda>j. rank_of op (S i j)) kk js"
        using merge_tile_top [OF less.prems(2) old _ per, of pm] nn n(2) by force
      then show ?thesis using b1(1) g by simp
    qed
    then show ?thesis using step fin keeps_trans [OF k1 fin(2)] inv by auto
  qed
qed

section \<open>The entry point\<close>

text \<open>The hits of query \<open>i\<close>: the indices are \<open>k\<close> best rows, each with its value.\<close>

definition hits_of :: "nat \<Rightarrow> u32 list \<Rightarrow> nat \<Rightarrow> nat list" where
  "hits_of k idx i = map (\<lambda>j. unat (idx ! (i * k + j))) [0..<k]"

definition found :: "array_ops \<Rightarrow> u32 \<Rightarrow> (nat \<Rightarrow> nat \<Rightarrow> u32) \<Rightarrow> u32 list option \<Rightarrow> nat \<Rightarrow> nat \<Rightarrow> nat \<Rightarrow> u32 list \<Rightarrow> u32 list \<Rightarrow> bool" where
  "found R op S ws Q N k idx vals \<longleftrightarrow>
     (\<forall>i < Q. top_of {..<N} (\<lambda>j. rank_of op (S i j)) k (hits_of k idx i) \<and>
        map (\<lambda>j. vals ! (i * k + j)) [0..<k] = map (\<lambda>j. hit_value R ws j (S i j)) (hits_of k idx i))"

lemma pass_found:
  assumes pm: "\<forall>i < Q. \<forall>j < k. pm i j < N" and N: "N < 2 ^ 31"
    and top: "\<forall>i < Q. top_of {..<N} (\<lambda>j. rank_of op (S i j)) k (map (pm i) [0..<k])"
  shows "found R op S ws Q N k (t_elems (igrid Q k pm)) (t_elems (grid Q k (\<lambda>i j. hit_value R ws (pm i j) (S i (pm i j)))))"
proof -
  have "hits_of k (t_elems (igrid Q k pm)) i = map (pm i) [0..<k]" if "i < Q" for i
    unfolding hits_of_def using that pm N by (intro map_cong refl unat_grid_index) (auto intro: less_trans)
  then show ?thesis using top by (simp add: found_def grid_at)
qed

lemma concat_pair_row:
  assumes "\<And>x. x \<in> set best \<Longrightarrow> length x = k" "i < length best" "j < k"
  shows "concat (map (map f) best) ! (i * k + j) = f (best ! i ! j)"
proof -
  have c: "take k (drop (i * k) (concat (map (map f) best))) = map f (best ! i)" by (rule concat_chunk) (use assms in auto)
  have "take k (drop (i * k) (concat (map (map f) best))) ! j = concat (map (map f) best) ! (i * k + j)"
    using assms(3) arg_cong [OF c, of length] assms(1) [of "best ! i"] assms(2) by (simp add: nth_append)
  then show ?thesis using c assms(1) [of "best ! i"] assms(2,3) by simp
qed

lemma tiles_found:
  assumes "length best = Q" and N: "k \<le> N" "N < 2 ^ 31"
    and best: "\<forall>i < Q. \<exists>js. best ! i = pairs (S i) js \<and> top_of {..<N} (\<lambda>j. rank_of op (S i j)) k js"
  shows "found R op S None Q N k (concat (map (map fst) best)) (concat (map (map snd) best))"
    and "length (concat (map (map fst) best)) = Q * k" and "length (concat (map (map snd) best)) = Q * k"
proof -
  have l: "length x = k" if "x \<in> set best" for x
    using that best assms(1) N(1) by (fastforce simp: in_set_conv_nth pairs_def top_of_def)
  show "length (concat (map (map fst) best)) = Q * k" "length (concat (map (map snd) best)) = Q * k"
    using concat_const_length [of best "map fst" k] concat_const_length [of best "map snd" k] l assms(1) by simp_all
  have "top_of {..<N} (\<lambda>j. rank_of op (S i j)) k (hits_of k (concat (map (map fst) best)) i) \<and>
      map (\<lambda>j. concat (map (map snd) best) ! (i * k + j)) [0..<k] = map (\<lambda>j. hit_value R None j (S i j)) (hits_of k (concat (map (map fst) best)) i)"
    if i: "i < Q" for i
  proof -
    obtain js where js: "best ! i = pairs (S i) js" "top_of {..<N} (\<lambda>j. rank_of op (S i j)) k js" using best i by blast
    have len: "length js = k" using js(2) N(1) by (simp add: top_of_def)
    have "js ! j < N" if "j < k" for j using js(2) that len nth_mem [of j js] by (auto simp: top_of_def subset_iff)
    then have "js ! j < 2 ^ 31" if "j < k" for j using N(2) that less_trans by blast
    then have u: "unat (of_nat (js ! j) :: u32) = js ! j" if "j < k" for j
      using less_trans [of "js ! j" "2 ^ 31" "2 ^ 32"] that by (simp add: unsigned_of_nat take_bit_nat_eq_self)
    have row: "concat (map (map fst) best) ! (i * k + j) = of_nat (js ! j)" "concat (map (map snd) best) ! (i * k + j) = S i (js ! j)"
      if "j < k" for j using concat_pair_row [of best k i j fst, OF l] concat_pair_row [of best k i j snd, OF l] i assms(1) that js(1) len by (simp_all add: pairs_def)
    have h: "hits_of k (concat (map (map fst) best)) i = js"
      unfolding hits_of_def by (rule nth_equalityI) (simp_all add: len row u)
    have "map (\<lambda>j. concat (map (map snd) best) ! (i * k + j)) [0..<k] = map (S i) js"
      by (rule nth_equalityI) (simp_all add: len row)
    then show ?thesis using js(2) by (simp add: h hit_value_def)
  qed
  then show "found R op S None Q N k (concat (map (map fst) best)) (concat (map (map snd) best))" by (simp add: found_def)
qed

text \<open>Borrowing an aligned slice changes no memory.\<close>

lemma view_shaped_aligned:
  "is_ptr_page_aligned drv (fst data) \<Longrightarrow> view_shaped nd drv m mem data shape = (mem', r) \<Longrightarrow> mem' = mem"
  by (auto simp: view_shaped_def from_borrowed_def from_borrowed_bytes_def split: option.splits if_splits)

lemma pass_aligned:
  assumes "is_ptr_page_aligned drv (fst query)" "is_ptr_page_aligned drv (fst corpus)" "\<forall>w. weight = Some w \<longrightarrow> is_ptr_page_aligned drv (fst w)"
    and "vector_search_topk_rerank nd drv m mem query Q corpus N d k op weight = (mem', r)"
  shows "mem' = mem"
  using assms view_shaped_aligned [of drv "the weight" nd m]
  by (auto simp: vector_search_topk_rerank_def view2d_def view1d_def dest: view_shaped_aligned split: prod.splits sum.splits option.splits)

lemma tile_loop_aligned:
  assumes q: "is_ptr_page_aligned drv (fst query)" and c: "\<And>x. is_ptr_page_aligned drv (fst corpus + 4 * x)" and T: "0 < T"
    and w: "\<And>w x. weight = Some w \<Longrightarrow> is_ptr_page_aligned drv (fst w + 4 * x)"
  shows "tile_loop nd drv m query Q corpus (int N) d kk op (int T) weight mem best (int a) = Some (mem', r) \<Longrightarrow> mem' = mem"
proof (induction "N - a" arbitrary: a best rule: less_induct)
  case less
  show ?case
  proof (cases "a < N")
    case False
    then show ?thesis using less.prems by (subst (asm) tile_loop.simps) auto
  next
    case True
    define n where n: "n = min (N - a) T"
    have rows: "min (int N - int a) (int T) = int n" using True by (simp add: n of_nat_min of_nat_diff)
    have less_n: "N - (a + n) < N - a" using True T by (auto simp: n)
    let ?wt = "case weight of None \<Rightarrow> Some None | Some w \<Rightarrow> map_option Some (subslice w (as_usize (int a)) (as_usize (int a + int n)))"
    obtain wt where u: "?wt = Some wt"
      using less.prems True by (subst (asm) tile_loop.simps) (auto simp: Let_def rows split: option.splits)
    obtain tile where t: "subslice corpus (as_usize (int a * d)) (as_usize ((int a + int n) * d)) = Some tile"
      using less.prems True u by (subst (asm) tile_loop.simps) (auto simp: Let_def rows split: option.splits)
    have tc: "is_ptr_page_aligned drv (fst tile)" using t c by (auto simp: subslice_def split: if_splits)
    have wc: "\<forall>w. wt = Some w \<longrightarrow> is_ptr_page_aligned drv (fst w)" using u w by (auto simp: subslice_def split: option.splits if_splits)
    obtain m1 s where run: "vector_search_topk_rerank nd drv m mem query Q tile (int n) d (as_i64 (min kk (as_usize (int n)))) op wt = (m1, s)" by fastforce
    have m1: "m1 = mem" by (rule pass_aligned [OF q tc wc run])
    show ?thesis
    proof (cases s)
      case (Inl e)
      then show ?thesis using less.prems True t u run m1 by (subst (asm) tile_loop.simps) (simp add: Let_def rows)
    next
      case (Inr p)
      then obtain best' where "tile_loop nd drv m query Q corpus (int N) d kk op (int T) weight mem best' (int (a + n)) = Some (mem', r)"
        using less.prems True t u run m1 by (subst (asm) tile_loop.simps) (auto simp: Let_def rows bind_eq_Some_conv split: prod.splits)
      then show ?thesis by (rule less.hyps [OF less_n])
    qed
  qed
qed

text \<open>A vector search returns \<open>k\<close> rows for each query, in any order, such that no row left out has a better cosine similarity
  or a smaller distance, whether MLX sees the corpus at once or in tiles of any size; each comes with its score, reranked by its
  weight when there are weights and no tiles. Only the scores must not be NaN.\<close>

theorem vector_search_correct:
  assumes drv: "driver_ok drv" "obliging drv" and op: "op = op_cosine \<or> op = op_knn_l2"
    and n: "Q < 2 ^ 31" "N < 2 ^ 31" "Q * k < 2 ^ 31" "N * d < 2 ^ 63" and k: "0 < k" "k \<le> N" and T: "0 < T"
    and sl: "slice_ok mem query (Q * d)" "slice_ok mem corpus (N * d)" and wt: "\<forall>w. weight = Some w \<longrightarrow> slice_ok mem w N \<and> N \<le> T"
    and ok: "mlx_ok m sem R M"
    and S: "S = (\<lambda>i j. score R op (row_at (slice_words mem query) d i) (row_at (slice_words mem corpus) d j))"
  shows "\<exists>mem' idx vals.
    execute_vector_search None drv m mem query (int Q) corpus (int N) (int d) (int k) op (int T) weight = Some (mem', Inr (idx, vals)) \<and>
    keeps [] mem mem' \<and>
    (keeps [] mem' M \<and> (\<forall>i < Q. \<forall>j < N. \<not> is_nan f32_infinity (S i j)) \<longrightarrow>
       length idx = Q * k \<and> length vals = Q * k \<and> found R op S (map_option (slice_words mem) weight) Q N k idx vals)"
proof (cases "N \<le> T")
  case True
  obtain mem' r where run: "vector_search_topk_rerank None drv m mem query (int Q) corpus (int N) (int d) (int k) op weight = (mem', r)" by fastforce
  have w: "\<forall>w. weight = Some w \<longrightarrow> slice_ok mem w N" using wt by blast
  note p = pass_ok [OF drv op n(1-3) k sl w run]
  obtain qs cs ws S' pm where S': "S' = (\<lambda>i j. score R op (row_at qs d i) (row_at cs d j))"
    and words: "keeps [] mem' M \<Longrightarrow> qs = slice_words mem query \<and> cs = slice_words mem corpus \<and> ws = map_option (slice_words mem) weight"
    and r: "r = Inr (t_elems (igrid Q k pm), t_elems (grid Q k (\<lambda>i j. hit_value R ws (pm i j) (S' i (pm i j)))))"
    and pm: "\<forall>i < Q. \<forall>j < k. pm i j < N"
    and top: "\<forall>i < Q. (\<forall>j < N. \<not> is_nan f32_infinity (S' i j)) \<longrightarrow> top_of {..<N} (\<lambda>j. rank_of op (S' i j)) k (map (pm i) [0..<k])"
    using p(2) [OF ok] by blast
  have "found R op S (map_option (slice_words mem) weight) Q N k (t_elems (igrid Q k pm)) (t_elems (grid Q k (\<lambda>i j. hit_value R ws (pm i j) (S' i (pm i j)))))"
    if M: "keeps [] mem' M" and nan: "\<forall>i < Q. \<forall>j < N. \<not> is_nan f32_infinity (S i j)"
  proof -
    have e: "S' = S" "ws = map_option (slice_words mem) weight" using words [OF M] by (simp_all add: S S')
    have "\<forall>i < Q. top_of {..<N} (\<lambda>j. rank_of op (S i j)) k (map (pm i) [0..<k])" using top nan by (simp add: e)
    then show ?thesis unfolding e by (rule pass_found [OF pm n(2)])
  qed
  then show ?thesis using run r p(1) True by (auto simp: execute_vector_search_def vector_search_topk_tiled_def)
next
  case False
  then have w: "weight = None" using wt by (cases weight) auto
  let ?b = "replicate Q []"
  have u: "as_usize (int Q) = Q" "as_usize (min (int k) (int N)) = k" using n k by (simp_all add: as_usize_id min_def)
  obtain mem' best where b: "tile_loop None drv m query (int Q) corpus (int N) (int d) k op (int T) None mem ?b (int 0) = Some (mem', Inr best)"
    and kb: "keeps [] mem mem'" "length best = Q"
    and inv: "keeps [] mem' M \<and> (\<forall>i < Q. \<forall>j < N. \<not> is_nan f32_infinity (S i j)) \<and>
        (\<forall>i < Q. \<exists>js. ?b ! i = pairs (S i) js \<and> top_of {..<0} (\<lambda>j. rank_of op (S i j)) k js) \<longrightarrow>
        (\<forall>i < Q. \<exists>js. best ! i = pairs (S i) js \<and> top_of {..<N} (\<lambda>j. rank_of op (S i j)) k js)"
    using tile_loop_ok [where best = ?b and a = 0, OF drv op n k(1) T ok S le0 length_replicate sl refl refl] by (elim exE conjE) (rule that)
  have "\<forall>i < Q. \<exists>js. ?b ! i = pairs (S i) js \<and> top_of {..<0} (\<lambda>j. rank_of op (S i j)) k js"
    by (auto simp: pairs_def top_of_def)
  then have "\<forall>i < Q. \<exists>js. best ! i = pairs (S i) js \<and> top_of {..<N} (\<lambda>j. rank_of op (S i j)) k js"
    if "keeps [] mem' M" "\<forall>i < Q. \<forall>j < N. \<not> is_nan f32_infinity (S i j)" using inv that by blast
  then show ?thesis
    using False w b kb u n(1) tiles_found(1) [OF kb(2) k(2) n(2), of S op R] tiles_found(2,3) [OF kb(2) k(2) n(2), of S op]
    by (auto simp: execute_vector_search_def vector_search_topk_tiled_def)
qed

text \<open>A query (2, 1) against the rows (0, 0), (2, 2) and (5, 5), one row to a tile, over integer arithmetic.\<close>

definition word_ops :: array_ops where
  "word_ops = \<lparr>aadd = (+), asub = (-), amul = (*), adiv = (div), asqrt = (\<lambda>x. x), aexp = (\<lambda>x. 4 - fmag x), asum = (\<lambda>xs. foldr (+) xs 0),
     amean = (\<lambda>xs. foldr (+) xs 0 div of_nat (length xs)), adot = (\<lambda>xs ys. foldr (+) (map2 (*) xs ys) 0)\<rparr>"

definition search_mem :: mem where
  "search_mem = \<lparr>heap = (\<lambda>x. if x \<in> {16, 40, 44} then 2 else if x = 20 then 1 else if x \<in> {48, 52} then 5 else 0), live = [(16, 8), (32, 24)]\<rparr>"

lemma search_values:
  "score word_ops op_knn_l2 (row_at (slice_words search_mem (16, 2)) 2 0) (row_at (slice_words search_mem (32, 6)) 2 0) = 5"
  "score word_ops op_knn_l2 (row_at (slice_words search_mem (16, 2)) 2 0) (row_at (slice_words search_mem (32, 6)) 2 1) = 1"
  "score word_ops op_knn_l2 (row_at (slice_words search_mem (16, 2)) 2 0) (row_at (slice_words search_mem (32, 6)) 2 2) = 25"
  by code_simp+

lemma search_scores:
  "rank_of op_knn_l2 5 = 5" "rank_of op_knn_l2 1 = 1" "rank_of op_knn_l2 25 = 25"
  "\<not> is_nan f32_infinity 5" "\<not> is_nan f32_infinity 1" "\<not> is_nan f32_infinity 25"
  by code_simp+

lemma vector_search_correct_witness:
  "\<exists>mem' idx vals. execute_vector_search None bump_driver (tensor_mlx word_ops search_mem) search_mem (16, 2) 1 (32, 6) 3 2 2 op_knn_l2 1 None =
     Some (mem', Inr (idx, vals)) \<and> set (hits_of 2 idx 0) = {0, 1}"
proof -
  let ?m = "tensor_mlx word_ops search_mem"
  define S where S: "S = (\<lambda>i j. score word_ops op_knn_l2 (row_at (slice_words search_mem (16, 2)) 2 i) (row_at (slice_words search_mem (32, 6)) 2 j))"
  have sl: "slice_ok search_mem (16, 2) (1 * 2)" "slice_ok search_mem (32, 6) (3 * 2)" by (simp_all add: slice_ok_def within_def search_mem_def)
  obtain mem' idx vals where
    run: "execute_vector_search None bump_driver ?m search_mem (16, 2) (int 1) (32, 6) (int 3) (int 2) (int 2) op_knn_l2 (int 1) None = Some (mem', Inr (idx, vals))"
    and best: "keeps [] mem' search_mem \<and> (\<forall>i < 1. \<forall>j < 3. \<not> is_nan f32_infinity (S i j)) \<longrightarrow>
       length idx = 1 * 2 \<and> length vals = 1 * 2 \<and> found word_ops op_knn_l2 S (map_option (slice_words search_mem) None) 1 3 2 idx vals"
    by (rule exE [OF vector_search_correct [where weight = None and op = op_knn_l2 and T = 1 and k = 2,
        OF bump_driver_ok bump_driver_obliging disjI2 [OF refl] _ _ _ _ _ _ _ sl _ tensor_mlx_ok S]]) (simp_all, blast)
  have "is_ptr_page_aligned bump_driver (32 + 4 * x)" for x
    by (simp add: is_ptr_page_aligned_def bump_driver_def is_aligned_dvd [of _ 2, simplified])
  then have "mem' = search_mem"
    using run tile_loop_aligned [of bump_driver "(16, 2)" "(32, 6)" 1 None None ?m 1 3 2 2 op_knn_l2 search_mem "[[]]" 0 mem']
    by (auto simp: execute_vector_search_def vector_search_topk_tiled_def as_usize_def is_ptr_page_aligned_def bump_driver_def is_aligned_def
      split: sum.splits)
  moreover have vals3: "S 0 0 = 5" "S 0 1 = 1" "S 0 2 = 25" unfolding S by (rule search_values)+
  moreover have lt3: "j < 3 \<longleftrightarrow> j = 0 \<or> j = 1 \<or> j = 2" for j :: nat by auto
  ultimately have "top_of {..<3} (\<lambda>j. rank_of op_knn_l2 (S 0 j)) 2 (hits_of 2 idx 0)"
    using best by (auto simp: found_def search_scores)
  then have h: "distinct (hits_of 2 idx 0)" "set (hits_of 2 idx 0) \<subseteq> {0, 1, 2}" "length (hits_of 2 idx 0) = 2"
    and o: "\<forall>i \<in> set (hits_of 2 idx 0). \<forall>j \<in> {0, 1, 2} - set (hits_of 2 idx 0). rank_of op_knn_l2 (S 0 i) \<le> rank_of op_knn_l2 (S 0 j)"
    by (auto simp: top_of_def lt3 [folded lessThan_iff])
  have c: "card (set (hits_of 2 idx 0)) = 2" using h distinct_card by fastforce
  have "2 \<notin> set (hits_of 2 idx 0)"
  proof
    assume "2 \<in> set (hits_of 2 idx 0)"
    then have le: "rank_of op_knn_l2 (S 0 2) \<le> rank_of op_knn_l2 (S 0 j)" if "j \<in> {0, 1, 2} - set (hits_of 2 idx 0)" for j
      using o that by blast
    have "0 \<in> set (hits_of 2 idx 0)" using le [of 0] unfolding vals3 search_scores by auto
    moreover have "1 \<in> set (hits_of 2 idx 0)" using le [of 1] unfolding vals3 search_scores by auto
    ultimately have "{0, 1} \<subseteq> set (hits_of 2 idx 0)" by simp
    then have "card {0, 1, 2 :: nat} \<le> card (set (hits_of 2 idx 0))" using \<open>2 \<in> _\<close> by (intro card_mono) auto
    then show False using c by simp
  qed
  then have "set (hits_of 2 idx 0) \<subseteq> {0, 1}" using h(2) by auto
  then have "set (hits_of 2 idx 0) = {0, 1}" using c by (intro card_subset_eq) auto
  with run show ?thesis by auto
qed

section \<open>Weights and tiles\<close>

text \<open>A tile of one row: its only candidate joins with its reranked value.\<close>

lemma single_row_tile:
  assumes drv: "driver_ok drv" "obliging drv" and op: "op = op_cosine \<or> op = op_knn_l2" and ok: "mlx_ok m sem R M" and d: "2 * d < 2 ^ 63"
    and sl: "slice_ok mem query d" "slice_ok mem corpus (2 * d)" "slice_ok mem w 2" and a: "a < 2"
    and h: "h = (\<lambda>j. hit_value R (Some (slice_words mem w)) j (score R op (row_at (slice_words mem query) d 0) (row_at (slice_words mem corpus) d j)))"
  shows "\<exists>m1 v. tile_loop None drv m query 1 corpus 2 (int d) 1 op 1 (Some w) mem [xs] (int a) =
      tile_loop None drv m query 1 corpus 2 (int d) 1 op 1 (Some w) m1 [keep_best op 1 (xs @ [(of_nat a, v)])] (int a + 1) \<and>
    keeps [] mem m1 \<and> (keeps [] m1 M \<longrightarrow> v = h a)"
proof -
  define tile where tile: "tile = (fst corpus + 4 * (a * d), 1 * d)"
  define wt where wt: "wt = (fst w + 4 * (a * 1), 1 * 1 :: nat)"
  have a2: "a + 1 \<le> 2" using a by simp
  note t = subslice_tile [OF sl(2) a2 _ d, folded tile]
  have sl3: "slice_ok mem w (2 * 1)" using sl(3) by simp
  note u = subslice_tile [OF sl3 a2, folded wt]
  have sq: "slice_ok mem query (1 * d)" using sl(1) by simp
  obtain m1 r where run: "vector_search_topk_rerank None drv m mem query (int 1) tile (int 1) (int d) (int 1) op (Some wt) = (m1, r)" by fastforce
  have wts: "\<forall>s. Some wt = Some s \<longrightarrow> slice_ok mem s 1" using u(2) by simp
  have sc: "slice_ok mem tile (1 * d)" using t(2) by simp
  have n: "(1 :: nat) < 2 ^ 31" "1 * (1 :: nat) < 2 ^ 31" "0 < (1 :: nat)" "(1 :: nat) \<le> 1" by simp_all
  note p = pass_ok [OF drv op n(1,1-4) sq sc wts run]
  obtain qs cs ws S pm where S: "S = (\<lambda>i j. score R op (row_at qs d i) (row_at cs d j))"
    and words: "keeps [] m1 M \<longrightarrow> qs = slice_words mem query \<and> cs = slice_words mem tile \<and> ws = map_option (slice_words mem) (Some wt)"
    and r: "r = Inr (t_elems (igrid 1 1 pm), t_elems (grid 1 1 (\<lambda>i j. hit_value R ws (pm i j) (S i (pm i j)))))"
    and pm1: "\<forall>i < 1. \<forall>j < 1. pm i j < 1"
    using p(2) [OF ok] by (elim exE conjE) (rule that)
  have pm: "pm 0 0 = 0" using pm1 by simp
  let ?v = "hit_value R ws 0 (S 0 0)"
  have i: "t_elems (igrid 1 1 pm) = [0]" "t_elems (grid 1 1 (\<lambda>i j. hit_value R ws (pm i j) (S i (pm i j)))) = [?v]"
    by (simp_all add: igrid_def grid_def pm)
  have off: "as_i32 (int a) = int a" using a by (simp add: as_i32_id)
  have mg: "merge_tile op 1 1 (int a) [0] [?v] [xs] = Some [keep_best op 1 (xs @ [(of_nat a, ?v)])]"
    by (simp add: merge_tile_def off)
  have rows: "min (2 - int a) 1 = 1" using a by simp
  have us: "as_usize 1 = 1" "as_i64 (Suc 0) = 1" by (simp_all add: as_usize_def as_i64_id)
  have step: "tile_loop None drv m query 1 corpus 2 (int d) 1 op 1 (Some w) mem [xs] (int a) =
      tile_loop None drv m query 1 corpus 2 (int d) 1 op 1 (Some w) m1 [keep_best op 1 (xs @ [(of_nat a, ?v)])] (int a + 1)"
    using a t(1) u(1) run r mg i by (subst tile_loop.simps) (simp add: rows us Let_def)
  have "?v = h a" if "keeps [] m1 M"
  proof -
    have "slice_words mem wt ! 0 = slice_words mem w ! a" using sl(3) a by (simp add: wt slice_ok_def words_at_nth mult.commute)
    moreover have "row_at (slice_words mem tile) d 0 = row_at (slice_words mem corpus) d a" using t(3) [of 0] by simp
    ultimately show ?thesis using mp [OF words that] by (simp add: h S hit_value_def)
  qed
  moreover have "keeps [] mem m1" by (rule p(1))
  ultimately show ?thesis using step by blast
qed


lemma whole_corpus:
  assumes drv: "driver_ok drv" "obliging drv" and op: "op = op_cosine \<or> op = op_knn_l2" and ok: "mlx_ok m sem R M"
    and sl: "slice_ok mem query d" "slice_ok mem corpus (2 * d)" "slice_ok mem w 2"
    and S: "S = (\<lambda>j. score R op (row_at (slice_words mem query) d 0) (row_at (slice_words mem corpus) d j))"
    and nan: "\<not> is_nan f32_infinity (S 0)" "\<not> is_nan f32_infinity (S 1)" and less: "rank_of op (S 0) < rank_of op (S 1)"
  shows "\<exists>m1 idx vals. execute_vector_search None drv m mem query 1 corpus 2 (int d) 1 op 2 (Some w) = Some (m1, Inr (idx, vals)) \<and>
    keeps [] mem m1 \<and> (keeps [] m1 M \<longrightarrow> idx = [0])"
proof -
  obtain m1 r where run: "vector_search_topk_rerank None drv m mem query (int 1) corpus (int 2) (int d) (int 1) op (Some w) = (m1, r)" by fastforce
  have n: "(1 :: nat) < 2 ^ 31" "(2 :: nat) < 2 ^ 31" "1 * (1 :: nat) < 2 ^ 31" "0 < (1 :: nat)" "(1 :: nat) \<le> 2" by simp_all
  have sq: "slice_ok mem query (1 * d)" and wts: "\<forall>s. Some w = Some s \<longrightarrow> slice_ok mem s 2" using sl by simp_all
  note p = pass_ok [OF drv op n sq sl(2) wts run]
  obtain qs cs ws S' pm where S': "S' = (\<lambda>i j. score R op (row_at qs d i) (row_at cs d j))"
    and words: "keeps [] m1 M \<longrightarrow> qs = slice_words mem query \<and> cs = slice_words mem corpus \<and> ws = map_option (slice_words mem) (Some w)"
    and r: "r = Inr (t_elems (igrid 1 1 pm), t_elems (grid 1 1 (\<lambda>i j. hit_value R ws (pm i j) (S' i (pm i j)))))"
    and top: "\<forall>i < 1. (\<forall>j < 2. \<not> is_nan f32_infinity (S' i j)) \<longrightarrow> top_of {..<2} (\<lambda>j. rank_of op (S' i j)) 1 (map (pm i) [0..<1])"
    using p(2) [OF ok] by (elim exE conjE) (rule that)
  have "pm 0 0 = 0" if "keeps [] m1 M"
  proof -
    have e: "S' 0 j = S j" for j using mp [OF words that] by (simp add: S S')
    have "\<forall>j < 2. \<not> is_nan f32_infinity (S' 0 j)" using nan by (auto simp: e less_2_cases_iff)
    then have "top_of {..<2} (\<lambda>j. rank_of op (S j)) 1 [pm 0 0]" using top by (simp add: e)
    then have "pm 0 0 < 2" "0 \<noteq> pm 0 0 \<Longrightarrow> rank_of op (S (pm 0 0)) \<le> rank_of op (S 0)" by (auto simp: top_of_def)
    then show ?thesis using less by (auto simp: less_2_cases_iff)
  qed
  then show ?thesis
    using run r p(1) by (simp add: execute_vector_search_def vector_search_topk_tiled_def igrid_def grid_def)
qed

text \<open>With weights, tiles change the answer: of two rows, the one with the better score is returned when MLX sees both at once,
  and the one with the better reranked value when each is a tile of its own.\<close>

theorem reranked_tiles_differ:
  assumes drv: "driver_ok drv" "obliging drv" and op: "op = op_cosine \<or> op = op_knn_l2" and ok: "mlx_ok m sem R M" and d: "2 * d < 2 ^ 63"
    and sl: "slice_ok mem query d" "slice_ok mem corpus (2 * d)" "slice_ok mem w 2"
    and S: "S = (\<lambda>j. score R op (row_at (slice_words mem query) d 0) (row_at (slice_words mem corpus) d j))"
    and h: "h = (\<lambda>j. hit_value R (Some (slice_words mem w)) j (S j))"
    and nan: "\<not> is_nan f32_infinity (S 0)" "\<not> is_nan f32_infinity (S 1)"
    and less: "rank_of op (S 0) < rank_of op (S 1)" "rank_key op (1, h 1) < rank_key op (0, h 0)"
  shows "\<exists>m1 idx1 vals1 m2 idx2 vals2.
    execute_vector_search None drv m mem query 1 corpus 2 (int d) 1 op 2 (Some w) = Some (m1, Inr (idx1, vals1)) \<and>
    execute_vector_search None drv m mem query 1 corpus 2 (int d) 1 op 1 (Some w) = Some (m2, Inr (idx2, vals2)) \<and>
    keeps [] mem m1 \<and> keeps [] mem m2 \<and> (keeps [] m1 M \<longrightarrow> idx1 = [0]) \<and> (keeps [] m2 M \<longrightarrow> idx2 = [1])"
proof -
  let ?loop = "\<lambda>mem best off. tile_loop None drv m query 1 corpus 2 (int d) 1 op 1 (Some w) mem best off"
  obtain m1 idx1 vals1 where 1: "execute_vector_search None drv m mem query 1 corpus 2 (int d) 1 op 2 (Some w) = Some (m1, Inr (idx1, vals1))"
    "keeps [] mem m1" "keeps [] m1 M \<longrightarrow> idx1 = [0]"
    using whole_corpus [OF drv op ok sl S nan less(1)] by blast
  obtain ma va where a: "?loop mem [[]] (int 0) = ?loop ma [keep_best op 1 ([] @ [(of_nat 0, va)])] (int 0 + 1)" "keeps [] mem ma"
    "keeps [] ma M \<longrightarrow> va = h 0"
    using single_row_tile [where a = 0 and xs = "[]", OF drv op ok d sl _ h [unfolded S]] by auto
  have sl': "slice_ok ma query d" "slice_ok ma corpus (2 * d)" "slice_ok ma w 2" and
    h': "h = (\<lambda>j. hit_value R (Some (slice_words ma w)) j (score R op (row_at (slice_words ma query) d 0) (row_at (slice_words ma corpus) d j)))"
    using slice_kept [OF a(2) sl(1)] slice_kept [OF a(2) sl(2)] slice_kept [OF a(2) sl(3)] by (simp_all add: h S)
  obtain mb vb where b: "?loop ma [[(0, va)]] (int 1) = ?loop mb [keep_best op 1 ([(0, va)] @ [(of_nat 1, vb)])] (int 1 + 1)" "keeps [] ma mb"
    "keeps [] mb M \<longrightarrow> vb = h 1"
    using single_row_tile [where a = 1 and xs = "[(0, va)]", OF drv op ok d sl' _ h'] by auto
  let ?best = "keep_best op 1 [(0, va), (1, vb)]"
  have "keep_best op 1 [(0, va)] = [(0, va)]" by (simp add: keep_best_def)
  then have "?loop mem [[]] 0 = ?loop mb [?best] 2" using a(1) b(1) by simp
  also have "\<dots> = Some (mb, Inr [?best])" by (subst tile_loop.simps) simp
  finally have run: "execute_vector_search None drv m mem query 1 corpus 2 (int d) 1 op 1 (Some w) = Some (mb, Inr (map fst ?best, map snd ?best))"
    by (simp add: execute_vector_search_def vector_search_topk_tiled_def as_usize_def)
  have "keeps [] mb M \<longrightarrow> map fst ?best = [1]"
  proof
    assume M: "keeps [] mb M"
    have "va = h 0" "vb = h 1" using a(3) b(3) M keeps_trans [OF b(2) M] by blast+
    then show "map fst ?best = [1]" using less(2) by (simp add: keep_best_def)
  qed
  with 1 run keeps_trans [OF a(2) b(2)] show ?thesis by (intro exI conjI) assumption+
qed

definition rerank_mem :: mem where
  "rerank_mem = \<lparr>heap = (\<lambda>x. if x \<in> {16, 32, 36} then 2 else if x \<in> {20, 40} then 1 else if x = 68 then 3 else 0), live = [(16, 8), (32, 16), (64, 8)]\<rparr>"

text \<open>Scores 1 and 2, reranked to 4 and 2.\<close>

lemma rerank_values:
  "score word_ops op_knn_l2 (row_at (slice_words rerank_mem (16, 2)) 2 0) (row_at (slice_words rerank_mem (32, 4)) 2 0) = 1"
  "score word_ops op_knn_l2 (row_at (slice_words rerank_mem (16, 2)) 2 0) (row_at (slice_words rerank_mem (32, 4)) 2 1) = 2"
  "hit_value word_ops (Some (slice_words rerank_mem (64, 2))) 0 1 = 4" "hit_value word_ops (Some (slice_words rerank_mem (64, 2))) 1 2 = 2"
  "\<not> is_nan f32_infinity 1" "\<not> is_nan f32_infinity 2" "rank_of op_knn_l2 1 < rank_of op_knn_l2 2" "rank_key op_knn_l2 (1, 2) < rank_key op_knn_l2 (0, 4)"
  by code_simp+

lemma reranked_tiles_differ_witness:
  "\<exists>m1 vals1 m2 vals2. let run = (\<lambda>T. execute_vector_search None bump_driver (tensor_mlx word_ops rerank_mem) rerank_mem
       (16, 2) 1 (32, 4) 2 2 1 op_knn_l2 T (Some (64, 2))) in
     run 2 = Some (m1, Inr ([0], vals1)) \<and> run 1 = Some (m2, Inr ([1], vals2))"
proof -
  let ?m = "tensor_mlx word_ops rerank_mem"
  define S where S: "S = (\<lambda>j. score word_ops op_knn_l2 (row_at (slice_words rerank_mem (16, 2)) 2 0) (row_at (slice_words rerank_mem (32, 4)) 2 j))"
  define h where h: "h = (\<lambda>j. hit_value word_ops (Some (slice_words rerank_mem (64, 2))) j (S j))"
  have Sv: "S 0 = 1" "S 1 = 2" unfolding S by (rule rerank_values)+
  have hv: "h 0 = 4" "h 1 = 2" unfolding h Sv by (rule rerank_values)+
  have sl: "slice_ok rerank_mem (16, 2) 2" "slice_ok rerank_mem (32, 4) (2 * 2)" "slice_ok rerank_mem (64, 2) 2"
    by (simp_all add: slice_ok_def within_def rerank_mem_def)
  have d: "2 * (2 :: nat) < 2 ^ 63" by simp
  have al: "is_ptr_page_aligned bump_driver (4 * x)" for x
    by (simp add: is_ptr_page_aligned_def bump_driver_def is_aligned_dvd [of _ 2, simplified])
  have al': "is_ptr_page_aligned bump_driver 16" "is_ptr_page_aligned bump_driver (32 + 4 * x)" "is_ptr_page_aligned bump_driver (64 + 4 * x)" for x
    using al [of 4] al [of "8 + x"] al [of "16 + x"] by simp_all
  obtain m1 idx1 vals1 m2 idx2 vals2 where
    r1: "execute_vector_search None bump_driver ?m rerank_mem (16, 2) 1 (32, 4) 2 (int 2) 1 op_knn_l2 2 (Some (64, 2)) = Some (m1, Inr (idx1, vals1))" and
    r2: "execute_vector_search None bump_driver ?m rerank_mem (16, 2) 1 (32, 4) 2 (int 2) 1 op_knn_l2 1 (Some (64, 2)) = Some (m2, Inr (idx2, vals2))" and
    idx: "keeps [] m1 rerank_mem \<longrightarrow> idx1 = [0]" "keeps [] m2 rerank_mem \<longrightarrow> idx2 = [1]"
    using reranked_tiles_differ [OF bump_driver_ok bump_driver_obliging disjI2 [OF refl] tensor_mlx_ok d sl S h] rerank_values(5-8)
    unfolding Sv hv by blast
  have "m1 = rerank_mem"
    using r1 pass_aligned [of bump_driver "(16, 2)" "(32, 4)" "Some (64, 2)" None ?m rerank_mem 1 2 2 1 op_knn_l2 m1] al'(1) al'(2) [of 0] al'(3) [of 0]
    by (simp add: execute_vector_search_def vector_search_topk_tiled_def)
  moreover have "m2 = rerank_mem"
    using r2 tile_loop_aligned [of bump_driver "(16, 2)" "(32, 4)" 1 "Some (64, 2)" None ?m 1 2 2 1 op_knn_l2 rerank_mem "[[]]" 0 m2] al'
    by (auto simp: execute_vector_search_def vector_search_topk_tiled_def as_usize_def split: sum.splits)
  ultimately show ?thesis using r1 r2 idx by (auto simp: Let_def)
qed

end
