(* ===== verification/Correlation.thy ===== *)
theory Correlation
  imports Vector_Search
begin

text \<open>Models \<open>polars-metal-core/src/corr.rs\<close>: the Pearson correlation matrix of the rows of a matrix, as one MLX graph that centres
  the rows, scales them to unit length and multiplies them with their transpose.\<close>

section \<open>The graph\<close>

definition corr_graph :: "'h mlx \<Rightarrow> 'h mlx_array \<Rightarrow> int \<Rightarrow> mlx_error + u32 list" where
  "corr_graph m x p =
     rbind (mlx_mean_axis m x 1) (\<lambda>avg.
     rbind (mlx_reshape m avg [as_i32 p, 1]) (\<lambda>mean.
     rbind (binop m ''mlx_op_sub'' x mean) (\<lambda>xc.
     rbind (binop m ''mlx_op_mul'' xc xc) (\<lambda>sq.
     rbind (mlx_sum_axis m sq 1) (\<lambda>ss.
     rbind (mlx_reshape m ss [as_i32 p, 1]) (\<lambda>rowss.
     rbind (unop m ''mlx_op_sqrt'' rowss) (\<lambda>norm.
     rbind (binop m ''mlx_op_div'' xc norm) (\<lambda>zn.
     rbind (mlx_transpose m zn [1, 0]) (\<lambda>zt.
     rbind (mlx_matmul m zn zt) (\<lambda>c.
     rbind (mlx_array_eval m [c]) (\<lambda>_.
     mlx_to_words m MF32 c)))))))))))"

definition corr_matrix ::
  "string option \<Rightarrow> driver \<Rightarrow> 'h mlx \<Rightarrow> mem \<Rightarrow> slice \<Rightarrow> int \<Rightarrow> int \<Rightarrow> mem \<times> (search_error + u32 list)" where
  "corr_matrix no_device drv m mem data p n =
     (if p > 2 ^ 31 - 1 then (mem, Inl (TooManyColumns p))
      else case view2d no_device drv m mem data p n of
             (mem', Inl e) \<Rightarrow> (mem', Inl e)
           | (mem', Inr x) \<Rightarrow> (mem', mlx_failed (corr_graph m x p)))"

datatype corr_error = CorrDimensions | CorrFailed search_error

definition usize_saturating_mul :: "nat \<Rightarrow> nat \<Rightarrow> nat" where "usize_saturating_mul a b = min (a * b) (2 ^ 64 - 1)"

definition execute_corr ::
  "string option \<Rightarrow> driver \<Rightarrow> 'h mlx \<Rightarrow> mem \<Rightarrow> slice \<Rightarrow> int \<Rightarrow> int \<Rightarrow> mem \<times> (corr_error + u32 list)" where
  "execute_corr no_device drv m mem data p n =
     (if n < 0 \<or> p < 0 \<or> usize_saturating_mul (as_usize p) (as_usize n) \<noteq> snd data then (mem, Inl CorrDimensions)
      else case corr_matrix no_device drv m mem data p n of
             (mem', Inl e) \<Rightarrow> (mem', Inl (CorrFailed e))
           | (mem', Inr c) \<Rightarrow> (mem', Inr c))"

section \<open>What it computes\<close>

text \<open>A row less its mean, scaled to unit length.\<close>

definition standardized :: "array_ops \<Rightarrow> u32 list \<Rightarrow> u32 list" where
  "standardized R xs = unit_row R (map (\<lambda>x. asub R x (amean R xs)) xs)"

lemma corr_graph_ok:
  assumes ok: "mlx_ok m sem R M" and x: "sem (ma_ptr x) = grid a b f" and a: "a < 2 ^ 31"
  shows "corr_graph m x (int a) =
    Inr (t_elems (grid a a (\<lambda>i j. adot R (standardized R (map (f i) [0..<b])) (standardized R (map (f j) [0..<b])))))"
proof -
  let ?mean = "\<lambda>i. amean R (map (f i) [0..<b])"
  let ?c = "\<lambda>i j. asub R (f i j) (?mean i)"
  let ?ss = "\<lambda>i. asum R (map (\<lambda>j. amul R (?c i j) (?c i j)) [0..<b])"
  have p: "as_i32 (int a) = int a" using a by (simp add: as_i32_id)
  obtain avg where avg: "mlx_mean_axis m x 1 = Inr avg" "sem (ma_ptr avg) = vec a ?mean" using ok_mean [OF ok x] by blast
  obtain mean where mean: "mlx_reshape m avg [int a, 1] = Inr mean" "sem (ma_ptr mean) = grid a 1 (\<lambda>i j. ?mean i)"
    using ok_column [OF ok avg(2) refl] by blast
  obtain xc where xc: "binop m ''mlx_op_sub'' x mean = Inr xc" "sem (ma_ptr xc) = grid a b ?c"
    using ok_by_column [OF ok fns(2) x mean(2)] by blast
  obtain sq where sq: "binop m ''mlx_op_mul'' xc xc = Inr sq" "sem (ma_ptr sq) = grid a b (\<lambda>i j. amul R (?c i j) (?c i j))"
    using ok_same [OF ok fns(3) xc(2) xc(2)] by blast
  obtain ss where ss: "mlx_sum_axis m sq 1 = Inr ss" "sem (ma_ptr ss) = vec a ?ss" using ok_sum [OF ok sq(2)] by blast
  obtain s1 where s1: "mlx_reshape m ss [int a, 1] = Inr s1" "sem (ma_ptr s1) = grid a 1 (\<lambda>i j. ?ss i)"
    using ok_column [OF ok ss(2) refl] by blast
  obtain nm where nm: "unop m ''mlx_op_sqrt'' s1 = Inr nm" "sem (ma_ptr nm) = grid a 1 (\<lambda>i j. asqrt R (?ss i))"
    using ok_unop [OF ok fns(6) s1(2)] by blast
  obtain zn where zn: "binop m ''mlx_op_div'' xc nm = Inr zn" "sem (ma_ptr zn) = grid a b (\<lambda>i j. adiv R (?c i j) (asqrt R (?ss i)))"
    using ok_by_column [OF ok fns(4) xc(2) nm(2)] by blast
  obtain zt where zt: "mlx_transpose m zn [1, 0] = Inr zt" "sem (ma_ptr zt) = grid b a (\<lambda>j i. adiv R (?c i j) (asqrt R (?ss i)))"
    using ok_transpose [OF ok zn(2)] by blast
  have row: "map (\<lambda>j. adiv R (?c i j) (asqrt R (?ss i))) [0..<b] = standardized R (map (f i) [0..<b])" for i
    by (simp add: standardized_def unit_row_def o_def)
  obtain c where c: "mlx_matmul m zn zt = Inr c"
    "sem (ma_ptr c) = grid a a (\<lambda>i j. adot R (standardized R (map (f i) [0..<b])) (standardized R (map (f j) [0..<b])))"
    using ok_matmul [OF ok zn(2) zt(2)] unfolding row by blast
  have "mlx_to_words m MF32 c = Inr (t_elems (sem (ma_ptr c)))" by (rule to_words_ok [OF ok refl]) (simp_all add: c(2))
  then show ?thesis
    using avg(1) mean(1) xc(1) sq(1) ss(1) s1(1) nm(1) zn(1) zt(1) c eval_ok [OF ok] by (simp add: corr_graph_def p result_simps del: mlx_array_eval.simps)
qed

text \<open>The correlation matrix has, in row \<open>i\<close> and column \<open>j\<close>, the product of the centred rows \<open>i\<close> and \<open>j\<close> scaled to unit length,
  and no memory that was live changes. A negative extent or one that does not match the data is an error before any buffer is made.\<close>

theorem correlation_correct:
  assumes drv: "driver_ok drv" "obliging drv" and ok: "mlx_ok m sem R M" and p: "p < 2 ^ 31" "p * n < 2 ^ 63" and sl: "slice_ok mem data (p * n)"
  shows "(\<exists>mem' cs. execute_corr None drv m mem data (int p) (int n) = (mem', Inr cs) \<and> keeps [] mem mem' \<and>
      (keeps [] mem' M \<longrightarrow> length cs = p * p \<and> (\<forall>i < p. \<forall>j < p. cs ! (i * p + j) =
         adot R (standardized R (row_at (slice_words mem data) n i)) (standardized R (row_at (slice_words mem data) n j))))) \<and>
    (\<forall>p' n'. p' < 2 ^ 63 \<and> n' < 2 ^ 63 \<and> (p' < 0 \<or> n' < 0 \<or> p' * n' \<noteq> int (p * n)) \<longrightarrow>
      execute_corr None drv m mem data p' n' = (mem, Inl CorrDimensions))"
proof
  have data: "0 < p * n" "fst data \<noteq> 0" "within mem (fst data) (4 * (p * n))" "(fst data, p * n) = data" "snd data = p * n"
    using sl by (auto simp: slice_ok_def prod_eq_iff)
  have pos: "0 < p" "0 < n" using data(1) by simp_all
  then have le: "p \<le> p * n" "n \<le> p * n" by simp_all
  then have "p < 2 ^ 63" "n < 2 ^ 63" using p(2) by (meson le_less_trans)+
  then have u: "as_usize (int p) = p" "as_usize (int n) = n" by (simp_all add: as_usize_id)
  obtain mem' r where v: "view2d None drv m mem data (int p) (int n) = (mem', r)" by fastforce
  have v': "view2d None drv m mem (fst data, p * n) (int p) (int n) = (mem', r)" using v data(4) by simp
  note w = view2d_ok [OF drv data(1-3) v']
  obtain x ws where x: "r = Inr x" "sem (ma_ptr x) = grid p n (\<lambda>i j. ws ! (i * n + j))"
    and ws: "keeps [] mem' M \<longrightarrow> ws = words_at mem (fst data) (p * n)" using w(2) [OF ok] by blast
  have g: "corr_graph m x (int p) = Inr (t_elems (grid p p (\<lambda>i j. adot R (standardized R (row_at ws n i)) (standardized R (row_at ws n j)))))"
    using corr_graph_ok [OF ok x(2) p(1)] by (simp add: row_at_def)
  have "execute_corr None drv m mem data (int p) (int n) =
      (mem', Inr (t_elems (grid p p (\<lambda>i j. adot R (standardized R (row_at ws n i)) (standardized R (row_at ws n j))))))"
    using v x(1) g u p data(5) by (simp add: execute_corr_def corr_matrix_def usize_saturating_mul_def mlx_failed_def)
  then show "\<exists>mem' cs. execute_corr None drv m mem data (int p) (int n) = (mem', Inr cs) \<and> keeps [] mem mem' \<and>
      (keeps [] mem' M \<longrightarrow> length cs = p * p \<and> (\<forall>i < p. \<forall>j < p. cs ! (i * p + j) =
         adot R (standardized R (row_at (slice_words mem data) n i)) (standardized R (row_at (slice_words mem data) n j))))"
    using w(1) ws by (intro exI conjI) (assumption, assumption, auto simp: grid_at data(5))
  show "\<forall>p' n'. p' < 2 ^ 63 \<and> n' < 2 ^ 63 \<and> (p' < 0 \<or> n' < 0 \<or> p' * n' \<noteq> int (p * n)) \<longrightarrow>
      execute_corr None drv m mem data p' n' = (mem, Inl CorrDimensions)"
  proof (intro allI impI)
    fix p' n' :: int
    assume a: "p' < 2 ^ 63 \<and> n' < 2 ^ 63 \<and> (p' < 0 \<or> n' < 0 \<or> p' * n' \<noteq> int (p * n))"
    have "usize_saturating_mul (as_usize p') (as_usize n') \<noteq> p * n" if "0 \<le> p'" "0 \<le> n'"
    proof -
      have "as_usize p' = nat p'" "as_usize n' = nat n'" using a that by (simp_all add: as_usize_id)
      moreover have "nat p' * nat n' \<noteq> p * n" using a that by (metis nat_mult_distrib nat_int int_nat_eq not_less of_nat_mult)
      ultimately show ?thesis using p(2) by (auto simp: usize_saturating_mul_def min_def)
    qed
    then show "execute_corr None drv m mem data p' n' = (mem, Inl CorrDimensions)" by (auto simp: execute_corr_def data(5))
  qed
qed

text \<open>The rows (0, 1) and (3, 2) over integer arithmetic.\<close>

definition corr_mem :: mem where
  "corr_mem = \<lparr>heap = (\<lambda>x. if x = 36 then 1 else if x = 40 then 3 else if x = 44 then 2 else 0), live = [(32, 16)]\<rparr>"

lemma corr_cells:
  "adot word_ops (standardized word_ops (row_at (slice_words corr_mem (32, 4)) 2 0)) (standardized word_ops (row_at (slice_words corr_mem (32, 4)) 2 0)) = 1"
  "adot word_ops (standardized word_ops (row_at (slice_words corr_mem (32, 4)) 2 0)) (standardized word_ops (row_at (slice_words corr_mem (32, 4)) 2 1)) = 0"
  "adot word_ops (standardized word_ops (row_at (slice_words corr_mem (32, 4)) 2 1)) (standardized word_ops (row_at (slice_words corr_mem (32, 4)) 2 0)) = 0"
  "adot word_ops (standardized word_ops (row_at (slice_words corr_mem (32, 4)) 2 1)) (standardized word_ops (row_at (slice_words corr_mem (32, 4)) 2 1)) = 1"
  by code_simp+

lemma correlation_correct_witness:
  "execute_corr None bump_driver (tensor_mlx word_ops corr_mem) corr_mem (32, 4) 2 2 = (corr_mem, Inr [1, 0, 0, 1]) \<and>
   execute_corr None bump_driver (tensor_mlx word_ops corr_mem) corr_mem (32, 4) (- 2) (- 2) = (corr_mem, Inl CorrDimensions)"
proof -
  let ?m = "tensor_mlx word_ops corr_mem"
  have sl: "slice_ok corr_mem (32, 4) (2 * 2)" by (simp add: slice_ok_def within_def corr_mem_def)
  note c = correlation_correct [OF bump_driver_ok bump_driver_obliging tensor_mlx_ok [of word_ops corr_mem] _ _ sl]
  obtain mem' cs where run: "execute_corr None bump_driver ?m corr_mem (32, 4) (int 2) (int 2) = (mem', Inr cs)"
    and cs: "keeps [] mem' corr_mem \<longrightarrow> length cs = 2 * 2 \<and> (\<forall>i < 2. \<forall>j < 2. cs ! (i * 2 + j) =
       adot word_ops (standardized word_ops (row_at (slice_words corr_mem (32, 4)) 2 i)) (standardized word_ops (row_at (slice_words corr_mem (32, 4)) 2 j)))"
    using conjunct1 [OF c] by auto
  have "is_ptr_page_aligned bump_driver 32" by (simp add: is_ptr_page_aligned_def bump_driver_def is_aligned_def)
  then have mem': "mem' = corr_mem"
    using run view_shaped_aligned [of bump_driver "(32, 4)" None ?m corr_mem "[2, 2]"]
    by (auto simp: execute_corr_def corr_matrix_def view2d_def split: sum.splits prod.splits if_splits)
  have at: "cs ! (i * 2 + j) =
       adot word_ops (standardized word_ops (row_at (slice_words corr_mem (32, 4)) 2 i)) (standardized word_ops (row_at (slice_words corr_mem (32, 4)) 2 j))"
    if "i < 2" "j < 2" for i j using cs that by (simp add: mem')
  have len: "length cs = 4" using cs by (simp add: mem')
  have "cs ! 0 = 1" "cs ! 1 = 0" using at [of 0 0, unfolded corr_cells] at [of 0 1, unfolded corr_cells] by simp_all
  moreover have "cs ! 2 = 0" "cs ! 3 = 1" using at [of 1 0, unfolded corr_cells] at [of 1 1, unfolded corr_cells] by simp_all
  ultimately have "cs = [1, 0, 0, 1]" using len by (intro nth_equalityI) (auto simp: less_Suc_eq nth_Cons' numeral_eq_Suc)
  then show ?thesis using run conjunct2 [OF c] by (simp add: mem')
qed

end
